(* ===== verification/Rmdb_Base.thy ===== *)
theory Rmdb_Base
  imports Main "HOL-Library.Word"
begin

text \<open>
  The prelude of the development: the errors of \<^verbatim>\<open>src/src/errors.h\<close>, the constants of
  \<^verbatim>\<open>common/config.h\<close>, the shape of a member function that may throw (it returns either an
  error or a value, and in both cases the state it leaves behind), memory as a function from
  offsets to bytes, and the little-endian encoding of integers.
\<close>

unbundle bit_operations_syntax

named_theorems mem_simps \<open>reading back what was written to a memory\<close>
named_theorems run_simps \<open>running a member function\<close>

type_synonym byte = "8 word"
type_synonym bytes = "byte list"

section \<open>Errors\<close>

text \<open>
  The classes of \<^verbatim>\<open>errors.h\<close> and the \<^verbatim>\<open>TransactionAbortException\<close> of
  \<^verbatim>\<open>transaction/txn_defs.h\<close>, plus \<open>AssertionFailure\<close> for a failing
  \<^verbatim>\<open>assert\<close> and \<open>StdOutOfRange\<close> for the exception of \<^verbatim>\<open>std::map::at\<close>.
\<close>

datatype abort_reason = LOCK_ON_SHIRINKING | UPGRADE_CONFLICT | DEADLOCK_PREVENTION

datatype rmdb_error =
    RMDBError string
  | InternalError string
  | UnixError
  | FileNotOpenError int
  | FileNotClosedError string
  | FileExistsError string
  | FileNotFoundError string
  | RecordNotFoundError int int
  | InvalidRecordSizeError int
  | InvalidColLengthError int
  | IndexEntryNotFoundError
  | DatabaseNotFoundError string
  | DatabaseExistsError string
  | TableNotFoundError string
  | TableExistsError string
  | ColumnNotFoundError string
  | IndexNotFoundError string "string list"
  | IndexExistsError string "string list"
  | InvalidValueCountError
  | StringOverflowError
  | IncompatibleTypeError string string
  | AmbiguousColumnError string
  | PageNotExistError string int
  | TransactionAbortException int abort_reason
  | AssertionFailure
  | StdOutOfRange

text \<open>The record identifier of \<^verbatim>\<open>defs.h\<close>.\<close>

datatype rid = Rid (page_no: int) (slot_no: int)

section \<open>Constants of the configuration\<close>

definition INVALID_PAGE_ID :: int where "INVALID_PAGE_ID = -1"
definition INVALID_TXN_ID :: int where "INVALID_TXN_ID = -1"
definition INVALID_LSN :: int where "INVALID_LSN = -1"
definition PAGE_SIZE :: nat where "PAGE_SIZE = 4096"
definition LOG_BUFFER_SIZE :: nat where "LOG_BUFFER_SIZE = 1024 * PAGE_SIZE"
definition LOG_FILE_NAME :: string where "LOG_FILE_NAME = ''db.log''"
definition DB_META_NAME :: string where "DB_META_NAME = ''db.meta''"

section \<open>Member functions that may throw\<close>

text \<open>
  A member function of type \<open>('s, 'a) op\<close> runs in a state. An exception does not undo
  the assignments made before it, so the error carries a state as well.
\<close>

type_synonym ('s, 'a) op = "'s \<Rightarrow> (rmdb_error + 'a) \<times> 's"

definition ret :: "'a \<Rightarrow> ('s, 'a) op" where
  "ret a = (\<lambda>s. (Inr a, s))"

definition throw :: "rmdb_error \<Rightarrow> ('s, 'a) op" where
  "throw e = (\<lambda>s. (Inl e, s))"

definition andThen :: "('s, 'a) op \<Rightarrow> ('a \<Rightarrow> ('s, 'b) op) \<Rightarrow> ('s, 'b) op" where
  "andThen m k = (\<lambda>s. case m s of (Inl e, s') \<Rightarrow> (Inl e, s') | (Inr a, s') \<Rightarrow> k a s')"

definition modify :: "('s \<Rightarrow> 's) \<Rightarrow> ('s, unit) op" where
  "modify f = (\<lambda>s. (Inr (), f s))"

definition reads :: "('s \<Rightarrow> 'a) \<Rightarrow> ('s, 'a) op" where
  "reads f = (\<lambda>s. (Inr (f s), s))"

text \<open>Running a member function of a part of the state.\<close>

definition zoom :: "('s \<Rightarrow> 't) \<Rightarrow> ('t \<Rightarrow> 's \<Rightarrow> 's) \<Rightarrow> ('t, 'a) op \<Rightarrow> ('s, 'a) op" where
  "zoom get put m = (\<lambda>s. case m (get s) of (r, t) \<Rightarrow> (r, put t s))"

lemma ret_run [run_simps]: "ret a s = (Inr a, s)"
  by (simp add: ret_def)

lemma throw_run [run_simps]: "throw e s = (Inl e, s)"
  by (simp add: throw_def)

lemma modify_run [run_simps]: "modify f s = (Inr (), f s)"
  by (simp add: modify_def)

lemma reads_run [run_simps]: "reads f s = (Inr (f s), s)"
  by (simp add: reads_def)

lemma andThen_Inr [run_simps]: "m s = (Inr a, s') \<Longrightarrow> andThen m k s = k a s'"
  by (simp add: andThen_def)

lemma andThen_Inl [run_simps]: "m s = (Inl e, s') \<Longrightarrow> andThen m k s = (Inl e, s')"
  by (simp add: andThen_def)

lemma andThen_eq_Inr:
  "andThen m k s = (Inr b, s'') \<longleftrightarrow> (\<exists>a s'. m s = (Inr a, s') \<and> k a s' = (Inr b, s''))"
  by (auto simp: andThen_def split: prod.splits sum.splits)

lemma andThen_eq_Inl:
  "andThen m k s = (Inl e, s'') \<longleftrightarrow>
     m s = (Inl e, s'') \<or> (\<exists>a s'. m s = (Inr a, s') \<and> k a s' = (Inl e, s''))"
  by (auto simp: andThen_def split: prod.splits sum.splits)

lemma andThen_ret_left [simp]: "andThen (ret a) k = k a"
  by (simp add: andThen_def ret_def)

lemma andThen_assoc: "andThen (andThen m k) h = andThen m (\<lambda>a. andThen (k a) h)"
  by (rule ext) (auto simp: andThen_def split: prod.splits sum.splits)

section \<open>Lists\<close>

lemma find_append: "List.find P (xs @ ys) = (case List.find P xs of None \<Rightarrow> List.find P ys | Some x \<Rightarrow> Some x)"
  by (induction xs) auto

section \<open>Memory\<close>

text \<open>
  A buffer of the program, such as the \<^verbatim>\<open>data_\<close> array of a page, is a function from offsets
  to bytes; \<open>mread m off n\<close> is what \<^verbatim>\<open>memcpy\<close> reads from it and
  \<open>mwrite m off bs\<close> the buffer after \<^verbatim>\<open>memcpy\<close> into it.
\<close>

type_synonym mem = "nat \<Rightarrow> byte"

definition mzero :: mem where "mzero = (\<lambda>_. 0)"

definition mread :: "mem \<Rightarrow> nat \<Rightarrow> nat \<Rightarrow> bytes" where
  "mread m off n = map (\<lambda>i. m (off + i)) [0..<n]"

definition mwrite :: "mem \<Rightarrow> nat \<Rightarrow> bytes \<Rightarrow> mem" where
  "mwrite m off bs = (\<lambda>i. if off \<le> i \<and> i < off + length bs then bs ! (i - off) else m i)"

lemma length_mread [simp]: "length (mread m off n) = n"
  by (simp add: mread_def)

lemma nth_mread [simp]: "i < n \<Longrightarrow> mread m off n ! i = m (off + i)"
  by (simp add: mread_def)

lemma mread_cong: "(\<And>i. off \<le> i \<Longrightarrow> i < off + n \<Longrightarrow> m i = m' i) \<Longrightarrow> mread m off n = mread m' off n"
  by (auto intro!: nth_equalityI)

lemma mread_mwrite_same [mem_simps]: "length bs = n \<Longrightarrow> mread (mwrite m off bs) off n = bs"
  by (auto intro!: nth_equalityI simp: mwrite_def)

lemma mread_mwrite_disjoint [mem_simps]:
  "off' + n \<le> off \<or> off + length bs \<le> off' \<Longrightarrow> mread (mwrite m off bs) off' n = mread m off' n"
  by (rule mread_cong) (auto simp: mwrite_def)

lemma mwrite_outside [mem_simps]: "i < off \<or> off + length bs \<le> i \<Longrightarrow> mwrite m off bs i = m i"
  by (auto simp: mwrite_def)

lemma mread_add: "mread m off (k + n) = mread m off k @ mread m (off + k) n"
  by (auto intro!: nth_equalityI simp: nth_append)

section \<open>Little-endian integers\<close>

fun le_encode :: "nat \<Rightarrow> int \<Rightarrow> bytes" where
  "le_encode 0 v = []"
| "le_encode (Suc n) v = word_of_int v # le_encode n (v div 256)"

fun le_decode :: "bytes \<Rightarrow> int" where
  "le_decode [] = 0"
| "le_decode (b # bs) = uint b + 256 * le_decode bs"

text \<open>A two's complement integer of \<open>n\<close> bytes read from its unsigned value.\<close>

definition to_signed :: "nat \<Rightarrow> int \<Rightarrow> int" where
  "to_signed n x = (if x < 2 ^ (8 * n - 1) then x else x - 2 ^ (8 * n))"

definition in_signed :: "nat \<Rightarrow> int \<Rightarrow> bool" where
  "in_signed n v \<longleftrightarrow> - (2 ^ (8 * n - 1)) \<le> v \<and> v < 2 ^ (8 * n - 1)"

lemma length_le_encode [simp]: "length (le_encode n v) = n"
  by (induction n arbitrary: v) auto

lemma le_decode_encode: "le_decode (le_encode n v) = v mod 256 ^ n"
proof (induction n arbitrary: v)
  case 0
  then show ?case by simp
next
  case (Suc n)
  have "v mod (256 * 256 ^ n) = 256 * (v div 256 mod 256 ^ n) + v mod 256"
    by (rule zmod_zmult2_eq) simp
  then show ?case by (simp add: Suc uint_word_of_int)
qed

lemma le_decode_nonneg: "0 \<le> le_decode bs"
  by (induction bs) auto

lemma le_decode_bound: "le_decode bs < 256 ^ length bs"
proof (induction bs)
  case Nil
  then show ?case by simp
next
  case (Cons b bs)
  have "uint b < 256" using uint_lt2p [of b] by simp
  with Cons show ?case by simp
qed

lemma le_encode_decode: "length bs = n \<Longrightarrow> le_encode n (le_decode bs) = bs"
proof (induction bs arbitrary: n)
  case Nil
  then show ?case by simp
next
  case (Cons b bs)
  have b: "0 \<le> uint b" "uint b < 256" using uint_lt2p [of b] by simp_all
  have "(word_of_int (256 * le_decode bs) :: byte) = 0"
    by (rule word_of_int_eq_0_iff [THEN iffD2]) simp
  then have "(word_of_int (uint b + 256 * le_decode bs) :: byte) = b"
    by simp
  moreover have "(uint b + 256 * le_decode bs) div 256 = le_decode bs"
    using b by simp
  ultimately show ?case using Cons by auto
qed

lemma to_signed_mod:
  assumes "0 < n" "in_signed n v"
  shows "to_signed n (v mod 256 ^ n) = v"
proof -
  have e: "(256::int) ^ n = 2 ^ (8 * n)" by (simp add: power_mult)
  have half: "(2::int) ^ (8 * n) = 2 * 2 ^ (8 * n - 1)"
    using assms(1) by (metis One_nat_def Suc_pred mult_pos_pos power_Suc zero_less_numeral)
  show ?thesis
  proof (cases "0 \<le> v")
    case True
    then have "v mod 2 ^ (8 * n) = v"
      using assms(2) half by (simp add: in_signed_def)
    with True assms(2) show ?thesis by (simp add: to_signed_def e in_signed_def)
  next
    case False
    then have "v mod 2 ^ (8 * n) = (v + 2 ^ (8 * n)) mod 2 ^ (8 * n)" by simp
    also have "\<dots> = v + 2 ^ (8 * n)"
      using False assms(2) half by (intro mod_pos_pos_trivial) (auto simp: in_signed_def)
    finally show ?thesis
      using False assms(2) half by (auto simp: to_signed_def e in_signed_def)
  qed
qed

lemma signed_roundtrip:
  "0 < n \<Longrightarrow> in_signed n v \<Longrightarrow> to_signed n (le_decode (le_encode n v)) = v"
  by (simp add: le_decode_encode to_signed_mod)

text \<open>Typed accesses: \<^verbatim>\<open>*reinterpret_cast<int *>(p)\<close> and its 64-bit and unsigned relatives.\<close>

definition read_int :: "nat \<Rightarrow> mem \<Rightarrow> nat \<Rightarrow> int" where
  "read_int n m off = to_signed n (le_decode (mread m off n))"

definition write_int :: "nat \<Rightarrow> mem \<Rightarrow> nat \<Rightarrow> int \<Rightarrow> mem" where
  "write_int n m off v = mwrite m off (le_encode n v)"

lemma read_write_int [mem_simps]:
  "0 < n \<Longrightarrow> in_signed n v \<Longrightarrow> read_int n (write_int n m off v) off = v"
  by (simp add: read_int_def write_int_def mem_simps signed_roundtrip)

lemma read_write_int_disjoint [mem_simps]:
  "off' + n \<le> off \<or> off + k \<le> off' \<Longrightarrow> read_int n (write_int k m off v) off' = read_int n m off'"
  by (simp add: read_int_def write_int_def mem_simps)

lemma read_int_mwrite_disjoint [mem_simps]:
  "off' + n \<le> off \<or> off + length bs \<le> off' \<Longrightarrow> read_int n (mwrite m off bs) off' = read_int n m off'"
  by (simp add: read_int_def mem_simps)

lemma mread_write_int_disjoint [mem_simps]:
  "off' + n \<le> off \<or> off + k \<le> off' \<Longrightarrow> mread (write_int k m off v) off' n = mread m off' n"
  by (simp add: write_int_def mem_simps)

text \<open>\<open>holds m off bs\<close>: the memory has the bytes \<open>bs\<close> at offset \<open>off\<close>.\<close>

definition holds :: "mem \<Rightarrow> nat \<Rightarrow> bytes \<Rightarrow> bool" where
  "holds m off bs \<longleftrightarrow> mread m off (length bs) = bs"

definition read_uint :: "nat \<Rightarrow> mem \<Rightarrow> nat \<Rightarrow> int" where
  "read_uint n m off = le_decode (mread m off n)"

lemma holds_Nil [simp]: "holds m off []"
  by (simp add: holds_def mread_def)

lemma holds_append: "holds m off (a @ b) \<longleftrightarrow> holds m off a \<and> holds m (off + length a) b"
  by (simp add: holds_def mread_add)

lemma holds_mread: "holds m off bs \<Longrightarrow> length bs = n \<Longrightarrow> mread m off n = bs"
  by (auto simp: holds_def)

lemma holds_read_int: "holds m off (le_encode n v) \<Longrightarrow> 0 < n \<Longrightarrow> in_signed n v \<Longrightarrow> read_int n m off = v"
  by (simp add: holds_def read_int_def signed_roundtrip)

lemma holds_read_uint: "holds m off (le_encode n v) \<Longrightarrow> 0 \<le> v \<Longrightarrow> v < 256 ^ n \<Longrightarrow> read_uint n m off = v"
  by (simp add: holds_def read_uint_def le_decode_encode)

lemma holds_mwrite: "holds (mwrite m off bs) off bs"
  by (simp add: holds_def mem_simps)

lemma mwrite_append: "mwrite (mwrite m off a) (off + length a) b = mwrite m off (a @ b)"
  by (rule ext) (auto simp: mwrite_def nth_append)

lemma mwrite_write_int: "write_int n m off v = mwrite m off (le_encode n v)"
  by (simp add: write_int_def)

lemma in_signed_mono: "in_signed n v \<Longrightarrow> n \<le> k \<Longrightarrow> in_signed k v"
proof -
  assume v: "in_signed n v" and "n \<le> k"
  then have "(2::int) ^ (8 * n - 1) \<le> 2 ^ (8 * k - 1)" by (intro power_increasing) auto
  with v show ?thesis unfolding in_signed_def by linarith
qed

section \<open>Lists\<close>

lemma take_drop_split: "n \<le> length xs \<Longrightarrow> take n xs @ drop n xs = xs"
  by simp

lemma take_append_exact [simp]: "length xs = n \<Longrightarrow> take n (xs @ ys) = xs"
  by simp

lemma drop_append_exact [simp]: "length xs = n \<Longrightarrow> drop n (xs @ ys) = ys"
  by simp

lemma distinct_filter_neq: "distinct xs \<Longrightarrow> filter (\<lambda>y. y \<noteq> x) xs = removeAll x xs"
  by (simp add: removeAll_filter_not_eq eq_commute)

end
