(* ===== verification/Datetime.thy ===== *)
theory Datetime
  imports Rmdb_Base "HOL-Library.Signed_Division"
begin

text \<open>
  The \<^verbatim>\<open>DATETIME\<close> type of \<^verbatim>\<open>src/src/common/common.h\<close>: \<open>parse_datetime\<close> checks a string of
  the form \<open>YYYY-MM-DD HH:MM:SS\<close> and encodes it as one decimal integer, and
  \<open>datetime_to_str\<close> prints such an integer.
\<close>

section \<open>Decimal printing\<close>

text \<open>What \<^verbatim>\<open>std::to_string\<close> prints for a non-negative integer.\<close>

fun digits :: "nat \<Rightarrow> string" where
  "digits n = (if n < 10 then [char_of (48 + n)] else digits (n div 10) @ [char_of (48 + n mod 10)])"

declare digits.simps [simp del]

text \<open>\<^verbatim>\<open>printf("%0wd")\<close>: the sign counts towards the width.\<close>

definition fmt_d :: "nat \<Rightarrow> int \<Rightarrow> string" where
  "fmt_d w x = (let s = (if x < 0 then ''-'' else ''''); d = digits (nat \<bar>x\<bar>)
    in s @ replicate (w - length s - length d) (CHR ''0'') @ d)"

definition datetime_to_str :: "int \<Rightarrow> string" where
  "datetime_to_str v0 =
     (let second = v0 smod 100; v1 = v0 sdiv 100;
          minute = v1 smod 100; v2 = v1 sdiv 100;
          hour = v2 smod 100; v3 = v2 sdiv 100;
          day = v3 smod 100; v4 = v3 sdiv 100;
          month = v4 smod 100; v5 = v4 sdiv 100;
          year = to_signed 4 (v5 mod 2 ^ 32)
      in take 19 (fmt_d 4 year @ ''-'' @ fmt_d 2 month @ ''-'' @ fmt_d 2 day @ '' '' @
                  fmt_d 2 hour @ '':'' @ fmt_d 2 minute @ '':'' @ fmt_d 2 second))"

section \<open>Parsing\<close>

definition is_digit :: "char \<Rightarrow> bool" where
  "is_digit c \<longleftrightarrow> 48 \<le> (of_char c :: int) \<and> (of_char c :: int) \<le> 57"

definition dig :: "char \<Rightarrow> int" where
  "dig c = of_char c - 48"

definition month_days :: "int list" where
  "month_days = [31, 28, 31, 30, 31, 30, 31, 31, 30, 31, 30, 31]"

definition is_leap :: "int \<Rightarrow> bool" where
  "is_leap year \<longleftrightarrow> (year mod 4 = 0 \<and> year mod 100 \<noteq> 0) \<or> year mod 400 = 0"

definition days_in_month :: "int \<Rightarrow> int \<Rightarrow> int" where
  "days_in_month year month =
     (if month = 2 \<and> is_leap year then 29 else month_days ! nat (month - 1))"

definition parse_datetime :: "string \<Rightarrow> int option" where
  "parse_datetime s =
     (if length s \<noteq> 19 then None
      else if s ! 4 \<noteq> CHR ''-'' \<or> s ! 7 \<noteq> CHR ''-'' \<or> s ! 10 \<noteq> CHR '' '' \<or>
              s ! 13 \<noteq> CHR '':'' \<or> s ! 16 \<noteq> CHR '':'' then None
      else if \<not> list_all (\<lambda>p. is_digit (s ! p)) [0, 1, 2, 3, 5, 6, 8, 9, 11, 12, 14, 15, 17, 18] then None
      else
        let year = dig (s ! 0) * 1000 + dig (s ! 1) * 100 + dig (s ! 2) * 10 + dig (s ! 3);
            month = dig (s ! 5) * 10 + dig (s ! 6);
            day = dig (s ! 8) * 10 + dig (s ! 9);
            hour = dig (s ! 11) * 10 + dig (s ! 12);
            minute = dig (s ! 14) * 10 + dig (s ! 15);
            second = dig (s ! 17) * 10 + dig (s ! 18)
        in if year < 1000 \<or> year > 9999 then None
           else if month < 1 \<or> month > 12 then None
           else if hour > 23 then None
           else if minute > 59 then None
           else if second > 59 then None
           else if day < 1 \<or> day > days_in_month year month then None
           else Some (((((year * 100 + month) * 100 + day) * 100 + hour) * 100 + minute) * 100 + second))"

section \<open>The fields of an encoded time\<close>

definition dt_encode :: "int \<Rightarrow> int \<Rightarrow> int \<Rightarrow> int \<Rightarrow> int \<Rightarrow> int \<Rightarrow> int" where
  "dt_encode y mo d h mi s = ((((y * 100 + mo) * 100 + d) * 100 + h) * 100 + mi) * 100 + s"

lemma split_100:
  fixes a b :: int
  assumes "0 \<le> a" "0 \<le> b" "b < 100"
  shows "(a * 100 + b) sdiv 100 = a" "(a * 100 + b) smod 100 = b"
proof -
  show "(a * 100 + b) sdiv 100 = a"
    using assms by (simp add: signed_divide_int_def sgn_if abs_if)
  then show "(a * 100 + b) smod 100 = b"
    using sdiv_mult_smod_eq [of "a * 100 + b" 100] by simp
qed

lemma digit_char: "is_digit c \<Longrightarrow> char_of (48 + nat (dig c)) = c"
proof -
  assume "is_digit c"
  then have "int (48 + nat (dig c)) = of_char c"
    by (simp add: is_digit_def dig_def)
  then have "48 + nat (dig c) = of_char c"
    by (metis of_nat_eq_iff of_nat_of_char)
  then show ?thesis by simp
qed

lemma dig_range: "is_digit c \<Longrightarrow> 0 \<le> dig c \<and> dig c \<le> 9"
  by (auto simp: is_digit_def dig_def)

lemma digits_snoc:
  "1 \<le> n \<Longrightarrow> d \<le> 9 \<Longrightarrow> digits (n * 10 + d) = digits n @ [char_of (48 + d)]"
  by (subst digits.simps) simp

lemma digits_single: "n \<le> 9 \<Longrightarrow> digits n = [char_of (48 + n)]"
  by (subst digits.simps) simp

lemma zero_char: "(CHR ''0'' :: char) = char_of (48 :: nat)"
  by code_simp

lemma fmt_two_digits:
  assumes "is_digit a" "is_digit b"
  shows "fmt_d 2 (dig a * 10 + dig b) = [a, b]"
proof -
  note r = dig_range [OF assms(1)] dig_range [OF assms(2)]
  define x y where "x = nat (dig a)" and "y = nat (dig b)"
  have x: "x \<le> 9" and y: "y \<le> 9" using r by (auto simp: x_def y_def)
  have n: "nat \<bar>dig a * 10 + dig b\<bar> = x * 10 + y"
    using r by (simp add: x_def y_def nat_add_distrib nat_mult_distrib)
  have chars: "char_of (48 + x) = a" "char_of (48 + y) = b"
    using digit_char assms by (simp_all add: x_def y_def)
  have z: "x = 0 \<Longrightarrow> a = CHR ''0''" using chars(1) by (simp add: zero_char)
  have "digits (x * 10 + y) = (if x = 0 then [b] else [a, b])"
    using x y chars digits_snoc [of x y] by (simp add: digits_single)
  then show ?thesis
    using r z unfolding fmt_d_def n by (auto simp: Let_def)
qed

lemma fmt_year:
  assumes "is_digit a" "is_digit b" "is_digit c" "is_digit d" and "1 \<le> dig a"
  shows "fmt_d 4 (dig a * 1000 + dig b * 100 + dig c * 10 + dig d) = [a, b, c, d]"
proof -
  note r = assms(1-4) [THEN dig_range]
  define w x y z where "w = nat (dig a)" and "x = nat (dig b)" and "y = nat (dig c)" and "z = nat (dig d)"
  have le: "1 \<le> w" "w \<le> 9" "x \<le> 9" "y \<le> 9" "z \<le> 9"
    using r assms(5) by (auto simp: w_def x_def y_def z_def)
  have n: "nat \<bar>dig a * 1000 + dig b * 100 + dig c * 10 + dig d\<bar> = ((w * 10 + x) * 10 + y) * 10 + z"
    using r by (simp add: w_def x_def y_def z_def nat_add_distrib nat_mult_distrib)
  have chars: "char_of (48 + w) = a" "char_of (48 + x) = b" "char_of (48 + y) = c" "char_of (48 + z) = d"
    using digit_char assms(1-4) by (simp_all add: w_def x_def y_def z_def)
  have "digits w = [a]" using le chars by (simp add: digits_single)
  then have "digits (w * 10 + x) = [a, b]" using le chars digits_snoc [of w x] by simp
  then have "digits ((w * 10 + x) * 10 + y) = [a, b, c]"
    using le(1,4) chars(3) digits_snoc [of "w * 10 + x" y] by simp
  then have "digits (((w * 10 + x) * 10 + y) * 10 + z) = [a, b, c, d]"
    using le(1,5) chars(4) digits_snoc [of "(w * 10 + x) * 10 + y" z] by simp
  moreover have "\<not> dig a * 1000 + dig b * 100 + dig c * 10 + dig d < 0" using r by simp
  ultimately show ?thesis unfolding fmt_d_def n by (simp only: Let_def) simp
qed

lemma datetime_to_str_encode:
  assumes "0 \<le> y" "y \<le> 9999" "0 \<le> mo" "mo < 100" "0 \<le> d" "d < 100" "0 \<le> h" "h < 100"
    "0 \<le> mi" "mi < 100" "0 \<le> s" "s < 100"
  shows "datetime_to_str (dt_encode y mo d h mi s) =
     take 19 (fmt_d 4 y @ ''-'' @ fmt_d 2 mo @ ''-'' @ fmt_d 2 d @ '' '' @
              fmt_d 2 h @ '':'' @ fmt_d 2 mi @ '':'' @ fmt_d 2 s)"
proof -
  define a b c e where "a = y * 100 + mo" and "b = a * 100 + d" and "c = b * 100 + h" and "e = c * 100 + mi"
  have nn: "0 \<le> a" "0 \<le> b" "0 \<le> c" "0 \<le> e"
    using assms by (auto simp: a_def b_def c_def e_def)
  have enc: "dt_encode y mo d h mi s = e * 100 + s"
    by (simp add: dt_encode_def a_def b_def c_def e_def)
  have year: "to_signed 4 (y mod 2 ^ 32) = y" using assms by (simp add: to_signed_def)
  have q: "(e * 100 + s) sdiv 100 = e" "e sdiv 100 = c" "c sdiv 100 = b" "b sdiv 100 = a" "a sdiv 100 = y"
    using nn assms split_100(1) unfolding a_def b_def c_def e_def by blast+
  have r: "(e * 100 + s) smod 100 = s" "e smod 100 = mi" "c smod 100 = h" "b smod 100 = d" "a smod 100 = mo"
    using nn assms split_100(2) unfolding a_def b_def c_def e_def by blast+
  show ?thesis
    unfolding datetime_to_str_def enc Let_def q r year ..
qed

lemma length_19E:
  assumes "length s = 19"
  obtains a b c d e f g h i j k l m n p q r t u where "s = [a, b, c, d, e, f, g, h, i, j, k, l, m, n, p, q, r, t, u]"
  using assms by (auto simp: numeral_eq_Suc length_Suc_conv)

text \<open>What a successful parse says of its fields.\<close>

lemma parse_datetime_SomeD:
  assumes "parse_datetime s = Some v"
  obtains a b c d e f g h i j k l m n where
    "s = [a, b, c, d, CHR ''-'', e, f, CHR ''-'', g, h, CHR '' '', i, j, CHR '':'', k, l, CHR '':'', m, n]"
    "\<forall>x \<in> {a, b, c, d, e, f, g, h, i, j, k, l, m, n}. is_digit x"
    "1000 \<le> dig a * 1000 + dig b * 100 + dig c * 10 + dig d"
    "1 \<le> dig e * 10 + dig f" "dig e * 10 + dig f \<le> 12"
    "1 \<le> dig g * 10 + dig h"
    "dig g * 10 + dig h \<le> days_in_month (dig a * 1000 + dig b * 100 + dig c * 10 + dig d) (dig e * 10 + dig f)"
    "dig i * 10 + dig j \<le> 23" "dig k * 10 + dig l \<le> 59" "dig m * 10 + dig n \<le> 59"
    "v = dt_encode (dig a * 1000 + dig b * 100 + dig c * 10 + dig d) (dig e * 10 + dig f)
           (dig g * 10 + dig h) (dig i * 10 + dig j) (dig k * 10 + dig l) (dig m * 10 + dig n)"
proof -
  have len: "length s = 19" using assms by (simp add: parse_datetime_def split: if_splits)
  obtain a b c d s1 e f s2 g h s3 i j s4 k l s5 m n where
    s: "s = [a, b, c, d, s1, e, f, s2, g, h, s3, i, j, s4, k, l, s5, m, n]"
    using len by (rule length_19E)
  show thesis
    using assms that [of a b c d e f g h i j k l m n]
    by (auto simp: parse_datetime_def s Let_def dt_encode_def split: if_splits)
qed

section \<open>Round trip\<close>

lemma days_in_month_le: "1 \<le> mo \<Longrightarrow> mo \<le> 12 \<Longrightarrow> days_in_month y mo \<le> 31"
proof -
  assume "1 \<le> mo" "mo \<le> 12"
  then have "nat (mo - 1) < length month_days" by (simp add: month_days_def)
  then have "month_days ! nat (mo - 1) \<in> set month_days" by (rule nth_mem)
  moreover have "\<forall>x \<in> set month_days. x \<le> 31" by (simp add: month_days_def)
  ultimately show ?thesis by (auto simp: days_in_month_def)
qed

text \<open>
  Claim C40. Printing a parsed time gives back the string it was parsed from, character for
  character: the encoding loses nothing and \<open>datetime_to_str\<close> pads every field.
\<close>

theorem datetime_parse_print:
  assumes "parse_datetime s = Some v"
  shows "datetime_to_str v = s"
  using assms
proof (rule parse_datetime_SomeD)
  fix a b c d e f g h i j k l m n
  assume s: "s = [a, b, c, d, CHR ''-'', e, f, CHR ''-'', g, h, CHR '' '', i, j, CHR '':'', k, l, CHR '':'', m, n]"
    and dg: "\<forall>x \<in> {a, b, c, d, e, f, g, h, i, j, k, l, m, n}. is_digit x"
    and y: "1000 \<le> dig a * 1000 + dig b * 100 + dig c * 10 + dig d"
    and v: "v = dt_encode (dig a * 1000 + dig b * 100 + dig c * 10 + dig d) (dig e * 10 + dig f)
           (dig g * 10 + dig h) (dig i * 10 + dig j) (dig k * 10 + dig l) (dig m * 10 + dig n)"
  have r: "0 \<le> dig x \<and> dig x \<le> 9" if "x \<in> {a, b, c, d, e, f, g, h, i, j, k, l, m, n}" for x
    using dg that dig_range by blast
  have a1: "1 \<le> dig a" using y r [of a] r [of b] r [of c] r [of d] by simp
  have two: "0 \<le> dig x * 10 + dig z \<and> dig x * 10 + dig z < 100 \<and> fmt_d 2 (dig x * 10 + dig z) = [x, z]"
    if "x \<in> {a, b, c, d, e, f, g, h, i, j, k, l, m, n}" "z \<in> {a, b, c, d, e, f, g, h, i, j, k, l, m, n}" for x z
    using r [OF that(1)] r [OF that(2)] fmt_two_digits dg that by auto
  have "fmt_d 4 (dig a * 1000 + dig b * 100 + dig c * 10 + dig d) = [a, b, c, d]"
    by (rule fmt_year) (use dg a1 in auto)
  then show ?thesis
    unfolding v s
    using two [of e f] two [of g h] two [of i j] two [of k l] two [of m n] y r [of a] r [of b] r [of c] r [of d]
    by (subst datetime_to_str_encode) simp_all
qed

theorem datetime_parse_print_witness:
  "datetime_to_str 20240229235959 = ''2024-02-29 23:59:59''"
  by (rule datetime_parse_print) code_simp

text \<open>
  A parsed time lies in the documented range and its fields are those of a date of
  the Gregorian calendar: the day never exceeds the length of its month, with 29 February
  accepted in leap years only.
\<close>

theorem datetime_parse_range:
  assumes "parse_datetime s = Some v"
  shows "\<exists>y mo d h mi sec. v = dt_encode y mo d h mi sec \<and>
    1000 \<le> y \<and> y \<le> 9999 \<and> 1 \<le> mo \<and> mo \<le> 12 \<and> 1 \<le> d \<and> d \<le> days_in_month y mo \<and>
    0 \<le> h \<and> h \<le> 23 \<and> 0 \<le> mi \<and> mi \<le> 59 \<and> 0 \<le> sec \<and> sec \<le> 59 \<and>
    (mo = 2 \<and> d = 29 \<longrightarrow> is_leap y) \<and> 10000101000000 \<le> v \<and> v \<le> 99991231235959"
  using assms
proof (rule parse_datetime_SomeD)
  fix a b c d e f g h i j k l m n
  assume dg: "\<forall>x \<in> {a, b, c, d, e, f, g, h, i, j, k, l, m, n}. is_digit x"
    and y: "1000 \<le> dig a * 1000 + dig b * 100 + dig c * 10 + dig d"
    and mo: "1 \<le> dig e * 10 + dig f" "dig e * 10 + dig f \<le> 12"
    and d: "1 \<le> dig g * 10 + dig h"
      "dig g * 10 + dig h \<le> days_in_month (dig a * 1000 + dig b * 100 + dig c * 10 + dig d) (dig e * 10 + dig f)"
    and t: "dig i * 10 + dig j \<le> 23" "dig k * 10 + dig l \<le> 59" "dig m * 10 + dig n \<le> 59"
    and v: "v = dt_encode (dig a * 1000 + dig b * 100 + dig c * 10 + dig d) (dig e * 10 + dig f)
           (dig g * 10 + dig h) (dig i * 10 + dig j) (dig k * 10 + dig l) (dig m * 10 + dig n)"
  define Y where "Y = dig a * 1000 + dig b * 100 + dig c * 10 + dig d"
  define M where "M = dig e * 10 + dig f"
  define D where "D = dig g * 10 + dig h"
  define H where "H = dig i * 10 + dig j"
  define I where "I = dig k * 10 + dig l"
  define S where "S = dig m * 10 + dig n"
  have r: "0 \<le> dig x \<and> dig x \<le> 9" if "x \<in> {a, b, c, d, e, f, g, h, i, j, k, l, m, n}" for x
    using dg that dig_range by blast
  have Y9: "Y \<le> 9999" using r [of a] r [of b] r [of c] r [of d] by (simp add: Y_def)
  have pos: "0 \<le> H" "0 \<le> I" "0 \<le> S"
    using r [of i] r [of j] r [of k] r [of l] r [of m] r [of n] by (simp_all add: H_def I_def S_def)
  have D31: "D \<le> 31" using d mo days_in_month_le [of M Y] by (simp add: D_def M_def Y_def)
  have leap: "M = 2 \<and> D = 29 \<longrightarrow> is_leap Y"
    using d(2) by (auto simp: days_in_month_def month_days_def D_def M_def Y_def split: if_splits)
  have "10000101000000 \<le> v \<and> v \<le> 99991231235959"
    using y mo d(1) t pos Y9 D31 unfolding v Y_def [symmetric] M_def [symmetric] D_def [symmetric]
      H_def [symmetric] I_def [symmetric] S_def [symmetric] dt_encode_def by simp
  with y mo d t v pos Y9 leap show ?thesis
    unfolding Y_def [symmetric] M_def [symmetric] D_def [symmetric] H_def [symmetric] I_def [symmetric] S_def [symmetric]
    by blast
qed

theorem datetime_parse_range_witness:
  "\<exists>y mo d h mi sec. (20240229235959::int) = dt_encode y mo d h mi sec \<and>
    1000 \<le> y \<and> y \<le> 9999 \<and> 1 \<le> mo \<and> mo \<le> 12 \<and> 1 \<le> d \<and> d \<le> days_in_month y mo \<and>
    0 \<le> h \<and> h \<le> 23 \<and> 0 \<le> mi \<and> mi \<le> 59 \<and> 0 \<le> sec \<and> sec \<le> 59 \<and>
    (mo = 2 \<and> d = 29 \<longrightarrow> is_leap y) \<and> 10000101000000 \<le> (20240229235959::int) \<and> (20240229235959::int) \<le> 99991231235959"
  by (rule datetime_parse_range [where s = "''2024-02-29 23:59:59''"]) code_simp

end
