(* ===== verification/Values.thy ===== *)
theory Values
  imports Datetime
begin

text \<open>
  Column types, values and comparisons: \<^verbatim>\<open>defs.h\<close>, \<^verbatim>\<open>common/common.h\<close>, the three-way
  comparisons \<open>ix_compare\<close> (\<^verbatim>\<open>index/ix_index_handle.h\<close>) and \<open>compare_value\<close>
  (\<^verbatim>\<open>execution/executor_abstract.h\<close>). A \<^verbatim>\<open>float\<close> is kept as its 32 bits.
\<close>

section \<open>Column types\<close>

datatype coltype = TYPE_INT | TYPE_FLOAT | TYPE_STRING | TYPE_BIGINT | TYPE_DATETIME

datatype aggtype = AGG_NONE | AGG_COUNT | AGG_MAX | AGG_MIN | AGG_SUM

fun coltype2str :: "coltype \<Rightarrow> string" where
  "coltype2str TYPE_INT = ''INT''"
| "coltype2str TYPE_FLOAT = ''FLOAT''"
| "coltype2str TYPE_STRING = ''STRING''"
| "coltype2str TYPE_BIGINT = ''BIGINT''"
| "coltype2str TYPE_DATETIME = ''DATETIME''"

text \<open>The numbers of the enumeration, as files hold them.\<close>

fun coltype_no :: "coltype \<Rightarrow> int" where
  "coltype_no TYPE_INT = 0"
| "coltype_no TYPE_FLOAT = 1"
| "coltype_no TYPE_STRING = 2"
| "coltype_no TYPE_BIGINT = 3"
| "coltype_no TYPE_DATETIME = 4"

text \<open>A number that is no column type is undefined behaviour in the source; here it reads as \<^verbatim>\<open>INT\<close>.\<close>

definition coltype_of_no :: "int \<Rightarrow> coltype" where
  "coltype_of_no n = (if n = 1 then TYPE_FLOAT else if n = 2 then TYPE_STRING else if n = 3 then TYPE_BIGINT
     else if n = 4 then TYPE_DATETIME else TYPE_INT)"

lemma coltype_roundtrip: "coltype_of_no (coltype_no t) = t" "in_signed 4 (coltype_no t)"
  by (cases t; simp add: coltype_of_no_def in_signed_def)+

record tabcol =
  tc_tab :: string
  tc_col :: string
  tc_agg :: aggtype
  tc_alias :: string
  tc_star :: bool

text \<open>A column named without an aggregate, an alias or a star, as \<^verbatim>\<open>{.tab_name, .col_name}\<close>.\<close>

definition plain_col :: "string \<Rightarrow> string \<Rightarrow> tabcol" where
  "plain_col t c = \<lparr>tc_tab = t, tc_col = c, tc_agg = AGG_NONE, tc_alias = '''', tc_star = False\<rparr>"

section \<open>Floats as bit patterns\<close>

type_synonym float32 = "32 word"

definition float_nan :: "float32 \<Rightarrow> bool" where
  "float_nan w \<longleftrightarrow> uint w mod 2 ^ 31 > 255 * 2 ^ 23"

text \<open>The order of the finite values and the infinities is that of the signed magnitudes.\<close>

definition float_key :: "float32 \<Rightarrow> int" where
  "float_key w = (if uint w < 2 ^ 31 then uint w else - (uint w - 2 ^ 31))"

definition float_less :: "float32 \<Rightarrow> float32 \<Rightarrow> bool" where
  "float_less a b \<longleftrightarrow> \<not> float_nan a \<and> \<not> float_nan b \<and> float_key a < float_key b"

text \<open>The conversion of an integer to \<^verbatim>\<open>float\<close>: round to nearest, ties to even.\<close>

fun ilog2 :: "nat \<Rightarrow> nat" where
  "ilog2 n = (if n < 2 then 0 else Suc (ilog2 (n div 2)))"

declare ilog2.simps [simp del]

definition round_shift :: "nat \<Rightarrow> nat \<Rightarrow> nat" where
  "round_shift m k = (let q = m div 2 ^ k; r = m mod 2 ^ k; half = 2 ^ (k - 1) in
     if k = 0 then m else if half < r \<or> (r = half \<and> odd q) then q + 1 else q)"

definition float_of_int :: "int \<Rightarrow> float32" where
  "float_of_int v =
     (if v = 0 then 0 else
      let m = nat \<bar>v\<bar>; e = ilog2 m;
          f = (if e \<le> 23 then m * 2 ^ (23 - e) else round_shift m (e - 23));
          (f', e') = (if f = 2 ^ 24 then (2 ^ 23, e + 1) else (f, e));
          mag = (e' + 127) * 2 ^ 23 + (f' - 2 ^ 23)
      in word_of_nat (if v < 0 then 2 ^ 31 + mag else mag))"

section \<open>Values\<close>

text \<open>The tagged union of \<^verbatim>\<open>struct Value\<close>; \<open>raw\<close> is the buffer that \<open>init_raw\<close> fills.\<close>

datatype val = VInt int | VFloat float32 | VStr string | VBigint int | VDatetime int

fun val_type :: "val \<Rightarrow> coltype" where
  "val_type (VInt _) = TYPE_INT"
| "val_type (VFloat _) = TYPE_FLOAT"
| "val_type (VStr _) = TYPE_STRING"
| "val_type (VBigint _) = TYPE_BIGINT"
| "val_type (VDatetime _) = TYPE_DATETIME"

record value_rec =
  val_of :: val
  raw :: "bytes option"

text \<open>\<open>Value::cast_to\<close>: \<open>None\<close> when it returns false (the value is then unchanged).\<close>

fun cast_val :: "val \<Rightarrow> coltype \<Rightarrow> val option" where
  "cast_val v target =
     (if val_type v = target then Some v
      else case (target, v) of
        (TYPE_BIGINT, VInt i) \<Rightarrow> Some (VBigint i)
      | (TYPE_INT, VBigint b) \<Rightarrow>
          if b < -(2 ^ 31) \<or> b > 2 ^ 31 - 1 then None else Some (VInt b)
      | (TYPE_FLOAT, VInt i) \<Rightarrow> Some (VFloat (float_of_int i))
      | (TYPE_FLOAT, VBigint b) \<Rightarrow> Some (VFloat (float_of_int b))
      | (TYPE_DATETIME, VStr s) \<Rightarrow> map_option VDatetime (parse_datetime s)
      | _ \<Rightarrow> None)"

declare cast_val.simps [simp del]

definition cast_to :: "value_rec \<Rightarrow> coltype \<Rightarrow> value_rec option" where
  "cast_to v target = map_option (\<lambda>x. v\<lparr>val_of := x\<rparr>) (cast_val (val_of v) target)"

definition byte_of_char :: "char \<Rightarrow> byte" where
  "byte_of_char c = word_of_nat (of_char c)"

definition char_of_byte :: "byte \<Rightarrow> char" where
  "char_of_byte b = char_of (unat b)"

text \<open>The bytes \<open>init_raw\<close> writes for a value in a column of length \<open>len\<close>.\<close>

fun raw_bytes :: "val \<Rightarrow> int \<Rightarrow> rmdb_error + bytes" where
  "raw_bytes (VInt i) len = (if len = 4 then Inr (le_encode 4 i) else Inl AssertionFailure)"
| "raw_bytes (VBigint b) len = (if len = 8 then Inr (le_encode 8 b) else Inl AssertionFailure)"
| "raw_bytes (VDatetime b) len = (if len = 8 then Inr (le_encode 8 b) else Inl AssertionFailure)"
| "raw_bytes (VFloat f) len = (if len = 4 then Inr (le_encode 4 (uint f)) else Inl AssertionFailure)"
| "raw_bytes (VStr s) len =
     (if len < int (length s) then Inl StringOverflowError
      else Inr (map byte_of_char s @ replicate (nat len - length s) 0))"

definition init_raw :: "value_rec \<Rightarrow> int \<Rightarrow> rmdb_error + value_rec" where
  "init_raw v len =
     (if raw v \<noteq> None then Inl AssertionFailure
      else case raw_bytes (val_of v) len of Inl e \<Rightarrow> Inl e | Inr bs \<Rightarrow> Inr (v\<lparr>raw := Some bs\<rparr>))"

section \<open>Comparisons\<close>

fun memcmp :: "bytes \<Rightarrow> bytes \<Rightarrow> int" where
  "memcmp (a # as) (b # bs) = (if a = b then memcmp as bs else uint a - uint b)"
| "memcmp _ _ = 0"

definition three_way :: "bool \<Rightarrow> bool \<Rightarrow> int" where
  "three_way lt gt = (if lt then -1 else if gt then 1 else 0)"

fun compare_value :: "bytes \<Rightarrow> bytes \<Rightarrow> coltype \<Rightarrow> int \<Rightarrow> int" where
  "compare_value l r TYPE_INT _ =
     (let a = to_signed 4 (le_decode (take 4 l)); b = to_signed 4 (le_decode (take 4 r))
      in three_way (a < b) (a > b))"
| "compare_value l r TYPE_BIGINT _ =
     (let a = to_signed 8 (le_decode (take 8 l)); b = to_signed 8 (le_decode (take 8 r))
      in three_way (a < b) (a > b))"
| "compare_value l r TYPE_DATETIME _ =
     (let a = to_signed 8 (le_decode (take 8 l)); b = to_signed 8 (le_decode (take 8 r))
      in three_way (a < b) (a > b))"
| "compare_value l r TYPE_FLOAT _ =
     (let a = word_of_int (le_decode (take 4 l)); b = word_of_int (le_decode (take 4 r))
      in three_way (float_less a b) (float_less b a))"
| "compare_value l r TYPE_STRING len = memcmp (take (nat len) l) (take (nat len) r)"

datatype compop = OP_EQ | OP_NE | OP_LT | OP_GT | OP_LE | OP_GE

fun eval_compare :: "int \<Rightarrow> compop \<Rightarrow> bool" where
  "eval_compare cmp OP_EQ = (cmp = 0)"
| "eval_compare cmp OP_NE = (cmp \<noteq> 0)"
| "eval_compare cmp OP_LT = (cmp < 0)"
| "eval_compare cmp OP_GT = (cmp > 0)"
| "eval_compare cmp OP_LE = (cmp \<le> 0)"
| "eval_compare cmp OP_GE = (cmp \<ge> 0)"

text \<open>The map \<^verbatim>\<open>swap_op\<close> of the planner and the index scan.\<close>

fun swap_op :: "compop \<Rightarrow> compop" where
  "swap_op OP_EQ = OP_EQ"
| "swap_op OP_NE = OP_NE"
| "swap_op OP_LT = OP_GT"
| "swap_op OP_GT = OP_LT"
| "swap_op OP_LE = OP_GE"
| "swap_op OP_GE = OP_LE"

record condition =
  lhs_col :: tabcol
  cond_op :: compop
  is_rhs_val :: bool
  rhs_col :: tabcol
  rhs_val :: value_rec

record set_clause =
  sc_lhs :: tabcol
  sc_rhs :: value_rec

end
