(* ===== verification/Ordering.thy ===== *)
theory Ordering
  imports Values
begin

text \<open>
  The contract every three-way comparison of the program has to meet (\<open>weak_cmp\<close>), the in-order
  consequences the index and the sort rely on, and the proof that \<open>compare_value\<close> and the
  multi-column \<open>ix_compare\<close> meet it.
\<close>

section \<open>The contract of a three-way comparison\<close>

locale weak_cmp =
  fixes cmp :: "'a \<Rightarrow> 'a \<Rightarrow> int"
    and ok :: "'a \<Rightarrow> bool"
  assumes cmp_anti: "ok x \<Longrightarrow> ok y \<Longrightarrow> cmp x y < 0 \<longleftrightarrow> 0 < cmp y x"
    and cmp_trans: "ok x \<Longrightarrow> ok y \<Longrightarrow> ok z \<Longrightarrow> cmp x y \<le> 0 \<Longrightarrow> cmp y z \<le> 0 \<Longrightarrow> cmp x z \<le> 0"
begin

lemma cmp_zero_sym: "ok x \<Longrightarrow> ok y \<Longrightarrow> cmp x y = 0 \<longleftrightarrow> cmp y x = 0"
  using cmp_anti [of x y] cmp_anti [of y x] by linarith

lemma cmp_refl: "ok x \<Longrightarrow> cmp x x = 0"
  using cmp_anti [of x x] by linarith

lemma cmp_flip: "ok x \<Longrightarrow> ok y \<Longrightarrow> cmp x y \<le> 0 \<longleftrightarrow> 0 \<le> cmp y x"
  using cmp_anti [of y x] by linarith

lemma cmp_total: "ok x \<Longrightarrow> ok y \<Longrightarrow> cmp x y \<le> 0 \<or> cmp y x \<le> 0"
  using cmp_anti [of x y] by linarith

lemma cmp_less_le_trans:
  assumes "ok x" "ok y" "ok z" "cmp x y < 0" "cmp y z \<le> 0"
  shows "cmp x z < 0"
proof (rule ccontr)
  assume "\<not> cmp x z < 0"
  then have "cmp z x \<le> 0" using assms(1,3) cmp_flip by auto
  with assms have "cmp y x \<le> 0" by (blast intro: cmp_trans)
  with assms(1,2,4) cmp_anti [of x y] show False by linarith
qed

lemma cmp_le_less_trans:
  assumes "ok x" "ok y" "ok z" "cmp x y \<le> 0" "cmp y z < 0"
  shows "cmp x z < 0"
proof (rule ccontr)
  assume "\<not> cmp x z < 0"
  then have "cmp z x \<le> 0" using assms(1,3) cmp_flip by auto
  with assms have "cmp z y \<le> 0" by (blast intro: cmp_trans)
  with assms(2,3,5) cmp_anti [of y z] show False by linarith
qed

lemma cmp_less_trans:
  "ok x \<Longrightarrow> ok y \<Longrightarrow> ok z \<Longrightarrow> cmp x y < 0 \<Longrightarrow> cmp y z < 0 \<Longrightarrow> cmp x z < 0"
  by (rule cmp_less_le_trans [of x y z]) simp_all

lemma cmp_eq_subst_left:
  "ok x \<Longrightarrow> ok y \<Longrightarrow> ok z \<Longrightarrow> cmp x y = 0 \<Longrightarrow> cmp x z < 0 \<longleftrightarrow> cmp y z < 0"
  using cmp_le_less_trans [of x y z] cmp_le_less_trans [of y x z] cmp_zero_sym [of x y] by auto

end

section \<open>Comparisons by an integer key\<close>

lemma three_way_simps [simp]:
  "three_way lt gt < 0 \<longleftrightarrow> lt"
  "0 < three_way lt gt \<longleftrightarrow> \<not> lt \<and> gt"
  "three_way lt gt \<le> 0 \<longleftrightarrow> lt \<or> \<not> gt"
  "three_way lt gt = 0 \<longleftrightarrow> \<not> lt \<and> \<not> gt"
  by (auto simp: three_way_def)

lemma memcmp_refl [simp]: "memcmp xs xs = 0"
  by (induction xs) auto

lemma memcmp_anti: "length xs = length ys \<Longrightarrow> memcmp xs ys = - memcmp ys xs"
  by (induction xs ys rule: list_induct2) auto

lemma memcmp_zero: "length xs = length ys \<Longrightarrow> memcmp xs ys = 0 \<longleftrightarrow> xs = ys"
  by (induction xs ys rule: list_induct2) (auto simp: word_uint_eq_iff)

lemma memcmp_trans:
  "length xs = length ys \<Longrightarrow> length ys = length zs \<Longrightarrow>
    memcmp xs ys \<le> 0 \<Longrightarrow> memcmp ys zs \<le> 0 \<Longrightarrow> memcmp xs zs \<le> 0"
proof (induction xs ys zs rule: list_induct3)
  case (Cons x xs y ys z zs)
  have "uint y = uint z \<Longrightarrow> y = z" "uint x = uint y \<Longrightarrow> x = y" "uint x = uint z \<Longrightarrow> x = z"
    by (simp_all add: word_uint_eq_iff)
  with Cons show ?case by (auto split: if_splits)
qed simp

text \<open>Strings of equal length are compared as their bytes, most significant first.\<close>

definition value_ok :: "coltype \<Rightarrow> int \<Rightarrow> bytes \<Rightarrow> bool" where
  "value_ok t len bs \<longleftrightarrow> length bs = nat len \<and> (t = TYPE_FLOAT \<longrightarrow> \<not> float_nan (word_of_int (le_decode (take 4 bs))))"

lemma compare_value_anti:
  "value_ok t len x \<Longrightarrow> value_ok t len y \<Longrightarrow> compare_value x y t len < 0 \<longleftrightarrow> 0 < compare_value y x t len"
  using memcmp_anti [of x y]
  by (cases t) (auto simp: Let_def value_ok_def float_less_def)

lemma compare_value_trans:
  "value_ok t len x \<Longrightarrow> value_ok t len y \<Longrightarrow> value_ok t len z \<Longrightarrow>
    compare_value x y t len \<le> 0 \<Longrightarrow> compare_value y z t len \<le> 0 \<Longrightarrow> compare_value x z t len \<le> 0"
  using memcmp_trans [of x y z]
  by (cases t) (auto simp: Let_def value_ok_def float_less_def)

interpretation col: weak_cmp "\<lambda>x y. compare_value x y t len" "value_ok t len" for t len
  by unfold_locales (auto simp: compare_value_anti intro: compare_value_trans)

section \<open>Keys of several columns\<close>

text \<open>\<open>ix_compare\<close> over the column types and lengths of an index.\<close>

fun ix_compare :: "bytes \<Rightarrow> bytes \<Rightarrow> (coltype \<times> int) list \<Rightarrow> int" where
  "ix_compare a b [] = 0"
| "ix_compare a b ((t, len) # cols) =
     (let res = compare_value (take (nat len) a) (take (nat len) b) t len
      in if res \<noteq> 0 then res else ix_compare (drop (nat len) a) (drop (nat len) b) cols)"

fun key_ok :: "(coltype \<times> int) list \<Rightarrow> bytes \<Rightarrow> bool" where
  "key_ok [] k = (k = [])"
| "key_ok ((t, len) # cols) k = (value_ok t len (take (nat len) k) \<and> key_ok cols (drop (nat len) k))"

lemma ix_compare_anti:
  "key_ok cols x \<Longrightarrow> key_ok cols y \<Longrightarrow> ix_compare x y cols < 0 \<longleftrightarrow> 0 < ix_compare y x cols"
proof (induction cols arbitrary: x y)
  case (Cons c cols)
  obtain t len where c: "c = (t, len)" by (cases c)
  show ?case
    using Cons.prems Cons.IH [of "drop (nat len) x" "drop (nat len) y"]
      col.cmp_anti [of t len "take (nat len) x" "take (nat len) y"]
      col.cmp_zero_sym [of t len "take (nat len) x" "take (nat len) y"]
    by (auto simp: c Let_def)
qed simp

lemma ix_compare_trans:
  "key_ok cols x \<Longrightarrow> key_ok cols y \<Longrightarrow> key_ok cols z \<Longrightarrow>
    ix_compare x y cols \<le> 0 \<Longrightarrow> ix_compare y z cols \<le> 0 \<Longrightarrow> ix_compare x z cols \<le> 0"
proof (induction cols arbitrary: x y z)
  case (Cons c cols)
  obtain t len where c: "c = (t, len)" by (cases c)
  let ?v = "\<lambda>k. take (nat len) k" and ?c = "\<lambda>a b. compare_value (take (nat len) a) (take (nat len) b) t len"
  have ok: "value_ok t len (?v x)" "value_ok t len (?v y)" "value_ok t len (?v z)"
    using Cons.prems by (auto simp: c)
  have le: "?c x y \<le> 0" "?c y z \<le> 0"
    using Cons.prems(4,5) by (auto simp: c Let_def split: if_splits)
  then have xz: "?c x z \<le> 0" using ok col.cmp_trans by blast
  show ?case
  proof (cases "?c x z = 0")
    case True
    have "\<not> ?c x y < 0" using True col.cmp_less_le_trans [OF ok _ le(2)] by (metis less_irrefl)
    moreover have "\<not> ?c y z < 0" using True col.cmp_le_less_trans [OF ok le(1)] by (metis less_irrefl)
    ultimately have eq: "?c x y = 0" "?c y z = 0" using le by (meson order.order_iff_strict)+
    show ?thesis
      using Cons.prems Cons.IH [of "drop (nat len) x" "drop (nat len) y" "drop (nat len) z"] True eq
      by (auto simp: c Let_def)
  next
    case False
    then show ?thesis using xz by (auto simp: c Let_def)
  qed
qed simp

interpretation key: weak_cmp "\<lambda>x y. ix_compare x y cols" "key_ok cols" for cols
  by unfold_locales (auto simp: ix_compare_anti intro: ix_compare_trans)

section \<open>Properties of values and comparisons\<close>

text \<open>The integer a value stands for.\<close>

fun int_of_val :: "val \<Rightarrow> int option" where
  "int_of_val (VInt i) = Some i"
| "int_of_val (VBigint i) = Some i"
| "int_of_val (VDatetime i) = Some i"
| "int_of_val _ = None"

fun val_width :: "coltype \<Rightarrow> nat" where
  "val_width TYPE_INT = 4"
| "val_width TYPE_FLOAT = 4"
| "val_width TYPE_BIGINT = 8"
| "val_width TYPE_DATETIME = 8"
| "val_width TYPE_STRING = 0"

lemma raw_bytes_int:
  assumes "raw_bytes v len = Inr bs" "int_of_val v = Some i"
  shows "bs = le_encode (val_width (val_type v)) i"
  using assms by (cases v) (auto split: if_splits)

text \<open>
  The bytes that \<open>init_raw\<close> writes for two integers, big integers or times of the same
  type compare, under \<open>compare_value\<close>, as the numbers do: negative numbers included, because the
  comparison reads the bytes back as two's complement.
\<close>

theorem compare_raw_numbers:
  assumes "val_type u = val_type v"
    and "int_of_val u = Some i" "int_of_val v = Some j"
    and "in_signed (val_width (val_type v)) i" "in_signed (val_width (val_type v)) j"
    and "raw_bytes u len = Inr x" "raw_bytes v len = Inr y"
  shows "(compare_value x y (val_type v) len < 0 \<longleftrightarrow> i < j) \<and>
         (compare_value x y (val_type v) len = 0 \<longleftrightarrow> i = j) \<and>
         (compare_value x y (val_type v) len > 0 \<longleftrightarrow> i > j)"
proof -
  have x: "x = le_encode (val_width (val_type v)) i"
    using raw_bytes_int [OF assms(6,2)] assms(1) by simp
  have y: "y = le_encode (val_width (val_type v)) j"
    by (rule raw_bytes_int [OF assms(7,3)])
  show ?thesis
    using assms(3-5) by (cases v) (auto simp: x y Let_def signed_roundtrip)
qed

theorem compare_raw_numbers_witness:
  "compare_value (le_encode 4 (-1)) (le_encode 4 1) TYPE_INT 4 < 0"
  using compare_raw_numbers [of "VInt (-1)" "VInt 1" "-1" 1 4 "le_encode 4 (-1)" "le_encode 4 1"]
  by (simp add: in_signed_def)

text \<open>
  A successful cast yields a value of the target type, and a cast between integer types
  keeps the number: a \<^verbatim>\<open>BIGINT\<close> literal outside the range of \<^verbatim>\<open>INT\<close> is refused, never truncated.
\<close>

theorem cast_val_sound:
  assumes "cast_val v target = Some w"
  shows "val_type w = target \<and>
    (target \<in> {TYPE_INT, TYPE_BIGINT} \<longrightarrow> v \<noteq> w \<longrightarrow> int_of_val w = int_of_val v \<and> int_of_val v \<noteq> None) \<and>
    (target = TYPE_INT \<longrightarrow> val_type v = TYPE_BIGINT \<longrightarrow> (\<exists>i. w = VInt i \<and> in_signed 4 i))"
  using assms
  by (cases v; cases target) (auto simp: cast_val.simps in_signed_def split: if_splits)

theorem cast_val_sound_witness:
  "val_type (VInt 7) = TYPE_INT \<and> int_of_val (VInt 7) = int_of_val (VBigint 7)"
  using cast_val_sound [of "VBigint 7" TYPE_INT "VInt 7"] by (simp add: cast_val.simps)

lemma eval_compare_swap: "eval_compare (- c) (swap_op op) = eval_compare c op"
  by (cases op) auto

lemma eval_compare_sgn: "sgn c = sgn d \<Longrightarrow> eval_compare c op = eval_compare d op"
  by (cases op) (auto simp: sgn_if split: if_splits)

text \<open>
  Exchanging the two sides of a comparison and mapping its operator through \<open>swap_op\<close>
  keeps its truth value, for every column type, on values the comparison is defined for.
\<close>

theorem swap_op_correct:
  assumes "value_ok t len x" "value_ok t len y"
  shows "eval_compare (compare_value y x t len) (swap_op op) = eval_compare (compare_value x y t len) op"
proof -
  have "sgn (compare_value y x t len) = sgn (- compare_value x y t len)"
    using col.cmp_anti [OF assms] col.cmp_anti [OF assms(2,1)] by (auto simp: sgn_if)
  then show ?thesis
    using eval_compare_sgn [of "compare_value y x t len" "- compare_value x y t len" "swap_op op"]
    by (simp add: eval_compare_swap)
qed

theorem swap_op_correct_witness:
  "eval_compare (compare_value (le_encode 4 9) (le_encode 4 3) TYPE_INT 4) (swap_op OP_LT) =
   eval_compare (compare_value (le_encode 4 3) (le_encode 4 9) TYPE_INT 4) OP_LT"
  by (rule swap_op_correct) (simp_all add: value_ok_def)

end
