(* ===== verification/Log_Record.thy ===== *)
theory Log_Record
  imports Values
begin

text \<open>
  The log records of \<^verbatim>\<open>src/src/recovery/log_manager.h\<close>: the class hierarchy under
  \<^verbatim>\<open>LogRecord\<close> as a datatype over the common header, the constructors, and
  \<^verbatim>\<open>serialize\<close>/\<^verbatim>\<open>deserialize\<close> on a memory. An \<^verbatim>\<open>RmRecord\<close> is the list of its bytes, its
  \<^verbatim>\<open>size\<close> the length of the list.
\<close>

section \<open>Records\<close>

datatype log_type = UPDATE | INSERT | DELETE | LT_begin | LT_commit | ABORT

text \<open>The numbering of \<^verbatim>\<open>enum LogType\<close>.\<close>

fun log_type_no :: "log_type \<Rightarrow> int" where
  "log_type_no UPDATE = 0"
| "log_type_no INSERT = 1"
| "log_type_no DELETE = 2"
| "log_type_no LT_begin = 3"
| "log_type_no LT_commit = 4"
| "log_type_no ABORT = 5"

definition OFFSET_LOG_TYPE :: nat where "OFFSET_LOG_TYPE = 0"
definition OFFSET_LSN :: nat where "OFFSET_LSN = 4"
definition OFFSET_LOG_TOT_LEN :: nat where "OFFSET_LOG_TOT_LEN = OFFSET_LSN + 4"
definition OFFSET_LOG_TID :: nat where "OFFSET_LOG_TID = OFFSET_LOG_TOT_LEN + 4"
definition OFFSET_PREV_LSN :: nat where "OFFSET_PREV_LSN = OFFSET_LOG_TID + 8"
definition OFFSET_LOG_DATA :: nat where "OFFSET_LOG_DATA = OFFSET_PREV_LSN + 4"
definition LOG_HEADER_SIZE :: nat where "LOG_HEADER_SIZE = OFFSET_LOG_DATA"

lemmas log_offsets = OFFSET_LOG_TYPE_def OFFSET_LSN_def OFFSET_LOG_TOT_LEN_def OFFSET_LOG_TID_def
  OFFSET_PREV_LSN_def OFFSET_LOG_DATA_def LOG_HEADER_SIZE_def

record log_hdr =
  lg_type :: int
  lsn :: int
  log_tot_len :: int
  log_tid :: int
  prev_lsn :: int

datatype log_record =
    BeginLog (hdr: log_hdr)
  | CommitLog (hdr: log_hdr)
  | AbortLog (hdr: log_hdr)
  | InsertLog (hdr: log_hdr) (insert_value: bytes) (log_rid: rid) (table_name: string)
  | DeleteLog (hdr: log_hdr) (delete_value: bytes) (log_rid: rid) (table_name: string)
  | UpdateLog (hdr: log_hdr) (old_value: bytes) (new_value: bytes) (log_rid: rid) (table_name: string)

fun set_hdr :: "(log_hdr \<Rightarrow> log_hdr) \<Rightarrow> log_record \<Rightarrow> log_record" where
  "set_hdr f (BeginLog h) = BeginLog (f h)"
| "set_hdr f (CommitLog h) = CommitLog (f h)"
| "set_hdr f (AbortLog h) = AbortLog (f h)"
| "set_hdr f (InsertLog h v r t) = InsertLog (f h) v r t"
| "set_hdr f (DeleteLog h v r t) = DeleteLog (f h) v r t"
| "set_hdr f (UpdateLog h v w r t) = UpdateLog (f h) v w r t"

section \<open>Constructors\<close>

definition new_hdr :: "log_type \<Rightarrow> int \<Rightarrow> nat \<Rightarrow> log_hdr" where
  "new_hdr t txn len = \<lparr>lg_type = log_type_no t, lsn = INVALID_LSN, log_tot_len = int len,
     log_tid = txn, prev_lsn = INVALID_LSN\<rparr>"

definition BeginLogRecord :: "int \<Rightarrow> log_record" where
  "BeginLogRecord txn = BeginLog (new_hdr LT_begin txn LOG_HEADER_SIZE)"

definition CommitLogRecord :: "int \<Rightarrow> log_record" where
  "CommitLogRecord txn = CommitLog (new_hdr LT_commit txn LOG_HEADER_SIZE)"

definition AbortLogRecord :: "int \<Rightarrow> log_record" where
  "AbortLogRecord txn = AbortLog (new_hdr ABORT txn LOG_HEADER_SIZE)"

text \<open>\<^verbatim>\<open>log_tot_len_\<close> adds the sizes of an \<^verbatim>\<open>int\<close>, the value, a \<^verbatim>\<open>Rid\<close>, a \<^verbatim>\<open>size_t\<close> and the name.\<close>

definition InsertLogRecord :: "int \<Rightarrow> bytes \<Rightarrow> rid \<Rightarrow> string \<Rightarrow> log_record" where
  "InsertLogRecord txn v r tab =
     InsertLog (new_hdr INSERT txn (LOG_HEADER_SIZE + 4 + length v + 8 + (8 + length tab))) v r tab"

definition DeleteLogRecord :: "int \<Rightarrow> bytes \<Rightarrow> rid \<Rightarrow> string \<Rightarrow> log_record" where
  "DeleteLogRecord txn v r tab =
     DeleteLog (new_hdr DELETE txn (LOG_HEADER_SIZE + 4 + length v + 8 + (8 + length tab))) v r tab"

definition UpdateLogRecord :: "int \<Rightarrow> bytes \<Rightarrow> bytes \<Rightarrow> rid \<Rightarrow> string \<Rightarrow> log_record" where
  "UpdateLogRecord txn v w r tab =
     UpdateLog (new_hdr UPDATE txn
       (LOG_HEADER_SIZE + (4 + length v) + (4 + length w) + 8 + (8 + length tab))) v w r tab"

section \<open>Serialization\<close>

definition ser_hdr :: "log_hdr \<Rightarrow> mem \<Rightarrow> nat \<Rightarrow> mem" where
  "ser_hdr h m dest =
     (let m = write_int 4 m (dest + OFFSET_LOG_TYPE) (lg_type h);
          m = write_int 4 m (dest + OFFSET_LSN) (lsn h);
          m = write_int 4 m (dest + OFFSET_LOG_TOT_LEN) (log_tot_len h);
          m = write_int 8 m (dest + OFFSET_LOG_TID) (log_tid h)
      in write_int 4 m (dest + OFFSET_PREV_LSN) (prev_lsn h))"

text \<open>The pieces of the body; each returns the offset after what it wrote.\<close>

definition ser_value :: "bytes \<Rightarrow> mem \<times> nat \<Rightarrow> mem \<times> nat" where
  "ser_value v = (\<lambda>(m, off). (mwrite (write_int 4 m off (int (length v))) (off + 4) v, off + 4 + length v))"

definition ser_rid :: "rid \<Rightarrow> mem \<times> nat \<Rightarrow> mem \<times> nat" where
  "ser_rid r = (\<lambda>(m, off). (write_int 4 (write_int 4 m off (page_no r)) (off + 4) (slot_no r), off + 8))"

definition ser_name :: "string \<Rightarrow> mem \<times> nat \<Rightarrow> mem \<times> nat" where
  "ser_name s = (\<lambda>(m, off).
     (mwrite (write_int 8 m off (int (length s))) (off + 8) (map byte_of_char s), off + 8 + length s))"

fun serialize :: "log_record \<Rightarrow> mem \<Rightarrow> nat \<Rightarrow> mem" where
  "serialize (BeginLog h) m dest = ser_hdr h m dest"
| "serialize (CommitLog h) m dest = ser_hdr h m dest"
| "serialize (AbortLog h) m dest = ser_hdr h m dest"
| "serialize (InsertLog h v r t) m dest =
     fst (ser_name t (ser_rid r (ser_value v (ser_hdr h m dest, dest + OFFSET_LOG_DATA))))"
| "serialize (DeleteLog h v r t) m dest =
     fst (ser_name t (ser_rid r (ser_value v (ser_hdr h m dest, dest + OFFSET_LOG_DATA))))"
| "serialize (UpdateLog h v w r t) m dest =
     fst (ser_name t (ser_rid r (ser_value w (ser_value v (ser_hdr h m dest, dest + OFFSET_LOG_DATA)))))"

section \<open>Deserialization\<close>

definition des_hdr :: "mem \<Rightarrow> nat \<Rightarrow> log_hdr" where
  "des_hdr m src =
     \<lparr>lg_type = read_int 4 m src, lsn = read_int 4 m (src + OFFSET_LSN),
      log_tot_len = read_uint 4 m (src + OFFSET_LOG_TOT_LEN), log_tid = read_int 8 m (src + OFFSET_LOG_TID),
      prev_lsn = read_int 4 m (src + OFFSET_PREV_LSN)\<rparr>"

definition des_value :: "mem \<Rightarrow> nat \<Rightarrow> bytes" where
  "des_value m off = mread m (off + 4) (nat (read_int 4 m off))"

definition des_rid :: "mem \<Rightarrow> nat \<Rightarrow> rid" where
  "des_rid m off = Rid (read_int 4 m off) (read_int 4 m (off + 4))"

definition des_name :: "mem \<Rightarrow> nat \<Rightarrow> string" where
  "des_name m off = map char_of_byte (mread m (off + 8) (nat (read_uint 8 m off)))"

definition des_insert :: "mem \<Rightarrow> nat \<Rightarrow> log_record" where
  "des_insert m src =
     (let v = des_value m (src + OFFSET_LOG_DATA); off = src + OFFSET_LOG_DATA + length v + 4
      in InsertLog (des_hdr m src) v (des_rid m off) (des_name m (off + 8)))"

definition des_delete :: "mem \<Rightarrow> nat \<Rightarrow> log_record" where
  "des_delete m src =
     (let v = des_value m (src + OFFSET_LOG_DATA); off = src + OFFSET_LOG_DATA + length v + 4
      in DeleteLog (des_hdr m src) v (des_rid m off) (des_name m (off + 8)))"

definition des_update :: "mem \<Rightarrow> nat \<Rightarrow> log_record" where
  "des_update m src =
     (let v = des_value m (src + OFFSET_LOG_DATA); off = src + OFFSET_LOG_DATA + length v + 4;
          w = des_value m off; off = off + (length w + 4)
      in UpdateLog (des_hdr m src) v w (des_rid m off) (des_name m (off + 8)))"

text \<open>
  The class chosen for a \<^verbatim>\<open>log_type\<close> (the \<^verbatim>\<open>switch\<close> of \<open>analyze\<close>) and its \<open>deserialize\<close>.
\<close>

definition deserialize_as :: "int \<Rightarrow> mem \<Rightarrow> nat \<Rightarrow> log_record option" where
  "deserialize_as t m src =
     (if t = log_type_no LT_begin then Some (BeginLog (des_hdr m src))
      else if t = log_type_no LT_commit then Some (CommitLog (des_hdr m src))
      else if t = log_type_no ABORT then Some (AbortLog (des_hdr m src))
      else if t = log_type_no INSERT then Some (des_insert m src)
      else if t = log_type_no DELETE then Some (des_delete m src)
      else if t = log_type_no UPDATE then Some (des_update m src)
      else None)"

section \<open>The bytes of a record\<close>

definition hdr_bytes :: "log_hdr \<Rightarrow> bytes" where
  "hdr_bytes h = le_encode 4 (lg_type h) @ le_encode 4 (lsn h) @ le_encode 4 (log_tot_len h) @
     le_encode 8 (log_tid h) @ le_encode 4 (prev_lsn h)"

definition value_bytes :: "bytes \<Rightarrow> bytes" where
  "value_bytes v = le_encode 4 (int (length v)) @ v"

definition rid_bytes :: "rid \<Rightarrow> bytes" where
  "rid_bytes r = le_encode 4 (page_no r) @ le_encode 4 (slot_no r)"

definition name_bytes :: "string \<Rightarrow> bytes" where
  "name_bytes s = le_encode 8 (int (length s)) @ map byte_of_char s"

fun rec_bytes :: "log_record \<Rightarrow> bytes" where
  "rec_bytes (BeginLog h) = hdr_bytes h"
| "rec_bytes (CommitLog h) = hdr_bytes h"
| "rec_bytes (AbortLog h) = hdr_bytes h"
| "rec_bytes (InsertLog h v r t) = hdr_bytes h @ value_bytes v @ rid_bytes r @ name_bytes t"
| "rec_bytes (DeleteLog h v r t) = hdr_bytes h @ value_bytes v @ rid_bytes r @ name_bytes t"
| "rec_bytes (UpdateLog h v w r t) = hdr_bytes h @ value_bytes v @ value_bytes w @ rid_bytes r @ name_bytes t"

lemma length_pieces [simp]:
  "length (hdr_bytes h) = 24" "length (value_bytes v) = 4 + length v" "length (rid_bytes r) = 8"
  "length (name_bytes s) = 8 + length s"
  by (simp_all add: hdr_bytes_def value_bytes_def rid_bytes_def name_bytes_def)

lemma mwrite_append': "length a = n \<Longrightarrow> mwrite (mwrite m off a) (off + n) b = mwrite m off (a @ b)"
  by (auto simp: mwrite_append)

lemma ser_hdr_bytes: "ser_hdr h m dest = mwrite m dest (hdr_bytes h)"
proof -
  have "mwrite (mwrite (mwrite (mwrite (mwrite m dest (le_encode 4 (lg_type h))) (dest + 4) (le_encode 4 (lsn h)))
      (dest + 8) (le_encode 4 (log_tot_len h))) (dest + 12) (le_encode 8 (log_tid h))) (dest + 20)
      (le_encode 4 (prev_lsn h)) = mwrite m dest (hdr_bytes h)"
    by (simp add: mwrite_append' hdr_bytes_def)
  then show ?thesis by (simp add: ser_hdr_def log_offsets mwrite_write_int add.assoc)
qed

lemma ser_value_bytes:
  "length a = off \<Longrightarrow> ser_value v (mwrite m dest a, dest + off) =
    (mwrite m dest (a @ value_bytes v), dest + (off + (4 + length v)))"
  by (auto simp: ser_value_def value_bytes_def mwrite_write_int mwrite_append' add.assoc)

lemma ser_rid_bytes:
  "length a = off \<Longrightarrow> ser_rid r (mwrite m dest a, dest + off) = (mwrite m dest (a @ rid_bytes r), dest + (off + 8))"
  by (auto simp: ser_rid_def rid_bytes_def mwrite_write_int mwrite_append' add.assoc)

lemma ser_name_bytes:
  "length a = off \<Longrightarrow> ser_name s (mwrite m dest a, dest + off) =
    (mwrite m dest (a @ name_bytes s), dest + (off + (8 + length s)))"
  by (auto simp: ser_name_def name_bytes_def mwrite_write_int mwrite_append' add.assoc)

lemmas ser_bytes = ser_hdr_bytes ser_value_bytes ser_rid_bytes ser_name_bytes

lemma serialize_bytes: "serialize r m dest = mwrite m dest (rec_bytes r)"
  by (cases r) (simp_all add: ser_bytes log_offsets)

section \<open>Round trip\<close>

lemma char_of_byte_of_char [simp]: "char_of_byte (byte_of_char c) = c"
proof -
  have "(of_char c :: nat) < 256" by simp
  then have "unat (word_of_nat (of_char c) :: byte) = of_char c"
    by (simp add: unat_of_nat take_bit_nat_eq_self)
  then show ?thesis by (simp add: char_of_byte_def byte_of_char_def)
qed

definition rid_fits :: "rid \<Rightarrow> bool" where
  "rid_fits r \<longleftrightarrow> in_signed 4 (page_no r) \<and> in_signed 4 (slot_no r)"

text \<open>The fields are values of their C++ types.\<close>

definition hdr_fits :: "log_hdr \<Rightarrow> bool" where
  "hdr_fits h \<longleftrightarrow> in_signed 4 (lg_type h) \<and> in_signed 4 (lsn h) \<and> 0 \<le> log_tot_len h \<and>
     log_tot_len h < 2 ^ 32 \<and> in_signed 8 (log_tid h) \<and> in_signed 4 (prev_lsn h)"

fun body_fits :: "log_record \<Rightarrow> bool" where
  "body_fits (InsertLog h v r t) = (length v < 2 ^ 31 \<and> rid_fits r \<and> length t < 2 ^ 63)"
| "body_fits (DeleteLog h v r t) = (length v < 2 ^ 31 \<and> rid_fits r \<and> length t < 2 ^ 63)"
| "body_fits (UpdateLog h v w r t) = (length v < 2 ^ 31 \<and> length w < 2 ^ 31 \<and> rid_fits r \<and> length t < 2 ^ 63)"
| "body_fits _ = True"

fun class_type :: "log_record \<Rightarrow> log_type" where
  "class_type (BeginLog _) = LT_begin"
| "class_type (CommitLog _) = LT_commit"
| "class_type (AbortLog _) = ABORT"
| "class_type (InsertLog _ _ _ _) = INSERT"
| "class_type (DeleteLog _ _ _ _) = DELETE"
| "class_type (UpdateLog _ _ _ _ _) = UPDATE"

definition rec_ok :: "log_record \<Rightarrow> bool" where
  "rec_ok r \<longleftrightarrow> hdr_fits (hdr r) \<and> body_fits r \<and> lg_type (hdr r) = log_type_no (class_type r) \<and>
     log_tot_len (hdr r) = int (length (rec_bytes r))"

lemma des_hdr_bytes: "holds m src (hdr_bytes h) \<Longrightarrow> hdr_fits h \<Longrightarrow> des_hdr m src = h"
  by (auto simp: des_hdr_def hdr_bytes_def holds_append log_offsets hdr_fits_def add.assoc
      intro!: holds_read_int holds_read_uint log_hdr.equality)

lemma des_value_bytes: "holds m off (value_bytes v) \<Longrightarrow> length v < 2 ^ 31 \<Longrightarrow> des_value m off = v"
  using holds_read_int [of m off 4 "int (length v)"]
  by (simp add: des_value_def value_bytes_def holds_append in_signed_def holds_mread)

lemma des_rid_bytes: "holds m off (rid_bytes r) \<Longrightarrow> rid_fits r \<Longrightarrow> des_rid m off = r"
  by (cases r) (simp add: des_rid_def rid_bytes_def holds_append rid_fits_def holds_read_int)

lemma des_name_bytes: "holds m off (name_bytes s) \<Longrightarrow> length s < 2 ^ 63 \<Longrightarrow> des_name m off = s"
  using holds_read_uint [of m off 8 "int (length s)"] holds_mread [of m "off + 8" "map byte_of_char s" "length s"]
  by (simp add: des_name_def name_bytes_def holds_append comp_def)

lemmas des_bytes = des_hdr_bytes des_value_bytes des_rid_bytes des_name_bytes

lemma deserialize_bytes:
  "holds m src (rec_bytes r) \<Longrightarrow> rec_ok r \<Longrightarrow> deserialize_as (lg_type (hdr r)) m src = Some r"
  by (cases r)
    (auto simp: rec_ok_def deserialize_as_def des_insert_def des_delete_def des_update_def Let_def
      holds_append des_bytes log_offsets add.assoc add.commute add.left_commute)

lemma length_rec_bytes: "24 \<le> length (rec_bytes r)"
  by (cases r) simp_all

lemma holds_rec_hdr: "holds m src (rec_bytes r) \<Longrightarrow> holds m src (hdr_bytes (hdr r))"
  by (cases r) (simp_all add: holds_append)

lemma rec_bytes_set_hdr: "length (rec_bytes (set_hdr f r)) = length (rec_bytes r)"
  by (cases r) simp_all

lemma hdr_set_hdr [simp]: "hdr (set_hdr f r) = f (hdr r)"
  by (cases r) simp_all

lemma new_records_ok:
  assumes "in_signed 8 txn" "length v < 2 ^ 30" "length w < 2 ^ 30" "length tab < 2 ^ 30" "rid_fits r"
  shows "rec_ok (BeginLogRecord txn)" "rec_ok (CommitLogRecord txn)" "rec_ok (AbortLogRecord txn)"
    "rec_ok (InsertLogRecord txn v r tab)" "rec_ok (DeleteLogRecord txn v r tab)"
    "rec_ok (UpdateLogRecord txn v w r tab)"
  using assms
  by (simp_all add: rec_ok_def BeginLogRecord_def CommitLogRecord_def AbortLogRecord_def InsertLogRecord_def
      DeleteLogRecord_def UpdateLogRecord_def new_hdr_def hdr_fits_def in_signed_def INVALID_LSN_def log_offsets)


text \<open>
  Claim C25. Serializing a log record into a buffer and deserializing it there gives back the record,
  for every record the constructors build and every LSN assigned to it, and the bytes of the buffer
  outside its \<open>log_tot_len_\<close> bytes are untouched.
\<close>

theorem serialize_deserialize:
  assumes "rec_ok r"
  shows "deserialize_as (log_type_no (class_type r)) (serialize r m dest) dest = Some r \<and>
    (\<forall>i. i < dest \<or> dest + nat (log_tot_len (hdr r)) \<le> i \<longrightarrow> serialize r m dest i = m i)"
proof
  have "holds (serialize r m dest) dest (rec_bytes r)" by (simp add: serialize_bytes holds_mwrite)
  then show "deserialize_as (log_type_no (class_type r)) (serialize r m dest) dest = Some r"
    using deserialize_bytes [of _ dest r] assms by (auto simp: rec_ok_def)
  show "\<forall>i. i < dest \<or> dest + nat (log_tot_len (hdr r)) \<le> i \<longrightarrow> serialize r m dest i = m i"
    using assms by (simp add: serialize_bytes mem_simps rec_ok_def)
qed

theorem serialize_deserialize_witness:
  "deserialize_as (log_type_no INSERT) (serialize (InsertLogRecord 7 [1, 2] (Rid 3 4) ''t'') mzero 10) 10 =
    Some (InsertLogRecord 7 [1, 2] (Rid 3 4) ''t'')"
proof -
  have "rec_ok (InsertLogRecord 7 [1, 2] (Rid 3 4) ''t'')"
    by (rule new_records_ok [where w = "[]"]) (simp_all add: in_signed_def rid_fits_def)
  from serialize_deserialize [OF this, of mzero 10] show ?thesis by (simp add: InsertLogRecord_def)
qed

end
