(* ===== verification/Disk.thy ===== *)
theory Disk
  imports Rmdb_Base
begin

text \<open>
  The disk manager, \<^verbatim>\<open>src/src/storage/disk_manager.cpp\<close>, over a file system that maps a path to
  the bytes of the file. \<open>open_fds\<close> is the descriptor table of the process for the files it opened
  through this class and \<open>other_fds\<close> the descriptors it holds otherwise (standard streams, sockets);
  \<^verbatim>\<open>open\<close> returns the least unused one. A system call fails where its documentation says so for a
  bad descriptor, a negative offset or a missing or existing file; the disk is never full. The
  \<^verbatim>\<open>int\<close> product \<^verbatim>\<open>page_no * PAGE_SIZE\<close> is kept at 32 bits.

  \<open>writes\<close> is no variable of the class: it records, in order, every \<^verbatim>\<open>write\<close> to a page or to the log
  (path, offset, bytes), so that a property can speak of the order in which they reach the files.
  No operation reads it.
\<close>

record disk =
  files :: "string \<rightharpoonup> bytes"
  open_fds :: "(int \<times> string) list"
  other_fds :: "int list"
  path2fd :: "string \<rightharpoonup> int"
  fd2path :: "int \<rightharpoonup> string"
  log_fd :: int
  fd2pageno :: "int \<Rightarrow> int"
  writes :: "(string \<times> nat \<times> bytes) list"

definition disk_new :: "(string \<rightharpoonup> bytes) \<Rightarrow> int list \<Rightarrow> disk" where
  "disk_new fs others = \<lparr>files = fs, open_fds = [], other_fds = others, path2fd = Map.empty,
     fd2path = Map.empty, log_fd = -1, fd2pageno = (\<lambda>_. 0), writes = []\<rparr>"

section \<open>The system calls\<close>

text \<open>\<^verbatim>\<open>write\<close> at an offset: a hole before the offset reads as zeros.\<close>

definition pwrite :: "nat \<Rightarrow> bytes \<Rightarrow> bytes \<Rightarrow> bytes" where
  "pwrite off bs f = take off (f @ replicate (off - length f) 0) @ bs @ drop (off + length bs) f"

definition pread :: "nat \<Rightarrow> nat \<Rightarrow> bytes \<Rightarrow> bytes" where
  "pread off n f = take n (drop off f)"

definition lowest_fd :: "int list \<Rightarrow> int" where
  "lowest_fd used = hd (filter (\<lambda>i. i \<notin> set used) (map int [0..<Suc (length used)]))"

definition os_open :: "string \<Rightarrow> disk \<Rightarrow> int \<times> disk" where
  "os_open path d =
     (let fd = lowest_fd (map fst (open_fds d) @ other_fds d)
      in (fd, d\<lparr>open_fds := (fd, path) # open_fds d\<rparr>))"

text \<open>The file a descriptor refers to and its bytes.\<close>

definition fd_bytes :: "disk \<Rightarrow> int \<Rightarrow> bytes option" where
  "fd_bytes d fd = (case map_of (open_fds d) fd of None \<Rightarrow> None | Some path \<Rightarrow> files d path)"

section \<open>Pages\<close>

definition page_offset :: "int \<Rightarrow> int" where
  "page_offset pn = to_signed 4 ((pn * int PAGE_SIZE) mod 2 ^ 32)"

definition write_page :: "int \<Rightarrow> int \<Rightarrow> mem \<Rightarrow> nat \<Rightarrow> (disk, unit) op" where
  "write_page fd pn buf n = (\<lambda>d.
     case map_of (open_fds d) fd of
       None \<Rightarrow> (Inl UnixError, d)
     | Some path \<Rightarrow>
         if page_offset pn < 0 then (Inl UnixError, d)
         else (case files d path of
             None \<Rightarrow> (Inl (InternalError ''DiskManager::write_page Error''), d)
           | Some f \<Rightarrow>
               (Inr (), d\<lparr>files := (files d)(path \<mapsto> pwrite (nat (page_offset pn)) (mread buf 0 n) f),
                  writes := writes d @ [(path, nat (page_offset pn), mread buf 0 n)]\<rparr>)))"

text \<open>
  \<open>read_page\<close> changes the buffer and not the disk; a short read has already filled the front of the
  buffer when it throws.
\<close>

definition read_page :: "disk \<Rightarrow> int \<Rightarrow> int \<Rightarrow> nat \<Rightarrow> (mem, unit) op" where
  "read_page d fd pn n = (\<lambda>buf.
     case fd_bytes d fd of
       None \<Rightarrow> (Inl UnixError, buf)
     | Some f \<Rightarrow>
         if page_offset pn < 0 then (Inl UnixError, buf)
         else let bs = pread (nat (page_offset pn)) n f
              in (if length bs \<noteq> n then Inl (InternalError ''DiskManager::read_page Error'') else Inr (),
                  mwrite buf 0 bs))"

definition MAX_FD :: int where "MAX_FD = 8192"

definition allocate_page :: "int \<Rightarrow> (disk, int) op" where
  "allocate_page fd = (\<lambda>d.
     if 0 \<le> fd \<and> fd < MAX_FD
     then (Inr (fd2pageno d fd),
           d\<lparr>fd2pageno := (fd2pageno d)(fd := to_signed 4 ((fd2pageno d fd + 1) mod 2 ^ 32))\<rparr>)
     else (Inl AssertionFailure, d))"

definition set_fd2pageno :: "int \<Rightarrow> int \<Rightarrow> disk \<Rightarrow> disk" where
  "set_fd2pageno fd start d = d\<lparr>fd2pageno := (fd2pageno d)(fd := start)\<rparr>"

section \<open>Files\<close>

definition is_file :: "disk \<Rightarrow> string \<Rightarrow> bool" where
  "is_file d path \<longleftrightarrow> files d path \<noteq> None"

definition create_file :: "string \<Rightarrow> (disk, unit) op" where
  "create_file path = (\<lambda>d.
     if is_file d path then (Inl (FileExistsError path), d)
     else (Inr (), d\<lparr>files := (files d)(path \<mapsto> [])\<rparr>))"

definition destroy_file :: "string \<Rightarrow> (disk, unit) op" where
  "destroy_file path = (\<lambda>d.
     if \<not> is_file d path then (Inl (FileNotFoundError path), d)
     else if path2fd d path \<noteq> None then (Inl (FileNotClosedError path), d)
     else (Inr (), d\<lparr>files := (files d)(path := None)\<rparr>))"

definition open_file :: "string \<Rightarrow> (disk, int) op" where
  "open_file path = (\<lambda>d.
     if \<not> is_file d path then (Inl (FileNotFoundError path), d)
     else if path2fd d path \<noteq> None then (Inl (FileNotClosedError path), d)
     else let (fd, d') = os_open path d
          in (Inr fd, d'\<lparr>path2fd := (path2fd d')(path \<mapsto> fd), fd2path := (fd2path d')(fd \<mapsto> path)\<rparr>))"

definition close_file :: "int \<Rightarrow> (disk, unit) op" where
  "close_file fd = (\<lambda>d.
     case fd2path d fd of
       None \<Rightarrow> (Inl (FileNotOpenError fd), d)
     | Some path \<Rightarrow>
         if map_of (open_fds d) fd = None then (Inl UnixError, d)
         else (Inr (), d\<lparr>open_fds := filter (\<lambda>(fd', _). fd' \<noteq> fd) (open_fds d),
                 fd2path := (fd2path d)(fd := None), path2fd := (path2fd d)(path := None)\<rparr>))"

definition get_file_size :: "disk \<Rightarrow> string \<Rightarrow> int" where
  "get_file_size d path = (case files d path of None \<Rightarrow> -1 | Some f \<Rightarrow> to_signed 4 (int (length f) mod 2 ^ 32))"

definition get_file_name :: "int \<Rightarrow> (disk, string) op" where
  "get_file_name fd = (\<lambda>d. case fd2path d fd of None \<Rightarrow> (Inl (FileNotOpenError fd), d) | Some p \<Rightarrow> (Inr p, d))"

definition get_file_fd :: "string \<Rightarrow> (disk, int) op" where
  "get_file_fd path = (\<lambda>d. case path2fd d path of None \<Rightarrow> open_file path d | Some fd \<Rightarrow> (Inr fd, d))"

section \<open>The log file\<close>

definition open_log :: "(disk, unit) op" where
  "open_log = (\<lambda>d.
     if log_fd d = -1 then
       (case open_file LOG_FILE_NAME d of
          (Inl e, d') \<Rightarrow> (Inl e, d')
        | (Inr fd, d') \<Rightarrow> (Inr (), d'\<lparr>log_fd := fd\<rparr>))
     else (Inr (), d))"

text \<open>
  \<open>read_log n off\<close> returns the number of bytes read, \<open>-1\<close> past the end of the file, and
  the bytes it stored in \<^verbatim>\<open>log_data\<close>.
\<close>

definition read_log :: "int \<Rightarrow> int \<Rightarrow> (disk, int \<times> bytes) op" where
  "read_log n off = andThen open_log (\<lambda>_ d.
     let file_size = get_file_size d LOG_FILE_NAME
     in if off > file_size then (Inr (-1, []), d)
        else let n = min n (file_size - off)
             in if n = 0 then (Inr (0, []), d)
                else let bs = (case fd_bytes d (log_fd d) of None \<Rightarrow> [] | Some f \<Rightarrow> pread (nat off) (nat n) f)
                     in if int (length bs) \<noteq> n then (Inl AssertionFailure, d)
                        else (Inr (int (length bs), bs), d))"

definition write_log :: "bytes \<Rightarrow> (disk, unit) op" where
  "write_log bs = andThen open_log (\<lambda>_ d.
     case map_of (open_fds d) (log_fd d) of
       None \<Rightarrow> (Inl UnixError, d)
     | Some path \<Rightarrow>
         (case files d path of
            None \<Rightarrow> (Inl UnixError, d)
          | Some f \<Rightarrow> (Inr (), d\<lparr>files := (files d)(path \<mapsto> f @ bs),
              writes := writes d @ [(path, length f, bs)]\<rparr>)))"

section \<open>Descriptors\<close>

lemma lowest_fd_fresh:
  "lowest_fd used \<notin> set used" "0 \<le> lowest_fd used"
proof -
  let ?l = "map int [0..<Suc (length used)]"
  have "filter (\<lambda>i. i \<notin> set used) ?l \<noteq> []"
  proof
    assume "filter (\<lambda>i. i \<notin> set used) ?l = []"
    then have "set ?l \<subseteq> set used" by (auto simp: filter_empty_conv simp del: upt_Suc)
    then have "card (set ?l) \<le> length used" by (meson List.finite_set card_length card_mono le_trans)
    moreover have "card (set ?l) = Suc (length used)" by (subst distinct_card) (auto simp: distinct_map simp del: upt_Suc)
    ultimately show False by simp
  qed
  then have "lowest_fd used \<in> set (filter (\<lambda>i. i \<notin> set used) ?l)"
    unfolding lowest_fd_def by (rule hd_in_set)
  then show "lowest_fd used \<notin> set used" "0 \<le> lowest_fd used" by (auto simp del: upt_Suc)
qed

definition disk_ok :: "disk \<Rightarrow> bool" where
  "disk_ok d \<longleftrightarrow> distinct (map fst (open_fds d)) \<and> map_of (open_fds d) = fd2path d \<and>
     (\<forall>p fd. path2fd d p = Some fd \<longleftrightarrow> fd2path d fd = Some p) \<and>
     (\<forall>fd p. fd2path d fd = Some p \<longrightarrow> files d p \<noteq> None \<and> 0 \<le> fd \<and> fd \<notin> set (other_fds d))"

definition log_fd_ok :: "disk \<Rightarrow> bool" where
  "log_fd_ok d \<longleftrightarrow> log_fd d = -1 \<or> fd2path d (log_fd d) = Some LOG_FILE_NAME"

lemma disk_new_ok: "disk_ok (disk_new fs others)" "log_fd_ok (disk_new fs others)"
  by (simp_all add: disk_ok_def disk_new_def log_fd_ok_def)

lemma disk_ok_files_upd:
  "disk_ok d \<Longrightarrow> (\<And>fd p. fd2path d fd = Some p \<Longrightarrow> fs p \<noteq> None) \<Longrightarrow> disk_ok (d\<lparr>files := fs\<rparr>)"
  by (auto simp: disk_ok_def)

lemma disk_ok_log_fd [simp]: "disk_ok (d\<lparr>log_fd := fd\<rparr>) = disk_ok d"
  by (simp add: disk_ok_def)

lemma disk_ok_fd2pageno [simp]: "disk_ok (d\<lparr>fd2pageno := x\<rparr>) = disk_ok d"
  by (simp add: disk_ok_def)

lemma disk_ok_writes [simp]: "disk_ok (d\<lparr>writes := ws\<rparr>) = disk_ok d"
  by (simp add: disk_ok_def)

lemma disk_ok_inj: "disk_ok d \<Longrightarrow> fd2path d fd = Some p \<Longrightarrow> fd2path d fd' = Some p \<Longrightarrow> fd = fd'"
  unfolding disk_ok_def by (metis option.inject)

lemma open_file_new:
  assumes "disk_ok d" "open_file path d = (Inr fd, d')"
  shows "disk_ok d' \<and> fd2path d' = (fd2path d)(fd \<mapsto> path) \<and> path2fd d' = (path2fd d)(path \<mapsto> fd) \<and>
    files d' = files d \<and> log_fd d' = log_fd d \<and> fd2pageno d' = fd2pageno d \<and>
    fd2path d fd = None \<and> path2fd d path = None \<and> files d path \<noteq> None"
proof -
  let ?fd = "lowest_fd (map fst (open_fds d) @ other_fds d)"
  have f: "files d path \<noteq> None" "path2fd d path = None" "fd = ?fd"
    and d': "d' = d\<lparr>open_fds := (fd, path) # open_fds d, path2fd := (path2fd d)(path \<mapsto> fd),
      fd2path := (fd2path d)(fd \<mapsto> path)\<rparr>"
    using assms(2) by (auto simp: open_file_def is_file_def os_open_def Let_def split: if_splits)
  have new: "fd \<notin> fst ` set (open_fds d)" "fd \<notin> set (other_fds d)" "0 \<le> fd"
    using lowest_fd_fresh [of "map fst (open_fds d) @ other_fds d"] f(3) by auto
  then have none: "fd2path d fd = None"
    using assms(1) map_of_eq_None_iff [of "open_fds d" fd] unfolding disk_ok_def by metis
  have nopath: "fd2path d fd' \<noteq> Some path" for fd'
    using assms(1) f(2) unfolding disk_ok_def by (metis option.distinct(1))
  show ?thesis
    using assms(1) new f(1,2) none nopath unfolding d' by (auto simp: disk_ok_def)
qed

lemma open_file_err: "open_file path d = (Inl e, d') \<Longrightarrow> d' = d"
  by (auto simp: open_file_def os_open_def Let_def split: if_splits)

lemma close_file_ok:
  assumes "disk_ok d"
  shows "disk_ok (snd (close_file fd d))"
proof (cases "fd2path d fd")
  case None
  with assms show ?thesis by (simp add: close_file_def)
next
  case (Some path)
  have m: "map_of (filter (\<lambda>(fd', _). fd' \<noteq> fd) xs) = (map_of xs)(fd := None)" for xs :: "(int \<times> string) list"
    by (induction xs) auto
  have only: "fd2path d fd' = Some path \<Longrightarrow> fd' = fd" for fd'
    using disk_ok_inj [OF assms _ Some] by blast
  from assms Some m show ?thesis
    by (auto simp: disk_ok_def close_file_def distinct_map_filter dest: only split: if_splits)
qed

section \<open>Frames of the operations\<close>

lemma write_page_run:
  assumes "disk_ok d" "write_page fd pn buf n d = (r, d')"
  shows "disk_ok d' \<and> fd2path d' = fd2path d \<and> path2fd d' = path2fd d \<and> log_fd d' = log_fd d \<and>
    fd2pageno d' = fd2pageno d \<and>
    (case r of Inl e \<Rightarrow> d' = d
     | Inr _ \<Rightarrow> \<exists>path f. fd2path d fd = Some path \<and> 0 \<le> page_offset pn \<and> files d path = Some f \<and>
        files d' = (files d)(path \<mapsto> pwrite (nat (page_offset pn)) (mread buf 0 n) f))"
proof -
  have e: "map_of (open_fds d) fd = fd2path d fd" using assms(1) unfolding disk_ok_def by simp
  show ?thesis
    using assms unfolding write_page_def e
    by (auto split: option.splits if_splits intro!: disk_ok_files_upd simp: disk_ok_def)
qed

lemma open_log_run:
  assumes "disk_ok d" "log_fd_ok d" "open_log d = (r, d')"
  shows "disk_ok d' \<and> log_fd_ok d' \<and> files d' = files d \<and> fd2pageno d' = fd2pageno d \<and>
    (\<forall>fd p. fd2path d fd = Some p \<longrightarrow> fd2path d' fd = Some p) \<and>
    (case r of Inl e \<Rightarrow> d' = d | Inr _ \<Rightarrow> fd2path d' (log_fd d') = Some LOG_FILE_NAME \<and> files d LOG_FILE_NAME \<noteq> None)"
proof (cases "log_fd d = -1")
  case True
  show ?thesis
  proof (cases "open_file LOG_FILE_NAME d")
    case (Pair r' d2)
    with True assms open_file_new [OF assms(1), of LOG_FILE_NAME _ d2] open_file_err [of LOG_FILE_NAME d _ d2]
    show ?thesis
      by (cases r') (auto simp: open_log_def log_fd_ok_def)
  qed
next
  case False
  with assms show ?thesis by (auto simp: open_log_def log_fd_ok_def disk_ok_def)
qed

lemma write_log_run:
  assumes "disk_ok d" "log_fd_ok d" "write_log bs d = (r, d')"
  shows "disk_ok d' \<and> log_fd_ok d' \<and> fd2pageno d' = fd2pageno d \<and>
    (\<forall>fd p. fd2path d fd = Some p \<longrightarrow> fd2path d' fd = Some p) \<and>
    (\<forall>p. p \<noteq> LOG_FILE_NAME \<longrightarrow> files d' p = files d p) \<and>
    (case r of Inl e \<Rightarrow> files d' = files d
     | Inr _ \<Rightarrow> \<exists>f. files d LOG_FILE_NAME = Some f \<and> files d' LOG_FILE_NAME = Some (f @ bs))"
proof (cases "open_log d")
  case (Pair r0 d0)
  note o = open_log_run [OF assms(1,2) Pair]
  show ?thesis
  proof (cases r0)
    case (Inl e)
    with Pair assms(3) o assms(1,2) show ?thesis by (auto simp: write_log_def run_simps)
  next
    case (Inr u)
    then have l: "map_of (open_fds d0) (log_fd d0) = Some LOG_FILE_NAME"
      using o unfolding disk_ok_def by simp
    from o Inr obtain f where f: "files d0 LOG_FILE_NAME = Some f" "files d LOG_FILE_NAME = Some f" by auto
    have "r = Inr () \<and> d' = d0\<lparr>files := (files d0)(LOG_FILE_NAME \<mapsto> f @ bs),
        writes := writes d0 @ [(LOG_FILE_NAME, length f, bs)]\<rparr>"
      using assms(3) Pair Inr l f by (simp add: write_log_def run_simps)
    with o f Inr show ?thesis
      by (auto intro!: disk_ok_files_upd simp: log_fd_ok_def) (auto simp: disk_ok_def)
  qed
qed

section \<open>What a page read returns\<close>

text \<open>The \<open>PAGE_SIZE\<close> bytes of a page on disk, when the file reaches that far.\<close>

definition disk_page :: "disk \<Rightarrow> int \<Rightarrow> int \<Rightarrow> bytes option" where
  "disk_page d fd pn =
     (case fd2path d fd of
        None \<Rightarrow> None
      | Some path \<Rightarrow>
          (case files d path of
             None \<Rightarrow> None
           | Some f \<Rightarrow>
               (if page_offset pn < 0 \<or> length f < nat (page_offset pn) + PAGE_SIZE then None
                else Some (pread (nat (page_offset pn)) PAGE_SIZE f))))"

lemma length_pwrite: "length (pwrite off bs f) = max (length f) (off + length bs)"
  by (simp add: pwrite_def)

lemma nth_pwrite:
  "i < length (pwrite off bs f) \<Longrightarrow> pwrite off bs f ! i =
    (if off \<le> i \<and> i < off + length bs then bs ! (i - off) else if i < length f then f ! i else 0)"
proof -
  have e: "min (length f) off + (off - length f) = off" by simp
  show "i < length (pwrite off bs f) \<Longrightarrow> ?thesis"
    by (auto simp: pwrite_def nth_append e)
qed

lemma pread_pwrite_same: "pread off (length bs) (pwrite off bs f) = bs"
  by (rule nth_equalityI) (auto simp: pread_def nth_pwrite length_pwrite)

lemma pread_pwrite_other:
  "off' + n \<le> off \<or> off + length bs \<le> off' \<Longrightarrow> off' + n \<le> length f \<Longrightarrow>
    pread off' n (pwrite off bs f) = pread off' n f"
  by (rule nth_equalityI) (auto simp: pread_def nth_pwrite length_pwrite)

lemma length_disk_page: "disk_page d fd pn = Some bs \<Longrightarrow> length bs = PAGE_SIZE"
  by (auto simp: disk_page_def pread_def split: option.splits if_splits)

text \<open>Page numbers whose offset does not overflow.\<close>

definition valid_no :: "int \<Rightarrow> bool" where
  "valid_no pn \<longleftrightarrow> 0 \<le> pn \<and> pn < 2 ^ 19"

lemma page_offset_valid: "valid_no pn \<Longrightarrow> page_offset pn = pn * int PAGE_SIZE"
  by (simp add: page_offset_def valid_no_def PAGE_SIZE_def to_signed_def)

lemma page_offset_apart:
  assumes "valid_no p" "valid_no q" "p \<noteq> q"
  shows "nat (page_offset p) + PAGE_SIZE \<le> nat (page_offset q) \<or> nat (page_offset q) + PAGE_SIZE \<le> nat (page_offset p)"
proof -
  have "p + 1 \<le> q \<or> q + 1 \<le> p" using assms(3) by linarith
  then show ?thesis using assms(1,2)
    by (auto simp: page_offset_valid PAGE_SIZE_def valid_no_def)
qed

lemma read_page_run:
  assumes "disk_ok d"
  shows "read_page d fd pn PAGE_SIZE buf = (Inr (), buf') \<longleftrightarrow>
    (\<exists>bs. disk_page d fd pn = Some bs \<and> buf' = mwrite buf 0 bs)"
proof -
  have e: "map_of (open_fds d) fd = fd2path d fd" using assms unfolding disk_ok_def by simp
  show ?thesis
    unfolding read_page_def disk_page_def fd_bytes_def e
    by (auto simp: pread_def Let_def PAGE_SIZE_def split: option.splits)
qed

text \<open>Writing to one page leaves the others as they are.\<close>

lemma write_page_others:
  assumes "disk_ok d" "write_page fd pn buf n d = (Inr (), d')" "n \<le> PAGE_SIZE" "valid_no pn" "valid_no pn'"
    "(fd', pn') \<noteq> (fd, pn)" "disk_page d fd' pn' = Some bs"
  shows "disk_page d' fd' pn' = Some bs"
proof -
  from write_page_run [OF assms(1,2)] obtain path f where w: "fd2path d fd = Some path" "0 \<le> page_offset pn"
      "files d path = Some f" "files d' = (files d)(path \<mapsto> pwrite (nat (page_offset pn)) (mread buf 0 n) f)"
      "fd2path d' = fd2path d" by auto
  from assms(7) obtain path' f' where p': "fd2path d fd' = Some path'" "files d path' = Some f'"
      "nat (page_offset pn') + PAGE_SIZE \<le> length f'" "0 \<le> page_offset pn'"
      "bs = pread (nat (page_offset pn')) PAGE_SIZE f'"
    by (auto simp: disk_page_def split: option.splits if_splits)
  show ?thesis
  proof (cases "path' = path")
    case True
    then have "fd' = fd" using disk_ok_inj [OF assms(1)] w(1) p'(1) by blast
    then have apart: "nat (page_offset pn') + PAGE_SIZE \<le> nat (page_offset pn) \<or>
        nat (page_offset pn) + n \<le> nat (page_offset pn')"
      using assms(3,6) page_offset_apart [OF assms(5,4)] by auto
    have "f' = f" using True w(3) p'(2) by simp
    with apart p' w True show ?thesis
      by (auto simp: disk_page_def length_pwrite pread_pwrite_other)
  next
    case False
    with p' w show ?thesis by (auto simp: disk_page_def)
  qed
qed

lemma write_page_disk_page:
  assumes "disk_ok d" "write_page fd pn buf PAGE_SIZE d = (Inr (), d')"
  shows "disk_page d' fd pn = Some (mread buf 0 PAGE_SIZE)"
    and "valid_no pn \<Longrightarrow> valid_no pn' \<Longrightarrow> (fd', pn') \<noteq> (fd, pn) \<Longrightarrow>
      disk_page d fd' pn' = Some bs \<Longrightarrow> disk_page d' fd' pn' = Some bs"
proof -
  from write_page_run [OF assms] obtain path f where w: "fd2path d fd = Some path" "0 \<le> page_offset pn"
      "files d path = Some f" "files d' = (files d)(path \<mapsto> pwrite (nat (page_offset pn)) (mread buf 0 PAGE_SIZE) f)"
      "fd2path d' = fd2path d" by auto
  then show "disk_page d' fd pn = Some (mread buf 0 PAGE_SIZE)"
    using pread_pwrite_same [of "nat (page_offset pn)" "mread buf 0 PAGE_SIZE" f]
    by (auto simp: disk_page_def length_pwrite)
  show "valid_no pn \<Longrightarrow> valid_no pn' \<Longrightarrow> (fd', pn') \<noteq> (fd, pn) \<Longrightarrow>
      disk_page d fd' pn' = Some bs \<Longrightarrow> disk_page d' fd' pn' = Some bs"
    by (rule write_page_others [OF assms order_refl])
qed

section \<open>Properties\<close>

datatype disk_call = Create string | Destroy string | Open string | Close int
  | WritePage int int mem nat | WriteLog bytes | Allocate int

fun disk_run :: "disk_call \<Rightarrow> disk \<Rightarrow> disk" where
  "disk_run (Create p) d = snd (create_file p d)"
| "disk_run (Destroy p) d = snd (destroy_file p d)"
| "disk_run (Open p) d = snd (open_file p d)"
| "disk_run (Close fd) d = snd (close_file fd d)"
| "disk_run (WritePage fd pn buf n) d = snd (write_page fd pn buf n d)"
| "disk_run (WriteLog bs) d = snd (write_log bs d)"
| "disk_run (Allocate fd) d = snd (allocate_page fd d)"

lemma destroy_file_ok: "disk_ok d \<Longrightarrow> disk_ok (snd (destroy_file p d))"
  by (auto simp: destroy_file_def disk_ok_def)

lemma create_file_ok: "disk_ok d \<Longrightarrow> disk_ok (snd (create_file p d))"
  by (auto simp: create_file_def disk_ok_def)

lemma open_file_ok: "disk_ok d \<Longrightarrow> disk_ok (snd (open_file p d))"
proof -
  assume "disk_ok d"
  then show ?thesis
    using open_file_new [of d p _ "snd (open_file p d)"] open_file_err [of p d _ "snd (open_file p d)"]
    by (cases "fst (open_file p d)"; cases "open_file p d") auto
qed

lemma write_page_ok: "disk_ok d \<Longrightarrow> disk_ok (snd (write_page fd pn buf n d))"
  using write_page_run [of d fd pn buf n _ "snd (write_page fd pn buf n d)"]
  by (metis prod.collapse)

lemma open_log_ok: "disk_ok d \<Longrightarrow> disk_ok (snd (open_log d))"
  using open_file_ok [of d LOG_FILE_NAME] by (auto simp: open_log_def split: prod.splits sum.splits)

lemma write_log_ok: "disk_ok d \<Longrightarrow> disk_ok (snd (write_log bs d))"
proof -
  assume "disk_ok d"
  then have "disk_ok (snd (open_log d))" by (rule open_log_ok)
  moreover have "disk_ok d0 \<Longrightarrow> files d0 p = Some f \<Longrightarrow> disk_ok (d0\<lparr>files := (files d0)(p \<mapsto> g)\<rparr>)" for d0 p f g
    by (rule disk_ok_files_upd) (auto simp: disk_ok_def)
  ultimately show ?thesis
    by (auto simp: write_log_def andThen_def split: prod.splits sum.splits option.splits)
qed

text \<open>
  Claim C28. Whatever files exist and whatever descriptors the process holds, after any sequence of
  calls \<open>path2fd_\<close> and \<open>fd2path_\<close> are inverse to each other, agree with the descriptor table of the
  process, and every open path is a file: no path is open twice and no open file is deleted.
\<close>

theorem disk_tables_consistent:
  "disk_ok (fold disk_run calls (disk_new fs others))"
proof -
  have step: "disk_ok (disk_run c d)" if "disk_ok d" for c d
    using that
    by (cases c) (simp_all add: create_file_ok destroy_file_ok open_file_ok close_file_ok write_page_ok
        write_log_ok, simp add: allocate_page_def)
  have "disk_ok d \<Longrightarrow> disk_ok (fold disk_run calls d)" for d
    by (induction calls arbitrary: d) (simp_all add: step)
  then show ?thesis by (simp add: disk_new_ok)
qed

text \<open>
  Claim C29. A page that was written is read back byte for byte through the same descriptor, and no
  other page of any open file changes, as long as the page numbers are below \<open>2 ^ 19\<close>, where the
  32-bit product \<open>page_no * PAGE_SIZE\<close> does not overflow.
\<close>

theorem write_page_read_page:
  assumes "disk_ok d" "write_page fd pn buf PAGE_SIZE d = (Inr (), d')"
  shows "read_page d' fd pn PAGE_SIZE buf' = (Inr (), mwrite buf' 0 (mread buf 0 PAGE_SIZE)) \<and>
    (\<forall>fd' pn' buf''. valid_no pn \<and> valid_no pn' \<and> (fd', pn') \<noteq> (fd, pn) \<and>
      read_page d fd' pn' PAGE_SIZE buf' = (Inr (), buf'') \<longrightarrow>
      read_page d' fd' pn' PAGE_SIZE buf' = (Inr (), buf''))"
proof -
  have ok': "disk_ok d'" using write_page_run [OF assms] by simp
  then show ?thesis
    using write_page_disk_page [OF assms]
    by (auto simp: read_page_run [OF ok'] read_page_run [OF assms(1)] simp del: not_all)
qed

definition disk_ex :: disk where
  "disk_ex = disk_run (Open ''t'') (disk_run (Create ''t'') (disk_new Map.empty [0, 1, 2]))"

lemma disk_ex_eq: "disk_ex = \<lparr>files = [''t'' \<mapsto> []], open_fds = [(3, ''t'')], other_fds = [0, 1, 2],
    path2fd = [''t'' \<mapsto> 3], fd2path = [3 \<mapsto> ''t''], log_fd = -1, fd2pageno = (\<lambda>_. 0), writes = []\<rparr>"
  by (simp add: disk_ex_def disk_new_def create_file_def open_file_def is_file_def os_open_def
      lowest_fd_def upt_conv_Cons)

lemma disk_ex_ok: "disk_ok disk_ex"
  by (simp add: disk_ex_eq disk_ok_def fun_eq_iff)

theorem write_page_read_page_witness:
  "read_page (snd (write_page 3 1 (\<lambda>_. 7) PAGE_SIZE disk_ex)) 3 1 PAGE_SIZE mzero =
    (Inr (), mwrite mzero 0 (mread (\<lambda>_. 7) 0 PAGE_SIZE))"
  by (rule write_page_read_page [OF disk_ex_ok, of 3 1 "\<lambda>_. 7", THEN conjunct1])
    (simp add: write_page_def disk_ex_eq page_offset_def PAGE_SIZE_def to_signed_def)

text \<open>
  Claim C30. Opening a file is exclusive: while it is open, opening it again and destroying it are
  refused with \<open>FileNotClosedError\<close> and its name is found from the descriptor; after closing it the
  tables are as before and it can be opened again.
\<close>

theorem open_file_exclusive:
  assumes "disk_ok d" "open_file path d = (Inr fd, d1)"
  shows "open_file path d1 = (Inl (FileNotClosedError path), d1) \<and>
    destroy_file path d1 = (Inl (FileNotClosedError path), d1) \<and>
    get_file_name fd d1 = (Inr path, d1) \<and> get_file_fd path d1 = (Inr fd, d1) \<and>
    (\<exists>d2. close_file fd d1 = (Inr (), d2) \<and> path2fd d2 = path2fd d \<and> fd2path d2 = fd2path d \<and>
      files d2 = files d \<and> (\<exists>fd'. fst (open_file path d2) = Inr fd'))"
proof -
  note o = open_file_new [OF assms]
  then have f: "is_file d1 path" by (simp add: is_file_def)
  have "map_of (open_fds d1) fd = Some path" using o unfolding disk_ok_def by simp
  with o have "\<exists>d2. close_file fd d1 = (Inr (), d2) \<and> path2fd d2 = path2fd d \<and> fd2path d2 = fd2path d \<and>
      files d2 = files d \<and> (\<exists>fd'. fst (open_file path d2) = Inr fd')"
    by (auto simp: close_file_def open_file_def is_file_def os_open_def Let_def fun_upd_idem)
  with o f show ?thesis
    by (simp add: open_file_def destroy_file_def get_file_name_def get_file_fd_def)
qed

theorem open_file_exclusive_witness:
  "open_file ''t'' (snd (open_file ''t'' (snd (close_file 3 disk_ex)))) =
    (Inl (FileNotClosedError ''t''), snd (open_file ''t'' (snd (close_file 3 disk_ex))))"
proof (rule open_file_exclusive [THEN conjunct1])
  show "disk_ok (snd (close_file 3 disk_ex))" by (simp add: close_file_ok disk_ex_ok)
  show "open_file ''t'' (snd (close_file 3 disk_ex)) = (Inr 3, snd (open_file ''t'' (snd (close_file 3 disk_ex))))"
    by (simp add: disk_ex_eq close_file_def open_file_def is_file_def os_open_def lowest_fd_def upt_conv_Cons)
qed

end
