(* ===== verification/Log_Manager.thy ===== *)
theory Log_Manager
  imports Log_Record Disk
begin

text \<open>
  The log manager, \<^verbatim>\<open>src/src/recovery/log_manager.cpp\<close>: one in-memory buffer of
  \<open>LOG_BUFFER_SIZE\<close> bytes in front of the log file. Its functions run on the disk manager they
  call and their own state.
\<close>

section \<open>State and operations\<close>

record log_manager =
  global_lsn :: int
  buffer :: mem
  buf_offset :: int
  persist_lsn :: int
  last_lsn_in_buffer :: int

definition log_manager_new :: log_manager where
  "log_manager_new = \<lparr>global_lsn = 0, buffer = mzero, buf_offset = 0, persist_lsn = INVALID_LSN,
     last_lsn_in_buffer = INVALID_LSN\<rparr>"

definition is_full :: "log_manager \<Rightarrow> int \<Rightarrow> bool" where
  "is_full l append_size \<longleftrightarrow> buf_offset l + append_size > int LOG_BUFFER_SIZE"

text \<open>The body shared by both functions: write the buffer out and empty it.\<close>

definition write_out :: "(disk \<times> log_manager, unit) op" where
  "write_out = (\<lambda>(d, l).
     case write_log (mread (buffer l) 0 (nat (buf_offset l))) d of
       (Inl e, d') \<Rightarrow> (Inl e, d', l)
     | (Inr _, d') \<Rightarrow> (Inr (), d', l\<lparr>buf_offset := 0, persist_lsn := last_lsn_in_buffer l\<rparr>))"

definition flush_log_to_disk :: "(disk \<times> log_manager, unit) op" where
  "flush_log_to_disk = (\<lambda>(d, l). if buf_offset l > 0 then write_out (d, l) else (Inr (), d, l))"

text \<open>The \<^verbatim>\<open>LogRecord*\<close> the caller passes is returned with the LSN it was given.\<close>

definition append_record :: "log_record \<Rightarrow> log_manager \<Rightarrow> log_record \<times> log_manager" where
  "append_record r l =
     (let r' = set_hdr (\<lambda>h. h\<lparr>lsn := global_lsn l\<rparr>) r
      in (r', l\<lparr>global_lsn := to_signed 4 ((global_lsn l + 1) mod 2 ^ 32),
             last_lsn_in_buffer := lsn (hdr r'),
             buffer := serialize r' (buffer l) (nat (buf_offset l)),
             buf_offset := buf_offset l + log_tot_len (hdr r')\<rparr>))"

definition add_log_to_buffer :: "log_record \<Rightarrow> (disk \<times> log_manager, log_record) op" where
  "add_log_to_buffer r =
     andThen (\<lambda>(d, l). if is_full l (log_tot_len (hdr r)) \<and> buf_offset l > 0 then write_out (d, l) else (Inr (), d, l))
       (\<lambda>_ (d, l). let (r', l') = append_record r l in (Inr r', d, l'))"

section \<open>The log as one sequence of bytes\<close>

text \<open>What has been logged: the file followed by the buffered part.\<close>

definition log_file :: "disk \<Rightarrow> bytes" where
  "log_file d = (case files d LOG_FILE_NAME of None \<Rightarrow> [] | Some f \<Rightarrow> f)"

definition buffered :: "log_manager \<Rightarrow> bytes" where
  "buffered l = mread (buffer l) 0 (nat (buf_offset l))"

definition log_view :: "disk \<times> log_manager \<Rightarrow> bytes" where
  "log_view s = log_file (fst s) @ buffered (snd s)"

text \<open>
  The invariant: the descriptor table is sound, the log file exists, and the file and the buffer
  hold the records \<open>fs\<close> and \<open>bs\<close> after \<open>base\<close>, which carry the consecutive LSNs from \<open>n0\<close> to the
  global one; \<open>persist_lsn_\<close> is the last LSN of \<open>fs\<close>, or of the log before it.
\<close>

definition last_lsn :: "int \<Rightarrow> log_record list \<Rightarrow> int" where
  "last_lsn p rs = (if rs = [] then p else lsn (hdr (last rs)))"

definition log_inv :: "bytes \<Rightarrow> int \<Rightarrow> log_record list \<Rightarrow> log_record list \<Rightarrow> disk \<times> log_manager \<Rightarrow> bool" where
  "log_inv base n0 fs bs s \<longleftrightarrow>
     disk_ok (fst s) \<and> log_fd_ok (fst s) \<and> files (fst s) LOG_FILE_NAME = Some (base @ concat (map rec_bytes fs)) \<and>
     buffered (snd s) = concat (map rec_bytes bs) \<and> 0 \<le> buf_offset (snd s) \<and>
     map (\<lambda>r. lsn (hdr r)) (fs @ bs) = [n0..global_lsn (snd s) - 1] \<and>
     0 \<le> n0 \<and> n0 \<le> global_lsn (snd s) \<and>
     persist_lsn (snd s) = last_lsn (n0 - 1) fs \<and>
     (last_lsn_in_buffer (snd s) = last_lsn (n0 - 1) (fs @ bs) \<or> fs @ bs = [])"

lemma write_out_run:
  assumes "log_inv base n0 fs bs s" "bs \<noteq> []" "write_out s = (r, s')"
  shows "case r of
      Inl e \<Rightarrow> log_inv base n0 fs bs s' \<and> snd s' = snd s \<and> files (fst s') = files (fst s)
    | Inr _ \<Rightarrow> log_inv base n0 (fs @ bs) [] s' \<and> buf_offset (snd s') = 0 \<and> global_lsn (snd s') = global_lsn (snd s)"
proof (cases s)
  case (Pair d l)
  have i: "disk_ok d" "log_fd_ok d" "files d LOG_FILE_NAME = Some (base @ concat (map rec_bytes fs))"
      "buffered l = concat (map rec_bytes bs)"
    using assms(1) Pair by (auto simp: log_inv_def)
  show ?thesis
  proof (cases "write_log (mread (buffer l) 0 (nat (buf_offset l))) d")
    case (Pair r0 d')
    note w = write_log_run [OF i(1,2) Pair]
    show ?thesis
    proof (cases r0)
      case (Inl e)
      with Pair \<open>s = (d, l)\<close> assms(3) have "r = Inl e \<and> s' = (d', l)" by (simp add: write_out_def)
      with w Inl assms(1) \<open>s = (d, l)\<close> show ?thesis by (auto simp: log_inv_def)
    next
      case (Inr u)
      with Pair \<open>s = (d, l)\<close> assms(3)
      have r: "r = Inr ()" "s' = (d', l\<lparr>buf_offset := 0, persist_lsn := last_lsn_in_buffer l\<rparr>)"
        by (simp_all add: write_out_def)
      have f: "files d' LOG_FILE_NAME = Some (base @ concat (map rec_bytes (fs @ bs)))"
        using w Inr i(3,4) by (simp add: buffered_def)
      with w Inr assms(1,2) \<open>s = (d, l)\<close> r show ?thesis
        by (auto simp: log_inv_def buffered_def mread_def)
    qed
  qed
qed

lemma buffered_empty: "log_inv base n0 fs bs s \<Longrightarrow> buf_offset (snd s) = 0 \<longleftrightarrow> bs = []"
proof -
  assume i: "log_inv base n0 fs bs s"
  then have "length (buffered (snd s)) = length (concat (map rec_bytes bs))" by (simp add: log_inv_def)
  moreover have "bs \<noteq> [] \<Longrightarrow> 0 < length (concat (map rec_bytes bs))"
    using length_rec_bytes [of "hd bs"] by (cases bs) auto
  ultimately show ?thesis using i by (cases "bs = []") (auto simp: buffered_def log_inv_def)
qed

lemma flush_log_run:
  assumes "log_inv base n0 fs bs s" "flush_log_to_disk s = (r, s')"
  shows "case r of
      Inl e \<Rightarrow> log_inv base n0 fs bs s' \<and> snd s' = snd s \<and> files (fst s') = files (fst s)
    | Inr _ \<Rightarrow> log_inv base n0 (fs @ bs) [] s' \<and> global_lsn (snd s') = global_lsn (snd s)"
proof (cases "buf_offset (snd s) > 0")
  case True
  then have "bs \<noteq> []" using buffered_empty [OF assms(1)] by auto
  with True write_out_run [OF assms(1), of r s'] assms(2) show ?thesis
    by (cases s; cases r) (auto simp: flush_log_to_disk_def)
next
  case False
  then have "bs = []" using buffered_empty [OF assms(1)] assms(1) by (auto simp: log_inv_def)
  with False assms show ?thesis by (cases s) (auto simp: flush_log_to_disk_def)
qed

lemma append_record_run:
  assumes "log_inv base n0 fs bs (d, l)" "append_record r l = (r', l')" "rec_ok r" "global_lsn l < 2 ^ 31 - 1"
  shows "r' = set_hdr (\<lambda>h. h\<lparr>lsn := global_lsn l\<rparr>) r \<and> rec_ok r' \<and> log_inv base n0 fs (bs @ [r']) (d, l') \<and>
    global_lsn l' = global_lsn l + 1"
proof -
  have r': "r' = set_hdr (\<lambda>h. h\<lparr>lsn := global_lsn l\<rparr>) r" using assms(2) by (simp add: append_record_def Let_def)
  have g: "0 \<le> global_lsn l" "0 \<le> buf_offset l" using assms(1) by (auto simp: log_inv_def)
  have len: "log_tot_len (hdr r') = int (length (rec_bytes r'))"
    using assms(3) r' by (simp add: rec_ok_def rec_bytes_set_hdr)
  have ok: "rec_ok r'"
    using assms(3,4) g unfolding r' by (cases r) (auto simp: rec_ok_def hdr_fits_def in_signed_def)
  have gl: "global_lsn l' = global_lsn l + 1"
    using assms(2,4) g by (auto simp: append_record_def Let_def to_signed_def)
  have buf: "buffered l' = buffered l @ rec_bytes r'"
  proof -
    have "mread (serialize r' (buffer l) (nat (buf_offset l))) 0 (nat (buf_offset l) + length (rec_bytes r')) =
        mread (buffer l) 0 (nat (buf_offset l)) @ rec_bytes r'"
      by (simp add: mread_add serialize_bytes mem_simps)
    moreover have "nat (buf_offset l + log_tot_len (hdr r')) = nat (buf_offset l) + length (rec_bytes r')"
      using g(2) len by simp
    ultimately show ?thesis
      using assms(2) by (auto simp: append_record_def Let_def buffered_def)
  qed
  have "[n0..global_lsn l] = [n0..global_lsn l - 1] @ [global_lsn l]"
    using assms(1) upto_rec2 [of n0 "global_lsn l"] by (simp add: log_inv_def)
  then have "log_inv base n0 fs (bs @ [r']) (d, l')"
    using assms(1,2) buf gl len r'
    by (auto simp: log_inv_def append_record_def Let_def last_lsn_def)
  with r' ok gl show ?thesis by blast
qed

lemma add_log_run:
  assumes "log_inv base n0 fs bs s" "add_log_to_buffer r s = (res, s')" "rec_ok r"
    "global_lsn (snd s) < 2 ^ 31 - 1"
  shows "case res of
      Inl e \<Rightarrow> log_inv base n0 fs bs s' \<and> snd s' = snd s \<and> files (fst s') = files (fst s)
    | Inr r' \<Rightarrow> r' = set_hdr (\<lambda>h. h\<lparr>lsn := global_lsn (snd s)\<rparr>) r \<and> rec_ok r' \<and>
        global_lsn (snd s') = global_lsn (snd s) + 1 \<and>
        (log_inv base n0 fs (bs @ [r']) s' \<or> log_inv base n0 (fs @ bs) [r'] s')"
proof (cases s)
  case (Pair d l)
  show ?thesis
  proof (cases "is_full l (log_tot_len (hdr r)) \<and> buf_offset l > 0")
    case True
    then have ne: "bs \<noteq> []" using buffered_empty [OF assms(1)] Pair by auto
    obtain r0 d0 l0 where wo: "write_out (d, l) = (r0, d0, l0)" by (cases "write_out (d, l)") auto
    note w = write_out_run [OF assms(1) ne, of r0 "(d0, l0)"]
    show ?thesis
    proof (cases r0)
      case (Inl e)
      with w True wo Pair assms(2) show ?thesis
        by (auto simp: add_log_to_buffer_def andThen_def)
    next
      case (Inr u)
      obtain r' l' where a: "append_record r l0 = (r', l')" by fastforce
      have i: "log_inv base n0 (fs @ bs) [] (d0, l0)" "global_lsn l0 = global_lsn l"
        using w Inr wo Pair by auto
      from append_record_run [OF i(1) a assms(3)] i(2) assms(4) Pair
      have "r' = set_hdr (\<lambda>h. h\<lparr>lsn := global_lsn l\<rparr>) r \<and> rec_ok r' \<and> log_inv base n0 (fs @ bs) [r'] (d0, l') \<and>
        global_lsn l' = global_lsn l + 1" by auto
      moreover have "res = Inr r' \<and> s' = (d0, l')"
        using assms(2) True wo Inr a Pair by (simp add: add_log_to_buffer_def andThen_def)
      ultimately show ?thesis using Pair by auto
    qed
  next
    case False
    obtain r' l' where a: "append_record r l = (r', l')" by fastforce
    have i: "log_inv base n0 fs bs (d, l)" "global_lsn l < 2 ^ 31 - 1" using assms(1,4) Pair by simp_all
    from append_record_run [OF i(1) a assms(3) i(2)]
    have "r' = set_hdr (\<lambda>h. h\<lparr>lsn := global_lsn l\<rparr>) r \<and> rec_ok r' \<and> log_inv base n0 fs (bs @ [r']) (d, l') \<and>
      global_lsn l' = global_lsn l + 1" by auto
    moreover have "res = Inr r' \<and> s' = (d, l')"
      using assms(2) False a Pair by (auto simp: add_log_to_buffer_def andThen_def)
    ultimately show ?thesis using Pair by auto
  qed
qed


section \<open>Sequences of calls\<close>

datatype log_call = Add log_record | Flush

text \<open>The calls run one after the other; the result lists the records that were added.\<close>

fun log_calls :: "log_call list \<Rightarrow> disk \<times> log_manager \<Rightarrow> log_record list \<times> disk \<times> log_manager" where
  "log_calls [] s = ([], s)"
| "log_calls (Add r # cs) s =
     (case add_log_to_buffer r s of
        (Inl _, s') \<Rightarrow> log_calls cs s'
      | (Inr r', s') \<Rightarrow> (case log_calls cs s' of (rs, s'') \<Rightarrow> (r' # rs, s'')))"
| "log_calls (Flush # cs) s = log_calls cs (snd (flush_log_to_disk s))"

lemma log_calls_inv:
  assumes "log_inv base n0 fs bs s" "\<forall>r. Add r \<in> set cs \<longrightarrow> rec_ok r"
    "global_lsn (snd s) + int (length cs) < 2 ^ 31" "log_calls cs s = (rs, s')"
  shows "\<exists>fs' bs'. log_inv base n0 fs' bs' s' \<and> fs' @ bs' = fs @ bs @ rs"
  using assms
proof (induction cs s arbitrary: fs bs rs rule: log_calls.induct)
  case (2 r cs s)
  obtain res s1 where a: "add_log_to_buffer r s = (res, s1)" by (meson surj_pair)
  note run = add_log_run [OF "2.prems"(1) a]
  have ok: "rec_ok r" "\<forall>r. Add r \<in> set cs \<longrightarrow> rec_ok r" using "2.prems"(2) by auto
  show ?case
  proof (cases res)
    case (Inl e)
    with run ok "2.prems"(3) have i: "log_inv base n0 fs bs s1" "snd s1 = snd s" by auto
    show ?thesis using "2.IH"(1) [OF a [symmetric] Inl i(1) ok(2)] i(2) "2.prems"(3,4) a Inl by auto
  next
    case (Inr r')
    obtain rs1 where rs1: "log_calls cs s1 = (rs1, s')" "rs = r' # rs1"
      using "2.prems"(4) a Inr by (auto split: prod.splits)
    from run ok "2.prems"(3) Inr
    have g: "global_lsn (snd s1) = global_lsn (snd s) + 1"
      and i: "log_inv base n0 fs (bs @ [r']) s1 \<or> log_inv base n0 (fs @ bs) [r'] s1" by auto
    from i show ?thesis
    proof
      assume "log_inv base n0 fs (bs @ [r']) s1"
      from "2.IH"(2) [OF a [symmetric] Inr this ok(2)] rs1 g "2.prems"(3) show ?thesis by auto
    next
      assume "log_inv base n0 (fs @ bs) [r'] s1"
      from "2.IH"(2) [OF a [symmetric] Inr this ok(2)] rs1 g "2.prems"(3) show ?thesis by auto
    qed
  qed
next
  case (3 cs s)
  obtain res s1 where f: "flush_log_to_disk s = (res, s1)" by (meson surj_pair)
  note run = flush_log_run [OF "3.prems"(1) f]
  show ?case
  proof (cases res)
    case (Inl e)
    with run have "log_inv base n0 fs bs s1" "snd s1 = snd s" by auto
    with "3.IH" [of fs bs] "3.prems" f show ?thesis by auto
  next
    case (Inr u)
    with run have "log_inv base n0 (fs @ bs) [] s1" "global_lsn (snd s1) = global_lsn (snd s)" by auto
    with "3.IH" [of "fs @ bs" "[]"] "3.prems" f show ?thesis by auto
  qed
qed auto

text \<open>The records up to the persistent LSN are the ones in the file.\<close>

lemma log_inv_persisted:
  assumes "log_inv base n0 fs bs s"
  shows "takeWhile (\<lambda>r. lsn (hdr r) \<le> persist_lsn (snd s)) (fs @ bs) = fs"
proof -
  let ?l = "\<lambda>r. lsn (hdr r)"
  have seq: "map ?l (fs @ bs) = [n0..global_lsn (snd s) - 1]"
    and p: "persist_lsn (snd s) = last_lsn (n0 - 1) fs" using assms by (auto simp: log_inv_def)
  have nth: "?l ((fs @ bs) ! i) = n0 + int i" if "i < length (fs @ bs)" for i
  proof -
    have "map ?l (fs @ bs) ! i = [n0..global_lsn (snd s) - 1] ! i" using seq by simp
    moreover have "length (fs @ bs) = nat (global_lsn (snd s) - n0)" using arg_cong [OF seq, of length] by simp
    then have "n0 + int i \<le> global_lsn (snd s) - 1" using that by linarith
    then have "[n0..global_lsn (snd s) - 1] ! i = n0 + int i" by (rule nth_upto)
    moreover have "map ?l (fs @ bs) ! i = ?l ((fs @ bs) ! i)" using that by (rule nth_map)
    ultimately show ?thesis by simp
  qed
  have pl: "persist_lsn (snd s) = n0 - 1 + int (length fs)"
  proof (cases "fs = []")
    case False
    then have "length fs - 1 < length (fs @ bs)" "int (length fs - 1) = int (length fs) - 1"
      by (cases fs; simp)+
    with nth [of "length fs - 1"] p False show ?thesis by (simp add: last_lsn_def last_conv_nth nth_append)
  qed (simp add: p last_lsn_def)
  have "?l r \<le> persist_lsn (snd s)" if "r \<in> set fs" for r
  proof -
    from that obtain i where "i < length fs" "fs ! i = r" by (auto simp: in_set_conv_nth)
    with nth [of i] pl show ?thesis by (simp add: nth_append)
  qed
  moreover have "bs \<noteq> [] \<Longrightarrow> \<not> ?l (hd bs) \<le> persist_lsn (snd s)"
    using nth [of "length fs"] pl by (simp add: hd_conv_nth nth_append)
  ultimately show ?thesis
    by (cases bs) (simp_all add: takeWhile_append2 takeWhile_eq_all_conv [THEN iffD2])
qed


section \<open>Properties\<close>

lemma write_out_offset: "write_out s = (Inr u, s') \<Longrightarrow> buf_offset (snd s') = 0"
  by (auto simp: write_out_def split: prod.splits sum.splits)

lemma add_log_offset:
  assumes "add_log_to_buffer r (d, l) = (res, d', l')" "log_tot_len (hdr r) \<le> int LOG_BUFFER_SIZE"
    "buf_offset l \<le> int LOG_BUFFER_SIZE" "0 \<le> buf_offset l"
  shows "buf_offset l' \<le> int LOG_BUFFER_SIZE"
proof -
  have app: "buf_offset (snd (append_record r k)) = buf_offset k + log_tot_len (hdr r)" for k
    by (simp add: append_record_def Let_def)
  show ?thesis
  proof (cases "is_full l (log_tot_len (hdr r)) \<and> buf_offset l > 0")
    case True
    obtain r0 d0 l0 where w: "write_out (d, l) = (r0, d0, l0)" by (cases "write_out (d, l)") auto
    show ?thesis
    proof (cases r0)
      case (Inl e)
      have "l0 = l" using w Inl by (auto simp: write_out_def split: prod.splits sum.splits)
      with assms True w Inl show ?thesis by (auto simp: add_log_to_buffer_def andThen_def)
    next
      case (Inr u)
      with assms True w write_out_offset [of "(d, l)" u "(d0, l0)"] app [of l0] show ?thesis
        by (auto simp: add_log_to_buffer_def andThen_def split: prod.splits)
    qed
  next
    case False
    with assms app [of l] show ?thesis
      by (auto simp: add_log_to_buffer_def andThen_def is_full_def split: prod.splits)
  qed
qed

text \<open>
  Claim C26. The log is one growing sequence: starting from an empty buffer, after any calls of
  \<open>add_log_to_buffer\<close> and \<open>flush_log_to_disk\<close> the file followed by the buffer is the old file
  followed by the bytes of the records that were added, in order and with consecutive LSNs; and the
  file alone ends exactly after the records whose LSN is at most \<open>persist_lsn_\<close>.
\<close>

theorem log_is_record_sequence:
  assumes "log_inv base n0 [] [] s" "\<forall>r. Add r \<in> set cs \<longrightarrow> rec_ok r"
    "global_lsn (snd s) + int (length cs) < 2 ^ 31" "log_calls cs s = (rs, s')"
  shows "log_view s' = base @ concat (map rec_bytes rs) \<and>
    map (\<lambda>r. lsn (hdr r)) rs = [n0..global_lsn (snd s') - 1] \<and>
    log_file (fst s') = base @ concat (map rec_bytes (takeWhile (\<lambda>r. lsn (hdr r) \<le> persist_lsn (snd s')) rs))"
proof -
  from log_calls_inv [OF assms] obtain fs bs where i: "log_inv base n0 fs bs s'" "fs @ bs = rs" by auto
  with log_inv_persisted [OF i(1)] show ?thesis
    by (auto simp: log_inv_def log_view_def log_file_def)
qed

definition log_ex :: "disk \<times> log_manager" where
  "log_ex = (disk_new [LOG_FILE_NAME \<mapsto> []] [0, 1, 2], log_manager_new)"

lemma log_ex_inv: "log_inv [] 0 [] [] log_ex"
  by (simp add: log_inv_def log_ex_def disk_new_ok log_manager_new_def buffered_def last_lsn_def INVALID_LSN_def
      mread_def) (simp add: disk_new_def)

theorem log_is_record_sequence_witness:
  "log_view (snd (log_calls [Add (BeginLogRecord 1), Flush, Add (CommitLogRecord 1)] log_ex)) =
    concat (map rec_bytes (fst (log_calls [Add (BeginLogRecord 1), Flush, Add (CommitLogRecord 1)] log_ex)))"
proof -
  let ?cs = "[Add (BeginLogRecord 1), Flush, Add (CommitLogRecord 1)]"
  have "rec_ok (BeginLogRecord 1)" "rec_ok (CommitLogRecord 1)"
    by (rule new_records_ok [where v = "[]" and w = "[]" and r = "Rid 0 0" and tab = "[]"];
        simp add: in_signed_def rid_fits_def)+
  then have "\<forall>r. Add r \<in> set ?cs \<longrightarrow> rec_ok r" by auto
  then show ?thesis
    using log_is_record_sequence [OF log_ex_inv, of ?cs]
    by (cases "log_calls ?cs log_ex") (simp add: log_ex_def log_manager_new_def)
qed

text \<open>
  The buffer is never overrun: as long as no record is longer than \<open>LOG_BUFFER_SIZE\<close>, the
  offset stays within it after every call, whether the write to the log file succeeds or throws.
\<close>

theorem log_buffer_not_overrun:
  assumes "0 \<le> buf_offset (snd s)" "buf_offset (snd s) \<le> int LOG_BUFFER_SIZE"
    "\<forall>r. Add r \<in> set cs \<longrightarrow> 0 \<le> log_tot_len (hdr r) \<and> log_tot_len (hdr r) \<le> int LOG_BUFFER_SIZE"
  shows "0 \<le> buf_offset (snd (snd (log_calls cs s))) \<and> buf_offset (snd (snd (log_calls cs s))) \<le> int LOG_BUFFER_SIZE"
  using assms
proof (induction cs s rule: log_calls.induct)
  case (2 r cs s)
  obtain res d' l' where a: "add_log_to_buffer r s = (res, d', l')" by (cases "add_log_to_buffer r s") auto
  have len: "0 \<le> log_tot_len (hdr r)" "log_tot_len (hdr r) \<le> int LOG_BUFFER_SIZE" using "2.prems"(3) by auto
  have up: "buf_offset l' \<le> int LOG_BUFFER_SIZE"
    using add_log_offset [of r "fst s" "snd s" res d' l'] a len "2.prems"(1,2) by simp
  have lo: "0 \<le> buf_offset l'"
    using a "2.prems"(1) len
    by (cases s) (auto simp: add_log_to_buffer_def andThen_def append_record_def Let_def write_out_def
        split: prod.splits sum.splits if_splits)
  show ?case
  proof (cases res)
    case (Inl e)
    with "2.IH"(1) [OF a [symmetric] Inl] a up lo "2.prems"(3) show ?thesis by auto
  next
    case (Inr r')
    with "2.IH"(2) [OF a [symmetric] Inr] a up lo "2.prems"(3) show ?thesis by (auto split: prod.splits)
  qed
next
  case (3 cs s)
  have "buf_offset (snd (snd (flush_log_to_disk s))) = buf_offset (snd s) \<or> buf_offset (snd (snd (flush_log_to_disk s))) = 0"
    by (cases s) (auto simp: flush_log_to_disk_def write_out_def split: prod.splits sum.splits)
  with 3 show ?case by auto
qed simp

theorem log_buffer_not_overrun_witness:
  "buf_offset (snd (snd (log_calls [Add (BeginLogRecord 1), Flush] log_ex))) \<le> int LOG_BUFFER_SIZE"
  using log_buffer_not_overrun [of log_ex "[Add (BeginLogRecord 1), Flush]"]
  by (simp add: log_ex_def log_manager_new_def BeginLogRecord_def new_hdr_def log_offsets LOG_BUFFER_SIZE_def
      PAGE_SIZE_def)

end
