(* ===== verification/Log_Analysis.thy ===== *)
theory Log_Analysis
  imports Log_Manager
begin

text \<open>
  The analysis phase of recovery, \<open>RecoveryManager::analyze\<close> of
  \<^verbatim>\<open>src/src/recovery/log_recovery.cpp\<close>: it reads the whole log file, cuts it into records and
  sorts the transactions into committed, aborted and active ones.
\<close>

record recovery =
  log_records :: "log_record list"
  committed_txns :: "int set"
  active_txns :: "int set"
  aborted_txns :: "int set"

definition recovery_new :: recovery where
  "recovery_new = \<lparr>log_records = [], committed_txns = {}, active_txns = {}, aborted_txns = {}\<rparr>"

section \<open>The loop\<close>

text \<open>One record: what the body of the loop does with it once its class is known.\<close>

definition note_record :: "log_record \<Rightarrow> int \<Rightarrow> int \<Rightarrow> recovery \<times> int \<Rightarrow> recovery \<times> int" where
  "note_record r t tid = (\<lambda>(a, max_lsn).
     (let a = a\<lparr>log_records := log_records a @ [r]\<rparr>;
          a = (if t = log_type_no LT_begin then a\<lparr>active_txns := insert tid (active_txns a)\<rparr>
               else if t = log_type_no LT_commit then
                 a\<lparr>active_txns := active_txns a - {tid}, committed_txns := insert tid (committed_txns a)\<rparr>
               else if t = log_type_no ABORT then
                 a\<lparr>active_txns := active_txns a - {tid}, aborted_txns := insert tid (aborted_txns a)\<rparr>
               else if tid \<notin> committed_txns a \<and> tid \<notin> aborted_txns a then
                 a\<lparr>active_txns := insert tid (active_txns a)\<rparr>
               else a)
      in (a, if lsn (hdr r) > max_lsn then lsn (hdr r) else max_lsn)))"

text \<open>
  \<open>log_tot_len\<close> is unsigned: the length test of the source casts it to \<^verbatim>\<open>int\<close>, and
  \<^verbatim>\<open>offset += log_tot_len\<close> is computed modulo \<open>2 ^ 32\<close>. \<open>None\<close> is undefined behaviour (the
  offset became negative, so the buffer is read in front of its start) or a loop that never ends.
\<close>

partial_function (option) analyze_loop :: "mem \<Rightarrow> int \<Rightarrow> int \<Rightarrow> recovery \<times> int \<Rightarrow> (recovery \<times> int) option" where
  "analyze_loop m bytes_read off st =
     (if off < 0 then None
      else if off + int LOG_HEADER_SIZE \<le> bytes_read then
        (let log_type = read_int 4 m (nat off);
             tot_len = read_uint 4 m (nat off + OFFSET_LOG_TOT_LEN);
             tid = read_int 8 m (nat off + OFFSET_LOG_TID)
         in if tot_len < int LOG_HEADER_SIZE \<or> off + to_signed 4 tot_len > bytes_read then Some st
            else analyze_loop m bytes_read (to_signed 4 ((off + tot_len) mod 2 ^ 32))
              (case deserialize_as log_type m (nat off) of
                 None \<Rightarrow> st
               | Some r \<Rightarrow> note_record r log_type tid st))
      else Some st)"

definition analyze :: "(disk \<times> log_manager option) \<times> recovery \<Rightarrow>
    ((rmdb_error + unit) \<times> (disk \<times> log_manager option) \<times> recovery) option" where
  "analyze = (\<lambda>((d, l), a).
     let file_size = get_file_size d LOG_FILE_NAME
     in if file_size \<le> 0 then Some (Inr (), (d, l), a)
        else (case read_log file_size 0 d of
            (Inl e, d') \<Rightarrow> Some (Inl e, (d', l), a)
          | (Inr (n, bs), d') \<Rightarrow>
              if n \<le> 0 then Some (Inr (), (d', l), a)
              else (case analyze_loop (mwrite mzero 0 bs) n 0 (a, INVALID_LSN) of
                  None \<Rightarrow> None
                | Some (a', max_lsn) \<Rightarrow>
                    let l' = (if max_lsn \<noteq> INVALID_LSN
                              then map_option (\<lambda>l. l\<lparr>global_lsn := max_lsn + 1, persist_lsn := max_lsn\<rparr>) l
                              else l)
                    in Some (Inr (), (d', l'), a'))))"

section \<open>Analysing a sequence of records\<close>

definition take_note :: "log_record \<Rightarrow> recovery \<times> int \<Rightarrow> recovery \<times> int" where
  "take_note r = note_record r (log_type_no (class_type r)) (log_tid (hdr r))"

text \<open>A log that ends in the middle of a record: the crash cut the last write short.\<close>

definition torn :: "bytes \<Rightarrow> bool" where
  "torn bs \<longleftrightarrow> bs = [] \<or> (\<exists>r bs'. rec_ok r \<and> length (rec_bytes r) < 2 ^ 30 \<and> rec_bytes r = bs @ bs' \<and> bs' \<noteq> [])"

lemma note_log_records: "log_records (fst (fold take_note rs st)) = log_records (fst st) @ rs"
  by (induction rs arbitrary: st)
    (simp_all add: take_note_def note_record_def Let_def case_prod_beta)

lemma holds_tot_len:
  assumes "holds m off (hdr_bytes h)" "hdr_fits h"
  shows "read_int 4 m off = lg_type h" "read_uint 4 m (off + OFFSET_LOG_TOT_LEN) = log_tot_len h"
    "read_int 8 m (off + OFFSET_LOG_TID) = log_tid h"
  using des_hdr_bytes [OF assms] by (auto simp: des_hdr_def)

lemma analyze_loop_stop:
  assumes "torn bs" "holds m off bs" "int (off + length bs) < 2 ^ 31"
  shows "analyze_loop m (int (off + length bs)) (int off) st = Some st"
proof (cases "length bs < 24")
  case True
  then show ?thesis by (subst analyze_loop.simps) (simp add: log_offsets)
next
  case False
  then obtain r bs' where r: "rec_ok r" "length (rec_bytes r) < 2 ^ 30" "rec_bytes r = bs @ bs'" "bs' \<noteq> []"
    using assms(1) by (auto simp: torn_def)
  have "hdr_bytes (hdr r) = take 24 (rec_bytes r)" by (cases r) simp_all
  with r(3) False have "bs = hdr_bytes (hdr r) @ drop 24 bs" by simp
  with assms(2) have "holds m off (hdr_bytes (hdr r))" by (metis holds_append)
  then have tot: "read_uint 4 m (off + OFFSET_LOG_TOT_LEN) = log_tot_len (hdr r)"
    using holds_tot_len r(1) by (simp add: rec_ok_def)
  have more: "log_tot_len (hdr r) > int (length bs)"
    using r by (simp add: rec_ok_def)
  have "to_signed 4 (log_tot_len (hdr r)) = log_tot_len (hdr r)"
    using r(1,2) by (simp add: to_signed_def rec_ok_def)
  then show ?thesis using more tot by (subst analyze_loop.simps) (simp add: Let_def)
qed

lemma analyze_loop_step:
  assumes "rec_ok r" "holds m off (rec_bytes r)" "off + length (rec_bytes r) \<le> n" "n < 2 ^ 30"
  shows "analyze_loop m (int n) (int off) st = analyze_loop m (int n) (int (off + length (rec_bytes r))) (take_note r st)"
proof -
  have tot: "read_int 4 m off = lg_type (hdr r)" "read_uint 4 m (off + OFFSET_LOG_TOT_LEN) = int (length (rec_bytes r))"
      "read_int 8 m (off + OFFSET_LOG_TID) = log_tid (hdr r)"
    using holds_tot_len [OF holds_rec_hdr [OF assms(2)]] assms(1) by (auto simp: rec_ok_def)
  have "to_signed 4 (int (length (rec_bytes r))) = int (length (rec_bytes r))"
    "to_signed 4 ((int off + int (length (rec_bytes r))) mod 2 ^ 32) = int (off + length (rec_bytes r))"
    using assms(3,4) by (simp_all add: to_signed_def)
  moreover have "24 \<le> length (rec_bytes r)" by (rule length_rec_bytes)
  moreover have "deserialize_as (lg_type (hdr r)) m off = Some r" by (rule deserialize_bytes [OF assms(2,1)])
  moreover have "lg_type (hdr r) = log_type_no (class_type r)" using assms(1) by (simp add: rec_ok_def)
  ultimately show ?thesis
    using tot assms(3)
    by (subst analyze_loop.simps) (auto simp: Let_def take_note_def log_offsets)
qed

lemma analyze_loop_log:
  assumes "\<forall>r \<in> set rs. rec_ok r" "torn tail" "holds m off (concat (map rec_bytes rs) @ tail)"
    "n = off + length (concat (map rec_bytes rs) @ tail)" "n < 2 ^ 30"
  shows "analyze_loop m (int n) (int off) st = Some (fold take_note rs st)"
  using assms
proof (induction rs arbitrary: off st)
  case Nil
  then show ?case using analyze_loop_stop [of tail m off st] by simp
next
  case (Cons r rs)
  then have "analyze_loop m (int n) (int off) st = analyze_loop m (int n) (int (off + length (rec_bytes r))) (take_note r st)"
    by (intro analyze_loop_step) (simp_all add: holds_append)
  also have "\<dots> = Some (fold take_note rs (take_note r st))"
    using Cons.prems by (intro Cons.IH) (simp_all add: holds_append add.assoc)
  finally show ?case by simp
qed

section \<open>Which transactions are losers\<close>

fun ends :: "log_record \<Rightarrow> bool" where
  "ends (CommitLog _) = True"
| "ends (AbortLog _) = True"
| "ends _ = False"

text \<open>A transaction's begin record comes before its commit or abort record.\<close>

definition begins_first :: "log_record list \<Rightarrow> bool" where
  "begins_first rs \<longleftrightarrow> (\<forall>xs h ys. rs = xs @ BeginLog h # ys \<longrightarrow> (\<forall>r \<in> set xs. ends r \<longrightarrow> log_tid (hdr r) \<noteq> log_tid h))"

definition committed_in :: "log_record list \<Rightarrow> int set" where
  "committed_in rs = {log_tid h | h. CommitLog h \<in> set rs}"

definition aborted_in :: "log_record list \<Rightarrow> int set" where
  "aborted_in rs = {log_tid h | h. AbortLog h \<in> set rs}"

lemma begins_first_butlast: "begins_first (rs @ [r]) \<Longrightarrow> begins_first rs"
  unfolding begins_first_def by (metis append_Cons append_assoc)

lemma begins_first_last: "begins_first (rs @ [BeginLog h]) \<Longrightarrow> log_tid h \<notin> committed_in rs \<union> aborted_in rs"
proof
  assume b: "begins_first (rs @ [BeginLog h])" and t: "log_tid h \<in> committed_in rs \<union> aborted_in rs"
  from t obtain r where "r \<in> set rs" "ends r" "log_tid (hdr r) = log_tid h"
    by (force simp: committed_in_def aborted_in_def)
  with b show False unfolding begins_first_def by blast
qed

lemma note_sets:
  assumes "begins_first rs"
  shows "committed_txns (fst (fold take_note rs (recovery_new, n))) = committed_in rs \<and>
    aborted_txns (fst (fold take_note rs (recovery_new, n))) = aborted_in rs \<and>
    active_txns (fst (fold take_note rs (recovery_new, n))) =
      (\<lambda>r. log_tid (hdr r)) ` set rs - (committed_in rs \<union> aborted_in rs)"
  using assms
proof (induction rs rule: rev_induct)
  case Nil
  then show ?case by (simp add: recovery_new_def committed_in_def aborted_in_def)
next
  case (snoc r rs)
  note ih = snoc.IH [OF begins_first_butlast [OF snoc.prems]]
  have c: "committed_in (rs @ [r]) = (case r of CommitLog h \<Rightarrow> insert (log_tid h) (committed_in rs) | _ \<Rightarrow> committed_in rs)"
    and a: "aborted_in (rs @ [r]) = (case r of AbortLog h \<Rightarrow> insert (log_tid h) (aborted_in rs) | _ \<Rightarrow> aborted_in rs)"
    by (cases r; auto simp: committed_in_def aborted_in_def)+
  obtain st where st: "fold take_note rs (recovery_new, n) = st" by simp
  show ?case
  proof (cases r)
    case (BeginLog h)
    then have "log_tid h \<notin> committed_in rs \<union> aborted_in rs" using begins_first_last snoc.prems by blast
    with ih c a st BeginLog show ?thesis by (auto simp: take_note_def note_record_def Let_def case_prod_beta)
  qed (use ih c a st in \<open>auto simp: take_note_def note_record_def Let_def case_prod_beta\<close>)
qed


text \<open>
  The transactions recovery takes back, in any log, also one that spans several runs of the server and
  uses an identifier twice: those with an abort record, those begun after their last commit or abort
  record, and those that have neither. With \<open>begins_first\<close> they are the ones that were aborted or
  did not commit.
\<close>

definition since_end :: "int \<Rightarrow> log_record list \<Rightarrow> log_record list" where
  "since_end tid rs = rev (takeWhile (\<lambda>r. \<not> (ends r \<and> log_tid (hdr r) = tid)) (rev rs))"

definition begun_since :: "int \<Rightarrow> log_record list \<Rightarrow> bool" where
  "begun_since tid rs \<longleftrightarrow> (\<exists>h. BeginLog h \<in> set (since_end tid rs) \<and> log_tid h = tid)"

definition unfinished :: "log_record list \<Rightarrow> int set" where
  "unfinished rs = {tid. begun_since tid rs \<or>
     tid \<in> (\<lambda>r. log_tid (hdr r)) ` set rs \<and> tid \<notin> committed_in rs \<and> tid \<notin> aborted_in rs}"

definition losers :: "log_record list \<Rightarrow> int set" where
  "losers rs = aborted_in rs \<union> unfinished rs"

lemma since_end_snoc: "since_end tid (rs @ [r]) = (if ends r \<and> log_tid (hdr r) = tid then [] else since_end tid rs @ [r])"
  by (simp add: since_end_def)

lemma begun_since_snoc: "begun_since tid (rs @ [r]) = (case r of
    BeginLog h \<Rightarrow> log_tid h = tid \<or> begun_since tid rs
  | CommitLog h \<Rightarrow> log_tid h \<noteq> tid \<and> begun_since tid rs
  | AbortLog h \<Rightarrow> log_tid h \<noteq> tid \<and> begun_since tid rs
  | _ \<Rightarrow> begun_since tid rs)"
  by (cases r) (auto simp: begun_since_def since_end_snoc)

lemma begun_since_tid: "begun_since tid rs \<Longrightarrow> tid \<in> (\<lambda>r. log_tid (hdr r)) ` set rs"
  by (force simp: begun_since_def since_end_def dest: set_takeWhileD)

lemma note_active:
  "committed_txns (fst (fold take_note rs (recovery_new, n))) = committed_in rs \<and>
    aborted_txns (fst (fold take_note rs (recovery_new, n))) = aborted_in rs \<and>
    active_txns (fst (fold take_note rs (recovery_new, n))) = unfinished rs"
proof (induction rs rule: rev_induct)
  case Nil
  then show ?case by (simp add: recovery_new_def committed_in_def aborted_in_def unfinished_def begun_since_def since_end_def)
next
  case (snoc r rs)
  have c: "committed_in (rs @ [x]) = (case x of CommitLog h \<Rightarrow> insert (log_tid h) (committed_in rs) | _ \<Rightarrow> committed_in rs)"
    and a: "aborted_in (rs @ [x]) = (case x of AbortLog h \<Rightarrow> insert (log_tid h) (aborted_in rs) | _ \<Rightarrow> aborted_in rs)"
    for x by (cases x; auto simp: committed_in_def aborted_in_def)+
  have u: "unfinished (rs @ [r]) = (case r of
      BeginLog h \<Rightarrow> insert (log_tid h) (unfinished rs)
    | CommitLog h \<Rightarrow> unfinished rs - {log_tid h}
    | AbortLog h \<Rightarrow> unfinished rs - {log_tid h}
    | _ \<Rightarrow> if log_tid (hdr r) \<notin> committed_in rs \<and> log_tid (hdr r) \<notin> aborted_in rs
        then insert (log_tid (hdr r)) (unfinished rs) else unfinished rs)"
    by (cases r) (auto simp: unfinished_def begun_since_snoc c a)
  obtain st where st: "fold take_note rs (recovery_new, n) = st" by simp
  show ?case
    unfolding u using snoc.IH c a st
    by (cases r) (auto simp: take_note_def note_record_def Let_def case_prod_beta)
qed

lemma note_losers:
  "active_txns (fst (fold take_note rs (recovery_new, n))) \<union> aborted_txns (fst (fold take_note rs (recovery_new, n))) = losers rs"
  using note_active [of rs n] by (auto simp: losers_def)

lemma losers_once:
  assumes "begins_first rs"
  shows "losers rs = (\<lambda>r. log_tid (hdr r)) ` set rs - (committed_in rs - aborted_in rs)"
proof -
  have "aborted_in rs \<subseteq> (\<lambda>r. log_tid (hdr r)) ` set rs" by (force simp: aborted_in_def)
  then show ?thesis
    using note_sets [OF assms, of INVALID_LSN] note_losers [of rs INVALID_LSN] by auto
qed

lemma take_note_max: "snd (fold take_note rs st) = fold max (map (\<lambda>r. lsn (hdr r)) rs) (snd st)"
  by (induction rs arbitrary: st) (simp_all add: take_note_def note_record_def case_prod_beta max_def Let_def)

lemma fold_max_ge: "(m::int) \<le> fold max xs m"
  by (induction xs arbitrary: m) (auto intro: order_trans [OF max.cobounded2])

lemma fold_max_mem: "x \<in> set xs \<Longrightarrow> (x::int) \<le> fold max xs m"
  by (induction xs arbitrary: m) (auto intro: order_trans [OF max.cobounded1 fold_max_ge])

lemma read_log_all:
  assumes "disk_ok d" "log_fd_ok d" "log_fd d \<noteq> -1 \<or> path2fd d LOG_FILE_NAME = None"
    "files d LOG_FILE_NAME = Some f" "f \<noteq> []" "length f < 2 ^ 30"
  shows "\<exists>d'. read_log (get_file_size d LOG_FILE_NAME) 0 d = (Inr (int (length f), f), d') \<and> disk_ok d' \<and>
    log_fd_ok d' \<and> files d' = files d \<and> fd2pageno d' = fd2pageno d \<and> (\<forall>fd p. fd2path d fd = Some p \<longrightarrow> fd2path d' fd = Some p)"
proof -
  obtain r0 d0 where o: "open_log d = (r0, d0)" by (meson surj_pair)
  note run = open_log_run [OF assms(1,2) o]
  have ok: "r0 = Inr ()"
    using o assms(3,4) by (auto simp: open_log_def open_file_def is_file_def os_open_def Let_def split: if_splits)
  have sz: "get_file_size d0 LOG_FILE_NAME = int (length f)" "get_file_size d LOG_FILE_NAME = int (length f)"
    using run assms(4,6) by (auto simp: get_file_size_def to_signed_def)
  have "map_of (open_fds d0) (log_fd d0) = Some LOG_FILE_NAME" using run ok unfolding disk_ok_def by simp
  then have "fd_bytes d0 (log_fd d0) = Some f" using run assms(4) by (simp add: fd_bytes_def)
  then have "read_log (int (length f)) 0 d = (Inr (int (length f), f), d0)"
    using o ok assms(5) sz(1) by (simp add: read_log_def run_simps pread_def Let_def)
  with run sz(2) show ?thesis by auto
qed

text \<open>The run: the log manager goes on after the largest LSN \<open>mx\<close>.\<close>

lemma analyze_run:
  assumes "disk_ok d" "log_fd_ok d" "log_fd d \<noteq> -1 \<or> path2fd d LOG_FILE_NAME = None"
    "files d LOG_FILE_NAME = Some (concat (map rec_bytes rs) @ tail)"
    "length (concat (map rec_bytes rs) @ tail) < 2 ^ 30"
    "rs \<noteq> []" "\<forall>r \<in> set rs. rec_ok r \<and> 0 \<le> lsn (hdr r)" "torn tail"
  shows "\<exists>d' mx. analyze ((d, Some l), recovery_new) = Some (Inr (), (d', Some (l\<lparr>global_lsn := mx + 1, persist_lsn := mx\<rparr>)),
      fst (fold take_note rs (recovery_new, INVALID_LSN))) \<and>
    (\<forall>r \<in> set rs. lsn (hdr r) \<le> mx) \<and> 0 \<le> mx \<and> disk_ok d' \<and> log_fd_ok d' \<and> files d' = files d \<and>
    fd2pageno d' = fd2pageno d \<and> (\<forall>fd p. fd2path d fd = Some p \<longrightarrow> fd2path d' fd = Some p)"
proof -
  let ?f = "concat (map rec_bytes rs) @ tail"
  have ne: "?f \<noteq> []" using assms(6) length_rec_bytes [of "hd rs"] by (cases rs) auto
  from read_log_all [OF assms(1-4) ne assms(5)] obtain d' where
    rd: "read_log (get_file_size d LOG_FILE_NAME) 0 d = (Inr (int (length ?f), ?f), d')" and d': "disk_ok d'" "log_fd_ok d'"
    "files d' = files d" "fd2pageno d' = fd2pageno d" "\<forall>fd p. fd2path d fd = Some p \<longrightarrow> fd2path d' fd = Some p" by auto
  have sz: "get_file_size d LOG_FILE_NAME = int (length ?f)" "0 < int (length ?f)"
    using assms(4,5) ne by (simp_all add: get_file_size_def to_signed_def del: length_append concat_eq_Nil_conv append_is_Nil_conv)
  have loop: "analyze_loop (mwrite mzero 0 ?f) (int (length ?f)) 0 (recovery_new, INVALID_LSN) =
      Some (fold take_note rs (recovery_new, INVALID_LSN))"
    using analyze_loop_log [of rs tail "mwrite mzero 0 ?f" 0 "length ?f"] assms(5,7,8) by (simp add: holds_mwrite)
  obtain a mx where am: "fold take_note rs (recovery_new, INVALID_LSN) = (a, mx)" by (meson surj_pair)
  have mx: "\<forall>r \<in> set rs. lsn (hdr r) \<le> mx" "0 \<le> mx"
  proof -
    have m: "mx = fold max (map (\<lambda>r. lsn (hdr r)) rs) INVALID_LSN"
      using take_note_max [of rs "(recovery_new, INVALID_LSN)"] am by simp
    then show "\<forall>r \<in> set rs. lsn (hdr r) \<le> mx" by (auto intro: fold_max_mem)
    then show "0 \<le> mx" using assms(6,7) by (cases rs) auto
  qed
  have "analyze ((d, Some l), recovery_new) =
      Some (Inr (), (d', Some (l\<lparr>global_lsn := mx + 1, persist_lsn := mx\<rparr>)), a)"
    using rd sz loop am mx(2) by (simp add: analyze_def Let_def INVALID_LSN_def)
  with am mx d' show ?thesis by auto
qed

text \<open>
  Claim C27. Analysing a log that ends in a torn record yields exactly the complete records before
  it, in order; the committed, aborted and active sets are the transactions with a commit record,
  with an abort record, and with records but neither; and the next LSN is above every LSN read.
  The sets are for a log that uses no transaction id again after it has ended (\<open>begins_first\<close>); for any
  other log \<open>note_active\<close> says what they are.
\<close>

theorem analyze_torn_log:
  assumes "disk_ok d" "log_fd_ok d" "log_fd d \<noteq> -1 \<or> path2fd d LOG_FILE_NAME = None"
    "files d LOG_FILE_NAME = Some (concat (map rec_bytes rs) @ tail)"
    "length (concat (map rec_bytes rs) @ tail) < 2 ^ 30"
    "rs \<noteq> []" "\<forall>r \<in> set rs. rec_ok r \<and> 0 \<le> lsn (hdr r)" "torn tail" "begins_first rs"
  shows "\<exists>d' l' a. analyze ((d, Some l), recovery_new) = Some (Inr (), (d', Some l'), a) \<and>
    log_records a = rs \<and> committed_txns a = committed_in rs \<and> aborted_txns a = aborted_in rs \<and>
    active_txns a = (\<lambda>r. log_tid (hdr r)) ` set rs - (committed_in rs \<union> aborted_in rs) \<and>
    (\<forall>r \<in> set rs. lsn (hdr r) < global_lsn l') \<and> persist_lsn l' = global_lsn l' - 1 \<and> files d' = files d"
proof -
  from analyze_run [OF assms(1-8)] obtain d' mx where
    "analyze ((d, Some l), recovery_new) = Some (Inr (), (d', Some (l\<lparr>global_lsn := mx + 1, persist_lsn := mx\<rparr>)),
      fst (fold take_note rs (recovery_new, INVALID_LSN)))" "\<forall>r \<in> set rs. lsn (hdr r) \<le> mx" "files d' = files d" by blast
  with note_sets [OF assms(9), of INVALID_LSN] note_log_records [of rs "(recovery_new, INVALID_LSN)"] show ?thesis
    by (auto simp: recovery_new_def)
qed

definition begin_ex :: log_record where
  "begin_ex = set_hdr (\<lambda>h. h\<lparr>lsn := 0\<rparr>) (BeginLogRecord 5)"

lemma begin_ex_ok: "rec_ok begin_ex" "lsn (hdr begin_ex) = 0" "length (rec_bytes begin_ex) = 24"
    "begin_ex = BeginLog (hdr begin_ex)" "log_tid (hdr begin_ex) = 5"
  by (simp_all add: begin_ex_def BeginLogRecord_def rec_ok_def new_hdr_def hdr_fits_def in_signed_def
      INVALID_LSN_def log_offsets)

theorem analyze_torn_log_witness:
  "\<exists>d' l' a. analyze ((disk_new [LOG_FILE_NAME \<mapsto> rec_bytes begin_ex @ [3, 0]] [0, 1, 2], Some log_manager_new),
      recovery_new) = Some (Inr (), (d', Some l'), a) \<and> log_records a = [begin_ex] \<and> active_txns a = {5}"
proof -
  have "rec_bytes begin_ex = [3, 0] @ drop 2 (rec_bytes begin_ex)"
    by (simp add: begin_ex_def BeginLogRecord_def hdr_bytes_def new_hdr_def numeral_eq_Suc)
  moreover have "drop 2 (rec_bytes begin_ex) \<noteq> []" using begin_ex_ok(3) by simp
  ultimately have "torn [3, 0]"
    unfolding torn_def using begin_ex_ok(1,3) by (intro disjI2 exI conjI) auto
  have com: "committed_in [begin_ex] = {}" "aborted_in [begin_ex] = {}"
    by (simp_all add: committed_in_def aborted_in_def begin_ex_def BeginLogRecord_def)
  have bf: "begins_first [begin_ex]"
    by (auto simp: begins_first_def Cons_eq_append_conv)
  have "\<exists>d' l' a. analyze ((disk_new [LOG_FILE_NAME \<mapsto> rec_bytes begin_ex @ [3, 0]] [0, 1, 2], Some log_manager_new),
      recovery_new) = Some (Inr (), (d', Some l'), a) \<and> log_records a = [begin_ex] \<and>
      committed_txns a = committed_in [begin_ex] \<and> aborted_txns a = aborted_in [begin_ex] \<and>
      active_txns a = (\<lambda>r. log_tid (hdr r)) ` set [begin_ex] - (committed_in [begin_ex] \<union> aborted_in [begin_ex]) \<and>
      (\<forall>r \<in> set [begin_ex]. lsn (hdr r) < global_lsn l') \<and> persist_lsn l' = global_lsn l' - 1 \<and>
      files d' = files (disk_new [LOG_FILE_NAME \<mapsto> rec_bytes begin_ex @ [3, 0]] [0, 1, 2])"
    using begin_ex_ok \<open>torn [3, 0]\<close> bf disk_new_ok
    by (intro analyze_torn_log [where tail = "[3, 0]"]) (simp_all add: disk_new_def)
  then show ?thesis
    unfolding com using begin_ex_ok(5) by auto
qed

end
