(* ===== verification/Lru_Replacer.thy ===== *)
theory Lru_Replacer
  imports Rmdb_Base
begin

text \<open>
  The page replacer: the interface of \<^verbatim>\<open>src/src/replacer/replacer.h\<close> as a locale and the LRU
  policy of \<^verbatim>\<open>lru_replacer.cpp\<close>. \<open>LRUlist_\<close> is a list of nodes, each with the frame it holds;
  \<open>LRUhash_\<close> maps a frame to the node its iterator points at, so that a dangling iterator would
  show as a node that is not in the list.
\<close>

section \<open>The interface\<close>

locale replacer =
  fixes victim :: "'s \<Rightarrow> nat option \<times> 's"
    and pin :: "nat \<Rightarrow> 's \<Rightarrow> 's"
    and unpin :: "nat \<Rightarrow> 's \<Rightarrow> 's"
    and size_of :: "'s \<Rightarrow> nat"
    and evictable :: "'s \<Rightarrow> nat list"
    and ok :: "'s \<Rightarrow> bool"
  assumes ok_distinct: "ok s \<Longrightarrow> distinct (evictable s)"
    and victim_none: "ok s \<Longrightarrow> evictable s = [] \<Longrightarrow> victim s = (None, s)"
    and victim_some: "ok s \<Longrightarrow> evictable s \<noteq> [] \<Longrightarrow>
      \<exists>s'. victim s = (Some (last (evictable s)), s') \<and> evictable s' = butlast (evictable s) \<and> ok s'"
    and pin_evictable: "ok s \<Longrightarrow> evictable (pin f s) = removeAll f (evictable s)"
    and pin_ok: "ok s \<Longrightarrow> ok (pin f s)"
    and unpin_evictable: "ok s \<Longrightarrow>
      evictable (unpin f s) = (if f \<in> set (evictable s) then evictable s else f # evictable s)"
    and unpin_ok: "ok s \<Longrightarrow> ok (unpin f s)"
    and size_evictable: "ok s \<Longrightarrow> size_of s = length (evictable s)"
begin

lemma victim_set:
  assumes "ok s" "victim s = (r, s')"
  shows "ok s' \<and> set (evictable s') \<subseteq> set (evictable s) \<and>
    (case r of None \<Rightarrow> evictable s = [] \<and> s' = s
     | Some f \<Rightarrow> f \<in> set (evictable s) \<and> set (evictable s') = set (evictable s) - {f})"
proof (cases "evictable s = []")
  case True
  with assms victim_none show ?thesis by auto
next
  case False
  with assms victim_some obtain t where v: "victim s = (Some (last (evictable s)), t)"
    and t: "evictable t = butlast (evictable s)" "ok t" by blast
  have e: "evictable s = butlast (evictable s) @ [last (evictable s)]" using False by simp
  have "distinct (butlast (evictable s) @ [last (evictable s)])"
    using ok_distinct [OF assms(1)] e by simp
  then have "set (butlast (evictable s)) = set (evictable s) - {last (evictable s)}"
    using e by (metis Diff_insert_absorb distinct_append distinct.simps(2) Un_insert_right append_Nil2
        disjoint_insert(1) list.simps(15) set_append sup_bot.right_neutral list.set(1))
  with False v t assms show ?thesis by auto
qed

lemma pin_set: "ok s \<Longrightarrow> set (evictable (pin f s)) = set (evictable s) - {f}"
  by (simp add: pin_evictable)

lemma unpin_set: "ok s \<Longrightarrow> set (evictable (unpin f s)) = insert f (set (evictable s))"
  by (auto simp: unpin_evictable)

end

section \<open>The LRU policy\<close>

record lru =
  LRUlist :: "(nat \<times> nat) list"
  LRUhash :: "nat \<rightharpoonup> nat"
  next_node :: nat
  max_size :: nat

definition lru_new :: "nat \<Rightarrow> lru" where
  "lru_new num_pages = \<lparr>LRUlist = [], LRUhash = Map.empty, next_node = 0, max_size = num_pages\<rparr>"

definition lru_victim :: "lru \<Rightarrow> nat option \<times> lru" where
  "lru_victim s =
     (if LRUlist s = [] then (None, s)
      else let f = snd (last (LRUlist s))
           in (Some f, s\<lparr>LRUlist := butlast (LRUlist s), LRUhash := (LRUhash s)(f := None)\<rparr>))"

definition lru_pin :: "nat \<Rightarrow> lru \<Rightarrow> lru" where
  "lru_pin f s =
     (case LRUhash s f of
        Some it \<Rightarrow> s\<lparr>LRUlist := filter (\<lambda>(n, _). n \<noteq> it) (LRUlist s), LRUhash := (LRUhash s)(f := None)\<rparr>
      | None \<Rightarrow> s)"

definition lru_unpin :: "nat \<Rightarrow> lru \<Rightarrow> lru" where
  "lru_unpin f s =
     (if LRUhash s f = None then
        s\<lparr>LRUlist := (next_node s, f) # LRUlist s, LRUhash := (LRUhash s)(f \<mapsto> next_node s),
          next_node := Suc (next_node s)\<rparr>
      else s)"

definition lru_size :: "lru \<Rightarrow> nat" where
  "lru_size s = length (LRUlist s)"

text \<open>The frames that can be evicted, most recently unpinned first.\<close>

definition lru_frames :: "lru \<Rightarrow> nat list" where
  "lru_frames s = map snd (LRUlist s)"

definition lru_ok :: "lru \<Rightarrow> bool" where
  "lru_ok s \<longleftrightarrow> distinct (map fst (LRUlist s)) \<and> distinct (map snd (LRUlist s)) \<and>
     (\<forall>n \<in> fst ` set (LRUlist s). n < next_node s) \<and>
     (\<forall>f n. LRUhash s f = Some n \<longleftrightarrow> (n, f) \<in> set (LRUlist s))"

lemma lru_ok_hash_dom: "lru_ok s \<Longrightarrow> LRUhash s f = None \<longleftrightarrow> f \<notin> set (lru_frames s)"
  by (force simp: lru_ok_def lru_frames_def image_iff not_Some_eq [symmetric] simp del: not_Some_eq)

lemma lru_new_ok: "lru_ok (lru_new n)"
  by (simp add: lru_ok_def lru_new_def)

lemma lru_victim_ok:
  assumes "lru_ok s" "LRUlist s \<noteq> []"
  shows "lru_ok (snd (lru_victim s))"
proof -
  obtain xs n f where l: "LRUlist s = xs @ [(n, f)]"
    using assms(2) by (metis rev_exhaust surj_pair)
  show ?thesis
    using assms(1) by (auto simp: lru_ok_def lru_victim_def l Let_def image_iff)
qed

lemma lru_pin_frames:
  assumes "lru_ok s"
  shows "lru_frames (lru_pin f s) = removeAll f (lru_frames s) \<and> lru_ok (lru_pin f s)"
proof (cases "LRUhash s f")
  case None
  then have "f \<notin> set (lru_frames s)" using lru_ok_hash_dom [OF assms] by simp
  with None assms show ?thesis by (simp add: lru_pin_def)
next
  case (Some it)
  have inj: "m = it \<longleftrightarrow> g = f" if "(m, g) \<in> set (LRUlist s)" for m g
  proof -
    have "LRUhash s g = Some m" using assms that by (simp add: lru_ok_def)
    moreover have "(it, f) \<in> set (LRUlist s)" using assms Some by (simp add: lru_ok_def)
    ultimately show ?thesis
      using that assms Some unfolding lru_ok_def distinct_map inj_on_def
      by (metis fst_conv snd_conv)
  qed
  have fl: "filter (\<lambda>(n, _). n \<noteq> it) (LRUlist s) = filter (\<lambda>(_, g). g \<noteq> f) (LRUlist s)"
    by (rule filter_cong) (use inj in auto)
  have "map snd (filter (\<lambda>(_, g). g \<noteq> f) (LRUlist s)) = removeAll f (map snd (LRUlist s))"
    by (induction "LRUlist s") (auto simp: removeAll_filter_not_eq filter_map comp_def case_prod_beta eq_commute)
  moreover have "lru_ok (lru_pin f s)"
    unfolding lru_pin_def Some
    using assms inj by (auto simp: lru_ok_def distinct_map_filter)
  ultimately show ?thesis by (simp add: lru_frames_def lru_pin_def Some fl)
qed

lemma lru_unpin_ok: "lru_ok s \<Longrightarrow> lru_ok (lru_unpin f s)"
  by (auto simp: lru_ok_def lru_unpin_def image_iff) force+

interpretation lru: replacer lru_victim lru_pin lru_unpin lru_size lru_frames lru_ok
proof (unfold_locales, goal_cases)
  case (1 s) then show ?case by (simp add: lru_ok_def lru_frames_def)
next
  case (2 s) then show ?case by (simp add: lru_victim_def lru_frames_def)
next
  case (3 s)
  then have ne: "LRUlist s \<noteq> []" by (simp add: lru_frames_def)
  then have "lru_victim s = (Some (last (lru_frames s)), snd (lru_victim s))"
    by (simp add: lru_victim_def lru_frames_def Let_def last_map)
  moreover have "lru_frames (snd (lru_victim s)) = butlast (lru_frames s)"
    using ne by (simp add: lru_victim_def lru_frames_def Let_def map_butlast)
  ultimately show ?case using 3(1) ne lru_victim_ok by blast
next
  case (4 s f) then show ?case by (simp add: lru_pin_frames)
next
  case (5 s f) then show ?case by (simp add: lru_pin_frames)
next
  case (6 s f)
  then show ?case
    using lru_ok_hash_dom [OF 6, of f] by (auto simp: lru_unpin_def lru_frames_def)
next
  case (7 s f) then show ?case by (rule lru_unpin_ok)
next
  case (8 s) then show ?case by (simp add: lru_size_def lru_frames_def)
qed

section \<open>Least recently used\<close>

text \<open>
  The history of a run, newest event first, and what it says of each frame: the time (the number of
  the event) from which the frame has been evictable, that is the first \<open>unpin\<close> since it was last
  pinned or evicted. It is read off the events alone, not off the replacer's lists.
\<close>

datatype lru_call = Victim | Pin nat | Unpin nat

datatype lru_event = Evicted "nat option" | Pinned nat | Unpinned nat

fun lru_step :: "lru_call \<Rightarrow> lru \<Rightarrow> lru_event \<times> lru" where
  "lru_step Victim s = (let (r, s') = lru_victim s in (Evicted r, s'))"
| "lru_step (Pin f) s = (Pinned f, lru_pin f s)"
| "lru_step (Unpin f) s = (Unpinned f, lru_unpin f s)"

fun lru_calls :: "lru_call list \<Rightarrow> lru_event list \<Rightarrow> lru \<Rightarrow> lru_event list \<times> lru" where
  "lru_calls [] h s = (h, s)"
| "lru_calls (c # cs) h s = (let (e, s') = lru_step c s in lru_calls cs (e # h) s')"

primrec evictable_since :: "lru_event list \<Rightarrow> nat \<Rightarrow> nat option" where
  "evictable_since [] = Map.empty"
| "evictable_since (e # h) = (let T = evictable_since h in
     case e of
       Evicted None \<Rightarrow> T
     | Evicted (Some f) \<Rightarrow> T(f := None)
     | Pinned f \<Rightarrow> T(f := None)
     | Unpinned f \<Rightarrow> (if T f = None then T(f \<mapsto> length h) else T))"

text \<open>The list holds the evictable frames in the order in which they became evictable, newest first.\<close>

definition lru_follows :: "lru_event list \<Rightarrow> lru \<Rightarrow> bool" where
  "lru_follows h s \<longleftrightarrow> lru_ok s \<and> dom (evictable_since h) = set (lru_frames s) \<and>
     (\<forall>t \<in> ran (evictable_since h). t < length h) \<and>
     sorted_wrt (\<lambda>f g. the (evictable_since h g) < the (evictable_since h f)) (lru_frames s)"

lemma lru_follows_new: "lru_follows [] (lru_new n)"
  by (simp add: lru_follows_def lru_new_ok) (simp add: lru_new_def lru_frames_def)

lemma lru_follows_drop:
  assumes "lru_follows h s" "evictable_since (e # h) = (evictable_since h)(f := None)"
    and "lru_ok s'" "lru_frames s' = removeAll f (lru_frames s)"
  shows "lru_follows (e # h) s'"
proof -
  let ?T = "evictable_since h"
  have old: "dom ?T = set (lru_frames s)" "\<forall>t \<in> ran ?T. t < length h"
    "sorted_wrt (\<lambda>f g. the (?T g) < the (?T f)) (lru_frames s)"
    using assms(1) by (auto simp: lru_follows_def)
  have "sorted_wrt (\<lambda>a b. the (?T b) < the (?T a)) (removeAll f (lru_frames s))"
    using old(3) by (simp add: removeAll_filter_not_eq sorted_wrt_filter)
  then have "sorted_wrt (\<lambda>a b. the ((?T(f := None)) b) < the ((?T(f := None)) a)) (lru_frames s')"
    unfolding assms(4) by (rule sorted_wrt_mono_rel [rotated]) auto
  with old assms show ?thesis
    by (auto simp: lru_follows_def ran_def dom_def less_Suc_eq simp del: evictable_since.simps)
qed

lemma lru_follows_victim:
  assumes "lru_follows h s"
  shows "lru_follows (Evicted (fst (lru_victim s)) # h) (snd (lru_victim s))"
proof (cases "lru_frames s = []")
  case True
  with assms lru.victim_none [of s] show ?thesis by (auto simp: lru_follows_def)
next
  case False
  obtain s' where v: "lru_victim s = (Some (last (lru_frames s)), s')" "lru_frames s' = butlast (lru_frames s)"
    "lru_ok s'"
    using lru.victim_some [OF _ False] assms by (auto simp: lru_follows_def)
  have "distinct (lru_frames s)" using assms by (simp add: lru_follows_def lru.ok_distinct)
  then have "butlast (lru_frames s) = removeAll (last (lru_frames s)) (lru_frames s)"
    using False by (metis append_Nil2 append_butlast_last_id distinct_append
        disjoint_insert(1) list.simps(15) removeAll.simps(1,2) removeAll_append removeAll_id)
  with v lru_follows_drop [OF assms, of "Evicted (Some (last (lru_frames s)))" "last (lru_frames s)" s']
  show ?thesis by simp
qed

lemma lru_follows_unpin:
  assumes "lru_follows h s"
  shows "lru_follows (Unpinned f # h) (lru_unpin f s)"
proof (cases "f \<in> set (lru_frames s)")
  case True
  then have "f \<in> dom (evictable_since h)" using assms by (simp add: lru_follows_def)
  then have "evictable_since (Unpinned f # h) = evictable_since h" by (auto simp: Let_def)
  with True assms show ?thesis
    by (auto simp: lru_follows_def lru.unpin_ok lru.unpin_evictable less_Suc_eq simp del: evictable_since.simps)
next
  case False
  let ?T = "evictable_since h"
  have new: "?T f = None" using False assms by (auto simp: lru_follows_def)
  have times: "the (?T g) < length h" if "g \<in> set (lru_frames s)" for g
  proof -
    have "g \<in> dom ?T" using that assms by (simp add: lru_follows_def)
    then obtain t where "?T g = Some t" by blast
    with assms show ?thesis by (auto simp: lru_follows_def ran_def)
  qed
  have "sorted_wrt (\<lambda>a b. the ((?T(f \<mapsto> length h)) b) < the ((?T(f \<mapsto> length h)) a)) (lru_frames s)"
    by (rule sorted_wrt_mono_rel [of _ "\<lambda>a b. the (?T b) < the (?T a)"])
      (use False assms in \<open>auto simp: lru_follows_def\<close>)
  with False new times assms show ?thesis
    by (auto simp: lru_follows_def lru.unpin_ok lru.unpin_evictable ran_def less_Suc_eq split: if_splits)
qed

lemma lru_follows_call:
  assumes "lru_follows h s" "lru_step c s = (e, s')"
  shows "lru_follows (e # h) s'"
proof (cases c)
  case Victim
  with assms lru_follows_victim [OF assms(1)] show ?thesis by (simp add: case_prod_beta)
next
  case (Pin f)
  have "lru_ok s" using assms(1) by (simp add: lru_follows_def)
  with Pin assms(2) lru_follows_drop [OF assms(1), of "Pinned f" f "lru_pin f s"] show ?thesis
    by (auto simp: lru.pin_ok lru.pin_evictable)
next
  case (Unpin f)
  with assms(2) lru_follows_unpin [OF assms(1), of f] show ?thesis by auto
qed

lemma lru_follows_calls:
  "lru_follows h s \<Longrightarrow> lru_calls cs h s = (h', s') \<Longrightarrow> lru_follows h' s'"
  by (induction cs h s rule: lru_calls.induct) (auto split: prod.splits dest: lru_follows_call)

text \<open>
  Claim C38. After any calls of \<open>victim\<close>, \<open>pin\<close> and \<open>unpin\<close> on a fresh replacer, the next victim is
  the frame that has been evictable for the longest time: every other evictable frame was unpinned
  strictly later. There is none exactly when no frame is evictable, and \<open>Size\<close> is the number of
  the evictable frames.
\<close>

theorem lru_victim_oldest:
  assumes "lru_calls cs [] (lru_new n) = (h, s)"
  shows "lru_size s = card (dom (evictable_since h)) \<and>
    (case fst (lru_victim s) of
       None \<Rightarrow> evictable_since h = Map.empty
     | Some f \<Rightarrow> \<exists>t. evictable_since h f = Some t \<and>
         (\<forall>g u. evictable_since h g = Some u \<longrightarrow> g = f \<or> t < u))"
proof -
  have f: "lru_follows h s" by (rule lru_follows_calls [OF lru_follows_new assms])
  then have ok: "lru_ok s" and dom: "dom (evictable_since h) = set (lru_frames s)"
    and sorted: "sorted_wrt (\<lambda>f g. the (evictable_since h g) < the (evictable_since h f)) (lru_frames s)"
    by (auto simp: lru_follows_def)
  have size: "lru_size s = card (dom (evictable_since h))"
    using ok dom by (simp add: lru.size_evictable lru.ok_distinct distinct_card)
  show ?thesis
  proof (cases "lru_frames s = []")
    case True
    with ok dom size lru.victim_none [of s] show ?thesis by simp
  next
    case False
    define f where "f = last (lru_frames s)"
    have split: "lru_frames s = butlast (lru_frames s) @ [f]" using False by (simp add: f_def)
    have "f \<in> dom (evictable_since h)" using False dom by (simp add: f_def)
    then obtain t where t: "evictable_since h f = Some t" by auto
    have "g = f \<or> t < u" if "evictable_since h g = Some u" for g u
    proof -
      have "g \<in> set (butlast (lru_frames s) @ [f])" using that dom split by (metis domI)
      moreover have "\<forall>g \<in> set (butlast (lru_frames s)). t < the (evictable_since h g)"
        using sorted t by (subst (asm) split) (simp add: sorted_wrt_append)
      ultimately show ?thesis using that by auto
    qed
    moreover have "fst (lru_victim s) = Some f"
      using lru.victim_some [OF ok False] by (auto simp: f_def)
    ultimately show ?thesis using t size by auto
  qed
qed

theorem lru_victim_oldest_witness:
  "\<exists>h s. lru_calls [Unpin 7, Unpin 2, Unpin 5, Unpin 7, Pin 7, Unpin 7] [] (lru_new 9) = (h, s) \<and>
     lru_size s = 3 \<and> fst (lru_victim s) = Some 2 \<and> evictable_since h 2 = Some 1 \<and>
     evictable_since h 5 = Some 2 \<and> evictable_since h 7 = Some 5"
proof -
  let ?cs = "[Unpin 7, Unpin 2, Unpin 5, Unpin 7, Pin 7, Unpin 7]"
  obtain h s where r: "lru_calls ?cs [] (lru_new 9) = (h, s)" by (cases "lru_calls ?cs [] (lru_new 9)")
  note c = lru_victim_oldest [OF r]
  have "evictable_since h = [2 \<mapsto> 1, 5 \<mapsto> 2, 7 \<mapsto> 5]"
    using r by (auto simp: lru_new_def lru_unpin_def lru_pin_def)
  with c r show ?thesis
    by (auto split: option.splits if_splits)
qed

end
