(* ===== verification/Buffer_Pool.thy ===== *)
theory Buffer_Pool
  imports Lru_Replacer Log_Manager
begin

text \<open>
  The buffer pool, \<^verbatim>\<open>src/src/storage/buffer_pool_manager.cpp\<close> and \<^verbatim>\<open>page.h\<close>. A \<^verbatim>\<open>Page *\<close> is the
  number of its frame, \<^verbatim>\<open>nullptr\<close> is \<open>None\<close>. The state holds the disk and the log manager the
  pool works on; \<open>log_attached\<close> says whether \<^verbatim>\<open>log_manager_\<close> is set. Its functions hold the latch
  throughout, so each is one step.
\<close>

section \<open>State\<close>

datatype page_id = PageId (pid_fd: int) (pid_no: int)

record page =
  pg_id :: page_id
  pg_data :: mem
  is_dirty :: bool
  pin_count :: int

definition OFFSET_PAGE_HDR :: nat where "OFFSET_PAGE_HDR = 4"

definition get_page_lsn :: "page \<Rightarrow> int" where
  "get_page_lsn p = read_int 4 (pg_data p) 0"

definition set_page_lsn :: "int \<Rightarrow> page \<Rightarrow> page" where
  "set_page_lsn v p = p\<lparr>pg_data := write_int 4 (pg_data p) 0 v\<rparr>"

definition no_page :: page_id where "no_page = PageId (-1) INVALID_PAGE_ID"

definition reset_memory :: "page \<Rightarrow> page" where
  "reset_memory p = p\<lparr>pg_data := mzero\<rparr>"

definition new_frame :: page where
  "new_frame = \<lparr>pg_id = no_page, pg_data = mzero, is_dirty = False, pin_count = 0\<rparr>"

record storage =
  st_disk :: disk
  st_log :: log_manager
  log_attached :: bool
  pages :: "page list"
  page_table :: "page_id \<rightharpoonup> nat"
  free_list :: "nat list"
  lru_of :: lru

definition pool_new :: "nat \<Rightarrow> disk \<Rightarrow> log_manager \<Rightarrow> bool \<Rightarrow> storage" where
  "pool_new n d l attached = \<lparr>st_disk = d, st_log = l, log_attached = attached,
     pages = replicate n new_frame, page_table = Map.empty, free_list = [0..<n], lru_of = lru_new n\<rparr>"

definition set_frame :: "nat \<Rightarrow> (page \<Rightarrow> page) \<Rightarrow> storage \<Rightarrow> storage" where
  "set_frame f g s = s\<lparr>pages := (pages s)[f := g (pages s ! f)]\<rparr>"

definition on_disk :: "(disk, 'a) op \<Rightarrow> (storage, 'a) op" where
  "on_disk = zoom st_disk (\<lambda>d s. s\<lparr>st_disk := d\<rparr>)"

definition on_log :: "(disk \<times> log_manager, 'a) op \<Rightarrow> (storage, 'a) op" where
  "on_log = zoom (\<lambda>s. (st_disk s, st_log s)) (\<lambda>(d, l) s. s\<lparr>st_disk := d, st_log := l\<rparr>)"

section \<open>Private functions\<close>

definition find_victim_page :: "storage \<Rightarrow> nat option \<times> storage" where
  "find_victim_page s =
     (case free_list s of
        f # fs \<Rightarrow> (Some f, s\<lparr>free_list := fs\<rparr>)
      | [] \<Rightarrow> (case lru_victim (lru_of s) of (r, lru') \<Rightarrow> (r, s\<lparr>lru_of := lru'\<rparr>)))"

text \<open>
  The block that writes a page back: the log is flushed first when the page is ahead of it, then the
  page goes to disk and becomes clean.
\<close>

definition flush_before :: "nat \<Rightarrow> (storage, unit) op" where
  "flush_before f = (\<lambda>s.
     if log_attached s \<and> get_page_lsn (pages s ! f) > persist_lsn (st_log s)
     then on_log flush_log_to_disk s else (Inr (), s))"

definition write_back :: "nat \<Rightarrow> (storage, unit) op" where
  "write_back f =
     andThen (flush_before f)
       (\<lambda>_. andThen (\<lambda>s. let p = pages s ! f
                       in on_disk (write_page (pid_fd (pg_id p)) (pid_no (pg_id p)) (pg_data p) PAGE_SIZE) s)
         (\<lambda>_. modify (set_frame f (is_dirty_update (\<lambda>_. False)))))"

definition update_page :: "nat \<Rightarrow> page_id \<Rightarrow> (storage, unit) op" where
  "update_page f new_id =
     andThen (\<lambda>s. if is_dirty (pages s ! f) then write_back f s else (Inr (), s))
       (\<lambda>_. modify (\<lambda>s.
          let pt = (page_table s)(pg_id (pages s ! f) := None);
              pt = (if pid_no new_id \<noteq> INVALID_PAGE_ID then pt(new_id \<mapsto> f) else pt)
          in set_frame f (\<lambda>p. reset_memory (p\<lparr>pg_id := new_id\<rparr>)) (s\<lparr>page_table := pt\<rparr>)))"

definition pin_frame :: "nat \<Rightarrow> (int \<Rightarrow> int) \<Rightarrow> storage \<Rightarrow> storage" where
  "pin_frame f k s = set_frame f (pin_count_update k) (s\<lparr>lru_of := lru_pin f (lru_of s)\<rparr>)"

section \<open>Public functions\<close>

definition mark_dirty :: "nat \<Rightarrow> storage \<Rightarrow> storage" where
  "mark_dirty f = set_frame f (is_dirty_update (\<lambda>_. True))"

definition fetch_read :: "nat \<Rightarrow> page_id \<Rightarrow> (storage, unit) op" where
  "fetch_read f pid = (\<lambda>s.
     case read_page (st_disk s) (pid_fd pid) (pid_no pid) PAGE_SIZE (pg_data (pages s ! f)) of
       (r, buf) \<Rightarrow> (r, set_frame f (pg_data_update (\<lambda>_. buf)) s))"

definition fetch_page :: "page_id \<Rightarrow> (storage, nat option) op" where
  "fetch_page pid = (\<lambda>s.
     case page_table s pid of
       Some f \<Rightarrow> (Inr (Some f), pin_frame f (\<lambda>c. c + 1) s)
     | None \<Rightarrow>
         (case find_victim_page s of
            (None, s') \<Rightarrow> (Inr None, s')
          | (Some f, s') \<Rightarrow>
              andThen (update_page f pid) (\<lambda>_. andThen (fetch_read f pid)
                (\<lambda>_. andThen (modify (pin_frame f (\<lambda>_. 1))) (\<lambda>_. ret (Some f)))) s'))"

definition unpin_page :: "page_id \<Rightarrow> bool \<Rightarrow> storage \<Rightarrow> bool \<times> storage" where
  "unpin_page pid dirty s =
     (case page_table s pid of
        None \<Rightarrow> (False, s)
      | Some f \<Rightarrow>
          if pin_count (pages s ! f) \<le> 0 then (False, s)
          else let s1 = set_frame f (pin_count_update (\<lambda>c. c - 1)) s;
                   s2 = (if pin_count (pages s1 ! f) = 0 then s1\<lparr>lru_of := lru_unpin f (lru_of s1)\<rparr> else s1);
                   s3 = (if dirty then mark_dirty f s2 else s2)
               in (True, s3))"

definition flush_page :: "page_id \<Rightarrow> (storage, bool) op" where
  "flush_page pid = (\<lambda>s.
     case page_table s pid of
       None \<Rightarrow> (Inr False, s)
     | Some f \<Rightarrow> andThen (write_back f) (\<lambda>_. ret True) s)"

text \<open>\<open>new_page fd\<close> returns the page number it stores in \<^verbatim>\<open>*page_id\<close> and the frame.\<close>

definition new_page :: "int \<Rightarrow> (storage, (int \<times> nat) option) op" where
  "new_page fd = (\<lambda>s.
     case find_victim_page s of
       (None, s') \<Rightarrow> (Inr None, s')
     | (Some f, s') \<Rightarrow>
         andThen (on_disk (allocate_page fd)) (\<lambda>no. andThen (update_page f (PageId fd no))
           (\<lambda>_. andThen (modify (pin_frame f (\<lambda>_. 1))) (\<lambda>_. ret (Some (no, f))))) s')"

definition release_frame :: "nat \<Rightarrow> storage \<Rightarrow> storage" where
  "release_frame f s =
     (let s1 = s\<lparr>page_table := (page_table s)(pg_id (pages s ! f) := None)\<rparr>;
          s2 = set_frame f (\<lambda>p. reset_memory (p\<lparr>pg_id := no_page\<rparr>)) s1
      in s2\<lparr>free_list := free_list s2 @ [f]\<rparr>)"

definition delete_page :: "page_id \<Rightarrow> (storage, bool) op" where
  "delete_page pid = (\<lambda>s.
     case page_table s pid of
       None \<Rightarrow> (Inr True, s)
     | Some f \<Rightarrow>
         if pin_count (pages s ! f) > 0 then (Inr False, s)
         else andThen (\<lambda>s. if is_dirty (pages s ! f) then write_back f s else (Inr (), s))
           (\<lambda>_. andThen (modify (release_frame f)) (\<lambda>_. ret True)) s)"

text \<open>The loops over the frames \<open>i, i + 1, \<dots>\<close> of a file.\<close>

definition of_file :: "int \<Rightarrow> page \<Rightarrow> bool" where
  "of_file fd p \<longleftrightarrow> pid_fd (pg_id p) = fd \<and> pid_no (pg_id p) \<noteq> INVALID_PAGE_ID"

definition flush_frame :: "int \<Rightarrow> nat \<Rightarrow> (storage, unit) op" where
  "flush_frame fd f = (\<lambda>s.
     if of_file fd (pages s ! f) \<and> is_dirty (pages s ! f) then write_back f s else (Inr (), s))"

definition delete_frame :: "int \<Rightarrow> nat \<Rightarrow> (storage, unit) op" where
  "delete_frame fd f = (\<lambda>s.
     if of_file fd (pages s ! f)
     then andThen (\<lambda>s. if is_dirty (pages s ! f) then write_back f s else (Inr (), s))
       (\<lambda>_. modify (\<lambda>s. release_frame f (set_frame f (pin_count_update (\<lambda>_. 0)) s))) s
     else (Inr (), s))"

fun for_frames :: "(nat \<Rightarrow> (storage, unit) op) \<Rightarrow> nat list \<Rightarrow> (storage, unit) op" where
  "for_frames g [] = ret ()"
| "for_frames g (f # fs) = andThen (g f) (\<lambda>_. for_frames g fs)"

definition flush_all_pages :: "int \<Rightarrow> (storage, unit) op" where
  "flush_all_pages fd = (\<lambda>s. for_frames (flush_frame fd) [0..<length (pages s)] s)"

definition delete_all_pages :: "int \<Rightarrow> (storage, unit) op" where
  "delete_all_pages fd = (\<lambda>s. for_frames (delete_frame fd) [0..<length (pages s)] s)"

text \<open>A client writing through the \<^verbatim>\<open>Page *\<close> it holds.\<close>

definition write_frame :: "nat \<Rightarrow> (mem \<Rightarrow> mem) \<Rightarrow> storage \<Rightarrow> storage" where
  "write_frame f g = set_frame f (pg_data_update g)"


section \<open>The invariant\<close>

text \<open>
  \<open>data_id\<close>: a page of an open file other than the log. \<open>pool_ok\<close> is the structural invariant:
  the page table and the identifiers stored in the frames agree, the free list holds distinct
  unmapped frames, unmapped frames are clean and unpinned, and only unpinned frames can be evicted.
\<close>

definition data_id :: "disk \<Rightarrow> page_id \<Rightarrow> bool" where
  "data_id d pid \<longleftrightarrow> valid_no (pid_no pid) \<and> (\<exists>p. fd2path d (pid_fd pid) = Some p \<and> p \<noteq> LOG_FILE_NAME)"

definition mapped :: "page \<Rightarrow> bool" where
  "mapped p \<longleftrightarrow> pid_no (pg_id p) \<noteq> INVALID_PAGE_ID"

definition table_ok :: "storage \<Rightarrow> bool" where
  "table_ok s \<longleftrightarrow>
     (\<forall>pid f. page_table s pid = Some f \<longrightarrow> f < length (pages s) \<and> pg_id (pages s ! f) = pid \<and> data_id (st_disk s) pid) \<and>
     (\<forall>f < length (pages s). mapped (pages s ! f) \<longrightarrow> page_table s (pg_id (pages s ! f)) = Some f)"

definition frames_ok :: "storage \<Rightarrow> bool" where
  "frames_ok s \<longleftrightarrow>
     (\<forall>f < length (pages s). 0 \<le> pin_count (pages s ! f) \<and>
       (\<not> mapped (pages s ! f) \<longrightarrow> \<not> is_dirty (pages s ! f) \<and> pin_count (pages s ! f) = 0)) \<and>
     distinct (free_list s) \<and>
     (\<forall>f \<in> set (free_list s). f < length (pages s) \<and> \<not> mapped (pages s ! f)) \<and>
     lru_ok (lru_of s) \<and>
     (\<forall>f \<in> set (lru_frames (lru_of s)). f < length (pages s) \<and> pin_count (pages s ! f) = 0)"

definition log_ok :: "storage \<Rightarrow> bool" where
  "log_ok s \<longleftrightarrow> (\<exists>base n0 fs bs. log_inv base n0 fs bs (st_disk s, st_log s))"

definition pool_ok :: "storage \<Rightarrow> bool" where
  "pool_ok s \<longleftrightarrow> log_ok s \<and> table_ok s \<and> frames_ok s"

text \<open>What the pool leaves alone, and how the disk may change.\<close>

definition same_pool :: "storage \<Rightarrow> storage \<Rightarrow> bool" where
  "same_pool s s' \<longleftrightarrow> pages s' = pages s \<and> page_table s' = page_table s \<and> free_list s' = free_list s \<and>
     lru_of s' = lru_of s \<and> log_attached s' = log_attached s"

definition id_page :: "disk \<Rightarrow> page_id \<Rightarrow> bytes option" where
  "id_page d pid = disk_page d (pid_fd pid) (pid_no pid)"

definition disk_keeps :: "page_id set \<Rightarrow> storage \<Rightarrow> storage \<Rightarrow> bool" where
  "disk_keeps X s s' \<longleftrightarrow> log_ok s' \<and> persist_lsn (st_log s) \<le> persist_lsn (st_log s') \<and>
     global_lsn (st_log s') = global_lsn (st_log s) \<and>
     fd2pageno (st_disk s') = fd2pageno (st_disk s) \<and>
     (\<forall>pid. data_id (st_disk s) pid \<longrightarrow> data_id (st_disk s') pid \<and>
       (pid \<notin> X \<longrightarrow> (\<forall>b. id_page (st_disk s) pid = Some b \<longrightarrow> id_page (st_disk s') pid = Some b)))"

lemma log_ok_disk: "log_ok s \<Longrightarrow> disk_ok (st_disk s) \<and> log_fd_ok (st_disk s)"
  by (auto simp: log_ok_def log_inv_def)

lemma disk_keeps_refl: "log_ok s \<Longrightarrow> disk_keeps X s s"
  by (simp add: disk_keeps_def)

lemma disk_keeps_trans: "disk_keeps X s s' \<Longrightarrow> disk_keeps X s' s'' \<Longrightarrow> disk_keeps X s s''"
  by (auto simp: disk_keeps_def)

lemma disk_keeps_mono: "disk_keeps X s s' \<Longrightarrow> X \<subseteq> Y \<Longrightarrow> disk_keeps Y s s'"
  by (auto simp: disk_keeps_def)

lemma persist_le_last:
  assumes "log_inv base n0 fs bs s" "log_inv base' n0' (fs @ bs) [] s'" "global_lsn (snd s') = global_lsn (snd s)"
    "n0' = n0"
  shows "persist_lsn (snd s') = global_lsn (snd s) - 1 \<and> persist_lsn (snd s) \<le> persist_lsn (snd s')"
proof -
  have m: "map (\<lambda>r. lsn (hdr r)) (fs @ bs) = [n0..global_lsn (snd s) - 1]"
    using assms(1) by (simp add: log_inv_def)
  have p': "persist_lsn (snd s') = last_lsn (n0 - 1) (fs @ bs)" and p: "persist_lsn (snd s) = last_lsn (n0 - 1) fs"
    and g: "n0 \<le> global_lsn (snd s)" using assms by (auto simp: log_inv_def)
  have eq: "last_lsn (n0 - 1) (fs @ bs) = global_lsn (snd s) - 1"
  proof (cases "fs @ bs = []")
    case True
    then have "[n0..global_lsn (snd s) - 1] = []" using m by simp
    with g have "global_lsn (snd s) = n0" by simp
    with True show ?thesis by (simp add: last_lsn_def)
  next
    case False
    then have "lsn (hdr (last (fs @ bs))) = last [n0..global_lsn (snd s) - 1]"
      using m last_map [OF False, of "\<lambda>r. lsn (hdr r)"] by simp
    moreover have "[n0..global_lsn (snd s) - 1] \<noteq> []" using m False by (metis map_is_Nil_conv)
    then have "last [n0..global_lsn (snd s) - 1] = global_lsn (snd s) - 1"
      by (subst upto_rec2) (auto split: if_splits)
    ultimately show ?thesis using False unfolding last_lsn_def by (simp only: if_False)
  qed
  have "last_lsn (n0 - 1) fs \<le> global_lsn (snd s) - 1"
  proof (cases "fs = []")
    case True then show ?thesis using g by (simp add: last_lsn_def)
  next
    case False
    then have "lsn (hdr (last fs)) \<in> set (map (\<lambda>r. lsn (hdr r)) (fs @ bs))" by simp
    then show ?thesis using False unfolding m by (simp add: last_lsn_def)
  qed
  with p p' eq show ?thesis by simp
qed

lemma write_log_keeps_pages:
  assumes "disk_ok d" "log_fd_ok d" "write_log bs d = (r, d')" "data_id d pid"
  shows "data_id d' pid \<and> id_page d' pid = id_page d pid"
  using write_log_run [OF assms(1-3)] assms(4)
  by (auto simp: data_id_def id_page_def disk_page_def)

lemma flush_keeps_pages:
  assumes "disk_ok d" "log_fd_ok d" "flush_log_to_disk (d, l) = (r, d', l')" "data_id d pid"
  shows "data_id d' pid \<and> id_page d' pid = id_page d pid"
  using write_log_keeps_pages [OF assms(1,2) _ assms(4)] assms(3,4)
  by (auto simp: flush_log_to_disk_def write_out_def split: if_splits prod.splits sum.splits)

lemma flush_fd2pageno:
  assumes "disk_ok d" "log_fd_ok d" "flush_log_to_disk (d, l) = (r, d', l')"
  shows "fd2pageno d' = fd2pageno d"
  using write_log_run [OF assms(1,2)] assms(3)
  by (auto simp: flush_log_to_disk_def write_out_def split: if_splits prod.splits sum.splits)

lemma flush_before_run:
  assumes "log_ok s" "flush_before f s = (r, s')"
  shows "same_pool s s' \<and> disk_keeps {} s s' \<and>
    (\<forall>u. r = Inr u \<longrightarrow> log_attached s \<longrightarrow> get_page_lsn (pages s ! f) < global_lsn (st_log s) \<longrightarrow>
      get_page_lsn (pages s ! f) \<le> persist_lsn (st_log s'))"
proof (cases "log_attached s \<and> get_page_lsn (pages s ! f) > persist_lsn (st_log s)")
  case False
  with assms show ?thesis by (auto simp: flush_before_def same_pool_def disk_keeps_refl)
next
  case True
  obtain d' l' where fl: "flush_log_to_disk (st_disk s, st_log s) = (r, d', l')"
    and s': "s' = s\<lparr>st_disk := d', st_log := l'\<rparr>"
    using assms(2) True by (auto simp: flush_before_def on_log_def zoom_def split: prod.splits)
  obtain base n0 fs bs where i: "log_inv base n0 fs bs (st_disk s, st_log s)"
    using assms(1) by (auto simp: log_ok_def)
  note run = flush_log_run [OF i fl]
  have keep: "data_id (st_disk s) pid \<Longrightarrow> data_id d' pid \<and> id_page d' pid = id_page (st_disk s) pid" for pid
    using flush_keeps_pages [OF _ _ fl] log_ok_disk [OF assms(1)] by blast
  have no: "fd2pageno d' = fd2pageno (st_disk s)"
    using flush_fd2pageno [OF _ _ fl] log_ok_disk [OF assms(1)] by blast
  show ?thesis
  proof (cases r)
    case (Inl e)
    with run keep no s' show ?thesis by (auto simp: same_pool_def disk_keeps_def log_ok_def)
  next
    case (Inr u)
    with run have i': "log_inv base n0 (fs @ bs) [] (d', l')" "global_lsn l' = global_lsn (st_log s)" by auto
    with persist_le_last [OF i, of base n0 "(d', l')"] keep no s' show ?thesis
      by (auto simp: same_pool_def disk_keeps_def log_ok_def)
  qed
qed


section \<open>Writing a page back\<close>

lemma log_ok_write_page:
  assumes "log_ok s" "data_id (st_disk s) pid" "write_page (pid_fd pid) no buf n (st_disk s) = (r, d')"
  shows "log_ok (s\<lparr>st_disk := d'\<rparr>)"
proof -
  from assms(1) obtain base n0 fs bs where i: "log_inv base n0 fs bs (st_disk s, st_log s)" by (auto simp: log_ok_def)
  then have "disk_ok (st_disk s)" by (simp add: log_inv_def)
  note w = write_page_run [OF this assms(3)]
  have "log_inv base n0 fs bs (d', st_log s)"
    using i w assms(2) by (cases r) (auto simp: log_inv_def log_fd_ok_def data_id_def)
  then show ?thesis by (auto simp: log_ok_def)
qed

definition own_page :: "storage \<Rightarrow> nat \<Rightarrow> bytes" where
  "own_page s f = mread (pg_data (pages s ! f)) 0 PAGE_SIZE"

lemma page_offset_nonneg: "valid_no pn \<Longrightarrow> 0 \<le> page_offset pn"
  by (simp add: page_offset_valid) (simp add: valid_no_def)

lemma page_id_eq: "p = q \<longleftrightarrow> pid_fd p = pid_fd q \<and> pid_no p = pid_no q"
  by (cases p; cases q) simp

lemma write_data_page:
  assumes "log_ok s" "data_id (st_disk s) (pg_id p)"
    "on_disk (write_page (pid_fd (pg_id p)) (pid_no (pg_id p)) (pg_data p) PAGE_SIZE) s = (r, s')"
  shows "same_pool s s' \<and> disk_keeps {pg_id p} s s' \<and> r = Inr () \<and> st_log s' = st_log s \<and>
    id_page (st_disk s') (pg_id p) = Some (mread (pg_data p) 0 PAGE_SIZE)"
proof -
  obtain d' where w: "write_page (pid_fd (pg_id p)) (pid_no (pg_id p)) (pg_data p) PAGE_SIZE (st_disk s) = (r, d')"
    and s': "s' = s\<lparr>st_disk := d'\<rparr>"
    using assms(3) by (auto simp: on_disk_def zoom_def split: prod.splits)
  have ok: "disk_ok (st_disk s)" using log_ok_disk assms(1) by blast
  obtain path where path: "fd2path (st_disk s) (pid_fd (pg_id p)) = Some path" "files (st_disk s) path \<noteq> None"
    "map_of (open_fds (st_disk s)) (pid_fd (pg_id p)) = Some path"
    using assms(2) ok by (auto simp: data_id_def disk_ok_def)
  have off: "\<not> page_offset (pid_no (pg_id p)) < 0"
    using assms(2) page_offset_nonneg by (auto simp: data_id_def not_less)
  have r: "r = Inr ()" using w path off by (auto simp: write_page_def)
  note run = write_page_run [OF ok w] and rd = write_page_disk_page [OF ok w [unfolded r]]
  have "valid_no (pid_no (pg_id p))" using assms(2) by (simp add: data_id_def)
  then have "disk_keeps {pg_id p} s s'"
    using log_ok_write_page [OF assms(1,2) w] run rd(2) unfolding s' disk_keeps_def
    by (auto simp: data_id_def id_page_def page_id_eq)
  with r s' rd(1) show ?thesis by (simp add: same_pool_def id_page_def)
qed

text \<open>\<open>cleaned f s s'\<close>: \<open>s'\<close> is \<open>s\<close> with frame \<open>f\<close> marked clean.\<close>

definition cleaned :: "nat \<Rightarrow> storage \<Rightarrow> storage \<Rightarrow> bool" where
  "cleaned f s s' \<longleftrightarrow> same_pool (set_frame f (is_dirty_update (\<lambda>_. False)) s) s'"

lemma same_pool_simps:
  "same_pool s s' \<Longrightarrow> pages s' = pages s \<and> page_table s' = page_table s \<and> free_list s' = free_list s \<and>
     lru_of s' = lru_of s \<and> log_attached s' = log_attached s"
  by (simp add: same_pool_def)

lemma disk_keeps_set_frame [simp]: "disk_keeps X s (set_frame f g s') = disk_keeps X s s'"
  by (simp add: disk_keeps_def set_frame_def log_ok_def)

lemma write_back_run:
  assumes "log_ok s" "data_id (st_disk s) (pg_id (pages s ! f))" "write_back f s = (r, s')"
  shows "disk_keeps {pg_id (pages s ! f)} s s' \<and>
    (case r of Inl e \<Rightarrow> same_pool s s'
     | Inr _ \<Rightarrow> cleaned f s s' \<and> id_page (st_disk s') (pg_id (pages s ! f)) = Some (own_page s f) \<and>
        (log_attached s \<longrightarrow> get_page_lsn (pages s ! f) < global_lsn (st_log s) \<longrightarrow>
          get_page_lsn (pages s ! f) \<le> persist_lsn (st_log s')))"
proof -
  let ?p = "pages s ! f"
  obtain r1 s1 where fb: "flush_before f s = (r1, s1)" by (meson surj_pair)
  note run1 = flush_before_run [OF assms(1) fb]
  then have k1: "disk_keeps {pg_id ?p} s s1" using disk_keeps_mono by blast
  show ?thesis
  proof (cases r1)
    case (Inl e)
    with fb assms(3) have "r = Inl e" "s' = s1" by (auto simp: write_back_def run_simps)
    with run1 k1 show ?thesis by auto
  next
    case (Inr u)
    have same: "pages s1 = pages s" "log_attached s1 = log_attached s" using run1 by (auto simp: same_pool_def)
    have d1: "data_id (st_disk s1) (pg_id ?p)" "log_ok s1" using run1 assms(2) by (auto simp: disk_keeps_def)
    obtain r2 s2 where w: "on_disk (write_page (pid_fd (pg_id ?p)) (pid_no (pg_id ?p)) (pg_data ?p) PAGE_SIZE) s1 = (r2, s2)"
      by (meson surj_pair)
    note run2 = write_data_page [OF d1(2,1) w]
    have s': "r = Inr ()" "s' = set_frame f (is_dirty_update (\<lambda>_. False)) s2"
      using assms(3) fb Inr w run2 same by (auto simp: write_back_def run_simps Let_def)
    have "disk_keeps {pg_id ?p} s s'" using k1 run2 disk_keeps_trans unfolding s'(2) by auto
    moreover have "cleaned f s s'"
      using run1 run2 unfolding s'(2) by (auto simp: cleaned_def same_pool_def set_frame_def)
    moreover have "id_page (st_disk s') (pg_id ?p) = Some (own_page s f)"
      using run2 unfolding s'(2) by (simp add: set_frame_def own_page_def)
    moreover have "st_log s' = st_log s1" using run2 unfolding s'(2) by (simp add: set_frame_def)
    ultimately show ?thesis using run1 s'(1) Inr by auto
  qed
qed

text \<open>The same for the guarded call \<open>if is_dirty then write_back\<close>.\<close>

definition clean_if_dirty :: "nat \<Rightarrow> (storage, unit) op" where
  "clean_if_dirty f = (\<lambda>s. if is_dirty (pages s ! f) then write_back f s else (Inr (), s))"

lemma clean_if_dirty_run:
  assumes "log_ok s" "is_dirty (pages s ! f) \<longrightarrow> data_id (st_disk s) (pg_id (pages s ! f))"
    "clean_if_dirty f s = (r, s')"
  shows "disk_keeps {pg_id (pages s ! f)} s s' \<and>
    (case r of Inl e \<Rightarrow> same_pool s s'
     | Inr _ \<Rightarrow> cleaned f s s' \<and>
        (is_dirty (pages s ! f) \<longrightarrow> id_page (st_disk s') (pg_id (pages s ! f)) = Some (own_page s f)) \<and>
        (\<not> is_dirty (pages s ! f) \<longrightarrow> s' = s))"
proof (cases "is_dirty (pages s ! f)")
  case True
  with assms write_back_run [OF assms(1) _, of f r s'] show ?thesis
    by (auto simp: clean_if_dirty_def split: sum.splits)
next
  case False
  with assms have "r = Inr ()" "s' = s" by (auto simp: clean_if_dirty_def)
  moreover have "cleaned f s s"
    using False unfolding cleaned_def same_pool_def set_frame_def
    by (cases "f < length (pages s)") (auto intro!: nth_equalityI simp: nth_list_update)
  ultimately show ?thesis using False assms(1) by (simp add: disk_keeps_refl)
qed


section \<open>Replacing the page of a frame\<close>

definition view :: "storage \<Rightarrow> page_id \<Rightarrow> bytes option" where
  "view s pid = (case page_table s pid of Some f \<Rightarrow> Some (own_page s f) | None \<Rightarrow> id_page (st_disk s) pid)"

text \<open>Clean unpinned frames, other than the frames in \<open>F\<close>, equal their page on disk.\<close>

definition coherent_but :: "nat set \<Rightarrow> storage \<Rightarrow> bool" where
  "coherent_but F s \<longleftrightarrow> (\<forall>pid f. page_table s pid = Some f \<longrightarrow> f \<notin> F \<longrightarrow> \<not> is_dirty (pages s ! f) \<longrightarrow>
     pin_count (pages s ! f) = 0 \<longrightarrow> id_page (st_disk s) pid = Some (own_page s f))"

text \<open>Every page whose bytes are known keeps them.\<close>

definition view_keeps :: "page_id set \<Rightarrow> storage \<Rightarrow> storage \<Rightarrow> bool" where
  "view_keeps X s s' \<longleftrightarrow> (\<forall>pid b. data_id (st_disk s) pid \<longrightarrow> pid \<notin> X \<longrightarrow> view s pid = Some b \<longrightarrow>
     data_id (st_disk s') pid \<and> view s' pid = Some b)"

lemma table_inj:
  "table_ok s \<Longrightarrow> page_table s p = Some f \<Longrightarrow> page_table s q = Some f \<Longrightarrow> p = q"
  unfolding table_ok_def by metis

lemma data_id_mapped: "data_id d pid \<Longrightarrow> pid_no pid \<noteq> INVALID_PAGE_ID"
  by (auto simp: data_id_def valid_no_def INVALID_PAGE_ID_def)

lemma unmapped_none: "table_ok s \<Longrightarrow> pid_no pid = INVALID_PAGE_ID \<Longrightarrow> page_table s pid = None"
  unfolding table_ok_def using data_id_mapped by (metis option.exhaust)

lemma find_victim_run:
  assumes "frames_ok s" "find_victim_page s = (r, s')"
  shows "frames_ok s' \<and> pages s' = pages s \<and> page_table s' = page_table s \<and> st_disk s' = st_disk s \<and>
    st_log s' = st_log s \<and> log_attached s' = log_attached s \<and>
    (case r of None \<Rightarrow> s' = s \<and> free_list s = [] \<and> lru_frames (lru_of s) = []
     | Some f \<Rightarrow> f < length (pages s) \<and> pin_count (pages s ! f) = 0 \<and> f \<notin> set (free_list s'))"
proof (cases "free_list s")
  case (Cons f fs)
  with assms show ?thesis by (auto simp: find_victim_page_def frames_ok_def)
next
  case Nil
  obtain l' where v: "lru_victim (lru_of s) = (r, l')" and s': "s' = s\<lparr>lru_of := l'\<rparr>"
    using assms(2) Nil by (auto simp: find_victim_page_def split: prod.splits)
  have "lru_ok (lru_of s)" using assms(1) by (simp add: frames_ok_def)
  from lru.victim_set [OF this v] assms(1) show ?thesis
    using Nil unfolding s' by (cases r) (auto simp: frames_ok_def)
qed

lemma pages_set_frame: "pages (set_frame f g s) = (pages s)[f := g (pages s ! f)]"
  by (simp add: set_frame_def)

lemma set_frame_other [simp]:
  "page_table (set_frame f g s) = page_table s" "free_list (set_frame f g s) = free_list s"
  "lru_of (set_frame f g s) = lru_of s" "log_attached (set_frame f g s) = log_attached s"
  "st_disk (set_frame f g s) = st_disk s" "st_log (set_frame f g s) = st_log s"
  "length (pages (set_frame f g s)) = length (pages s)"
  by (simp_all add: set_frame_def)

definition fresh_page :: "page_id \<Rightarrow> page" where
  "fresh_page pid = \<lparr>pg_id = pid, pg_data = mzero, is_dirty = False, pin_count = 0\<rparr>"

lemma update_page_eq:
  assumes "update_page f pid s = (Inr u, s1)" "pid_no pid \<noteq> INVALID_PAGE_ID" "f < length (pages s)"
    "pin_count (pages s ! f) = 0"
    "log_ok s" "is_dirty (pages s ! f) \<longrightarrow> data_id (st_disk s) (pg_id (pages s ! f))"
  obtains s0 where "clean_if_dirty f s = (Inr (), s0)" "disk_keeps {pg_id (pages s ! f)} s s0"
    "st_disk s1 = st_disk s0" "st_log s1 = st_log s0"
    "pages s1 = (pages s)[f := fresh_page pid]"
    "page_table s1 = (page_table s)(pg_id (pages s ! f) := None, pid \<mapsto> f)"
    "free_list s1 = free_list s" "lru_of s1 = lru_of s" "log_attached s1 = log_attached s"
proof -
  obtain r0 s0 where c: "clean_if_dirty f s = (r0, s0)" by (meson surj_pair)
  then have r0: "r0 = Inr ()" using assms(1)
    by (cases r0) (auto simp: update_page_def andThen_def clean_if_dirty_def)
  note run = clean_if_dirty_run [OF assms(5,6) c]
  have cl: "cleaned f s s0" "disk_keeps {pg_id (pages s ! f)} s s0" using run r0 by auto
  have f0: "pages s0 ! f = (pages s ! f)\<lparr>is_dirty := False\<rparr>"
    using cl(1) assms(3) by (simp add: cleaned_def same_pool_def set_frame_def)
  have "s1 = set_frame f (\<lambda>p. reset_memory (p\<lparr>pg_id := pid\<rparr>))
      (s0\<lparr>page_table := (page_table s0)(pg_id (pages s0 ! f) := None, pid \<mapsto> f)\<rparr>)"
    using assms(1,2) c r0 by (simp add: update_page_def andThen_def clean_if_dirty_def [symmetric] modify_def Let_def
      clean_if_dirty_def [THEN fun_cong, symmetric])
  with c r0 cl f0 assms(3,4) show thesis
    by (cases "pages s ! f")
      (rule that [of s0]; simp add: cleaned_def same_pool_def pages_set_frame reset_memory_def fresh_page_def)
qed

lemma update_page_run:
  assumes "pool_ok s" "coherent_but {} s" "f < length (pages s)" "pin_count (pages s ! f) = 0"
    "f \<notin> set (free_list s)" "data_id (st_disk s) pid" "page_table s pid = None"
    "update_page f pid s = (Inr u, s1)"
  shows "pool_ok s1 \<and> coherent_but {f} s1 \<and> view_keeps {pid} s s1 \<and> page_table s1 pid = Some f \<and>
    pages s1 ! f = fresh_page pid \<and> f < length (pages s1) \<and> data_id (st_disk s1) pid \<and>
    (\<forall>b. id_page (st_disk s) pid = Some b \<longrightarrow> id_page (st_disk s1) pid = Some b) \<and>
    (\<forall>q g. page_table s q = Some g \<longrightarrow> 0 < pin_count (pages s ! g) \<longrightarrow>
      page_table s1 q = Some g \<and> pages s1 ! g = pages s ! g)"
proof -
  let ?old = "pg_id (pages s ! f)"
  have ok: "log_ok s" "table_ok s" "frames_ok s" using assms(1) by (auto simp: pool_ok_def)
  have dirty: "is_dirty (pages s ! f) \<longrightarrow> data_id (st_disk s) ?old"
    using ok(2,3) assms(3) by (auto simp: table_ok_def frames_ok_def)
  from update_page_eq [OF assms(8) data_id_mapped [OF assms(6)] assms(3,4) ok(1) dirty]
  obtain s0 where c: "clean_if_dirty f s = (Inr (), s0)" "disk_keeps {?old} s s0"
    and s1: "st_disk s1 = st_disk s0" "st_log s1 = st_log s0" "pages s1 = (pages s)[f := fresh_page pid]"
    "page_table s1 = (page_table s)(?old := None, pid \<mapsto> f)"
    "free_list s1 = free_list s" "lru_of s1 = lru_of s" "log_attached s1 = log_attached s" by blast
  have old: "page_table s ?old = Some f \<Longrightarrow> id_page (st_disk s1) ?old = Some (own_page s f)"
  proof -
    assume m: "page_table s ?old = Some f"
    note run = clean_if_dirty_run [OF ok(1) dirty c(1)]
    show ?thesis
    proof (cases "is_dirty (pages s ! f)")
      case True with run s1 show ?thesis by simp
    next
      case False
      then have "s0 = s" using run by simp
      with False m assms(2,4) s1(1) show ?thesis by (simp add: coherent_but_def)
    qed
  qed
  have unm: "page_table s ?old = Some f \<or> (page_table s ?old = None \<and> \<not> mapped (pages s ! f))"
    using ok(2) assms(3) unmapped_none [OF ok(2), of ?old] by (auto simp: table_ok_def mapped_def)
  then have ne: "?old \<noteq> pid" using assms(6,7) data_id_mapped by (auto simp: mapped_def)
  have keep: "data_id (st_disk s) q \<Longrightarrow> data_id (st_disk s1) q" for q
    using c(2) s1(1) by (auto simp: disk_keeps_def)
  have keepb: "data_id (st_disk s) q \<Longrightarrow> q \<noteq> ?old \<Longrightarrow> id_page (st_disk s) q = Some b \<Longrightarrow> id_page (st_disk s1) q = Some b" for q b
    using c(2) s1(1) by (auto simp: disk_keeps_def)
  have onlyf: "page_table s q = Some f \<Longrightarrow> q = ?old" for q using ok(2) by (auto simp: table_ok_def)
  have log: "log_ok s1" using c(2) s1(1,2) by (simp add: disk_keeps_def log_ok_def)
  have tab1: "q = pid \<and> g = f \<or> (q \<noteq> pid \<and> g \<noteq> f \<and> page_table s q = Some g)" if "page_table s1 q = Some g" for q g
    using that s1(4) onlyf by (auto split: if_splits)
  have tab2: "page_table s1 q = Some g" if "q \<noteq> ?old" "page_table s q = Some g" for q g
    using that s1(4) assms(7) by auto
  have tab: "table_ok s1"
    unfolding table_ok_def
  proof (intro conjI allI impI, goal_cases)
    case (1 q g)
    with tab1 [OF 1] ok(2) s1(3) assms(3) show ?case by (auto simp: table_ok_def fresh_page_def)
  next
    case (2 q g)
    with tab1 [OF 2] ok(2) s1(3) assms(3) show ?case by (auto simp: table_ok_def fresh_page_def)
  next
    case (3 q g)
    with tab1 [OF 3] ok(2) keep assms(6) show ?case by (auto simp: table_ok_def)
  next
    case (4 g)
    show ?case
    proof (cases "g = f")
      case True
      with s1(3,4) assms(3) show ?thesis by (simp add: fresh_page_def)
    next
      case False
      with 4 s1(3) ok(2) have "page_table s (pg_id (pages s1 ! g)) = Some g" by (auto simp: table_ok_def)
      moreover have "pg_id (pages s1 ! g) \<noteq> ?old" using calculation unm False by auto
      ultimately show ?thesis by (rule tab2 [rotated])
    qed
  qed
  have fr: "frames_ok s1"
  proof -
    have p: "pages s1 ! g = (if g = f then fresh_page pid else pages s ! g)" for g using s1(3) assms(3) by simp
    have "mapped (fresh_page pid)" "pin_count (fresh_page pid) = 0"
      using data_id_mapped [OF assms(6)] by (simp_all add: fresh_page_def mapped_def)
    then show ?thesis
      using ok(3) assms(5) unfolding frames_ok_def p by (auto simp: s1)
  qed
  have coh: "coherent_but {f} s1"
    unfolding coherent_but_def
  proof (intro allI impI)
    fix q g assume q: "page_table s1 q = Some g" "g \<notin> {f}" "\<not> is_dirty (pages s1 ! g)" "pin_count (pages s1 ! g) = 0"
    then have "page_table s q = Some g" "q \<noteq> ?old" using s1(4) by (auto split: if_splits)
    with q assms(2) s1(3) ok(2) show "id_page (st_disk s1) q = Some (own_page s1 g)"
      by (intro keepb) (auto simp: coherent_but_def own_page_def table_ok_def)
  qed
  have view: "view_keeps {pid} s s1"
    unfolding view_keeps_def
  proof (intro allI impI)
    fix q b assume q: "data_id (st_disk s) q" "q \<notin> {pid}" "view s q = Some b"
    show "data_id (st_disk s1) q \<and> view s1 q = Some b"
    proof (cases "q = ?old")
      case True
      then have "page_table s q = Some f" using unm q(1) data_id_mapped by (auto simp: mapped_def)
      with q True old s1(4) keep show ?thesis by (simp add: view_def)
    next
      case False
      show ?thesis
      proof (cases "page_table s q")
        case None
        with q False keep keepb s1(4) show ?thesis by (simp add: view_def)
      next
        case (Some g)
        then have "g \<noteq> f" using onlyf False by auto
        with Some q False keep s1(3,4) show ?thesis by (simp add: view_def own_page_def)
      qed
    qed
  qed
  have pinned: "page_table s q = Some g \<Longrightarrow> 0 < pin_count (pages s ! g) \<Longrightarrow>
      page_table s1 q = Some g \<and> pages s1 ! g = pages s ! g" for q g
  proof -
    assume q: "page_table s q = Some g" "0 < pin_count (pages s ! g)"
    then have "g \<noteq> f" "q \<noteq> ?old" using assms(4) unm by auto
    with q tab2 s1(3) show ?thesis by simp
  qed
  have fin: "page_table s1 pid = Some f" "pages s1 ! f = fresh_page pid" "f < length (pages s1)"
    using s1(3,4) assms(3) by auto
  show ?thesis
    using log tab fr coh view pinned fin keep [OF assms(6)] keepb [OF assms(6)] ne by (auto simp: pool_ok_def)
qed


section \<open>Fetching and allocating\<close>

lemma pin_count_update_eq: "pin_count_update k p = p\<lparr>pin_count := k (pin_count p)\<rparr>"
  by (cases p) simp

lemma pin_frame_pages:
  "pages (pin_frame f k s) = (pages s)[f := (pages s ! f)\<lparr>pin_count := k (pin_count (pages s ! f))\<rparr>]"
  "page_table (pin_frame f k s) = page_table s" "free_list (pin_frame f k s) = free_list s"
  "lru_of (pin_frame f k s) = lru_pin f (lru_of s)" "log_attached (pin_frame f k s) = log_attached s"
  "st_disk (pin_frame f k s) = st_disk s" "st_log (pin_frame f k s) = st_log s"
  by (simp_all add: pin_frame_def set_frame_def) (metis pin_count_update_eq)

lemma table_ok_pages:
  assumes "table_ok s" "length (pages s') = length (pages s)"
    "\<And>g. g < length (pages s) \<Longrightarrow> pg_id (pages s' ! g) = pg_id (pages s ! g)"
    "page_table s' = page_table s" "st_disk s' = st_disk s"
  shows "table_ok s'"
  using assms unfolding table_ok_def mapped_def by metis

lemma pin_frame_ok:
  assumes "pool_ok s" "f < length (pages s)" "mapped (pages s ! f)" "0 \<le> k (pin_count (pages s ! f))"
  shows "pool_ok (pin_frame f k s)"
proof -
  have ok: "log_ok s" "table_ok s" "frames_ok s" using assms(1) by (auto simp: pool_ok_def)
  have pg: "pages (pin_frame f k s) ! g =
      (if g = f then (pages s ! f)\<lparr>pin_count := k (pin_count (pages s ! f))\<rparr> else pages s ! g)" for g
    using assms(2) by (simp add: pin_frame_pages)
  have "log_ok (pin_frame f k s)" using ok(1) by (simp add: log_ok_def pin_frame_pages)
  moreover have "table_ok (pin_frame f k s)"
    by (rule table_ok_pages [OF ok(2)], use pg in simp_all) (simp_all add: pin_frame_pages)
  moreover have "frames_ok (pin_frame f k s)"
  proof -
    have l: "lru_ok (lru_pin f (lru_of s))" "set (lru_frames (lru_pin f (lru_of s))) = set (lru_frames (lru_of s)) - {f}"
      using ok(3) by (auto simp: frames_ok_def lru.pin_ok lru.pin_set)
    have "f \<notin> set (free_list s)" using ok(3) assms(3) by (auto simp: frames_ok_def)
    with l ok(3) assms(3,4) show ?thesis
      unfolding frames_ok_def pg by (auto simp: pin_frame_pages mapped_def)
  qed
  ultimately show ?thesis by (simp add: pool_ok_def)
qed

lemma fetch_read_run:
  assumes "log_ok s" "f < length (pages s)" "fetch_read f pid s = (Inr u, s')" "pages s ! f = fresh_page pid"
  shows "\<exists>b. id_page (st_disk s) pid = Some b \<and>
    s' = set_frame f (pg_data_update (\<lambda>_. mwrite mzero 0 b)) s \<and> mread (mwrite mzero 0 b) 0 PAGE_SIZE = b"
proof -
  have ok: "disk_ok (st_disk s)" using log_ok_disk assms(1) by blast
  obtain buf where r: "read_page (st_disk s) (pid_fd pid) (pid_no pid) PAGE_SIZE mzero = (Inr (), buf)"
    and s': "s' = set_frame f (pg_data_update (\<lambda>_. buf)) s"
    using assms(3,4) by (auto simp: fetch_read_def fresh_page_def split: prod.splits)
  from r obtain b where b: "disk_page (st_disk s) (pid_fd pid) (pid_no pid) = Some b" "buf = mwrite mzero 0 b"
    by (auto simp: read_page_run [OF ok])
  then have "length b = PAGE_SIZE" by (simp add: length_disk_page)
  with b s' show ?thesis by (auto simp: id_page_def mem_simps)
qed

text \<open>
  What every public function promises about the pages a client knows: \<open>known s st\<close> says that the
  pool and the disk together hold the bytes \<open>st\<close>.
\<close>

definition known :: "storage \<Rightarrow> (page_id \<rightharpoonup> bytes) \<Rightarrow> bool" where
  "known s st \<longleftrightarrow> pool_ok s \<and> coherent_but {} s \<and>
     (\<forall>pid b. st pid = Some b \<longrightarrow> data_id (st_disk s) pid \<and> view s pid = Some b)"

definition pins_keep :: "page_id set \<Rightarrow> storage \<Rightarrow> storage \<Rightarrow> bool" where
  "pins_keep X s s' \<longleftrightarrow> (\<forall>q g. q \<notin> X \<longrightarrow> page_table s q = Some g \<longrightarrow> 0 < pin_count (pages s ! g) \<longrightarrow>
     page_table s' q = Some g \<and> pin_count (pages s' ! g) = pin_count (pages s ! g) \<and>
     pg_data (pages s' ! g) = pg_data (pages s ! g))"

lemma fetch_cached_run:
  assumes "known s st" "page_table s pid = Some f"
  shows "known (pin_frame f (\<lambda>c. c + 1) s) st \<and> pins_keep {pid} s (pin_frame f (\<lambda>c. c + 1) s)"
proof -
  have ok: "pool_ok s" "table_ok s" "frames_ok s" using assms(1) by (auto simp: known_def pool_ok_def)
  have f: "f < length (pages s)" "pg_id (pages s ! f) = pid" "mapped (pages s ! f)"
    using ok(2) assms(2) data_id_mapped by (auto simp: table_ok_def mapped_def)
  let ?s = "pin_frame f (\<lambda>c. c + 1) s"
  have pg: "pages ?s ! g = (if g = f then (pages s ! f)\<lparr>pin_count := pin_count (pages s ! f) + 1\<rparr> else pages s ! g)" for g
    using f(1) by (simp add: pin_frame_pages)
  have own: "own_page ?s g = own_page s g" for g by (simp add: own_page_def pg)
  have pin: "0 \<le> pin_count (pages s ! f)" using ok(3) f(1) by (simp add: frames_ok_def)
  have "pool_ok ?s" by (rule pin_frame_ok [OF ok(1) f(1,3)]) (use pin in simp)
  moreover have "coherent_but {} ?s"
    using assms(1) pin unfolding known_def coherent_but_def own pg by (auto simp: pin_frame_pages)
  moreover have "view ?s q = view s q" for q
    by (simp add: view_def own pin_frame_pages split: option.split)
  moreover have "pins_keep {pid} s ?s"
    using table_inj [OF ok(2) assms(2)] unfolding pins_keep_def pg by (auto simp: pin_frame_pages)
  ultimately show ?thesis using assms(1) by (simp add: known_def pin_frame_pages)
qed

text \<open>Setting up the page of the victim frame: reading it in, or leaving it zero.\<close>

lemma install_run:
  assumes "pool_ok s1" "coherent_but {f} s1" "view_keeps {pid} s s1" "page_table s1 pid = Some f"
    "pages s1 ! f = fresh_page pid" "f < length (pages s1)" "length b = PAGE_SIZE"
    "\<forall>q c. st q = Some c \<longrightarrow> data_id (st_disk s) q \<and> view s q = Some c" "data_id (st_disk s1) pid"
    "buf = (if z then mzero else mwrite mzero 0 b)" "z \<longrightarrow> b = replicate PAGE_SIZE 0"
    "s2 = pin_frame f (\<lambda>_. 1) (set_frame f (pg_data_update (\<lambda>_. buf)) s1)"
  shows "known s2 (st(pid := Some b)) \<and> page_table s2 pid = Some f \<and> own_page s2 f = b \<and>
    pages s2 ! f = \<lparr>pg_id = pid, pg_data = buf, is_dirty = False, pin_count = 1\<rparr> \<and>
    (\<forall>g. g \<noteq> f \<longrightarrow> pages s2 ! g = pages s1 ! g) \<and> page_table s2 = page_table s1"
proof -
  have ok: "table_ok s1" "frames_ok s1" "log_ok s1" using assms(1) by (auto simp: pool_ok_def)
  let ?s1 = "set_frame f (pg_data_update (\<lambda>_. buf)) s1"
  have pg1: "pages ?s1 ! g = (if g = f then (pages s1 ! f)\<lparr>pg_data := buf\<rparr> else pages s1 ! g)" for g
    using assms(6) by (simp add: pages_set_frame)
  have pg: "pages s2 ! g = (if g = f then \<lparr>pg_id = pid, pg_data = buf, is_dirty = False, pin_count = 1\<rparr> else pages s1 ! g)" for g
    using assms(5,6) by (simp add: assms(12) pin_frame_pages pages_set_frame fresh_page_def)
  have rest: "page_table s2 = page_table s1" "st_disk s2 = st_disk s1" by (simp_all add: assms(12) pin_frame_pages)
  have "pool_ok ?s1"
    unfolding pool_ok_def
  proof (intro conjI)
    show "log_ok ?s1" using ok(3) by (simp add: log_ok_def)
    show "table_ok ?s1" by (rule table_ok_pages [OF ok(1)]) (simp_all add: pg1 [unfolded pages_set_frame] pages_set_frame)
    show "frames_ok ?s1" using ok(2) unfolding frames_ok_def pg1 by (auto simp: mapped_def)
  qed
  moreover have "mapped (pages ?s1 ! f)"
    using data_id_mapped [OF assms(9)] by (simp add: pg1 mapped_def assms(5) fresh_page_def)
  ultimately have pok: "pool_ok s2" unfolding assms(12) by (intro pin_frame_ok) (simp_all add: assms(6))
  have own: "own_page s2 g = (if g = f then b else own_page s1 g)" for g
  proof -
    have "mread mzero 0 PAGE_SIZE = replicate PAGE_SIZE 0"
      by (simp add: mread_def mzero_def map_replicate_const)
    then have "mread buf 0 PAGE_SIZE = b"
      using assms(7,10,11) by (cases z) (simp_all add: mem_simps)
    then show ?thesis by (simp add: own_page_def pg)
  qed
  have coh: "coherent_but {} s2"
    using assms(2) unfolding coherent_but_def own rest by (auto simp: pg)
  have onlyf: "page_table s1 q = Some f \<Longrightarrow> q = pid" for q using table_inj [OF ok(1) _ assms(4)] .
  have "data_id (st_disk s2) q \<and> view s2 q = Some c" if "(st(pid := Some b)) q = Some c" for q c
  proof (cases "q = pid")
    case True
    with that assms(4,9) own rest show ?thesis by (simp add: view_def)
  next
    case False
    then have "st q = Some c" using that by simp
    with assms(3,8) False have "data_id (st_disk s1) q \<and> view s1 q = Some c" by (auto simp: view_keeps_def)
    with onlyf False own rest show ?thesis by (auto simp: view_def split: option.splits)
  qed
  with pok coh own pg rest assms(4) show ?thesis by (auto simp: known_def)
qed


lemma pin_set_frame_other:
  "g \<noteq> f \<Longrightarrow> pages (set_frame f h s) ! g = pages s ! g"
  by (simp add: set_frame_def)

lemma known_parts:
  "known s st \<Longrightarrow> pool_ok s \<and> log_ok s \<and> table_ok s \<and> frames_ok s \<and> coherent_but {} s"
  by (simp add: known_def pool_ok_def)

text \<open>After the victim is found, its frame only left the free list or the replacer.\<close>

lemma victim_known:
  assumes "known s st" "find_victim_page s = (Some f, s')"
  shows "known s' st \<and> pages s' = pages s \<and> page_table s' = page_table s \<and> st_disk s' = st_disk s \<and>
    f < length (pages s') \<and> pin_count (pages s' ! f) = 0 \<and> f \<notin> set (free_list s')"
proof -
  note fv = find_victim_run [OF _ assms(2)]
  from known_parts [OF assms(1)] fv have "frames_ok s'" "pages s' = pages s" "page_table s' = page_table s"
    "st_disk s' = st_disk s" "st_log s' = st_log s" "f < length (pages s)" "pin_count (pages s ! f) = 0"
    "f \<notin> set (free_list s')" by auto
  moreover from this have "own_page s' = own_page s" "view s' = view s"
    by (auto simp: fun_eq_iff view_def own_page_def split: option.split)
  moreover from calculation assms(1) have "known s' st"
    unfolding known_def pool_ok_def log_ok_def table_ok_def coherent_but_def by simp
  ultimately show ?thesis by simp
qed

lemma fetch_run:
  assumes "known s st" "st pid = Some b" "fetch_page pid s = (Inr (Some f), s2)"
  shows "known s2 st \<and> page_table s2 pid = Some f \<and> f < length (pages s2) \<and> own_page s2 f = b \<and>
    0 < pin_count (pages s2 ! f) \<and> pins_keep {pid} s s2"
proof (cases "page_table s pid")
  case (Some g)
  have s2: "g = f" "s2 = pin_frame f (\<lambda>c. c + 1) s" using assms(3) Some by (auto simp: fetch_page_def)
  have f: "f < length (pages s)" "0 \<le> pin_count (pages s ! f)"
    using known_parts [OF assms(1)] Some s2(1) by (auto simp: table_ok_def frames_ok_def)
  have "own_page s2 f = own_page s f" using f(1) by (simp add: own_page_def s2(2) pin_frame_pages)
  moreover have "view s pid = Some b" using assms(1,2) by (simp add: known_def)
  then have "own_page s f = b" using Some s2(1) by (simp add: view_def)
  ultimately show ?thesis
    using fetch_cached_run [OF assms(1) Some] Some s2 f by (simp add: pin_frame_pages)
next
  case None
  obtain s' where v: "find_victim_page s = (Some f, s')"
    using assms(3) None
    by (auto simp: fetch_page_def andThen_def ret_def modify_def split: prod.splits option.splits sum.splits)
  note vk = victim_known [OF assms(1) v]
  have "data_id (st_disk s) pid" "view s pid = Some b" using assms(1,2) by (auto simp: known_def)
  then have d: "data_id (st_disk s') pid" "page_table s' pid = None" "id_page (st_disk s') pid = Some b"
    using None vk by (auto simp: view_def)
  obtain u s1 where up: "update_page f pid s' = (Inr u, s1)" and rest:
    "andThen (fetch_read f pid) (\<lambda>_. andThen (modify (pin_frame f (\<lambda>_. 1))) (\<lambda>_. ret (Some f))) s1 = (Inr (Some f), s2)"
    using assms(3) None v by (auto simp: fetch_page_def andThen_eq_Inr)
  have vp: "pool_ok s'" "coherent_but {} s'" "f < length (pages s')" "pin_count (pages s' ! f) = 0" "f \<notin> set (free_list s')"
    using vk by (auto simp: known_def)
  note u = update_page_run [OF vp d(1,2) up]
  obtain w s1' where rd: "fetch_read f pid s1 = (Inr w, s1')" and s2: "s2 = pin_frame f (\<lambda>_. 1) s1'"
    using rest by (auto simp: andThen_eq_Inr modify_def ret_def)
  from u have "log_ok s1" "f < length (pages s1)" "pages s1 ! f = fresh_page pid" by (auto simp: pool_ok_def)
  from fetch_read_run [OF this(1,2) rd this(3)] u d(3)
  have b: "s1' = set_frame f (pg_data_update (\<lambda>_. mwrite mzero 0 b)) s1" "length b = PAGE_SIZE"
    by (auto simp: id_page_def length_disk_page)
  have inst: "known s2 (st(pid := Some b)) \<and> page_table s2 pid = Some f \<and> own_page s2 f = b \<and>
    pages s2 ! f = \<lparr>pg_id = pid, pg_data = mwrite mzero 0 b, is_dirty = False, pin_count = 1\<rparr> \<and>
    (\<forall>g. g \<noteq> f \<longrightarrow> pages s2 ! g = pages s1 ! g) \<and> page_table s2 = page_table s1"
    by (rule install_run [where s = s' and z = False and ?s1.0 = s1])
      (use u b vk in \<open>auto simp: s2 known_def\<close>)
  have "st(pid := Some b) = st" using assms(2) by auto
  moreover have "pins_keep {pid} s s2"
    unfolding pins_keep_def
  proof (intro allI impI)
    fix q g assume q: "q \<notin> {pid}" "page_table s q = Some g" "0 < pin_count (pages s ! g)"
    then have *: "page_table s1 q = Some g" "pages s1 ! g = pages s ! g" using u vk by auto
    have "g \<noteq> f" using q(3) vk by auto
    with * inst show "page_table s2 q = Some g \<and> pin_count (pages s2 ! g) = pin_count (pages s ! g) \<and>
      pg_data (pages s2 ! g) = pg_data (pages s ! g)" by auto
  qed
  moreover have "f < length (pages s2)" using inst by (auto simp: known_def pool_ok_def table_ok_def)
  ultimately show ?thesis using inst by auto
qed


lemma frames_ok_pages:
  assumes "frames_ok s" "length (pages s') = length (pages s)"
    "\<And>g. g < length (pages s) \<Longrightarrow> pg_id (pages s' ! g) = pg_id (pages s ! g) \<and>
      pin_count (pages s' ! g) = pin_count (pages s ! g) \<and>
      (is_dirty (pages s' ! g) \<longrightarrow> is_dirty (pages s ! g) \<or> mapped (pages s ! g))"
    "free_list s' = free_list s" "lru_of s' = lru_of s"
  shows "frames_ok s'"
  using assms unfolding frames_ok_def mapped_def by metis

lemma table_ok_keeps:
  assumes "table_ok s" "pages s' = pages s" "page_table s' = page_table s" "disk_keeps X s s'"
  shows "table_ok s'"
  using assms unfolding table_ok_def disk_keeps_def by auto

lemma cleaned_known:
  assumes "known s st" "page_table s pid = Some f" "cleaned f s s'" "disk_keeps {pid} s s'"
    "id_page (st_disk s') pid = Some (own_page s f)"
  shows "known s' st \<and> pins_keep {} s s'"
proof -
  note ok = known_parts [OF assms(1)]
  have f: "f < length (pages s)" "pg_id (pages s ! f) = pid" using ok assms(2) by (auto simp: table_ok_def)
  let ?s1 = "set_frame f (is_dirty_update (\<lambda>_. False)) s"
  have sp: "pages s' = pages ?s1" "page_table s' = page_table s" "free_list s' = free_list s" "lru_of s' = lru_of s"
    using assms(3) by (auto simp: cleaned_def same_pool_def)
  have pg: "pages s' ! g = (if g = f then (pages s ! f)\<lparr>is_dirty := False\<rparr> else pages s ! g)" for g
    using f(1) by (simp add: sp(1) pages_set_frame)
  have len: "length (pages s') = length (pages s)" by (simp add: sp(1))
  have own: "own_page s' = own_page s" by (simp add: fun_eq_iff own_page_def pg)
  have onlyf: "page_table s q = Some f \<Longrightarrow> q = pid" for q using table_inj ok assms(2) by blast
  have tab1: "table_ok ?s1"
    by (rule table_ok_pages) (use ok f in \<open>auto simp: pages_set_frame nth_list_update\<close>)
  have "table_ok s'"
    by (rule table_ok_keeps [OF tab1, where X = "{pid}"]) (use sp assms(4) in \<open>auto simp: disk_keeps_def\<close>)
  moreover have "frames_ok s'"
    by (rule frames_ok_pages [of s]) (use ok sp(3,4) len pg in auto)
  moreover have "log_ok s'" using assms(4) by (simp add: disk_keeps_def)
  moreover have "coherent_but {} s'"
    unfolding coherent_but_def
  proof (intro allI impI)
    fix q g assume q: "page_table s' q = Some g" "g \<notin> {}" "\<not> is_dirty (pages s' ! g)" "pin_count (pages s' ! g) = 0"
    show "id_page (st_disk s') q = Some (own_page s' g)"
    proof (cases "g = f")
      case True
      with q(1) sp(2) onlyf assms(5) own show ?thesis by auto
    next
      case False
      with q sp(2) pg ok have "id_page (st_disk s) q = Some (own_page s g)" by (auto simp: coherent_but_def)
      moreover have "data_id (st_disk s) q" "q \<noteq> pid" using q(1) sp(2) ok False assms(2) by (auto simp: table_ok_def)
      ultimately show ?thesis using assms(4) own by (auto simp: disk_keeps_def)
    qed
  qed
  moreover have "data_id (st_disk s') q \<and> view s' q = Some b" if "st q = Some b" for q b
  proof -
    have q: "data_id (st_disk s) q" "view s q = Some b" using that assms(1) by (auto simp: known_def)
    show ?thesis
    proof (cases "page_table s q")
      case None
      with assms(2) have "q \<noteq> pid" by auto
      with None q assms(4) sp(2) show ?thesis by (auto simp: view_def disk_keeps_def)
    next
      case (Some g)
      with q assms(4) sp(2) own show ?thesis by (auto simp: view_def disk_keeps_def)
    qed
  qed
  moreover have "pins_keep {} s s'" using sp(2) by (auto simp: pins_keep_def pg)
  ultimately show ?thesis by (simp add: known_def pool_ok_def)
qed

lemma write_back_known:
  assumes "known s st" "page_table s pid = Some f" "write_back f s = (Inr u, s')"
  shows "known s' st \<and> pins_keep {} s s' \<and> length (pages s') = length (pages s) \<and> page_table s' = page_table s \<and>
    pages s' ! f = (pages s ! f)\<lparr>is_dirty := False\<rparr>"
proof -
  note ok = known_parts [OF assms(1)]
  have f: "f < length (pages s)" "pg_id (pages s ! f) = pid" "data_id (st_disk s) pid"
    using ok assms(2) by (auto simp: table_ok_def)
  have "log_ok s" "data_id (st_disk s) (pg_id (pages s ! f))" using ok f by auto
  note run = write_back_run [OF this assms(3)]
  then have "cleaned f s s'" by simp
  then have "length (pages s') = length (pages s)" "page_table s' = page_table s"
    "pages s' ! f = (pages s ! f)\<lparr>is_dirty := False\<rparr>"
    using f(1) by (auto simp: cleaned_def same_pool_def pages_set_frame)
  with cleaned_known [OF assms(1,2), of s'] run f(2) show ?thesis by simp
qed

lemma clean_if_dirty_known:
  assumes "known s st" "page_table s pid = Some f" "clean_if_dirty f s = (Inr u, s')"
  shows "known s' st \<and> pins_keep {} s s' \<and> length (pages s') = length (pages s) \<and> page_table s' = page_table s \<and>
    pages s' ! f = (pages s ! f)\<lparr>is_dirty := False\<rparr> \<and> (\<forall>g. g \<noteq> f \<longrightarrow> pages s' ! g = pages s ! g) \<and>
    (is_dirty (pages s ! f) \<longrightarrow> id_page (st_disk s') pid = Some (own_page s f))"
proof -
  note ok = known_parts [OF assms(1)]
  have f: "f < length (pages s)" "pg_id (pages s ! f) = pid" "data_id (st_disk s) pid"
    using ok assms(2) by (auto simp: table_ok_def)
  have "log_ok s" "is_dirty (pages s ! f) \<longrightarrow> data_id (st_disk s) (pg_id (pages s ! f))" using ok f by auto
  note run = clean_if_dirty_run [OF this assms(3)]
  then have cl: "cleaned f s s'" by simp
  then have pg: "length (pages s') = length (pages s)" "page_table s' = page_table s"
    "pages s' ! f = (pages s ! f)\<lparr>is_dirty := False\<rparr>" "\<forall>g. g \<noteq> f \<longrightarrow> pages s' ! g = pages s ! g"
    using f(1) by (auto simp: cleaned_def same_pool_def pages_set_frame)
  show ?thesis
  proof (cases "is_dirty (pages s ! f)")
    case True
    with cleaned_known [OF assms(1,2) cl] run f(2) pg show ?thesis by simp
  next
    case False
    with run have "s' = s" by simp
    with False assms(1) pg show ?thesis by (simp add: pins_keep_def)
  qed
qed

lemma pins_keep_trans:
  "pins_keep X s s' \<Longrightarrow> pins_keep X s' s'' \<Longrightarrow> pins_keep X s s''"
  unfolding pins_keep_def by metis

lemma pins_keep_refl: "pins_keep X s s"
  by (simp add: pins_keep_def)

lemma pins_keep_mono: "pins_keep X s s' \<Longrightarrow> X \<subseteq> Y \<Longrightarrow> pins_keep Y s s'"
  by (auto simp: pins_keep_def)

lemma flush_frames_known:
  "known s st \<Longrightarrow> \<forall>f \<in> set fs. f < length (pages s) \<Longrightarrow> for_frames (flush_frame fd) fs s = (Inr u, s') \<Longrightarrow>
    known s' st \<and> pins_keep {} s s' \<and> length (pages s') = length (pages s)"
proof (induction fs arbitrary: s)
  case Nil
  then show ?case by (simp add: run_simps pins_keep_refl)
next
  case (Cons f fs)
  then obtain v s1 where f: "flush_frame fd f s = (Inr v, s1)" "for_frames (flush_frame fd) fs s1 = (Inr u, s')"
    by (auto simp: andThen_eq_Inr)
  have "known s1 st \<and> pins_keep {} s s1 \<and> length (pages s1) = length (pages s)"
  proof (cases "of_file fd (pages s ! f) \<and> is_dirty (pages s ! f)")
    case True
    then have "page_table s (pg_id (pages s ! f)) = Some f"
      using known_parts [OF Cons.prems(1)] Cons.prems(2) by (auto simp: table_ok_def of_file_def mapped_def)
    with write_back_known [OF Cons.prems(1) this] f(1) True show ?thesis by (simp add: flush_frame_def)
  next
    case False
    then have "s1 = s" using f(1) by (auto simp: flush_frame_def)
    then show ?thesis using Cons.prems(1) by (simp add: pins_keep_refl)
  qed
  with Cons.IH [of s1] Cons.prems(2) f(2) pins_keep_trans show ?case by fastforce
qed

section \<open>Unpinning, deleting and writing\<close>

lemma set_frame_known:
  assumes "known s st" "page_table s pid = Some f"
    "pg_id (g (pages s ! f)) = pid" "0 \<le> pin_count (g (pages s ! f))"
    "0 < pin_count (pages s ! f)"
    "lru' = (if pin_count (g (pages s ! f)) = 0 then lru_unpin f (lru_of s) else lru_of s)"
    "mread (pg_data (g (pages s ! f))) 0 PAGE_SIZE = b"
    "is_dirty (g (pages s ! f)) \<or> 0 < pin_count (g (pages s ! f)) \<or> id_page (st_disk s) pid = Some b"
    "s' = (set_frame f g s)\<lparr>lru_of := lru'\<rparr>"
    "st' = (if st pid = None then st else st(pid \<mapsto> b))"
  shows "known s' st' \<and> pins_keep {pid} s s'"
proof -
  note ok = known_parts [OF assms(1)]
  have f: "f < length (pages s)" "pg_id (pages s ! f) = pid" "data_id (st_disk s) pid"
    using ok assms(2) by (auto simp: table_ok_def)
  have m: "mapped (pages s ! f)" "mapped (g (pages s ! f))"
    using data_id_mapped [OF f(3)] f(2) assms(3) by (simp_all add: mapped_def)
  have pg: "pages s' ! h = (if h = f then g (pages s ! f) else pages s ! h)" for h
    using f(1) by (simp add: assms(9) pages_set_frame)
  have rest: "page_table s' = page_table s" "free_list s' = free_list s" "lru_of s' = lru'" "st_disk s' = st_disk s"
    "st_log s' = st_log s" "length (pages s') = length (pages s)" by (simp_all add: assms(9))
  have own: "own_page s' h = (if h = f then b else own_page s h)" for h
    using assms(7) by (simp add: own_page_def pg)
  have onlyf: "page_table s q = Some f \<Longrightarrow> q = pid" for q using table_inj ok assms(2) by blast
  have "log_ok s'" using ok by (simp add: log_ok_def rest)
  moreover have "table_ok s'"
    by (rule table_ok_pages) (use ok rest pg f assms(3) in auto)
  moreover have "frames_ok s'"
  proof -
    have fl: "f \<notin> set (free_list s)" "lru_ok (lru_of s)" "f \<notin> set (lru_frames (lru_of s))"
      using ok m assms(5) by (auto simp: frames_ok_def)
    then have l: "lru_ok lru'" "set (lru_frames lru') \<subseteq> insert f (set (lru_frames (lru_of s)))"
      "f \<in> set (lru_frames lru') \<longrightarrow> pin_count (g (pages s ! f)) = 0"
      using assms(6) by (auto simp: lru.unpin_ok lru.unpin_set)
    show ?thesis
      unfolding frames_ok_def rest pg
    proof (intro conjI)
      show "lru_ok lru'" by (rule l)
      show "\<forall>h\<in>set (lru_frames lru'). h < length (pages s) \<and> pin_count (if h = f then g (pages s ! f) else pages s ! h) = 0"
        using l ok f(1) by (auto simp: frames_ok_def)
    qed (use ok m assms(4) fl in \<open>auto simp: frames_ok_def\<close>)
  qed
  moreover have "coherent_but {} s'"
    using ok assms(8) onlyf unfolding coherent_but_def rest pg own by auto
  moreover have "data_id (st_disk s') q \<and> view s' q = Some c" if "st' q = Some c" for q c
  proof (cases "q = pid")
    case True
    with that assms(2,10) f(3) own rest show ?thesis by (auto simp: view_def split: if_splits)
  next
    case False
    with that assms(10) have "st q = Some c" by (auto split: if_splits)
    with assms(1) have "data_id (st_disk s) q" "view s q = Some c" by (auto simp: known_def)
    with False onlyf own rest show ?thesis by (auto simp: view_def split: option.splits)
  qed
  moreover have "pins_keep {pid} s s'" using onlyf by (auto simp: pins_keep_def rest pg)
  ultimately show ?thesis by (simp add: known_def pool_ok_def)
qed


lemma unpin_run:
  assumes "known s st" "page_table s pid = Some f" "0 < pin_count (pages s ! f)"
    "dirty \<or> is_dirty (pages s ! f) \<or> 1 < pin_count (pages s ! f) \<or> id_page (st_disk s) pid = Some (own_page s f)"
  shows "fst (unpin_page pid dirty s) \<and> known (snd (unpin_page pid dirty s)) st \<and>
    pins_keep {pid} s (snd (unpin_page pid dirty s))"
proof -
  note ok = known_parts [OF assms(1)]
  have f: "f < length (pages s)" "pg_id (pages s ! f) = pid" using ok assms(2) by (auto simp: table_ok_def)
  let ?g = "\<lambda>p. (pin_count_update (\<lambda>c. c - 1) p)\<lparr>is_dirty := dirty \<or> is_dirty p\<rparr>"
  let ?lru = "if pin_count (pages s ! f) = 1 then lru_unpin f (lru_of s) else lru_of s"
  have dd: "is_dirty_update (\<lambda>_. True) p = p\<lparr>is_dirty := True\<rparr>" "p\<lparr>is_dirty := is_dirty p\<rparr> = p" for p :: page by simp_all
  have eq: "unpin_page pid dirty s = (True, (set_frame f ?g s)\<lparr>lru_of := ?lru\<rparr>)"
    using assms(2,3) f(1)
    by (cases "pages s ! f") (auto simp: unpin_page_def Let_def set_frame_def mark_dirty_def)
  have st: "(if st pid = None then st else st(pid \<mapsto> own_page s f)) = st"
  proof (cases "st pid")
    case (Some b)
    with assms(1) have "view s pid = Some b" by (simp add: known_def)
    with Some assms(2) show ?thesis by (auto simp: view_def)
  qed simp
  have pc: "pin_count (?g p) = pin_count p - 1" "pg_id (?g p) = pg_id p" "pg_data (?g p) = pg_data p"
    "is_dirty (?g p) = (dirty \<or> is_dirty p)" for p :: page by (cases p; simp)+
  have "known ((set_frame f ?g s)\<lparr>lru_of := ?lru\<rparr>) st \<and> pins_keep {pid} s ((set_frame f ?g s)\<lparr>lru_of := ?lru\<rparr>)"
    by (rule set_frame_known [OF assms(1,2), where g = ?g and b = "own_page s f" and lru' = ?lru])
      (use assms(3,4) f st in \<open>auto simp: pc own_page_def\<close>)
  then show ?thesis by (simp add: eq)
qed

lemma write_frame_run:
  assumes "known s st" "page_table s pid = Some f" "0 < pin_count (pages s ! f)" "st pid \<noteq> None"
  shows "known (write_frame f g s) (st(pid \<mapsto> mread (g (pg_data (pages s ! f))) 0 PAGE_SIZE)) \<and>
    pins_keep {pid} s (write_frame f g s)"
proof -
  note ok = known_parts [OF assms(1)]
  have f: "f < length (pages s)" "pg_id (pages s ! f) = pid" using ok assms(2) by (auto simp: table_ok_def)
  have pc: "pin_count (pg_data_update g p) = pin_count p" "pg_id (pg_data_update g p) = pg_id p"
    "pg_data (pg_data_update g p) = g (pg_data p)" for p :: page by (cases p; simp)+
  have "known ((set_frame f (pg_data_update g) s)\<lparr>lru_of := lru_of s\<rparr>) (st(pid \<mapsto> mread (g (pg_data (pages s ! f))) 0 PAGE_SIZE)) \<and>
    pins_keep {pid} s ((set_frame f (pg_data_update g) s)\<lparr>lru_of := lru_of s\<rparr>)"
    by (rule set_frame_known [OF assms(1,2), where g = "pg_data_update g" and lru' = "lru_of s"])
      (use assms(3,4) f in \<open>auto simp: pc\<close>)
  moreover have "(set_frame f (pg_data_update g) s)\<lparr>lru_of := lru_of s\<rparr> = write_frame f g s"
    by (simp add: write_frame_def set_frame_def)
  ultimately show ?thesis by simp
qed

text \<open>A frame whose page is on disk is given back to the free list.\<close>

lemma release_known:
  assumes "known s st" "page_table s pid = Some f" "id_page (st_disk s) pid = Some (own_page s f) \<or> st pid = None"
    "s1 = s \<or> s1 = set_frame f (pin_count_update (\<lambda>_. 0)) s" "pin_count (pages s1 ! f) = 0"
    "\<not> is_dirty (pages s ! f)"
  shows "known (release_frame f s1) st \<and> pins_keep {pid} s (release_frame f s1)"
proof -
  note ok = known_parts [OF assms(1)]
  have f: "f < length (pages s)" "pg_id (pages s ! f) = pid" using ok assms(2) by (auto simp: table_ok_def)
  let ?s' = "release_frame f s1"
  have m: "mapped (pages s ! f)" using ok assms(2) f data_id_mapped by (auto simp: mapped_def table_ok_def)
  have s1: "pg_id (pages s1 ! f) = pid" "length (pages s1) = length (pages s)" "\<not> is_dirty (pages s1 ! f)"
    "page_table s1 = page_table s" "free_list s1 = free_list s" "lru_of s1 = lru_of s" "st_disk s1 = st_disk s"
    "st_log s1 = st_log s" "\<And>g. g \<noteq> f \<Longrightarrow> pages s1 ! g = pages s ! g"
    using assms(4,6) f by (auto simp: pages_set_frame)
  have np: "pid_no no_page = INVALID_PAGE_ID" by (simp add: no_page_def)
  have pg: "pages ?s' ! g = (if g = f then (pages s1 ! f)\<lparr>pg_id := no_page, pg_data := mzero\<rparr> else pages s ! g)" for g
    using f(1) s1 by (simp add: release_frame_def Let_def pages_set_frame reset_memory_def)
  have rest: "page_table ?s' = (page_table s)(pid := None)" "free_list ?s' = free_list s @ [f]" "lru_of ?s' = lru_of s"
    "st_disk ?s' = st_disk s" "st_log ?s' = st_log s" "length (pages ?s') = length (pages s)"
    using s1 by (simp_all add: release_frame_def Let_def)
  have own: "g \<noteq> f \<Longrightarrow> own_page ?s' g = own_page s g" for g by (simp add: own_page_def pg)
  have onlyf: "page_table s q = Some f \<Longrightarrow> q = pid" for q using table_inj ok assms(2) by blast
  have nf: "page_table s q = Some g \<Longrightarrow> q \<noteq> pid \<Longrightarrow> g \<noteq> f" for q g using onlyf by auto
  have "log_ok ?s'" using ok by (simp add: log_ok_def rest)
  moreover have "table_ok ?s'"
    unfolding table_ok_def
  proof (intro conjI allI impI, goal_cases)
    case (4 g)
    then have "g \<noteq> f" "g < length (pages s)" using np by (auto simp: pg mapped_def rest)
    moreover from \<open>g \<noteq> f\<close> 4 have "mapped (pages s ! g)" by (simp add: pg)
    moreover from calculation have "page_table s (pg_id (pages s ! g)) = Some g" using ok by (simp add: table_ok_def)
    ultimately show ?case using assms(2) by (auto simp: pg rest)
  qed (use ok nf in \<open>auto simp: rest pg table_ok_def split: if_splits\<close>)
  moreover have "frames_ok ?s'"
  proof -
    have "f \<notin> set (free_list s)" using ok m by (auto simp: frames_ok_def)
    moreover have "\<not> mapped ((pages s1 ! f)\<lparr>pg_id := no_page, pg_data := mzero\<rparr>)" using np by (simp add: mapped_def)
    ultimately show ?thesis
      using ok assms(5) s1(3) f(1) unfolding frames_ok_def rest pg by auto
  qed
  moreover have "coherent_but {} ?s'"
    unfolding coherent_but_def
  proof (intro allI impI)
    fix q g assume q: "page_table ?s' q = Some g" "g \<notin> {}" "\<not> is_dirty (pages ?s' ! g)" "pin_count (pages ?s' ! g) = 0"
    then have "page_table s q = Some g" "g \<noteq> f" using nf by (auto simp: rest split: if_splits)
    with q ok own show "id_page (st_disk ?s') q = Some (own_page ?s' g)"
      by (auto simp: coherent_but_def rest pg)
  qed
  moreover have "data_id (st_disk ?s') q \<and> view ?s' q = Some b" if "st q = Some b" for q b
  proof -
    have q: "data_id (st_disk s) q" "view s q = Some b" using that assms(1) by (auto simp: known_def)
    show ?thesis
    proof (cases "q = pid")
      case True
      with q that assms(2,3) show ?thesis by (auto simp: view_def rest)
    next
      case False
      with q nf own show ?thesis by (auto simp: view_def rest split: option.splits)
    qed
  qed
  moreover have "pins_keep {pid} s ?s'" using nf by (auto simp: pins_keep_def rest pg)
  ultimately show ?thesis by (simp add: known_def pool_ok_def)
qed


lemma delete_page_run:
  assumes "known s st" "delete_page pid s = (Inr b, s')"
  shows "known s' st \<and> pins_keep {} s s'"
proof (cases "page_table s pid")
  case None
  with assms show ?thesis by (auto simp: delete_page_def pins_keep_refl)
next
  case (Some f)
  show ?thesis
  proof (cases "pin_count (pages s ! f) > 0")
    case True
    with assms Some show ?thesis by (auto simp: delete_page_def pins_keep_refl)
  next
    case False
    note ok = known_parts [OF assms(1)]
    obtain u s1 where c: "clean_if_dirty f s = (Inr u, s1)" and s': "s' = release_frame f s1"
      using assms(2) Some False
      by (auto simp: delete_page_def andThen_eq_Inr modify_def ret_def clean_if_dirty_def [symmetric]
          clean_if_dirty_def [THEN fun_cong, symmetric])
    note k = clean_if_dirty_known [OF assms(1) Some c]
    have p0: "pin_count (pages s ! f) = 0"
      using ok Some False by (auto simp: table_ok_def frames_ok_def intro: antisym)
    have t: "page_table s1 pid = Some f" using k Some by simp
    have "id_page (st_disk s1) pid = Some (own_page s1 f)"
      using k t p0 known_parts [of s1 st] by (auto simp: coherent_but_def)
    then have r: "known (release_frame f s1) st \<and> pins_keep {pid} s1 (release_frame f s1)"
      by (intro release_known [OF _ t]) (use k p0 in auto)
    have "pins_keep {} s s'"
      unfolding pins_keep_def
    proof (intro allI impI)
      fix q g assume q: "q \<notin> {}" "page_table s q = Some g" "0 < pin_count (pages s ! g)"
      then have "q \<noteq> pid" using Some p0 by auto
      with q k r s' show "page_table s' q = Some g \<and> pin_count (pages s' ! g) = pin_count (pages s ! g) \<and>
          pg_data (pages s' ! g) = pg_data (pages s ! g)"
        by (auto simp: pins_keep_def)
    qed
    with r s' show ?thesis by simp
  qed
qed

text \<open>\<open>file_ids fd\<close>: the pages of a file.\<close>

definition file_ids :: "int \<Rightarrow> page_id set" where
  "file_ids fd = {pid. pid_fd pid = fd}"

definition deletable :: "int \<Rightarrow> storage \<Rightarrow> bool" where
  "deletable fd s \<longleftrightarrow> (\<forall>pid f. page_table s pid = Some f \<longrightarrow> pid_fd pid = fd \<longrightarrow>
     pin_count (pages s ! f) = 0 \<or> is_dirty (pages s ! f))"

lemma delete_frame_run:
  assumes "known s st" "deletable fd s" "f < length (pages s)" "delete_frame fd f s = (Inr u, s')"
  shows "known s' st \<and> deletable fd s' \<and> length (pages s') = length (pages s) \<and> pins_keep (file_ids fd) s s'"
proof (cases "of_file fd (pages s ! f)")
  case False
  with assms show ?thesis by (auto simp: delete_frame_def pins_keep_refl)
next
  case True
  note ok = known_parts [OF assms(1)]
  let ?pid = "pg_id (pages s ! f)"
  have t: "page_table s ?pid = Some f" "pid_fd ?pid = fd"
    using ok assms(3) True by (auto simp: table_ok_def of_file_def mapped_def)
  obtain v s1 where c: "clean_if_dirty f s = (Inr v, s1)"
    and s': "s' = release_frame f (set_frame f (pin_count_update (\<lambda>_. 0)) s1)"
    using assms(4) True
    by (auto simp: delete_frame_def andThen_eq_Inr modify_def clean_if_dirty_def [THEN fun_cong, symmetric])
  note k = clean_if_dirty_known [OF assms(1) t(1) c]
  have t1: "page_table s1 ?pid = Some f" using k t by simp
  have disk: "id_page (st_disk s1) ?pid = Some (own_page s1 f)"
  proof (cases "is_dirty (pages s ! f)")
    case True
    with k show ?thesis by (simp add: own_page_def)
  next
    case False
    with assms(2) t have "pin_count (pages s ! f) = 0" by (auto simp: deletable_def)
    with k t1 known_parts [of s1 st] show ?thesis by (auto simp: coherent_but_def)
  qed
  have r: "known s' st \<and> pins_keep {?pid} s1 s'"
    unfolding s' by (rule release_known [where s = s1]) (use k t1 disk assms(3) in \<open>auto simp: pages_set_frame\<close>)
  have len: "length (pages s') = length (pages s)" using k by (simp add: s' release_frame_def Let_def)
  have pk: "pins_keep (file_ids fd) s s'"
    by (rule pins_keep_trans [of _ _ s1]; rule pins_keep_mono) (use k r t(2) in \<open>auto simp: file_ids_def\<close>)
  have "deletable fd s'"
    unfolding deletable_def
  proof (intro allI impI)
    fix q g assume q: "page_table s' q = Some g" "pid_fd q = fd"
    have f1: "f < length (pages s1)" using k assms(3) by simp
    have "pg_id (pages (set_frame f (pin_count_update (\<lambda>_. 0)) s1) ! f) = ?pid"
      using f1 k by (simp add: pages_set_frame)
    then have tab: "page_table s' = (page_table s1)(?pid := None)"
      by (simp add: s' release_frame_def Let_def)
    have g: "page_table s q = Some g" "g \<noteq> f"
      using q tab k t(1) table_inj ok by (auto split: if_splits)
    then have "pages s' ! g = pages s1 ! g"
      by (simp add: s' release_frame_def Let_def pages_set_frame)
    moreover have "pages s1 ! g = pages s ! g" using k g(2) by blast
    ultimately show "pin_count (pages s' ! g) = 0 \<or> is_dirty (pages s' ! g)"
      using assms(2) g(1) q(2) by (auto simp: deletable_def)
  qed
  with r len pk show ?thesis by blast
qed

lemma delete_frames_run:
  "known s st \<Longrightarrow> deletable fd s \<Longrightarrow> \<forall>f \<in> set fs. f < length (pages s) \<Longrightarrow>
    for_frames (delete_frame fd) fs s = (Inr u, s') \<Longrightarrow> known s' st \<and> pins_keep (file_ids fd) s s'"
proof (induction fs arbitrary: s)
  case Nil
  then show ?case by (simp add: run_simps pins_keep_refl)
next
  case (Cons f fs)
  then obtain v s1 where f: "delete_frame fd f s = (Inr v, s1)" "for_frames (delete_frame fd) fs s1 = (Inr u, s')"
    by (auto simp: andThen_eq_Inr)
  have "f < length (pages s)" using Cons.prems(3) by simp
  from delete_frame_run [OF Cons.prems(1,2) this f(1)] Cons.IH [of s1] Cons.prems(3) f(2) pins_keep_trans
  show ?case by fastforce
qed


lemma new_page_run:
  assumes "known s st" "new_page fd s = (Inr (Some (no, f)), s2)" "data_id (st_disk s) (PageId fd no)"
    "page_table s (PageId fd no) = None"
  shows "known s2 (st(PageId fd no \<mapsto> replicate PAGE_SIZE 0)) \<and> page_table s2 (PageId fd no) = Some f \<and>
    0 < pin_count (pages s2 ! f) \<and> pins_keep {PageId fd no} s s2"
proof -
  let ?pid = "PageId fd no"
  obtain s' where v: "find_victim_page s = (Some f, s')"
    using assms(2)
    by (auto simp: new_page_def andThen_def ret_def modify_def split: prod.splits option.splits sum.splits)
  note vk = victim_known [OF assms(1) v]
  obtain s'' where al: "on_disk (allocate_page fd) s' = (Inr no, s'')" and rest:
    "andThen (update_page f ?pid) (\<lambda>_. andThen (modify (pin_frame f (\<lambda>_. 1))) (\<lambda>_. ret (Some (no, f)))) s'' =
      (Inr (Some (no, f)), s2)"
    using assms(2) v by (auto simp: new_page_def andThen_eq_Inr ret_def)
  obtain d where d: "s'' = s'\<lparr>st_disk := d\<rparr>" "files d = files (st_disk s')" "fd2path d = fd2path (st_disk s')"
    "open_fds d = open_fds (st_disk s')" "path2fd d = path2fd (st_disk s')" "log_fd d = log_fd (st_disk s')"
    "other_fds d = other_fds (st_disk s')"
    using al by (auto simp: on_disk_def zoom_def allocate_page_def split: if_splits)
  have dd: "data_id d = data_id (st_disk s')" "id_page d = id_page (st_disk s')" "disk_ok d = disk_ok (st_disk s')"
    "log_fd_ok d = log_fd_ok (st_disk s')"
    by (simp_all add: fun_eq_iff [of "data_id d"] fun_eq_iff [of "id_page d"] data_id_def id_page_def disk_page_def
        disk_ok_def log_fd_ok_def d(2-7) cong: option.case_cong)
  have own: "own_page s'' = own_page s'" "view s'' = view s'"
    by (auto simp: fun_eq_iff own_page_def view_def d(1) dd split: option.split)
  have "log_ok s'' = log_ok s'" "table_ok s'' = table_ok s'" "frames_ok s'' = frames_ok s'"
    "coherent_but {} s'' = coherent_but {} s'"
    using dd own d(2) by (simp_all add: log_ok_def log_inv_def table_ok_def frames_ok_def coherent_but_def d(1))
  with vk dd own have k: "known s'' st" by (auto simp: known_def pool_ok_def d(1))
  have vp: "pool_ok s''" "coherent_but {} s''" "f < length (pages s'')" "pin_count (pages s'' ! f) = 0"
    "f \<notin> set (free_list s'')" "data_id (st_disk s'') ?pid" "page_table s'' ?pid = None"
    using k vk d(1) dd assms(3,4) by (auto simp: known_def)
  obtain u s1 where up: "update_page f ?pid s'' = (Inr u, s1)" and s2: "s2 = pin_frame f (\<lambda>_. 1) s1"
    using rest by (auto simp: andThen_eq_Inr modify_def ret_def)
  note u = update_page_run [OF vp up]
  have fr: "set_frame f (pg_data_update (\<lambda>_. mzero)) s1 = s1"
  proof -
    have "(pages s1)[f := pg_data_update (\<lambda>_. mzero) (pages s1 ! f)] = pages s1"
      using u by (intro list_update_same_conv [THEN iffD2]) (auto simp: fresh_page_def)
    then show ?thesis by (simp add: set_frame_def)
  qed
  have inst: "known s2 (st(?pid := Some (replicate PAGE_SIZE 0))) \<and> page_table s2 ?pid = Some f \<and>
    own_page s2 f = replicate PAGE_SIZE 0 \<and>
    pages s2 ! f = \<lparr>pg_id = ?pid, pg_data = mzero, is_dirty = False, pin_count = 1\<rparr> \<and>
    (\<forall>g. g \<noteq> f \<longrightarrow> pages s2 ! g = pages s1 ! g) \<and> page_table s2 = page_table s1"
    by (rule install_run [where s = s'' and z = True and ?s1.0 = s1])
      (use u k in \<open>auto simp: s2 known_def fr\<close>)
  moreover have "pins_keep {?pid} s s2"
    unfolding pins_keep_def
  proof (intro allI impI)
    fix q g assume q: "q \<notin> {?pid}" "page_table s q = Some g" "0 < pin_count (pages s ! g)"
    then have *: "page_table s1 q = Some g" "pages s1 ! g = pages s ! g" using u vk d(1) by auto
    have "g \<noteq> f" using q(3) vk by auto
    with * inst show "page_table s2 q = Some g \<and> pin_count (pages s2 ! g) = pin_count (pages s ! g) \<and>
      pg_data (pages s2 ! g) = pg_data (pages s ! g)" by auto
  qed
  ultimately show ?thesis by auto
qed

section \<open>Calls of the pool and what a client may rely on\<close>

datatype pool_call = Fetch page_id | Unpin page_id bool | FlushPage page_id | New int | Delete page_id
  | FlushAll int | DeleteAll int | Write nat "mem \<Rightarrow> mem"

datatype pool_result = RFrame "nat option" | RBool bool | RNew "(int \<times> nat) option" | RUnit

fun pool_run :: "pool_call \<Rightarrow> (storage, pool_result) op" where
  "pool_run (Fetch pid) = andThen (fetch_page pid) (\<lambda>r. ret (RFrame r))"
| "pool_run (Unpin pid dirty) = (\<lambda>s. case unpin_page pid dirty s of (b, s') \<Rightarrow> (Inr (RBool b), s'))"
| "pool_run (FlushPage pid) = andThen (flush_page pid) (\<lambda>b. ret (RBool b))"
| "pool_run (New fd) = andThen (new_page fd) (\<lambda>r. ret (RNew r))"
| "pool_run (Delete pid) = andThen (delete_page pid) (\<lambda>b. ret (RBool b))"
| "pool_run (FlushAll fd) = andThen (flush_all_pages fd) (\<lambda>_. ret RUnit)"
| "pool_run (DeleteAll fd) = andThen (delete_all_pages fd) (\<lambda>_. ret RUnit)"
| "pool_run (Write f g) = andThen (modify (write_frame f g)) (\<lambda>_. ret RUnit)"

text \<open>
  What the client has to respect: it fetches pages it knows, writes through pinned frames, unpins a
  page it changed as dirty, allocates in an open data file whose next page number is not in use, and
  drops a file's pages only when they are unpinned or dirty.
\<close>

fun allowed :: "pool_call \<Rightarrow> storage \<Rightarrow> (page_id \<rightharpoonup> bytes) \<Rightarrow> bool" where
  "allowed (Fetch pid) s st = (st pid \<noteq> None)"
| "allowed (Unpin pid dirty) s st =
     (case page_table s pid of None \<Rightarrow> True
      | Some f \<Rightarrow> dirty \<or> is_dirty (pages s ! f) \<or> 1 < pin_count (pages s ! f) \<or>
          id_page (st_disk s) pid = Some (own_page s f))"
| "allowed (New fd) s st =
     (let pid = PageId fd (fd2pageno (st_disk s) fd) in data_id (st_disk s) pid \<and> page_table s pid = None)"
| "allowed (DeleteAll fd) s st = deletable fd s"
| "allowed (Write f g) s st =
     (f < length (pages s) \<and> 0 < pin_count (pages s ! f) \<and> st (pg_id (pages s ! f)) \<noteq> None)"
| "allowed _ s st = True"

text \<open>The specification: a map from pages to bytes that only \<open>New\<close> and \<open>Write\<close> change.\<close>

fun spec_step :: "pool_call \<Rightarrow> pool_result \<Rightarrow> storage \<Rightarrow> (page_id \<rightharpoonup> bytes) \<Rightarrow> (page_id \<rightharpoonup> bytes)" where
  "spec_step (New fd) (RNew (Some (no, f))) s st = st(PageId fd no \<mapsto> replicate PAGE_SIZE 0)"
| "spec_step (Write f g) _ s st =
     st(pg_id (pages s ! f) \<mapsto> mread (g (pg_data (pages s ! f))) 0 PAGE_SIZE)"
| "spec_step _ _ s st = st"

text \<open>The pages whose pin count a call may change.\<close>

fun touches :: "pool_call \<Rightarrow> storage \<Rightarrow> page_id set" where
  "touches (Fetch pid) s = {pid}"
| "touches (Unpin pid _) s = {pid}"
| "touches (New fd) s = {PageId fd (fd2pageno (st_disk s) fd)}"
| "touches (DeleteAll fd) s = file_ids fd"
| "touches (Write f _) s = {pg_id (pages s ! f)}"
| "touches _ s = {}"

lemma new_page_no:
  assumes "new_page fd s = (Inr (Some (no, f)), s')"
  shows "no = fd2pageno (st_disk s) fd"
proof -
  obtain s1 where "find_victim_page s = (Some f, s1)" "fst (on_disk (allocate_page fd) s1) = Inr no"
    using assms by (auto simp: new_page_def andThen_def ret_def modify_def split: prod.splits option.splits sum.splits)
  moreover from this have "st_disk s1 = st_disk s"
    by (auto simp: find_victim_page_def split: list.splits prod.splits)
  ultimately show ?thesis
    by (auto simp: on_disk_def zoom_def allocate_page_def split: if_splits prod.splits)
qed

lemma fetch_none:
  assumes "fetch_page pid s = (Inr None, s')" "frames_ok s"
  shows "s' = s"
proof -
  have "find_victim_page s = (None, s')"
    using assms(1)
    by (auto simp: fetch_page_def andThen_def ret_def modify_def split: prod.splits option.splits sum.splits)
  from find_victim_run [OF assms(2) this] show ?thesis by simp
qed

lemma new_none:
  assumes "new_page fd s = (Inr None, s')" "frames_ok s"
  shows "s' = s"
proof -
  have "find_victim_page s = (None, s')"
    using assms(1)
    by (auto simp: new_page_def andThen_def ret_def modify_def split: prod.splits option.splits sum.splits)
  from find_victim_run [OF assms(2) this] show ?thesis by simp
qed

lemma pool_run_known:
  assumes "known s st" "allowed c s st" "pool_run c s = (Inr res, s')"
  shows "known s' (spec_step c res s st) \<and> pins_keep (touches c s) s s'"
proof (cases c)
  case (Fetch pid)
  then obtain r where r: "fetch_page pid s = (Inr r, s')" "res = RFrame r"
    using assms(3) by (auto simp: andThen_eq_Inr ret_def)
  obtain b where "st pid = Some b" using assms(2) Fetch by auto
  with r Fetch assms(1) fetch_run [OF assms(1), of pid b] fetch_none [of pid s s'] known_parts [OF assms(1)] show ?thesis
    by (cases r) (auto simp: pins_keep_refl)
next
  case (Unpin pid dirty)
  show ?thesis
  proof (cases "\<exists>f. page_table s pid = Some f \<and> 0 < pin_count (pages s ! f)")
    case True
    then obtain f where f: "page_table s pid = Some f" "0 < pin_count (pages s ! f)" by blast
    have "s' = snd (unpin_page pid dirty s)" using assms(3) Unpin by (auto split: prod.splits)
    with unpin_run [OF assms(1) f, of dirty] assms(2) Unpin f show ?thesis by simp
  next
    case False
    then have "s' = s" using assms(3) Unpin by (auto simp: unpin_page_def not_less split: option.splits if_splits)
    then show ?thesis using assms(1) Unpin by (simp add: pins_keep_refl)
  qed
next
  case (FlushPage pid)
  show ?thesis
  proof (cases "page_table s pid")
    case None
    with assms FlushPage show ?thesis by (auto simp: flush_page_def andThen_eq_Inr ret_def pins_keep_refl)
  next
    case (Some f)
    then obtain u where "write_back f s = (Inr u, s')"
      using assms(3) FlushPage by (auto simp: flush_page_def andThen_eq_Inr ret_def)
    with write_back_known [OF assms(1) Some] FlushPage show ?thesis by auto
  qed
next
  case (New fd)
  then obtain r where r: "new_page fd s = (Inr r, s')" "res = RNew r"
    using assms(3) by (auto simp: andThen_eq_Inr ret_def)
  show ?thesis
  proof (cases r)
    case None
    with r New assms(1) new_none [of fd s s'] known_parts [OF assms(1)] show ?thesis by (simp add: pins_keep_refl)
  next
    case (Some p)
    obtain no f where p: "p = (no, f)" by (cases p)
    have no: "no = fd2pageno (st_disk s) fd" using r(1) Some p new_page_no by blast
    have "new_page fd s = (Inr (Some (no, f)), s')" using r(1) Some p by simp
    from new_page_run [OF assms(1) this] assms(2) New no Some p r(2) show ?thesis by (simp add: Let_def)
  qed
next
  case (Delete pid)
  then obtain b where "delete_page pid s = (Inr b, s')" using assms(3) by (auto simp: andThen_eq_Inr ret_def)
  with delete_page_run [OF assms(1) this] Delete show ?thesis by simp
next
  case (FlushAll fd)
  then obtain u where "for_frames (flush_frame fd) [0..<length (pages s)] s = (Inr u, s')"
    using assms(3) by (auto simp: andThen_eq_Inr ret_def flush_all_pages_def)
  with flush_frames_known [OF assms(1) _ this] FlushAll show ?thesis by simp
next
  case (DeleteAll fd)
  then obtain u where "for_frames (delete_frame fd) [0..<length (pages s)] s = (Inr u, s')"
    using assms(3) by (auto simp: andThen_eq_Inr ret_def delete_all_pages_def)
  with delete_frames_run [OF assms(1) _ _ this] assms(2) DeleteAll show ?thesis by simp
next
  case (Write f g)
  then have s': "s' = write_frame f g s" using assms(3) by (simp add: andThen_def modify_def ret_def)
  have f: "f < length (pages s)" "0 < pin_count (pages s ! f)" "st (pg_id (pages s ! f)) \<noteq> None"
    using assms(2) Write by auto
  then have "mapped (pages s ! f)" using known_parts [OF assms(1)] by (auto simp: frames_ok_def)
  then have "page_table s (pg_id (pages s ! f)) = Some f" using known_parts [OF assms(1)] f(1) by (auto simp: table_ok_def)
  from write_frame_run [OF assms(1) this f(2,3)] s' Write show ?thesis by simp
qed


section \<open>Properties\<close>

text \<open>
  Claim C1. The buffer pool is transparent: pool and disk together implement a map from pages to
  their bytes. Whatever frames are evicted on the way, a call that returns leaves every page the
  client knows with its bytes, except that \<open>new_page\<close> adds a page of zeros and a write through a
  pinned frame changes that page; and a fetched frame holds exactly the bytes of its page, pinned.
\<close>

theorem pool_transparent:
  assumes "known s st" "allowed c s st" "pool_run c s = (Inr res, s')"
  shows "known s' (spec_step c res s st) \<and>
    (\<forall>pid f. c = Fetch pid \<and> res = RFrame (Some f) \<longrightarrow>
      st pid = Some (own_page s' f) \<and> page_table s' pid = Some f \<and> 0 < pin_count (pages s' ! f))"
proof (intro conjI allI impI)
  show "known s' (spec_step c res s st)" using pool_run_known [OF assms] by simp
  fix pid f assume c: "c = Fetch pid \<and> res = RFrame (Some f)"
  then obtain b where b: "st pid = Some b" "fetch_page pid s = (Inr (Some f), s')"
    using assms(2,3) by (auto simp: andThen_eq_Inr ret_def)
  from fetch_run [OF assms(1) b] b(1)
  show "st pid = Some (own_page s' f)" "page_table s' pid = Some f" "0 < pin_count (pages s' ! f)" by simp_all
qed

text \<open>A pool of one frame over the file \<open>t\<close>, with a first page of sevens and a second of ones.\<close>

definition two_pages :: bytes where
  "two_pages = replicate PAGE_SIZE 7 @ replicate PAGE_SIZE 1"

definition pool_disk :: disk where
  "pool_disk = snd (open_file ''t'' (disk_new [''t'' \<mapsto> two_pages, LOG_FILE_NAME \<mapsto> []] [0, 1, 2]))"

lemma pool_disk_facts:
  "disk_ok pool_disk" "log_fd_ok pool_disk" "fd2path pool_disk = [3 \<mapsto> ''t'']" "fd2pageno pool_disk = (\<lambda>_. 0)"
  "files pool_disk = [''t'' \<mapsto> two_pages, LOG_FILE_NAME \<mapsto> []]"
proof -
  let ?d = "disk_new [''t'' \<mapsto> two_pages, LOG_FILE_NAME \<mapsto> []] [0, 1, 2]"
  show "disk_ok pool_disk" unfolding pool_disk_def by (rule open_file_ok [OF disk_new_ok(1)])
  have "open_file ''t'' ?d = (Inr 3, ?d\<lparr>open_fds := [(3, ''t'')], path2fd := [''t'' \<mapsto> 3], fd2path := [3 \<mapsto> ''t'']\<rparr>)"
    by (simp add: open_file_def is_file_def disk_new_def LOG_FILE_NAME_def os_open_def lowest_fd_def upt_conv_Cons)
  then show "log_fd_ok pool_disk" "fd2path pool_disk = [3 \<mapsto> ''t'']" "fd2pageno pool_disk = (\<lambda>_. 0)"
    "files pool_disk = [''t'' \<mapsto> two_pages, LOG_FILE_NAME \<mapsto> []]"
    by (simp_all add: pool_disk_def log_fd_ok_def) (simp_all add: disk_new_def)
qed

definition pool_ex :: storage where
  "pool_ex = pool_new 1 pool_disk log_manager_new True"

definition pool_ex_pages :: "page_id \<rightharpoonup> bytes" where
  "pool_ex_pages = [PageId 3 0 \<mapsto> replicate PAGE_SIZE 7, PageId 3 1 \<mapsto> replicate PAGE_SIZE 1]"

lemma pool_new_ok:
  assumes "log_ok (pool_new n d l a)"
  shows "pool_ok (pool_new n d l a) \<and> coherent_but {} (pool_new n d l a)"
proof -
  have "lru_frames (lru_new n) = []" by (simp add: lru_new_def lru_frames_def)
  with assms show ?thesis
    by (simp add: pool_ok_def) (simp add: pool_new_def table_ok_def frames_ok_def coherent_but_def new_frame_def
        mapped_def no_page_def lru_new_ok)
qed

lemma pool_ex_known: "known pool_ex pool_ex_pages"
proof -
  have "log_inv [] 0 [] [] (pool_disk, log_manager_new)"
    using pool_disk_facts
    by (simp add: log_inv_def log_manager_new_def buffered_def last_lsn_def INVALID_LSN_def mread_def)
  then have "log_ok pool_ex" unfolding log_ok_def pool_ex_def pool_new_def by auto
  then have ok: "pool_ok pool_ex \<and> coherent_but {} pool_ex" unfolding pool_ex_def by (rule pool_new_ok)
  have off: "page_offset 0 = 0" "page_offset 1 = 4096" by (simp_all add: page_offset_def PAGE_SIZE_def to_signed_def)
  have "id_page pool_disk (PageId 3 0) = Some (replicate PAGE_SIZE 7)"
    "id_page pool_disk (PageId 3 1) = Some (replicate PAGE_SIZE 1)"
    using pool_disk_facts off by (auto simp: id_page_def disk_page_def two_pages_def pread_def PAGE_SIZE_def LOG_FILE_NAME_def)
  moreover have "data_id pool_disk (PageId 3 no)" if "no = 0 \<or> no = 1" for no
    using that pool_disk_facts by (auto simp: data_id_def valid_no_def LOG_FILE_NAME_def)
  ultimately have "data_id pool_disk pid \<and> id_page pool_disk pid = Some b" if "pool_ex_pages pid = Some b" for pid b
    using that by (auto simp: pool_ex_pages_def split: if_splits)
  with ok show ?thesis by (auto simp: known_def view_def pool_ex_def pool_new_def)
qed

theorem pool_transparent_witness:
  "known (snd (pool_run (FlushPage (PageId 3 0)) pool_ex)) pool_ex_pages"
  using pool_transparent [OF pool_ex_known, of "FlushPage (PageId 3 0)" "RBool False" pool_ex]
  by (simp add: flush_page_def pool_ex_def pool_new_def run_simps andThen_def)

text \<open>
  Claim C31. A pinned page stays where it is: while its pin count is positive no call, except those
  that name the page or drop its file, changes the frame it is in, its bytes or its pin count.
\<close>

theorem pinned_page_stays:
  assumes "known s st" "allowed c s st" "pool_run c s = (Inr res, s')" "pid \<notin> touches c s"
    "page_table s pid = Some f" "0 < pin_count (pages s ! f)"
  shows "page_table s' pid = Some f \<and> pin_count (pages s' ! f) = pin_count (pages s ! f) \<and> own_page s' f = own_page s f"
  using pool_run_known [OF assms(1-3)] assms(4-6) by (auto simp: pins_keep_def own_page_def)


definition pool_ex1 :: storage where
  "pool_ex1 = pool_ex\<lparr>pages := [\<lparr>pg_id = PageId 3 0, pg_data = mwrite mzero 0 (replicate PAGE_SIZE 7),
     is_dirty = False, pin_count = 1\<rparr>], page_table := [PageId 3 0 \<mapsto> 0], free_list := []\<rparr>"

lemma pool_ex_fetch: "pool_run (Fetch (PageId 3 0)) pool_ex = (Inr (RFrame (Some 0)), pool_ex1)"
proof -
  have pt: "page_table pool_ex = Map.empty" "find_victim_page pool_ex = (Some 0, pool_ex\<lparr>free_list := []\<rparr>)"
    by (simp_all add: pool_ex_def pool_new_def find_victim_page_def)
  have pg: "pages pool_ex = [new_frame]" by (simp add: pool_ex_def pool_new_def)
  let ?s1 = "pool_ex\<lparr>free_list := [], pages := [fresh_page (PageId 3 0)], page_table := [PageId 3 0 \<mapsto> 0]\<rparr>"
  have up: "update_page 0 (PageId 3 0) (pool_ex\<lparr>free_list := []\<rparr>) = (Inr (), ?s1)"
    by (simp add: update_page_def andThen_def pg pt(1) modify_def set_frame_def reset_memory_def fresh_page_def
        new_frame_def INVALID_PAGE_ID_def no_page_def) 
  have "disk_page pool_disk 3 0 = Some (replicate PAGE_SIZE 7)"
    using pool_disk_facts
    by (simp add: disk_page_def two_pages_def pread_def PAGE_SIZE_def LOG_FILE_NAME_def page_offset_def to_signed_def)
  then have rd: "read_page pool_disk 3 0 PAGE_SIZE mzero = (Inr (), mwrite mzero 0 (replicate PAGE_SIZE 7))"
    by (simp add: read_page_run [OF pool_disk_facts(1)])
  have d: "st_disk pool_ex = pool_disk" "lru_of pool_ex = lru_new 1" by (simp_all add: pool_ex_def pool_new_def)
  show ?thesis
    using rd
    by (simp add: fetch_page_def pt up andThen_def fetch_read_def d fresh_page_def set_frame_def modify_def
        pin_frame_def ret_def pool_ex1_def lru_pin_def lru_new_def)
qed

lemma pool_ex1_known: "known pool_ex1 pool_ex_pages"
  using pool_run_known [OF pool_ex_known _ pool_ex_fetch] by (simp add: pool_ex_pages_def)

theorem pinned_page_stays_witness:
  "page_table (snd (pool_run (Fetch (PageId 3 1)) pool_ex1)) (PageId 3 0) = Some 0 \<and>
    pin_count (pages (snd (pool_run (Fetch (PageId 3 1)) pool_ex1)) ! 0) = 1"
proof -
  have "find_victim_page pool_ex1 = (None, pool_ex1)"
    by (simp add: find_victim_page_def pool_ex1_def pool_ex_def pool_new_def lru_victim_def lru_new_def)
  then have f: "pool_run (Fetch (PageId 3 1)) pool_ex1 = (Inr (RFrame None), pool_ex1)"
    by (simp add: fetch_page_def andThen_def ret_def) (simp add: pool_ex1_def)
  from pinned_page_stays [OF pool_ex1_known _ this, of "PageId 3 0" 0] f show ?thesis
    by (simp add: pool_ex_pages_def) (simp add: pool_ex1_def)
qed

text \<open>The errors a page write-back can raise.\<close>

lemma write_back_errors:
  "write_back f s = (Inl e, s') \<Longrightarrow> e \<noteq> InternalError ''DiskManager::read_page Error''"
  by (auto simp: write_back_def andThen_def flush_before_def on_log_def on_disk_def zoom_def flush_log_to_disk_def
      write_out_def write_log_def open_log_def open_file_def os_open_def write_page_def modify_def Let_def
      split: prod.splits sum.splits option.splits if_splits)

text \<open>
  A fetch that fails because the file is too short leaves its page registered: the page
  table maps it to the victim frame, so the next fetch of the same page succeeds without reading the
  disk and returns that frame.
\<close>

theorem failed_fetch_leaves_mapping:
  assumes "valid_no (pid_no pid)"
    "fetch_page pid s = (Inl (InternalError ''DiskManager::read_page Error''), s')"
  shows "page_table s pid = None \<and>
    (\<exists>f. page_table s' pid = Some f \<and> fetch_page pid s' = (Inr (Some f), pin_frame f (\<lambda>c. c + 1) s'))"
proof -
  have no: "pid_no pid \<noteq> INVALID_PAGE_ID" using assms(1) by (auto simp: valid_no_def INVALID_PAGE_ID_def)
  have none: "page_table s pid = None" using assms(2) by (auto simp: fetch_page_def split: option.splits)
  obtain f s1 where v: "find_victim_page s = (Some f, s1)"
    using assms(2) none by (auto simp: fetch_page_def split: option.splits prod.splits)
  have "\<exists>u s2. update_page f pid s1 = (Inr u, s2) \<and> fetch_read f pid s2 = (Inl (InternalError ''DiskManager::read_page Error''), s')"
    using assms(2) none v write_back_errors [of f s1]
    by (auto simp: fetch_page_def andThen_eq_Inl andThen_eq_Inr update_page_def modify_def ret_def split: if_splits)
  then obtain u s2 where u: "update_page f pid s1 = (Inr u, s2)" "snd (fetch_read f pid s2) = s'" by auto
  have "page_table s2 pid = Some f"
    using u(1) no by (auto simp: update_page_def andThen_eq_Inr modify_def Let_def)
  moreover have "page_table s' = page_table s2" using u(2) by (auto simp: fetch_read_def split: prod.splits)
  ultimately show ?thesis using none by (auto simp: fetch_page_def)
qed

theorem failed_fetch_leaves_mapping_witness:
  "\<exists>f. fst (fetch_page (PageId 3 2) (snd (fetch_page (PageId 3 2) pool_ex))) = Inr (Some f)"
proof -
  have pt: "page_table pool_ex = Map.empty" "find_victim_page pool_ex = (Some 0, pool_ex\<lparr>free_list := []\<rparr>)"
    by (simp_all add: pool_ex_def pool_new_def find_victim_page_def)
  have pg: "pages pool_ex = [new_frame]" "st_disk pool_ex = pool_disk" by (simp_all add: pool_ex_def pool_new_def)
  have up: "update_page 0 (PageId 3 2) (pool_ex\<lparr>free_list := []\<rparr>) =
      (Inr (), pool_ex\<lparr>free_list := [], pages := [fresh_page (PageId 3 2)], page_table := [PageId 3 2 \<mapsto> 0]\<rparr>)"
    by (simp add: update_page_def andThen_def pg pt(1) modify_def set_frame_def reset_memory_def fresh_page_def
        new_frame_def INVALID_PAGE_ID_def no_page_def)
  have "map_of (open_fds pool_disk) 3 = Some ''t''" using pool_disk_facts(1,3) by (simp add: disk_ok_def)
  then have "fst (read_page pool_disk 3 2 PAGE_SIZE mzero) = Inl (InternalError ''DiskManager::read_page Error'')"
    using pool_disk_facts(5)
    by (simp add: read_page_def fd_bytes_def LOG_FILE_NAME_def page_offset_def PAGE_SIZE_def to_signed_def
        pread_def two_pages_def Let_def)
  then obtain b where "read_page pool_disk 3 2 PAGE_SIZE mzero = (Inl (InternalError ''DiskManager::read_page Error''), b)"
    by (metis prod.collapse)
  then have "fst (fetch_page (PageId 3 2) pool_ex) = Inl (InternalError ''DiskManager::read_page Error'')"
    by (simp add: fetch_page_def pt up andThen_def fetch_read_def pg fresh_page_def)
  then have f: "fetch_page (PageId 3 2) pool_ex =
      (Inl (InternalError ''DiskManager::read_page Error''), snd (fetch_page (PageId 3 2) pool_ex))"
    by (metis prod.collapse)
  show ?thesis
    using failed_fetch_leaves_mapping [OF _ f] by (auto simp: valid_no_def)
qed

end
