(* ===== verification/Write_Ahead.thy ===== *)
theory Write_Ahead
  imports Buffer_Pool
begin

text \<open>
  Write-ahead logging. The disk records the writes in the order in which they are made; between two
  of them the server may stop. The theory proves for every call of the buffer pool, whatever it
  returns, that at each moment in which it writes a page the log file already holds every log record
  up to the LSN in that page.
\<close>

section \<open>The order of the writes\<close>

text \<open>The files after a write, and after the first writes of a list.\<close>

definition apply_write :: "string \<times> nat \<times> bytes \<Rightarrow> (string \<rightharpoonup> bytes) \<Rightarrow> (string \<rightharpoonup> bytes)" where
  "apply_write w fs =
     (case w of (path, off, bs) \<Rightarrow> fs(path \<mapsto> pwrite off bs (case fs path of None \<Rightarrow> [] | Some f \<Rightarrow> f)))"

text \<open>The LSN in the bytes of a page, as \<open>get_page_lsn\<close> reads it.\<close>

definition lsn_of_bytes :: "bytes \<Rightarrow> int" where
  "lsn_of_bytes b = to_signed 4 (le_decode (take 4 b))"

text \<open>The log file holds a prefix of the records, and among them all with an LSN up to \<open>L\<close>.\<close>

definition log_holds :: "bytes \<Rightarrow> log_record list \<Rightarrow> int \<Rightarrow> bytes option \<Rightarrow> bool" where
  "log_holds base rs L log \<longleftrightarrow> (\<exists>gs hs. rs = gs @ hs \<and> log = Some (base @ concat (map rec_bytes gs)) \<and>
     (\<forall>r \<in> set hs. L < lsn (hdr r)))"

text \<open>Whenever a page is written, the log file holds the records up to its LSN.\<close>

definition log_first :: "bytes \<Rightarrow> log_record list \<Rightarrow> (string \<rightharpoonup> bytes) \<Rightarrow> (string \<times> nat \<times> bytes) list \<Rightarrow> bool" where
  "log_first base rs fs ws \<longleftrightarrow> (\<forall>i < length ws. \<forall>path off b. ws ! i = (path, off, b) \<longrightarrow> path \<noteq> LOG_FILE_NAME \<longrightarrow>
     log_holds base rs (lsn_of_bytes b) (fold apply_write (take i ws) fs LOG_FILE_NAME))"

lemma log_first_Nil: "log_first base rs fs []"
  by (simp add: log_first_def)

lemma log_first_append:
  assumes "log_first base rs fs ws" "log_first base rs (fold apply_write ws fs) ws'"
  shows "log_first base rs fs (ws @ ws')"
  unfolding log_first_def
proof (intro allI impI)
  fix i path off b assume i: "i < length (ws @ ws')" "(ws @ ws') ! i = (path, off, b)" "path \<noteq> LOG_FILE_NAME"
  show "log_holds base rs (lsn_of_bytes b) (fold apply_write (take i (ws @ ws')) fs LOG_FILE_NAME)"
  proof (cases "i < length ws")
    case True
    with i assms(1) show ?thesis by (auto simp: log_first_def nth_append)
  next
    case False
    with i assms(2) [unfolded log_first_def, rule_format, of "i - length ws" path off b] show ?thesis
      by (auto simp: nth_append)
  qed
qed

text \<open>
  \<open>ordered base n0 rs s s'\<close>: from \<open>s\<close> to \<open>s'\<close> the files changed by the recorded writes alone, in
  that order, the log first; the records are still \<open>rs\<close>, in the file or in the buffer.
\<close>

definition logging :: "bytes \<Rightarrow> int \<Rightarrow> log_record list \<Rightarrow> storage \<Rightarrow> bool" where
  "logging base n0 rs s \<longleftrightarrow> log_attached s \<and>
     (\<exists>fs bs. log_inv base n0 fs bs (st_disk s, st_log s) \<and> fs @ bs = rs)"

definition ordered :: "bytes \<Rightarrow> int \<Rightarrow> log_record list \<Rightarrow> storage \<Rightarrow> storage \<Rightarrow> bool" where
  "ordered base n0 rs s s' \<longleftrightarrow> logging base n0 rs s' \<and>
     (\<forall>pid. data_id (st_disk s) pid \<longrightarrow> data_id (st_disk s') pid) \<and>
     (\<exists>ws. writes (st_disk s') = writes (st_disk s) @ ws \<and>
       files (st_disk s') = fold apply_write ws (files (st_disk s)) \<and>
       log_first base rs (files (st_disk s)) ws)"

lemma ordered_refl: "logging base n0 rs s \<Longrightarrow> ordered base n0 rs s s"
  by (auto simp: ordered_def intro: log_first_Nil)

lemma ordered_trans:
  assumes "ordered base n0 rs s s1" "ordered base n0 rs s1 s2"
  shows "ordered base n0 rs s s2"
proof -
  obtain ws where 1: "writes (st_disk s1) = writes (st_disk s) @ ws"
    "files (st_disk s1) = fold apply_write ws (files (st_disk s))" "log_first base rs (files (st_disk s)) ws"
    using assms(1) by (auto simp: ordered_def)
  obtain ws' where 2: "writes (st_disk s2) = writes (st_disk s1) @ ws'"
    "files (st_disk s2) = fold apply_write ws' (files (st_disk s1))" "log_first base rs (files (st_disk s1)) ws'"
    using assms(2) by (auto simp: ordered_def)
  have "log_first base rs (files (st_disk s)) (ws @ ws')"
    by (rule log_first_append [OF 1(3)]) (use 1(2) 2(3) in simp)
  with 1 2 assms show ?thesis
    by (auto simp: ordered_def intro!: exI [of _ "ws @ ws'"])
qed

text \<open>Changes of the pool alone, such as those of frames, tables and counters.\<close>

lemma logging_cong:
  "st_disk s' = st_disk s \<Longrightarrow> st_log s' = st_log s \<Longrightarrow> log_attached s' = log_attached s \<Longrightarrow>
    logging base n0 rs s' = logging base n0 rs s"
  by (simp add: logging_def)

lemma ordered_cong:
  "st_disk s' = st_disk t \<Longrightarrow> st_log s' = st_log t \<Longrightarrow> log_attached s' = log_attached t \<Longrightarrow>
    ordered base n0 rs s s' = ordered base n0 rs s t"
  by (simp add: ordered_def logging_def)

section \<open>Writing the log, then the page\<close>

lemma write_log_trace:
  assumes "disk_ok d" "log_fd_ok d" "write_log bs d = (r, d')" "files d LOG_FILE_NAME = Some f"
  shows "case r of
      Inl e \<Rightarrow> writes d' = writes d \<and> files d' = files d
    | Inr _ \<Rightarrow> writes d' = writes d @ [(LOG_FILE_NAME, length f, bs)] \<and>
        files d' = apply_write (LOG_FILE_NAME, length f, bs) (files d)"
proof (cases "open_log d")
  case (Pair r0 d0)
  note o = open_log_run [OF assms(1,2) Pair]
  have w0: "writes d0 = writes d"
    using Pair by (auto simp: open_log_def open_file_def os_open_def Let_def split: if_splits prod.splits sum.splits)
  show ?thesis
  proof (cases r0)
    case (Inl e)
    with Pair assms(3) o show ?thesis by (auto simp: write_log_def run_simps)
  next
    case (Inr u)
    then have l: "map_of (open_fds d0) (log_fd d0) = Some LOG_FILE_NAME"
      using o unfolding disk_ok_def by simp
    have f: "files d0 LOG_FILE_NAME = Some f" using o assms(4) by simp
    have "r = Inr () \<and> d' = d0\<lparr>files := (files d0)(LOG_FILE_NAME \<mapsto> f @ bs),
        writes := writes d0 @ [(LOG_FILE_NAME, length f, bs)]\<rparr>"
      using assms(3) Pair Inr l f by (simp add: write_log_def run_simps)
    with o w0 assms(4) show ?thesis by (simp add: apply_write_def pwrite_def)
  qed
qed

lemma log_inv_unpersisted:
  assumes "log_inv base n0 fs bs s" "r \<in> set bs"
  shows "persist_lsn (snd s) < lsn (hdr r)"
proof -
  have seq: "map (\<lambda>r. lsn (hdr r)) (fs @ bs) = [n0..global_lsn (snd s) - 1]" using assms(1) by (simp add: log_inv_def)
  have "sorted_wrt (<) (map (\<lambda>r. lsn (hdr r)) (fs @ bs))" unfolding seq by (rule sorted_wrt_upto)
  then have "fs \<noteq> [] \<Longrightarrow> lsn (hdr (last fs)) < lsn (hdr r)"
    using assms(2) by (auto simp: sorted_wrt_append)
  moreover have "lsn (hdr r) \<in> set [n0..global_lsn (snd s) - 1]"
    using assms(2) unfolding seq [symmetric] by auto
  ultimately show ?thesis using assms(1) by (auto simp: log_inv_def last_lsn_def)
qed

lemma flush_before_ordered:
  assumes "logging base n0 rs s" "flush_before f s = (r, s')"
  shows "ordered base n0 rs s s' \<and>
    (r = Inr () \<longrightarrow> log_holds base rs (get_page_lsn (pages s ! f)) (files (st_disk s') LOG_FILE_NAME))"
proof -
  obtain fs bs where i: "log_inv base n0 fs bs (st_disk s, st_log s)" and rs: "fs @ bs = rs"
    and at: "log_attached s" using assms(1) by (auto simp: logging_def)
  have ok: "disk_ok (st_disk s)" "log_fd_ok (st_disk s)" 
    and cur: "files (st_disk s) LOG_FILE_NAME = Some (base @ concat (map rec_bytes fs))"
    using i by (auto simp: log_inv_def)
  show ?thesis
  proof (cases "get_page_lsn (pages s ! f) > persist_lsn (st_log s)")
    case False
    then have s': "r = Inr ()" "s' = s" using assms(2) by (auto simp: flush_before_def)
    have "lsn (hdr r) > get_page_lsn (pages s ! f)" if "r \<in> set bs" for r
      using log_inv_unpersisted [OF i that] False by simp
    with rs cur have "log_holds base rs (get_page_lsn (pages s ! f)) (files (st_disk s) LOG_FILE_NAME)"
      by (auto simp: log_holds_def)
    with ordered_refl [OF assms(1)] s' show ?thesis by simp
  next
    case True
    obtain d' l' where fl: "flush_log_to_disk (st_disk s, st_log s) = (r, d', l')"
      and s': "s' = s\<lparr>st_disk := d', st_log := l'\<rparr>"
      using assms(2) True at by (auto simp: flush_before_def on_log_def zoom_def split: prod.splits)
    note run = flush_log_run [OF i fl]
    have keep: "data_id (st_disk s) pid \<Longrightarrow> data_id d' pid" for pid
      using flush_keeps_pages [OF ok fl] by blast
    have tr: "\<exists>ws. writes d' = writes (st_disk s) @ ws \<and> files d' = fold apply_write ws (files (st_disk s)) \<and>
        (\<forall>w \<in> set ws. fst w = LOG_FILE_NAME)"
    proof (cases "buf_offset (st_log s) > 0")
      case False
      with fl show ?thesis by (auto simp: flush_log_to_disk_def)
    next
      case True
      obtain r1 where "write_log (mread (buffer (st_log s)) 0 (nat (buf_offset (st_log s)))) (st_disk s) = (r1, d')"
        using fl True by (auto simp: flush_log_to_disk_def write_out_def split: prod.splits sum.splits)
      from write_log_trace [OF ok this cur] show ?thesis by (cases r1) auto
    qed
    then have first: "\<exists>ws. writes d' = writes (st_disk s) @ ws \<and> files d' = fold apply_write ws (files (st_disk s)) \<and>
        log_first base rs (files (st_disk s)) ws"
      by (fastforce simp: log_first_def dest: nth_mem)
    have "logging base n0 rs s'"
    proof (cases r)
      case (Inl e)
      with run rs at s' show ?thesis by (auto simp: logging_def)
    next
      case (Inr u)
      with run have "log_inv base n0 rs [] (st_disk s', st_log s')" using rs s' by simp
      with at s' show ?thesis by (auto simp: logging_def)
    qed
    with first keep s' have "ordered base n0 rs s s'" by (auto simp: ordered_def)
    moreover have "log_holds base rs (get_page_lsn (pages s ! f)) (files d' LOG_FILE_NAME)" if "r = Inr ()"
      unfolding log_holds_def
      by (rule exI [of _ rs], rule exI [of _ "[]"]) (use that run rs in \<open>simp add: log_inv_def\<close>)
    ultimately show ?thesis using s' by simp
  qed
qed

lemma lsn_of_page: "lsn_of_bytes (mread (pg_data p) 0 PAGE_SIZE) = get_page_lsn p"
  by (simp add: lsn_of_bytes_def get_page_lsn_def read_int_def mread_def PAGE_SIZE_def take_map)

lemma write_page_ordered:
  assumes "logging base n0 rs s" "data_id (st_disk s) (pg_id p)"
    "log_holds base rs (get_page_lsn p) (files (st_disk s) LOG_FILE_NAME)"
    "on_disk (write_page (pid_fd (pg_id p)) (pid_no (pg_id p)) (pg_data p) PAGE_SIZE) s = (r, s')"
  shows "ordered base n0 rs s s'"
proof -
  obtain d' where w: "write_page (pid_fd (pg_id p)) (pid_no (pg_id p)) (pg_data p) PAGE_SIZE (st_disk s) = (r, d')"
    and s': "s' = s\<lparr>st_disk := d'\<rparr>"
    using assms(4) by (auto simp: on_disk_def zoom_def split: prod.splits)
  obtain fs bs where i: "log_inv base n0 fs bs (st_disk s, st_log s)" and rs: "fs @ bs = rs"
    and at: "log_attached s" using assms(1) by (auto simp: logging_def)
  then have ok: "disk_ok (st_disk s)" by (simp add: log_inv_def)
  obtain path where path: "fd2path (st_disk s) (pid_fd (pg_id p)) = Some path" "path \<noteq> LOG_FILE_NAME"
    using assms(2) by (auto simp: data_id_def)
  note run = write_page_run [OF ok w]
  have "log_inv base n0 fs bs (d', st_log s)"
    using i run path by (cases r) (auto simp: log_inv_def log_fd_ok_def)
  then have "logging base n0 rs s'" using rs at s' by (auto simp: logging_def)
  moreover have "data_id d' q" if "data_id (st_disk s) q" for q
    using that run by (auto simp: data_id_def)
  moreover have "\<exists>ws. writes d' = writes (st_disk s) @ ws \<and> files d' = fold apply_write ws (files (st_disk s)) \<and>
      log_first base rs (files (st_disk s)) ws"
  proof (cases r)
    case (Inl e)
    with run show ?thesis by (auto intro: log_first_Nil)
  next
    case (Inr u)
    let ?w = "(path, nat (page_offset (pid_no (pg_id p))), mread (pg_data p) 0 PAGE_SIZE)"
    have "map_of (open_fds (st_disk s)) (pid_fd (pg_id p)) = Some path" using ok path by (simp add: disk_ok_def)
    then have "writes d' = writes (st_disk s) @ [?w] \<and> files d' = fold apply_write [?w] (files (st_disk s))"
      using w Inr by (auto simp: write_page_def apply_write_def split: option.splits if_splits)
    moreover have "log_first base rs (files (st_disk s)) [?w]"
      using assms(3) by (simp add: log_first_def lsn_of_page)
    ultimately show ?thesis by blast
  qed
  ultimately show ?thesis using s' by (simp add: ordered_def)
qed

lemma write_back_ordered:
  assumes "logging base n0 rs s" "data_id (st_disk s) (pg_id (pages s ! f))" "write_back f s = (r, s')"
  shows "ordered base n0 rs s s'"
proof -
  let ?p = "pages s ! f"
  obtain r1 s1 where fb: "flush_before f s = (r1, s1)" by (meson surj_pair)
  note o1 = flush_before_ordered [OF assms(1) fb]
  have "log_ok s" using assms(1) by (auto simp: logging_def log_ok_def)
  then have same: "pages s1 = pages s" using flush_before_run [OF _ fb] by (simp add: same_pool_def)
  show ?thesis
  proof (cases r1)
    case (Inl e)
    with fb assms(3) o1 show ?thesis by (auto simp: write_back_def run_simps)
  next
    case (Inr u)
    obtain r2 s2 where w: "on_disk (write_page (pid_fd (pg_id ?p)) (pid_no (pg_id ?p)) (pg_data ?p) PAGE_SIZE) s1 = (r2, s2)"
      by (meson surj_pair)
    have "ordered base n0 rs s1 s2"
      by (rule write_page_ordered [OF _ _ _ w]) (use o1 Inr assms(2) in \<open>auto simp: ordered_def\<close>)
    with o1 have o2: "ordered base n0 rs s s2" using ordered_trans by blast
    have "s' = (case r2 of Inl e \<Rightarrow> s2 | Inr _ \<Rightarrow> set_frame f (is_dirty_update (\<lambda>_. False)) s2)"
      using assms(3) fb Inr w same by (auto simp: write_back_def andThen_def modify_def Let_def split: sum.splits prod.splits)
    with o2 ordered_cong [of "set_frame f (is_dirty_update (\<lambda>_. False)) s2" s2 base n0 rs s] show ?thesis
      by (auto split: sum.splits)
  qed
qed

lemma clean_ordered:
  assumes "logging base n0 rs s" "is_dirty (pages s ! f) \<Longrightarrow> data_id (st_disk s) (pg_id (pages s ! f))"
    "clean_if_dirty f s = (r, s')"
  shows "ordered base n0 rs s s'"
  using write_back_ordered [OF assms(1)] ordered_refl [OF assms(1)] assms(2,3)
  by (auto simp: clean_if_dirty_def split: if_splits)

section \<open>The calls of the pool\<close>

lemma andThen_ordered:
  assumes "andThen m k s = (r, s')" "\<And>r1 s1. m s = (r1, s1) \<Longrightarrow> ordered base n0 rs s s1"
    "\<And>a s1 r2 s2. m s = (Inr a, s1) \<Longrightarrow> logging base n0 rs s1 \<Longrightarrow> k a s1 = (r2, s2) \<Longrightarrow> ordered base n0 rs s1 s2"
  shows "ordered base n0 rs s s'"
proof (cases "m s")
  case (Pair r1 s1)
  note o1 = assms(2) [OF Pair]
  show ?thesis
  proof (cases r1)
    case (Inl e)
    with Pair assms(1) o1 show ?thesis by (simp add: andThen_def)
  next
    case (Inr a)
    with Pair assms(1) have k: "k a s1 = (r, s')" by (simp add: andThen_def)
    have "logging base n0 rs s1" using o1 by (simp add: ordered_def)
    from ordered_trans [OF o1 assms(3) [OF Pair [unfolded Inr] this k]] show ?thesis .
  qed
qed

lemma quiet_ordered:
  assumes "logging base n0 rs s" "st_disk s' = st_disk s" "st_log s' = st_log s" "log_attached s' = log_attached s"
  shows "ordered base n0 rs s s'"
  using ordered_cong [OF assms(2-4)] ordered_refl [OF assms(1)] by simp

lemmas quiet = quiet_ordered [OF _ refl refl refl]

lemma update_page_ordered:
  assumes "logging base n0 rs s" "is_dirty (pages s ! f) \<Longrightarrow> data_id (st_disk s) (pg_id (pages s ! f))"
    "update_page f pid s = (r, s')"
  shows "ordered base n0 rs s s'"
  using assms(3) unfolding update_page_def clean_if_dirty_def [symmetric]
  by (rule andThen_ordered) (auto intro: clean_ordered [OF assms(1,2)] simp: modify_def Let_def
      elim!: quiet_ordered)

text \<open>The frames hold pages of open data files, or nothing to write.\<close>

definition owns_frames :: "storage \<Rightarrow> bool" where
  "owns_frames s \<longleftrightarrow> (\<forall>f < length (pages s). is_dirty (pages s ! f) \<longrightarrow> data_id (st_disk s) (pg_id (pages s ! f)))"

lemma pool_ok_owns: "pool_ok s \<Longrightarrow> owns_frames s"
  by (auto simp: owns_frames_def pool_ok_def table_ok_def frames_ok_def)

lemma find_victim_quiet:
  assumes "pool_ok s" "find_victim_page s = (x, s1)"
  shows "st_disk s1 = st_disk s \<and> st_log s1 = st_log s \<and> log_attached s1 = log_attached s \<and> pages s1 = pages s \<and>
    (\<forall>f. x = Some f \<longrightarrow> f < length (pages s))"
  using find_victim_run [OF _ assms(2)] assms(1) by (auto simp: pool_ok_def split: option.splits)

lemma fetch_page_ordered:
  assumes "pool_ok s" "logging base n0 rs s" "fetch_page pid s = (r, s')"
  shows "ordered base n0 rs s s'"
proof (cases "page_table s pid")
  case (Some f)
  with assms show ?thesis by (auto simp: fetch_page_def pin_frame_pages elim!: quiet_ordered)
next
  case None
  obtain x s1 where v: "find_victim_page s = (x, s1)" by (meson surj_pair)
  note q = find_victim_quiet [OF assms(1) v]
  have l1: "logging base n0 rs s1" "ordered base n0 rs s s1"
    using q assms(2) quiet_ordered logging_cong by metis+
  show ?thesis
  proof (cases x)
    case None
    with v \<open>page_table s pid = None\<close> assms(3) l1 show ?thesis by (simp add: fetch_page_def)
  next
    case (Some f)
    have run: "andThen (update_page f pid) (\<lambda>_. andThen (fetch_read f pid)
        (\<lambda>_. andThen (modify (pin_frame f (\<lambda>_. 1))) (\<lambda>_. ret (Some f)))) s1 = (r, s')"
      using assms(3) v Some None by (simp add: fetch_page_def)
    have "owns_frames s" by (rule pool_ok_owns [OF assms(1)])
    then have own: "is_dirty (pages s1 ! f) \<Longrightarrow> data_id (st_disk s1) (pg_id (pages s1 ! f))"
      using q Some by (simp add: owns_frames_def)
    have "ordered base n0 rs s1 s'"
      using run
    proof (rule andThen_ordered)
      fix a s2 r2 s3
      assume l: "logging base n0 rs s2" and *: "andThen (fetch_read f pid)
        (\<lambda>_. andThen (modify (pin_frame f (\<lambda>_. 1))) (\<lambda>_. ret (Some f))) s2 = (r2, s3)"
      have "st_disk s3 = st_disk s2 \<and> st_log s3 = st_log s2 \<and> log_attached s3 = log_attached s2"
        using * by (auto simp: andThen_def fetch_read_def modify_def ret_def pin_frame_pages
            split: prod.splits sum.splits)
      then show "ordered base n0 rs s2 s3" using l by (auto intro: quiet_ordered)
    qed (rule update_page_ordered [OF l1(1) own])
    with l1(2) show ?thesis by (rule ordered_trans)
  qed
qed

lemma allocate_ordered:
  assumes "logging base n0 rs s" "on_disk (allocate_page fd) s = (r, s')"
  shows "ordered base n0 rs s s'"
proof -
  have s': "\<exists>x. s' = s\<lparr>st_disk := (st_disk s)\<lparr>fd2pageno := x\<rparr>\<rparr>"
    using assms(2) by (auto simp: on_disk_def zoom_def allocate_page_def intro: exI [of _ "fd2pageno (st_disk s)"]
      split: if_splits)
  then have "logging base n0 rs s'" using assms(1) by (auto simp: logging_def log_inv_def log_fd_ok_def)
  with s' show ?thesis by (auto simp: ordered_def data_id_def log_first_Nil)
qed

lemma new_page_ordered:
  assumes "pool_ok s" "logging base n0 rs s" "new_page fd s = (r, s')"
  shows "ordered base n0 rs s s'"
proof -
  obtain x s1 where v: "find_victim_page s = (x, s1)" by (meson surj_pair)
  note q = find_victim_quiet [OF assms(1) v]
  have l1: "logging base n0 rs s1" "ordered base n0 rs s s1"
    using q assms(2) quiet_ordered logging_cong by metis+
  show ?thesis
  proof (cases x)
    case None
    with v assms(3) l1 show ?thesis by (simp add: new_page_def)
  next
    case (Some f)
    have run: "andThen (on_disk (allocate_page fd)) (\<lambda>no. andThen (update_page f (PageId fd no))
         (\<lambda>_. andThen (modify (pin_frame f (\<lambda>_. 1))) (\<lambda>_. ret (Some (no, f))))) s1 = (r, s')"
      using assms(3) v Some by (simp add: new_page_def)
    have "owns_frames s" by (rule pool_ok_owns [OF assms(1)])
    then have own: "is_dirty (pages s1 ! f) \<Longrightarrow> data_id (st_disk s1) (pg_id (pages s1 ! f))"
      using q Some by (simp add: owns_frames_def)
    have "ordered base n0 rs s1 s'"
      using run
    proof (rule andThen_ordered)
      fix r1 s2 assume "on_disk (allocate_page fd) s1 = (r1, s2)"
      then show "ordered base n0 rs s1 s2" by (rule allocate_ordered [OF l1(1)])
    next
      fix no s2 r3 s3
      assume a: "on_disk (allocate_page fd) s1 = (Inr no, s2)" and l: "logging base n0 rs s2"
        and *: "andThen (update_page f (PageId fd no))
         (\<lambda>_. andThen (modify (pin_frame f (\<lambda>_. 1))) (\<lambda>_. ret (Some (no, f)))) s2 = (r3, s3)"
      have "pages s2 = pages s1" "\<And>p. data_id (st_disk s2) p = data_id (st_disk s1) p"
        using a by (auto simp: on_disk_def zoom_def allocate_page_def data_id_def split: if_splits)
      then have own2: "is_dirty (pages s2 ! f) \<Longrightarrow> data_id (st_disk s2) (pg_id (pages s2 ! f))" using own by simp
      show "ordered base n0 rs s2 s3"
        using *
      proof (rule andThen_ordered)
        fix b s4 r5 s5
        assume l: "logging base n0 rs s4" and *: "andThen (modify (pin_frame f (\<lambda>_. 1))) (\<lambda>_. ret (Some (no, f))) s4 = (r5, s5)"
        have "st_disk s5 = st_disk s4 \<and> st_log s5 = st_log s4 \<and> log_attached s5 = log_attached s4"
          using * by (auto simp: run_simps pin_frame_pages)
        then show "ordered base n0 rs s4 s5" using l by (auto intro: quiet_ordered)
      qed (rule update_page_ordered [OF l own2])
    qed
    with l1(2) show ?thesis by (rule ordered_trans)
  qed
qed

lemma flush_page_ordered:
  assumes "pool_ok s" "logging base n0 rs s" "flush_page pid s = (r, s')"
  shows "ordered base n0 rs s s'"
proof (cases "page_table s pid")
  case None
  with assms ordered_refl show ?thesis by (auto simp: flush_page_def)
next
  case (Some f)
  then have d: "data_id (st_disk s) (pg_id (pages s ! f))"
    using assms(1) by (auto simp: pool_ok_def table_ok_def)
  have "andThen (write_back f) (\<lambda>_. ret True) s = (r, s')" using assms(3) Some by (simp add: flush_page_def)
  then show ?thesis
    by (rule andThen_ordered) (auto simp: ret_def intro: write_back_ordered [OF assms(2) d] ordered_refl)
qed

lemma release_frame_quiet:
  "st_disk (release_frame f s) = st_disk s" "st_log (release_frame f s) = st_log s"
  "log_attached (release_frame f s) = log_attached s"
  by (simp_all add: release_frame_def Let_def)

lemma delete_page_ordered:
  assumes "pool_ok s" "logging base n0 rs s" "delete_page pid s = (r, s')"
  shows "ordered base n0 rs s s'"
proof (cases "page_table s pid")
  case None
  with assms ordered_refl show ?thesis by (auto simp: delete_page_def)
next
  case (Some f)
  then have d: "data_id (st_disk s) (pg_id (pages s ! f))"
    using assms(1) by (auto simp: pool_ok_def table_ok_def)
  show ?thesis
  proof (cases "pin_count (pages s ! f) > 0")
    case True
    with Some assms ordered_refl show ?thesis by (auto simp: delete_page_def)
  next
    case False
    then have "andThen (clean_if_dirty f) (\<lambda>_. andThen (modify (release_frame f)) (\<lambda>_. ret True)) s = (r, s')"
      using assms(3) Some by (simp add: delete_page_def clean_if_dirty_def [abs_def])
    then show ?thesis
    proof (rule andThen_ordered)
      fix a s1 r2 s2
      assume l: "logging base n0 rs s1" and *: "andThen (modify (release_frame f)) (\<lambda>_. ret True) s1 = (r2, s2)"
      then have "s2 = release_frame f s1" by (simp add: run_simps)
      then show "ordered base n0 rs s1 s2" using l by (auto simp: release_frame_quiet intro: quiet_ordered)
    qed (rule clean_ordered [OF assms(2) d])
  qed
qed

text \<open>The loops over the frames.\<close>

lemma clean_owns:
  assumes "logging base n0 rs s" "owns_frames s" "f < length (pages s)" "clean_if_dirty f s = (r, s')"
  shows "ordered base n0 rs s s' \<and> owns_frames s' \<and> length (pages s') = length (pages s)"
proof -
  have d: "is_dirty (pages s ! f) \<longrightarrow> data_id (st_disk s) (pg_id (pages s ! f))"
    using assms(2,3) by (simp add: owns_frames_def)
  have "log_ok s" using assms(1) by (auto simp: logging_def log_ok_def)
  note run = clean_if_dirty_run [OF this d assms(4)] and o = clean_ordered [OF assms(1) _ assms(4)]
  have keep: "data_id (st_disk s) q \<Longrightarrow> data_id (st_disk s') q" for q using o d by (auto simp: ordered_def)
  have pg: "pages s' = pages s \<or> pages s' = (pages s)[f := (pages s ! f)\<lparr>is_dirty := False\<rparr>]"
    using run by (auto simp: same_pool_def cleaned_def pages_set_frame split: sum.splits)
  then have len: "length (pages s') = length (pages s)" by auto
  have "is_dirty (pages s' ! g) \<Longrightarrow> is_dirty (pages s ! g) \<and> pg_id (pages s' ! g) = pg_id (pages s ! g)" for g
    using pg assms(3) by (cases "g = f") auto
  then have "owns_frames s'" using assms(2) keep len unfolding owns_frames_def by metis
  with o d len show ?thesis by auto
qed

lemma for_frames_ordered:
  assumes "logging base n0 rs s" "owns_frames s" "\<forall>f \<in> set fs. f < length (pages s)"
    "\<And>f s r s'. logging base n0 rs s \<Longrightarrow> owns_frames s \<Longrightarrow> f < length (pages s) \<Longrightarrow> g f s = (r, s') \<Longrightarrow>
      ordered base n0 rs s s' \<and> owns_frames s' \<and> length (pages s') = length (pages s)"
    "for_frames g fs s = (r, s')"
  shows "ordered base n0 rs s s'"
  using assms(1-3,5)
proof (induction fs arbitrary: s r s')
  case Nil
  then show ?case by (auto simp: ret_def intro: ordered_refl)
next
  case (Cons f fs)
  show ?case
    using Cons.prems(4) [unfolded for_frames.simps]
  proof (rule andThen_ordered)
    fix r1 s1 assume "g f s = (r1, s1)"
    with assms(4) [OF Cons.prems(1,2)] Cons.prems(3) show "ordered base n0 rs s s1" by auto
  next
    fix a s1 r2 s2 assume g: "g f s = (Inr a, s1)" and l: "logging base n0 rs s1" and fr: "for_frames g fs s1 = (r2, s2)"
    have "owns_frames s1 \<and> length (pages s1) = length (pages s)"
      using assms(4) [OF Cons.prems(1,2) _ g] Cons.prems(3) by auto
    then show "ordered base n0 rs s1 s2"
      using Cons.IH [OF l] fr Cons.prems(3) by auto
  qed
qed

lemma flush_frame_ordered:
  assumes "logging base n0 rs s" "owns_frames s" "f < length (pages s)" "flush_frame fd f s = (r, s')"
  shows "ordered base n0 rs s s' \<and> owns_frames s' \<and> length (pages s') = length (pages s)"
proof (cases "of_file fd (pages s ! f) \<and> is_dirty (pages s ! f)")
  case True
  with assms(4) have "clean_if_dirty f s = (r, s')" by (simp add: flush_frame_def clean_if_dirty_def)
  from clean_owns [OF assms(1-3) this] show ?thesis .
next
  case False
  with assms ordered_refl show ?thesis by (auto simp: flush_frame_def)
qed

lemma delete_frame_ordered:
  assumes "logging base n0 rs s" "owns_frames s" "f < length (pages s)" "delete_frame fd f s = (r, s')"
  shows "ordered base n0 rs s s' \<and> owns_frames s' \<and> length (pages s') = length (pages s)"
proof (cases "of_file fd (pages s ! f)")
  case False
  with assms ordered_refl show ?thesis by (auto simp: delete_frame_def)
next
  case True
  obtain r1 s1 where c: "clean_if_dirty f s = (r1, s1)" by (meson surj_pair)
  note o = clean_owns [OF assms(1-3) c]
  have d: "is_dirty (pages s ! f) \<longrightarrow> data_id (st_disk s) (pg_id (pages s ! f))"
    using assms(2,3) by (simp add: owns_frames_def)
  have "log_ok s" using assms(1) by (auto simp: logging_def log_ok_def)
  note run = clean_if_dirty_run [OF this d c]
  let ?free = "\<lambda>s. release_frame f (set_frame f (pin_count_update (\<lambda>_. 0)) s)"
  have eq: "(r, s') = (case r1 of Inl e \<Rightarrow> (Inl e, s1) | Inr _ \<Rightarrow> (Inr (), ?free s1))"
    using assms(4) True c unfolding delete_frame_def
    by (cases r1) (auto simp: andThen_def clean_if_dirty_def modify_def split: if_splits)
  show ?thesis
  proof (cases r1)
    case (Inl e)
    with eq o show ?thesis by simp
  next
    case (Inr u)
    with eq have s': "s' = ?free s1" by simp
    have clean: "\<not> is_dirty (pages s1 ! f)"
      using run Inr assms(3) by (auto simp: cleaned_def same_pool_def pages_set_frame)
    have pg: "pages s' ! h = (if h = f then reset_memory ((pin_count_update (\<lambda>_. 0) (pages s1 ! f))\<lparr>pg_id := no_page\<rparr>)
        else pages s1 ! h)" for h
      using o assms(3) by (simp add: s' release_frame_def pages_set_frame Let_def nth_list_update)
    have "\<not> is_dirty (pages s' ! f)" using clean by (simp add: pg reset_memory_def) 
    moreover have len: "length (pages s') = length (pages s)"
      using o by (simp add: s' release_frame_def Let_def pages_set_frame)
    moreover have "st_disk s' = st_disk s1" by (simp add: s' release_frame_quiet)
    ultimately have "owns_frames s'"
      using o pg unfolding owns_frames_def by metis
    moreover have "ordered base n0 rs s s'"
      using o ordered_cong [of s' s1 base n0 rs s] by (simp add: s' release_frame_quiet)
    moreover note len
    ultimately show ?thesis by blast
  qed
qed

lemma pool_run_ordered:
  assumes "pool_ok s" "logging base n0 rs s" "pool_run c s = (r, s')"
  shows "ordered base n0 rs s s'"
proof -
  note own = pool_ok_owns [OF assms(1)] and fin = ordered_refl
  have frames: "\<forall>f \<in> set [0..<length (pages s)]. f < length (pages s)" by simp
  show ?thesis
  proof (cases c)
    case (Fetch pid)
    then show ?thesis using assms(3)
      by (auto simp: ret_def intro: fetch_page_ordered [OF assms(1,2)] fin elim!: andThen_ordered)
  next
    case (Unpin pid d)
    have "st_disk s' = st_disk s \<and> st_log s' = st_log s \<and> log_attached s' = log_attached s"
      using assms(3) Unpin by (auto simp: unpin_page_def Let_def mark_dirty_def split: option.splits if_splits prod.splits)
    then show ?thesis using assms(2) by (auto intro: quiet_ordered)
  next
    case (FlushPage pid)
    then show ?thesis using assms(3)
      by (auto simp: ret_def intro: flush_page_ordered [OF assms(1,2)] fin elim!: andThen_ordered)
  next
    case (New fd)
    then show ?thesis using assms(3)
      by (auto simp: ret_def intro: new_page_ordered [OF assms(1,2)] fin elim!: andThen_ordered)
  next
    case (Delete pid)
    then show ?thesis using assms(3)
      by (auto simp: ret_def intro: delete_page_ordered [OF assms(1,2)] fin elim!: andThen_ordered)
  next
    case (FlushAll fd)
    then show ?thesis using assms(3)
      by (auto simp: ret_def flush_all_pages_def intro: for_frames_ordered [OF assms(2) own frames flush_frame_ordered] fin
          elim!: andThen_ordered)
  next
    case (DeleteAll fd)
    then show ?thesis using assms(3)
      by (auto simp: ret_def delete_all_pages_def intro: for_frames_ordered [OF assms(2) own frames delete_frame_ordered] fin
          elim!: andThen_ordered)
  next
    case (Write f g)
    then have "s' = write_frame f g s" using assms(3) by (simp add: run_simps)
    then show ?thesis using assms(2) by (auto simp: write_frame_def intro: quiet_ordered)
  qed
qed

section \<open>Properties\<close>

text \<open>
  Claim C24. Write-ahead logging, in every call of the buffer pool and whatever it returns: the call
  changes files only by the writes it makes, in the order in which it makes them, and at each moment
  where it writes a page - evicting it for another one, flushing it or deleting it - the log file
  already holds every log record whose LSN is at most the LSN in the bytes written. A page
  \<open>flush_page\<close> reports as flushed is on disk.
\<close>

theorem write_ahead:
  assumes "pool_ok s" "log_attached s" "log_inv base n0 fs bs (st_disk s, st_log s)" "pool_run c s = (r, s')"
  shows "(\<exists>ws. writes (st_disk s') = writes (st_disk s) @ ws \<and>
      files (st_disk s') = fold apply_write ws (files (st_disk s)) \<and>
      (\<forall>i path off b. i < length ws \<and> ws ! i = (path, off, b) \<and> path \<noteq> LOG_FILE_NAME \<longrightarrow>
        (\<exists>gs hs. fs @ bs = gs @ hs \<and>
          fold apply_write (take i ws) (files (st_disk s)) LOG_FILE_NAME = Some (base @ concat (map rec_bytes gs)) \<and>
          (\<forall>r \<in> set hs. lsn_of_bytes b < lsn (hdr r))))) \<and>
    (\<forall>pid f. c = FlushPage pid \<and> page_table s pid = Some f \<and> r = Inr (RBool True) \<longrightarrow>
      id_page (st_disk s') pid = Some (own_page s f))"
proof -
  have "logging base n0 (fs @ bs) s" using assms(2,3) by (auto simp: logging_def)
  from pool_run_ordered [OF assms(1) this assms(4)]
  obtain ws where "writes (st_disk s') = writes (st_disk s) @ ws"
    "files (st_disk s') = fold apply_write ws (files (st_disk s))" "log_first base (fs @ bs) (files (st_disk s)) ws"
    by (auto simp: ordered_def)
  moreover have "id_page (st_disk s') pid = Some (own_page s f)"
    if "c = FlushPage pid" "page_table s pid = Some f" "r = Inr (RBool True)" for pid f
  proof -
    have d: "log_ok s" "data_id (st_disk s) (pg_id (pages s ! f))" "pg_id (pages s ! f) = pid"
      using assms(1) that(2) by (auto simp: pool_ok_def table_ok_def)
    note run = assms(4) [unfolded that(1,3)] and tab = that(2)
    obtain s1 where "write_back f s = (Inr (), s1)" "s' = s1"
      using run tab by (auto simp: flush_page_def andThen_eq_Inr ret_def)
    with write_back_run [OF d(1,2), of "Inr ()" s1] d(3) show ?thesis by simp
  qed
  ultimately show ?thesis unfolding log_first_def log_holds_def by blast
qed

lemma write_log_succeeds:
  assumes "disk_ok d" "log_fd_ok d" "log_fd d \<noteq> -1 \<or> path2fd d LOG_FILE_NAME = None" "files d LOG_FILE_NAME \<noteq> None"
  shows "\<exists>d'. write_log bs d = (Inr (), d')"
proof -
  obtain r0 d0 where o: "open_log d = (r0, d0)" by (meson surj_pair)
  note run = open_log_run [OF assms(1,2) o]
  have ok: "r0 = Inr ()"
    using o assms(3,4) by (auto simp: open_log_def open_file_def is_file_def os_open_def Let_def split: if_splits)
  then have "map_of (open_fds d0) (log_fd d0) = Some LOG_FILE_NAME" "files d0 LOG_FILE_NAME \<noteq> None"
    using run assms(4) by (auto simp: disk_ok_def)
  with o ok show ?thesis by (auto simp: write_log_def andThen_def)
qed

lemma write_back_succeeds:
  assumes "log_ok s" "data_id (st_disk s) (pg_id (pages s ! f))"
    "log_fd (st_disk s) \<noteq> -1 \<or> path2fd (st_disk s) LOG_FILE_NAME = None"
  shows "\<exists>s'. write_back f s = (Inr (), s')"
proof -
  obtain r s1 where fb: "flush_before f s = (r, s1)" by (meson surj_pair)
  from assms(1) have d: "disk_ok (st_disk s)" "log_fd_ok (st_disk s)" "files (st_disk s) LOG_FILE_NAME \<noteq> None"
    by (auto simp: log_ok_def log_inv_def)
  have "r = Inr ()"
    using fb write_log_succeeds [OF d(1,2) assms(3) d(3), of "mread (buffer (st_log s)) 0 (nat (buf_offset (st_log s)))"]
    by (auto simp: flush_before_def on_log_def zoom_def flush_log_to_disk_def write_out_def split: if_splits prod.splits)
  note run = flush_before_run [OF assms(1) fb]
  have k: "data_id (st_disk s1) (pg_id (pages s ! f))" "log_ok s1" "pages s1 = pages s"
    using run assms(2) by (auto simp: disk_keeps_def same_pool_def)
  let ?p = "pages s ! f"
  obtain r2 s2 where w: "on_disk (write_page (pid_fd (pg_id ?p)) (pid_no (pg_id ?p)) (pg_data ?p) PAGE_SIZE) s1 = (r2, s2)"
    by (meson surj_pair)
  with write_data_page [OF k(2,1) w] fb \<open>r = Inr ()\<close> k(3) show ?thesis
    by (auto simp: write_back_def run_simps Let_def)
qed

definition wal_ex :: storage where
  "wal_ex = pool_ex1\<lparr>st_log := snd (append_record (BeginLogRecord 1) log_manager_new),
     pages := [\<lparr>pg_id = PageId 3 0, pg_data = mzero, is_dirty = True, pin_count = 1\<rparr>]\<rparr>"

lemma wal_ex_ok: "pool_ok wal_ex" "get_page_lsn (pages wal_ex ! 0) = 0" "global_lsn (st_log wal_ex) = 1"
  "st_disk wal_ex = pool_disk" "page_table wal_ex (PageId 3 0) = Some 0" "log_attached wal_ex"
proof -
  have "rec_ok (BeginLogRecord 1)"
    by (rule new_records_ok [where v = "[]" and w = "[]" and r = "Rid 0 0" and tab = "[]"])
      (simp_all add: in_signed_def rid_fits_def)
  moreover have "log_inv [] 0 [] [] (pool_disk, log_manager_new)"
    using pool_disk_facts
    by (simp add: log_inv_def log_manager_new_def buffered_def last_lsn_def INVALID_LSN_def mread_def)
  ultimately have "\<exists>r. log_inv [] 0 [] [r] (pool_disk, snd (append_record (BeginLogRecord 1) log_manager_new))"
    using append_record_run [of "[]" 0 "[]" "[]" pool_disk log_manager_new "BeginLogRecord 1"]
    by (cases "append_record (BeginLogRecord 1) log_manager_new") (fastforce simp: log_manager_new_def)
  moreover show d: "st_disk wal_ex = pool_disk" "page_table wal_ex (PageId 3 0) = Some 0" "log_attached wal_ex"
    by (simp_all add: wal_ex_def pool_ex1_def pool_ex_def pool_new_def)
  ultimately have l: "log_ok wal_ex" unfolding log_ok_def by (simp add: wal_ex_def) blast
  have pp: "pages wal_ex = [\<lparr>pg_id = PageId 3 0, pg_data = mzero, is_dirty = True, pin_count = 1\<rparr>]"
    "page_table wal_ex = [PageId 3 0 \<mapsto> 0]" "free_list wal_ex = []" "lru_of wal_ex = lru_new 1"
    by (simp_all add: wal_ex_def pool_ex1_def pool_ex_def pool_new_def)
  have "table_ok wal_ex" unfolding table_ok_def pp d
    using pool_disk_facts by (auto simp: data_id_def valid_no_def LOG_FILE_NAME_def split: if_splits)
  moreover have "frames_ok wal_ex" unfolding frames_ok_def pp
    by (simp add: mapped_def INVALID_PAGE_ID_def lru_new_ok) (simp add: lru_new_def lru_frames_def)
  ultimately show "pool_ok wal_ex" using l by (simp add: pool_ok_def)
  show "get_page_lsn (pages wal_ex ! 0) = 0" "global_lsn (st_log wal_ex) = 1"
    by (simp_all add: get_page_lsn_def wal_ex_def read_int_def mread_def mzero_def numeral_eq_Suc to_signed_def
      append_record_def log_manager_new_def Let_def)
qed

theorem write_ahead_witness:
  "\<exists>s' ws. pool_run (FlushPage (PageId 3 0)) wal_ex = (Inr (RBool True), s') \<and>
    writes (st_disk s') = writes (st_disk wal_ex) @ ws \<and>
    id_page (st_disk s') (PageId 3 0) = Some (own_page wal_ex 0)"
proof -
  have ok: "log_ok wal_ex" "data_id (st_disk wal_ex) (pg_id (pages wal_ex ! 0))"
    using wal_ex_ok(1,5) by (auto simp: pool_ok_def table_ok_def)
  moreover have "path2fd (st_disk wal_ex) LOG_FILE_NAME = None"
  proof (cases "path2fd pool_disk LOG_FILE_NAME")
    case (Some fd)
    then have "fd2path pool_disk fd = Some LOG_FILE_NAME" using pool_disk_facts(1) by (simp add: disk_ok_def)
    then show ?thesis by (simp add: pool_disk_facts(3) LOG_FILE_NAME_def split: if_splits)
  qed (simp add: wal_ex_ok(4))
  ultimately obtain s' where "write_back 0 wal_ex = (Inr (), s')" using write_back_succeeds by blast
  then have w: "pool_run (FlushPage (PageId 3 0)) wal_ex = (Inr (RBool True), s')"
    using wal_ex_ok(5) by (simp add: flush_page_def run_simps)
  from ok(1) obtain base n0 fs bs where "log_inv base n0 fs bs (st_disk wal_ex, st_log wal_ex)"
    by (auto simp: log_ok_def)
  from write_ahead [OF wal_ex_ok(1,6) this w] w wal_ex_ok(5) show ?thesis by auto
qed

end
