(* ===== verification/Bitmap.thy ===== *)
theory Bitmap
  imports Rmdb_Base
begin

text \<open>
  The slot bitmap of a record page, \<^verbatim>\<open>src/src/record/bitmap.h\<close>: bit \<open>pos\<close> is the bit of weight
  \<^verbatim>\<open>0x80 >> (pos mod 8)\<close> of byte \<open>pos div 8\<close>. The bitmap starts at offset \<open>bm\<close> of a memory.
\<close>

definition BITMAP_WIDTH :: nat where "BITMAP_WIDTH = 8"

definition get_bucket :: "nat \<Rightarrow> nat" where
  "get_bucket pos = pos div BITMAP_WIDTH"

definition get_bit :: "nat \<Rightarrow> byte" where
  "get_bit pos = drop_bit (pos mod BITMAP_WIDTH) 0x80"

definition bm_init :: "mem \<Rightarrow> nat \<Rightarrow> nat \<Rightarrow> mem" where
  "bm_init m bm n = mwrite m bm (replicate n 0)"

definition bm_set :: "mem \<Rightarrow> nat \<Rightarrow> nat \<Rightarrow> mem" where
  "bm_set m bm pos = m(bm + get_bucket pos := m (bm + get_bucket pos) OR get_bit pos)"

definition bm_reset :: "mem \<Rightarrow> nat \<Rightarrow> nat \<Rightarrow> mem" where
  "bm_reset m bm pos = m(bm + get_bucket pos := m (bm + get_bucket pos) AND NOT (get_bit pos))"

definition bm_is_set :: "mem \<Rightarrow> nat \<Rightarrow> nat \<Rightarrow> bool" where
  "bm_is_set m bm pos \<longleftrightarrow> m (bm + get_bucket pos) AND get_bit pos \<noteq> 0"

text \<open>The loop of \<open>next_bit\<close> from \<open>i\<close> on; \<open>next_bit\<close> starts it at \<open>cur + 1\<close>.\<close>

function scan_bits :: "bool \<Rightarrow> mem \<Rightarrow> nat \<Rightarrow> int \<Rightarrow> int \<Rightarrow> int" where
  "scan_bits b m bm max_n i =
     (if i < max_n then
        if bm_is_set m bm (nat i) = b then i else scan_bits b m bm max_n (i + 1)
      else max_n)"
  by pat_completeness auto
termination by (relation "measure (\<lambda>(b, m, bm, max_n, i). nat (max_n - i))") auto

declare scan_bits.simps [simp del]

definition next_bit :: "bool \<Rightarrow> mem \<Rightarrow> nat \<Rightarrow> int \<Rightarrow> int \<Rightarrow> int" where
  "next_bit b m bm max_n cur = scan_bits b m bm max_n (cur + 1)"

definition first_bit :: "bool \<Rightarrow> mem \<Rightarrow> nat \<Rightarrow> int \<Rightarrow> int" where
  "first_bit b m bm max_n = next_bit b m bm max_n (-1)"

section \<open>Bits\<close>

lemma get_bit_push: "get_bit pos = push_bit (7 - pos mod 8) 1"
proof -
  have "pos mod 8 \<in> {0, 1, 2, 3, 4, 5, 6, 7}" by auto
  then show ?thesis by (auto simp: get_bit_def BITMAP_WIDTH_def)
qed

lemma bm_is_set_bit: "bm_is_set m bm pos \<longleftrightarrow> bit (m (bm + pos div 8)) (7 - pos mod 8)"
  by (simp add: bm_is_set_def get_bit_push get_bucket_def BITMAP_WIDTH_def bit_iff_and_push_bit_not_eq_0)

lemma bucket_bit_eq:
  fixes i j :: nat
  shows "i div 8 = j div 8 \<Longrightarrow> 7 - i mod 8 = 7 - j mod 8 \<Longrightarrow> i = j"
proof -
  assume d: "i div 8 = j div 8" and r: "7 - i mod 8 = 7 - j mod 8"
  have "i mod 8 < 8" "j mod 8 < 8" by simp_all
  with r have "i mod 8 = j mod 8" by linarith
  with d show "i = j" by (metis div_mult_mod_eq)
qed

lemma bit_get_bit: "bit (get_bit pos) k \<longleftrightarrow> k = 7 - pos mod 8"
proof -
  have "7 - pos mod 8 < 8" by simp
  then show ?thesis by (simp only: get_bit_push bit_push_bit_iff) (auto simp: bit_simps)
qed

lemma bm_is_set_set [mem_simps]: "bm_is_set (bm_set m bm i) bm j \<longleftrightarrow> i = j \<or> bm_is_set m bm j"
proof (cases "i div 8 = j div 8")
  case True
  then have "7 - j mod 8 = 7 - i mod 8 \<longleftrightarrow> i = j" using bucket_bit_eq [of i j] by auto
  with True show ?thesis
    by (simp add: bm_is_set_bit bm_set_def get_bucket_def BITMAP_WIDTH_def bit_or_iff bit_get_bit)
      blast
next
  case False
  then show ?thesis by (auto simp: bm_is_set_bit bm_set_def get_bucket_def BITMAP_WIDTH_def)
qed

lemma bm_is_set_reset [mem_simps]: "bm_is_set (bm_reset m bm i) bm j \<longleftrightarrow> i \<noteq> j \<and> bm_is_set m bm j"
proof (cases "i div 8 = j div 8")
  case True
  then have *: "7 - j mod 8 = 7 - i mod 8 \<longleftrightarrow> i = j" using bucket_bit_eq [of i j] by auto
  have "7 - j mod 8 < LENGTH(8)" by simp
  then have "bit (m (bm + i div 8) AND NOT (get_bit i)) (7 - j mod 8) \<longleftrightarrow>
      bit (m (bm + i div 8)) (7 - j mod 8) \<and> 7 - j mod 8 \<noteq> 7 - i mod 8"
    by (simp only: bit_and_iff bit_not_iff bit_get_bit) simp
  with True * show ?thesis
    by (simp add: bm_is_set_bit bm_reset_def get_bucket_def BITMAP_WIDTH_def) blast
next
  case False
  then show ?thesis by (auto simp: bm_is_set_bit bm_reset_def get_bucket_def BITMAP_WIDTH_def)
qed

lemma bm_is_set_init [mem_simps]: "pos div 8 < n \<Longrightarrow> \<not> bm_is_set (bm_init m bm n) bm pos"
  by (simp add: bm_is_set_bit bm_init_def mwrite_def)

lemma bm_is_set_cong: "m (bm + pos div 8) = m' (bm + pos div 8) \<Longrightarrow> bm_is_set m bm pos = bm_is_set m' bm pos"
  by (simp add: bm_is_set_bit)

lemma bm_set_outside: "i \<noteq> bm + pos div 8 \<Longrightarrow> bm_set m bm pos i = m i"
  by (simp add: bm_set_def get_bucket_def BITMAP_WIDTH_def)

lemma bm_reset_outside: "i \<noteq> bm + pos div 8 \<Longrightarrow> bm_reset m bm pos i = m i"
  by (simp add: bm_reset_def get_bucket_def BITMAP_WIDTH_def)

lemma bm_is_set_mwrite [mem_simps]:
  "bm + pos div 8 < off \<or> off + length bs \<le> bm + pos div 8 \<Longrightarrow>
    bm_is_set (mwrite m off bs) bm pos = bm_is_set m bm pos"
  by (auto simp: bm_is_set_bit mem_simps)

lemma bm_is_set_write_int [mem_simps]:
  "bm + pos div 8 < off \<or> off + n \<le> bm + pos div 8 \<Longrightarrow>
    bm_is_set (write_int n m off v) bm pos = bm_is_set m bm pos"
  by (auto simp: write_int_def mem_simps)

section \<open>Scanning\<close>

lemma scan_bits_spec:
  "scan_bits b m bm max_n i = r \<Longrightarrow> i \<le> max_n \<Longrightarrow>
    i \<le> r \<and> r \<le> max_n \<and> (r < max_n \<longrightarrow> bm_is_set m bm (nat r) = b) \<and>
    (\<forall>k. i \<le> k \<and> k < r \<longrightarrow> bm_is_set m bm (nat k) \<noteq> b)"
proof (induction b m bm max_n i rule: scan_bits.induct)
  case (1 b m bm max_n i)
  show ?case
  proof (cases "i < max_n \<and> bm_is_set m bm (nat i) \<noteq> b")
    case True
    then have "scan_bits b m bm max_n (i + 1) = r"
      using "1.prems" by (simp add: scan_bits.simps [of b m bm max_n i])
    with True "1.IH" have ih: "i + 1 \<le> r \<and> r \<le> max_n \<and> (r < max_n \<longrightarrow> bm_is_set m bm (nat r) = b) \<and>
      (\<forall>k. i + 1 \<le> k \<and> k < r \<longrightarrow> bm_is_set m bm (nat k) \<noteq> b)" by auto
    have "bm_is_set m bm (nat k) \<noteq> b" if "i \<le> k" "k < r" for k
      using ih that True by (cases "k = i") auto
    with ih show ?thesis by auto
  next
    case False
    then have "r = (if i < max_n then i else max_n)"
      using "1.prems" by (auto simp: scan_bits.simps [of b m bm max_n i])
    with False "1.prems"(2) show ?thesis by auto
  qed
qed

text \<open>
  \<open>next_bit\<close> returns the least position after \<open>cur\<close> whose bit is the wanted one, or
  \<open>max_n\<close> when there is none: every position it skips has the other bit.
\<close>

theorem next_bit_least:
  assumes "cur < max_n"
  shows "cur < next_bit b m bm max_n cur \<and> next_bit b m bm max_n cur \<le> max_n \<and>
    (next_bit b m bm max_n cur < max_n \<longrightarrow> bm_is_set m bm (nat (next_bit b m bm max_n cur)) = b) \<and>
    (\<forall>k. cur < k \<and> k < next_bit b m bm max_n cur \<longrightarrow> bm_is_set m bm (nat k) \<noteq> b)"
  using scan_bits_spec [OF refl, of "cur + 1" max_n b m bm] assms
  by (auto simp: next_bit_def)

theorem next_bit_least_witness:
  "next_bit True (bm_set mzero 0 2) 0 4 (-1) = 2"
  using next_bit_least [of "-1" 4 True "bm_set mzero 0 2" 0]
  by (simp add: next_bit_def scan_bits.simps mem_simps)
    (simp add: bm_is_set_bit mzero_def)

end
