(* ===== verification/Pool_Client.thy ===== *)
theory Pool_Client
  imports Buffer_Pool
begin

text \<open>
  The buffer pool as its clients use it: fetch a page, look at or change it through the frame, log
  the change, unpin. \<open>held s st pid f m\<close> says that the client holds the page pinned in frame \<open>f\<close> with
  memory \<open>m\<close>, while the pool stands for the pages \<open>st\<close>.
\<close>

definition frame_mem :: "storage \<Rightarrow> nat \<Rightarrow> mem" where
  "frame_mem s f = pg_data (pages s ! f)"

definition frame_id :: "storage \<Rightarrow> nat \<Rightarrow> page_id" where
  "frame_id s f = pg_id (pages s ! f)"

definition mem_of :: "bytes \<Rightarrow> mem" where
  "mem_of b = (\<lambda>i. if i < length b then b ! i else 0)"

definition same_page :: "mem \<Rightarrow> mem \<Rightarrow> bool" where
  "same_page m m' \<longleftrightarrow> (\<forall>i < PAGE_SIZE. m i = m' i)"

lemma same_page_mem_of: "same_page (mem_of (mread m 0 PAGE_SIZE)) m"
  by (simp add: same_page_def mem_of_def)

lemma same_page_read_int: "same_page m m' \<Longrightarrow> off + n \<le> PAGE_SIZE \<Longrightarrow> read_int n m off = read_int n m' off"
  unfolding read_int_def same_page_def by (metis mread_cong less_le_trans)

definition held :: "storage \<Rightarrow> (page_id \<rightharpoonup> bytes) \<Rightarrow> page_id \<Rightarrow> nat \<Rightarrow> mem \<Rightarrow> bool" where
  "held s st pid f m \<longleftrightarrow> known s st \<and> page_table s pid = Some f \<and> 0 < pin_count (pages s ! f) \<and>
     pg_data (pages s ! f) = m \<and> st pid = Some (mread m 0 PAGE_SIZE) \<and> pg_id (pages s ! f) = pid \<and>
     f < length (pages s)"

text \<open>The page may be unpinned clean.\<close>

definition clean_ok :: "storage \<Rightarrow> page_id \<Rightarrow> nat \<Rightarrow> bool" where
  "clean_ok s pid f \<longleftrightarrow> is_dirty (pages s ! f) \<or> 1 < pin_count (pages s ! f) \<or>
     id_page (st_disk s) pid = Some (own_page s f)"

text \<open>What the file layer needs to be left alone: the next page numbers and the cached pages.\<close>

definition files_keep :: "page_id set \<Rightarrow> storage \<Rightarrow> storage \<Rightarrow> bool" where
  "files_keep X s s' \<longleftrightarrow> fd2pageno (st_disk s') = fd2pageno (st_disk s) \<and>
     dom (page_table s') \<subseteq> dom (page_table s) \<union> X \<and>
     (\<forall>pid. data_id (st_disk s) pid \<longrightarrow> data_id (st_disk s') pid) \<and>
     global_lsn (st_log s') = global_lsn (st_log s)"

lemma heldI:
  assumes "known s st" "page_table s pid = Some f" "0 < pin_count (pages s ! f)" "st pid \<noteq> None"
  shows "held s st pid f (pg_data (pages s ! f))"
proof -
  obtain b where b: "st pid = Some b" using assms(4) by auto
  with assms(1) have "view s pid = Some b" by (simp add: known_def)
  with assms(2) have "b = own_page s f" by (simp add: view_def)
  moreover have "pg_id (pages s ! f) = pid" "f < length (pages s)"
    using known_parts [OF assms(1)] assms(2) by (auto simp: table_ok_def)
  ultimately show ?thesis using assms b by (simp add: held_def own_page_def)
qed

lemma heldD:
  assumes "held s st pid f m"
  shows "known s st" "page_table s pid = Some f" "0 < pin_count (pages s ! f)" "pg_data (pages s ! f) = m"
    "st pid = Some (mread m 0 PAGE_SIZE)" "pg_id (pages s ! f) = pid" "f < length (pages s)"
  using assms by (simp_all add: held_def)

lemma update_page_files:
  assumes "pool_ok s" "f < length (pages s)" "pin_count (pages s ! f) = 0" "data_id (st_disk s) pid"
    "update_page f pid s = (Inr u, s1)"
  shows "files_keep {pid} s s1"
proof -
  have ok: "log_ok s" "table_ok s" "frames_ok s" using assms(1) by (auto simp: pool_ok_def)
  have dirty: "is_dirty (pages s ! f) \<longrightarrow> data_id (st_disk s) (pg_id (pages s ! f))"
    using ok(2,3) assms(2) by (auto simp: table_ok_def frames_ok_def)
  from update_page_eq [OF assms(5) data_id_mapped [OF assms(4)] assms(2,3) ok(1) dirty]
  obtain s0 where "disk_keeps {pg_id (pages s ! f)} s s0" "st_disk s1 = st_disk s0" "st_log s1 = st_log s0"
    "page_table s1 = (page_table s)(pg_id (pages s ! f) := None, pid \<mapsto> f)" by blast
  then show ?thesis by (auto simp: files_keep_def disk_keeps_def split: if_splits)
qed

lemma fetch_held:
  assumes "known s st" "st pid = Some b" "fetch_page pid s = (Inr (Some f), s2)"
  shows "\<exists>m. held s2 st pid f m \<and> mread m 0 PAGE_SIZE = b \<and> clean_ok s2 pid f \<and> files_keep {pid} s s2"
proof -
  note run = fetch_run [OF assms]
  then have h: "held s2 st pid f (pg_data (pages s2 ! f))" using heldI assms(2) by simp
  have "clean_ok s2 pid f \<and> files_keep {pid} s s2"
  proof (cases "page_table s pid")
    case (Some g)
    have s2: "g = f" "s2 = pin_frame f (\<lambda>c. c + 1) s" using assms(3) Some by (auto simp: fetch_page_def)
    note ok = known_parts [OF assms(1)]
    have f: "f < length (pages s)" "0 \<le> pin_count (pages s ! f)"
      using ok Some s2(1) by (auto simp: table_ok_def frames_ok_def)
    have p: "pages s2 ! f = (pages s ! f)\<lparr>pin_count := pin_count (pages s ! f) + 1\<rparr>"
      using f(1) by (simp add: s2(2) pin_frame_pages)
    have "clean_ok s2 pid f"
    proof (cases "is_dirty (pages s ! f) \<or> 0 < pin_count (pages s ! f)")
      case True
      then show ?thesis by (auto simp: clean_ok_def p)
    next
      case False
      with f ok Some s2(1) have "id_page (st_disk s) pid = Some (own_page s f)" by (auto simp: coherent_but_def)
      moreover have "own_page s2 f = own_page s f" "st_disk s2 = st_disk s"
        by (simp_all add: own_page_def p) (simp add: s2(2) pin_frame_pages)
      ultimately show ?thesis by (simp add: clean_ok_def)
    qed
    moreover have "files_keep {pid} s s2" by (auto simp: files_keep_def s2(2) pin_frame_pages)
    ultimately show ?thesis by simp
  next
    case None
    obtain s' where v: "find_victim_page s = (Some f, s')"
      using assms(3) None
      by (auto simp: fetch_page_def andThen_def ret_def modify_def split: prod.splits option.splits sum.splits)
    note vk = victim_known [OF assms(1) v]
    have d: "data_id (st_disk s') pid" "page_table s' pid = None"
      using assms(1,2) None vk by (auto simp: known_def)
    obtain u s1 where up: "update_page f pid s' = (Inr u, s1)" and rest:
      "andThen (fetch_read f pid) (\<lambda>_. andThen (modify (pin_frame f (\<lambda>_. 1))) (\<lambda>_. ret (Some f))) s1 = (Inr (Some f), s2)"
      using assms(3) None v by (auto simp: fetch_page_def andThen_eq_Inr)
    have vp: "pool_ok s'" "coherent_but {} s'" "f < length (pages s')" "pin_count (pages s' ! f) = 0" "f \<notin> set (free_list s')"
      using vk by (auto simp: known_def)
    note u = update_page_run [OF vp d up] and uf = update_page_files [OF vp(1,3,4) d(1) up]
    obtain w s1' where rd: "fetch_read f pid s1 = (Inr w, s1')" and s2: "s2 = pin_frame f (\<lambda>_. 1) s1'"
      using rest by (auto simp: andThen_eq_Inr modify_def ret_def)
    from u have "log_ok s1" "f < length (pages s1)" "pages s1 ! f = fresh_page pid" by (auto simp: pool_ok_def)
    from fetch_read_run [OF this(1,2) rd this(3)] obtain c where
      c: "id_page (st_disk s1) pid = Some c" "s1' = set_frame f (pg_data_update (\<lambda>_. mwrite mzero 0 c)) s1"
      "mread (mwrite mzero 0 c) 0 PAGE_SIZE = c" by blast
    have "own_page s2 f = c"
      using c \<open>f < length (pages s1)\<close> by (simp add: own_page_def s2 pin_frame_pages pages_set_frame)
    then have "clean_ok s2 pid f" using c by (simp add: clean_ok_def s2 pin_frame_pages)
    moreover have "st_log s' = st_log s"
      using find_victim_run [OF _ v] known_parts [OF assms(1)] by simp
    then have "files_keep {pid} s s2"
      using uf vk c(2) by (auto simp: files_keep_def s2 pin_frame_pages)
    ultimately show ?thesis by simp
  qed
  with h run show ?thesis by (auto simp: own_page_def)
qed

lemma write_frame_parts:
  "page_table (write_frame f g s) = page_table s" "st_disk (write_frame f g s) = st_disk s"
  "st_log (write_frame f g s) = st_log s" "log_attached (write_frame f g s) = log_attached s"
  by (simp_all add: write_frame_def)

lemma edit_held:
  assumes "held s st pid f m"
  shows "held (write_frame f g s) (st(pid \<mapsto> mread (g m) 0 PAGE_SIZE)) pid f (g m) \<and> files_keep {} s (write_frame f g s)"
proof -
  note h = heldD [OF assms]
  have p: "pages (write_frame f g s) ! f = (pages s ! f)\<lparr>pg_data := g m\<rparr>"
    using h(4,7) by (cases "pages s ! f") (simp add: write_frame_def pages_set_frame)
  have "known (write_frame f g s) (st(pid \<mapsto> mread (g m) 0 PAGE_SIZE))"
    using write_frame_run [OF h(1-3), of g] h(4,5) by simp
  then show ?thesis
    using h p by (simp add: held_def write_frame_parts files_keep_def) (simp add: write_frame_def)
qed

lemma frame_mem_write:
  "f < length (pages s) \<Longrightarrow> pg_data (pages (write_frame f g s) ! f) = g (pg_data (pages s ! f))"
  by (cases "pages s ! f") (simp add: write_frame_def pages_set_frame)

lemma unpin_parts:
  "page_table (snd (unpin_page pid d s)) = page_table s" "st_disk (snd (unpin_page pid d s)) = st_disk s"
  "st_log (snd (unpin_page pid d s)) = st_log s" "log_attached (snd (unpin_page pid d s)) = log_attached s"
  by (auto simp: unpin_page_def Let_def mark_dirty_def split: option.split)

lemma unpin_held:
  assumes "held s st pid f m" "dirty \<or> clean_ok s pid f"
  shows "known (snd (unpin_page pid dirty s)) st \<and> files_keep {} s (snd (unpin_page pid dirty s))"
  using unpin_run [OF heldD(1-3) [OF assms(1)], of dirty] assms(2)
  by (auto simp: clean_ok_def files_keep_def unpin_parts)

lemma new_held:
  assumes "known s st" "new_page fd s = (Inr (Some (no, f)), s2)" "data_id (st_disk s) (PageId fd (fd2pageno (st_disk s) fd))"
    "page_table s (PageId fd (fd2pageno (st_disk s) fd)) = None"
  shows "no = fd2pageno (st_disk s) fd \<and>
    (\<exists>m. held s2 (st(PageId fd no \<mapsto> replicate PAGE_SIZE 0)) (PageId fd no) f m) \<and>
    fd2pageno (st_disk s2) = (fd2pageno (st_disk s))(fd := to_signed 4 ((no + 1) mod 2 ^ 32)) \<and>
    dom (page_table s2) \<subseteq> insert (PageId fd no) (dom (page_table s)) \<and>
    (\<forall>pid. data_id (st_disk s) pid \<longrightarrow> data_id (st_disk s2) pid) \<and> global_lsn (st_log s2) = global_lsn (st_log s)"
proof -
  have no: "no = fd2pageno (st_disk s) fd" using new_page_no [OF assms(2)] .
  let ?pid = "PageId fd no"
  note run = new_page_run [OF assms(1,2) assms(3,4) [folded no]]
  have h: "held s2 (st(?pid \<mapsto> replicate PAGE_SIZE 0)) ?pid f (pg_data (pages s2 ! f))"
    using run by (intro heldI) auto
  obtain s' where v: "find_victim_page s = (Some f, s')"
    using assms(2)
    by (auto simp: new_page_def andThen_def ret_def modify_def split: prod.splits option.splits sum.splits)
  note vk = victim_known [OF assms(1) v]
  obtain s'' where al: "on_disk (allocate_page fd) s' = (Inr no, s'')" and rest:
    "andThen (update_page f ?pid) (\<lambda>_. andThen (modify (pin_frame f (\<lambda>_. 1))) (\<lambda>_. ret (Some (no, f)))) s'' =
      (Inr (Some (no, f)), s2)"
    using assms(2) v by (auto simp: new_page_def andThen_eq_Inr ret_def)
  have s'': "s'' = s'\<lparr>st_disk := (st_disk s')\<lparr>fd2pageno := (fd2pageno (st_disk s'))(fd := to_signed 4 ((no + 1) mod 2 ^ 32))\<rparr>\<rparr>"
    using al by (auto simp: on_disk_def zoom_def allocate_page_def split: if_splits)
  have dd: "data_id (st_disk s'') = data_id (st_disk s')" "pages s'' = pages s'" "page_table s'' = page_table s'"
    "st_log s'' = st_log s'" by (auto simp: s'' data_id_def fun_eq_iff)
  have pok: "pool_ok s''"
  proof -
    have "disk_ok (st_disk s'') = disk_ok (st_disk s')" "log_fd_ok (st_disk s'') = log_fd_ok (st_disk s')"
      "files (st_disk s'') = files (st_disk s')" by (simp_all add: s'' log_fd_ok_def)
    then have "log_ok s'' = log_ok s'" by (simp add: log_ok_def log_inv_def s'')
    moreover have "table_ok s'' = table_ok s'" by (simp add: table_ok_def dd)
    moreover have "frames_ok s'' = frames_ok s'" by (simp add: frames_ok_def s'')
    ultimately show ?thesis using vk by (simp add: known_def pool_ok_def)
  qed
  obtain u s1 where up: "update_page f ?pid s'' = (Inr u, s1)" and s2: "s2 = pin_frame f (\<lambda>_. 1) s1"
    using rest by (auto simp: andThen_eq_Inr modify_def ret_def)
  have "files_keep {?pid} s'' s1"
    using update_page_files [OF pok _ _ _ up] vk dd assms(3) no by auto
  moreover have "st_log s' = st_log s" using find_victim_run [OF _ v] known_parts [OF assms(1)] by simp
  ultimately show ?thesis
    using h no vk dd s'' by (auto simp: files_keep_def s2 pin_frame_pages)
qed

text \<open>Logging while a page is held.\<close>

lemma add_log_keeps_pages:
  assumes "disk_ok d" "log_fd_ok d" "add_log_to_buffer r (d, l) = (res, d', l')"
  shows "fd2pageno d' = fd2pageno d \<and> (\<forall>pid. data_id d pid \<longrightarrow> data_id d' pid \<and> id_page d' pid = id_page d pid)"
proof (cases "is_full l (log_tot_len (hdr r)) \<and> buf_offset l > 0")
  case True
  obtain r0 d0 where w: "write_log (mread (buffer l) 0 (nat (buf_offset l))) d = (r0, d0)" by fastforce
  with assms(3) True have "d' = d0"
    by (auto simp: add_log_to_buffer_def andThen_def write_out_def split: sum.splits prod.splits)
  with write_log_keeps_pages [OF assms(1,2) w] write_log_run [OF assms(1,2) w] show ?thesis by simp
next
  case False
  with assms(3) have "d' = d" by (auto simp: add_log_to_buffer_def andThen_def split: prod.splits)
  then show ?thesis by simp
qed

lemma log_step_known:
  assumes "known s st" "s' = s\<lparr>st_disk := d', st_log := l'\<rparr>" "log_ok s'"
    "\<And>pid. data_id (st_disk s) pid \<Longrightarrow> data_id d' pid"
    "\<And>pid b. data_id (st_disk s) pid \<Longrightarrow> page_table s pid \<noteq> None \<or> st pid \<noteq> None \<Longrightarrow> id_page (st_disk s) pid = Some b \<Longrightarrow>
      id_page d' pid = Some b"
  shows "known s' st"
proof -
  note ok = known_parts [OF assms(1)]
  note s' = assms(2) and keep = assms(4,5)
  have "table_ok s'" using ok keep by (auto simp: table_ok_def s')
  moreover have "frames_ok s'" using ok by (simp add: frames_ok_def s')
  moreover have own: "own_page s' = own_page s" by (simp add: fun_eq_iff own_page_def s')
  moreover have "coherent_but {} s'"
    using ok keep own unfolding coherent_but_def by (auto simp: s' table_ok_def)
  moreover have "data_id (st_disk s') q \<and> view s' q = Some b" if "st q = Some b" for q b
  proof -
    have "data_id (st_disk s) q" "view s q = Some b" using that assms(1) by (auto simp: known_def)
    with keep [of q] own that show ?thesis by (auto simp: view_def s' split: option.splits)
  qed
  ultimately show ?thesis using assms(3) by (simp add: known_def pool_ok_def)
qed

lemma log_known:
  assumes "known s st" "on_log (add_log_to_buffer r) s = (Inr r', s')" "rec_ok r" "global_lsn (st_log s) < 2 ^ 31 - 1"
  shows "known s' st \<and> lsn (hdr r') = global_lsn (st_log s) \<and> page_table s' = page_table s \<and> pages s' = pages s \<and>
    fd2pageno (st_disk s') = fd2pageno (st_disk s) \<and> (\<forall>pid. data_id (st_disk s) pid \<longrightarrow> data_id (st_disk s') pid) \<and>
    global_lsn (st_log s') = global_lsn (st_log s) + 1"
proof -
  obtain d' l' where a: "add_log_to_buffer r (st_disk s, st_log s) = (Inr r', d', l')"
    and s': "s' = s\<lparr>st_disk := d', st_log := l'\<rparr>"
    using assms(2) by (auto simp: on_log_def zoom_def split: prod.splits)
  obtain base n0 fs bs where i: "log_inv base n0 fs bs (st_disk s, st_log s)"
    using known_parts [OF assms(1)] by (auto simp: log_ok_def)
  from add_log_run [OF i a assms(3)] assms(4) have run:
    "r' = set_hdr (\<lambda>h. h\<lparr>lsn := global_lsn (st_log s)\<rparr>) r" "global_lsn l' = global_lsn (st_log s) + 1"
    "log_ok s'" by (auto simp: log_ok_def s')
  have d: "disk_ok (st_disk s)" "log_fd_ok (st_disk s)" using i by (auto simp: log_inv_def)
  note keep = add_log_keeps_pages [OF d a]
  have "known s' st" by (rule log_step_known [OF assms(1) s' run(3)]) (use keep in auto)
  with run keep show ?thesis by (simp add: s')
qed

lemma flush_known:
  assumes "known s st" "on_log flush_log_to_disk s = (r, s')"
  shows "known s' st \<and> page_table s' = page_table s \<and> pages s' = pages s \<and> fd2pageno (st_disk s') = fd2pageno (st_disk s) \<and>
    (\<forall>pid. data_id (st_disk s) pid \<longrightarrow> data_id (st_disk s') pid) \<and> global_lsn (st_log s') = global_lsn (st_log s)"
proof -
  obtain d' l' where a: "flush_log_to_disk (st_disk s, st_log s) = (r, d', l')"
    and s': "s' = s\<lparr>st_disk := d', st_log := l'\<rparr>"
    using assms(2) by (auto simp: on_log_def zoom_def split: prod.splits)
  obtain base n0 fs bs where i: "log_inv base n0 fs bs (st_disk s, st_log s)"
    using known_parts [OF assms(1)] by (auto simp: log_ok_def)
  from flush_log_run [OF i a] have run: "log_ok s' \<and> global_lsn l' = global_lsn (st_log s)"
    by (cases r) (auto simp: log_ok_def s')
  have d: "disk_ok (st_disk s)" "log_fd_ok (st_disk s)" using i by (auto simp: log_inv_def)
  note keep = flush_keeps_pages [OF d a] flush_fd2pageno [OF d a]
  have "known s' st" by (rule log_step_known [OF assms(1) s']) (use run keep in auto)
  with run keep show ?thesis by (simp add: s')
qed

lemma log_held:
  assumes "held s st pid f m" "on_log (add_log_to_buffer r) s = (Inr r', s')" "rec_ok r" "global_lsn (st_log s) < 2 ^ 31 - 1"
  shows "held s' st pid f m \<and> lsn (hdr r') = global_lsn (st_log s) \<and> page_table s' = page_table s \<and> pages s' = pages s \<and>
    fd2pageno (st_disk s') = fd2pageno (st_disk s) \<and> (\<forall>pid. data_id (st_disk s) pid \<longrightarrow> data_id (st_disk s') pid) \<and>
    global_lsn (st_log s') = global_lsn (st_log s) + 1"
  using log_known [OF heldD(1) [OF assms(1)] assms(2-4)] heldD [OF assms(1)] by (simp add: held_def)

text \<open>A pool of one frame, with a dirty page in it that is not in the file yet.\<close>

definition one_page_pool :: "int \<Rightarrow> mem \<Rightarrow> storage" where
  "one_page_pool no m = pool_ex\<lparr>st_disk := pool_disk\<lparr>fd2pageno := (\<lambda>_. no + 1)\<rparr>,
     pages := [\<lparr>pg_id = PageId 3 no, pg_data = m, is_dirty = True, pin_count = 1\<rparr>],
     free_list := [], page_table := [PageId 3 no \<mapsto> 0]\<rparr>"

lemma one_page_known:
  assumes "valid_no no"
  shows "known (one_page_pool no m) [PageId 3 no \<mapsto> mread m 0 PAGE_SIZE]"
proof -
  let ?p = "one_page_pool no m"
  have st: "st_disk ?p = pool_disk\<lparr>fd2pageno := (\<lambda>_. no + 1)\<rparr>" "page_table ?p = [PageId 3 no \<mapsto> 0]"
    "pages ?p = [\<lparr>pg_id = PageId 3 no, pg_data = m, is_dirty = True, pin_count = 1\<rparr>]"
    "free_list ?p = []" "lru_of ?p = lru_new 1" "st_log ?p = log_manager_new"
    by (simp_all add: one_page_pool_def pool_ex_def pool_new_def)
  have data: "data_id (st_disk ?p) (PageId 3 no)"
    using pool_disk_facts assms by (auto simp: st data_id_def LOG_FILE_NAME_def)
  have "log_inv [] 0 [] [] (st_disk ?p, st_log ?p)"
    using pool_disk_facts
    by (simp add: st log_inv_def log_manager_new_def buffered_def last_lsn_def INVALID_LSN_def mread_def disk_ok_def log_fd_ok_def)
  then have "log_ok ?p" unfolding log_ok_def by auto
  moreover have "table_ok ?p" using data unfolding table_ok_def st by (auto split: if_splits)
  moreover have "frames_ok ?p" using assms unfolding frames_ok_def st
    by (simp add: mapped_def INVALID_PAGE_ID_def lru_new_ok) (auto simp: lru_new_def lru_frames_def valid_no_def)
  moreover have "coherent_but {} ?p" by (simp add: coherent_but_def st split: if_splits)
  moreover have "view ?p (PageId 3 no) = Some (mread m 0 PAGE_SIZE)"
    by (simp add: view_def own_page_def st)
  ultimately show ?thesis using data by (auto simp: known_def pool_ok_def split: if_splits)
qed

end
