(* ===== verification/Lock_Manager.thy ===== *)
theory Lock_Manager
  imports Rmdb_Base
begin

text \<open>
  Transactions and locks: \<^verbatim>\<open>transaction/txn_defs.h\<close>, \<^verbatim>\<open>transaction/transaction.h\<close> and the lock
  manager \<^verbatim>\<open>transaction/concurrency/lock_manager.cpp\<close>, a no-wait multi-granularity two-phase
  locking table. The latch is held throughout a call, so each call is one step; the interleaving of
  transactions is the order of the steps.
\<close>

section \<open>Transactions\<close>

datatype txn_state = DEFAULT | GROWING | SHRINKING | COMMITTED | ABORTED

datatype wtype = INSERT_TUPLE | DELETE_TUPLE | UPDATE_TUPLE

record write_record =
  wr_type :: wtype
  wr_tab :: string
  wr_rid :: rid
  wr_rec :: bytes

datatype lock_data_type = LD_TABLE | LD_RECORD

datatype lock_data_id = LockDataId (ld_fd: int) (ld_rid: rid) (ld_type: lock_data_type)

definition table_lock :: "int \<Rightarrow> lock_data_id" where
  "table_lock fd = LockDataId fd (Rid (-1) (-1)) LD_TABLE"

definition record_lock :: "int \<Rightarrow> rid \<Rightarrow> lock_data_id" where
  "record_lock fd r = LockDataId fd r LD_RECORD"

text \<open>\<open>lock_set_\<close> is kept as the list of its elements; the source's is unordered.\<close>

record transaction =
  txn_id :: int
  txn_mode :: bool
  state_of :: txn_state
  txn_prev_lsn :: int
  start_ts :: int
  write_set :: "write_record list"
  lock_set :: "lock_data_id list"

text \<open>The constructor leaves \<^verbatim>\<open>txn_mode_\<close> and \<^verbatim>\<open>start_ts_\<close> unset; here they are \<open>False\<close> and 0 until they are set.\<close>

definition transaction_new :: "int \<Rightarrow> transaction" where
  "transaction_new t = \<lparr>txn_id = t, txn_mode = False, state_of = DEFAULT, txn_prev_lsn = INVALID_LSN,
     start_ts = 0, write_set = [], lock_set = []\<rparr>"

section \<open>Lock modes\<close>

datatype lock_mode = SHARED | EXLUCSIVE | INTENTION_SHARED | INTENTION_EXCLUSIVE | S_IX

datatype group_lock_mode = NON_LOCK | GIS | GIX | GS | GX | GSIX

definition is_compatible :: "lock_mode \<Rightarrow> lock_mode \<Rightarrow> bool" where
  "is_compatible req held =
     (if req = INTENTION_SHARED then held \<noteq> EXLUCSIVE
      else if req = INTENTION_EXCLUSIVE then held = INTENTION_SHARED \<or> held = INTENTION_EXCLUSIVE
      else if req = SHARED then held = INTENTION_SHARED \<or> held = SHARED
      else if req = S_IX then held = INTENTION_SHARED
      else if req = EXLUCSIVE then False
      else False)"

definition is_stronger :: "lock_mode \<Rightarrow> lock_mode \<Rightarrow> bool" where
  "is_stronger held req =
     (if held = EXLUCSIVE then True
      else if held = req then True
      else if held = S_IX then req = SHARED \<or> req = INTENTION_SHARED \<or> req = INTENTION_EXCLUSIVE
      else if held = SHARED then req = INTENTION_SHARED
      else if held = INTENTION_EXCLUSIVE then req = INTENTION_SHARED
      else False)"

section \<open>The lock table\<close>

record lock_request =
  lr_txn :: int
  lr_mode :: lock_mode
  granted :: bool

record lock_queue =
  request_queue :: "lock_request list"
  group_lock_mode_ :: group_lock_mode

type_synonym lock_table = "lock_data_id \<rightharpoonup> lock_queue"

definition update_group_lock_mode :: "lock_queue \<Rightarrow> lock_queue" where
  "update_group_lock_mode q =
     (let has = (\<lambda>m. \<exists>r \<in> set (request_queue q). lr_mode r = m)
      in if request_queue q = [] then \<lparr>request_queue = [], group_lock_mode_ = NON_LOCK\<rparr>
         else \<lparr>request_queue = request_queue q, group_lock_mode_ =
           (if has EXLUCSIVE then GX else if has S_IX then GSIX else if has SHARED then GS
            else if has INTENTION_EXCLUSIVE then GIX else GIS)\<rparr>)"

text \<open>The check both branches make against the requests of the other transactions.\<close>

definition conflict :: "int \<Rightarrow> lock_mode \<Rightarrow> lock_request list \<Rightarrow> bool" where
  "conflict t m rs \<longleftrightarrow> (\<exists>r \<in> set rs. lr_txn r \<noteq> t \<and> \<not> is_compatible m (lr_mode r))"

text \<open>\<open>held_req\<close> is the first request of the transaction; an upgrade overwrites its mode.\<close>

fun set_mode :: "int \<Rightarrow> lock_mode \<Rightarrow> lock_request list \<Rightarrow> lock_request list" where
  "set_mode t m [] = []"
| "set_mode t m (r # rs) = (if lr_txn r = t then r\<lparr>lr_mode := m\<rparr> # rs else r # set_mode t m rs)"

text \<open>\<^verbatim>\<open>lock_table_[lock_data_id]\<close>: an empty queue is entered for a new item.\<close>

definition queue_of :: "lock_table \<Rightarrow> lock_data_id \<Rightarrow> lock_queue" where
  "queue_of tab i =
     (case tab i of Some q \<Rightarrow> q | None \<Rightarrow> \<lparr>request_queue = [], group_lock_mode_ = NON_LOCK\<rparr>)"

definition acquire_lock :: "lock_data_id \<Rightarrow> lock_mode \<Rightarrow> (transaction \<times> lock_table, bool) op" where
  "acquire_lock i m = (\<lambda>(txn, tab).
     let t = txn_id txn
     in if state_of txn = SHRINKING then (Inl (TransactionAbortException t LOCK_ON_SHIRINKING), txn, tab)
        else
          let txn = (if state_of txn = DEFAULT then txn\<lparr>state_of := GROWING\<rparr> else txn);
              q = queue_of tab i;
              tab = tab(i \<mapsto> q)
          in case find (\<lambda>r. lr_txn r = t) (request_queue q) of
               Some held \<Rightarrow>
                 if is_stronger (lr_mode held) m then (Inr True, txn, tab)
                 else if conflict t m (request_queue q)
                 then (Inl (TransactionAbortException t DEADLOCK_PREVENTION), txn, tab)
                 else (Inr True, txn,
                   tab(i \<mapsto> update_group_lock_mode (q\<lparr>request_queue := set_mode t m (request_queue q)\<rparr>)))
             | None \<Rightarrow>
                 if conflict t m (request_queue q)
                 then (Inl (TransactionAbortException t DEADLOCK_PREVENTION), txn, tab)
                 else (Inr True, txn\<lparr>lock_set := List.insert i (lock_set txn)\<rparr>,
                   tab(i \<mapsto> update_group_lock_mode
                     (q\<lparr>request_queue := request_queue q @ [\<lparr>lr_txn = t, lr_mode = m, granted = True\<rparr>]\<rparr>))))"

definition lock_shared_on_record :: "rid \<Rightarrow> int \<Rightarrow> (transaction \<times> lock_table, bool) op" where
  "lock_shared_on_record r fd = acquire_lock (record_lock fd r) SHARED"

definition lock_exclusive_on_record :: "rid \<Rightarrow> int \<Rightarrow> (transaction \<times> lock_table, bool) op" where
  "lock_exclusive_on_record r fd = acquire_lock (record_lock fd r) EXLUCSIVE"

definition lock_shared_on_table :: "int \<Rightarrow> (transaction \<times> lock_table, bool) op" where
  "lock_shared_on_table fd = acquire_lock (table_lock fd) SHARED"

definition lock_exclusive_on_table :: "int \<Rightarrow> (transaction \<times> lock_table, bool) op" where
  "lock_exclusive_on_table fd = acquire_lock (table_lock fd) EXLUCSIVE"

definition lock_IS_on_table :: "int \<Rightarrow> (transaction \<times> lock_table, bool) op" where
  "lock_IS_on_table fd = acquire_lock (table_lock fd) INTENTION_SHARED"

definition lock_IX_on_table :: "int \<Rightarrow> (transaction \<times> lock_table, bool) op" where
  "lock_IX_on_table fd = acquire_lock (table_lock fd) INTENTION_EXCLUSIVE"

text \<open>\<open>unlock\<close> erases the first request of the transaction, and the queue when it becomes empty.\<close>

fun erase_request :: "int \<Rightarrow> lock_request list \<Rightarrow> lock_request list option" where
  "erase_request t [] = None"
| "erase_request t (r # rs) = (if lr_txn r = t then Some rs else map_option ((#) r) (erase_request t rs))"

definition unlock :: "lock_data_id \<Rightarrow> transaction \<times> lock_table \<Rightarrow> bool \<times> transaction \<times> lock_table" where
  "unlock i = (\<lambda>(txn, tab).
     let txn = (if state_of txn \<noteq> COMMITTED \<and> state_of txn \<noteq> ABORTED then txn\<lparr>state_of := SHRINKING\<rparr> else txn)
     in case tab i of
          None \<Rightarrow> (False, txn, tab)
        | Some q \<Rightarrow>
            (case erase_request (txn_id txn) (request_queue q) of
               None \<Rightarrow> (False, txn, tab)
             | Some rs \<Rightarrow>
                 (True, txn\<lparr>lock_set := removeAll i (lock_set txn)\<rparr>,
                  if rs = [] then tab(i := None)
                  else tab(i \<mapsto> update_group_lock_mode (q\<lparr>request_queue := rs\<rparr>)))))"

text \<open>The end of \<open>commit\<close> and \<open>abort\<close>: a copy of the lock set is released, then the set is cleared.\<close>

fun unlock_all :: "lock_data_id list \<Rightarrow> transaction \<times> lock_table \<Rightarrow> transaction \<times> lock_table" where
  "unlock_all [] s = s"
| "unlock_all (i # is) s = unlock_all is (snd (unlock i s))"

definition release_locks :: "txn_state \<Rightarrow> transaction \<times> lock_table \<Rightarrow> transaction \<times> lock_table" where
  "release_locks st s =
     (case unlock_all (lock_set (fst s)) s of (txn, tab) \<Rightarrow> (txn\<lparr>lock_set := [], state_of := st\<rparr>, tab))"

section \<open>Modes\<close>

lemma compatible_sym: "is_compatible a b = is_compatible b a"
  by (cases a; cases b) (simp_all add: is_compatible_def)

text \<open>
  \<open>is_stronger\<close> is exactly the order by exclusion: a held mode is at least as strong as a
  requested one when every mode that could be granted beside the held one could be granted beside
  the requested one.
\<close>

theorem is_stronger_excludes_more:
  "is_stronger held req = ({m. is_compatible m held} \<subseteq> {m. is_compatible m req})"
proof -
  have all: "(\<forall>m. P m) \<longleftrightarrow> P SHARED \<and> P EXLUCSIVE \<and> P INTENTION_SHARED \<and> P INTENTION_EXCLUSIVE \<and> P S_IX" for P
    by (metis lock_mode.exhaust)
  show ?thesis unfolding subset_iff mem_Collect_eq all
    by (cases held; cases req) (simp_all add: is_stronger_def is_compatible_def)
qed

section \<open>The queue invariant\<close>

definition queue_ok :: "lock_request list \<Rightarrow> bool" where
  "queue_ok rs \<longleftrightarrow> distinct (map lr_txn rs) \<and>
     (\<forall>r \<in> set rs. \<forall>r' \<in> set rs. lr_txn r \<noteq> lr_txn r' \<longrightarrow> is_compatible (lr_mode r) (lr_mode r'))"

lemma queue_group [simp]: "request_queue (update_group_lock_mode q) = request_queue q"
  by (simp add: update_group_lock_mode_def Let_def)

lemma set_mode_txns [simp]: "map lr_txn (set_mode t m rs) = map lr_txn rs"
  by (induction rs) auto

lemma set_mode_set:
  "distinct (map lr_txn rs) \<Longrightarrow> r \<in> set (set_mode t m rs) \<Longrightarrow>
    (lr_txn r = t \<and> lr_mode r = m) \<or> (lr_txn r \<noteq> t \<and> r \<in> set rs)"
proof (induction rs)
  case (Cons a rs)
  then have a: "\<forall>x \<in> set rs. lr_txn x \<noteq> lr_txn a" by (auto simp: image_iff)
  show ?case
  proof (cases "lr_txn a = t")
    case True
    with Cons.prems(2) a show ?thesis by auto
  next
    case False
    with Cons show ?thesis by auto
  qed
qed simp

lemma txn_if_simps [simp]:
  "txn_id (if c then txn\<lparr>state_of := x\<rparr> else txn) = txn_id txn"
  "lock_set (if c then txn\<lparr>state_of := x\<rparr> else txn) = lock_set txn"
  "state_of (if c then txn\<lparr>state_of := x\<rparr> else txn) = (if c then x else state_of txn)"
  by auto

lemma queue_ok_upgrade: "queue_ok rs \<Longrightarrow> \<not> conflict t m rs \<Longrightarrow> queue_ok (set_mode t m rs)"
  unfolding queue_ok_def conflict_def
  using set_mode_set [of rs _ t m] compatible_sym by (simp, metis)

lemma queue_ok_append:
  "queue_ok rs \<Longrightarrow> \<not> conflict t m rs \<Longrightarrow> t \<notin> lr_txn ` set rs \<Longrightarrow>
    queue_ok (rs @ [\<lparr>lr_txn = t, lr_mode = m, granted = g\<rparr>])"
  unfolding queue_ok_def conflict_def by (auto simp: compatible_sym)

lemma erase_request_set:
  "distinct (map lr_txn rs) \<Longrightarrow> erase_request t rs = Some rs' \<Longrightarrow>
    t \<in> lr_txn ` set rs \<and> set rs' = {r \<in> set rs. lr_txn r \<noteq> t} \<and> distinct (map lr_txn rs')"
proof (induction rs arbitrary: rs')
  case (Cons r rs)
  then show ?case by (cases "lr_txn r = t") (auto simp: image_iff)
qed simp

lemma erase_request_none: "erase_request t rs = None \<longleftrightarrow> t \<notin> lr_txn ` set rs"
  by (induction rs) auto

lemma queue_ok_erase: "queue_ok rs \<Longrightarrow> erase_request t rs = Some rs' \<Longrightarrow> queue_ok rs'"
  using erase_request_set [of rs t rs'] by (auto simp: queue_ok_def)

lemma find_txn_none: "find (\<lambda>r. lr_txn r = t) rs = None \<longleftrightarrow> t \<notin> lr_txn ` set rs"
  by (auto simp: find_None_iff)

text \<open>Who holds what, according to the table.\<close>

definition holds_lock :: "lock_table \<Rightarrow> int \<Rightarrow> lock_data_id \<Rightarrow> bool" where
  "holds_lock tab t i \<longleftrightarrow> (\<exists>q. tab i = Some q \<and> t \<in> lr_txn ` set (request_queue q))"

definition table_queues_ok :: "lock_table \<Rightarrow> bool" where
  "table_queues_ok tab \<longleftrightarrow> (\<forall>i q. tab i = Some q \<longrightarrow> queue_ok (request_queue q))"

lemma acquire_run:
  assumes "table_queues_ok tab" "acquire_lock i m (txn, tab) = (r, txn', tab')"
  shows "table_queues_ok tab' \<and> txn_id txn' = txn_id txn \<and>
    (\<forall>t j. holds_lock tab' t j \<longleftrightarrow> holds_lock tab t j \<or> (t = txn_id txn \<and> j = i \<and> r = Inr True)) \<and>
    set (lock_set txn') \<subseteq> set (lock_set txn) \<union> (if r = Inr True then {i} else {}) \<and>
    (r = Inr True \<and> \<not> holds_lock tab (txn_id txn) i \<longrightarrow> i \<in> set (lock_set txn')) \<and>
    set (lock_set txn) \<subseteq> set (lock_set txn') \<and>
    (state_of txn = SHRINKING \<longrightarrow> r = Inl (TransactionAbortException (txn_id txn) LOCK_ON_SHIRINKING) \<and> tab' = tab) \<and>
    (r = Inr True \<or> (\<exists>a. r = Inl (TransactionAbortException (txn_id txn) a)))"
proof (cases "state_of txn = SHRINKING")
  case True
  with assms show ?thesis by (auto simp: acquire_lock_def Let_def)
next
  case False
  let ?t = "txn_id txn"
  define q where "q = queue_of tab i"
  have qok: "queue_ok (request_queue q)"
    using assms(1) by (auto simp: q_def queue_of_def table_queues_ok_def queue_ok_def split: option.split)
  have h: "holds_lock tab t i \<longleftrightarrow> t \<in> lr_txn ` set (request_queue q)" for t
    by (auto simp: q_def queue_of_def holds_lock_def split: option.split)
  have img: "lr_txn ` set (set_mode t' m rs) = lr_txn ` set rs" for t' rs
    by (metis set_mode_txns list.set_map)
  have fn: "?t \<in> lr_txn ` set (request_queue q) \<longleftrightarrow> find (\<lambda>r. lr_txn r = ?t) (request_queue q) \<noteq> None"
    using find_txn_none by metis
  obtain q2 where q2: "tab' = tab(i \<mapsto> q2)" "queue_ok (request_queue q2)"
    "lr_txn ` set (request_queue q2) = lr_txn ` set (request_queue q) \<union> (if r = Inr True then {?t} else {})"
    and r: "r = Inr True \<or> (\<exists>a. r = Inl (TransactionAbortException ?t a))"
    and t': "txn_id txn' = ?t" "set (lock_set txn') = set (lock_set txn) \<union>
      (if r = Inr True \<and> ?t \<notin> lr_txn ` set (request_queue q) then {i} else {})"
  proof (cases "conflict ?t m (request_queue q)")
    case True
    with assms(2) False qok fn show thesis
      by (intro that [of q]) (auto simp: acquire_lock_def Let_def q_def [symmetric] split: option.splits if_splits)
  next
    case nc: False
    show thesis
    proof (cases "find (\<lambda>r. lr_txn r = ?t) (request_queue q)")
      case None
      with assms(2) False nc fn queue_ok_append [OF qok nc, of True] show thesis
        by (intro that [of "update_group_lock_mode (q\<lparr>request_queue := request_queue q @
            [\<lparr>lr_txn = ?t, lr_mode = m, granted = True\<rparr>]\<rparr>)"])
          (auto simp: acquire_lock_def Let_def q_def [symmetric])
    next
      case (Some held)
      show thesis
      proof (cases "is_stronger (lr_mode held) m")
        case True
        with assms(2) False qok fn Some show thesis
          by (intro that [of q]) (auto simp: acquire_lock_def Let_def q_def [symmetric])
      next
        case ns: False
        with assms(2) False nc fn Some queue_ok_upgrade [OF qok nc] img show thesis
          by (intro that [of "update_group_lock_mode (q\<lparr>request_queue := set_mode ?t m (request_queue q)\<rparr>)"])
            (auto simp: acquire_lock_def Let_def q_def [symmetric])
      qed
    qed
  qed
  have "table_queues_ok tab'" using assms(1) q2(1,2) by (auto simp: table_queues_ok_def)
  moreover have "holds_lock tab' t j \<longleftrightarrow> holds_lock tab t j \<or> (t = ?t \<and> j = i \<and> r = Inr True)" for t j
    using q2(3) h by (cases "j = i") (auto simp: q2(1) holds_lock_def split: if_splits)
  ultimately show ?thesis using r t' False h by auto
qed

lemma unlock_run:
  assumes "table_queues_ok tab" "unlock i (txn, tab) = (b, txn', tab')"
  shows "table_queues_ok tab' \<and> txn_id txn' = txn_id txn \<and>
    (\<forall>t j. holds_lock tab' t j \<longleftrightarrow> holds_lock tab t j \<and> (t \<noteq> txn_id txn \<or> j \<noteq> i)) \<and>
    set (lock_set txn') = (if b then set (lock_set txn) - {i} else set (lock_set txn)) \<and>
    (b \<longleftrightarrow> holds_lock tab (txn_id txn) i) \<and>
    state_of txn' = (if state_of txn = COMMITTED \<or> state_of txn = ABORTED then state_of txn else SHRINKING)"
proof (cases "tab i")
  case None
  with assms show ?thesis by (auto simp: unlock_def Let_def holds_lock_def)
next
  case (Some q)
  have qok: "queue_ok (request_queue q)" using assms(1) Some by (simp add: table_queues_ok_def)
  show ?thesis
  proof (cases "erase_request (txn_id txn) (request_queue q)")
    case None
    with Some have "\<not> holds_lock tab (txn_id txn) i" by (simp add: holds_lock_def erase_request_none)
    moreover have "b = False" "tab' = tab" "lock_set txn' = lock_set txn" "txn_id txn' = txn_id txn"
      "state_of txn' = (if state_of txn = COMMITTED \<or> state_of txn = ABORTED then state_of txn else SHRINKING)"
      using assms(2) Some None by (auto simp: unlock_def Let_def)
    ultimately show ?thesis using assms(1) by auto
  next
    case er: (Some rs)
    note e = erase_request_set [OF _ er]
    have d: "distinct (map lr_txn (request_queue q))" using qok by (simp add: queue_ok_def)
    have tab': "tab' = (if rs = [] then tab(i := None)
        else tab(i \<mapsto> update_group_lock_mode (q\<lparr>request_queue := rs\<rparr>)))" and b: "b"
      and txn': "lock_set txn' = removeAll i (lock_set txn)" "txn_id txn' = txn_id txn"
      "state_of txn' = (if state_of txn = COMMITTED \<or> state_of txn = ABORTED then state_of txn else SHRINKING)"
      using assms(2) Some er by (auto simp: unlock_def Let_def)
    have "table_queues_ok tab'"
      using assms(1) queue_ok_erase [OF qok er] by (auto simp: tab' table_queues_ok_def split: if_splits)
    moreover have "holds_lock tab' t j \<longleftrightarrow> holds_lock tab t j \<and> (t \<noteq> txn_id txn \<or> j \<noteq> i)" for t j
    proof (cases "j = i")
      case True
      have "lr_txn ` set rs = lr_txn ` set (request_queue q) - {txn_id txn}" using e [OF d] by auto
      with True Some show ?thesis by (auto simp: tab' holds_lock_def)
    next
      case False
      then show ?thesis by (simp add: tab' holds_lock_def)
    qed
    moreover have "holds_lock tab (txn_id txn) i" using e [OF d] Some by (simp add: holds_lock_def)
    ultimately show ?thesis using txn' b by simp
  qed
qed

lemma unlock_all_run:
  assumes "table_queues_ok tab" "unlock_all is (txn, tab) = (txn', tab')"
  shows "table_queues_ok tab' \<and> txn_id txn' = txn_id txn \<and>
    (\<forall>t j. holds_lock tab' t j \<longleftrightarrow> holds_lock tab t j \<and> (t \<noteq> txn_id txn \<or> j \<notin> set is))"
  using assms
proof (induction "is" arbitrary: txn tab)
  case (Cons i "is")
  obtain b txn1 tab1 where u: "unlock i (txn, tab) = (b, txn1, tab1)" by (cases "unlock i (txn, tab)") auto
  note run = unlock_run [OF Cons.prems(1) u]
  from Cons.IH [of tab1 txn1] run Cons.prems(2) u show ?case by auto
qed auto

section \<open>Interleaved transactions\<close>

text \<open>
  The system: the transactions by id and the shared lock table. A step is one call of one
  transaction: \<open>begin\<close> (a new transaction, or an old one set back to \<open>DEFAULT\<close>), a lock request,
  granted or refused, an \<open>unlock\<close>, and the release at the end of \<open>commit\<close> or \<open>abort\<close>.
\<close>

type_synonym lock_system = "(int \<rightharpoonup> transaction) \<times> lock_table"

inductive lock_step :: "lock_system \<Rightarrow> lock_system \<Rightarrow> bool" where
  begin_new: "txns t = None \<Longrightarrow> lock_step (txns, tab) (txns(t \<mapsto> transaction_new t), tab)"
| begin_again: "txns t = Some txn \<Longrightarrow> lock_step (txns, tab) (txns(t \<mapsto> txn\<lparr>state_of := DEFAULT\<rparr>), tab)"
| acquire: "txns t = Some txn \<Longrightarrow> acquire_lock i m (txn, tab) = (r, txn', tab') \<Longrightarrow>
    lock_step (txns, tab) (txns(t \<mapsto> txn'), tab')"
| unlock: "txns t = Some txn \<Longrightarrow> unlock i (txn, tab) = (b, txn', tab') \<Longrightarrow>
    lock_step (txns, tab) (txns(t \<mapsto> txn'), tab')"
| finish: "txns t = Some txn \<Longrightarrow> st = COMMITTED \<or> st = ABORTED \<Longrightarrow>
    release_locks st (txn, tab) = (txn', tab') \<Longrightarrow> lock_step (txns, tab) (txns(t \<mapsto> txn'), tab')"

inductive lock_reachable :: "lock_system \<Rightarrow> bool" where
  start: "lock_reachable (Map.empty, Map.empty)"
| step: "lock_reachable s \<Longrightarrow> lock_step s s' \<Longrightarrow> lock_reachable s'"

inductive_cases lock_stepE: "lock_step s s'"

text \<open>The table and the lock sets agree, and every transaction is registered under its id.\<close>

definition lock_inv :: "lock_system \<Rightarrow> bool" where
  "lock_inv s \<longleftrightarrow> table_queues_ok (snd s) \<and> (\<forall>t txn. fst s t = Some txn \<longrightarrow> txn_id txn = t) \<and>
     (\<forall>t i. holds_lock (snd s) t i \<longleftrightarrow> (\<exists>txn. fst s t = Some txn \<and> i \<in> set (lock_set txn)))"

lemma release_locks_run:
  assumes "table_queues_ok tab" "release_locks st (txn, tab) = (txn', tab')"
  shows "table_queues_ok tab' \<and> txn_id txn' = txn_id txn \<and> lock_set txn' = [] \<and> state_of txn' = st \<and>
    (\<forall>t j. holds_lock tab' t j \<longleftrightarrow> holds_lock tab t j \<and> (t \<noteq> txn_id txn \<or> j \<notin> set (lock_set txn)))"
proof -
  obtain txn1 tab1 where u: "unlock_all (lock_set txn) (txn, tab) = (txn1, tab1)" by fastforce
  with unlock_all_run [OF assms(1) u] assms(2) show ?thesis by (auto simp: release_locks_def)
qed

lemma lock_step_inv: "lock_step s s' \<Longrightarrow> lock_inv s \<Longrightarrow> lock_inv s'"
proof (induction rule: lock_step.induct)
  case (begin_new txns t tab)
  then show ?case by (auto simp: lock_inv_def transaction_new_def)
next
  case (begin_again txns t txn tab)
  then show ?case by (auto simp: lock_inv_def)
next
  case (acquire txns t txn i m tab r txn' tab')
  then have tq: "table_queues_ok tab" and id: "txn_id txn = t"
    and h: "\<And>t j. holds_lock tab t j \<longleftrightarrow> (\<exists>txn. txns t = Some txn \<and> j \<in> set (lock_set txn))"
    by (auto simp: lock_inv_def)
  note run = acquire_run [OF tq acquire(2)]
  have "j \<in> set (lock_set txn') \<longleftrightarrow> holds_lock tab' t j" for j
    using run h [of t j] h [of t i] acquire(1) id by (auto split: if_splits)
  with acquire run id show ?case by (auto simp: lock_inv_def)
next
  case (unlock txns t txn i tab b txn' tab')
  then have tq: "table_queues_ok tab" and id: "txn_id txn = t"
    and h: "\<And>t j. holds_lock tab t j \<longleftrightarrow> (\<exists>txn. txns t = Some txn \<and> j \<in> set (lock_set txn))"
    by (auto simp: lock_inv_def)
  note run = unlock_run [OF tq unlock(2)]
  have "j \<in> set (lock_set txn') \<longleftrightarrow> holds_lock tab' t j" for j
    using run h [of t j] unlock(1) id by (auto split: if_splits)
  with unlock run id show ?case by (auto simp: lock_inv_def)
next
  case (finish txns t txn st tab txn' tab')
  then have tq: "table_queues_ok tab" and id: "txn_id txn = t"
    and h: "\<And>t j. holds_lock tab t j \<longleftrightarrow> (\<exists>txn. txns t = Some txn \<and> j \<in> set (lock_set txn))"
    by (auto simp: lock_inv_def)
  note run = release_locks_run [OF tq finish(3)]
  have "\<not> holds_lock tab' t j" for j using run h [of t j] finish(1) id by auto
  with finish run id show ?case by (auto simp: lock_inv_def)
qed

lemma reachable_inv: "lock_reachable s \<Longrightarrow> lock_inv s"
proof (induction rule: lock_reachable.induct)
  case start
  show ?case by (simp add: lock_inv_def table_queues_ok_def holds_lock_def)
next
  case (step s s')
  then show ?case using lock_step_inv by blast
qed

section \<open>Properties\<close>

text \<open>
  Claim C12. Whatever the interleaving of transactions, upgrades, refusals and releases included,
  the modes granted to different transactions on one item are pairwise compatible, no transaction
  has two requests in a queue, and a transaction's lock set is exactly what the table grants it.
\<close>

theorem granted_locks_compatible:
  assumes "lock_reachable (txns, tab)" "tab i = Some q"
  shows "distinct (map lr_txn (request_queue q)) \<and>
    (\<forall>r \<in> set (request_queue q). \<forall>r' \<in> set (request_queue q). lr_txn r \<noteq> lr_txn r' \<longrightarrow>
      is_compatible (lr_mode r) (lr_mode r')) \<and>
    (\<forall>t. t \<in> lr_txn ` set (request_queue q) \<longleftrightarrow> (\<exists>txn. txns t = Some txn \<and> i \<in> set (lock_set txn)))"
proof -
  from reachable_inv [OF assms(1)] have inv: "table_queues_ok tab"
    "\<And>t. holds_lock tab t i \<longleftrightarrow> (\<exists>txn. txns t = Some txn \<and> i \<in> set (lock_set txn))"
    by (auto simp: lock_inv_def)
  with assms(2) show ?thesis
    unfolding inv(2) [symmetric] by (auto simp: table_queues_ok_def queue_ok_def holds_lock_def)
qed

lemma lock_example:
  "acquire_lock (table_lock 3) SHARED (transaction_new 1, Map.empty) =
    (Inr True, (transaction_new 1)\<lparr>state_of := GROWING, lock_set := [table_lock 3]\<rparr>,
     [table_lock 3 \<mapsto> \<lparr>request_queue = [\<lparr>lr_txn = 1, lr_mode = SHARED, granted = True\<rparr>], group_lock_mode_ = GS\<rparr>])"
  by (simp add: acquire_lock_def Let_def transaction_new_def conflict_def update_group_lock_mode_def queue_of_def)

lemma lock_example_reachable:
  "lock_reachable ([1 \<mapsto> (transaction_new 1)\<lparr>state_of := GROWING, lock_set := [table_lock 3]\<rparr>],
     [table_lock 3 \<mapsto> \<lparr>request_queue = [\<lparr>lr_txn = 1, lr_mode = SHARED, granted = True\<rparr>], group_lock_mode_ = GS\<rparr>])"
proof -
  have "lock_reachable ([1 \<mapsto> transaction_new 1], Map.empty)"
    by (rule lock_reachable.step [OF lock_reachable.start]) (use lock_step.begin_new [of Map.empty 1] in simp)
  then show ?thesis
    by (rule lock_reachable.step) (use lock_step.acquire [OF _ lock_example, of "[1 \<mapsto> transaction_new 1]" 1] in simp)
qed

theorem granted_locks_compatible_witness:
  "distinct (map lr_txn [\<lparr>lr_txn = 1, lr_mode = SHARED, granted = True\<rparr>])"
  using granted_locks_compatible [OF lock_example_reachable, of "table_lock 3"] by simp

text \<open>The calls of one transaction: lock requests and releases.\<close>

fun own_calls :: "(lock_data_id \<times> lock_mode option) list \<Rightarrow> transaction \<times> lock_table \<Rightarrow> transaction \<times> lock_table" where
  "own_calls [] s = s"
| "own_calls ((i, Some m) # cs) s = own_calls cs (snd (acquire_lock i m s))"
| "own_calls ((i, None) # cs) s = own_calls cs (snd (unlock i s))"

lemma shrinking_stays:
  "state_of (fst s) = SHRINKING \<Longrightarrow> state_of (fst (own_calls cs s)) = SHRINKING \<and> txn_id (fst (own_calls cs s)) = txn_id (fst s)"
proof (induction cs s rule: own_calls.induct)
  case (2 i m cs s)
  then show ?case by (cases s) (simp add: acquire_lock_def Let_def)
next
  case (3 i cs s)
  have "state_of (fst (snd (unlock i s))) = SHRINKING \<and> txn_id (fst (snd (unlock i s))) = txn_id (fst s)"
    using "3.prems" by (cases s) (auto simp: unlock_def Let_def split: option.splits)
  with "3.IH" show ?case by simp
qed simp

text \<open>
  Claim C23. Two-phase locking: after an \<open>unlock\<close> by a transaction that is not over yet, and any
  further calls it makes, every lock request is refused with \<open>LOCK_ON_SHIRINKING\<close> and changes
  neither the transaction nor the lock table.
\<close>

theorem two_phase:
  assumes "state_of (fst s) \<noteq> COMMITTED" "state_of (fst s) \<noteq> ABORTED"
  shows "acquire_lock i m (own_calls cs (snd (unlock j s))) =
    (Inl (TransactionAbortException (txn_id (fst s)) LOCK_ON_SHIRINKING), own_calls cs (snd (unlock j s)))"
proof -
  have u: "state_of (fst (snd (unlock j s))) = SHRINKING \<and> txn_id (fst (snd (unlock j s))) = txn_id (fst s)"
    using assms by (cases s) (auto simp: unlock_def Let_def split: option.splits)
  with shrinking_stays [of "snd (unlock j s)" cs] show ?thesis
    by (cases "own_calls cs (snd (unlock j s))") (auto simp: acquire_lock_def Let_def)
qed

theorem two_phase_witness:
  "fst (acquire_lock (table_lock 4) SHARED (snd (unlock (table_lock 3)
      (snd (acquire_lock (table_lock 3) SHARED (transaction_new 1, Map.empty)))))) =
    Inl (TransactionAbortException 1 LOCK_ON_SHIRINKING)"
  using two_phase [of "snd (acquire_lock (table_lock 3) SHARED (transaction_new 1, Map.empty))" "table_lock 4" SHARED "[]"
      "table_lock 3"]
  by (simp add: lock_example) (simp add: transaction_new_def)

text \<open>
  An upgrade replaces the mode: a transaction that is alone on an item, holds it \<open>SHARED\<close>
  and asks for \<open>INTENTION_EXCLUSIVE\<close> is granted and left with the latter only, so that another
  transaction's \<open>INTENTION_EXCLUSIVE\<close>, which the shared lock excluded, is granted next.
\<close>

theorem upgrade_drops_shared:
  assumes "tab i = Some \<lparr>request_queue = [\<lparr>lr_txn = t, lr_mode = SHARED, granted = True\<rparr>], group_lock_mode_ = g\<rparr>"
    "txn_id t1 = t" "state_of t1 \<noteq> SHRINKING" "txn_id t2 \<noteq> t" "state_of t2 \<noteq> SHRINKING"
  shows "fst (acquire_lock i INTENTION_EXCLUSIVE (t2, tab)) = Inl (TransactionAbortException (txn_id t2) DEADLOCK_PREVENTION) \<and>
    fst (acquire_lock i INTENTION_EXCLUSIVE (t1, tab)) = Inr True \<and>
    fst (acquire_lock i INTENTION_EXCLUSIVE (t2, snd (snd (acquire_lock i INTENTION_EXCLUSIVE (t1, tab))))) = Inr True"
  using assms
  by (simp add: acquire_lock_def Let_def conflict_def is_compatible_def is_stronger_def update_group_lock_mode_def queue_of_def)

theorem upgrade_drops_shared_witness:
  "fst (acquire_lock (table_lock 3) INTENTION_EXCLUSIVE (transaction_new 1,
      [table_lock 3 \<mapsto> \<lparr>request_queue = [\<lparr>lr_txn = 1, lr_mode = SHARED, granted = True\<rparr>], group_lock_mode_ = GS\<rparr>])) = Inr True"
  using upgrade_drops_shared [of "[table_lock 3 \<mapsto> \<lparr>request_queue = [\<lparr>lr_txn = 1, lr_mode = SHARED, granted = True\<rparr>],
      group_lock_mode_ = GS\<rparr>]" "table_lock 3" 1 GS "transaction_new 1" "transaction_new 2"]
  by (simp add: transaction_new_def)

end
