(* ===== verification/Record_File.thy ===== *)
theory Record_File
  imports Bitmap Pool_Client Lock_Manager
begin

text \<open>
  Table data files: \<^verbatim>\<open>src/src/record/rm_defs.h\<close>, \<^verbatim>\<open>rm_file_handle.cpp\<close>, \<^verbatim>\<open>rm_manager.h\<close> and
  \<^verbatim>\<open>rm_scan.cpp\<close>. A page holds a header (the next page with free space and the number of records)
  after the LSN, then the slot bitmap, then the slots. The functions of a file handle run on the
  buffer pool, the handle, and the transaction of the context when the context has both a log
  manager and a transaction.
\<close>

section \<open>The file header\<close>

definition RM_NO_PAGE :: int where "RM_NO_PAGE = -1"
definition RM_FILE_HDR_PAGE :: int where "RM_FILE_HDR_PAGE = 0"
definition RM_FIRST_RECORD_PAGE :: int where "RM_FIRST_RECORD_PAGE = 1"
definition RM_MAX_RECORD_SIZE :: int where "RM_MAX_RECORD_SIZE = 512"

record rm_file_hdr =
  record_size :: int
  num_pages :: int
  num_records_per_page :: int
  first_free_page_no :: int
  bitmap_size :: int

text \<open>The header that \<open>RmManager::create_file\<close> writes for a record size.\<close>

definition new_file_hdr :: "int \<Rightarrow> rm_file_hdr" where
  "new_file_hdr r =
     (let n = (int BITMAP_WIDTH * (int PAGE_SIZE - 1 - 20) + 1) div (1 + r * int BITMAP_WIDTH)
      in \<lparr>record_size = r, num_pages = 1, num_records_per_page = n, first_free_page_no = RM_NO_PAGE,
          bitmap_size = (n + int BITMAP_WIDTH - 1) div int BITMAP_WIDTH\<rparr>)"

text \<open>The header as the 20 bytes of \<^verbatim>\<open>struct RmFileHdr\<close>.\<close>

definition hdr_to_mem :: "rm_file_hdr \<Rightarrow> mem" where
  "hdr_to_mem h =
     mwrite mzero 0 (le_encode 4 (record_size h) @ le_encode 4 (num_pages h) @ le_encode 4 (num_records_per_page h) @
       le_encode 4 (first_free_page_no h) @ le_encode 4 (bitmap_size h))"

definition hdr_of_mem :: "mem \<Rightarrow> rm_file_hdr" where
  "hdr_of_mem m = \<lparr>record_size = read_int 4 m 0, num_pages = read_int 4 m 4, num_records_per_page = read_int 4 m 8,
     first_free_page_no = read_int 4 m 12, bitmap_size = read_int 4 m 16\<rparr>"

section \<open>The page of a table file\<close>

definition PAGE_BITMAP :: nat where "PAGE_BITMAP = OFFSET_PAGE_HDR + 8"

definition next_free_page_no :: "mem \<Rightarrow> int" where
  "next_free_page_no m = read_int 4 m OFFSET_PAGE_HDR"

definition num_records :: "mem \<Rightarrow> int" where
  "num_records m = read_int 4 m (OFFSET_PAGE_HDR + 4)"

definition set_next_free :: "int \<Rightarrow> mem \<Rightarrow> mem" where
  "set_next_free v m = write_int 4 m OFFSET_PAGE_HDR v"

definition set_num_records :: "int \<Rightarrow> mem \<Rightarrow> mem" where
  "set_num_records v m = write_int 4 m (OFFSET_PAGE_HDR + 4) v"

definition get_slot :: "rm_file_hdr \<Rightarrow> int \<Rightarrow> nat" where
  "get_slot h slot = nat (int PAGE_BITMAP + bitmap_size h + slot * record_size h)"

definition slot_set :: "mem \<Rightarrow> int \<Rightarrow> bool" where
  "slot_set m slot = bm_is_set m PAGE_BITMAP (nat slot)"

definition slot_bytes :: "rm_file_hdr \<Rightarrow> mem \<Rightarrow> int \<Rightarrow> bytes" where
  "slot_bytes h m slot = mread m (get_slot h slot) (nat (record_size h))"

text \<open>What the insertions, the deletion and the update do to the page.\<close>

definition page_insert :: "rm_file_hdr \<Rightarrow> int \<Rightarrow> bytes \<Rightarrow> mem \<Rightarrow> mem" where
  "page_insert h slot buf m =
     (let m = bm_set m PAGE_BITMAP (nat slot);
          m = mwrite m (get_slot h slot) buf
      in set_num_records (num_records m + 1) m)"

definition page_delete :: "int \<Rightarrow> mem \<Rightarrow> mem" where
  "page_delete slot m =
     (let m = bm_reset m PAGE_BITMAP (nat slot) in set_num_records (num_records m - 1) m)"

definition page_update :: "rm_file_hdr \<Rightarrow> int \<Rightarrow> bytes \<Rightarrow> mem \<Rightarrow> mem" where
  "page_update h slot buf m = mwrite m (get_slot h slot) buf"

definition page_init :: "rm_file_hdr \<Rightarrow> mem \<Rightarrow> mem" where
  "page_init h m = set_next_free RM_NO_PAGE (set_num_records 0 (bm_init m PAGE_BITMAP (nat (bitmap_size h))))"

section \<open>The file handle\<close>

record rm_file =
  rm_fd :: int
  file_hdr :: rm_file_hdr
  rm_tab_name :: string

type_synonym rm_state = "storage \<times> rm_file \<times> transaction option"

definition on_pool :: "(storage, 'a) op \<Rightarrow> (rm_state, 'a) op" where
  "on_pool = zoom fst (\<lambda>s (_, fh, t). (s, fh, t))"

definition unpin_frame :: "nat \<Rightarrow> bool \<Rightarrow> rm_state \<Rightarrow> rm_state" where
  "unpin_frame f dirty = (\<lambda>(s, fh, t). (snd (unpin_page (frame_id s f) dirty s), fh, t))"

definition edit_frame :: "nat \<Rightarrow> (mem \<Rightarrow> mem) \<Rightarrow> rm_state \<Rightarrow> rm_state" where
  "edit_frame f g = (\<lambda>(s, fh, t). (write_frame f g s, fh, t))"

definition edit_hdr :: "(rm_file_hdr \<Rightarrow> rm_file_hdr) \<Rightarrow> rm_state \<Rightarrow> rm_state" where
  "edit_hdr g = (\<lambda>(s, fh, t). (s, fh\<lparr>file_hdr := g (file_hdr fh)\<rparr>, t))"

definition fetch_page_handle :: "int \<Rightarrow> (rm_state, nat) op" where
  "fetch_page_handle no = (\<lambda>(s, fh, t).
     if no \<ge> num_pages (file_hdr fh) \<or> no < 0 then (Inl (PageNotExistError '''' no), s, fh, t)
     else (case fetch_page (PageId (rm_fd fh) no) s of
             (Inl e, s') \<Rightarrow> (Inl e, s', fh, t)
           | (Inr None, s') \<Rightarrow> (Inl (PageNotExistError '''' no), s', fh, t)
           | (Inr (Some f), s') \<Rightarrow> (Inr f, s', fh, t)))"

definition create_new_page_handle :: "(rm_state, nat) op" where
  "create_new_page_handle = (\<lambda>(s, fh, t).
     case new_page (rm_fd fh) s of
       (Inl e, s') \<Rightarrow> (Inl e, s', fh, t)
     | (Inr None, s') \<Rightarrow> (Inl (InternalError ''Buffer pool is full''), s', fh, t)
     | (Inr (Some (no, f)), s') \<Rightarrow>
         (Inr f, edit_hdr (num_pages_update (\<lambda>n. n + 1)) (edit_frame f (page_init (file_hdr fh)) (s', fh, t))))"

definition create_page_handle :: "(rm_state, nat) op" where
  "create_page_handle = (\<lambda>(s, fh, t).
     if first_free_page_no (file_hdr fh) = RM_NO_PAGE then create_new_page_handle (s, fh, t)
     else fetch_page_handle (first_free_page_no (file_hdr fh)) (s, fh, t))"

definition release_page_handle :: "nat \<Rightarrow> rm_state \<Rightarrow> rm_state" where
  "release_page_handle f = (\<lambda>(s, fh, t).
     edit_hdr (first_free_page_no_update (\<lambda>_. pid_no (frame_id s f)))
       (edit_frame f (set_next_free (first_free_page_no (file_hdr fh))) (s, fh, t)))"

text \<open>
  The block \<^verbatim>\<open>if (context && context->log_mgr_ && context->txn_)\<close>: the record is logged, the
  transaction remembers its LSN and the page is stamped with it.
\<close>

definition log_change :: "nat \<Rightarrow> (int \<Rightarrow> log_record) \<Rightarrow> (rm_state, unit) op" where
  "log_change f mk = (\<lambda>(s, fh, t).
     case t of
       None \<Rightarrow> (Inr (), s, fh, t)
     | Some txn \<Rightarrow>
         (case on_log (add_log_to_buffer (set_hdr (prev_lsn_update (\<lambda>_. txn_prev_lsn txn)) (mk (txn_id txn)))) s of
            (Inl e, s') \<Rightarrow> (Inl e, s', fh, t)
          | (Inr r, s') \<Rightarrow>
              (Inr (), write_frame f (\<lambda>m. write_int 4 m 0 (lsn (hdr r))) s', fh,
               Some (txn\<lparr>txn_prev_lsn := lsn (hdr r)\<rparr>))))"

definition is_record :: "rid \<Rightarrow> (rm_state, bool) op" where
  "is_record r = andThen (fetch_page_handle (page_no r)) (\<lambda>f (s, fh, t).
     (Inr (slot_set (frame_mem s f) (slot_no r)), s, fh, t))"

definition get_record :: "rid \<Rightarrow> (rm_state, bytes) op" where
  "get_record r = andThen (fetch_page_handle (page_no r)) (\<lambda>f (s, fh, t).
     if \<not> slot_set (frame_mem s f) (slot_no r)
     then (Inl (RecordNotFoundError (page_no r) (slot_no r)), unpin_frame f False (s, fh, t))
     else (Inr (slot_bytes (file_hdr fh) (frame_mem s f) (slot_no r)), unpin_frame f False (s, fh, t)))"

definition insert_record :: "bytes \<Rightarrow> (rm_state, rid) op" where
  "insert_record buf = andThen create_page_handle (\<lambda>f (s, fh, t).
     let h = file_hdr fh;
         slot = first_bit False (frame_mem s f) PAGE_BITMAP (num_records_per_page h);
         buf = take (nat (record_size h)) buf;
         s1 = edit_frame f (page_insert h slot buf) (s, fh, t);
         m = frame_mem (fst s1) f;
         s2 = (if num_records m = num_records_per_page h
               then edit_hdr (first_free_page_no_update (\<lambda>_. next_free_page_no m)) s1 else s1);
         r = Rid (pid_no (frame_id s f)) slot
     in andThen (log_change f (\<lambda>txn. InsertLogRecord txn buf r (rm_tab_name fh)))
          (\<lambda>_ s. (Inr r, unpin_frame f True s)) s2)"

text \<open>The overload with a position, used by rollback and recovery.\<close>

definition insert_record_at :: "rid \<Rightarrow> bytes \<Rightarrow> (rm_state, unit) op" where
  "insert_record_at r buf = andThen (fetch_page_handle (page_no r)) (\<lambda>f (s, fh, t).
     if slot_set (frame_mem s f) (slot_no r) then (Inr (), unpin_frame f False (s, fh, t))
     else (Inr (), unpin_frame f True
       (edit_frame f (page_insert (file_hdr fh) (slot_no r) (take (nat (record_size (file_hdr fh))) buf)) (s, fh, t))))"

definition delete_record :: "rid \<Rightarrow> (rm_state, unit) op" where
  "delete_record r = andThen (fetch_page_handle (page_no r)) (\<lambda>f (s, fh, t).
     if \<not> slot_set (frame_mem s f) (slot_no r)
     then (Inl (RecordNotFoundError (page_no r) (slot_no r)), unpin_frame f False (s, fh, t))
     else andThen (log_change f (\<lambda>txn. DeleteLogRecord txn (slot_bytes (file_hdr fh) (frame_mem s f) (slot_no r)) r
            (rm_tab_name fh)))
       (\<lambda>_ s. let s1 = edit_frame f (page_delete (slot_no r)) s;
                  s2 = (if num_records (frame_mem (fst s1) f) = num_records_per_page (file_hdr fh) - 1
                        then release_page_handle f s1 else s1)
              in (Inr (), unpin_frame f True s2)) (s, fh, t))"

definition update_record :: "rid \<Rightarrow> bytes \<Rightarrow> (rm_state, unit) op" where
  "update_record r buf = andThen (fetch_page_handle (page_no r)) (\<lambda>f (s, fh, t).
     let h = file_hdr fh; buf = take (nat (record_size h)) buf
     in if \<not> slot_set (frame_mem s f) (slot_no r)
        then (Inl (RecordNotFoundError (page_no r) (slot_no r)), unpin_frame f False (s, fh, t))
        else andThen (log_change f (\<lambda>txn. UpdateLogRecord txn (slot_bytes h (frame_mem s f) (slot_no r)) buf r
               (rm_tab_name fh)))
          (\<lambda>_ s. (Inr (), unpin_frame f True (edit_frame f (page_update h (slot_no r) buf) s))) (s, fh, t))"


section \<open>The file manager and the scan\<close>

definition rm_create_file :: "string \<Rightarrow> int \<Rightarrow> (disk, unit) op" where
  "rm_create_file path r =
     (if r < 1 \<or> r > RM_MAX_RECORD_SIZE then throw (InvalidRecordSizeError r)
      else andThen (create_file path) (\<lambda>_. andThen (open_file path) (\<lambda>fd.
        andThen (write_page fd RM_FILE_HDR_PAGE (hdr_to_mem (new_file_hdr r)) 20) (\<lambda>_. close_file fd))))"

definition rm_open_file :: "string \<Rightarrow> (storage, rm_file) op" where
  "rm_open_file path = andThen (on_disk (open_file path)) (\<lambda>fd s.
     case read_page (st_disk s) fd RM_FILE_HDR_PAGE 20 mzero of
       (Inl e, _) \<Rightarrow> (Inl e, s)
     | (Inr _, m) \<Rightarrow>
         (Inr \<lparr>rm_fd = fd, file_hdr = hdr_of_mem m, rm_tab_name = path\<rparr>,
          s\<lparr>st_disk := set_fd2pageno fd (num_pages (hdr_of_mem m)) (st_disk s)\<rparr>))"

definition rm_close_file :: "rm_file \<Rightarrow> (storage, unit) op" where
  "rm_close_file fh =
     andThen (on_disk (write_page (rm_fd fh) RM_FILE_HDR_PAGE (hdr_to_mem (file_hdr fh)) 20)) (\<lambda>_.
       andThen (delete_all_pages (rm_fd fh)) (\<lambda>_. on_disk (close_file (rm_fd fh))))"

text \<open>
  \<open>RmScan::next\<close>: the loop over the pages up to \<open>n\<close>, the number of pages of the file, which it does
  not change.
\<close>

function scan_next :: "int \<Rightarrow> int \<Rightarrow> int \<Rightarrow> (rm_state, rid) op" where
  "scan_next n pn slot =
     (if pn < n then
        andThen (fetch_page_handle pn) (\<lambda>f (s, fh, t).
          let slot' = next_bit True (frame_mem s f) PAGE_BITMAP (num_records_per_page (file_hdr fh)) slot;
              s' = unpin_frame f False (s, fh, t)
          in if slot' < num_records_per_page (file_hdr fh) then (Inr (Rid pn slot'), s')
             else scan_next n (pn + 1) (-1) s')
      else ret (Rid pn slot))"
  by pat_completeness auto
termination by (relation "measure (\<lambda>(n, pn, slot). nat (n - pn))") auto

declare scan_next.simps [simp del]

definition scan_first :: "(rm_state, rid) op" where
  "scan_first = (\<lambda>(s, fh, t). scan_next (num_pages (file_hdr fh)) RM_FIRST_RECORD_PAGE (-1) (s, fh, t))"

definition scan_is_end :: "rm_file \<Rightarrow> rid \<Rightarrow> bool" where
  "scan_is_end fh r \<longleftrightarrow> page_no r \<ge> num_pages (file_hdr fh)"

text \<open>
  \<^verbatim>\<open>for (RmScan scan(fh); !scan.is_end(); scan.next())\<close>: the positions it visits, in at most \<open>k\<close> steps. The
  bound is for the statement of \<open>scan_visits_all\<close> only, which says how many steps are enough; the executors scan without one.
\<close>

fun scan_rest :: "nat \<Rightarrow> rid \<Rightarrow> (rm_state, rid list) op" where
  "scan_rest 0 r = throw AssertionFailure"
| "scan_rest (Suc k) r = (\<lambda>(s, fh, t).
     if scan_is_end fh r then (Inr [], s, fh, t)
     else andThen (scan_next (num_pages (file_hdr fh)) (page_no r) (slot_no r)) (\<lambda>r'.
       andThen (scan_rest k r') (\<lambda>rs. ret (r # rs))) (s, fh, t))"

definition scan_all :: "nat \<Rightarrow> (rm_state, rid list) op" where
  "scan_all k = andThen scan_first (scan_rest k)"

section \<open>The layout fits the page\<close>

definition layout_ok :: "rm_file_hdr \<Rightarrow> bool" where
  "layout_ok h \<longleftrightarrow> 1 \<le> record_size h \<and> record_size h \<le> RM_MAX_RECORD_SIZE \<and> 1 \<le> num_records_per_page h \<and>
     num_records_per_page h \<le> 8 * bitmap_size h \<and> 8 * bitmap_size h \<le> num_records_per_page h + 7 \<and>
     int PAGE_BITMAP + bitmap_size h + num_records_per_page h * record_size h \<le> int PAGE_SIZE"

lemma new_layout:
  assumes "1 \<le> r" "r \<le> RM_MAX_RECORD_SIZE"
  shows "layout_ok (new_file_hdr r) \<and>
    8 * (int PAGE_SIZE - 1 - 20) + 1 < (num_records_per_page (new_file_hdr r) + 1) * (1 + 8 * r)"
proof -
  define n where "n = 32601 div (1 + r * 8)"
  have n: "n * (1 + r * 8) \<le> 32601" "32601 < (n + 1) * (1 + r * 8)"
  proof -
    have pos: "0 < 1 + r * 8" using assms(1) by simp
    have "n * (1 + r * 8) + 32601 mod (1 + r * 8) = 32601" unfolding n_def by (rule div_mult_mod_eq)
    moreover have "0 \<le> 32601 mod (1 + r * 8)" "32601 mod (1 + r * 8) < 1 + r * 8"
      using pos by (simp_all add: pos_mod_sign pos_mod_bound)
    moreover have "(n + 1) * (1 + r * 8) = n * (1 + r * 8) + (1 + r * 8)" by (simp add: distrib_right)
    ultimately show "n * (1 + r * 8) \<le> 32601" "32601 < (n + 1) * (1 + r * 8)" by linarith+
  qed
  have one: "1 \<le> n"
  proof (rule ccontr)
    assume "\<not> 1 \<le> n"
    then have "(n + 1) * (1 + r * 8) \<le> 1 * (1 + r * 8)" using assms(1) by (intro mult_right_mono) auto
    with n(2) assms(2) show False by (simp add: RM_MAX_RECORD_SIZE_def)
  qed
  let ?b = "(n + 7) div 8"
  have b: "n \<le> 8 * ?b" "8 * ?b \<le> n + 7" by linarith+
  have "8 * (n * r) + n \<le> 32601" using n(1) by (simp add: algebra_simps)
  with b have "12 + ?b + n * r \<le> 4096" by linarith
  with b one assms n show ?thesis
    by (simp add: layout_ok_def new_file_hdr_def Let_def BITMAP_WIDTH_def PAGE_SIZE_def PAGE_BITMAP_def
        OFFSET_PAGE_HDR_def n_def [symmetric] algebra_simps)
qed

text \<open>
  For every record size that \<open>create_file\<close> accepts, the computed layout fits: the header,
  the bitmap with one bit per slot and all the slots lie within the 4096 bytes of the page, and no
  larger number of records would leave room in the formula's own budget.
\<close>

theorem new_file_layout:
  assumes "1 \<le> r" "r \<le> RM_MAX_RECORD_SIZE"
  shows "layout_ok (new_file_hdr r) \<and>
    8 * (int PAGE_SIZE - 1 - 20) + 1 < (num_records_per_page (new_file_hdr r) + 1) * (1 + 8 * r)"
  by (rule new_layout [OF assms])

theorem new_file_layout_witness:
  "layout_ok (new_file_hdr 512) \<and> num_records_per_page (new_file_hdr 512) = 7"
  using new_file_layout [of 512]
  by (simp add: RM_MAX_RECORD_SIZE_def) (simp add: new_file_hdr_def Let_def BITMAP_WIDTH_def PAGE_SIZE_def)

section \<open>The page operations\<close>

lemma page_bitmap [simp]: "PAGE_BITMAP = 12" "OFFSET_PAGE_HDR = 4"
  by (simp_all add: PAGE_BITMAP_def OFFSET_PAGE_HDR_def)

text \<open>Slots of different numbers do not overlap each other, the bitmap or the header.\<close>

lemma slot_place:
  assumes "layout_ok h" "0 \<le> i" "i < num_records_per_page h"
  shows "int (get_slot h i) = 12 + bitmap_size h + i * record_size h"
    "12 + nat i div 8 < get_slot h i" "get_slot h i + nat (record_size h) \<le> PAGE_SIZE" "12 \<le> get_slot h i"
    "int (12 + nat i div 8) < 12 + bitmap_size h"
proof -
  have b: "0 \<le> bitmap_size h" "0 \<le> record_size h" using assms(1) by (auto simp: layout_ok_def)
  then show g: "int (get_slot h i) = 12 + bitmap_size h + i * record_size h"
    using assms(2) by (simp add: get_slot_def)
  have "i div 8 < bitmap_size h" using assms by (auto simp: layout_ok_def)
  then show d: "int (12 + nat i div 8) < 12 + bitmap_size h"
    using assms(2) by (simp add: nat_div_distrib)
  have "0 \<le> i * record_size h" using assms(2) b by simp
  then show "12 + nat i div 8 < get_slot h i" "12 \<le> get_slot h i" using g d b by linarith+
  have "(i + 1) * record_size h \<le> num_records_per_page h * record_size h"
    using assms(3) b by (intro mult_right_mono) auto
  moreover have "(i + 1) * record_size h = i * record_size h + record_size h" by (simp add: distrib_right)
  ultimately have "int (get_slot h i) + record_size h \<le> int PAGE_SIZE"
    using assms(1) unfolding layout_ok_def g by simp
  then have "int (get_slot h i + nat (record_size h)) \<le> int PAGE_SIZE" using b by simp
  then show "get_slot h i + nat (record_size h) \<le> PAGE_SIZE" by (simp only: of_nat_le_iff)
qed

lemma slots_apart:
  assumes "layout_ok h" "0 \<le> i" "i < num_records_per_page h" "0 \<le> j" "j < num_records_per_page h" "i \<noteq> j"
  shows "get_slot h i + nat (record_size h) \<le> get_slot h j \<or> get_slot h j + nat (record_size h) \<le> get_slot h i"
proof -
  have b: "0 \<le> record_size h" using assms(1) by (auto simp: layout_ok_def)
  have "i + 1 \<le> j \<or> j + 1 \<le> i" using assms(6) by linarith
  then have "(i + 1) * record_size h \<le> j * record_size h \<or> (j + 1) * record_size h \<le> i * record_size h"
    using b by (auto intro: mult_right_mono)
  then show ?thesis
    using slot_place(1) [OF assms(1-3)] slot_place(1) [OF assms(1,4,5)] b by (auto simp: algebra_simps)
qed


definition slot_ok :: "rm_file_hdr \<Rightarrow> int \<Rightarrow> bool" where
  "slot_ok h i \<longleftrightarrow> 0 \<le> i \<and> i < num_records_per_page h"

lemma header_apart:
  assumes "layout_ok h" "slot_ok h i"
  shows "get_slot h i \<ge> 12" "12 + nat i div 8 < get_slot h i" "12 + nat j div 8 < get_slot h i \<or> \<not> slot_ok h j"
proof -
  note p = slot_place [OF assms(1)]
  show "get_slot h i \<ge> 12" "12 + nat i div 8 < get_slot h i" using p assms(2) by (auto simp: slot_ok_def)
  show "12 + nat j div 8 < get_slot h i \<or> \<not> slot_ok h j"
  proof (cases "slot_ok h j")
    case True
    have "0 \<le> i * record_size h" using assms by (auto simp: layout_ok_def slot_ok_def)
    with True p(1,5) assms(2) have "int (12 + nat j div 8) < int (get_slot h i)"
      unfolding slot_ok_def by fastforce
    then show ?thesis by simp
  qed simp
qed

lemma bm_header:
  "bm_is_set (write_int 4 m 4 v) 12 i = bm_is_set m 12 i"
  "bm_is_set (write_int 4 m 8 v) 12 i = bm_is_set m 12 i"
  "bm_is_set (write_int 4 m 0 v) 12 i = bm_is_set m 12 i"
  by (simp_all add: mem_simps)

lemma read_bm:
  "read_int 4 (bm_set m 12 i) 4 = read_int 4 m 4" "read_int 4 (bm_set m 12 i) 8 = read_int 4 m 8"
  "read_int 4 (bm_reset m 12 i) 4 = read_int 4 m 4" "read_int 4 (bm_reset m 12 i) 8 = read_int 4 m 8"
  by (auto simp: read_int_def bm_set_outside bm_reset_outside
      intro!: arg_cong [where f = "\<lambda>x. to_signed 4 (le_decode x)"] mread_cong)

lemma mread_bm:
  "12 + i div 8 < off \<Longrightarrow> mread (bm_set m 12 i) off n = mread m off n"
  "12 + i div 8 < off \<Longrightarrow> mread (bm_reset m 12 i) off n = mread m off n"
  by (auto intro!: mread_cong simp: bm_set_outside bm_reset_outside)

definition page_rec :: "rm_file_hdr \<Rightarrow> mem \<Rightarrow> int \<Rightarrow> bytes option" where
  "page_rec h m i = (if slot_set m i then Some (slot_bytes h m i) else None)"

lemma page_rec_insert:
  assumes "layout_ok h" "slot_ok h i" "slot_ok h j" "length buf = nat (record_size h)"
  shows "page_rec h (page_insert h i buf m) j = (if j = i then Some buf else page_rec h m j)"
proof -
  note a = header_apart [OF assms(1)]
  have ne: "nat i = nat j \<longleftrightarrow> i = j" using assms(2,3) by (auto simp: slot_ok_def)
  have s: "slot_set (page_insert h i buf m) j \<longleftrightarrow> i = j \<or> slot_set m j"
    using a(3) [OF assms(2), of j] assms(3) ne
    by (simp add: slot_set_def page_insert_def Let_def set_num_records_def bm_header mem_simps)
  have b: "slot_bytes h (page_insert h i buf m) j = (if j = i then buf else slot_bytes h m j)"
  proof (cases "i = j")
    case True
    have "8 + 4 \<le> get_slot h i" using a(1) [OF assms(2)] by simp
    with True assms(4) show ?thesis
      by (simp add: slot_bytes_def page_insert_def Let_def set_num_records_def mem_simps)
  next
    case False
    then have "get_slot h j + nat (record_size h) \<le> get_slot h i \<or> get_slot h i + nat (record_size h) \<le> get_slot h j"
      using slots_apart [OF assms(1), of j i] assms(2,3) by (auto simp: slot_ok_def)
    moreover have "12 + nat i div 8 < get_slot h j" using a(3) [OF assms(3), of i] assms(2) by simp
    ultimately show ?thesis using False a(1) [OF assms(3)] assms(4)
      by (simp add: slot_bytes_def page_insert_def Let_def set_num_records_def mem_simps mread_bm)
  qed
  show ?thesis using s b by (cases "i = j") (auto simp: page_rec_def)
qed

lemma page_rec_delete:
  assumes "layout_ok h" "slot_ok h i" "slot_ok h j"
  shows "page_rec h (page_delete i m) j = (if j = i then None else page_rec h m j)"
proof -
  note a = header_apart [OF assms(1,3)]
  have ne: "nat i = nat j \<longleftrightarrow> i = j" using assms(2,3) by (auto simp: slot_ok_def)
  have "12 + nat i div 8 < get_slot h j" using a(3) [of i] assms(2) by simp
  then show ?thesis
    using a(1) ne
    by (auto simp: page_rec_def slot_set_def slot_bytes_def page_delete_def Let_def set_num_records_def bm_header mem_simps
        mread_bm)
qed

lemma page_rec_update:
  assumes "layout_ok h" "slot_ok h i" "slot_ok h j" "length buf = nat (record_size h)" "slot_set m i"
  shows "page_rec h (page_update h i buf m) j = (if j = i then Some buf else page_rec h m j)"
proof -
  note a = header_apart [OF assms(1)]
  have s: "slot_set (page_update h i buf m) j = slot_set m j"
    using a(3) [OF assms(2), of j] assms(3) by (simp add: slot_set_def page_update_def mem_simps)
  show ?thesis
  proof (cases "i = j")
    case True
    with s assms(4,5) show ?thesis by (simp add: page_rec_def slot_bytes_def page_update_def mem_simps)
  next
    case False
    then have "get_slot h j + nat (record_size h) \<le> get_slot h i \<or> get_slot h i + nat (record_size h) \<le> get_slot h j"
      using slots_apart [OF assms(1), of j i] assms(2,3) by (auto simp: slot_ok_def)
    with False s assms(4) show ?thesis by (simp add: page_rec_def slot_bytes_def page_update_def mem_simps)
  qed
qed

lemma page_rec_init:
  assumes "layout_ok h" "slot_ok h j"
  shows "page_rec h (page_init h m) j = None"
proof -
  have "int (nat j div 8) < bitmap_size h"
    using slot_place(5) [OF assms(1), of j] assms(2) by (simp add: slot_ok_def)
  then have "nat j div 8 < nat (bitmap_size h)" by (simp add: zless_nat_eq_int_zless)
  then show ?thesis
    by (simp add: page_rec_def slot_set_def page_init_def set_next_free_def set_num_records_def bm_header mem_simps)
qed

lemma page_rec_header [simp]:
  assumes "layout_ok h" "slot_ok h j"
  shows "page_rec h (write_int 4 m 0 v) j = page_rec h m j" "page_rec h (set_next_free v m) j = page_rec h m j"
  using header_apart(1) [OF assms]
  by (simp_all add: page_rec_def slot_set_def slot_bytes_def set_next_free_def bm_header mem_simps)


section \<open>The table a file stands for\<close>

text \<open>
  \<open>mem_of b\<close> is a page's memory with the bytes \<open>b\<close>. A record file stands for a map from positions
  to record bytes; \<open>page_count\<close> is the number of records on a page.
\<close>

definition page_slots :: "rm_file_hdr \<Rightarrow> mem \<Rightarrow> int set" where
  "page_slots h m = {i. slot_ok h i \<and> slot_set m i}"

definition page_count :: "rm_file_hdr \<Rightarrow> mem \<Rightarrow> int" where
  "page_count h m = int (card (page_slots h m))"

lemma same_page_rec:
  assumes "layout_ok h" "slot_ok h i" "same_page m m'"
  shows "page_rec h m i = page_rec h m' i" "slot_set m i = slot_set m' i"
proof -
  note p = slot_place [OF assms(1)] and a = header_apart [OF assms(1,2)]
  have le: "get_slot h i + nat (record_size h) \<le> PAGE_SIZE" using p(3) assms(2) by (simp add: slot_ok_def)
  with a(2) have "12 + nat i div 8 < PAGE_SIZE" by linarith
  then show s: "slot_set m i = slot_set m' i"
    using assms(3) unfolding slot_set_def same_page_def page_bitmap by (intro bm_is_set_cong) simp
  have "slot_bytes h m i = slot_bytes h m' i"
    using le assms(3) by (auto simp: slot_bytes_def same_page_def intro!: mread_cong)
  with s show "page_rec h m i = page_rec h m' i" by (simp add: page_rec_def)
qed

lemma same_page_slots: "layout_ok h \<Longrightarrow> same_page m m' \<Longrightarrow> page_slots h m = page_slots h m'"
  by (auto simp: page_slots_def same_page_rec)

lemma same_page_fields:
  "same_page m m' \<Longrightarrow> num_records m = num_records m'"
  "same_page m m' \<Longrightarrow> next_free_page_no m = next_free_page_no m'"
  by (auto simp: num_records_def next_free_page_no_def PAGE_SIZE_def intro: same_page_read_int)

lemma finite_slots [simp]: "finite (page_slots h m)"
  by (rule finite_subset [of _ "{0..<num_records_per_page h}"]) (auto simp: page_slots_def slot_ok_def)

lemma page_slots_bound: "page_count h m \<le> num_records_per_page h \<or> num_records_per_page h < 0"
proof -
  have "card (page_slots h m) \<le> card {0..<num_records_per_page h}"
    by (rule card_mono) (auto simp: page_slots_def slot_ok_def)
  then show ?thesis by (auto simp: page_count_def)
qed

text \<open>A page that is not full has a free slot, and \<open>first_bit\<close> finds it.\<close>

lemma first_free_slot:
  assumes "layout_ok h" "page_count h m < num_records_per_page h"
    "slot = first_bit False m 12 (num_records_per_page h)"
  shows "slot_ok h slot \<and> \<not> slot_set m slot"
proof -
  have pos: "-1 + 1 \<le> num_records_per_page h" using assms(1) by (simp add: layout_ok_def)
  note sc = scan_bits_spec [OF refl pos, of False m 12]
  have "slot < num_records_per_page h"
  proof (rule ccontr)
    assume "\<not> slot < num_records_per_page h"
    then have "slot = num_records_per_page h" using sc assms(3) by (simp add: first_bit_def next_bit_def)
    then have "\<forall>k. 0 \<le> k \<and> k < num_records_per_page h \<longrightarrow> slot_set m k"
      using sc assms(3) by (auto simp: first_bit_def next_bit_def slot_set_def)
    then have "page_slots h m = {0..<num_records_per_page h}" by (auto simp: page_slots_def slot_ok_def)
    then show False using assms(2) by (simp add: page_count_def split: if_splits)
  qed
  then show ?thesis using sc assms(3) by (auto simp: first_bit_def next_bit_def slot_ok_def slot_set_def)
qed

lemma rec_slots: "slot_ok h i \<Longrightarrow> i \<in> page_slots h m \<longleftrightarrow> page_rec h m i \<noteq> None"
  by (simp add: page_slots_def page_rec_def)

lemma slots_eqI: "(\<And>j. slot_ok h j \<Longrightarrow> (page_rec h m j \<noteq> None) = (j \<in> X)) \<Longrightarrow> X \<subseteq> {j. slot_ok h j} \<Longrightarrow> page_slots h m = X"
  using rec_slots [of h _ m] by (auto simp: page_slots_def page_rec_def)

lemma page_slots_insert:
  "layout_ok h \<Longrightarrow> slot_ok h i \<Longrightarrow> length buf = nat (record_size h) \<Longrightarrow>
    page_slots h (page_insert h i buf m) = insert i (page_slots h m)"
  by (rule slots_eqI) (auto simp: page_rec_insert rec_slots, auto simp: page_slots_def)

lemma page_slots_delete:
  "layout_ok h \<Longrightarrow> slot_ok h i \<Longrightarrow> page_slots h (page_delete i m) = page_slots h m - {i}"
  by (rule slots_eqI) (auto simp: page_rec_delete rec_slots, auto simp: page_slots_def)

lemma page_slots_header [simp]:
  "page_slots h (write_int 4 m 0 v) = page_slots h m" "page_slots h (set_next_free v m) = page_slots h m"
  by (simp_all add: page_slots_def slot_set_def set_next_free_def bm_header)

lemma page_slots_update:
  assumes "layout_ok h" "slot_ok h i"
  shows "page_slots h (page_update h i buf m) = page_slots h m"
proof -
  have "slot_set (page_update h i buf m) j = slot_set m j" if "slot_ok h j" for j
    using header_apart(3) [OF assms, of j] that by (simp add: slot_set_def page_update_def mem_simps)
  then show ?thesis by (auto simp: page_slots_def)
qed

lemma page_slots_init: "layout_ok h \<Longrightarrow> page_slots h (page_init h m) = {}"
  by (rule slots_eqI) (auto simp: page_rec_init)

lemma num_records_edits:
  assumes "layout_ok h" "slot_ok h i" "in_signed 4 v"
  shows "num_records (set_num_records v m) = v" "num_records (set_next_free v m) = num_records m"
    "num_records (write_int 4 m 0 v) = num_records m" "num_records (page_update h i buf m) = num_records m"
    "next_free_page_no (set_next_free v m) = v" "next_free_page_no (write_int 4 m 0 v) = next_free_page_no m"
    "next_free_page_no (page_update h i buf m) = next_free_page_no m"
    "next_free_page_no (page_delete i m) = next_free_page_no m"
    "next_free_page_no (page_insert h i buf m) = next_free_page_no m"
  using assms(3) header_apart(1) [OF assms(1,2)]
  by (simp_all add: num_records_def set_num_records_def set_next_free_def next_free_page_no_def mem_simps page_update_def
      page_delete_def page_insert_def read_bm Let_def)

lemma num_records_insert:
  assumes "layout_ok h" "slot_ok h i" "in_signed 4 (num_records m + 1)"
  shows "num_records (page_insert h i buf m) = num_records m + 1"
proof -
  have "num_records (mwrite (bm_set m 12 (nat i)) (get_slot h i) buf) = num_records m"
    using header_apart(1) [OF assms(1,2)] by (simp add: num_records_def mem_simps read_bm)
  with assms num_records_edits(1) [OF assms] show ?thesis by (simp add: page_insert_def Let_def)
qed

lemma num_records_delete:
  assumes "layout_ok h" "slot_ok h i" "in_signed 4 (num_records m - 1)"
  shows "num_records (page_delete i m) = num_records m - 1"
proof -
  have "num_records (bm_reset m 12 (nat i)) = num_records m" by (simp add: num_records_def read_bm)
  with assms num_records_edits(1) [OF assms] show ?thesis by (simp add: page_delete_def Let_def)
qed

definition rm_table :: "rm_file \<Rightarrow> (page_id \<rightharpoonup> bytes) \<Rightarrow> rid \<rightharpoonup> bytes" where
  "rm_table fh st r =
     (if 1 \<le> page_no r \<and> page_no r < num_pages (file_hdr fh) \<and> slot_ok (file_hdr fh) (slot_no r)
      then (case st (PageId (rm_fd fh) (page_no r)) of
              None \<Rightarrow> None | Some b \<Rightarrow> page_rec (file_hdr fh) (mem_of b) (slot_no r))
      else None)"

text \<open>The list of pages with free space, from \<open>first_free_page_no\<close> through the page headers.\<close>

fun free_chain :: "rm_file \<Rightarrow> (page_id \<rightharpoonup> bytes) \<Rightarrow> int \<Rightarrow> int list \<Rightarrow> bool" where
  "free_chain fh st p [] \<longleftrightarrow> p = RM_NO_PAGE"
| "free_chain fh st p (q # qs) \<longleftrightarrow> p = q \<and> 1 \<le> q \<and> q < num_pages (file_hdr fh) \<and>
     (\<exists>b. st (PageId (rm_fd fh) q) = Some b \<and> num_records (mem_of b) < num_records_per_page (file_hdr fh) \<and>
       free_chain fh st (next_free_page_no (mem_of b)) qs)"

text \<open>
  A sound record file: the layout is that of a created file, its pages are the known pages \<open>1\<close> up to
  \<open>num_pages\<close>, each counts its records, and the free list is a duplicate-free chain of pages that
  are not full.
\<close>

definition rm_ok :: "rm_file \<Rightarrow> (page_id \<rightharpoonup> bytes) \<Rightarrow> bool" where
  "rm_ok fh st \<longleftrightarrow> layout_ok (file_hdr fh) \<and> 1 \<le> num_pages (file_hdr fh) \<and>
     (\<forall>no. 1 \<le> no \<and> no < num_pages (file_hdr fh) \<longrightarrow> (\<exists>b. st (PageId (rm_fd fh) no) = Some b \<and>
        num_records (mem_of b) = page_count (file_hdr fh) (mem_of b))) \<and>
     (\<exists>qs. distinct qs \<and> free_chain fh st (first_free_page_no (file_hdr fh)) qs)"

text \<open>The pool knows the file, allocates its next page where the header says, and caches none beyond.\<close>

definition rm_rel :: "rm_state \<Rightarrow> (page_id \<rightharpoonup> bytes) \<Rightarrow> bool" where
  "rm_rel rs st \<longleftrightarrow> (case rs of (s, fh, t) \<Rightarrow> known s st \<and> rm_ok fh st \<and>
     fd2pageno (st_disk s) (rm_fd fh) = num_pages (file_hdr fh) \<and>
     (\<exists>p. fd2path (st_disk s) (rm_fd fh) = Some p \<and> p \<noteq> LOG_FILE_NAME) \<and>
     (\<forall>pid \<in> dom (page_table s). pid_fd pid = rm_fd fh \<longrightarrow> pid_no pid < num_pages (file_hdr fh)))"


section \<open>Edits of one page\<close>

lemma rm_table_upd:
  assumes "layout_ok (file_hdr fh)" "1 \<le> no" "no < num_pages (file_hdr fh)"
    "st' = st(PageId (rm_fd fh) no \<mapsto> mread m' 0 PAGE_SIZE)" "slot_ok (file_hdr fh) (slot_no r) \<or> page_no r \<noteq> no"
  shows "rm_table fh st' r = (if page_no r = no then page_rec (file_hdr fh) m' (slot_no r) else rm_table fh st r)"
  using assms same_page_rec(1) [OF assms(1) _ same_page_mem_of, of "slot_no r" m']
  by (auto simp: rm_table_def)

lemma rm_table_page:
  assumes "layout_ok (file_hdr fh)" "1 \<le> page_no r" "page_no r < num_pages (file_hdr fh)"
    "st (PageId (rm_fd fh) (page_no r)) = Some (mread m 0 PAGE_SIZE)" "slot_ok (file_hdr fh) (slot_no r)"
  shows "rm_table fh st r = page_rec (file_hdr fh) m (slot_no r)"
  using assms same_page_rec(1) [OF assms(1) assms(5) same_page_mem_of, of m] by (auto simp: rm_table_def)

lemma rm_table_bad_slot: "\<not> slot_ok (file_hdr fh) (slot_no r) \<Longrightarrow> rm_table fh st r = None"
  by (auto simp: rm_table_def)

lemma free_chain_mono:
  assumes "free_chain fh st p qs" "rm_fd fh' = rm_fd fh" "num_pages (file_hdr fh) \<le> num_pages (file_hdr fh')"
    "num_records_per_page (file_hdr fh') = num_records_per_page (file_hdr fh)"
    "\<And>q b. q \<in> set qs \<Longrightarrow> st (PageId (rm_fd fh) q) = Some b \<Longrightarrow>
      num_records (mem_of b) < num_records_per_page (file_hdr fh) \<Longrightarrow> \<exists>b'. st' (PageId (rm_fd fh) q) = Some b' \<and>
        num_records (mem_of b') < num_records_per_page (file_hdr fh) \<and> next_free_page_no (mem_of b') = next_free_page_no (mem_of b)"
  shows "free_chain fh' st' p qs"
  using assms(1,5)
proof (induction qs arbitrary: p)
  case Nil
  then show ?case by simp
next
  case (Cons q qs)
  from Cons.prems(1) obtain b where b: "p = q" "1 \<le> q" "q < num_pages (file_hdr fh)"
    "st (PageId (rm_fd fh) q) = Some b" "num_records (mem_of b) < num_records_per_page (file_hdr fh)"
    "free_chain fh st (next_free_page_no (mem_of b)) qs" by auto
  from Cons.prems(2) [OF _ b(4,5)] obtain b' where b': "st' (PageId (rm_fd fh) q) = Some b'"
    "num_records (mem_of b') < num_records_per_page (file_hdr fh)"
    "next_free_page_no (mem_of b') = next_free_page_no (mem_of b)" by auto
  have "free_chain fh' st' (next_free_page_no (mem_of b)) qs"
    by (rule Cons.IH [OF b(6)]) (use Cons.prems(2) in auto)
  with b b' assms(2-4) show ?case by auto
qed

lemma free_chain_not_full:
  "free_chain fh st p qs \<Longrightarrow> q \<in> set qs \<Longrightarrow> \<exists>b. st (PageId (rm_fd fh) q) = Some b \<and>
    num_records (mem_of b) < num_records_per_page (file_hdr fh)"
  by (induction qs arbitrary: p) auto

text \<open>\<open>page_count\<close> fits an \<open>int\<close>.\<close>

lemma count_small:
  assumes "layout_ok h"
  shows "0 \<le> page_count h m" "page_count h m \<le> 4096" "num_records_per_page h \<le> 4096"
proof -
  have "num_records_per_page h * 1 \<le> num_records_per_page h * record_size h"
    using assms by (intro mult_left_mono) (auto simp: layout_ok_def)
  then have "num_records_per_page h \<le> num_records_per_page h * record_size h" by simp
  then show n: "num_records_per_page h \<le> 4096"
    using assms unfolding layout_ok_def PAGE_SIZE_def page_bitmap by linarith
  show "0 \<le> page_count h m" by (simp add: page_count_def)
  show "page_count h m \<le> 4096" using page_slots_bound [of h m] n assms by (auto simp: layout_ok_def)
qed

lemma rm_ok_page:
  assumes "rm_ok fh st" "1 \<le> no" "no < num_pages (file_hdr fh)" "st (PageId (rm_fd fh) no) = Some (mread m 0 PAGE_SIZE)"
  shows "num_records m = page_count (file_hdr fh) m"
proof -
  have "num_records (mem_of (mread m 0 PAGE_SIZE)) = page_count (file_hdr fh) (mem_of (mread m 0 PAGE_SIZE))"
    using assms by (auto simp: rm_ok_def)
  moreover have "layout_ok (file_hdr fh)" using assms(1) by (simp add: rm_ok_def)
  ultimately show ?thesis
    using same_page_fields(1) [OF same_page_mem_of, of m] same_page_slots [OF _ same_page_mem_of, of "file_hdr fh" m]
    by (simp add: page_count_def)
qed

text \<open>Changing a page keeps the file sound when its count stays right and the chain does.\<close>

lemma rm_ok_edit:
  assumes "rm_ok fh st" "st' = st(PageId (rm_fd fh) no \<mapsto> mread m' 0 PAGE_SIZE)"
    "rm_fd fh' = rm_fd fh" "layout_ok (file_hdr fh')"
    "record_size (file_hdr fh') = record_size (file_hdr fh)"
    "num_records_per_page (file_hdr fh') = num_records_per_page (file_hdr fh)"
    "bitmap_size (file_hdr fh') = bitmap_size (file_hdr fh)"
    "num_pages (file_hdr fh') = num_pages (file_hdr fh) \<or> num_pages (file_hdr fh') = no + 1 \<and> no = num_pages (file_hdr fh)"
    "num_records m' = page_count (file_hdr fh') m'"
    "distinct qs" "free_chain fh' st' (first_free_page_no (file_hdr fh')) qs"
  shows "rm_ok fh' st'"
proof -
  have pc: "page_count (file_hdr fh') = page_count (file_hdr fh)"
    using assms(6) by (simp add: fun_eq_iff page_count_def page_slots_def slot_ok_def)
  have mo: "num_records (mem_of (mread m' 0 PAGE_SIZE)) = page_count (file_hdr fh') (mem_of (mread m' 0 PAGE_SIZE))"
    using assms(4,9) same_page_fields(1) [OF same_page_mem_of, of m']
      same_page_slots [OF assms(4) same_page_mem_of, of m'] by (simp add: page_count_def)
  show ?thesis
    unfolding rm_ok_def
  proof (intro conjI allI impI)
    fix k assume k: "1 \<le> k \<and> k < num_pages (file_hdr fh')"
    show "\<exists>b. st' (PageId (rm_fd fh') k) = Some b \<and> num_records (mem_of b) = page_count (file_hdr fh') (mem_of b)"
    proof (cases "k = no")
      case True
      with assms(2,3) mo show ?thesis by auto
    next
      case False
      then have "k < num_pages (file_hdr fh)" using k assms(8) by auto
      with k False assms(1,2,3) pc show ?thesis by (auto simp: rm_ok_def)
    qed
  next
    show "\<exists>qs. distinct qs \<and> free_chain fh' st' (first_free_page_no (file_hdr fh')) qs" using assms(10,11) by blast
  next
    show "1 \<le> num_pages (file_hdr fh')" using assms(1,8) by (auto simp: rm_ok_def)
  qed (rule assms(4))
qed

text \<open>A change that keeps the count below full, or a page that is not on the chain.\<close>

lemma chain_edit:
  assumes "free_chain fh st p qs" "st' = st(PageId (rm_fd fh) no \<mapsto> mread m' 0 PAGE_SIZE)"
    "no \<in> set qs \<Longrightarrow> st (PageId (rm_fd fh) no) = Some (mread m 0 PAGE_SIZE) \<and>
      num_records m' < num_records_per_page (file_hdr fh) \<and> next_free_page_no m' = next_free_page_no m"
    "rm_fd fh' = rm_fd fh" "num_pages (file_hdr fh) \<le> num_pages (file_hdr fh')"
    "num_records_per_page (file_hdr fh') = num_records_per_page (file_hdr fh)"
  shows "free_chain fh' st' p qs"
proof (rule free_chain_mono [OF assms(1,4-6)])
  fix q b assume q: "q \<in> set qs" "st (PageId (rm_fd fh) q) = Some b" "num_records (mem_of b) < num_records_per_page (file_hdr fh)"
  show "\<exists>b'. st' (PageId (rm_fd fh) q) = Some b' \<and> num_records (mem_of b') < num_records_per_page (file_hdr fh) \<and>
    next_free_page_no (mem_of b') = next_free_page_no (mem_of b)"
  proof (cases "q = no")
    case True
    with q assms(3) have *: "b = mread m 0 PAGE_SIZE" "num_records m' < num_records_per_page (file_hdr fh)"
      "next_free_page_no m' = next_free_page_no m" by auto
    with True assms(2) show ?thesis
      using same_page_fields [OF same_page_mem_of, of m'] same_page_fields(2) [OF same_page_mem_of, of m] by auto
  next
    case False
    with q assms(2) show ?thesis by auto
  qed
qed


section \<open>The functions of the file handle\<close>

lemma rm_relD:
  assumes "rm_rel (s, fh, t) st"
  shows "known s st" "rm_ok fh st" "layout_ok (file_hdr fh)"
    "fd2pageno (st_disk s) (rm_fd fh) = num_pages (file_hdr fh)"
    "\<exists>p. fd2path (st_disk s) (rm_fd fh) = Some p \<and> p \<noteq> LOG_FILE_NAME"
    "\<forall>pid \<in> dom (page_table s). pid_fd pid = rm_fd fh \<longrightarrow> pid_no pid < num_pages (file_hdr fh)"
  using assms by (auto simp: rm_rel_def rm_ok_def)

lemma rm_ok_known_page:
  "rm_ok fh st \<Longrightarrow> 1 \<le> no \<Longrightarrow> no < num_pages (file_hdr fh) \<Longrightarrow> \<exists>b. st (PageId (rm_fd fh) no) = Some b"
  by (auto simp: rm_ok_def)

text \<open>The part of \<open>rm_rel\<close> that concerns the pool, carried through a function.\<close>

definition rm_pool :: "storage \<Rightarrow> int \<Rightarrow> int \<Rightarrow> bool" where
  "rm_pool s fd n \<longleftrightarrow> fd2pageno (st_disk s) fd = n \<and> (\<exists>p. fd2path (st_disk s) fd = Some p \<and> p \<noteq> LOG_FILE_NAME) \<and>
     (\<forall>pid \<in> dom (page_table s). pid_fd pid = fd \<longrightarrow> pid_no pid < n)"

lemma rm_rel_pool: "rm_rel (s, fh, t) st \<longleftrightarrow> known s st \<and> rm_ok fh st \<and> rm_pool s (rm_fd fh) (num_pages (file_hdr fh))"
  by (auto simp: rm_rel_def rm_pool_def)

lemma data_file: "data_id d (PageId fd no) \<Longrightarrow> \<exists>p. fd2path d fd = Some p \<and> p \<noteq> LOG_FILE_NAME"
  by (auto simp: data_id_def)

lemma rm_pool_keep:
  assumes "rm_pool s fd n" "files_keep X s s'" "\<forall>pid \<in> X. pid_fd pid = fd \<longrightarrow> pid_no pid < n"
  shows "rm_pool s' fd n"
proof -
  have "data_id (st_disk s) (PageId fd 0)" using assms(1) by (auto simp: rm_pool_def data_id_def valid_no_def)
  then have "data_id (st_disk s') (PageId fd 0)" using assms(2) by (auto simp: files_keep_def)
  from data_file [OF this] have f: "\<exists>p. fd2path (st_disk s') fd = Some p \<and> p \<noteq> LOG_FILE_NAME" .
  have "pid_no pid < n" if "pid \<in> dom (page_table s')" "pid_fd pid = fd" for pid
    using that assms unfolding rm_pool_def files_keep_def by blast
  with f assms(1,2) show ?thesis by (auto simp: rm_pool_def files_keep_def)
qed

lemma fetch_page_handle_run:
  assumes "rm_rel (s, fh, t) st" "1 \<le> no" "fetch_page_handle no (s, fh, t) = (Inr f, s', fh', t')"
  shows "no < num_pages (file_hdr fh) \<and> fh' = fh \<and> t' = t \<and> rm_pool s' (rm_fd fh) (num_pages (file_hdr fh)) \<and>
    global_lsn (st_log s') = global_lsn (st_log s) \<and>
    (\<exists>m. held s' st (PageId (rm_fd fh) no) f m \<and> clean_ok s' (PageId (rm_fd fh) no) f)"
proof -
  note rel = rm_relD [OF assms(1)]
  have no: "no < num_pages (file_hdr fh)" and f: "fetch_page (PageId (rm_fd fh) no) s = (Inr (Some f), s')"
    and eq: "fh' = fh" "t' = t"
    using assms(3) by (auto simp: fetch_page_handle_def split: if_splits prod.splits sum.splits option.splits)
  obtain b where "st (PageId (rm_fd fh) no) = Some b" using rm_ok_known_page [OF rel(2) assms(2) no] by blast
  from fetch_held [OF rel(1) this f] obtain m where
    m: "held s' st (PageId (rm_fd fh) no) f m" "clean_ok s' (PageId (rm_fd fh) no) f"
      "files_keep {PageId (rm_fd fh) no} s s'" by blast
  have "rm_pool s' (rm_fd fh) (num_pages (file_hdr fh))"
    by (rule rm_pool_keep [OF _ m(3)]) (use assms(1) no in \<open>auto simp: rm_rel_pool\<close>)
  with no eq m show ?thesis by (auto simp: files_keep_def)
qed

lemma unpin_frame_run:
  assumes "held s st pid f m" "dirty \<or> clean_ok s pid f" "rm_pool s fd n"
  shows "\<exists>s'. unpin_frame f dirty (s, fh, t) = (s', fh, t) \<and> known s' st \<and> rm_pool s' fd n \<and>
    global_lsn (st_log s') = global_lsn (st_log s)"
  using unpin_held [OF assms(1,2)] heldD(6) [OF assms(1)] rm_pool_keep [OF assms(3), of "{}"]
  by (auto simp: unpin_frame_def frame_id_def files_keep_def [of _ s])

text \<open>
  What a context must satisfy for its log records to fit their fields: the transaction's numbers, the
  table name, and an LSN below the largest \<^verbatim>\<open>int\<close>.
\<close>

definition ctx_ok :: "rm_state \<Rightarrow> bool" where
  "ctx_ok rs \<longleftrightarrow> (case rs of (s, fh, t) \<Rightarrow> (case t of None \<Rightarrow> True
     | Some txn \<Rightarrow> in_signed 8 (txn_id txn) \<and> in_signed 4 (txn_prev_lsn txn) \<and> length (rm_tab_name fh) < 2 ^ 30 \<and>
         global_lsn (st_log s) < 2 ^ 31 - 1))"

lemma rec_ok_prev: "rec_ok r \<Longrightarrow> in_signed 4 v \<Longrightarrow> rec_ok (set_hdr (prev_lsn_update (\<lambda>_. v)) r)"
  by (cases r) (auto simp: rec_ok_def hdr_fits_def)

text \<open>One record was logged for the transaction of the context.\<close>

definition logged_once :: "storage \<Rightarrow> transaction option \<Rightarrow> storage \<Rightarrow> transaction option \<Rightarrow> bool" where
  "logged_once s t s' t' \<longleftrightarrow> (\<forall>txn. t = Some txn \<longrightarrow>
     t' = Some (txn\<lparr>txn_prev_lsn := global_lsn (st_log s)\<rparr>) \<and> global_lsn (st_log s') = global_lsn (st_log s) + 1)"

definition same_layout :: "rm_file \<Rightarrow> rm_file \<Rightarrow> bool" where
  "same_layout fh fh' \<longleftrightarrow> rm_tab_name fh' = rm_tab_name fh \<and> record_size (file_hdr fh') = record_size (file_hdr fh) \<and>
     num_pages (file_hdr fh') \<le> num_pages (file_hdr fh) + 1"

lemma log_change_run:
  assumes "held s st pid f m" "log_change f mk (s, fh, t) = (Inr u, s', fh', t')" "rm_pool s fd n" "ctx_ok (s, fh, t)"
    "\<And>txn. t = Some txn \<Longrightarrow> rec_ok (mk (txn_id txn))"
  shows "fh' = fh \<and> rm_pool s' fd n \<and>
    (\<exists>m' v. (m' = m \<or> m' = write_int 4 m 0 v) \<and> held s' (st(pid \<mapsto> mread m' 0 PAGE_SIZE)) pid f m') \<and> logged_once s t s' t'"
proof (cases t)
  case None
  then have "s' = s" "fh' = fh" using assms(2) by (auto simp: log_change_def)
  moreover have "st(pid \<mapsto> mread m 0 PAGE_SIZE) = st" using heldD(5) [OF assms(1)] by auto
  ultimately show ?thesis using assms(1,3) None by (auto simp: logged_once_def)
next
  case (Some txn)
  let ?r = "set_hdr (prev_lsn_update (\<lambda>_. txn_prev_lsn txn)) (mk (txn_id txn))"
  obtain r s1 where a: "on_log (add_log_to_buffer ?r) s = (Inr r, s1)"
    and s': "s' = write_frame f (\<lambda>m. write_int 4 m 0 (lsn (hdr r))) s1" "fh' = fh" "t' = Some (txn\<lparr>txn_prev_lsn := lsn (hdr r)\<rparr>)"
    using assms(2) Some by (auto simp: log_change_def split: sum.splits prod.splits)
  have "rec_ok ?r" using assms(4,5) Some by (auto simp: ctx_ok_def intro: rec_ok_prev)
  moreover have "global_lsn (st_log s) < 2 ^ 31 - 1" using assms(4) Some by (simp add: ctx_ok_def)
  ultimately have l: "held s1 st pid f m" "page_table s1 = page_table s" "fd2pageno (st_disk s1) = fd2pageno (st_disk s)"
    "\<forall>pid. data_id (st_disk s) pid \<longrightarrow> data_id (st_disk s1) pid"
    using log_held [OF assms(1) a] by auto
  have "known s st" using heldD(1) [OF assms(1)] .
  from log_known [OF this a \<open>rec_ok ?r\<close>] \<open>global_lsn _ < _\<close> have once: "logged_once s t s' t'"
    by (simp add: logged_once_def Some s'(1,3) write_frame_def set_frame_def)
  have "data_id (st_disk s) (PageId fd 0)" using assms(3) by (auto simp: rm_pool_def data_id_def valid_no_def)
  then have "rm_pool s1 fd n" using l data_file [of "st_disk s1" fd 0] assms(3) by (auto simp: rm_pool_def)
  then have "rm_pool s' fd n" unfolding s'(1) by (simp add: rm_pool_def write_frame_parts)
  with edit_held [OF l(1), of "\<lambda>m. write_int 4 m 0 (lsn (hdr r))"] s' once show ?thesis by blast
qed

lemma log_stamp:
  assumes "m' = m \<or> m' = write_int 4 m 0 v"
  shows "page_slots h m' = page_slots h m" "num_records m' = num_records m" "next_free_page_no m' = next_free_page_no m"
    "layout_ok h \<Longrightarrow> slot_ok h i \<Longrightarrow> page_rec h m' i = page_rec h m i" "slot_set m' i = slot_set m i"
  using assms by (auto simp: num_records_def next_free_page_no_def mem_simps slot_set_def bm_header)

text \<open>
  Claim C11. \<open>get_record\<close> looks the position up in the table the file stands for: it returns exactly
  the bytes stored there, or \<open>RecordNotFoundError\<close> when the slot is free, and changes no page.
\<close>

theorem get_record_looks_up:
  assumes "rm_rel (s, fh, t) st" "1 \<le> page_no r" "page_no r < num_pages (file_hdr fh)" "slot_ok (file_hdr fh) (slot_no r)"
    "fst (fetch_page (PageId (rm_fd fh) (page_no r)) s) = Inr (Some f)"
  shows "\<exists>s'. get_record r (s, fh, t) =
      (case rm_table fh st r of Some b \<Rightarrow> Inr b | None \<Rightarrow> Inl (RecordNotFoundError (page_no r) (slot_no r)), s', fh, t) \<and>
    rm_rel (s', fh, t) st"
proof -
  obtain s1 where f: "fetch_page_handle (page_no r) (s, fh, t) = (Inr f, s1, fh, t)"
    using assms(2,3,5) by (cases "fetch_page (PageId (rm_fd fh) (page_no r)) s") (auto simp: fetch_page_handle_def)
  from fetch_page_handle_run [OF assms(1,2) f] obtain m where
    m: "held s1 st (PageId (rm_fd fh) (page_no r)) f m" "clean_ok s1 (PageId (rm_fd fh) (page_no r)) f"
    "rm_pool s1 (rm_fd fh) (num_pages (file_hdr fh))" by blast
  note rel = rm_relD [OF assms(1)]
  have tab: "rm_table fh st r = page_rec (file_hdr fh) m (slot_no r)"
    by (rule rm_table_page) (use rel(3) assms(2-4) heldD(5) [OF m(1)] in auto)
  obtain s2 where s2: "unpin_frame f False (s1, fh, t) = (s2, fh, t)" "known s2 st"
    "rm_pool s2 (rm_fd fh) (num_pages (file_hdr fh))"
    using unpin_frame_run [OF m(1) _ m(3), of False fh t] m(2) by blast
  have "frame_mem s1 f = m" using heldD(4) [OF m(1)] by (simp add: frame_mem_def)
  with f s2 tab rel(2) show ?thesis
    by (auto simp: get_record_def run_simps page_rec_def rm_rel_pool)
qed


text \<open>One changed slot of one page is one changed entry of the table.\<close>

lemma table_edit:
  assumes "layout_ok (file_hdr fh)" "1 \<le> no" "no < num_pages (file_hdr fh)" "slot_ok (file_hdr fh) i"
    "st (PageId (rm_fd fh) no) = Some (mread m 0 PAGE_SIZE)"
    "\<And>j. slot_ok (file_hdr fh) j \<Longrightarrow> page_rec (file_hdr fh) m2 j = (if j = i then x else page_rec (file_hdr fh) m j)"
  shows "rm_table fh (st(PageId (rm_fd fh) no \<mapsto> mread m2 0 PAGE_SIZE)) = (rm_table fh st)(Rid no i := x)"
proof
  fix q
  show "rm_table fh (st(PageId (rm_fd fh) no \<mapsto> mread m2 0 PAGE_SIZE)) q = ((rm_table fh st)(Rid no i := x)) q"
  proof (cases "slot_ok (file_hdr fh) (slot_no q)")
    case False
    then have "q \<noteq> Rid no i" using assms(4) by auto
    with False show ?thesis by (simp add: rm_table_bad_slot)
  next
    case ok: True
    have q: "q = Rid no i \<longleftrightarrow> page_no q = no \<and> slot_no q = i" by (cases q) auto
    have "page_no q = no \<Longrightarrow> rm_table fh st q = page_rec (file_hdr fh) m (slot_no q)"
      by (rule rm_table_page) (use assms(1-3,5) ok in auto)
    then show ?thesis
      using rm_table_upd [OF assms(1-3) refl, where r = q and m' = m2] assms(6) [OF ok] ok q by auto
  qed
qed

lemma card_slots_delete: "i \<in> page_slots h m \<Longrightarrow> int (card (page_slots h m - {i})) = page_count h m - 1"
proof -
  assume i: "i \<in> page_slots h m"
  then have "0 < card (page_slots h m)" by (auto simp: card_gt_0_iff)
  with i show ?thesis by (simp add: page_count_def of_nat_diff Suc_leI)
qed

lemma chain_head_fits:
  assumes "known s st" "free_chain fh st p qs"
  shows "in_signed 4 p"
proof (cases qs)
  case Nil
  with assms(2) show ?thesis by (simp add: in_signed_def RM_NO_PAGE_def)
next
  case (Cons q qs')
  then have "data_id (st_disk s) (PageId (rm_fd fh) q)" using assms by (auto simp: known_def)
  with assms(2) Cons show ?thesis by (auto simp: in_signed_def data_id_def valid_no_def)
qed

text \<open>Deleting from a page, before the file header is looked at.\<close>

lemma delete_page_facts:
  assumes "rm_ok fh st" "1 \<le> no" "no < num_pages (file_hdr fh)" "slot_ok (file_hdr fh) i" "slot_set m i"
    "st (PageId (rm_fd fh) no) = Some (mread m 0 PAGE_SIZE)" "m' = m \<or> m' = write_int 4 m 0 v"
    "d = page_delete i m'"
  shows "num_records d = page_count (file_hdr fh) m - 1" "page_count (file_hdr fh) d = page_count (file_hdr fh) m - 1"
    "next_free_page_no d = next_free_page_no m" "num_records m = page_count (file_hdr fh) m"
    "slot_ok (file_hdr fh) j \<Longrightarrow> page_rec (file_hdr fh) d j = (if j = i then None else page_rec (file_hdr fh) m j)"
proof -
  let ?h = "file_hdr fh"
  have lay: "layout_ok ?h" using assms(1) by (simp add: rm_ok_def)
  note stamp = log_stamp [OF assms(7)]
  show count: "num_records m = page_count ?h m" by (rule rm_ok_page [OF assms(1-3,6)])
  with stamp(2) count_small(1,2) [OF lay, of m] show "num_records d = page_count ?h m - 1"
    using num_records_delete [OF lay assms(4), of m'] by (simp add: in_signed_def assms(8))
  have "i \<in> page_slots ?h m" using assms(4,5) by (simp add: page_slots_def)
  then show "page_count ?h d = page_count ?h m - 1"
    using page_slots_delete [OF lay assms(4), of m'] stamp(1) card_slots_delete by (simp add: page_count_def assms(8))
  show "next_free_page_no d = next_free_page_no m"
    using num_records_edits(8) [OF lay assms(4), where v = 0 and m = m'] stamp(3) by (simp add: in_signed_def assms(8))
  show "slot_ok ?h j \<Longrightarrow> page_rec ?h d j = (if j = i then None else page_rec ?h m j)"
    using page_rec_delete [OF lay assms(4)] stamp(4) [OF lay] by (simp add: assms(8))
qed

text \<open>A full page goes to the head of the free list.\<close>

lemma delete_full_ok:
  assumes "known s st" "rm_ok fh st" "1 \<le> no" "no < num_pages (file_hdr fh)" "slot_ok (file_hdr fh) i" "slot_set m i"
    "st (PageId (rm_fd fh) no) = Some (mread m 0 PAGE_SIZE)" "m' = m \<or> m' = write_int 4 m 0 v"
    "page_count (file_hdr fh) m = num_records_per_page (file_hdr fh)"
    "e = set_next_free (first_free_page_no (file_hdr fh)) (page_delete i m')"
  shows "rm_ok (fh\<lparr>file_hdr := (file_hdr fh)\<lparr>first_free_page_no := no\<rparr>\<rparr>) (st(PageId (rm_fd fh) no \<mapsto> mread e 0 PAGE_SIZE))"
proof -
  let ?h = "file_hdr fh" and ?st = "st(PageId (rm_fd fh) no \<mapsto> mread e 0 PAGE_SIZE)"
  let ?fh = "fh\<lparr>file_hdr := ?h\<lparr>first_free_page_no := no\<rparr>\<rparr>" and ?d = "page_delete i m'"
  have lay: "layout_ok ?h" using assms(2) by (simp add: rm_ok_def)
  note d = delete_page_facts [OF assms(2-8) refl]
  obtain qs where qs: "distinct qs" "free_chain fh st (first_free_page_no ?h) qs" using assms(2) by (auto simp: rm_ok_def)
  note ed = num_records_edits [OF lay assms(5) chain_head_fits [OF assms(1) qs(2)]]
  have e: "num_records e = page_count ?h m - 1" "next_free_page_no e = first_free_page_no ?h"
    "page_slots ?h e = page_slots ?h ?d" using ed d(1) by (simp_all add: assms(10))
  have notin: "no \<notin> set qs"
  proof
    assume "no \<in> set qs"
    from free_chain_not_full [OF qs(2) this] assms(7)
    have "num_records (mem_of (mread m 0 PAGE_SIZE)) < num_records_per_page ?h" by simp
    with assms(9) d(4) same_page_fields(1) [OF same_page_mem_of, of m] show False by simp
  qed
  have "free_chain ?fh ?st (first_free_page_no ?h) qs"
    by (rule chain_edit [OF qs(2) refl]) (use notin in auto)
  with e(1,2) assms(3,4,9) same_page_fields [OF same_page_mem_of, of e]
  have ch: "free_chain ?fh ?st no (no # qs)" by simp
  have lay': "layout_ok (file_hdr ?fh)" using lay by (simp add: layout_ok_def)
  have "num_records e = page_count (file_hdr ?fh) e"
    using e d(2) by (simp add: page_count_def page_slots_def slot_ok_def)
  then show ?thesis
    by (intro rm_ok_edit [OF assms(2) refl, where qs = "no # qs"]) (use lay' ch notin qs(1) in simp_all)
qed

lemma delete_not_full_ok:
  assumes "rm_ok fh st" "1 \<le> no" "no < num_pages (file_hdr fh)" "slot_ok (file_hdr fh) i" "slot_set m i"
    "st (PageId (rm_fd fh) no) = Some (mread m 0 PAGE_SIZE)" "m' = m \<or> m' = write_int 4 m 0 v"
  shows "rm_ok fh (st(PageId (rm_fd fh) no \<mapsto> mread (page_delete i m') 0 PAGE_SIZE))"
proof -
  let ?h = "file_hdr fh" and ?st = "st(PageId (rm_fd fh) no \<mapsto> mread (page_delete i m') 0 PAGE_SIZE)"
  have lay: "layout_ok ?h" using assms(1) by (simp add: rm_ok_def)
  note d = delete_page_facts [OF assms(1-7) refl]
  obtain qs where qs: "distinct qs" "free_chain fh st (first_free_page_no ?h) qs" using assms(1) by (auto simp: rm_ok_def)
  have "page_count ?h m \<le> num_records_per_page ?h" using page_slots_bound [of ?h m] lay by (auto simp: layout_ok_def)
  then have "free_chain fh ?st (first_free_page_no ?h) qs"
    by (intro chain_edit [OF qs(2) refl, where m = m]) (use d assms(6) in auto)
  then show ?thesis
    by (intro rm_ok_edit [OF assms(1) refl _ _ _ _ _ _ _ qs(1)]) (use lay d in auto)
qed

lemma slot_bytes_first_free: "slot_bytes (h\<lparr>first_free_page_no := v\<rparr>) = slot_bytes h"
  by (simp add: fun_eq_iff slot_bytes_def get_slot_def)

lemma rm_table_first_free: "rm_table (fh\<lparr>file_hdr := (file_hdr fh)\<lparr>first_free_page_no := v\<rparr>\<rparr>) = rm_table fh"
  by (intro ext) (simp add: rm_table_def slot_ok_def page_rec_def slot_bytes_first_free split: option.split)

text \<open>The steps \<open>delete_record\<close> took when it returned.\<close>

lemma delete_record_steps:
  assumes "rm_rel (s, fh, t) st" "1 \<le> page_no r" "ctx_ok (s, fh, t)" "rid_fits r"
    "delete_record r (s, fh, t) = (Inr (), s', fh', t')"
  obtains f m m' v s2 t2 where "page_no r < num_pages (file_hdr fh)" "slot_set m (slot_no r)"
    "st (PageId (rm_fd fh) (page_no r)) = Some (mread m 0 PAGE_SIZE)" "m' = m \<or> m' = write_int 4 m 0 v"
    "held s2 (st(PageId (rm_fd fh) (page_no r) \<mapsto> mread (page_delete (slot_no r) m') 0 PAGE_SIZE))
      (PageId (rm_fd fh) (page_no r)) f (page_delete (slot_no r) m')"
    "rm_pool s2 (rm_fd fh) (num_pages (file_hdr fh))"
    "(s', fh', t') = unpin_frame f True
      (if num_records (page_delete (slot_no r) m') = num_records_per_page (file_hdr fh) - 1
       then release_page_handle f (s2, fh, t2) else (s2, fh, t2))"
    "logged_once s t s2 t2"
proof -
  let ?h = "file_hdr fh" and ?pid = "PageId (rm_fd fh) (page_no r)" and ?i = "slot_no r"
  obtain f s1 fh1 t1 where f: "fetch_page_handle (page_no r) (s, fh, t) = (Inr f, s1, fh1, t1)"
    using assms(5) by (auto simp: delete_record_def andThen_eq_Inr)
  from fetch_page_handle_run [OF assms(1,2) f] obtain m where
    no: "page_no r < num_pages ?h" and m: "held s1 st ?pid f m" "rm_pool s1 (rm_fd fh) (num_pages ?h)"
    and eq: "fh1 = fh" "t1 = t" "global_lsn (st_log s1) = global_lsn (st_log s)" by blast
  let ?mk = "\<lambda>txn. DeleteLogRecord txn (slot_bytes ?h m ?i) r (rm_tab_name fh)"
  have mem: "frame_mem s1 f = m" using heldD(4) [OF m(1)] by (simp add: frame_mem_def)
  have set: "slot_set m ?i" using assms(5) f mem eq by (auto simp: delete_record_def run_simps split: if_splits)
  then obtain u s2 fh2 t2 where l: "log_change f ?mk (s1, fh, t) = (Inr u, s2, fh2, t2)"
    and rest: "(s', fh', t') = (let s3 = edit_frame f (page_delete ?i) (s2, fh2, t2)
      in unpin_frame f True (if num_records (frame_mem (fst s3) f) = num_records_per_page ?h - 1
        then release_page_handle f s3 else s3))"
    using assms(5) f mem eq by (auto simp: delete_record_def run_simps andThen_eq_Inr Let_def)
  have ctx: "ctx_ok (s1, fh, t)" using assms(3) eq(3) by (simp add: ctx_ok_def split: option.splits)
  have "nat (record_size ?h) < 2 ^ 30"
    using rm_relD(3) [OF assms(1)] unfolding layout_ok_def RM_MAX_RECORD_SIZE_def by (simp add: nat_less_iff)
  then have "rec_ok (?mk (txn_id txn))" if "t = Some txn" for txn
    by (intro new_records_ok(5) [where w = "[]"]) (use that ctx assms(4) in \<open>auto simp: ctx_ok_def slot_bytes_def\<close>)
  from log_change_run [OF m(1) l m(2) ctx this] obtain m' v where
    m': "m' = m \<or> m' = write_int 4 m 0 v" "held s2 (st(?pid \<mapsto> mread m' 0 PAGE_SIZE)) ?pid f m'"
    and fh2: "fh2 = fh" "rm_pool s2 (rm_fd fh) (num_pages ?h)" "logged_once s1 t s2 t2" by blast
  have h3: "held (write_frame f (page_delete ?i) s2) (st(?pid \<mapsto> mread (page_delete ?i m') 0 PAGE_SIZE)) ?pid f (page_delete ?i m')"
    using edit_held [OF m'(2), of "page_delete ?i"] by simp
  moreover have "rm_pool (write_frame f (page_delete ?i) s2) (rm_fd fh) (num_pages ?h)"
    using fh2(2) by (simp add: rm_pool_def write_frame_parts)
  moreover have "logged_once s t (write_frame f (page_delete ?i) s2) t2"
    using fh2(3) eq(3) by (simp add: logged_once_def write_frame_parts)
  ultimately show thesis
    using that [OF no set heldD(5) [OF m(1)] m'(1), of "write_frame f (page_delete ?i) s2" f t2] rest fh2(1) heldD(4) [OF h3]
    by (simp add: edit_frame_def frame_mem_def Let_def)
qed

lemma delete_record_run:
  assumes "rm_rel (s, fh, t) st" "1 \<le> page_no r" "slot_ok (file_hdr fh) (slot_no r)" "ctx_ok (s, fh, t)" "rid_fits r"
    "delete_record r (s, fh, t) = (Inr (), s', fh', t')"
  shows "(\<exists>st'. rm_rel (s', fh', t') st' \<and> rm_table fh st r \<noteq> None \<and> rm_table fh' st' = (rm_table fh st)(r := None)) \<and>
    logged_once s t s' t' \<and> same_layout fh fh'"
proof -
  let ?h = "file_hdr fh" and ?pid = "PageId (rm_fd fh) (page_no r)"
  note rel = rm_relD [OF assms(1)]
  obtain f m m' v s2 t2 where st: "page_no r < num_pages ?h" "slot_set m (slot_no r)" "st ?pid = Some (mread m 0 PAGE_SIZE)"
    "m' = m \<or> m' = write_int 4 m 0 v"
    and held: "held s2 (st(?pid \<mapsto> mread (page_delete (slot_no r) m') 0 PAGE_SIZE)) ?pid f (page_delete (slot_no r) m')"
    and pool: "rm_pool s2 (rm_fd fh) (num_pages ?h)"
    and fin: "(s', fh', t') = unpin_frame f True (if num_records (page_delete (slot_no r) m') = num_records_per_page ?h - 1
       then release_page_handle f (s2, fh, t2) else (s2, fh, t2))"
    and once: "logged_once s t s2 t2"
    by (rule delete_record_steps [OF assms(1,2,4,5,6)])
  let ?d = "page_delete (slot_no r) m'"
  note d = delete_page_facts [OF rel(2) assms(2) st(1) assms(3) st(2-4) refl]
  have r: "Rid (page_no r) (slot_no r) = r" by (cases r) simp
  have look: "rm_table fh st r \<noteq> None"
    using rm_table_page [of fh r st m] rel(3) assms(2,3) st(1-3) by (simp add: page_rec_def)
  show ?thesis
  proof (cases "page_count ?h m = num_records_per_page ?h")
    case True
    let ?e = "set_next_free (first_free_page_no ?h) ?d" and ?fh = "fh\<lparr>file_hdr := ?h\<lparr>first_free_page_no := page_no r\<rparr>\<rparr>"
    let ?s4 = "write_frame f (set_next_free (first_free_page_no ?h)) s2"
    have h4: "held ?s4 (st(?pid \<mapsto> mread ?e 0 PAGE_SIZE)) ?pid f ?e" using edit_held [OF held] by simp
    have p4: "rm_pool ?s4 (rm_fd fh) (num_pages ?h)" using pool by (simp add: rm_pool_def write_frame_parts)
    have "(s', fh', t') = unpin_frame f True (?s4, ?fh, t2)"
      using fin True d(1) heldD(6) [OF h4] heldD(6) [OF held]
      by (simp add: release_page_handle_def edit_hdr_def edit_frame_def frame_id_def)
    with unpin_frame_run [OF h4 _ p4, of True ?fh t2] have
      k: "known s' (st(?pid \<mapsto> mread ?e 0 PAGE_SIZE))" "rm_pool s' (rm_fd fh) (num_pages ?h)" "fh' = ?fh"
        "global_lsn (st_log s') = global_lsn (st_log s2)" "t' = t2" by (auto simp: write_frame_parts)
    moreover have "logged_once s t s' t'" using once k(4,5) by (simp add: logged_once_def)
    moreover have "rm_ok ?fh (st(?pid \<mapsto> mread ?e 0 PAGE_SIZE))"
      by (rule delete_full_ok [OF rel(1,2) assms(2) st(1) assms(3) st(2-4) True refl])
    moreover have "rm_table fh (st(?pid \<mapsto> mread ?e 0 PAGE_SIZE)) = (rm_table fh st)(r := None)"
      using table_edit [where st = st and fh = fh and no = "page_no r" and i = "slot_no r" and m = m and ?m2.0 = ?e and x = None,
          OF rel(3) assms(2) st(1) assms(3) st(3)] d(5) rel(3) r by simp
    ultimately show ?thesis using look by (auto simp: rm_rel_pool rm_table_first_free same_layout_def)
  next
    case False
    then have "(s', fh', t') = unpin_frame f True (s2, fh, t2)" using fin d(1) by simp
    with unpin_frame_run [OF held _ pool, of True fh t2] have
      k: "known s' (st(?pid \<mapsto> mread ?d 0 PAGE_SIZE))" "rm_pool s' (rm_fd fh) (num_pages ?h)" "fh' = fh"
        "global_lsn (st_log s') = global_lsn (st_log s2)" "t' = t2" by auto
    moreover have "logged_once s t s' t'" using once k(4,5) by (simp add: logged_once_def)
    moreover have "rm_ok fh (st(?pid \<mapsto> mread ?d 0 PAGE_SIZE))"
      by (rule delete_not_full_ok [OF rel(2) assms(2) st(1) assms(3) st(2-4)])
    moreover have "rm_table fh (st(?pid \<mapsto> mread ?d 0 PAGE_SIZE)) = (rm_table fh st)(r := None)"
      using table_edit [where st = st and fh = fh and no = "page_no r" and i = "slot_no r" and m = m and ?m2.0 = ?d and x = None,
          OF rel(3) assms(2) st(1) assms(3) st(3)] d(5) r by simp
    ultimately show ?thesis using look by (auto simp: rm_rel_pool same_layout_def)
  qed
qed

text \<open>
  Claim C8. \<open>delete_record\<close> removes exactly the record at its position and nothing else; the file
  stays sound, a page that was full going back on the free list.
\<close>

theorem delete_record_removes:
  assumes "rm_rel (s, fh, t) st" "1 \<le> page_no r" "slot_ok (file_hdr fh) (slot_no r)" "ctx_ok (s, fh, t)" "rid_fits r"
    "delete_record r (s, fh, t) = (Inr (), s', fh', t')"
  shows "\<exists>st'. rm_rel (s', fh', t') st' \<and> rm_table fh st r \<noteq> None \<and> rm_table fh' st' = (rm_table fh st)(r := None)"
  using delete_record_run [OF assms] by blast

lemma fits_page_count: "0 \<le> n \<Longrightarrow> n \<le> 4096 \<Longrightarrow> in_signed 4 n"
  by (simp add: in_signed_def)

lemma num_records_init: "num_records (page_init h m) = 0" "next_free_page_no (page_init h m) = RM_NO_PAGE"
  by (simp_all add: page_init_def num_records_def set_num_records_def set_next_free_def next_free_page_no_def mem_simps
      in_signed_def RM_NO_PAGE_def)

text \<open>
  What a handle from \<open>create_page_handle\<close> is: a page of the file with room, either the head of the
  free list or a new page whose header names no next free page.
\<close>

definition slot_room :: "rm_file \<Rightarrow> (page_id \<rightharpoonup> bytes) \<Rightarrow> int \<Rightarrow> mem \<Rightarrow> bool" where
  "slot_room fh st no m \<longleftrightarrow> 1 \<le> no \<and> no < num_pages (file_hdr fh) \<and>
     st (PageId (rm_fd fh) no) = Some (mread m 0 PAGE_SIZE) \<and>
     page_count (file_hdr fh) m < num_records_per_page (file_hdr fh) \<and>
     (\<exists>qs. distinct qs \<and> no \<notin> set qs \<and> free_chain fh st (next_free_page_no m) qs)"

lemma room_head:
  assumes "rm_ok fh st" "first_free_page_no (file_hdr fh) = no" "no \<noteq> RM_NO_PAGE"
    "st (PageId (rm_fd fh) no) = Some (mread m 0 PAGE_SIZE)"
  shows "slot_room fh st no m"
proof -
  obtain qs where qs: "distinct qs" "free_chain fh st no qs" using assms(1,2) by (auto simp: rm_ok_def)
  then obtain ps where ps: "qs = no # ps" using assms(3) by (cases qs) auto
  with qs assms(4) have c: "1 \<le> no" "no < num_pages (file_hdr fh)"
    "num_records (mem_of (mread m 0 PAGE_SIZE)) < num_records_per_page (file_hdr fh)"
    "free_chain fh st (next_free_page_no (mem_of (mread m 0 PAGE_SIZE))) ps" by auto
  note same = same_page_fields [OF same_page_mem_of, of m]
  have "num_records m = page_count (file_hdr fh) m" by (rule rm_ok_page [OF assms(1) c(1,2) assms(4)])
  with c same qs ps assms(4) show ?thesis unfolding slot_room_def by (auto intro!: exI [of _ ps])
qed

lemma in_chain: "free_chain fh st p qs \<Longrightarrow> q \<in> set qs \<Longrightarrow> 1 \<le> q \<and> q < num_pages (file_hdr fh)"
  by (induction qs arbitrary: p) auto

text \<open>A new page, initialised, holds no record, and is a page of the file with room.\<close>

lemma table_new:
  assumes "layout_ok (file_hdr fh)" "1 \<le> no" "no = num_pages (file_hdr fh)" "e = page_init (file_hdr fh) m"
    "st' = st(PageId (rm_fd fh) no \<mapsto> mread e 0 PAGE_SIZE)"
    "fh' = fh\<lparr>file_hdr := (file_hdr fh)\<lparr>num_pages := no + 1\<rparr>\<rparr>"
  shows "rm_table fh' st' = rm_table fh st"
proof
  fix r
  let ?h = "file_hdr fh"
  show "rm_table fh' st' r = rm_table fh st r"
  proof (cases "page_no r = no \<and> slot_ok ?h (slot_no r)")
    case True
    then have "page_rec ?h (mem_of (mread e 0 PAGE_SIZE)) (slot_no r) = None"
      using same_page_rec(1) [OF assms(1) _ same_page_mem_of, of "slot_no r" e] page_rec_init [OF assms(1), of "slot_no r" m]
      by (simp add: assms(4))
    moreover have "page_rec (file_hdr fh') = page_rec ?h"
      by (simp add: fun_eq_iff page_rec_def slot_bytes_def get_slot_def assms(6))
    ultimately show ?thesis using True assms(3,5,6) by (simp add: rm_table_def)
  next
    case False
    moreover have "page_rec (file_hdr fh') = page_rec ?h" "slot_ok (file_hdr fh') = slot_ok ?h"
      "rm_fd fh' = rm_fd fh" "num_pages (file_hdr fh') = num_pages ?h + 1"
      using assms(3) by (simp_all add: fun_eq_iff page_rec_def slot_bytes_def get_slot_def slot_ok_def assms(6))
    ultimately show ?thesis using assms(3,5) by (auto simp: rm_table_def split: option.split)
  qed
qed

lemma room_new:
  assumes "rm_ok fh st" "no = num_pages (file_hdr fh)" "e = page_init (file_hdr fh) m"
    "st' = st(PageId (rm_fd fh) no \<mapsto> mread e 0 PAGE_SIZE)"
    "fh' = fh\<lparr>file_hdr := (file_hdr fh)\<lparr>num_pages := no + 1\<rparr>\<rparr>"
  shows "rm_ok fh' st' \<and> slot_room fh' st' no e \<and> rm_table fh' st' = rm_table fh st"
proof -
  let ?h = "file_hdr fh"
  have lay: "layout_ok ?h" "layout_ok (file_hdr fh')" "1 \<le> no" using assms(1,2,5) by (auto simp: rm_ok_def layout_ok_def)
  obtain qs where qs: "distinct qs" "free_chain fh st (first_free_page_no ?h) qs" using assms(1) by (auto simp: rm_ok_def)
  have out: "no \<notin> set qs" using in_chain [OF qs(2), of no] assms(2) by auto
  have slots: "page_slots (file_hdr fh') e = {}" "page_slots ?h e = {}"
    using page_slots_init [OF lay(1), of m] by (auto simp: assms(3,5) page_slots_def slot_ok_def)
  then have count: "page_count (file_hdr fh') e = 0" by (simp add: page_count_def)
  have "free_chain fh' st' (first_free_page_no ?h) qs"
    by (rule chain_edit [OF qs(2) assms(4)]) (use out assms(2,5) in auto)
  then have ok: "rm_ok fh' st'"
    by (intro rm_ok_edit [OF assms(1,4), where qs = qs])
      (use lay qs(1) count assms(2,5) num_records_init(1) in \<open>simp_all add: assms(3)\<close>)
  have room: "slot_room fh' st' no e"
    using lay count num_records_init(2) [of ?h m] assms(3-5)
    by (auto simp: slot_room_def layout_ok_def intro!: exI [of _ "[]"])
  have "rm_table fh' st' = rm_table fh st"
    by (rule table_new [OF lay(1) lay(3) assms(2-5)])
  with ok room show ?thesis by auto
qed

text \<open>\<open>create_page_handle\<close> gives a page with room.\<close>

lemma create_page_handle_run:
  assumes "rm_rel (s, fh, t) st" "num_pages (file_hdr fh) < 2 ^ 19 - 1" "create_page_handle (s, fh, t) = (Inr f, s1, fh1, t1)"
  obtains st1 no m where "held s1 st1 (PageId (rm_fd fh) no) f m" "rm_pool s1 (rm_fd fh) (num_pages (file_hdr fh1))"
    "t1 = t" "rm_ok fh1 st1" "slot_room fh1 st1 no m" "rm_table fh1 st1 = rm_table fh st"
    "fh1 = fh \<or> fh1 = fh\<lparr>file_hdr := (file_hdr fh)\<lparr>num_pages := num_pages (file_hdr fh) + 1\<rparr>\<rparr>"
    "global_lsn (st_log s1) = global_lsn (st_log s)"
    "first_free_page_no (file_hdr fh) = RM_NO_PAGE \<longrightarrow> num_pages (file_hdr fh1) = num_pages (file_hdr fh) + 1 \<and>
      first_free_page_no (file_hdr fh1) = RM_NO_PAGE \<and> next_free_page_no m = RM_NO_PAGE"
proof (cases "first_free_page_no (file_hdr fh) = RM_NO_PAGE")
  case False
  note rel = rm_relD [OF assms(1)]
  let ?no = "first_free_page_no (file_hdr fh)"
  from assms(3) False have f: "fetch_page_handle ?no (s, fh, t) = (Inr f, s1, fh1, t1)"
    by (simp add: create_page_handle_def)
  obtain qs where "free_chain fh st ?no qs" using rel(2) by (auto simp: rm_ok_def)
  with False have no: "1 \<le> ?no" by (cases qs) auto
  from fetch_page_handle_run [OF assms(1) no f] obtain m where m: "held s1 st (PageId (rm_fd fh) ?no) f m" and
    eq: "fh1 = fh" "t1 = t" "rm_pool s1 (rm_fd fh) (num_pages (file_hdr fh))" "global_lsn (st_log s1) = global_lsn (st_log s)"
    by blast
  have "slot_room fh1 st ?no m" using room_head [OF rel(2) refl False heldD(5) [OF m]] eq by simp
  with m eq rel(2) False show thesis by (intro that [of st ?no m]) auto
next
  case True
  note rel = rm_relD [OF assms(1)]
  let ?no = "num_pages (file_hdr fh)"
  obtain no s' where np: "new_page (rm_fd fh) s = (Inr (Some (no, f)), s')"
    and s1: "(s1, fh1, t1) = edit_hdr (num_pages_update (\<lambda>n. n + 1)) (edit_frame f (page_init (file_hdr fh)) (s', fh, t))"
    using assms(3) True
    by (auto simp: create_page_handle_def create_new_page_handle_def split: prod.splits sum.splits option.splits)
  have "0 \<le> ?no" using rel(2) by (simp add: rm_ok_def)
  then have "data_id (st_disk s) (PageId (rm_fd fh) ?no)" using rel(5) assms(2) by (auto simp: data_id_def valid_no_def)
  moreover have "page_table s (PageId (rm_fd fh) ?no) = None" using rel(6) by force
  ultimately obtain m where no: "no = ?no" and m: "held s' (st(PageId (rm_fd fh) no \<mapsto> replicate PAGE_SIZE 0)) (PageId (rm_fd fh) no) f m"
    and keep: "fd2pageno (st_disk s') = (fd2pageno (st_disk s))(rm_fd fh := to_signed 4 ((no + 1) mod 2 ^ 32))"
    "dom (page_table s') \<subseteq> insert (PageId (rm_fd fh) no) (dom (page_table s))"
    "\<forall>pid. data_id (st_disk s) pid \<longrightarrow> data_id (st_disk s') pid" "global_lsn (st_log s') = global_lsn (st_log s)"
    using new_held [OF rel(1) np] rel(4) by auto
  let ?e = "page_init (file_hdr fh) m" and ?fh = "fh\<lparr>file_hdr := (file_hdr fh)\<lparr>num_pages := no + 1\<rparr>\<rparr>"
  let ?st = "st(PageId (rm_fd fh) no \<mapsto> mread ?e 0 PAGE_SIZE)"
  have eq: "s1 = write_frame f (page_init (file_hdr fh)) s'" "fh1 = ?fh" "t1 = t"
    using s1 no by (simp_all add: edit_hdr_def edit_frame_def)
  have h: "held s1 ?st (PageId (rm_fd fh) no) f ?e" using edit_held [OF m, of "page_init (file_hdr fh)"] eq by simp
  have "to_signed 4 ((no + 1) mod 2 ^ 32) = no + 1"
    using no assms(2) \<open>0 \<le> ?no\<close> by (simp add: to_signed_def)
  moreover have "data_id (st_disk s') (PageId (rm_fd fh) 0)"
  proof -
    have "data_id (st_disk s) (PageId (rm_fd fh) 0)" using rel(5) by (auto simp: data_id_def valid_no_def)
    then show ?thesis using keep(3) by blast
  qed
  ultimately have "rm_pool s1 (rm_fd fh) (no + 1)"
    using keep(1,2) rel(6) no data_file [of "st_disk s'" "rm_fd fh" 0]
    unfolding rm_pool_def eq write_frame_parts by fastforce
  with h room_new [OF rel(2) no refl refl refl, of m] eq no keep(4) True num_records_init show thesis
    by (intro that [of ?st no ?e]) (auto simp: write_frame_parts)
qed


text \<open>Writing a record into the first free slot of a page with room.\<close>

lemma insert_page_facts:
  assumes "rm_ok fh st" "slot_room fh st no m" "slot = first_bit False m PAGE_BITMAP (num_records_per_page (file_hdr fh))"
    "length buf = nat (record_size (file_hdr fh))" "d = page_insert (file_hdr fh) slot buf m"
    "d' = d \<or> d' = write_int 4 d 0 v"
  shows "slot_ok (file_hdr fh) slot" "page_rec (file_hdr fh) m slot = None"
    "num_records d = page_count (file_hdr fh) m + 1" "num_records d' = page_count (file_hdr fh) m + 1"
    "page_count (file_hdr fh) d' = page_count (file_hdr fh) m + 1" "next_free_page_no d' = next_free_page_no m"
    "next_free_page_no d = next_free_page_no m"
    "slot_ok (file_hdr fh) j \<Longrightarrow> page_rec (file_hdr fh) d' j = (if j = slot then Some buf else page_rec (file_hdr fh) m j)"
proof -
  let ?h = "file_hdr fh"
  have lay: "layout_ok ?h" using assms(1) by (simp add: rm_ok_def)
  have room: "1 \<le> no" "no < num_pages ?h" "page_count ?h m < num_records_per_page ?h"
    "st (PageId (rm_fd fh) no) = Some (mread m 0 PAGE_SIZE)" using assms(2) by (auto simp: slot_room_def)
  note free = first_free_slot [OF lay room(3) assms(3) [unfolded page_bitmap]]
  then show ok: "slot_ok ?h slot" and none: "page_rec ?h m slot = None" by (simp_all add: page_rec_def)
  note stamp = log_stamp [OF assms(6)]
  have count: "num_records m = page_count ?h m" by (rule rm_ok_page [OF assms(1) room(1,2,4)])
  moreover have "in_signed 4 (page_count ?h m + 1)"
    using count_small(1,2) [OF lay, of m] by (simp add: in_signed_def)
  ultimately show d: "num_records d = page_count ?h m + 1"
    using num_records_insert [OF lay ok, of m buf] by (simp add: assms(5))
  then show "num_records d' = page_count ?h m + 1" using stamp(2) by simp
  have "slot \<notin> page_slots ?h m" using free by (simp add: page_slots_def)
  then show "page_count ?h d' = page_count ?h m + 1"
    using page_slots_insert [OF lay ok assms(4), of m] stamp(1) by (simp add: page_count_def assms(5))
  show nx: "next_free_page_no d = next_free_page_no m"
    using num_records_edits(9) [OF lay ok, where v = 0 and m = m] by (simp add: in_signed_def assms(5))
  then show "next_free_page_no d' = next_free_page_no m" using stamp(3) by simp
  show "slot_ok ?h j \<Longrightarrow> page_rec ?h d' j = (if j = slot then Some buf else page_rec ?h m j)"
    using page_rec_insert [OF lay ok _ assms(4)] stamp(4) [OF lay] by (simp add: assms(5))
qed

lemma insert_keeps_ok:
  assumes "rm_ok fh st" "slot_room fh st no m" "slot = first_bit False m PAGE_BITMAP (num_records_per_page (file_hdr fh))"
    "length buf = nat (record_size (file_hdr fh))" "d = page_insert (file_hdr fh) slot buf m"
    "d' = d \<or> d' = write_int 4 d 0 v" "st' = st(PageId (rm_fd fh) no \<mapsto> mread d' 0 PAGE_SIZE)"
    "fh' = (if num_records d = num_records_per_page (file_hdr fh)
      then fh\<lparr>file_hdr := (file_hdr fh)\<lparr>first_free_page_no := next_free_page_no d\<rparr>\<rparr> else fh)"
  shows "rm_ok fh' st' \<and> rm_table fh' st' = (rm_table fh st)(Rid no slot \<mapsto> buf) \<and> rm_table fh st (Rid no slot) = None"
proof -
  let ?h = "file_hdr fh"
  have lay: "layout_ok ?h" "layout_ok (file_hdr fh')" using assms(1,8) by (auto simp: rm_ok_def layout_ok_def)
  note d = insert_page_facts [OF assms(1-6)]
  have room: "1 \<le> no" "no < num_pages ?h" "page_count ?h m < num_records_per_page ?h"
    "st (PageId (rm_fd fh) no) = Some (mread m 0 PAGE_SIZE)" using assms(2) by (auto simp: slot_room_def)
  have "\<exists>qs. distinct qs \<and> free_chain fh' st' (first_free_page_no (file_hdr fh')) qs"
  proof (cases "num_records d = num_records_per_page ?h")
    case True
    obtain qs where qs: "distinct qs" "no \<notin> set qs" "free_chain fh st (next_free_page_no m) qs"
      using assms(2) by (auto simp: slot_room_def)
    have "free_chain fh' st' (next_free_page_no m) qs"
      by (rule chain_edit [OF qs(3) assms(7)]) (use qs(2) assms(8) in auto)
    with True qs(1) assms(8) d(7) show ?thesis by auto
  next
    case False
    obtain qs where qs: "distinct qs" "free_chain fh st (first_free_page_no ?h) qs" using assms(1) by (auto simp: rm_ok_def)
    have "num_records d' < num_records_per_page ?h" using False d(3,4) room(3) by simp
    then have "free_chain fh' st' (first_free_page_no ?h) qs"
      by (intro chain_edit [OF qs(2) assms(7), where m = m]) (use room(4) d(6) assms(8) in auto)
    with False qs(1) assms(8) show ?thesis by auto
  qed
  then obtain qs where qs: "distinct qs" "free_chain fh' st' (first_free_page_no (file_hdr fh')) qs" by blast
  have "page_count (file_hdr fh') d' = page_count ?h d'"
    using assms(8) by (simp add: page_count_def page_slots_def slot_ok_def)
  then have "rm_ok fh' st'"
    by (intro rm_ok_edit [OF assms(1,7), where qs = qs]) (use lay qs d assms(8) in auto)
  moreover have "rm_table fh st' = (rm_table fh st)(Rid no slot \<mapsto> buf)"
    using table_edit [where st = st and fh = fh and no = no and i = slot and m = m and ?m2.0 = d' and x = "Some buf",
        OF lay(1) room(1,2) d(1) room(4)] d(8) assms(7) by simp
  moreover have "rm_table fh st (Rid no slot) = None"
    using rm_table_page [of fh "Rid no slot" st m] lay(1) room d(1,2) by simp
  ultimately show ?thesis using assms(8) by (auto simp: rm_table_first_free)
qed

lemma insert_record_run:
  assumes "rm_rel (s, fh, t) st" "num_pages (file_hdr fh) < 2 ^ 19 - 1" "ctx_ok (s, fh, t)"
    "nat (record_size (file_hdr fh)) \<le> length buf" "insert_record buf (s, fh, t) = (Inr r, s', fh', t')"
  shows "(\<exists>st'. rm_rel (s', fh', t') st' \<and> rm_table fh st r = None \<and>
    rm_table fh' st' = (rm_table fh st)(r \<mapsto> take (nat (record_size (file_hdr fh))) buf)) \<and>
    (first_free_page_no (file_hdr fh) = RM_NO_PAGE \<longrightarrow> num_pages (file_hdr fh') = num_pages (file_hdr fh) + 1 \<and>
      first_free_page_no (file_hdr fh') = RM_NO_PAGE) \<and> logged_once s t s' t' \<and> same_layout fh fh'"
proof -
  obtain f s1 fh1 t1 where c: "create_page_handle (s, fh, t) = (Inr f, s1, fh1, t1)"
    using assms(5) by (auto simp: insert_record_def andThen_eq_Inr)
  obtain st1 no m where h1: "held s1 st1 (PageId (rm_fd fh) no) f m" "rm_pool s1 (rm_fd fh) (num_pages (file_hdr fh1))"
    "t1 = t" "rm_ok fh1 st1" "slot_room fh1 st1 no m" "rm_table fh1 st1 = rm_table fh st"
    and fh1: "fh1 = fh \<or> fh1 = fh\<lparr>file_hdr := (file_hdr fh)\<lparr>num_pages := num_pages (file_hdr fh) + 1\<rparr>\<rparr>"
    and lsn: "global_lsn (st_log s1) = global_lsn (st_log s)"
    and grow: "first_free_page_no (file_hdr fh) = RM_NO_PAGE \<longrightarrow> num_pages (file_hdr fh1) = num_pages (file_hdr fh) + 1 \<and>
      first_free_page_no (file_hdr fh1) = RM_NO_PAGE \<and> next_free_page_no m = RM_NO_PAGE" by (rule create_page_handle_run [OF assms(1,2) c])
  let ?h = "file_hdr fh1" and ?pid = "PageId (rm_fd fh) no"
  define slot where "slot = first_bit False m PAGE_BITMAP (num_records_per_page ?h)"
  define rb where "rb = take (nat (record_size ?h)) buf"
  define d where "d = page_insert ?h slot rb m"
  define fh2 where "fh2 = (if num_records d = num_records_per_page ?h
    then fh1\<lparr>file_hdr := ?h\<lparr>first_free_page_no := next_free_page_no d\<rparr>\<rparr> else fh1)"
  let ?s2 = "write_frame f (page_insert ?h slot rb) s1"
  note fd = fh1 fh2_def
  have eqs: "rm_fd fh1 = rm_fd fh" "rm_fd fh2 = rm_fd fh" "record_size ?h = record_size (file_hdr fh)"
    "rm_tab_name fh1 = rm_tab_name fh" "rm_tab_name fh2 = rm_tab_name fh" "num_pages (file_hdr fh2) = num_pages ?h"
    "num_pages ?h \<le> num_pages (file_hdr fh) + 1" using fh1 by (auto simp: fh2_def)
  have len: "length rb = nat (record_size ?h)" using assms(4) by (simp add: rb_def eqs)
  have h2: "held ?s2 (st1(?pid \<mapsto> mread d 0 PAGE_SIZE)) ?pid f d" using edit_held [OF h1(1)] by (simp add: d_def)
  have p2: "rm_pool ?s2 (rm_fd fh) (num_pages ?h)" using h1(2) by (simp add: rm_pool_def write_frame_parts)
  have mem: "frame_mem s1 f = m" "frame_mem ?s2 f = d" "pid_no (frame_id s1 f) = no"
    using heldD(4,6) [OF h1(1)] heldD(4) [OF h2] by (simp_all add: frame_mem_def frame_id_def)
  let ?mk = "\<lambda>txn. InsertLogRecord txn rb (Rid no slot) (rm_tab_name fh1)"
  obtain u s3 fh3 t3 where l: "log_change f ?mk (?s2, fh2, t) = (Inr u, s3, fh3, t3)" and r: "r = Rid no slot"
    and fin: "(s', fh', t') = unpin_frame f True (s3, fh3, t3)"
    using assms(5) c mem h1(3)
    by (auto simp: insert_record_def run_simps andThen_eq_Inr Let_def edit_frame_def edit_hdr_def slot_def rb_def d_def fh2_def
        split: if_splits)
  have ctx: "ctx_ok (?s2, fh2, t)"
    using assms(3) lsn eqs(5) by (simp add: ctx_ok_def write_frame_parts split: option.splits)
  have lay: "layout_ok ?h" "slot_ok ?h slot"
    using h1(4) insert_page_facts(1) [OF h1(4,5) slot_def len d_def, of d] by (auto simp: rm_ok_def)
  have "num_records_per_page ?h \<le> 4096" by (rule count_small(3) [OF lay(1)])
  then have fits: "rid_fits (Rid no slot)"
    using h1(5) eqs(7) assms(2) lay(2) by (simp add: rid_fits_def in_signed_def slot_room_def slot_ok_def)
  have "length rb < 2 ^ 30" using len lay(1) by (simp add: layout_ok_def RM_MAX_RECORD_SIZE_def nat_less_iff)
  then have "rec_ok (?mk (txn_id txn))" if "t = Some txn" for txn
    by (intro new_records_ok(4) [where w = "[]"]) (use that ctx fits eqs in \<open>auto simp: ctx_ok_def\<close>)
  from log_change_run [OF h2 l p2 ctx this] obtain d' v where
    d': "d' = d \<or> d' = write_int 4 d 0 v" "held s3 (st1(?pid \<mapsto> mread d' 0 PAGE_SIZE)) ?pid f d'"
    and fin3: "fh3 = fh2" "rm_pool s3 (rm_fd fh) (num_pages ?h)" "logged_once ?s2 t s3 t3" by auto
  from unpin_frame_run [OF d'(2) _ fin3(2), of True fh2 t3] fin fin3(1)
  have k: "known s' (st1(?pid \<mapsto> mread d' 0 PAGE_SIZE))" "rm_pool s' (rm_fd fh) (num_pages ?h)" "fh' = fh2" "t' = t3" "global_lsn (st_log s') = global_lsn (st_log s3)" by auto
  let ?st = "st1(?pid \<mapsto> mread d' 0 PAGE_SIZE)"
  have ins: "rm_ok fh2 ?st \<and> rm_table fh2 ?st = (rm_table fh1 st1)(Rid no slot \<mapsto> rb) \<and> rm_table fh1 st1 (Rid no slot) = None"
    by (rule insert_keeps_ok [OF h1(4,5) slot_def len d_def d'(1) _ fh2_def]) (simp only: eqs(1))
  have "rm_rel (s', fh', t') ?st" using ins k eqs(2,6) by (simp only: rm_rel_pool k(3) simp_thms)
  moreover have "rm_table fh st r = None" using ins h1(6) r by simp
  moreover have "rm_table fh' ?st = (rm_table fh st)(r \<mapsto> take (nat (record_size (file_hdr fh))) buf)"
    using ins by (simp only: k(3) h1(6) r rb_def eqs(3) simp_thms)
  moreover have "first_free_page_no (file_hdr fh) = RM_NO_PAGE \<longrightarrow> num_pages (file_hdr fh') = num_pages (file_hdr fh) + 1 \<and>
      first_free_page_no (file_hdr fh') = RM_NO_PAGE"
    using grow insert_page_facts(7) [OF h1(4,5) slot_def len d_def d'(1)] by (simp add: k(3) fh2_def)
  moreover have "logged_once s t s' t'" using fin3(3) lsn k(4,5) by (simp add: logged_once_def write_frame_parts)
  moreover have "same_layout fh fh'" using eqs by (simp add: same_layout_def k(3)) (simp add: fh2_def)
  ultimately show ?thesis by blast
qed

text \<open>
  Claim C7. \<open>insert_record\<close> stores the record at a position that was free, which it returns, and
  changes nothing else of the table, whether it takes the page from the free list or allocates a new
  one and whether or not the page becomes full; the file stays sound.
\<close>

theorem insert_record_adds:
  assumes "rm_rel (s, fh, t) st" "num_pages (file_hdr fh) < 2 ^ 19 - 1" "ctx_ok (s, fh, t)"
    "nat (record_size (file_hdr fh)) \<le> length buf" "insert_record buf (s, fh, t) = (Inr r, s', fh', t')"
  shows "\<exists>st'. rm_rel (s', fh', t') st' \<and> rm_table fh st r = None \<and>
    rm_table fh' st' = (rm_table fh st)(r \<mapsto> take (nat (record_size (file_hdr fh))) buf)"
  using insert_record_run [OF assms] by blast

text \<open>
  While no page is on the free list every insertion allocates a page of its own and leaves
  the free list empty, whether or not the new page still has room: a file that starts empty grows by
  one page per record.
\<close>

theorem insert_without_free_list_grows:
  assumes "rm_rel (s, fh, t) st" "num_pages (file_hdr fh) < 2 ^ 19 - 1" "ctx_ok (s, fh, t)"
    "nat (record_size (file_hdr fh)) \<le> length buf" "insert_record buf (s, fh, t) = (Inr r, s', fh', t')"
    "first_free_page_no (file_hdr fh) = RM_NO_PAGE"
  shows "num_pages (file_hdr fh') = num_pages (file_hdr fh) + 1 \<and> first_free_page_no (file_hdr fh') = RM_NO_PAGE"
  using insert_record_run [OF assms(1-5)] assms(6) by simp

lemma update_keeps_ok:
  assumes "rm_ok fh st" "1 \<le> no" "no < num_pages (file_hdr fh)" "slot_ok (file_hdr fh) i" "slot_set m i"
    "st (PageId (rm_fd fh) no) = Some (mread m 0 PAGE_SIZE)" "m' = m \<or> m' = write_int 4 m 0 v"
    "length buf = nat (record_size (file_hdr fh))" "u = page_update (file_hdr fh) i buf m'"
    "st' = st(PageId (rm_fd fh) no \<mapsto> mread u 0 PAGE_SIZE)"
  shows "rm_ok fh st' \<and> rm_table fh st' = (rm_table fh st)(Rid no i \<mapsto> buf)"
proof -
  let ?h = "file_hdr fh"
  have lay: "layout_ok ?h" using assms(1) by (simp add: rm_ok_def)
  note stamp = log_stamp [OF assms(7)]
  have ed: "num_records u = num_records m" "next_free_page_no u = next_free_page_no m"
    using num_records_edits(4,7) [OF lay assms(4), where v = 0 and m = m'] stamp(2,3) by (simp_all add: in_signed_def assms(9))
  have count: "page_count ?h u = page_count ?h m"
    using page_slots_update [OF lay assms(4), of buf m'] stamp(1) by (simp add: page_count_def assms(9))
  have num: "num_records m = page_count ?h m" by (rule rm_ok_page [OF assms(1-3,6)])
  obtain qs where qs: "distinct qs" "free_chain fh st (first_free_page_no ?h) qs" using assms(1) by (auto simp: rm_ok_def)
  have "no \<in> set qs \<Longrightarrow> num_records m < num_records_per_page ?h"
    using free_chain_not_full [OF qs(2)] assms(6) same_page_fields(1) [OF same_page_mem_of, of m] by fastforce
  then have "free_chain fh st' (first_free_page_no ?h) qs"
    by (intro chain_edit [OF qs(2) assms(10), where m = m]) (use ed assms(6) in auto)
  then have "rm_ok fh st'"
    by (intro rm_ok_edit [OF assms(1,10) refl _ _ _ _ _ _ qs(1)]) (use lay ed count num in auto)
  moreover have "rm_table fh st' = (rm_table fh st)(Rid no i \<mapsto> buf)"
    using table_edit [where st = st and fh = fh and no = no and i = i and m = m and ?m2.0 = u and x = "Some buf",
        OF lay assms(2-4,6)] page_rec_update [OF lay assms(4) _ assms(8), of _ m'] stamp(4) [OF lay] stamp(5) assms(5)
    by (simp add: assms(9,10))
  ultimately show ?thesis by simp
qed

lemma update_record_run:
  assumes "rm_rel (s, fh, t) st" "1 \<le> page_no r" "slot_ok (file_hdr fh) (slot_no r)" "ctx_ok (s, fh, t)" "rid_fits r"
    "nat (record_size (file_hdr fh)) \<le> length buf" "update_record r buf (s, fh, t) = (Inr (), s', fh', t')"
  shows "\<exists>st'. rm_rel (s', fh', t') st' \<and> rm_table fh st r \<noteq> None \<and>
    rm_table fh' st' = (rm_table fh st)(r \<mapsto> take (nat (record_size (file_hdr fh))) buf) \<and> logged_once s t s' t' \<and> fh' = fh"
proof -
  let ?h = "file_hdr fh" and ?pid = "PageId (rm_fd fh) (page_no r)" and ?i = "slot_no r"
  let ?b = "take (nat (record_size (file_hdr fh))) buf"
  note rel = rm_relD [OF assms(1)]
  obtain f s1 fh1 t1 where f: "fetch_page_handle (page_no r) (s, fh, t) = (Inr f, s1, fh1, t1)"
    using assms(7) by (auto simp: update_record_def andThen_eq_Inr)
  from fetch_page_handle_run [OF assms(1,2) f] obtain m where
    no: "page_no r < num_pages ?h" and m: "held s1 st ?pid f m" "rm_pool s1 (rm_fd fh) (num_pages ?h)"
    and eq: "fh1 = fh" "t1 = t" "global_lsn (st_log s1) = global_lsn (st_log s)" by blast
  let ?mk = "\<lambda>txn. UpdateLogRecord txn (slot_bytes ?h m ?i) ?b r (rm_tab_name fh)"
  have mem: "frame_mem s1 f = m" using heldD(4) [OF m(1)] by (simp add: frame_mem_def)
  have set: "slot_set m ?i" using assms(7) f mem eq by (auto simp: update_record_def run_simps Let_def split: if_splits)
  then obtain u s2 fh2 t2 where l: "log_change f ?mk (s1, fh, t) = (Inr u, s2, fh2, t2)"
    and fin: "(s', fh', t') = unpin_frame f True (write_frame f (page_update ?h ?i ?b) s2, fh2, t2)"
    using assms(7) f mem eq by (auto simp: update_record_def run_simps andThen_eq_Inr Let_def edit_frame_def)
  have ctx: "ctx_ok (s1, fh, t)" using assms(4) eq(3) by (simp add: ctx_ok_def split: option.splits)
  have len: "length ?b = nat (record_size ?h)" using assms(6) by simp
  have "nat (record_size ?h) < 2 ^ 30"
    using rel(3) unfolding layout_ok_def RM_MAX_RECORD_SIZE_def by (simp add: nat_less_iff)
  then have "rec_ok (?mk (txn_id txn))" if "t = Some txn" for txn
    by (intro new_records_ok(6)) (use that ctx assms(5) len in \<open>auto simp: ctx_ok_def slot_bytes_def\<close>)
  from log_change_run [OF m(1) l m(2) ctx this] obtain m' v where
    m': "m' = m \<or> m' = write_int 4 m 0 v" "held s2 (st(?pid \<mapsto> mread m' 0 PAGE_SIZE)) ?pid f m'"
    and fh2: "fh2 = fh" "rm_pool s2 (rm_fd fh) (num_pages ?h)" "logged_once s1 t s2 t2" by blast
  let ?u = "page_update ?h ?i ?b m'" and ?s3 = "write_frame f (page_update ?h ?i ?b) s2"
  let ?st = "st(?pid \<mapsto> mread ?u 0 PAGE_SIZE)"
  have h3: "held ?s3 ?st ?pid f ?u" using edit_held [OF m'(2)] by simp
  have p3: "rm_pool ?s3 (rm_fd fh) (num_pages ?h)" using fh2(2) by (simp add: rm_pool_def write_frame_parts)
  have k: "known s' ?st" "rm_pool s' (rm_fd fh) (num_pages ?h)" "fh' = fh" "t' = t2" "global_lsn (st_log s') = global_lsn (st_log s2)"
    using unpin_frame_run [OF h3 _ p3, of True fh t2] fin fh2(1) by (auto simp: write_frame_parts)
  have r: "Rid (page_no r) ?i = r" by (cases r) simp
  have "rm_ok fh ?st \<and> rm_table fh ?st = (rm_table fh st)(Rid (page_no r) ?i \<mapsto> ?b)"
    by (rule update_keeps_ok [OF rel(2) assms(2) no assms(3) set heldD(5) [OF m(1)] m'(1) len refl refl])
  moreover have "rm_table fh st r \<noteq> None"
    using rm_table_page [of fh r st m] rel(3) assms(2,3) no set heldD(5) [OF m(1)] by (simp add: page_rec_def)
  moreover have "logged_once s t s' t'" using fh2(3) eq(3) k(4,5) by (simp add: logged_once_def)
  ultimately show ?thesis using k r by (intro exI [of _ ?st]) (simp add: rm_rel_pool)
qed

text \<open>
  Claim C9. \<open>update_record\<close> replaces the record at a position that holds one, changing nothing else of
  the table; the file stays sound.
\<close>

theorem update_record_replaces:
  assumes "rm_rel (s, fh, t) st" "1 \<le> page_no r" "slot_ok (file_hdr fh) (slot_no r)" "ctx_ok (s, fh, t)" "rid_fits r"
    "nat (record_size (file_hdr fh)) \<le> length buf" "update_record r buf (s, fh, t) = (Inr (), s', fh', t')"
  shows "\<exists>st'. rm_rel (s', fh', t') st' \<and> rm_table fh st r \<noteq> None \<and>
    rm_table fh' st' = (rm_table fh st)(r \<mapsto> take (nat (record_size (file_hdr fh))) buf)"
  using update_record_run [OF assms] by blast

section \<open>The scan\<close>

text \<open>Positions in scan order: by page, then by slot.\<close>

instantiation rid :: linorder
begin

definition less_eq_rid :: "rid \<Rightarrow> rid \<Rightarrow> bool" where
  "less_eq_rid r q \<longleftrightarrow> page_no r < page_no q \<or> page_no r = page_no q \<and> slot_no r \<le> slot_no q"

definition less_rid :: "rid \<Rightarrow> rid \<Rightarrow> bool" where
  "less_rid r q \<longleftrightarrow> page_no r < page_no q \<or> page_no r = page_no q \<and> slot_no r < slot_no q"

instance
proof
  fix x y z :: rid
  show "x < y \<longleftrightarrow> x \<le> y \<and> \<not> y \<le> x" by (auto simp: less_eq_rid_def less_rid_def)
  show "x \<le> x" by (simp add: less_eq_rid_def)
  show "x \<le> y \<Longrightarrow> y \<le> z \<Longrightarrow> x \<le> z" by (auto simp: less_eq_rid_def)
  show "x \<le> y \<Longrightarrow> y \<le> x \<Longrightarrow> x = y" by (cases x; cases y) (auto simp: less_eq_rid_def)
  show "x \<le> y \<or> y \<le> x" by (auto simp: less_eq_rid_def)
qed

end

lemma dom_table: "q \<in> dom (rm_table fh st) \<Longrightarrow>
    1 \<le> page_no q \<and> page_no q < num_pages (file_hdr fh) \<and> slot_ok (file_hdr fh) (slot_no q)"
  by (auto simp: rm_table_def split: if_splits)

lemma finite_table: "finite (dom (rm_table fh st))"
proof (rule finite_subset)
  let ?A = "{1..<num_pages (file_hdr fh)} \<times> {0..<num_records_per_page (file_hdr fh)}"
  show "dom (rm_table fh st) \<subseteq> (\<lambda>(p, i). Rid p i) ` ?A"
  proof
    fix q assume "q \<in> dom (rm_table fh st)"
    from dom_table [OF this] show "q \<in> (\<lambda>(p, i). Rid p i) ` ?A"
      by (intro image_eqI [of _ _ "(page_no q, slot_no q)"]) (auto simp: slot_ok_def)
  qed
qed simp

text \<open>A fetch of one of the file's pages failed, with error \<open>e\<close>, on a pool that stands for \<open>st\<close>.\<close>

definition scan_failed :: "rm_file \<Rightarrow> (page_id \<rightharpoonup> bytes) \<Rightarrow> rmdb_error \<Rightarrow> bool" where
  "scan_failed fh st e \<longleftrightarrow> (\<exists>pn s t x. 1 \<le> pn \<and> pn < num_pages (file_hdr fh) \<and> rm_rel (s, fh, t) st \<and>
     fetch_page_handle pn (s, fh, t) = (Inl e, x))"

text \<open>\<open>next\<close> goes to the least occupied position after the current one.\<close>

definition next_rid :: "rm_file \<Rightarrow> (page_id \<rightharpoonup> bytes) \<Rightarrow> rid \<Rightarrow> rid \<Rightarrow> bool" where
  "next_rid fh st r r' \<longleftrightarrow> (if page_no r' < num_pages (file_hdr fh)
     then r' \<in> dom (rm_table fh st) \<and> r < r' \<and> (\<forall>q \<in> dom (rm_table fh st). r < q \<longrightarrow> r' \<le> q)
     else \<forall>q \<in> dom (rm_table fh st). \<not> r < q)"

lemma scan_page:
  assumes "rm_rel (s, fh, t) st" "1 \<le> pn" "pn < num_pages (file_hdr fh)" "-1 \<le> slot" "slot < num_records_per_page (file_hdr fh)"
    "st (PageId (rm_fd fh) pn) = Some (mread m 0 PAGE_SIZE)"
    "slot' = next_bit True m PAGE_BITMAP (num_records_per_page (file_hdr fh)) slot"
  shows "slot' < num_records_per_page (file_hdr fh) \<Longrightarrow> next_rid fh st (Rid pn slot) (Rid pn slot')"
    "\<not> slot' < num_records_per_page (file_hdr fh) \<Longrightarrow> next_rid fh st (Rid (pn + 1) (-1)) r' \<Longrightarrow> next_rid fh st (Rid pn slot) r'"
proof -
  let ?h = "file_hdr fh"
  have lay: "layout_ok ?h" using rm_relD [OF assms(1)] by simp
  have "slot + 1 \<le> num_records_per_page ?h" using assms(5) by simp
  note sc = scan_bits_spec [OF refl this, of True m PAGE_BITMAP, folded next_bit_def, folded assms(7)]
  have occ: "q \<in> dom (rm_table fh st) \<longleftrightarrow> slot_ok ?h (slot_no q) \<and> slot_set m (slot_no q)" if "page_no q = pn" for q
  proof (cases "slot_ok ?h (slot_no q)")
    case True
    have "rm_table fh st q = page_rec ?h m (slot_no q)"
      by (rule rm_table_page [OF lay]) (use that assms(2,3,6) True in auto)
    with True show ?thesis by (simp add: domIff page_rec_def)
  qed (simp add: domIff rm_table_bad_slot)
  { fix q assume q: "q \<in> dom (rm_table fh st)" "Rid pn slot < q" "page_no q = pn"
    then have "slot < slot_no q" "slot_set m (slot_no q)" "slot_ok ?h (slot_no q)"
      using occ by (auto simp: less_rid_def)
    then have "slot' \<le> slot_no q" using sc by (auto simp: slot_set_def not_less [symmetric]) }
  note least = this
  show "next_rid fh st (Rid pn slot) (Rid pn slot')" if "slot' < num_records_per_page ?h"
  proof -
    have "Rid pn slot' \<in> dom (rm_table fh st)" "Rid pn slot < Rid pn slot'"
      using sc that occ [of "Rid pn slot'"] assms(4) by (auto simp: slot_ok_def slot_set_def less_rid_def)
    moreover have "Rid pn slot' \<le> q" if "q \<in> dom (rm_table fh st)" "Rid pn slot < q" for q
      using least [OF that] that(2) by (auto simp: less_rid_def less_eq_rid_def)
    ultimately show ?thesis using assms(3) by (simp add: next_rid_def)
  qed
  show "next_rid fh st (Rid pn slot) r'" if full: "\<not> slot' < num_records_per_page ?h" and n: "next_rid fh st (Rid (pn + 1) (-1)) r'"
  proof -
    have iff: "Rid pn slot < q \<longleftrightarrow> Rid (pn + 1) (-1) < q" if q: "q \<in> dom (rm_table fh st)" for q
      using least [OF q] dom_table [OF q] full by (auto simp: less_rid_def slot_ok_def)
    with n show ?thesis unfolding next_rid_def by (auto split: if_splits)
  qed
qed

lemma scan_next_run:
  assumes "rm_rel (s, fh, t) st" "n = num_pages (file_hdr fh)" "1 \<le> pn" "-1 \<le> slot" "slot < num_records_per_page (file_hdr fh)"
  shows "(\<exists>e x. scan_next n pn slot (s, fh, t) = (Inl e, x) \<and> scan_failed fh st e) \<or>
    (\<exists>r s'. scan_next n pn slot (s, fh, t) = (Inr r, s', fh, t) \<and> rm_rel (s', fh, t) st \<and> next_rid fh st (Rid pn slot) r)"
  using assms
proof (induction "nat (n - pn)" arbitrary: pn slot s rule: less_induct)
  case less
  let ?h = "file_hdr fh"
  show ?case
  proof (cases "pn < n")
    case False
    then have "scan_next n pn slot (s, fh, t) = (Inr (Rid pn slot), s, fh, t)" by (simp add: scan_next.simps [of n pn] run_simps)
    moreover have "next_rid fh st (Rid pn slot) (Rid pn slot)"
      using False less.prems(2) by (auto simp: next_rid_def less_rid_def dest!: dom_table)
    ultimately show ?thesis using less.prems(1) by blast
  next
    case True
    obtain res x where f: "fetch_page_handle pn (s, fh, t) = (res, x)" by (meson surj_pair)
    show ?thesis
    proof (cases res)
      case (Inl e)
      with f True less.prems have "scan_failed fh st e" unfolding scan_failed_def by blast
      with f Inl True show ?thesis by (cases x) (simp add: scan_next.simps [of n pn] run_simps)
    next
      case (Inr f')
      obtain s1 fh1 t1 where "fetch_page_handle pn (s, fh, t) = (Inr f', s1, fh1, t1)" using f Inr by (cases x) auto
      from fetch_page_handle_run [OF less.prems(1,3) this] this obtain m where
        m: "held s1 st (PageId (rm_fd fh) pn) f' m" "clean_ok s1 (PageId (rm_fd fh) pn) f'" "rm_pool s1 (rm_fd fh) n"
        and fetch: "fetch_page_handle pn (s, fh, t) = (Inr f', s1, fh, t)" using less.prems(2) by auto
      obtain s2 where s2: "unpin_frame f' False (s1, fh, t) = (s2, fh, t)" "known s2 st" "rm_pool s2 (rm_fd fh) n"
        using unpin_frame_run [OF m(1) _ m(3), of False fh t] m(2) by blast
      have rel2: "rm_rel (s2, fh, t) st" using s2 less.prems(1,2) by (simp add: rm_rel_pool)
      define slot' where "slot' = next_bit True m PAGE_BITMAP (num_records_per_page ?h) slot"
      have run: "scan_next n pn slot (s, fh, t) = (if slot' < num_records_per_page ?h then (Inr (Rid pn slot'), s2, fh, t)
          else scan_next n (pn + 1) (-1) (s2, fh, t))"
        using fetch s2(1) heldD(4) [OF m(1)] True
        by (simp add: scan_next.simps [of n pn] run_simps slot'_def frame_mem_def Let_def)
      have npp: "1 \<le> num_records_per_page ?h" using rm_relD(3) [OF less.prems(1)] by (simp add: layout_ok_def)
      note page = scan_page [OF less.prems(1,3) _ less.prems(4,5) heldD(5) [OF m(1)] slot'_def]
      show ?thesis
      proof (cases "slot' < num_records_per_page ?h")
        case True
        with run rel2 page(1) \<open>pn < n\<close> less.prems(2) show ?thesis by auto
      next
        case False
        have "nat (n - (pn + 1)) < nat (n - pn)" using True by simp
        from less.hyps [OF this rel2 less.prems(2), of "-1"] less.prems(3) npp
        have ih: "(\<exists>e x. scan_next n (pn + 1) (-1) (s2, fh, t) = (Inl e, x) \<and> scan_failed fh st e) \<or>
          (\<exists>r s'. scan_next n (pn + 1) (-1) (s2, fh, t) = (Inr r, s', fh, t) \<and> rm_rel (s', fh, t) st \<and>
            next_rid fh st (Rid (pn + 1) (-1)) r)" by simp
        have "next_rid fh st (Rid (pn + 1) (-1)) r \<Longrightarrow> next_rid fh st (Rid pn slot) r" for r
          using page(2) False True less.prems(2) by simp
        with ih run False show ?thesis by fastforce
      qed
    qed
  qed
qed


text \<open>The occupied positions from \<open>r\<close> on.\<close>

definition rids_from :: "rm_file \<Rightarrow> (page_id \<rightharpoonup> bytes) \<Rightarrow> rid \<Rightarrow> rid set" where
  "rids_from fh st r = {q \<in> dom (rm_table fh st). r \<le> q}"

lemma finite_rids_from [simp]: "finite (rids_from fh st r)"
  by (rule finite_subset [OF _ finite_table]) (auto simp: rids_from_def)

lemma rids_from_end: "\<not> page_no r < num_pages (file_hdr fh) \<Longrightarrow> rids_from fh st r = {}"
  by (auto simp: rids_from_def less_eq_rid_def dest!: dom_table)

lemma rids_from_next:
  assumes "r \<in> dom (rm_table fh st)" "next_rid fh st r r'"
  shows "rids_from fh st r = insert r (rids_from fh st r')" "r \<notin> rids_from fh st r'" "\<forall>q \<in> rids_from fh st r'. r \<le> q"
proof -
  have "rids_from fh st r = insert r {q \<in> dom (rm_table fh st). r < q}" using assms(1) by (auto simp: rids_from_def)
  also have "{q \<in> dom (rm_table fh st). r < q} = rids_from fh st r'"
  proof (cases "page_no r' < num_pages (file_hdr fh)")
    case True
    with assms(2) show ?thesis by (auto simp: next_rid_def rids_from_def)
  next
    case False
    with assms(2) show ?thesis by (auto simp: next_rid_def rids_from_end)
  qed
  finally show "rids_from fh st r = insert r (rids_from fh st r')" .
  have "r < r' \<or> rids_from fh st r' = {}" using assms(2) rids_from_end [of r'] by (auto simp: next_rid_def split: if_splits)
  then show "r \<notin> rids_from fh st r'" "\<forall>q \<in> rids_from fh st r'. r \<le> q" by (auto simp: rids_from_def)
qed

lemma scan_rest_run:
  assumes "rm_rel (s, fh, t) st" "page_no r < num_pages (file_hdr fh) \<Longrightarrow> r \<in> dom (rm_table fh st)"
    "card (rids_from fh st r) < k"
  shows "(\<exists>e x. scan_rest k r (s, fh, t) = (Inl e, x) \<and> scan_failed fh st e) \<or>
    (\<exists>s'. scan_rest k r (s, fh, t) = (Inr (sorted_list_of_set (rids_from fh st r)), s', fh, t) \<and> rm_rel (s', fh, t) st)"
  using assms
proof (induction k arbitrary: r s)
  case 0
  then show ?case by simp
next
  case (Suc k)
  show ?case
  proof (cases "page_no r < num_pages (file_hdr fh)")
    case False
    with Suc.prems(1) show ?thesis by (simp add: scan_is_end_def rids_from_end)
  next
    case True
    with Suc.prems(2) have r: "r \<in> dom (rm_table fh st)" by simp
    have "1 \<le> page_no r" "-1 \<le> slot_no r" "slot_no r < num_records_per_page (file_hdr fh)"
      using dom_table [OF r] by (auto simp: slot_ok_def)
    note next_cases = scan_next_run [OF Suc.prems(1) refl this]
    have rr: "Rid (page_no r) (slot_no r) = r" by (cases r) simp
    show ?thesis
    proof (cases "\<exists>e x. scan_next (num_pages (file_hdr fh)) (page_no r) (slot_no r) (s, fh, t) = (Inl e, x) \<and> scan_failed fh st e")
      case True
      with \<open>page_no r < _\<close> show ?thesis by (auto simp: scan_is_end_def run_simps)
    next
      case False
      with next_cases rr obtain r' s1 where n: "scan_next (num_pages (file_hdr fh)) (page_no r) (slot_no r) (s, fh, t) = (Inr r', s1, fh, t)"
        "rm_rel (s1, fh, t) st" "next_rid fh st r r'" by auto
      note rids = rids_from_next [OF r n(3)]
      have "card (rids_from fh st r') < k" using Suc.prems(3) rids(1,2) by simp
      moreover have "page_no r' < num_pages (file_hdr fh) \<Longrightarrow> r' \<in> dom (rm_table fh st)"
        using n(3) by (simp add: next_rid_def)
      moreover have "sorted_list_of_set (rids_from fh st r) = r # sorted_list_of_set (rids_from fh st r')"
        using rids by (simp add: insort_is_Cons)
      ultimately show ?thesis using Suc.IH [OF n(2), of r'] n(1) \<open>page_no r < _\<close>
        by (auto simp: scan_is_end_def run_simps)
    qed
  qed
qed

text \<open>
  Claim C10. A scan visits exactly the occupied positions of the table, each once and in page and slot
  order, leaving every page as it was, and it ends after that many steps; it stops early only when
  the buffer pool cannot bring in one of the file's pages.
\<close>

theorem scan_visits_all:
  assumes "rm_rel (s, fh, t) st" "card (dom (rm_table fh st)) < k"
  shows "(\<exists>e x. scan_all k (s, fh, t) = (Inl e, x) \<and> scan_failed fh st e) \<or>
    (\<exists>s'. scan_all k (s, fh, t) = (Inr (sorted_list_of_set (dom (rm_table fh st))), s', fh, t) \<and> rm_rel (s', fh, t) st)"
proof -
  have "1 \<le> num_records_per_page (file_hdr fh)" using rm_relD(3) [OF assms(1)] by (simp add: layout_ok_def)
  then have first: "(\<exists>e x. scan_first (s, fh, t) = (Inl e, x) \<and> scan_failed fh st e) \<or>
    (\<exists>r s'. scan_first (s, fh, t) = (Inr r, s', fh, t) \<and> rm_rel (s', fh, t) st \<and> next_rid fh st (Rid 1 (-1)) r)"
    using scan_next_run [OF assms(1) refl, of 1 "-1"] by (simp add: scan_first_def RM_FIRST_RECORD_PAGE_def)
  have above: "Rid 1 (-1) < q" if "q \<in> dom (rm_table fh st)" for q
    using dom_table [OF that] by (auto simp: less_rid_def slot_ok_def)
  have all: "rids_from fh st r = dom (rm_table fh st)" if "next_rid fh st (Rid 1 (-1)) r" for r
  proof (cases "page_no r < num_pages (file_hdr fh)")
    case True
    with that above show ?thesis by (auto simp: next_rid_def rids_from_def)
  next
    case False
    with that above show ?thesis by (auto simp: next_rid_def rids_from_end)
  qed
  from first show ?thesis
  proof (elim disjE exE conjE)
    fix e x assume "scan_first (s, fh, t) = (Inl e, x)" "scan_failed fh st e"
    then show ?thesis by (cases x) (simp add: scan_all_def run_simps)
  next
    fix r s' assume r: "scan_first (s, fh, t) = (Inr r, s', fh, t)" "rm_rel (s', fh, t) st" "next_rid fh st (Rid 1 (-1)) r"
    have "page_no r < num_pages (file_hdr fh) \<Longrightarrow> r \<in> dom (rm_table fh st)" using r(3) by (simp add: next_rid_def)
    from scan_rest_run [OF r(2) this] all [OF r(3)] assms(2) r(1) show ?thesis by (simp add: scan_all_def run_simps)
  qed
qed

section \<open>A file of one data page\<close>

definition rm_ex_file :: rm_file where
  "rm_ex_file = \<lparr>rm_fd = 3, file_hdr = (new_file_hdr 512)\<lparr>num_pages := 2, first_free_page_no := 1\<rparr>, rm_tab_name = ''t''\<rparr>"

definition rm_ex_page :: mem where
  "rm_ex_page = page_insert (file_hdr rm_ex_file) 0 (replicate 512 7) (page_init (file_hdr rm_ex_file) mzero)"

definition rm_ex_pool :: storage where
  "rm_ex_pool = one_page_pool 1 rm_ex_page"

definition rm_ex :: rm_state where
  "rm_ex = (rm_ex_pool, rm_ex_file, None)"

definition rm_ex_pages :: "page_id \<rightharpoonup> bytes" where
  "rm_ex_pages = [PageId 3 1 \<mapsto> mread rm_ex_page 0 PAGE_SIZE]"

lemma rm_ex_hdr: "file_hdr rm_ex_file = \<lparr>record_size = 512, num_pages = 2, num_records_per_page = 7,
    first_free_page_no = 1, bitmap_size = 1\<rparr>" "rm_fd rm_ex_file = 3" "rm_tab_name rm_ex_file = ''t''"
  by (simp_all add: rm_ex_file_def new_file_hdr_def Let_def BITMAP_WIDTH_def PAGE_SIZE_def)

lemma rm_ex_layout: "layout_ok (file_hdr rm_ex_file)" "slot_ok (file_hdr rm_ex_file) i \<longleftrightarrow> 0 \<le> i \<and> i < 7"
  by (simp_all add: rm_ex_hdr layout_ok_def RM_MAX_RECORD_SIZE_def PAGE_SIZE_def slot_ok_def)

lemma rm_ex_page_facts:
  "page_slots (file_hdr rm_ex_file) rm_ex_page = {0}" "num_records rm_ex_page = 1" "next_free_page_no rm_ex_page = RM_NO_PAGE"
  "slot_ok (file_hdr rm_ex_file) j \<Longrightarrow> page_rec (file_hdr rm_ex_file) rm_ex_page j = (if j = 0 then Some (replicate 512 7) else None)"
proof -
  let ?h = "file_hdr rm_ex_file" and ?m = "page_init (file_hdr rm_ex_file) mzero"
  note lay = rm_ex_layout(1)
  have ok: "slot_ok ?h 0" "length (replicate 512 (7::byte)) = nat (record_size ?h)" by (simp_all add: rm_ex_layout) (simp add: rm_ex_hdr)
  show "page_slots ?h rm_ex_page = {0}"
    unfolding rm_ex_page_def page_slots_insert [OF lay ok] page_slots_init [OF lay] by simp
  show "num_records rm_ex_page = 1"
    unfolding rm_ex_page_def using num_records_insert [OF lay ok(1), of ?m] by (simp add: num_records_init in_signed_def)
  show "next_free_page_no rm_ex_page = RM_NO_PAGE"
    unfolding rm_ex_page_def using num_records_edits(9) [OF lay ok(1), where v = 0 and m = ?m]
    by (simp add: num_records_init in_signed_def)
  show "slot_ok ?h j \<Longrightarrow> page_rec ?h rm_ex_page j = (if j = 0 then Some (replicate 512 7) else None)"
    unfolding rm_ex_page_def using page_rec_insert [OF lay ok(1) _ ok(2)] page_rec_init [OF lay] by simp
qed

lemma rm_ex_known: "known rm_ex_pool rm_ex_pages"
  unfolding rm_ex_pool_def rm_ex_pages_def by (rule one_page_known) (simp add: valid_no_def)

lemma rm_ex_rel: "rm_rel (rm_ex_pool, rm_ex_file, t) rm_ex_pages"
proof -
  let ?h = "file_hdr rm_ex_file"
  have same: "num_records (mem_of (mread rm_ex_page 0 PAGE_SIZE)) = 1"
    "next_free_page_no (mem_of (mread rm_ex_page 0 PAGE_SIZE)) = RM_NO_PAGE"
    "page_slots ?h (mem_of (mread rm_ex_page 0 PAGE_SIZE)) = {0}"
    using same_page_fields [OF same_page_mem_of, of rm_ex_page] same_page_slots [OF rm_ex_layout(1) same_page_mem_of, of rm_ex_page]
    by (simp_all add: rm_ex_page_facts)
  have "free_chain rm_ex_file rm_ex_pages 1 [1]" using same by (simp add: rm_ex_hdr rm_ex_pages_def)
  then have chain: "\<exists>qs. distinct qs \<and> free_chain rm_ex_file rm_ex_pages (first_free_page_no ?h) qs"
    by (intro exI [of _ "[1]"]) (simp add: rm_ex_hdr)
  have ok: "rm_ok rm_ex_file rm_ex_pages"
    unfolding rm_ok_def
  proof (intro conjI allI impI)
    fix no assume "1 \<le> no \<and> no < num_pages ?h"
    then have "no = 1" by (simp add: rm_ex_hdr)
    then show "\<exists>b. rm_ex_pages (PageId (rm_fd rm_ex_file) no) = Some b \<and> num_records (mem_of b) = page_count ?h (mem_of b)"
      using same by (simp add: rm_ex_hdr(2) rm_ex_pages_def page_count_def)
  qed (use rm_ex_layout(1) chain in \<open>simp_all add: rm_ex_hdr(1)\<close>)
  have "rm_pool rm_ex_pool 3 2"
    using pool_disk_facts by (simp add: rm_pool_def) (simp add: rm_ex_pool_def one_page_pool_def LOG_FILE_NAME_def)
  with ok rm_ex_known show ?thesis by (simp add: rm_rel_pool rm_ex_hdr)
qed

lemma rm_ex_table: "rm_table rm_ex_file rm_ex_pages r = (if r = Rid 1 0 then Some (replicate 512 7) else None)"
proof (cases "page_no r = 1 \<and> slot_ok (file_hdr rm_ex_file) (slot_no r)")
  case True
  have "rm_table rm_ex_file rm_ex_pages r = page_rec (file_hdr rm_ex_file) rm_ex_page (slot_no r)"
    by (rule rm_table_page [OF rm_ex_layout(1)]) (use True in \<open>simp_all add: rm_ex_hdr rm_ex_pages_def\<close>)
  with rm_ex_page_facts(4) True show ?thesis by (cases r) simp
next
  case False
  then have "r \<noteq> Rid 1 0" by (auto simp: rm_ex_layout)
  moreover have "rm_table rm_ex_file rm_ex_pages r = None"
    using False by (auto simp: rm_table_def rm_ex_pages_def rm_ex_hdr(1) rm_ex_hdr(2))
  ultimately show ?thesis by simp
qed

lemma rm_ex_fetch: "fetch_page (PageId 3 1) rm_ex_pool = (Inr (Some 0), pin_frame 0 (\<lambda>c. c + 1) rm_ex_pool)"
  by (simp add: fetch_page_def rm_ex_pool_def one_page_pool_def)

lemma rm_ex_handle: "fetch_page_handle 1 (rm_ex_pool, rm_ex_file, t) = (Inr 0, pin_frame 0 (\<lambda>c. c + 1) rm_ex_pool, rm_ex_file, t)"
  by (simp add: fetch_page_handle_def rm_ex_hdr rm_ex_fetch)

lemma rm_ex_mem: "frame_mem (pin_frame 0 (\<lambda>c. c + 1) rm_ex_pool) 0 = rm_ex_page" "slot_set rm_ex_page 0"
proof -
  show "frame_mem (pin_frame 0 (\<lambda>c. c + 1) rm_ex_pool) 0 = rm_ex_page"
    by (simp add: frame_mem_def pin_frame_pages rm_ex_pool_def one_page_pool_def)
  have "0 \<in> page_slots (file_hdr rm_ex_file) rm_ex_page" by (simp add: rm_ex_page_facts)
  then show "slot_set rm_ex_page 0" by (simp add: page_slots_def)
qed

lemma log_change_none: "log_change f mk (s, fh, None) = (Inr (), s, fh, None)"
  by (simp add: log_change_def)

theorem get_record_looks_up_witness: "fst (get_record (Rid 1 0) rm_ex) = Inr (replicate 512 7)"
  using get_record_looks_up [OF rm_ex_rel, of "Rid 1 0" 0 None] rm_ex_table [of "Rid 1 0"]
  by (auto simp: rm_ex_def rm_ex_layout) (auto simp: rm_ex_hdr rm_ex_fetch)

theorem delete_record_removes_witness:
  "\<exists>s' fh' st'. delete_record (Rid 1 0) rm_ex = (Inr (), s', fh', None) \<and> rm_rel (s', fh', None) st' \<and>
    rm_table fh' st' = (\<lambda>_. None)"
proof -
  obtain s' fh' t' where d: "delete_record (Rid 1 0) rm_ex = (Inr (), s', fh', t')"
    by (cases "delete_record (Rid 1 0) rm_ex") (auto simp: delete_record_def rm_ex_def run_simps rm_ex_handle rm_ex_mem log_change_none Let_def)
  moreover have "t' = None"
    using d by (auto simp: delete_record_def rm_ex_def run_simps rm_ex_handle rm_ex_mem log_change_none Let_def unpin_frame_def
        release_page_handle_def edit_frame_def edit_hdr_def split: if_splits)
  moreover have "(rm_table rm_ex_file rm_ex_pages)(Rid 1 0 := None) = (\<lambda>_. None)" by (simp add: fun_eq_iff rm_ex_table)
  ultimately show ?thesis
    using delete_record_removes [OF rm_ex_rel, of "Rid 1 0" None s' fh' t']
    by (auto simp: rm_ex_def rm_ex_layout ctx_ok_def rid_fits_def in_signed_def)
qed

theorem insert_record_adds_witness:
  "\<exists>r s' fh' t' st'. insert_record (replicate 512 1) rm_ex = (Inr r, s', fh', t') \<and> rm_rel (s', fh', t') st' \<and>
    rm_table fh' st' r = Some (replicate 512 1) \<and> rm_table fh' st' (Rid 1 0) = Some (replicate 512 7)"
proof -
  obtain r s' fh' t' where i: "insert_record (replicate 512 1) rm_ex = (Inr r, s', fh', t')"
    by (cases "insert_record (replicate 512 1) rm_ex")
      (auto simp: insert_record_def create_page_handle_def RM_NO_PAGE_def rm_ex_def rm_ex_hdr run_simps rm_ex_handle
        log_change_none Let_def edit_frame_def edit_hdr_def split: if_splits)
  from insert_record_adds [OF rm_ex_rel, of None "replicate 512 1" r s' fh' t'] i
  obtain st' where st': "rm_rel (s', fh', t') st'" "rm_table rm_ex_file rm_ex_pages r = None" "rm_table fh' st' = (rm_table rm_ex_file rm_ex_pages)(r \<mapsto> replicate 512 1)"
    by (auto simp: rm_ex_def ctx_ok_def rm_ex_hdr)
  then have "rm_table fh' st' r = Some (replicate 512 1)" "rm_table fh' st' (Rid 1 0) = Some (replicate 512 7)"
    using rm_ex_table by (auto split: if_splits)
  with i st'(1) show ?thesis by blast
qed

theorem update_record_replaces_witness:
  "\<exists>s' fh' t' st'. update_record (Rid 1 0) (replicate 512 1) rm_ex = (Inr (), s', fh', t') \<and> rm_rel (s', fh', t') st' \<and>
    rm_table fh' st' (Rid 1 0) = Some (replicate 512 1)"
proof -
  obtain s' fh' t' where u: "update_record (Rid 1 0) (replicate 512 1) rm_ex = (Inr (), s', fh', t')"
    by (cases "update_record (Rid 1 0) (replicate 512 1) rm_ex")
      (auto simp: update_record_def rm_ex_def run_simps rm_ex_handle rm_ex_mem log_change_none Let_def)
  from update_record_replaces [OF rm_ex_rel, of "Rid 1 0" None "replicate 512 1" s' fh' t'] u
  obtain st' where "rm_rel (s', fh', t') st'" "rm_table fh' st' = (rm_table rm_ex_file rm_ex_pages)(Rid 1 0 \<mapsto> replicate 512 1)"
    by (auto simp: rm_ex_def slot_ok_def rm_ex_hdr ctx_ok_def rid_fits_def in_signed_def)
  with u show ?thesis by (metis fun_upd_same)
qed

theorem scan_visits_all_witness:
  "(\<exists>s'. scan_all 2 rm_ex = (Inr [Rid 1 0], s')) \<or> (\<exists>e. fst (scan_all 2 rm_ex) = Inl e \<and> scan_failed rm_ex_file rm_ex_pages e)"
proof -
  have "dom (rm_table rm_ex_file rm_ex_pages) = {Rid 1 0}" by (auto simp: domIff rm_ex_table split: if_splits)
  with scan_visits_all [OF rm_ex_rel, of 2 None] show ?thesis by (auto simp: rm_ex_def)
qed

section \<open>Creating and opening\<close>

lemma hdr_roundtrip:
  assumes "in_signed 4 (record_size h)" "in_signed 4 (num_pages h)" "in_signed 4 (num_records_per_page h)"
    "in_signed 4 (first_free_page_no h)" "in_signed 4 (bitmap_size h)" "mread m 0 20 = mread (hdr_to_mem h) 0 20"
  shows "hdr_of_mem m = h"
proof -
  let ?bs = "le_encode 4 (record_size h) @ le_encode 4 (num_pages h) @ le_encode 4 (num_records_per_page h) @
    le_encode 4 (first_free_page_no h) @ le_encode 4 (bitmap_size h)"
  have "holds (hdr_to_mem h) 0 ?bs" unfolding hdr_to_mem_def by (rule holds_mwrite)
  then have "mread m 0 20 = ?bs" using assms(6) by (simp add: holds_def)
  then have "holds m 0 ?bs" by (simp add: holds_def)
  then have "holds m 0 (le_encode 4 (record_size h))" "holds m 4 (le_encode 4 (num_pages h))"
    "holds m 8 (le_encode 4 (num_records_per_page h))" "holds m 12 (le_encode 4 (first_free_page_no h))"
    "holds m 16 (le_encode 4 (bitmap_size h))" by (simp_all add: holds_append)
  then show ?thesis using assms(1-5) by (simp add: hdr_of_mem_def holds_read_int)
qed

lemma new_hdr_fits:
  assumes "1 \<le> r" "r \<le> RM_MAX_RECORD_SIZE"
  shows "in_signed 4 (num_records_per_page (new_file_hdr r))" "in_signed 4 (bitmap_size (new_file_hdr r))"
proof -
  note lay = new_layout [OF assms, THEN conjunct1]
  have "0 \<le> num_records_per_page (new_file_hdr r)" "8 * bitmap_size (new_file_hdr r) \<le> num_records_per_page (new_file_hdr r) + 7"
    "num_records_per_page (new_file_hdr r) \<le> 8 * bitmap_size (new_file_hdr r)" using lay by (auto simp: layout_ok_def)
  with count_small(3) [OF lay]
  show "in_signed 4 (num_records_per_page (new_file_hdr r))" "in_signed 4 (bitmap_size (new_file_hdr r))"
    by (simp_all add: in_signed_def)
qed

lemma new_hdr_roundtrip:
  assumes "1 \<le> r" "r \<le> RM_MAX_RECORD_SIZE" "mread m 0 20 = mread (hdr_to_mem (new_file_hdr r)) 0 20"
  shows "hdr_of_mem m = new_file_hdr r"
  by (rule hdr_roundtrip [OF _ _ _ _ _ assms(3)])
    (use new_hdr_fits [OF assms(1,2)] assms(1,2) in
      \<open>simp_all add: in_signed_def RM_MAX_RECORD_SIZE_def new_file_hdr_def Let_def RM_NO_PAGE_def\<close>)

lemma new_file_empty:
  assumes "1 \<le> r" "r \<le> RM_MAX_RECORD_SIZE" "file_hdr fh = new_file_hdr r"
  shows "rm_ok fh st \<and> rm_table fh st = Map.empty"
proof -
  have n: "num_pages (new_file_hdr r) = 1" "first_free_page_no (new_file_hdr r) = RM_NO_PAGE"
    by (simp_all add: new_file_hdr_def Let_def)
  have "free_chain fh st (first_free_page_no (file_hdr fh)) []" using n assms(3) by simp
  then have "\<exists>qs. distinct qs \<and> free_chain fh st (first_free_page_no (file_hdr fh)) qs" by (metis distinct.simps(1))
  then show ?thesis using new_layout [OF assms(1,2)] n assms(3) by (auto simp: rm_ok_def rm_table_def fun_eq_iff)
qed

lemma create_file_steps:
  assumes "disk_ok d0" "rm_create_file path r d0 = (Inr (), d)"
  shows "1 \<le> r \<and> r \<le> RM_MAX_RECORD_SIZE \<and> files d0 path = None \<and> disk_ok d \<and> path2fd d path = None \<and>
    files d path = Some (mread (hdr_to_mem (new_file_hdr r)) 0 20)"
proof -
  let ?h = "hdr_to_mem (new_file_hdr r)"
  obtain u d1 fd d2 u' d3 where c: "create_file path d0 = (Inr u, d1)" and o: "open_file path d1 = (Inr fd, d2)"
    and w: "write_page fd RM_FILE_HDR_PAGE ?h 20 d2 = (Inr u', d3)" and cl: "close_file fd d3 = (Inr (), d)"
    and r: "1 \<le> r" "r \<le> RM_MAX_RECORD_SIZE"
    using assms(2) by (auto simp: rm_create_file_def andThen_eq_Inr throw_def split: if_splits)
  have d1: "files d0 path = None" "files d1 path = Some []" "disk_ok d1"
    using c create_file_ok [OF assms(1), of path] by (auto simp: create_file_def is_file_def split: if_splits)
  note o' = open_file_new [OF d1(3) o]
  have "page_offset RM_FILE_HDR_PAGE = 0" by (simp add: page_offset_def RM_FILE_HDR_PAGE_def to_signed_def)
  with write_page_run [OF _ w] o' d1(2)
  have d3: "disk_ok d3" "fd2path d3 fd = Some path" "path2fd d3 path = Some fd" "files d3 path = Some (mread ?h 0 20)"
    by (auto simp: pwrite_def)
  from cl close_file_ok [OF d3(1), of fd] d3 have "disk_ok d" "path2fd d path = None" "files d path = Some (mread ?h 0 20)"
    by (auto simp: close_file_def split: if_splits)
  with r d1(1) show ?thesis by simp
qed

text \<open>
  Claim C39. A created file opens with the header that was computed for its record size and stands for
  the empty table; \<open>create_file\<close> refuses record sizes outside \<open>1\<close> to \<open>512\<close> and existing files.
\<close>

theorem create_file_opens_empty:
  assumes "disk_ok (st_disk s)" "rm_create_file path r (st_disk s) = (res, d)"
  shows "(r < 1 \<or> RM_MAX_RECORD_SIZE < r \<longrightarrow> res = Inl (InvalidRecordSizeError r) \<and> d = st_disk s) \<and>
    (res = Inr () \<longrightarrow> files (st_disk s) path = None \<and>
      (\<exists>fh s'. rm_open_file path (s\<lparr>st_disk := d\<rparr>) = (Inr fh, s') \<and> file_hdr fh = new_file_hdr r \<and>
        rm_ok fh st \<and> rm_table fh st = Map.empty \<and> fd2pageno (st_disk s') (rm_fd fh) = 1))"
proof (intro conjI impI)
  assume "r < 1 \<or> RM_MAX_RECORD_SIZE < r"
  then show "res = Inl (InvalidRecordSizeError r)" "d = st_disk s" using assms(2) by (auto simp: rm_create_file_def throw_def)
next
  assume ok: "res = Inr ()"
  note c = create_file_steps [OF assms(1) assms(2) [unfolded ok]]
  then show "files (st_disk s) path = None" by simp
  let ?bs = "mread (hdr_to_mem (new_file_hdr r)) 0 20" and ?s = "s\<lparr>st_disk := d\<rparr>"
  obtain fd d' where o: "open_file path d = (Inr fd, d')"
    using c by (auto simp: open_file_def is_file_def os_open_def Let_def)
  have dd: "disk_ok d" using c by simp
  note o' = open_file_new [OF dd o]
  then have "fd_bytes d' fd = Some ?bs" using c by (simp add: fd_bytes_def disk_ok_def)
  then have rd: "read_page d' fd RM_FILE_HDR_PAGE 20 mzero = (Inr (), mwrite mzero 0 ?bs)"
    by (simp add: read_page_def page_offset_def RM_FILE_HDR_PAGE_def to_signed_def pread_def Let_def)
  have hd: "hdr_of_mem (mwrite mzero 0 ?bs) = new_file_hdr r"
    by (rule new_hdr_roundtrip) (use c holds_mwrite [of mzero 0 ?bs] in \<open>auto simp: holds_def\<close>)
  let ?fh = "\<lparr>rm_fd = fd, file_hdr = new_file_hdr r, rm_tab_name = path\<rparr>"
  let ?s' = "?s\<lparr>st_disk := set_fd2pageno fd 1 d'\<rparr>"
  have "num_pages (new_file_hdr r) = 1" by (simp add: new_file_hdr_def Let_def)
  then have "rm_open_file path ?s = (Inr ?fh, ?s')"
    using o rd hd by (simp add: rm_open_file_def run_simps on_disk_def andThen_def zoom_def)
  with c new_file_empty [of r ?fh st]
  show "\<exists>fh s'. rm_open_file path ?s = (Inr fh, s') \<and> file_hdr fh = new_file_hdr r \<and>
      rm_ok fh st \<and> rm_table fh st = Map.empty \<and> fd2pageno (st_disk s') (rm_fd fh) = 1"
    by (intro exI [of _ ?fh] exI [of _ ?s']) (simp add: set_fd2pageno_def)
qed

lemma create_ex: "fst (rm_create_file ''n'' 8 pool_disk) = Inr ()"
  by (simp add: rm_create_file_def pool_disk_def open_file_def is_file_def disk_new_def LOG_FILE_NAME_def os_open_def
      lowest_fd_def upt_conv_Cons create_file_def write_page_def close_file_def run_simps RM_MAX_RECORD_SIZE_def
      RM_FILE_HDR_PAGE_def page_offset_def to_signed_def)

theorem create_file_opens_empty_witness:
  "\<exists>fh s'. rm_open_file ''n'' (pool_ex\<lparr>st_disk := snd (rm_create_file ''n'' 8 pool_disk)\<rparr>) = (Inr fh, s') \<and>
    file_hdr fh = new_file_hdr 8"
proof -
  have d: "disk_ok (st_disk pool_ex)" "st_disk pool_ex = pool_disk"
    using pool_disk_facts(1) by (simp_all add: pool_ex_def pool_new_def)
  have "rm_create_file ''n'' 8 (st_disk pool_ex) = (Inr (), snd (rm_create_file ''n'' 8 pool_disk))"
    using create_ex d(2) by (metis prod.collapse)
  from create_file_opens_empty [OF d(1) this] show ?thesis by blast
qed

text \<open>An empty file in an empty pool of one frame.\<close>

definition grow_pool :: storage where
  "grow_pool = pool_new 1 (pool_disk\<lparr>fd2pageno := (\<lambda>_. 1)\<rparr>) log_manager_new True"

definition grow_file :: rm_file where
  "grow_file = \<lparr>rm_fd = 3, file_hdr = new_file_hdr 512, rm_tab_name = ''t''\<rparr>"

lemma grow_rel: "rm_rel (grow_pool, grow_file, t) Map.empty"
proof -
  have "log_inv [] 0 [] [] (st_disk grow_pool, st_log grow_pool)"
    using pool_disk_facts
    by (simp add: grow_pool_def pool_new_def log_inv_def log_manager_new_def buffered_def last_lsn_def INVALID_LSN_def
        mread_def disk_ok_def log_fd_ok_def)
  then have "log_ok grow_pool" unfolding log_ok_def by auto
  then have "known grow_pool Map.empty" using pool_new_ok by (simp add: grow_pool_def known_def)
  moreover have "rm_ok grow_file Map.empty"
    using new_file_empty [of 512 grow_file] by (simp add: grow_file_def RM_MAX_RECORD_SIZE_def)
  moreover have "rm_pool grow_pool 3 1"
    using pool_disk_facts by (simp add: rm_pool_def grow_pool_def pool_new_def LOG_FILE_NAME_def)
  ultimately show ?thesis by (simp add: rm_rel_pool grow_file_def new_file_hdr_def Let_def)
qed

lemma grow_new: "\<exists>s. new_page 3 grow_pool = (Inr (Some (1, 0)), s)"
proof -
  have g: "find_victim_page grow_pool = (Some 0, grow_pool\<lparr>free_list := []\<rparr>)" "st_disk grow_pool = pool_disk\<lparr>fd2pageno := (\<lambda>_. 1)\<rparr>"
    "pages grow_pool = [new_frame]" "page_table grow_pool = Map.empty"
    by (simp_all add: grow_pool_def pool_new_def find_victim_page_def)
  show ?thesis
    by (simp add: new_page_def g on_disk_def zoom_def allocate_page_def MAX_FD_def update_page_def andThen_def modify_def
        ret_def new_frame_def INVALID_PAGE_ID_def no_page_def)
qed

theorem insert_without_free_list_grows_witness:
  "\<exists>r s' fh'. insert_record (replicate 512 1) (grow_pool, grow_file, None) = (Inr r, s', fh', None) \<and>
    num_pages (file_hdr fh') = 2 \<and> first_free_page_no (file_hdr fh') = RM_NO_PAGE"
proof -
  obtain s1 where n: "new_page 3 grow_pool = (Inr (Some (1, 0)), s1)" using grow_new by blast
  have h: "first_free_page_no (file_hdr grow_file) = RM_NO_PAGE" "rm_fd grow_file = 3" "num_pages (file_hdr grow_file) = 1"
    "record_size (file_hdr grow_file) = 512"
    by (simp_all add: grow_file_def new_file_hdr_def Let_def)
  obtain r s' fh' where i: "insert_record (replicate 512 1) (grow_pool, grow_file, None) = (Inr r, s', fh', None)"
    by (cases "insert_record (replicate 512 1) (grow_pool, grow_file, None)")
      (auto simp: insert_record_def create_page_handle_def create_new_page_handle_def h n run_simps log_change_none Let_def
        edit_frame_def edit_hdr_def unpin_frame_def split: if_splits)
  from insert_without_free_list_grows [OF grow_rel _ _ _ i] i h show ?thesis by (simp add: ctx_ok_def)
qed

end
