(* ===== verification/Ix_Node.thy ===== *)
theory Ix_Node
  imports Ordering Pool_Client
begin

text \<open>
  The nodes of an index: \<^verbatim>\<open>src/src/index/ix_defs.h\<close> and the class \<open>IxNodeHandle\<close> of
  \<^verbatim>\<open>ix_index_handle.h\<close> and \<^verbatim>\<open>ix_index_handle.cpp\<close>. A node is a page: the header
  \<^verbatim>\<open>IxPageHdr\<close> (24 bytes), the keys and the record positions. Every operation reads and writes
  the bytes of the page; the refinement lemmas show what it does to the list of entries.
\<close>

section \<open>The file header\<close>

definition IX_NO_PAGE :: int where "IX_NO_PAGE = -1"
definition IX_FILE_HDR_PAGE :: int where "IX_FILE_HDR_PAGE = 0"
definition IX_LEAF_HEADER_PAGE :: int where "IX_LEAF_HEADER_PAGE = 1"
definition IX_INIT_ROOT_PAGE :: int where "IX_INIT_ROOT_PAGE = 2"
definition IX_INIT_NUM_PAGES :: int where "IX_INIT_NUM_PAGES = 3"
definition IX_MAX_COL_LEN :: int where "IX_MAX_COL_LEN = 512"

record ix_file_hdr =
  first_free_ix :: int
  ix_num_pages :: int
  root_page :: int
  col_num :: int
  col_types :: "coltype list"
  col_lens :: "int list"
  col_tot_len :: int
  btree_order :: int
  keys_size :: int
  first_leaf :: int
  last_leaf :: int
  tot_len :: int

definition update_tot_len :: "ix_file_hdr \<Rightarrow> ix_file_hdr" where
  "update_tot_len h = h\<lparr>tot_len := 4 * 4 + 4 * 6 + 4 * col_num h + 4 * col_num h\<rparr>"

section \<open>The fields of a node\<close>

definition IX_PAGE_HDR_SIZE :: nat where "IX_PAGE_HDR_SIZE = 24"

definition node_size :: "mem \<Rightarrow> int" where
  "node_size m = read_int 4 m 8"

definition set_size :: "int \<Rightarrow> mem \<Rightarrow> mem" where
  "set_size n m = write_int 4 m 8 n"

definition get_max_size :: "ix_file_hdr \<Rightarrow> int" where
  "get_max_size h = btree_order h + 1"

definition get_min_size :: "ix_file_hdr \<Rightarrow> int" where
  "get_min_size h = get_max_size h div 2"

definition is_leaf_page :: "mem \<Rightarrow> bool" where
  "is_leaf_page m \<longleftrightarrow> m 12 \<noteq> 0"

definition set_is_leaf :: "bool \<Rightarrow> mem \<Rightarrow> mem" where
  "set_is_leaf b m = m(12 := (if b then 1 else 0))"

definition parent_no :: "mem \<Rightarrow> int" where
  "parent_no m = read_int 4 m 4"

definition set_parent :: "int \<Rightarrow> mem \<Rightarrow> mem" where
  "set_parent p m = write_int 4 m 4 p"

definition is_root_page :: "mem \<Rightarrow> bool" where
  "is_root_page m \<longleftrightarrow> parent_no m = INVALID_PAGE_ID"

definition prev_leaf :: "mem \<Rightarrow> int" where
  "prev_leaf m = read_int 4 m 16"

definition next_leaf :: "mem \<Rightarrow> int" where
  "next_leaf m = read_int 4 m 20"

definition set_prev_leaf :: "int \<Rightarrow> mem \<Rightarrow> mem" where
  "set_prev_leaf p m = write_int 4 m 16 p"

definition set_next_leaf :: "int \<Rightarrow> mem \<Rightarrow> mem" where
  "set_next_leaf p m = write_int 4 m 20 p"

definition set_next_free_node :: "int \<Rightarrow> mem \<Rightarrow> mem" where
  "set_next_free_node p m = write_int 4 m 0 p"

text \<open>The addresses of the keys and of the record positions, relative to the page.\<close>

definition key_off :: "ix_file_hdr \<Rightarrow> int \<Rightarrow> nat" where
  "key_off h i = nat (int IX_PAGE_HDR_SIZE + i * col_tot_len h)"

definition rid_off :: "ix_file_hdr \<Rightarrow> int \<Rightarrow> nat" where
  "rid_off h i = nat (int IX_PAGE_HDR_SIZE + keys_size h + i * 8)"

definition get_key :: "ix_file_hdr \<Rightarrow> mem \<Rightarrow> int \<Rightarrow> bytes" where
  "get_key h m i = mread m (key_off h i) (nat (col_tot_len h))"

definition rid_of_bytes :: "bytes \<Rightarrow> rid" where
  "rid_of_bytes bs = Rid (to_signed 4 (le_decode (take 4 bs))) (to_signed 4 (le_decode (drop 4 bs)))"

definition get_rid :: "ix_file_hdr \<Rightarrow> mem \<Rightarrow> int \<Rightarrow> rid" where
  "get_rid h m i = rid_of_bytes (mread m (rid_off h i) 8)"

definition value_at :: "ix_file_hdr \<Rightarrow> mem \<Rightarrow> int \<Rightarrow> int" where
  "value_at h m i = page_no (get_rid h m i)"

definition bytes_of_rid :: "rid \<Rightarrow> bytes" where
  "bytes_of_rid r = le_encode 4 (page_no r) @ le_encode 4 (slot_no r)"

definition set_key :: "ix_file_hdr \<Rightarrow> int \<Rightarrow> bytes \<Rightarrow> mem \<Rightarrow> mem" where
  "set_key h i key m = mwrite m (key_off h i) (take (nat (col_tot_len h)) key)"

section \<open>Searching a node\<close>

abbreviation ix_cols :: "ix_file_hdr \<Rightarrow> (coltype \<times> int) list" where
  "ix_cols h \<equiv> zip (col_types h) (col_lens h)"

text \<open>The loop of both searches: \<open>le\<close> distinguishes \<^verbatim>\<open><\<close> from \<^verbatim>\<open><=\<close>.\<close>

function bound_loop :: "ix_file_hdr \<Rightarrow> bool \<Rightarrow> mem \<Rightarrow> bytes \<Rightarrow> int \<Rightarrow> int \<Rightarrow> int" where
  "bound_loop h le m target left right =
     (if left < right then
        let mid = (left + right) div 2;
            c = ix_compare (get_key h m mid) target (ix_cols h)
        in if (if le then c \<le> 0 else c < 0) then bound_loop h le m target (mid + 1) right
           else bound_loop h le m target left mid
      else left)"
  by pat_completeness auto
termination by (relation "measure (\<lambda>(h, le, m, t, l, r). nat (r - l))") auto

declare bound_loop.simps [simp del]

definition node_lower_bound :: "ix_file_hdr \<Rightarrow> mem \<Rightarrow> bytes \<Rightarrow> int" where
  "node_lower_bound h m target = bound_loop h False m target 0 (node_size m)"

definition node_upper_bound :: "ix_file_hdr \<Rightarrow> mem \<Rightarrow> bytes \<Rightarrow> int" where
  "node_upper_bound h m target = bound_loop h True m target 1 (node_size m)"

definition leaf_lookup :: "ix_file_hdr \<Rightarrow> mem \<Rightarrow> bytes \<Rightarrow> rid option" where
  "leaf_lookup h m key =
     (let pos = node_lower_bound h m key
      in if pos = node_size m \<or> ix_compare (get_key h m pos) key (ix_cols h) \<noteq> 0 then None
         else Some (get_rid h m pos))"

definition internal_lookup :: "ix_file_hdr \<Rightarrow> mem \<Rightarrow> bytes \<Rightarrow> int" where
  "internal_lookup h m key = value_at h m (node_upper_bound h m key - 1)"

section \<open>Changing a node\<close>

text \<open>\<^verbatim>\<open>memmove\<close>: the bytes are read before they are written.\<close>

definition memmove :: "nat \<Rightarrow> nat \<Rightarrow> nat \<Rightarrow> mem \<Rightarrow> mem" where
  "memmove dst from n m = mwrite m dst (mread m from n)"

text \<open>\<open>n\<close> keys and \<open>n\<close> record positions, as the bytes at \<^verbatim>\<open>key\<close> and \<^verbatim>\<open>rid\<close>.\<close>

definition insert_pairs :: "ix_file_hdr \<Rightarrow> int \<Rightarrow> bytes \<Rightarrow> bytes \<Rightarrow> int \<Rightarrow> mem \<Rightarrow> mem" where
  "insert_pairs h pos key rid n m =
     (if pos < 0 \<or> pos > node_size m then m
      else let num = node_size m; klen = col_tot_len h;
               m = memmove (key_off h (pos + n)) (key_off h pos) (nat ((num - pos) * klen)) m;
               m = memmove (rid_off h (pos + n)) (rid_off h pos) (nat ((num - pos) * 8)) m;
               m = mwrite m (key_off h pos) (take (nat (n * klen)) key);
               m = mwrite m (rid_off h pos) (take (nat (n * 8)) rid)
           in set_size (node_size m + n) m)"

definition insert_pair :: "ix_file_hdr \<Rightarrow> int \<Rightarrow> bytes \<Rightarrow> rid \<Rightarrow> mem \<Rightarrow> mem" where
  "insert_pair h pos key r m = insert_pairs h pos key (bytes_of_rid r) 1 m"

definition node_insert :: "ix_file_hdr \<Rightarrow> bytes \<Rightarrow> rid \<Rightarrow> mem \<Rightarrow> int \<times> mem" where
  "node_insert h key r m =
     (let pos = node_lower_bound h m key
      in if pos < node_size m \<and> ix_compare (get_key h m pos) key (ix_cols h) = 0 then (node_size m, m)
         else let m' = insert_pair h pos key r m in (node_size m', m'))"

definition erase_pair :: "ix_file_hdr \<Rightarrow> int \<Rightarrow> mem \<Rightarrow> mem" where
  "erase_pair h pos m =
     (if pos < 0 \<or> pos \<ge> node_size m then m
      else let num = node_size m; klen = col_tot_len h;
               m = memmove (key_off h pos) (key_off h (pos + 1)) (nat ((num - pos - 1) * klen)) m;
               m = memmove (rid_off h pos) (rid_off h (pos + 1)) (nat ((num - pos - 1) * 8)) m
           in set_size (node_size m - 1) m)"

definition node_remove :: "ix_file_hdr \<Rightarrow> bytes \<Rightarrow> mem \<Rightarrow> int \<times> mem" where
  "node_remove h key m =
     (let pos = node_lower_bound h m key
      in if pos < node_size m \<and> ix_compare (get_key h m pos) key (ix_cols h) = 0
         then (let m' = erase_pair h pos m in (node_size m', m'))
         else (node_size m, m))"

text \<open>The position of a child's page among the values; \<open>None\<close> is the failed assertion.\<close>

definition find_child :: "ix_file_hdr \<Rightarrow> int \<Rightarrow> mem \<Rightarrow> int option" where
  "find_child h child m = List.find (\<lambda>i. value_at h m i = child) [0..node_size m - 1]"

definition remove_and_return_only_child :: "ix_file_hdr \<Rightarrow> mem \<Rightarrow> (int \<times> mem) option" where
  "remove_and_return_only_child h m =
     (if node_size m \<noteq> 1 then None else Some (value_at h m 0, erase_pair h 0 m))"

section \<open>The header on disk\<close>

definition ix_serialize :: "ix_file_hdr \<Rightarrow> bytes" where
  "ix_serialize h =
     le_encode 4 (tot_len h) @ le_encode 4 (first_free_ix h) @ le_encode 4 (ix_num_pages h) @ le_encode 4 (root_page h) @
     le_encode 4 (col_num h) @ concat (map (\<lambda>t. le_encode 4 (coltype_no t)) (take (nat (col_num h)) (col_types h))) @
     concat (map (le_encode 4) (take (nat (col_num h)) (col_lens h))) @
     le_encode 4 (col_tot_len h) @ le_encode 4 (btree_order h) @ le_encode 4 (keys_size h) @
     le_encode 4 (first_leaf h) @ le_encode 4 (last_leaf h)"

definition read_ints :: "mem \<Rightarrow> nat \<Rightarrow> nat \<Rightarrow> int list" where
  "read_ints m off n = map (\<lambda>i. read_int 4 m (off + 4 * i)) [0..<n]"

definition ix_deserialize :: "mem \<Rightarrow> ix_file_hdr" where
  "ix_deserialize m =
     (let n = nat (read_int 4 m 16); b = 20 + 8 * n
      in \<lparr>first_free_ix = read_int 4 m 4, ix_num_pages = read_int 4 m 8, root_page = read_int 4 m 12,
          col_num = read_int 4 m 16, col_types = map coltype_of_no (read_ints m 20 n),
          col_lens = read_ints m (20 + 4 * n) n, col_tot_len = read_int 4 m b, btree_order = read_int 4 m (b + 4),
          keys_size = read_int 4 m (b + 8), first_leaf = read_int 4 m (b + 12), last_leaf = read_int 4 m (b + 16),
          tot_len = read_int 4 m 0\<rparr>)"


section \<open>Arrays of cells\<close>

text \<open>Shifting the tail of an array of \<open>w\<close>-byte cells at \<open>b\<close> and filling the gap.\<close>

lemma cell_insert:
  fixes b p k n w i :: nat
  assumes "length new = k * w" "p \<le> n" "i < n + k"
    "m' = mwrite (mwrite m (b + (p + k) * w) (mread m (b + p * w) ((n - p) * w))) (b + p * w) new"
  shows "mread m' (b + i * w) w =
    (if i < p then mread m (b + i * w) w else if i < p + k then take w (drop ((i - p) * w) new) else mread m (b + (i - k) * w) w)"
proof -
  consider "i < p" | "p \<le> i" "i < p + k" | "p + k \<le> i" by linarith
  then show ?thesis
  proof cases
    case 1
    then have "(i + 1) * w \<le> p * w" by (intro mult_le_mono1) simp
    with 1 show ?thesis
      by (simp add: assms(4) mem_simps algebra_simps)
  next
    case 2
    then have "(i - p + 1) * w \<le> k * w" by (intro mult_le_mono1) simp
    then have le: "(i - p) * w + w \<le> length new" using assms(1) by simp
    have e: "b + i * w = b + p * w + (i - p) * w" using 2(1) by (metis add.assoc add_mult_distrib le_add_diff_inverse)
    have "mread m' (b + i * w) w = take w (drop ((i - p) * w) new)"
      using le by (auto intro!: nth_equalityI simp: e assms(4) mwrite_def)
    with 2 show ?thesis by simp
  next
    case 3
    define j where "j = i - (p + k)"
    have i: "i = p + k + j" using 3 j_def by simp
    have "(j + 1) * w \<le> (n - p) * w" using assms(3) i by (intro mult_le_mono1) simp
    then have le: "j * w + w \<le> (n - p) * w" by simp
    have e: "b + i * w = b + (p + k) * w + j * w" "b + (i - k) * w = b + p * w + j * w"
      by (simp_all add: i algebra_simps)
    have "mread m' (b + i * w) w = mread m (b + (i - k) * w) w"
      unfolding e using le assms(1)
      by (auto intro!: nth_equalityI simp: assms(4) mwrite_def algebra_simps)
    with 3 show ?thesis by simp
  qed
qed

lemma cell_erase:
  fixes b p n w i :: nat
  assumes "p < n" "i < n - 1" "m' = mwrite m (b + p * w) (mread m (b + (p + 1) * w) ((n - p - 1) * w))"
  shows "mread m' (b + i * w) w = (if i < p then mread m (b + i * w) w else mread m (b + (i + 1) * w) w)"
proof (cases "i < p")
  case True
  then have "(i + 1) * w \<le> p * w" by (intro mult_le_mono1) simp
  with True show ?thesis by (simp add: assms(3) mem_simps algebra_simps)
next
  case False
  define j where "j = i - p"
  have i: "i = p + j" using False j_def by simp
  have "(j + 1) * w \<le> (n - p - 1) * w" using assms(2) i by (intro mult_le_mono1) simp
  then have le: "j * w + w \<le> (n - p - 1) * w" by simp
  have e: "b + i * w = b + p * w + j * w" "b + (i + 1) * w = b + (p + 1) * w + j * w" by (simp_all add: i algebra_simps)
  have "mread m' (b + i * w) w = mread m (b + (i + 1) * w) w"
    unfolding e using le by (auto intro!: nth_equalityI simp: assms(3) mwrite_def algebra_simps)
  with False show ?thesis by simp
qed

section \<open>The entries of a node\<close>

definition ix_layout :: "ix_file_hdr \<Rightarrow> bool" where
  "ix_layout h \<longleftrightarrow> 0 < col_tot_len h \<and> 0 < btree_order h \<and> keys_size h = (btree_order h + 1) * col_tot_len h \<and>
     int IX_PAGE_HDR_SIZE + keys_size h + (btree_order h + 1) * 8 \<le> int PAGE_SIZE"

definition node_fits :: "ix_file_hdr \<Rightarrow> mem \<Rightarrow> bool" where
  "node_fits h m \<longleftrightarrow> 0 \<le> node_size m \<and> node_size m \<le> get_max_size h"

definition node_keys :: "ix_file_hdr \<Rightarrow> mem \<Rightarrow> bytes list" where
  "node_keys h m = map (\<lambda>i. get_key h m (int i)) [0..<nat (node_size m)]"

definition node_rids :: "ix_file_hdr \<Rightarrow> mem \<Rightarrow> rid list" where
  "node_rids h m = map (\<lambda>i. get_rid h m (int i)) [0..<nat (node_size m)]"

definition node_entries :: "ix_file_hdr \<Rightarrow> mem \<Rightarrow> (bytes \<times> rid) list" where
  "node_entries h m = zip (node_keys h m) (node_rids h m)"

lemma length_node [simp]: "length (node_keys h m) = nat (node_size m)" "length (node_rids h m) = nat (node_size m)"
  "length (node_entries h m) = nat (node_size m)"
  by (simp_all add: node_keys_def node_rids_def node_entries_def)

lemma ix_offs:
  assumes "ix_layout h"
  shows "key_off h (int i) = 24 + i * nat (col_tot_len h)"
    "rid_off h (int i) = 24 + (nat (btree_order h) + 1) * nat (col_tot_len h) + i * 8"
    "24 + (nat (btree_order h) + 1) * nat (col_tot_len h) + (nat (btree_order h) + 1) * 8 \<le> PAGE_SIZE"
proof -
  have p: "0 < col_tot_len h" "0 < btree_order h" "keys_size h = (btree_order h + 1) * col_tot_len h"
    using assms by (auto simp: ix_layout_def)
  define c o' where "c = nat (col_tot_len h)" and "o' = nat (btree_order h)"
  have i: "col_tot_len h = int c" "btree_order h = int o'" using p by (simp_all add: c_def o'_def)
  show "key_off h (int i) = 24 + i * nat (col_tot_len h)"
    by (simp add: key_off_def IX_PAGE_HDR_SIZE_def i nat_add_distrib nat_mult_distrib)
  have k: "keys_size h = int ((o' + 1) * c)" using p(3) by (simp add: i algebra_simps)
  have "int IX_PAGE_HDR_SIZE + keys_size h + int i * 8 = int (24 + (o' + 1) * c + i * 8)"
    unfolding k by (simp add: IX_PAGE_HDR_SIZE_def)
  then show "rid_off h (int i) = 24 + (nat (btree_order h) + 1) * nat (col_tot_len h) + i * 8"
    unfolding rid_off_def by (simp only: nat_int i)
  have "int IX_PAGE_HDR_SIZE + keys_size h + (btree_order h + 1) * 8 = int (24 + (o' + 1) * c + (o' + 1) * 8)"
    unfolding k by (simp add: IX_PAGE_HDR_SIZE_def i)
  with assms have "int (24 + (o' + 1) * c + (o' + 1) * 8) \<le> int PAGE_SIZE" by (simp add: ix_layout_def)
  then show "24 + (nat (btree_order h) + 1) * nat (col_tot_len h) + (nat (btree_order h) + 1) * 8 \<le> PAGE_SIZE"
    by (simp only: of_nat_le_iff nat_int i)
qed

text \<open>Cell \<open>i\<close> of the keys and of the positions is away from the header and from the other array.\<close>

lemma ix_apart:
  assumes "ix_layout h" "i \<le> nat (btree_order h)"
  shows "24 \<le> key_off h (int i)" "key_off h (int i) + nat (col_tot_len h) \<le> rid_off h 0" "rid_off h 0 \<le> rid_off h (int i)"
    "rid_off h (int i) + 8 \<le> PAGE_SIZE"
proof -
  have "(i + 1) * nat (col_tot_len h) \<le> (nat (btree_order h) + 1) * nat (col_tot_len h)"
    using assms(2) by (intro mult_le_mono1) simp
  then have "key_off h (int i) + nat (col_tot_len h) \<le> rid_off h (int 0)" by (simp only: ix_offs [OF assms(1)]) simp
  then show "key_off h (int i) + nat (col_tot_len h) \<le> rid_off h 0" by simp
  show "24 \<le> key_off h (int i)" by (simp add: ix_offs(1) [OF assms(1)])
  have "rid_off h (int 0) \<le> rid_off h (int i)" by (simp only: ix_offs(2) [OF assms(1)])
  then show "rid_off h 0 \<le> rid_off h (int i)" by simp
  show "rid_off h (int i) + 8 \<le> PAGE_SIZE"
    unfolding ix_offs(2) [OF assms(1)] by (rule order.trans [OF _ ix_offs(3) [OF assms(1)]]) (use assms(2) in simp)
qed


section \<open>What the changes do to the entries\<close>

lemma get_key_cell: "ix_layout h \<Longrightarrow> get_key h m (int i) = mread m (24 + i * nat (col_tot_len h)) (nat (col_tot_len h))"
  by (simp add: get_key_def ix_offs(1))

definition rids_base :: "ix_file_hdr \<Rightarrow> nat" where
  "rids_base h = 24 + (nat (btree_order h) + 1) * nat (col_tot_len h)"

lemma get_rid_cell: "ix_layout h \<Longrightarrow> get_rid h m (int i) = rid_of_bytes (mread m (rids_base h + i * 8) 8)"
  by (simp add: get_rid_def ix_offs(2) rids_base_def)

lemma rid_bytes_roundtrip: "rid_fits r \<Longrightarrow> rid_of_bytes (bytes_of_rid r) = r"
  by (cases r) (simp add: rid_of_bytes_def bytes_of_rid_def rid_fits_def signed_roundtrip)

text \<open>The two halves of \<open>insert_pairs\<close> do not disturb each other.\<close>

lemma insert_pairs_arrays:
  assumes "ix_layout h" "p \<le> num" "node_size m = int num" "num + k \<le> nat (btree_order h) + 1"
    "length key = k * nat (col_tot_len h)" "length rid = k * 8"
  defines "m' \<equiv> insert_pairs h (int p) key rid (int k) m" and "w \<equiv> nat (col_tot_len h)"
  shows "node_size m' = int num + int k"
    "i < 24 \<Longrightarrow> i < 8 \<or> 12 \<le> i \<Longrightarrow> m' i = m i"
    "i < num + k \<Longrightarrow> get_key h m' (int i) = (if i < p then get_key h m (int i) else if i < p + k then take w (drop ((i - p) * w) key)
      else get_key h m (int i - int k))"
    "i < num + k \<Longrightarrow> get_rid h m' (int i) = (if i < p then get_rid h m (int i)
      else if i < p + k then rid_of_bytes (take 8 (drop ((i - p) * 8) rid)) else get_rid h m (int i - int k))"
proof -
  let ?o = "nat (btree_order h) + 1" and ?B = "rids_base h"
  have w: "col_tot_len h = int w" "0 < w" using assms(1) by (auto simp: w_def ix_layout_def)
  let ?km = "mwrite (mwrite m (24 + (p + k) * w) (mread m (24 + p * w) ((num - p) * w))) (24 + p * w) key"
  let ?rm = "mwrite (mwrite m (?B + (p + k) * 8) (mread m (?B + p * 8) ((num - p) * 8))) (?B + p * 8) rid"
  have d: "int num - int p = int (num - p)" using assms(2) by (simp add: of_nat_diff)
  have len: "nat ((int num - int p) * col_tot_len h) = (num - p) * w" "nat ((int num - int p) * 8) = (num - p) * 8"
    "nat (int k * col_tot_len h) = k * w" "nat (int k * 8) = k * 8"
    unfolding d w(1) by (simp_all add: nat_mult_distrib)
  have off: "key_off h (int p + int k) = 24 + (p + k) * w" "key_off h (int p) = 24 + p * w"
    "rid_off h (int p + int k) = ?B + (p + k) * 8" "rid_off h (int p) = ?B + p * 8"
    using ix_offs(1,2) [OF assms(1), of "p + k"] ix_offs(1,2) [OF assms(1), of p]
    by (simp_all only: w_def rids_base_def of_nat_add)
  have kb: "24 + (num + k) * w \<le> ?B" "24 + num * w \<le> 24 + (num + k) * w"
    unfolding rids_base_def w_def [symmetric] using mult_le_mono1 [OF assms(4), of w] mult_le_mono1 [of num "num + k" w]
    by (simp_all only: add_le_cancel_left le_add1)
  have pk: "(p + k) * w + (num - p) * w = (num + k) * w" "p * w + k * w \<le> (num + k) * w"
    using assms(2) mult_le_mono1 [of "p + k" "num + k" w] by (simp_all flip: add_mult_distrib)
  have m'_eq: "m' = set_size (int num + int k) (mwrite (mwrite (mwrite (mwrite m (24 + (p + k) * w) (mread m (24 + p * w) ((num - p) * w)))
      (?B + (p + k) * 8) (mread m (?B + p * 8) ((num - p) * 8))) (24 + p * w) key) (?B + p * 8) rid)"
  proof -
    have c: "\<not> (int p < 0 \<or> node_size m < int p)" using assms(2,3) by simp
    have r1: "mread (mwrite m (24 + (p + k) * w) (mread m (24 + p * w) ((num - p) * w))) (?B + p * 8) ((num - p) * 8) =
        mread m (?B + p * 8) ((num - p) * 8)"
      using kb(1) pk(1) by (intro mread_mwrite_disjoint) simp
    have sz: "node_size (mwrite (mwrite (mwrite (mwrite m (24 + (p + k) * w) x) (?B + (p + k) * 8) y) (24 + p * w) z) (?B + p * 8) u) =
        int num" for x y z u using kb(1) by (simp add: node_size_def mem_simps assms(3) [unfolded node_size_def])
    have take: "take (k * w) key = key" "take (k * 8) rid = rid" using assms(5,6) w_def by simp_all
    show ?thesis
      unfolding m'_def insert_pairs_def if_not_P [OF c] Let_def memmove_def assms(3) off len r1 sz take
      using assms(2) by simp
  qed
  have "8 * ?o \<le> PAGE_SIZE" using ix_offs(3) [OF assms(1)] by simp
  then have "in_signed 4 (int num + int k)" using assms(4) by (simp add: in_signed_def PAGE_SIZE_def)
  then show "node_size m' = int num + int k" by (simp add: m'_eq node_size_def set_size_def mem_simps)
  have B: "24 \<le> ?B" by (simp add: rids_base_def)
  then show "i < 24 \<Longrightarrow> i < 8 \<or> 12 \<le> i \<Longrightarrow> m' i = m i"
    by (auto simp: m'_eq set_size_def write_int_def mwrite_outside)
  have keys: "m' j = ?km j" if "24 \<le> j" "j < ?B" for j
    using that by (auto simp: m'_eq set_size_def write_int_def mwrite_def)
  have key_end: "24 + (p + k) * w + (num - p) * w \<le> ?B" "24 + p * w + length key \<le> ?B"
    using kb(1) pk assms(5) w_def by simp_all
  have rids: "m' j = ?rm j" if "?B \<le> j" for j
    using that key_end B by (auto simp: m'_eq set_size_def write_int_def mwrite_def)
  assume i: "i < num + k"
  have "(i + 1) * w \<le> (num + k) * w" using i by (intro mult_le_mono1) simp
  then have "24 + i * w + w \<le> ?B" using kb(1) by simp
  then have "mread m' (24 + i * w) w = mread ?km (24 + i * w) w" by (intro mread_cong keys) simp_all
  also have "\<dots> = (if i < p then mread m (24 + i * w) w else if i < p + k then take w (drop ((i - p) * w) key)
      else mread m (24 + (i - k) * w) w)"
    using assms(5) by (intro cell_insert [OF _ assms(2) i refl]) (simp add: w_def)
  finally have cell: "get_key h m' (int i) = \<dots>" by (simp add: get_key_cell [OF assms(1)] w_def)
  have shift: "int i - int k = int (i - k)" if "\<not> i < p + k" using that by (simp add: of_nat_diff)
  show "get_key h m' (int i) = (if i < p then get_key h m (int i) else if i < p + k then take w (drop ((i - p) * w) key)
      else get_key h m (int i - int k))"
  proof (cases "i < p + k")
    case False
    have "get_key h m (int i - int k) = mread m (24 + (i - k) * w) w"
      unfolding shift [OF False] w_def by (rule get_key_cell [OF assms(1)])
    then show ?thesis unfolding cell using False by simp
  next
    case True
    then show ?thesis unfolding cell by (simp add: get_key_cell [OF assms(1)] w_def)
  qed
  have "mread m' (?B + i * 8) 8 = mread ?rm (?B + i * 8) 8" by (intro mread_cong rids) simp
  also have "\<dots> = (if i < p then mread m (?B + i * 8) 8 else if i < p + k then take 8 (drop ((i - p) * 8) rid)
      else mread m (?B + (i - k) * 8) 8)"
    using assms(6) by (intro cell_insert [OF _ assms(2) i refl]) simp
  finally have cell2: "get_rid h m' (int i) = rid_of_bytes \<dots>" by (simp add: get_rid_cell [OF assms(1)])
  show "get_rid h m' (int i) = (if i < p then get_rid h m (int i)
      else if i < p + k then rid_of_bytes (take 8 (drop ((i - p) * 8) rid)) else get_rid h m (int i - int k))"
  proof (cases "i < p + k")
    case False
    have "get_rid h m (int i - int k) = rid_of_bytes (mread m (?B + (i - k) * 8) 8)"
      unfolding shift [OF False] by (rule get_rid_cell [OF assms(1)])
    then show ?thesis unfolding cell2 using False by simp
  next
    case True
    then show ?thesis unfolding cell2 by (simp add: get_rid_cell [OF assms(1)])
  qed
qed


lemma erase_pair_arrays:
  assumes "ix_layout h" "p < num" "node_size m = int num" "num \<le> nat (btree_order h) + 1"
  defines "m' \<equiv> erase_pair h (int p) m" and "w \<equiv> nat (col_tot_len h)"
  shows "node_size m' = int num - 1"
    "i < 24 \<Longrightarrow> i < 8 \<or> 12 \<le> i \<Longrightarrow> m' i = m i"
    "i < num - 1 \<Longrightarrow> get_key h m' (int i) = (if i < p then get_key h m (int i) else get_key h m (int (i + 1)))"
    "i < num - 1 \<Longrightarrow> get_rid h m' (int i) = (if i < p then get_rid h m (int i) else get_rid h m (int (i + 1)))"
proof -
  let ?o = "nat (btree_order h) + 1" and ?B = "rids_base h"
  have w: "col_tot_len h = int w" "0 < w" using assms(1) by (auto simp: w_def ix_layout_def)
  let ?km = "mwrite m (24 + p * w) (mread m (24 + (p + 1) * w) ((num - p - 1) * w))"
  let ?rm = "mwrite m (?B + p * 8) (mread m (?B + (p + 1) * 8) ((num - p - 1) * 8))"
  have d: "int num - int p - 1 = int (num - p - 1)" using assms(2) by (simp add: of_nat_diff)
  have len: "nat ((int num - int p - 1) * col_tot_len h) = (num - p - 1) * w" "nat ((int num - int p - 1) * 8) = (num - p - 1) * 8"
    unfolding d w(1) by (simp_all add: nat_mult_distrib)
  have off: "key_off h (int p + 1) = 24 + (p + 1) * w" "key_off h (int p) = 24 + p * w"
    "rid_off h (int p + 1) = ?B + (p + 1) * 8" "rid_off h (int p) = ?B + p * 8"
    using ix_offs(1,2) [OF assms(1), of "p + 1"] ix_offs(1,2) [OF assms(1), of p]
    by (simp_all only: w_def rids_base_def of_nat_add of_nat_1)
  have kb: "24 + num * w \<le> ?B"
    unfolding rids_base_def w_def [symmetric] using mult_le_mono1 [OF assms(4), of w] by (simp only: add_le_cancel_left)
  have "p + 1 + (num - p - 1) = num" using assms(2) by simp
  then have pk: "(p + 1) * w + (num - p - 1) * w = num * w" by (metis add_mult_distrib)
  have m'_eq: "m' = set_size (int num - 1) (mwrite (mwrite m (24 + p * w) (mread m (24 + (p + 1) * w) ((num - p - 1) * w)))
      (?B + p * 8) (mread m (?B + (p + 1) * 8) ((num - p - 1) * 8)))"
  proof -
    have r1: "mread (mwrite m (24 + p * w) (mread m (24 + (p + 1) * w) ((num - p - 1) * w))) (?B + (p + 1) * 8) ((num - p - 1) * 8) =
        mread m (?B + (p + 1) * 8) ((num - p - 1) * 8)"
      using kb pk w(2) by (intro mread_mwrite_disjoint) simp
    have sz: "node_size (mwrite (mwrite m (24 + p * w) x) (?B + p * 8) y) = int num" for x y
      using kb by (simp add: node_size_def mem_simps assms(3) [unfolded node_size_def])
    show ?thesis
      unfolding m'_def erase_pair_def Let_def memmove_def assms(3) off len r1 sz using assms(2) by simp
  qed
  have "8 * ?o \<le> PAGE_SIZE" using ix_offs(3) [OF assms(1)] by simp
  then have "in_signed 4 (int num - 1)" using assms(4) by (simp add: in_signed_def PAGE_SIZE_def)
  then show "node_size m' = int num - 1" by (simp add: m'_eq node_size_def set_size_def mem_simps)
  have B: "24 \<le> ?B" by (simp add: rids_base_def)
  then show "i < 24 \<Longrightarrow> i < 8 \<or> 12 \<le> i \<Longrightarrow> m' i = m i"
    by (auto simp: m'_eq set_size_def write_int_def mwrite_outside)
  have keys: "m' j = ?km j" if "24 \<le> j" "j < ?B" for j
    using that by (auto simp: m'_eq set_size_def write_int_def mwrite_def)
  have key_end: "24 + p * w + (num - p - 1) * w \<le> ?B" using kb pk by simp
  have rids: "m' j = ?rm j" if "?B \<le> j" for j
    using that key_end B by (auto simp: m'_eq set_size_def write_int_def mwrite_def)
  assume i: "i < num - 1"
  have "(i + 1) * w \<le> num * w" using i by (intro mult_le_mono1) simp
  then have "24 + i * w + w \<le> ?B" using kb by simp
  then have "mread m' (24 + i * w) w = mread ?km (24 + i * w) w" by (intro mread_cong keys) simp_all
  also have "\<dots> = (if i < p then mread m (24 + i * w) w else mread m (24 + (i + 1) * w) w)"
    by (rule cell_erase [OF assms(2) i refl])
  finally show "get_key h m' (int i) = (if i < p then get_key h m (int i) else get_key h m (int (i + 1)))"
    unfolding get_key_cell [OF assms(1)] w_def .
  have "mread m' (?B + i * 8) 8 = mread ?rm (?B + i * 8) 8" by (intro mread_cong rids) simp
  also have "\<dots> = (if i < p then mread m (?B + i * 8) 8 else mread m (?B + (i + 1) * 8) 8)"
    by (rule cell_erase [OF assms(2) i refl])
  finally have "get_rid h m' (int i) = rid_of_bytes \<dots>" by (simp only: get_rid_cell [OF assms(1)])
  then show "get_rid h m' (int i) = (if i < p then get_rid h m (int i) else get_rid h m (int (i + 1)))"
    unfolding get_rid_cell [OF assms(1)] by (simp only: if_distrib)
qed

text \<open>On the lists: one entry inserted, one entry removed.\<close>

lemma node_entries_nth: "i < nat (node_size m) \<Longrightarrow> node_entries h m ! i = (get_key h m (int i), get_rid h m (int i))"
  by (simp add: node_entries_def node_keys_def node_rids_def)

lemma insert_pair_entries:
  assumes "ix_layout h" "p \<le> nat (node_size m)" "0 \<le> node_size m" "node_size m < get_max_size h"
    "length key = nat (col_tot_len h)" "rid_fits r"
  shows "node_entries h (insert_pair h (int p) key r m) = take p (node_entries h m) @ (key, r) # drop p (node_entries h m)"
    "node_size (insert_pair h (int p) key r m) = node_size m + 1"
    "i < 24 \<Longrightarrow> i < 8 \<or> 12 \<le> i \<Longrightarrow> insert_pair h (int p) key r m i = m i"
proof -
  let ?num = "nat (node_size m)" and ?m = "insert_pair h (int p) key r m"
  have n: "node_size m = int ?num" "?num + 1 \<le> nat (btree_order h) + 1" using assms(3,4) by (auto simp: get_max_size_def)
  have len: "length key = 1 * nat (col_tot_len h)" "length (bytes_of_rid r) = 1 * 8" using assms(5) by (simp_all add: bytes_of_rid_def)
  note a = insert_pairs_arrays [OF assms(1,2) n len, folded insert_pair_def [of h "int p" key r m, folded of_nat_1 [where ?'a = int]]]
  show sz: "node_size ?m = node_size m + 1" using a(1) n(1) by simp
  show "i < 24 \<Longrightarrow> i < 8 \<or> 12 \<le> i \<Longrightarrow> ?m i = m i" by (rule a(2))
  show "node_entries h ?m = take p (node_entries h m) @ (key, r) # drop p (node_entries h m)"
  proof (rule nth_equalityI)
    show "length (node_entries h ?m) = length (take p (node_entries h m) @ (key, r) # drop p (node_entries h m))"
      using sz assms(2,3) by simp
    fix i assume "i < length (node_entries h ?m)"
    then have i: "i < ?num + 1" using sz assms(3) by simp
    then have e: "node_entries h ?m ! i = (get_key h ?m (int i), get_rid h ?m (int i))" by (intro node_entries_nth) (use sz assms(3) in simp)
    note cells = a(3,4) [OF i] and len_p = assms(2)
    consider "i < p" | "i = p" | "p < i" by linarith
    then show "node_entries h ?m ! i = (take p (node_entries h m) @ (key, r) # drop p (node_entries h m)) ! i"
    proof cases
      case 1
      have "i < ?num" using 1 len_p by simp
      then have "node_entries h m ! i = (get_key h m (int i), get_rid h m (int i))" by (rule node_entries_nth)
      moreover have "node_entries h ?m ! i = (get_key h m (int i), get_rid h m (int i))" using e cells 1 by simp
      ultimately show ?thesis using 1 len_p by (simp add: nth_append)
    next
      case 2
      have "node_entries h ?m ! i = (key, r)"
        using e cells 2 assms(5) rid_bytes_roundtrip [OF assms(6)] by (simp add: bytes_of_rid_def)
      then show ?thesis using 2 len_p by (simp add: nth_append)
    next
      case 3
      have "i - 1 < ?num" using 3 i by simp
      then have "node_entries h m ! (i - 1) = (get_key h m (int (i - 1)), get_rid h m (int (i - 1)))" by (rule node_entries_nth)
      moreover have "int (i - 1) = int i - int 1" using 3 by simp
      moreover have "\<not> i < p" "\<not> i < p + 1" using 3 by simp_all
      ultimately have "node_entries h ?m ! i = node_entries h m ! (i - 1)" unfolding e cells by simp
      moreover have "p + (i - p - 1) = i - 1" using 3 by simp
      moreover have "i - p = Suc (i - p - 1)" using 3 by simp
      ultimately show ?thesis using 3 len_p by (simp add: nth_append)
    qed
  qed
qed


lemma erase_pair_entries:
  assumes "ix_layout h" "p < nat (node_size m)" "node_size m \<le> get_max_size h"
  shows "node_entries h (erase_pair h (int p) m) = take p (node_entries h m) @ drop (Suc p) (node_entries h m)"
    "node_size (erase_pair h (int p) m) = node_size m - 1"
    "i < 24 \<Longrightarrow> i < 8 \<or> 12 \<le> i \<Longrightarrow> erase_pair h (int p) m i = m i"
proof -
  let ?num = "nat (node_size m)" and ?m = "erase_pair h (int p) m"
  have n: "node_size m = int ?num" "?num \<le> nat (btree_order h) + 1" using assms(2,3) by (auto simp: get_max_size_def)
  note a = erase_pair_arrays [OF assms(1,2) n]
  show sz: "node_size ?m = node_size m - 1" using a(1) n(1) by simp
  show "i < 24 \<Longrightarrow> i < 8 \<or> 12 \<le> i \<Longrightarrow> ?m i = m i" by (rule a(2))
  show "node_entries h ?m = take p (node_entries h m) @ drop (Suc p) (node_entries h m)"
  proof (rule nth_equalityI)
    show "length (node_entries h ?m) = length (take p (node_entries h m) @ drop (Suc p) (node_entries h m))"
      using sz assms(2) by simp
    fix i assume "i < length (node_entries h ?m)"
    then have i: "i < ?num - 1" using sz by simp
    then have "node_entries h ?m ! i = (get_key h ?m (int i), get_rid h ?m (int i))" by (intro node_entries_nth) (use sz in simp)
    then have e: "node_entries h ?m ! i = (if i < p then node_entries h m ! i else node_entries h m ! (i + 1))"
      using a(3,4) [OF i] i node_entries_nth [of i m h] node_entries_nth [of "i + 1" m h] by simp
    show "node_entries h ?m ! i = (take p (node_entries h m) @ drop (Suc p) (node_entries h m)) ! i"
      unfolding e using assms(2) i by (simp add: nth_append)
  qed
qed

section \<open>Searching\<close>

definition keys_ok :: "ix_file_hdr \<Rightarrow> bytes list \<Rightarrow> bool" where
  "keys_ok h ks \<longleftrightarrow> (\<forall>k \<in> set ks. key_ok (ix_cols h) k)"

abbreviation key_less :: "ix_file_hdr \<Rightarrow> bytes \<Rightarrow> bytes \<Rightarrow> bool" where
  "key_less h a b \<equiv> ix_compare a b (ix_cols h) < 0"

definition keys_sorted :: "ix_file_hdr \<Rightarrow> bytes list \<Rightarrow> bool" where
  "keys_sorted h ks \<longleftrightarrow> keys_ok h ks \<and> sorted_wrt (key_less h) ks"

lemma node_key_nth: "i < nat (node_size m) \<Longrightarrow> get_key h m (int i) = node_keys h m ! i"
  by (simp add: node_keys_def)

text \<open>The loop ends at the first position of its range where the test fails, if the test is monotone.\<close>

lemma bound_loop_spec:
  assumes "0 \<le> left" "left \<le> right"
    "\<And>i j. left \<le> i \<Longrightarrow> i \<le> j \<Longrightarrow> j < right \<Longrightarrow> P (get_key h m j) \<Longrightarrow> P (get_key h m i)"
    "P = (\<lambda>k. if le then ix_compare k target (ix_cols h) \<le> 0 else ix_compare k target (ix_cols h) < 0)"
  shows "left \<le> bound_loop h le m target left right \<and> bound_loop h le m target left right \<le> right \<and>
    (\<forall>i. left \<le> i \<and> i < bound_loop h le m target left right \<longrightarrow> P (get_key h m i)) \<and>
    (\<forall>i. bound_loop h le m target left right \<le> i \<and> i < right \<longrightarrow> \<not> P (get_key h m i))"
  using assms(1-3)
proof (induction "nat (right - left)" arbitrary: left right rule: less_induct)
  case less
  show ?case
  proof (cases "left < right")
    case False
    then have "bound_loop h le m target left right = left" by (simp add: bound_loop.simps [of h le m target left])
    with False less.prems(2) show ?thesis by auto
  next
    case True
    let ?mid = "(left + right) div 2"
    have mid: "left \<le> ?mid" "?mid < right" using True by auto
    show ?thesis
    proof (cases "P (get_key h m ?mid)")
      case p: True
      then have e: "bound_loop h le m target left right = bound_loop h le m target (?mid + 1) right"
        using True by (simp add: bound_loop.simps [of h le m target left] assms(4) Let_def)
      have "nat (right - (?mid + 1)) < nat (right - left)" using mid by linarith
      from less.hyps [OF this] less.prems mid p
      have ih: "?mid + 1 \<le> bound_loop h le m target (?mid + 1) right \<and> bound_loop h le m target (?mid + 1) right \<le> right \<and>
        (\<forall>i. ?mid + 1 \<le> i \<and> i < bound_loop h le m target (?mid + 1) right \<longrightarrow> P (get_key h m i)) \<and>
        (\<forall>i. bound_loop h le m target (?mid + 1) right \<le> i \<and> i < right \<longrightarrow> \<not> P (get_key h m i))"
        by auto
      have "P (get_key h m i)" if "left \<le> i" "i < ?mid + 1" for i
        using less.prems(3) [of i ?mid] that mid p by simp
      then have "P (get_key h m i)" if "left \<le> i" "i < bound_loop h le m target (?mid + 1) right" for i
        using ih that by (cases "i < ?mid + 1") simp_all
      moreover have "left \<le> bound_loop h le m target (?mid + 1) right" using ih mid(1) by linarith
      ultimately show ?thesis unfolding e using ih by blast
    next
      case p: False
      then have e: "bound_loop h le m target left right = bound_loop h le m target left ?mid"
        using True by (simp add: bound_loop.simps [of h le m target left] assms(4) Let_def)
      have "nat (?mid - left) < nat (right - left)" using mid by linarith
      from less.hyps [OF this] less.prems mid
      have ih: "left \<le> bound_loop h le m target left ?mid \<and> bound_loop h le m target left ?mid \<le> ?mid \<and>
        (\<forall>i. left \<le> i \<and> i < bound_loop h le m target left ?mid \<longrightarrow> P (get_key h m i)) \<and>
        (\<forall>i. bound_loop h le m target left ?mid \<le> i \<and> i < ?mid \<longrightarrow> \<not> P (get_key h m i))"
        by auto
      have "\<not> P (get_key h m i)" if "?mid \<le> i" "i < right" for i
        using less.prems(3) [of ?mid i] that mid p by auto
      then have "\<not> P (get_key h m i)" if "bound_loop h le m target left ?mid \<le> i" "i < right" for i
        using ih that by (cases "i < ?mid") simp_all
      moreover have "bound_loop h le m target left ?mid \<le> right" using ih mid(2) by linarith
      ultimately show ?thesis unfolding e using ih by blast
    qed
  qed
qed


section \<open>A node as a sorted association list\<close>

abbreviation same_key :: "ix_file_hdr \<Rightarrow> bytes \<Rightarrow> bytes \<Rightarrow> bool" where
  "same_key h a b \<equiv> ix_compare a b (ix_cols h) = 0"

definition ix_find :: "ix_file_hdr \<Rightarrow> bytes \<Rightarrow> (bytes \<times> rid) list \<Rightarrow> rid option" where
  "ix_find h key es = map_option snd (List.find (\<lambda>e. same_key h (fst e) key) es)"

definition ix_ins :: "ix_file_hdr \<Rightarrow> bytes \<Rightarrow> rid \<Rightarrow> (bytes \<times> rid) list \<Rightarrow> (bytes \<times> rid) list" where
  "ix_ins h key r es =
     (if \<exists>e \<in> set es. same_key h (fst e) key then es
      else takeWhile (\<lambda>e. key_less h (fst e) key) es @ (key, r) # dropWhile (\<lambda>e. key_less h (fst e) key) es)"

definition ix_del :: "ix_file_hdr \<Rightarrow> bytes \<Rightarrow> (bytes \<times> rid) list \<Rightarrow> (bytes \<times> rid) list" where
  "ix_del h key es = filter (\<lambda>e. \<not> same_key h (fst e) key) es"

definition entries_ok :: "ix_file_hdr \<Rightarrow> (bytes \<times> rid) list \<Rightarrow> bool" where
  "entries_ok h es \<longleftrightarrow> keys_sorted h (map fst es)"

lemma entries_ok_append:
  "entries_ok h (xs @ ys) \<longleftrightarrow> entries_ok h xs \<and> entries_ok h ys \<and> (\<forall>x \<in> set xs. \<forall>y \<in> set ys. key_less h (fst x) (fst y))"
  by (auto simp: entries_ok_def keys_sorted_def keys_ok_def sorted_wrt_append)

lemma entries_ok_Cons:
  "entries_ok h (x # xs) \<longleftrightarrow> key_ok (ix_cols h) (fst x) \<and> (\<forall>y \<in> set xs. key_less h (fst x) (fst y)) \<and> entries_ok h xs"
  by (auto simp: entries_ok_def keys_sorted_def keys_ok_def)

lemma entries_key_ok: "entries_ok h es \<Longrightarrow> e \<in> set es \<Longrightarrow> key_ok (ix_cols h) (fst e)"
  by (auto simp: entries_ok_def keys_sorted_def keys_ok_def)

text \<open>Around a key a sorted list has the smaller entries, at most one equal entry, and the larger ones.\<close>

lemma split_at_key:
  assumes "entries_ok h es" "key_ok (ix_cols h) key"
    "L = takeWhile (\<lambda>e. key_less h (fst e) key) es" "R = dropWhile (\<lambda>e. key_less h (fst e) key) es"
  shows "es = L @ R" "\<forall>e \<in> set L. key_less h (fst e) key"
    "R = [] \<or> (\<exists>e R'. R = e # R' \<and> \<not> key_less h (fst e) key \<and> (\<forall>e' \<in> set R'. key_less h key (fst e')))"
proof -
  show e: "es = L @ R" by (simp add: assms(3,4))
  show "\<forall>e \<in> set L. key_less h (fst e) key" by (auto simp: assms(3) dest: set_takeWhileD)
  show "R = [] \<or> (\<exists>e R'. R = e # R' \<and> \<not> key_less h (fst e) key \<and> (\<forall>e' \<in> set R'. key_less h key (fst e')))"
  proof (cases R)
    case (Cons e R')
    then have ge: "\<not> key_less h (fst e) key" using assms(4) by (metis hd_dropWhile list.distinct(1) list.sel(1))
    have ok: "entries_ok h (e # R')" using assms(1) e Cons by (simp add: entries_ok_append)
    have "key_less h key (fst e')" if "e' \<in> set R'" for e'
    proof -
      have k: "key_ok (ix_cols h) (fst e)" "key_ok (ix_cols h) (fst e')" "key_less h (fst e) (fst e')"
        using ok that entries_key_ok [of h R' e'] by (auto simp: entries_ok_Cons)
      have "ix_compare key (fst e) (ix_cols h) \<le> 0" using ge key.cmp_flip [OF assms(2) k(1)] by simp
      then show ?thesis by (rule key.cmp_le_less_trans [OF assms(2) k(1,2) _ k(3)])
    qed
    with Cons ge show ?thesis by simp
  qed simp
qed

lemma key_less_irrefl: "key_ok (ix_cols h) a \<Longrightarrow> \<not> key_less h a a"
  using key.cmp_refl [of "ix_cols h" a] by simp

lemma key_less_not_same:
  "key_ok (ix_cols h) a \<Longrightarrow> key_ok (ix_cols h) b \<Longrightarrow> key_less h b a \<Longrightarrow> \<not> same_key h a b \<and> \<not> key_less h a b"
  using key.cmp_anti [of "ix_cols h" a b] key.cmp_anti [of "ix_cols h" b a] by auto

text \<open>What the three operations of the association list do at the split.\<close>

lemma ops_at_split:
  assumes "entries_ok h es" "key_ok (ix_cols h) key"
    "L = takeWhile (\<lambda>e. key_less h (fst e) key) es" "R = dropWhile (\<lambda>e. key_less h (fst e) key) es"
    "hit = (R \<noteq> [] \<and> same_key h (fst (hd R)) key)"
  shows "ix_find h key es = (if hit then Some (snd (hd R)) else None)"
    "ix_ins h key r es = (if hit then es else L @ (key, r) # R)"
    "ix_del h key es = (if hit then L @ tl R else es)"
proof -
  note sp = split_at_key [OF assms(1-4)]
  have ok: "entries_ok h (L @ R)" using assms(1) sp(1) by simp
  have L: "\<not> same_key h (fst e) key" if "e \<in> set L" for e using sp(2) that by auto
  have tl: "\<not> same_key h (fst e) key" if "e \<in> set (tl R)" for e
  proof -
    from sp(3) that have "key_less h key (fst e)" by (cases R) auto
    moreover have "key_ok (ix_cols h) (fst e)" using ok that by (cases R) (auto intro: entries_key_ok simp: entries_ok_append)
    ultimately show ?thesis using key_less_not_same [OF _ assms(2)] by blast
  qed
  have noneL: "List.find (\<lambda>e. same_key h (fst e) key) L = None" unfolding find_None_iff using L by blast
  have "List.find (\<lambda>e. same_key h (fst e) key) (L @ R) = (if hit then Some (hd R) else None)"
  proof -
    have "List.find (\<lambda>e. same_key h (fst e) key) (L @ R) = List.find (\<lambda>e. same_key h (fst e) key) R"
      using noneL by (induction L) (auto split: if_splits)
    also have "\<dots> = (if hit then Some (hd R) else None)"
      using tl assms(5) by (cases R) (auto simp: find_None_iff)
    finally show ?thesis .
  qed
  then show "ix_find h key es = (if hit then Some (snd (hd R)) else None)" by (simp add: ix_find_def sp(1))
  have ex: "(\<exists>e \<in> set es. same_key h (fst e) key) \<longleftrightarrow> hit"
    using L tl assms(5) by (cases R) (auto simp: sp(1))
  show "ix_ins h key r es = (if hit then es else L @ (key, r) # R)"
    unfolding ix_ins_def ex assms(3) [symmetric] assms(4) [symmetric] ..
  have fL: "filter (\<lambda>e. \<not> same_key h (fst e) key) L = L" by (rule filter_True) (use L in blast)
  have fR: "filter (\<lambda>e. \<not> same_key h (fst e) key) R = (if hit then tl R else R)"
    using tl assms(5) by (cases R) auto
  show "ix_del h key es = (if hit then L @ tl R else es)"
    unfolding ix_del_def by (subst (1 2) sp(1)) (simp add: fL fR)
qed

section \<open>The operations of a node refine those of the list\<close>

definition node_ok :: "ix_file_hdr \<Rightarrow> mem \<Rightarrow> bool" where
  "node_ok h m \<longleftrightarrow> ix_layout h \<and> node_fits h m \<and> entries_ok h (node_entries h m)"

lemma node_keys_fst: "map fst (node_entries h m) = node_keys h m"
  by (simp add: node_entries_def)

lemma node_lower_bound_split:
  assumes "node_ok h m" "key_ok (ix_cols h) key"
  shows "node_lower_bound h m key = int (length (takeWhile (\<lambda>e. key_less h (fst e) key) (node_entries h m)))"
proof -
  let ?P = "\<lambda>k. key_less h k key" and ?es = "node_entries h m" and ?n = "node_size m"
  have n: "0 \<le> ?n" and ok: "entries_ok h ?es" using assms(1) by (auto simp: node_ok_def node_fits_def)
  have key: "get_key h m i = fst (?es ! nat i)" "nat i < length ?es" if "0 \<le> i" "i < ?n" for i
  proof -
    have "nat i < nat (node_size m)" using that by (simp add: nat_mono_iff)
    from node_entries_nth [OF this] show "get_key h m i = fst (?es ! nat i)" "nat i < length ?es" using that by simp_all
  qed
  have mono: "?P (get_key h m i)" if "0 \<le> i" "i \<le> j" "j < ?n" "?P (get_key h m j)" for i j
  proof (cases "i = j")
    case False
    have "nat i < nat j" using that False by simp
    then have "key_less h (fst (?es ! nat i)) (fst (?es ! nat j))"
      using ok key [of j] that sorted_wrt_nth_less [of "key_less h" "map fst ?es" "nat i" "nat j"]
      by (simp add: entries_ok_def keys_sorted_def)
    then have "key_less h (get_key h m i) (get_key h m j)" using key [of i] key [of j] that by simp
    moreover have "key_ok (ix_cols h) (get_key h m i)" "key_ok (ix_cols h) (get_key h m j)"
      using key [of i] key [of j] that entries_key_ok [OF ok] by simp_all
    ultimately show ?thesis using key.cmp_less_trans [OF _ _ assms(2)] that(4) by blast
  qed (use that in simp)
  let ?b = "node_lower_bound h m key"
  have "?P = (\<lambda>k. if False then ix_compare k key (ix_cols h) \<le> 0 else ix_compare k key (ix_cols h) < 0)" by simp
  from bound_loop_spec [where m = m and left = 0 and right = "?n" and P = ?P and le = False and target = key and h = h,
      OF order_refl n mono this]
  have b: "0 \<le> ?b" "?b \<le> ?n" "\<forall>i. 0 \<le> i \<and> i < ?b \<longrightarrow> ?P (get_key h m i)" "\<forall>i. ?b \<le> i \<and> i < ?n \<longrightarrow> \<not> ?P (get_key h m i)"
    by (auto simp: node_lower_bound_def)
  have "takeWhile (\<lambda>e. ?P (fst e)) ?es = take (nat ?b) ?es"
  proof (rule takeWhile_eq_take_P_nth)
    fix i assume i: "i < nat ?b" "i < length ?es"
    then have "int i < ?b" by linarith
    have "int i < ?n" using i(2) by (simp add: zless_nat_eq_int_zless)
    then have "?P (get_key h m (int i))" using b(3) \<open>int i < ?b\<close> by simp
    then show "?P (fst (?es ! i))" using key [of "int i"] \<open>int i < ?n\<close> by simp
  next
    assume "nat ?b < length ?es"
    then have "?b < ?n" using b(1) by simp
    then have "\<not> ?P (get_key h m ?b)" using b(4) by blast
    then show "\<not> ?P (fst (?es ! nat ?b))" using key(1) [OF b(1) \<open>?b < ?n\<close>] by simp
  qed
  then show ?thesis using b(1,2) by simp
qed


text \<open>The position the search gives is where the list splits.\<close>

lemma node_split:
  assumes "node_ok h m" "key_ok (ix_cols h) key"
  obtains p where "node_lower_bound h m key = int p" "p \<le> nat (node_size m)"
    "takeWhile (\<lambda>e. key_less h (fst e) key) (node_entries h m) = take p (node_entries h m)"
    "dropWhile (\<lambda>e. key_less h (fst e) key) (node_entries h m) = drop p (node_entries h m)"
proof -
  let ?p = "length (takeWhile (\<lambda>e. key_less h (fst e) key) (node_entries h m))"
  have "?p \<le> nat (node_size m)" using length_takeWhile_le [of _ "node_entries h m"] by simp
  then show thesis
    by (rule that [OF node_lower_bound_split [OF assms] _ takeWhile_eq_take dropWhile_eq_drop])
qed

lemma node_hit:
  assumes "node_ok h m" "p \<le> nat (node_size m)"
  shows "int p < node_size m \<and> ix_compare (get_key h m (int p)) key (ix_cols h) = 0 \<longleftrightarrow>
    drop p (node_entries h m) \<noteq> [] \<and> same_key h (fst (hd (drop p (node_entries h m)))) key"
proof (cases "p < nat (node_size m)")
  case True
  then have "hd (drop p (node_entries h m)) = (get_key h m (int p), get_rid h m (int p))"
    by (simp add: hd_drop_conv_nth node_entries_nth)
  moreover have "int p < node_size m" using True by linarith
  ultimately show ?thesis using True by simp
next
  case False
  with assms show ?thesis by (auto simp: node_ok_def node_fits_def)
qed

lemma leaf_lookup_entries:
  assumes "node_ok h m" "key_ok (ix_cols h) key"
  shows "leaf_lookup h m key = ix_find h key (node_entries h m)"
proof -
  from node_split [OF assms] obtain p where p: "node_lower_bound h m key = int p" "p \<le> nat (node_size m)"
    "takeWhile (\<lambda>e. key_less h (fst e) key) (node_entries h m) = take p (node_entries h m)"
    "dropWhile (\<lambda>e. key_less h (fst e) key) (node_entries h m) = drop p (node_entries h m)" by blast
  have n: "0 \<le> node_size m" "entries_ok h (node_entries h m)" using assms(1) by (auto simp: node_ok_def node_fits_def)
  note ops = ops_at_split(1) [OF n(2) assms(2) p(3,4) [symmetric] refl]
  have "int p = node_size m \<longleftrightarrow> \<not> int p < node_size m" using p(2) n(1) by auto
  then have "leaf_lookup h m key = (if int p < node_size m \<and> ix_compare (get_key h m (int p)) key (ix_cols h) = 0
      then Some (get_rid h m (int p)) else None)"
    by (simp add: leaf_lookup_def p(1) Let_def)
  also have "\<dots> = ix_find h key (node_entries h m)"
    unfolding node_hit [OF assms(1) p(2)] ops
    using node_entries_nth [of p m h] by (cases "p < nat (node_size m)") (simp_all add: hd_drop_conv_nth)
  finally show ?thesis .
qed

lemma node_insert_entries:
  assumes "node_ok h m" "key_ok (ix_cols h) key" "node_size m < get_max_size h" "rid_fits r"
    "length key = nat (col_tot_len h)" "node_insert h key r m = (n, m')"
  shows "node_entries h m' = ix_ins h key r (node_entries h m)" "n = node_size m'" "node_size m' \<in> {node_size m, node_size m + 1}"
    "i < 24 \<Longrightarrow> i < 8 \<or> 12 \<le> i \<Longrightarrow> m' i = m i"
    "(n = node_size m) \<longleftrightarrow> ix_find h key (node_entries h m) \<noteq> None" "ix_find h key (node_entries h m) \<noteq> None \<Longrightarrow> m' = m"
proof -
  from node_split [OF assms(1,2)] obtain p where p: "node_lower_bound h m key = int p" "p \<le> nat (node_size m)"
    "takeWhile (\<lambda>e. key_less h (fst e) key) (node_entries h m) = take p (node_entries h m)"
    "dropWhile (\<lambda>e. key_less h (fst e) key) (node_entries h m) = drop p (node_entries h m)" by blast
  have ok: "0 \<le> node_size m" "entries_ok h (node_entries h m)" "ix_layout h" using assms(1) by (auto simp: node_ok_def node_fits_def)
  note ops = ops_at_split [OF ok(2) assms(2) p(3,4) [symmetric] refl]
  note hit = node_hit [OF assms(1) p(2), of key]
  note ins = insert_pair_entries [OF ok(3) p(2) ok(1) assms(3,5,4)]
  show "node_entries h m' = ix_ins h key r (node_entries h m)" "n = node_size m'" "node_size m' \<in> {node_size m, node_size m + 1}"
    "i < 24 \<Longrightarrow> i < 8 \<or> 12 \<le> i \<Longrightarrow> m' i = m i" "(n = node_size m) \<longleftrightarrow> ix_find h key (node_entries h m) \<noteq> None"
    "ix_find h key (node_entries h m) \<noteq> None \<Longrightarrow> m' = m"
    using assms(6) ins unfolding node_insert_def p(1) Let_def hit ops by (auto split: if_splits)
qed

lemma node_remove_entries:
  assumes "node_ok h m" "key_ok (ix_cols h) key" "node_remove h key m = (n, m')"
  shows "node_entries h m' = ix_del h key (node_entries h m)" "n = node_size m'" "node_size m' \<in> {node_size m, node_size m - 1}"
    "i < 24 \<Longrightarrow> i < 8 \<or> 12 \<le> i \<Longrightarrow> m' i = m i"
    "(n = node_size m) \<longleftrightarrow> ix_find h key (node_entries h m) = None"
proof -
  from node_split [OF assms(1,2)] obtain p where p: "node_lower_bound h m key = int p" "p \<le> nat (node_size m)"
    "takeWhile (\<lambda>e. key_less h (fst e) key) (node_entries h m) = take p (node_entries h m)"
    "dropWhile (\<lambda>e. key_less h (fst e) key) (node_entries h m) = drop p (node_entries h m)" by blast
  have ok: "node_size m \<le> get_max_size h" "entries_ok h (node_entries h m)" "ix_layout h" using assms(1) by (auto simp: node_ok_def node_fits_def)
  note ops = ops_at_split [OF ok(2) assms(2) p(3,4) [symmetric] refl]
  note hit = node_hit [OF assms(1) p(2), of key]
  have del: "p < nat (node_size m) \<Longrightarrow> node_entries h (erase_pair h (int p) m) = take p (node_entries h m) @ tl (drop p (node_entries h m))"
    "p < nat (node_size m) \<Longrightarrow> node_size (erase_pair h (int p) m) = node_size m - 1"
    "p < nat (node_size m) \<Longrightarrow> i < 24 \<Longrightarrow> i < 8 \<or> 12 \<le> i \<Longrightarrow> erase_pair h (int p) m i = m i"
    using erase_pair_entries [OF ok(3) _ ok(1), of p] by (simp_all add: drop_Suc tl_drop)
  show "node_entries h m' = ix_del h key (node_entries h m)" "n = node_size m'" "node_size m' \<in> {node_size m, node_size m - 1}"
    "i < 24 \<Longrightarrow> i < 8 \<or> 12 \<le> i \<Longrightarrow> m' i = m i" "(n = node_size m) \<longleftrightarrow> ix_find h key (node_entries h m) = None"
    using assms(3) del unfolding node_remove_def p(1) Let_def hit ops by (auto split: if_splits)
qed


lemma ix_ins_ok:
  assumes "entries_ok h es" "key_ok (ix_cols h) key"
  shows "entries_ok h (ix_ins h key r es)"
proof (cases "\<exists>e \<in> set es. same_key h (fst e) key")
  case False
  define L R where "L = takeWhile (\<lambda>e. key_less h (fst e) key) es" and "R = dropWhile (\<lambda>e. key_less h (fst e) key) es"
  note sp = split_at_key [OF assms this]
  have ok: "entries_ok h L" "entries_ok h R" using assms(1) unfolding sp(1) entries_ok_append by simp_all
  have "key_less h key (fst e)" if e: "e \<in> set R" for e
  proof -
    have "key_ok (ix_cols h) (fst e)" by (rule entries_key_ok [OF ok(2) e])
    moreover have "\<not> same_key h (fst e) key" using False e sp(1) by auto
    moreover have "\<not> key_less h (fst e) key \<or> key_less h key (fst e)" using sp(3) e by auto
    ultimately show ?thesis using key.cmp_anti [of "ix_cols h" key "fst e"] assms(2) by linarith
  qed
  moreover have "\<forall>x \<in> set L. \<forall>y \<in> set R. key_less h (fst x) (fst y)"
    using assms(1) unfolding sp(1) entries_ok_append by simp
  ultimately have "entries_ok h (L @ (key, r) # R)"
    using ok sp(2) assms(2) by (auto simp: entries_ok_append entries_ok_Cons)
  with False show ?thesis by (simp add: ix_ins_def L_def R_def)
qed (simp add: ix_ins_def assms(1))

lemma ix_del_ok: "entries_ok h es \<Longrightarrow> entries_ok h (ix_del h key es)"
  by (induction es) (auto simp: ix_del_def entries_ok_Cons)

lemma node_insert_ok:
  assumes "node_ok h m" "key_ok (ix_cols h) key" "node_size m < get_max_size h" "rid_fits r"
    "length key = nat (col_tot_len h)" "node_insert h key r m = (n, m')"
  shows "node_ok h m'"
  using node_insert_entries(1,3) [OF assms] assms(1,3) ix_ins_ok [OF _ assms(2)] by (auto simp: node_ok_def node_fits_def)

text \<open>An index over one \<^verbatim>\<open>INT\<close> column, and a node with one entry.\<close>

definition ix_ex :: ix_file_hdr where
  "ix_ex = \<lparr>first_free_ix = -1, ix_num_pages = 3, root_page = 2, col_num = 1, col_types = [TYPE_INT], col_lens = [4],
     col_tot_len = 4, btree_order = 338, keys_size = 1356, first_leaf = 2, last_leaf = 2, tot_len = 48\<rparr>"

definition node_ex :: mem where
  "node_ex = snd (node_insert ix_ex (le_encode 4 7) (Rid 1 0) mzero)"

lemma ix_ex_facts:
  "ix_layout ix_ex" "key_ok (ix_cols ix_ex) (le_encode 4 k)" "node_ok ix_ex mzero" "node_size mzero = 0"
  "get_max_size ix_ex = 339" "nat (col_tot_len ix_ex) = 4"
proof -
  show z: "node_size mzero = 0"
    by (simp add: node_size_def read_int_def mread_def mzero_def numeral_eq_Suc to_signed_def)
  show lay: "ix_layout ix_ex" by (simp add: ix_layout_def ix_ex_def IX_PAGE_HDR_SIZE_def PAGE_SIZE_def)
  show "key_ok (ix_cols ix_ex) (le_encode 4 k)" by (simp add: ix_ex_def value_ok_def)
  have "node_entries ix_ex mzero = []" unfolding length_0_conv [symmetric] by (simp add: z)
  then show "node_ok ix_ex mzero"
    using z lay by (simp add: node_ok_def node_fits_def get_max_size_def ix_ex_def entries_ok_def keys_sorted_def keys_ok_def)
  show "get_max_size ix_ex = 339" "nat (col_tot_len ix_ex) = 4" by (simp_all add: get_max_size_def ix_ex_def)
qed

lemma node_ex_ok: "node_ok ix_ex node_ex"
  by (rule node_insert_ok [of ix_ex mzero "le_encode 4 7" "Rid 1 0" "fst (node_insert ix_ex (le_encode 4 7) (Rid 1 0) mzero)"])
    (simp_all add: ix_ex_facts rid_fits_def in_signed_def node_ex_def)

text \<open>
  Claim C21. \<open>IxNodeHandle::insert\<close>, a binary search and two \<^verbatim>\<open>memmove\<close>s on the bytes of the page, is
  the insertion into a sorted association list: a key already there changes nothing, any other key is
  put at its place and found with its record afterwards, and the node stays sorted and within its size.
\<close>

theorem node_insert_refines:
  assumes "node_ok h m" "key_ok (ix_cols h) key" "node_size m < get_max_size h" "rid_fits r"
    "length key = nat (col_tot_len h)" "node_insert h key r m = (n, m')"
  shows "node_ok h m' \<and> node_entries h m' = ix_ins h key r (node_entries h m) \<and> n = node_size m' \<and>
    (leaf_lookup h m key = None \<longrightarrow> leaf_lookup h m' key = Some r \<and> node_size m' = node_size m + 1) \<and>
    (leaf_lookup h m key \<noteq> None \<longrightarrow> m' = m)"
proof -
  note ins = node_insert_entries [OF assms]
  note ok = node_insert_ok [OF assms]
  have find: "leaf_lookup h m key = ix_find h key (node_entries h m)" "leaf_lookup h m' key = ix_find h key (node_entries h m')"
    by (rule leaf_lookup_entries [OF assms(1,2)], rule leaf_lookup_entries [OF ok assms(2)])
  have "ix_find h key (ix_ins h key r es) = Some r" if es: "entries_ok h es" "ix_find h key es = None" for es
  proof -
    have none: "\<not> (\<exists>e \<in> set es. same_key h (fst e) key)" using es(2) by (auto simp: ix_find_def find_None_iff)
    note sp = split_at_key [OF es(1) assms(2) refl refl]
    have "List.find (\<lambda>e. same_key h (fst e) key) (L @ (key, r) # R) = Some (key, r)"
      if "\<forall>e \<in> set L. key_less h (fst e) key" for L R
      using that key.cmp_refl [OF assms(2)] by (induction L) auto
    with sp(2) none show ?thesis by (simp add: ix_ins_def ix_find_def)
  qed
  moreover have "entries_ok h (node_entries h m)" using assms(1) by (simp add: node_ok_def)
  ultimately have "ix_find h key (node_entries h m) = None \<Longrightarrow> ix_find h key (node_entries h m') = Some r"
    unfolding ins(1) by blast
  then show ?thesis using ok ins(1-3,5,6) find by auto
qed

theorem node_insert_refines_witness:
  "leaf_lookup ix_ex (snd (node_insert ix_ex (le_encode 4 (-3)) (Rid 2 5) mzero)) (le_encode 4 (-3)) = Some (Rid 2 5)"
proof -
  have "leaf_lookup ix_ex mzero (le_encode 4 (-3)) = None"
    using leaf_lookup_entries [OF ix_ex_facts(3,2), of "-3"] ix_ex_facts(4) by (simp add: ix_find_def node_entries_def node_keys_def)
  then show ?thesis
    using node_insert_refines [OF ix_ex_facts(3,2), of "Rid 2 5" "-3" "fst (node_insert ix_ex (le_encode 4 (-3)) (Rid 2 5) mzero)"
        "snd (node_insert ix_ex (le_encode 4 (-3)) (Rid 2 5) mzero)"]
    by (simp add: ix_ex_facts rid_fits_def in_signed_def)
qed

text \<open>
  Claim C22. \<open>IxNodeHandle::remove\<close> is the deletion from the sorted association list: the entry of the
  key, if there is one, goes and nothing else, and the node stays sorted.
\<close>

theorem node_remove_refines:
  assumes "node_ok h m" "key_ok (ix_cols h) key" "node_remove h key m = (n, m')"
  shows "node_ok h m' \<and> node_entries h m' = ix_del h key (node_entries h m) \<and> n = node_size m' \<and>
    leaf_lookup h m' key = None \<and> (leaf_lookup h m key = None \<longleftrightarrow> n = node_size m)"
proof -
  note del = node_remove_entries [OF assms]
  have sz: "0 \<le> node_size m" "node_size m \<le> get_max_size h" "ix_layout h" "entries_ok h (node_entries h m)"
    using assms(1) by (auto simp: node_ok_def node_fits_def)
  have "0 \<le> node_size m'"
  proof (cases "ix_find h key (node_entries h m) = None")
    case True
    with del(2,5) sz(1) show ?thesis by simp
  next
    case False
    then have "node_entries h m \<noteq> []" by (auto simp: ix_find_def)
    then have "0 < node_size m" unfolding length_greater_0_conv [symmetric] length_node zero_less_nat_eq .
    with del(3) show ?thesis by auto
  qed
  moreover have "node_size m' \<le> get_max_size h" using del(3) sz(2) by auto
  moreover have "entries_ok h (node_entries h m')" unfolding del(1) by (rule ix_del_ok [OF sz(4)])
  ultimately have ok: "node_ok h m'" using sz(3) by (simp add: node_ok_def node_fits_def)
  have "ix_find h key (ix_del h key es) = None" for es
    by (simp add: ix_find_def ix_del_def find_None_iff)
  then show ?thesis using ok del leaf_lookup_entries [OF assms(1,2)] leaf_lookup_entries [OF ok assms(2)] by simp
qed


theorem node_remove_refines_witness:
  "leaf_lookup ix_ex (snd (node_remove ix_ex (le_encode 4 7) node_ex)) (le_encode 4 7) = None"
  using node_remove_refines [OF node_ex_ok ix_ex_facts(2), of 7 "fst (node_remove ix_ex (le_encode 4 7) node_ex)"
      "snd (node_remove ix_ex (le_encode 4 7) node_ex)"] by simp

section \<open>The header on disk\<close>

definition ix_hdr_fits :: "ix_file_hdr \<Rightarrow> bool" where
  "ix_hdr_fits h \<longleftrightarrow> 0 \<le> col_num h \<and> length (col_types h) = nat (col_num h) \<and> length (col_lens h) = nat (col_num h) \<and>
     list_all (in_signed 4) (col_lens h) \<and>
     list_all (in_signed 4) [tot_len h, first_free_ix h, ix_num_pages h, root_page h, col_num h, col_tot_len h, btree_order h,
       keys_size h, first_leaf h, last_leaf h]"

lemma read_ints_holds:
  "holds m off (concat (map (le_encode 4) vs)) \<Longrightarrow> list_all (in_signed 4) vs \<Longrightarrow> length vs = n \<Longrightarrow> read_ints m off n = vs"
proof (induction vs arbitrary: off n)
  case (Cons v vs)
  then have h: "holds m off (le_encode 4 v)" "holds m (off + 4) (concat (map (le_encode 4) vs))" by (simp_all add: holds_append)
  have "read_ints m (off + 4) (length vs) = vs" by (rule Cons.IH [OF h(2)]) (use Cons.prems in simp_all)
  moreover have "read_ints m off (Suc (length vs)) = read_int 4 m off # read_ints m (off + 4) (length vs)"
    unfolding read_ints_def by (subst upt_conv_Cons) (simp_all add: map_Suc_upt [symmetric] add.assoc del: upt_Suc)
  ultimately show ?case using Cons.prems holds_read_int [OF h(1)] by auto
qed (simp add: read_ints_def)

lemma length_concat_encode: "length (concat (map (\<lambda>x. le_encode 4 (f x)) xs)) = 4 * length xs"
  by (induction xs) simp_all

lemma ix_header_run:
  assumes "ix_hdr_fits h" "holds m 0 (ix_serialize h)"
  shows "ix_deserialize m = h \<and> int (length (ix_serialize h)) = tot_len (update_tot_len h)"
proof -
  let ?n = "nat (col_num h)"
  have fit: "length (col_types h) = ?n" "length (col_lens h) = ?n" "list_all (in_signed 4) (col_lens h)" "0 \<le> col_num h"
    "in_signed 4 (tot_len h)" "in_signed 4 (first_free_ix h)" "in_signed 4 (ix_num_pages h)" "in_signed 4 (root_page h)"
    "in_signed 4 (col_num h)" "in_signed 4 (col_tot_len h)" "in_signed 4 (btree_order h)" "in_signed 4 (keys_size h)"
    "in_signed 4 (first_leaf h)" "in_signed 4 (last_leaf h)"
    using assms(1) by (auto simp: ix_hdr_fits_def)
  let ?ts = "map coltype_no (col_types h)"
  have lens: "length (concat (map (\<lambda>t. le_encode 4 (coltype_no t)) (col_types h))) = 4 * ?n"
    "length (concat (map (le_encode 4) (col_lens h))) = 4 * ?n"
    using length_concat_encode [of coltype_no "col_types h"] length_concat_encode [of "\<lambda>x. x" "col_lens h"] fit(1,2) by simp_all
  have "holds m 0 (le_encode 4 (tot_len h))" "holds m 4 (le_encode 4 (first_free_ix h))" "holds m 8 (le_encode 4 (ix_num_pages h))"
    "holds m 12 (le_encode 4 (root_page h))" "holds m 16 (le_encode 4 (col_num h))" "holds m 20 (concat (map (le_encode 4) ?ts))"
    "holds m (20 + 4 * ?n) (concat (map (le_encode 4) (col_lens h)))"
    "holds m (20 + 8 * ?n) (le_encode 4 (col_tot_len h))" "holds m (24 + 8 * ?n) (le_encode 4 (btree_order h))"
    "holds m (28 + 8 * ?n) (le_encode 4 (keys_size h))" "holds m (32 + 8 * ?n) (le_encode 4 (first_leaf h))"
    "holds m (36 + 8 * ?n) (le_encode 4 (last_leaf h))"
    using assms(2) fit(1,2) lens by (simp_all add: ix_serialize_def holds_append comp_def algebra_simps)
  note hs = this
  have ints: "read_int 4 m 0 = tot_len h" "read_int 4 m 4 = first_free_ix h" "read_int 4 m 8 = ix_num_pages h"
    "read_int 4 m 12 = root_page h" "read_int 4 m 16 = col_num h" "read_int 4 m (20 + 8 * ?n) = col_tot_len h"
    "read_int 4 m (24 + 8 * ?n) = btree_order h" "read_int 4 m (28 + 8 * ?n) = keys_size h"
    "read_int 4 m (32 + 8 * ?n) = first_leaf h" "read_int 4 m (36 + 8 * ?n) = last_leaf h"
    using hs fit by (simp_all add: holds_read_int)
  have ts: "read_ints m 20 ?n = ?ts"
    by (rule read_ints_holds [OF hs(6)]) (use fit(1) coltype_roundtrip(2) in \<open>simp_all add: list_all_iff\<close>)
  have ls: "read_ints m (20 + 4 * ?n) ?n = col_lens h" by (rule read_ints_holds [OF hs(7) fit(3,2)])
  have "map coltype_of_no ?ts = col_types h" by (simp add: comp_def coltype_roundtrip map_idI)
  then have "ix_deserialize m = h" by (simp add: ix_deserialize_def Let_def ints ts ls)
  moreover have "int (length (ix_serialize h)) = tot_len (update_tot_len h)"
    using lens fit(1,2,4) by (simp add: ix_serialize_def update_tot_len_def)
  ultimately show ?thesis by simp
qed

text \<open>
  \<open>IxFileHdr::deserialize\<close> reads back every header that \<open>serialize\<close> wrote, for any number of
  index columns, and the written length is the one \<open>update_tot_len\<close> computes.
\<close>

theorem ix_header_roundtrip:
  assumes "ix_hdr_fits h" "holds m 0 (ix_serialize h)"
  shows "ix_deserialize m = h \<and> int (length (ix_serialize h)) = tot_len (update_tot_len h)"
  by (rule ix_header_run [OF assms])

theorem ix_header_roundtrip_witness:
  "ix_deserialize (mwrite mzero 0 (ix_serialize ix_ex)) = ix_ex"
  by (rule ix_header_roundtrip [THEN conjunct1, OF _ holds_mwrite]) (simp add: ix_hdr_fits_def ix_ex_def in_signed_def)

end
