(* ===== verification/Partial_Ops.thy ===== *)
theory Partial_Ops
  imports Rmdb_Base
begin

text \<open>
  Operations that may not return: \<open>None\<close> is a loop that never ends. \<open>pdo\<close> runs an operation that
  always returns; \<open>pThen\<close> is sequencing, monotone so that \<open>partial_function\<close> accepts loops and
  recursive functions written with it.
\<close>

type_synonym ('s, 'a) pop = "'s \<Rightarrow> ((rmdb_error + 'a) \<times> 's) option"

definition pdo :: "('s, 'a) op \<Rightarrow> ('s, 'a) pop" where
  "pdo m = (\<lambda>s. Some (m s))"

definition pThen :: "('s, 'a) pop \<Rightarrow> ('a \<Rightarrow> ('s, 'b) pop) \<Rightarrow> ('s, 'b) pop" where
  "pThen m k = (\<lambda>s. Option.bind (m s) (\<lambda>(r, s'). case r of Inl e \<Rightarrow> Some (Inl e, s') | Inr a \<Rightarrow> k a s'))"

lemma pThen_mono [partial_function_mono]:
  fixes B :: "('i \<Rightarrow> 'o option) \<Rightarrow> ('s, 'a) pop" and C :: "'a \<Rightarrow> ('i \<Rightarrow> 'o option) \<Rightarrow> ('s, 'b) pop"
  assumes "\<And>s. mono_option (\<lambda>f. B f s)" "\<And>y s. mono_option (\<lambda>f. C y f s)"
  shows "mono_option (\<lambda>f. pThen (B f) (\<lambda>y. C y f) s)"
  unfolding pThen_def
proof (rule bind_mono [OF assms(1)])
  fix p :: "(rmdb_error + 'a) \<times> 's"
  show "mono_option (\<lambda>f. case p of (r, s') \<Rightarrow> (case r of Inl e \<Rightarrow> Some (Inl e, s') | Inr a \<Rightarrow> C a f s'))"
  proof (cases p)
    case (Pair r s')
    show ?thesis
    proof (cases r)
      case (Inl e)
      then show ?thesis by (simp add: Pair) (intro partial_function_mono)
    next
      case (Inr a)
      then show ?thesis by (simp add: Pair assms(2))
    qed
  qed
qed

lemma pThen_eq_Some:
  "pThen m k s = Some (r, s'') \<longleftrightarrow>
     (\<exists>e. m s = Some (Inl e, s'') \<and> r = Inl e) \<or> (\<exists>a s'. m s = Some (Inr a, s') \<and> k a s' = Some (r, s''))"
proof (cases "m s")
  case (Some p)
  then show ?thesis by (cases p; cases "fst p") (auto simp: pThen_def)
qed (simp add: pThen_def)

named_theorems prun_simps "running operations that may not return"

lemma pdo_run [prun_simps]: "pdo m s = Some (m s)"
  by (simp add: pdo_def)

lemma pThen_Inr [prun_simps]: "m s = Some (Inr a, s') \<Longrightarrow> pThen m k s = k a s'"
  by (simp add: pThen_def)

lemma pThen_Inl [prun_simps]: "m s = Some (Inl e, s') \<Longrightarrow> pThen m k s = Some (Inl e, s')"
  by (simp add: pThen_def)

lemma pThen_pdo: "pThen (pdo m) k s = (case m s of (Inl e, s') \<Rightarrow> Some (Inl e, s') | (Inr a, s') \<Rightarrow> k a s')"
  by (simp add: pThen_def pdo_def split: prod.split)

end
