(* ===== verification/Ix_Tree.thy ===== *)
theory Ix_Tree
  imports Ix_Node Partial_Ops
begin

text \<open>
  The B+ tree of an index: the class \<open>IxIndexHandle\<close> (\<^verbatim>\<open>src/src/index/ix_index_handle.cpp\<close>), the
  scan (\<^verbatim>\<open>ix_scan.cpp\<close>) and the index manager (\<^verbatim>\<open>ix_manager.h\<close>) on the buffer pool. A node
  handle is the frame its page is pinned in. Descents and recursions over the tree are operations that
  may not return, because nothing in a damaged file bounds them. A page that the pool cannot provide
  gives a null pointer, which the source dereferences: this is \<open>AssertionFailure\<close> here, like the
  failed assertions.
\<close>

section \<open>The handle\<close>

datatype iid = Iid (ii_page: int) (ii_slot: int)

record ix_file =
  ix_fd :: int
  ix_hdr :: ix_file_hdr

type_synonym ix_state = "storage \<times> ix_file"

definition edit_ix_hdr :: "(ix_file_hdr \<Rightarrow> ix_file_hdr) \<Rightarrow> (ix_state, unit) op" where
  "edit_ix_hdr g = modify (\<lambda>(s, ih). (s, ih\<lparr>ix_hdr := g (ix_hdr ih)\<rparr>))"

definition ix_look :: "nat \<Rightarrow> (ix_file_hdr \<Rightarrow> mem \<Rightarrow> 'a) \<Rightarrow> (ix_state, 'a) op" where
  "ix_look f g = reads (\<lambda>(s, ih). g (ix_hdr ih) (frame_mem s f))"

definition ix_edit :: "nat \<Rightarrow> (ix_file_hdr \<Rightarrow> mem \<Rightarrow> mem) \<Rightarrow> (ix_state, unit) op" where
  "ix_edit f g = modify (\<lambda>(s, ih). (write_frame f (g (ix_hdr ih)) s, ih))"

definition ix_page_no :: "nat \<Rightarrow> (ix_state, int) op" where
  "ix_page_no f = reads (\<lambda>(s, ih). pid_no (frame_id s f))"

definition ix_unpin :: "nat \<Rightarrow> bool \<Rightarrow> (ix_state, unit) op" where
  "ix_unpin f dirty = modify (\<lambda>(s, ih). (snd (unpin_page (frame_id s f) dirty s), ih))"

definition ix_delete_page :: "nat \<Rightarrow> (ix_state, unit) op" where
  "ix_delete_page f = (\<lambda>(s, ih). case delete_page (frame_id s f) s of
     (Inl e, s') \<Rightarrow> (Inl e, s', ih) | (Inr _, s') \<Rightarrow> (Inr (), s', ih))"

definition ix_assert :: "bool \<Rightarrow> (ix_state, unit) op" where
  "ix_assert b = (if b then ret () else throw AssertionFailure)"

definition fetch_node :: "int \<Rightarrow> (ix_state, nat) op" where
  "fetch_node no = (\<lambda>(s, ih). case fetch_page (PageId (ix_fd ih) no) s of
     (Inl e, s') \<Rightarrow> (Inl e, s', ih)
   | (Inr None, s') \<Rightarrow> (Inl AssertionFailure, s', ih)
   | (Inr (Some f), s') \<Rightarrow> (Inr f, s', ih))"

definition create_node :: "(ix_state, nat) op" where
  "create_node = andThen (edit_ix_hdr (ix_num_pages_update (\<lambda>n. n + 1))) (\<lambda>_ (s, ih).
     case new_page (ix_fd ih) s of
       (Inl e, s') \<Rightarrow> (Inl e, s', ih)
     | (Inr None, s') \<Rightarrow> (Inl AssertionFailure, s', ih)
     | (Inr (Some (_, f)), s') \<Rightarrow> (Inr f, s', ih))"

definition release_node_handle :: "(ix_state, unit) op" where
  "release_node_handle = edit_ix_hdr (ix_num_pages_update (\<lambda>n. n - 1))"

definition update_root_page_no :: "int \<Rightarrow> (ix_state, unit) op" where
  "update_root_page_no p = edit_ix_hdr (root_page_update (\<lambda>_. p))"

section \<open>Descending\<close>

partial_function (option) descend :: "bytes \<Rightarrow> bool \<Rightarrow> nat \<Rightarrow> ix_state \<Rightarrow> ((rmdb_error + nat) \<times> ix_state) option" where
  "descend key find_first f st =
     pThen (pdo (ix_look f (\<lambda>h m. (is_leaf_page m, if find_first then value_at h m 0 else internal_lookup h m key))))
       (\<lambda>(leaf, child) s.
          if leaf then Some (Inr f, s)
          else pThen (pdo (ix_unpin f False)) (\<lambda>_. pThen (pdo (fetch_node child)) (\<lambda>g. descend key find_first g)) s) st"

definition find_leaf_page :: "bytes \<Rightarrow> bool \<Rightarrow> (ix_state, nat) pop" where
  "find_leaf_page key find_first =
     pThen (pdo (\<lambda>(s, ih). fetch_node (root_page (ix_hdr ih)) (s, ih))) (descend key find_first)"

definition get_value :: "bytes \<Rightarrow> (ix_state, rid option) pop" where
  "get_value key = pThen (find_leaf_page key False) (\<lambda>f. pdo (
     andThen (ix_look f (\<lambda>h m. leaf_lookup h m key)) (\<lambda>r. andThen (ix_unpin f False) (\<lambda>_. ret r))))"

section \<open>Links between nodes\<close>

definition find_child_of :: "nat \<Rightarrow> nat \<Rightarrow> (ix_state, int) op" where
  "find_child_of f child = andThen (ix_page_no child) (\<lambda>no.
     andThen (ix_look f (\<lambda>h m. find_child h no m)) (\<lambda>r. case r of None \<Rightarrow> throw AssertionFailure | Some i \<Rightarrow> ret i))"

definition maintain_child :: "nat \<Rightarrow> int \<Rightarrow> (ix_state, unit) op" where
  "maintain_child f child_idx =
     andThen (ix_look f (\<lambda>h m. (is_leaf_page m, value_at h m child_idx))) (\<lambda>(leaf, no).
       if leaf then ret ()
       else andThen (fetch_node no) (\<lambda>c. andThen (ix_page_no f) (\<lambda>p.
         andThen (ix_edit c (\<lambda>h. set_parent p)) (\<lambda>_. ix_unpin c True))))"

fun maintain_children :: "nat \<Rightarrow> int list \<Rightarrow> (ix_state, unit) op" where
  "maintain_children f [] = ret ()"
| "maintain_children f (i # is) = andThen (maintain_child f i) (\<lambda>_. maintain_children f is)"

text \<open>
  After \<^verbatim>\<open>curr = parent; unpin_page(parent)\<close> the loop goes on with the frame of a page that is no
  longer pinned.
\<close>

partial_function (option) maintain_parent :: "nat \<Rightarrow> ix_state \<Rightarrow> ((rmdb_error + unit) \<times> ix_state) option" where
  "maintain_parent cur st =
     pThen (pdo (ix_look cur (\<lambda>h m. (parent_no m, get_key h m 0)))) (\<lambda>(p, first_key) s.
       if p = IX_NO_PAGE then Some (Inr (), s)
       else pThen (pdo (fetch_node p)) (\<lambda>parent.
         pThen (pdo (find_child_of parent cur)) (\<lambda>rank.
         pThen (pdo (ix_look parent (\<lambda>h m. get_key h m rank))) (\<lambda>parent_key s.
           if parent_key = first_key then Some (ix_unpin parent True s)
           else pThen (pdo (ix_edit parent (\<lambda>h. set_key h rank first_key))) (\<lambda>_.
             pThen (pdo (ix_unpin parent True)) (\<lambda>_. maintain_parent parent)) s))) s) st"

definition erase_leaf :: "nat \<Rightarrow> (ix_state, unit) op" where
  "erase_leaf leaf =
     andThen (ix_look leaf (\<lambda>h m. (is_leaf_page m, prev_leaf m, next_leaf m))) (\<lambda>(is_leaf, p, n).
     andThen (ix_assert is_leaf) (\<lambda>_. andThen (fetch_node p) (\<lambda>prev.
     andThen (ix_edit prev (\<lambda>h. set_next_leaf n)) (\<lambda>_. andThen (ix_unpin prev True) (\<lambda>_.
     andThen (ix_look leaf (\<lambda>h m. next_leaf m)) (\<lambda>n'. andThen (fetch_node n') (\<lambda>nxt.
     andThen (ix_look leaf (\<lambda>h m. prev_leaf m)) (\<lambda>p'. andThen (ix_edit nxt (\<lambda>h. set_prev_leaf p')) (\<lambda>_.
     ix_unpin nxt True)))))))))"

section \<open>Insertion\<close>

definition split_node :: "nat \<Rightarrow> (ix_state, nat) op" where
  "split_node f =
     andThen create_node (\<lambda>g.
     andThen (ix_look f (\<lambda>h m. (is_leaf_page m, parent_no m))) (\<lambda>(leaf, par).
     andThen (ix_edit g (\<lambda>h m. set_next_free_node IX_NO_PAGE (set_parent par (set_size 0 (set_is_leaf leaf m))))) (\<lambda>_.
     andThen (ix_look f (\<lambda>h m. let pos = node_size m div 2; n = node_size m - pos
        in (pos, n, mread m (key_off h pos) (nat (n * col_tot_len h)), mread m (rid_off h pos) (nat (n * 8))))) (\<lambda>(pos, n, ks, rs).
     andThen (ix_edit g (\<lambda>h. insert_pairs h 0 ks rs n)) (\<lambda>_.
     andThen (ix_edit f (\<lambda>h. set_size pos)) (\<lambda>_.
     andThen
       (if leaf then
          andThen (ix_page_no f) (\<lambda>fno. andThen (ix_page_no g) (\<lambda>gno.
          andThen (ix_look f (\<lambda>h. next_leaf)) (\<lambda>n.
          andThen (ix_edit g (\<lambda>h m. set_next_leaf n (set_prev_leaf fno m))) (\<lambda>_.
          andThen (fetch_node n) (\<lambda>old_next.
          andThen (ix_edit old_next (\<lambda>h. set_prev_leaf gno)) (\<lambda>_.
          andThen (ix_unpin old_next True) (\<lambda>_.
          ix_edit f (\<lambda>h. set_next_leaf gno))))))))
        else andThen (ix_look g (\<lambda>h. node_size)) (\<lambda>n. maintain_children g [0..n - 1]))
       (\<lambda>_. ret g)))))))"

partial_function (option) insert_into_parent ::
    "nat \<Rightarrow> bytes \<Rightarrow> nat \<Rightarrow> ix_state \<Rightarrow> ((rmdb_error + unit) \<times> ix_state) option" where
  "insert_into_parent old key new st =
     pThen (pdo (ix_look old (\<lambda>h m. (parent_no m, get_key h m 0)))) (\<lambda>(par, old_key).
     pThen (pdo (ix_page_no old)) (\<lambda>old_no. pThen (pdo (ix_page_no new)) (\<lambda>new_no s.
       if par = INVALID_PAGE_ID then
         Some (andThen create_node (\<lambda>root.
           andThen (ix_edit root (\<lambda>h m. set_next_free_node IX_NO_PAGE (set_parent IX_NO_PAGE (set_size 0 (set_is_leaf False m))))) (\<lambda>_.
           andThen (ix_edit root (\<lambda>h m. insert_pair h 1 key (Rid new_no (-1)) (insert_pair h 0 old_key (Rid old_no (-1)) m))) (\<lambda>_.
           andThen (ix_page_no root) (\<lambda>root_no.
           andThen (update_root_page_no root_no) (\<lambda>_.
           andThen (ix_edit old (\<lambda>h. set_parent root_no)) (\<lambda>_.
           andThen (ix_edit new (\<lambda>h. set_parent root_no)) (\<lambda>_. ix_unpin root True))))))) s)
       else
         pThen (pdo (fetch_node par)) (\<lambda>parent.
         pThen (pdo (find_child_of parent old)) (\<lambda>child_idx.
         pThen (pdo (ix_edit parent (\<lambda>h. insert_pair h (child_idx + 1) key (Rid new_no (-1))))) (\<lambda>_.
         pThen (pdo (ix_page_no parent)) (\<lambda>parent_no'.
         pThen (pdo (ix_edit new (\<lambda>h. set_parent parent_no'))) (\<lambda>_.
         pThen (pdo (ix_look parent (\<lambda>h m. node_size m \<ge> get_max_size h))) (\<lambda>full.
         pThen (\<lambda>s. if full then
             pThen (pdo (split_node parent)) (\<lambda>new_parent.
             pThen (pdo (ix_look new_parent (\<lambda>h m. get_key h m 0))) (\<lambda>up_key.
             pThen (insert_into_parent parent up_key new_parent) (\<lambda>_.
             pdo (ix_unpin new_parent True)))) s
           else Some (Inr (), s)) (\<lambda>_.
         pdo (ix_unpin parent True)))))))) s))) st"

definition insert_entry :: "bytes \<Rightarrow> rid \<Rightarrow> (ix_state, int) pop" where
  "insert_entry key value =
     pThen (find_leaf_page key False) (\<lambda>leaf.
     pThen (pdo (ix_look leaf (\<lambda>h m. (node_size m, node_insert h key value m)))) (\<lambda>(size_before, size_after, m').
     pThen (pdo (ix_edit leaf (\<lambda>h m. m'))) (\<lambda>_.
     pThen (pdo (ix_page_no leaf)) (\<lambda>leaf_no s.
       if size_after = size_before then Some (andThen (ix_unpin leaf False) (\<lambda>_. ret leaf_no) s)
       else
         pThen (pdo (ix_look leaf (\<lambda>h m. node_size m \<ge> get_max_size h))) (\<lambda>full.
         pThen (\<lambda>s. if full then
             pThen (pdo (split_node leaf)) (\<lambda>new.
             pThen (pdo (ix_page_no new)) (\<lambda>new_no.
             pThen (pdo (edit_ix_hdr (\<lambda>h. if last_leaf h = leaf_no then h\<lparr>last_leaf := new_no\<rparr> else h))) (\<lambda>_.
             pThen (pdo (ix_look new (\<lambda>h m. get_key h m 0))) (\<lambda>up_key.
             pThen (insert_into_parent leaf up_key new) (\<lambda>_.
             pdo (ix_unpin new True)))))) s
           else Some (Inr (), s)) (\<lambda>_.
         pdo (andThen (ix_unpin leaf True) (\<lambda>_. ret leaf_no)))) s))))"

section \<open>Deletion\<close>

definition adjust_root :: "nat \<Rightarrow> (ix_state, bool) op" where
  "adjust_root old =
     andThen (ix_look old (\<lambda>h m. (is_leaf_page m, node_size m, remove_and_return_only_child h m))) (\<lambda>(leaf, n, rm).
       if \<not> leaf \<and> n = 1 then
         (case rm of None \<Rightarrow> throw AssertionFailure | Some (child_no, m') \<Rightarrow>
           andThen (ix_edit old (\<lambda>h m. m')) (\<lambda>_. andThen (fetch_node child_no) (\<lambda>new_root.
           andThen (ix_edit new_root (\<lambda>h. set_parent IX_NO_PAGE)) (\<lambda>_. andThen (update_root_page_no child_no) (\<lambda>_.
           andThen (ix_unpin new_root True) (\<lambda>_. andThen release_node_handle (\<lambda>_. ret True)))))))
       else ret False)"

definition redistribute :: "nat \<Rightarrow> nat \<Rightarrow> nat \<Rightarrow> int \<Rightarrow> (ix_state, unit) op" where
  "redistribute neighbor f parent index =
     (if index = 0 then
        andThen (ix_look neighbor (\<lambda>h m. (get_key h m 0, get_rid h m 0))) (\<lambda>(k, r).
        andThen (ix_edit f (\<lambda>h m. insert_pair h (node_size m) k r m)) (\<lambda>_.
        andThen (ix_edit neighbor (\<lambda>h. erase_pair h 0)) (\<lambda>_.
        andThen (ix_look f (\<lambda>h. node_size)) (\<lambda>n. andThen (maintain_child f (n - 1)) (\<lambda>_.
        andThen (find_child_of parent neighbor) (\<lambda>i. andThen (ix_look neighbor (\<lambda>h m. get_key h m 0)) (\<lambda>k'.
        ix_edit parent (\<lambda>h. set_key h i k'))))))))
      else
        andThen (ix_look neighbor (\<lambda>h m. let l = node_size m - 1 in (l, get_key h m l, get_rid h m l))) (\<lambda>(l, k, r).
        andThen (ix_edit f (\<lambda>h. insert_pair h 0 k r)) (\<lambda>_.
        andThen (ix_edit neighbor (\<lambda>h. erase_pair h l)) (\<lambda>_.
        andThen (maintain_child f 0) (\<lambda>_. andThen (ix_look f (\<lambda>h m. get_key h m 0)) (\<lambda>k'.
        ix_edit parent (\<lambda>h. set_key h index k')))))))"

text \<open>\<open>coalesce\<close> up to its recursive call: the node is emptied into its neighbour and leaves the parent.\<close>

definition merge_nodes :: "nat \<Rightarrow> nat \<Rightarrow> nat \<Rightarrow> int \<Rightarrow> (ix_state, unit) op" where
  "merge_nodes neigh f parent index =
     andThen (ix_page_no neigh) (\<lambda>neigh_no. andThen (ix_page_no f) (\<lambda>f_no.
     andThen (ix_look f (\<lambda>h m. (node_size m, mread m (key_off h 0) (nat (node_size m * col_tot_len h)),
        mread m (rid_off h 0) (nat (node_size m * 8))))) (\<lambda>(n, ks, rs).
     andThen (ix_look neigh (\<lambda>h m. (is_leaf_page m, node_size m))) (\<lambda>(leaf, k).
     andThen
       (if index = 0 then
          andThen (ix_edit neigh (\<lambda>h. insert_pairs h 0 ks rs n)) (\<lambda>_.
          andThen
            (if \<not> leaf then maintain_children neigh [0..n - 1]
             else andThen (erase_leaf f) (\<lambda>_.
               edit_ix_hdr (\<lambda>h. if first_leaf h = f_no then h\<lparr>first_leaf := neigh_no\<rparr> else h))) (\<lambda>_.
          andThen (ix_edit parent (\<lambda>h. erase_pair h 0)) (\<lambda>_.
          andThen (ix_look neigh (\<lambda>h m. get_key h m 0)) (\<lambda>k0. ix_edit parent (\<lambda>h. set_key h 0 k0)))))
        else
          andThen (ix_edit neigh (\<lambda>h. insert_pairs h k ks rs n)) (\<lambda>_.
          andThen
            (if \<not> leaf then andThen (ix_look neigh (\<lambda>h. node_size)) (\<lambda>n'. maintain_children neigh [k..n' - 1])
             else andThen (erase_leaf f) (\<lambda>_.
               edit_ix_hdr (\<lambda>h. if last_leaf h = f_no then h\<lparr>last_leaf := neigh_no\<rparr> else h))) (\<lambda>_.
          ix_edit parent (\<lambda>h. erase_pair h index))))
       (\<lambda>_. release_node_handle)))))"

partial_function (option) coalesce_or_redistribute :: "nat \<Rightarrow> ix_state \<Rightarrow> ((rmdb_error + bool) \<times> ix_state) option" where
  "coalesce_or_redistribute f st =
     pThen (pdo (ix_look f (\<lambda>h m. (parent_no m, node_size m, get_min_size h)))) (\<lambda>(par, n, mn) s.
       if par = INVALID_PAGE_ID then Some (adjust_root f s)
       else if n \<ge> mn then Some (Inr False, s)
       else
         pThen (pdo (fetch_node par)) (\<lambda>parent.
         pThen (pdo (find_child_of parent f)) (\<lambda>index.
         pThen (pdo (ix_look parent (\<lambda>h m. value_at h m (if index = 0 then 1 else index - 1)))) (\<lambda>nb.
         pThen (pdo (fetch_node nb)) (\<lambda>neighbor.
         pThen (pdo (ix_look neighbor (\<lambda>h. node_size))) (\<lambda>k s.
           if n + k \<ge> mn * 2 then
             Some (andThen (redistribute neighbor f parent index) (\<lambda>_. andThen (ix_unpin parent True) (\<lambda>_.
               andThen (ix_unpin neighbor True) (\<lambda>_. ret False))) s)
           else
             pThen (pdo (merge_nodes neighbor f parent index)) (\<lambda>_.
             pThen (coalesce_or_redistribute parent) (\<lambda>parent_should_delete.
             pdo (andThen (ix_unpin parent True) (\<lambda>_.
               andThen (if parent_should_delete then ix_delete_page parent else ret ()) (\<lambda>_.
               andThen (ix_unpin neighbor True) (\<lambda>_. ret True)))))) s))))) s) st"

definition delete_entry :: "bytes \<Rightarrow> (ix_state, bool) pop" where
  "delete_entry key =
     pThen (find_leaf_page key False) (\<lambda>leaf.
     pThen (pdo (ix_look leaf (\<lambda>h m. (node_size m, node_remove h key m)))) (\<lambda>(size_before, size_after, m').
     pThen (pdo (ix_edit leaf (\<lambda>h m. m'))) (\<lambda>_ s.
       if size_after = size_before then Some (andThen (ix_unpin leaf False) (\<lambda>_. ret False) s)
       else
         pThen (\<lambda>s. if size_after > 0 then maintain_parent leaf s else Some (Inr (), s)) (\<lambda>_.
         pThen (coalesce_or_redistribute leaf) (\<lambda>leaf_should_delete.
         pdo (andThen (ix_unpin leaf True) (\<lambda>_.
           andThen (if leaf_should_delete then ix_delete_page leaf else ret ()) (\<lambda>_. ret True))))) s)))"

section \<open>Positions and the scan\<close>

definition ix_get_rid :: "iid \<Rightarrow> (ix_state, rid) op" where
  "ix_get_rid i = andThen (fetch_node (ii_page i)) (\<lambda>f.
     andThen (ix_look f (\<lambda>h m. (node_size m, get_rid h m (ii_slot i)))) (\<lambda>(n, r).
       if ii_slot i \<ge> n then throw IndexEntryNotFoundError
       else andThen (ix_unpin f False) (\<lambda>_. ret r)))"

definition place_iid :: "nat \<Rightarrow> int \<Rightarrow> (ix_state, iid) op" where
  "place_iid leaf pos = andThen (ix_page_no leaf) (\<lambda>no.
     andThen (ix_look leaf (\<lambda>h m.
       if pos \<ge> node_size m then (if no = last_leaf h then Iid no pos else Iid (next_leaf m) 0) else Iid no pos)) (\<lambda>i.
     andThen (ix_unpin leaf False) (\<lambda>_. ret i)))"

definition ix_lower_bound :: "bytes \<Rightarrow> (ix_state, iid) pop" where
  "ix_lower_bound key = pThen (find_leaf_page key False) (\<lambda>leaf. pdo (
     andThen (ix_look leaf (\<lambda>h m. node_lower_bound h m key)) (place_iid leaf)))"

definition ix_upper_bound :: "bytes \<Rightarrow> (ix_state, iid) pop" where
  "ix_upper_bound key = pThen (find_leaf_page key False) (\<lambda>leaf. pdo (
     andThen (ix_look leaf (\<lambda>h m. let pos = node_lower_bound h m key in
       if pos < node_size m \<and> ix_compare (get_key h m pos) key (ix_cols h) = 0 then pos + 1 else pos)) (place_iid leaf)))"

definition leaf_end :: "(ix_state, iid) op" where
  "leaf_end = (\<lambda>(s, ih). andThen (fetch_node (last_leaf (ix_hdr ih))) (\<lambda>f.
     andThen (ix_look f (\<lambda>h. node_size)) (\<lambda>n. andThen (ix_unpin f False) (\<lambda>_.
     ret (Iid (last_leaf (ix_hdr ih)) n)))) (s, ih))"

definition leaf_begin :: "(ix_state, iid) op" where
  "leaf_begin = reads (\<lambda>(s, ih). Iid (first_leaf (ix_hdr ih)) 0)"

text \<open>\<open>IxScan::next\<close> does not unpin the leaf it fetched.\<close>

definition ix_scan_next :: "iid \<Rightarrow> iid \<Rightarrow> (ix_state, iid) op" where
  "ix_scan_next stop i =
     andThen (ix_assert (i \<noteq> stop)) (\<lambda>_. andThen (fetch_node (ii_page i)) (\<lambda>f.
     andThen (ix_look f (\<lambda>h m. (is_leaf_page m, node_size m, next_leaf m, last_leaf h))) (\<lambda>(leaf, n, nxt, lst).
     andThen (ix_assert leaf) (\<lambda>_. andThen (ix_assert (ii_slot i < n)) (\<lambda>_.
       ret (if ii_page i \<noteq> lst \<and> ii_slot i + 1 = n then Iid nxt 0 else Iid (ii_page i) (ii_slot i + 1)))))))"

section \<open>Index files\<close>

definition get_index_name :: "string \<Rightarrow> string list \<Rightarrow> string" where
  "get_index_name filename cols = filename @ concat (map (\<lambda>c. ''_'' @ c) cols) @ ''.idx''"

text \<open>A node page as \<^verbatim>\<open>create_index\<close> writes it.\<close>

definition init_node_page :: "int \<Rightarrow> mem" where
  "init_node_page link = set_next_leaf link (set_prev_leaf link (set_is_leaf True (set_size 0
     (set_parent IX_NO_PAGE (set_next_free_node IX_NO_PAGE mzero)))))"

text \<open>The header of a new index; the sum of the column lengths is exact, since \<open>create_index_file\<close> refuses keys longer than 512 bytes.\<close>

definition new_ix_hdr :: "(coltype \<times> int) list \<Rightarrow> ix_file_hdr" where
  "new_ix_hdr cols =
     (let tot = sum_list (map snd cols);
          order = (int PAGE_SIZE - int IX_PAGE_HDR_SIZE) div (tot + 8) - 1
      in update_tot_len \<lparr>first_free_ix = IX_NO_PAGE, ix_num_pages = IX_INIT_NUM_PAGES, root_page = IX_INIT_ROOT_PAGE,
           col_num = int (length cols), col_types = map fst cols, col_lens = map snd cols, col_tot_len = tot,
           btree_order = order, keys_size = (order + 1) * tot, first_leaf = IX_INIT_ROOT_PAGE,
           last_leaf = IX_INIT_ROOT_PAGE, tot_len = 0\<rparr>)"

definition create_index_file :: "string \<Rightarrow> (coltype \<times> int) list \<Rightarrow> (disk, unit) op" where
  "create_index_file ix_name cols =
     andThen (create_file ix_name) (\<lambda>_. andThen (open_file ix_name) (\<lambda>fd.
       let h = new_ix_hdr cols in
       if col_tot_len h > IX_MAX_COL_LEN then throw (InvalidColLengthError (col_tot_len h))
       else if \<not> btree_order h > 2 then throw AssertionFailure
       else
         andThen (write_page fd IX_FILE_HDR_PAGE (mwrite mzero 0 (ix_serialize h)) (nat (tot_len h))) (\<lambda>_.
         andThen (write_page fd IX_LEAF_HEADER_PAGE (init_node_page IX_INIT_ROOT_PAGE) PAGE_SIZE) (\<lambda>_.
         andThen (write_page fd IX_INIT_ROOT_PAGE (init_node_page IX_LEAF_HEADER_PAGE) PAGE_SIZE) (\<lambda>_.
         andThen (modify (set_fd2pageno fd (IX_INIT_NUM_PAGES - 1))) (\<lambda>_. close_file fd))))))"

text \<open>The length that \<^verbatim>\<open>serialize\<close> and \<^verbatim>\<open>deserialize\<close> compare with \<^verbatim>\<open>tot_len_\<close>.\<close>

definition ix_hdr_len :: "ix_file_hdr \<Rightarrow> int" where
  "ix_hdr_len h = 40 + 8 * int (nat (col_num h))"

text \<open>
  \<open>IxIndexHandle::IxIndexHandle\<close>: the next page number of the file is the number the descriptor had
  before, plus one, and not the number of pages in the header.
\<close>

definition open_index_file :: "string \<Rightarrow> (storage, ix_file) op" where
  "open_index_file ix_name = andThen (on_disk (open_file ix_name)) (\<lambda>fd s.
     case read_page (st_disk s) fd IX_FILE_HDR_PAGE PAGE_SIZE mzero of
       (Inl e, _) \<Rightarrow> (Inl e, s)
     | (Inr _, m) \<Rightarrow>
         let h = ix_deserialize m in
         if tot_len h \<noteq> ix_hdr_len h then (Inl AssertionFailure, s)
         else (Inr \<lparr>ix_fd = fd, ix_hdr = h\<rparr>,
           s\<lparr>st_disk := set_fd2pageno fd (fd2pageno (st_disk s) fd + 1) (st_disk s)\<rparr>))"

definition close_index_file :: "ix_file \<Rightarrow> (storage, unit) op" where
  "close_index_file ih =
     (if tot_len (ix_hdr ih) \<noteq> ix_hdr_len (ix_hdr ih) then throw AssertionFailure
      else
        andThen (on_disk (write_page (ix_fd ih) IX_FILE_HDR_PAGE (mwrite mzero 0 (ix_serialize (ix_hdr ih)))
          (nat (tot_len (ix_hdr ih))))) (\<lambda>_.
        andThen (delete_all_pages (ix_fd ih)) (\<lambda>_. on_disk (close_file (ix_fd ih)))))"

definition destroy_index_file :: "string \<Rightarrow> (disk, unit) op" where
  "destroy_index_file ix_name = destroy_file ix_name"

end
