(* ===== verification/Ix_Search.thy ===== *)
theory Ix_Search
  imports Ix_Tree
begin

text \<open>
  What a search in an index finds: the tree a file holds, as a relation between the pages and the
  sorted entries, the descent through trees of any height, and what opening an index file does to the
  numbers of new pages.
\<close>

section \<open>The tree an index file holds\<close>

lemma same_page_node_header:
  assumes "same_page m m'"
  shows "node_size m = node_size m'" "is_leaf_page m = is_leaf_page m'" "parent_no m = parent_no m'"
    "next_leaf m = next_leaf m'" "prev_leaf m = prev_leaf m'"
  using assms same_page_read_int [OF assms] by (simp_all add: node_size_def is_leaf_page_def parent_no_def next_leaf_def
      prev_leaf_def PAGE_SIZE_def) (simp add: same_page_def PAGE_SIZE_def)

lemma node_entries_cong:
  assumes "\<And>i. IX_PAGE_HDR_SIZE \<le> i \<Longrightarrow> i < PAGE_SIZE \<Longrightarrow> m i = m' i" "node_size m = node_size m'"
    "ix_layout h" "node_fits h m"
  shows "node_entries h m = node_entries h m'"
proof -
  have cell: "get_key h m (int i) = get_key h m' (int i) \<and> get_rid h m (int i) = get_rid h m' (int i)"
    if "i < nat (node_size m)" for i
  proof -
    have "i \<le> nat (btree_order h)" using that assms(4) unfolding node_fits_def get_max_size_def by linarith
    note a = ix_apart [OF assms(3) this]
    have "get_key h m (int i) = get_key h m' (int i)"
      unfolding get_key_def by (rule mread_cong) (use a assms(1) in \<open>simp add: IX_PAGE_HDR_SIZE_def\<close>)
    moreover have "mread m (rid_off h (int i)) 8 = mread m' (rid_off h (int i)) 8"
      by (rule mread_cong) (use a assms(1) in \<open>simp add: IX_PAGE_HDR_SIZE_def\<close>)
    ultimately show ?thesis by (simp add: get_rid_def)
  qed
  then have "node_keys h m = node_keys h m'" "node_rids h m = node_rids h m'"
    unfolding node_keys_def node_rids_def assms(2) [symmetric] by simp_all
  then show ?thesis by (simp add: node_entries_def)
qed

lemma same_page_entries:
  assumes "same_page m m'" "ix_layout h" "node_fits h m"
  shows "node_entries h m = node_entries h m'"
  by (rule node_entries_cong) (use assms same_page_node_header(1) [OF assms(1)] in \<open>simp_all add: same_page_def\<close>)

lemma node_size_is_leaf: "node_size (set_is_leaf b m) = node_size m"
  unfolding node_size_def read_int_def
  by (rule arg_cong [where f = "\<lambda>bs. to_signed 4 (le_decode bs)"], rule mread_cong) (simp add: set_is_leaf_def)

lemma set_is_leaf_node_ok:
  assumes "node_ok h m"
  shows "node_ok h (set_is_leaf b m)" "node_entries h (set_is_leaf b m) = node_entries h m"
proof -
  have "node_entries h m = node_entries h (set_is_leaf b m)"
    by (rule node_entries_cong) (use assms in \<open>simp_all add: node_ok_def node_size_is_leaf\<close>,
      simp add: set_is_leaf_def IX_PAGE_HDR_SIZE_def)
  then show "node_ok h (set_is_leaf b m)" "node_entries h (set_is_leaf b m) = node_entries h m"
    using assms by (simp_all add: node_ok_def node_fits_def node_size_is_leaf)
qed

lemma same_page_node_ok:
  "same_page m m' \<Longrightarrow> node_ok h m \<Longrightarrow> node_ok h m' \<and> node_entries h m' = node_entries h m"
  using same_page_entries [of m m' h] same_page_node_header(1) [of m m'] by (auto simp: node_ok_def node_fits_def)

text \<open>
  A subtree of height \<open>n\<close> rooted at page \<open>no\<close>, with its entries in order. In an inner node the first
  key is not looked at; every other key separates the entries of the child before it from its own.
\<close>

definition inner_ok :: "ix_file_hdr \<Rightarrow> mem \<Rightarrow> (bytes \<times> rid) list list \<Rightarrow> bool" where
  "inner_ok h m ess \<longleftrightarrow> ix_layout h \<and> node_fits h m \<and> int (length ess) = node_size m \<and> ess \<noteq> [] \<and>
     (\<forall>i < length ess. 0 < i \<longrightarrow> key_ok (ix_cols h) (fst (node_entries h m ! i)) \<and>
        (\<forall>e \<in> set (ess ! (i - 1)). key_less h (fst e) (fst (node_entries h m ! i))) \<and>
        (\<forall>e \<in> set (ess ! i). \<not> key_less h (fst e) (fst (node_entries h m ! i)))) \<and>
     sorted_wrt (key_less h) (map fst (tl (node_entries h m)))"

fun ix_tree :: "ix_file \<Rightarrow> (page_id \<rightharpoonup> bytes) \<Rightarrow> nat \<Rightarrow> int \<Rightarrow> (bytes \<times> rid) list \<Rightarrow> bool" where
  "ix_tree ih st 0 no es \<longleftrightarrow> (\<exists>b. st (PageId (ix_fd ih) no) = Some b \<and> is_leaf_page (mem_of b) \<and>
     node_ok (ix_hdr ih) (mem_of b) \<and> node_entries (ix_hdr ih) (mem_of b) = es)"
| "ix_tree ih st (Suc n) no es \<longleftrightarrow> (\<exists>b ess. st (PageId (ix_fd ih) no) = Some b \<and> \<not> is_leaf_page (mem_of b) \<and>
     inner_ok (ix_hdr ih) (mem_of b) ess \<and> es = concat ess \<and> entries_ok (ix_hdr ih) es \<and>
     (\<forall>i < length ess. ix_tree ih st n (page_no (snd (node_entries (ix_hdr ih) (mem_of b) ! i))) (ess ! i)))"

lemma ix_tree_entries_ok: "ix_tree ih st n no es \<Longrightarrow> entries_ok (ix_hdr ih) es"
  by (cases n) (auto simp: node_ok_def)

text \<open>The search in an inner node picks the child that has the key if any has.\<close>

lemma upper_bound_child:
  assumes "inner_ok h m ess" "key_ok (ix_cols h) key"
  obtains c where "c < length ess" "internal_lookup h m key = page_no (snd (node_entries h m ! c))"
    "\<And>i. 0 < i \<Longrightarrow> i \<le> c \<Longrightarrow> \<not> key_less h key (fst (node_entries h m ! i))"
    "\<And>i. c < i \<Longrightarrow> i < length ess \<Longrightarrow> key_less h key (fst (node_entries h m ! i))"
proof -
  let ?n = "node_size m" and ?es = "node_entries h m"
  have n: "int (length ess) = ?n" "ess \<noteq> []" "length ?es = length ess"
    using assms(1) by (auto simp: inner_ok_def)
  then have one: "1 \<le> ?n" by (metis One_nat_def Suc_leI length_greater_0_conv of_nat_1 of_nat_mono)
  have ko: "key_ok (ix_cols h) (fst (?es ! i))" if "0 < i" "i < length ess" for i
    using assms(1) that by (simp add: inner_ok_def)
  have key: "get_key h m i = fst (?es ! nat i)" if "0 \<le> i" "i < ?n" for i
    using node_entries_nth [of "nat i" m h] that by simp
  have less: "key_less h (fst (?es ! i)) (fst (?es ! j))" if "0 < i" "i < j" "j < length ess" for i j
  proof -
    have "sorted_wrt (key_less h) (map fst (tl ?es))" using assms(1) by (simp add: inner_ok_def)
    then have "key_less h (map fst (tl ?es) ! (i - 1)) (map fst (tl ?es) ! (j - 1))"
      by (rule sorted_wrt_nth_less) (use that n(3) in simp_all)
    then show ?thesis using that n(3) by (simp add: nth_tl)
  qed
  let ?P = "\<lambda>k. ix_compare k key (ix_cols h) \<le> 0"
  have mono: "?P (get_key h m i)" if "1 \<le> i" "i \<le> j" "j < ?n" "?P (get_key h m j)" for i j
  proof (cases "i = j")
    case False
    have l: "0 < nat i" "0 < nat j" "nat i < length ess" "nat j < length ess" using that n(1) by linarith+
    have "key_less h (fst (?es ! nat i)) (fst (?es ! nat j))" using that l False by (intro less) auto
    moreover have "ix_compare (fst (?es ! nat j)) key (ix_cols h) \<le> 0" using that key [of j] by simp
    ultimately have "key_less h (fst (?es ! nat i)) key"
      by (rule key.cmp_less_le_trans [OF ko [OF l(1,3)] ko [OF l(2,4)] assms(2)])
    then show ?thesis using that key [of i] by simp
  qed (use that in simp)
  let ?b = "node_upper_bound h m key"
  have "?P = (\<lambda>k. if True then ix_compare k key (ix_cols h) \<le> 0 else ix_compare k key (ix_cols h) < 0)" by simp
  from bound_loop_spec [where m = m and left = 1 and right = "?n" and P = ?P and le = True and target = key and h = h,
      OF _ one mono this]
  have b: "1 \<le> ?b" "?b \<le> ?n" "\<And>i. 1 \<le> i \<Longrightarrow> i < ?b \<Longrightarrow> ?P (get_key h m i)" "\<And>i. ?b \<le> i \<Longrightarrow> i < ?n \<Longrightarrow> \<not> ?P (get_key h m i)"
    by (simp_all add: node_upper_bound_def)
  let ?c = "nat (?b - 1)"
  have c: "?c < length ess" using b(1,2) n(1) by linarith
  have "internal_lookup h m key = page_no (snd (?es ! ?c))"
    using node_entries_nth [of ?c m h] b(1,2) c n by (simp add: internal_lookup_def value_at_def)
  moreover have "\<not> key_less h key (fst (?es ! i))" if "0 < i" "i \<le> ?c" for i
  proof -
    have i: "1 \<le> int i" "int i < ?b" "int i < ?n" "i < length ess" using that b(1,2) c by linarith+
    have "?P (fst (?es ! i))" using b(3) [OF i(1,2)] key [of "int i"] i(3) by simp
    then show ?thesis using key.cmp_flip [OF ko assms(2), of i] that(1) i(4) by simp
  qed
  moreover have "key_less h key (fst (?es ! i))" if "?c < i" "i < length ess" for i
  proof -
    have i: "?b \<le> int i" "int i < ?n" using that b(1) n(1) by linarith+
    have "\<not> ?P (fst (?es ! i))" using b(4) [OF i] key [of "int i"] i(2) by simp
    then show ?thesis using key.cmp_anti [OF assms(2) ko, of i] that by simp
  qed
  ultimately show thesis using that [OF c] by blast
qed

lemma ix_find_child:
  assumes "inner_ok h m ess" "key_ok (ix_cols h) key" "entries_ok h (concat ess)" "c < length ess"
    "\<And>i. 0 < i \<Longrightarrow> i \<le> c \<Longrightarrow> \<not> key_less h key (fst (node_entries h m ! i))"
    "\<And>i. c < i \<Longrightarrow> i < length ess \<Longrightarrow> key_less h key (fst (node_entries h m ! i))"
  shows "ix_find h key (concat ess) = ix_find h key (ess ! c)"
proof -
  let ?k = "\<lambda>i. fst (node_entries h m ! i)"
  have in_ok: "key_ok (ix_cols h) (fst e)" if "i < length ess" "e \<in> set (ess ! i)" for i e
    using assms(3) that by (intro entries_key_ok [of h "concat ess"]) (auto simp: in_set_conv_nth intro!: bexI [of _ "ess ! i"])
  have sep: "key_ok (ix_cols h) (?k i)" "\<forall>e \<in> set (ess ! (i - 1)). key_less h (fst e) (?k i)"
    "\<forall>e \<in> set (ess ! i). \<not> key_less h (fst e) (?k i)" if "0 < i" "i < length ess" for i
    using assms(1) that by (auto simp: inner_ok_def)
  have before: "\<not> same_key h (fst e) key" if i: "i < c" and e: "e \<in> set (ess ! i)" for i e
  proof -
    have "key_less h (fst e) (?k (i + 1))" using sep(2) [of "i + 1"] i e assms(4) by simp
    moreover have "ix_compare (?k (i + 1)) key (ix_cols h) \<le> 0"
      using assms(5) [of "i + 1"] key.cmp_flip [OF sep(1) assms(2), of "i + 1"] i assms(4) by simp
    ultimately show ?thesis
      using key.cmp_less_le_trans [OF in_ok sep(1) assms(2), of i e "i + 1"] i e assms(4) by fastforce
  qed
  have after: "\<not> same_key h (fst e) key" if i: "c < i" "i < length ess" and e: "e \<in> set (ess ! i)" for i e
  proof -
    have k: "key_ok (ix_cols h) (fst e)" "key_ok (ix_cols h) (?k i)" using in_ok sep(1) i e by auto
    have "ix_compare (?k i) (fst e) (ix_cols h) \<le> 0" using sep(3) [of i] i e key.cmp_flip [OF k(2,1)] by auto
    then have "key_less h key (fst e)"
      using key.cmp_less_le_trans [OF assms(2) k(2,1)] assms(6) [OF i] by blast
    then show ?thesis using key_less_not_same [OF k(1) assms(2)] by blast
  qed
  have "ess = take c ess @ ess ! c # drop (Suc c) ess" by (rule id_take_nth_drop [OF assms(4)])
  then have cc: "concat ess = concat (take c ess) @ ess ! c @ concat (drop (Suc c) ess)"
    by (metis concat.simps(2) concat_append)
  have none1: "List.find (\<lambda>e. same_key h (fst e) key) (concat (take c ess)) = None"
    unfolding find_None_iff
  proof
    assume "\<exists>e. e \<in> set (concat (take c ess)) \<and> same_key h (fst e) key"
    then obtain e es where e: "es \<in> set (take c ess)" "e \<in> set es" "same_key h (fst e) key" by auto
    then obtain i where "i < c" "es = ess ! i" by (auto simp: in_set_conv_nth)
    with before e show False by auto
  qed
  have none2: "List.find (\<lambda>e. same_key h (fst e) key) (concat (drop (Suc c) ess)) = None"
    unfolding find_None_iff
  proof
    assume "\<exists>e. e \<in> set (concat (drop (Suc c) ess)) \<and> same_key h (fst e) key"
    then obtain e es where e: "es \<in> set (drop (Suc c) ess)" "e \<in> set es" "same_key h (fst e) key" by auto
    then obtain i where i: "i < length ess - Suc c" "es = ess ! (Suc c + i)" using assms(4) by (auto simp: in_set_conv_nth)
    then have "c < Suc c + i" "Suc c + i < length ess" by simp_all
    from after [OF this] e i(2) show False by auto
  qed
  show ?thesis unfolding ix_find_def cc find_append none1 none2 by (simp split: option.split)
qed


text \<open>A fetch of a node of the index failed with the error \<open>e\<close>, on a pool that stands for \<open>st\<close>.\<close>

definition node_fetch_failed :: "ix_file \<Rightarrow> (page_id \<rightharpoonup> bytes) \<Rightarrow> rmdb_error \<Rightarrow> bool" where
  "node_fetch_failed ih st e \<longleftrightarrow> (\<exists>no s x. known s st \<and> st (PageId (ix_fd ih) no) \<noteq> None \<and> fetch_node no (s, ih) = (Inl e, x))"

lemma ix_tree_page: "ix_tree ih st n no es \<Longrightarrow> st (PageId (ix_fd ih) no) \<noteq> None"
  by (cases n) auto

lemma fetch_node_run:
  assumes "known s st" "st (PageId (ix_fd ih) no) = Some b"
  shows "(\<exists>e x. fetch_node no (s, ih) = (Inl e, x) \<and> node_fetch_failed ih st e) \<or>
    (\<exists>f s' m. fetch_node no (s, ih) = (Inr f, s', ih) \<and> held s' st (PageId (ix_fd ih) no) f m \<and>
      clean_ok s' (PageId (ix_fd ih) no) f \<and> mread m 0 PAGE_SIZE = b)"
proof -
  obtain r s' where f: "fetch_page (PageId (ix_fd ih) no) s = (r, s')" by (meson surj_pair)
  show ?thesis
  proof (cases "\<exists>g. r = Inr (Some g)")
    case True
    with f obtain g where g: "fetch_page (PageId (ix_fd ih) no) s = (Inr (Some g), s')" by blast
    from fetch_held [OF assms g] show ?thesis using g by (auto simp: fetch_node_def)
  next
    case False
    obtain e x where "fetch_node no (s, ih) = (Inl e, x)"
    proof (cases r)
      case (Inl e)
      show ?thesis by (rule that [of e "(s', ih)"]) (simp add: fetch_node_def f Inl)
    next
      case (Inr q)
      with False f have "q = None" by (cases q) auto
      with Inr show ?thesis by (intro that [of AssertionFailure "(s', ih)"]) (simp add: fetch_node_def f)
    qed
    then show ?thesis using assms unfolding node_fetch_failed_def by blast
  qed
qed

lemma frame_mem_held: "held s st pid f m \<Longrightarrow> frame_mem s f = m" "held s st pid f m \<Longrightarrow> frame_id s f = pid"
  by (simp_all add: held_def frame_mem_def frame_id_def)

lemma ix_unpin_clean:
  assumes "held s st pid f m" "clean_ok s pid f"
  shows "\<exists>s'. ix_unpin f False (s, ih) = (Inr (), s', ih) \<and> known s' st"
  using unpin_held [OF assms(1), of False] assms(2) frame_mem_held(2) [OF assms(1)] by (auto simp: ix_unpin_def run_simps)

text \<open>A page of the tree as the frame it is held in shows it.\<close>

lemma held_node:
  assumes "st pid = Some b" "held s st pid f m"
  shows "same_page (mem_of b) m"
  using assms same_page_mem_of by (auto simp: held_def)

lemma descend_run:
  assumes "ix_tree ih st n no es" "key_ok (ix_cols (ix_hdr ih)) key"
    "held s st (PageId (ix_fd ih) no) f m" "clean_ok s (PageId (ix_fd ih) no) f"
  shows "(\<exists>e x. descend key False f (s, ih) = Some (Inl e, x) \<and> node_fetch_failed ih st e) \<or>
    (\<exists>g s' no' m'. descend key False f (s, ih) = Some (Inr g, s', ih) \<and> held s' st (PageId (ix_fd ih) no') g m' \<and>
      clean_ok s' (PageId (ix_fd ih) no') g \<and> is_leaf_page m' \<and> node_ok (ix_hdr ih) m' \<and>
      ix_find (ix_hdr ih) key (node_entries (ix_hdr ih) m') = ix_find (ix_hdr ih) key es)"
  using assms
proof (induction n arbitrary: no es s f m)
  case 0
  let ?h = "ix_hdr ih"
  obtain b where b: "st (PageId (ix_fd ih) no) = Some b" "is_leaf_page (mem_of b)" "node_ok ?h (mem_of b)"
    "node_entries ?h (mem_of b) = es" using "0.prems"(1) by auto
  note same = held_node [OF b(1) "0.prems"(3)]
  have m: "is_leaf_page m" "node_ok ?h m" "node_entries ?h m = es"
    using same_page_node_header(2) [OF same] same_page_node_ok [OF same b(3)] b by auto
  have "descend key False f (s, ih) = Some (Inr f, s, ih)"
    using m(1) frame_mem_held(1) [OF "0.prems"(3)]
    by (subst descend.simps) (simp add: pThen_def pdo_def ix_look_def run_simps)
  with m "0.prems"(3,4) show ?case by blast
next
  case (Suc n)
  let ?h = "ix_hdr ih"
  obtain b ess where b: "st (PageId (ix_fd ih) no) = Some b" "\<not> is_leaf_page (mem_of b)" "inner_ok ?h (mem_of b) ess"
    "es = concat ess" "entries_ok ?h es"
    and ch: "\<forall>i < length ess. ix_tree ih st n (page_no (snd (node_entries ?h (mem_of b) ! i))) (ess ! i)"
    using Suc.prems(1) by auto
  note same = held_node [OF b(1) Suc.prems(3)]
  have fit: "ix_layout ?h" "node_fits ?h (mem_of b)" using b(3) by (auto simp: inner_ok_def)
  have ent: "node_entries ?h m = node_entries ?h (mem_of b)" using same_page_entries [OF same fit] by simp
  have inner: "inner_ok ?h m ess" "\<not> is_leaf_page m"
    using b(2,3) same_page_node_header(1,2) [OF same] by (auto simp: inner_ok_def ent node_fits_def)
  from upper_bound_child [OF inner(1) Suc.prems(2)] obtain c where c: "c < length ess"
    "internal_lookup ?h m key = page_no (snd (node_entries ?h m ! c))"
    and side: "\<And>i. 0 < i \<Longrightarrow> i \<le> c \<Longrightarrow> \<not> key_less ?h key (fst (node_entries ?h m ! i))"
      "\<And>i. c < i \<Longrightarrow> i < length ess \<Longrightarrow> key_less ?h key (fst (node_entries ?h m ! i))" by blast
  let ?child = "page_no (snd (node_entries ?h m ! c))"
  have find: "ix_find ?h key es = ix_find ?h key (ess ! c)"
    unfolding b(4) by (rule ix_find_child [OF inner(1) Suc.prems(2) _ c(1) side]) (use b in simp_all)
  obtain s1 where u: "ix_unpin f False (s, ih) = (Inr (), s1, ih)" "known s1 st" using ix_unpin_clean [OF Suc.prems(3,4)] by blast
  have step: "descend key False f (s, ih) = (case fetch_node ?child (s1, ih) of (Inl e, x) \<Rightarrow> Some (Inl e, x)
      | (Inr g, x) \<Rightarrow> descend key False g x)"
    using inner(2) frame_mem_held(1) [OF Suc.prems(3)] c(2) u(1)
    by (subst descend.simps) (simp add: pThen_def pdo_def ix_look_def run_simps split: prod.split sum.split)
  have tree: "ix_tree ih st n ?child (ess ! c)" using ch c(1) by (simp add: ent)
  then obtain b' where b': "st (PageId (ix_fd ih) ?child) = Some b'" using ix_tree_page by blast
  from fetch_node_run [OF u(2) b'] show ?case
  proof (elim disjE exE conjE)
    fix e x assume "fetch_node ?child (s1, ih) = (Inl e, x)" "node_fetch_failed ih st e"
    with step show ?thesis by auto
  next
    fix g s2 m2 assume g: "fetch_node ?child (s1, ih) = (Inr g, s2, ih)" "held s2 st (PageId (ix_fd ih) ?child) g m2"
      "clean_ok s2 (PageId (ix_fd ih) ?child) g"
    from Suc.IH [OF tree Suc.prems(2) g(2,3)] find step g(1) show ?thesis by simp
  qed
qed

text \<open>
  Claim C13. Looking a key up in the tree: in every file that holds a B+ tree, of any height, the
  descent ends and returns the record position stored with the key, or nothing if the key is not in
  the tree, leaving every page as it was; it fails only when the pool cannot bring in a node.
\<close>

theorem get_value_correct:
  assumes "known s st" "ix_tree ih st n (root_page (ix_hdr ih)) es" "key_ok (ix_cols (ix_hdr ih)) key"
  shows "(\<exists>e x. get_value key (s, ih) = Some (Inl e, x) \<and> node_fetch_failed ih st e) \<or>
    (\<exists>s'. get_value key (s, ih) = Some (Inr (ix_find (ix_hdr ih) key es), s', ih) \<and> known s' st)"
proof -
  let ?h = "ix_hdr ih" and ?r = "root_page (ix_hdr ih)"
  obtain b where b: "st (PageId (ix_fd ih) ?r) = Some b" using ix_tree_page [OF assms(2)] by blast
  from fetch_node_run [OF assms(1) b] show ?thesis
  proof (elim disjE exE conjE)
    fix e x assume "fetch_node ?r (s, ih) = (Inl e, x)" "node_fetch_failed ih st e"
    then show ?thesis by (cases x) (simp add: get_value_def find_leaf_page_def pThen_def pdo_def)
  next
    fix f s1 m assume f: "fetch_node ?r (s, ih) = (Inr f, s1, ih)" "held s1 st (PageId (ix_fd ih) ?r) f m"
      "clean_ok s1 (PageId (ix_fd ih) ?r) f"
    have find: "find_leaf_page key False (s, ih) = descend key False f (s1, ih)"
      using f(1) by (simp add: find_leaf_page_def pThen_def pdo_def)
    from descend_run [OF assms(2,3) f(2,3)] show ?thesis
    proof (elim disjE exE conjE)
      fix e x assume "descend key False f (s1, ih) = Some (Inl e, x)" "node_fetch_failed ih st e"
      with find show ?thesis by (cases x) (simp add: get_value_def pThen_def)
    next
      fix g s2 no m' assume g: "descend key False f (s1, ih) = Some (Inr g, s2, ih)" "held s2 st (PageId (ix_fd ih) no) g m'"
        "clean_ok s2 (PageId (ix_fd ih) no) g" "node_ok ?h m'" "ix_find ?h key (node_entries ?h m') = ix_find ?h key es"
      obtain s3 where u: "ix_unpin g False (s2, ih) = (Inr (), s3, ih)" "known s3 st" using ix_unpin_clean [OF g(2,3)] by blast
      have "get_value key (s, ih) = Some (Inr (leaf_lookup ?h m' key), s3, ih)"
        using find g(1) u(1) frame_mem_held(1) [OF g(2)]
        by (simp add: get_value_def pThen_def pdo_def ix_look_def run_simps)
      then show ?thesis using u(2) leaf_lookup_entries [OF g(4) assms(3)] g(5) by simp
    qed
  qed
qed

text \<open>An index whose root is a leaf with one entry.\<close>

definition ix_ex_leaf :: mem where "ix_ex_leaf = set_is_leaf True node_ex"

definition ix_ex_file :: ix_file where "ix_ex_file = \<lparr>ix_fd = 3, ix_hdr = ix_ex\<rparr>"

lemma ix_ex_known: "known (one_page_pool 2 ix_ex_leaf) [PageId 3 2 \<mapsto> mread ix_ex_leaf 0 PAGE_SIZE]"
  by (rule one_page_known) (simp add: valid_no_def)

lemma node_ex_entries: "node_entries ix_ex node_ex = [(le_encode 4 7, Rid 1 0)]"
proof -
  have "node_entries ix_ex mzero = []" unfolding length_0_conv [symmetric] using ix_ex_facts(4) by (simp add: node_entries_def)
  then show ?thesis
    using node_insert_entries(1) [OF ix_ex_facts(3,2), of "Rid 1 0" 7 "fst (node_insert ix_ex (le_encode 4 7) (Rid 1 0) mzero)" node_ex]
    by (simp add: node_ex_def ix_ex_facts rid_fits_def in_signed_def ix_ins_def ix_find_def)
qed

lemma ix_ex_tree:
  "ix_tree ix_ex_file [PageId 3 2 \<mapsto> mread ix_ex_leaf 0 PAGE_SIZE] 0 (root_page (ix_hdr ix_ex_file)) [(le_encode 4 7, Rid 1 0)]"
proof -
  have ok: "node_ok ix_ex ix_ex_leaf" "node_entries ix_ex ix_ex_leaf = [(le_encode 4 7, Rid 1 0)]"
    using set_is_leaf_node_ok [OF node_ex_ok] by (simp_all add: ix_ex_leaf_def node_ex_entries)
  note same = same_page_mem_of [of ix_ex_leaf]
  have sym: "same_page ix_ex_leaf (mem_of (mread ix_ex_leaf 0 PAGE_SIZE))" using same by (simp add: same_page_def)
  have "is_leaf_page ix_ex_leaf" by (simp add: is_leaf_page_def ix_ex_leaf_def set_is_leaf_def)
  then show ?thesis
    using same_page_node_ok [OF sym ok(1)] same_page_node_header(2) [OF same] ok(2)
    by (simp add: ix_ex_file_def ix_ex_def [THEN arg_cong [where f = root_page]])
qed

theorem get_value_correct_witness:
  "(\<exists>e x. get_value (le_encode 4 7) (one_page_pool 2 ix_ex_leaf, ix_ex_file) = Some (Inl e, x) \<and>
      node_fetch_failed ix_ex_file [PageId 3 2 \<mapsto> mread ix_ex_leaf 0 PAGE_SIZE] e) \<or>
    (\<exists>s'. get_value (le_encode 4 7) (one_page_pool 2 ix_ex_leaf, ix_ex_file) = Some (Inr (Some (Rid 1 0)), s', ix_ex_file) \<and>
      known s' [PageId 3 2 \<mapsto> mread ix_ex_leaf 0 PAGE_SIZE])"
proof -
  have hdr: "ix_hdr ix_ex_file = ix_ex" by (simp add: ix_ex_file_def)
  have key: "key_ok (ix_cols (ix_hdr ix_ex_file)) (le_encode 4 7)" by (simp add: hdr ix_ex_facts(2))
  have "same_key ix_ex (le_encode 4 7) (le_encode 4 7)"
    using key key.cmp_refl [of "ix_cols ix_ex"] by (simp add: hdr)
  then have find: "ix_find (ix_hdr ix_ex_file) (le_encode 4 7) [(le_encode 4 7, Rid 1 0)] = Some (Rid 1 0)"
    by (simp add: hdr ix_find_def)
  show ?thesis using get_value_correct [OF ix_ex_known ix_ex_tree key] unfolding find .
qed

section \<open>New and reopened index files\<close>

text \<open>
  Claim C35. The header \<open>create_index\<close> computes: for keys of one up to 512 bytes the order is above
  two, as the source asserts, and a node with one entry more than the order still fits its page, keys
  and positions apart from each other and from the page header.
\<close>

theorem new_index_layout:
  assumes "1 \<le> sum_list (map snd cols)" "sum_list (map snd cols) \<le> IX_MAX_COL_LEN"
  shows "ix_layout (new_ix_hdr cols) \<and> 2 < btree_order (new_ix_hdr cols) \<and>
    int IX_PAGE_HDR_SIZE + (get_max_size (new_ix_hdr cols) + 1) * (col_tot_len (new_ix_hdr cols) + 8) > int PAGE_SIZE"
proof -
  define t where "t = sum_list (map snd cols)"
  define q where "q = (4072::int) div (t + 8)"
  have t: "1 \<le> t" "t \<le> 512" using assms by (simp_all add: t_def IX_MAX_COL_LEN_def)
  have "4072 div 520 \<le> q" unfolding q_def by (rule zdiv_mono2) (use t in simp_all)
  then have q7: "7 \<le> q" by simp
  have fit: "q * (t + 8) \<le> 4072" using pos_mod_sign [of "t + 8" 4072] t unfolding q_def minus_div_mult_eq_mod [symmetric] by simp
  have tight: "4072 < (q + 1) * (t + 8)"
  proof -
    have "4072 - q * (t + 8) < t + 8" using t pos_mod_bound [of "t + 8" 4072] unfolding q_def minus_div_mult_eq_mod by simp
    then show ?thesis by (simp add: algebra_simps)
  qed
  have h: "btree_order (new_ix_hdr cols) = q - 1" "col_tot_len (new_ix_hdr cols) = t" "keys_size (new_ix_hdr cols) = q * t"
    by (simp_all add: new_ix_hdr_def update_tot_len_def Let_def t_def [symmetric] q_def PAGE_SIZE_def IX_PAGE_HDR_SIZE_def)
  show ?thesis
    using t q7 fit tight by (simp add: ix_layout_def get_max_size_def h IX_PAGE_HDR_SIZE_def PAGE_SIZE_def algebra_simps)
qed

theorem new_index_layout_witness: "btree_order (new_ix_hdr [(TYPE_INT, 4), (TYPE_STRING, 508)]) > 2"
  using new_index_layout [of "[(TYPE_INT, 4), (TYPE_STRING, 508)]"] by (simp add: IX_MAX_COL_LEN_def)

text \<open>
  An index opened by a process that has not created it (the descriptor's next page number is
  still zero) hands out page 1, the leaf header of the file, as the next new node, whatever number of
  pages the header holds.
\<close>

theorem reopened_index_reuses_page:
  assumes "open_index_file ix_name s = (Inr ih, s')" "fd2pageno (st_disk s) = (\<lambda>_. 0)" "ix_fd ih < MAX_FD" "0 \<le> ix_fd ih"
  shows "fst (allocate_page (ix_fd ih) (st_disk s')) = Inr IX_LEAF_HEADER_PAGE"
proof -
  obtain fd s1 where op: "on_disk (open_file ix_name) s = (Inr fd, s1)"
    using assms(1) by (auto simp: open_index_file_def andThen_def split: sum.splits prod.splits)
  have "fd2pageno (st_disk s1) = fd2pageno (st_disk s)"
    using op by (auto simp: on_disk_def zoom_def open_file_def os_open_def Let_def split: if_splits prod.splits)
  then have "st_disk s' = set_fd2pageno fd 1 (st_disk s1) \<and> ix_fd ih = fd"
    using assms(1,2) op by (auto simp: open_index_file_def andThen_def Let_def split: sum.splits prod.splits if_splits)
  then show ?thesis using assms(3,4) by (simp add: allocate_page_def set_fd2pageno_def IX_LEAF_HEADER_PAGE_def)
qed

text \<open>A disk with an index file \<open>i\<close> on one column, as \<open>create_index\<close> leaves its first page.\<close>

definition reopened_ex :: storage where
  "reopened_ex = (let b = ix_serialize (new_ix_hdr [(TYPE_INT, 4)])
     in pool_new 1 (disk_new [''i'' \<mapsto> b @ replicate (PAGE_SIZE - length b) 0] [0, 1, 2]) log_manager_new True)"

theorem reopened_index_reuses_page_witness:
  "\<exists>ih s. open_index_file ''i'' reopened_ex = (Inr ih, s) \<and> ix_num_pages (ix_hdr ih) = 3 \<and>
    fst (allocate_page (ix_fd ih) (st_disk s)) = Inr IX_LEAF_HEADER_PAGE"
proof -
  let ?h = "new_ix_hdr [(TYPE_INT, 4)]"
  let ?b = "ix_serialize ?h" let ?f = "?b @ replicate (PAGE_SIZE - length ?b) 0"
  have h: "ix_hdr_fits ?h" "tot_len ?h = ix_hdr_len ?h" "ix_num_pages ?h = 3"
    by (simp_all add: ix_hdr_fits_def new_ix_hdr_def Let_def PAGE_SIZE_def IX_PAGE_HDR_SIZE_def in_signed_def ix_hdr_len_def
        update_tot_len_def IX_NO_PAGE_def IX_INIT_NUM_PAGES_def IX_INIT_ROOT_PAGE_def)
  have len: "length ?b = 48" by (simp add: ix_serialize_def new_ix_hdr_def Let_def update_tot_len_def)
  then have f: "length ?f = PAGE_SIZE" by (simp add: PAGE_SIZE_def)
  have "holds (mwrite mzero 0 ?f) 0 (?b @ replicate (PAGE_SIZE - length ?b) 0)" by (rule holds_mwrite)
  then have "holds (mwrite mzero 0 ?f) 0 ?b" by (simp add: holds_append)
  then have hd: "ix_deserialize (mwrite mzero 0 ?f) = ?h" using ix_header_run [OF h(1)] by blast
  have st: "st_disk reopened_ex = disk_new [''i'' \<mapsto> ?f] [0, 1, 2]" by (simp add: reopened_ex_def Let_def pool_new_def)
  obtain ih s where run: "open_index_file ''i'' reopened_ex = (Inr ih, s)" and ih: "ih = \<lparr>ix_fd = 3, ix_hdr = ?h\<rparr>"
    using h hd f by (simp add: open_index_file_def andThen_def on_disk_def zoom_def st open_file_def is_file_def disk_new_def
        os_open_def lowest_fd_def upt_conv_Cons read_page_def fd_bytes_def page_offset_def IX_FILE_HDR_PAGE_def pread_def to_signed_def Let_def)
  with reopened_index_reuses_page [OF run] h st show ?thesis by (auto simp: disk_new_def MAX_FD_def)
qed

end
