(* ===== verification/Catalog.thy ===== *)
theory Catalog
  imports Values "HOL-Library.List_Lexorder" "HOL-Library.Char_ord"
begin

text \<open>
  The metadata of a database (\<^verbatim>\<open>src/src/system/sm_meta.h\<close>): columns, indexes, tables and the map of
  tables, with the text form in which \<^verbatim>\<open>operator<<\<close> writes them to \<^verbatim>\<open>db.meta\<close> and
  \<^verbatim>\<open>operator>>\<close> reads them back. A stream in its failed state is \<open>None\<close>.
\<close>

section \<open>Ordered maps\<close>

text \<open>\<^verbatim>\<open>std::map<std::string, T>\<close>: the entries in the order of their keys.\<close>

type_synonym 'v smap = "(string \<times> 'v) list"

fun smap_put :: "string \<Rightarrow> 'v \<Rightarrow> 'v smap \<Rightarrow> 'v smap" where
  "smap_put k v [] = [(k, v)]"
| "smap_put k v ((k', v') # es) =
     (if k = k' then (k, v) # es else if k < k' then (k, v) # (k', v') # es else (k', v') # smap_put k v es)"

definition smap_erase :: "string \<Rightarrow> 'v smap \<Rightarrow> 'v smap" where
  "smap_erase k es = filter (\<lambda>e. fst e \<noteq> k) es"

definition smap_ok :: "'v smap \<Rightarrow> bool" where
  "smap_ok es \<longleftrightarrow> sorted_wrt (<) (map fst es)"

lemma smap_put_lookup [simp]: "map_of (smap_put k v es) = (map_of es)(k \<mapsto> v)"
  by (induction es) (auto simp: fun_upd_twist)

lemma smap_erase_lookup [simp]: "map_of (smap_erase k es) = (map_of es)(k := None)"
  by (induction es) (auto simp: smap_erase_def)

lemma smap_put_keys [simp]: "fst ` set (smap_put k v es) = insert k (fst ` set es)"
  using smap_put_lookup [of k v es] by (metis dom_fun_upd dom_map_of_conv_image_fst option.distinct(1))

lemma smap_put_ok: "smap_ok es \<Longrightarrow> smap_ok (smap_put k v es)"
proof (induction es)
  case (Cons e es)
  obtain k' v' where e: "e = (k', v')" by (cases e)
  have tail: "smap_ok es" "\<forall>x \<in> set es. k' < fst x" using Cons.prems by (auto simp: smap_ok_def e)
  consider "k = k'" | "k < k'" | "k' < k" by (rule linorder_cases)
  then show ?case
  proof cases
    case 3
    have "\<forall>x \<in> fst ` set (smap_put k v es). k' < x" using tail(2) 3 by auto
    then show ?thesis using Cons.IH [OF tail(1)] 3 by (auto simp: smap_ok_def e)
  qed (use Cons.prems in \<open>auto simp: smap_ok_def e intro: less_trans\<close>)
qed (simp add: smap_ok_def)

lemma smap_erase_ok: "smap_ok es \<Longrightarrow> smap_ok (smap_erase k es)"
  unfolding smap_ok_def smap_erase_def by (induction es) auto

lemma smap_put_last: "smap_ok (es @ [(k, v)]) \<Longrightarrow> smap_put k v es = es @ [(k, v)]"
  by (induction es) (auto simp: smap_ok_def)

section \<open>Columns, indexes and tables\<close>

record col_meta =
  cm_tab :: string
  cm_name :: string
  cm_type :: coltype
  cm_len :: int
  cm_offset :: int
  cm_index :: bool

record index_meta =
  im_tab :: string
  im_tot_len :: int
  im_num :: int
  im_cols :: "col_meta list"

record tab_meta =
  tm_name :: string
  tm_cols :: "col_meta list"
  tm_indexes :: "index_meta list"

definition tab_meta_new :: tab_meta where
  "tab_meta_new = \<lparr>tm_name = '''', tm_cols = [], tm_indexes = []\<rparr>"

text \<open>The copy constructor of \<open>TabMeta\<close> leaves the indexes out.\<close>

definition tab_meta_copy :: "tab_meta \<Rightarrow> tab_meta" where
  "tab_meta_copy t = tab_meta_new\<lparr>tm_name := tm_name t, tm_cols := tm_cols t\<rparr>"

definition is_col :: "string \<Rightarrow> tab_meta \<Rightarrow> bool" where
  "is_col c t \<longleftrightarrow> (\<exists>x \<in> set (tm_cols t). cm_name x = c)"

text \<open>
  The test of \<open>is_index\<close> and \<open>get_index_meta\<close> on one index. An index with fewer columns than its
  \<^verbatim>\<open>col_num\<close> says is read out of bounds by the source; the test fails here.
\<close>

definition index_on :: "string list \<Rightarrow> index_meta \<Rightarrow> bool" where
  "index_on names im \<longleftrightarrow> im_num im = int (length names) \<and> length names \<le> length (im_cols im) \<and>
     (\<forall>i < length names. cm_name (im_cols im ! i) = names ! i)"

definition is_index :: "string list \<Rightarrow> tab_meta \<Rightarrow> bool" where
  "is_index names t \<longleftrightarrow> (\<exists>im \<in> set (tm_indexes t). index_on names im)"

definition get_index_meta :: "string list \<Rightarrow> tab_meta \<Rightarrow> rmdb_error + index_meta" where
  "get_index_meta names t = (case find (index_on names) (tm_indexes t) of
     Some im \<Rightarrow> Inr im | None \<Rightarrow> Inl (IndexNotFoundError (tm_name t) names))"

text \<open>\<^verbatim>\<open>tab.indexes.erase(index_meta)\<close> of the position \<open>get_index_meta\<close> found.\<close>

fun erase_first :: "('a \<Rightarrow> bool) \<Rightarrow> 'a list \<Rightarrow> 'a list" where
  "erase_first p [] = []"
| "erase_first p (x # xs) = (if p x then xs else x # erase_first p xs)"

definition tab_get_col :: "string \<Rightarrow> tab_meta \<Rightarrow> rmdb_error + col_meta" where
  "tab_get_col c t = (case find (\<lambda>x. cm_name x = c) (tm_cols t) of
     Some x \<Rightarrow> Inr x | None \<Rightarrow> Inl (ColumnNotFoundError c))"

record db_meta =
  db_name :: string
  db_tabs :: "tab_meta smap"

definition is_table :: "string \<Rightarrow> db_meta \<Rightarrow> bool" where
  "is_table t d \<longleftrightarrow> map_of (db_tabs d) t \<noteq> None"

definition SetTabMeta :: "string \<Rightarrow> tab_meta \<Rightarrow> db_meta \<Rightarrow> db_meta" where
  "SetTabMeta t m d = d\<lparr>db_tabs := smap_put t m (db_tabs d)\<rparr>"

definition get_table :: "string \<Rightarrow> db_meta \<Rightarrow> rmdb_error + tab_meta" where
  "get_table t d = (case map_of (db_tabs d) t of Some m \<Rightarrow> Inr m | None \<Rightarrow> Inl (TableNotFoundError t))"

section \<open>Writing the metadata\<close>

definition put_int :: "int \<Rightarrow> string" where
  "put_int i = (if i < 0 then ''-'' else '''') @ digits (nat \<bar>i\<bar>)"

definition nl :: string where "nl = [char_of (10 :: nat)]"

definition put_col :: "col_meta \<Rightarrow> string" where
  "put_col c = cm_tab c @ '' '' @ cm_name c @ '' '' @ put_int (coltype_no (cm_type c)) @ '' '' @ put_int (cm_len c) @ '' '' @
     put_int (cm_offset c) @ '' '' @ put_int (if cm_index c then 1 else 0)"

definition put_index :: "index_meta \<Rightarrow> string" where
  "put_index im = im_tab im @ '' '' @ put_int (im_tot_len im) @ '' '' @ put_int (im_num im) @
     concat (map (\<lambda>c. nl @ put_col c) (im_cols im))"

definition put_tab :: "tab_meta \<Rightarrow> string" where
  "put_tab t = tm_name t @ nl @ put_int (int (length (tm_cols t))) @ nl @ concat (map (\<lambda>c. put_col c @ nl) (tm_cols t)) @
     put_int (int (length (tm_indexes t))) @ nl @ concat (map (\<lambda>im. put_index im @ nl) (tm_indexes t))"

definition put_db :: "db_meta \<Rightarrow> string" where
  "put_db d = db_name d @ nl @ put_int (int (length (db_tabs d))) @ nl @ concat (map (\<lambda>e. put_tab (snd e) @ nl) (db_tabs d))"

section \<open>Reading the metadata\<close>

type_synonym 'a reader = "string \<Rightarrow> ('a \<times> string) option"

definition rbind :: "'a reader \<Rightarrow> ('a \<Rightarrow> 'b reader) \<Rightarrow> 'b reader" where
  "rbind p f s = (case p s of None \<Rightarrow> None | Some (a, r) \<Rightarrow> f a r)"

definition rret :: "'a \<Rightarrow> 'a reader" where
  "rret a s = Some (a, s)"

definition is_blank :: "char \<Rightarrow> bool" where
  "is_blank c \<longleftrightarrow> (let n = of_char c :: nat in n = 32 \<or> (9 \<le> n \<and> n \<le> 13))"

definition get_word :: "string reader" where
  "get_word s = (let r = dropWhile is_blank s; w = takeWhile (\<lambda>c. \<not> is_blank c) r
     in if w = [] then None else Some (w, drop (length w) r))"

definition dec_val :: "string \<Rightarrow> int" where
  "dec_val ds = foldl (\<lambda>a c. a * 10 + dig c) 0 ds"

text \<open>A number of \<open>w\<close> signed bytes; one that does not fit fails the stream.\<close>

definition get_num :: "nat \<Rightarrow> int reader" where
  "get_num w s =
     (let r = dropWhile is_blank s;
          neg = (r \<noteq> [] \<and> hd r = CHR ''-'');
          body = (if neg \<or> (r \<noteq> [] \<and> hd r = CHR ''+'') then tl r else r);
          ds = takeWhile is_digit body;
          v = (if neg then - dec_val ds else dec_val ds)
      in if ds = [] \<or> \<not> in_signed w v then None else Some (v, drop (length ds) body))"

definition get_bool :: "bool reader" where
  "get_bool = rbind (get_num 8) (\<lambda>v. if v = 0 then rret False else if v = 1 then rret True else (\<lambda>_. None))"

fun repeat_read :: "nat \<Rightarrow> 'a reader \<Rightarrow> 'a list reader" where
  "repeat_read 0 p = rret []"
| "repeat_read (Suc n) p = rbind p (\<lambda>a. rbind (repeat_read n p) (\<lambda>as. rret (a # as)))"

definition read_col :: "col_meta reader" where
  "read_col = rbind get_word (\<lambda>t. rbind get_word (\<lambda>n. rbind (get_num 4) (\<lambda>ty. rbind (get_num 4) (\<lambda>l.
     rbind (get_num 4) (\<lambda>off. rbind get_bool (\<lambda>ix.
       rret \<lparr>cm_tab = t, cm_name = n, cm_type = coltype_of_no ty, cm_len = l, cm_offset = off, cm_index = ix\<rparr>))))))"

definition read_index :: "index_meta reader" where
  "read_index = rbind get_word (\<lambda>t. rbind (get_num 4) (\<lambda>tot. rbind (get_num 4) (\<lambda>n.
     rbind (repeat_read (nat n) read_col) (\<lambda>cs. rret \<lparr>im_tab = t, im_tot_len = tot, im_num = n, im_cols = cs\<rparr>))))"

text \<open>The counts are \<^verbatim>\<open>size_t\<close>; one of \<open>2 ^ 63\<close> or more is taken as a failure here.\<close>

definition read_tab :: "tab_meta reader" where
  "read_tab = rbind get_word (\<lambda>name. rbind (get_num 8) (\<lambda>n. rbind (repeat_read (nat n) read_col) (\<lambda>cs.
     rbind (get_num 8) (\<lambda>k. rbind (repeat_read (nat k) read_index) (\<lambda>ims.
       rret \<lparr>tm_name = name, tm_cols = cs, tm_indexes = ims\<rparr>)))))"

definition read_db :: "db_meta reader" where
  "read_db = rbind get_word (\<lambda>name. rbind (get_num 8) (\<lambda>n. rbind (repeat_read (nat n) read_tab) (\<lambda>ts.
     rret \<lparr>db_name = name, db_tabs = fold (\<lambda>t. smap_put (tm_name t) t) ts []\<rparr>)))"

section \<open>Reading back what was written\<close>

text \<open>
  \<open>p\<close> reads \<open>x\<close> from \<open>t\<close>, whatever blanks come before and whatever follows, provided a blank or the end
  of the text does; it may leave blanks of \<open>t\<close> behind.
\<close>

definition stops :: "string \<Rightarrow> bool" where
  "stops r \<longleftrightarrow> r = [] \<or> is_blank (hd r)"

definition reads_back :: "'a reader \<Rightarrow> string \<Rightarrow> 'a \<Rightarrow> bool" where
  "reads_back p t x \<longleftrightarrow> (\<forall>b r. list_all is_blank b \<longrightarrow> stops r \<longrightarrow>
     (\<exists>b'. list_all is_blank b' \<and> p (b @ t @ r) = Some (x, b' @ r)))"

definition word_ok :: "string \<Rightarrow> bool" where
  "word_ok w \<longleftrightarrow> w \<noteq> [] \<and> list_all (\<lambda>c. \<not> is_blank c) w"

lemma reads_backI:
  "(\<And>b r. list_all is_blank b \<Longrightarrow> stops r \<Longrightarrow> \<exists>b'. list_all is_blank b' \<and> p (b @ t @ r) = Some (x, b' @ r)) \<Longrightarrow> reads_back p t x"
  by (simp add: reads_back_def)

lemma reads_backE:
  assumes "reads_back p t x" "list_all is_blank b" "stops r"
  obtains b' where "list_all is_blank b'" "p (b @ t @ r) = Some (x, b' @ r)"
  using assms by (auto simp: reads_back_def)

lemma rret_back: "x = y \<Longrightarrow> reads_back (rret x) [] y"
  by (simp add: reads_back_def rret_def)

lemma reads_back_bind:
  assumes "reads_back p t x" "reads_back (f x) t' y" "stops t'"
  shows "reads_back (rbind p f) (t @ t') y"
proof (rule reads_backI)
  fix b r assume b: "list_all is_blank b" and r: "stops r"
  then have "stops (t' @ r)" using assms(3) by (cases t') (auto simp: stops_def)
  from reads_backE [OF assms(1) b this] obtain b1 where b1: "list_all is_blank b1" "p (b @ t @ t' @ r) = Some (x, b1 @ t' @ r)" .
  from reads_backE [OF assms(2) b1(1) r] obtain b2 where "list_all is_blank b2" "f x (b1 @ t' @ r) = Some (y, b2 @ r)" .
  with b1 show "\<exists>b'. list_all is_blank b' \<and> rbind p f (b @ (t @ t') @ r) = Some (y, b' @ r)" by (auto simp: rbind_def)
qed

lemma reads_back_blank:
  assumes "reads_back p t x" "list_all is_blank s"
  shows "reads_back p (s @ t) x" "s \<noteq> [] \<Longrightarrow> reads_back p (t @ s) x"
proof -
  show "reads_back p (s @ t) x"
  proof (rule reads_backI)
    fix b r assume "list_all is_blank b" "stops r"
    with assms have "list_all is_blank (b @ s)" "stops r" by simp_all
    from reads_backE [OF assms(1) this] show "\<exists>b'. list_all is_blank b' \<and> p (b @ (s @ t) @ r) = Some (x, b' @ r)" by auto
  qed
  assume ne: "s \<noteq> []"
  show "reads_back p (t @ s) x"
  proof (rule reads_backI)
    fix b r assume b: "list_all is_blank b" and "stops r"
    have "stops (s @ r)" using ne assms(2) by (cases s) (auto simp: stops_def)
    from reads_backE [OF assms(1) b this] assms(2)
    obtain b1 where "list_all is_blank (b1 @ s)" "p (b @ t @ s @ r) = Some (x, b1 @ s @ r)" by auto
    then show "\<exists>b'. list_all is_blank b' \<and> p (b @ (t @ s) @ r) = Some (x, b' @ r)"
      by (intro exI [of _ "b1 @ s"]) simp
  qed
qed

lemma get_word_back: "word_ok w \<Longrightarrow> reads_back get_word w w"
proof (rule reads_backI)
  fix b r assume w: "word_ok w" and b: "list_all is_blank b" and r: "stops r"
  then obtain c cs where c: "w = c # cs" "\<not> is_blank c" by (cases w) (auto simp: word_ok_def)
  have dw: "dropWhile is_blank (b @ w @ r) = w @ r" using b c by (induction b) auto
  have "takeWhile (\<lambda>c. \<not> is_blank c) (w @ r) = w"
    using r w by (cases r) (auto simp: stops_def word_ok_def list_all_iff takeWhile_tail)
  with dw have "get_word (b @ w @ r) = Some (w, r)" using w by (simp add: get_word_def Let_def word_ok_def)
  then show "\<exists>b'. list_all is_blank b' \<and> get_word (b @ w @ r) = Some (w, b' @ r)" by (intro exI [of _ "[]"]) simp
qed

lemma digit_of:
  assumes "n < 10"
  shows "is_digit (char_of (48 + n))" "dig (char_of (48 + n)) = int n"
proof -
  have "(of_char (char_of (48 + n) :: char) :: int) = int (of_char (char_of (48 + n) :: char))"
    by (rule of_nat_of_char [symmetric])
  also have "\<dots> = int (48 + n)" unfolding of_char_of using assms by simp
  finally show "is_digit (char_of (48 + n))" "dig (char_of (48 + n)) = int n"
    using assms by (simp_all add: is_digit_def dig_def)
qed

lemma digits_chars: "c \<in> set (digits n) \<Longrightarrow> is_digit c"
proof (induction n rule: digits.induct)
  case (1 n)
  show ?case
  proof (cases "n < 10")
    case True
    with "1.prems" digit_of [of n] show ?thesis by (subst (asm) digits.simps) auto
  next
    case False
    with "1.prems" have "c \<in> set (digits (n div 10)) \<or> c = char_of (48 + n mod 10)" by (subst (asm) digits.simps) auto
    with 1 False digit_of [of "n mod 10"] show ?thesis by auto
  qed
qed

lemma dec_val_snoc: "dec_val (ds @ [c]) = dec_val ds * 10 + dig c"
  by (simp add: dec_val_def)

lemma dec_val_digits: "dec_val (digits n) = int n"
proof (induction n rule: digits.induct)
  case (1 n)
  show ?case
  proof (cases "n < 10")
    case True
    then show ?thesis by (subst digits.simps) (simp add: dec_val_def digit_of)
  next
    case False
    then have "dec_val (digits n) = dec_val (digits (n div 10)) * 10 + int (n mod 10)"
      by (subst digits.simps) (simp add: dec_val_snoc digit_of)
    moreover have "int n = int (n div 10) * 10 + int (n mod 10)" by presburger
    ultimately show ?thesis using 1 False by simp
  qed
qed

lemma digits_nonempty: "digits n \<noteq> []"
  by (subst digits.simps) simp

lemma digit_not_blank: "is_digit c \<Longrightarrow> \<not> is_blank c \<and> c \<noteq> CHR ''-'' \<and> c \<noteq> CHR ''+''"
proof -
  assume d: "is_digit c"
  have "(of_char c :: int) = int (of_char c)" by (rule of_nat_of_char [symmetric])
  with d have "48 \<le> (of_char c :: nat) \<and> (of_char c :: nat) \<le> 57" by (simp add: is_digit_def)
  then show ?thesis by (auto simp: is_blank_def Let_def)
qed

lemma blank_not_digit: "is_blank c \<Longrightarrow> \<not> is_digit c"
  using digit_not_blank by blast

lemma get_num_back:
  assumes "in_signed w i"
  shows "reads_back (get_num w) (put_int i) i"
proof (rule reads_backI)
  fix b r assume b: "list_all is_blank b" and r: "stops r"
  define n where "n = nat \<bar>i\<bar>"
  let ?ds = "digits n"
  have put: "put_int i = (if i < 0 then ''-'' else '''') @ ?ds" by (simp add: put_int_def n_def)
  have ds: "list_all is_digit ?ds" using digits_chars by (simp add: list_all_iff)
  have tw: "takeWhile is_digit (?ds @ r) = ?ds" "drop (length ?ds) (?ds @ r) = r"
    using ds r by (cases r) (auto simp: list_all_iff stops_def blank_not_digit takeWhile_tail)
  obtain c cs where c: "?ds = c # cs" using digits_nonempty by (meson neq_Nil_conv)
  then have cd: "\<not> is_blank c" "c \<noteq> CHR ''-''" "c \<noteq> CHR ''+''" using ds digit_not_blank [of c] by auto
  have dw: "dropWhile is_blank (b @ put_int i @ r) = put_int i @ r"
    using b cd c by (induction b) (auto simp: put is_blank_def)
  have h: "hd (?ds @ r) = c" "?ds @ r \<noteq> []" by (simp_all add: c)
  have "get_num w (b @ put_int i @ r) = Some (i, r)"
  proof (cases "i < 0")
    case True
    then have p: "put_int i @ r = CHR ''-'' # ?ds @ r" "- int n = i" by (simp add: put) (use True in \<open>simp add: n_def\<close>)
    have dw': "dropWhile is_blank (b @ put_int i @ r) = CHR ''-'' # ?ds @ r" by (rule trans [OF dw p(1)])
    show ?thesis unfolding get_num_def Let_def dw'
      using assms p(2) by (simp add: tw dec_val_digits digits_nonempty del: drop_append)
  next
    case False
    then have p: "put_int i @ r = ?ds @ r" "int n = i" by (simp add: put) (use False in \<open>simp add: n_def\<close>)
    have dw': "dropWhile is_blank (b @ put_int i @ r) = ?ds @ r" by (rule trans [OF dw p(1)])
    show ?thesis unfolding get_num_def Let_def dw'
      using assms p(2) by (simp add: h cd tw dec_val_digits digits_nonempty del: drop_append)
  qed
  then show "\<exists>b'. list_all is_blank b' \<and> get_num w (b @ put_int i @ r) = Some (i, b' @ r)" by (intro exI [of _ "[]"]) simp
qed

lemma nl_blank [simp]: "list_all is_blank nl" "stops (nl @ x)" "stops nl" "nl \<noteq> []" "stops []" "list_all is_blank '' ''"
  "stops (CHR '' '' # x)"
  by (simp_all add: nl_def stops_def is_blank_def)

lemma get_bool_back: "reads_back get_bool (put_int (if x then 1 else 0)) x"
proof -
  have "reads_back get_bool (put_int (if x then 1 else 0) @ []) x"
    unfolding get_bool_def
    by (rule reads_back_bind [OF get_num_back]) (use rret_back [of x x] in \<open>auto simp: in_signed_def\<close>)
  then show ?thesis by simp
qed

text \<open>A field followed by a separator and the rest of the text.\<close>

lemma reads_back_step:
  assumes "reads_back p t x" "reads_back (f x) t' y" "list_all is_blank s" "s \<noteq> []"
  shows "reads_back (rbind p f) (t @ s @ t') y"
proof -
  have "stops (s @ t')" using assms(3,4) by (cases s) (auto simp: stops_def)
  with reads_back_bind [where f = f, OF assms(1) reads_back_blank(1) [OF assms(2,3)]] show ?thesis by simp
qed

lemma reads_back_last:
  assumes "reads_back p t x" "f x = rret y"
  shows "reads_back (rbind p f) t y"
  using reads_back_bind [where f = f, OF assms(1), of "[]" y] assms(2) rret_back [of y y] by simp

lemma repeat_back_before:
  assumes "\<And>x. x \<in> set xs \<Longrightarrow> reads_back p (g x) x" "list_all is_blank s" "s \<noteq> []"
  shows "reads_back (repeat_read (length xs) p) (concat (map (\<lambda>x. s @ g x) xs)) xs"
  using assms(1)
proof (induction xs)
  case (Cons x xs)
  have st: "stops (concat (map (\<lambda>x. s @ g x) xs))" using assms(2,3) by (cases xs; cases s) (auto simp: stops_def)
  have "reads_back (rbind (repeat_read (length xs) p) (\<lambda>as. rret (x # as))) (concat (map (\<lambda>x. s @ g x) xs)) (x # xs)"
    by (rule reads_back_last [OF Cons.IH]) (use Cons.prems in simp_all)
  then have "reads_back (rbind p (\<lambda>a. rbind (repeat_read (length xs) p) (\<lambda>as. rret (a # as))))
      (g x @ concat (map (\<lambda>x. s @ g x) xs)) (x # xs)"
    by (intro reads_back_bind [OF Cons.prems(1) _ st]) simp_all
  from reads_back_blank(1) [OF this assms(2)] show ?case by simp
qed (simp add: rret_back)

lemma repeat_back:
  assumes "\<And>x. x \<in> set xs \<Longrightarrow> reads_back p (g x) x" "list_all is_blank s" "s \<noteq> []"
  shows "reads_back (repeat_read (length xs) p) (concat (map (\<lambda>x. g x @ s) xs)) xs"
  using assms(1)
proof (induction xs)
  case (Cons x xs)
  have "reads_back (rbind (repeat_read (length xs) p) (\<lambda>as. rret (x # as))) (concat (map (\<lambda>x. g x @ s) xs)) (x # xs)"
    by (rule reads_back_last [OF Cons.IH]) (use Cons.prems in simp_all)
  with reads_back_step [where f = "\<lambda>a. rbind (repeat_read (length xs) p) (\<lambda>as. rret (a # as))", OF Cons.prems(1) _ assms(2,3)]
  show ?case by simp
qed (simp add: rret_back)

section \<open>The metadata files that are read back\<close>

definition col_ok :: "col_meta \<Rightarrow> bool" where
  "col_ok c \<longleftrightarrow> word_ok (cm_tab c) \<and> word_ok (cm_name c) \<and> in_signed 4 (cm_len c) \<and> in_signed 4 (cm_offset c)"

definition index_ok :: "index_meta \<Rightarrow> bool" where
  "index_ok im \<longleftrightarrow> word_ok (im_tab im) \<and> in_signed 4 (im_tot_len im) \<and> in_signed 4 (im_num im) \<and>
     im_num im = int (length (im_cols im)) \<and> list_all col_ok (im_cols im)"

definition tab_ok :: "tab_meta \<Rightarrow> bool" where
  "tab_ok t \<longleftrightarrow> word_ok (tm_name t) \<and> length (tm_cols t) < 2 ^ 63 \<and> length (tm_indexes t) < 2 ^ 63 \<and>
     list_all col_ok (tm_cols t) \<and> list_all index_ok (tm_indexes t)"

definition db_ok :: "db_meta \<Rightarrow> bool" where
  "db_ok d \<longleftrightarrow> word_ok (db_name d) \<and> smap_ok (db_tabs d) \<and> length (db_tabs d) < 2 ^ 63 \<and>
     list_all (\<lambda>e. fst e = tm_name (snd e) \<and> tab_ok (snd e)) (db_tabs d)"

lemmas word_step = reads_back_step [OF get_word_back, rotated 1]
lemmas num_step = reads_back_step [OF get_num_back, rotated 1]

lemma blank_space [simp]: "is_blank CHR '' ''"
  by (simp add: is_blank_def)

lemma read_col_back:
  assumes "col_ok c"
  shows "reads_back read_col (put_col c) c"
  unfolding read_col_def put_col_def
  by (rule word_step num_step reads_back_last [OF get_bool_back])+
    (use assms coltype_roundtrip in \<open>auto simp: col_ok_def intro: arg_cong [where f = rret]\<close>)

lemma read_index_back:
  assumes "index_ok im"
  shows "reads_back read_index (put_index im) im"
proof -
  have nl1: "is_blank (char_of (10 :: nat))" by (simp add: is_blank_def)
  let ?f = "\<lambda>n. rbind (repeat_read (nat n) read_col) (\<lambda>cs. rret
      \<lparr>im_tab = im_tab im, im_tot_len = im_tot_len im, im_num = n, im_cols = cs\<rparr>)"
  have n: "im_num im = int (length (im_cols im))" "in_signed 4 (im_num im)" using assms by (auto simp: index_ok_def)
  have "reads_back (?f (im_num im)) (concat (map (\<lambda>c. nl @ put_col c) (im_cols im))) im"
    unfolding n(1) nat_int
    by (rule reads_back_last [OF repeat_back_before [OF read_col_back]])
      (use assms in \<open>auto simp: index_ok_def list_all_iff nl_def nl1 intro: arg_cong [where f = rret]\<close>)
  moreover have "stops (concat (map (\<lambda>c. nl @ put_col c) (im_cols im)))" by (cases "im_cols im") simp_all
  ultimately have "reads_back (rbind (get_num 4) ?f) (put_int (im_num im) @ concat (map (\<lambda>c. nl @ put_col c) (im_cols im))) im"
    by (rule reads_back_bind [OF get_num_back [OF n(2)]])
  then show ?thesis
    unfolding read_index_def put_index_def
    by - ((rule word_step num_step)+, use assms in \<open>simp_all add: index_ok_def\<close>)
qed

lemma count_back: "n < 2 ^ 63 \<Longrightarrow> in_signed 8 (int n)"
  by (simp add: in_signed_def)

text \<open>A count, a list of lines and what follows.\<close>

lemma lines_back:
  assumes "\<And>x. x \<in> set xs \<Longrightarrow> reads_back p (g x) x" "reads_back (f xs) t y" "length xs < 2 ^ 63"
  shows "reads_back (rbind (get_num 8) (\<lambda>n. rbind (repeat_read (nat n) p) f))
    (put_int (int (length xs)) @ nl @ concat (map (\<lambda>x. g x @ nl) xs) @ t) y"
proof (rule num_step)
  have "reads_back (rbind (repeat_read (length xs) p) f) (concat (map (\<lambda>x. g x @ nl) xs) @ t) y"
    using assms(1,2)
  proof (induction xs arbitrary: f)
    case (Cons x xs)
    have "reads_back (rbind (repeat_read (length xs) p) (\<lambda>as. f (x # as))) (concat (map (\<lambda>x. g x @ nl) xs) @ t) y"
      by (rule Cons.IH) (use Cons.prems in simp_all)
    from reads_back_step [where f = "\<lambda>a. rbind (repeat_read (length xs) p) (\<lambda>as. f (a # as))", OF Cons.prems(1) this]
    have "reads_back (rbind p (\<lambda>a. rbind (repeat_read (length xs) p) (\<lambda>as. f (a # as))))
        (g x @ nl @ concat (map (\<lambda>x. g x @ nl) xs) @ t) y" by simp
    moreover have "rbind (repeat_read (length (x # xs)) p) f =
        rbind p (\<lambda>a. rbind (repeat_read (length xs) p) (\<lambda>as. f (a # as)))"
      by (simp add: fun_eq_iff rbind_def rret_def split: option.split)
    ultimately show ?case by simp
  qed (simp add: rbind_def [abs_def] rret_def [abs_def])
  then show "reads_back (rbind (repeat_read (nat (int (length xs))) p) f) (concat (map (\<lambda>x. g x @ nl) xs) @ t) y" by simp
qed (use assms(3) count_back in simp_all)

lemma read_tab_back:
  assumes "tab_ok t"
  shows "reads_back read_tab (put_tab t) t"
proof -
  have ims: "reads_back (rbind (get_num 8) (\<lambda>k. rbind (repeat_read (nat k) read_index) (\<lambda>ims.
       rret \<lparr>tm_name = tm_name t, tm_cols = tm_cols t, tm_indexes = ims\<rparr>)))
      (put_int (int (length (tm_indexes t))) @ nl @ concat (map (\<lambda>im. put_index im @ nl) (tm_indexes t)) @ []) t"
    by (rule lines_back [OF read_index_back]) (use assms in \<open>auto simp: tab_ok_def list_all_iff intro!: rret_back\<close>)
  have "reads_back (rbind (get_num 8) (\<lambda>n. rbind (repeat_read (nat n) read_col) (\<lambda>cs.
       rbind (get_num 8) (\<lambda>k. rbind (repeat_read (nat k) read_index) (\<lambda>ims.
         rret \<lparr>tm_name = tm_name t, tm_cols = cs, tm_indexes = ims\<rparr>)))))
      (put_int (int (length (tm_cols t))) @ nl @ concat (map (\<lambda>c. put_col c @ nl) (tm_cols t)) @
       put_int (int (length (tm_indexes t))) @ nl @ concat (map (\<lambda>im. put_index im @ nl) (tm_indexes t)) @ []) t"
    by (rule lines_back [where f = "\<lambda>cs. rbind (get_num 8) (\<lambda>k. rbind (repeat_read (nat k) read_index) (\<lambda>ims.
         rret \<lparr>tm_name = tm_name t, tm_cols = cs, tm_indexes = ims\<rparr>))" and xs = "tm_cols t", OF read_col_back ims]) (use assms in \<open>auto simp: tab_ok_def list_all_iff\<close>)
  then show ?thesis unfolding read_tab_def put_tab_def
    by - ((rule word_step)+, use assms in \<open>simp_all add: tab_ok_def\<close>)
qed

lemma smap_rebuild: "smap_ok (acc @ es) \<Longrightarrow> fold (\<lambda>e. smap_put (fst e) (snd e)) es acc = acc @ es"
proof (induction es arbitrary: acc)
  case (Cons e es)
  have "smap_ok (acc @ [e])" using Cons.prems by (auto simp: smap_ok_def sorted_wrt_append)
  then have "smap_put (fst e) (snd e) acc = acc @ [e]" using smap_put_last [of acc "fst e" "snd e"] by simp
  with Cons show ?case by simp
qed simp

lemma put_db_back:
  assumes "db_ok d"
  shows "map_option fst (read_db (put_db d)) = Some d"
proof -
  have d: "word_ok (db_name d)" "smap_ok (db_tabs d)" "length (db_tabs d) < 2 ^ 63"
    "\<And>e. e \<in> set (db_tabs d) \<Longrightarrow> fst e = tm_name (snd e) \<and> tab_ok (snd e)"
    using assms by (auto simp: db_ok_def list_all_iff)
  let ?ts = "map snd (db_tabs d)"
  have "fold (\<lambda>t. smap_put (tm_name t) t) ?ts [] = fold (\<lambda>e. smap_put (fst e) (snd e)) (db_tabs d) []"
    unfolding fold_map comp_def by (rule fold_cong) (use d(4) in simp_all)
  then have f: "fold (\<lambda>t. smap_put (tm_name t) t) ?ts [] = db_tabs d" using smap_rebuild [of "[]" "db_tabs d"] d(2) by simp
  have "reads_back (rbind (get_num 8) (\<lambda>n. rbind (repeat_read (nat n) read_tab) (\<lambda>ts.
      rret \<lparr>db_name = db_name d, db_tabs = fold (\<lambda>t. smap_put (tm_name t) t) ts []\<rparr>)))
      (put_int (int (length ?ts)) @ nl @ concat (map (\<lambda>t. put_tab t @ nl) ?ts) @ []) d"
    by (rule lines_back [OF read_tab_back]) (use d f in \<open>auto intro!: rret_back\<close>)
  then have "reads_back read_db (put_db d) d"
    unfolding read_db_def put_db_def by - (rule word_step, use d(1) in \<open>simp_all add: comp_def\<close>)
  from reads_backE [OF this, of "[]" "[]"] show ?thesis by auto
qed

text \<open>
  Claim C33. The metadata file: what \<open>operator>>\<close> reads from the text \<open>operator<<\<close> wrote is the database
  written, every table with its columns and indexes, if the names are non-empty words and the numbers
  are \<^verbatim>\<open>int\<close>s.
\<close>

theorem meta_roundtrip:
  assumes "db_ok d"
  shows "map_option fst (read_db (put_db d)) = Some d"
  by (rule put_db_back [OF assms])

definition db_ex :: db_meta where
  "db_ex = \<lparr>db_name = ''db'', db_tabs = [(''t'', \<lparr>tm_name = ''t'',
     tm_cols = [\<lparr>cm_tab = ''t'', cm_name = ''a'', cm_type = TYPE_BIGINT, cm_len = 8, cm_offset = 0, cm_index = False\<rparr>],
     tm_indexes = [\<lparr>im_tab = ''t'', im_tot_len = 8, im_num = 1, im_cols = [\<lparr>cm_tab = ''t'', cm_name = ''a'',
       cm_type = TYPE_BIGINT, cm_len = 8, cm_offset = 0, cm_index = False\<rparr>]\<rparr>]\<rparr>)]\<rparr>"

theorem meta_roundtrip_witness: "map_option fst (read_db (put_db db_ex)) = Some db_ex"
  by (rule meta_roundtrip)
    (simp add: db_ex_def db_ok_def smap_ok_def tab_ok_def col_ok_def index_ok_def word_ok_def is_blank_def in_signed_def)

end
