(* ===== verification/Printer.thy ===== *)
theory Printer
  imports Datetime
begin

text \<open>
  The table printer \<^verbatim>\<open>src/src/record_printer.h\<close>: it fills the send buffer of a client, of which
  only \<open>BUFFER_LENGTH\<close> bytes exist. \<open>sent\<close> is the buffer up to the offset.
\<close>

definition COL_WIDTH :: nat where "COL_WIDTH = 16"
definition RECORD_COUNT_LENGTH :: nat where "RECORD_COUNT_LENGTH = 40"
definition BUFFER_LENGTH :: nat where "BUFFER_LENGTH = 8192"

record out =
  sent :: string
  ellipsis :: bool

definition newline :: string where "newline = [char_of (10 :: nat)]"

definition room_for :: "string \<Rightarrow> out \<Rightarrow> bool" where
  "room_for s x \<longleftrightarrow> \<not> ellipsis x \<and> length (sent x) + RECORD_COUNT_LENGTH + length s < BUFFER_LENGTH"

definition send_part :: "string \<Rightarrow> out \<Rightarrow> out" where
  "send_part s x = (if room_for s x then x\<lparr>sent := sent x @ s\<rparr> else x\<lparr>ellipsis := True\<rparr>)"

definition print_separator :: "nat \<Rightarrow> out \<Rightarrow> out" where
  "print_separator num_cols x =
     send_part (''+'' @ newline) ((send_part (''+'' @ replicate (COL_WIDTH + 2) (CHR ''-'')) ^^ num_cols) x)"

definition cell :: "string \<Rightarrow> string" where
  "cell col = (let c = (if length col > COL_WIDTH then take (COL_WIDTH - 3) col @ ''...'' else col)
     in ''| '' @ replicate (COL_WIDTH - length c) (CHR '' '') @ c @ '' '')"

text \<open>The end of the line is left out without setting \<^verbatim>\<open>ellipsis_\<close>.\<close>

definition print_row :: "nat \<Rightarrow> string list \<Rightarrow> (out, unit) op" where
  "print_row num_cols rec =
     (if length rec \<noteq> num_cols then throw AssertionFailure
      else modify (\<lambda>x. let x = fold (\<lambda>c. send_part (cell c)) rec x; s = ''|'' @ newline
        in if room_for s x then x\<lparr>sent := sent x @ s\<rparr> else x))"

definition print_record_count :: "nat \<Rightarrow> out \<Rightarrow> out" where
  "print_record_count n x = x\<lparr>sent := sent x @ (if ellipsis x then ''... ...'' @ newline else '''') @
     ''Total record(s): '' @ digits n @ newline\<rparr>"

section \<open>The buffer is never overrun\<close>

datatype print_call = Separator nat | Record nat "string list"

fun print_calls :: "print_call list \<Rightarrow> out \<Rightarrow> out" where
  "print_calls [] x = x"
| "print_calls (Separator n # cs) x = print_calls cs (print_separator n x)"
| "print_calls (Record n r # cs) x = print_calls cs (snd (print_row n r x))"

definition fits :: "out \<Rightarrow> bool" where
  "fits x \<longleftrightarrow> length (sent x) + RECORD_COUNT_LENGTH < BUFFER_LENGTH"

lemma fits_send [intro]: "fits x \<Longrightarrow> fits (send_part s x)"
  by (simp add: fits_def send_part_def room_for_def)

lemma fits_separator: "fits x \<Longrightarrow> fits (print_separator n x)"
proof -
  assume "fits x"
  then have "fits ((send_part s ^^ n) x)" for s by (induction n) auto
  then show ?thesis unfolding print_separator_def by blast
qed

lemma fits_record:
  assumes "fits x"
  shows "fits (snd (print_row n r x))"
proof -
  have "fits (fold (\<lambda>c. send_part (cell c)) r x)"
    using assms by (induction r arbitrary: x) auto
  with assms show ?thesis by (auto simp: print_row_def Let_def run_simps fits_def room_for_def)
qed

lemma fits_calls: "fits x \<Longrightarrow> fits (print_calls cs x)"
  by (induction cs x rule: print_calls.induct) (auto intro: fits_separator fits_record)

lemma digits_length: "0 < k \<Longrightarrow> n < 10 ^ k \<Longrightarrow> length (digits n) \<le> k"
proof (induction n arbitrary: k rule: digits.induct)
  case (1 n)
  show ?case
  proof (cases "n < 10")
    case True
    then show ?thesis using "1.prems" by (subst digits.simps) simp
  next
    case False
    then obtain j where k: "k = Suc j" "0 < j" using "1.prems" by (cases k; cases "k - 1") auto
    with "1.prems" have "n div 10 < 10 ^ j" by (simp add: less_mult_imp_div_less mult.commute)
    with 1 False k show ?thesis by (subst digits.simps) simp
  qed
qed

text \<open>
  Claim C37. The printer never writes past the client's buffer: after any separators and records, of any
  number and width, the closing line with the number of records still fits, for fewer than ten to the
  fourteenth records.
\<close>

theorem printer_bounded:
  assumes "length (sent x) + RECORD_COUNT_LENGTH < BUFFER_LENGTH" "n < 10 ^ 14"
  shows "length (sent (print_record_count n (print_calls cs x))) < BUFFER_LENGTH"
proof -
  have "fits (print_calls cs x)" using assms(1) by (intro fits_calls) (simp add: fits_def)
  moreover have "length (digits n) \<le> 14" by (rule digits_length) (use assms(2) in simp_all)
  ultimately show ?thesis
    by (simp add: fits_def print_record_count_def newline_def RECORD_COUNT_LENGTH_def BUFFER_LENGTH_def)
qed

theorem printer_bounded_witness:
  "length (sent (print_record_count 1 (print_calls (replicate 1000 (Record 1 [''abc''])) \<lparr>sent = [], ellipsis = False\<rparr>))) < BUFFER_LENGTH"
  by (rule printer_bounded) (simp_all add: RECORD_COUNT_LENGTH_def BUFFER_LENGTH_def)

end
