(* ===== verification/Sm_Manager.thy ===== *)
theory Sm_Manager
  imports Catalog Printer Record_File Ix_Tree "HOL-Library.AList"
begin

text \<open>
  The system manager \<^verbatim>\<open>src/src/system/sm_manager.cpp\<close>: the open files of a database, its metadata
  and the data definition statements. \<open>server\<close> is what a statement works on: the storage, the open
  database, the lock table, and the transaction, the send buffer and the output file of its context.
  The current directory is the database's; the calls of the operating system that make, remove or
  change directories are left out.
\<close>

section \<open>The state a statement works on\<close>

record server =
  sv_store :: storage
  sv_db :: db_meta
  sv_fhs :: "(string \<times> rm_file) list"
  sv_ihs :: "(string \<times> ix_file) list"
  sv_locks :: lock_table
  sv_txn :: transaction
  sv_out :: out
  sv_outfile :: string

definition on_store :: "(storage, 'a) op \<Rightarrow> (server, 'a) op" where
  "on_store = zoom sv_store (\<lambda>s. sv_store_update (\<lambda>_. s))"

definition printing :: "(out, 'a) op \<Rightarrow> (server, 'a) op" where
  "printing = zoom sv_out (\<lambda>x. sv_out_update (\<lambda>_. x))"

definition from_db :: "(db_meta \<Rightarrow> rmdb_error + 'a) \<Rightarrow> (server, 'a) op" where
  "from_db g = (\<lambda>sv. (g (sv_db sv), sv))"

text \<open>
  An operation on the open file of a table, \<^verbatim>\<open>fhs_.at(name)\<close>. With \<open>logged\<close>, the context has a log
  manager and the transaction: changes are logged.
\<close>

definition on_table :: "bool \<Rightarrow> string \<Rightarrow> (rm_state, 'a) op \<Rightarrow> (server, 'a) op" where
  "on_table logged t m = (\<lambda>sv. case map_of (sv_fhs sv) t of
     None \<Rightarrow> (Inl StdOutOfRange, sv)
   | Some fh \<Rightarrow>
       (case m (sv_store sv, fh, if logged then Some (sv_txn sv) else None) of
          (r, s, fh', tx) \<Rightarrow> (r, sv\<lparr>sv_store := s, sv_fhs := AList.update t fh' (sv_fhs sv),
             sv_txn := (case tx of None \<Rightarrow> sv_txn sv | Some x \<Rightarrow> x)\<rparr>)))"

text \<open>An operation on an open index, \<^verbatim>\<open>ihs_.at(name)\<close>.\<close>

definition on_index :: "string \<Rightarrow> (ix_state, 'a) pop \<Rightarrow> (server, 'a) pop" where
  "on_index name m = (\<lambda>sv. case map_of (sv_ihs sv) name of
     None \<Rightarrow> Some (Inl StdOutOfRange, sv)
   | Some ih \<Rightarrow> map_option (\<lambda>(r, s, ih'). (r, sv\<lparr>sv_store := s, sv_ihs := AList.update name ih' (sv_ihs sv)\<rparr>))
       (m (sv_store sv, ih)))"

text \<open>\<^verbatim>\<open>emplace\<close> keeps an entry that is there.\<close>

definition emplace :: "string \<Rightarrow> 'v \<Rightarrow> (string \<times> 'v) list \<Rightarrow> (string \<times> 'v) list" where
  "emplace k v es = (if map_of es k = None then es @ [(k, v)] else es)"

definition index_name :: "string \<Rightarrow> col_meta list \<Rightarrow> string" where
  "index_name t cols = get_index_name t (map cm_name cols)"

text \<open>The loop that copies the columns of an index out of a record.\<close>

definition col_bytes :: "bytes \<Rightarrow> col_meta \<Rightarrow> bytes" where
  "col_bytes r c = take (nat (cm_len c)) (drop (nat (cm_offset c)) r)"

definition index_key :: "index_meta \<Rightarrow> bytes \<Rightarrow> bytes" where
  "index_key im r = concat (map (col_bytes r) (take (nat (im_num im)) (im_cols im)))"

definition flush_meta :: "(server, unit) op" where
  "flush_meta = modify (\<lambda>sv. sv\<lparr>sv_store := (sv_store sv)\<lparr>st_disk := (st_disk (sv_store sv))
     \<lparr>files := (files (st_disk (sv_store sv)))(DB_META_NAME \<mapsto> map byte_of_char (put_db (sv_db sv)))\<rparr>\<rparr>\<rparr>)"

section \<open>Opening and closing\<close>

fun open_indexes :: "string \<Rightarrow> index_meta list \<Rightarrow> (server, unit) op" where
  "open_indexes t [] = ret ()"
| "open_indexes t (im # ims) =
     andThen (on_store (open_index_file (index_name t (im_cols im)))) (\<lambda>ih.
     andThen (modify (sv_ihs_update (emplace (index_name t (im_cols im)) ih))) (\<lambda>_. open_indexes t ims))"

fun open_tables :: "tab_meta list \<Rightarrow> (server, unit) op" where
  "open_tables [] = ret ()"
| "open_tables (tab # tabs) =
     andThen (on_store (rm_open_file (tm_name tab))) (\<lambda>fh.
     andThen (modify (sv_fhs_update (emplace (tm_name tab) fh))) (\<lambda>_.
     andThen (open_indexes (tm_name tab) (tm_indexes tab)) (\<lambda>_. open_tables tabs)))"

text \<open>
  A metadata file that cannot be read leaves counts of the source uninitialised, which is undefined
  behaviour: \<open>AssertionFailure\<close>.
\<close>

definition open_db :: "(server, unit) op" where
  "open_db = (\<lambda>sv.
     case Option.bind (files (st_disk (sv_store sv)) DB_META_NAME) (\<lambda>b. read_db (map char_of_byte b)) of
       None \<Rightarrow> (Inl AssertionFailure, sv)
     | Some (d, _) \<Rightarrow>
         let db = \<lparr>db_name = db_name d, db_tabs = fold (\<lambda>(k, v). smap_put k v) (db_tabs d) (db_tabs (sv_db sv))\<rparr>
         in open_tables (map snd (db_tabs db)) (sv\<lparr>sv_db := db\<rparr>))"

fun close_all :: "('v \<Rightarrow> (storage, unit) op) \<Rightarrow> (string \<times> 'v) list \<Rightarrow> (server, unit) op" where
  "close_all cl [] = ret ()"
| "close_all cl (e # es) = andThen (on_store (cl (snd e))) (\<lambda>_. close_all cl es)"

definition close_db :: "(server, unit) op" where
  "close_db = andThen flush_meta (\<lambda>_.
     andThen (\<lambda>sv. close_all rm_close_file (sv_fhs sv) sv) (\<lambda>_.
     andThen (modify (sv_fhs_update (\<lambda>_. []))) (\<lambda>_.
     andThen (\<lambda>sv. close_all close_index_file (sv_ihs sv) sv) (\<lambda>_.
     andThen (modify (sv_ihs_update (\<lambda>_. []))) (\<lambda>_.
     modify (sv_db_update (\<lambda>_. \<lparr>db_name = '''', db_tabs = []\<rparr>)))))))"

section \<open>Tables\<close>

record col_def =
  cd_name :: string
  cd_type :: coltype
  cd_len :: int

text \<open>The offsets are 32-bit sums.\<close>

definition add32 :: "int \<Rightarrow> int \<Rightarrow> int" where
  "add32 a b = to_signed 4 ((a + b) mod 2 ^ 32)"

fun place_cols :: "string \<Rightarrow> int \<Rightarrow> col_def list \<Rightarrow> col_meta list \<times> int" where
  "place_cols t off [] = ([], off)"
| "place_cols t off (d # ds) =
     (case place_cols t (add32 off (cd_len d)) ds of (cs, tot) \<Rightarrow>
       (\<lparr>cm_tab = t, cm_name = cd_name d, cm_type = cd_type d, cm_len = cd_len d, cm_offset = off, cm_index = False\<rparr> # cs, tot))"

definition create_table :: "string \<Rightarrow> col_def list \<Rightarrow> (server, unit) op" where
  "create_table t defs = (\<lambda>sv.
     if is_table t (sv_db sv) then (Inl (TableExistsError t), sv)
     else (case place_cols t 0 defs of (cols, rec_len) \<Rightarrow>
       andThen (on_store (on_disk (rm_create_file t rec_len))) (\<lambda>_.
       andThen (modify (sv_db_update (SetTabMeta t \<lparr>tm_name = t, tm_cols = cols, tm_indexes = []\<rparr>))) (\<lambda>_.
       andThen (on_store (rm_open_file t)) (\<lambda>fh.
       andThen (modify (sv_fhs_update (emplace t fh))) (\<lambda>_. flush_meta)))) sv))"

definition remove_index_file :: "string \<Rightarrow> (server, unit) op" where
  "remove_index_file name =
     andThen (\<lambda>sv. case map_of (sv_ihs sv) name of
         None \<Rightarrow> (Inr (), sv)
       | Some ih \<Rightarrow> andThen (on_store (close_index_file ih)) (\<lambda>_. modify (sv_ihs_update (smap_erase name))) sv)
       (\<lambda>_. on_store (on_disk (destroy_index_file name)))"

fun remove_indexes :: "string \<Rightarrow> index_meta list \<Rightarrow> (server, unit) op" where
  "remove_indexes t [] = ret ()"
| "remove_indexes t (im # ims) =
     andThen (remove_index_file (index_name t (im_cols im))) (\<lambda>_. remove_indexes t ims)"

definition drop_table :: "string \<Rightarrow> (server, unit) op" where
  "drop_table t =
     andThen (from_db (get_table t)) (\<lambda>tab.
     andThen (remove_indexes t (tm_indexes tab)) (\<lambda>_.
     andThen (\<lambda>sv. case map_of (sv_fhs sv) t of
         None \<Rightarrow> (Inr (), sv)
       | Some fh \<Rightarrow> andThen (on_store (rm_close_file fh)) (\<lambda>_. modify (sv_fhs_update (smap_erase t))) sv) (\<lambda>_.
     andThen (on_store (on_disk (destroy_file t))) (\<lambda>_.
     andThen (modify (sv_db_update (db_tabs_update (smap_erase t)))) (\<lambda>_. flush_meta)))))"

section \<open>Indexes\<close>

fun find_cols :: "tab_meta \<Rightarrow> string list \<Rightarrow> rmdb_error + col_meta list" where
  "find_cols tab [] = Inr []"
| "find_cols tab (n # ns) = (case tab_get_col n tab of
     Inl e \<Rightarrow> Inl e
   | Inr c \<Rightarrow> (case find_cols tab ns of Inl e \<Rightarrow> Inl e | Inr cs \<Rightarrow> Inr (c # cs)))"

text \<open>While an index is filled its handle is not in the map yet.\<close>

definition beside :: "(server, 'a) op \<Rightarrow> (server \<times> ix_file, 'a) op" where
  "beside = zoom fst (\<lambda>sv p. (sv, snd p))"

definition on_handle :: "(ix_state, 'a) pop \<Rightarrow> (server \<times> ix_file, 'a) pop" where
  "on_handle m = (\<lambda>(sv, ih). map_option (\<lambda>(r, s, ih'). (r, sv\<lparr>sv_store := s\<rparr>, ih')) (m (sv_store sv, ih)))"

definition with_handle :: "ix_file \<Rightarrow> (server \<times> ix_file, 'a) pop \<Rightarrow> (server, 'a \<times> ix_file) pop" where
  "with_handle ih m = (\<lambda>sv. map_option (\<lambda>(r, sv', ih'). (map_sum id (\<lambda>a. (a, ih')) r, sv')) (m (sv, ih)))"

partial_function (option) fill_index ::
    "string \<Rightarrow> index_meta \<Rightarrow> rid \<Rightarrow> server \<times> ix_file \<Rightarrow> ((rmdb_error + unit) \<times> server \<times> ix_file) option" where
  "fill_index t im pos st =
     pThen (pdo (beside (on_table True t (reads (\<lambda>(s, fh, x). scan_is_end fh pos))))) (\<lambda>ended s.
       if ended then Some (Inr (), s)
       else
         pThen (pdo (beside (on_table True t (get_record pos)))) (\<lambda>r.
         pThen (on_handle (get_value (index_key im r))) (\<lambda>dup s.
           if dup \<noteq> None then
             Some (andThen (\<lambda>(sv, ih). beside (on_store (close_index_file ih)) (sv, ih)) (\<lambda>_.
               andThen (beside (on_store (on_disk (destroy_index_file (index_name t (im_cols im)))))) (\<lambda>_.
               throw (RMDBError (''duplicate value violates unique index on '' @ t)))) s)
           else
             pThen (on_handle (insert_entry (index_key im r) pos)) (\<lambda>_.
             pThen (pdo (beside (on_table True t (\<lambda>(s, fh, x).
               scan_next (num_pages (file_hdr fh)) (page_no pos) (slot_no pos) (s, fh, x))))) (\<lambda>pos'.
             fill_index t im pos')) s)) s) st"

definition create_index :: "string \<Rightarrow> string list \<Rightarrow> (server, unit) pop" where
  "create_index t names =
     pThen (pdo (from_db (get_table t))) (\<lambda>tab s.
       if is_index names tab then Some (Inl (IndexExistsError t names), s)
       else
         pThen (pdo (\<lambda>s. (find_cols tab names, s))) (\<lambda>cols.
         let im = \<lparr>im_tab = t, im_tot_len = sum_list (map cm_len cols), im_num = int (length cols), im_cols = cols\<rparr>;
             name = index_name t cols
         in
           pThen (pdo (on_store (on_disk (create_index_file name (map (\<lambda>c. (cm_type c, cm_len c)) cols))))) (\<lambda>_.
           pThen (pdo (on_store (open_index_file name))) (\<lambda>ih.
           pThen (with_handle ih (pThen (pdo (beside (on_table True t scan_first))) (fill_index t im))) (\<lambda>(_, ih').
           pdo (andThen (modify (sv_db_update (SetTabMeta t (tab\<lparr>tm_indexes := tm_indexes tab @ [im]\<rparr>)))) (\<lambda>_.
             andThen (modify (sv_ihs_update (emplace name ih'))) (\<lambda>_. flush_meta))))))) s)"

definition drop_index :: "string \<Rightarrow> string list \<Rightarrow> (server, unit) op" where
  "drop_index t names =
     andThen (from_db (get_table t)) (\<lambda>tab.
     andThen (if is_index names tab then ret () else throw (IndexNotFoundError t names)) (\<lambda>_.
     andThen (\<lambda>s. (get_index_meta names tab, s)) (\<lambda>im.
     andThen (remove_index_file (index_name t (im_cols im))) (\<lambda>_.
     andThen (modify (sv_db_update (SetTabMeta t (tab\<lparr>tm_indexes := erase_first (index_on names) (tm_indexes tab)\<rparr>))))
       (\<lambda>_. flush_meta)))))"

definition drop_index_cols :: "string \<Rightarrow> col_meta list \<Rightarrow> (server, unit) op" where
  "drop_index_cols t cols = drop_index t (map cm_name cols)"

section \<open>Showing the metadata\<close>

definition append_outfile :: "string \<Rightarrow> (server, unit) op" where
  "append_outfile s = modify (sv_outfile_update (\<lambda>x. x @ s))"

definition separator :: "nat \<Rightarrow> (server, unit) op" where
  "separator n = printing (modify (print_separator n))"

fun each :: "('a \<Rightarrow> ('s, unit) op) \<Rightarrow> 'a list \<Rightarrow> ('s, unit) op" where
  "each f [] = ret ()"
| "each f (x # xs) = andThen (f x) (\<lambda>_. each f xs)"

definition show_tables :: "(server, unit) op" where
  "show_tables =
     andThen (append_outfile (''| Tables |'' @ newline)) (\<lambda>_.
     andThen (separator 1) (\<lambda>_. andThen (printing (print_row 1 [''Tables''])) (\<lambda>_.
     andThen (separator 1) (\<lambda>_.
     andThen (\<lambda>sv. each (\<lambda>(_, tab). andThen (printing (print_row 1 [tm_name tab])) (\<lambda>_.
         append_outfile (''| '' @ tm_name tab @ '' |'' @ newline))) (db_tabs (sv_db sv)) sv) (\<lambda>_.
     separator 1)))))"

definition desc_table :: "string \<Rightarrow> (server, unit) op" where
  "desc_table t =
     andThen (from_db (get_table t)) (\<lambda>tab.
     andThen (separator 3) (\<lambda>_. andThen (printing (print_row 3 [''Field'', ''Type'', ''Index''])) (\<lambda>_.
     andThen (separator 3) (\<lambda>_.
     andThen (each (\<lambda>c. printing (print_row 3
         [cm_name c, coltype2str (cm_type c), if cm_index c then ''YES'' else ''NO''])) (tm_cols tab)) (\<lambda>_.
     separator 3)))))"

fun join_names :: "string list \<Rightarrow> string" where
  "join_names [] = ''''"
| "join_names [n] = n"
| "join_names (n # ns) = n @ '','' @ join_names ns"

definition show_index :: "string \<Rightarrow> (server, unit) op" where
  "show_index t =
     andThen (from_db (get_table t)) (\<lambda>tab.
       each (\<lambda>im. let cols_str = ''('' @ join_names (map cm_name (im_cols im)) @ '')''
         in andThen (append_outfile (''| '' @ t @ '' | unique | '' @ cols_str @ '' |'' @ newline)) (\<lambda>_.
              printing (print_row 3 [t, ''unique'', cols_str]))) (tm_indexes tab))"

section \<open>What the statements leave behind\<close>

text \<open>The columns of a new table lie one after the other, and the record is as long as all of them.\<close>

fun laid_out :: "int \<Rightarrow> col_meta list \<Rightarrow> int \<Rightarrow> bool" where
  "laid_out off [] tot \<longleftrightarrow> off = tot"
| "laid_out off (c # cs) tot \<longleftrightarrow> cm_offset c = off \<and> laid_out (off + cm_len c) cs tot"

lemma add32_exact: "in_signed 4 (a + b) \<Longrightarrow> add32 a b = a + b"
  unfolding add32_def using signed_roundtrip [of 4 "a + b"] by (simp add: le_decode_encode)

text \<open>
  Claim C34. The columns of a new table: they carry the declared names, types and lengths, each starts
  where the one before it ends, and the record size is the sum of the lengths, whenever no sum leaves
  the range of \<^verbatim>\<open>int\<close>.
\<close>

theorem place_cols_layout:
  assumes "\<forall>k \<le> length defs. in_signed 4 (off + sum_list (map cd_len (take k defs)))"
  shows "laid_out off (fst (place_cols t off defs)) (snd (place_cols t off defs)) \<and>
    snd (place_cols t off defs) = off + sum_list (map cd_len defs) \<and>
    map (\<lambda>c. (cm_name c, cm_type c, cm_len c)) (fst (place_cols t off defs)) = map (\<lambda>d. (cd_name d, cd_type d, cd_len d)) defs"
  using assms
proof (induction defs arbitrary: off)
  case (Cons d ds)
  have "in_signed 4 (off + cd_len d)" using Cons.prems [rule_format, of 1] by simp
  note exact = add32_exact [OF this]
  have "\<forall>k \<le> length ds. in_signed 4 (off + cd_len d + sum_list (map cd_len (take k ds)))"
    using Cons.prems [rule_format, of "Suc _"] by (auto simp: add.assoc)
  from Cons.IH [OF this] show ?case
    by (cases "place_cols t (off + cd_len d) ds") (simp add: exact add.assoc)
qed simp

theorem place_cols_layout_witness:
  "snd (place_cols ''t'' 0 [\<lparr>cd_name = ''a'', cd_type = TYPE_INT, cd_len = 4\<rparr>, \<lparr>cd_name = ''b'', cd_type = TYPE_STRING, cd_len = 20\<rparr>]) = 24"
proof -
  let ?ds = "[\<lparr>cd_name = ''a'', cd_type = TYPE_INT, cd_len = 4\<rparr>, \<lparr>cd_name = ''b'', cd_type = TYPE_STRING, cd_len = 20\<rparr>]"
  have "in_signed 4 (0 + sum_list (map cd_len (take k ?ds)))" if "k \<le> length ?ds" for k
  proof -
    have "k \<le> 2" using that by simp
    then consider "k = 0" | "k = 1" | "k = 2" by linarith
    then show ?thesis by cases (simp_all add: in_signed_def)
  qed
  then have "snd (place_cols ''t'' 0 ?ds) = 0 + sum_list (map cd_len ?ds)"
    by (intro place_cols_layout [THEN conjunct2, THEN conjunct1]) blast
  then show ?thesis by (simp only:) simp
qed

definition meta_text :: "server \<Rightarrow> bytes option" where
  "meta_text sv = files (st_disk (sv_store sv)) DB_META_NAME"

lemma flush_meta_text: "flush_meta sv = (r, sv') \<Longrightarrow> r = Inr () \<and> sv_db sv' = sv_db sv \<and> meta_text sv' = Some (map byte_of_char (put_db (sv_db sv')))"
  by (auto simp: flush_meta_def run_simps meta_text_def)

lemma flush_last:
  assumes "andThen m (\<lambda>_. flush_meta) sv = (Inr u, sv')"
  shows "meta_text sv' = Some (map byte_of_char (put_db (sv_db sv')))"
  using assms flush_meta_text by (auto simp: andThen_eq_Inr)

datatype ddl = Create_Table string "col_def list" | Drop_Table string | Create_Index string "string list" | Drop_Index string "string list"

fun run_ddl :: "ddl \<Rightarrow> (server, unit) pop" where
  "run_ddl (Create_Table t defs) = pdo (create_table t defs)"
| "run_ddl (Drop_Table t) = pdo (drop_table t)"
| "run_ddl (Create_Index t ns) = create_index t ns"
| "run_ddl (Drop_Index t ns) = pdo (drop_index t ns)"

lemma ddl_flushes:
  assumes "run_ddl d sv = Some (Inr (), sv')"
  shows "meta_text sv' = Some (map byte_of_char (put_db (sv_db sv')))"
proof (cases d)
  case (Create_Table t defs)
  then show ?thesis
    using assms flush_meta_text
    by (auto simp: pdo_def create_table_def andThen_eq_Inr split: if_splits prod.splits)
next
  case (Drop_Table t)
  then show ?thesis
    using assms flush_meta_text by (auto simp: pdo_def drop_table_def andThen_eq_Inr)
next
  case (Create_Index t ns)
  then show ?thesis
    using assms flush_meta_text
    by (auto simp: create_index_def pThen_eq_Some pdo_def Let_def andThen_eq_Inr split: if_splits option.splits sum.splits prod.splits)
next
  case (Drop_Index t ns)
  then show ?thesis
    using assms flush_meta_text by (auto simp: pdo_def drop_index_def andThen_eq_Inr)
qed

lemma map_char_of_byte: "map char_of_byte (map byte_of_char s) = s"
  by (simp add: comp_def)

text \<open>
  Claim C32. The catalogue survives a restart: after every data definition statement that succeeds,
  \<open>db.meta\<close> holds the catalogue the server works with, and reading the file as \<open>open_db\<close> does gives
  that catalogue back, table by table.
\<close>

theorem ddl_durable:
  assumes "run_ddl d sv = Some (Inr (), sv')" "db_ok (sv_db sv')"
  shows "map_option fst (Option.bind (meta_text sv') (\<lambda>b. read_db (map char_of_byte b))) = Some (sv_db sv')"
  using put_db_back [OF assms(2)] unfolding ddl_flushes [OF assms(1)] by (simp add: map_char_of_byte del: map_map)

definition ddl_ex :: server where
  "ddl_ex = \<lparr>sv_store = pool_new 1 (disk_new [''t'' \<mapsto> []] [0, 1, 2]) log_manager_new True,
     sv_db = \<lparr>db_name = ''db'', db_tabs = [(''t'', \<lparr>tm_name = ''t'', tm_cols = [], tm_indexes = []\<rparr>)]\<rparr>,
     sv_fhs = [], sv_ihs = [], sv_locks = Map.empty, sv_txn = transaction_new 0,
     sv_out = \<lparr>sent = [], ellipsis = False\<rparr>, sv_outfile = []\<rparr>"

theorem ddl_durable_witness:
  "\<exists>sv'. run_ddl (Drop_Table ''t'') ddl_ex = Some (Inr (), sv') \<and>
    map_option fst (Option.bind (meta_text sv') (\<lambda>b. read_db (map char_of_byte b))) = Some \<lparr>db_name = ''db'', db_tabs = []\<rparr>"
proof -
  obtain sv' where run: "run_ddl (Drop_Table ''t'') ddl_ex = Some (Inr (), sv')" and db: "sv_db sv' = \<lparr>db_name = ''db'', db_tabs = []\<rparr>"
    by (simp add: pdo_def drop_table_def from_db_def get_table_def ddl_ex_def andThen_def on_store_def on_disk_def zoom_def
        destroy_file_def is_file_def disk_new_def pool_new_def run_simps smap_erase_def flush_meta_def)
  have "db_ok (sv_db sv')" by (simp add: db db_ok_def word_ok_def is_blank_def smap_ok_def)
  from ddl_durable [OF run this] run db show ?thesis by auto
qed

end
