(* ===== verification/Table_Read.thy ===== *)
theory Table_Read
  imports Sm_Manager
begin

text \<open>
  Reading the tables of a server: record look-ups and scans of one table leave the pages of all tables
  as they are, in the buffer pool of limited size they share. \<open>gives\<close> is the total correctness of an
  operation under an invariant of the server: it returns, with a value as said or an error as said.
\<close>

section \<open>Reads of one table\<close>

definition table_pages :: "rm_file \<Rightarrow> page_id set" where
  "table_pages fh = {pid. pid_fd pid = rm_fd fh \<and> pid_no pid < num_pages (file_hdr fh)}"

lemma files_keep_refl: "files_keep X s s"
  by (simp add: files_keep_def)

lemma files_keep_trans: "files_keep X s s' \<Longrightarrow> files_keep X s' s'' \<Longrightarrow> files_keep X s s''"
  unfolding files_keep_def by (intro conjI; (blast | simp))

lemma files_keep_mono: "files_keep X s s' \<Longrightarrow> X \<subseteq> Y \<Longrightarrow> files_keep Y s s'"
  by (auto simp: files_keep_def)

lemma fetch_page_handle_keep:
  assumes "rm_rel (s, fh, t) st" "1 \<le> no" "fetch_page_handle no (s, fh, t) = (Inr f, s', fh', t')"
  shows "files_keep (table_pages fh) s s'"
proof -
  note rel = rm_relD [OF assms(1)]
  have no: "no < num_pages (file_hdr fh)" and f: "fetch_page (PageId (rm_fd fh) no) s = (Inr (Some f), s')"
    using assms(3) by (auto simp: fetch_page_handle_def split: if_splits prod.splits sum.splits option.splits)
  obtain b where "st (PageId (rm_fd fh) no) = Some b" using rm_ok_known_page [OF rel(2) assms(2) no] by blast
  from fetch_held [OF rel(1) this f] have "files_keep {PageId (rm_fd fh) no} s s'" by blast
  then show ?thesis by (rule files_keep_mono) (use no in \<open>simp add: table_pages_def\<close>)
qed

text \<open>Look at a page and unpin it clean.\<close>

lemma look_run:
  assumes "rm_rel (s, fh, t) st" "1 \<le> no" "fetch_page_handle no (s, fh, t) = (Inr f, s', fh', t')"
  shows "fh' = fh \<and> t' = t \<and> (\<exists>m s''. frame_mem s' f = m \<and> st (PageId (rm_fd fh) no) = Some (mread m 0 PAGE_SIZE) \<and>
    unpin_frame f False (s', fh, t) = (s'', fh, t) \<and> rm_rel (s'', fh, t) st \<and> files_keep (table_pages fh) s s'')"
proof -
  from fetch_page_handle_run [OF assms] obtain m where eq: "fh' = fh" "t' = t"
    and m: "held s' st (PageId (rm_fd fh) no) f m" "clean_ok s' (PageId (rm_fd fh) no) f"
      "rm_pool s' (rm_fd fh) (num_pages (file_hdr fh))" by blast
  obtain s'' where s'': "unpin_frame f False (s', fh, t) = (s'', fh, t)" "known s'' st"
    "rm_pool s'' (rm_fd fh) (num_pages (file_hdr fh))"
    using unpin_frame_run [OF m(1) _ m(3), of False fh t] m(2) by blast
  have "files_keep {} s' s''"
    using unpin_held [OF m(1), of False] m(2) s''(1) heldD(6) [OF m(1)] by (auto simp: unpin_frame_def frame_id_def)
  then have "files_keep (table_pages fh) s s''"
    using fetch_page_handle_keep [OF assms] by (blast intro: files_keep_trans files_keep_mono)
  moreover have "frame_mem s' f = m" using heldD(4) [OF m(1)] by (simp add: frame_mem_def)
  moreover have "rm_rel (s'', fh, t) st" using s'' assms(1) by (simp add: rm_rel_pool)
  ultimately show ?thesis using eq s''(1) heldD(5) [OF m(1)] by blast
qed

lemma get_record_value:
  assumes "rm_rel (s, fh, t) st" "rm_table fh st r = Some b"
  shows "(\<exists>e x. get_record r (s, fh, t) = (Inl e, x) \<and> scan_failed fh st e) \<or>
    (\<exists>s'. get_record r (s, fh, t) = (Inr b, s', fh, t) \<and> rm_rel (s', fh, t) st \<and> files_keep (table_pages fh) s s')"
proof -
  have dom: "r \<in> dom (rm_table fh st)" using assms(2) by blast
  note r = dom_table [OF dom]
  obtain res x where f: "fetch_page_handle (page_no r) (s, fh, t) = (res, x)" by (meson surj_pair)
  show ?thesis
  proof (cases res)
    case (Inl e)
    with f assms(1) r have "scan_failed fh st e" unfolding scan_failed_def by blast
    with f Inl show ?thesis by (cases x) (simp add: get_record_def run_simps)
  next
    case (Inr f')
    then obtain s1 fh1 t1 where f: "fetch_page_handle (page_no r) (s, fh, t) = (Inr f', s1, fh1, t1)" using f by (cases x) auto
    from look_run [OF assms(1) _ f] r obtain m s2 where m: "fh1 = fh" "t1 = t" "frame_mem s1 f' = m"
      "st (PageId (rm_fd fh) (page_no r)) = Some (mread m 0 PAGE_SIZE)"
      "unpin_frame f' False (s1, fh, t) = (s2, fh, t)" "rm_rel (s2, fh, t) st" "files_keep (table_pages fh) s s2" by blast
    have "rm_table fh st r = page_rec (file_hdr fh) m (slot_no r)"
      by (rule rm_table_page) (use rm_relD(3) [OF assms(1)] r m(4) in auto)
    with f m assms(2) show ?thesis by (auto simp: get_record_def run_simps page_rec_def split: if_splits)
  qed
qed

lemma scan_next_keep:
  assumes "rm_rel (s, fh, t) st" "1 \<le> pn" "scan_next n pn slot (s, fh, t) = (Inr r, s', x)"
  shows "files_keep (table_pages fh) s s'"
  using assms
proof (induction "nat (n - pn)" arbitrary: pn slot s rule: less_induct)
  case less
  show ?case
  proof (cases "pn < n")
    case False
    with less.prems(3) show ?thesis by (simp add: scan_next.simps [of n pn] run_simps files_keep_refl)
  next
    case True
    then obtain f s1 fh1 t1 where f: "fetch_page_handle pn (s, fh, t) = (Inr f, s1, fh1, t1)"
      using less.prems(3) by (auto simp: scan_next.simps [of n pn] andThen_eq_Inr)
    from look_run [OF less.prems(1,2) f] obtain s2 where m: "fh1 = fh" "t1 = t"
      "unpin_frame f False (s1, fh, t) = (s2, fh, t)" "rm_rel (s2, fh, t) st" "files_keep (table_pages fh) s s2" by blast
    have "s' = s2 \<or> scan_next n (pn + 1) (-1) (s2, fh, t) = (Inr r, s', x)"
      using less.prems(3) True f m by (auto simp: scan_next.simps [of n pn] run_simps Let_def split: if_splits)
    moreover have "scan_next n (pn + 1) (-1) (s2, fh, t) = (Inr r, s', x) \<Longrightarrow> files_keep (table_pages fh) s2 s'"
      by (rule less.hyps [OF _ m(4)]) (use True less.prems(2) in auto)
    ultimately show ?thesis using m(5) files_keep_trans by blast
  qed
qed

lemma scan_first_run:
  assumes "rm_rel (s, fh, t) st"
  shows "(\<exists>e x. scan_first (s, fh, t) = (Inl e, x) \<and> scan_failed fh st e) \<or>
    (\<exists>r s'. scan_first (s, fh, t) = (Inr r, s', fh, t) \<and> rm_rel (s', fh, t) st \<and> files_keep (table_pages fh) s s' \<and>
      next_rid fh st (Rid 1 (-1)) r \<and> rids_from fh st r = dom (rm_table fh st))"
proof -
  have "1 \<le> num_records_per_page (file_hdr fh)" using rm_relD(3) [OF assms(1)] by (simp add: layout_ok_def)
  note first = scan_next_run [OF assms(1) refl, of 1 "-1"]
  have above: "Rid 1 (-1) < q" if "q \<in> dom (rm_table fh st)" for q
    using dom_table [OF that] by (auto simp: less_rid_def slot_ok_def)
  have all: "rids_from fh st r = dom (rm_table fh st)" if "next_rid fh st (Rid 1 (-1)) r" for r
  proof (cases "page_no r < num_pages (file_hdr fh)")
    case True
    with that above show ?thesis by (auto simp: next_rid_def rids_from_def)
  next
    case False
    with that above show ?thesis by (auto simp: next_rid_def rids_from_end)
  qed
  from first \<open>1 \<le> _\<close> scan_next_keep [OF assms(1), of 1 "num_pages (file_hdr fh)" "-1"] all show ?thesis
    by (auto simp: scan_first_def RM_FIRST_RECORD_PAGE_def)
qed

section \<open>Operations under an invariant\<close>

text \<open>
  \<open>gives I E m Q\<close>: started in a state with \<open>I\<close>, the operation returns, either a value with \<open>Q\<close> and
  again with \<open>I\<close>, or an error of \<open>E\<close>.
\<close>

definition gives :: "('s \<Rightarrow> bool) \<Rightarrow> (rmdb_error \<Rightarrow> bool) \<Rightarrow> ('s, 'a) pop \<Rightarrow> ('a \<Rightarrow> bool) \<Rightarrow> bool" where
  "gives I E m Q \<longleftrightarrow> (\<forall>s. I s \<longrightarrow> (\<exists>r s'. m s = Some (r, s') \<and> (case r of Inl e \<Rightarrow> E e | Inr a \<Rightarrow> Q a \<and> I s')))"

lemma givesI:
  assumes "\<And>s. I s \<Longrightarrow> (\<exists>e s'. m s = Some (Inl e, s') \<and> E e) \<or> (\<exists>a s'. m s = Some (Inr a, s') \<and> Q a \<and> I s')"
  shows "gives I E m Q"
  unfolding gives_def
proof (intro allI impI)
  fix s assume "I s"
  from assms [OF this] show "\<exists>r s'. m s = Some (r, s') \<and> (case r of Inl e \<Rightarrow> E e | Inr a \<Rightarrow> Q a \<and> I s')"
    by (elim disjE exE conjE) (auto intro: exI [of _ "Inl _"] exI [of _ "Inr _"])
qed

lemma givesD:
  assumes "gives I E m Q" "I s"
  shows "(\<exists>e s'. m s = Some (Inl e, s') \<and> E e) \<or> (\<exists>a s'. m s = Some (Inr a, s') \<and> Q a \<and> I s')"
proof -
  obtain r s' where "m s = Some (r, s')" "case r of Inl e \<Rightarrow> E e | Inr a \<Rightarrow> Q a \<and> I s'"
    using assms by (auto simp: gives_def)
  then show ?thesis by (cases r) auto
qed

lemma gives_mono [mono]: "(\<And>a. Q a \<longrightarrow> R a) \<Longrightarrow> gives I E m Q \<longrightarrow> gives I E m R"
  unfolding gives_def by (fastforce split: sum.splits)

lemma gives_conseq: "gives I E m Q \<Longrightarrow> (\<And>a. Q a \<Longrightarrow> R a) \<Longrightarrow> gives I E m R"
  using gives_mono [of Q R I E m] by blast

lemma gives_then:
  assumes "gives I E m Q" "\<And>a. Q a \<Longrightarrow> gives I E (k a) R"
  shows "gives I E (pThen m k) R"
proof (rule givesI)
  fix s assume "I s"
  from givesD [OF assms(1) this] show "(\<exists>e s'. pThen m k s = Some (Inl e, s') \<and> E e) \<or> (\<exists>a s'. pThen m k s = Some (Inr a, s') \<and> R a \<and> I s')"
  proof (elim disjE exE conjE)
    fix a s' assume "m s = Some (Inr a, s')" "Q a" "I s'"
    with givesD [OF assms(2) [OF \<open>Q a\<close>] \<open>I s'\<close>] show ?thesis by (simp add: prun_simps)
  qed (simp add: prun_simps)
qed

lemma gives_ret: "Q a \<Longrightarrow> gives I E (pdo (ret a)) Q"
  by (rule givesI) (simp add: pdo_def ret_def)

lemma gives_throw: "E e \<Longrightarrow> gives I E (pdo (throw e)) Q"
  by (rule givesI) (simp add: pdo_def throw_def)

lemma gives_if:
  assumes "\<And>s. I s \<Longrightarrow> b s = v" "v \<Longrightarrow> gives I E m Q" "\<not> v \<Longrightarrow> gives I E n Q"
  shows "gives I E (\<lambda>s. if b s then m s else n s) Q"
  using assms by (cases v) (auto simp: gives_def)

text \<open>A test that only reads the state.\<close>

lemma gives_read: "(\<And>s. I s \<Longrightarrow> gives I E (f s) Q) \<Longrightarrow> gives I E (\<lambda>s. f s s) Q"
  by (simp add: gives_def)

section \<open>The tables of a server\<close>

text \<open>
  The server has the open files \<open>F\<close>, and the pool stands for the pages \<open>st\<close>: the tables are
  \<open>rm_table fh st\<close>. Reading stops early when the pool cannot bring in a page of a table, or the lock
  manager turns the transaction down.
\<close>

definition reading :: "(string \<times> rm_file) list \<Rightarrow> (page_id \<rightharpoonup> bytes) \<Rightarrow> server \<Rightarrow> bool" where
  "reading F st sv \<longleftrightarrow> sv_fhs sv = F \<and> (\<forall>t fh. map_of F t = Some fh \<longrightarrow> rm_rel (sv_store sv, fh, None) st)"

definition stopped :: "(string \<times> rm_file) list \<Rightarrow> (page_id \<rightharpoonup> bytes) \<Rightarrow> rmdb_error \<Rightarrow> bool" where
  "stopped F st e \<longleftrightarrow> (\<exists>t fh. map_of F t = Some fh \<and> scan_failed fh st e) \<or> (\<exists>t r. e = TransactionAbortException t r)"

lemma update_same: "map_of F t = Some fh \<Longrightarrow> AList.update t fh F = F"
  by (induction F) (auto split: if_splits)

lemma rm_rel_keep:
  assumes "rm_rel (s, fh, t) st" "rm_rel (s, fh', t') st" "rm_rel (s', fh, t) st" "files_keep (table_pages fh) s s'"
  shows "rm_rel (s', fh', t') st"
proof -
  have "rm_pool s' (rm_fd fh') (num_pages (file_hdr fh'))"
    by (rule rm_pool_keep [OF _ assms(4)]) (use assms(1,2) in \<open>auto simp: rm_rel_pool rm_pool_def table_pages_def\<close>)
  with assms(2,3) show ?thesis by (simp add: rm_rel_pool)
qed

text \<open>A read of one table is a read of the server.\<close>

lemma reading_table:
  assumes "map_of F t = Some fh"
    "\<And>s. rm_rel (s, fh, None) st \<Longrightarrow> (\<exists>e x. m (s, fh, None) = (Inl e, x) \<and> scan_failed fh st e) \<or>
      (\<exists>a s'. m (s, fh, None) = (Inr a, s', fh, None) \<and> rm_rel (s', fh, None) st \<and> files_keep (table_pages fh) s s' \<and> Q a)"
  shows "gives (reading F st) (stopped F st) (pdo (on_table False t m)) Q"
proof (rule givesI)
  fix sv assume rd: "reading F st sv"
  then have fhs: "map_of (sv_fhs sv) t = Some fh" and rel: "rm_rel (sv_store sv, fh, None) st"
    using assms(1) by (auto simp: reading_def)
  from assms(2) [OF rel] show "(\<exists>e s'. pdo (on_table False t m) sv = Some (Inl e, s') \<and> stopped F st e) \<or>
      (\<exists>a s'. pdo (on_table False t m) sv = Some (Inr a, s') \<and> Q a \<and> reading F st s')"
  proof (elim disjE exE conjE)
    fix e x assume "m (sv_store sv, fh, None) = (Inl e, x)" "scan_failed fh st e"
    with fhs assms(1) show ?thesis by (cases x) (auto simp: pdo_def on_table_def stopped_def)
  next
    fix a s' assume m: "m (sv_store sv, fh, None) = (Inr a, s', fh, None)" "rm_rel (s', fh, None) st"
      "files_keep (table_pages fh) (sv_store sv) s'" "Q a"
    have "AList.update t fh (sv_fhs sv) = F" using rd fhs update_same by (auto simp: reading_def)
    moreover have "rm_rel (s', fh', None) st" if "map_of F t' = Some fh'" for t' fh'
      using rm_rel_keep [OF rel _ m(2,3), of fh' None] rd that by (auto simp: reading_def)
    ultimately show ?thesis using m fhs by (simp add: pdo_def on_table_def reading_def)
  qed
qed

lemma reading_record:
  "map_of F t = Some fh \<Longrightarrow> rm_table fh st r = Some b \<Longrightarrow>
    gives (reading F st) (stopped F st) (pdo (on_table False t (get_record r))) (\<lambda>x. x = b)"
  by (rule reading_table) (use get_record_value in fastforce)+

end
