(* ===== verification/Executors.thy ===== *)
theory Executors
  imports Table_Read
begin

text \<open>
  The relational operators that produce records one by one: \<^verbatim>\<open>execution/executor_abstract.h\<close>,
  \<^verbatim>\<open>executor_seq_scan.h\<close>, \<^verbatim>\<open>executor_limit.h\<close>, \<^verbatim>\<open>executor_projection.h\<close>. The abstract class is
  the record \<open>executor\<close> of its member functions, over the type \<open>'c\<close> of the members that change; a
  subclass is a function from its children to that record.
\<close>

section \<open>The abstract classes\<close>

text \<open>A member function that returns or throws without touching the server.\<close>

definition plift :: "rmdb_error + 'a \<Rightarrow> ('s, 'a) pop" where
  "plift r = (\<lambda>s. Some (r, s))"

definition eThen :: "rmdb_error + 'a \<Rightarrow> ('a \<Rightarrow> rmdb_error + 'b) \<Rightarrow> rmdb_error + 'b" where
  "eThen r k = (case r of Inl e \<Rightarrow> Inl e | Inr a \<Rightarrow> k a)"

lemma eThen_simps [simp]: "eThen (Inl e) k = Inl e" "eThen (Inr a) k = k a"
  by (simp_all add: eThen_def)

lemma eThen_eq_Inr: "eThen r k = Inr b \<longleftrightarrow> (\<exists>a. r = Inr a \<and> k a = Inr b)"
  by (cases r) auto

lemma pThen_plift [simp]: "pThen (plift (Inr a)) k = k a"
  by (simp add: pThen_def plift_def fun_eq_iff)

lemma gives_then_eq: "gives I E m (\<lambda>x. x = a) \<Longrightarrow> gives I E (k a) Q \<Longrightarrow> gives I E (pThen m k) Q"
  by (erule gives_then) simp

text \<open>\<^verbatim>\<open>RecScan\<close>: \<open>'r\<close> is what the scan remembers.\<close>

record 'r rec_scan =
  rs_next :: "'r \<Rightarrow> (server, 'r) pop"
  rs_end :: "'r \<Rightarrow> server \<Rightarrow> bool"
  rs_rid :: "'r \<Rightarrow> (server, rid) pop"

text \<open>
  \<^verbatim>\<open>AbstractExecutor\<close>: \<open>ex_rec\<close> is \<^verbatim>\<open>Next\<close>, the current record. After an exception an executor is
  thrown away, so its members are returned by the calls that succeed.
\<close>

record 'c executor =
  ex_cols :: "col_meta list"
  ex_len :: int
  ex_begin :: "'c \<Rightarrow> (server, 'c) pop"
  ex_next :: "'c \<Rightarrow> (server, 'c) pop"
  ex_end :: "'c \<Rightarrow> server \<Rightarrow> bool"
  ex_rec :: "'c \<Rightarrow> (server, bytes) pop"

definition get_col :: "col_meta list \<Rightarrow> tabcol \<Rightarrow> rmdb_error + col_meta" where
  "get_col cols target = (case find (\<lambda>c. cm_tab c = tc_tab target \<and> cm_name c = tc_col target) cols of
     None \<Rightarrow> Inl (ColumnNotFoundError (tc_tab target @ ''.'' @ tc_col target))
   | Some c \<Rightarrow> Inr c)"

text \<open>The right side of a condition without a raw value is a null pointer.\<close>

definition eval_cond :: "col_meta list \<Rightarrow> condition \<Rightarrow> bytes \<Rightarrow> rmdb_error + bool" where
  "eval_cond cols cond r =
     eThen (get_col cols (lhs_col cond)) (\<lambda>l.
     eThen (if is_rhs_val cond then (case raw (rhs_val cond) of None \<Rightarrow> Inl AssertionFailure | Some b \<Rightarrow> Inr b)
            else eThen (get_col cols (rhs_col cond)) (\<lambda>c. Inr (drop (nat (cm_offset c)) r))) (\<lambda>rhs.
     Inr (eval_compare (compare_value (drop (nat (cm_offset l)) r) rhs (cm_type l) (cm_len l)) (cond_op cond))))"

fun eval_conds :: "col_meta list \<Rightarrow> condition list \<Rightarrow> bytes \<Rightarrow> rmdb_error + bool" where
  "eval_conds cols [] r = Inr True"
| "eval_conds cols (c # cs) r = eThen (eval_cond cols c r) (\<lambda>ok. if ok then eval_conds cols cs r else Inr False)"

text \<open>The loop \<^verbatim>\<open>for (beginTuple(); !is_end(); nextTuple())\<close> with what is done with each record.\<close>

partial_function (option) fold_tuples ::
    "'c executor \<Rightarrow> ('a \<Rightarrow> bytes \<Rightarrow> rmdb_error + 'a) \<Rightarrow> 'a \<Rightarrow> 'c \<Rightarrow> server \<Rightarrow> ((rmdb_error + 'a) \<times> server) option" where
  "fold_tuples ex f acc c sv =
     (if ex_end ex c sv then Some (Inr acc, sv)
      else pThen (ex_rec ex c) (\<lambda>r. pThen (plift (f acc r)) (\<lambda>acc.
        pThen (ex_next ex c) (\<lambda>c. fold_tuples ex f acc c))) sv)"

definition each_tuple :: "'c executor \<Rightarrow> ('a \<Rightarrow> bytes \<Rightarrow> rmdb_error + 'a) \<Rightarrow> 'a \<Rightarrow> 'c \<Rightarrow> (server, 'a) pop" where
  "each_tuple ex f acc c = pThen (ex_begin ex c) (fold_tuples ex f acc)"

section \<open>What an executor delivers\<close>

text \<open>
  \<open>yields I E ex c rs\<close>: from the member values \<open>c\<close> on, the executor gives the records \<open>rs\<close> in order and
  then ends, whatever happens to the server in between as long as \<open>I\<close> holds, unless a call fails with
  an error of \<open>E\<close>.
\<close>

inductive yields :: "(server \<Rightarrow> bool) \<Rightarrow> (rmdb_error \<Rightarrow> bool) \<Rightarrow> 'c executor \<Rightarrow> 'c \<Rightarrow> bytes list \<Rightarrow> bool"
  for I E ex where
  ended: "(\<And>sv. I sv \<Longrightarrow> ex_end ex c sv) \<Longrightarrow> yields I E ex c []"
| tuple: "(\<And>sv. I sv \<Longrightarrow> \<not> ex_end ex c sv) \<Longrightarrow> gives I E (ex_rec ex c) (\<lambda>x. x = r) \<Longrightarrow>
    gives I E (ex_next ex c) (\<lambda>c'. yields I E ex c' rs) \<Longrightarrow> yields I E ex c (r # rs)"

inductive_cases yields_Nil: "yields I E ex c []"
inductive_cases yields_Cons: "yields I E ex c (r # rs)"

definition delivers :: "(server \<Rightarrow> bool) \<Rightarrow> (rmdb_error \<Rightarrow> bool) \<Rightarrow> 'c executor \<Rightarrow> bytes list \<Rightarrow> bool" where
  "delivers I E ex rs \<longleftrightarrow> (\<forall>c. gives I E (ex_begin ex c) (\<lambda>c'. yields I E ex c' rs))"

fun foldE :: "('a \<Rightarrow> 'b \<Rightarrow> rmdb_error + 'a) \<Rightarrow> 'a \<Rightarrow> 'b list \<Rightarrow> rmdb_error + 'a" where
  "foldE f acc [] = Inr acc"
| "foldE f acc (x # xs) = eThen (f acc x) (\<lambda>acc. foldE f acc xs)"

lemma fold_tuples_unfold:
  "fold_tuples ex f acc c = (\<lambda>sv. if ex_end ex c sv then pdo (ret acc) sv
      else pThen (ex_rec ex c) (\<lambda>r. pThen (plift (f acc r)) (\<lambda>acc.
        pThen (ex_next ex c) (\<lambda>c. fold_tuples ex f acc c))) sv)"
  by (rule ext) (simp add: fold_tuples.simps [of ex f acc c] pdo_def ret_def)

lemma fold_tuples_run:
  assumes "yields I E ex c rs" "foldE f acc rs = Inr b"
  shows "gives I E (fold_tuples ex f acc c) (\<lambda>x. x = b)"
  using assms
proof (induction rs arbitrary: acc c rule: list.induct)
  case Nil
  then show ?case unfolding fold_tuples_unfold [of ex f acc]
    by (intro gives_if [where v = True] gives_ret) (auto elim: yields_Nil)
next
  case (Cons r rs)
  from Cons.prems(1) have y: "\<And>sv. I sv \<Longrightarrow> \<not> ex_end ex c sv" "gives I E (ex_rec ex c) (\<lambda>x. x = r)"
    "gives I E (ex_next ex c) (\<lambda>c'. yields I E ex c' rs)" by (auto elim: yields_Cons)
  obtain a where a: "f acc r = Inr a" "foldE f a rs = Inr b" using Cons.prems(2) by (auto simp: eThen_eq_Inr)
  show ?case unfolding fold_tuples_unfold [of ex f acc]
    by (rule gives_if [where v = False])
      (use y a Cons.IH in \<open>auto intro!: gives_then_eq [OF y(2)] gives_then [OF y(3)]\<close>)
qed

lemma each_tuple_run:
  "delivers I E ex rs \<Longrightarrow> foldE f acc rs = Inr b \<Longrightarrow> gives I E (each_tuple ex f acc c) (\<lambda>x. x = b)"
  unfolding each_tuple_def by (rule gives_then [of I E _ "\<lambda>c. yields I E ex c rs"]) (auto simp: delivers_def intro: fold_tuples_run)

section \<open>Scanning a table\<close>

text \<open>\<^verbatim>\<open>find_next_valid\<close> of both scans: on to the first record that meets the conditions.\<close>

partial_function (option) find_next_valid ::
    "'r rec_scan \<Rightarrow> string \<Rightarrow> col_meta list \<Rightarrow> condition list \<Rightarrow> rid \<Rightarrow> 'r \<Rightarrow> server \<Rightarrow>
     ((rmdb_error + rid \<times> 'r) \<times> server) option" where
  "find_next_valid S t cols conds r sc sv =
     (if rs_end S sc sv then pdo (ret (r, sc)) sv
      else pThen (rs_rid S sc) (\<lambda>r. pThen (pdo (on_table False t (get_record r))) (\<lambda>rec.
        pThen (plift (eval_conds cols conds rec)) (\<lambda>ok s.
          if ok then pdo (ret (r, sc)) s
          else pThen (rs_next S sc) (\<lambda>sc. find_next_valid S t cols conds r sc) s))) sv)"

text \<open>\<^verbatim>\<open>RmScan\<close> on the table \<open>t\<close>: its position.\<close>

definition rm_rec_scan :: "string \<Rightarrow> rid rec_scan" where
  "rm_rec_scan t = \<lparr>
     rs_next = (\<lambda>r. pdo (on_table False t (\<lambda>(s, fh, x).
       scan_next (num_pages (file_hdr fh)) (page_no r) (slot_no r) (s, fh, x)))),
     rs_end = (\<lambda>r sv. case map_of (sv_fhs sv) t of None \<Rightarrow> True | Some fh \<Rightarrow> scan_is_end fh r),
     rs_rid = (\<lambda>r. pdo (ret r))\<rparr>"

definition on_locks :: "(transaction \<times> lock_table, 'a) op \<Rightarrow> (server, 'a) op" where
  "on_locks = zoom (\<lambda>sv. (sv_txn sv, sv_locks sv)) (\<lambda>(x, l) sv. sv\<lparr>sv_txn := x, sv_locks := l\<rparr>)"

text \<open>\<^verbatim>\<open>fh_->GetFd()\<close> for the handle of the table.\<close>

definition table_fd :: "string \<Rightarrow> (server, int) op" where
  "table_fd t = (\<lambda>sv. case map_of (sv_fhs sv) t of None \<Rightarrow> (Inl StdOutOfRange, sv) | Some fh \<Rightarrow> (Inr (rm_fd fh), sv))"

definition last_end :: "col_meta list \<Rightarrow> int" where
  "last_end cols = add32 (cm_offset (last cols)) (cm_len (last cols))"

text \<open>
  \<^verbatim>\<open>SeqScanExecutor\<close> remembers \<open>rid_\<close> and the scan, a null pointer before \<open>beginTuple\<close>; the constructor
  looks the table up. \<open>ex_end\<close> has no error: before \<open>beginTuple\<close>, where the source would follow the null
  pointer and which no caller does, it is \<open>True\<close>.
\<close>

definition seq_scan :: "string \<Rightarrow> condition list \<Rightarrow> col_meta list \<Rightarrow> (rid \<times> rid option) executor" where
  "seq_scan t conds cols = \<lparr>ex_cols = cols, ex_len = last_end cols,
     ex_begin = (\<lambda>(r, _).
       pThen (pdo (table_fd t)) (\<lambda>fd. pThen (pdo (on_locks (lock_shared_on_table fd))) (\<lambda>_.
       pThen (pdo (on_table False t scan_first)) (\<lambda>sc.
       pThen (find_next_valid (rm_rec_scan t) t cols conds r sc) (\<lambda>(r, sc). pdo (ret (r, Some sc))))))),
     ex_next = (\<lambda>(r, sc). case sc of None \<Rightarrow> pdo (throw AssertionFailure)
       | Some sc \<Rightarrow> pThen (rs_next (rm_rec_scan t) sc) (\<lambda>sc.
           pThen (find_next_valid (rm_rec_scan t) t cols conds r sc) (\<lambda>(r, sc). pdo (ret (r, Some sc))))),
     ex_end = (\<lambda>(_, sc) sv. case sc of None \<Rightarrow> True | Some sc \<Rightarrow> rs_end (rm_rec_scan t) sc sv),
     ex_rec = (\<lambda>(r, _). pdo (on_table False t (get_record r)))\<rparr>"

definition seq_scan_new :: "string \<Rightarrow> condition list \<Rightarrow> (server, (rid \<times> rid option) executor) op" where
  "seq_scan_new t conds = andThen (from_db (get_table t)) (\<lambda>tab. andThen (table_fd t) (\<lambda>_.
     if tm_cols tab = [] then throw AssertionFailure else ret (seq_scan t conds (tm_cols tab))))"

text \<open>
  What a scan owes its client: \<open>left sc ps\<close>, it stands at the first of the positions \<open>ps\<close>, or at the
  end. The loop over it stops at the first of them whose record meets the conditions.
\<close>

locale record_scan =
  fixes S :: "'r rec_scan" and t :: string and tab :: "rid \<rightharpoonup> bytes"
    and I :: "server \<Rightarrow> bool" and E :: "rmdb_error \<Rightarrow> bool" and left :: "'r \<Rightarrow> rid list \<Rightarrow> bool"
  assumes scan_ended: "left sc [] \<Longrightarrow> I sv \<Longrightarrow> rs_end S sc sv"
    and scan_going: "left sc (p # ps) \<Longrightarrow> I sv \<Longrightarrow> \<not> rs_end S sc sv"
    and scan_rid: "left sc (p # ps) \<Longrightarrow> gives I E (rs_rid S sc) (\<lambda>x. x = p)"
    and scan_next: "left sc (p # ps) \<Longrightarrow> gives I E (rs_next S sc) (\<lambda>sc'. left sc' ps)"
    and scan_record: "left sc (p # ps) \<Longrightarrow> gives I E (pdo (on_table False t (get_record p))) (\<lambda>b. tab p = Some b)"
begin

lemma find_next_unfold:
  "find_next_valid S t cols conds r sc = (\<lambda>sv. if rs_end S sc sv then pdo (ret (r, sc)) sv
      else pThen (rs_rid S sc) (\<lambda>r. pThen (pdo (on_table False t (get_record r))) (\<lambda>rec.
        pThen (plift (eval_conds cols conds rec)) (\<lambda>ok s.
          if ok then pdo (ret (r, sc)) s
          else pThen (rs_next S sc) (\<lambda>sc. find_next_valid S t cols conds r sc) s))) sv)"
  by (rule ext) (rule find_next_valid.simps)

lemma find_next_run:
  assumes "left sc ps" "\<forall>p b. tab p = Some b \<longrightarrow> eval_conds cols conds b = Inr (P b)"
  shows "gives I E (find_next_valid S t cols conds r sc)
    (\<lambda>(r', sc'). left sc' (dropWhile (\<lambda>p. \<not> P (the (tab p))) ps) \<and>
      (dropWhile (\<lambda>p. \<not> P (the (tab p))) ps \<noteq> [] \<longrightarrow> r' = hd (dropWhile (\<lambda>p. \<not> P (the (tab p))) ps)))"
  using assms(1)
proof (induction ps arbitrary: r sc)
  case Nil
  then show ?case unfolding find_next_unfold [of cols conds r]
    by (intro gives_if [where v = True] gives_ret) (auto intro: scan_ended)
next
  case (Cons p ps)
  show ?case unfolding find_next_unfold [of cols conds r]
  proof (rule gives_if [where v = False])
    show "I sv \<Longrightarrow> rs_end S sc sv = False" for sv using scan_going [OF Cons.prems] by simp
    show "gives I E (pThen (rs_rid S sc) (\<lambda>r. pThen (pdo (on_table False t (get_record r))) (\<lambda>rec.
        pThen (plift (eval_conds cols conds rec)) (\<lambda>ok s.
          if ok then pdo (ret (r, sc)) s
          else pThen (rs_next S sc) (\<lambda>sc. find_next_valid S t cols conds r sc) s))))
      (\<lambda>(r', sc'). left sc' (dropWhile (\<lambda>p. \<not> P (the (tab p))) (p # ps)) \<and>
        (dropWhile (\<lambda>p. \<not> P (the (tab p))) (p # ps) \<noteq> [] \<longrightarrow> r' = hd (dropWhile (\<lambda>p. \<not> P (the (tab p))) (p # ps))))"
    proof (rule gives_then_eq [OF scan_rid [OF Cons.prems]], rule gives_then [OF scan_record [OF Cons.prems]])
      fix b assume b: "tab p = Some b"
      then have ev: "eval_conds cols conds b = Inr (P b)" using assms(2) by blast
      show "gives I E (pThen (plift (eval_conds cols conds b)) (\<lambda>ok s. if ok then pdo (ret (p, sc)) s
          else pThen (rs_next S sc) (\<lambda>sc. find_next_valid S t cols conds p sc) s))
        (\<lambda>(r', sc'). left sc' (dropWhile (\<lambda>p. \<not> P (the (tab p))) (p # ps)) \<and>
          (dropWhile (\<lambda>p. \<not> P (the (tab p))) (p # ps) \<noteq> [] \<longrightarrow> r' = hd (dropWhile (\<lambda>p. \<not> P (the (tab p))) (p # ps))))"
        using b Cons.prems Cons.IH
        by (cases "P b") (auto simp: ev intro!: gives_ret gives_then [OF scan_next [OF Cons.prems]])
    qed
  qed simp
qed

end

text \<open>\<^verbatim>\<open>RmScan\<close> is such a scan of every table.\<close>

definition rids_left :: "(string \<times> rm_file) list \<Rightarrow> (page_id \<rightharpoonup> bytes) \<Rightarrow> string \<Rightarrow> rid \<Rightarrow> rid list \<Rightarrow> bool" where
  "rids_left F st t sc ps \<longleftrightarrow> (\<exists>fh. map_of F t = Some fh \<and> ps = sorted_list_of_set (rids_from fh st sc) \<and>
     (page_no sc < num_pages (file_hdr fh) \<longrightarrow> sc \<in> dom (rm_table fh st)))"

definition table_of :: "(string \<times> rm_file) list \<Rightarrow> (page_id \<rightharpoonup> bytes) \<Rightarrow> string \<Rightarrow> rid \<rightharpoonup> bytes" where
  "table_of F st t = (case map_of F t of None \<Rightarrow> Map.empty | Some fh \<Rightarrow> rm_table fh st)"

lemma rids_left_cases:
  assumes "rids_left F st t sc ps"
  obtains (none) fh where "map_of F t = Some fh" "ps = []" "num_pages (file_hdr fh) \<le> page_no sc"
  | (some) fh where "map_of F t = Some fh" "page_no sc < num_pages (file_hdr fh)" "sc \<in> dom (rm_table fh st)"
      "ps = sorted_list_of_set (rids_from fh st sc)" "ps \<noteq> []" "hd ps = sc"
proof -
  obtain fh where fh: "map_of F t = Some fh" "ps = sorted_list_of_set (rids_from fh st sc)"
    "page_no sc < num_pages (file_hdr fh) \<longrightarrow> sc \<in> dom (rm_table fh st)" using assms by (auto simp: rids_left_def)
  show thesis
  proof (cases "page_no sc < num_pages (file_hdr fh)")
    case False
    with fh show thesis by (intro none [of fh]) (auto simp: rids_from_end)
  next
    case True
    then have sc: "sc \<in> rids_from fh st sc" "\<forall>q \<in> rids_from fh st sc. sc \<le> q" using fh(3) by (auto simp: rids_from_def)
    then have "Min (rids_from fh st sc) = sc" by (intro Min_eqI) auto
    moreover have "rids_from fh st sc \<noteq> {}" using sc(1) by blast
    ultimately have "ps \<noteq> []" "hd ps = sc" using fh(2) by (auto simp: sorted_list_of_set_nonempty)
    with True fh show thesis by (intro some [of fh]) auto
  qed
qed

lemma scan_step_run:
  assumes "map_of F t = Some fh" "sc \<in> dom (rm_table fh st)"
  shows "gives (reading F st) (stopped F st) (rs_next (rm_rec_scan t) sc)
    (\<lambda>sc'. rids_left F st t sc' (tl (sorted_list_of_set (rids_from fh st sc))))"
  unfolding rm_rec_scan_def rec_scan.simps
proof (rule reading_table [OF assms(1)])
  fix s assume rel: "rm_rel (s, fh, None) st"
  have slot: "1 \<le> page_no sc" "-1 \<le> slot_no sc" "slot_no sc < num_records_per_page (file_hdr fh)"
    using dom_table [OF assms(2)] by (auto simp: slot_ok_def)
  have left: "rids_left F st t sc' (tl (sorted_list_of_set (rids_from fh st sc)))" if n: "next_rid fh st sc sc'" for sc'
  proof -
    note rids = rids_from_next [OF assms(2) n]
    have "sorted_list_of_set (rids_from fh st sc) = sc # sorted_list_of_set (rids_from fh st sc')"
      using rids by (simp add: insort_is_Cons)
    with assms n show ?thesis by (auto simp: rids_left_def next_rid_def)
  qed
  have "Rid (page_no sc) (slot_no sc) = sc" by (cases sc) simp
  with scan_next_run [OF rel refl slot] scan_next_keep [OF rel slot(1)] left
  show "(\<exists>e x. (\<lambda>(s, fh, x). scan_next (num_pages (file_hdr fh)) (page_no sc) (slot_no sc) (s, fh, x)) (s, fh, None) = (Inl e, x) \<and>
      scan_failed fh st e) \<or>
    (\<exists>a s'. (\<lambda>(s, fh, x). scan_next (num_pages (file_hdr fh)) (page_no sc) (slot_no sc) (s, fh, x)) (s, fh, None) = (Inr a, s', fh, None) \<and>
      rm_rel (s', fh, None) st \<and> files_keep (table_pages fh) s s' \<and>
      rids_left F st t a (tl (sorted_list_of_set (rids_from fh st sc))))"
    by simp blast
qed

interpretation rm: record_scan "rm_rec_scan t" t "table_of F st t" "reading F st" "stopped F st" "rids_left F st t" for F st t
proof
  show "rids_left F st t sc [] \<Longrightarrow> reading F st sv \<Longrightarrow> rs_end (rm_rec_scan t) sc sv" for sc sv
    by (erule rids_left_cases) (auto simp: rm_rec_scan_def scan_is_end_def reading_def)
  show "rids_left F st t sc (p # ps) \<Longrightarrow> reading F st sv \<Longrightarrow> \<not> rs_end (rm_rec_scan t) sc sv" for sc sv p ps
    by (erule rids_left_cases) (auto simp: rm_rec_scan_def scan_is_end_def reading_def)
  show "rids_left F st t sc (p # ps) \<Longrightarrow> gives (reading F st) (stopped F st) (rs_rid (rm_rec_scan t) sc) (\<lambda>x. x = p)" for sc p ps
    by (erule rids_left_cases) (auto simp: rm_rec_scan_def dest: arg_cong [of _ _ hd] intro!: gives_ret)
  show "rids_left F st t sc (p # ps) \<Longrightarrow> gives (reading F st) (stopped F st) (rs_next (rm_rec_scan t) sc) (\<lambda>sc'. rids_left F st t sc' ps)"
    for sc p ps by (erule rids_left_cases) (simp, metis list.sel(3) scan_step_run)
  show "rids_left F st t sc (p # ps) \<Longrightarrow>
      gives (reading F st) (stopped F st) (pdo (on_table False t (get_record p))) (\<lambda>b. table_of F st t p = Some b)" for sc p ps
  proof (erule rids_left_cases)
    fix fh assume fh: "map_of F t = Some fh" "p # ps \<noteq> []" "hd (p # ps) = sc" "sc \<in> dom (rm_table fh st)"
    then obtain b where b: "rm_table fh st p = Some b" by auto
    from reading_record [OF fh(1) b] show ?thesis by (rule gives_conseq) (simp add: table_of_def fh b)
  qed simp
qed

text \<open>The records of a table in the order of their positions.\<close>

definition table_rows :: "(rid \<rightharpoonup> bytes) \<Rightarrow> bytes list" where
  "table_rows T = map (\<lambda>p. the (T p)) (sorted_list_of_set (dom T))"

lemma set_table_rows: "finite (dom T) \<Longrightarrow> set (table_rows T) = ran T"
  by (force simp: table_rows_def ran_def dom_def image_iff)

lemma seq_scan_calls:
  "ex_begin (seq_scan t conds cols) (r, x) =
     pThen (pdo (table_fd t)) (\<lambda>fd. pThen (pdo (on_locks (lock_shared_on_table fd))) (\<lambda>_.
       pThen (pdo (on_table False t scan_first)) (\<lambda>sc.
       pThen (find_next_valid (rm_rec_scan t) t cols conds r sc) (\<lambda>(r, sc). pdo (ret (r, Some sc))))))"
  "ex_next (seq_scan t conds cols) (r, Some sc) =
     pThen (rs_next (rm_rec_scan t) sc) (\<lambda>sc.
       pThen (find_next_valid (rm_rec_scan t) t cols conds r sc) (\<lambda>(r, sc). pdo (ret (r, Some sc))))"
  by (simp_all add: seq_scan_def)

lemma seq_yields:
  assumes "\<forall>p b. table_of F st t p = Some b \<longrightarrow> eval_conds cols conds b = Inr (P b)"
    "rids_left F st t sc (dropWhile (\<lambda>p. \<not> P (the (table_of F st t p))) ps)"
    "dropWhile (\<lambda>p. \<not> P (the (table_of F st t p))) ps \<noteq> [] \<longrightarrow> r = hd (dropWhile (\<lambda>p. \<not> P (the (table_of F st t p))) ps)"
  shows "yields (reading F st) (stopped F st) (seq_scan t conds cols) (r, Some sc)
    (filter P (map (\<lambda>p. the (table_of F st t p)) ps))"
  using assms(2,3)
proof (induction ps arbitrary: r sc rule: length_induct)
  case (1 ps)
  let ?v = "\<lambda>p. the (table_of F st t p)"
  show ?case
  proof (cases "dropWhile (\<lambda>p. \<not> P (?v p)) ps")
    case Nil
    then have none: "\<forall>p \<in> set ps. \<not> P (?v p)" by simp
    then have "filter P (map ?v ps) = []" by (simp add: filter_empty_conv)
    then show ?thesis using rm.scan_ended 1(2) Nil by (auto simp: seq_scan_def intro: ended)
  next
    case (Cons p qs)
    have left: "rids_left F st t sc (p # qs)" and r: "r = p" using 1(2,3) Cons by simp_all
    have "P (?v p)" using hd_dropWhile [of "\<lambda>p. \<not> P (?v p)" ps] Cons by auto
    have "length qs < length ps" using length_dropWhile_le [of "\<lambda>p. \<not> P (?v p)" ps] Cons by simp
    have split: "filter P (map ?v ps) = ?v p # filter P (map ?v qs)"
    proof -
      have "filter P (map ?v (takeWhile (\<lambda>p. \<not> P (?v p)) ps)) = []" by (auto simp: filter_empty_conv dest: set_takeWhileD)
      moreover have "map ?v ps = map ?v (takeWhile (\<lambda>p. \<not> P (?v p)) ps) @ map ?v (p # qs)"
        by (metis Cons map_append takeWhile_dropWhile_id)
      ultimately show ?thesis using \<open>P (?v p)\<close> by simp
    qed
    have rec: "gives (reading F st) (stopped F st) (ex_rec (seq_scan t conds cols) (r, Some sc)) (\<lambda>x. x = ?v p)"
      using rm.scan_record [OF left] by (auto simp: seq_scan_def r intro: gives_conseq)
    have "gives (reading F st) (stopped F st) (ex_next (seq_scan t conds cols) (r, Some sc))
        (\<lambda>c. yields (reading F st) (stopped F st) (seq_scan t conds cols) c (filter P (map ?v qs)))"
      unfolding seq_scan_calls
    proof (rule gives_then [OF rm.scan_next [OF left]], rule gives_then [OF rm.find_next_run [OF _ assms(1)]], assumption, clarify)
      fix r' sc' assume "rids_left F st t sc' (dropWhile (\<lambda>p. \<not> P (?v p)) qs)"
        "dropWhile (\<lambda>p. \<not> P (?v p)) qs \<noteq> [] \<longrightarrow> r' = hd (dropWhile (\<lambda>p. \<not> P (?v p)) qs)"
      then have "yields (reading F st) (stopped F st) (seq_scan t conds cols) (r', Some sc') (filter P (map ?v qs))"
        using 1(1) \<open>length qs < _\<close> by blast
      then show "gives (reading F st) (stopped F st) (pdo (ret (r', Some sc')))
          (\<lambda>c. yields (reading F st) (stopped F st) (seq_scan t conds cols) c (filter P (map ?v qs)))" by (rule gives_ret)
    qed
    with rec show ?thesis unfolding split using rm.scan_going [OF left] by (intro tuple) (auto simp: seq_scan_def)
  qed
qed

lemma reading_locks: "gives (reading F st) (stopped F st) (pdo (on_locks (lock_shared_on_table fd))) (\<lambda>_. True)"
proof (rule givesI)
  fix sv assume rd: "reading F st sv"
  obtain r x l where a: "lock_shared_on_table fd (sv_txn sv, sv_locks sv) = (r, x, l)" by (meson prod_cases3)
  then have "\<forall>e. r = Inl e \<longrightarrow> (\<exists>t v. e = TransactionAbortException t v)"
    by (auto simp: lock_shared_on_table_def acquire_lock_def Let_def split: option.splits if_splits)
  with a rd show "(\<exists>e s'. pdo (on_locks (lock_shared_on_table fd)) sv = Some (Inl e, s') \<and> stopped F st e) \<or>
      (\<exists>a s'. pdo (on_locks (lock_shared_on_table fd)) sv = Some (Inr a, s') \<and> True \<and> reading F st s')"
    by (cases r) (auto simp: pdo_def on_locks_def zoom_def stopped_def reading_def)
qed

lemma seq_scan_run:
  assumes "map_of F t = Some fh" "\<forall>p b. rm_table fh st p = Some b \<longrightarrow> eval_conds cols conds b = Inr (P b)"
  shows "delivers (reading F st) (stopped F st) (seq_scan t conds cols) (filter P (table_rows (rm_table fh st)))"
  unfolding delivers_def
proof
  fix c :: "rid \<times> rid option"
  obtain r x where c: "c = (r, x)" by fastforce
  have tab: "table_of F st t = rm_table fh st" using assms(1) by (simp add: table_of_def)
  have first: "gives (reading F st) (stopped F st) (pdo (on_table False t scan_first))
      (\<lambda>sc. rids_left F st t sc (sorted_list_of_set (dom (rm_table fh st))))"
  proof (rule reading_table [OF assms(1)])
    fix s assume "rm_rel (s, fh, None) st"
    from scan_first_run [OF this] show "(\<exists>e x. scan_first (s, fh, None) = (Inl e, x) \<and> scan_failed fh st e) \<or>
      (\<exists>a s'. scan_first (s, fh, None) = (Inr a, s', fh, None) \<and> rm_rel (s', fh, None) st \<and> files_keep (table_pages fh) s s' \<and>
        rids_left F st t a (sorted_list_of_set (dom (rm_table fh st))))"
      using assms(1) by (fastforce simp: rids_left_def next_rid_def)
  qed
  have fd: "gives (reading F st) (stopped F st) (pdo (table_fd t)) (\<lambda>_. True)"
    by (rule givesI) (auto simp: pdo_def table_fd_def reading_def assms(1))
  show "gives (reading F st) (stopped F st) (ex_begin (seq_scan t conds cols) c)
      (\<lambda>c. yields (reading F st) (stopped F st) (seq_scan t conds cols) c (filter P (table_rows (rm_table fh st))))"
    unfolding c seq_scan_calls
  proof (rule gives_then [OF fd], rule gives_then [OF reading_locks], rule gives_then [OF first],
      rule gives_then [OF rm.find_next_run [where P = P]], assumption, goal_cases)
    case 1
    then show ?case using assms(2) tab by simp
  next
    case (2 _ _ sc rsc)
    obtain r' sc' where [simp]: "rsc = (r', sc')" by fastforce
    from seq_yields [of F st t cols conds P sc' "sorted_list_of_set (dom (rm_table fh st))" r'] 2 assms(2)
    show ?case by (auto simp: tab table_rows_def intro!: gives_ret)
  qed
qed

section \<open>Limit\<close>

definition limit_exec :: "'c executor \<Rightarrow> int \<Rightarrow> ('c \<times> int) executor" where
  "limit_exec prev n = \<lparr>ex_cols = ex_cols prev, ex_len = ex_len prev,
     ex_begin = (\<lambda>(c, _). pThen (ex_begin prev c) (\<lambda>c. pdo (ret (c, 0)))),
     ex_next = (\<lambda>(c, k). pThen (ex_next prev c) (\<lambda>c. pdo (ret (c, add32 k 1)))),
     ex_end = (\<lambda>(c, k) sv. k \<ge> n \<or> ex_end prev c sv),
     ex_rec = (\<lambda>(c, _). ex_rec prev c)\<rparr>"

lemma limit_yields:
  assumes "yields I E prev c rs" "0 \<le> k" "n < 2 ^ 31"
  shows "yields I E (limit_exec prev n) (c, k) (take (nat (n - k)) rs)"
  using assms(1,2)
proof (induction rs arbitrary: c k rule: list.induct)
  case Nil
  then show ?case by (auto simp: limit_exec_def elim!: yields_Nil intro: ended)
next
  case (Cons r rs)
  from Cons.prems(1) have y: "\<And>sv. I sv \<Longrightarrow> \<not> ex_end prev c sv" "gives I E (ex_rec prev c) (\<lambda>x. x = r)"
    "gives I E (ex_next prev c) (\<lambda>c'. yields I E prev c' rs)" by (auto elim: yields_Cons)
  show ?case
  proof (cases "k < n")
    case False
    then show ?thesis by (auto simp: limit_exec_def intro: ended)
  next
    case True
    then have k: "add32 k 1 = k + 1" using assms(3) Cons.prems(2) by (intro add32_exact) (simp add: in_signed_def)
    have "gives I E (ex_next (limit_exec prev n) (c, k)) (\<lambda>c'. yields I E (limit_exec prev n) c' (take (nat (n - (k + 1))) rs))"
      using y(3) Cons.IH Cons.prems(2) by (auto simp: limit_exec_def k intro!: gives_then [OF y(3)] gives_ret)
    moreover have "nat (n - k) = Suc (nat (n - (k + 1)))" using True by simp
    ultimately show ?thesis using y True by (auto simp: limit_exec_def intro!: tuple)
  qed
qed

lemma limit_run:
  assumes "delivers I E prev rs" "n < 2 ^ 31"
  shows "delivers I E (limit_exec prev n) (take (nat n) rs)"
  using assms limit_yields [of I E prev _ rs 0 n]
  by (auto simp: delivers_def limit_exec_def intro!: gives_then gives_ret)

section \<open>Projection\<close>

text \<open>\<^verbatim>\<open>sel_idxs_\<close> and \<^verbatim>\<open>cols_\<close> side by side; for an index, the column it stands for.\<close>

fun place_sel :: "col_meta list \<Rightarrow> int \<Rightarrow> tabcol list \<Rightarrow> rmdb_error + (col_meta \<times> col_meta) list \<times> int" where
  "place_sel cols off [] = Inr ([], off)"
| "place_sel cols off (s # ss) = eThen (get_col cols s) (\<lambda>c.
     eThen (place_sel cols (add32 off (cm_len c)) ss) (\<lambda>(ps, len). Inr ((c, c\<lparr>cm_offset := off\<rparr>) # ps, len)))"

text \<open>\<open>memcpy\<close> into a record.\<close>

definition patch :: "int \<Rightarrow> bytes \<Rightarrow> bytes \<Rightarrow> bytes" where
  "patch off b r = take (nat off) r @ b @ drop (nat off + length b) r"

definition project :: "(col_meta \<times> col_meta) list \<Rightarrow> int \<Rightarrow> bytes \<Rightarrow> bytes" where
  "project ps len r = fold (\<lambda>(p, c). patch (cm_offset c) (take (nat (cm_len c)) (drop (nat (cm_offset p)) r))) ps
     (replicate (nat len) 0)"

definition projection_exec :: "'c executor \<Rightarrow> tabcol list \<Rightarrow> rmdb_error + 'c executor" where
  "projection_exec prev sel = eThen (place_sel (ex_cols prev) 0 sel) (\<lambda>(ps, len).
     Inr (prev\<lparr>ex_cols := map snd ps, ex_len := len,
       ex_rec := (\<lambda>c. pThen (ex_rec prev c) (\<lambda>r. pdo (ret (project ps len r))))\<rparr>))"

lemma projection_yields:
  assumes "place_sel (ex_cols prev) 0 sel = Inr (ps, len)" "projection_exec prev sel = Inr ex" "yields I E prev c rs"
  shows "yields I E ex c (map (project ps len) rs)"
  using assms(3)
proof (induction rs arbitrary: c rule: list.induct)
  case Nil
  with assms(1,2) show ?case by (auto simp: projection_exec_def elim!: yields_Nil intro: ended)
next
  case (Cons r rs)
  from Cons.prems have y: "\<And>sv. I sv \<Longrightarrow> \<not> ex_end prev c sv" "gives I E (ex_rec prev c) (\<lambda>x. x = r)"
    "gives I E (ex_next prev c) (\<lambda>c'. yields I E prev c' rs)" by (auto elim: yields_Cons)
  have ex: "ex_end ex = ex_end prev" "ex_next ex = ex_next prev"
    "ex_rec ex = (\<lambda>c. pThen (ex_rec prev c) (\<lambda>r. pdo (ret (project ps len r))))"
    using assms(1,2) by (auto simp: projection_exec_def)
  have "gives I E (ex_next ex c) (\<lambda>c'. yields I E ex c' (map (project ps len) rs))"
    unfolding ex by (rule gives_conseq [OF y(3) Cons.IH])
  then show ?case using y ex by (auto intro!: tuple gives_then_eq [OF y(2)] gives_ret)
qed

lemma projection_run:
  assumes "place_sel (ex_cols prev) 0 sel = Inr (ps, len)" "projection_exec prev sel = Inr ex" "delivers I E prev rs"
  shows "delivers I E ex (map (project ps len) rs)"
proof -
  have "ex_begin ex = ex_begin prev" using assms(1,2) by (auto simp: projection_exec_def)
  with assms(3) show ?thesis by (auto simp: delivers_def intro: gives_conseq projection_yields [OF assms(1,2)])
qed

lemma place_sel_found:
  "place_sel cols off sel = Inr (ps, len) \<Longrightarrow> map Inr (map fst ps) = map (get_col cols) sel"
  by (induction sel arbitrary: off ps len) (auto simp: eThen_eq_Inr)

lemma project_concat:
  assumes "place_sel cols off sel = Inr (ps, len)" "0 \<le> off" "off + sum_list (map (\<lambda>p. cm_len (fst p)) ps) < 2 ^ 31"
    "\<forall>p \<in> set ps. 0 \<le> cm_len (fst p) \<and> length (col_bytes r (fst p)) = nat (cm_len (fst p))"
  shows "len = off + sum_list (map (\<lambda>p. cm_len (fst p)) ps) \<and> (\<forall>b. length b = nat len \<longrightarrow>
    fold (\<lambda>(p, c). patch (cm_offset c) (take (nat (cm_len c)) (drop (nat (cm_offset p)) r))) ps b =
      take (nat off) b @ concat (map (\<lambda>p. col_bytes r (fst p)) ps))"
  using assms
proof (induction sel arbitrary: off ps len)
  case (Cons s ss)
  then obtain c qs where c: "get_col cols s = Inr c" "place_sel cols (add32 off (cm_len c)) ss = Inr (qs, len)"
    "ps = (c, c\<lparr>cm_offset := off\<rparr>) # qs" by (auto simp: eThen_eq_Inr)
  have pos: "0 \<le> sum_list (map (\<lambda>p. cm_len (fst p)) qs)" using Cons.prems(4) c(3) by (intro sum_list_nonneg) auto
  then have off: "add32 off (cm_len c) = off + cm_len c"
    using Cons.prems(2-4) c(3) by (intro add32_exact) (auto simp: in_signed_def)
  have ih: "len = off + cm_len c + sum_list (map (\<lambda>p. cm_len (fst p)) qs)"
    "\<And>b. length b = nat len \<Longrightarrow> fold (\<lambda>(p, c). patch (cm_offset c) (take (nat (cm_len c)) (drop (nat (cm_offset p)) r))) qs b =
      take (nat (off + cm_len c)) b @ concat (map (\<lambda>p. col_bytes r (fst p)) qs)"
    using Cons.IH [OF c(2)] Cons.prems(2-4) c(3) off by (auto simp: add.assoc)
  have l: "length (col_bytes r c) = nat (cm_len c)" "0 \<le> cm_len c" using Cons.prems(4) c(3) by auto
  show ?case
  proof (intro conjI allI impI)
    fix b :: bytes assume b: "length b = nat len"
    let ?b = "patch off (col_bytes r c) b"
    have "nat off + nat (cm_len c) \<le> length b" using b ih(1) pos Cons.prems(2) l(2) by simp
    then have "length ?b = nat len" "take (nat (off + cm_len c)) ?b = take (nat off) b @ col_bytes r c"
      using b l Cons.prems(2) by (simp_all add: patch_def nat_add_distrib)
    with ih(2) [of ?b] show "fold (\<lambda>(p, c). patch (cm_offset c) (take (nat (cm_len c)) (drop (nat (cm_offset p)) r))) ps b =
        take (nat off) b @ concat (map (\<lambda>p. col_bytes r (fst p)) ps)" by (simp add: c(3) col_bytes_def)
  qed (use ih(1) c(3) in simp)
qed simp

section \<open>A query on one table\<close>

definition collect :: "'c executor \<Rightarrow> 'c \<Rightarrow> (server, bytes list) pop" where
  "collect ex c = each_tuple ex (\<lambda>acc r. Inr (acc @ [r])) [] c"

lemma foldE_collect: "foldE (\<lambda>acc r. Inr (acc @ [r])) acc rs = Inr (acc @ rs)"
  by (induction rs arbitrary: acc) auto

lemma collect_run: "delivers I E ex rs \<Longrightarrow> gives I E (collect ex c) (\<lambda>out. out = rs)"
  unfolding collect_def by (rule each_tuple_run) (simp_all add: foldE_collect)

text \<open>
  A query on one table, end to end: the scan, the projection and the limit, run by the loop that
  prints a result, return, whatever the state of the buffer pool, the first \<open>n\<close> of the rows that meet the
  conditions, in the order of their positions, each with exactly the bytes of the selected columns side by
  side; or the call stops with an error of the pool or of the lock manager. It always ends.
\<close>

theorem select_query_correct:
  assumes "map_of F t = Some fh" "\<forall>p b. rm_table fh st p = Some b \<longrightarrow> eval_conds cols conds b = Inr (P b)"
    "projection_exec (seq_scan t conds cols) sel = Inr ex" "map (get_col cols) sel = map Inr cs" "n < 2 ^ 31"
    "sum_list (map cm_len cs) < 2 ^ 31"
    "\<forall>p b. \<forall>c \<in> set cs. rm_table fh st p = Some b \<longrightarrow> 0 \<le> cm_len c \<and> length (col_bytes b c) = nat (cm_len c)"
    "reading F st sv"
  shows "\<exists>r sv'. collect (limit_exec ex n) start sv = Some (r, sv') \<and>
    (case r of Inl e \<Rightarrow> stopped F st e
     | Inr out \<Rightarrow> out = take (nat n) (map (\<lambda>b. concat (map (col_bytes b) cs)) (filter P (table_rows (rm_table fh st)))) \<and> reading F st sv')"
proof -
  let ?I = "reading F st" and ?E = "stopped F st" and ?rows = "filter P (table_rows (rm_table fh st))"
  obtain ps len where p: "place_sel cols 0 sel = Inr (ps, len)"
    using assms(3) by (auto simp: projection_exec_def seq_scan_def eThen_eq_Inr)
  have "map Inr (map fst ps) = (map Inr cs :: (rmdb_error + col_meta) list)"
    using place_sel_found [OF p] assms(4) by simp
  then have cs: "cs = map fst ps" by (metis inj_map_eq_map inj_Inr)
  have p': "place_sel (ex_cols (seq_scan t conds cols)) 0 sel = Inr (ps, len)" using p by (simp add: seq_scan_def)
  have proj: "project ps len b = concat (map (col_bytes b) cs)" if "b \<in> set ?rows" for b
  proof -
    have "b \<in> ran (rm_table fh st)" using that set_table_rows [OF finite_table, of fh st] by auto
    then have "\<forall>p \<in> set ps. 0 \<le> cm_len (fst p) \<and> length (col_bytes b (fst p)) = nat (cm_len (fst p))"
      using assms(7) by (auto simp: cs ran_def)
    with project_concat [OF p, of b] assms(6) show ?thesis by (simp add: project_def cs comp_def)
  qed
  have "delivers ?I ?E (limit_exec ex n) (take (nat n) (map (project ps len) ?rows))"
    by (rule limit_run [OF projection_run [OF p' assms(3) seq_scan_run [OF assms(1,2)]] assms(5)])
  moreover have "map (project ps len) ?rows = map (\<lambda>b. concat (map (col_bytes b) cs)) ?rows"
    using proj by (intro map_cong) auto
  ultimately have "gives ?I ?E (collect (limit_exec ex n) start)
      (\<lambda>out. out = take (nat n) (map (\<lambda>b. concat (map (col_bytes b) cs)) ?rows))"
    using collect_run by metis
  then show ?thesis using assms(8) unfolding gives_def by blast
qed

definition scan_ex_cols :: "col_meta list" where
  "scan_ex_cols = [\<lparr>cm_tab = ''t'', cm_name = ''a'', cm_type = TYPE_BIGINT, cm_len = 8, cm_offset = 0, cm_index = False\<rparr>]"

lemma scan_ex_reading: "reading [(''t'', rm_ex_file)] rm_ex_pages (ddl_ex\<lparr>sv_store := rm_ex_pool, sv_fhs := [(''t'', rm_ex_file)]\<rparr>)"
  using rm_ex_rel by (simp add: reading_def)

theorem select_query_correct_witness:
  "\<exists>ex r sv'. projection_exec (seq_scan ''t'' [] scan_ex_cols) [plain_col ''t'' ''a''] = Inr ex \<and>
    collect (limit_exec ex 1) ((Rid 0 0, None), 0) (ddl_ex\<lparr>sv_store := rm_ex_pool, sv_fhs := [(''t'', rm_ex_file)]\<rparr>) = Some (r, sv') \<and>
    (r = Inr [replicate 8 7] \<or> (\<exists>e. r = Inl e \<and> stopped [(''t'', rm_ex_file)] rm_ex_pages e))"
proof -
  let ?F = "[(''t'', rm_ex_file)]" and ?c = "hd scan_ex_cols"
  have row: "rm_table rm_ex_file rm_ex_pages p = Some b \<longleftrightarrow> p = Rid 1 0 \<and> b = replicate 512 7" for p b
    using rm_ex_table [of p] by auto
  obtain ex where ex: "projection_exec (seq_scan ''t'' [] scan_ex_cols) [plain_col ''t'' ''a''] = Inr ex"
    by (simp add: projection_exec_def seq_scan_def scan_ex_cols_def get_col_def plain_col_def)
  have "dom (rm_table rm_ex_file rm_ex_pages) = {Rid 1 0}" using row by auto
  then have rows: "table_rows (rm_table rm_ex_file rm_ex_pages) = [replicate 512 7]" using rm_ex_table by (simp add: table_rows_def)
  have col: "col_bytes (replicate 512 7) ?c = replicate 8 7" by (simp add: col_bytes_def scan_ex_cols_def)
  have "\<exists>r sv'. collect (limit_exec ex 1) ((Rid 0 0, None), 0) (ddl_ex\<lparr>sv_store := rm_ex_pool, sv_fhs := ?F\<rparr>) = Some (r, sv') \<and>
    (case r of Inl e \<Rightarrow> stopped ?F rm_ex_pages e
     | Inr out \<Rightarrow> out = take (nat 1) (map (\<lambda>b. concat (map (col_bytes b) [?c])) (filter (\<lambda>_. True) (table_rows (rm_table rm_ex_file rm_ex_pages)))) \<and>
        reading ?F rm_ex_pages sv')"
  proof (rule select_query_correct [where cols = scan_ex_cols and conds = "[]" and t = "''t''" and sel = "[plain_col ''t'' ''a'']"])
    show "projection_exec (seq_scan ''t'' [] scan_ex_cols) [plain_col ''t'' ''a''] = Inr ex" by (rule ex)
    show "map (get_col scan_ex_cols) [plain_col ''t'' ''a''] = map Inr [?c]"
      by (simp add: get_col_def scan_ex_cols_def plain_col_def)
    show "\<forall>p b. \<forall>c \<in> set [?c]. rm_table rm_ex_file rm_ex_pages p = Some b \<longrightarrow> 0 \<le> cm_len c \<and> length (col_bytes b c) = nat (cm_len c)"
      using col row by (auto simp: scan_ex_cols_def)
  qed (simp_all add: scan_ex_reading scan_ex_cols_def)
  then obtain r sv' where run: "collect (limit_exec ex 1) ((Rid 0 0, None), 0) (ddl_ex\<lparr>sv_store := rm_ex_pool, sv_fhs := ?F\<rparr>) = Some (r, sv')"
    and out: "case r of Inl e \<Rightarrow> stopped ?F rm_ex_pages e
      | Inr out \<Rightarrow> out = take (nat 1) (map (\<lambda>b. concat (map (col_bytes b) [?c])) (filter (\<lambda>_. True) [replicate 512 7])) \<and>
          reading ?F rm_ex_pages sv'"
    unfolding rows by blast
  from out col have "r = Inr [replicate 8 7] \<or> (\<exists>e. r = Inl e \<and> stopped ?F rm_ex_pages e)" by (cases r) auto
  with ex run show ?thesis by blast
qed

end
