(* ===== verification/Sort_Join.thy ===== *)
theory Sort_Join
  imports Executors "HOL-Library.Multiset" "HOL-Library.Product_Lexorder"
begin

text \<open>
  The operators that keep records: the sort (\<^verbatim>\<open>execution_sort.h\<close>) holds all the records of its child,
  the join (\<^verbatim>\<open>executor_nestedloop_join.h\<close>) a block of its left child.
\<close>

section \<open>Stable sorting\<close>

text \<open>\<^verbatim>\<open>std::stable_sort\<close> for the order \<open>lt\<close>.\<close>

fun insert_by :: "('a \<Rightarrow> 'a \<Rightarrow> bool) \<Rightarrow> 'a \<Rightarrow> 'a list \<Rightarrow> 'a list" where
  "insert_by lt x [] = [x]"
| "insert_by lt x (y # ys) = (if lt y x then y # insert_by lt x ys else x # y # ys)"

definition stable_sort :: "('a \<Rightarrow> 'a \<Rightarrow> bool) \<Rightarrow> 'a list \<Rightarrow> 'a list" where
  "stable_sort lt xs = foldr (insert_by lt) xs []"

lemma set_insert_by [simp]: "set (insert_by lt x ys) = insert x (set ys)"
  by (induction ys) auto

lemma set_stable_sort [simp]: "set (stable_sort lt xs) = set xs"
  by (induction xs) (auto simp: stable_sort_def)

lemma mset_stable_sort: "mset (stable_sort lt xs) = mset xs"
proof -
  have "mset (insert_by lt x ys) = add_mset x (mset ys)" for x ys by (induction ys) auto
  then show ?thesis by (induction xs) (auto simp: stable_sort_def)
qed

text \<open>For a three-way comparison that meets its contract the result is ordered, and equal elements stay in order.\<close>

context weak_cmp
begin

lemma insert_by_sorted:
  assumes "ok x" "\<forall>y \<in> set ys. ok y" "sorted_wrt (\<lambda>a b. cmp a b \<le> 0) ys"
  shows "sorted_wrt (\<lambda>a b. cmp a b \<le> 0) (insert_by (\<lambda>a b. cmp a b < 0) x ys)"
  using assms
proof (induction ys)
  case (Cons y ys)
  show ?case
  proof (cases "cmp y x < 0")
    case True
    with Cons show ?thesis by auto
  next
    case False
    then have "cmp x y \<le> 0" using cmp_flip [of x y] Cons.prems by auto
    moreover have "cmp x z \<le> 0" if "z \<in> set ys" for z
      using cmp_trans [of x y z] that Cons.prems \<open>cmp x y \<le> 0\<close> by auto
    ultimately show ?thesis using False Cons.prems by auto
  qed
qed simp

lemma stable_sort_sorted: "\<forall>x \<in> set xs. ok x \<Longrightarrow> sorted_wrt (\<lambda>a b. cmp a b \<le> 0) (stable_sort (\<lambda>a b. cmp a b < 0) xs)"
proof (induction xs)
  case (Cons x xs)
  with insert_by_sorted [of x "stable_sort (\<lambda>a b. cmp a b < 0) xs"] show ?case by (simp add: stable_sort_def [of _ "x # xs"] stable_sort_def [of _ xs, symmetric])
qed (simp add: stable_sort_def)

lemma insert_by_stable:
  assumes "ok x" "\<forall>y \<in> set ys. ok y" "ok z"
  shows "filter (\<lambda>y. cmp z y = 0) (insert_by (\<lambda>a b. cmp a b < 0) x ys) = filter (\<lambda>y. cmp z y = 0) (x # ys)"
  using assms
proof (induction ys)
  case (Cons y ys)
  have "\<not> (cmp z y = 0 \<and> cmp z x = 0 \<and> cmp y x < 0)"
    using cmp_eq_subst_left [of z y x] Cons.prems by auto
  with Cons show ?case by auto
qed simp

lemma stable_sort_stable:
  "\<forall>x \<in> set xs. ok x \<Longrightarrow> ok z \<Longrightarrow>
    filter (\<lambda>y. cmp z y = 0) (stable_sort (\<lambda>a b. cmp a b < 0) xs) = filter (\<lambda>y. cmp z y = 0) xs"
proof (induction xs)
  case (Cons x xs)
  have "stable_sort (\<lambda>a b. cmp a b < 0) (x # xs) = insert_by (\<lambda>a b. cmp a b < 0) x (stable_sort (\<lambda>a b. cmp a b < 0) xs)"
    by (simp add: stable_sort_def)
  with insert_by_stable [of x "stable_sort (\<lambda>a b. cmp a b < 0) xs" z] Cons show ?case by simp
qed (simp add: stable_sort_def)

end

section \<open>Comparing records by columns\<close>

text \<open>The sort keys with their directions, as \<^verbatim>\<open>order_cols_\<close> and \<^verbatim>\<open>is_desc_\<close> side by side.\<close>

fun compare_tuple :: "(col_meta \<times> bool) list \<Rightarrow> bytes \<Rightarrow> bytes \<Rightarrow> int" where
  "compare_tuple [] a b = 0"
| "compare_tuple ((col, desc) # cs) a b =
     (let c = compare_value (drop (nat (cm_offset col)) a) (drop (nat (cm_offset col)) b) (cm_type col) (cm_len col)
      in if c \<noteq> 0 then if desc then - c else c else compare_tuple cs a b)"

text \<open>A value that may be compared where it stands in a record: no NaN, and a string that is all there.\<close>

definition value_there :: "coltype \<Rightarrow> int \<Rightarrow> bytes \<Rightarrow> bool" where
  "value_there t len bs \<longleftrightarrow> (t = TYPE_STRING \<longrightarrow> nat len \<le> length bs) \<and>
     (t = TYPE_FLOAT \<longrightarrow> \<not> float_nan (word_of_int (le_decode (take 4 bs))))"

interpretation at: weak_cmp "\<lambda>x y. compare_value x y t len" "value_there t len" for t len
proof
  fix x y z assume ok: "value_there t len x" "value_there t len y"
  show "compare_value x y t len < 0 \<longleftrightarrow> 0 < compare_value y x t len"
    using ok memcmp_anti [of "take (nat len) x" "take (nat len) y"]
    by (cases t) (auto simp: Let_def value_there_def float_less_def)
  assume "value_there t len z" "compare_value x y t len \<le> 0" "compare_value y z t len \<le> 0"
  with ok memcmp_trans [of "take (nat len) x" "take (nat len) y" "take (nat len) z"]
  show "compare_value x z t len \<le> 0"
    by (cases t) (auto simp: Let_def value_there_def float_less_def)
qed

definition tuple_ok :: "(col_meta \<times> bool) list \<Rightarrow> bytes \<Rightarrow> bool" where
  "tuple_ok cs r \<longleftrightarrow> (\<forall>(col, _) \<in> set cs. value_there (cm_type col) (cm_len col) (drop (nat (cm_offset col)) r))"

lemma compare_tuple_anti:
  "tuple_ok cs a \<Longrightarrow> tuple_ok cs b \<Longrightarrow> compare_tuple cs a b < 0 \<longleftrightarrow> 0 < compare_tuple cs b a"
proof (induction cs)
  case (Cons x cs)
  obtain col desc where x: "x = (col, desc)" by fastforce
  let ?c = "\<lambda>a b. compare_value (drop (nat (cm_offset col)) a) (drop (nat (cm_offset col)) b) (cm_type col) (cm_len col)"
  have ok: "value_there (cm_type col) (cm_len col) (drop (nat (cm_offset col)) a)"
    "value_there (cm_type col) (cm_len col) (drop (nat (cm_offset col)) b)" "tuple_ok cs a" "tuple_ok cs b"
    using Cons.prems by (auto simp: tuple_ok_def x)
  note c = at.cmp_anti [OF ok(1,2)] at.cmp_anti [OF ok(2,1)] at.cmp_zero_sym [OF ok(1,2)]
  have "?c a b < 0 \<or> ?c a b = 0 \<or> 0 < ?c a b" by linarith
  with c Cons.IH [OF ok(3,4)] show ?case unfolding x by (auto simp: Let_def)
qed simp

lemma compare_tuple_trans:
  "tuple_ok cs a \<Longrightarrow> tuple_ok cs b \<Longrightarrow> tuple_ok cs c \<Longrightarrow>
    compare_tuple cs a b \<le> 0 \<Longrightarrow> compare_tuple cs b c \<le> 0 \<Longrightarrow> compare_tuple cs a c \<le> 0"
proof (induction cs)
  case (Cons x cs)
  obtain col desc where x: "x = (col, desc)" by fastforce
  let ?v = "\<lambda>r. drop (nat (cm_offset col)) r" and ?t = "cm_type col" and ?l = "cm_len col"
  have ok: "value_there ?t ?l (?v a)" "value_there ?t ?l (?v b)" "value_there ?t ?l (?v c)"
    "tuple_ok cs a" "tuple_ok cs b" "tuple_ok cs c"
    using Cons.prems by (auto simp: tuple_ok_def x)
  let ?lt = "\<lambda>r s. if desc then compare_value (?v s) (?v r) ?t ?l < 0 else compare_value (?v r) (?v s) ?t ?l < 0"
  let ?eq = "\<lambda>r s. compare_value (?v r) (?v s) ?t ?l = 0"
  have split: "compare_tuple (x # cs) r s \<le> 0 \<longleftrightarrow> ?lt r s \<or> ?eq r s \<and> compare_tuple cs r s \<le> 0"
    if "value_there ?t ?l (?v r)" "value_there ?t ?l (?v s)" for r s
    using at.cmp_anti [OF that] at.cmp_anti [OF that(2,1)] by (auto simp: x Let_def)
  have ab: "?lt a b \<or> ?eq a b \<and> compare_tuple cs a b \<le> 0" and bc: "?lt b c \<or> ?eq b c \<and> compare_tuple cs b c \<le> 0"
    using Cons.prems(4,5) split ok by blast+
  have eqs: "?eq b a \<longleftrightarrow> ?eq a b" "?eq c b \<longleftrightarrow> ?eq b c" using at.cmp_zero_sym ok by blast+
  have "?lt a c \<or> ?eq a c \<and> compare_tuple cs a c \<le> 0"
  proof (cases "?eq a b \<and> ?eq b c")
    case True
    have "compare_value (?v a) (?v c) ?t ?l \<le> 0" "compare_value (?v c) (?v a) ?t ?l \<le> 0"
      using at.cmp_trans [OF ok(1-3)] at.cmp_trans [OF ok(3,2,1)] True eqs by simp_all
    then have "?eq a c" using at.cmp_flip [OF ok(1,3)] at.cmp_zero_sym [OF ok(1,3)] by auto
    moreover have "\<not> ?lt a b" "\<not> ?lt b c" using True eqs by auto
    ultimately show ?thesis using ab bc Cons.IH [OF ok(4-6)] by blast
  next
    case False
    then have "?lt a b \<and> (?lt b c \<or> ?eq b c) \<or> ?eq a b \<and> ?lt b c" using ab bc by blast
    moreover have "compare_value (?v a) (?v c) ?t ?l < 0" if "compare_value (?v a) (?v b) ?t ?l < 0" "compare_value (?v b) (?v c) ?t ?l \<le> 0"
      by (rule at.cmp_less_le_trans [OF ok(1-3) that])
    moreover have "compare_value (?v a) (?v c) ?t ?l < 0" if "compare_value (?v a) (?v b) ?t ?l \<le> 0" "compare_value (?v b) (?v c) ?t ?l < 0"
      by (rule at.cmp_le_less_trans [OF ok(1-3) that])
    moreover have "compare_value (?v c) (?v a) ?t ?l < 0" if "compare_value (?v c) (?v b) ?t ?l < 0" "compare_value (?v b) (?v a) ?t ?l \<le> 0"
      by (rule at.cmp_less_le_trans [OF ok(3,2,1) that])
    moreover have "compare_value (?v c) (?v a) ?t ?l < 0" if "compare_value (?v c) (?v b) ?t ?l \<le> 0" "compare_value (?v b) (?v a) ?t ?l < 0"
      by (rule at.cmp_le_less_trans [OF ok(3,2,1) that])
    ultimately have "?lt a c" using eqs by (cases desc) (simp_all, linarith+)
    then show ?thesis by blast
  qed
  with split [OF ok(1,3)] show ?case by blast
qed simp

interpretation tup: weak_cmp "compare_tuple cs" "tuple_ok cs" for cs
  by unfold_locales (auto simp: compare_tuple_anti intro: compare_tuple_trans)

section \<open>Sort\<close>

text \<open>
  The members: the child's, the records \<^verbatim>\<open>tuples_\<close>, the position. What the child's members are after the
  loop does not matter: the next call of the child is its \<^verbatim>\<open>beginTuple\<close>. The direction flags are as many
  as the columns.
\<close>

fun get_cols :: "col_meta list \<Rightarrow> tabcol list \<Rightarrow> rmdb_error + col_meta list" where
  "get_cols cols [] = Inr []"
| "get_cols cols (s # ss) = eThen (get_col cols s) (\<lambda>c. eThen (get_cols cols ss) (\<lambda>cs. Inr (c # cs)))"

definition sort_with :: "'c executor \<Rightarrow> (col_meta \<times> bool) list \<Rightarrow> ('c \<times> bytes list \<times> nat) executor" where
  "sort_with prev order = \<lparr>ex_cols = ex_cols prev, ex_len = ex_len prev,
     ex_begin = (\<lambda>(c, _, _). pThen (each_tuple prev (\<lambda>acc r. Inr (acc @ [r])) [] c) (\<lambda>ts.
       pdo (ret (c, stable_sort (\<lambda>a b. compare_tuple order a b < 0) ts, 0)))),
     ex_next = (\<lambda>(c, ts, pos). pdo (ret (c, ts, pos + 1))),
     ex_end = (\<lambda>(_, ts, pos) _. pos \<ge> length ts),
     ex_rec = (\<lambda>(_, ts, pos). if pos < length ts then pdo (ret (ts ! pos)) else pdo (throw AssertionFailure))\<rparr>"

definition sort_exec :: "'c executor \<Rightarrow> tabcol list \<Rightarrow> bool list \<Rightarrow> rmdb_error + ('c \<times> bytes list \<times> nat) executor" where
  "sort_exec prev sel desc = eThen (get_cols (ex_cols prev) sel) (\<lambda>cs. Inr (sort_with prev (zip cs desc)))"

lemma kept_yields:
  assumes "\<And>c ts pos sv. ex_end ex (c, ts, pos) sv \<longleftrightarrow> length ts \<le> pos"
    "\<And>c ts pos. ex_next ex (c, ts, pos) = pdo (ret (c, ts, pos + 1))"
    "\<And>c ts pos. pos < length ts \<Longrightarrow> ex_rec ex (c, ts, pos) = pdo (ret (ts ! pos))"
  shows "yields I E ex (c, ts, pos) (drop pos ts)"
proof (induction "length ts - pos" arbitrary: pos)
  case 0
  then show ?case using assms(1) by (auto intro: ended)
next
  case (Suc n)
  then have pos: "pos < length ts" "n = length ts - (pos + 1)" by auto
  have "gives I E (ex_next ex (c, ts, pos)) (\<lambda>c'. yields I E ex c' (drop (pos + 1) ts))"
    unfolding assms(2) by (rule gives_ret) (rule Suc.hyps(1) [OF pos(2)])
  then have "yields I E ex (c, ts, pos) (ts ! pos # drop (pos + 1) ts)"
    using pos(1) assms(1,3) by (intro tuple) (auto intro: gives_ret)
  with pos(1) show ?case by (simp add: Cons_nth_drop_Suc)
qed

lemma sort_run:
  assumes "delivers I E prev rs"
  shows "delivers I E (sort_with prev order) (stable_sort (\<lambda>a b. compare_tuple order a b < 0) rs)"
  unfolding delivers_def
proof
  fix c0 :: "'a \<times> bytes list \<times> nat"
  obtain c ts pos where [simp]: "c0 = (c, ts, pos)" using prod_cases3 by blast
  have y: "yields I E (sort_with prev order) (c, ts, 0) ts" for ts
    using kept_yields [of "sort_with prev order" I E c ts 0] by (simp add: sort_with_def)
  have "ex_begin (sort_with prev order) c0 = pThen (each_tuple prev (\<lambda>acc r. Inr (acc @ [r])) [] c) (\<lambda>ts.
       pdo (ret (c, stable_sort (\<lambda>a b. compare_tuple order a b < 0) ts, 0)))" by (simp add: sort_with_def)
  then show "gives I E (ex_begin (sort_with prev order) c0)
      (\<lambda>c. yields I E (sort_with prev order) c (stable_sort (\<lambda>a b. compare_tuple order a b < 0) rs))"
    using y foldE_collect [of "[]"] by (auto intro!: gives_then_eq [OF each_tuple_run [OF assms]] gives_ret)
qed

text \<open>
  Claim C15. \<^verbatim>\<open>ORDER BY\<close>: whatever operator is below the sort, the records come out as an arrangement of
  the child's records, in which every record is at most the one after it in the order of the sort keys,
  each ascending or descending, and records with equal keys keep the child's order.
\<close>

theorem sort_correct:
  assumes "delivers I E prev rs" "sort_exec prev sel desc = Inr ex" "get_cols (ex_cols prev) sel = Inr cs"
    "\<forall>r \<in> set rs. tuple_ok (zip cs desc) r"
  shows "\<exists>out. delivers I E ex out \<and> mset out = mset rs \<and> sorted_wrt (\<lambda>a b. compare_tuple (zip cs desc) a b \<le> 0) out \<and>
    (\<forall>z \<in> set rs. filter (\<lambda>r. compare_tuple (zip cs desc) z r = 0) out = filter (\<lambda>r. compare_tuple (zip cs desc) z r = 0) rs)"
proof (intro exI conjI ballI)
  let ?out = "stable_sort (\<lambda>a b. compare_tuple (zip cs desc) a b < 0) rs"
  have "ex = sort_with prev (zip cs desc)" using assms(2,3) by (simp add: sort_exec_def)
  then show "delivers I E ex ?out" using sort_run [OF assms(1)] by simp
  show "mset ?out = mset rs" by (rule mset_stable_sort)
  show "sorted_wrt (\<lambda>a b. compare_tuple (zip cs desc) a b \<le> 0) ?out" by (rule tup.stable_sort_sorted [OF assms(4)])
  show "filter (\<lambda>r. compare_tuple (zip cs desc) z r = 0) ?out = filter (\<lambda>r. compare_tuple (zip cs desc) z r = 0) rs"
    if "z \<in> set rs" for z using tup.stable_sort_stable [OF assms(4)] assms(4) that by blast
qed

section \<open>Nested loop join\<close>

record ('a, 'b) join_state =
  jn_left :: 'a
  jn_right :: 'b
  left_buffer :: "bytes list"
  left_pos :: int
  right_rec :: "bytes option"
  jn_end :: bool

definition JOIN_BUFFER :: int where "JOIN_BUFFER = 50 * 1024 * 1024"

text \<open>\<open>load_next_left_block\<close>: \<open>cur\<close> is \<^verbatim>\<open>current_size\<close>.\<close>

partial_function (option) load_block ::
    "'a executor \<Rightarrow> bytes list \<Rightarrow> int \<Rightarrow> 'a \<Rightarrow> server \<Rightarrow> ((rmdb_error + bytes list \<times> 'a) \<times> server) option" where
  "load_block L buf cur c sv =
     (if ex_end L c sv then pdo (ret (buf, c)) sv
      else pThen (ex_rec L c) (\<lambda>r. pThen (ex_next L c) (\<lambda>c s.
        if (cur + ex_len L) mod 2 ^ 64 \<ge> JOIN_BUFFER then pdo (ret (buf @ [r], c)) s
        else load_block L (buf @ [r]) ((cur + ex_len L) mod 2 ^ 64) c s)) sv)"

definition join_record :: "int \<Rightarrow> int \<Rightarrow> bytes \<Rightarrow> bytes \<Rightarrow> bytes" where
  "join_record llen rlen l r = take (nat llen) l @ take (nat rlen) r"

text \<open>The inner loop of \<open>find_match\<close>: the last position below \<open>k\<close> that matches.\<close>

fun match_down :: "(nat \<Rightarrow> rmdb_error + bool) \<Rightarrow> nat \<Rightarrow> rmdb_error + nat option" where
  "match_down f 0 = Inr None"
| "match_down f (Suc k) = eThen (f k) (\<lambda>ok. if ok then Inr (Some k) else match_down f k)"

definition join_cols :: "'a executor \<Rightarrow> 'b executor \<Rightarrow> col_meta list" where
  "join_cols L R = ex_cols L @ map (\<lambda>c. c\<lparr>cm_offset := add32 (cm_offset c) (ex_len L)\<rparr>) (ex_cols R)"

definition find_here :: "'a executor \<Rightarrow> 'b executor \<Rightarrow> condition list \<Rightarrow> ('a, 'b) join_state \<Rightarrow> rmdb_error + nat option" where
  "find_here L R conds j = (case right_rec j of None \<Rightarrow> Inr None
     | Some rr \<Rightarrow> match_down (\<lambda>k. eval_conds (join_cols L R) conds (join_record (ex_len L) (ex_len R) (left_buffer j ! k) rr))
         (nat (left_pos j + 1)))"

partial_function (option) find_match ::
    "'a executor \<Rightarrow> 'b executor \<Rightarrow> condition list \<Rightarrow> ('a, 'b) join_state \<Rightarrow> server \<Rightarrow>
     ((rmdb_error + ('a, 'b) join_state) \<times> server) option" where
  "find_match L R conds j sv =
     pThen (plift (find_here L R conds j)) (\<lambda>found s. case found of
       Some k \<Rightarrow> pdo (ret (j\<lparr>left_pos := int k\<rparr>)) s
     | None \<Rightarrow>
         pThen (\<lambda>s. if ex_end R (jn_right j) s then pdo (ret (jn_right j)) s else ex_next R (jn_right j) s) (\<lambda>r s.
           if ex_end R r s then
             pThen (load_block L [] 0 (jn_left j)) (\<lambda>(buf, l) s.
               if buf = [] then pdo (ret (j\<lparr>jn_right := r, jn_left := l, left_buffer := [], left_pos := -1, jn_end := True\<rparr>)) s
               else pThen (ex_begin R r) (\<lambda>r s.
                 if ex_end R r s
                 then pdo (ret (j\<lparr>jn_right := r, jn_left := l, left_buffer := buf, left_pos := -1, jn_end := True\<rparr>)) s
                 else pThen (ex_rec R r) (\<lambda>rr. find_match L R conds (j\<lparr>jn_right := r, jn_left := l, left_buffer := buf,
                   left_pos := int (length buf) - 1, right_rec := Some rr\<rparr>)) s) s) s
           else pThen (ex_rec R r) (\<lambda>rr. find_match L R conds (j\<lparr>jn_right := r,
             left_pos := int (length (left_buffer j)) - 1, right_rec := Some rr\<rparr>)) s) s) sv"

definition join_begin :: "'a executor \<Rightarrow> 'b executor \<Rightarrow> condition list \<Rightarrow> ('a, 'b) join_state \<Rightarrow> (server, ('a, 'b) join_state) pop" where
  "join_begin L R conds j =
     pThen (ex_begin L (jn_left j)) (\<lambda>l. pThen (load_block L [] 0 l) (\<lambda>(buf, l) s.
       if buf = [] then pdo (ret (j\<lparr>jn_left := l, left_buffer := [], jn_end := True\<rparr>)) s
       else pThen (ex_begin R (jn_right j)) (\<lambda>r s.
         if ex_end R r s then pdo (ret (j\<lparr>jn_left := l, jn_right := r, left_buffer := buf, jn_end := True\<rparr>)) s
         else pThen (ex_rec R r) (\<lambda>rr. find_match L R conds (j\<lparr>jn_left := l, jn_right := r, left_buffer := buf,
           left_pos := int (length buf) - 1, right_rec := Some rr, jn_end := False\<rparr>)) s) s))"

definition join_exec :: "'a executor \<Rightarrow> 'b executor \<Rightarrow> condition list \<Rightarrow> ('a, 'b) join_state executor" where
  "join_exec L R conds = \<lparr>ex_cols = join_cols L R, ex_len = ex_len L + ex_len R,
     ex_begin = join_begin L R conds,
     ex_next = (\<lambda>j. find_match L R conds (j\<lparr>left_pos := left_pos j - 1\<rparr>)),
     ex_end = (\<lambda>j _. jn_end j),
     ex_rec = (\<lambda>j. case right_rec j of
         Some r \<Rightarrow> if 0 \<le> left_pos j \<and> nat (left_pos j) < length (left_buffer j)
           then pdo (ret (join_record (ex_len L) (ex_len R) (left_buffer j ! nat (left_pos j)) r)) else pdo (throw AssertionFailure)
       | None \<Rightarrow> pdo (throw AssertionFailure))\<rparr>"

text \<open>What one block gives, and the blocks as they are cut off the left records.\<close>

fun next_block :: "int \<Rightarrow> int \<Rightarrow> bytes list \<Rightarrow> bytes list \<times> bytes list" where
  "next_block len cur [] = ([], [])"
| "next_block len cur (r # rs) =
     (if (cur + len) mod 2 ^ 64 \<ge> JOIN_BUFFER then ([r], rs)
      else case next_block len ((cur + len) mod 2 ^ 64) rs of (b, rest) \<Rightarrow> (r # b, rest))"

lemma next_block_split: "next_block len cur rs = (b, rest) \<Longrightarrow> b @ rest = rs \<and> (rs \<noteq> [] \<longrightarrow> b \<noteq> [])"
  by (induction len cur rs arbitrary: b rest rule: next_block.induct) (auto split: if_splits prod.splits)

lemma load_block_unfold:
  "load_block L buf cur c = (\<lambda>sv. if ex_end L c sv then pdo (ret (buf, c)) sv
      else pThen (ex_rec L c) (\<lambda>r. pThen (ex_next L c) (\<lambda>c s.
        if (cur + ex_len L) mod 2 ^ 64 \<ge> JOIN_BUFFER then pdo (ret (buf @ [r], c)) s
        else load_block L (buf @ [r]) ((cur + ex_len L) mod 2 ^ 64) c s)) sv)"
  by (rule ext) (rule load_block.simps)

lemma load_block_run:
  assumes "yields I E L c rs"
  shows "gives I E (load_block L buf cur c)
    (\<lambda>(b, c'). b = buf @ fst (next_block (ex_len L) cur rs) \<and> yields I E L c' (snd (next_block (ex_len L) cur rs)))"
  using assms
proof (induction rs arbitrary: buf cur c rule: list.induct)
  case Nil
  then show ?case unfolding load_block_unfold [of L buf]
    by (intro gives_if [where v = True] gives_ret) (auto elim: yields_Nil)
next
  case (Cons r rs)
  from Cons.prems have y: "\<And>sv. I sv \<Longrightarrow> \<not> ex_end L c sv" "gives I E (ex_rec L c) (\<lambda>x. x = r)"
    "gives I E (ex_next L c) (\<lambda>c'. yields I E L c' rs)" by (auto elim: yields_Cons)
  let ?cur = "(cur + ex_len L) mod 2 ^ 64"
  show ?case unfolding load_block_unfold [of L buf]
  proof (rule gives_if [where v = False])
    show "gives I E (pThen (ex_rec L c) (\<lambda>r. pThen (ex_next L c) (\<lambda>c s.
        if ?cur \<ge> JOIN_BUFFER then pdo (ret (buf @ [r], c)) s else load_block L (buf @ [r]) ?cur c s)))
      (\<lambda>(b, c'). b = buf @ fst (next_block (ex_len L) cur (r # rs)) \<and> yields I E L c' (snd (next_block (ex_len L) cur (r # rs))))"
    proof (rule gives_then_eq [OF y(2)], rule gives_then [OF y(3)])
      fix c' assume c': "yields I E L c' rs"
      show "gives I E (\<lambda>s. if ?cur \<ge> JOIN_BUFFER then pdo (ret (buf @ [r], c')) s else load_block L (buf @ [r]) ?cur c' s)
        (\<lambda>(b, c'). b = buf @ fst (next_block (ex_len L) cur (r # rs)) \<and> yields I E L c' (snd (next_block (ex_len L) cur (r # rs))))"
        by (rule gives_if [OF refl])
          (use c' in \<open>auto intro!: gives_ret gives_conseq [OF Cons.IH [OF c']] split: prod.splits\<close>)
    qed
  qed (use y(1) in auto)
qed

definition pairs_of :: "(bytes \<Rightarrow> bytes \<Rightarrow> bool) \<Rightarrow> (bytes \<Rightarrow> bytes \<Rightarrow> bytes) \<Rightarrow> bytes list \<Rightarrow> bytes \<Rightarrow> bytes list" where
  "pairs_of m j ls r = map (\<lambda>l. j l r) (filter (\<lambda>l. m l r) (rev ls))"

definition block_out :: "(bytes \<Rightarrow> bytes \<Rightarrow> bool) \<Rightarrow> (bytes \<Rightarrow> bytes \<Rightarrow> bytes) \<Rightarrow> bytes list \<Rightarrow> bytes list \<Rightarrow> bytes list" where
  "block_out m j ls rs = concat (map (pairs_of m j ls) rs)"

function join_out :: "(bytes \<Rightarrow> bytes \<Rightarrow> bool) \<Rightarrow> (bytes \<Rightarrow> bytes \<Rightarrow> bytes) \<Rightarrow> int \<Rightarrow> bytes list \<Rightarrow> bytes list \<Rightarrow> bytes list" where
  "join_out m j len ls rs = (if ls = [] then []
     else block_out m j (fst (next_block len 0 ls)) rs @ join_out m j len (snd (next_block len 0 ls)) rs)"
  by pat_completeness auto
termination
proof (relation "measure (\<lambda>(m, j, len, ls, rs). length ls)")
  fix m :: "bytes \<Rightarrow> bytes \<Rightarrow> bool" and j :: "bytes \<Rightarrow> bytes \<Rightarrow> bytes" and len and ls rs :: "bytes list"
  assume "ls \<noteq> []"
  obtain b rest where b: "next_block len 0 ls = (b, rest)" by fastforce
  with next_block_split [OF b] \<open>ls \<noteq> []\<close> have "length rest < length ls" by auto
  with b show "((m, j, len, snd (next_block len 0 ls), rs), m, j, len, ls, rs) \<in> measure (\<lambda>(m, j, len, ls, rs). length ls)" by simp
qed simp

declare join_out.simps [simp del]

text \<open>Together: every pair of a left and a right record that matches, joined, once.\<close>

lemma mset_join_out:
  "mset (join_out m j len ls rs) = mset (concat (map (\<lambda>r. map (\<lambda>l. j l r) (filter (\<lambda>l. m l r) ls)) rs))"
proof (induction m j len ls rs rule: join_out.induct)
  case (1 m j len ls rs)
  show ?case
  proof (cases "ls = []")
    case True
    then show ?thesis by (simp add: join_out.simps)
  next
    case False
    obtain b rest where b: "next_block len 0 ls = (b, rest)" by fastforce
    then have ls: "ls = b @ rest" using next_block_split by blast
    have one: "mset (pairs_of m j b r) = mset (map (\<lambda>l. j l r) (filter (\<lambda>l. m l r) b))" for r
      by (simp add: pairs_of_def rev_filter [symmetric] del: mset_map) (simp add: rev_map)
    have "mset (concat (map f rs)) + mset (concat (map g rs)) = mset (concat (map h rs))"
      if "\<And>r. mset (f r) + mset (g r) = mset (h r)" for f g h :: "bytes \<Rightarrow> bytes list"
    proof (induction rs)
      case (Cons r rs)
      with that [of r] show ?case by (simp add: ac_simps)
    qed simp
    then have "mset (concat (map (pairs_of m j b) rs)) + mset (concat (map (\<lambda>r. map (\<lambda>l. j l r) (filter (\<lambda>l. m l r) rest)) rs)) =
        mset (concat (map (\<lambda>r. map (\<lambda>l. j l r) (filter (\<lambda>l. m l r) ls)) rs))" by (simp add: one ls)
    with 1 False b show ?thesis by (simp add: join_out.simps [of m j len ls] block_out_def)
  qed
qed

lemma match_down_run:
  assumes "n \<le> length buf" "\<forall>l \<in> set buf. f l = Inr (m l rr)"
  shows "match_down (\<lambda>k. f (buf ! k)) n = Inr None \<and> pairs_of m j (take n buf) rr = [] \<or>
    (\<exists>k. match_down (\<lambda>k. f (buf ! k)) n = Inr (Some k) \<and> k < n \<and>
      pairs_of m j (take n buf) rr = j (buf ! k) rr # pairs_of m j (take k buf) rr)"
  using assms(1)
proof (induction n)
  case (Suc n)
  then have n: "n < length buf" by simp
  then have "f (buf ! n) = Inr (m (buf ! n) rr)" using assms(2) by simp
  moreover have "take (Suc n) buf = take n buf @ [buf ! n]" using n by (simp add: take_Suc_conv_app_nth)
  ultimately show ?case using Suc by (auto simp: pairs_of_def less_Suc_eq)
qed (simp add: pairs_of_def)

lemma find_match_unfold:
  "find_match L R conds j = pThen (plift (find_here L R conds j)) (\<lambda>found s. case found of
       Some k \<Rightarrow> pdo (ret (j\<lparr>left_pos := int k\<rparr>)) s
     | None \<Rightarrow>
         pThen (\<lambda>s. if ex_end R (jn_right j) s then pdo (ret (jn_right j)) s else ex_next R (jn_right j) s) (\<lambda>r s.
           if ex_end R r s then
             pThen (load_block L [] 0 (jn_left j)) (\<lambda>(buf, l) s.
               if buf = [] then pdo (ret (j\<lparr>jn_right := r, jn_left := l, left_buffer := [], left_pos := -1, jn_end := True\<rparr>)) s
               else pThen (ex_begin R r) (\<lambda>r s.
                 if ex_end R r s
                 then pdo (ret (j\<lparr>jn_right := r, jn_left := l, left_buffer := buf, left_pos := -1, jn_end := True\<rparr>)) s
                 else pThen (ex_rec R r) (\<lambda>rr. find_match L R conds (j\<lparr>jn_right := r, jn_left := l, left_buffer := buf,
                   left_pos := int (length buf) - 1, right_rec := Some rr\<rparr>)) s) s) s
           else pThen (ex_rec R r) (\<lambda>rr. find_match L R conds (j\<lparr>jn_right := r,
             left_pos := int (length (left_buffer j)) - 1, right_rec := Some rr\<rparr>)) s) s)"
  by (rule ext) (rule find_match.simps)

lemma pairs_all: "pairs_of m j (take (nat (int (length b) - 1 + 1)) b) r = pairs_of m j b r"
  by simp

lemma gives_eta: "gives I E (\<lambda>s. m s) Q \<longleftrightarrow> gives I E m Q"
  by simp

text \<open>
  \<open>find_match\<close> with the right child at \<open>rr # rrest\<close> and the left child before \<open>lrest\<close>.
\<close>

lemma find_match_run:
  fixes L :: "'a executor" and R :: "'b executor"
  defines "jr \<equiv> join_record (ex_len L) (ex_len R)"
  assumes right: "delivers I E R rs" "rs \<noteq> []"
    and conds: "\<And>l r. l \<in> A \<Longrightarrow> r \<in> set rs \<Longrightarrow> eval_conds (join_cols L R) conds (jr l r) = Inr (m l r)"
    and j: "yields I E L (jn_left j) lrest" "yields I E R (jn_right j) (rr # rrest)" "right_rec j = Some rr"
      "-1 \<le> left_pos j" "left_pos j < int (length (left_buffer j))" "\<not> jn_end j"
      "set (left_buffer j) \<union> set lrest \<subseteq> A" "set (rr # rrest) \<subseteq> set rs"
  shows "gives I E (find_match L R conds j) (\<lambda>j'. yields I E (join_exec L R conds) j'
    (pairs_of m jr (take (nat (left_pos j + 1)) (left_buffer j)) rr @ block_out m jr (left_buffer j) rrest @
      join_out m jr (ex_len L) lrest rs))"
  using j
proof (induction "(length lrest, length rrest, nat (left_pos j + 1))" arbitrary: j lrest rr rrest rule: less_induct)
  case less
  let ?J = "join_exec L R conds" and ?buf = "left_buffer j" and ?n = "nat (left_pos j + 1)"
  let ?rest = "block_out m jr ?buf rrest @ join_out m jr (ex_len L) lrest rs"
  note ih = less.hyps and p = less.prems
  have r: "\<And>sv. I sv \<Longrightarrow> \<not> ex_end R (jn_right j) sv" "gives I E (ex_next R (jn_right j)) (\<lambda>c'. yields I E R c' rrest)"
    using p(2) by (auto elim: yields_Cons)
  have n: "?n \<le> length ?buf" using p(4,5) by linarith
  have ev: "\<forall>l \<in> set ?buf. eval_conds (join_cols L R) conds (jr l rr) = Inr (m l rr)" using conds p(7,8) by auto
  have here: "find_here L R conds j = match_down (\<lambda>k. eval_conds (join_cols L R) conds (jr (?buf ! k) rr)) ?n"
    by (simp add: find_here_def p(3) jr_def)
  from match_down_run [where f = "\<lambda>l. eval_conds (join_cols L R) conds (jr l rr)" and m = m and j = jr, OF n ev, folded here] show ?case
  proof (elim disjE conjE exE)
    fix k assume k: "find_here L R conds j = Inr (Some k)" "k < ?n"
      "pairs_of m jr (take ?n ?buf) rr = jr (?buf ! k) rr # pairs_of m jr (take k ?buf) rr"
    let ?j = "j\<lparr>left_pos := int k\<rparr>"
    have nxt: "gives I E (ex_next ?J ?j) (\<lambda>j'. yields I E ?J j' (pairs_of m jr (take k ?buf) rr @ ?rest))"
      using ih [of lrest rrest "j\<lparr>left_pos := int k - 1\<rparr>" rr] p k(2) n by (simp add: join_exec_def)
    have "gives I E (ex_rec ?J ?j) (\<lambda>x. x = jr (?buf ! k) rr)"
      using p(3) k(2) n by (auto simp: join_exec_def jr_def intro: gives_ret)
    from tuple [OF _ this nxt] p(6) have "yields I E ?J ?j (jr (?buf ! k) rr # pairs_of m jr (take k ?buf) rr @ ?rest)"
      by (simp add: join_exec_def)
    then show ?thesis unfolding find_match_unfold [of L R conds j] k(1,3) by (simp add: gives_ret)
  next
    assume k: "find_here L R conds j = Inr None" "pairs_of m jr (take ?n ?buf) rr = []"
    have adv: "gives I E (\<lambda>s. if ex_end R (jn_right j) s then pdo (ret (jn_right j)) s else ex_next R (jn_right j) s)
        (\<lambda>c'. yields I E R c' rrest)"
      by (rule gives_if [where v = False]) (use r in auto)
    show ?thesis unfolding find_match_unfold [of L R conds j] k pThen_plift option.case append_Nil
    proof (subst gives_eta, rule gives_then [OF adv])
      fix c assume c: "yields I E R c rrest"
      let ?load = "\<lambda>s. pThen (load_block L [] 0 (jn_left j)) (\<lambda>(buf, l) s.
               if buf = [] then pdo (ret (j\<lparr>jn_right := c, jn_left := l, left_buffer := [], left_pos := -1, jn_end := True\<rparr>)) s
               else pThen (ex_begin R c) (\<lambda>r s.
                 if ex_end R r s
                 then pdo (ret (j\<lparr>jn_right := r, jn_left := l, left_buffer := buf, left_pos := -1, jn_end := True\<rparr>)) s
                 else pThen (ex_rec R r) (\<lambda>rr. find_match L R conds (j\<lparr>jn_right := r, jn_left := l, left_buffer := buf,
                   left_pos := int (length buf) - 1, right_rec := Some rr\<rparr>)) s) s) s"
        and ?on = "\<lambda>s. pThen (ex_rec R c) (\<lambda>rr. find_match L R conds (j\<lparr>jn_right := c,
             left_pos := int (length (left_buffer j)) - 1, right_rec := Some rr\<rparr>)) s"
      show "gives I E (\<lambda>s. if ex_end R c s then ?load s else ?on s) (\<lambda>j'. yields I E ?J j' ?rest)"
      proof (cases rrest)
        case (Cons r2 rr2)
        have "gives I E (find_match L R conds (j\<lparr>jn_right := c, left_pos := int (length ?buf) - 1, right_rec := Some r2\<rparr>))
            (\<lambda>j'. yields I E ?J j' ?rest)"
          using ih [of lrest rr2 "j\<lparr>jn_right := c, left_pos := int (length ?buf) - 1, right_rec := Some r2\<rparr>" r2] p c
          by (simp add: Cons block_out_def)
        note go = this
        from c Cons have rec: "gives I E (ex_rec R c) (\<lambda>x. x = r2)" "\<And>sv. I sv \<Longrightarrow> \<not> ex_end R c sv"
          by (auto elim: yields_Cons)
        have "gives I E ?on (\<lambda>j'. yields I E ?J j' ?rest)" by (rule gives_then_eq [OF rec(1)]) (rule go)
        with rec(2) show ?thesis by (rule_tac gives_if [where v = False]) simp_all
      next
        case Nil
        have "gives I E ?load (\<lambda>j'. yields I E ?J j' ?rest)"
        proof (subst gives_eta, rule gives_then [OF load_block_run [OF p(1)]], clarify)
          fix l assume l: "yields I E L l (snd (next_block (ex_len L) 0 lrest))"
          obtain b lr where b: "next_block (ex_len L) 0 lrest = (b, lr)" by fastforce
          note split = next_block_split [OF b]
          show "gives I E (\<lambda>s. if [] @ fst (next_block (ex_len L) 0 lrest) = []
               then pdo (ret (j\<lparr>jn_right := c, jn_left := l, left_buffer := [], left_pos := -1, jn_end := True\<rparr>)) s
               else pThen (ex_begin R c) (\<lambda>r s.
                 if ex_end R r s
                 then pdo (ret (j\<lparr>jn_right := r, jn_left := l, left_buffer := [] @ fst (next_block (ex_len L) 0 lrest), left_pos := -1, jn_end := True\<rparr>)) s
                 else pThen (ex_rec R r) (\<lambda>rr. find_match L R conds (j\<lparr>jn_right := r, jn_left := l,
                   left_buffer := [] @ fst (next_block (ex_len L) 0 lrest),
                   left_pos := int (length ([] @ fst (next_block (ex_len L) 0 lrest))) - 1, right_rec := Some rr\<rparr>)) s) s)
            (\<lambda>j'. yields I E ?J j' ?rest)"
          proof (cases "lrest = []")
            case True
            then show ?thesis by (auto simp: Nil block_out_def join_out.simps join_exec_def intro!: gives_ret ended)
          next
            case False
            then have "b \<noteq> []" "length lr < length lrest" using split by auto
            obtain r2 rr2 where rs: "rs = r2 # rr2" using right(2) by (cases rs) auto
            have rest: "?rest = block_out m jr b rs @ join_out m jr (ex_len L) lr rs"
              using False b Nil by (simp add: block_out_def join_out.simps [of m jr _ lrest])
            have restart: "gives I E (ex_begin R c) (\<lambda>c'. yields I E R c' rs)" using right(1) by (simp add: delivers_def)
            have go: "gives I E (find_match L R conds (j\<lparr>jn_right := c2, jn_left := l, left_buffer := b,
                left_pos := int (length b) - 1, right_rec := Some r2\<rparr>)) (\<lambda>j'. yields I E ?J j' ?rest)"
              if c2: "yields I E R c2 rs" for c2
              using ih [of lr rr2 "j\<lparr>jn_right := c2, jn_left := l, left_buffer := b, left_pos := int (length b) - 1, right_rec := Some r2\<rparr>" r2]
                \<open>length lr < _\<close> l b c2 p(6,7) split rs unfolding rest by (auto simp: block_out_def)
            have "gives I E (\<lambda>s. if ex_end R c2 s
                 then pdo (ret (j\<lparr>jn_right := c2, jn_left := l, left_buffer := b, left_pos := -1, jn_end := True\<rparr>)) s
                 else pThen (ex_rec R c2) (\<lambda>rr. find_match L R conds (j\<lparr>jn_right := c2, jn_left := l,
                   left_buffer := b, left_pos := int (length b) - 1, right_rec := Some rr\<rparr>)) s) (\<lambda>j'. yields I E ?J j' ?rest)"
              if c2: "yields I E R c2 rs" for c2
            proof (rule gives_if [where v = False])
              from c2 rs have rec: "gives I E (ex_rec R c2) (\<lambda>x. x = r2)" "\<And>sv. I sv \<Longrightarrow> \<not> ex_end R c2 sv"
                by (auto elim: yields_Cons)
              from rec(2) show "\<And>sv. I sv \<Longrightarrow> ex_end R c2 sv = False" by simp
              show "gives I E (pThen (ex_rec R c2) (\<lambda>rr. find_match L R conds (j\<lparr>jn_right := c2, jn_left := l,
                   left_buffer := b, left_pos := int (length b) - 1, right_rec := Some rr\<rparr>))) (\<lambda>j'. yields I E ?J j' ?rest)"
                by (rule gives_then_eq [OF rec(1)]) (rule go [OF c2])
            qed simp
            then have "gives I E (pThen (ex_begin R c) (\<lambda>c2 s. if ex_end R c2 s
                 then pdo (ret (j\<lparr>jn_right := c2, jn_left := l, left_buffer := b, left_pos := -1, jn_end := True\<rparr>)) s
                 else pThen (ex_rec R c2) (\<lambda>rr. find_match L R conds (j\<lparr>jn_right := c2, jn_left := l,
                   left_buffer := b, left_pos := int (length b) - 1, right_rec := Some rr\<rparr>)) s)) (\<lambda>j'. yields I E ?J j' ?rest)"
              by (rule gives_then [OF restart])
            with \<open>b \<noteq> []\<close> show ?thesis unfolding b fst_conv append_Nil by simp
          qed
        qed
        moreover have "\<And>sv. I sv \<Longrightarrow> ex_end R c sv" using c Nil by (auto elim: yields_Nil)
        ultimately show ?thesis by (rule_tac gives_if [where v = True]) simp_all
      qed
    qed
  qed
qed

lemma join_run:
  fixes L :: "'a executor" and R :: "'b executor"
  defines "jr \<equiv> join_record (ex_len L) (ex_len R)"
  assumes "delivers I E L ls" "delivers I E R rs"
    "\<And>l r. l \<in> set ls \<Longrightarrow> r \<in> set rs \<Longrightarrow> eval_conds (join_cols L R) conds (jr l r) = Inr (m l r)"
  shows "delivers I E (join_exec L R conds) (if rs = [] then [] else join_out m jr (ex_len L) ls rs)"
  unfolding delivers_def
proof
  fix j :: "('a, 'b) join_state"
  let ?J = "join_exec L R conds" and ?out = "if rs = [] then [] else join_out m jr (ex_len L) ls rs"
  have L: "gives I E (ex_begin L (jn_left j)) (\<lambda>c'. yields I E L c' ls)"
    and R: "gives I E (ex_begin R (jn_right j)) (\<lambda>c'. yields I E R c' rs)" using assms(2,3) by (simp_all add: delivers_def)
  have stop: "gives I E (pdo (ret (j'\<lparr>jn_end := True\<rparr>))) (\<lambda>j'. yields I E ?J j' [])" for j' :: "('a, 'b) join_state"
    by (rule gives_ret) (simp add: join_exec_def ended)
  have loaded: "gives I E (\<lambda>s. if b = [] then pdo (ret (j\<lparr>jn_left := l, left_buffer := [], jn_end := True\<rparr>)) s
       else pThen (ex_begin R (jn_right j)) (\<lambda>r s.
         if ex_end R r s then pdo (ret (j\<lparr>jn_left := l, jn_right := r, left_buffer := b, jn_end := True\<rparr>)) s
         else pThen (ex_rec R r) (\<lambda>rr. find_match L R conds (j\<lparr>jn_left := l, jn_right := r, left_buffer := b,
           left_pos := int (length b) - 1, right_rec := Some rr, jn_end := False\<rparr>)) s) s) (\<lambda>c'. yields I E ?J c' ?out)"
    if l: "yields I E L l lr" and b: "next_block (ex_len L) 0 ls = (b, lr)" for l b lr
  proof (cases "ls = []")
    case True
    with b stop [of "j\<lparr>jn_left := l, left_buffer := []\<rparr>"] show ?thesis by (simp add: join_out.simps)
  next
    case False
    note split = next_block_split [OF b]
    have "b \<noteq> []" using False split by simp
    have "gives I E (pThen (ex_begin R (jn_right j)) (\<lambda>r s.
         if ex_end R r s then pdo (ret (j\<lparr>jn_left := l, jn_right := r, left_buffer := b, jn_end := True\<rparr>)) s
         else pThen (ex_rec R r) (\<lambda>rr. find_match L R conds (j\<lparr>jn_left := l, jn_right := r, left_buffer := b,
           left_pos := int (length b) - 1, right_rec := Some rr, jn_end := False\<rparr>)) s)) (\<lambda>c'. yields I E ?J c' ?out)"
    proof (rule gives_then [OF R])
      fix c assume c: "yields I E R c rs"
      show "gives I E (\<lambda>s. if ex_end R c s then pdo (ret (j\<lparr>jn_left := l, jn_right := c, left_buffer := b, jn_end := True\<rparr>)) s
         else pThen (ex_rec R c) (\<lambda>rr. find_match L R conds (j\<lparr>jn_left := l, jn_right := c, left_buffer := b,
           left_pos := int (length b) - 1, right_rec := Some rr, jn_end := False\<rparr>)) s) (\<lambda>c'. yields I E ?J c' ?out)"
      proof (cases rs)
        case Nil
        with c have "\<And>sv. I sv \<Longrightarrow> ex_end R c sv" by (auto elim: yields_Nil)
        with Nil stop [of "j\<lparr>jn_left := l, jn_right := c, left_buffer := b\<rparr>"] show ?thesis
          by (rule_tac gives_if [where v = True]) simp_all
      next
        case (Cons r2 rr2)
        from c Cons have rec: "gives I E (ex_rec R c) (\<lambda>x. x = r2)" "\<And>sv. I sv \<Longrightarrow> \<not> ex_end R c sv" by (auto elim: yields_Cons)
        let ?j = "j\<lparr>jn_left := l, jn_right := c, left_buffer := b, left_pos := int (length b) - 1, right_rec := Some r2, jn_end := False\<rparr>"
        have "gives I E (find_match L R conds ?j) (\<lambda>j'. yields I E ?J j'
            (pairs_of m jr (take (nat (left_pos ?j + 1)) (left_buffer ?j)) r2 @ block_out m jr (left_buffer ?j) rr2 @
              join_out m jr (ex_len L) lr rs))"
          unfolding jr_def by (rule find_match_run [where A = "set ls", OF assms(3)])
            (use assms(4) l c split Cons in \<open>auto simp: jr_def\<close>)
        moreover have "?out = pairs_of m jr (take (nat (left_pos ?j + 1)) (left_buffer ?j)) r2 @ block_out m jr (left_buffer ?j) rr2 @
              join_out m jr (ex_len L) lr rs"
          using Cons b False by (simp add: block_out_def join_out.simps [of m jr _ ls])
        ultimately have go: "gives I E (find_match L R conds ?j) (\<lambda>c'. yields I E ?J c' ?out)" by simp
        have "gives I E (pThen (ex_rec R c) (\<lambda>rr. find_match L R conds (j\<lparr>jn_left := l, jn_right := c, left_buffer := b,
           left_pos := int (length b) - 1, right_rec := Some rr, jn_end := False\<rparr>))) (\<lambda>c'. yields I E ?J c' ?out)"
          by (rule gives_then_eq [OF rec(1)]) (rule go)
        with rec(2) show ?thesis by (rule_tac gives_if [where v = False]) simp_all
      qed
    qed
    with \<open>b \<noteq> []\<close> show ?thesis by simp
  qed
  obtain b lr where b: "next_block (ex_len L) 0 ls = (b, lr)" by fastforce
  have J: "ex_begin ?J j = join_begin L R conds j" by (simp add: join_exec_def)
  show "gives I E (ex_begin ?J j) (\<lambda>c'. yields I E ?J c' ?out)"
    unfolding J join_begin_def
    by (rule gives_then [OF L], rule gives_then [OF load_block_run], assumption, clarify)
      (unfold b fst_conv snd_conv append_Nil, erule loaded [OF _ b])
qed

text \<open>
  Claim C14. The join is the join: over any two operators, of any sizes and however the left records fall
  into blocks, the records that come out are exactly the pairs of a left and a right record that meet the
  conditions, each pair once, the right record's bytes after the left's; the loops over blocks and
  children end.
\<close>

theorem join_correct:
  assumes "delivers I E L ls" "delivers I E R rs"
    "\<forall>l \<in> set ls. \<forall>r \<in> set rs. eval_conds (join_cols L R) conds (join_record (ex_len L) (ex_len R) l r) = Inr (m l r)"
  shows "\<exists>out. delivers I E (join_exec L R conds) out \<and>
    mset out = mset [join_record (ex_len L) (ex_len R) l r. r \<leftarrow> rs, l \<leftarrow> ls, m l r]"
proof -
  let ?jr = "join_record (ex_len L) (ex_len R)"
  let ?out = "if rs = [] then [] else join_out m ?jr (ex_len L) ls rs"
  have one: "map (\<lambda>l. ?jr l r) (filter (\<lambda>l. m l r) ls) = [?jr l r. l \<leftarrow> ls, m l r]" for r by (induction ls) auto
  have "delivers I E (join_exec L R conds) ?out" by (rule join_run [OF assms(1,2)]) (use assms(3) in auto)
  moreover have "mset ?out = mset [?jr l r. r \<leftarrow> rs, l \<leftarrow> ls, m l r]"
    using mset_join_out [of m ?jr "ex_len L" ls rs] by (simp only: one) simp
  ultimately show ?thesis by blast
qed

lemma scan_ex_delivers:
  "delivers (reading [(''t'', rm_ex_file)] rm_ex_pages) (stopped [(''t'', rm_ex_file)] rm_ex_pages)
     (seq_scan ''t'' [] scan_ex_cols) [replicate 512 7]"
proof -
  have row: "rm_table rm_ex_file rm_ex_pages p = Some b \<longleftrightarrow> p = Rid 1 0 \<and> b = replicate 512 7" for p b
    using rm_ex_table [of p] by auto
  then have "dom (rm_table rm_ex_file rm_ex_pages) = {Rid 1 0}" by auto
  then have "table_rows (rm_table rm_ex_file rm_ex_pages) = [replicate 512 7]" using rm_ex_table by (simp add: table_rows_def)
  with seq_scan_run [of "[(''t'', rm_ex_file)]" "''t''" rm_ex_file rm_ex_pages scan_ex_cols "[]" "\<lambda>_. True"] show ?thesis by simp
qed

theorem sort_correct_witness:
  "\<exists>ex. sort_exec (seq_scan ''t'' [] scan_ex_cols) [plain_col ''t'' ''a''] [True] = Inr ex \<and>
    delivers (reading [(''t'', rm_ex_file)] rm_ex_pages) (stopped [(''t'', rm_ex_file)] rm_ex_pages) ex [replicate 512 7]"
proof -
  let ?s = "seq_scan ''t'' [] scan_ex_cols"
  have cs: "get_cols (ex_cols ?s) [plain_col ''t'' ''a''] = Inr scan_ex_cols"
    by (simp add: seq_scan_def scan_ex_cols_def get_col_def plain_col_def)
  then have ex: "sort_exec ?s [plain_col ''t'' ''a''] [True] = Inr (sort_with ?s (zip scan_ex_cols [True]))"
    by (simp add: sort_exec_def)
  have "\<forall>r \<in> set [replicate 512 7]. tuple_ok (zip scan_ex_cols [True]) r"
    by (simp add: tuple_ok_def scan_ex_cols_def value_there_def)
  from sort_correct [OF scan_ex_delivers ex cs this] ex show ?thesis by auto
qed

theorem join_correct_witness:
  "\<exists>out. delivers (reading [(''t'', rm_ex_file)] rm_ex_pages) (stopped [(''t'', rm_ex_file)] rm_ex_pages)
      (join_exec (seq_scan ''t'' [] scan_ex_cols) (seq_scan ''t'' [] scan_ex_cols) []) out \<and> out = [replicate 16 7]"
proof -
  have len: "ex_len (seq_scan ''t'' [] scan_ex_cols) = 8"
    by (simp add: seq_scan_def last_end_def scan_ex_cols_def add32_exact in_signed_def)
  have "join_record 8 8 (replicate 512 7) (replicate 512 7) = replicate 16 7" by (simp add: join_record_def replicate_add [symmetric])
  with join_correct [OF scan_ex_delivers scan_ex_delivers, of "[]" "\<lambda>_ _. True"] len show ?thesis by auto
qed

end
