(* ===== verification/Aggregate.thy ===== *)
theory Aggregate
  imports Sort_Join
begin

text \<open>
  \<^verbatim>\<open>executor_aggregate.h\<close>: COUNT, MAX, MIN and SUM over the records of a child. The sums are
  \<^verbatim>\<open>double\<close>s; a finite double is held as its number of units of \<open>2 ^ -1074\<close>, the smallest positive one,
  and every addition rounds to 53 bits, ties to even. A negative zero never arises from these sums.
\<close>

section \<open>Doubles\<close>

datatype dbl = Fin int | Inf bool | Not_A_Number

definition dbl_unit :: int where "dbl_unit = 2 ^ 1074"

definition dbl_round :: "int \<Rightarrow> dbl" where
  "dbl_round v = (let m = nat \<bar>v\<bar>; k = ilog2 m - 52; r = round_shift m k * 2 ^ k
     in if r \<ge> 2 ^ 2098 then Inf (v < 0) else Fin (if v < 0 then - int r else int r))"

fun dbl_add :: "dbl \<Rightarrow> dbl \<Rightarrow> dbl" where
  "dbl_add (Fin a) (Fin b) = dbl_round (a + b)"
| "dbl_add (Inf s) (Fin b) = Inf s"
| "dbl_add (Fin a) (Inf s) = Inf s"
| "dbl_add (Inf s) (Inf t) = (if s = t then Inf s else Not_A_Number)"
| "dbl_add _ _ = Not_A_Number"

definition dbl_of_int :: "int \<Rightarrow> dbl" where
  "dbl_of_int i = dbl_round (i * dbl_unit)"

definition dbl_of_float :: "float32 \<Rightarrow> dbl" where
  "dbl_of_float w = (let u = uint w mod 2 ^ 31; e = u div 2 ^ 23; f = u mod 2 ^ 23; neg = uint w \<ge> 2 ^ 31
     in if e = 255 then (if f = 0 then Inf neg else Not_A_Number)
        else let m = (if e = 0 then f * 2 ^ 925 else (2 ^ 23 + f) * 2 ^ nat (e + 924)) in Fin (if neg then - m else m))"

text \<open>Casts: to an integer type of \<open>n\<close> bytes, undefined when it does not fit; to a float, rounding to 24 bits.\<close>

definition int_of_dbl :: "nat \<Rightarrow> dbl \<Rightarrow> rmdb_error + int" where
  "int_of_dbl n d = (case d of
     Fin v \<Rightarrow> let i = (if v < 0 then - (- v div dbl_unit) else v div dbl_unit)
       in if in_signed n i then Inr i else Inl AssertionFailure
   | _ \<Rightarrow> Inl AssertionFailure)"

definition float_of_dbl :: "dbl \<Rightarrow> float32" where
  "float_of_dbl d = (case d of
     Fin v \<Rightarrow>
       let m = nat \<bar>v\<bar>; k = max (ilog2 m - 23) 925; q = round_shift m k;
           (q, k) = (if q = 2 ^ 24 then (2 ^ 23, k + 1) else (q, k));
           mag = (if q < 2 ^ 23 then q else (k - 924) * 2 ^ 23 + (q - 2 ^ 23));
           mag = (if mag \<ge> 255 * 2 ^ 23 then 255 * 2 ^ 23 else mag)
       in word_of_nat (if v < 0 then 2 ^ 31 + mag else mag)
   | Inf s \<Rightarrow> word_of_nat ((if s then 2 ^ 31 else 0) + 255 * 2 ^ 23)
   | Not_A_Number \<Rightarrow> word_of_nat (255 * 2 ^ 23 + 2 ^ 22))"

section \<open>The operator\<close>

text \<open>One output column: the selected column, where its values are in the child's records, the result column.\<close>

record agg_item =
  ag_sel :: tabcol
  ag_out :: col_meta

text \<open>The accumulators of one selected column: \<^verbatim>\<open>cnt\<close>, \<^verbatim>\<open>sum\<close> and \<^verbatim>\<open>minmax\<close> with \<^verbatim>\<open>has_val\<close>.\<close>

record agg_acc =
  ac_cnt :: int
  ac_sum :: dbl
  ac_best :: "bytes option"

definition agg_acc_new :: agg_acc where
  "agg_acc_new = \<lparr>ac_cnt = 0, ac_sum = Fin 0, ac_best = None\<rparr>"

definition read_at :: "nat \<Rightarrow> bytes \<Rightarrow> int" where
  "read_at n b = to_signed n (le_decode (take n b))"

definition agg_value :: "coltype \<Rightarrow> bytes \<Rightarrow> dbl" where
  "agg_value t b = (case t of TYPE_INT \<Rightarrow> dbl_of_int (read_at 4 b) | TYPE_FLOAT \<Rightarrow> dbl_of_float (word_of_int (le_decode (take 4 b)))
     | TYPE_STRING \<Rightarrow> Fin 0 | _ \<Rightarrow> dbl_of_int (read_at 8 b))"

definition agg_step :: "col_meta list \<Rightarrow> bytes \<Rightarrow> tabcol \<Rightarrow> agg_acc \<Rightarrow> rmdb_error + agg_acc" where
  "agg_step cols r sel a =
     (if tc_agg sel = AGG_COUNT then Inr (a\<lparr>ac_cnt := ac_cnt a + 1\<rparr>)
      else eThen (get_col cols (plain_col (tc_tab sel) (tc_col sel))) (\<lambda>c.
        let d = drop (nat (cm_offset c)) r in
        if tc_agg sel = AGG_SUM then
          Inr (if cm_type c = TYPE_STRING then a else a\<lparr>ac_sum := dbl_add (ac_sum a) (agg_value (cm_type c) d)\<rparr>)
        else case ac_best a of
          None \<Rightarrow> Inr (a\<lparr>ac_best := Some (take (nat (cm_len c)) d)\<rparr>)
        | Some b \<Rightarrow>
            let cmp = compare_value d b (cm_type c) (cm_len c) in
            Inr (if tc_agg sel = AGG_MAX \<and> cmp > 0 \<or> tc_agg sel = AGG_MIN \<and> cmp < 0
                 then a\<lparr>ac_best := Some (take (nat (cm_len c)) d)\<rparr> else a)))"

fun agg_steps :: "col_meta list \<Rightarrow> bytes \<Rightarrow> tabcol list \<Rightarrow> agg_acc list \<Rightarrow> rmdb_error + agg_acc list" where
  "agg_steps cols r (s # ss) (a # as) = eThen (agg_step cols r s a) (\<lambda>a. eThen (agg_steps cols r ss as) (\<lambda>as. Inr (a # as)))"
| "agg_steps cols r _ _ = Inr []"

text \<open>The bytes of a result column; a MAX or MIN over nothing stays zero.\<close>

definition agg_result :: "agg_item \<Rightarrow> agg_acc \<Rightarrow> rmdb_error + bytes" where
  "agg_result it a = (let n = nat (cm_len (ag_out it)); zero = replicate n 0 in
     if tc_agg (ag_sel it) = AGG_COUNT then Inr (le_encode 4 (ac_cnt a))
     else if tc_agg (ag_sel it) = AGG_SUM then
       (case cm_type (ag_out it) of
          TYPE_INT \<Rightarrow> eThen (int_of_dbl 4 (ac_sum a)) (\<lambda>i. Inr (le_encode 4 i))
        | TYPE_FLOAT \<Rightarrow> Inr (le_encode 4 (uint (float_of_dbl (ac_sum a))))
        | TYPE_STRING \<Rightarrow> Inr zero
        | _ \<Rightarrow> eThen (int_of_dbl 8 (ac_sum a)) (\<lambda>i. Inr (le_encode 8 i)))
     else Inr (case ac_best a of None \<Rightarrow> zero | Some b \<Rightarrow> take n b))"

fun agg_results :: "agg_item list \<Rightarrow> agg_acc list \<Rightarrow> bytes \<Rightarrow> rmdb_error + bytes" where
  "agg_results (it # its) (a # as) r = eThen (agg_result it a) (\<lambda>b. agg_results its as (patch (cm_offset (ag_out it)) b r))"
| "agg_results _ _ r = Inr r"

text \<open>The constructor: the result columns.\<close>

fun agg_items :: "col_meta list \<Rightarrow> int \<Rightarrow> tabcol list \<Rightarrow> rmdb_error + agg_item list \<times> int" where
  "agg_items cols off [] = Inr ([], off)"
| "agg_items cols off (s # ss) =
     eThen (if tc_agg s = AGG_COUNT then Inr (TYPE_INT, 4)
            else eThen (get_col cols (plain_col (tc_tab s) (tc_col s))) (\<lambda>c. Inr (cm_type c, cm_len c))) (\<lambda>(t, len).
     eThen (agg_items cols (add32 off len) ss) (\<lambda>(its, tot).
     Inr (\<lparr>ag_sel = s, ag_out = \<lparr>cm_tab = '''', cm_name = (if tc_alias s = '''' then tc_col s else tc_alias s), cm_type = t,
       cm_len = len, cm_offset = off, cm_index = False\<rparr>\<rparr> # its, tot)))"

text \<open>The members: the child's, \<^verbatim>\<open>is_end_\<close>, \<^verbatim>\<open>result_\<close>.\<close>

definition aggregate_with :: "'c executor \<Rightarrow> agg_item list \<Rightarrow> int \<Rightarrow> ('c \<times> bool \<times> bytes option) executor" where
  "aggregate_with prev its len = \<lparr>ex_cols = map ag_out its, ex_len = len,
     ex_begin = (\<lambda>(c, _, _).
       pThen (each_tuple prev (\<lambda>as r. agg_steps (ex_cols prev) r (map ag_sel its) as) (replicate (length its) agg_acc_new) c) (\<lambda>as.
       pThen (plift (agg_results its as (replicate (nat len) 0))) (\<lambda>r. pdo (ret (c, False, Some r))))),
     ex_next = (\<lambda>(c, _, r). pdo (ret (c, True, r))),
     ex_end = (\<lambda>(_, e, _) _. e),
     ex_rec = (\<lambda>(_, _, r). case r of None \<Rightarrow> pdo (throw AssertionFailure) | Some r \<Rightarrow> pdo (ret r))\<rparr>"

definition aggregate_exec :: "'c executor \<Rightarrow> tabcol list \<Rightarrow> rmdb_error + ('c \<times> bool \<times> bytes option) executor" where
  "aggregate_exec prev sel = eThen (agg_items (ex_cols prev) 0 sel) (\<lambda>(its, len). Inr (aggregate_with prev its len))"

section \<open>Sums of integers are exact up to \<open>2 ^ 53\<close>\<close>

lemma ilog2_less: "0 < n \<Longrightarrow> n < 2 ^ k \<Longrightarrow> ilog2 n < k"
proof (induction n arbitrary: k rule: ilog2.induct)
  case (1 n)
  show ?case
  proof (cases "n < 2")
    case True
    then show ?thesis using 1(2,3) by (cases k) (auto simp: ilog2.simps)
  next
    case False
    then obtain j where j: "k = Suc j" using 1(3) by (cases k) auto
    have "ilog2 (n div 2) < j" using 1(1) [OF False] False 1(3) j by auto
    then show ?thesis using False j by (simp add: ilog2.simps [of n])
  qed
qed

lemma dbl_unit_pos: "0 < dbl_unit"
  by (simp only: dbl_unit_def zero_less_power zero_less_numeral)

lemma dbl_round_exact:
  assumes "\<bar>i\<bar> \<le> 2 ^ 53"
  shows "dbl_round (i * dbl_unit) = Fin (i * dbl_unit)"
proof (cases "i = 0")
  case True
  have "ilog2 0 = 0" by (simp add: ilog2.simps [of 0])
  with True show ?thesis by (simp add: dbl_round_def Let_def round_shift_def)
next
  case False
  define e where "e = (1074 :: nat)"
  have unit: "dbl_unit = 2 ^ e" by (simp only: dbl_unit_def e_def)
  have top: "(2 :: nat) ^ 2098 = 2 ^ (1024 + e)" by (simp only: e_def) simp
  define a where "a = nat \<bar>i\<bar>"
  define m where "m = a * (2 :: nat) ^ e"
  have a: "0 < a" "a \<le> 2 ^ 53" using False assms by (auto simp: a_def)
  have small: "m < 2 ^ (n + e)" "ilog2 m < n + e" if "a < 2 ^ n" for n
  proof -
    show "m < 2 ^ (n + e)" using that by (simp add: m_def power_add)
    then show "ilog2 m < n + e" using a(1) by (intro ilog2_less) (auto simp: m_def)
  qed
  define k where "k = ilog2 m - 52"
  have a54: "a < 2 ^ 54" using a(2) by simp
  have k: "k \<le> e + 1" using small(2) [OF a54] by (simp add: k_def)
  have r: "round_shift m k * 2 ^ k = m"
  proof (cases "k \<le> e")
    case True
    then have "(2 :: nat) ^ e = 2 ^ (e - k) * 2 ^ k" by (simp add: power_add [symmetric])
    then have m: "m = a * 2 ^ (e - k) * 2 ^ k" by (simp add: m_def)
    show ?thesis by (simp add: round_shift_def Let_def m)
  next
    case False
    with k have k1: "k = e + 1" by simp
    have "a = 2 ^ 53"
    proof (rule ccontr)
      assume "a \<noteq> 2 ^ 53"
      then have "a < 2 ^ 53" using a(2) by simp
      from small(2) [OF this] k1 show False by (simp add: k_def)
    qed
    then have m: "m = 2 ^ 52 * 2 ^ k" by (simp add: m_def k1)
    show ?thesis by (simp add: round_shift_def Let_def m)
  qed
  have abs: "nat \<bar>i * dbl_unit\<bar> = m" by (simp add: abs_mult unit m_def a_def nat_mult_distrib nat_power_eq)
  have big: "\<not> m \<ge> 2 ^ 2098"
  proof -
    have "m < 2 ^ (54 + e)" by (rule small(1) [OF a54])
    also have "\<dots> \<le> 2 ^ (1024 + e)" by (rule power_increasing) simp_all
    finally show ?thesis unfolding top by simp
  qed
  have m: "int m = \<bar>i * dbl_unit\<bar>" using abs by linarith
  show ?thesis using r big m unfolding dbl_round_def Let_def abs k_def [symmetric] by simp
qed

lemma dbl_sum_exact:
  assumes "\<forall>k \<le> length is. \<bar>s + sum_list (take k is)\<bar> \<le> 2 ^ 53" "\<forall>i \<in> set is. \<bar>i\<bar> \<le> 2 ^ 53"
  shows "foldl (\<lambda>d i. dbl_add d (dbl_of_int i)) (Fin (s * dbl_unit)) is = Fin ((s + sum_list is) * dbl_unit)"
  using assms
proof (induction "is" arbitrary: s)
  case (Cons i "is")
  have "\<bar>s + i\<bar> \<le> 2 ^ 53" using Cons.prems(1) [rule_format, of 1] by simp
  then have add: "dbl_add (Fin (s * dbl_unit)) (dbl_of_int i) = Fin ((s + i) * dbl_unit)"
    using dbl_round_exact [of i] dbl_round_exact [of "s + i"] Cons.prems(2) by (simp add: dbl_of_int_def distrib_right)
  have "\<forall>k \<le> length is. \<bar>s + i + sum_list (take k is)\<bar> \<le> 2 ^ 53"
    using Cons.prems(1) [rule_format, of "Suc _"] by (auto simp: add.assoc)
  from Cons.IH [OF this] Cons.prems(2) show ?case by (simp add: add add.assoc)
qed simp

lemma int_of_dbl_exact: "in_signed n i \<Longrightarrow> int_of_dbl n (Fin (i * dbl_unit)) = Inr i"
proof -
  have "- (i * dbl_unit) div dbl_unit = - i" using dbl_unit_pos
    by (metis minus_mult_left nonzero_mult_div_cancel_right less_irrefl)
  moreover have "i * dbl_unit div dbl_unit = i" using dbl_unit_pos by simp
  ultimately show "in_signed n i \<Longrightarrow> int_of_dbl n (Fin (i * dbl_unit)) = Inr i" by (simp add: int_of_dbl_def Let_def)
qed

section \<open>What is computed\<close>

text \<open>The columns are folded side by side.\<close>

lemma agg_steps_all:
  "list_all2 (\<lambda>(s, a) b. agg_step cols r s a = Inr b) (zip ss as) bs \<Longrightarrow> length as = length ss \<Longrightarrow> agg_steps cols r ss as = Inr bs"
proof (induction ss arbitrary: as bs)
  case (Cons s ss)
  then obtain a as' b bs' where "as = a # as'" "bs = b # bs'" by (cases as; cases bs) auto
  with Cons.IH [of as' bs'] Cons.prems show ?case by simp
qed simp

lemma agg_fold_all:
  "list_all2 (\<lambda>(s, a) b. foldE (\<lambda>a r. agg_step cols r s a) a rs = Inr b) (zip ss as) bs \<Longrightarrow> length as = length ss \<Longrightarrow>
    foldE (\<lambda>as r. agg_steps cols r ss as) as rs = Inr bs"
proof (induction rs arbitrary: as)
  case Nil
  then have "length bs = length as" "\<forall>i < length as. as ! i = bs ! i" by (auto simp: list_all2_conv_all_nth)
  then show ?case by (simp add: list_eq_iff_nth_eq)
next
  case (Cons r rs)
  let ?mid = "\<lambda>i. projr (agg_step cols r (ss ! i) (as ! i))"
  have len: "length bs = length ss" using Cons.prems by (auto dest: list_all2_lengthD)
  have step: "agg_step cols r (ss ! i) (as ! i) = Inr (?mid i)"
    "foldE (\<lambda>a r. agg_step cols r (ss ! i) a) (?mid i) rs = Inr (bs ! i)" if "i < length ss" for i
    using list_all2_nthD [OF Cons.prems(1), of i] that Cons.prems(2) len by (auto simp: eThen_eq_Inr)
  have "agg_steps cols r ss as = Inr (map ?mid [0..<length ss])"
    by (rule agg_steps_all) (use step Cons.prems(2) in \<open>auto simp: list_all2_conv_all_nth\<close>)
  moreover have "foldE (\<lambda>as r. agg_steps cols r ss as) (map ?mid [0..<length ss]) rs = Inr bs"
    by (rule Cons.IH) (use step len in \<open>auto simp: list_all2_conv_all_nth\<close>)
  ultimately show ?case by simp
qed

text \<open>
  What the aggregation of a column is, over the records \<open>rs\<close> with columns \<open>cols\<close>: \<open>agg_ok\<close> says when it is
  defined and exact, \<open>agg_is\<close> which bytes it gives.
\<close>

definition typed :: "col_meta \<Rightarrow> bool" where
  "typed c \<longleftrightarrow> 0 \<le> cm_len c \<and> (cm_type c = TYPE_INT \<or> cm_type c = TYPE_FLOAT \<longrightarrow> cm_len c = 4) \<and>
     (cm_type c = TYPE_BIGINT \<or> cm_type c = TYPE_DATETIME \<longrightarrow> cm_len c = 8)"

definition field :: "col_meta \<Rightarrow> bytes \<Rightarrow> bytes" where
  "field c r = drop (nat (cm_offset c)) r"

definition agg_ok :: "col_meta list \<Rightarrow> bytes list \<Rightarrow> tabcol \<Rightarrow> bool" where
  "agg_ok cols rs s \<longleftrightarrow> (case tc_agg s of
     AGG_COUNT \<Rightarrow> True
   | AGG_NONE \<Rightarrow> False
   | k \<Rightarrow> (\<exists>c. get_col cols (plain_col (tc_tab s) (tc_col s)) = Inr c \<and> typed c \<and>
       (\<forall>r \<in> set rs. nat (cm_len c) \<le> length (field c r)) \<and>
       (if k = AGG_SUM then (cm_type c = TYPE_INT \<or> cm_type c = TYPE_BIGINT) \<and>
          (\<forall>i \<le> length rs. \<bar>sum_list (map (\<lambda>r. read_at (nat (cm_len c)) (field c r)) (take i rs))\<bar> \<le> 2 ^ 53) \<and>
          (\<forall>r \<in> set rs. \<bar>read_at (nat (cm_len c)) (field c r)\<bar> \<le> 2 ^ 53) \<and>
          in_signed (nat (cm_len c)) (sum_list (map (\<lambda>r. read_at (nat (cm_len c)) (field c r)) rs))
        else \<forall>r \<in> set rs. value_there (cm_type c) (cm_len c) (field c r))))"

definition agg_is :: "col_meta list \<Rightarrow> bytes list \<Rightarrow> tabcol \<Rightarrow> bytes \<Rightarrow> bool" where
  "agg_is cols rs s b \<longleftrightarrow>
     (if tc_agg s = AGG_COUNT then b = le_encode 4 (int (length rs))
      else \<forall>c. get_col cols (plain_col (tc_tab s) (tc_col s)) = Inr c \<longrightarrow>
        (if tc_agg s = AGG_SUM
         then b = le_encode (nat (cm_len c)) (sum_list (map (\<lambda>r. read_at (nat (cm_len c)) (field c r)) rs))
         else if rs = [] then b = replicate (nat (cm_len c)) 0
         else \<exists>r \<in> set rs. b = col_bytes r c \<and> (\<forall>q \<in> set rs.
           if tc_agg s = AGG_MAX then compare_value (field c q) (field c r) (cm_type c) (cm_len c) \<le> 0
           else 0 \<le> compare_value (field c q) (field c r) (cm_type c) (cm_len c))))"

lemma fold_count:
  "tc_agg s = AGG_COUNT \<Longrightarrow> \<exists>b. foldE (\<lambda>a r. agg_step cols r s a) a rs = Inr b \<and> ac_cnt b = ac_cnt a + int (length rs)"
proof (induction rs arbitrary: a)
  case (Cons r rs)
  with Cons.IH [of "a\<lparr>ac_cnt := ac_cnt a + 1\<rparr>"] show ?case by (auto simp: agg_step_def)
qed simp

lemma fold_sum:
  assumes "tc_agg s = AGG_SUM" "get_col cols (plain_col (tc_tab s) (tc_col s)) = Inr c" "cm_type c \<noteq> TYPE_STRING"
  shows "\<exists>b. foldE (\<lambda>a r. agg_step cols r s a) a rs = Inr b \<and>
    ac_sum b = foldl dbl_add (ac_sum a) (map (\<lambda>r. agg_value (cm_type c) (field c r)) rs)"
proof (induction rs arbitrary: a)
  case (Cons r rs)
  have "agg_step cols r s a = Inr (a\<lparr>ac_sum := dbl_add (ac_sum a) (agg_value (cm_type c) (field c r))\<rparr>)"
    using assms by (simp add: agg_step_def field_def)
  with Cons.IH [of "a\<lparr>ac_sum := dbl_add (ac_sum a) (agg_value (cm_type c) (field c r))\<rparr>"] show ?case by simp
qed simp

text \<open>The best record so far.\<close>

definition at_least :: "aggtype \<Rightarrow> col_meta \<Rightarrow> bytes \<Rightarrow> bytes \<Rightarrow> bool" where
  "at_least k c r q \<longleftrightarrow> (if k = AGG_MAX then compare_value (field c q) (field c r) (cm_type c) (cm_len c) \<le> 0
     else 0 \<le> compare_value (field c q) (field c r) (cm_type c) (cm_len c))"

definition best_of :: "aggtype \<Rightarrow> col_meta \<Rightarrow> bytes list \<Rightarrow> bytes option \<Rightarrow> bool" where
  "best_of k c rs b \<longleftrightarrow> (if rs = [] then b = None
     else \<exists>r \<in> set rs. b = Some (col_bytes r c) \<and> (\<forall>q \<in> set rs. at_least k c r q))"

lemma compare_take:
  assumes "typed c"
  shows "compare_value x (take (nat (cm_len c)) y) (cm_type c) (cm_len c) = compare_value x y (cm_type c) (cm_len c)"
  using assms by (cases "cm_type c") (auto simp: typed_def Let_def)

lemma best_step:
  assumes "tc_agg s = AGG_MAX \<or> tc_agg s = AGG_MIN" "get_col cols (plain_col (tc_tab s) (tc_col s)) = Inr c" "typed c"
    "\<forall>q \<in> set (seen @ [r]). value_there (cm_type c) (cm_len c) (field c q)" "best_of (tc_agg s) c seen (ac_best a)"
  shows "\<exists>a'. agg_step cols r s a = Inr a' \<and> best_of (tc_agg s) c (seen @ [r]) (ac_best a')"
proof (cases "seen = []")
  case True
  have "at_least (tc_agg s) c r r" using at.cmp_refl assms(4) by (auto simp: at_least_def)
  with True assms show ?thesis by (auto simp: best_of_def agg_step_def col_bytes_def field_def)
next
  case False
  then obtain p where p: "p \<in> set seen" "ac_best a = Some (col_bytes p c)" "\<forall>q \<in> set seen. at_least (tc_agg s) c p q"
    using assms(5) by (auto simp: best_of_def)
  let ?cmp = "compare_value (field c r) (field c p) (cm_type c) (cm_len c)"
  let ?better = "tc_agg s = AGG_MAX \<and> ?cmp > 0 \<or> tc_agg s = AGG_MIN \<and> ?cmp < 0"
  have ok: "value_there (cm_type c) (cm_len c) (field c q)" if "q \<in> set seen \<or> q = r" for q using assms(4) that by auto
  have step: "agg_step cols r s a = Inr (if ?better then a\<lparr>ac_best := Some (col_bytes r c)\<rparr> else a)"
    using assms(1,2) p(2) compare_take [OF assms(3), of "field c r" "field c p"]
    by (auto simp: agg_step_def Let_def col_bytes_def field_def)
  show ?thesis
  proof (cases ?better)
    case True
    have "at_least (tc_agg s) c r q" if "q \<in> set (seen @ [r])" for q
    proof (cases "q = r")
      case True
      then show ?thesis using at.cmp_refl [OF ok] by (simp add: at_least_def)
    next
      case False
      then have q: "q \<in> set seen" using that by simp
      note ok3 = ok [OF disjI1 [OF q]] ok [OF disjI1 [OF p(1)]] ok [OF disjI2 [OF refl]]
      have "at_least (tc_agg s) c p q" using p(3) q by blast
      then show ?thesis using \<open>?better\<close> at.cmp_trans [OF ok3] at.cmp_trans [OF ok3(3,2,1)] at.cmp_flip [OF ok3(2,1)]
          at.cmp_flip [OF ok3(3,1)] at.cmp_flip [OF ok3(2,3)] at.cmp_flip [OF ok3(1,3)] at.cmp_flip [OF ok3(1,2)]
        by (auto simp: at_least_def split: if_splits)
    qed
    with True step show ?thesis by (auto simp: best_of_def)
  next
    case False
    then have "at_least (tc_agg s) c p r" using assms(1) by (auto simp: at_least_def)
    with p False step show ?thesis by (auto simp: best_of_def)
  qed
qed

lemma fold_best:
  assumes "tc_agg s = AGG_MAX \<or> tc_agg s = AGG_MIN" "get_col cols (plain_col (tc_tab s) (tc_col s)) = Inr c" "typed c"
    "\<forall>r \<in> set (seen @ rs). value_there (cm_type c) (cm_len c) (field c r)" "best_of (tc_agg s) c seen (ac_best a)"
  shows "\<exists>b. foldE (\<lambda>a r. agg_step cols r s a) a rs = Inr b \<and> best_of (tc_agg s) c (seen @ rs) (ac_best b)"
  using assms(4,5)
proof (induction rs arbitrary: seen a)
  case (Cons r rs)
  then obtain a' where a': "agg_step cols r s a = Inr a'" "best_of (tc_agg s) c (seen @ [r]) (ac_best a')"
    using best_step [OF assms(1-3), of seen r a] by auto
  from Cons.IH [OF _ a'(2)] Cons.prems(1) a'(1) show ?case by auto
qed simp

text \<open>One column.\<close>

definition item_of :: "col_meta list \<Rightarrow> tabcol \<Rightarrow> agg_item \<Rightarrow> bool" where
  "item_of cols s it \<longleftrightarrow> ag_sel it = s \<and>
     (if tc_agg s = AGG_COUNT then cm_type (ag_out it) = TYPE_INT \<and> cm_len (ag_out it) = 4
      else \<exists>c. get_col cols (plain_col (tc_tab s) (tc_col s)) = Inr c \<and> cm_type (ag_out it) = cm_type c \<and> cm_len (ag_out it) = cm_len c)"

lemma agg_items_found: "agg_items cols off ss = Inr (its, tot) \<Longrightarrow> list_all2 (item_of cols) ss its"
  by (induction ss arbitrary: off its tot) (auto simp: item_of_def eThen_eq_Inr split: if_splits)

lemma sum_column:
  assumes "tc_agg s = AGG_SUM" "agg_ok cols rs s" "item_of cols s it"
  shows "\<exists>a b. foldE (\<lambda>a r. agg_step cols r s a) agg_acc_new rs = Inr a \<and> agg_result it a = Inr b \<and>
    length b = nat (cm_len (ag_out it)) \<and> agg_is cols rs s b"
proof -
  obtain c where c: "get_col cols (plain_col (tc_tab s) (tc_col s)) = Inr c" "typed c" "cm_type c = TYPE_INT \<or> cm_type c = TYPE_BIGINT"
    "\<forall>i \<le> length rs. \<bar>sum_list (map (\<lambda>r. read_at (nat (cm_len c)) (field c r)) (take i rs))\<bar> \<le> 2 ^ 53"
    "\<forall>r \<in> set rs. \<bar>read_at (nat (cm_len c)) (field c r)\<bar> \<le> 2 ^ 53"
    "in_signed (nat (cm_len c)) (sum_list (map (\<lambda>r. read_at (nat (cm_len c)) (field c r)) rs))"
    using assms(1,2) by (auto simp: agg_ok_def)
  let ?v = "\<lambda>r. read_at (nat (cm_len c)) (field c r)"
  have n: "nat (cm_len c) = (if cm_type c = TYPE_INT then 4 else 8)" using c(2,3) by (auto simp: typed_def)
  have val: "agg_value (cm_type c) (field c r) = dbl_of_int (?v r)" for r using c(3) n by (auto simp: agg_value_def)
  have "cm_type c \<noteq> TYPE_STRING" using c(3) by auto
  from fold_sum [OF assms(1) c(1) this, of agg_acc_new rs] obtain a where
    a: "foldE (\<lambda>a r. agg_step cols r s a) agg_acc_new rs = Inr a"
      "ac_sum a = foldl dbl_add (Fin 0) (map (\<lambda>r. dbl_of_int (?v r)) rs)" by (auto simp: val agg_acc_new_def)
  have "\<forall>k \<le> length (map ?v rs). \<bar>0 + sum_list (take k (map ?v rs))\<bar> \<le> 2 ^ 53" using c(4) by (simp add: take_map)
  from dbl_sum_exact [OF this] c(5) have "ac_sum a = Fin (sum_list (map ?v rs) * dbl_unit)"
    by (simp add: a(2) foldl_map)
  then have "agg_result it a = Inr (le_encode (nat (cm_len c)) (sum_list (map ?v rs)))"
    using int_of_dbl_exact [OF c(6)] assms(1,3) c(1,3) n by (auto simp: agg_result_def item_of_def Let_def)
  then show ?thesis using a(1) assms(1,3) c(1) by (auto simp: agg_is_def item_of_def)
qed

lemma best_column:
  assumes "tc_agg s = AGG_MAX \<or> tc_agg s = AGG_MIN" "agg_ok cols rs s" "item_of cols s it"
  shows "\<exists>a b. foldE (\<lambda>a r. agg_step cols r s a) agg_acc_new rs = Inr a \<and> agg_result it a = Inr b \<and>
    length b = nat (cm_len (ag_out it)) \<and> agg_is cols rs s b"
proof -
  obtain c where c: "get_col cols (plain_col (tc_tab s) (tc_col s)) = Inr c" "typed c"
    "\<forall>r \<in> set rs. nat (cm_len c) \<le> length (field c r)" "\<forall>r \<in> set rs. value_there (cm_type c) (cm_len c) (field c r)"
    using assms(1,2) by (auto simp: agg_ok_def)
  from fold_best [OF assms(1) c(1,2), of "[]" rs agg_acc_new] c(4) obtain a where
    a: "foldE (\<lambda>a r. agg_step cols r s a) agg_acc_new rs = Inr a" "best_of (tc_agg s) c rs (ac_best a)"
    by (auto simp: best_of_def agg_acc_new_def)
  define b where "b = (case ac_best a of None \<Rightarrow> replicate (nat (cm_len c)) 0 | Some b \<Rightarrow> take (nat (cm_len c)) b)"
  have "agg_result it a = Inr b" using assms(1,3) c(1) by (auto simp: agg_result_def item_of_def b_def Let_def split: option.splits)
  moreover have "length b = nat (cm_len c) \<and> agg_is cols rs s b"
  proof (cases "rs = []")
    case True
    with a(2) assms(1) c(1) show ?thesis by (auto simp: b_def best_of_def agg_is_def)
  next
    case False
    then obtain r where r: "r \<in> set rs" "ac_best a = Some (col_bytes r c)" "\<forall>q \<in> set rs. at_least (tc_agg s) c r q"
      using a(2) by (auto simp: best_of_def)
    have "length (col_bytes r c) = nat (cm_len c)" using c(3) r(1) by (auto simp: col_bytes_def field_def)
    then have "b = col_bytes r c" "length b = nat (cm_len c)" by (simp_all add: b_def r(2))
    with r False assms(1) c(1) show ?thesis by (auto simp: agg_is_def at_least_def)
  qed
  ultimately show ?thesis using a(1) assms(1,3) c(1) by (auto simp: item_of_def)
qed

lemma agg_column:
  assumes "agg_ok cols rs s" "item_of cols s it"
  shows "\<exists>a b. foldE (\<lambda>a r. agg_step cols r s a) agg_acc_new rs = Inr a \<and> agg_result it a = Inr b \<and>
    length b = nat (cm_len (ag_out it)) \<and> agg_is cols rs s b"
proof (cases "tc_agg s")
  case AGG_COUNT
  from fold_count [OF this, of cols agg_acc_new rs] AGG_COUNT assms(2) show ?thesis
    by (auto simp: agg_result_def agg_acc_new_def item_of_def agg_is_def)
next
  case AGG_NONE
  with assms(1) show ?thesis by (simp add: agg_ok_def)
qed (use sum_column best_column assms in auto)

text \<open>The result record: the columns side by side.\<close>

lemma agg_results_concat:
  assumes "agg_items cols off ss = Inr (its, tot)" "0 \<le> off" "off + sum_list (map (\<lambda>it. cm_len (ag_out it)) its) < 2 ^ 31"
    "\<forall>it \<in> set its. 0 \<le> cm_len (ag_out it)"
    "list_all2 (\<lambda>(it, a) b. agg_result it a = Inr b \<and> length b = nat (cm_len (ag_out it))) (zip its as) bs" "length as = length its"
  shows "tot = off + sum_list (map (\<lambda>it. cm_len (ag_out it)) its) \<and>
    (\<forall>r. length r = nat tot \<longrightarrow> agg_results its as r = Inr (take (nat off) r @ concat bs))"
  using assms
proof (induction ss arbitrary: off its as bs tot)
  case (Cons s ss)
  obtain it its' where it: "its = it # its'" "cm_offset (ag_out it) = off"
    "agg_items cols (add32 off (cm_len (ag_out it))) ss = Inr (its', tot)"
    using Cons.prems(1) by (auto simp: eThen_eq_Inr split: if_splits)
  obtain a as' where as: "as = a # as'" using Cons.prems(6) it(1) by (cases as) auto
  then obtain b bs' where b: "bs = b # bs'" "agg_result it a = Inr b" "length b = nat (cm_len (ag_out it))"
    "list_all2 (\<lambda>(it, a) b. agg_result it a = Inr b \<and> length b = nat (cm_len (ag_out it))) (zip its' as') bs'"
    using Cons.prems(5) it(1) by (auto simp: list_all2_Cons1)
  have pos: "0 \<le> sum_list (map (\<lambda>it. cm_len (ag_out it)) its')" "0 \<le> cm_len (ag_out it)"
    using Cons.prems(4) it(1) by (auto intro!: sum_list_nonneg)
  then have off: "add32 off (cm_len (ag_out it)) = off + cm_len (ag_out it)"
    using Cons.prems(2,3) it(1) by (intro add32_exact) (auto simp: in_signed_def)
  have ih: "tot = off + cm_len (ag_out it) + sum_list (map (\<lambda>it. cm_len (ag_out it)) its')"
    "\<And>r. length r = nat tot \<Longrightarrow> agg_results its' as' r = Inr (take (nat (off + cm_len (ag_out it))) r @ concat bs')"
    using Cons.IH [OF it(3) _ _ _ b(4)] Cons.prems(2-4,6) it(1) as pos off by (auto simp: add.assoc)
  show ?case
  proof (intro conjI allI impI)
    fix r :: bytes assume r: "length r = nat tot"
    let ?r = "patch off b r"
    have "nat off + length b \<le> length r" using r ih(1) pos Cons.prems(2) b(3) by simp
    then have "length ?r = nat tot" "take (nat (off + cm_len (ag_out it))) ?r = take (nat off) r @ b"
      using r b(3) Cons.prems(2) pos(2) by (simp_all add: patch_def nat_add_distrib)
    with ih(2) [of ?r] show "agg_results its as r = Inr (take (nat off) r @ concat bs)"
      using it(1,2) as b(1,2) by simp
  qed (use ih(1) it(1) in simp)
qed simp

text \<open>
  Claim C16. Aggregates: over any operator the aggregation gives one record, the results of the selected
  columns side by side. COUNT is the number of records; MAX and MIN are bytes of a record that none
  exceeds or falls below, zeros over nothing; SUM, although added up in \<^verbatim>\<open>double\<close>s, is the exact sum of an
  \<^verbatim>\<open>INT\<close> or \<^verbatim>\<open>BIGINT\<close> column as long as no value and no partial sum exceeds \<open>2 ^ 53\<close>.
\<close>

theorem aggregate_correct:
  assumes "delivers I E prev rs" "aggregate_exec prev sel = Inr ex" "agg_items (ex_cols prev) 0 sel = Inr (its, len)"
    "\<forall>s \<in> set sel. agg_ok (ex_cols prev) rs s" "\<forall>it \<in> set its. 0 \<le> cm_len (ag_out it)"
    "sum_list (map (\<lambda>it. cm_len (ag_out it)) its) < 2 ^ 31"
  shows "\<exists>bs. delivers I E ex [concat bs] \<and> list_all2 (agg_is (ex_cols prev) rs) sel bs"
proof -
  let ?cols = "ex_cols prev"
  have items: "list_all2 (item_of ?cols) sel its" by (rule agg_items_found [OF assms(3)])
  have n: "length its = length sel" using list_all2_lengthD [OF items] by simp
  have sels: "map ag_sel its = sel" using items by (intro nth_equalityI) (simp_all add: list_all2_conv_all_nth item_of_def)
  have "\<forall>i < length sel. \<exists>a b. foldE (\<lambda>a r. agg_step ?cols r (sel ! i) a) agg_acc_new rs = Inr a \<and> agg_result (its ! i) a = Inr b \<and>
    length b = nat (cm_len (ag_out (its ! i))) \<and> agg_is ?cols rs (sel ! i) b"
    using agg_column assms(4) items by (auto simp: list_all2_conv_all_nth)
  then obtain fa fb where f: "\<And>i. i < length sel \<Longrightarrow> foldE (\<lambda>a r. agg_step ?cols r (sel ! i) a) agg_acc_new rs = Inr (fa i) \<and>
    agg_result (its ! i) (fa i) = Inr (fb i) \<and> length (fb i) = nat (cm_len (ag_out (its ! i))) \<and> agg_is ?cols rs (sel ! i) (fb i)"
    by metis
  let ?as = "map fa [0..<length sel]" and ?bs = "map fb [0..<length sel]"
  have fold: "foldE (\<lambda>as r. agg_steps ?cols r sel as) (replicate (length sel) agg_acc_new) rs = Inr ?as"
    by (rule agg_fold_all) (use f in \<open>auto simp: list_all2_conv_all_nth\<close>)
  have "list_all2 (\<lambda>(it, a) b. agg_result it a = Inr b \<and> length b = nat (cm_len (ag_out it))) (zip its ?as) ?bs"
    using f n by (auto simp: list_all2_conv_all_nth)
  from agg_results_concat [OF assms(3) _ _ assms(5) this] assms(6) n
  have res: "agg_results its ?as (replicate (nat len) 0) = Inr (concat ?bs)" by simp
  have ex: "ex = aggregate_with prev its len" using assms(2,3) by (simp add: aggregate_exec_def)
  have "delivers I E ex [concat ?bs]"
    unfolding delivers_def
  proof
    fix c0 :: "'a \<times> bool \<times> bytes option"
    obtain c e r where c0: "c0 = (c, e, r)" using prod_cases3 by blast
    have "yields I E ex (c, True, Some (concat ?bs)) []" by (rule ended) (simp add: ex aggregate_with_def)
    then have one: "yields I E ex (c, False, Some (concat ?bs)) [concat ?bs]"
      by (intro tuple) (auto simp: ex aggregate_with_def intro: gives_ret)
    have begin_eq: "ex_begin ex c0 =
       pThen (each_tuple prev (\<lambda>as r. agg_steps ?cols r sel as) (replicate (length sel) agg_acc_new) c) (\<lambda>as.
       pThen (plift (agg_results its as (replicate (nat len) 0))) (\<lambda>r. pdo (ret (c, False, Some r))))"
      by (simp add: ex aggregate_with_def c0 sels n)
    show "gives I E (ex_begin ex c0) (\<lambda>c'. yields I E ex c' [concat ?bs])"
      unfolding begin_eq by (rule gives_then_eq [OF each_tuple_run [OF assms(1) fold]]) (simp add: res one gives_ret)
  qed
  moreover have "list_all2 (agg_is ?cols rs) sel ?bs" using f by (simp add: list_all2_conv_all_nth)
  ultimately show ?thesis by blast
qed

theorem aggregate_correct_witness:
  "\<exists>ex. aggregate_exec (seq_scan ''t'' [] scan_ex_cols)
      [(plain_col ''t'' ''a'')\<lparr>tc_agg := AGG_COUNT\<rparr>, (plain_col ''t'' ''a'')\<lparr>tc_agg := AGG_MAX\<rparr>] = Inr ex \<and>
    delivers (reading [(''t'', rm_ex_file)] rm_ex_pages) (stopped [(''t'', rm_ex_file)] rm_ex_pages) ex
      [le_encode 4 1 @ replicate 8 7]"
proof -
  let ?s = "seq_scan ''t'' [] scan_ex_cols" and ?c = "hd scan_ex_cols"
  let ?sel = "[(plain_col ''t'' ''a'')\<lparr>tc_agg := AGG_COUNT\<rparr>, (plain_col ''t'' ''a'')\<lparr>tc_agg := AGG_MAX\<rparr>]"
  have cols: "ex_cols ?s = scan_ex_cols" by (simp add: seq_scan_def)
  have get: "get_col scan_ex_cols (plain_col ''t'' ''a'') = Inr ?c"
    by (simp add: get_col_def scan_ex_cols_def plain_col_def)
  have plain: "plain_col (tc_tab (plain_col ''t'' ''a'')) (tc_col (plain_col ''t'' ''a'')) = plain_col ''t'' ''a''" by (simp add: plain_col_def)
  obtain its where its: "agg_items (ex_cols ?s) 0 ?sel = Inr (its, 12)" "map (\<lambda>it. cm_len (ag_out it)) its = [4, 8]"
    unfolding cols by (simp add: plain get) (simp add: scan_ex_cols_def add32_exact in_signed_def)
  then obtain ex where ex: "aggregate_exec ?s ?sel = Inr ex" by (simp add: aggregate_exec_def)
  have lens: "\<forall>it \<in> set its. 0 \<le> cm_len (ag_out it)"
  proof
    fix it assume "it \<in> set its"
    then have "cm_len (ag_out it) \<in> set (map (\<lambda>it. cm_len (ag_out it)) its)" by simp
    then show "0 \<le> cm_len (ag_out it)" unfolding its(2) by auto
  qed
  have c: "typed ?c" "nat (cm_len ?c) \<le> length (field ?c (replicate 512 7))" "value_there (cm_type ?c) (cm_len ?c) (field ?c (replicate 512 7))"
    by (simp_all add: typed_def field_def value_there_def scan_ex_cols_def)
  have "\<forall>s \<in> set ?sel. agg_ok (ex_cols ?s) [replicate 512 7] s"
    unfolding cols using c by (auto simp: agg_ok_def plain get)
  from aggregate_correct [OF scan_ex_delivers ex its(1) this lens] its(2) obtain bs where
    bs: "delivers (reading [(''t'', rm_ex_file)] rm_ex_pages) (stopped [(''t'', rm_ex_file)] rm_ex_pages) ex [concat bs]"
      "list_all2 (agg_is scan_ex_cols [replicate 512 7]) ?sel bs" by (auto simp: cols)
  then have "concat bs = le_encode 4 1 @ replicate 8 7"
    by (auto simp: list_all2_Cons1 agg_is_def plain get col_bytes_def) (simp_all add: scan_ex_cols_def)
  with bs(1) ex show ?thesis by metis
qed

end
