(* ===== verification/Txn_Manager.thy ===== *)
theory Txn_Manager
  imports Sm_Manager
begin

text \<open>
  Beginning, committing and rolling back: \<^verbatim>\<open>src/src/transaction/transaction_manager.cpp\<close>. The
  transaction a statement runs in is \<open>sv_txn\<close>; the lock set and the lock table are released together.
  Rollback undoes the write set from its end, on the table file and on every index of the table.
\<close>

section \<open>The manager\<close>

record txn_manager =
  next_txn_id :: int
  next_timestamp :: int
  txn_map :: "int \<rightharpoonup> transaction"

text \<open>A log record of the transaction, chained to the one before it.\<close>

definition log_txn :: "(int \<Rightarrow> log_record) \<Rightarrow> (server, unit) op" where
  "log_txn mk = (\<lambda>sv.
     andThen (on_store (on_log (add_log_to_buffer
         (set_hdr (prev_lsn_update (\<lambda>_. txn_prev_lsn (sv_txn sv))) (mk (txn_id (sv_txn sv)))))))
       (\<lambda>r. modify (sv_txn_update (txn_prev_lsn_update (\<lambda>_. lsn (hdr r))))) sv)"

definition flush_log :: "(server, unit) op" where
  "flush_log = on_store (on_log flush_log_to_disk)"

text \<open>The counters are atomic 64-bit integers; \<open>log\<close> tells whether a log manager was passed.\<close>

definition count64 :: "int \<Rightarrow> int" where
  "count64 n = to_signed 8 ((n + 1) mod 2 ^ 64)"

definition begin_txn :: "transaction option \<Rightarrow> bool \<Rightarrow> (server \<times> txn_manager, unit) op" where
  "begin_txn txn log = (\<lambda>(sv, tm).
     let (t, tm) = (case txn of
           Some t \<Rightarrow> (t, tm)
         | None \<Rightarrow> ((transaction_new (next_txn_id tm))\<lparr>start_ts := next_timestamp tm\<rparr>,
             tm\<lparr>next_txn_id := count64 (next_txn_id tm), next_timestamp := count64 (next_timestamp tm)\<rparr>));
         t = t\<lparr>state_of := DEFAULT\<rparr>;
         (r, sv) = (if log then log_txn BeginLogRecord else ret ()) (sv\<lparr>sv_txn := t\<rparr>)
     in (r, sv, tm\<lparr>txn_map := (txn_map tm)(txn_id t \<mapsto> sv_txn sv)\<rparr>))"

definition release :: "txn_state \<Rightarrow> (server, unit) op" where
  "release st = modify (\<lambda>sv. case release_locks st (sv_txn sv, sv_locks sv) of
     (t, locks) \<Rightarrow> sv\<lparr>sv_txn := t, sv_locks := locks\<rparr>)"

definition commit :: "bool \<Rightarrow> (server, unit) op" where
  "commit log =
     andThen (if log then andThen (log_txn CommitLogRecord) (\<lambda>_. flush_log) else ret ()) (\<lambda>_.
     andThen (release COMMITTED) (\<lambda>_. modify (sv_txn_update (write_set_update (\<lambda>_. [])))))"

section \<open>Rollback\<close>

fun each_index :: "(index_meta \<Rightarrow> (server, unit) pop) \<Rightarrow> index_meta list \<Rightarrow> (server, unit) pop" where
  "each_index f [] = pdo (ret ())"
| "each_index f (im # ims) = pThen (f im) (\<lambda>_. each_index f ims)"

definition unindex :: "string \<Rightarrow> bytes \<Rightarrow> index_meta \<Rightarrow> (server, unit) pop" where
  "unindex t r im = pThen (on_index (index_name t (im_cols im)) (delete_entry (index_key im r))) (\<lambda>_. pdo (ret ()))"

definition reindex :: "string \<Rightarrow> bytes \<Rightarrow> rid \<Rightarrow> index_meta \<Rightarrow> (server, unit) pop" where
  "reindex t r pos im = pThen (on_index (index_name t (im_cols im)) (insert_entry (index_key im r) pos)) (\<lambda>_. pdo (ret ()))"

definition undo_write :: "write_record \<Rightarrow> (server, unit) pop" where
  "undo_write w = (let t = wr_tab w; pos = wr_rid w in
     pThen (pdo (on_table False t (ret ()))) (\<lambda>_. pThen (pdo (from_db (get_table t))) (\<lambda>tab.
       case wr_type w of
         INSERT_TUPLE \<Rightarrow>
           pThen (pdo (on_table False t (get_record pos))) (\<lambda>r.
           pThen (each_index (unindex (tm_name tab) r) (tm_indexes tab)) (\<lambda>_.
           pdo (on_table False t (delete_record pos))))
       | DELETE_TUPLE \<Rightarrow>
           pThen (pdo (on_table False t (insert_record_at pos (wr_rec w)))) (\<lambda>_.
           each_index (reindex (tm_name tab) (wr_rec w) pos) (tm_indexes tab))
       | UPDATE_TUPLE \<Rightarrow>
           pThen (pdo (on_table False t (get_record pos))) (\<lambda>r.
           pThen (each_index (unindex (tm_name tab) r) (tm_indexes tab)) (\<lambda>_.
           pThen (pdo (on_table False t (update_record pos (wr_rec w)))) (\<lambda>_.
           each_index (reindex (tm_name tab) (wr_rec w) pos) (tm_indexes tab)))))))"

text \<open>\<open>ws\<close> is the write set from its end; each record leaves it when it is undone.\<close>

fun undo_writes :: "write_record list \<Rightarrow> (server, unit) pop" where
  "undo_writes [] = pdo (ret ())"
| "undo_writes (w # ws) = pThen (undo_write w) (\<lambda>_.
     pThen (pdo (modify (sv_txn_update (write_set_update butlast)))) (\<lambda>_. undo_writes ws))"

definition abort :: "bool \<Rightarrow> (server, unit) pop" where
  "abort log =
     pThen (pdo (if log then andThen (log_txn AbortLogRecord) (\<lambda>_. flush_log) else ret ())) (\<lambda>_.
     pThen (\<lambda>sv. undo_writes (rev (write_set (sv_txn sv))) sv) (\<lambda>_. pdo (release ABORTED)))"

section \<open>Locks are released\<close>

text \<open>The table grants the transaction nothing that is not in its lock set.\<close>

definition locks_known :: "server \<Rightarrow> bool" where
  "locks_known sv \<longleftrightarrow> table_queues_ok (sv_locks sv) \<and>
     (\<forall>i. holds_lock (sv_locks sv) (txn_id (sv_txn sv)) i \<longrightarrow> i \<in> set (lock_set (sv_txn sv)))"

lemma unlock_writes: "unlock i (txn, tab) = (b, txn', tab') \<Longrightarrow> write_set txn' = write_set txn"
  by (auto simp: unlock_def Let_def split: option.splits if_splits)

lemma unlock_all_writes: "unlock_all is (txn, tab) = (txn', tab') \<Longrightarrow> write_set txn' = write_set txn"
proof (induction "is" arbitrary: txn tab)
  case (Cons i "is")
  obtain b txn1 tab1 where u: "unlock i (txn, tab) = (b, txn1, tab1)" by (cases "unlock i (txn, tab)") auto
  with Cons unlock_writes [OF u] show ?case by simp
qed simp

lemma release_writes: "release_locks st (txn, tab) = (txn', tab') \<Longrightarrow> write_set txn' = write_set txn"
  by (auto simp: release_locks_def split: prod.splits dest!: unlock_all_writes)

lemma release_run:
  assumes "locks_known sv" "release st sv = (r, sv')"
  shows "r = Inr () \<and> (\<forall>i. \<not> holds_lock (sv_locks sv') (txn_id (sv_txn sv)) i) \<and>
    (\<forall>t i. t \<noteq> txn_id (sv_txn sv) \<longrightarrow> holds_lock (sv_locks sv') t i = holds_lock (sv_locks sv) t i) \<and>
    state_of (sv_txn sv') = st \<and> lock_set (sv_txn sv') = [] \<and> txn_id (sv_txn sv') = txn_id (sv_txn sv) \<and> sv_store sv' = sv_store sv"
proof -
  obtain t locks where rl: "release_locks st (sv_txn sv, sv_locks sv) = (t, locks)" by fastforce
  have "table_queues_ok (sv_locks sv)" using assms(1) by (simp add: locks_known_def)
  from release_locks_run [OF this rl] assms rl show ?thesis by (auto simp: release_def run_simps locks_known_def)
qed

lemma log_txn_run:
  assumes "log_inv base n0 fs bs (st_disk (sv_store sv), st_log (sv_store sv))" "log_txn mk sv = (Inr u, sv1)"
    "rec_ok (set_hdr (prev_lsn_update (\<lambda>_. txn_prev_lsn (sv_txn sv))) (mk (txn_id (sv_txn sv))))"
    "global_lsn (st_log (sv_store sv)) < 2 ^ 31 - 1"
  shows "let r = set_hdr (\<lambda>h. h\<lparr>lsn := global_lsn (st_log (sv_store sv)), prev_lsn := txn_prev_lsn (sv_txn sv)\<rparr>) (mk (txn_id (sv_txn sv)))
    in (\<exists>fs' bs'. log_inv base n0 fs' bs' (st_disk (sv_store sv1), st_log (sv_store sv1)) \<and> fs' @ bs' = fs @ bs @ [r]) \<and>
      sv_txn sv1 = (sv_txn sv)\<lparr>txn_prev_lsn := global_lsn (st_log (sv_store sv))\<rparr> \<and> sv_locks sv1 = sv_locks sv"
proof -
  let ?r = "set_hdr (prev_lsn_update (\<lambda>_. txn_prev_lsn (sv_txn sv))) (mk (txn_id (sv_txn sv)))"
  obtain r' d l where a: "add_log_to_buffer ?r (st_disk (sv_store sv), st_log (sv_store sv)) = (Inr r', d, l)"
    and sv1: "sv1 = sv\<lparr>sv_store := (sv_store sv)\<lparr>st_disk := d, st_log := l\<rparr>, sv_txn := (sv_txn sv)\<lparr>txn_prev_lsn := lsn (hdr r')\<rparr>\<rparr>"
    using assms(2) by (auto simp: log_txn_def andThen_eq_Inr on_store_def on_log_def zoom_def run_simps split: prod.splits)
  have run: "r' = set_hdr (\<lambda>h. h\<lparr>lsn := global_lsn (st_log (sv_store sv))\<rparr>) ?r"
    "log_inv base n0 fs (bs @ [r']) (d, l) \<or> log_inv base n0 (fs @ bs) [r'] (d, l)"
    using add_log_run [OF assms(1) a assms(3)] assms(4) by auto
  have "r' = set_hdr (\<lambda>h. h\<lparr>lsn := global_lsn (st_log (sv_store sv)), prev_lsn := txn_prev_lsn (sv_txn sv)\<rparr>) (mk (txn_id (sv_txn sv)))"
    unfolding run(1) by (cases "mk (txn_id (sv_txn sv))") simp_all
  moreover from this have "lsn (hdr r') = global_lsn (st_log (sv_store sv))" by simp
  moreover have "\<exists>fs' bs'. log_inv base n0 fs' bs' (d, l) \<and> fs' @ bs' = fs @ bs @ [r']"
    using run(2) by (metis append.assoc)
  ultimately show ?thesis by (simp add: sv1 Let_def)
qed

lemma flush_log_sv_run:
  assumes "log_inv base n0 fs bs (st_disk (sv_store sv), st_log (sv_store sv))" "flush_log sv = (Inr u, sv1)"
  shows "log_inv base n0 (fs @ bs) [] (st_disk (sv_store sv1), st_log (sv_store sv1)) \<and> sv_txn sv1 = sv_txn sv \<and> sv_locks sv1 = sv_locks sv"
proof -
  obtain d l where f: "flush_log_to_disk (st_disk (sv_store sv), st_log (sv_store sv)) = (Inr (), d, l)"
    and sv1: "sv1 = sv\<lparr>sv_store := (sv_store sv)\<lparr>st_disk := d, st_log := l\<rparr>\<rparr>"
    using assms(2) by (auto simp: flush_log_def on_store_def on_log_def zoom_def split: prod.splits)
  from flush_log_run [OF assms(1) f] show ?thesis by (simp add: sv1)
qed

text \<open>
  Claim C19. Commit is durable and lets go: when \<open>commit\<close> returns, the log file, not only the buffer,
  ends with the commit record of the transaction, after everything logged before it; no lock is granted
  to the transaction any more, the locks of the others are as they were, and its write set is empty.
\<close>

theorem commit_durable:
  assumes "log_inv base n0 fs bs (st_disk (sv_store sv), st_log (sv_store sv))"
    "global_lsn (st_log (sv_store sv)) < 2 ^ 31 - 1" "in_signed 8 (txn_id (sv_txn sv))" "in_signed 4 (txn_prev_lsn (sv_txn sv))"
    "locks_known sv" "commit True sv = (Inr u, sv')"
  shows "files (st_disk (sv_store sv')) LOG_FILE_NAME = Some (base @ concat (map rec_bytes (fs @ bs @
      [set_hdr (\<lambda>h. h\<lparr>lsn := global_lsn (st_log (sv_store sv)), prev_lsn := txn_prev_lsn (sv_txn sv)\<rparr>)
        (CommitLogRecord (txn_id (sv_txn sv)))]))) \<and>
    (\<forall>i. \<not> holds_lock (sv_locks sv') (txn_id (sv_txn sv)) i) \<and>
    {(t, i). t \<noteq> txn_id (sv_txn sv) \<and> holds_lock (sv_locks sv') t i} = {(t, i). t \<noteq> txn_id (sv_txn sv) \<and> holds_lock (sv_locks sv) t i} \<and>
    state_of (sv_txn sv') = COMMITTED \<and> write_set (sv_txn sv') = []"
proof -
  let ?r = "set_hdr (\<lambda>h. h\<lparr>lsn := global_lsn (st_log (sv_store sv)), prev_lsn := txn_prev_lsn (sv_txn sv)\<rparr>)
        (CommitLogRecord (txn_id (sv_txn sv)))"
  have ok: "rec_ok (set_hdr (prev_lsn_update (\<lambda>_. txn_prev_lsn (sv_txn sv))) (CommitLogRecord (txn_id (sv_txn sv))))"
    using new_records_ok(2) [OF assms(3), of "[]" "[]" "[]" "Rid 0 0"] assms(4)
    by (simp add: rec_ok_def CommitLogRecord_def new_hdr_def hdr_fits_def rid_fits_def in_signed_def)
  obtain u1 sv1 u2 sv2 where run: "log_txn CommitLogRecord sv = (Inr u1, sv1)" "flush_log sv1 = (Inr u2, sv2)"
    "andThen (release COMMITTED) (\<lambda>_. modify (sv_txn_update (write_set_update (\<lambda>_. [])))) sv2 = (Inr u, sv')"
    using assms(6) by (auto simp: commit_def andThen_eq_Inr)
  from log_txn_run [OF assms(1) run(1) ok assms(2)] obtain fs' bs' where
    l: "log_inv base n0 fs' bs' (st_disk (sv_store sv1), st_log (sv_store sv1))" "fs' @ bs' = fs @ bs @ [?r]"
    and t1: "sv_txn sv1 = (sv_txn sv)\<lparr>txn_prev_lsn := global_lsn (st_log (sv_store sv))\<rparr>" "sv_locks sv1 = sv_locks sv"
    by (auto simp: Let_def)
  from flush_log_sv_run [OF l(1) run(2)] have
    f: "log_inv base n0 (fs @ bs @ [?r]) [] (st_disk (sv_store sv2), st_log (sv_store sv2))"
    and t2: "sv_txn sv2 = sv_txn sv1" "sv_locks sv2 = sv_locks sv1" unfolding l(2) by simp_all
  have known: "locks_known sv2" using assms(5) by (simp add: locks_known_def t1 t2)
  obtain r3 sv3 where rel: "release COMMITTED sv2 = (r3, sv3)" by fastforce
  note rr = release_run [OF known rel]
  then have "sv' = sv_txn_update (write_set_update (\<lambda>_. [])) sv3" using run(3) rel by (simp add: andThen_def modify_def)
  with rr f show ?thesis by (auto simp: log_inv_def t1 t2)
qed

text \<open>A server whose transaction has done nothing yet, with an empty log.\<close>

definition txn_ex :: server where
  "txn_ex = ddl_ex\<lparr>sv_store := pool_new 1 (fst log_ex) log_manager_new True, sv_txn := transaction_new 1\<rparr>"

lemma log_write_ex: "\<exists>d. write_log bs (fst log_ex) = (Inr (), d)"
  by (auto simp: write_log_def open_log_def log_ex_def disk_new_def andThen_def open_file_def os_open_def is_file_def
      Let_def run_simps)

lemma commit_ex: "\<exists>sv'. commit True txn_ex = (Inr (), sv')"
proof -
  have st: "st_disk (sv_store txn_ex) = fst log_ex" "st_log (sv_store txn_ex) = log_manager_new"
    "txn_id (sv_txn txn_ex) = 1" "txn_prev_lsn (sv_txn txn_ex) = -1"
    by (simp_all add: txn_ex_def pool_new_def transaction_new_def INVALID_LSN_def)
  obtain d where w: "write_log (mread (buffer (snd (append_record (set_hdr (prev_lsn_update (\<lambda>_. -1)) (CommitLogRecord 1)) log_manager_new))) 0
      LOG_HEADER_SIZE) (fst log_ex) = (Inr (), d)" using log_write_ex by blast
  show ?thesis
    using w by (simp add: commit_def log_txn_def flush_log_def on_store_def on_log_def zoom_def andThen_def st
      add_log_to_buffer_def is_full_def append_record_def Let_def log_manager_new_def CommitLogRecord_def new_hdr_def
      LOG_BUFFER_SIZE_def PAGE_SIZE_def log_offsets flush_log_to_disk_def write_out_def modify_def release_def)
qed

theorem commit_durable_witness:
  "\<exists>sv'. commit True txn_ex = (Inr (), sv') \<and> files (st_disk (sv_store sv')) LOG_FILE_NAME =
    Some (rec_bytes (set_hdr (\<lambda>h. h\<lparr>lsn := 0, prev_lsn := -1\<rparr>) (CommitLogRecord 1)))"
proof -
  obtain sv' where run: "commit True txn_ex = (Inr (), sv')" using commit_ex by blast
  have st: "(st_disk (sv_store txn_ex), st_log (sv_store txn_ex)) = log_ex"
    by (simp add: txn_ex_def pool_new_def log_ex_def)
  have inv: "log_inv [] 0 [] [] (st_disk (sv_store txn_ex), st_log (sv_store txn_ex))" unfolding st by (rule log_ex_inv)
  have g: "global_lsn (st_log (sv_store txn_ex)) = 0" "txn_id (sv_txn txn_ex) = 1" "txn_prev_lsn (sv_txn txn_ex) = -1"
    by (simp_all add: txn_ex_def pool_new_def log_manager_new_def transaction_new_def INVALID_LSN_def)
  have known: "locks_known txn_ex"
    by (simp add: locks_known_def table_queues_ok_def holds_lock_def txn_ex_def ddl_ex_def)
  from commit_durable [OF inv _ _ _ known run] run g show ?thesis by (auto simp: in_signed_def)
qed

section \<open>Rollback restores the table\<close>

lemma fetch_handle_file: "fetch_page_handle no (s, fh, t) = (r, s', fh', t') \<Longrightarrow> fh' = fh \<and> t' = t"
  by (auto simp: fetch_page_handle_def split: if_splits sum.splits option.splits prod.splits)

lemma record_sizes:
  "delete_record pos (s, fh, t) = (r, s', fh', t') \<Longrightarrow> record_size (file_hdr fh') = record_size (file_hdr fh)"
  "update_record pos buf (s, fh, t) = (r, s', fh', t') \<Longrightarrow> record_size (file_hdr fh') = record_size (file_hdr fh)"
proof -
  have log: "fh' = fh" if "log_change f mk (s, fh, t) = (x, s', fh', t')" for f mk s fh t x s' fh' t'
    using that by (auto simp: log_change_def split: option.splits sum.splits prod.splits)
  show "delete_record pos (s, fh, t) = (r, s', fh', t') \<Longrightarrow> record_size (file_hdr fh') = record_size (file_hdr fh)"
    by (auto simp: delete_record_def andThen_def unpin_frame_def release_page_handle_def edit_frame_def edit_hdr_def Let_def
        split: sum.splits prod.splits if_splits dest!: fetch_handle_file log)
  show "update_record pos buf (s, fh, t) = (r, s', fh', t') \<Longrightarrow> record_size (file_hdr fh') = record_size (file_hdr fh)"
    by (auto simp: update_record_def andThen_def unpin_frame_def edit_frame_def edit_hdr_def Let_def
        split: sum.splits prod.splits if_splits dest!: fetch_handle_file log)
qed

text \<open>
  \<open>ws\<close> is the write set of changes that lead the table \<open>t\<close>, of records of \<open>n\<close> bytes, from \<open>T\<close> to \<open>T'\<close>:
  insertions at free positions and updates, which keep the old record.
\<close>

inductive wrote :: "nat \<Rightarrow> string \<Rightarrow> (rid \<rightharpoonup> bytes) \<Rightarrow> write_record list \<Rightarrow> (rid \<rightharpoonup> bytes) \<Rightarrow> bool" for n t T where
  nothing: "wrote n t T [] T"
| inserted: "wrote n t T ws T' \<Longrightarrow> T' pos = None \<Longrightarrow>
    wrote n t T (ws @ [\<lparr>wr_type = INSERT_TUPLE, wr_tab = t, wr_rid = pos, wr_rec = []\<rparr>]) (T'(pos \<mapsto> v))"
| updated: "wrote n t T ws T' \<Longrightarrow> T' pos = Some old \<Longrightarrow> length old = n \<Longrightarrow>
    wrote n t T (ws @ [\<lparr>wr_type = UPDATE_TUPLE, wr_tab = t, wr_rid = pos, wr_rec = old\<rparr>]) (T'(pos \<mapsto> v))"

text \<open>The server's table \<open>t\<close>, without indexes, stands for \<open>T\<close>.\<close>

definition stands_for :: "server \<Rightarrow> string \<Rightarrow> nat \<Rightarrow> (rid \<rightharpoonup> bytes) \<Rightarrow> bool" where
  "stands_for sv t n T \<longleftrightarrow> (\<exists>fh st tab. map_of (sv_fhs sv) t = Some fh \<and> rm_rel (sv_store sv, fh, None) st \<and>
     rm_table fh st = T \<and> nat (record_size (file_hdr fh)) = n \<and> get_table t (sv_db sv) = Inr tab \<and> tm_indexes tab = [])"

lemma table_position:
  assumes "rm_rel (s, fh, x) st" "rm_table fh st r \<noteq> None"
  shows "1 \<le> page_no r" "slot_ok (file_hdr fh) (slot_no r)" "rid_fits r"
proof -
  have a: "1 \<le> page_no r" "slot_ok (file_hdr fh) (slot_no r)" "st (PageId (rm_fd fh) (page_no r)) \<noteq> None"
    using assms(2) by (auto simp: rm_table_def split: if_splits option.splits)
  then show "1 \<le> page_no r" "slot_ok (file_hdr fh) (slot_no r)" by blast+
  have "known s st" "layout_ok (file_hdr fh)" using rm_relD [OF assms(1)] by auto
  moreover obtain b where "st (PageId (rm_fd fh) (page_no r)) = Some b" using a(3) by blast
  ultimately have "data_id (st_disk s) (PageId (rm_fd fh) (page_no r))" by (simp add: known_def)
  then have "valid_no (page_no r)" by (simp add: data_id_def)
  moreover have "num_records_per_page (file_hdr fh) * record_size (file_hdr fh) \<le> 4096"
    "1 \<le> record_size (file_hdr fh)" "0 \<le> num_records_per_page (file_hdr fh)"
    using \<open>layout_ok (file_hdr fh)\<close> by (auto simp: layout_ok_def PAGE_SIZE_def)
  then have "num_records_per_page (file_hdr fh) * 1 \<le> 4096"
    by (meson mult_left_mono order_trans)
  ultimately show "rid_fits r" using a by (auto simp: rid_fits_def in_signed_def valid_no_def slot_ok_def)
qed

lemma rm_rel_any: "rm_rel (s, fh, x) st \<Longrightarrow> rm_rel (s, fh, y) st"
  by (simp add: rm_rel_def)

lemma get_record_run:
  assumes "rm_rel (s, fh, t) st" "1 \<le> page_no r" "get_record r (s, fh, t) = (Inr b, s', fh', t')"
  shows "fh' = fh \<and> t' = t \<and> rm_rel (s', fh, t) st"
proof -
  obtain f s1 fh1 t1 where f: "fetch_page_handle (page_no r) (s, fh, t) = (Inr f, s1, fh1, t1)"
    and rest: "(s', fh', t') = unpin_frame f False (s1, fh1, t1)"
    using assms(3) by (auto simp: get_record_def andThen_eq_Inr split: if_splits)
  from fetch_page_handle_run [OF assms(1,2) f] obtain m where
    eq: "fh1 = fh" "t1 = t" and pool: "rm_pool s1 (rm_fd fh) (num_pages (file_hdr fh))"
    and m: "held s1 st (PageId (rm_fd fh) (page_no r)) f m" "clean_ok s1 (PageId (rm_fd fh) (page_no r)) f" by blast
  obtain s2 where "unpin_frame f False (s1, fh, t) = (s2, fh, t)" "known s2 st" "rm_pool s2 (rm_fd fh) (num_pages (file_hdr fh))"
    using unpin_frame_run [where fh = fh and t = t and dirty = False, OF m(1) disjI2 [OF m(2)] pool] by blast
  with rest show ?thesis using assms(1) by (auto simp: eq rm_rel_pool)
qed

text \<open>One call on the table, as the rollback makes it.\<close>

lemma stands_for_call:
  assumes "stands_for sv t n T" "on_table False t m sv = (Inr a, sv')"
    "\<And>s fh st s' fh' x. rm_rel (s, fh, None) st \<Longrightarrow> rm_table fh st = T \<Longrightarrow> nat (record_size (file_hdr fh)) = n \<Longrightarrow>
      m (s, fh, None) = (Inr a, s', fh', x) \<Longrightarrow>
      (\<exists>st'. rm_rel (s', fh', x) st' \<and> rm_table fh' st' = T') \<and> record_size (file_hdr fh') = record_size (file_hdr fh)"
  shows "stands_for sv' t n T'"
proof -
  obtain fh st tab where sf: "map_of (sv_fhs sv) t = Some fh" "rm_rel (sv_store sv, fh, None) st" "rm_table fh st = T"
    "nat (record_size (file_hdr fh)) = n" "get_table t (sv_db sv) = Inr tab" "tm_indexes tab = []"
    using assms(1) by (auto simp: stands_for_def)
  obtain s' fh' x where m: "m (sv_store sv, fh, None) = (Inr a, s', fh', x)"
    and sv': "sv_store sv' = s'" "sv_fhs sv' = AList.update t fh' (sv_fhs sv)" "sv_db sv' = sv_db sv"
    using assms(2) sf(1) by (cases "m (sv_store sv, fh, None)") (auto simp: on_table_def)
  from assms(3) [OF sf(2-4) m] obtain st' where "rm_rel (s', fh', x) st'" "rm_table fh' st' = T'"
    "record_size (file_hdr fh') = record_size (file_hdr fh)" by blast
  with sf rm_rel_any show ?thesis unfolding stands_for_def sv' by (force simp: AList.update_conv')
qed

lemma stands_for_nop: "stands_for sv t n T \<Longrightarrow> on_table False t (ret ()) sv = (Inr a, sv') \<Longrightarrow> stands_for sv' t n T"
  by (erule stands_for_call) (auto simp: ret_def)

lemma stands_for_get:
  assumes "stands_for sv t n T" "on_table False t (get_record pos) sv = (Inr r, sv')" "T pos \<noteq> None"
  shows "stands_for sv' t n T"
proof (rule stands_for_call [OF assms(1,2)])
  fix s fh st s' fh' x
  assume a: "rm_rel (s, fh, None) st" "rm_table fh st = T" "get_record pos (s, fh, None) = (Inr r, s', fh', x)"
  with assms(3) have "1 \<le> page_no pos" using table_position [OF a(1), of pos] by simp
  from get_record_run [OF a(1) this a(3)] a(2)
  show "(\<exists>st'. rm_rel (s', fh', x) st' \<and> rm_table fh' st' = T) \<and> record_size (file_hdr fh') = record_size (file_hdr fh)" by auto
qed

lemma stands_for_delete:
  assumes "stands_for sv t n T" "on_table False t (delete_record pos) sv = (Inr (), sv')" "T pos \<noteq> None"
  shows "stands_for sv' t n (T(pos := None))"
proof (rule stands_for_call [OF assms(1,2)])
  fix s fh st s' fh' x
  assume a: "rm_rel (s, fh, None) st" "rm_table fh st = T" "delete_record pos (s, fh, None) = (Inr (), s', fh', x)"
  with assms(3) have "1 \<le> page_no pos" "slot_ok (file_hdr fh) (slot_no pos)" "rid_fits pos"
    using table_position [OF a(1), of pos] by simp_all
  from delete_record_run [OF a(1) this(1,2) _ this(3) a(3)] record_sizes(1) [OF a(3)] a(2)
  show "(\<exists>st'. rm_rel (s', fh', x) st' \<and> rm_table fh' st' = T(pos := None)) \<and> record_size (file_hdr fh') = record_size (file_hdr fh)"
    by (auto simp: ctx_ok_def)
qed

lemma stands_for_update:
  assumes "stands_for sv t n T" "on_table False t (update_record pos old) sv = (Inr (), sv')" "T pos \<noteq> None" "length old = n"
  shows "stands_for sv' t n (T(pos \<mapsto> old))"
proof (rule stands_for_call [OF assms(1,2)])
  fix s fh st s' fh' x
  assume a: "rm_rel (s, fh, None) st" "rm_table fh st = T" "nat (record_size (file_hdr fh)) = n"
    "update_record pos old (s, fh, None) = (Inr (), s', fh', x)"
  with assms(3) have "1 \<le> page_no pos" "slot_ok (file_hdr fh) (slot_no pos)" "rid_fits pos"
    using table_position [OF a(1), of pos] by simp_all
  from update_record_run [OF a(1) this(1,2) _ this(3) _ a(4)] record_sizes(2) [OF a(4)] a(2,3) assms(4)
  show "(\<exists>st'. rm_rel (s', fh', x) st' \<and> rm_table fh' st' = T(pos \<mapsto> old)) \<and> record_size (file_hdr fh') = record_size (file_hdr fh)"
    by (auto simp: ctx_ok_def)
qed

lemma stands_for_tab: "stands_for sv t n T \<Longrightarrow> \<exists>tab. get_table t (sv_db sv) = Inr tab \<and> tm_indexes tab = []"
  by (auto simp: stands_for_def)

lemma undo_insert:
  assumes "stands_for sv t n (T(pos \<mapsto> v))" "T pos = None"
    "undo_write \<lparr>wr_type = INSERT_TUPLE, wr_tab = t, wr_rid = pos, wr_rec = []\<rparr> sv = Some (Inr (), sv')"
  shows "stands_for sv' t n T"
proof -
  obtain sv1 where 1: "on_table False t (ret ()) sv = (Inr (), sv1)" "stands_for sv1 t n (T(pos \<mapsto> v))"
    using assms(3) stands_for_nop [OF assms(1)] by (auto simp: undo_write_def pThen_eq_Some pdo_def)
  obtain tab where tab: "from_db (get_table t) sv1 = (Inr tab, sv1)" "tm_indexes tab = []"
    using stands_for_tab [OF 1(2)] by (auto simp: from_db_def)
  obtain r sv2 where 2: "on_table False t (get_record pos) sv1 = (Inr r, sv2)"
    "on_table False t (delete_record pos) sv2 = (Inr (), sv')"
    using assms(3) 1(1) tab by (auto simp: undo_write_def pThen_eq_Some pdo_def ret_def)
  have "stands_for sv2 t n (T(pos \<mapsto> v))" by (rule stands_for_get [OF 1(2) 2(1)]) simp
  from stands_for_delete [OF this 2(2)] show ?thesis using assms(2) by (simp add: fun_upd_idem)
qed

lemma undo_update:
  assumes "stands_for sv t n (T(pos \<mapsto> v))" "T pos = Some old" "length old = n"
    "undo_write \<lparr>wr_type = UPDATE_TUPLE, wr_tab = t, wr_rid = pos, wr_rec = old\<rparr> sv = Some (Inr (), sv')"
  shows "stands_for sv' t n T"
proof -
  obtain sv1 where 1: "on_table False t (ret ()) sv = (Inr (), sv1)" "stands_for sv1 t n (T(pos \<mapsto> v))"
    using assms(4) stands_for_nop [OF assms(1)] by (auto simp: undo_write_def pThen_eq_Some pdo_def)
  obtain tab where tab: "from_db (get_table t) sv1 = (Inr tab, sv1)" "tm_indexes tab = []"
    using stands_for_tab [OF 1(2)] by (auto simp: from_db_def)
  obtain r sv2 where 2: "on_table False t (get_record pos) sv1 = (Inr r, sv2)"
    "on_table False t (update_record pos old) sv2 = (Inr (), sv')"
    using assms(4) 1(1) tab by (auto simp: undo_write_def pThen_eq_Some pdo_def ret_def)
  have "stands_for sv2 t n (T(pos \<mapsto> v))" by (rule stands_for_get [OF 1(2) 2(1)]) simp
  from stands_for_update [OF this 2(2) _ assms(3)] show ?thesis using assms(2) by (simp add: fun_upd_idem)
qed

lemma undo_writes_run:
  assumes "wrote n t T ws T'" "stands_for sv t n T'" "undo_writes (rev ws) sv = Some (Inr (), sv')"
  shows "stands_for sv' t n T"
  using assms
proof (induction arbitrary: sv rule: wrote.induct)
  case nothing
  then show ?case by (simp add: pdo_def ret_def)
next
  case (inserted ws T1 pos v)
  then obtain sv1 where u: "undo_write \<lparr>wr_type = INSERT_TUPLE, wr_tab = t, wr_rid = pos, wr_rec = []\<rparr> sv = Some (Inr (), sv1)"
    "undo_writes (rev ws) (sv_txn_update (write_set_update butlast) sv1) = Some (Inr (), sv')"
    by (auto simp: pThen_eq_Some pdo_def run_simps)
  have "stands_for sv1 t n T1" by (rule undo_insert [where v = v and T = T1, OF inserted.prems(1) inserted.hyps(2) u(1)])
  then have "stands_for (sv_txn_update (write_set_update butlast) sv1) t n T1" by (simp add: stands_for_def)
  from inserted.IH [OF this u(2)] show ?case .
next
  case (updated ws T1 pos old v)
  then obtain sv1 where u: "undo_write \<lparr>wr_type = UPDATE_TUPLE, wr_tab = t, wr_rid = pos, wr_rec = old\<rparr> sv = Some (Inr (), sv1)"
    "undo_writes (rev ws) (sv_txn_update (write_set_update butlast) sv1) = Some (Inr (), sv')"
    by (auto simp: pThen_eq_Some pdo_def run_simps)
  have "stands_for sv1 t n T1" by (rule undo_update [where v = v and T = T1, OF updated.prems(1) updated.hyps(2,3) u(1)])
  then have "stands_for (sv_txn_update (write_set_update butlast) sv1) t n T1" by (simp add: stands_for_def)
  from updated.IH [OF this u(2)] show ?case .
qed

lemma log_keeps_rel:
  assumes "known s st" "rm_rel (s, fh, x) st" "known s1 st" "page_table s1 = page_table s" "fd2pageno (st_disk s1) = fd2pageno (st_disk s)"
    "\<forall>pid. data_id (st_disk s) pid \<longrightarrow> data_id (st_disk s1) pid"
  shows "rm_rel (s1, fh, y) st"
proof -
  have "data_id (st_disk s) (PageId (rm_fd fh) 0)" using assms(2) by (auto simp: rm_rel_def data_id_def valid_no_def)
  then have "\<exists>p. fd2path (st_disk s1) (rm_fd fh) = Some p \<and> p \<noteq> LOG_FILE_NAME"
    using assms(6) data_file [of "st_disk s1" "rm_fd fh" 0] by blast
  with assms(2-5) show ?thesis by (auto simp: rm_rel_def)
qed

lemma abort_log_run:
  assumes "stands_for sv t n T" "andThen (log_txn AbortLogRecord) (\<lambda>_. flush_log) sv = (Inr u, sv1)"
    "in_signed 8 (txn_id (sv_txn sv))" "in_signed 4 (txn_prev_lsn (sv_txn sv))" "global_lsn (st_log (sv_store sv)) < 2 ^ 31 - 1"
  shows "stands_for sv1 t n T \<and> write_set (sv_txn sv1) = write_set (sv_txn sv) \<and> txn_id (sv_txn sv1) = txn_id (sv_txn sv) \<and>
    lock_set (sv_txn sv1) = lock_set (sv_txn sv) \<and> sv_locks sv1 = sv_locks sv"
proof -
  let ?r = "set_hdr (prev_lsn_update (\<lambda>_. txn_prev_lsn (sv_txn sv))) (AbortLogRecord (txn_id (sv_txn sv)))"
  obtain fh st tab where sf: "map_of (sv_fhs sv) t = Some fh" "rm_rel (sv_store sv, fh, None) st" "rm_table fh st = T"
    "nat (record_size (file_hdr fh)) = n" "get_table t (sv_db sv) = Inr tab" "tm_indexes tab = []"
    using assms(1) by (auto simp: stands_for_def)
  obtain r' s1 w s2 where l: "on_log (add_log_to_buffer ?r) (sv_store sv) = (Inr r', s1)"
    and f: "on_log flush_log_to_disk s1 = (Inr w, s2)"
    and sv1: "sv1 = sv\<lparr>sv_txn := (sv_txn sv)\<lparr>txn_prev_lsn := lsn (hdr r')\<rparr>, sv_store := s2\<rparr>"
  proof -
    obtain u1 sv0 where 1: "log_txn AbortLogRecord sv = (Inr u1, sv0)" "flush_log sv0 = (Inr u, sv1)"
      using assms(2) by (auto simp: andThen_eq_Inr)
    obtain r' s1 where l: "on_log (add_log_to_buffer ?r) (sv_store sv) = (Inr r', s1)"
      "sv0 = sv\<lparr>sv_store := s1, sv_txn := (sv_txn sv)\<lparr>txn_prev_lsn := lsn (hdr r')\<rparr>\<rparr>"
      using 1(1) by (auto simp: log_txn_def andThen_def on_store_def zoom_def run_simps split: prod.splits sum.splits)
    obtain s2 where "on_log flush_log_to_disk s1 = (Inr u, s2)" "sv1 = sv0\<lparr>sv_store := s2\<rparr>"
      using 1(2) by (auto simp: flush_log_def on_store_def zoom_def l(2) split: prod.splits)
    with l show thesis by (intro that) simp_all
  qed
  have ok: "rec_ok ?r"
    using new_records_ok(3) [OF assms(3), of "[]" "[]" "[]" "Rid 0 0"] assms(4)
    by (intro rec_ok_prev) (simp_all add: rid_fits_def in_signed_def)
  note k = rm_relD(1) [OF sf(2)]
  note k1 = log_known [OF k l ok assms(5)]
  note k2 = flush_known [OF k1 [THEN conjunct1] f]
  have "rm_rel (s2, fh, None) st" by (rule log_keeps_rel [OF k sf(2)]) (use k1 k2 in auto)
  with sf show ?thesis by (auto simp: stands_for_def sv1)
qed

text \<open>What rollback leaves alone: the transaction but for its write set, and the lock table.\<close>

definition txn_kept :: "server \<Rightarrow> server \<Rightarrow> bool" where
  "txn_kept sv sv' \<longleftrightarrow> txn_id (sv_txn sv') = txn_id (sv_txn sv) \<and> lock_set (sv_txn sv') = lock_set (sv_txn sv) \<and>
     sv_locks sv' = sv_locks sv"

definition keeps :: "(server, 'a) pop \<Rightarrow> bool" where
  "keeps m \<longleftrightarrow> (\<forall>sv r sv'. m sv = Some (r, sv') \<longrightarrow> txn_kept sv sv' \<and> write_set (sv_txn sv') = write_set (sv_txn sv))"

lemma keepsD: "keeps m \<Longrightarrow> m sv = Some (r, sv') \<Longrightarrow> txn_kept sv sv' \<and> write_set (sv_txn sv') = write_set (sv_txn sv)"
  by (simp add: keeps_def)

lemma keeps_then: "keeps m \<Longrightarrow> (\<And>a. keeps (k a)) \<Longrightarrow> keeps (pThen m k)"
  unfolding keeps_def txn_kept_def pThen_eq_Some by metis

lemma keeps_ret: "keeps (pdo (ret a))"
  by (simp add: keeps_def pdo_def ret_def txn_kept_def)

lemma keeps_db: "keeps (pdo (from_db g))"
  by (simp add: keeps_def pdo_def from_db_def txn_kept_def)

lemma keeps_index: "keeps (on_index name m)"
  by (auto simp: keeps_def on_index_def txn_kept_def split: option.splits)

lemma unlogged:
  "get_record pos (s, fh, None) = (r, s', fh', x) \<Longrightarrow> x = None"
  "delete_record pos (s, fh, None) = (r', s', fh', x) \<Longrightarrow> x = None"
  "update_record pos b (s, fh, None) = (r', s', fh', x) \<Longrightarrow> x = None"
  "insert_record_at pos b (s, fh, None) = (r', s', fh', x) \<Longrightarrow> x = None"
  by (auto simp: get_record_def delete_record_def update_record_def insert_record_at_def andThen_def unpin_frame_def
      release_page_handle_def edit_frame_def edit_hdr_def log_change_def Let_def
      split: sum.splits prod.splits if_splits dest!: fetch_handle_file)

lemma keeps_table:
  "keeps (pdo (on_table False t (ret ())))" "keeps (pdo (on_table False t (get_record pos)))"
  "keeps (pdo (on_table False t (delete_record pos)))" "keeps (pdo (on_table False t (update_record pos b)))"
  "keeps (pdo (on_table False t (insert_record_at pos b)))"
  by (auto simp: keeps_def pdo_def on_table_def txn_kept_def ret_def split: option.splits prod.splits dest!: unlogged)

lemma keeps_each: "(\<And>im. keeps (f im)) \<Longrightarrow> keeps (each_index f ims)"
  by (induction ims) (auto intro: keeps_then keeps_ret)

lemmas keeps_intros = keeps_then keeps_ret keeps_db keeps_index keeps_table keeps_each

lemma keeps_undo: "keeps (undo_write w)"
  unfolding undo_write_def Let_def unindex_def reindex_def
  by (intro keeps_intros, cases "wr_type w") (auto intro!: keeps_intros)

lemma undo_writes_kept:
  "undo_writes ws sv = Some (Inr (), sv') \<Longrightarrow> write_set (sv_txn sv) = rev ws \<Longrightarrow> txn_kept sv sv' \<and> write_set (sv_txn sv') = []"
proof (induction ws arbitrary: sv)
  case Nil
  then show ?case by (simp add: pdo_def ret_def txn_kept_def)
next
  case (Cons w ws)
  then obtain sv1 where u: "undo_write w sv = Some (Inr (), sv1)"
    "undo_writes ws (sv_txn_update (write_set_update butlast) sv1) = Some (Inr (), sv')"
    by (auto simp: pThen_eq_Some pdo_def run_simps)
  from keepsD [OF keeps_undo u(1)] Cons.prems(2) Cons.IH [OF u(2)] show ?case by (auto simp: txn_kept_def butlast_append)
qed

lemma abort_run:
  assumes "stands_for sv t n T'" "wrote n t T (write_set (sv_txn sv)) T'" "locks_known sv"
    "in_signed 8 (txn_id (sv_txn sv))" "in_signed 4 (txn_prev_lsn (sv_txn sv))" "global_lsn (st_log (sv_store sv)) < 2 ^ 31 - 1"
    "abort True sv = Some (Inr (), sv')"
  shows "stands_for sv' t n T \<and> write_set (sv_txn sv') = [] \<and> state_of (sv_txn sv') = ABORTED \<and>
    (\<forall>i. \<not> holds_lock (sv_locks sv') (txn_id (sv_txn sv)) i)"
proof -
  obtain sv1 sv2 where run: "andThen (log_txn AbortLogRecord) (\<lambda>_. flush_log) sv = (Inr (), sv1)"
    "undo_writes (rev (write_set (sv_txn sv1))) sv1 = Some (Inr (), sv2)" "release ABORTED sv2 = (Inr (), sv')"
    using assms(7) by (auto simp: abort_def pThen_eq_Some pdo_def)
  note l = abort_log_run [OF assms(1) run(1) assms(4-6)]
  have w: "wrote n t T (write_set (sv_txn sv1)) T'" using l assms(2) by simp
  have sf: "stands_for sv2 t n T" using undo_writes_run [OF w _ run(2)] l by blast
  have k: "txn_kept sv1 sv2 \<and> write_set (sv_txn sv2) = []" using undo_writes_kept [OF run(2)] by simp
  have known: "locks_known sv2" using assms(3) l k by (simp add: locks_known_def txn_kept_def)
  note r = release_run [OF known run(3)]
  have "sv_fhs sv' = sv_fhs sv2" "sv_db sv' = sv_db sv2" "write_set (sv_txn sv') = write_set (sv_txn sv2)"
    using run(3) release_writes by (auto simp: release_def run_simps split: prod.splits)
  with r sf k l show ?thesis by (auto simp: stands_for_def txn_kept_def)
qed

text \<open>
  Abort undoes the transaction: if its write set records, in order, the insertions and updates
  that led an unindexed table from \<open>T\<close> to what it is now, then after \<open>abort\<close> the table is \<open>T\<close> again,
  the write set is empty, and no lock is granted to the transaction any more.
\<close>

theorem abort_restores:
  assumes "stands_for sv t n T'" "wrote n t T (write_set (sv_txn sv)) T'" "locks_known sv"
    "in_signed 8 (txn_id (sv_txn sv))" "in_signed 4 (txn_prev_lsn (sv_txn sv))" "global_lsn (st_log (sv_store sv)) < 2 ^ 31 - 1"
    "abort True sv = Some (Inr (), sv')"
  shows "stands_for sv' t n T \<and> write_set (sv_txn sv') = [] \<and> state_of (sv_txn sv') = ABORTED \<and>
    (\<forall>i. \<not> holds_lock (sv_locks sv') (txn_id (sv_txn sv)) i)"
  by (rule abort_run [OF assms])

text \<open>The page of \<open>rm_ex\<close> is cached in the only frame.\<close>

definition cached :: "mem \<Rightarrow> storage \<Rightarrow> bool" where
  "cached m s \<longleftrightarrow> page_table s (PageId 3 1) = Some 0 \<and> (\<exists>g. pages s = [g] \<and> pg_data g = m \<and> pg_id g = PageId 3 1)"

lemma cached_handle:
  assumes "cached m s"
  shows "\<exists>s'. cached m s' \<and> frame_mem s' 0 = m \<and> fetch_page_handle 1 (s, rm_ex_file, t) = (Inr 0, s', rm_ex_file, t)"
  using assms by (auto simp: cached_def fetch_page_handle_def rm_ex_hdr fetch_page_def pin_frame_pages frame_mem_def)

lemma cached_unpin:
  assumes "cached m s"
  shows "\<exists>s'. cached m s' \<and> unpin_frame 0 d (s, fh, t) = (s', fh, t)"
  using assms by (auto simp: cached_def unpin_frame_def unpin_page_def frame_id_def set_frame_def mark_dirty_def Let_def)

lemma cached_get:
  assumes "cached rm_ex_page s"
  shows "\<exists>b s'. get_record (Rid 1 0) (s, rm_ex_file, None) = (Inr b, s', rm_ex_file, None) \<and> cached rm_ex_page s'"
proof -
  obtain s1 where 1: "cached rm_ex_page s1" "frame_mem s1 0 = rm_ex_page"
    "fetch_page_handle 1 (s, rm_ex_file, None) = (Inr 0, s1, rm_ex_file, None)" using cached_handle [OF assms] by blast
  obtain s2 where "cached rm_ex_page s2" "unpin_frame 0 False (s1, rm_ex_file, None) = (s2, rm_ex_file, None)"
    using cached_unpin [OF 1(1)] by blast
  with 1 rm_ex_mem(2) show ?thesis by (simp add: get_record_def andThen_def)
qed

lemma cached_delete:
  assumes "cached rm_ex_page s"
  shows "\<exists>s' fh. delete_record (Rid 1 0) (s, rm_ex_file, None) = (Inr (), s', fh, None)"
proof -
  obtain s1 where 1: "cached rm_ex_page s1" "frame_mem s1 0 = rm_ex_page"
    "fetch_page_handle 1 (s, rm_ex_file, None) = (Inr 0, s1, rm_ex_file, None)" using cached_handle [OF assms] by blast
  with rm_ex_mem(2) show ?thesis
    by (auto simp: delete_record_def andThen_def log_change_none Let_def unpin_frame_def release_page_handle_def
        edit_frame_def edit_hdr_def)
qed

lemma rm_ex_cached: "cached rm_ex_page rm_ex_pool"
  by (simp add: cached_def rm_ex_pool_def one_page_pool_def)

definition abort_ex :: server where
  "abort_ex = ddl_ex\<lparr>sv_store := rm_ex_pool, sv_fhs := [(''t'', rm_ex_file)],
     sv_txn := (transaction_new 1)\<lparr>write_set := [\<lparr>wr_type = INSERT_TUPLE, wr_tab = ''t'', wr_rid = Rid 1 0, wr_rec = []\<rparr>]\<rparr>\<rparr>"

lemma abort_ex_stands: "stands_for abort_ex ''t'' 512 (Map.empty(Rid 1 0 \<mapsto> replicate 512 7))"
proof -
  have "rm_table rm_ex_file rm_ex_pages = Map.empty(Rid 1 0 \<mapsto> replicate 512 7)" by (simp add: fun_eq_iff rm_ex_table)
  with rm_ex_rel [of None] show ?thesis
    by (auto simp: stands_for_def abort_ex_def ddl_ex_def get_table_def rm_ex_hdr)
qed

lemma pool_write_log: "\<exists>d'. write_log bs (pool_disk\<lparr>fd2pageno := n\<rparr>) = (Inr (), d')"
  by (auto simp: write_log_def open_log_def pool_disk_def disk_new_def andThen_def open_file_def os_open_def is_file_def
      Let_def run_simps LOG_FILE_NAME_def lowest_fd_def upt_conv_Cons)

lemma abort_ex_log: "\<exists>sv1. andThen (log_txn AbortLogRecord) (\<lambda>_. flush_log) abort_ex = (Inr (), sv1) \<and>
    cached rm_ex_page (sv_store sv1) \<and> sv_fhs sv1 = sv_fhs abort_ex \<and> sv_db sv1 = sv_db abort_ex \<and>
    write_set (sv_txn sv1) = write_set (sv_txn abort_ex)"
proof -
  have st: "st_disk rm_ex_pool = pool_disk\<lparr>fd2pageno := (\<lambda>_. 2)\<rparr>" "st_log rm_ex_pool = log_manager_new"
    "txn_id (sv_txn abort_ex) = 1" "txn_prev_lsn (sv_txn abort_ex) = -1" "sv_store abort_ex = rm_ex_pool"
    by (simp_all add: abort_ex_def rm_ex_pool_def one_page_pool_def pool_ex_def pool_new_def transaction_new_def INVALID_LSN_def)
  obtain d where w: "write_log (mread (buffer (snd (append_record (set_hdr (prev_lsn_update (\<lambda>_. -1)) (AbortLogRecord 1)) log_manager_new))) 0
      LOG_HEADER_SIZE) (pool_disk\<lparr>fd2pageno := (\<lambda>_. 2)\<rparr>) = (Inr (), d)" using pool_write_log by blast
  show ?thesis
    using w rm_ex_cached by (simp add: log_txn_def flush_log_def on_store_def on_log_def zoom_def andThen_def st
      add_log_to_buffer_def is_full_def append_record_def Let_def log_manager_new_def AbortLogRecord_def new_hdr_def
      LOG_BUFFER_SIZE_def PAGE_SIZE_def log_offsets flush_log_to_disk_def write_out_def modify_def cached_def)
qed

lemma undo_ex:
  assumes "cached rm_ex_page (sv_store sv)" "map_of (sv_fhs sv) ''t'' = Some rm_ex_file" "sv_db sv = sv_db ddl_ex"
  shows "\<exists>sv'. undo_writes [\<lparr>wr_type = INSERT_TUPLE, wr_tab = ''t'', wr_rid = Rid 1 0, wr_rec = []\<rparr>] sv = Some (Inr (), sv')"
proof -
  obtain b s' where g: "get_record (Rid 1 0) (sv_store sv, rm_ex_file, None) = (Inr b, s', rm_ex_file, None)" "cached rm_ex_page s'"
    using cached_get [OF assms(1)] by blast
  obtain s2 fh where "delete_record (Rid 1 0) (s', rm_ex_file, None) = (Inr (), s2, fh, None)"
    using cached_delete [OF g(2)] by blast
  with g assms(2,3) show ?thesis
    by (simp add: undo_write_def pdo_def pThen_def on_table_def from_db_def get_table_def ret_def ddl_ex_def
        AList.update_conv' run_simps Let_def)
qed

theorem abort_restores_witness:
  "\<exists>sv'. abort True abort_ex = Some (Inr (), sv') \<and> stands_for sv' ''t'' 512 Map.empty \<and> write_set (sv_txn sv') = []"
proof -
  let ?w = "\<lparr>wr_type = INSERT_TUPLE, wr_tab = ''t'', wr_rid = Rid 1 0, wr_rec = []\<rparr>"
  have ws: "write_set (sv_txn abort_ex) = [?w]" by (simp add: abort_ex_def)
  obtain sv1 where log: "andThen (log_txn AbortLogRecord) (\<lambda>_. flush_log) abort_ex = (Inr (), sv1)" "cached rm_ex_page (sv_store sv1)"
    "sv_fhs sv1 = [(''t'', rm_ex_file)]" "sv_db sv1 = sv_db ddl_ex" "write_set (sv_txn sv1) = [?w]"
    using abort_ex_log ws by (auto simp: abort_ex_def)
  then obtain sv2 where undo: "undo_writes [?w] sv1 = Some (Inr (), sv2)" using undo_ex [of sv1] by auto
  obtain sv' where run: "abort True abort_ex = Some (Inr (), sv')"
    using undo by (auto simp: abort_def pdo_def pThen_def log release_def modify_def ret_def simp del: undo_writes.simps)
  have w: "wrote 512 ''t'' Map.empty (write_set (sv_txn abort_ex)) (Map.empty(Rid 1 0 \<mapsto> replicate 512 7))"
    unfolding ws using wrote.inserted [OF wrote.nothing] by force
  have known: "locks_known abort_ex" by (simp add: locks_known_def table_queues_ok_def holds_lock_def abort_ex_def ddl_ex_def)
  have "in_signed 8 (txn_id (sv_txn abort_ex))" "in_signed 4 (txn_prev_lsn (sv_txn abort_ex))"
    "global_lsn (st_log (sv_store abort_ex)) < 2 ^ 31 - 1"
    by (simp_all add: abort_ex_def transaction_new_def INVALID_LSN_def in_signed_def rm_ex_pool_def one_page_pool_def
        pool_ex_def pool_new_def log_manager_new_def)
  from abort_restores [OF abort_ex_stands w known this run] run show ?thesis by blast
qed

end
