(* ===== verification/Dml.thy ===== *)
theory Dml
  imports Executors Txn_Manager
begin

text \<open>
  The statements that change a table: \<^verbatim>\<open>executor_insert.h\<close>, \<^verbatim>\<open>executor_delete.h\<close>, \<^verbatim>\<open>executor_update.h\<close>.
  Each is a constructor and one call of \<^verbatim>\<open>Next\<close>. Every change of a row is logged by the file layer, and
  recorded in the write set of the transaction for rollback.
\<close>

section \<open>Shared steps\<close>

definition lock_table_exclusive :: "string \<Rightarrow> (server, unit) op" where
  "lock_table_exclusive t = andThen (table_fd t) (\<lambda>fd. andThen (on_locks (lock_exclusive_on_table fd)) (\<lambda>_. ret ()))"

definition append_write_record :: "write_record \<Rightarrow> (server, unit) op" where
  "append_write_record w = modify (sv_txn_update (write_set_update (\<lambda>ws. ws @ [w])))"

definition duplicate :: "string \<Rightarrow> rmdb_error" where
  "duplicate t = RMDBError (''duplicate value violates unique index on '' @ t)"

definition dml_new :: "string \<Rightarrow> (server, tab_meta) op" where
  "dml_new t = andThen (from_db (get_table t)) (\<lambda>tab. andThen (table_fd t) (\<lambda>_. ret tab))"

section \<open>Insert\<close>

text \<open>The loop that fills the record buffer, converting each value to the type of its column.\<close>

definition fit_value :: "col_meta \<Rightarrow> value_rec \<Rightarrow> rmdb_error + value_rec" where
  "fit_value c v = (if cm_type c = val_type (val_of v) then Inr v
     else case cast_to v (cm_type c) of
       None \<Rightarrow> Inl (IncompatibleTypeError (coltype2str (cm_type c)) (coltype2str (val_type (val_of v))))
     | Some v \<Rightarrow> Inr v)"

fun encode_row :: "col_meta list \<Rightarrow> value_rec list \<Rightarrow> bytes \<Rightarrow> rmdb_error + bytes" where
  "encode_row (c # cs) (v # vs) r =
     eThen (fit_value c v) (\<lambda>v. eThen (init_raw v (cm_len c)) (\<lambda>v.
     encode_row cs vs (patch (cm_offset c) (take (nat (cm_len c)) (the (raw v))) r)))"
| "encode_row _ _ r = Inr r"

definition insert_new :: "string \<Rightarrow> value_rec list \<Rightarrow> (server, tab_meta) op" where
  "insert_new t vals = andThen (from_db (get_table t)) (\<lambda>tab.
     if length vals \<noteq> length (tm_cols tab) then throw InvalidValueCountError
     else andThen (table_fd t) (\<lambda>_. ret tab))"

definition check_unique :: "string \<Rightarrow> bytes \<Rightarrow> index_meta \<Rightarrow> (server, unit) pop" where
  "check_unique t r im = pThen (on_index (index_name t (im_cols im)) (get_value (index_key im r))) (\<lambda>dup.
     pdo (if dup = None then ret () else throw (duplicate t)))"

definition insert_next :: "string \<Rightarrow> tab_meta \<Rightarrow> value_rec list \<Rightarrow> (server, rid) pop" where
  "insert_next t tab vals =
     pThen (pdo (lock_table_exclusive t)) (\<lambda>_.
     pThen (pdo (on_table False t (reads (\<lambda>(s, fh, x). record_size (file_hdr fh))))) (\<lambda>n.
     pThen (plift (encode_row (tm_cols tab) vals (replicate (nat n) 0))) (\<lambda>row.
     pThen (each_index (check_unique t row) (tm_indexes tab)) (\<lambda>_.
     pThen (pdo (on_table True t (insert_record row))) (\<lambda>pos.
     pThen (pdo (append_write_record \<lparr>wr_type = INSERT_TUPLE, wr_tab = t, wr_rid = pos, wr_rec = []\<rparr>)) (\<lambda>_.
     pThen (each_index (reindex t row pos) (tm_indexes tab)) (\<lambda>_.
     pdo (ret pos))))))))"

definition insert_exec :: "string \<Rightarrow> value_rec list \<Rightarrow> (server, rid) pop" where
  "insert_exec t vals = pThen (pdo (insert_new t vals)) (\<lambda>tab. insert_next t tab vals)"

section \<open>Delete\<close>

definition delete_row :: "string \<Rightarrow> tab_meta \<Rightarrow> rid \<Rightarrow> (server, unit) pop" where
  "delete_row t tab pos =
     pThen (pdo (on_table False t (get_record pos))) (\<lambda>r.
     pThen (pdo (append_write_record \<lparr>wr_type = DELETE_TUPLE, wr_tab = t, wr_rid = pos, wr_rec = r\<rparr>)) (\<lambda>_.
     pThen (each_index (unindex t r) (tm_indexes tab)) (\<lambda>_.
     pdo (on_table True t (delete_record pos)))))"

fun each_row :: "(rid \<Rightarrow> (server, unit) pop) \<Rightarrow> rid list \<Rightarrow> (server, unit) pop" where
  "each_row f [] = pdo (ret ())"
| "each_row f (p # ps) = pThen (f p) (\<lambda>_. each_row f ps)"

definition delete_exec :: "string \<Rightarrow> rid list \<Rightarrow> (server, unit) pop" where
  "delete_exec t rids = pThen (pdo (dml_new t)) (\<lambda>tab. pThen (pdo (lock_table_exclusive t)) (\<lambda>_.
     each_row (delete_row t tab) rids))"

section \<open>Update\<close>

text \<open>The right sides as bytes; a value that has its bytes already keeps them.\<close>

fun prepare_sets :: "tab_meta \<Rightarrow> set_clause list \<Rightarrow> rmdb_error + (col_meta \<times> bytes) list" where
  "prepare_sets tab [] = Inr []"
| "prepare_sets tab (s # ss) =
     eThen (tab_get_col (tc_col (sc_lhs s)) tab) (\<lambda>c. eThen (fit_value c (sc_rhs s)) (\<lambda>v.
     eThen (if raw v = None then init_raw v (cm_len c) else Inr v) (\<lambda>v.
     eThen (prepare_sets tab ss) (\<lambda>cs. Inr ((c, the (raw v)) # cs)))))"

definition apply_sets :: "(col_meta \<times> bytes) list \<Rightarrow> bytes \<Rightarrow> bytes" where
  "apply_sets sets r = fold (\<lambda>(c, b). patch (cm_offset c) (take (nat (cm_len c)) b)) sets r"

text \<open>The check of one index: \<open>seen\<close> are the new keys of the rows before, \<open>rids\<close> all the rows.\<close>

fun check_keys :: "string \<Rightarrow> (col_meta \<times> bytes) list \<Rightarrow> index_meta \<Rightarrow> rid list \<Rightarrow> bytes set \<Rightarrow> rid list \<Rightarrow> (server, unit) pop" where
  "check_keys t sets im rids seen [] = pdo (ret ())"
| "check_keys t sets im rids seen (p # ps) =
     pThen (pdo (on_table False t (get_record p))) (\<lambda>r s.
       let key = index_key im (apply_sets sets r) in
       if key \<in> seen then Some (Inl (duplicate t), s)
       else pThen (on_index (index_name t (im_cols im)) (get_value key)) (\<lambda>found s.
         if found \<noteq> None \<and> the found \<notin> set rids then Some (Inl (duplicate t), s)
         else check_keys t sets im rids (insert key seen) ps s) s)"

definition update_row :: "string \<Rightarrow> tab_meta \<Rightarrow> (col_meta \<times> bytes) list \<Rightarrow> rid \<Rightarrow> (server, unit) pop" where
  "update_row t tab sets pos =
     pThen (pdo (on_table False t (get_record pos))) (\<lambda>r.
     pThen (pdo (append_write_record \<lparr>wr_type = UPDATE_TUPLE, wr_tab = t, wr_rid = pos, wr_rec = r\<rparr>)) (\<lambda>_.
     pThen (each_index (unindex t r) (tm_indexes tab)) (\<lambda>_.
     let r' = apply_sets sets r in
     pThen (pdo (on_table True t (update_record pos r'))) (\<lambda>_.
     each_index (reindex t r' pos) (tm_indexes tab)))))"

definition update_exec :: "string \<Rightarrow> set_clause list \<Rightarrow> rid list \<Rightarrow> (server, unit) pop" where
  "update_exec t clauses rids =
     pThen (pdo (dml_new t)) (\<lambda>tab. pThen (pdo (lock_table_exclusive t)) (\<lambda>_.
     pThen (plift (prepare_sets tab clauses)) (\<lambda>sets.
     pThen (each_index (\<lambda>im. check_keys t sets im rids {} rids) (tm_indexes tab)) (\<lambda>_.
     each_row (update_row t tab sets) rids))))"

section \<open>Rows of a table without indexes\<close>

text \<open>
  The table \<open>t\<close> has no index, stands for \<open>T\<close>, has rows of \<open>n\<close> bytes, and \<open>k\<close> more changes can be
  logged and placed before a number of the source overflows.
\<close>

definition ready :: "string \<Rightarrow> nat \<Rightarrow> nat \<Rightarrow> (rid \<rightharpoonup> bytes) \<Rightarrow> server \<Rightarrow> bool" where
  "ready t n k T sv \<longleftrightarrow> (\<exists>fh st tab. map_of (sv_fhs sv) t = Some fh \<and> rm_rel (sv_store sv, fh, None) st \<and>
     rm_table fh st = T \<and> nat (record_size (file_hdr fh)) = n \<and> get_table t (sv_db sv) = Inr tab \<and> tm_indexes tab = [] \<and>
     num_pages (file_hdr fh) + int k < 2 ^ 19 \<and> length (rm_tab_name fh) < 2 ^ 30) \<and>
   in_signed 8 (txn_id (sv_txn sv)) \<and> in_signed 4 (txn_prev_lsn (sv_txn sv)) \<and>
   0 \<le> global_lsn (st_log (sv_store sv)) \<and> global_lsn (st_log (sv_store sv)) + int k < 2 ^ 31"

text \<open>What the calls on the table file leave alone.\<close>

definition quiet :: "server \<Rightarrow> server \<Rightarrow> bool" where
  "quiet sv sv' \<longleftrightarrow> txn_kept sv sv' \<and> write_set (sv_txn sv') = write_set (sv_txn sv) \<and> sv_db sv' = sv_db sv"

lemma quiet_refl [simp]: "quiet sv sv"
  by (simp add: quiet_def txn_kept_def)

lemma quiet_trans [trans]: "quiet a b \<Longrightarrow> quiet b c \<Longrightarrow> quiet a c"
  by (simp add: quiet_def txn_kept_def)

lemma ready_stands: "ready t n k T sv \<Longrightarrow> stands_for sv t n T"
  by (auto simp: ready_def stands_for_def)

lemma ready_less: "ready t n k T sv \<Longrightarrow> j \<le> k \<Longrightarrow> ready t n j T sv"
  unfolding ready_def by fastforce

lemma ready_tab: "ready t n k T sv \<Longrightarrow> get_table t (sv_db sv) = Inr tab \<Longrightarrow> tm_indexes tab = []"
  by (auto simp: ready_def)

lemma ready_length: "ready t n k T sv \<Longrightarrow> T pos = Some b \<Longrightarrow> length b = n"
  by (auto simp: ready_def rm_table_def page_rec_def slot_bytes_def split: if_splits option.splits)

text \<open>One logged change of the table file.\<close>

lemma change_run:
  assumes "ready t n (Suc k) T sv" "on_table True t m sv = (Inr a, sv')"
    "\<And>s fh st x s' fh' x'. rm_rel (s, fh, Some x) st \<Longrightarrow> rm_table fh st = T \<Longrightarrow> nat (record_size (file_hdr fh)) = n \<Longrightarrow>
      num_pages (file_hdr fh) < 2 ^ 19 - 1 \<Longrightarrow> ctx_ok (s, fh, Some x) \<Longrightarrow> m (s, fh, Some x) = (Inr a, s', fh', x') \<Longrightarrow>
      (\<exists>st'. rm_rel (s', fh', x') st' \<and> rm_table fh' st' = T') \<and> logged_once s (Some x) s' x' \<and> same_layout fh fh'"
  shows "ready t n k T' sv' \<and> quiet sv sv'"
proof -
  obtain fh st tab where r: "map_of (sv_fhs sv) t = Some fh" "rm_rel (sv_store sv, fh, None) st" "rm_table fh st = T"
    "nat (record_size (file_hdr fh)) = n" "get_table t (sv_db sv) = Inr tab" "tm_indexes tab = []"
    "num_pages (file_hdr fh) + int (Suc k) < 2 ^ 19" "length (rm_tab_name fh) < 2 ^ 30"
    and c: "in_signed 8 (txn_id (sv_txn sv))" "in_signed 4 (txn_prev_lsn (sv_txn sv))"
      "0 \<le> global_lsn (st_log (sv_store sv))" "global_lsn (st_log (sv_store sv)) + int (Suc k) < 2 ^ 31"
    using assms(1) unfolding ready_def by blast
  obtain s' fh' x' where m: "m (sv_store sv, fh, Some (sv_txn sv)) = (Inr a, s', fh', x')"
    and sv': "sv' = sv\<lparr>sv_store := s', sv_fhs := AList.update t fh' (sv_fhs sv),
      sv_txn := (case x' of None \<Rightarrow> sv_txn sv | Some x \<Rightarrow> x)\<rparr>"
    using assms(2) r(1) by (cases "m (sv_store sv, fh, Some (sv_txn sv))") (auto simp: on_table_def)
  have "ctx_ok (sv_store sv, fh, Some (sv_txn sv))" using c r(8) by (simp add: ctx_ok_def)
  from assms(3) [OF rm_rel_any [OF r(2)] r(3,4) _ this m] r(7) obtain st' where
    st': "rm_rel (s', fh', x') st'" "rm_table fh' st' = T'" "logged_once (sv_store sv) (Some (sv_txn sv)) s' x'" "same_layout fh fh'"
    by auto
  have lsn: "in_signed 4 (global_lsn (st_log (sv_store sv)))" using c(3,4) by (simp add: in_signed_def)
  have "rm_rel (s', fh', None) st'" using st'(1) rm_rel_any by blast
  then have "ready t n k T' sv'"
    using st' r c lsn unfolding ready_def sv'
    by (intro conjI exI [of _ fh'] exI [of _ st'] exI [of _ tab])
      (auto simp: logged_once_def same_layout_def AList.update_conv')
  moreover have "quiet sv sv'" using st'(3) by (simp add: quiet_def txn_kept_def sv' logged_once_def)
  ultimately show ?thesis ..
qed

text \<open>One read of the table file.\<close>

lemma read_run:
  assumes "ready t n k T sv" "on_table False t (get_record pos) sv = (Inr b, sv')" "T pos \<noteq> None"
  shows "T pos = Some b \<and> ready t n k T sv' \<and> quiet sv sv'"
proof -
  obtain fh st tab where r: "map_of (sv_fhs sv) t = Some fh" "rm_rel (sv_store sv, fh, None) st" "rm_table fh st = T"
    using assms(1) unfolding ready_def by blast
  obtain v where v: "T pos = Some v" using assms(3) by blast
  obtain s' fh' x' where m: "get_record pos (sv_store sv, fh, None) = (Inr b, s', fh', x')"
    and sv': "sv' = sv\<lparr>sv_store := s', sv_fhs := AList.update t fh' (sv_fhs sv),
      sv_txn := (case x' of None \<Rightarrow> sv_txn sv | Some x \<Rightarrow> x)\<rparr>"
    using assms(2) r(1) by (cases "get_record pos (sv_store sv, fh, None)") (auto simp: on_table_def)
  from get_record_value [OF r(2), of pos v] m r(3) v have
    g: "b = v" "fh' = fh" "x' = None" "rm_rel (s', fh, None) st" "files_keep (table_pages fh) (sv_store sv) s'" by auto
  have sv': "sv' = sv\<lparr>sv_store := s'\<rparr>" using update_same [OF r(1)] by (simp add: sv' g)
  have "ready t n k T sv'"
    using assms(1) g r unfolding ready_def sv' by (auto simp: files_keep_def)
  moreover have "quiet sv sv'" by (simp add: quiet_def txn_kept_def sv')
  ultimately show ?thesis using v g by simp
qed

text \<open>The lock taken on the table.\<close>

lemma acquire_same:
  "acquire_lock i m (x, tab) = (r, x', tab') \<Longrightarrow> write_set x' = write_set x \<and> txn_prev_lsn x' = txn_prev_lsn x"
  by (auto simp: acquire_lock_def Let_def split: option.splits if_splits)

lemma lock_run:
  assumes "locks_known sv" "lock_table_exclusive t sv = (Inr u, sv')" "map_of (sv_fhs sv) t = Some fh"
  shows "locks_known sv' \<and> holds_lock (sv_locks sv') (txn_id (sv_txn sv)) (table_lock (rm_fd fh)) \<and>
    sv_store sv' = sv_store sv \<and> sv_fhs sv' = sv_fhs sv \<and> sv_db sv' = sv_db sv \<and> txn_id (sv_txn sv') = txn_id (sv_txn sv) \<and>
    write_set (sv_txn sv') = write_set (sv_txn sv) \<and> txn_prev_lsn (sv_txn sv') = txn_prev_lsn (sv_txn sv)"
proof -
  obtain b x' tab' where a: "acquire_lock (table_lock (rm_fd fh)) EXLUCSIVE (sv_txn sv, sv_locks sv) = (Inr b, x', tab')"
    and sv': "sv' = sv\<lparr>sv_txn := x', sv_locks := tab'\<rparr>"
    using assms(2,3) by (cases "acquire_lock (table_lock (rm_fd fh)) EXLUCSIVE (sv_txn sv, sv_locks sv)")
      (auto simp: lock_table_exclusive_def table_fd_def on_locks_def lock_exclusive_on_table_def andThen_eq_Inr ret_def zoom_def)
  have tq: "table_queues_ok (sv_locks sv)" using assms(1) by (simp add: locks_known_def)
  note run = acquire_run [OF tq a] and same = acquire_same [OF a]
  have "i \<in> set (lock_set x')" if "holds_lock tab' (txn_id (sv_txn sv)) i" for i
    using that run assms(1) by (auto simp: locks_known_def)
  with run same show ?thesis by (auto simp: sv' locks_known_def)
qed

lemma locked_ready:
  assumes "ready t n k T sv" "locks_known sv" "lock_table_exclusive t sv = (Inr u, sv')"
  shows "ready t n k T sv' \<and> locks_known sv' \<and> sv_db sv' = sv_db sv \<and> write_set (sv_txn sv') = write_set (sv_txn sv) \<and>
    txn_id (sv_txn sv') = txn_id (sv_txn sv)"
proof -
  obtain fh where "map_of (sv_fhs sv) t = Some fh" using assms(1) by (auto simp: ready_def)
  from lock_run [OF assms(2,3) this] assms(1) show ?thesis by (simp add: ready_def)
qed

lemma quiet_known: "quiet sv sv' \<Longrightarrow> locks_known sv \<Longrightarrow> locks_known sv'"
  by (simp add: quiet_def txn_kept_def locks_known_def)

lemma write_record_run:
  assumes "ready t n k T sv" "locks_known sv" "append_write_record w sv = (Inr u, sv')"
  shows "ready t n k T sv' \<and> locks_known sv' \<and> sv_db sv' = sv_db sv \<and> write_set (sv_txn sv') = write_set (sv_txn sv) @ [w] \<and>
    txn_id (sv_txn sv') = txn_id (sv_txn sv)"
proof -
  have "sv' = sv\<lparr>sv_txn := (sv_txn sv)\<lparr>write_set := write_set (sv_txn sv) @ [w]\<rparr>\<rparr>"
    using assms(3) by (auto simp: append_write_record_def modify_def)
  with assms(1,2) show ?thesis by (simp add: ready_def locks_known_def)
qed

lemma stored_position:
  assumes "rm_rel (s, fh, x) st" "rm_table fh st pos \<noteq> None"
  shows "1 \<le> page_no pos" "slot_ok (file_hdr fh) (slot_no pos)" "rid_fits pos"
  using table_position [OF assms] .

text \<open>Rows keep their length.\<close>

lemma patch_length: "nat off + length b \<le> length r \<Longrightarrow> length (patch off b r) = length r"
  by (simp add: patch_def)

definition cols_fit :: "col_meta list \<Rightarrow> nat \<Rightarrow> bool" where
  "cols_fit cs n \<longleftrightarrow> (\<forall>c \<in> set cs. nat (cm_offset c) + nat (cm_len c) \<le> n)"

lemma encode_row_length:
  "cols_fit cs (length r) \<Longrightarrow> encode_row cs vs r = Inr row \<Longrightarrow> length row = length r"
proof (induction cs arbitrary: vs r)
  case (Cons c cs)
  show ?case
  proof (cases vs)
    case (Cons v vs')
    let ?r = "\<lambda>b. patch (cm_offset c) (take (nat (cm_len c)) b) r"
    obtain v1 v2 where v: "fit_value c v = Inr v1" "init_raw v1 (cm_len c) = Inr v2" "encode_row cs vs' (?r (the (raw v2))) = Inr row"
      using Cons.prems(2) by (auto simp: Cons eThen_eq_Inr)
    have "length (?r b) = length r" for b by (rule patch_length) (use Cons.prems(1) in \<open>auto simp: cols_fit_def\<close>)
    with Cons.IH [OF _ v(3)] Cons.prems(1) show ?thesis by (auto simp: cols_fit_def)
  qed (use Cons.prems(2) in simp)
qed simp

lemma apply_sets_length:
  "cols_fit (map fst sets) (length r) \<Longrightarrow> length (apply_sets sets r) = length r"
  unfolding apply_sets_def
proof (induction sets arbitrary: r)
  case (Cons s sets)
  have "length (patch (cm_offset (fst s)) (take (nat (cm_len (fst s))) (snd s)) r) = length r"
    by (rule patch_length) (use Cons.prems in \<open>auto simp: cols_fit_def\<close>)
  with Cons show ?case by (auto simp: cols_fit_def split: prod.splits)
qed simp

lemma tab_get_col_mem: "tab_get_col n tab = Inr c \<Longrightarrow> c \<in> set (tm_cols tab)"
  by (auto simp: tab_get_col_def find_Some_iff split: option.splits)

lemma prepare_sets_cols: "prepare_sets tab cls = Inr sets \<Longrightarrow> s \<in> set sets \<Longrightarrow> fst s \<in> set (tm_cols tab)"
proof (induction cls arbitrary: sets)
  case (Cons cl cls)
  then obtain c b cs where "tab_get_col (tc_col (sc_lhs cl)) tab = Inr c" "prepare_sets tab cls = Inr cs" "sets = (c, b) # cs"
    by (auto simp: eThen_eq_Inr)
  with Cons tab_get_col_mem show ?case by auto
qed simp

section \<open>Insert\<close>

lemma insert_steps:
  assumes "insert_exec t vals sv = Some (Inr pos, sv')" "get_table t (sv_db sv) = Inr tab" "tm_indexes tab = []"
  obtains sv1 m sv2 row sv3 where "length vals = length (tm_cols tab)" "lock_table_exclusive t sv = (Inr (), sv1)"
    "on_table False t (reads (\<lambda>(s, fh, x). record_size (file_hdr fh))) sv1 = (Inr m, sv2)"
    "encode_row (tm_cols tab) vals (replicate (nat m) 0) = Inr row"
    "on_table True t (insert_record row) sv2 = (Inr pos, sv3)"
    "append_write_record \<lparr>wr_type = INSERT_TUPLE, wr_tab = t, wr_rid = pos, wr_rec = []\<rparr> sv3 = (Inr (), sv')"
proof -
  have n: "insert_next t tab vals sv = Some (Inr pos, sv')" "length vals = length (tm_cols tab)"
    using assms(1,2) by (auto simp: insert_exec_def insert_new_def pThen_eq_Some pdo_def from_db_def table_fd_def andThen_eq_Inr
      throw_def ret_def split: if_splits option.splits)
  from n show thesis
    by (auto simp: insert_next_def pThen_eq_Some pdo_def plift_def assms(3) ret_def intro: that)
qed

lemma insert_exec_run:
  assumes "ready t n (Suc k) T sv" "locks_known sv" "get_table t (sv_db sv) = Inr tab" "cols_fit (tm_cols tab) n"
    "insert_exec t vals sv = Some (Inr pos, sv')"
  shows "\<exists>row. encode_row (tm_cols tab) vals (replicate n 0) = Inr row \<and> T pos = None \<and> ready t n k (T(pos \<mapsto> row)) sv' \<and>
    locks_known sv' \<and> sv_db sv' = sv_db sv \<and> txn_id (sv_txn sv') = txn_id (sv_txn sv) \<and>
    write_set (sv_txn sv') = write_set (sv_txn sv) @ [\<lparr>wr_type = INSERT_TUPLE, wr_tab = t, wr_rid = pos, wr_rec = []\<rparr>]"
proof -
  obtain sv1 m sv2 row sv3 where st: "lock_table_exclusive t sv = (Inr (), sv1)"
    "on_table False t (reads (\<lambda>(s, fh, x). record_size (file_hdr fh))) sv1 = (Inr m, sv2)"
    "encode_row (tm_cols tab) vals (replicate (nat m) 0) = Inr row"
    "on_table True t (insert_record row) sv2 = (Inr pos, sv3)"
    "append_write_record \<lparr>wr_type = INSERT_TUPLE, wr_tab = t, wr_rid = pos, wr_rec = []\<rparr> sv3 = (Inr (), sv')"
    by (rule insert_steps [OF assms(5,3) ready_tab [OF assms(1,3)]])
  note l = locked_ready [OF assms(1,2) st(1)]
  obtain fh where fh: "map_of (sv_fhs sv1) t = Some fh" "nat (record_size (file_hdr fh)) = n" using l by (auto simp: ready_def)
  have m: "nat m = n" "sv2 = sv1" using st(2) fh update_same [OF fh(1)] by (auto simp: on_table_def reads_def)
  have len: "length row = n" using encode_row_length [OF _ st(3)] assms(4) by (simp add: m)
  have r1: "ready t n (Suc k) T sv2" using l by (simp add: m)
  have free: "T pos = None \<and> ready t n k (T(pos \<mapsto> row)) sv3 \<and> quiet sv2 sv3"
  proof -
    have "T pos = None"
    proof -
      obtain fh st where fh: "map_of (sv_fhs sv2) t = Some fh" "rm_rel (sv_store sv2, fh, None) st" "rm_table fh st = T"
        "num_pages (file_hdr fh) + int (Suc k) < 2 ^ 19" "nat (record_size (file_hdr fh)) = n" "length (rm_tab_name fh) < 2 ^ 30"
        using r1 unfolding ready_def by blast
      obtain s' fh' x' where i: "insert_record row (sv_store sv2, fh, Some (sv_txn sv2)) = (Inr pos, s', fh', x')"
        using st(4) fh(1) by (cases "insert_record row (sv_store sv2, fh, Some (sv_txn sv2))") (auto simp: on_table_def)
      have "ctx_ok (sv_store sv2, fh, Some (sv_txn sv2))" using r1 fh(6) by (simp add: ready_def ctx_ok_def)
      with insert_record_run [OF rm_rel_any [OF fh(2)] _ this _ i] fh len show ?thesis by auto
    qed
    moreover have "ready t n k (T(pos \<mapsto> row)) sv3 \<and> quiet sv2 sv3"
    proof (rule change_run [OF r1 st(4)])
      fix s fh st x s' fh' x'
      assume a: "rm_rel (s, fh, Some x) st" "rm_table fh st = T" "nat (record_size (file_hdr fh)) = n"
        "num_pages (file_hdr fh) < 2 ^ 19 - 1" "ctx_ok (s, fh, Some x)" "insert_record row (s, fh, Some x) = (Inr pos, s', fh', x')"
      from insert_record_run [OF a(1,4,5) _ a(6)] a(2,3) len
      show "(\<exists>st'. rm_rel (s', fh', x') st' \<and> rm_table fh' st' = T(pos \<mapsto> row)) \<and> logged_once s (Some x) s' x' \<and> same_layout fh fh'"
        by auto
    qed
    ultimately show ?thesis ..
  qed
  have k3: "locks_known sv3" using quiet_known [of sv2 sv3] free l m(2) by simp
  from write_record_run [OF _ k3 st(5)] free have
    w: "ready t n k (T(pos \<mapsto> row)) sv'" "locks_known sv'" "sv_db sv' = sv_db sv3"
      "write_set (sv_txn sv') = write_set (sv_txn sv3) @ [\<lparr>wr_type = INSERT_TUPLE, wr_tab = t, wr_rid = pos, wr_rec = []\<rparr>]"
      "txn_id (sv_txn sv') = txn_id (sv_txn sv3)" by blast+
  show ?thesis
    using w free l st(3) by (intro exI [of _ row]) (simp add: m quiet_def txn_kept_def)
qed

section \<open>Update and delete\<close>

text \<open>A transaction that led the table from \<open>T0\<close> to \<open>T\<close>, with room for \<open>k\<close> more changes.\<close>

definition in_txn :: "string \<Rightarrow> nat \<Rightarrow> nat \<Rightarrow> (rid \<rightharpoonup> bytes) \<Rightarrow> (rid \<rightharpoonup> bytes) \<Rightarrow> server \<Rightarrow> bool" where
  "in_txn t n k T0 T sv \<longleftrightarrow> ready t n k T sv \<and> locks_known sv \<and> wrote n t T0 (write_set (sv_txn sv)) T"

text \<open>What stays the same while the rows of a table change.\<close>

definition same_owner :: "server \<Rightarrow> server \<Rightarrow> bool" where
  "same_owner sv sv' \<longleftrightarrow> sv_db sv' = sv_db sv \<and> txn_id (sv_txn sv') = txn_id (sv_txn sv)"

lemma same_owner_refl [simp]: "same_owner sv sv"
  by (simp add: same_owner_def)

lemma same_owner_trans [trans]: "same_owner a b \<Longrightarrow> same_owner b c \<Longrightarrow> same_owner a c"
  by (simp add: same_owner_def)

lemma quiet_owner: "quiet sv sv' \<Longrightarrow> same_owner sv sv'"
  by (simp add: quiet_def same_owner_def txn_kept_def)

text \<open>Reading a row and recording the change to come.\<close>

lemma read_and_record:
  assumes "ready t n k T sv" "locks_known sv" "T pos \<noteq> None" "on_table False t (get_record pos) sv = (Inr r, sv1)"
    "append_write_record (w r) sv1 = (Inr u, sv2)"
  shows "T pos = Some r \<and> ready t n k T sv2 \<and> locks_known sv2 \<and> same_owner sv sv2 \<and>
    write_set (sv_txn sv2) = write_set (sv_txn sv) @ [w r]"
proof -
  note r = read_run [OF assms(1,4,3)]
  have "locks_known sv1" using quiet_known [of sv sv1] r assms(2) by simp
  from write_record_run [OF _ this assms(5)] r show ?thesis by (auto simp: quiet_def txn_kept_def same_owner_def)
qed

lemma update_row_run:
  assumes "in_txn t n (Suc k) T0 T sv" "tm_indexes tab = []" "T pos = Some r" "length (apply_sets sets r) = n"
    "update_row t tab sets pos sv = Some (Inr (), sv')"
  shows "in_txn t n k T0 (T(pos \<mapsto> apply_sets sets r)) sv' \<and> same_owner sv sv'"
proof -
  let ?w = "\<lambda>r. \<lparr>wr_type = UPDATE_TUPLE, wr_tab = t, wr_rid = pos, wr_rec = r\<rparr>"
  have inv: "ready t n (Suc k) T sv" "locks_known sv" "wrote n t T0 (write_set (sv_txn sv)) T"
    using assms(1) by (simp_all add: in_txn_def)
  obtain r' sv1 sv2 where st: "on_table False t (get_record pos) sv = (Inr r', sv1)" "append_write_record (?w r') sv1 = (Inr (), sv2)"
    "on_table True t (update_record pos (apply_sets sets r')) sv2 = (Inr (), sv')"
    using assms(2,5) by (auto simp: update_row_def Let_def pThen_eq_Some pdo_def ret_def)
  have "T pos \<noteq> None" using assms(3) by simp
  from read_and_record [where w = ?w, OF inv(1,2) this st(1,2)] assms(3) have
    r: "r' = r" "ready t n (Suc k) T sv2" "locks_known sv2" "same_owner sv sv2"
      "write_set (sv_txn sv2) = write_set (sv_txn sv) @ [?w r]" by auto
  have "ready t n k (T(pos \<mapsto> apply_sets sets r)) sv' \<and> quiet sv2 sv'"
  proof (rule change_run [OF r(2) st(3)])
    fix s fh st x s' fh' x'
    assume a: "rm_rel (s, fh, Some x) st" "rm_table fh st = T" "nat (record_size (file_hdr fh)) = n" "ctx_ok (s, fh, Some x)"
      "update_record pos (apply_sets sets r') (s, fh, Some x) = (Inr (), s', fh', x')"
    have "rm_table fh st pos \<noteq> None" using assms(3) a(2) by simp
    note p = table_position [OF a(1) this]
    from update_record_run [OF a(1) p(1,2) a(4) p(3) _ a(5)] a(2,3) assms(4)
    show "(\<exists>st'. rm_rel (s', fh', x') st' \<and> rm_table fh' st' = T(pos \<mapsto> apply_sets sets r)) \<and>
        logged_once s (Some x) s' x' \<and> same_layout fh fh'" by (auto simp: r(1) same_layout_def)
  qed
  note c = this
  have w: "wrote n t T0 (write_set (sv_txn sv2)) (T(pos \<mapsto> apply_sets sets r))"
    unfolding r(5) by (rule wrote.updated [OF inv(3) assms(3) ready_length [OF inv(1) assms(3)]])
  have "locks_known sv'" using quiet_known c r(3) by blast
  moreover have "write_set (sv_txn sv') = write_set (sv_txn sv2)" "same_owner sv sv'"
    using c quiet_owner [of sv2 sv'] same_owner_trans [OF r(4)] by (simp_all add: quiet_def)
  ultimately show ?thesis using c w by (simp add: in_txn_def)
qed

text \<open>The rows at the positions \<open>ps\<close> changed by \<open>f\<close>.\<close>

definition change_rows :: "(bytes \<Rightarrow> bytes) \<Rightarrow> rid list \<Rightarrow> (rid \<rightharpoonup> bytes) \<Rightarrow> rid \<rightharpoonup> bytes" where
  "change_rows f ps T = (\<lambda>p. if p \<in> set ps then map_option f (T p) else T p)"

lemma change_rows_Cons: "p \<notin> set ps \<Longrightarrow> T p = Some r \<Longrightarrow> change_rows f ps (T(p \<mapsto> f r)) = change_rows f (p # ps) T"
  by (auto simp: change_rows_def fun_eq_iff)

lemma update_rows_run:
  assumes "in_txn t n (length ps + k) T0 T sv" "tm_indexes tab = []" "cols_fit (map fst sets) n" "distinct ps" "set ps \<subseteq> dom T"
    "each_row (update_row t tab sets) ps sv = Some (Inr (), sv')"
  shows "in_txn t n k T0 (change_rows (apply_sets sets) ps T) sv' \<and> same_owner sv sv'"
  using assms
proof (induction ps arbitrary: T sv)
  case Nil
  then show ?case by (simp add: pdo_def ret_def change_rows_def)
next
  case (Cons p ps)
  obtain r where r: "T p = Some r" using Cons.prems(5) by auto
  obtain sv1 where u: "update_row t tab sets p sv = Some (Inr (), sv1)" "each_row (update_row t tab sets) ps sv1 = Some (Inr (), sv')"
    using Cons.prems(6) by (auto simp: pThen_eq_Some)
  have "length r = n" using ready_length [where T = T and pos = p, OF _ r] Cons.prems(1) by (auto simp: in_txn_def)
  then have len: "length (apply_sets sets r) = n" using apply_sets_length [of sets r] Cons.prems(3) by simp
  have "in_txn t n (Suc (length ps + k)) T0 T sv" using Cons.prems(1) by simp
  note one = update_row_run [OF this Cons.prems(2) r len u(1)]
  have sub: "set ps \<subseteq> dom (T(p \<mapsto> apply_sets sets r))" "distinct ps" "p \<notin> set ps" using Cons.prems(4,5) by auto
  from Cons.IH [OF _ Cons.prems(2,3) sub(2,1) u(2)] one
  have "in_txn t n k T0 (change_rows (apply_sets sets) ps (T(p \<mapsto> apply_sets sets r))) sv'" "same_owner sv sv'"
    using same_owner_trans by blast+
  with change_rows_Cons [where T = T and p = p and f = "apply_sets sets", OF sub(3) r] show ?case by simp
qed

lemma locked_txn:
  assumes "in_txn t n k T0 T sv" "lock_table_exclusive t sv = (Inr u, sv')"
  shows "in_txn t n k T0 T sv' \<and> same_owner sv sv'"
  using locked_ready [where n = n and k = k and T = T, OF _ _ assms(2)] assms(1) by (simp add: in_txn_def same_owner_def)

lemma dml_new_run: "dml_new t sv = (Inr tab, sv') \<Longrightarrow> sv' = sv \<and> get_table t (sv_db sv) = Inr tab"
  by (auto simp: dml_new_def andThen_eq_Inr from_db_def table_fd_def ret_def split: option.splits)

lemma update_exec_run:
  assumes "in_txn t n (length ps + k) T0 T sv" "get_table t (sv_db sv) = Inr tab" "cols_fit (tm_cols tab) n"
    "distinct ps" "set ps \<subseteq> dom T" "update_exec t cls ps sv = Some (Inr (), sv')"
  shows "\<exists>sets. prepare_sets tab cls = Inr sets \<and> in_txn t n k T0 (change_rows (apply_sets sets) ps T) sv' \<and> same_owner sv sv'"
proof -
  have ix: "tm_indexes tab = []" using ready_tab [OF _ assms(2)] assms(1) by (auto simp: in_txn_def)
  obtain sv1 sets where u: "lock_table_exclusive t sv = (Inr (), sv1)" "prepare_sets tab cls = Inr sets"
    "each_row (update_row t tab sets) ps sv1 = Some (Inr (), sv')"
    using assms(2,6) ix by (auto simp: update_exec_def pThen_eq_Some pdo_def plift_def ret_def dest!: dml_new_run)
  note l = locked_txn [OF assms(1) u(1)]
  have fit: "cols_fit (map fst sets) n" using assms(3) prepare_sets_cols [OF u(2)] by (auto simp: cols_fit_def)
  from update_rows_run [OF _ ix fit assms(4,5) u(3)] l u(2) show ?thesis using same_owner_trans by blast
qed

lemma delete_row_run:
  assumes "ready t n (Suc k) T sv" "locks_known sv" "tm_indexes tab = []" "T pos = Some r"
    "delete_row t tab pos sv = Some (Inr (), sv')"
  shows "ready t n k (T(pos := None)) sv' \<and> locks_known sv' \<and> same_owner sv sv' \<and>
    write_set (sv_txn sv') = write_set (sv_txn sv) @ [\<lparr>wr_type = DELETE_TUPLE, wr_tab = t, wr_rid = pos, wr_rec = r\<rparr>]"
proof -
  let ?w = "\<lambda>r. \<lparr>wr_type = DELETE_TUPLE, wr_tab = t, wr_rid = pos, wr_rec = r\<rparr>"
  obtain r' sv1 sv2 where st: "on_table False t (get_record pos) sv = (Inr r', sv1)" "append_write_record (?w r') sv1 = (Inr (), sv2)"
    "on_table True t (delete_record pos) sv2 = (Inr (), sv')"
    using assms(3,5) by (auto simp: delete_row_def pThen_eq_Some pdo_def ret_def)
  have "T pos \<noteq> None" using assms(4) by simp
  from read_and_record [where w = ?w, OF assms(1,2) this st(1,2)] assms(4) have
    r: "r' = r" "ready t n (Suc k) T sv2" "locks_known sv2" "same_owner sv sv2"
      "write_set (sv_txn sv2) = write_set (sv_txn sv) @ [?w r]" by auto
  have c: "ready t n k (T(pos := None)) sv' \<and> quiet sv2 sv'"
  proof (rule change_run [OF r(2) st(3)])
    fix s fh st x s' fh' x'
    assume a: "rm_rel (s, fh, Some x) st" "rm_table fh st = T" "ctx_ok (s, fh, Some x)"
      "delete_record pos (s, fh, Some x) = (Inr (), s', fh', x')"
    have "rm_table fh st pos \<noteq> None" using assms(4) a(2) by simp
    note p = table_position [OF a(1) this]
    from delete_record_run [OF a(1) p(1,2) a(3) p(3) a(4)] a(2)
    show "(\<exists>st'. rm_rel (s', fh', x') st' \<and> rm_table fh' st' = T(pos := None)) \<and>
        logged_once s (Some x) s' x' \<and> same_layout fh fh'" by auto
  qed
  have "locks_known sv'" "same_owner sv sv'" using quiet_known r(3) quiet_owner same_owner_trans [OF r(4)] c by blast+
  with c r(5) show ?thesis by (simp add: quiet_def)
qed

definition delete_records :: "string \<Rightarrow> (rid \<rightharpoonup> bytes) \<Rightarrow> rid list \<Rightarrow> write_record list" where
  "delete_records t T ps = map (\<lambda>p. \<lparr>wr_type = DELETE_TUPLE, wr_tab = t, wr_rid = p, wr_rec = the (T p)\<rparr>) ps"

lemma delete_rows_run:
  assumes "ready t n (length ps + k) T sv" "locks_known sv" "tm_indexes tab = []" "distinct ps" "set ps \<subseteq> dom T"
    "each_row (delete_row t tab) ps sv = Some (Inr (), sv')"
  shows "ready t n k (T |` (- set ps)) sv' \<and> locks_known sv' \<and> same_owner sv sv' \<and>
    write_set (sv_txn sv') = write_set (sv_txn sv) @ delete_records t T ps"
  using assms
proof (induction ps arbitrary: T sv)
  case Nil
  then show ?case by (simp add: pdo_def ret_def delete_records_def)
next
  case (Cons p ps)
  obtain r where r: "T p = Some r" using Cons.prems(5) by auto
  obtain sv1 where u: "delete_row t tab p sv = Some (Inr (), sv1)" "each_row (delete_row t tab) ps sv1 = Some (Inr (), sv')"
    using Cons.prems(6) by (auto simp: pThen_eq_Some)
  have "ready t n (Suc (length ps + k)) T sv" using Cons.prems(1) by simp
  note one = delete_row_run [OF this Cons.prems(2,3) r u(1)]
  have sub: "set ps \<subseteq> dom (T(p := None))" "distinct ps" "p \<notin> set ps" using Cons.prems(4,5) by auto
  have "delete_records t (T(p := None)) ps = delete_records t T ps"
    unfolding delete_records_def by (rule map_cong) (use sub(3) in auto)
  moreover have "T(p := None) |` (- set ps) = T |` (- set (p # ps))" by (auto simp: restrict_map_def)
  moreover have "delete_records t T (p # ps) = \<lparr>wr_type = DELETE_TUPLE, wr_tab = t, wr_rid = p, wr_rec = r\<rparr> # delete_records t T ps"
    by (simp add: delete_records_def r)
  moreover have "ready t n k (T(p := None) |` (- set ps)) sv' \<and> locks_known sv' \<and> same_owner sv1 sv' \<and>
      write_set (sv_txn sv') = write_set (sv_txn sv1) @ delete_records t (T(p := None)) ps"
    by (rule Cons.IH [OF _ _ Cons.prems(3) sub(2,1) u(2)]) (use one in blast)+
  ultimately show ?case using one same_owner_trans [of sv sv1 sv'] by (simp only: append.assoc) simp
qed

section \<open>The statements\<close>

lemma insert_txn_run:
  assumes "in_txn t n (Suc k) T0 T sv" "get_table t (sv_db sv) = Inr tab" "cols_fit (tm_cols tab) n"
    "insert_exec t vals sv = Some (Inr pos, sv')"
  shows "\<exists>row. encode_row (tm_cols tab) vals (replicate n 0) = Inr row \<and> T pos = None \<and> in_txn t n k T0 (T(pos \<mapsto> row)) sv' \<and> same_owner sv sv'"
proof -
  from insert_exec_run [OF _ _ assms(2,3,4)] assms(1) obtain row where
    "encode_row (tm_cols tab) vals (replicate n 0) = Inr row" "T pos = None" "ready t n k (T(pos \<mapsto> row)) sv'"
    "locks_known sv'" "sv_db sv' = sv_db sv" "txn_id (sv_txn sv') = txn_id (sv_txn sv)"
    "write_set (sv_txn sv') = write_set (sv_txn sv) @ [\<lparr>wr_type = INSERT_TUPLE, wr_tab = t, wr_rid = pos, wr_rec = []\<rparr>]"
    by (auto simp: in_txn_def)
  with assms(1) show ?thesis by (auto simp: in_txn_def same_owner_def intro: wrote.inserted)
qed

text \<open>
  Claim C18. \<^verbatim>\<open>INSERT\<close>: the values, converted to the types of the columns and written at their offsets, are
  the new row, at a position that was free; no other row changes, and the write set has what rollback needs.
\<close>

theorem insert_statement:
  assumes "in_txn t n (Suc k) T0 T sv" "get_table t (sv_db sv) = Inr tab" "cols_fit (tm_cols tab) n"
    "insert_exec t vals sv = Some (Inr pos, sv')"
  shows "\<exists>row. encode_row (tm_cols tab) vals (replicate n 0) = Inr row \<and> T pos = None \<and> in_txn t n k T0 (T(pos \<mapsto> row)) sv' \<and> same_owner sv sv'"
  by (rule insert_txn_run [OF assms])

text \<open>
  The run of a transaction of insertions and updates of the table \<open>t\<close>: from the server \<open>sv\<close>, where the
  table is \<open>T\<close>, \<open>m\<close> row changes lead to the last server and table.
\<close>

inductive txn_run :: "string \<Rightarrow> nat \<Rightarrow> server \<Rightarrow> (rid \<rightharpoonup> bytes) \<Rightarrow> nat \<Rightarrow> server \<Rightarrow> (rid \<rightharpoonup> bytes) \<Rightarrow> bool" for t n sv T where
  started: "txn_run t n sv T 0 sv T"
| inserting: "txn_run t n sv T m sv1 T1 \<Longrightarrow> get_table t (sv_db sv1) = Inr tab \<Longrightarrow>
    insert_exec t vals sv1 = Some (Inr pos, sv2) \<Longrightarrow> encode_row (tm_cols tab) vals (replicate n 0) = Inr row \<Longrightarrow>
    txn_run t n sv T (Suc m) sv2 (T1(pos \<mapsto> row))"
| updating: "txn_run t n sv T m sv1 T1 \<Longrightarrow> get_table t (sv_db sv1) = Inr tab \<Longrightarrow> distinct ps \<Longrightarrow> set ps \<subseteq> dom T1 \<Longrightarrow>
    update_exec t cls ps sv1 = Some (Inr (), sv2) \<Longrightarrow> prepare_sets tab cls = Inr sets \<Longrightarrow>
    txn_run t n sv T (length ps + m) sv2 (change_rows (apply_sets sets) ps T1)"

lemma txn_run_keeps:
  assumes "txn_run t n sv T m sv1 T1" "in_txn t n (m + k) T T sv" "get_table t (sv_db sv) = Inr tab" "cols_fit (tm_cols tab) n"
  shows "in_txn t n k T T1 sv1 \<and> same_owner sv sv1"
  using assms(1,2)
proof (induction arbitrary: k rule: txn_run.induct)
  case (inserting m sv1 T1 tab' vals pos sv2 row)
  then have i: "in_txn t n (Suc k) T T1 sv1" "same_owner sv sv1" by (metis add_Suc add_Suc_right)+
  then have "tab' = tab" using assms(3) inserting.hyps by (simp add: same_owner_def)
  with insert_txn_run [OF i(1) inserting.hyps(2) _ inserting.hyps(3)] assms(4) obtain row' where
    r: "encode_row (tm_cols tab) vals (replicate n 0) = Inr row'" "in_txn t n k T (T1(pos \<mapsto> row')) sv2" "same_owner sv1 sv2" by blast
  moreover have "row' = row" using r(1) inserting.hyps(4) \<open>tab' = tab\<close> by simp
  ultimately show ?case using same_owner_trans [OF i(2)] by blast
next
  case (updating m sv1 T1 tab' ps cls sv2 sets)
  then have i: "in_txn t n (length ps + k) T T1 sv1" "same_owner sv sv1" by (simp_all add: add.assoc add.left_commute)
  then have "tab' = tab" using assms(3) updating.hyps by (simp add: same_owner_def)
  with update_exec_run [OF i(1) updating.hyps(2) _ updating.hyps(3,4,5)] assms(4) updating.hyps(6) show ?case
    using same_owner_trans [OF i(2)] by auto
qed simp

text \<open>
  Claim C17. All or nothing: a transaction makes any insertions and updates of an unindexed table; the
  table is then what the statements say, and \<open>abort\<close>, whenever it comes, gives the table back as it was
  when the transaction began, empties its write set and frees its locks.
\<close>

theorem txn_all_or_nothing:
  assumes "txn_run t n sv T m sv1 T1" "ready t n (Suc m) T sv" "locks_known sv" "write_set (sv_txn sv) = []"
    "get_table t (sv_db sv) = Inr tab" "cols_fit (tm_cols tab) n" "abort True sv1 = Some (Inr (), sv2)"
  shows "stands_for sv1 t n T1 \<and> stands_for sv2 t n T \<and> write_set (sv_txn sv2) = [] \<and> state_of (sv_txn sv2) = ABORTED \<and>
    (\<forall>i. \<not> holds_lock (sv_locks sv2) (txn_id (sv_txn sv)) i)"
proof -
  have "in_txn t n (m + 1) T T sv" using assms(2-4) wrote.nothing by (simp add: in_txn_def)
  from txn_run_keeps [OF assms(1) this assms(5,6)] have i: "in_txn t n 1 T T1 sv1" and own: "same_owner sv sv1" by blast+
  have st: "stands_for sv1 t n T1" using i ready_stands [of t n 1 T1 sv1] by (simp add: in_txn_def)
  have s1: "wrote n t T (write_set (sv_txn sv1)) T1" "locks_known sv1"
    "in_signed 8 (txn_id (sv_txn sv1))" "in_signed 4 (txn_prev_lsn (sv_txn sv1))" "global_lsn (st_log (sv_store sv1)) < 2 ^ 31 - 1"
    using i by (simp_all add: in_txn_def ready_def)
  from abort_run [OF st s1 assms(7)] st own show ?thesis by (simp add: same_owner_def)
qed

text \<open>
  \<^verbatim>\<open>UPDATE\<close> rewrites exactly the given rows, each with its own bytes outside the assigned columns
  and the assigned values in them.
\<close>

theorem update_statement:
  assumes "in_txn t n (length ps + k) T0 T sv" "get_table t (sv_db sv) = Inr tab" "cols_fit (tm_cols tab) n"
    "distinct ps" "set ps \<subseteq> dom T" "update_exec t cls ps sv = Some (Inr (), sv')"
  shows "\<exists>sets. prepare_sets tab cls = Inr sets \<and> in_txn t n k T0 (change_rows (apply_sets sets) ps T) sv' \<and> same_owner sv sv'"
  by (rule update_exec_run [OF assms])

text \<open>
  \<^verbatim>\<open>DELETE\<close> removes exactly the given rows, and the write set gets, in order, a record with the old
  bytes of each.
\<close>

theorem delete_statement:
  assumes "ready t n (length ps + k) T sv" "locks_known sv" "distinct ps" "set ps \<subseteq> dom T" "delete_exec t ps sv = Some (Inr (), sv')"
  shows "ready t n k (T |` (- set ps)) sv' \<and> locks_known sv' \<and>
    write_set (sv_txn sv') = write_set (sv_txn sv) @ delete_records t T ps"
proof -
  obtain tab sv1 where d: "get_table t (sv_db sv) = Inr tab" "lock_table_exclusive t sv = (Inr (), sv1)"
    "each_row (delete_row t tab) ps sv1 = Some (Inr (), sv')"
    using assms(5) by (auto simp: delete_exec_def pThen_eq_Some pdo_def dest!: dml_new_run)
  note l = locked_ready [OF assms(1,2) d(2)]
  from delete_rows_run [OF _ _ ready_tab [OF assms(1) d(1)] assms(3,4) d(3)] l show ?thesis by auto
qed

section \<open>A table of one column\<close>

definition ex_col :: col_meta where
  "ex_col = \<lparr>cm_tab = ''t'', cm_name = ''c'', cm_type = TYPE_STRING, cm_len = 512, cm_offset = 0, cm_index = False\<rparr>"

definition ex_tab :: tab_meta where
  "ex_tab = \<lparr>tm_name = ''t'', tm_cols = [ex_col], tm_indexes = []\<rparr>"

definition ex_value :: value_rec where
  "ex_value = \<lparr>val_of = VStr ''x'', raw = None\<rparr>"

definition ex_row :: bytes where
  "ex_row = map byte_of_char ''x'' @ replicate 511 0"

definition dml_ex :: server where
  "dml_ex = ddl_ex\<lparr>sv_store := rm_ex_pool, sv_fhs := [(''t'', rm_ex_file)], sv_txn := transaction_new 1,
     sv_db := \<lparr>db_name = ''db'', db_tabs = [(''t'', ex_tab)]\<rparr>\<rparr>"

definition ex_rows :: "rid \<rightharpoonup> bytes" where
  "ex_rows = [Rid 1 0 \<mapsto> replicate 512 7]"

lemma dml_ex_facts:
  "get_table ''t'' (sv_db dml_ex) = Inr ex_tab" "cols_fit (tm_cols ex_tab) 512" "locks_known dml_ex"
  "sv_store dml_ex = rm_ex_pool" "sv_fhs dml_ex = [(''t'', rm_ex_file)]" "sv_txn dml_ex = transaction_new 1"
  "sv_locks dml_ex = Map.empty" "write_set (sv_txn dml_ex) = []" "txn_id (sv_txn dml_ex) = 1"
  by (simp_all add: dml_ex_def get_table_def ddl_ex_def cols_fit_def ex_tab_def ex_col_def locks_known_def table_queues_ok_def
      holds_lock_def transaction_new_def)

lemma rm_ex_store: "st_log rm_ex_pool = log_manager_new" "st_disk rm_ex_pool = pool_disk\<lparr>fd2pageno := (\<lambda>_. 2)\<rparr>"
  by (simp_all add: rm_ex_pool_def one_page_pool_def pool_ex_def pool_new_def)

lemma dml_ex_ready: "k \<le> 1000 \<Longrightarrow> ready ''t'' 512 k ex_rows dml_ex"
proof -
  assume k: "k \<le> 1000"
  have "rm_table rm_ex_file rm_ex_pages = ex_rows" by (simp add: fun_eq_iff rm_ex_table ex_rows_def)
  then show ?thesis
    unfolding ready_def using k rm_ex_rel [of None] dml_ex_facts
    by (intro conjI exI [of _ rm_ex_file] exI [of _ rm_ex_pages] exI [of _ ex_tab])
      (simp_all add: rm_ex_hdr ex_tab_def transaction_new_def INVALID_LSN_def in_signed_def rm_ex_store log_manager_new_def)
qed

lemma ex_encode: "encode_row (tm_cols ex_tab) [ex_value] (replicate 512 0) = Inr ex_row"
  by (simp add: ex_tab_def ex_col_def fit_value_def ex_value_def init_raw_def eThen_def patch_def ex_row_def)


text \<open>The pool of the example while its log is short.\<close>

definition ex_store :: "mem \<Rightarrow> storage \<Rightarrow> bool" where
  "ex_store m s \<longleftrightarrow> cached m s \<and> st_disk s = pool_disk\<lparr>fd2pageno := (\<lambda>_. 2)\<rparr> \<and>
     0 \<le> buf_offset (st_log s) \<and> buf_offset (st_log s) \<le> 4096"

lemma ex_store_handle:
  assumes "ex_store m s"
  shows "\<exists>s'. ex_store m s' \<and> frame_mem s' 0 = m \<and> frame_id s' 0 = PageId 3 1 \<and> st_log s' = st_log s \<and>
    fetch_page_handle 1 (s, rm_ex_file, t) = (Inr 0, s', rm_ex_file, t)"
  using assms by (auto simp: ex_store_def cached_def fetch_page_handle_def rm_ex_hdr fetch_page_def pin_frame_pages
      frame_mem_def frame_id_def pin_frame_def set_frame_def)

lemma ex_store_unpin:
  assumes "ex_store m s"
  shows "\<exists>s'. ex_store m s' \<and> st_log s' = st_log s \<and> unpin_frame 0 d (s, fh, t) = (s', fh, t)"
  using assms by (auto simp: ex_store_def cached_def unpin_frame_def unpin_page_def frame_id_def set_frame_def mark_dirty_def Let_def)

lemma ex_store_edit: "ex_store m s \<Longrightarrow> ex_store (g m) (write_frame 0 g s) \<and> frame_mem (write_frame 0 g s) 0 = g m \<and>
    frame_id (write_frame 0 g s) 0 = PageId 3 1 \<and> st_log (write_frame 0 g s) = st_log s"
  by (auto simp: ex_store_def cached_def write_frame_def set_frame_def frame_mem_def frame_id_def)

lemma ex_store_log:
  assumes "ex_store m s" "0 \<le> log_tot_len (hdr r)" "buf_offset (st_log s) + log_tot_len (hdr r) \<le> 4096"
  shows "\<exists>r' s'. on_log (add_log_to_buffer r) s = (Inr r', s') \<and> ex_store m s' \<and>
    buf_offset (st_log s') = buf_offset (st_log s) + log_tot_len (hdr r)"
  using assms by (auto simp: on_log_def zoom_def add_log_to_buffer_def andThen_def is_full_def append_record_def Let_def
      LOG_BUFFER_SIZE_def PAGE_SIZE_def ex_store_def cached_def)


definition txn_same :: "transaction \<Rightarrow> transaction \<Rightarrow> bool" where
  "txn_same x x' \<longleftrightarrow> write_set x' = write_set x \<and> lock_set x' = lock_set x \<and> state_of x' = state_of x"

text \<open>A logged change stamps the frame.\<close>

lemma ex_log_change:
  assumes "ex_store m s" "0 \<le> log_tot_len (hdr (mk (txn_id x)))" "buf_offset (st_log s) + log_tot_len (hdr (mk (txn_id x))) \<le> 4096"
  shows "\<exists>s' v x'. log_change 0 mk (s, fh, Some x) = (Inr (), s', fh, Some x') \<and> ex_store (write_int 4 m 0 v) s' \<and>
    txn_id x' = txn_id x \<and> txn_same x x' \<and>
    buf_offset (st_log s') = buf_offset (st_log s) + log_tot_len (hdr (mk (txn_id x)))"
proof -
  let ?r = "set_hdr (prev_lsn_update (\<lambda>_. txn_prev_lsn x)) (mk (txn_id x))"
  have h: "log_tot_len (hdr ?r) = log_tot_len (hdr (mk (txn_id x)))" by (cases "mk (txn_id x)") simp_all
  obtain r' s' where "on_log (add_log_to_buffer ?r) s = (Inr r', s')" "ex_store m s'"
    "buf_offset (st_log s') = buf_offset (st_log s) + log_tot_len (hdr ?r)"
    using ex_store_log [of m s ?r] assms h by auto
  with ex_store_edit [of m s' "\<lambda>m. write_int 4 m 0 (lsn (hdr r'))"] show ?thesis by (auto simp: log_change_def h txn_same_def)
qed

lemma ex_insert:
  assumes "length buf = 512"
  shows "\<exists>i s' x' m. insert_record buf (rm_ex_pool, rm_ex_file, Some x) = (Inr (Rid 1 i), s', rm_ex_file, Some x') \<and>
    slot_set m i \<and> ex_store m s' \<and> buf_offset (st_log s') \<le> 1024 \<and> txn_id x' = txn_id x \<and> txn_same x x'"
proof -
  let ?h = "file_hdr rm_ex_file"
  have e0: "ex_store rm_ex_page rm_ex_pool" using rm_ex_cached by (simp add: ex_store_def rm_ex_store log_manager_new_def)
  obtain s1 where s1: "ex_store rm_ex_page s1" "frame_mem s1 0 = rm_ex_page" "frame_id s1 0 = PageId 3 1" "st_log s1 = log_manager_new"
    "fetch_page_handle 1 (rm_ex_pool, rm_ex_file, Some x) = (Inr 0, s1, rm_ex_file, Some x)"
    using ex_store_handle [OF e0, of "Some x"] by (auto simp: rm_ex_store)
  define i where "i = first_bit False rm_ex_page PAGE_BITMAP (num_records_per_page ?h)"
  have free: "slot_ok ?h i \<and> \<not> slot_set rm_ex_page i"
  proof (rule first_free_slot [OF rm_ex_layout(1), of rm_ex_page i])
    show "page_count ?h rm_ex_page < num_records_per_page ?h" by (simp add: page_count_def rm_ex_page_facts(1)) (simp add: rm_ex_hdr)
  qed (simp add: i_def page_bitmap)
  let ?m = "page_insert ?h i buf rm_ex_page"
  have len: "length buf = nat (record_size ?h)" using assms by (simp add: rm_ex_hdr)
  have set: "slot_set ?m i"
    using page_rec_insert [OF rm_ex_layout(1) conjunct1 [OF free] conjunct1 [OF free] len, of rm_ex_page]
    by (auto simp: page_rec_def split: if_splits)
  have num: "num_records ?m = 2"
    using num_records_insert [OF rm_ex_layout(1) conjunct1 [OF free], of rm_ex_page buf] by (simp add: rm_ex_page_facts in_signed_def)
  let ?mk = "\<lambda>txn. InsertLogRecord txn buf (Rid 1 i) ''t''"
  have e2: "ex_store ?m (write_frame 0 (page_insert ?h i buf) s1)" "frame_mem (write_frame 0 (page_insert ?h i buf) s1) 0 = ?m"
    "st_log (write_frame 0 (page_insert ?h i buf) s1) = log_manager_new"
    using ex_store_edit [OF s1(1), of "page_insert ?h i buf"] s1(4) by auto
  have tl: "log_tot_len (hdr (?mk (txn_id x))) = int (LOG_HEADER_SIZE + 533)"
    using assms by (simp add: InsertLogRecord_def new_hdr_def)
  obtain s3 v x' where l: "log_change 0 ?mk (write_frame 0 (page_insert ?h i buf) s1, rm_ex_file, Some x) = (Inr (), s3, rm_ex_file, Some x')"
    "ex_store (write_int 4 ?m 0 v) s3" "txn_id x' = txn_id x" "txn_same x x'" "buf_offset (st_log s3) \<le> 1024"
    using ex_log_change [OF e2(1), of ?mk x rm_ex_file] by (auto simp: tl e2(3) log_manager_new_def log_offsets)
  obtain s4 where s4: "ex_store (write_int 4 ?m 0 v) s4" "st_log s4 = st_log s3" "unpin_frame 0 True (s3, rm_ex_file, Some x') = (s4, rm_ex_file, Some x')"
    using ex_store_unpin [OF l(2)] by blast
  have "slot_set (write_int 4 ?m 0 v) i" using set log_stamp(5) by blast
  moreover have hd: "first_free_page_no ?h = 1" "num_records_per_page ?h = 7" "record_size ?h = 512" "rm_tab_name rm_ex_file = ''t''"
    by (simp_all add: rm_ex_hdr)
  have ib: "first_bit False rm_ex_page 12 7 = i" unfolding i_def hd(2) by (simp add: page_bitmap)
  have "insert_record buf (rm_ex_pool, rm_ex_file, Some x) = (Inr (Rid 1 i), s4, rm_ex_file, Some x')"
    using s1 l(1) s4(3) num e2 ib assms
    by (simp add: insert_record_def create_page_handle_def andThen_def edit_frame_def Let_def hd RM_NO_PAGE_def)
  ultimately show ?thesis using s4 l(3-5) by auto
qed

lemma dml_ex_lock: "\<exists>x tab. lock_table_exclusive ''t'' dml_ex = (Inr (), dml_ex\<lparr>sv_txn := x, sv_locks := tab\<rparr>)"
  by (simp add: lock_table_exclusive_def table_fd_def on_locks_def lock_exclusive_on_table_def zoom_def andThen_def ret_def
      dml_ex_facts acquire_lock_def Let_def transaction_new_def queue_of_def conflict_def, intro exI, rule refl)

lemma dml_ex_insert:
  "\<exists>i m sv'. insert_exec ''t'' [ex_value] dml_ex = Some (Inr (Rid 1 i), sv') \<and> slot_set m i \<and> ex_store m (sv_store sv') \<and>
    buf_offset (st_log (sv_store sv')) \<le> 1024 \<and> sv_fhs sv' = [(''t'', rm_ex_file)]"
proof -
  obtain x tab where l: "lock_table_exclusive ''t'' dml_ex = (Inr (), dml_ex\<lparr>sv_txn := x, sv_locks := tab\<rparr>)"
    using dml_ex_lock by blast
  have "length ex_row = 512" by (simp add: ex_row_def)
  then obtain i s' x' m where i: "insert_record ex_row (rm_ex_pool, rm_ex_file, Some x) = (Inr (Rid 1 i), s', rm_ex_file, Some x')"
    "slot_set m i" "ex_store m s'" "buf_offset (st_log s') \<le> 1024" using ex_insert by blast
  have "tm_indexes ex_tab = []" "length (tm_cols ex_tab) = 1" "record_size (file_hdr rm_ex_file) = 512"
    by (simp_all add: ex_tab_def rm_ex_hdr)
  with l i ex_encode show ?thesis
    by (simp add: insert_exec_def insert_new_def insert_next_def pdo_def pThen_def from_db_def dml_ex_facts andThen_def
        table_fd_def ret_def on_table_def reads_def plift_def append_write_record_def modify_def) blast
qed

theorem insert_statement_witness:
  "\<exists>pos sv'. insert_exec ''t'' [ex_value] dml_ex = Some (Inr pos, sv') \<and> in_txn ''t'' 512 7 ex_rows (ex_rows(pos \<mapsto> ex_row)) sv'"
proof -
  obtain pos sv' where run: "insert_exec ''t'' [ex_value] dml_ex = Some (Inr pos, sv')" using dml_ex_insert by blast
  have "in_txn ''t'' 512 (Suc 7) ex_rows ex_rows dml_ex"
    using dml_ex_ready [of 8] dml_ex_facts(3,8) wrote.nothing by (simp add: in_txn_def)
  from insert_statement [OF this dml_ex_facts(1,2) run] run ex_encode show ?thesis by auto
qed

text \<open>Rolling the insertion back.\<close>

lemma ex_log_abort:
  assumes "ex_store m (sv_store sv)" "buf_offset (st_log (sv_store sv)) \<le> 1024"
  shows "\<exists>sv'. andThen (log_txn AbortLogRecord) (\<lambda>_. flush_log) sv = (Inr (), sv') \<and> cached m (sv_store sv') \<and>
    sv_fhs sv' = sv_fhs sv \<and> sv_db sv' = sv_db sv \<and> write_set (sv_txn sv') = write_set (sv_txn sv)"
proof -
  let ?r = "set_hdr (prev_lsn_update (\<lambda>_. txn_prev_lsn (sv_txn sv))) (AbortLogRecord (txn_id (sv_txn sv)))"
  have tl: "log_tot_len (hdr (AbortLogRecord t)) = int LOG_HEADER_SIZE" for t by (simp add: AbortLogRecord_def new_hdr_def)
  obtain r' s1 where l: "on_log (add_log_to_buffer ?r) (sv_store sv) = (Inr r', s1)" "ex_store m s1"
    "buf_offset (st_log s1) = buf_offset (st_log (sv_store sv)) + int LOG_HEADER_SIZE"
    using ex_store_log [OF assms(1), of ?r] assms(2) by (auto simp: tl log_offsets)
  have off: "0 < buf_offset (st_log s1)" using l(3) assms(1) by (simp add: ex_store_def log_offsets)
  obtain d where w: "write_log (mread (buffer (st_log s1)) 0 (nat (buf_offset (st_log s1)))) (pool_disk\<lparr>fd2pageno := (\<lambda>_. 2)\<rparr>) = (Inr (), d)"
    using pool_write_log by blast
  have "st_disk s1 = pool_disk\<lparr>fd2pageno := (\<lambda>_. 2)\<rparr>" "cached m s1" using l(2) by (simp_all add: ex_store_def)
  with l(1) off w show ?thesis
    by (simp add: log_txn_def flush_log_def on_store_def zoom_def andThen_def modify_def)
      (simp add: on_log_def zoom_def flush_log_to_disk_def write_out_def cached_def)
qed

lemma ex_undo_insert:
  assumes "cached m (sv_store sv)" "slot_set m i" "map_of (sv_fhs sv) ''t'' = Some rm_ex_file" "sv_db sv = sv_db dml_ex"
  shows "\<exists>sv'. undo_writes [\<lparr>wr_type = INSERT_TUPLE, wr_tab = ''t'', wr_rid = Rid 1 i, wr_rec = []\<rparr>] sv = Some (Inr (), sv')"
proof -
  obtain s1 where 1: "cached m s1" "frame_mem s1 0 = m" "fetch_page_handle 1 (sv_store sv, rm_ex_file, None) = (Inr 0, s1, rm_ex_file, None)"
    using cached_handle [OF assms(1)] by blast
  obtain s2 where 2: "cached m s2" "unpin_frame 0 False (s1, rm_ex_file, None) = (s2, rm_ex_file, None)"
    using cached_unpin [OF 1(1)] by blast
  obtain b where g: "get_record (Rid 1 i) (sv_store sv, rm_ex_file, None) = (Inr b, s2, rm_ex_file, None)"
    using 1 2 assms(2) by (auto simp: get_record_def andThen_def)
  obtain s3 where 3: "frame_mem s3 0 = m" "fetch_page_handle 1 (s2, rm_ex_file, None) = (Inr 0, s3, rm_ex_file, None)"
    using cached_handle [OF 2(1)] by blast
  have "\<exists>s4 fh. delete_record (Rid 1 i) (s2, rm_ex_file, None) = (Inr (), s4, fh, None)"
    using 3 assms(2) by (auto simp: delete_record_def andThen_def log_change_none Let_def unpin_frame_def release_page_handle_def
        edit_frame_def edit_hdr_def)
  then obtain s4 fh where d: "delete_record (Rid 1 i) (s2, rm_ex_file, None) = (Inr (), s4, fh, None)" by blast
  have "get_table ''t'' (sv_db sv) = Inr ex_tab" "tm_indexes ex_tab = []" using assms(4) dml_ex_facts(1) by (simp_all add: ex_tab_def)
  with g d assms(3) show ?thesis
    by (simp add: undo_write_def pdo_def pThen_def on_table_def from_db_def ret_def AList.update_conv' run_simps Let_def)
qed

theorem txn_all_or_nothing_witness:
  "\<exists>pos sv1 sv2. insert_exec ''t'' [ex_value] dml_ex = Some (Inr pos, sv1) \<and> abort True sv1 = Some (Inr (), sv2) \<and>
    stands_for sv1 ''t'' 512 (ex_rows(pos \<mapsto> ex_row)) \<and> stands_for sv2 ''t'' 512 ex_rows"
proof -
  obtain i m sv1 where run: "insert_exec ''t'' [ex_value] dml_ex = Some (Inr (Rid 1 i), sv1)" "slot_set m i" "ex_store m (sv_store sv1)"
    "buf_offset (st_log (sv_store sv1)) \<le> 1024" "sv_fhs sv1 = [(''t'', rm_ex_file)]" using dml_ex_insert by blast
  note ins = insert_exec_run [OF dml_ex_ready [of "Suc 1"] dml_ex_facts(3,1,2) run(1)]
  have db: "sv_db sv1 = sv_db dml_ex" and
    ws: "write_set (sv_txn sv1) = [\<lparr>wr_type = INSERT_TUPLE, wr_tab = ''t'', wr_rid = Rid 1 i, wr_rec = []\<rparr>]"
    using ins dml_ex_facts(8) by auto
  obtain sva where a: "andThen (log_txn AbortLogRecord) (\<lambda>_. flush_log) sv1 = (Inr (), sva)" "cached m (sv_store sva)"
    "sv_fhs sva = sv_fhs sv1" "sv_db sva = sv_db sv1" "write_set (sv_txn sva) = write_set (sv_txn sv1)"
    using ex_log_abort [OF run(3,4)] by blast
  obtain svb where u: "undo_writes [\<lparr>wr_type = INSERT_TUPLE, wr_tab = ''t'', wr_rid = Rid 1 i, wr_rec = []\<rparr>] sva = Some (Inr (), svb)"
    using ex_undo_insert [OF a(2) run(2)] a(3,4) run(5) db by auto
  obtain sv2 where ab: "abort True sv1 = Some (Inr (), sv2)"
    using a(1,5) u by (auto simp: abort_def pThen_def pdo_def ws release_def modify_def simp del: undo_writes.simps)
  have "txn_run ''t'' 512 dml_ex ex_rows (Suc 0) sv1 (ex_rows(Rid 1 i \<mapsto> ex_row))"
    by (rule txn_run.inserting [OF txn_run.started dml_ex_facts(1) run(1) ex_encode])
  from txn_all_or_nothing [OF this dml_ex_ready dml_ex_facts(3,8,1,2) ab] run(1) ab show ?thesis by auto
qed

text \<open>The row that is there, rewritten and removed.\<close>

lemma ex_get:
  assumes "ex_store m s" "slot_set m 0"
  shows "\<exists>b s'. get_record (Rid 1 0) (s, rm_ex_file, None) = (Inr b, s', rm_ex_file, None) \<and> ex_store m s' \<and> st_log s' = st_log s \<and> length b = 512"
proof -
  obtain s1 where 1: "ex_store m s1" "frame_mem s1 0 = m" "st_log s1 = st_log s" "fetch_page_handle 1 (s, rm_ex_file, None) = (Inr 0, s1, rm_ex_file, None)"
    using ex_store_handle [OF assms(1)] by blast
  obtain s2 where "ex_store m s2" "st_log s2 = st_log s1" "unpin_frame 0 False (s1, rm_ex_file, None) = (s2, rm_ex_file, None)"
    using ex_store_unpin [OF 1(1)] by blast
  with 1 assms(2) show ?thesis by (simp add: get_record_def andThen_def) (simp add: slot_bytes_def rm_ex_hdr)
qed

lemma ex_update:
  assumes "ex_store m s" "slot_set m 0" "buf_offset (st_log s) = 0" "length buf = 512"
  shows "\<exists>s' x'. update_record (Rid 1 0) buf (s, rm_ex_file, Some x) = (Inr (), s', rm_ex_file, Some x')"
proof -
  obtain s1 where 1: "ex_store m s1" "frame_mem s1 0 = m" "st_log s1 = st_log s" "fetch_page_handle 1 (s, rm_ex_file, Some x) = (Inr 0, s1, rm_ex_file, Some x)"
    using ex_store_handle [OF assms(1)] by blast
  let ?mk = "\<lambda>txn. UpdateLogRecord txn (slot_bytes (file_hdr rm_ex_file) m 0) buf (Rid 1 0) ''t''"
  have "log_tot_len (hdr (?mk (txn_id x))) = int (LOG_HEADER_SIZE + 1049)"
    using assms(4) by (simp add: UpdateLogRecord_def new_hdr_def) (simp add: slot_bytes_def rm_ex_hdr)
  then obtain s2 x' where "log_change 0 ?mk (s1, rm_ex_file, Some x) = (Inr (), s2, rm_ex_file, Some x')"
    using ex_log_change [OF 1(1), of ?mk x rm_ex_file] assms(3) 1(3) by (auto simp: log_offsets)
  moreover have "record_size (file_hdr rm_ex_file) = 512" "rm_tab_name rm_ex_file = ''t''" by (simp_all add: rm_ex_hdr)
  ultimately show ?thesis using 1 assms(2,4)
    by (simp add: update_record_def andThen_def unpin_frame_def edit_frame_def Let_def)
qed

lemma ex_delete:
  assumes "ex_store m s" "slot_set m 0" "buf_offset (st_log s) = 0"
  shows "\<exists>s' fh x'. delete_record (Rid 1 0) (s, rm_ex_file, Some x) = (Inr (), s', fh, Some x')"
proof -
  obtain s1 where 1: "ex_store m s1" "frame_mem s1 0 = m" "st_log s1 = st_log s" "fetch_page_handle 1 (s, rm_ex_file, Some x) = (Inr 0, s1, rm_ex_file, Some x)"
    using ex_store_handle [OF assms(1)] by blast
  let ?mk = "\<lambda>txn. DeleteLogRecord txn (slot_bytes (file_hdr rm_ex_file) m 0) (Rid 1 0) ''t''"
  have "log_tot_len (hdr (?mk (txn_id x))) = int (LOG_HEADER_SIZE + 533)"
    by (simp add: DeleteLogRecord_def new_hdr_def) (simp add: slot_bytes_def rm_ex_hdr)
  then obtain s2 x' where "log_change 0 ?mk (s1, rm_ex_file, Some x) = (Inr (), s2, rm_ex_file, Some x')"
    using ex_log_change [OF 1(1), of ?mk x rm_ex_file] assms(3) 1(3) by (auto simp: log_offsets)
  moreover have "rm_tab_name rm_ex_file = ''t''" by (simp add: rm_ex_hdr)
  ultimately show ?thesis using 1 assms(2)
    by (auto simp: delete_record_def andThen_def unpin_frame_def release_page_handle_def edit_frame_def edit_hdr_def Let_def)
qed

definition ex_set :: set_clause where
  "ex_set = \<lparr>sc_lhs = \<lparr>tc_tab = ''t'', tc_col = ''c'', tc_agg = AGG_NONE, tc_alias = '''', tc_star = False\<rparr>, sc_rhs = ex_value\<rparr>"

lemma ex_start: "ex_store rm_ex_page (sv_store dml_ex)" "slot_set rm_ex_page 0" "buf_offset (st_log (sv_store dml_ex)) = 0"
  using rm_ex_cached rm_ex_mem(2) by (simp_all add: dml_ex_facts rm_ex_store log_manager_new_def ex_store_def)

lemma ex_prepare: "prepare_sets ex_tab [ex_set] = Inr [(ex_col, ex_row)]"
  by (simp add: ex_set_def tab_get_col_def ex_tab_def ex_col_def fit_value_def ex_value_def init_raw_def ex_row_def)

theorem update_statement_witness:
  "\<exists>sv'. update_exec ''t'' [ex_set] [Rid 1 0] dml_ex = Some (Inr (), sv') \<and> in_txn ''t'' 512 7 ex_rows [Rid 1 0 \<mapsto> ex_row] sv'"
proof -
  obtain x tab where l: "lock_table_exclusive ''t'' dml_ex = (Inr (), dml_ex\<lparr>sv_txn := x, sv_locks := tab\<rparr>)"
    using dml_ex_lock by blast
  obtain b s1 where g: "get_record (Rid 1 0) (rm_ex_pool, rm_ex_file, None) = (Inr b, s1, rm_ex_file, None)" "ex_store rm_ex_page s1"
    "buf_offset (st_log s1) = 0" "length b = 512"
    using ex_get [OF ex_start(1,2)] ex_start(3) by (auto simp: dml_ex_facts)
  have row: "apply_sets [(ex_col, ex_row)] r = ex_row" if "length r = 512" for r
    using that by (simp add: apply_sets_def patch_def ex_col_def ex_row_def)
  have len: "length ex_row = 512" by (simp add: ex_row_def)
  let ?x = "write_set_update (\<lambda>ws. ws @ [\<lparr>wr_type = UPDATE_TUPLE, wr_tab = ''t'', wr_rid = Rid 1 0, wr_rec = b\<rparr>]) x"
  obtain s2 x2 where u: "update_record (Rid 1 0) ex_row (s1, rm_ex_file, Some ?x) = (Inr (), s2, rm_ex_file, Some x2)"
    using ex_update [OF g(2) ex_start(2) g(3) len] by blast
  have "tm_indexes ex_tab = []" by (simp add: ex_tab_def)
  with l g u ex_prepare obtain sv' where run: "update_exec ''t'' [ex_set] [Rid 1 0] dml_ex = Some (Inr (), sv')"
    by (simp add: update_exec_def dml_new_def update_row_def pdo_def pThen_def from_db_def dml_ex_facts andThen_def
        table_fd_def ret_def on_table_def plift_def append_write_record_def modify_def row)
  have "in_txn ''t'' 512 (length [Rid 1 0] + 7) ex_rows ex_rows dml_ex"
    using dml_ex_ready [of 8] dml_ex_facts(3,8) wrote.nothing by (simp add: in_txn_def)
  from update_statement [OF this dml_ex_facts(1,2) _ _ run] ex_prepare have
    "in_txn ''t'' 512 7 ex_rows (change_rows (apply_sets [(ex_col, ex_row)]) [Rid 1 0] ex_rows) sv'" by (auto simp: ex_rows_def)
  moreover have "change_rows (apply_sets [(ex_col, ex_row)]) [Rid 1 0] ex_rows = [Rid 1 0 \<mapsto> ex_row]"
    using row [of "replicate 512 7"] by (auto simp: change_rows_def ex_rows_def fun_eq_iff)
  ultimately show ?thesis using run by simp
qed

theorem delete_statement_witness:
  "\<exists>sv'. delete_exec ''t'' [Rid 1 0] dml_ex = Some (Inr (), sv') \<and> ready ''t'' 512 7 Map.empty sv'"
proof -
  obtain x tab where l: "lock_table_exclusive ''t'' dml_ex = (Inr (), dml_ex\<lparr>sv_txn := x, sv_locks := tab\<rparr>)"
    using dml_ex_lock by blast
  obtain b s1 where g: "get_record (Rid 1 0) (rm_ex_pool, rm_ex_file, None) = (Inr b, s1, rm_ex_file, None)" "ex_store rm_ex_page s1"
    "buf_offset (st_log s1) = 0"
    using ex_get [OF ex_start(1,2)] ex_start(3) by (auto simp: dml_ex_facts)
  let ?x = "write_set_update (\<lambda>ws. ws @ [\<lparr>wr_type = DELETE_TUPLE, wr_tab = ''t'', wr_rid = Rid 1 0, wr_rec = b\<rparr>]) x"
  obtain s2 fh x2 where d: "delete_record (Rid 1 0) (s1, rm_ex_file, Some ?x) = (Inr (), s2, fh, Some x2)"
    using ex_delete [OF g(2) ex_start(2) g(3)] by blast
  have "tm_indexes ex_tab = []" by (simp add: ex_tab_def)
  with l g d obtain sv' where run: "delete_exec ''t'' [Rid 1 0] dml_ex = Some (Inr (), sv')"
    by (simp add: delete_exec_def dml_new_def delete_row_def pdo_def pThen_def from_db_def dml_ex_facts andThen_def
        table_fd_def ret_def on_table_def append_write_record_def modify_def)
  have "ready ''t'' 512 (length [Rid 1 0] + 7) ex_rows dml_ex" using dml_ex_ready [of 8] by simp
  from delete_statement [OF this dml_ex_facts(3) _ _ run] have "ready ''t'' 512 7 (ex_rows |` (- {Rid 1 0})) sv'"
    by (auto simp: ex_rows_def)
  moreover have "ex_rows |` (- {Rid 1 0}) = Map.empty" by (auto simp: ex_rows_def restrict_map_def)
  ultimately show ?thesis using run by simp
qed

end
