(* ===== verification/Recovery.thy ===== *)
theory Recovery
  imports Log_Analysis Txn_Manager Table_Read
begin

text \<open>
  Restart after a crash: \<^verbatim>\<open>redo\<close> and \<^verbatim>\<open>undo\<close> of \<^verbatim>\<open>src/src/recovery/log_recovery.cpp\<close>, on the
  records and the transactions that \<^verbatim>\<open>analyze\<close> found. Redo repeats the changes a page does not have
  yet, by its LSN; undo takes back those of the transactions that did not commit, links the free pages
  of every table again, builds every index anew and writes everything out.
\<close>

section \<open>Pages and errors\<close>

text \<open>\<^verbatim>\<open>buffer_pool_manager_->fetch_page\<close> on a page of the file, a null pointer when the pool is full.\<close>

definition fetch_frame :: "int \<Rightarrow> (rm_state, nat option) op" where
  "fetch_frame no = (\<lambda>(s, fh, t). case fetch_page (PageId (rm_fd fh) no) s of (r, s') \<Rightarrow> (r, s', fh, t))"

text \<open>\<^verbatim>\<open>try ... catch (...) {}\<close>: every exception is dropped, but a failed assertion ends the process.\<close>

definition caught :: "rmdb_error + unit \<Rightarrow> rmdb_error + unit" where
  "caught r = (if r = Inl AssertionFailure then r else Inr ())"

definition attempt :: "('s, unit) op \<Rightarrow> ('s, unit) op" where
  "attempt m = (\<lambda>s. case m s of (r, s') \<Rightarrow> (caught r, s'))"

definition swallow :: "('s, unit) pop \<Rightarrow> ('s, unit) pop" where
  "swallow m = (\<lambda>s. map_option (\<lambda>(r, s'). (caught r, s')) (m s))"

fun for_all :: "('a \<Rightarrow> (server, unit) pop) \<Rightarrow> 'a list \<Rightarrow> (server, unit) pop" where
  "for_all f [] = pdo (ret ())"
| "for_all f (x # xs) = pThen (f x) (\<lambda>_. for_all f xs)"

text \<open>Records of tables that are not open are skipped.\<close>

definition if_open :: "string \<Rightarrow> (server, unit) pop \<Rightarrow> (server, unit) pop" where
  "if_open t m = (\<lambda>sv. if map_of (sv_fhs sv) t = None then Some (Inr (), sv) else m sv)"

definition fix_indexes :: "string \<Rightarrow> (index_meta \<Rightarrow> (server, unit) pop) \<Rightarrow> (server, unit) pop" where
  "fix_indexes t f = (\<lambda>sv.
     if \<not> is_table t (sv_db sv) then Some (Inr (), sv)
     else pThen (pdo (from_db (get_table t))) (\<lambda>tab.
       for_all (\<lambda>im sv. if map_of (sv_ihs sv) (index_name t (im_cols im)) = None then Some (Inr (), sv)
         else f im sv) (tm_indexes tab)) sv)"

section \<open>Redo\<close>

text \<open>\<open>k\<close> pages are added at the end of the file, fewer when the pool is full.\<close>

fun extend_file :: "nat \<Rightarrow> (rm_state, unit) op" where
  "extend_file 0 = ret ()"
| "extend_file (Suc k) = (\<lambda>(s, fh, t).
     case new_page (rm_fd fh) s of
       (Inl e, s') \<Rightarrow> (Inl e, s', fh, t)
     | (Inr None, s') \<Rightarrow> (Inr (), s', fh, t)
     | (Inr (Some (no, f)), s') \<Rightarrow> extend_file k (unpin_frame f True
         (edit_hdr (num_pages_update (\<lambda>n. n + 1)) (edit_frame f (page_init (file_hdr fh)) (s', fh, t)))))"

definition stamp_page :: "int \<Rightarrow> int \<Rightarrow> (rm_state, unit) op" where
  "stamp_page no l = andThen (fetch_frame no) (\<lambda>x rs. case x of
     None \<Rightarrow> (Inl AssertionFailure, rs)
   | Some f \<Rightarrow> (Inr (), unpin_frame f True (edit_frame f (\<lambda>m. write_int 4 m 0 l) rs)))"

text \<open>A change with LSN \<open>l\<close> is made when the page is behind it; the result tells whether it was.\<close>

definition replay :: "int \<Rightarrow> int \<Rightarrow> (rm_state, unit) op \<Rightarrow> (rm_state, bool) op" where
  "replay no l m = andThen (fetch_frame no) (\<lambda>x (s, fh, t). case x of
     None \<Rightarrow> (Inr False, s, fh, t)
   | Some f \<Rightarrow>
       if read_int 4 (frame_mem s f) 0 < l
       then andThen m (\<lambda>_. andThen (stamp_page no l) (\<lambda>_. ret True)) (unpin_frame f False (s, fh, t))
       else (Inr False, unpin_frame f False (s, fh, t)))"

definition redo_insert :: "rid \<Rightarrow> int \<Rightarrow> bytes \<Rightarrow> (rm_state, bool) op" where
  "redo_insert pos l v = (\<lambda>(s, fh, t).
     andThen (extend_file (nat (page_no pos + 1 - num_pages (file_hdr fh))))
       (\<lambda>_. replay (page_no pos) l (insert_record_at pos v)) (s, fh, t))"

definition redo_table :: "string \<Rightarrow> (rm_state, bool) op \<Rightarrow> (index_meta \<Rightarrow> (server, unit) pop) list \<Rightarrow> (server, unit) pop" where
  "redo_table t m fs = if_open t (pThen (pdo (on_table False t m)) (\<lambda>b.
     if b then fix_indexes t (\<lambda>im. for_all (\<lambda>f. swallow (f im)) fs) else pdo (ret ())))"

definition redo_one :: "log_record \<Rightarrow> (server, unit) pop" where
  "redo_one r = (case r of
     InsertLog h v pos t \<Rightarrow> redo_table t (redo_insert pos (lsn h) v) [reindex t v pos]
   | DeleteLog h v pos t \<Rightarrow> redo_table t (replay (page_no pos) (lsn h) (attempt (delete_record pos))) [unindex t v]
   | UpdateLog h v w pos t \<Rightarrow>
       redo_table t (replay (page_no pos) (lsn h) (update_record pos w)) [unindex t v, reindex t w pos]
   | _ \<Rightarrow> pdo (ret ()))"

definition redo :: "log_record list \<Rightarrow> (server, unit) pop" where
  "redo rs = for_all redo_one rs"

section \<open>Undo\<close>

definition undo_table :: "string \<Rightarrow> rid \<Rightarrow> bool \<Rightarrow> (rm_state, unit) op \<Rightarrow> (index_meta \<Rightarrow> (server, unit) pop) list \<Rightarrow> (server, unit) pop" where
  "undo_table t pos there m fs = if_open t (pThen (pdo (on_table False t (is_record pos))) (\<lambda>b.
     if b = there then pThen (pdo (on_table False t m)) (\<lambda>_. fix_indexes t (\<lambda>im. for_all (\<lambda>f. swallow (f im)) fs))
     else pdo (ret ())))"

definition undo_one :: "int set \<Rightarrow> log_record \<Rightarrow> (server, unit) pop" where
  "undo_one X r =
     (if log_tid (hdr r) \<notin> X then pdo (ret ())
      else case r of
        InsertLog h v pos t \<Rightarrow> undo_table t pos True (delete_record pos) [unindex t v]
      | DeleteLog h v pos t \<Rightarrow> undo_table t pos False (insert_record_at pos v) [reindex t v pos]
      | UpdateLog h v w pos t \<Rightarrow> undo_table t pos True (update_record pos v) [unindex t w, reindex t v pos]
      | _ \<Rightarrow> pdo (ret ()))"

text \<open>The free pages of a file are linked again, and the records of every page counted.\<close>

definition count_slots :: "rm_file_hdr \<Rightarrow> mem \<Rightarrow> int" where
  "count_slots h m = int (length (filter (slot_set m) [0..num_records_per_page h - 1]))"

fun relink :: "int list \<Rightarrow> (rm_state, unit) op" where
  "relink [] = ret ()"
| "relink (no # nos) = andThen (fetch_frame no) (\<lambda>x (s, fh, t). case x of
     None \<Rightarrow> relink nos (s, fh, t)
   | Some f \<Rightarrow>
       let n = count_slots (file_hdr fh) (frame_mem s f);
           rs = edit_frame f (set_num_records n) (s, fh, t);
           rs = (if n < num_records_per_page (file_hdr fh)
                 then edit_hdr (first_free_page_no_update (\<lambda>_. no)) (edit_frame f (set_next_free (first_free_page_no (file_hdr fh))) rs)
                 else edit_frame f (set_next_free RM_NO_PAGE) rs)
       in relink nos (unpin_frame f True rs))"

definition rebuild_free_list :: "(rm_state, unit) op" where
  "rebuild_free_list = (\<lambda>(s, fh, t).
     andThen (relink [1..num_pages (file_hdr fh) - 1])
       (\<lambda>_ (s, fh, t). (Inr (), s\<lparr>st_disk := set_fd2pageno (rm_fd fh) (num_pages (file_hdr fh)) (st_disk s)\<rparr>, fh, t))
       (edit_hdr (first_free_page_no_update (\<lambda>_. RM_NO_PAGE)) (s, fh, t)))"

partial_function (option) refill_index ::
    "string \<Rightarrow> index_meta \<Rightarrow> rid \<Rightarrow> server \<times> ix_file \<Rightarrow> ((rmdb_error + unit) \<times> server \<times> ix_file) option" where
  "refill_index t im pos st =
     pThen (pdo (beside (on_table False t (reads (\<lambda>(s, fh, x). scan_is_end fh pos))))) (\<lambda>ended s.
       if ended then Some (Inr (), s)
       else
         pThen (pdo (beside (on_table False t (get_record pos)))) (\<lambda>r.
         pThen (on_handle (insert_entry (index_key im r) pos)) (\<lambda>_.
         pThen (pdo (beside (on_table False t (\<lambda>(s, fh, x).
           scan_next (num_pages (file_hdr fh)) (page_no pos) (slot_no pos) (s, fh, x))))) (\<lambda>pos'.
         refill_index t im pos'))) s) st"

definition rebuild_index :: "string \<Rightarrow> index_meta \<Rightarrow> (server, unit) pop" where
  "rebuild_index t im = (let name = index_name t (im_cols im) in
     pThen (pdo (\<lambda>sv. case map_of (sv_ihs sv) name of
         None \<Rightarrow> (Inr (), sv)
       | Some ih \<Rightarrow> andThen (on_store (close_index_file ih)) (\<lambda>_. modify (sv_ihs_update (smap_erase name))) sv)) (\<lambda>_.
     pThen (pdo (attempt (on_store (on_disk (destroy_index_file name))))) (\<lambda>_.
     pThen (pdo (on_store (on_disk (create_index_file name (map (\<lambda>c. (cm_type c, cm_len c)) (im_cols im)))))) (\<lambda>_.
     pThen (pdo (on_store (open_index_file name))) (\<lambda>ih.
     pThen (with_handle ih (pThen (pdo (beside (on_table False t scan_first))) (refill_index t im))) (\<lambda>(_, ih').
     pdo (modify (sv_ihs_update (emplace name ih')))))))))"

definition rebuild_indexes :: "string \<times> tab_meta \<Rightarrow> (server, unit) pop" where
  "rebuild_indexes = (\<lambda>(t, tab). if_open t (for_all (rebuild_index t) (tm_indexes tab)))"

definition save_table :: "rm_file \<Rightarrow> (storage, unit) op" where
  "save_table fh = andThen (on_disk (write_page (rm_fd fh) RM_FILE_HDR_PAGE (hdr_to_mem (file_hdr fh)) 20)) (\<lambda>_.
     flush_all_pages (rm_fd fh))"

definition save_index :: "ix_file \<Rightarrow> (storage, unit) op" where
  "save_index ih =
     (if tot_len (ix_hdr ih) \<noteq> ix_hdr_len (ix_hdr ih) then throw AssertionFailure
      else andThen (on_disk (write_page (ix_fd ih) IX_FILE_HDR_PAGE (mwrite mzero 0 (ix_serialize (ix_hdr ih)))
          (nat (tot_len (ix_hdr ih))))) (\<lambda>_. flush_all_pages (ix_fd ih)))"

definition undo :: "int set \<Rightarrow> log_record list \<Rightarrow> (server, unit) pop" where
  "undo X rs =
     pThen (for_all (undo_one X) (rev rs)) (\<lambda>_.
     pThen (\<lambda>sv. for_all (\<lambda>(t, _). pdo (on_table False t rebuild_free_list)) (sv_fhs sv) sv) (\<lambda>_.
     pThen (\<lambda>sv. for_all rebuild_indexes (db_tabs (sv_db sv)) sv) (\<lambda>_.
     pThen (\<lambda>sv. for_all (\<lambda>(_, fh). pdo (on_store (save_table fh))) (sv_fhs sv) sv) (\<lambda>_.
     (\<lambda>sv. for_all (\<lambda>(_, ih). pdo (on_store (save_index ih))) (sv_ihs sv) sv)))))"

section \<open>Restart\<close>

text \<open>What the server does after it has opened the database: analyze, redo, undo.\<close>

definition restart :: "(server, unit) pop" where
  "restart = (\<lambda>sv. let s = sv_store sv in
     case analyze ((st_disk s, Some (st_log s)), recovery_new) of
       None \<Rightarrow> None
     | Some (r, (d, l), a) \<Rightarrow>
         let sv = sv\<lparr>sv_store := s\<lparr>st_disk := d, st_log := (case l of None \<Rightarrow> st_log s | Some l' \<Rightarrow> l')\<rparr>\<rparr>
         in (case r of
               Inl e \<Rightarrow> Some (Inl e, sv)
             | Inr _ \<Rightarrow> pThen (redo (log_records a)) (\<lambda>_. undo (active_txns a \<union> aborted_txns a) (log_records a)) sv))"

end
