(* ===== verification/Pool_Room.thy ===== *)
theory Pool_Room
  imports Pool_Client
begin

text \<open>
  The buffer pool while the log manager is not attached, as during recovery: the frames a fetch can
  take, and that fetching a known page and allocating a page cannot fail but for want of a frame.
\<close>

section \<open>Frames that can be taken\<close>

definition spare :: "storage \<Rightarrow> nat set" where
  "spare s = set (free_list s) \<union> set (lru_frames (lru_of s))"

lemma finite_spare [simp]: "finite (spare s)"
  by (simp add: spare_def)

text \<open>Frame \<open>f\<close> was taken, and comes back with one unpin if it was spare.\<close>

definition taken :: "nat \<Rightarrow> storage \<Rightarrow> storage \<Rightarrow> bool" where
  "taken f s s' \<longleftrightarrow> spare s \<subseteq> insert f (spare s') \<and> (f \<in> spare s \<longrightarrow> pin_count (pages s' ! f) = 1)"

lemma spare_unpinned: "frames_ok s \<Longrightarrow> f \<in> spare s \<Longrightarrow> f < length (pages s) \<and> pin_count (pages s ! f) = 0"
  by (auto simp: spare_def frames_ok_def)

lemma frames_lru: "frames_ok s \<Longrightarrow> lru_ok (lru_of s)"
  by (simp add: frames_ok_def)

lemma victim_spare:
  assumes "frames_ok s" "find_victim_page s = (r, s')"
  shows "case r of None \<Rightarrow> spare s = {} | Some f \<Rightarrow> spare s \<subseteq> insert f (spare s')"
proof (cases "free_list s")
  case (Cons f fs)
  with assms show ?thesis by (auto simp: find_victim_page_def spare_def)
next
  case Nil
  obtain l' where v: "lru_victim (lru_of s) = (r, l')" and s': "s' = s\<lparr>lru_of := l'\<rparr>"
    using assms(2) Nil by (auto simp: find_victim_page_def split: prod.splits)
  from lru.victim_set [OF frames_lru [OF assms(1)] v] show ?thesis
    by (auto simp: spare_def s' Nil split: option.splits)
qed

lemma pin_spare: "frames_ok s \<Longrightarrow> spare s \<subseteq> insert f (spare (pin_frame f k s))"
  using lru.pin_set [OF frames_lru] by (auto simp: spare_def pin_frame_pages)

lemma update_page_spare:
  assumes "update_page f pid s = (Inr u, s1)" "pid_no pid \<noteq> INVALID_PAGE_ID" "f < length (pages s)" "pin_count (pages s ! f) = 0"
    "log_ok s" "is_dirty (pages s ! f) \<longrightarrow> data_id (st_disk s) (pg_id (pages s ! f))"
  shows "spare s1 = spare s \<and> lru_of s1 = lru_of s"
  by (rule update_page_eq [OF assms]) (simp add: spare_def)

lemma fetch_spare:
  assumes "known s st" "st pid = Some b" "fetch_page pid s = (Inr x, s2)"
  shows "case x of None \<Rightarrow> spare s = {} | Some f \<Rightarrow> taken f s s2"
proof (cases "page_table s pid")
  case (Some f)
  have x: "x = Some f" "s2 = pin_frame f (\<lambda>c. c + 1) s" using assms(3) Some by (auto simp: fetch_page_def)
  have ok: "frames_ok s" using known_parts [OF assms(1)] by simp
  have "pin_count (pages s2 ! f) = 1" if "f \<in> spare s"
    using spare_unpinned [OF ok that] by (simp add: x pin_frame_pages)
  with pin_spare [OF ok] show ?thesis by (simp add: x taken_def)
next
  case None
  note parts = known_parts [OF assms(1)]
  obtain r s' where v: "find_victim_page s = (r, s')" by fastforce
  have vs: "case r of None \<Rightarrow> spare s = {} | Some f \<Rightarrow> spare s \<subseteq> insert f (spare s')"
    by (rule victim_spare [OF _ v]) (use parts in simp)
  show ?thesis
  proof (cases r)
    case none: None
    have "x = None" using assms(3) None v none by (simp add: fetch_page_def)
    with vs none show ?thesis by simp
  next
    case (Some f)
    from v Some have v: "find_victim_page s = (Some f, s')" by simp
    note vk = victim_known [OF assms(1) v]
    obtain u s1 where up: "update_page f pid s' = (Inr u, s1)" and rest:
      "andThen (fetch_read f pid) (\<lambda>_. andThen (modify (pin_frame f (\<lambda>_. 1))) (\<lambda>_. ret (Some f))) s1 = (Inr x, s2)"
      using assms(3) None v by (auto simp: fetch_page_def andThen_eq_Inr)
    have d: "data_id (st_disk s') pid" "page_table s' pid = None" using assms(1,2) None vk by (auto simp: known_def)
    have vp: "pool_ok s'" "coherent_but {} s'" "f < length (pages s')" "pin_count (pages s' ! f) = 0" "f \<notin> set (free_list s')"
      using vk by (auto simp: known_def)
    note u = update_page_run [OF vp d up]
    have "spare s1 = spare s' \<and> lru_of s1 = lru_of s'"
      by (rule update_page_spare [OF up data_id_mapped [OF d(1)] vp(3,4)])
        (use vp in \<open>auto simp: pool_ok_def table_ok_def frames_ok_def\<close>)
    moreover obtain w s1' where rd: "fetch_read f pid s1 = (Inr w, s1')" and s2: "s2 = pin_frame f (\<lambda>_. 1) s1'" "x = Some f"
      using rest by (auto simp: andThen_eq_Inr modify_def ret_def)
    from u have u': "log_ok s1" "f < length (pages s1)" "pages s1 ! f = fresh_page pid" by (auto simp: pool_ok_def)
    from fetch_read_run [OF u'(1,2) rd u'(3)] obtain c where "s1' = set_frame f (pg_data_update (\<lambda>_. mwrite mzero 0 c)) s1" by blast
    then have s1': "spare s1' = spare s1" "lru_of s1' = lru_of s1" "free_list s1' = free_list s1" "f < length (pages s1')"
      using u'(2) by (simp_all add: spare_def set_frame_def)
    moreover have "spare s1' \<subseteq> insert f (spare s2)"
      using lru.pin_set [of "lru_of s1'" f] u s1'(2) by (auto simp: s2 spare_def pin_frame_pages pool_ok_def frames_ok_def)
    moreover have "pin_count (pages s2 ! f) = 1" using s1'(4) by (simp add: s2 pin_frame_pages)
    ultimately show ?thesis using vs Some by (auto simp: taken_def s2(2))
  qed
qed


lemma write_spare: "spare (write_frame f g s) = spare s"
  by (simp add: spare_def write_frame_def)

lemma taken_write: "f < length (pages s1) \<Longrightarrow> taken f s s1 \<Longrightarrow> taken f s (write_frame f g s1)"
  by (cases "pages s1 ! f") (auto simp: taken_def spare_def write_frame_def pages_set_frame)

lemma unpin_spare:
  assumes "held s1 st pid f m" "taken f s s1"
  shows "spare s \<subseteq> spare (snd (unpin_page pid d s1))"
proof -
  note h = heldD [OF assms(1)]
  have l: "lru_ok (lru_of s1)" using known_parts [OF h(1)] frames_lru by blast
  have p: "pin_count (pages (set_frame f (pin_count_update (\<lambda>c. c - 1)) s1) ! f) = pin_count (pages s1 ! f) - 1"
    using h(7) by (cases "pages s1 ! f") (simp add: pages_set_frame)
  have "spare (snd (unpin_page pid d s1)) = (if pin_count (pages s1 ! f) = 1 then insert f (spare s1) else spare s1)"
    using h(2,3) p lru.unpin_set [OF l, of f]
    by (auto simp: unpin_page_def Let_def spare_def mark_dirty_def set_frame_def)
  with assms(2) show ?thesis by (auto simp: taken_def)
qed

lemma new_spare:
  assumes "known s st" "new_page fd s = (Inr x, s2)" "data_id (st_disk s) (PageId fd (fd2pageno (st_disk s) fd))"
  shows "case x of None \<Rightarrow> spare s = {} | Some (no, f) \<Rightarrow> taken f s s2"
proof -
  note parts = known_parts [OF assms(1)]
  obtain r s' where v: "find_victim_page s = (r, s')" by fastforce
  have vs: "case r of None \<Rightarrow> spare s = {} | Some f \<Rightarrow> spare s \<subseteq> insert f (spare s')"
    by (rule victim_spare [OF _ v]) (use parts in simp)
  show ?thesis
  proof (cases r)
    case none: None
    have "x = None" using assms(2) v none by (simp add: new_page_def)
    with vs none show ?thesis by simp
  next
    case (Some f)
    from v Some have v: "find_victim_page s = (Some f, s')" by simp
    note vk = victim_known [OF assms(1) v]
    obtain no s'' u s1 where al: "on_disk (allocate_page fd) s' = (Inr no, s'')" and up: "update_page f (PageId fd no) s'' = (Inr u, s1)"
      and s2: "s2 = pin_frame f (\<lambda>_. 1) s1" "x = Some (no, f)"
      using assms(2) v by (auto simp: new_page_def andThen_eq_Inr modify_def ret_def)
    have no: "no = fd2pageno (st_disk s) fd" using new_page_no [of fd s no f s2] assms(2) s2(2) by simp
    have s'': "s'' = s'\<lparr>st_disk := (st_disk s')\<lparr>fd2pageno := (fd2pageno (st_disk s'))(fd := to_signed 4 ((no + 1) mod 2 ^ 32))\<rparr>\<rparr>"
      using al by (auto simp: on_disk_def zoom_def allocate_page_def split: if_splits)
    have ok: "frames_ok s''" "table_ok s''" "log_ok s''"
      using known_parts [of s' st] vk by (auto simp: s'' frames_ok_def table_ok_def data_id_def log_ok_def log_inv_def log_fd_ok_def)
    have f: "f < length (pages s'')" "pin_count (pages s'' ! f) = 0" using vk by (auto simp: s'')
    have "spare s1 = spare s'' \<and> lru_of s1 = lru_of s''"
      by (rule update_page_spare [OF up _ f])
        (use assms(3) no ok f in \<open>auto simp: frames_ok_def table_ok_def dest: data_id_mapped\<close>)
    moreover have "spare s'' = spare s'" by (simp add: s'' spare_def)
    moreover have "pages s1 = (pages s'')[f := fresh_page (PageId fd no)]"
      by (rule update_page_eq [OF up _ f])
        (use assms(3) no ok f in \<open>auto simp: frames_ok_def table_ok_def dest: data_id_mapped\<close>)
    then have "pin_count (pages s2 ! f) = 1" using f(1) by (simp add: s2 pin_frame_pages)
    moreover have "spare s1 \<subseteq> insert f (spare s2)"
      using lru.pin_set [of "lru_of s1" f] ok(1) calculation(1) by (auto simp: s2 spare_def pin_frame_pages frames_ok_def)
    ultimately show ?thesis using vs Some by (auto simp: taken_def s2(2))
  qed
qed


section \<open>Fetching without a log\<close>

text \<open>
  While the log manager is not attached to the pool, as during recovery, pages are written back without
  flushing the log, and nothing fails on files that are open and pages that exist.
\<close>

lemma quiet_write_back:
  assumes "\<not> log_attached s" "log_ok s" "data_id (st_disk s) (pg_id (pages s ! f))"
  shows "\<exists>s'. write_back f s = (Inr (), s')"
proof -
  let ?p = "pages s ! f"
  obtain r s1 where w: "on_disk (write_page (pid_fd (pg_id ?p)) (pid_no (pg_id ?p)) (pg_data ?p) PAGE_SIZE) s = (r, s1)"
    by (meson surj_pair)
  with write_data_page [OF assms(2,3) w] assms(1) show ?thesis
    by (simp add: write_back_def flush_before_def run_simps Let_def)
qed

lemma quiet_update:
  assumes "\<not> log_attached s" "log_ok s" "is_dirty (pages s ! f) \<longrightarrow> data_id (st_disk s) (pg_id (pages s ! f))"
  shows "\<exists>s'. update_page f pid s = (Inr (), s')"
proof (cases "is_dirty (pages s ! f)")
  case True
  with quiet_write_back [OF assms(1,2)] assms(3) obtain s' where "write_back f s = (Inr (), s')" by blast
  with True show ?thesis by (simp add: update_page_def run_simps modify_def)
qed (simp add: update_page_def run_simps modify_def)

lemma quiet_victim: "find_victim_page s = (r, s') \<Longrightarrow> log_attached s' = log_attached s"
  by (auto simp: find_victim_page_def split: list.splits prod.splits)

lemma quiet_fetch:
  assumes "known s st" "st pid = Some b" "\<not> log_attached s"
  shows "\<exists>x s2. fetch_page pid s = (Inr x, s2) \<and> \<not> log_attached s2"
proof (cases "page_table s pid")
  case (Some f)
  then show ?thesis using assms(3) by (simp add: fetch_page_def pin_frame_pages)
next
  case None
  obtain r s' where v: "find_victim_page s = (r, s')" by fastforce
  show ?thesis
  proof (cases r)
    case none: None
    with None v quiet_victim [OF v] assms(3) show ?thesis by (simp add: fetch_page_def)
  next
    case (Some f)
    with v have v: "find_victim_page s = (Some f, s')" by simp
    note vk = victim_known [OF assms(1) v]
    have q: "\<not> log_attached s'" using quiet_victim [OF v] assms(3) by simp
    have kp: "known s' st" "page_table s' pid = None" using vk None by auto
    note ok = known_parts [OF kp(1)]
    have f: "f < length (pages s')" "pin_count (pages s' ! f) = 0" using vk by auto
    have "data_id (st_disk s') pid" "view s' pid = Some b" using kp(1) assms(2) by (auto simp: known_def)
    then have d: "data_id (st_disk s') pid" "id_page (st_disk s') pid = Some b" using kp(2) by (simp_all add: view_def)
    have dirty: "is_dirty (pages s' ! f) \<longrightarrow> data_id (st_disk s') (pg_id (pages s' ! f)) \<and> page_table s' (pg_id (pages s' ! f)) = Some f"
      using ok f(1) by (auto simp: table_ok_def frames_ok_def)
    obtain s1 where up: "update_page f pid s' = (Inr (), s1)" using quiet_update [OF q, of f pid] ok dirty by blast
    obtain s0 where s0: "disk_keeps {pg_id (pages s' ! f)} s' s0" "st_disk s1 = st_disk s0" "st_log s1 = st_log s0"
      "pages s1 = (pages s')[f := fresh_page pid]" "log_attached s1 = log_attached s'" "clean_if_dirty f s' = (Inr (), s0)"
      by (rule update_page_eq [OF up data_id_mapped [OF d(1)] f]) (use ok dirty in auto)
    have "id_page (st_disk s1) pid = Some b"
    proof (cases "is_dirty (pages s' ! f)")
      case True
      with dirty kp(2) have "pid \<noteq> pg_id (pages s' ! f)" by auto
      with s0(1,2) d show ?thesis by (auto simp: disk_keeps_def)
    next
      case False
      with s0(6) have "s0 = s'" by (simp add: clean_if_dirty_def)
      with s0(2) d show ?thesis by simp
    qed
    moreover have "disk_ok (st_disk s1)" using s0(1,2) log_ok_disk by (auto simp: disk_keeps_def)
    ultimately have "read_page (st_disk s1) (pid_fd pid) (pid_no pid) PAGE_SIZE buf = (Inr (), mwrite buf 0 b)" for buf
      by (simp add: read_page_run id_page_def)
    then obtain s2 where rd: "fetch_read f pid s1 = (Inr (), s2)" "log_attached s2 = log_attached s1"
      by (simp add: fetch_read_def)
    with None v up q s0(5) show ?thesis
      by (simp add: fetch_page_def run_simps modify_def ret_def pin_frame_pages)
  qed
qed

lemma quiet_new:
  assumes "known s st" "\<not> log_attached s" "0 \<le> fd" "fd < MAX_FD" "data_id (st_disk s) (PageId fd (fd2pageno (st_disk s) fd))"
  shows "\<exists>x s2. new_page fd s = (Inr x, s2) \<and> \<not> log_attached s2"
proof -
  obtain r s' where v: "find_victim_page s = (r, s')" by fastforce
  show ?thesis
  proof (cases r)
    case None
    with v quiet_victim [OF v] assms(2) show ?thesis by (simp add: new_page_def)
  next
    case (Some f)
    with v have v: "find_victim_page s = (Some f, s')" by simp
    note vk = victim_known [OF assms(1) v]
    let ?no = "fd2pageno (st_disk s) fd"
    define s'' where "s'' = s'\<lparr>st_disk := (st_disk s')\<lparr>fd2pageno := (fd2pageno (st_disk s'))(fd := to_signed 4 ((?no + 1) mod 2 ^ 32))\<rparr>\<rparr>"
    have al: "on_disk (allocate_page fd) s' = (Inr ?no, s'')"
      using assms(3,4) vk by (simp add: on_disk_def zoom_def allocate_page_def s''_def)
    have ok: "frames_ok s''" "table_ok s''" "log_ok s''"
      using known_parts [of s' st] vk by (auto simp: s''_def frames_ok_def table_ok_def data_id_def log_ok_def log_inv_def log_fd_ok_def)
    have f: "f < length (pages s'')" "pin_count (pages s'' ! f) = 0" using vk by (auto simp: s''_def)
    have q: "\<not> log_attached s''" using quiet_victim [OF v] assms(2) by (simp add: s''_def)
    have dirty: "is_dirty (pages s'' ! f) \<longrightarrow> data_id (st_disk s'') (pg_id (pages s'' ! f))"
      using ok f(1) by (auto simp: table_ok_def frames_ok_def)
    obtain s1 where up: "update_page f (PageId fd ?no) s'' = (Inr (), s1)"
      using quiet_update [OF q ok(3) dirty] by blast
    have "log_attached s1 = log_attached s''"
      by (rule update_page_eq [OF up _ f ok(3) dirty]) (use data_id_mapped [OF assms(5)] in auto)
    with v al up q show ?thesis
      by (simp add: new_page_def run_simps modify_def ret_def pin_frame_pages)
  qed
qed

end
