(* ===== verification/Recovery_File.thy ===== *)
theory Recovery_File
  imports Recovery Pool_Room
begin

text \<open>
  What the steps of recovery do to one table file whose free list may be wrong, as after a crash: a
  change repeated or taken back, a page added, the free list built again.
\<close>

section \<open>A file before its free list is sound\<close>

definition in_pool :: "storage \<Rightarrow> rm_file \<Rightarrow> int \<Rightarrow> bool" where
  "in_pool s fh no \<longleftrightarrow> page_table s (PageId (rm_fd fh) no) \<noteq> None"

text \<open>The header page is read and written apart from the pool.\<close>

definition header_out :: "storage \<Rightarrow> rm_file \<Rightarrow> (page_id \<rightharpoonup> bytes) \<Rightarrow> bool" where
  "header_out s fh st \<longleftrightarrow> page_table s (PageId (rm_fd fh) 0) = None \<and> st (PageId (rm_fd fh) 0) = None"

lemma header_out_edit: "header_out s fh st \<Longrightarrow> 1 \<le> no \<Longrightarrow> dom (page_table s') \<subseteq> insert (PageId (rm_fd fh) no) (dom (page_table s)) \<Longrightarrow>
    header_out s' fh st \<and> header_out s' fh (st(PageId (rm_fd fh) no := b))"
  by (auto simp: header_out_def domIff)

definition raw_file :: "storage \<Rightarrow> rm_file \<Rightarrow> (page_id \<rightharpoonup> bytes) \<Rightarrow> bool" where
  "raw_file s fh st \<longleftrightarrow> known s st \<and> layout_ok (file_hdr fh) \<and> 1 \<le> num_pages (file_hdr fh) \<and> rm_pool s (rm_fd fh) (num_pages (file_hdr fh)) \<and>
     (\<forall>no. 1 \<le> no \<and> no < num_pages (file_hdr fh) \<longrightarrow> st (PageId (rm_fd fh) no) \<noteq> None) \<and> header_out s fh st \<and>
     \<not> log_attached s \<and> 0 \<le> rm_fd fh \<and> rm_fd fh < MAX_FD"

definition page_lsn :: "rm_file \<Rightarrow> (page_id \<rightharpoonup> bytes) \<Rightarrow> int \<Rightarrow> int" where
  "page_lsn fh st no = (if 1 \<le> no \<and> no < num_pages (file_hdr fh)
     then case st (PageId (rm_fd fh) no) of None \<Rightarrow> 0 | Some b \<Rightarrow> read_int 4 (mem_of b) 0 else 0)"

text \<open>A step of file \<open>fd\<close> leaves the other files alone.\<close>

definition kept :: "int \<Rightarrow> storage \<Rightarrow> (page_id \<rightharpoonup> bytes) \<Rightarrow> storage \<Rightarrow> (page_id \<rightharpoonup> bytes) \<Rightarrow> bool" where
  "kept fd s st s' st' \<longleftrightarrow>
     (\<forall>pid. pid_fd pid \<noteq> fd \<longrightarrow> st' pid = st pid \<and> (page_table s' pid \<noteq> None \<longrightarrow> page_table s pid \<noteq> None)) \<and>
     (\<forall>fd'. fd' \<noteq> fd \<longrightarrow> fd2pageno (st_disk s') fd' = fd2pageno (st_disk s) fd') \<and>
     (\<forall>pid. data_id (st_disk s) pid \<longrightarrow> data_id (st_disk s') pid) \<and> log_attached s' = log_attached s"

lemma kept_trans: "kept fd s st s1 st1 \<Longrightarrow> kept fd s1 st1 s2 st2 \<Longrightarrow> kept fd s st s2 st2"
  by (simp add: kept_def)

lemma kept_refl: "kept fd s st s st"
  by (simp add: kept_def)

lemma files_keep_kept:
  assumes "files_keep X s s'" "\<forall>pid \<in> X. pid_fd pid = fd" "\<forall>pid. pid_fd pid \<noteq> fd \<longrightarrow> st' pid = st pid"
    "log_attached s' = log_attached s"
  shows "kept fd s st s' st'"
proof -
  have "page_table s pid \<noteq> None" if "pid_fd pid \<noteq> fd" "page_table s' pid \<noteq> None" for pid
    using assms(1,2) that by (auto simp: files_keep_def dest!: subsetD [of _ _ pid])
  with assms(1,3,4) show ?thesis by (simp add: files_keep_def kept_def)
qed

lemma pool_mapped: "rm_pool s fd n \<Longrightarrow> data_id (st_disk s) (PageId fd 0)"
  by (auto simp: rm_pool_def data_id_def valid_no_def)

lemma kept_raw:
  assumes "kept fd s st s' st'" "raw_file s fh st" "rm_fd fh \<noteq> fd" "known s' st'"
  shows "raw_file s' fh st'" "rm_table fh st' = rm_table fh st" "page_lsn fh st' = page_lsn fh st"
proof -
  have st: "st' (PageId (rm_fd fh) no) = st (PageId (rm_fd fh) no)" for no using assms(1,3) by (simp add: kept_def)
  then show "rm_table fh st' = rm_table fh st" "page_lsn fh st' = page_lsn fh st"
    by (simp_all add: fun_eq_iff rm_table_def page_lsn_def)
  have "rm_pool s (rm_fd fh) (num_pages (file_hdr fh))" using assms(2) by (simp add: raw_file_def)
  moreover from pool_mapped [OF this] have "data_id (st_disk s') (PageId (rm_fd fh) 0)" using assms(1) by (simp add: kept_def)
  from data_file [OF this] have "\<exists>p. fd2path (st_disk s') (rm_fd fh) = Some p \<and> p \<noteq> LOG_FILE_NAME" .
  moreover have "pid_no pid < num_pages (file_hdr fh)" if "pid \<in> dom (page_table s')" "pid_fd pid = rm_fd fh" for pid
    using that assms(1,3) calculation(1) by (auto simp: kept_def rm_pool_def domIff)
  ultimately have "rm_pool s' (rm_fd fh) (num_pages (file_hdr fh))"
    using assms(1,3) by (simp add: rm_pool_def kept_def)
  moreover have "header_out s' fh st'"
    using assms(1) [unfolded kept_def, THEN conjunct1, rule_format, of "PageId (rm_fd fh) 0"] assms(2,3) st
    by (auto simp: raw_file_def header_out_def)
  moreover have "\<not> log_attached s'" using assms(1,2) by (simp add: kept_def raw_file_def)
  ultimately show "raw_file s' fh st'" using assms(2,4) st by (simp add: raw_file_def)
qed

text \<open>A page of the file is brought in; it is changed or not and unpinned.\<close>

lemma raw_fetch:
  assumes "raw_file s fh st" "1 \<le> no" "no < num_pages (file_hdr fh)" "fetch_page (PageId (rm_fd fh) no) s = (Inr (Some f), s1)"
  shows "taken f s s1 \<and> files_keep {PageId (rm_fd fh) no} s s1 \<and> \<not> log_attached s1 \<and>
    held s1 st (PageId (rm_fd fh) no) f (frame_mem s1 f) \<and> clean_ok s1 (PageId (rm_fd fh) no) f"
proof -
  obtain b where b: "st (PageId (rm_fd fh) no) = Some b" using assms(1-3) by (auto simp: raw_file_def)
  have k: "known s st" "\<not> log_attached s" using assms(1) by (simp_all add: raw_file_def)
  from fetch_held [OF k(1) b assms(4)] obtain m where m: "held s1 st (PageId (rm_fd fh) no) f m"
    "clean_ok s1 (PageId (rm_fd fh) no) f" "files_keep {PageId (rm_fd fh) no} s s1" by blast
  moreover have "frame_mem s1 f = m" using heldD(4) [OF m(1)] by (simp add: frame_mem_def)
  ultimately show ?thesis using fetch_spare [OF k(1) b assms(4)] quiet_fetch [OF k(1) b k(2)] assms(4) by auto
qed

lemma raw_fetches:
  assumes "raw_file s fh st" "1 \<le> no" "no < num_pages (file_hdr fh)" "spare s \<noteq> {}"
  obtains f s1 where "fetch_page (PageId (rm_fd fh) no) s = (Inr (Some f), s1)"
proof -
  obtain b where b: "st (PageId (rm_fd fh) no) = Some b" using assms(1-3) by (auto simp: raw_file_def)
  have k: "known s st" "\<not> log_attached s" using assms(1) by (simp_all add: raw_file_def)
  obtain x s1 where x: "fetch_page (PageId (rm_fd fh) no) s = (Inr x, s1)" using quiet_fetch [OF k(1) b k(2)] by blast
  with fetch_spare [OF k(1) b this] assms(4) that show thesis by (cases x) auto
qed

lemma raw_unpin:
  assumes "held s1 st' (PageId (rm_fd fh) no) f m" "dirty \<or> clean_ok s1 (PageId (rm_fd fh) no) f" "taken f s s1"
    "rm_pool s1 (rm_fd fh) (num_pages (file_hdr fh))" "layout_ok (file_hdr fh)" "1 \<le> num_pages (file_hdr fh)"
    "\<forall>no. 1 \<le> no \<and> no < num_pages (file_hdr fh) \<longrightarrow> st' (PageId (rm_fd fh) no) \<noteq> None" "kept (rm_fd fh) s st s1 st'"
    "header_out s1 fh st'" "\<not> log_attached s1" "0 \<le> rm_fd fh" "rm_fd fh < MAX_FD"
  shows "\<exists>s2. unpin_frame f dirty (s1, fh, None) = (s2, fh, None) \<and> raw_file s2 fh st' \<and> kept (rm_fd fh) s st s2 st' \<and>
    spare s \<subseteq> spare s2 \<and> in_pool s2 fh no"
proof -
  let ?pid = "PageId (rm_fd fh) no"
  let ?s2 = "snd (unpin_page ?pid dirty s1)"
  have id: "frame_id s1 f = ?pid" using heldD(6) [OF assms(1)] by (simp add: frame_id_def)
  from unpin_held [OF assms(1,2)] have u: "known ?s2 st'" "files_keep {} s1 ?s2" by auto
  have "rm_pool ?s2 (rm_fd fh) (num_pages (file_hdr fh))" by (rule rm_pool_keep [OF assms(4) u(2)]) simp
  then have "raw_file ?s2 fh st'" using u(1) assms(5-7,9-12) by (simp add: raw_file_def header_out_def unpin_parts)
  moreover have "kept (rm_fd fh) s st ?s2 st'"
    by (rule kept_trans [OF assms(8)]) (rule files_keep_kept [OF u(2)], simp_all add: unpin_parts)
  moreover have "spare s \<subseteq> spare ?s2" by (rule unpin_spare [OF assms(1,3)])
  moreover have "in_pool ?s2 fh no" using heldD(2) [OF assms(1)] by (simp add: in_pool_def unpin_parts)
  ultimately show ?thesis by (simp add: unpin_frame_def id)
qed

text \<open>\<open>fh'\<close> is \<open>fh\<close> up to the head of the free list.\<close>

definition same_shape :: "rm_file \<Rightarrow> rm_file \<Rightarrow> bool" where
  "same_shape fh fh' \<longleftrightarrow> (\<exists>v. fh' = fh\<lparr>file_hdr := (file_hdr fh)\<lparr>first_free_page_no := v\<rparr>\<rparr>)"

lemma same_shape_refl: "same_shape fh fh"
  unfolding same_shape_def by (rule exI [of _ "first_free_page_no (file_hdr fh)"]) simp

lemma same_shape_trans: "same_shape fh fh1 \<Longrightarrow> same_shape fh1 fh2 \<Longrightarrow> same_shape fh fh2"
  by (auto simp: same_shape_def)

lemma same_shape_eqs:
  assumes "same_shape fh fh'"
  shows "rm_fd fh' = rm_fd fh" "num_pages (file_hdr fh') = num_pages (file_hdr fh)" "raw_file s fh' st = raw_file s fh st"
    "rm_table fh' = rm_table fh" "page_lsn fh' = page_lsn fh" "layout_ok (file_hdr fh') = layout_ok (file_hdr fh)"
    "record_size (file_hdr fh') = record_size (file_hdr fh)" "slot_ok (file_hdr fh') = slot_ok (file_hdr fh)"
  using assms by (auto simp: same_shape_def raw_file_def layout_ok_def page_lsn_def fun_eq_iff rm_table_first_free slot_ok_def header_out_def)

lemma raw_look:
  assumes "raw_file s fh st" "1 \<le> no" "no < num_pages (file_hdr fh)" "fetch_page (PageId (rm_fd fh) no) s = (Inr (Some f), s1)"
  shows "\<exists>s2. unpin_frame f False (s1, fh, None) = (s2, fh, None) \<and> raw_file s2 fh st \<and> kept (rm_fd fh) s st s2 st \<and>
    spare s \<subseteq> spare s2 \<and> in_pool s2 fh no"
proof -
  from raw_fetch [OF assms] have f: "taken f s s1" "files_keep {PageId (rm_fd fh) no} s s1"
    and f3: "\<not> log_attached s1" and f: "taken f s s1" "files_keep {PageId (rm_fd fh) no} s s1" "held s1 st (PageId (rm_fd fh) no) f (frame_mem s1 f)" "clean_ok s1 (PageId (rm_fd fh) no) f" by auto
  have "rm_pool s1 (rm_fd fh) (num_pages (file_hdr fh))"
    by (rule rm_pool_keep [OF _ f(2)]) (use assms(1,3) in \<open>auto simp: raw_file_def\<close>)
  moreover have "header_out s1 fh st"
    using header_out_edit [of s fh st no s1] assms(1,2) f(2) by (auto simp: raw_file_def files_keep_def)
  ultimately show ?thesis
    by (intro raw_unpin [OF f(3) _ f(1)]) (use assms(1) f(4) f3 files_keep_kept [OF f(2)] in \<open>auto simp: raw_file_def\<close>)
qed

text \<open>The file went from \<open>(s, fh, st)\<close> to \<open>(s', fh', st')\<close>.\<close>

definition went :: "storage \<times> rm_file \<times> (page_id \<rightharpoonup> bytes) \<Rightarrow> storage \<times> rm_file \<times> (page_id \<rightharpoonup> bytes) \<Rightarrow> bool" where
  "went = (\<lambda>(s, fh, st) (s', fh', st'). raw_file s' fh' st' \<and> same_shape fh fh' \<and> kept (rm_fd fh) s st s' st' \<and> spare s \<subseteq> spare s')"

lemma went_trans:
  assumes "went (s, fh, st) (s1, fh1, st1)" "went (s1, fh1, st1) (s2, fh2, st2)"
  shows "went (s, fh, st) (s2, fh2, st2)"
proof -
  have "rm_fd fh1 = rm_fd fh" using assms(1) same_shape_eqs(1) by (simp add: went_def)
  with assms show ?thesis
    using kept_trans [of "rm_fd fh" s st s1 st1 s2 st2] same_shape_trans [of fh fh1 fh2] by (auto simp: went_def)
qed

lemma raw_edit:
  assumes "raw_file s fh st" "1 \<le> no" "no < num_pages (file_hdr fh)" "fetch_page (PageId (rm_fd fh) no) s = (Inr (Some f), s1)"
    "same_shape fh fh'" "st' = st(PageId (rm_fd fh) no \<mapsto> mread (g (frame_mem s1 f)) 0 PAGE_SIZE)"
  shows "\<exists>s2. unpin_frame f True (write_frame f g s1, fh', None) = (s2, fh', None) \<and> went (s, fh, st) (s2, fh', st') \<and> in_pool s2 fh no"
proof -
  note e = same_shape_eqs [OF assms(5)]
  from raw_fetch [OF assms(1-4)] have f: "taken f s s1" "files_keep {PageId (rm_fd fh) no} s s1"
    "held s1 st (PageId (rm_fd fh) no) f (frame_mem s1 f)" and f4: "\<not> log_attached s1" by auto
  note h = edit_held [OF f(3), of g, folded assms(6)]
  have keep: "files_keep {PageId (rm_fd fh) no} s (write_frame f g s1)"
    by (rule files_keep_trans [OF f(2)]) (use h files_keep_mono in blast)
  have "rm_pool (write_frame f g s1) (rm_fd fh) (num_pages (file_hdr fh))"
    by (rule rm_pool_keep [OF _ keep]) (use assms(1,3) in \<open>auto simp: raw_file_def\<close>)
  moreover have "kept (rm_fd fh) s st (write_frame f g s1) st'"
    by (rule files_keep_kept [OF keep]) (use assms(1) f4 in \<open>auto simp: assms(6) raw_file_def write_frame_parts\<close>)
  moreover have "taken f s (write_frame f g s1)" by (rule taken_write [OF heldD(7) [OF f(3)] f(1)])
  moreover have "header_out (write_frame f g s1) fh st'"
    using header_out_edit [of s fh st no "write_frame f g s1"] assms(1,2,6) keep by (auto simp: raw_file_def files_keep_def)
  then have "header_out (write_frame f g s1) fh' st'" by (simp add: header_out_def e)
  ultimately show ?thesis
    using raw_unpin [of "write_frame f g s1" st' fh' no f _ True s st] assms(1,5,6) h f4
    by (auto simp: raw_file_def e went_def in_pool_def write_frame_parts)
qed

text \<open>What an edit of a page means for the table and the LSNs.\<close>

lemma mem_of_lsn: "read_int 4 (mem_of (mread m 0 PAGE_SIZE)) 0 = read_int 4 m 0"
  by (rule same_page_read_int [OF same_page_mem_of]) (simp add: PAGE_SIZE_def)

lemma raw_put:
  assumes "raw_file s fh st" "1 \<le> no" "no < num_pages (file_hdr fh)" "fetch_page (PageId (rm_fd fh) no) s = (Inr (Some f), s1)"
    "same_shape fh fh'" "slot_ok (file_hdr fh) i"
    "\<And>j. slot_ok (file_hdr fh) j \<Longrightarrow>
      page_rec (file_hdr fh) (g (frame_mem s1 f)) j = (if j = i then x else page_rec (file_hdr fh) (frame_mem s1 f) j)"
    "l = read_int 4 (g (frame_mem s1 f)) 0"
  shows "\<exists>s2 st'. unpin_frame f True (write_frame f g s1, fh', None) = (s2, fh', None) \<and> went (s, fh, st) (s2, fh', st') \<and>
    in_pool s2 fh no \<and> rm_table fh st' = (rm_table fh st)(Rid no i := x) \<and> page_lsn fh st' = (page_lsn fh st)(no := l)"
proof -
  let ?m = "frame_mem s1 f"
  from raw_fetch [OF assms(1-4)] have h: "st (PageId (rm_fd fh) no) = Some (mread ?m 0 PAGE_SIZE)" by (auto dest: heldD(5))
  have lay: "layout_ok (file_hdr fh)" using assms(1) by (simp add: raw_file_def)
  let ?st = "st(PageId (rm_fd fh) no \<mapsto> mread (g ?m) 0 PAGE_SIZE)"
  have "rm_table fh ?st = (rm_table fh st)(Rid no i := x)"
    by (rule table_edit [where m = ?m and st = st, OF lay assms(2,3,6) h]) (rule assms(7))
  moreover have "page_lsn fh ?st = (page_lsn fh st)(no := l)"
    using assms(2,3,8) by (simp add: fun_eq_iff page_lsn_def mem_of_lsn)
  ultimately show ?thesis using raw_edit [OF assms(1-5) refl, of g] by blast
qed

text \<open>A page of the file that is in the pool.\<close>

lemma in_pool_handle:
  assumes "raw_file s fh st" "1 \<le> no" "no < num_pages (file_hdr fh)" "in_pool s fh no"
  shows "\<exists>f s1. fetch_page (PageId (rm_fd fh) no) s = (Inr (Some f), s1) \<and> fetch_page_handle no (s, fh, t) = (Inr f, s1, fh, t) \<and>
    st (PageId (rm_fd fh) no) = Some (mread (frame_mem s1 f) 0 PAGE_SIZE) \<and> page_lsn fh st no = read_int 4 (frame_mem s1 f) 0 \<and>
    (\<forall>i. slot_ok (file_hdr fh) i \<longrightarrow> rm_table fh st (Rid no i) = page_rec (file_hdr fh) (frame_mem s1 f) i)"
proof -
  obtain f where f: "page_table s (PageId (rm_fd fh) no) = Some f" using assms(4) by (auto simp: in_pool_def)
  let ?s1 = "pin_frame f (\<lambda>c. c + 1) s"
  have fetch: "fetch_page (PageId (rm_fd fh) no) s = (Inr (Some f), ?s1)" using f by (simp add: fetch_page_def)
  from raw_fetch [OF assms(1-3) fetch] have h: "st (PageId (rm_fd fh) no) = Some (mread (frame_mem ?s1 f) 0 PAGE_SIZE)"
    by (auto dest: heldD(5))
  have "rm_table fh st (Rid no i) = page_rec (file_hdr fh) (frame_mem ?s1 f) i" if "slot_ok (file_hdr fh) i" for i
    by (rule rm_table_page [of fh "Rid no i", simplified]) (use assms(1-3) h that in \<open>auto simp: raw_file_def\<close>)
  moreover have "page_lsn fh st no = read_int 4 (frame_mem ?s1 f) 0" using assms(2,3) h by (simp add: page_lsn_def mem_of_lsn)
  ultimately show ?thesis using fetch h assms(2,3) by (auto simp: fetch_page_handle_def)
qed


section \<open>Repeating and taking back a change\<close>

lemma page_lsns:
  assumes "layout_ok h" "slot_ok h i"
  shows "read_int 4 (page_insert h i buf m) 0 = read_int 4 m 0" "read_int 4 (page_delete i m) 0 = read_int 4 m 0"
    "read_int 4 (page_update h i buf m) 0 = read_int 4 m 0" "read_int 4 (set_next_free v m) 0 = read_int 4 m 0"
    "read_int 4 (set_num_records v m) 0 = read_int 4 m 0"
proof -
  have "read_int 4 (bm_set m 12 k) 0 = read_int 4 m 0" "read_int 4 (bm_reset m 12 k) 0 = read_int 4 m 0" for k
    by (auto simp: read_int_def bm_set_outside bm_reset_outside
        intro!: arg_cong [where f = "\<lambda>x. to_signed 4 (le_decode x)"] mread_cong)
  then show "read_int 4 (page_insert h i buf m) 0 = read_int 4 m 0" "read_int 4 (page_delete i m) 0 = read_int 4 m 0"
    "read_int 4 (page_update h i buf m) 0 = read_int 4 m 0" "read_int 4 (set_next_free v m) 0 = read_int 4 m 0"
    "read_int 4 (set_num_records v m) 0 = read_int 4 m 0"
    using header_apart(1) [OF assms]
    by (simp_all add: page_insert_def page_delete_def page_update_def Let_def set_num_records_def set_next_free_def mem_simps)
qed

text \<open>A change of one row at a page in the pool.\<close>

definition puts :: "(rm_state, unit) op \<Rightarrow> storage \<times> rm_file \<times> (page_id \<rightharpoonup> bytes) \<Rightarrow> rid \<Rightarrow> bytes option \<Rightarrow> bool" where
  "puts m = (\<lambda>(s, fh, st) pos x. \<exists>s' fh' st'. m (s, fh, None) = (Inr (), s', fh', None) \<and> went (s, fh, st) (s', fh', st') \<and>
     in_pool s' fh (page_no pos) \<and> rm_table fh st' = (rm_table fh st)(pos := x) \<and> page_lsn fh st' = page_lsn fh st)"

lemma rid_eta: "Rid (page_no r) (slot_no r) = r"
  by (cases r) simp

definition placed :: "rm_file \<Rightarrow> rid \<Rightarrow> bool" where
  "placed fh pos \<longleftrightarrow> 1 \<le> page_no pos \<and> page_no pos < num_pages (file_hdr fh) \<and> slot_ok (file_hdr fh) (slot_no pos)"

lemma puts_insert:
  assumes "raw_file s fh st" "placed fh pos" "in_pool s fh (page_no pos)" "length v = nat (record_size (file_hdr fh))"
    "rm_table fh st pos = None"
  shows "puts (insert_record_at pos v) (s, fh, st) pos (Some v)"
proof -
  let ?h = "file_hdr fh" and ?i = "slot_no pos"
  have lay: "layout_ok ?h" using assms(1) by (simp add: raw_file_def)
  have pos: "1 \<le> page_no pos" "page_no pos < num_pages ?h" "slot_ok ?h ?i" using assms(2) by (auto simp: placed_def)
  from in_pool_handle [OF assms(1) pos(1,2) assms(3), of None] obtain f s1 where
    f: "fetch_page (PageId (rm_fd fh) (page_no pos)) s = (Inr (Some f), s1)"
       "fetch_page_handle (page_no pos) (s, fh, None) = (Inr f, s1, fh, None)"
    and l: "page_lsn fh st (page_no pos) = read_int 4 (frame_mem s1 f) 0"
    and t: "rm_table fh st pos = page_rec ?h (frame_mem s1 f) ?i" using pos(3) rid_eta [of pos] by metis
  let ?g = "page_insert ?h ?i (take (nat (record_size ?h)) v)"
  have "\<exists>s2 st'. unpin_frame f True (write_frame f ?g s1, fh, None) = (s2, fh, None) \<and> went (s, fh, st) (s2, fh, st') \<and>
      in_pool s2 fh (page_no pos) \<and> rm_table fh st' = (rm_table fh st)(Rid (page_no pos) ?i := Some v) \<and>
      page_lsn fh st' = (page_lsn fh st)(page_no pos := read_int 4 (frame_mem s1 f) 0)"
    by (rule raw_put [OF assms(1) pos(1,2) f(1) same_shape_refl pos(3)])
      (use assms(4) in \<open>simp_all add: page_rec_insert [OF lay pos(3)] page_lsns [OF lay pos(3)]\<close>)
  moreover have "\<not> slot_set (frame_mem s1 f) ?i" using t assms(5) by (simp add: page_rec_def split: if_splits)
  ultimately show ?thesis
    using f(2) l by (auto simp: puts_def insert_record_at_def run_simps edit_frame_def rid_eta fun_upd_idem)
qed

lemma puts_update:
  assumes "raw_file s fh st" "placed fh pos" "in_pool s fh (page_no pos)" "length v = nat (record_size (file_hdr fh))"
    "rm_table fh st pos \<noteq> None"
  shows "puts (update_record pos v) (s, fh, st) pos (Some v)"
proof -
  let ?h = "file_hdr fh" and ?i = "slot_no pos"
  have lay: "layout_ok ?h" using assms(1) by (simp add: raw_file_def)
  have pos: "1 \<le> page_no pos" "page_no pos < num_pages ?h" "slot_ok ?h ?i" using assms(2) by (auto simp: placed_def)
  from in_pool_handle [OF assms(1) pos(1,2) assms(3), of None] obtain f s1 where
    f: "fetch_page (PageId (rm_fd fh) (page_no pos)) s = (Inr (Some f), s1)"
       "fetch_page_handle (page_no pos) (s, fh, None) = (Inr f, s1, fh, None)"
    and l: "page_lsn fh st (page_no pos) = read_int 4 (frame_mem s1 f) 0"
    and t: "rm_table fh st pos = page_rec ?h (frame_mem s1 f) ?i" using pos(3) rid_eta [of pos] by metis
  have set: "slot_set (frame_mem s1 f) ?i" using t assms(5) by (simp add: page_rec_def split: if_splits)
  let ?g = "page_update ?h ?i (take (nat (record_size ?h)) v)"
  have "\<exists>s2 st'. unpin_frame f True (write_frame f ?g s1, fh, None) = (s2, fh, None) \<and> went (s, fh, st) (s2, fh, st') \<and>
      in_pool s2 fh (page_no pos) \<and> rm_table fh st' = (rm_table fh st)(Rid (page_no pos) ?i := Some v) \<and>
      page_lsn fh st' = (page_lsn fh st)(page_no pos := read_int 4 (frame_mem s1 f) 0)"
    by (rule raw_put [OF assms(1) pos(1,2) f(1) same_shape_refl pos(3)])
      (use assms(4) set in \<open>simp_all add: page_rec_update [OF lay pos(3)] page_lsns [OF lay pos(3)]\<close>)
  then show ?thesis
    using f(2) l set by (auto simp: puts_def update_record_def run_simps edit_frame_def rid_eta fun_upd_idem log_change_def Let_def)
qed

lemma write_frame_twice:
  "f < length (pages s) \<Longrightarrow> write_frame f g (write_frame f k s) = write_frame f (\<lambda>m. g (k m)) s"
  by (cases "pages s ! f") (simp add: write_frame_def set_frame_def)

lemma puts_delete:
  assumes "raw_file s fh st" "placed fh pos" "in_pool s fh (page_no pos)" "rm_table fh st pos \<noteq> None"
  shows "puts (delete_record pos) (s, fh, st) pos None"
proof -
  let ?h = "file_hdr fh" and ?i = "slot_no pos"
  have lay: "layout_ok ?h" using assms(1) by (simp add: raw_file_def)
  have pos: "1 \<le> page_no pos" "page_no pos < num_pages ?h" "slot_ok ?h ?i" using assms(2) by (auto simp: placed_def)
  from in_pool_handle [OF assms(1) pos(1,2) assms(3), of None] obtain f s1 where
    f: "fetch_page (PageId (rm_fd fh) (page_no pos)) s = (Inr (Some f), s1)"
       "fetch_page_handle (page_no pos) (s, fh, None) = (Inr f, s1, fh, None)"
    and l: "page_lsn fh st (page_no pos) = read_int 4 (frame_mem s1 f) 0"
    and t: "rm_table fh st pos = page_rec ?h (frame_mem s1 f) ?i" using pos(3) rid_eta [of pos] by metis
  have len: "f < length (pages s1)" and id: "frame_id (write_frame f g s1) f = PageId (rm_fd fh) (page_no pos)" for g
    using raw_fetch [OF assms(1) pos(1,2) f(1)] heldD(6) [OF conjunct1 [OF edit_held], of s1] heldD(7)
    by (auto simp: frame_id_def)
  have set: "slot_set (frame_mem s1 f) ?i" using t assms(4) by (simp add: page_rec_def split: if_splits)
  define full where "full \<longleftrightarrow> num_records (frame_mem (write_frame f (page_delete ?i) s1) f) = num_records_per_page ?h - 1"
  define fh' where "fh' = (if full then fh\<lparr>file_hdr := ?h\<lparr>first_free_page_no := page_no pos\<rparr>\<rparr> else fh)"
  define g where "g = (\<lambda>m. if full then set_next_free (first_free_page_no ?h) (page_delete ?i m) else page_delete ?i m)"
  have shape: "same_shape fh fh'" using same_shape_refl by (auto simp: fh'_def same_shape_def)
  have "\<exists>s2 st'. unpin_frame f True (write_frame f g s1, fh', None) = (s2, fh', None) \<and> went (s, fh, st) (s2, fh', st') \<and>
      in_pool s2 fh (page_no pos) \<and> rm_table fh st' = (rm_table fh st)(Rid (page_no pos) ?i := None) \<and>
      page_lsn fh st' = (page_lsn fh st)(page_no pos := read_int 4 (frame_mem s1 f) 0)"
    by (rule raw_put [OF assms(1) pos(1,2) f(1) shape pos(3)])
      (use pos(3) in \<open>auto simp: g_def page_rec_delete [OF lay pos(3)] page_lsns [OF lay pos(3)] page_rec_header [OF lay]\<close>)
  moreover have "delete_record pos (s, fh, None) = (Inr (), unpin_frame f True (write_frame f g s1, fh', None))"
    using f(2) set id [of "page_delete ?i"] len
    by (auto simp: delete_record_def run_simps edit_frame_def log_change_def Let_def full_def [symmetric] release_page_handle_def
        edit_hdr_def write_frame_twice fh'_def g_def)
  ultimately show ?thesis using l by (auto simp: puts_def rid_eta fun_upd_idem)
qed


lemma stamp_run:
  assumes "raw_file s fh st" "1 \<le> no" "no < num_pages (file_hdr fh)" "in_pool s fh no" "in_signed 4 l"
  shows "\<exists>s' st'. stamp_page no l (s, fh, None) = (Inr (), s', fh, None) \<and> went (s, fh, st) (s', fh, st') \<and>
    rm_table fh st' = rm_table fh st \<and> page_lsn fh st' = (page_lsn fh st)(no := l)"
proof -
  have lay: "layout_ok (file_hdr fh)" "slot_ok (file_hdr fh) 0" using assms(1) by (auto simp: raw_file_def layout_ok_def slot_ok_def)
  from in_pool_handle [OF assms(1-4), of None] obtain f s1 where
    f: "fetch_page (PageId (rm_fd fh) no) s = (Inr (Some f), s1)"
    and t: "rm_table fh st (Rid no 0) = page_rec (file_hdr fh) (frame_mem s1 f) 0" using lay(2) by blast
  have "\<exists>s2 st'. unpin_frame f True (write_frame f (\<lambda>m. write_int 4 m 0 l) s1, fh, None) = (s2, fh, None) \<and>
      went (s, fh, st) (s2, fh, st') \<and> in_pool s2 fh no \<and>
      rm_table fh st' = (rm_table fh st)(Rid no 0 := page_rec (file_hdr fh) (frame_mem s1 f) 0) \<and> page_lsn fh st' = (page_lsn fh st)(no := l)"
    by (rule raw_put [OF assms(1-3) f same_shape_refl lay(2)])
      (use assms(5) lay(2) in \<open>auto simp: page_rec_header [OF lay(1)] mem_simps\<close>)
  with f t show ?thesis by (auto simp: stamp_page_def fetch_frame_def run_simps edit_frame_def fun_upd_idem)
qed

lemma replay_run:
  assumes "raw_file s fh st" "placed fh pos" "in_signed 4 l" "spare s \<noteq> {}"
    "\<And>s'. page_lsn fh st (page_no pos) < l \<Longrightarrow> raw_file s' fh st \<Longrightarrow> in_pool s' fh (page_no pos) \<Longrightarrow> puts m (s', fh, st) pos x"
  shows "\<exists>b s' fh' st'. replay (page_no pos) l m (s, fh, None) = (Inr b, s', fh', None) \<and> went (s, fh, st) (s', fh', st') \<and>
      (rm_table fh st', page_lsn fh st') = (if page_lsn fh st (page_no pos) < l
        then ((rm_table fh st)(pos := x), (page_lsn fh st)(page_no pos := l)) else (rm_table fh st, page_lsn fh st))"
proof -
  let ?no = "page_no pos"
  have pos: "1 \<le> ?no" "?no < num_pages (file_hdr fh)" using assms(2) by (auto simp: placed_def)
  obtain f' s1 where f: "fetch_page (PageId (rm_fd fh) ?no) s = (Inr (Some f'), s1)" by (rule raw_fetches [OF assms(1) pos assms(4)])
  note h = raw_fetch [OF assms(1) pos f]
  have "page_lsn fh st ?no = read_int 4 (frame_mem s1 f') 0"
    using heldD(5) [of s1 st "PageId (rm_fd fh) ?no" f' "frame_mem s1 f'"] h pos by (simp add: page_lsn_def mem_of_lsn)
  moreover from raw_look [OF assms(1) pos f] obtain s2 where
    s2: "unpin_frame f' False (s1, fh, None) = (s2, fh, None)" "raw_file s2 fh st" "in_pool s2 fh ?no"
    and w2: "went (s, fh, st) (s2, fh, st)" by (auto simp: went_def same_shape_refl)
  ultimately have run: "replay ?no l m (s, fh, None) = (if page_lsn fh st ?no < l
      then andThen m (\<lambda>_. andThen (stamp_page ?no l) (\<lambda>_. ret True)) (s2, fh, None) else (Inr False, s2, fh, None))"
    using f by (simp add: replay_def fetch_frame_def run_simps)
  show ?thesis
  proof (cases "page_lsn fh st ?no < l")
    case False
    with run w2 show ?thesis by auto
  next
    case True
    from assms(5) [OF True s2(2,3)] obtain s3 fh3 st3 where
      m: "m (s2, fh, None) = (Inr (), s3, fh3, None)" "went (s2, fh, st) (s3, fh3, st3)" "in_pool s3 fh ?no"
      "rm_table fh st3 = (rm_table fh st)(pos := x)" "page_lsn fh st3 = page_lsn fh st" by (auto simp: puts_def)
    have e: "same_shape fh fh3" "raw_file s3 fh3 st3" using m(2) by (auto simp: went_def)
    note e = e same_shape_eqs [OF e(1)]
    from stamp_run [OF e(2) pos(1) _ _ assms(3)] pos(2) m(3) obtain s4 st4 where
      s4: "stamp_page ?no l (s3, fh3, None) = (Inr (), s4, fh3, None)" "went (s3, fh3, st3) (s4, fh3, st4)"
      "rm_table fh st4 = rm_table fh st3" "page_lsn fh st4 = (page_lsn fh st3)(?no := l)" by (auto simp: e in_pool_def)
    have "went (s, fh, st) (s4, fh3, st4)" using w2 m(2) s4(2) went_trans by blast
    with run True m s4 show ?thesis by (auto simp: run_simps)
  qed
qed

section \<open>A file that grows\<close>

definition grown :: "nat \<Rightarrow> rm_file \<Rightarrow> rm_file \<Rightarrow> bool" where
  "grown k fh fh' \<longleftrightarrow> fh' = fh\<lparr>file_hdr := (file_hdr fh)\<lparr>num_pages := num_pages (file_hdr fh) + int k\<rparr>\<rparr>"

text \<open>One page more.\<close>

lemma page_init_lsn: "read_int 4 (page_init h m) 0 = read_int 4 m 0"
  by (simp add: page_init_def set_next_free_def set_num_records_def bm_init_def mem_simps)

lemma zero_page_lsn: "mread m 0 PAGE_SIZE = replicate PAGE_SIZE 0 \<Longrightarrow> read_int 4 m 0 = 0"
proof -
  assume z: "mread m 0 PAGE_SIZE = replicate PAGE_SIZE 0"
  have "m i = 0" if "i < PAGE_SIZE" for i
    using arg_cong [OF z, of "\<lambda>b. b ! i"] that by (simp add: mread_def)
  then have "mread m 0 4 = replicate 4 0" by (simp add: mread_def PAGE_SIZE_def list_eq_iff_nth_eq)
  then show ?thesis by (simp add: read_int_def to_signed_def numeral_eq_Suc)
qed

lemma grow_one:
  assumes "raw_file s fh st" "num_pages (file_hdr fh) < 2 ^ 19 - 1" "new_page (rm_fd fh) s = (Inr (Some (no, f)), s1)"
    "fh' = fh\<lparr>file_hdr := (file_hdr fh)\<lparr>num_pages := num_pages (file_hdr fh) + 1\<rparr>\<rparr>"
  shows "\<exists>s2 st'. unpin_frame f True (write_frame f (page_init (file_hdr fh)) s1, fh', None) = (s2, fh', None) \<and>
    raw_file s2 fh' st' \<and> kept (rm_fd fh) s st s2 st' \<and> spare s \<subseteq> spare s2 \<and>
    rm_table fh' st' = rm_table fh st \<and> page_lsn fh' st' = page_lsn fh st"
proof -
  let ?h = "file_hdr fh" and ?pid = "PageId (rm_fd fh) no" and ?g = "page_init (file_hdr fh)"
  have raw: "known s st" "rm_pool s (rm_fd fh) (num_pages ?h)" "layout_ok ?h" "1 \<le> num_pages ?h" using assms(1) by (auto simp: raw_file_def)
  have pn: "fd2pageno (st_disk s) (rm_fd fh) = num_pages ?h" using raw(2) by (simp add: rm_pool_def)
  then have d: "data_id (st_disk s) (PageId (rm_fd fh) (fd2pageno (st_disk s) (rm_fd fh)))"
    using raw(2,4) assms(2) by (auto simp: rm_pool_def data_id_def valid_no_def)
  have free: "page_table s (PageId (rm_fd fh) (fd2pageno (st_disk s) (rm_fd fh))) = None"
    using raw(2) unfolding rm_pool_def by force
  from new_held [OF raw(1) assms(3) d free] obtain m where no: "no = num_pages ?h"
    and m: "held s1 (st(?pid \<mapsto> replicate PAGE_SIZE 0)) ?pid f m"
    and keep: "fd2pageno (st_disk s1) = (fd2pageno (st_disk s))(rm_fd fh := to_signed 4 ((no + 1) mod 2 ^ 32))"
      "dom (page_table s1) \<subseteq> insert ?pid (dom (page_table s))" "\<forall>pid. data_id (st_disk s) pid \<longrightarrow> data_id (st_disk s1) pid"
    using pn by auto
  have tk: "taken f s s1" using new_spare [OF raw(1) assms(3) d] by simp
  have q: "\<not> log_attached s" "0 \<le> rm_fd fh" "rm_fd fh < MAX_FD" using assms(1) by (auto simp: raw_file_def)
  have q1: "\<not> log_attached s1" using quiet_new [OF raw(1) q d] assms(3) by simp
  let ?st = "st(?pid \<mapsto> mread (?g m) 0 PAGE_SIZE)"
  have h: "held (write_frame f ?g s1) ?st ?pid f (?g m)" using edit_held [OF m, of ?g] by simp
  have "to_signed 4 ((no + 1) mod 2 ^ 32) = no + 1" using no assms(2) raw(4) by (simp add: to_signed_def)
  then have num: "fd2pageno (st_disk s1) (rm_fd fh) = no + 1" using keep(1) by simp
  have old: "page_table s1 pid \<noteq> None \<Longrightarrow> pid \<noteq> ?pid \<Longrightarrow> page_table s pid \<noteq> None" for pid
    using keep(2) by (auto simp: domIff)
  have "pid_no pid < no + 1" if "page_table s1 pid \<noteq> None" "pid_fd pid = rm_fd fh" for pid
  proof (cases "pid = ?pid")
    case False
    with old that have "page_table s pid \<noteq> None" by blast
    with raw(2) that(2) no show ?thesis by (force simp: rm_pool_def domIff)
  qed simp
  moreover have "data_id (st_disk s1) (PageId (rm_fd fh) 0)" using pool_mapped [OF raw(2)] keep(3) by blast
  from data_file [OF this] have "\<exists>p. fd2path (st_disk s1) (rm_fd fh) = Some p \<and> p \<noteq> LOG_FILE_NAME" .
  ultimately have "rm_pool (write_frame f ?g s1) (rm_fd fh) (no + 1)"
    using num by (simp add: rm_pool_def write_frame_parts domIff)
  moreover have "kept (rm_fd fh) s st (write_frame f ?g s1) ?st"
    using keep old q q1 by (auto simp: kept_def write_frame_parts)
  moreover have "taken f s (write_frame f ?g s1)" by (rule taken_write [OF heldD(7) [OF m] tk])
  moreover have "layout_ok (file_hdr fh')" using raw(3) assms(4) by (simp add: layout_ok_def)
  moreover have "1 \<le> k \<and> k < no + 1 \<Longrightarrow> ?st (PageId (rm_fd fh) k) \<noteq> None" for k
    using assms(1) no by (cases "k = no") (auto simp: raw_file_def)
  moreover have "header_out (write_frame f ?g s1) fh ?st"
    using header_out_edit [of s fh st no "write_frame f ?g s1"] assms(1) keep(2) no raw(4) by (auto simp: raw_file_def write_frame_parts)
  then have "header_out (write_frame f ?g s1) fh' ?st" using assms(4) by (simp add: header_out_def)
  ultimately obtain s2 where s2: "unpin_frame f True (write_frame f ?g s1, fh', None) = (s2, fh', None)" "raw_file s2 fh' ?st"
    "kept (rm_fd fh) s st s2 ?st" "spare s \<subseteq> spare s2"
    using raw_unpin [of "write_frame f ?g s1" ?st fh' no f "?g m" True s st] h assms(4) no raw(4) q q1 by (auto simp: write_frame_parts)
  have "rm_table fh' ?st = rm_table fh st"
    by (rule table_new [OF raw(3) _ no refl refl]) (use raw(4) in \<open>simp_all add: assms(4) no\<close>)
  moreover have "read_int 4 m 0 = 0" by (rule zero_page_lsn) (use heldD(5) [OF m] in simp)
  then have "page_lsn fh' ?st = page_lsn fh st"
    using no by (auto simp: fun_eq_iff page_lsn_def assms(4) mem_of_lsn page_init_lsn)
  ultimately show ?thesis using s2 by blast
qed

lemma extend_run:
  assumes "raw_file s fh st" "spare s \<noteq> {}" "num_pages (file_hdr fh) + int k < 2 ^ 19"
  shows "\<exists>s' fh' st'. extend_file k (s, fh, None) = (Inr (), s', fh', None) \<and> raw_file s' fh' st' \<and> grown k fh fh' \<and>
      kept (rm_fd fh) s st s' st' \<and> spare s \<subseteq> spare s' \<and> rm_table fh' st' = rm_table fh st \<and> page_lsn fh' st' = page_lsn fh st"
  using assms
proof (induction k arbitrary: s fh st)
  case 0
  then show ?case by (auto simp: run_simps grown_def kept_refl intro!: exI [of _ s] exI [of _ fh] exI [of _ st])
next
  case (Suc k)
  have raw: "known s st" "rm_pool s (rm_fd fh) (num_pages (file_hdr fh))" "1 \<le> num_pages (file_hdr fh)"
    "\<not> log_attached s" "0 \<le> rm_fd fh" "rm_fd fh < MAX_FD"
    using Suc.prems(1) by (auto simp: raw_file_def)
  have d: "data_id (st_disk s) (PageId (rm_fd fh) (fd2pageno (st_disk s) (rm_fd fh)))"
    using raw(2,3) Suc.prems(3) by (auto simp: rm_pool_def data_id_def valid_no_def)
  obtain x s1 where n: "new_page (rm_fd fh) s = (Inr x, s1)" using quiet_new [OF raw(1,4-6) d] by blast
  with new_spare [OF raw(1) n d] Suc.prems(2) obtain no f where x: "x = Some (no, f)" by (cases x) auto
  define fh1 where "fh1 = fh\<lparr>file_hdr := (file_hdr fh)\<lparr>num_pages := num_pages (file_hdr fh) + 1\<rparr>\<rparr>"
  from grow_one [OF Suc.prems(1) _ _ fh1_def, of no f s1] n x Suc.prems(3) obtain s2 st2 where
    s2: "unpin_frame f True (write_frame f (page_init (file_hdr fh)) s1, fh1, None) = (s2, fh1, None)" "raw_file s2 fh1 st2"
      "kept (rm_fd fh) s st s2 st2" "spare s \<subseteq> spare s2" "rm_table fh1 st2 = rm_table fh st" "page_lsn fh1 st2 = page_lsn fh st"
    by auto
  have run: "extend_file (Suc k) (s, fh, None) = extend_file k (s2, fh1, None)"
    using n x s2(1) by (cases "file_hdr fh") (simp add: edit_frame_def edit_hdr_def fh1_def)
  have "spare s2 \<noteq> {}" using s2(4) Suc.prems(2) by blast
  moreover have "num_pages (file_hdr fh1) + int k < 2 ^ 19" using Suc.prems(3) by (simp add: fh1_def)
  ultimately obtain s' fh' st' where e: "extend_file k (s2, fh1, None) = (Inr (), s', fh', None)" "raw_file s' fh' st'"
    "grown k fh1 fh'" "kept (rm_fd fh1) s2 st2 s' st'" "spare s2 \<subseteq> spare s'" "rm_table fh' st' = rm_table fh1 st2"
    "page_lsn fh' st' = page_lsn fh1 st2" using Suc.IH [OF s2(2)] by blast
  have "rm_fd fh1 = rm_fd fh" by (simp add: fh1_def)
  with e(4) s2(3) have "kept (rm_fd fh) s st s' st'" using kept_trans by simp
  moreover have "grown (Suc k) fh fh'" using e(3) by (simp add: grown_def fh1_def add.assoc)
  moreover have "spare s \<subseteq> spare s'" using s2(4) e(5) by blast
  ultimately show ?case unfolding run using e(1,2,6,7) s2(5,6) by metis
qed


section \<open>The free lists\<close>

lemma count_slots_card: "count_slots h m = page_count h m"
proof -
  have "distinct (filter (slot_set m) [0..num_records_per_page h - 1])" by simp
  from distinct_card [OF this] show ?thesis
    by (simp add: count_slots_def page_count_def page_slots_def slot_ok_def conj_commute)
qed

text \<open>Pages before \<open>k\<close> are counted, and those with room are linked.\<close>

definition linked :: "rm_file \<Rightarrow> (page_id \<rightharpoonup> bytes) \<Rightarrow> int \<Rightarrow> bool" where
  "linked fh st k \<longleftrightarrow> (\<forall>no. 1 \<le> no \<and> no < k \<longrightarrow> (\<exists>b. st (PageId (rm_fd fh) no) = Some b \<and>
       num_records (mem_of b) = page_count (file_hdr fh) (mem_of b))) \<and>
     (\<exists>qs. distinct qs \<and> (\<forall>q \<in> set qs. q < k) \<and> free_chain fh st (first_free_page_no (file_hdr fh)) qs)"

definition link_page :: "rm_file_hdr \<Rightarrow> mem \<Rightarrow> mem" where
  "link_page h m = set_next_free (if page_count h m < num_records_per_page h then first_free_page_no h else RM_NO_PAGE)
     (set_num_records (page_count h m) m)"

lemma link_page_facts:
  assumes "layout_ok h" "in_signed 4 (first_free_page_no h)"
  shows "num_records (link_page h m) = page_count h m" "page_slots h (link_page h m) = page_slots h m"
    "page_count h m < num_records_per_page h \<Longrightarrow> next_free_page_no (link_page h m) = first_free_page_no h"
    "slot_ok h j \<Longrightarrow> page_rec h (link_page h m) j = page_rec h m j" "read_int 4 (link_page h m) 0 = read_int 4 m 0"
proof -
  have ok: "slot_ok h 0" using assms(1) by (simp add: layout_ok_def slot_ok_def)
  have cnt: "in_signed 4 (page_count h m)" using count_small(1,2) [OF assms(1), of m] by (simp add: in_signed_def)
  have v: "in_signed 4 (if page_count h m < num_records_per_page h then first_free_page_no h else RM_NO_PAGE)"
    using assms(2) by (simp add: in_signed_def RM_NO_PAGE_def)
  show "num_records (link_page h m) = page_count h m"
    using num_records_edits(2) [OF assms(1) ok v] num_records_edits(1) [OF assms(1) ok cnt] by (simp add: link_page_def)
  show "page_count h m < num_records_per_page h \<Longrightarrow> next_free_page_no (link_page h m) = first_free_page_no h"
    using num_records_edits(5) [OF assms(1) ok v] by (simp add: link_page_def)
  have set: "slot_set (set_num_records n m) j = slot_set m j" for n j by (simp add: slot_set_def set_num_records_def bm_header)
  then show "page_slots h (link_page h m) = page_slots h m" by (simp add: link_page_def) (simp add: page_slots_def)
  have "page_rec h (set_num_records n m) j = page_rec h m j" if "slot_ok h j" for n
    using header_apart(1) [OF assms(1) that] by (simp add: page_rec_def set slot_bytes_def) (simp add: set_num_records_def mem_simps)
  then show "slot_ok h j \<Longrightarrow> page_rec h (link_page h m) j = page_rec h m j"
    by (simp add: link_page_def page_rec_header [OF assms(1)])
  show "read_int 4 (link_page h m) 0 = read_int 4 m 0" by (simp add: link_page_def page_lsns [OF assms(1) ok])
qed

lemma linked_step:
  assumes "linked fh st k" "layout_ok (file_hdr fh)" "1 \<le> k" "k < num_pages (file_hdr fh)" "num_pages (file_hdr fh) < 2 ^ 31"
    "st (PageId (rm_fd fh) k) = Some (mread m 0 PAGE_SIZE)" "m' = link_page (file_hdr fh) m"
    "st' = st(PageId (rm_fd fh) k \<mapsto> mread m' 0 PAGE_SIZE)"
    "fh' = (if page_count (file_hdr fh) m < num_records_per_page (file_hdr fh)
      then fh\<lparr>file_hdr := (file_hdr fh)\<lparr>first_free_page_no := k\<rparr>\<rparr> else fh)"
  shows "linked fh' st' (k + 1) \<and> rm_table fh st' = rm_table fh st"
proof -
  let ?h = "file_hdr fh"
  obtain qs where qs: "distinct qs" "\<forall>q \<in> set qs. q < k" "free_chain fh st (first_free_page_no ?h) qs"
    using assms(1) by (auto simp: linked_def)
  have first: "in_signed 4 (first_free_page_no ?h)"
  proof (cases qs)
    case Nil
    with qs(3) show ?thesis by (simp add: RM_NO_PAGE_def in_signed_def)
  next
    case (Cons q ps)
    with qs(3) assms(5) show ?thesis by (auto simp: in_signed_def)
  qed
  note f = link_page_facts [OF assms(2) first, where m = m, folded assms(7)]
  have shape: "same_shape fh fh'" using same_shape_refl by (auto simp: assms(9) same_shape_def)
  note e = same_shape_eqs [OF shape]
  have h': "num_records_per_page (file_hdr fh') = num_records_per_page ?h" by (simp add: assms(9))
  have pc: "page_count (file_hdr fh') = page_count ?h" by (simp add: fun_eq_iff page_count_def page_slots_def e)
  have chain: "free_chain fh' st' (first_free_page_no ?h) qs"
    by (rule chain_edit [OF qs(3) assms(8)]) (use qs(2) e h' in auto)
  have same: "num_records (mem_of (mread m' 0 PAGE_SIZE)) = page_count ?h m"
    "next_free_page_no (mem_of (mread m' 0 PAGE_SIZE)) = next_free_page_no m'"
    "page_count ?h (mem_of (mread m' 0 PAGE_SIZE)) = page_count ?h m"
    using same_page_fields [OF same_page_mem_of, of m'] same_page_slots [OF assms(2) same_page_mem_of, of m'] f(1,2)
    by (simp_all add: page_count_def)
  have "\<exists>qs. distinct qs \<and> (\<forall>q \<in> set qs. q < k + 1) \<and> free_chain fh' st' (first_free_page_no (file_hdr fh')) qs"
  proof (cases "page_count ?h m < num_records_per_page ?h")
    case True
    then have "free_chain fh' st' (first_free_page_no (file_hdr fh')) (k # qs)"
      using chain f(3) same assms(3,4,8) h' e by (simp add: assms(9))
    moreover have "distinct (k # qs)" "\<forall>q \<in> set (k # qs). q < k + 1" using qs(1,2) by fastforce+
    ultimately show ?thesis by blast
  next
    case False
    with chain qs(1,2) show ?thesis by (intro exI [of _ qs]) (auto simp: assms(9))
  qed
  moreover have "\<exists>b. st' (PageId (rm_fd fh') no) = Some b \<and> num_records (mem_of b) = page_count (file_hdr fh') (mem_of b)"
    if "1 \<le> no \<and> no < k + 1" for no
  proof (cases "no = k")
    case True
    then show ?thesis using same by (simp add: assms(8) e pc)
  next
    case False
    with that assms(1) show ?thesis by (simp add: linked_def assms(8) e pc)
  qed
  ultimately have "linked fh' st' (k + 1)" by (simp add: linked_def)
  moreover have "rm_table fh st' = (rm_table fh st)(Rid k 0 := page_rec ?h m 0)"
    unfolding assms(8)
    by (rule table_edit [where m = m and st = st, OF assms(2-4) _ assms(6)]) (use assms(2) f(4) in \<open>auto simp: layout_ok_def slot_ok_def\<close>)
  moreover have "rm_table fh st (Rid k 0) = page_rec ?h m 0"
    using rm_table_page [of fh "Rid k 0" st m] assms(2-4,6) by (simp add: layout_ok_def slot_ok_def)
  ultimately show ?thesis by (simp add: fun_upd_idem)
qed


lemma raw_bound: "raw_file s fh st \<Longrightarrow> num_pages (file_hdr fh) \<le> 2 ^ 20"
proof (cases "num_pages (file_hdr fh) = 1")
  case False
  let ?no = "num_pages (file_hdr fh) - 1"
  assume raw: "raw_file s fh st"
  with False have "st (PageId (rm_fd fh) ?no) \<noteq> None" by (simp add: raw_file_def)
  with raw have "data_id (st_disk s) (PageId (rm_fd fh) ?no)" by (auto simp: raw_file_def known_def)
  then have "valid_no ?no" by (simp add: data_id_def)
  then show ?thesis by (simp add: valid_no_def)
qed simp

lemma relink_one:
  assumes "raw_file s fh st" "linked fh st k" "1 \<le> k" "k < num_pages (file_hdr fh)" "spare s \<noteq> {}"
  shows "\<exists>s' fh' st'. (\<forall>nos. relink (k # nos) (s, fh, None) = relink nos (s', fh', None)) \<and> went (s, fh, st) (s', fh', st') \<and>
      linked fh' st' (k + 1) \<and> rm_table fh' st' = rm_table fh st"
proof -
  let ?h = "file_hdr fh"
  obtain f' s1 where f: "fetch_page (PageId (rm_fd fh) k) s = (Inr (Some f'), s1)" by (rule raw_fetches [OF assms(1,3-5)])
  from raw_fetch [OF assms(1,3,4) f] have h: "held s1 st (PageId (rm_fd fh) k) f' (frame_mem s1 f')" by auto
  define m where "m = frame_mem s1 f'"
  define fh' where "fh' = (if page_count ?h m < num_records_per_page ?h then fh\<lparr>file_hdr := ?h\<lparr>first_free_page_no := k\<rparr>\<rparr> else fh)"
  define st' where "st' = st(PageId (rm_fd fh) k \<mapsto> mread (link_page ?h m) 0 PAGE_SIZE)"
  have lay: "layout_ok ?h" using assms(1) by (simp add: raw_file_def)
  have "num_pages ?h < 2 ^ 31" using raw_bound [OF assms(1)] by simp
  from linked_step [OF assms(2) lay assms(3,4) this heldD(5) [OF h, folded m_def] refl st'_def fh'_def]
  have l: "linked fh' st' (k + 1)" "rm_table fh st' = rm_table fh st" by auto
  have shape: "same_shape fh fh'" using same_shape_refl by (auto simp: fh'_def same_shape_def)
  define g where "g = (\<lambda>x. set_next_free (if page_count ?h m < num_records_per_page ?h then first_free_page_no ?h else RM_NO_PAGE)
    (set_num_records (page_count ?h m) x))"
  have "st' = st(PageId (rm_fd fh) k \<mapsto> mread (g (frame_mem s1 f')) 0 PAGE_SIZE)"
    by (simp add: st'_def g_def m_def link_page_def)
  from raw_edit [where g = g, OF assms(1,3,4) f shape this] obtain s2 where
    s2: "unpin_frame f' True (write_frame f' g s1, fh', None) = (s2, fh', None)" "went (s, fh, st) (s2, fh', st')" by blast
  have "relink (k # nos) (s, fh, None) = relink nos (s2, fh', None)" for nos
    using f s2(1) heldD(7) [OF h]
    by (auto simp: fetch_frame_def run_simps Let_def count_slots_card edit_frame_def edit_hdr_def write_frame_twice
        m_def [symmetric] g_def fh'_def)
  moreover have "rm_table fh' st' = rm_table fh st" using l(2) same_shape_eqs(4) [OF shape] by simp
  ultimately show ?thesis using s2(2) l(1) by blast
qed

lemma relink_run:
  assumes "raw_file s fh st" "linked fh st k" "1 \<le> k" "k \<le> num_pages (file_hdr fh)" "spare s \<noteq> {}"
  shows "\<exists>s' fh' st'. relink [k..num_pages (file_hdr fh) - 1] (s, fh, None) = (Inr (), s', fh', None) \<and> went (s, fh, st) (s', fh', st') \<and>
      linked fh' st' (num_pages (file_hdr fh)) \<and> rm_table fh' st' = rm_table fh st"
  using assms
proof (induction "nat (num_pages (file_hdr fh) - k)" arbitrary: s fh st k)
  case 0
  then have "k = num_pages (file_hdr fh)" by simp
  moreover have "went (s, fh, st) (s, fh, st)" using 0 by (simp add: went_def same_shape_refl kept_refl)
  ultimately show ?case using 0 by (auto simp: run_simps)
next
  case (Suc d)
  let ?n = "num_pages (file_hdr fh)"
  have lt: "k < ?n" using Suc.hyps(2) by simp
  then have list: "[k..?n - 1] = k # [k + 1..?n - 1]" by (simp add: upto.simps)
  from relink_one [OF Suc.prems(1-3) lt Suc.prems(5)] obtain s1 fh1 st1 where
    w: "\<forall>nos. relink (k # nos) (s, fh, None) = relink nos (s1, fh1, None)" "went (s, fh, st) (s1, fh1, st1)"
      "linked fh1 st1 (k + 1)" "rm_table fh1 st1 = rm_table fh st" by blast
  have sh: "raw_file s1 fh1 st1" "num_pages (file_hdr fh1) = ?n" "spare s1 \<noteq> {}"
    using w(2) same_shape_eqs(2) Suc.prems(5) by (auto simp: went_def)
  from Suc.hyps(1) [of fh1 "k + 1" s1 st1] Suc.hyps(2) sh w(3) Suc.prems(3) lt
  have "\<exists>s' fh' st'. relink [k + 1..?n - 1] (s1, fh1, None) = (Inr (), s', fh', None) \<and> went (s1, fh1, st1) (s', fh', st') \<and>
    linked fh' st' ?n \<and> rm_table fh' st' = rm_table fh1 st1" by simp
  then show ?case unfolding list using w(1,4) went_trans [OF w(2)] by metis
qed

lemma rebuild_run:
  assumes "raw_file s fh st" "spare s \<noteq> {}"
  shows "\<exists>s' fh' st'. rebuild_free_list (s, fh, None) = (Inr (), s', fh', None) \<and> went (s, fh, st) (s', fh', st') \<and>
      rm_ok fh' st' \<and> rm_table fh' st' = rm_table fh st"
proof -
  let ?fh = "fh\<lparr>file_hdr := (file_hdr fh)\<lparr>first_free_page_no := RM_NO_PAGE\<rparr>\<rparr>"
  have sh: "same_shape fh ?fh" by (auto simp: same_shape_def)
  note e = same_shape_eqs [OF sh]
  have w0: "went (s, fh, st) (s, ?fh, st)" using assms(1) sh by (simp add: went_def e kept_refl)
  have "linked ?fh st 1" by (auto simp: linked_def intro!: exI [of _ "[]"])
  moreover have "raw_file s ?fh st" "1 \<le> num_pages (file_hdr ?fh)" using assms(1) by (simp only: e, simp add: raw_file_def)
  ultimately obtain s' fh' st' where
    w: "relink [1..num_pages (file_hdr fh) - 1] (s, ?fh, None) = (Inr (), s', fh', None)" "went (s, ?fh, st) (s', fh', st')"
      "linked fh' st' (num_pages (file_hdr fh))" "rm_table fh' st' = rm_table ?fh st"
    using relink_run [of s ?fh st 1] assms(2) by auto
  have r': "raw_file s' fh' st'" "same_shape ?fh fh'" using w(2) by (auto simp: went_def)
  note e' = same_shape_eqs [OF r'(2)]
  have "fd2pageno (st_disk s') (rm_fd fh') = num_pages (file_hdr fh')" using r'(1) by (simp add: raw_file_def rm_pool_def)
  then have "s'\<lparr>st_disk := set_fd2pageno (rm_fd fh') (num_pages (file_hdr fh')) (st_disk s')\<rparr> = s'"
    by (simp add: set_fd2pageno_def fun_upd_idem)
  then have "rebuild_free_list (s, fh, None) = (Inr (), s', fh', None)"
    using w(1) by (simp add: rebuild_free_list_def edit_hdr_def run_simps)
  moreover have "rm_ok fh' st'" using r' w(3) by (auto simp: rm_ok_def linked_def raw_file_def e' e)
  ultimately show ?thesis using w(4) went_trans [OF w0 w(2)] by (auto simp: e)
qed


end
