(* ===== verification/Log_Replay.thy ===== *)
theory Log_Replay
  imports Log_Record
begin

text \<open>
  What the changes in a log say about the tables of a database, apart from pages and pools: the tables
  as one map, a change made and taken back, the history of a log, and the two facts recovery rests on.
  Repeating the changes a page does not have leads every page to the end of the history; taking back
  the changes of some transactions from there leaves the history of the others.
\<close>

type_synonym tables = "string \<Rightarrow> rid \<rightharpoonup> bytes"

section \<open>Changes\<close>

fun place_of :: "log_record \<Rightarrow> (string \<times> rid) option" where
  "place_of (InsertLog h v pos t) = Some (t, pos)"
| "place_of (DeleteLog h v pos t) = Some (t, pos)"
| "place_of (UpdateLog h v w pos t) = Some (t, pos)"
| "place_of _ = None"

definition put_row :: "string \<Rightarrow> rid \<Rightarrow> bytes option \<Rightarrow> tables \<Rightarrow> tables" where
  "put_row t pos x T = T(t := (T t)(pos := x))"

fun before_image :: "log_record \<Rightarrow> bytes option" where
  "before_image (DeleteLog h v pos t) = Some v"
| "before_image (UpdateLog h v w pos t) = Some v"
| "before_image _ = None"

fun after_image :: "log_record \<Rightarrow> bytes option" where
  "after_image (InsertLog h v pos t) = Some v"
| "after_image (UpdateLog h v w pos t) = Some w"
| "after_image _ = None"

definition make_change :: "log_record \<Rightarrow> tables \<Rightarrow> tables" where
  "make_change r T = (case place_of r of None \<Rightarrow> T | Some (t, pos) \<Rightarrow> put_row t pos (after_image r) T)"

definition history :: "log_record list \<Rightarrow> tables \<Rightarrow> tables" where
  "history rs T = fold make_change rs T"

text \<open>Each change finds the row its record says it found.\<close>

fun consistent :: "log_record list \<Rightarrow> tables \<Rightarrow> bool" where
  "consistent [] T \<longleftrightarrow> True"
| "consistent (r # rs) T \<longleftrightarrow> (\<forall>t pos. place_of r = Some (t, pos) \<longrightarrow> T t pos = before_image r) \<and> consistent rs (make_change r T)"

lemma history_simps [simp]: "history [] T = T" "history (r # rs) T = history rs (make_change r T)"
  "history (rs @ [r]) T = make_change r (history rs T)"
  by (simp_all add: history_def)

lemma put_row_at [simp]: "put_row t pos x T t' q = (if t' = t \<and> q = pos then x else T t' q)"
  by (auto simp: put_row_def)

lemma make_change_at:
  "make_change r T t q = (if place_of r = Some (t, q) then after_image r else T t q)"
  by (auto simp: make_change_def split: option.split)

lemma history_local: "T t q = T' t q \<Longrightarrow> history rs T t q = history rs T' t q"
proof (induction rs arbitrary: T T')
  case (Cons r rs)
  show ?case unfolding history_simps by (rule Cons.IH) (simp add: make_change_at Cons.prems)
qed simp

lemma history_untouched: "(\<And>r. r \<in> set rs \<Longrightarrow> place_of r \<noteq> Some (t, q)) \<Longrightarrow> history rs T t q = T t q"
  by (induction rs arbitrary: T) (simp_all add: make_change_at)

lemma consistent_append: "consistent (rs @ rs') T \<longleftrightarrow> consistent rs T \<and> consistent rs' (history rs T)"
  by (induction rs arbitrary: T) auto

section \<open>Where a row may stand\<close>

text \<open>
  A rollback while the server runs puts rows back without logging it and without a new LSN on the page.
  So a row on a page need not be what the history says: it may also be an earlier version of it, as
  long as only transactions that recovery takes back changed the row after that version. \<open>stands\<close>
  says that \<open>x\<close> is such a version of the row at \<open>q\<close> of table \<open>t\<close>, for the log \<open>rs\<close> and the
  transactions \<open>X\<close>; the present one is a special case.
\<close>

definition stands :: "int set \<Rightarrow> log_record list \<Rightarrow> tables \<Rightarrow> string \<Rightarrow> rid \<Rightarrow> bytes option \<Rightarrow> bool" where
  "stands X rs T0 t q x \<longleftrightarrow> (\<exists>xs ys. rs = xs @ ys \<and> x = history xs T0 t q \<and>
     (\<forall>r \<in> set ys. place_of r = Some (t, q) \<longrightarrow> log_tid (hdr r) \<in> X))"

lemma stands_now: "stands X rs T0 t q (history rs T0 t q)"
  unfolding stands_def by (rule exI [of _ rs], rule exI [of _ "[]"]) simp

section \<open>Repeating the history\<close>

text \<open>
  \<open>L t no\<close> is the LSN on page \<open>no\<close> of table \<open>t\<close>. Every row on a page is as the changes up to the LSN of
  the page left it, or, when none of its changes has a larger LSN, has one of the contents \<open>B\<close> a
  rollback may have put back. \<open>ahead\<close> says so of the pages of the tables \<open>V\<close>, for the log \<open>rs\<close> still to be
  replayed from the tables \<open>T0\<close>.
\<close>

definition ahead :: "string set \<Rightarrow> (string \<Rightarrow> rid \<Rightarrow> bytes option \<Rightarrow> bool) \<Rightarrow> log_record list \<Rightarrow> tables \<Rightarrow> tables \<Rightarrow>
    (string \<Rightarrow> int \<Rightarrow> int) \<Rightarrow> bool" where
  "ahead V B rs T0 T L \<longleftrightarrow> (\<forall>t q. t \<in> V \<longrightarrow>
     T t q = history (filter (\<lambda>r. lsn (hdr r) \<le> L t (page_no q)) rs) T0 t q \<or>
     B t q (T t q) \<and> (\<forall>r \<in> set rs. place_of r = Some (t, q) \<longrightarrow> lsn (hdr r) \<le> L t (page_no q)))"

definition replayed :: "string set \<Rightarrow> log_record \<Rightarrow> tables \<times> (string \<Rightarrow> int \<Rightarrow> int) \<Rightarrow> tables \<times> (string \<Rightarrow> int \<Rightarrow> int)" where
  "replayed V r = (\<lambda>(T, L). case place_of r of
     None \<Rightarrow> (T, L)
   | Some (t, pos) \<Rightarrow> if t \<in> V \<and> L t (page_no pos) < lsn (hdr r)
       then (make_change r T, L(t := (L t)(page_no pos := lsn (hdr r)))) else (T, L))"

definition lsns_rise :: "log_record list \<Rightarrow> bool" where
  "lsns_rise rs \<longleftrightarrow> sorted_wrt (\<lambda>r r'. lsn (hdr r) < lsn (hdr r')) rs"

lemma ahead_end: "ahead V B [] T0 T L \<Longrightarrow> t \<in> V \<Longrightarrow> T t q = T0 t q \<or> B t q (T t q)"
  by (auto simp: ahead_def)

text \<open>A page behind the next change of one of its rows has that row as the log found it.\<close>

lemma ahead_old:
  assumes "ahead V B (r # rs) T0 T L" "lsns_rise (r # rs)" "L t (page_no q) < lsn (hdr r)" "t \<in> V"
  shows "T t q = T0 t q \<or> B t q (T t q) \<and> (\<forall>x \<in> set (r # rs). place_of x \<noteq> Some (t, q))"
proof -
  have later: "lsn (hdr r) \<le> lsn (hdr x)" if "x \<in> set (r # rs)" for x
    using assms(2) that by (auto simp: lsns_rise_def)
  have "filter (\<lambda>x. lsn (hdr x) \<le> L t (page_no q)) (r # rs) = []"
    unfolding filter_empty_conv using later assms(3) by fastforce
  with assms(1,4) have "T t q = T0 t q \<or>
     B t q (T t q) \<and> (\<forall>r \<in> set (r # rs). place_of r = Some (t, q) \<longrightarrow> lsn (hdr r) \<le> L t (page_no q))"
    unfolding ahead_def by (metis history_simps(1))
  then show ?thesis using later assms(3) by fastforce
qed

lemma ahead_behind:
  assumes "ahead V B (r # rs) T0 T L" "lsns_rise (r # rs)" "L t (page_no pos) < lsn (hdr r)" "t \<in> V"
    "place_of r = Some (t, pos)"
  shows "T t pos = T0 t pos"
  using ahead_old [OF assms(1-4)] assms(5) by auto

lemma replayed_ahead:
  assumes "ahead V B (r # rs) T0 T L" "lsns_rise (r # rs)" "replayed V r (T, L) = (T', L')"
  shows "ahead V B rs (make_change r T0) T' L'"
  unfolding ahead_def
proof (intro allI impI)
  fix t q assume t: "t \<in> V"
  have old: "T t q = history (filter (\<lambda>x. lsn (hdr x) \<le> L t (page_no q)) (r # rs)) T0 t q \<or>
      B t q (T t q) \<and> (\<forall>x \<in> set (r # rs). place_of x = Some (t, q) \<longrightarrow> lsn (hdr x) \<le> L t (page_no q))"
    using assms(1) t unfolding ahead_def by blast
  let ?goal = "T' t q = history (filter (\<lambda>r. lsn (hdr r) \<le> L' t (page_no q)) rs) (make_change r T0) t q \<or>
      B t q (T' t q) \<and> (\<forall>x \<in> set rs. place_of x = Some (t, q) \<longrightarrow> lsn (hdr x) \<le> L' t (page_no q))"
  show ?goal
  proof (cases "\<exists>pos. place_of r = Some (t, pos) \<and> page_no pos = page_no q \<and> L t (page_no pos) < lsn (hdr r)")
    case True
    then obtain pos where pos: "place_of r = Some (t, pos)" "page_no pos = page_no q" "L t (page_no q) < lsn (hdr r)" by auto
    have T: "T' = make_change r T" "L' t (page_no q) = lsn (hdr r)"
      using assms(3) pos t by (auto simp: replayed_def)
    have now: "filter (\<lambda>x. lsn (hdr x) \<le> lsn (hdr r)) rs = []"
      using assms(2) by (auto simp: lsns_rise_def filter_empty_conv)
    from ahead_old [OF assms(1,2) pos(3) t] show ?thesis
    proof
      assume "T t q = T0 t q"
      with T now show ?thesis by (simp add: make_change_at)
    next
      assume "B t q (T t q) \<and> (\<forall>x \<in> set (r # rs). place_of x \<noteq> Some (t, q))"
      with T(1) show ?thesis by (simp add: make_change_at)
    qed
  next
    case False
    then have same: "T' t q = T t q" "L' t (page_no q) = L t (page_no q)"
      using assms(3) by (auto simp: replayed_def make_change_at split: option.splits prod.splits if_splits)
    from old show ?thesis
    proof
      assume h: "T t q = history (filter (\<lambda>x. lsn (hdr x) \<le> L t (page_no q)) (r # rs)) T0 t q"
      show ?thesis
      proof (cases "lsn (hdr r) \<le> L t (page_no q)")
        case True
        with h same show ?thesis by simp
      next
        case behind: False
        with False have "place_of r \<noteq> Some (t, q)" by force
        then have "make_change r T0 t q = T0 t q" by (simp add: make_change_at)
        with behind h same history_local [of "make_change r T0" t q T0] show ?thesis by simp
      qed
    next
      assume "B t q (T t q) \<and> (\<forall>x \<in> set (r # rs). place_of x = Some (t, q) \<longrightarrow> lsn (hdr x) \<le> L t (page_no q))"
      with same show ?thesis by simp
    qed
  qed
qed

section \<open>Taking changes back\<close>

text \<open>Nobody else changes a row after a loser did.\<close>

definition isolated :: "int set \<Rightarrow> log_record list \<Rightarrow> bool" where
  "isolated X rs \<longleftrightarrow> sorted_wrt (\<lambda>r r'. place_of r \<noteq> None \<and> place_of r' = place_of r \<and> log_tid (hdr r) \<in> X \<longrightarrow> log_tid (hdr r') \<in> X) rs"

definition of_losers :: "int set \<Rightarrow> log_record list \<Rightarrow> log_record list" where
  "of_losers X rs = filter (\<lambda>r. log_tid (hdr r) \<in> X) rs"

definition of_winners :: "int set \<Rightarrow> log_record list \<Rightarrow> log_record list" where
  "of_winners X rs = filter (\<lambda>r. log_tid (hdr r) \<notin> X) rs"

text \<open>
  A change is taken back as far as the row allows: an inserted row is deleted if it is there, a deleted
  one inserted if it is not, an updated one changed if it is there.
\<close>

fun undo_put :: "log_record \<Rightarrow> bytes option \<Rightarrow> bytes option" where
  "undo_put (DeleteLog h v pos t) x = (case x of None \<Rightarrow> Some v | Some y \<Rightarrow> Some y)"
| "undo_put (UpdateLog h v w pos t) x = (case x of None \<Rightarrow> None | Some y \<Rightarrow> Some v)"
| "undo_put _ x = None"

definition undo_change :: "log_record \<Rightarrow> tables \<Rightarrow> tables" where
  "undo_change r T = (case place_of r of None \<Rightarrow> T | Some (t, pos) \<Rightarrow> put_row t pos (undo_put r (T t pos)) T)"

definition taken_back :: "log_record list \<Rightarrow> tables \<Rightarrow> tables" where
  "taken_back rs T = fold undo_change rs T"

lemma undo_change_at:
  "undo_change r T t q = (if place_of r = Some (t, q) then undo_put r (T t q) else T t q)"
  by (auto simp: undo_change_def split: option.split)

text \<open>Row by row: only the changes of the row count.\<close>

definition at_row :: "string \<Rightarrow> rid \<Rightarrow> log_record list \<Rightarrow> log_record list" where
  "at_row t q rs = filter (\<lambda>r. place_of r = Some (t, q)) rs"

definition row_after :: "log_record list \<Rightarrow> bytes option \<Rightarrow> bytes option" where
  "row_after rs x = fold (\<lambda>r _. after_image r) rs x"

fun chained :: "bytes option \<Rightarrow> log_record list \<Rightarrow> bool" where
  "chained x [] \<longleftrightarrow> True"
| "chained x (r # rs) \<longleftrightarrow> place_of r \<noteq> None \<and> x = before_image r \<and> chained (after_image r) rs"

lemma history_row: "history rs T t q = row_after (at_row t q rs) (T t q)"
  by (induction rs arbitrary: T) (auto simp: row_after_def at_row_def make_change_at)

lemma taken_back_row: "taken_back rs T t q = fold undo_put (at_row t q rs) (T t q)"
  by (induction rs arbitrary: T) (auto simp: taken_back_def at_row_def undo_change_at)

lemma consistent_row: "consistent rs T \<Longrightarrow> chained (T t q) (at_row t q rs)"
proof (induction rs arbitrary: T)
  case (Cons r rs)
  then have "chained (make_change r T t q) (at_row t q rs)" by simp
  with Cons.prems show ?case by (auto simp: at_row_def make_change_at)
qed (simp add: at_row_def)

lemma chained_append: "chained x (rs @ rs') \<longleftrightarrow> chained x rs \<and> chained (row_after rs x) rs'"
  by (induction rs arbitrary: x) (auto simp: row_after_def)

lemma row_after_append: "row_after (rs @ rs') x = row_after rs' (row_after rs x)"
  by (simp add: row_after_def)

lemma undo_put_undoes: "place_of r \<noteq> None \<Longrightarrow> undo_put r (after_image r) = before_image r"
  by (cases r) simp_all

text \<open>Changes taken back from the end of a chain lead to its start.\<close>

lemma undo_chain: "chained x rs \<Longrightarrow> fold undo_put (rev rs) (row_after rs x) = x"
proof (induction rs arbitrary: x)
  case (Cons r rs)
  then have "fold undo_put (rev rs) (row_after rs (after_image r)) = after_image r" by simp
  with Cons.prems undo_put_undoes [of r] show ?case by (simp add: row_after_def)
qed (simp add: row_after_def)

text \<open>Taken back from any other content \<open>c\<close>, they lead to the start or leave \<open>c\<close>.\<close>

lemma undo_elsewhere: "chained x rs \<Longrightarrow> fold undo_put (rev rs) c = x \<or> fold undo_put (rev rs) c = c"
proof (induction rs arbitrary: x)
  case (Cons r rs)
  then have "fold undo_put (rev rs) c = after_image r \<or> fold undo_put (rev rs) c = c" by simp
  with Cons.prems show ?case by (cases r) (auto split: option.splits)
qed simp

lemma undo_missing: "chained x rs \<Longrightarrow> fold undo_put (rev rs) x = x"
  using undo_elsewhere [of x rs x] by simp

lemma at_row_append: "at_row t q (xs @ ys) = at_row t q xs @ at_row t q ys"
  by (simp add: at_row_def)

lemma at_row_losers: "at_row t q (rev (of_losers X rs)) = rev (filter (\<lambda>r. log_tid (hdr r) \<in> X) (at_row t q rs))"
  by (simp add: at_row_def of_losers_def rev_filter filter_filter conj_commute)

text \<open>The changes of a row: those of winners first, then those of losers.\<close>

lemma isolated_split:
  assumes "isolated X rs"
  obtains ws ls where "at_row t q rs = ws @ ls" "\<forall>r \<in> set ws. log_tid (hdr r) \<notin> X" "\<forall>r \<in> set ls. log_tid (hdr r) \<in> X"
proof -
  let ?W = "\<lambda>r. log_tid (hdr r) \<notin> X" and ?rs = "at_row t q rs"
  have "sorted_wrt (\<lambda>r r'. log_tid (hdr r) \<in> X \<longrightarrow> log_tid (hdr r') \<in> X) ?rs"
    unfolding at_row_def
    by (rule sorted_wrt_mono_rel [OF _ sorted_wrt_filter [OF assms [unfolded isolated_def]]]) auto
  then have sorted: "sorted_wrt (\<lambda>r r'. log_tid (hdr r) \<in> X \<longrightarrow> log_tid (hdr r') \<in> X) (dropWhile ?W ?rs)"
    by (metis sorted_wrt_append takeWhile_dropWhile_id)
  have lo: "\<forall>r \<in> set (dropWhile ?W ?rs). log_tid (hdr r) \<in> X"
  proof (cases "dropWhile ?W ?rs")
    case (Cons d ds)
    then have "log_tid (hdr d) \<in> X" using hd_dropWhile [of ?W ?rs] by simp
    with sorted Cons show ?thesis by simp
  next
    case Nil
    then show ?thesis by (simp only: Nil list.set ball_empty)
  qed
  have wi: "\<forall>r \<in> set (takeWhile ?W ?rs). ?W r" by (auto dest: set_takeWhileD)
  show thesis by (rule that [OF takeWhile_dropWhile_id [symmetric] wi lo])
qed

text \<open>Taking back the losers' changes from any content a row may stand at leaves the winners' history.\<close>

lemma losers_taken_back:
  assumes "consistent rs T0" "isolated X rs" "stands X rs T0 t q (T t q)"
  shows "taken_back (rev (of_losers X rs)) T t q = history (of_winners X rs) T0 t q"
proof -
  let ?x0 = "T0 t q"
  obtain ws ls where sp: "at_row t q rs = ws @ ls" "\<forall>r \<in> set ws. log_tid (hdr r) \<notin> X" "\<forall>r \<in> set ls. log_tid (hdr r) \<in> X"
    by (rule isolated_split [OF assms(2)])
  obtain xs ys where xy: "rs = xs @ ys" "T t q = row_after (at_row t q xs) ?x0" "\<forall>r \<in> set (at_row t q ys). log_tid (hdr r) \<in> X"
    using assms(3) by (auto simp: stands_def history_row at_row_def)
  have ch: "chained ?x0 (ws @ ls)" using consistent_row [OF assms(1), of t q] sp(1) by simp
  have eq: "ws @ ls = at_row t q xs @ at_row t q ys" using sp(1) xy(1) by (simp add: at_row_append)
  obtain us where us: "ws = at_row t q xs @ us \<and> us @ ls = at_row t q ys \<or> ws @ us = at_row t q xs \<and> ls = us @ at_row t q ys"
    using eq by (auto simp: append_eq_append_conv2)
  moreover have "us = []" if "ws = at_row t q xs @ us" "us @ ls = at_row t q ys"
  proof (rule ccontr)
    assume "us \<noteq> []"
    then have "hd us \<in> set ws" "hd us \<in> set (at_row t q ys)" using that by (auto simp flip: that(2))
    with sp(2) xy(3) show False by blast
  qed
  ultimately obtain as where as: "at_row t q xs = ws @ as" "ls = as @ at_row t q ys" by fastforce
  have c: "chained (row_after ws ?x0) as" "chained (T t q) (at_row t q ys)"
    using ch by (simp_all add: as chained_append row_after_append xy(2))
  have "at_row t q (rev (of_losers X rs)) = rev ls"
    using sp by (simp add: at_row_losers filter_empty_conv filter_id_conv [THEN iffD2])
  then have "taken_back (rev (of_losers X rs)) T t q = fold undo_put (rev as) (fold undo_put (rev (at_row t q ys)) (T t q))"
    by (simp add: taken_back_row as(2))
  also have "\<dots> = fold undo_put (rev as) (T t q)" by (simp add: undo_missing [OF c(2)])
  also have "\<dots> = row_after ws ?x0" using undo_chain [OF c(1)] by (simp add: xy(2) as(1) row_after_append)
  also have "\<dots> = history (of_winners X rs) T0 t q"
  proof -
    have "at_row t q (of_winners X rs) = filter (\<lambda>r. log_tid (hdr r) \<notin> X) (at_row t q rs)"
      by (simp add: at_row_def of_winners_def filter_filter conj_commute)
    also have "\<dots> = ws" using sp by (simp add: filter_empty_conv filter_id_conv [THEN iffD2])
    finally show ?thesis by (simp add: history_row)
  qed
  finally show ?thesis .
qed

end
