(* ===== verification/Recovery_Correct.thy ===== *)
theory Recovery_Correct
  imports Recovery_File Log_Replay
begin

text \<open>
  What recovery does to a database: redo repeats the history of the log, undo takes the losers' changes
  back, and the free lists are sound again afterwards, whatever they were at the crash. The losers are
  the transactions the analysis finds unfinished or aborted (\<open>losers\<close> of \<^verbatim>\<open>Log_Analysis\<close>), for any log,
  also one in which a later run of the server uses a transaction id again.
\<close>

section \<open>The tables of a server\<close>

definition tables_of :: "server \<Rightarrow> (page_id \<rightharpoonup> bytes) \<Rightarrow> tables" where
  "tables_of sv st t = (case map_of (sv_fhs sv) t of None \<Rightarrow> Map.empty | Some fh \<Rightarrow> rm_table fh st)"

definition lsns_of :: "server \<Rightarrow> (page_id \<rightharpoonup> bytes) \<Rightarrow> string \<Rightarrow> int \<Rightarrow> int" where
  "lsns_of sv st t = (case map_of (sv_fhs sv) t of None \<Rightarrow> \<lambda>_. 0 | Some fh \<Rightarrow> page_lsn fh st)"

definition opened :: "server \<Rightarrow> string set" where
  "opened sv = dom (map_of (sv_fhs sv))"

text \<open>Open tables with files of their own, no open index, and room in the pool.\<close>

definition restarted :: "server \<Rightarrow> (page_id \<rightharpoonup> bytes) \<Rightarrow> bool" where
  "restarted sv st \<longleftrightarrow> known (sv_store sv) st \<and> distinct (map fst (sv_fhs sv)) \<and> distinct (map (rm_fd \<circ> snd) (sv_fhs sv)) \<and>
     (\<forall>(t, fh) \<in> set (sv_fhs sv). raw_file (sv_store sv) fh st) \<and> sv_ihs sv = [] \<and>
     (\<forall>(t, tab) \<in> set (db_tabs (sv_db sv)). tm_indexes tab = [])"

text \<open>The shape of the files stays, up to pages that are added.\<close>

definition wider :: "rm_file \<Rightarrow> rm_file \<Rightarrow> bool" where
  "wider fh fh' \<longleftrightarrow> rm_fd fh' = rm_fd fh \<and> record_size (file_hdr fh') = record_size (file_hdr fh) \<and>
     num_records_per_page (file_hdr fh') = num_records_per_page (file_hdr fh) \<and> num_pages (file_hdr fh) \<le> num_pages (file_hdr fh')"

lemma wider_refl: "wider fh fh" by (simp add: wider_def)

lemma wider_trans: "wider fh fh1 \<Longrightarrow> wider fh1 fh2 \<Longrightarrow> wider fh fh2"
  by (simp add: wider_def)

lemma same_shape_wider: "same_shape fh fh' \<Longrightarrow> wider fh fh'"
  by (auto simp: same_shape_def wider_def)

lemma grown_wider: "grown k fh fh' \<Longrightarrow> wider fh fh'"
  by (auto simp: grown_def wider_def)

definition server_wider :: "server \<Rightarrow> server \<Rightarrow> bool" where
  "server_wider sv sv' \<longleftrightarrow> (\<forall>t. rel_option wider (map_of (sv_fhs sv) t) (map_of (sv_fhs sv') t))"

lemma server_wider_refl: "server_wider sv sv"
  by (simp add: server_wider_def wider_refl rel_option_reflI)

lemma server_wider_trans: "server_wider sv sv1 \<Longrightarrow> server_wider sv1 sv2 \<Longrightarrow> server_wider sv sv2"
  unfolding server_wider_def by (smt (verit) option.rel_sel wider_trans)

lemma server_wider_opened: "server_wider sv sv' \<Longrightarrow> opened sv' = opened sv"
  unfolding server_wider_def opened_def by (intro set_eqI) (simp add: domIff option.rel_sel del: not_None_eq)

text \<open>A step on one table is a step of the server.\<close>

definition after_table :: "server \<Rightarrow> string \<Rightarrow> storage \<Rightarrow> rm_file \<Rightarrow> server" where
  "after_table sv t s fh = sv\<lparr>sv_store := s, sv_fhs := AList.update t fh (sv_fhs sv)\<rparr>"

lemma on_table_run:
  assumes "map_of (sv_fhs sv) t = Some fh" "m (sv_store sv, fh, None) = (r, s', fh', None)"
  shows "on_table False t m sv = (r, after_table sv t s' fh')"
  using assms by (simp add: on_table_def after_table_def)

lemma update_map_snd: "map_of xs k = Some a \<Longrightarrow> g b = g a \<Longrightarrow> map (g \<circ> snd) (AList.update k b xs) = map (g \<circ> snd) xs"
  by (induction xs) auto

lemma update_keys: "map_of xs k = Some a \<Longrightarrow> map fst (AList.update k b xs) = map fst xs"
  by (induction xs) auto

lemma after_table_run:
  assumes "restarted sv st" "map_of (sv_fhs sv) t = Some fh" "raw_file s' fh' st'" "wider fh fh'" "kept (rm_fd fh) (sv_store sv) st s' st'"
  shows "restarted (after_table sv t s' fh') st' \<and> server_wider sv (after_table sv t s' fh') \<and>
    tables_of (after_table sv t s' fh') st' = (tables_of sv st)(t := rm_table fh' st') \<and>
    lsns_of (after_table sv t s' fh') st' = (lsns_of sv st)(t := page_lsn fh' st')"
proof -
  let ?sv = "after_table sv t s' fh'"
  have dist: "distinct (map fst (sv_fhs sv))" "distinct (map (rm_fd \<circ> snd) (sv_fhs sv))" and
    raws: "\<And>u fu. map_of (sv_fhs sv) u = Some fu \<Longrightarrow> raw_file (sv_store sv) fu st"
    using assms(1) by (auto simp: restarted_def dest: map_of_SomeD)
  have other: "rm_fd fu \<noteq> rm_fd fh" if "map_of (sv_fhs sv) u = Some fu" "u \<noteq> t" for u fu
  proof
    assume eq: "rm_fd fu = rm_fd fh"
    have "inj_on (rm_fd \<circ> snd) (set (sv_fhs sv))" using dist(2) by (simp add: distinct_map)
    with eq map_of_SomeD [OF that(1)] map_of_SomeD [OF assms(2)] have "(u, fu) = (t, fh)" by (metis comp_apply inj_onD snd_conv)
    with that(2) show False by simp
  qed
  have new: "map_of (sv_fhs ?sv) = (map_of (sv_fhs sv))(t \<mapsto> fh')" by (simp add: after_table_def update_conv')
  have k: "known s' st'" using assms(3) by (simp add: raw_file_def)
  have rest: "raw_file s' fu st'" "rm_table fu st' = rm_table fu st" "page_lsn fu st' = page_lsn fu st"
    if "map_of (sv_fhs sv) u = Some fu" "u \<noteq> t" for u fu
    using kept_raw [OF assms(5) raws [OF that(1)] other [OF that] k] by auto
  have keys: "map fst (sv_fhs ?sv) = map fst (sv_fhs sv)" "map (rm_fd \<circ> snd) (sv_fhs ?sv) = map (rm_fd \<circ> snd) (sv_fhs sv)"
    using assms(2,4) update_keys update_map_snd [of "sv_fhs sv" t fh rm_fd fh'] by (auto simp: after_table_def wider_def)
  have "raw_file s' fu st'" if "(u, fu) \<in> set (sv_fhs ?sv)" for u fu
  proof -
    have "distinct (map fst (sv_fhs ?sv))" using dist(1) by (simp add: keys)
    then have "map_of (sv_fhs ?sv) u = Some fu" using that by simp
    then show ?thesis using rest(1) [of u fu] assms(3) by (auto simp: new split: if_splits)
  qed
  then have "restarted ?sv st'" using assms(1) dist keys k by (auto simp: restarted_def after_table_def)
  moreover have "server_wider sv ?sv" using assms(2,4) by (auto simp: server_wider_def new wider_refl intro: rel_option_reflI)
  moreover have "tables_of ?sv st' = (tables_of sv st)(t := rm_table fh' st')" "lsns_of ?sv st' = (lsns_of sv st)(t := page_lsn fh' st')"
    using rest by (auto simp: fun_eq_iff tables_of_def lsns_of_def new split: option.splits)
  ultimately show ?thesis by blast
qed


section \<open>Redo\<close>

lemma no_index: "restarted sv st \<Longrightarrow> fix_indexes t f sv = Some (Inr (), sv)"
proof (cases "is_table t (sv_db sv)")
  case True
  assume "restarted sv st"
  moreover from True obtain tab where tab: "map_of (db_tabs (sv_db sv)) t = Some tab" by (auto simp: is_table_def)
  ultimately have "tm_indexes tab = []" by (auto simp: restarted_def dest: map_of_SomeD)
  with True tab show ?thesis by (simp add: fix_indexes_def prun_simps from_db_def get_table_def ret_def)
qed (simp add: fix_indexes_def)

lemma redo_table_run:
  assumes "restarted sv st" "map_of (sv_fhs sv) t = Some fh" "m (sv_store sv, fh, None) = (Inr b, s', fh', None)"
    "raw_file s' fh' st'" "wider fh fh'" "kept (rm_fd fh) (sv_store sv) st s' st'"
  shows "redo_table t m fs sv = Some (Inr (), after_table sv t s' fh')"
  using on_table_run [where m = m, OF assms(2,3)] no_index [OF conjunct1 [OF after_table_run [OF assms(1,2,4-6)]]] assms(2)
  by (simp add: redo_table_def if_open_def prun_simps ret_def)

text \<open>The record fits its table, and its rows are on pages the file has.\<close>

definition place_fits :: "log_record \<Rightarrow> rid \<Rightarrow> rm_file \<Rightarrow> bool" where
  "place_fits r pos fh \<longleftrightarrow> 1 \<le> page_no pos \<and> page_no pos < 2 ^ 19 - 1 \<and> slot_ok (file_hdr fh) (slot_no pos) \<and>
     in_signed 4 (lsn (hdr r)) \<and>
     (\<forall>v. before_image r = Some v \<or> after_image r = Some v \<longrightarrow> length v = nat (record_size (file_hdr fh)))"

definition log_fits :: "server \<Rightarrow> log_record list \<Rightarrow> bool" where
  "log_fits sv rs \<longleftrightarrow> (\<forall>r \<in> set rs. \<forall>t pos fh. place_of r = Some (t, pos) \<longrightarrow> map_of (sv_fhs sv) t = Some fh \<longrightarrow> place_fits r pos fh)"

definition has_rows :: "server \<Rightarrow> tables \<Rightarrow> bool" where
  "has_rows sv T \<longleftrightarrow> (\<forall>t pos fh. map_of (sv_fhs sv) t = Some fh \<longrightarrow> T t pos \<noteq> None \<longrightarrow> page_no pos < num_pages (file_hdr fh))"

definition log_placed :: "server \<Rightarrow> log_record list \<Rightarrow> bool" where
  "log_placed sv rs \<longleftrightarrow> (\<forall>r \<in> set rs. \<forall>t pos fh. place_of r = Some (t, pos) \<longrightarrow> map_of (sv_fhs sv) t = Some fh \<longrightarrow> placed fh pos)"

lemma wider_open:
  assumes "server_wider sv sv'" "map_of (sv_fhs sv') t = Some fh'"
  obtains fh where "map_of (sv_fhs sv) t = Some fh" "wider fh fh'"
  using assms unfolding server_wider_def by (metis option.rel_distinct(1) option.rel_inject(2) option.exhaust)

lemma wider_fits: "server_wider sv sv' \<Longrightarrow> log_fits sv rs \<Longrightarrow> log_fits sv' rs"
  unfolding log_fits_def by (fastforce simp: place_fits_def slot_ok_def wider_def elim: wider_open)

lemma wider_placed: "server_wider sv sv' \<Longrightarrow> log_placed sv rs \<Longrightarrow> log_placed sv' rs"
  unfolding log_placed_def by (fastforce simp: placed_def slot_ok_def wider_def elim: wider_open)

lemma wider_rows: "server_wider sv sv' \<Longrightarrow> has_rows sv T \<Longrightarrow> has_rows sv' T"
  unfolding has_rows_def by (fastforce simp: wider_def elim: wider_open)

text \<open>The change of one table by a record, when the file has the page.\<close>

definition change_of :: "log_record \<Rightarrow> rid \<Rightarrow> (rm_state, unit) op" where
  "change_of r pos = (case after_image r of
     None \<Rightarrow> attempt (delete_record pos)
   | Some v \<Rightarrow> if before_image r = None then insert_record_at pos v else update_record pos v)"

lemma attempt_puts: "puts m x pos y \<Longrightarrow> puts (attempt m) x pos y"
  unfolding puts_def attempt_def caught_def by (auto split: prod.splits)

lemma change_puts:
  assumes "raw_file s fh st" "placed fh pos" "in_pool s fh (page_no pos)" "place_fits r pos fh"
    "rm_table fh st pos = before_image r" "place_of r = Some (t, pos)"
  shows "puts (change_of r pos) (s, fh, st) pos (after_image r)"
  using puts_insert [OF assms(1-3)] puts_update [OF assms(1-3)] attempt_puts [OF puts_delete [OF assms(1-3)]] assms(4-6)
  by (cases r) (simp_all add: change_of_def place_fits_def)


definition redo_op :: "log_record \<Rightarrow> rid \<Rightarrow> (rm_state, bool) op" where
  "redo_op r pos = (case r of InsertLog h v p t \<Rightarrow> redo_insert pos (lsn h) v
     | _ \<Rightarrow> replay (page_no pos) (lsn (hdr r)) (change_of r pos))"

lemma redo_one_op: "place_of r = Some (t, pos) \<Longrightarrow> \<exists>fs. redo_one r = redo_table t (redo_op r pos) fs"
  by (cases r) (auto simp: redo_one_def redo_op_def change_of_def)

lemma redo_one_none: "place_of r = None \<Longrightarrow> redo_one r = pdo (ret ())"
  by (cases r) (auto simp: redo_one_def)

lemma redo_op_extends:
  assumes "place_of r = Some (t, pos)" "before_image r \<noteq> None \<Longrightarrow> page_no pos < num_pages (file_hdr fh)"
  shows "redo_op r pos (s, fh, u) = andThen (extend_file (nat (page_no pos + 1 - num_pages (file_hdr fh))))
    (\<lambda>_. replay (page_no pos) (lsn (hdr r)) (change_of r pos)) (s, fh, u)"
proof (cases "before_image r = None")
  case True
  with assms(1) show ?thesis by (cases r) (auto simp: redo_op_def redo_insert_def change_of_def)
next
  case False
  with assms have "nat (page_no pos + 1 - num_pages (file_hdr fh)) = 0" by simp
  with False assms(1) show ?thesis by (cases r) (auto simp: redo_op_def run_simps)
qed

lemma redo_op_run:
  assumes "raw_file s fh st" "spare s \<noteq> {}" "place_fits r pos fh" "place_of r = Some (t, pos)"
    "before_image r \<noteq> None \<Longrightarrow> page_no pos < num_pages (file_hdr fh)"
    "page_lsn fh st (page_no pos) < lsn (hdr r) \<Longrightarrow> rm_table fh st pos = before_image r"
  shows "\<exists>b s' fh' st'. redo_op r pos (s, fh, None) = (Inr b, s', fh', None) \<and> raw_file s' fh' st' \<and> wider fh fh' \<and>
      kept (rm_fd fh) s st s' st' \<and> spare s \<subseteq> spare s' \<and> placed fh' pos \<and>
      (rm_table fh' st', page_lsn fh' st') = (if page_lsn fh st (page_no pos) < lsn (hdr r)
        then ((rm_table fh st)(pos := after_image r), (page_lsn fh st)(page_no pos := lsn (hdr r)))
        else (rm_table fh st, page_lsn fh st))"
proof -
  let ?k = "nat (page_no pos + 1 - num_pages (file_hdr fh))"
  note run = redo_op_extends [OF assms(4,5), of s None]
  have big: "num_pages (file_hdr fh) + int ?k < 2 ^ 19 \<or> ?k = 0" using assms(1,3) by (auto simp: place_fits_def raw_file_def)
  have "\<exists>s' fh' st'. extend_file ?k (s, fh, None) = (Inr (), s', fh', None) \<and> raw_file s' fh' st' \<and> grown ?k fh fh' \<and>
      kept (rm_fd fh) s st s' st' \<and> spare s \<subseteq> spare s' \<and> rm_table fh' st' = rm_table fh st \<and> page_lsn fh' st' = page_lsn fh st"
  proof (cases "?k = 0")
    case True
    then have "extend_file ?k = ret ()" by simp
    moreover have "grown ?k fh fh" using True by (simp add: grown_def)
    ultimately show ?thesis using assms(1) kept_refl by (auto simp: ret_def)
  next
    case False
    with big extend_run [OF assms(1,2)] show ?thesis by blast
  qed
  then obtain s1 fh1 st1 where e: "extend_file ?k (s, fh, None) = (Inr (), s1, fh1, None)" "raw_file s1 fh1 st1" "grown ?k fh fh1"
    "kept (rm_fd fh) s st s1 st1" "spare s \<subseteq> spare s1" "rm_table fh1 st1 = rm_table fh st" "page_lsn fh1 st1 = page_lsn fh st" by blast
  have w: "wider fh fh1" using e(3) by (rule grown_wider)
  have pl: "placed fh1 pos" and fits: "place_fits r pos fh1" using assms(3) e(3) by (auto simp: placed_def place_fits_def grown_def slot_ok_def)
  have "in_signed 4 (lsn (hdr r))" using assms(3) by (simp add: place_fits_def)
  moreover have "spare s1 \<noteq> {}" using e(5) assms(2) by blast
  moreover have "puts (change_of r pos) (s', fh1, st1) pos (after_image r)"
    if "page_lsn fh1 st1 (page_no pos) < lsn (hdr r)" "raw_file s' fh1 st1" "in_pool s' fh1 (page_no pos)" for s'
    by (rule change_puts [OF that(2) pl that(3) fits _ assms(4)]) (use that(1) e(6,7) assms(6) in simp)
  ultimately have "\<exists>b s' fh' st'. replay (page_no pos) (lsn (hdr r)) (change_of r pos) (s1, fh1, None) = (Inr b, s', fh', None) \<and>
    went (s1, fh1, st1) (s', fh', st') \<and> (rm_table fh1 st', page_lsn fh1 st') = (if page_lsn fh1 st1 (page_no pos) < lsn (hdr r)
      then ((rm_table fh1 st1)(pos := after_image r), (page_lsn fh1 st1)(page_no pos := lsn (hdr r))) else (rm_table fh1 st1, page_lsn fh1 st1))"
    by (rule replay_run [OF e(2) pl])
  then obtain b s' fh' st' where p: "replay (page_no pos) (lsn (hdr r)) (change_of r pos) (s1, fh1, None) = (Inr b, s', fh', None)"
    "went (s1, fh1, st1) (s', fh', st')" "(rm_table fh1 st', page_lsn fh1 st') = (if page_lsn fh1 st1 (page_no pos) < lsn (hdr r)
      then ((rm_table fh1 st1)(pos := after_image r), (page_lsn fh1 st1)(page_no pos := lsn (hdr r))) else (rm_table fh1 st1, page_lsn fh1 st1))" by blast
  have sh: "same_shape fh1 fh'" "raw_file s' fh' st'" "kept (rm_fd fh1) s1 st1 s' st'" "spare s1 \<subseteq> spare s'"
    using p(2) by (auto simp: went_def)
  note eqs = same_shape_eqs [OF sh(1)]
  have "rm_fd fh1 = rm_fd fh" using w by (simp add: wider_def)
  with sh(3) e(4) kept_trans have "kept (rm_fd fh) s st s' st'" by simp
  moreover have "wider fh fh'" using w same_shape_wider [OF sh(1)] wider_trans by blast
  moreover have "placed fh' pos" using pl by (simp add: placed_def eqs)
  moreover have "spare s \<subseteq> spare s'" using sh(4) e(5) by blast
  ultimately show ?thesis using run e(1,6,7) p(1,3) sh(2) by (auto simp: run_simps eqs)
qed

text \<open>One record: the tables and the LSNs change as \<open>replayed\<close> says.\<close>

definition room :: "server \<Rightarrow> nat" where
  "room sv = card (spare (sv_store sv))"

lemma room_pos: "0 < room sv \<longleftrightarrow> spare (sv_store sv) \<noteq> {}"
  by (simp add: room_def card_gt_0_iff)

lemma room_mono: "spare s \<subseteq> spare s' \<Longrightarrow> card (spare s) \<le> card (spare s')"
  by (rule card_mono) simp_all

lemma opened_iff: "t \<in> opened sv \<longleftrightarrow> (\<exists>fh. map_of (sv_fhs sv) t = Some fh)"
  by (auto simp: opened_def)

lemma redo_one_run:
  assumes "restarted sv st" "0 < room sv" "log_fits sv [r]" "has_rows sv T0" "consistent [r] T0"
    "\<And>t pos. place_of r = Some (t, pos) \<Longrightarrow> t \<in> opened sv \<Longrightarrow> lsns_of sv st t (page_no pos) < lsn (hdr r) \<Longrightarrow>
      tables_of sv st t pos = T0 t pos"
  shows "\<exists>sv' st'. redo_one r sv = Some (Inr (), sv') \<and> restarted sv' st' \<and> server_wider sv sv' \<and>
    room sv \<le> room sv' \<and> has_rows sv' (make_change r T0) \<and> log_placed sv' [r] \<and>
    (tables_of sv' st', lsns_of sv' st') = replayed (opened sv) r (tables_of sv st, lsns_of sv st)"
proof (cases "\<exists>t pos. place_of r = Some (t, pos) \<and> t \<in> opened sv")
  case False
  have "redo_one r sv = Some (Inr (), sv)"
  proof (cases "place_of r")
    case None
    then show ?thesis by (simp add: redo_one_none prun_simps ret_def)
  next
    case (Some q)
    then obtain t pos where q: "place_of r = Some (t, pos)" by (cases q) auto
    with False have "map_of (sv_fhs sv) t = None" by (simp add: opened_def domIff)
    with redo_one_op [OF q] show ?thesis by (auto simp: redo_table_def if_open_def)
  qed
  moreover have "has_rows sv (make_change r T0)"
    using assms(4) False unfolding has_rows_def by (auto simp: make_change_at opened_iff)
  moreover have "log_placed sv [r]" using False by (auto simp: log_placed_def opened_iff)
  moreover have "replayed (opened sv) r x = x" for x using False by (auto simp: replayed_def split: prod.split option.split)
  ultimately show ?thesis using assms(1) server_wider_refl by auto
next
  case True
  then obtain t pos fh where t: "place_of r = Some (t, pos)" "t \<in> opened sv" "map_of (sv_fhs sv) t = Some fh" by (auto simp: opened_iff)
  from redo_one_op [OF t(1)] obtain fs where op: "redo_one r = redo_table t (redo_op r pos) fs" by blast
  have raw: "raw_file (sv_store sv) fh st" using assms(1) t(3) by (auto simp: restarted_def dest: map_of_SomeD)
  have fits: "place_fits r pos fh" using assms(3) t by (simp add: log_fits_def)
  have lsn: "lsns_of sv st t = page_lsn fh st" and tab: "tables_of sv st t = rm_table fh st" using t(3) by (simp_all add: lsns_of_def tables_of_def)
  have T0: "T0 t pos = before_image r" using assms(5) t(1) by simp
  then have "before_image r \<noteq> None \<Longrightarrow> page_no pos < num_pages (file_hdr fh)" using assms(4) t(3) by (auto simp: has_rows_def)
  moreover have "page_lsn fh st (page_no pos) < lsn (hdr r) \<Longrightarrow> rm_table fh st pos = before_image r"
    using assms(6) [OF t(1,2)] lsn tab T0 by simp
  moreover have "spare (sv_store sv) \<noteq> {}" using assms(2) by (simp add: room_pos)
  ultimately have "\<exists>b s' fh' st'. redo_op r pos (sv_store sv, fh, None) = (Inr b, s', fh', None) \<and> raw_file s' fh' st' \<and> wider fh fh' \<and>
      kept (rm_fd fh) (sv_store sv) st s' st' \<and> spare (sv_store sv) \<subseteq> spare s' \<and> placed fh' pos \<and>
      (rm_table fh' st', page_lsn fh' st') = (if page_lsn fh st (page_no pos) < lsn (hdr r)
        then ((rm_table fh st)(pos := after_image r), (page_lsn fh st)(page_no pos := lsn (hdr r)))
        else (rm_table fh st, page_lsn fh st))"
    by (intro redo_op_run [OF raw _ fits t(1)])
  then obtain b s' fh' st' where m: "redo_op r pos (sv_store sv, fh, None) = (Inr b, s', fh', None)" "raw_file s' fh' st'" "wider fh fh'"
    "kept (rm_fd fh) (sv_store sv) st s' st'" "spare (sv_store sv) \<subseteq> spare s'" "placed fh' pos"
    "(rm_table fh' st', page_lsn fh' st') = (if page_lsn fh st (page_no pos) < lsn (hdr r)
      then ((rm_table fh st)(pos := after_image r), (page_lsn fh st)(page_no pos := lsn (hdr r))) else (rm_table fh st, page_lsn fh st))" by blast
  let ?sv = "after_table sv t s' fh'"
  have run: "redo_one r sv = Some (Inr (), ?sv)" unfolding op by (rule redo_table_run [where m = "redo_op r pos", OF assms(1) t(3) m(1-4)])
  note af = after_table_run [OF assms(1) t(3) m(2-4)]
  have new: "map_of (sv_fhs ?sv) = (map_of (sv_fhs sv))(t \<mapsto> fh')" by (simp add: after_table_def update_conv')
  have hr: "has_rows ?sv T0" by (rule wider_rows [OF conjunct1 [OF conjunct2 [OF af]] assms(4)])
  have "has_rows ?sv (make_change r T0)"
    unfolding has_rows_def
  proof (intro allI impI)
    fix t' q fq assume q: "map_of (sv_fhs ?sv) t' = Some fq" "make_change r T0 t' q \<noteq> None"
    show "page_no q < num_pages (file_hdr fq)"
    proof (cases "t' = t \<and> q = pos")
      case True
      with q(1) m(6) show ?thesis by (simp add: new placed_def)
    next
      case False
      with q(2) t(1) have "T0 t' q \<noteq> None" by (auto simp: make_change_at split: if_splits)
      with hr q(1) show ?thesis unfolding has_rows_def by blast
    qed
  qed
  moreover have "log_placed ?sv [r]" using m(6) t(1) by (auto simp: log_placed_def new)
  moreover have "room sv \<le> room ?sv" using room_mono [OF m(5)] by (simp add: room_def after_table_def)
  moreover have "(tables_of ?sv st', lsns_of ?sv st') = replayed (opened sv) r (tables_of sv st, lsns_of sv st)"
    using af m(7) t(1,2) lsn tab
    by (auto simp: replayed_def make_change_def put_row_def fun_upd_idem split: if_splits)
  ultimately show ?thesis using run af by blast
qed


lemma redo_run:
  assumes "restarted sv st" "0 < room sv" "log_fits sv rs" "has_rows sv T0" "consistent rs T0" "lsns_rise rs"
    "ahead (opened sv) B rs T0 (tables_of sv st) (lsns_of sv st)"
  shows "\<exists>sv' st'. redo rs sv = Some (Inr (), sv') \<and> restarted sv' st' \<and> server_wider sv sv' \<and>
    room sv \<le> room sv' \<and> log_placed sv' rs \<and>
    (\<forall>t \<in> opened sv. \<forall>q. tables_of sv' st' t q = history rs T0 t q \<or> B t q (tables_of sv' st' t q))"
  using assms
proof (induction rs arbitrary: sv st T0)
  case Nil
  then show ?case
    using ahead_end [OF Nil.prems(7)] server_wider_refl by (auto simp: redo_def prun_simps ret_def log_placed_def)
next
  case (Cons r rs)
  have behind: "tables_of sv st t pos = T0 t pos"
    if "place_of r = Some (t, pos)" "t \<in> opened sv" "lsns_of sv st t (page_no pos) < lsn (hdr r)" for t pos
    by (rule ahead_behind [OF Cons.prems(7,6) that(3,2,1)])
  have one: "log_fits sv [r]" "consistent [r] T0" using Cons.prems(3,5) by (auto simp: log_fits_def)
  have "\<exists>sv' st'. redo_one r sv = Some (Inr (), sv') \<and> restarted sv' st' \<and> server_wider sv sv' \<and>
    room sv \<le> room sv' \<and> has_rows sv' (make_change r T0) \<and> log_placed sv' [r] \<and>
    (tables_of sv' st', lsns_of sv' st') = replayed (opened sv) r (tables_of sv st, lsns_of sv st)"
    by (rule redo_one_run [OF Cons.prems(1,2) one(1) Cons.prems(4) one(2)]) (rule behind)
  then obtain sv1 st1 where
    s1: "redo_one r sv = Some (Inr (), sv1)" "restarted sv1 st1" "server_wider sv sv1" "room sv \<le> room sv1"
      "has_rows sv1 (make_change r T0)" "log_placed sv1 [r]"
      "replayed (opened sv) r (tables_of sv st, lsns_of sv st) = (tables_of sv1 st1, lsns_of sv1 st1)" by metis
  have op: "opened sv1 = opened sv" by (rule server_wider_opened [OF s1(3)])
  have "ahead (opened sv1) B rs (make_change r T0) (tables_of sv1 st1) (lsns_of sv1 st1)"
    unfolding op by (rule replayed_ahead [OF Cons.prems(7,6) s1(7)])
  moreover have "log_fits sv1 rs" by (rule wider_fits [OF s1(3)]) (use Cons.prems(3) in \<open>simp add: log_fits_def\<close>)
  moreover have "0 < room sv1" "consistent rs (make_change r T0)" "lsns_rise rs"
    using s1(4) Cons.prems(2,5,6) by (auto simp: lsns_rise_def)
  ultimately obtain sv2 st2 where s2: "redo rs sv1 = Some (Inr (), sv2)" "restarted sv2 st2" "server_wider sv1 sv2"
    "room sv1 \<le> room sv2" "log_placed sv2 rs"
    "\<forall>t \<in> opened sv. \<forall>q. tables_of sv2 st2 t q = history (r # rs) T0 t q \<or> B t q (tables_of sv2 st2 t q)"
    using Cons.IH [OF s1(2) _ _ s1(5)] op by auto
  have "redo (r # rs) sv = Some (Inr (), sv2)" using s1(1) s2(1) by (simp add: redo_def prun_simps)
  moreover have "log_placed sv2 (r # rs)" using wider_placed [OF s2(3) s1(6)] s2(5) by (auto simp: log_placed_def)
  ultimately show ?case using s2(2,6) server_wider_trans [OF s1(3) s2(3)] s1(4) s2(4) by (metis order_trans)
qed

section \<open>Undo\<close>

text \<open>The check whether a record is there keeps its page pinned.\<close>

lemma is_record_run:
  assumes "raw_file s fh st" "placed fh pos" "spare s \<noteq> {}"
  shows "\<exists>s'. is_record pos (s, fh, None) = (Inr (rm_table fh st pos \<noteq> None), s', fh, None) \<and> raw_file s' fh st \<and>
      kept (rm_fd fh) s st s' st \<and> card (spare s) \<le> Suc (card (spare s')) \<and> in_pool s' fh (page_no pos)"
proof -
  let ?no = "page_no pos" and ?h = "file_hdr fh"
  have pos: "1 \<le> ?no" "?no < num_pages ?h" "slot_ok ?h (slot_no pos)" using assms(2) by (auto simp: placed_def)
  obtain f' s1 where f: "fetch_page (PageId (rm_fd fh) ?no) s = (Inr (Some f'), s1)" by (rule raw_fetches [OF assms(1) pos(1,2) assms(3)])
  from raw_fetch [OF assms(1) pos(1,2) f] have h: "taken f' s s1" "files_keep {PageId (rm_fd fh) ?no} s s1"
    "held s1 st (PageId (rm_fd fh) ?no) f' (frame_mem s1 f')" "\<not> log_attached s1" by auto
  have "rm_pool s1 (rm_fd fh) (num_pages ?h)"
    by (rule rm_pool_keep [OF _ h(2)]) (use assms(1) pos in \<open>auto simp: raw_file_def\<close>)
  moreover have "header_out s1 fh st"
    using header_out_edit [of s fh st ?no s1] assms(1) pos(1) h(2) by (auto simp: raw_file_def files_keep_def)
  ultimately have "raw_file s1 fh st" using assms(1) heldD(1) [OF h(3)] h(4) by (simp add: raw_file_def)
  moreover have "kept (rm_fd fh) s st s1 st" by (rule files_keep_kept [OF h(2)]) (use assms(1) h(4) in \<open>simp_all add: raw_file_def\<close>)
  moreover have "card (spare s) \<le> card (insert f' (spare s1))" using h(1) by (intro card_mono) (auto simp: taken_def)
  then have "card (spare s) \<le> Suc (card (spare s1))" by (simp add: card_insert_if split: if_splits)
  moreover have "in_pool s1 fh ?no" using heldD(2) [OF h(3)] by (simp add: in_pool_def)
  moreover have "rm_table fh st pos = page_rec ?h (frame_mem s1 f') (slot_no pos)"
    by (rule rm_table_page) (use assms(1) pos heldD(5) [OF h(3)] in \<open>auto simp: raw_file_def\<close>)
  then have "slot_set (frame_mem s1 f') (slot_no pos) \<longleftrightarrow> rm_table fh st pos \<noteq> None" by (simp add: page_rec_def)
  ultimately show ?thesis using f pos by (auto simp: is_record_def fetch_page_handle_def run_simps)
qed

text \<open>What undo does for a record.\<close>

definition undo_op :: "log_record \<Rightarrow> rid \<Rightarrow> (rm_state, unit) op" where
  "undo_op r pos = (case before_image r of
     None \<Rightarrow> delete_record pos
   | Some v \<Rightarrow> if after_image r = None then insert_record_at pos v else update_record pos v)"

lemma undo_puts:
  assumes "raw_file s fh st" "placed fh pos" "in_pool s fh (page_no pos)" "place_fits r pos fh"
    "(rm_table fh st pos \<noteq> None) = (after_image r \<noteq> None)" "place_of r = Some (t, pos)"
  shows "puts (undo_op r pos) (s, fh, st) pos (before_image r)"
  using puts_insert [OF assms(1-3)] puts_update [OF assms(1-3)] puts_delete [OF assms(1-3)] assms(4-6)
  by (cases r) (simp_all add: undo_op_def place_fits_def)

text \<open>A change is taken back when the row is there or not as it left it.\<close>

lemma undo_put_there:
  assumes "place_of r \<noteq> None"
  shows "undo_put r x = (if (x \<noteq> None) = (after_image r \<noteq> None) then before_image r else x)"
  using assms by (cases r) (auto split: option.splits)

lemma undo_one_op: "place_of r = Some (t, pos) \<Longrightarrow> log_tid (hdr r) \<in> X \<Longrightarrow>
    \<exists>fs. undo_one X r = undo_table t pos (after_image r \<noteq> None) (undo_op r pos) fs"
  by (cases r) (auto simp: undo_one_def undo_op_def)

lemma undo_one_none: "place_of r = None \<or> log_tid (hdr r) \<notin> X \<Longrightarrow> undo_one X r = pdo (ret ())"
  by (cases r) (auto simp: undo_one_def)

lemma undo_table_run:
  assumes "restarted sv st" "map_of (sv_fhs sv) t = Some fh" "placed fh pos" "0 < room sv" "place_fits r pos fh"
    "place_of r = Some (t, pos)"
  shows "\<exists>sv' st'. undo_table t pos (after_image r \<noteq> None) (undo_op r pos) fs sv = Some (Inr (), sv') \<and>
    restarted sv' st' \<and> server_wider sv sv' \<and> room sv \<le> Suc (room sv') \<and>
    tables_of sv' st' = undo_change r (tables_of sv st)"
proof -
  have raw: "raw_file (sv_store sv) fh st" using assms(1,2) by (auto simp: restarted_def dest: map_of_SomeD)
  have sp: "spare (sv_store sv) \<noteq> {}" using assms(4) room_pos [of sv] by simp
  from is_record_run [OF raw assms(3) sp] obtain s1 where
    i: "is_record pos (sv_store sv, fh, None) = (Inr (rm_table fh st pos \<noteq> None), s1, fh, None)" "raw_file s1 fh st"
      "kept (rm_fd fh) (sv_store sv) st s1 st" "card (spare (sv_store sv)) \<le> Suc (card (spare s1))" "in_pool s1 fh (page_no pos)" by blast
  let ?sv1 = "after_table sv t s1 fh"
  note a1 = after_table_run [OF assms(1,2) i(2) wider_refl i(3)]
  have t1: "tables_of ?sv1 st = tables_of sv st" using a1 assms(2) by (simp add: fun_eq_iff tables_of_def)
  have m1: "map_of (sv_fhs ?sv1) t = Some fh" "sv_store ?sv1 = s1" by (simp_all add: after_table_def update_conv')
  have now: "tables_of sv st t pos = rm_table fh st pos" using assms(2) by (simp add: tables_of_def)
  have change: "undo_change r (tables_of sv st) = put_row t pos
      (if (rm_table fh st pos \<noteq> None) = (after_image r \<noteq> None) then before_image r else rm_table fh st pos) (tables_of sv st)"
    using undo_put_there [of r "rm_table fh st pos"] assms(6) now by (simp add: undo_change_def)
  note look = on_table_run [where m = "is_record pos", OF assms(2) i(1)]
  have looked: "pThen (pdo (on_table False t (is_record pos))) k sv = k (rm_table fh st pos \<noteq> None) ?sv1"
    for k :: "bool \<Rightarrow> (server, unit) pop" by (rule pThen_Inr) (simp only: pdo_run look)
  show ?thesis
  proof (cases "(rm_table fh st pos \<noteq> None) = (after_image r \<noteq> None)")
    case False
    then have "undo_table t pos (after_image r \<noteq> None) (undo_op r pos) fs sv = Some (Inr (), ?sv1)"
      using looked assms(2) by (cases "after_image r") (simp_all add: undo_table_def if_open_def prun_simps ret_def)
    moreover have "room sv \<le> Suc (room ?sv1)" using i(4) by (simp add: room_def after_table_def)
    moreover have "tables_of ?sv1 st = undo_change r (tables_of sv st)"
      using False t1 now by (auto simp: change fun_eq_iff)
    ultimately show ?thesis using a1 by blast
  next
    case True
    from undo_puts [OF i(2) assms(3) i(5) assms(5) True assms(6)] obtain s2 fh2 st2 where
      p: "undo_op r pos (s1, fh, None) = (Inr (), s2, fh2, None)"
      "went (s1, fh, st) (s2, fh2, st2)" "rm_table fh st2 = (rm_table fh st)(pos := before_image r)" by (auto simp: puts_def)
    have w: "raw_file s2 fh2 st2" "same_shape fh fh2" "kept (rm_fd fh) (sv_store ?sv1) st s2 st2" "spare s1 \<subseteq> spare s2"
      using p(2) m1 by (auto simp: went_def)
    let ?sv2 = "after_table ?sv1 t s2 fh2"
    note a2 = after_table_run [OF conjunct1 [OF a1] m1(1) w(1) same_shape_wider [OF w(2)] w(3)]
    have "undo_table t pos (after_image r \<noteq> None) (undo_op r pos) fs sv = Some (Inr (), ?sv2)"
      using looked on_table_run [where m = "undo_op r pos", OF m1(1), unfolded m1(2), OF p(1)]
        no_index [OF conjunct1 [OF a2]] assms(2) True
      by (simp add: undo_table_def if_open_def prun_simps)
    moreover have "room sv \<le> Suc (room ?sv2)" using i(4) room_mono [OF w(4)] by (simp add: room_def after_table_def)
    moreover have "tables_of ?sv2 st2 = undo_change r (tables_of sv st)"
      using a2 p(3) same_shape_eqs(4) [OF w(2)] t1 assms(2) True by (simp add: change put_row_def tables_of_def)
    moreover have "server_wider sv ?sv2" using a1 a2 server_wider_trans by blast
    ultimately show ?thesis using a2 by blast
  qed
qed


text \<open>One record of a loser is taken back, the others are passed over.\<close>

lemma undo_one_run:
  assumes "restarted sv st" "length (of_losers X [r]) \<le> room sv" "log_fits sv [r]" "log_placed sv [r]"
  shows "\<exists>sv' st'. undo_one X r sv = Some (Inr (), sv') \<and> restarted sv' st' \<and> server_wider sv sv' \<and>
    room sv \<le> length (of_losers X [r]) + room sv' \<and>
    (\<forall>t \<in> opened sv. tables_of sv' st' t = taken_back (of_losers X [r]) (tables_of sv st) t)"
proof (cases "\<exists>t pos. place_of r = Some (t, pos) \<and> log_tid (hdr r) \<in> X \<and> t \<in> opened sv")
  case False
  have "undo_one X r sv = Some (Inr (), sv)"
  proof (cases "place_of r = None \<or> log_tid (hdr r) \<notin> X")
    case True
    then show ?thesis by (simp add: undo_one_none prun_simps ret_def)
  next
    case inX: False
    then obtain t pos where q: "place_of r = Some (t, pos)" "log_tid (hdr r) \<in> X" by auto
    with False have "map_of (sv_fhs sv) t = None" by (simp add: opened_def domIff)
    with undo_one_op [OF q] show ?thesis by (auto simp: undo_table_def if_open_def)
  qed
  moreover have "taken_back (of_losers X [r]) (tables_of sv st) t = tables_of sv st t" if "t \<in> opened sv" for t
    using False that by (auto simp: taken_back_def of_losers_def undo_change_at fun_eq_iff)
  ultimately show ?thesis using assms(1) server_wider_refl [of sv] by auto
next
  case True
  then obtain t pos fh where t: "place_of r = Some (t, pos)" "log_tid (hdr r) \<in> X" "t \<in> opened sv" "map_of (sv_fhs sv) t = Some fh"
    by (auto simp: opened_iff)
  from undo_one_op [OF t(1,2)] obtain fs where op: "undo_one X r = undo_table t pos (after_image r \<noteq> None) (undo_op r pos) fs" by blast
  have pl: "placed fh pos" "place_fits r pos fh" "0 < room sv" using assms(2-4) t by (auto simp: log_placed_def log_fits_def of_losers_def)
  from undo_table_run [OF assms(1) t(4) pl(1,3,2) t(1), of fs] obtain sv' st' where
    "undo_one X r sv = Some (Inr (), sv')" "restarted sv' st'" "server_wider sv sv'" "room sv \<le> Suc (room sv')"
    "tables_of sv' st' = undo_change r (tables_of sv st)" unfolding op by blast
  then show ?thesis using t(2) by (intro exI [of _ sv'] exI [of _ st']) (simp add: taken_back_def of_losers_def)
qed

text \<open>The records of a log from its end.\<close>

lemma undo_records_run:
  assumes "restarted sv st" "length (of_losers X rs) \<le> room sv" "log_fits sv rs" "log_placed sv rs"
  shows "\<exists>sv' st'. for_all (undo_one X) (rev rs) sv = Some (Inr (), sv') \<and> restarted sv' st' \<and> server_wider sv sv' \<and>
    room sv \<le> length (of_losers X rs) + room sv' \<and>
    (\<forall>t \<in> opened sv. tables_of sv' st' t = taken_back (rev (of_losers X rs)) (tables_of sv st) t)"
  using assms
proof (induction rs arbitrary: sv st rule: rev_induct)
  case Nil
  with server_wider_refl [of sv] show ?case by (auto simp: prun_simps ret_def of_losers_def taken_back_def)
next
  case (snoc r rs)
  have split: "of_losers X (rs @ [r]) = of_losers X rs @ of_losers X [r]" by (simp add: of_losers_def)
  have one: "log_fits sv [r]" "log_placed sv [r]" "length (of_losers X [r]) \<le> room sv"
    using snoc.prems(2-4) unfolding split by (auto simp: log_fits_def log_placed_def)
  from undo_one_run [OF snoc.prems(1) one(3,1,2)] obtain sv1 st1 where x: "undo_one X r sv = Some (Inr (), sv1)"
    and s1: "restarted sv1 st1" "server_wider sv sv1" "room sv \<le> length (of_losers X [r]) + room sv1"
      "\<forall>t \<in> opened sv. tables_of sv1 st1 t = taken_back (of_losers X [r]) (tables_of sv st) t" by blast
  have op: "opened sv1 = opened sv" by (rule server_wider_opened [OF s1(2)])
  have fit: "log_fits sv1 rs" "log_placed sv1 rs"
    using wider_fits [OF s1(2), of rs] wider_placed [OF s1(2), of rs] snoc.prems(3,4) by (auto simp: log_fits_def log_placed_def)
  have "length (of_losers X rs) \<le> room sv1" using s1(3) snoc.prems(2) unfolding split by simp
  from snoc.IH [OF s1(1) this fit] obtain sv2 st2 where
    s2: "for_all (undo_one X) (rev rs) sv1 = Some (Inr (), sv2)" "restarted sv2 st2" "server_wider sv1 sv2"
    "room sv1 \<le> length (of_losers X rs) + room sv2"
    "\<forall>t \<in> opened sv. tables_of sv2 st2 t = taken_back (rev (of_losers X rs)) (tables_of sv1 st1) t"
    unfolding op by blast
  have "for_all (undo_one X) (rev (rs @ [r])) sv = Some (Inr (), sv2)" using x s2(1) by (simp add: prun_simps)
  moreover have "tables_of sv2 st2 t = taken_back (rev (of_losers X (rs @ [r]))) (tables_of sv st) t" if "t \<in> opened sv" for t
  proof
    fix q
    have "tables_of sv2 st2 t q = fold undo_put (at_row t q (rev (of_losers X rs))) (tables_of sv1 st1 t q)"
      using s2(5) that by (simp add: taken_back_row)
    also have "tables_of sv1 st1 t q = fold undo_put (at_row t q (of_losers X [r])) (tables_of sv st t q)"
      using s1(4) that by (simp add: taken_back_row)
    also have "fold undo_put (at_row t q (rev (of_losers X rs))) \<dots> = taken_back (rev (of_losers X (rs @ [r]))) (tables_of sv st) t q"
      unfolding taken_back_row split by (simp add: of_losers_def at_row_def)
    finally show "tables_of sv2 st2 t q = taken_back (rev (of_losers X (rs @ [r]))) (tables_of sv st) t q" .
  qed
  ultimately show ?case
    using s2(2,4) s1(3) server_wider_trans [OF s1(2) s2(3)] unfolding split by (intro exI [of _ sv2] exI [of _ st2]) simp
qed

section \<open>The whole of recovery\<close>

text \<open>The tables whose files are sound again.\<close>

definition sound_in :: "string set \<Rightarrow> server \<Rightarrow> (page_id \<rightharpoonup> bytes) \<Rightarrow> bool" where
  "sound_in V sv st \<longleftrightarrow> (\<forall>t \<in> V. \<forall>fh. map_of (sv_fhs sv) t = Some fh \<longrightarrow> rm_ok fh st)"

lemma rm_ok_local:
  assumes "\<And>no. st' (PageId (rm_fd fh) no) = st (PageId (rm_fd fh) no)" "rm_ok fh st"
  shows "rm_ok fh st'"
proof -
  have "free_chain fh st p qs \<Longrightarrow> free_chain fh st' p qs" for p qs
    by (induction qs arbitrary: p) (auto simp: assms(1))
  with assms show ?thesis unfolding rm_ok_def by fastforce
qed

lemma rebuild_all:
  assumes "restarted sv st" "0 < room sv" "set L \<subseteq> set (sv_fhs sv) \<or> (\<forall>(t, fh) \<in> set L. t \<in> opened sv)" "sound_in V sv st"
  shows "\<exists>sv' st'. for_all (\<lambda>(t, fh). pdo (on_table False t rebuild_free_list)) L sv = Some (Inr (), sv') \<and>
    restarted sv' st' \<and> server_wider sv sv' \<and> room sv \<le> room sv' \<and> sound_in (V \<union> fst ` set L) sv' st' \<and>
    tables_of sv' st' = tables_of sv st"
proof -
  have "\<forall>(t, fh) \<in> set L. t \<in> opened sv"
    using assms(1,3) by (force simp: restarted_def opened_def)
  with assms(1,2,4) show ?thesis
  proof (induction L arbitrary: sv st V)
    case Nil
    then show ?case using server_wider_refl [of sv] by (auto simp: prun_simps ret_def)
  next
    case (Cons q L)
    obtain t gh where q: "q = (t, gh)" by (cases q)
    with Cons.prems(4) obtain fh where t: "map_of (sv_fhs sv) t = Some fh" by (auto simp: opened_iff)
    have raw: "raw_file (sv_store sv) fh st" using Cons.prems(1) t by (auto simp: restarted_def dest: map_of_SomeD)
    have sp: "spare (sv_store sv) \<noteq> {}" using Cons.prems(2) by (simp add: room_pos)
    from rebuild_run [OF raw sp] obtain s' fh' st' where
      m: "rebuild_free_list (sv_store sv, fh, None) = (Inr (), s', fh', None)"
        "went (sv_store sv, fh, st) (s', fh', st')" "rm_ok fh' st'" "rm_table fh' st' = rm_table fh st" by blast
      have w: "raw_file s' fh' st'" "same_shape fh fh'" "kept (rm_fd fh) (sv_store sv) st s' st'" "spare (sv_store sv) \<subseteq> spare s'"
        using m(2) by (auto simp: went_def)
      let ?sv = "after_table sv t s' fh'"
      note af = after_table_run [OF Cons.prems(1) t w(1) same_shape_wider [OF w(2)] w(3)]
      have new: "map_of (sv_fhs ?sv) = (map_of (sv_fhs sv))(t \<mapsto> fh')" by (simp add: after_table_def update_conv')
      have dist: "rm_fd fu \<noteq> rm_fd fh" if "map_of (sv_fhs sv) u = Some fu" "u \<noteq> t" for u fu
      proof
        assume eq: "rm_fd fu = rm_fd fh"
        have "inj_on (rm_fd \<circ> snd) (set (sv_fhs sv))" using Cons.prems(1) by (simp add: restarted_def distinct_map)
        with eq map_of_SomeD [OF that(1)] map_of_SomeD [OF t] have "(u, fu) = (t, fh)" by (metis comp_apply inj_onD snd_conv)
        with that(2) show False by simp
      qed
      have "rm_ok fu st'" if "u \<in> insert t V" "map_of (sv_fhs ?sv) u = Some fu" for u fu
      proof (cases "u = t")
        case True
        with that m(3) show ?thesis by (simp add: new)
      next
        case False
        with that have fu: "map_of (sv_fhs sv) u = Some fu" "rm_ok fu st" using Cons.prems(3) by (auto simp: new sound_in_def)
        show ?thesis by (rule rm_ok_local [OF _ fu(2)]) (use w(3) dist [OF fu(1) False] in \<open>simp add: kept_def\<close>)
      qed
      then have so: "sound_in (insert t V) ?sv st'" by (auto simp: sound_in_def)
      have tab: "tables_of ?sv st' = tables_of sv st" using af m(4) t by (simp add: fun_eq_iff tables_of_def)
      have rm: "room sv \<le> room ?sv" using room_mono [OF w(4)] by (simp add: room_def after_table_def)
      have op: "opened ?sv = opened sv" by (rule server_wider_opened) (use af in blast)
      have "\<exists>sv' st''. for_all (\<lambda>(t, fh). pdo (on_table False t rebuild_free_list)) L ?sv = Some (Inr (), sv') \<and>
        restarted sv' st'' \<and> server_wider ?sv sv' \<and> room ?sv \<le> room sv' \<and> sound_in (insert t V \<union> fst ` set L) sv' st'' \<and>
          tables_of sv' st'' = tables_of ?sv st'"
        by (rule Cons.IH [OF _ _ so]) (use af rm Cons.prems(2,4) op in auto)
      then obtain sv2 st2 where x: "for_all (\<lambda>(t, fh). pdo (on_table False t rebuild_free_list)) L ?sv = Some (Inr (), sv2)"
        "restarted sv2 st2" "server_wider ?sv sv2" "room ?sv \<le> room sv2"
          "sound_in (insert t V \<union> fst ` set L) sv2 st2" "tables_of sv2 st2 = tables_of ?sv st'" by blast
      have "for_all (\<lambda>(t, fh). pdo (on_table False t rebuild_free_list)) (q # L) sv = Some (Inr (), sv2)"
        using x(1) on_table_run [where m = rebuild_free_list, OF t m(1)] by (simp add: q prun_simps)
      moreover have "insert t V \<union> fst ` set L = V \<union> fst ` set (q # L)" by (auto simp: q)
      ultimately show ?case
        using x(2-6) af server_wider_trans [of sv ?sv sv2] rm tab by (intro exI [of _ sv2] exI [of _ st2]) auto
  qed
qed

text \<open>Without indexes there is nothing to rebuild, and nothing to save of them.\<close>

lemma rebuild_no_index:
  assumes "\<forall>(t, tab) \<in> set D. tm_indexes tab = []"
  shows "for_all rebuild_indexes D sv = Some (Inr (), sv)"
  using assms
proof (induction D)
  case (Cons d D)
  obtain t tab where d: "d = (t, tab)" by (cases d)
  with Cons.prems have "rebuild_indexes d sv = Some (Inr (), sv)"
    by (auto simp: rebuild_indexes_def if_open_def prun_simps ret_def)
  with Cons show ?case by (simp add: prun_simps)
qed (simp add: prun_simps ret_def)

text \<open>Writing the header and the pages of a file.\<close>

lemma flush_frames_quiet:
  assumes "known s st" "\<not> log_attached s" "\<forall>f \<in> set fs. f < length (pages s)"
  shows "\<exists>s'. for_frames (flush_frame fd) fs s = (Inr (), s') \<and> known s' st \<and> files_keep {} s s' \<and> \<not> log_attached s'"
  using assms
proof (induction fs arbitrary: s)
  case Nil
  then show ?case by (simp add: run_simps files_keep_refl)
next
  case (Cons f fs)
  note ok = known_parts [OF Cons.prems(1)]
  have "\<exists>s1. flush_frame fd f s = (Inr (), s1) \<and> files_keep {} s s1 \<and> \<not> log_attached s1"
  proof (cases "of_file fd (pages s ! f) \<and> is_dirty (pages s ! f)")
    case True
    have pt: "page_table s (pg_id (pages s ! f)) = Some f"
      using ok Cons.prems(3) True by (auto simp: table_ok_def of_file_def mapped_def)
    have d: "log_ok s" "data_id (st_disk s) (pg_id (pages s ! f))" using ok pt unfolding table_ok_def by blast+
    obtain s1 where w: "write_back f s = (Inr (), s1)" using quiet_write_back [OF Cons.prems(2) d] by blast
    from write_back_run [OF d w] have "disk_keeps {pg_id (pages s ! f)} s s1" "log_attached s1 = log_attached s"
      by (simp_all add: cleaned_def same_pool_def)
    moreover have "page_table s1 = page_table s" using write_back_known [OF Cons.prems(1) pt w] by simp
    ultimately show ?thesis using w True Cons.prems(2) by (simp add: flush_frame_def files_keep_def disk_keeps_def)
  next
    case False
    then have "flush_frame fd f s = (Inr (), s)" by (auto simp: flush_frame_def)
    with Cons.prems(2) show ?thesis by (simp add: files_keep_refl)
  qed
  then obtain s1 where f: "flush_frame fd f s = (Inr (), s1)" "files_keep {} s s1" "\<not> log_attached s1" by blast
  have "known s1 st \<and> length (pages s1) = length (pages s)"
    using flush_frames_known [OF Cons.prems(1), of "[f]" fd "()" s1] f(1) Cons.prems(3) by (simp add: run_simps)
  with Cons.IH [of s1] f(3) Cons.prems(3) obtain s2 where "for_frames (flush_frame fd) fs s1 = (Inr (), s2)" "known s2 st"
    "files_keep {} s1 s2" "\<not> log_attached s2" by auto
  with f(1,2) show ?case using files_keep_trans by (auto simp: run_simps)
qed

lemma save_table_run:
  assumes "raw_file s fh st"
  shows "\<exists>s'. save_table fh s = (Inr (), s') \<and> known s' st \<and> files_keep {} s s' \<and> log_attached s' = log_attached s"
proof -
  have raw: "known s st" "rm_pool s (rm_fd fh) (num_pages (file_hdr fh))" "header_out s fh st" "\<not> log_attached s"
    using assms(1) by (auto simp: raw_file_def)
  have ok: "disk_ok (st_disk s)" "log_ok s" using known_parts [OF raw(1)] log_ok_disk by blast+
  obtain path where "fd2path (st_disk s) (rm_fd fh) = Some path" using raw(2) by (auto simp: rm_pool_def)
  then have "map_of (open_fds (st_disk s)) (rm_fd fh) = Some path" "files (st_disk s) path \<noteq> None"
    using ok(1) unfolding disk_ok_def by (simp, blast)
  then obtain d where d: "write_page (rm_fd fh) 0 (hdr_to_mem (file_hdr fh)) 20 (st_disk s) = (Inr (), d)"
    by (auto simp: write_page_def page_offset_def to_signed_def)
  define s1 where "s1 = s\<lparr>st_disk := d\<rparr>"
  have w: "on_disk (write_page (rm_fd fh) RM_FILE_HDR_PAGE (hdr_to_mem (file_hdr fh)) 20) s = (Inr (), s1)"
    using d by (simp add: on_disk_def zoom_def RM_FILE_HDR_PAGE_def s1_def)
  note run = write_page_run [OF ok(1) d]
  have di: "data_id d pid = data_id (st_disk s) pid" for pid using run by (simp add: data_id_def)
  have pg: "id_page d pid = Some b" if "data_id (st_disk s) pid" "page_table s pid \<noteq> None \<or> st pid \<noteq> None" "id_page (st_disk s) pid = Some b" for pid b
  proof -
    have "pid \<noteq> PageId (rm_fd fh) 0" using that(2) raw(3) by (auto simp: header_out_def)
    then show ?thesis
      using write_page_others [OF ok(1) d, of "pid_no pid" "pid_fd pid" b] that(1,3)
      by (auto simp: id_page_def data_id_def valid_no_def PAGE_SIZE_def page_id_eq)
  qed
  have "log_ok s1" unfolding s1_def
    by (rule log_ok_write_page [where pid = "PageId (rm_fd fh) 0", OF ok(2) pool_mapped [OF raw(2)]]) (use d in simp)
  then have k1: "known s1 st"
    by (intro log_step_known [where d' = d and l' = "st_log s", OF raw(1)]) (use s1_def di pg in auto)
  have f1: "files_keep {} s s1" using run by (simp add: files_keep_def s1_def di)
  have "\<not> log_attached s1" using raw(4) by (simp add: s1_def)
  from flush_frames_quiet [OF k1 this, of "[0..<length (pages s1)]" "rm_fd fh"] obtain s2 where
    "flush_all_pages (rm_fd fh) s1 = (Inr (), s2)" "known s2 st" "files_keep {} s1 s2" "\<not> log_attached s2"
    by (auto simp: flush_all_pages_def)
  with w f1 raw(4) files_keep_trans show ?thesis by (auto simp: save_table_def run_simps)
qed

lemma kept_restarted:
  assumes "restarted sv st" "\<And>fd. kept fd (sv_store sv) st s' st" "known s' st"
  shows "restarted (sv\<lparr>sv_store := s'\<rparr>) st"
proof -
  have "raw_file s' fh st" if "(t, fh) \<in> set (sv_fhs sv)" for t fh
  proof -
    have "raw_file (sv_store sv) fh st" using assms(1) that by (auto simp: restarted_def)
    then show ?thesis using kept_raw(1) [OF assms(2) [of "rm_fd fh + 1"]] assms(3) by simp
  qed
  with assms(1,3) show ?thesis by (auto simp: restarted_def)
qed

lemma files_keep_restarted:
  assumes "restarted sv st" "files_keep {} (sv_store sv) s'" "known s' st" "log_attached s' = log_attached (sv_store sv)"
  shows "restarted (sv\<lparr>sv_store := s'\<rparr>) st"
  by (rule kept_restarted [OF assms(1) files_keep_kept [OF assms(2)] assms(3)]) (simp_all add: assms(4))

lemma save_all:
  assumes "restarted sv st" "set L \<subseteq> set (sv_fhs sv)"
  shows "\<exists>sv'. for_all (\<lambda>(t, fh). pdo (on_store (save_table fh))) L sv = Some (Inr (), sv') \<and> restarted sv' st \<and> sv_fhs sv' = sv_fhs sv"
  using assms
proof (induction L arbitrary: sv)
  case Nil
  then show ?case by (simp add: prun_simps ret_def)
next
  case (Cons q L)
  obtain t fh where q: "q = (t, fh)" by (cases q)
  have "raw_file (sv_store sv) fh st" using Cons.prems q by (auto simp: restarted_def)
  from save_table_run [OF this] obtain s' where sv: "save_table fh (sv_store sv) = (Inr (), s')" "known s' st"
    "files_keep {} (sv_store sv) s'" "log_attached s' = log_attached (sv_store sv)" by blast
  from Cons.IH [OF files_keep_restarted [OF Cons.prems(1) sv(3,2,4)]] Cons.prems(2) obtain sv2 where
    "for_all (\<lambda>(t, fh). pdo (on_store (save_table fh))) L (sv\<lparr>sv_store := s'\<rparr>) = Some (Inr (), sv2)"
    "restarted sv2 st" "sv_fhs sv2 = sv_fhs sv" by auto
  moreover have "(case q of (t, fh) \<Rightarrow> pdo (on_store (save_table fh))) sv = Some (Inr (), sv\<lparr>sv_store := s'\<rparr>)"
    using sv(1) q by (simp add: pdo_def on_store_def zoom_def)
  ultimately show ?case by (simp add: pThen_Inr)
qed

lemma undo_run:
  assumes "restarted sv st" "length (of_losers X rs) < room sv" "log_fits sv rs" "log_placed sv rs" "consistent rs T0" "isolated X rs"
    "\<forall>t \<in> opened sv. \<forall>q. stands X rs T0 t q (tables_of sv st t q)"
  shows "\<exists>sv' st'. undo X rs sv = Some (Inr (), sv') \<and> restarted sv' st' \<and> server_wider sv sv' \<and>
    sound_in (opened sv) sv' st' \<and> (\<forall>t \<in> opened sv. tables_of sv' st' t = history (of_winners X rs) T0 t)"
proof -
  have "length (of_losers X rs) \<le> room sv" using assms(2) by simp
  from undo_records_run [OF assms(1) this assms(3,4)] obtain sv1 st1 where
    r1: "for_all (undo_one X) (rev rs) sv = Some (Inr (), sv1)" "restarted sv1 st1" "server_wider sv sv1"
    "room sv \<le> length (of_losers X rs) + room sv1"
    "\<forall>t \<in> opened sv. tables_of sv1 st1 t = taken_back (rev (of_losers X rs)) (tables_of sv st) t" by blast
  have "tables_of sv1 st1 t = history (of_winners X rs) T0 t" if "t \<in> opened sv" for t
    using losers_taken_back [OF assms(5,6)] assms(7) r1(5) that by (simp add: fun_eq_iff)
  with r1 have 1: "for_all (undo_one X) (rev rs) sv = Some (Inr (), sv1)" "restarted sv1 st1" "server_wider sv sv1"
    "room sv \<le> length (of_losers X rs) + room sv1" "\<forall>t \<in> opened sv. tables_of sv1 st1 t = history (of_winners X rs) T0 t" by simp_all
  have op: "fst ` set (sv_fhs sv1) = opened sv"
    using server_wider_opened [OF 1(3)] by (simp add: opened_def dom_map_of_conv_image_fst)
  have "0 < room sv1" "sound_in {} sv1 st1" using 1(4) assms(2) by (simp_all add: sound_in_def)
  from rebuild_all [OF 1(2) this(1) _ this(2), of "sv_fhs sv1"] op obtain sv2 st2 where
    2: "for_all (\<lambda>(t, fh). pdo (on_table False t rebuild_free_list)) (sv_fhs sv1) sv1 = Some (Inr (), sv2)" "restarted sv2 st2"
      "server_wider sv1 sv2" "sound_in (opened sv) sv2 st2" "tables_of sv2 st2 = tables_of sv1 st1" by auto
  have 3: "for_all rebuild_indexes (db_tabs (sv_db sv2)) sv2 = Some (Inr (), sv2)"
    by (rule rebuild_no_index) (use 2(2) in \<open>simp add: restarted_def\<close>)
  from save_all [OF 2(2) order_refl] obtain sv3 where
    4: "for_all (\<lambda>(t, fh). pdo (on_store (save_table fh))) (sv_fhs sv2) sv2 = Some (Inr (), sv3)" "restarted sv3 st2" "sv_fhs sv3 = sv_fhs sv2"
    by blast
  have "sv_ihs sv3 = []" using 4(2) by (simp add: restarted_def)
  then have "undo X rs sv = Some (Inr (), sv3)"
    unfolding undo_def by (simp add: pThen_Inr 1(1) 2(1) 3 4(1)) (simp add: prun_simps ret_def)
  moreover have "server_wider sv sv3" using server_wider_trans [OF 1(3) 2(3)] 4(3) by (simp add: server_wider_def)
  moreover have "tables_of sv3 st2 = tables_of sv2 st2" "sound_in (opened sv) sv3 st2"
    using 4(3) 2(4) by (auto simp: fun_eq_iff tables_of_def sound_in_def)
  ultimately show ?thesis using 4(2) 1(5) 2(5) by metis
qed

section \<open>Restart after a crash\<close>

text \<open>
  The log on disk at a crash: whole records and perhaps a torn one at the end. The log manager of the
  new server is fresh.
\<close>

definition crash_log :: "storage \<Rightarrow> log_record list \<Rightarrow> bytes \<Rightarrow> bool" where
  "crash_log s rs tail \<longleftrightarrow> disk_ok (st_disk s) \<and> log_fd_ok (st_disk s) \<and>
     (log_fd (st_disk s) \<noteq> -1 \<or> path2fd (st_disk s) LOG_FILE_NAME = None) \<and>
     files (st_disk s) LOG_FILE_NAME = Some (concat (map rec_bytes rs) @ tail) \<and>
     length (concat (map rec_bytes rs) @ tail) < 2 ^ 30 \<and> rs \<noteq> [] \<and>
     (\<forall>r \<in> set rs. rec_ok r \<and> 0 \<le> lsn (hdr r)) \<and> torn tail \<and> buf_offset (st_log s) = 0"

text \<open>
  The pages at the crash, against the log of a database that started from the tables \<open>T0\<close>: no table has
  an index; the pool has a free frame for every record that is taken back, and one more, since the check
  whether the row is there (\<^verbatim>\<open>is_record\<close>) keeps its page pinned; the changes fit the tables and follow
  one another, with rising LSNs; after a transaction that is taken back changed a row, only such
  transactions changed it (\<open>isolated\<close>); and every row on a page is as the changes up to the LSN of the page
  left it, or is an earlier version of the row that a rollback put back without a record and without
  an LSN, all of whose later changes are of transactions that are taken back and are covered by the
  LSN of the page (\<open>ahead\<close> with \<open>stands\<close>).
\<close>

definition crash_pages :: "server \<Rightarrow> (page_id \<rightharpoonup> bytes) \<Rightarrow> log_record list \<Rightarrow> tables \<Rightarrow> bool" where
  "crash_pages sv st rs T0 \<longleftrightarrow> restarted sv st \<and> length (of_losers (losers rs) rs) < room sv \<and> log_fits sv rs \<and> has_rows sv T0 \<and>
     consistent rs T0 \<and> lsns_rise rs \<and> isolated (losers rs) rs \<and>
     ahead (opened sv) (stands (losers rs) rs T0) rs T0 (tables_of sv st) (lsns_of sv st)"

lemma analysed_known:
  assumes "known s st" "crash_log s rs tail" "disk_ok d" "log_fd_ok d" "files d = files (st_disk s)"
    "fd2pageno d = fd2pageno (st_disk s)" "\<forall>fd p. fd2path (st_disk s) fd = Some p \<longrightarrow> fd2path d fd = Some p" "0 \<le> mx"
    "s' = s\<lparr>st_disk := d, st_log := (st_log s)\<lparr>global_lsn := mx + 1, persist_lsn := mx\<rparr>\<rparr>"
  shows "known s' st \<and> kept fd s st s' st"
proof -
  have di: "data_id (st_disk s) pid \<Longrightarrow> data_id d pid" for pid using assms(7) by (auto simp: data_id_def)
  have "log_inv (concat (map rec_bytes rs) @ tail) (mx + 1) [] [] (st_disk s', st_log s')"
    using assms(2-5,8) by (simp add: assms(9) log_inv_def crash_log_def last_lsn_def buffered_def mread_def)
  then have "log_ok s'" by (auto simp: log_ok_def)
  moreover have "id_page d pid = Some b" if "id_page (st_disk s) pid = Some b" for pid b
    using that assms(5,7) by (auto simp: id_page_def disk_page_def split: option.splits if_splits)
  ultimately have "known s' st" by (intro log_step_known [OF assms(1,9)]) (use di in auto)
  then show ?thesis using di by (auto simp: kept_def assms(6,9))
qed

lemma analysed_sets:
  assumes "a = fst (fold take_note rs (recovery_new, INVALID_LSN))"
  shows "log_records a = rs" "active_txns a \<union> aborted_txns a = losers rs"
  using note_log_records [of rs "(recovery_new, INVALID_LSN)"] note_losers [of rs INVALID_LSN]
  by (simp_all add: assms recovery_new_def)

text \<open>
  Claim C2. Restart after a crash, on tables without indexes: whatever part of the changes in the log had
  reached the pages of the tables, wherever the last record of the log was torn, and whatever the free
  lists in the files were, restart gets through, brings every open table to the history of the changes of the
  transactions it does not take back, and leaves its file sound, free list included; pages of the file
  that never reached it are added. The transactions taken back (\<open>losers\<close>) are those the analysis finds
  unfinished or aborted.

  The conditions are those of \<open>crash_log\<close> and \<open>crash_pages\<close>: the log holds whole records and perhaps a
  torn one; the pool has more free frames than there are records to take back; every row is as its page's LSN
  says, or was put back by a rollback and all its changes are covered by that LSN; and nobody else changed a row
  after a transaction that is taken back did. The server does not guarantee the last one: an abort
  frees the locks and its changes are taken back again at every restart, so a row that was aborted once
  must not be changed later; and since transaction ids start from 0 in every run and the log is kept, a transaction that shares
  its id with a later loser counts as a loser, too.
\<close>

theorem crash_recovery:
  assumes "crash_log (sv_store sv) rs tail" "crash_pages sv st rs T0"
  shows "\<exists>sv' st'. restart sv = Some (Inr (), sv') \<and> opened sv' = opened sv \<and>
    (\<forall>t fh. map_of (sv_fhs sv') t = Some fh \<longrightarrow> rm_rel (sv_store sv', fh, None) st' \<and>
      rm_table fh st' = history (filter (\<lambda>r. log_tid (hdr r) \<notin> losers rs) rs) T0 t)"
proof -
  let ?s = "sv_store sv" and ?a = "fst (fold take_note rs (recovery_new, INVALID_LSN))"
  let ?B = "stands (losers rs) rs T0"
  have p: "restarted sv st" "length (of_losers (losers rs) rs) < room sv" "log_fits sv rs" "has_rows sv T0" "consistent rs T0" "lsns_rise rs"
    "isolated (losers rs) rs" "ahead (opened sv) ?B rs T0 (tables_of sv st) (lsns_of sv st)" using assms(2) by (simp_all add: crash_pages_def)
  have "\<exists>d mx. analyze ((st_disk ?s, Some (st_log ?s)), recovery_new) =
      Some (Inr (), (d, Some ((st_log ?s)\<lparr>global_lsn := mx + 1, persist_lsn := mx\<rparr>)), ?a) \<and>
    (\<forall>r \<in> set rs. lsn (hdr r) \<le> mx) \<and> 0 \<le> mx \<and> disk_ok d \<and> log_fd_ok d \<and> files d = files (st_disk ?s) \<and>
    fd2pageno d = fd2pageno (st_disk ?s) \<and> (\<forall>fd p. fd2path (st_disk ?s) fd = Some p \<longrightarrow> fd2path d fd = Some p)"
    by (rule analyze_run) (use assms(1) in \<open>auto simp: crash_log_def\<close>)
  then obtain d mx where an: "analyze ((st_disk ?s, Some (st_log ?s)), recovery_new) =
      Some (Inr (), (d, Some ((st_log ?s)\<lparr>global_lsn := mx + 1, persist_lsn := mx\<rparr>)), ?a)"
    and d: "disk_ok d" "log_fd_ok d" "files d = files (st_disk ?s)" "fd2pageno d = fd2pageno (st_disk ?s)"
      "\<forall>fd p. fd2path (st_disk ?s) fd = Some p \<longrightarrow> fd2path d fd = Some p" "0 \<le> mx" by blast
  define s1 where "s1 = ?s\<lparr>st_disk := d, st_log := (st_log ?s)\<lparr>global_lsn := mx + 1, persist_lsn := mx\<rparr>\<rparr>"
  let ?sv = "sv\<lparr>sv_store := s1\<rparr>"
  have "known ?s st" using p(1) by (simp add: restarted_def)
  note k = analysed_known [OF this assms(1) d s1_def]
  have r1: "restarted ?sv st" by (rule kept_restarted [OF p(1)]) (use k in auto)
  have same: "sv_fhs ?sv = sv_fhs sv" "room ?sv = room sv" by (simp_all add: room_def spare_def s1_def)
  then have eqs: "tables_of ?sv st = tables_of sv st" "lsns_of ?sv st = lsns_of sv st" "opened ?sv = opened sv"
    "log_fits ?sv rs" "has_rows ?sv T0" using p(3,4)
    by (simp_all add: fun_eq_iff tables_of_def lsns_of_def opened_def log_fits_def has_rows_def)
  have ahead: "ahead (opened ?sv) ?B rs T0 (tables_of ?sv st) (lsns_of ?sv st)" using p(8) by (simp add: eqs)
  have "0 < room ?sv" using p(2) same(2) by simp
  from redo_run [OF r1 this eqs(4,5) p(5,6) ahead] obtain sv2 st2 where
    r: "redo rs ?sv = Some (Inr (), sv2)" "restarted sv2 st2" "server_wider ?sv sv2" "room ?sv \<le> room sv2" "log_placed sv2 rs"
      "\<forall>t \<in> opened ?sv. \<forall>q. tables_of sv2 st2 t q = history rs T0 t q \<or> ?B t q (tables_of sv2 st2 t q)" by blast
  have op2: "opened sv2 = opened sv" using server_wider_opened [OF r(3)] eqs(3) by simp
  have "length (of_losers (losers rs) rs) < room sv2" "\<forall>t \<in> opened sv2. \<forall>q. ?B t q (tables_of sv2 st2 t q)"
    using p(2) same(2) r(4,6) op2 eqs(3) stands_now [of "losers rs" rs T0] by (simp, metis)
  from undo_run [OF r(2) this(1) wider_fits [OF r(3) eqs(4)] r(5) p(5,7) this(2)] obtain sv3 st3 where
    u: "undo (losers rs) rs sv2 = Some (Inr (), sv3)" "restarted sv3 st3" "server_wider sv2 sv3" "sound_in (opened sv) sv3 st3"
      "\<forall>t \<in> opened sv. tables_of sv3 st3 t = history (of_winners (losers rs) rs) T0 t" unfolding op2 by blast
  note sets = analysed_sets [OF refl, of rs]
  have "restart sv = Some (Inr (), sv3)"
    by (simp add: restart_def Let_def an s1_def [symmetric] sets pThen_Inr [where m = "redo rs" and s = ?sv, OF r(1)] u(1))
  moreover have op3: "opened sv3 = opened sv" using server_wider_opened [OF u(3)] op2 by simp
  moreover have "of_winners (losers rs) rs = filter (\<lambda>r. log_tid (hdr r) \<notin> losers rs) rs" by (simp add: of_winners_def)
  moreover have "rm_rel (sv_store sv3, fh, None) st3 \<and> rm_table fh st3 = tables_of sv3 st3 t \<and> t \<in> opened sv"
    if "map_of (sv_fhs sv3) t = Some fh" for t fh
  proof -
    have "raw_file (sv_store sv3) fh st3" using u(2) that by (auto simp: restarted_def dest: map_of_SomeD)
    moreover have "t \<in> opened sv" using that op3 by (auto simp: opened_iff)
    ultimately show ?thesis using u(4) that by (auto simp: rm_rel_pool raw_file_def sound_in_def tables_of_def)
  qed
  ultimately show ?thesis using u(5) by (intro exI [of _ sv3] exI [of _ st3]) auto
qed


text \<open>
  The example: an empty table, a transaction that inserted a row and committed, and one that inserted
  another and was cut off in the middle of its next record. None of the pages had reached the disk.
\<close>

definition crash_records :: "log_record list" where
  "crash_records = map (\<lambda>(l, r). set_hdr (lsn_update (\<lambda>_. l)) r)
     [(0, BeginLogRecord 1), (1, InsertLogRecord 1 (replicate 512 7) (Rid 1 0) ''t''), (2, CommitLogRecord 1),
      (3, BeginLogRecord 2), (4, InsertLogRecord 2 (replicate 512 8) (Rid 1 1) ''t'')]"

definition crash_disk :: disk where
  "crash_disk = pool_disk\<lparr>fd2pageno := (\<lambda>_. 1),
     files := [''t'' \<mapsto> two_pages, LOG_FILE_NAME \<mapsto> concat (map rec_bytes crash_records) @ take 5 (rec_bytes (CommitLogRecord 2))]\<rparr>"

definition crash_ex :: server where
  "crash_ex = ddl_ex\<lparr>sv_store := pool_new 8 crash_disk log_manager_new False, sv_fhs := [(''t'', grow_file)]\<rparr>"

lemma crash_disk_facts:
  "disk_ok crash_disk" "log_fd_ok crash_disk" "fd2path crash_disk = [3 \<mapsto> ''t'']" "log_fd crash_disk = -1" "path2fd crash_disk = [''t'' \<mapsto> 3]"
proof -
  have "log_fd pool_disk = -1" "path2fd pool_disk = [''t'' \<mapsto> 3]"
    by (simp_all add: pool_disk_def open_file_def is_file_def disk_new_def LOG_FILE_NAME_def os_open_def lowest_fd_def upt_conv_Cons)
  then show "log_fd crash_disk = -1" "path2fd crash_disk = [''t'' \<mapsto> 3]" "fd2path crash_disk = [3 \<mapsto> ''t'']"
    using pool_disk_facts by (simp_all add: crash_disk_def)
  then show "log_fd_ok crash_disk" by (simp add: log_fd_ok_def)
  show "disk_ok crash_disk" using pool_disk_facts by (simp add: crash_disk_def disk_ok_def)
qed

lemma rec_ok_lsn: "rec_ok r \<Longrightarrow> in_signed 4 l \<Longrightarrow> rec_ok (set_hdr (lsn_update (\<lambda>_. l)) r)"
  by (cases r) (auto simp: rec_ok_def hdr_fits_def)

lemma crash_records_ok: "\<forall>r \<in> set crash_records. rec_ok r \<and> 0 \<le> lsn (hdr r)"
proof -
  have "rec_ok (BeginLogRecord n)" "rec_ok (CommitLogRecord n)" "rec_ok (InsertLogRecord n (replicate 512 b) (Rid 1 (n - 1)) ''t'')"
    if "n = 1 \<or> n = 2" for n :: int and b
    using that new_records_ok [of n "replicate 512 b" "[]" "''t''" "Rid 1 (n - 1)"] by (auto simp: in_signed_def rid_fits_def)
  from this [of 1] this [of 2] show ?thesis by (simp add: crash_records_def rec_ok_lsn in_signed_def)
qed

text \<open>The records by class and header.\<close>

lemma crash_records_eq:
  obtains h0 h1 h2 h3 h4 where "crash_records = [BeginLog h0, InsertLog h1 (replicate 512 7) (Rid 1 0) ''t'', CommitLog h2, BeginLog h3,
      InsertLog h4 (replicate 512 8) (Rid 1 1) ''t'']" "map lsn [h0, h1, h2, h3, h4] = [0, 1, 2, 3, 4]"
    "map log_tid [h0, h1, h2, h3, h4] = [1, 1, 1, 2, 2]"
  by (rule that [of "lsn_update (\<lambda>_. 0) (new_hdr LT_begin 1 LOG_HEADER_SIZE)" "hdr (crash_records ! 1)" "hdr (crash_records ! 2)"
        "hdr (crash_records ! 3)" "hdr (crash_records ! 4)"])
    (simp_all add: crash_records_def BeginLogRecord_def CommitLogRecord_def InsertLogRecord_def new_hdr_def)

lemma grow_file_hdr: "num_pages (file_hdr grow_file) = 1" "num_records_per_page (file_hdr grow_file) = 7"
    "record_size (file_hdr grow_file) = 512" "rm_fd grow_file = 3"
  by (simp_all add: grow_file_def new_file_hdr_def Let_def BITMAP_WIDTH_def PAGE_SIZE_def)

lemma crash_ex_log: "crash_log (sv_store crash_ex) crash_records (take 5 (rec_bytes (CommitLogRecord 2)))"
proof -
  obtain h0 h1 h2 h3 h4 where rs: "crash_records = [BeginLog h0, InsertLog h1 (replicate 512 7) (Rid 1 0) ''t'', CommitLog h2, BeginLog h3,
      InsertLog h4 (replicate 512 8) (Rid 1 1) ''t'']" "map log_tid [h0, h1, h2, h3, h4] = [1, 1, 1, 2, 2]"
    by (rule crash_records_eq)
  have c: "rec_ok (CommitLogRecord 2)" "length (rec_bytes (CommitLogRecord 2)) = 24"
    by (auto intro!: new_records_ok [where w = "[]" and v = "[]" and tab = "[]" and r = "Rid 0 0"] simp: in_signed_def rid_fits_def)
      (simp add: CommitLogRecord_def)
  then have "torn (take 5 (rec_bytes (CommitLogRecord 2)))"
    unfolding torn_def by (intro disjI2 exI [of _ "CommitLogRecord 2"] exI [of _ "drop 5 (rec_bytes (CommitLogRecord 2))"]) simp
  moreover have "length (concat (map rec_bytes crash_records)) < 2 ^ 29" by (simp add: rs(1))
  ultimately show ?thesis
    using crash_records_ok crash_disk_facts c(2)
    by (simp add: crash_log_def crash_ex_def pool_new_def) (simp add: crash_disk_def rs(1) log_manager_new_def LOG_FILE_NAME_def)
qed

lemma crash_ex_pages: "crash_pages crash_ex Map.empty crash_records (\<lambda>_. Map.empty)"
proof -
  obtain h0 h1 h2 h3 h4 where rs: "crash_records = [BeginLog h0, InsertLog h1 (replicate 512 7) (Rid 1 0) ''t'', CommitLog h2, BeginLog h3,
      InsertLog h4 (replicate 512 8) (Rid 1 1) ''t'']" "map lsn [h0, h1, h2, h3, h4] = [0, 1, 2, 3, 4]"
      "map log_tid [h0, h1, h2, h3, h4] = [1, 1, 1, 2, 2]" by (rule crash_records_eq)
  have "log_inv (concat (map rec_bytes crash_records) @ take 5 (rec_bytes (CommitLogRecord 2))) 0 [] [] (crash_disk, log_manager_new)"
    using crash_disk_facts(1,2)
    by (simp add: log_inv_def log_manager_new_def buffered_def last_lsn_def INVALID_LSN_def mread_def)
      (simp add: crash_disk_def LOG_FILE_NAME_def)
  then have "log_ok (sv_store crash_ex)" unfolding log_ok_def crash_ex_def pool_new_def by auto
  then have k: "known (sv_store crash_ex) Map.empty" using pool_new_ok by (simp add: crash_ex_def known_def)
  have "raw_file (sv_store crash_ex) grow_file Map.empty"
    using k crash_disk_facts(3) new_layout [of 512]
    by (simp add: raw_file_def grow_file_hdr rm_pool_def header_out_def crash_ex_def pool_new_def MAX_FD_def LOG_FILE_NAME_def)
      (simp add: crash_disk_def grow_file_def RM_MAX_RECORD_SIZE_def)
  with k have "restarted crash_ex Map.empty" by (simp add: restarted_def crash_ex_def ddl_ex_def)
  moreover have "room crash_ex = 8" by (simp add: room_def spare_def crash_ex_def pool_new_def lru_new_def lru_frames_def)
  moreover have fhs: "sv_fhs crash_ex = [(''t'', grow_file)]" by (simp add: crash_ex_def)
  moreover have "log_fits crash_ex crash_records" "has_rows crash_ex (\<lambda>_. Map.empty)"
    using rs(2) by (auto simp: log_fits_def has_rows_def place_fits_def fhs grow_file_hdr slot_ok_def in_signed_def rs(1) split: if_splits)
  moreover have "consistent crash_records (\<lambda>_. Map.empty)" "lsns_rise crash_records"
    using rs(2) by (simp_all add: rs(1) lsns_rise_def make_change_at)
  moreover have "isolated X crash_records" for X by (simp add: isolated_def rs(1))
  moreover have "tables_of crash_ex Map.empty = (\<lambda>_. Map.empty)" "lsns_of crash_ex Map.empty = (\<lambda>_ _. 0)"
    by (simp_all add: fun_eq_iff tables_of_def lsns_of_def fhs rm_table_def page_lsn_def)
  moreover have "history [BeginLog h0] T = T" for T by (simp add: make_change_def)
  then have "ahead V B crash_records (\<lambda>_. Map.empty) (\<lambda>_. Map.empty) (\<lambda>_ _. 0)" for V B
    using rs(2) by (simp add: ahead_def rs(1))
  moreover have "length (of_losers X crash_records) < 8" for X
    using length_filter_le [of "\<lambda>r. log_tid (hdr r) \<in> X" crash_records] by (simp add: of_losers_def rs(1))
  ultimately show ?thesis by (simp add: crash_pages_def)
qed

theorem crash_recovery_witness:
  "\<exists>sv' st' fh. restart crash_ex = Some (Inr (), sv') \<and> map_of (sv_fhs sv') ''t'' = Some fh \<and>
    rm_rel (sv_store sv', fh, None) st' \<and> rm_table fh st' = [Rid 1 0 \<mapsto> replicate 512 7]"
proof -
  from crash_recovery [OF crash_ex_log crash_ex_pages] obtain sv' st' where r: "restart crash_ex = Some (Inr (), sv')" "opened sv' = opened crash_ex"
    "\<forall>t fh. map_of (sv_fhs sv') t = Some fh \<longrightarrow> rm_rel (sv_store sv', fh, None) st' \<and> rm_table fh st' =
      history (filter (\<lambda>r. log_tid (hdr r) \<notin> losers crash_records) crash_records) (\<lambda>_. Map.empty) t" by blast
  have "opened crash_ex = {''t''}" by (simp add: opened_def crash_ex_def)
  with r(2) have "''t'' \<in> opened sv'" by simp
  then obtain fh where fh: "map_of (sv_fhs sv') ''t'' = Some fh" by (auto simp: opened_def)
  obtain h0 h1 h2 h3 h4 where rs: "crash_records = [BeginLog h0, InsertLog h1 (replicate 512 7) (Rid 1 0) ''t'', CommitLog h2, BeginLog h3,
      InsertLog h4 (replicate 512 8) (Rid 1 1) ''t'']" "map log_tid [h0, h1, h2, h3, h4] = [1, 1, 1, 2, 2]" by (rule crash_records_eq)
  have "losers crash_records = {2}"
    using rs(2) by (auto simp: losers_def unfinished_def begun_since_def since_end_def committed_in_def aborted_in_def rs(1))
  then have "history (filter (\<lambda>r. log_tid (hdr r) \<notin> losers crash_records) crash_records) (\<lambda>_. Map.empty) ''t'' = [Rid 1 0 \<mapsto> replicate 512 7]"
    using rs(2) by (simp add: rs(1) make_change_def put_row_def)
  with r fh show ?thesis by metis
qed

end
