(* ===== verification/Syntax.thy ===== *)
theory Syntax
  imports Catalog
begin

text \<open>
  The syntax trees the parser builds, \<^verbatim>\<open>src/src/parser/ast.h\<close>. The parser itself is generated and
  not part of the model: a statement is a value of \<open>tree_node\<close>.
\<close>

section \<open>Enumerations\<close>

datatype sv_type = SV_TYPE_INT | SV_TYPE_FLOAT | SV_TYPE_STRING | SV_TYPE_BOOL | SV_TYPE_BIGINT | SV_TYPE_DATETIME

datatype sv_comp_op = SV_OP_EQ | SV_OP_NE | SV_OP_LT | SV_OP_GT | SV_OP_LE | SV_OP_GE

datatype order_by_dir = OrderBy_DEFAULT | OrderBy_ASC | OrderBy_DESC

datatype set_knob_type = EnableNestLoop | EnableSortMerge

datatype join_type = INNER_JOIN | LEFT_JOIN | RIGHT_JOIN | FULL_JOIN

section \<open>Literals\<close>

datatype ast_value =
    IntLit int
  | BigintLit (lit_val: int) (lit_overflow: bool)
  | FloatLit float32
  | StringLit string
  | BoolLit bool

text \<open>
  \<^verbatim>\<open>std::strtoll(s, &end, 10)\<close>: blanks, a sign, digits; the value is cut off at the limits of the
  type, and then \<^verbatim>\<open>errno\<close> is \<^verbatim>\<open>ERANGE\<close>.
\<close>

definition isspace :: "char \<Rightarrow> bool" where
  "isspace c \<longleftrightarrow> of_char c \<in> {32, 9, 10, 11, 12, 13 :: int}"

fun digits_value :: "int \<Rightarrow> string \<Rightarrow> int" where
  "digits_value acc [] = acc"
| "digits_value acc (c # cs) = (if is_digit c then digits_value (10 * acc + (of_char c - 48)) cs else acc)"

definition strtoll :: "string \<Rightarrow> int \<times> bool" where
  "strtoll s = (
     let s = dropWhile isspace s;
         neg = (s \<noteq> [] \<and> hd s = CHR ''-'');
         s = (if s \<noteq> [] \<and> (hd s = CHR ''-'' \<or> hd s = CHR ''+'') then tl s else s);
         v = (if neg then - digits_value 0 s else digits_value 0 s)
     in if v > 2 ^ 63 - 1 then (2 ^ 63 - 1, True) else if v < - (2 ^ 63) then (- (2 ^ 63), True) else (v, False))"

text \<open>The constructor of \<open>BigintLit\<close> from the text of the literal.\<close>

definition bigint_lit :: "string \<Rightarrow> ast_value" where
  "bigint_lit s = (case strtoll s of (v, overflow) \<Rightarrow> BigintLit v overflow)"

text \<open>
  An integer in the text of a statement: the action of the lexer (\<^verbatim>\<open>lex.l\<close>) and the node the
  parser makes of its token.
\<close>

definition int_literal :: "string \<Rightarrow> ast_value" where
  "int_literal s = (case strtoll s of (v, overflow) \<Rightarrow>
     if \<not> overflow \<and> - (2 ^ 31) \<le> v \<and> v \<le> 2 ^ 31 - 1 then IntLit v else bigint_lit s)"

section \<open>Expressions and statements\<close>

text \<open>\<^verbatim>\<open>struct Col\<close> has the members of \<^verbatim>\<open>TabCol\<close>.\<close>

type_synonym ast_col = tabcol

datatype expr = ValueExpr ast_value | ColExpr ast_col

record binary_expr =
  be_lhs :: ast_col
  be_op :: sv_comp_op
  be_rhs :: expr

record set_expr =
  se_col :: string
  se_val :: ast_value

record order_by =
  ob_cols :: "ast_col list"
  ob_dirs :: "order_by_dir list"

text \<open>A \<^verbatim>\<open>Field\<close> that is not a column definition is \<open>BareField\<close>.\<close>

datatype ast_field = ColDefField string sv_type int | BareField

record join_expr =
  je_left :: string
  je_right :: string
  je_conds :: "binary_expr list"
  je_type :: join_type

text \<open>\<open>has_sort\<close> says whether there is an \<open>order\<close>.\<close>

record select_stmt =
  ss_cols :: "ast_col list"
  ss_tabs :: "string list"
  ss_conds :: "binary_expr list"
  ss_jointree :: "join_expr list"
  ss_order :: "order_by option"
  ss_limit :: int

datatype tree_node =
    Help | ShowTables | ShowIndex string | TxnBegin | TxnCommit | TxnAbort | TxnRollback
  | CreateTable string "ast_field list" | DropTable string | DescTable string
  | CreateIndex string "string list" | DropIndex string "string list"
  | InsertStmt string "ast_value list"
  | DeleteStmt string "binary_expr list"
  | UpdateStmt string "set_expr list" "binary_expr list"
  | SelectStmt select_stmt
  | SetStmt set_knob_type bool

section \<open>Literals are read exactly\<close>

lemma digits_value_append:
  "\<forall>c \<in> set s. is_digit c \<Longrightarrow> digits_value acc (s @ t) = digits_value (digits_value acc s) t"
  by (induction s arbitrary: acc) auto

lemma digit_value: "d < 10 \<Longrightarrow> is_digit (char_of (48 + d :: nat)) \<and> (of_char (char_of (48 + d)) :: int) = int (48 + d)"
proof -
  assume "d < 10"
  then have "(of_char (char_of (48 + d :: nat)) :: nat) = 48 + d" by simp
  moreover from this have "(of_char (char_of (48 + d :: nat)) :: int) = int (48 + d)" by (metis of_nat_of_char)
  ultimately show ?thesis using \<open>d < 10\<close> by (simp add: is_digit_def)
qed

lemma digits_are_digits: "\<forall>c \<in> set (digits n). is_digit c"
proof (induction n rule: digits.induct)
  case (1 n)
  show ?case
  proof (cases "n < 10")
    case True
    with digit_value [of n] show ?thesis by (subst digits.simps) simp
  next
    case False
    with 1 digit_value [of "n mod 10"] show ?thesis by (subst digits.simps) auto
  qed
qed

lemma digits_value_digits: "digits_value 0 (digits n) = int n"
proof (induction n rule: digits.induct)
  case (1 n)
  show ?case
  proof (cases "n < 10")
    case True
    with digit_value [of n] show ?thesis by (subst digits.simps) simp
  next
    case False
    then have "digits_value 0 (digits n) = digits_value (int (n div 10)) [char_of (48 + n mod 10)]"
      using 1 by (subst digits.simps) (simp add: digits_value_append digits_are_digits)
    also have "\<dots> = 10 * int (n div 10) + int (n mod 10)" using digit_value [of "n mod 10"] by simp
    also have "\<dots> = int n" by presburger
    finally show ?thesis .
  qed
qed

lemma strtoll_signed:
  "strtoll (put_int i) = (if i > 2 ^ 63 - 1 then (2 ^ 63 - 1, True) else if i < - (2 ^ 63) then (- (2 ^ 63), True) else (i, False))"
proof -
  let ?d = "digits (nat \<bar>i\<bar>)"
  have d: "?d \<noteq> []" by (subst digits.simps) simp
  then obtain c cs where c: "?d = c # cs" by (cases ?d) auto
  have dv: "digits_value 0 (c # cs) = \<bar>i\<bar>" using digits_value_digits [of "nat \<bar>i\<bar>"] c by simp
  have "is_digit c" using digits_are_digits [of "nat \<bar>i\<bar>"] c by simp
  then have "\<not> isspace c" "c \<noteq> CHR ''-''" "c \<noteq> CHR ''+''" by (auto simp: is_digit_def isspace_def)
  moreover have "\<not> isspace (CHR ''-'')" by (simp add: isspace_def)
  ultimately show ?thesis using dv
    by (simp add: strtoll_def put_int_def Let_def c del: digits_value.simps)
qed

end
