(* ===== verification/Analyzer.thy ===== *)
theory Analyzer
  imports Syntax Executors
begin

text \<open>
  Semantic analysis, \<^verbatim>\<open>src/src/analyze/analyze.cpp\<close>: names are resolved against the tables, literals
  are converted to the types of their columns and encoded, and what does not fit is refused. The
  analysis reads the catalogue and changes nothing.
\<close>

section \<open>Columns\<close>

record query =
  q_parse :: tree_node
  q_conds :: "condition list"
  q_cols :: "tabcol list"
  q_tables :: "string list"
  q_sets :: "set_clause list"
  q_values :: "value_rec list"

definition query_new :: "tree_node \<Rightarrow> query" where
  "query_new p = \<lparr>q_parse = p, q_conds = [], q_cols = [], q_tables = [], q_sets = [], q_values = []\<rparr>"

fun eMap :: "('a \<Rightarrow> rmdb_error + 'b) \<Rightarrow> 'a list \<Rightarrow> rmdb_error + 'b list" where
  "eMap f [] = Inr []"
| "eMap f (x # xs) = eThen (f x) (\<lambda>y. eThen (eMap f xs) (\<lambda>ys. Inr (y # ys)))"

text \<open>The table of an unqualified column; \<open>tab\<close> is the one found so far.\<close>

fun infer_table :: "string \<Rightarrow> string \<Rightarrow> col_meta list \<Rightarrow> rmdb_error + string" where
  "infer_table c tab [] = Inr tab"
| "infer_table c tab (x # xs) =
     (if cm_name x = c then (if tab \<noteq> '''' then Inl (AmbiguousColumnError c) else infer_table c (cm_tab x) xs)
      else infer_table c tab xs)"

definition check_column :: "col_meta list \<Rightarrow> tabcol \<Rightarrow> rmdb_error + tabcol" where
  "check_column cols target =
     (if tc_tab target = '''' then
        eThen (infer_table (tc_col target) '''' cols) (\<lambda>t.
          if t = '''' then Inl (ColumnNotFoundError (tc_col target)) else Inr (target\<lparr>tc_tab := t\<rparr>))
      else if \<exists>x \<in> set cols. cm_tab x = tc_tab target \<and> cm_name x = tc_col target then Inr target
      else Inl (ColumnNotFoundError (tc_tab target @ ''.'' @ tc_col target)))"

definition get_all_cols :: "db_meta \<Rightarrow> string list \<Rightarrow> rmdb_error + col_meta list" where
  "get_all_cols d tabs = eThen (eMap (\<lambda>t. eThen (get_table t d) (\<lambda>tab. Inr (tm_cols tab))) tabs) (\<lambda>cs. Inr (concat cs))"

section \<open>Literals and conditions\<close>

text \<open>A value as it is constructed, before \<open>init_raw\<close>.\<close>

definition value_new :: "val \<Rightarrow> value_rec" where
  "value_new v = \<lparr>val_of = v, raw = None\<rparr>"

fun convert_sv_value :: "ast_value \<Rightarrow> rmdb_error + value_rec" where
  "convert_sv_value (IntLit i) = Inr (value_new (VInt i))"
| "convert_sv_value (BigintLit i overflow) =
     (if overflow then Inl (RMDBError ''bigint value out of range'') else Inr (value_new (VBigint i)))"
| "convert_sv_value (FloatLit f) = Inr (value_new (VFloat f))"
| "convert_sv_value (StringLit s) = Inr (value_new (VStr s))"
| "convert_sv_value (BoolLit b) = Inl (InternalError ''Unexpected sv value type'')"

fun convert_sv_comp_op :: "sv_comp_op \<Rightarrow> compop" where
  "convert_sv_comp_op SV_OP_EQ = OP_EQ"
| "convert_sv_comp_op SV_OP_NE = OP_NE"
| "convert_sv_comp_op SV_OP_LT = OP_LT"
| "convert_sv_comp_op SV_OP_GT = OP_GT"
| "convert_sv_comp_op SV_OP_LE = OP_LE"
| "convert_sv_comp_op SV_OP_GE = OP_GE"

text \<open>The side of a condition that is not used is left as it was constructed.\<close>

definition get_cond :: "binary_expr \<Rightarrow> rmdb_error + condition" where
  "get_cond e =
     (let l = plain_col (tc_tab (be_lhs e)) (tc_col (be_lhs e)); op = convert_sv_comp_op (be_op e) in
      case be_rhs e of
        ValueExpr v \<Rightarrow> eThen (convert_sv_value v) (\<lambda>v.
          Inr \<lparr>lhs_col = l, cond_op = op, is_rhs_val = True, rhs_col = plain_col '''' '''', rhs_val = v\<rparr>)
      | ColExpr c \<Rightarrow> Inr \<lparr>lhs_col = l, cond_op = op, is_rhs_val = False, rhs_col = plain_col (tc_tab c) (tc_col c),
          rhs_val = value_new (VInt 0)\<rparr>)"

definition get_clause :: "binary_expr list \<Rightarrow> rmdb_error + condition list" where
  "get_clause es = eMap get_cond es"

text \<open>The implicit conversion of a literal to the type of its column.\<close>

definition cast_for :: "coltype \<Rightarrow> value_rec \<Rightarrow> rmdb_error + value_rec" where
  "cast_for t v = (if val_type (val_of v) = t then Inr v
     else case cast_to v t of
       None \<Rightarrow> Inl (IncompatibleTypeError (coltype2str t) (coltype2str (val_type (val_of v))))
     | Some w \<Rightarrow> Inr w)"

definition rhs_column :: "col_meta list \<Rightarrow> condition \<Rightarrow> rmdb_error + tabcol" where
  "rhs_column cols c = (if is_rhs_val c then Inr (rhs_col c) else check_column cols (rhs_col c))"

text \<open>The type of the right side \<open>r\<close>, and its value, encoded for the column \<open>lc\<close> on the left.\<close>

definition rhs_type :: "db_meta \<Rightarrow> condition \<Rightarrow> tabcol \<Rightarrow> col_meta \<Rightarrow> rmdb_error + coltype \<times> value_rec" where
  "rhs_type d c r lc =
     (if is_rhs_val c
      then eThen (cast_for (cm_type lc) (rhs_val c)) (\<lambda>v. eThen (init_raw v (cm_len lc)) (\<lambda>v. Inr (val_type (val_of v), v)))
      else eThen (get_table (tc_tab r) d) (\<lambda>rt. eThen (tab_get_col (tc_col r) rt) (\<lambda>rc. Inr (cm_type rc, rhs_val c))))"

definition check_cond :: "db_meta \<Rightarrow> col_meta list \<Rightarrow> condition \<Rightarrow> rmdb_error + condition" where
  "check_cond d cols c =
     eThen (check_column cols (lhs_col c)) (\<lambda>l. eThen (rhs_column cols c) (\<lambda>r.
     eThen (get_table (tc_tab l) d) (\<lambda>lt. eThen (tab_get_col (tc_col l) lt) (\<lambda>lc.
     eThen (rhs_type d c r lc) (\<lambda>(rtype, v).
     if cm_type lc \<noteq> rtype then Inl (IncompatibleTypeError (coltype2str (cm_type lc)) (coltype2str rtype))
     else Inr (c\<lparr>lhs_col := l, rhs_col := r, rhs_val := v\<rparr>))))))"

definition check_clause :: "db_meta \<Rightarrow> string list \<Rightarrow> condition list \<Rightarrow> rmdb_error + condition list" where
  "check_clause d tabs conds = eThen (get_all_cols d tabs) (\<lambda>cols. eMap (check_cond d cols) conds)"

section \<open>Statements\<close>

text \<open>The table names of a \<^verbatim>\<open>SelectStmt\<close> are moved into the query.\<close>

definition check_table :: "db_meta \<Rightarrow> string \<Rightarrow> rmdb_error + unit" where
  "check_table d t = (if is_table t d then Inr () else Inl (TableNotFoundError t))"

definition convert_set :: "string \<Rightarrow> tab_meta \<Rightarrow> set_expr \<Rightarrow> rmdb_error + set_clause" where
  "convert_set t tab e =
     eThen (tab_get_col (se_col e) tab) (\<lambda>c. eThen (convert_sv_value (se_val e)) (\<lambda>v. eThen (cast_for (cm_type c) v) (\<lambda>v.
       Inr \<lparr>sc_lhs = plain_col t (se_col e), sc_rhs = v\<rparr>)))"

text \<open>The selected columns: all of them when none is named.\<close>

definition select_cols :: "col_meta list \<Rightarrow> tabcol list \<Rightarrow> rmdb_error + tabcol list" where
  "select_cols cols sel =
     (if sel = [] then Inr (map (\<lambda>c. plain_col (cm_tab c) (cm_name c)) cols)
      else eMap (\<lambda>s. if tc_star s then Inr s else check_column cols s) sel)"

fun do_analyze :: "db_meta \<Rightarrow> tree_node \<Rightarrow> rmdb_error + query" where
  "do_analyze d (SelectStmt s) =
     eThen (eMap (check_table d) (ss_tabs s)) (\<lambda>_.
     eThen (get_all_cols d (ss_tabs s)) (\<lambda>cols.
     eThen (select_cols cols (ss_cols s)) (\<lambda>sel.
     eThen (get_clause (ss_conds s)) (\<lambda>conds.
     eThen (check_clause d (ss_tabs s) conds) (\<lambda>conds.
     Inr ((query_new (SelectStmt (s\<lparr>ss_tabs := []\<rparr>)))\<lparr>q_tables := ss_tabs s, q_cols := sel, q_conds := conds\<rparr>))))))"
| "do_analyze d (UpdateStmt t sets es) =
     eThen (check_table d t) (\<lambda>_. eThen (get_table t d) (\<lambda>tab.
     eThen (eMap (convert_set t tab) sets) (\<lambda>clauses.
     eThen (get_clause es) (\<lambda>conds. eThen (check_clause d [t] conds) (\<lambda>conds.
     Inr ((query_new (UpdateStmt t sets es))\<lparr>q_tables := [t], q_sets := clauses, q_conds := conds\<rparr>))))))"
| "do_analyze d (DeleteStmt t es) =
     eThen (check_table d t) (\<lambda>_. eThen (get_clause es) (\<lambda>conds. eThen (check_clause d [t] conds) (\<lambda>conds.
     Inr ((query_new (DeleteStmt t es))\<lparr>q_conds := conds\<rparr>))))"
| "do_analyze d (InsertStmt t vs) =
     eThen (eMap convert_sv_value vs) (\<lambda>xs. Inr ((query_new (InsertStmt t vs))\<lparr>q_values := xs\<rparr>))"
| "do_analyze d p = Inr (query_new p)"

section \<open>What the analysis guarantees\<close>

lemma eMap_Inr: "eMap f xs = Inr ys \<longleftrightarrow> list_all2 (\<lambda>x y. f x = Inr y) xs ys"
  by (induction xs arbitrary: ys) (auto simp: eThen_eq_Inr list_all2_Cons1)

text \<open>In the catalogue every column names its table.\<close>

definition cols_named :: "db_meta \<Rightarrow> bool" where
  "cols_named d \<longleftrightarrow> (\<forall>t tab. map_of (db_tabs d) t = Some tab \<longrightarrow> t \<noteq> '''' \<and> (\<forall>c \<in> set (tm_cols tab). cm_tab c = t))"

lemma infer_table_found:
  "infer_table c t0 cols = Inr t \<Longrightarrow> t \<noteq> '''' \<Longrightarrow> t = t0 \<or> (\<exists>x \<in> set cols. cm_tab x = t \<and> cm_name x = c)"
  by (induction cols arbitrary: t0) (auto split: if_splits)

lemma check_column_found:
  assumes "check_column cols s = Inr s'"
  shows "\<exists>x \<in> set cols. cm_tab x = tc_tab s' \<and> cm_name x = tc_col s'" "s' = s\<lparr>tc_tab := tc_tab s'\<rparr>"
  using assms infer_table_found [of "tc_col s" "''''" cols]
  by (auto simp: check_column_def eThen_eq_Inr split: if_splits)

lemma get_all_cols_Inr:
  "get_all_cols d tabs = Inr cols \<longleftrightarrow> (\<exists>ts. list_all2 (\<lambda>t tab. map_of (db_tabs d) t = Some tab) tabs ts \<and> cols = concat (map tm_cols ts))"
proof -
  have one: "eThen (get_table t d) (\<lambda>tab. Inr (tm_cols tab)) = Inr cs \<longleftrightarrow> (\<exists>tab. map_of (db_tabs d) t = Some tab \<and> cs = tm_cols tab)" for t cs
    by (auto simp: get_table_def split: option.splits)
  have "list_all2 (\<lambda>t cs. \<exists>tab. map_of (db_tabs d) t = Some tab \<and> cs = tm_cols tab) tabs css \<Longrightarrow>
      \<exists>ts. list_all2 (\<lambda>t tab. map_of (db_tabs d) t = Some tab) tabs ts \<and> css = map tm_cols ts" for css
  proof (induction rule: list_all2_induct)
    case (Cons t tabs cs css)
    then obtain tab ts where "map_of (db_tabs d) t = Some tab" "cs = tm_cols tab"
      "list_all2 (\<lambda>t tab. map_of (db_tabs d) t = Some tab) tabs ts" "css = map tm_cols ts" by blast
    then show ?case by (intro exI [of _ "tab # ts"]) simp
  qed simp
  moreover have "list_all2 (\<lambda>t tab. map_of (db_tabs d) t = Some tab) tabs ts \<Longrightarrow>
      list_all2 (\<lambda>t cs. \<exists>tab. map_of (db_tabs d) t = Some tab \<and> cs = tm_cols tab) tabs (map tm_cols ts)" for ts
    by (auto simp: list_all2_map2 elim: list_all2_mono)
  moreover have "get_all_cols d tabs = Inr cols \<longleftrightarrow>
      (\<exists>css. list_all2 (\<lambda>t cs. \<exists>tab. map_of (db_tabs d) t = Some tab \<and> cs = tm_cols tab) tabs css \<and> cols = concat css)"
    unfolding get_all_cols_def eThen_eq_Inr [of "eMap _ _"] eMap_Inr one by auto
  ultimately show ?thesis by blast
qed

text \<open>A column of the catalogue is found among the columns of a list of tables that has its table.\<close>

lemma get_col_all:
  assumes "cols_named d" "get_all_cols d tabs = Inr cols" "map_of (db_tabs d) (tc_tab s) = Some tab" "tab_get_col (tc_col s) tab = Inr c"
    "\<exists>x \<in> set cols. cm_tab x = tc_tab s"
  shows "get_col cols s = Inr c"
proof -
  obtain ts where ts: "list_all2 (\<lambda>t tab. map_of (db_tabs d) t = Some tab) tabs ts" "cols = concat (map tm_cols ts)"
    using assms(2) by (auto simp: get_all_cols_Inr)
  let ?p = "\<lambda>c. cm_tab c = tc_tab s \<and> cm_name c = tc_col s"
  have c: "find (\<lambda>x. cm_name x = tc_col s) (tm_cols tab) = Some c" using assms(4) by (auto simp: tab_get_col_def split: option.splits)
  have own: "find ?p (tm_cols tab) = Some c"
  proof -
    have "find ?p (tm_cols tab) = find (\<lambda>x. cm_name x = tc_col s) (tm_cols tab)"
      using assms(1,3) by (intro find_cong) (auto simp: cols_named_def)
    with c show ?thesis by simp
  qed
  have other: "find ?p (tm_cols tab') = None" if "map_of (db_tabs d) t = Some tab'" "t \<noteq> tc_tab s" for t tab'
    using that assms(1) by (auto simp: find_None_iff cols_named_def)
  have "find ?p (concat (map tm_cols ts)) = Some c" if "\<exists>x \<in> set (concat (map tm_cols ts)). cm_tab x = tc_tab s"
    using ts(1) that
  proof (induction tabs ts rule: list_all2_induct)
    case (Cons t tabs tab' ts)
    show ?case
    proof (cases "t = tc_tab s")
      case True
      with Cons.hyps(1) assms(3) own show ?thesis by (simp add: find_append)
    next
      case False
      then have "\<exists>x \<in> set (concat (map tm_cols ts)). cm_tab x = tc_tab s"
        using Cons.prems Cons.hyps(1) assms(1) by (auto simp: cols_named_def)
      with Cons.IH other [OF Cons.hyps(1) False] show ?thesis by (simp add: find_append)
    qed
  qed simp
  with assms(5) ts(2) show ?thesis by (simp add: get_col_def)
qed

text \<open>A condition whose columns are there and whose sides have one type.\<close>

definition cond_resolved :: "col_meta list \<Rightarrow> condition \<Rightarrow> bool" where
  "cond_resolved cols c \<longleftrightarrow> (\<exists>l. get_col cols (lhs_col c) = Inr l \<and>
     (if is_rhs_val c then val_type (val_of (rhs_val c)) = cm_type l \<and>
        (\<exists>b. raw (rhs_val c) = Some b \<and> raw_bytes (val_of (rhs_val c)) (cm_len l) = Inr b)
      else \<exists>r. get_col cols (rhs_col c) = Inr r \<and> cm_type r = cm_type l))"

lemma cast_for_type: "cast_for t v = Inr w \<Longrightarrow> val_type (val_of w) = t \<and> raw w = raw v"
proof -
  have "cast_val v t = Some w \<Longrightarrow> val_type w = t" for v w
    by (cases v; cases t) (auto simp: cast_val.simps split: if_splits)
  then show "cast_for t v = Inr w \<Longrightarrow> val_type (val_of w) = t \<and> raw w = raw v"
    by (auto simp: cast_for_def cast_to_def split: if_splits option.splits)
qed

lemma all_cols_tab:
  assumes "cols_named d" "get_all_cols d tabs = Inr cols" "x \<in> set cols" "cm_tab x = t"
  shows "t \<in> set tabs"
proof -
  obtain ts where ts: "list_all2 (\<lambda>t tab. map_of (db_tabs d) t = Some tab) tabs ts" "cols = concat (map tm_cols ts)"
    using assms(2) by (auto simp: get_all_cols_Inr)
  with assms(3) obtain tab where "tab \<in> set ts" "x \<in> set (tm_cols tab)" by auto
  then obtain i where i: "i < length ts" "x \<in> set (tm_cols (ts ! i))" by (metis in_set_conv_nth)
  then have "map_of (db_tabs d) (tabs ! i) = Some (ts ! i)" "i < length tabs" using ts(1) by (auto simp: list_all2_conv_all_nth)
  then have "cm_tab x = tabs ! i" using assms(1) i(2) by (auto simp: cols_named_def)
  then show ?thesis using assms(4) \<open>i < length tabs\<close> by auto
qed

lemma check_cond_resolved:
  assumes "cols_named d" "get_all_cols d tabs = Inr cols" "check_cond d cols c = Inr c'"
  shows "cond_resolved cols c' \<and> tc_tab (lhs_col c') \<in> set tabs \<and> (\<not> is_rhs_val c' \<longrightarrow> tc_tab (rhs_col c') \<in> set tabs) \<and>
    cond_op c' = cond_op c \<and> is_rhs_val c' = is_rhs_val c \<and> (is_rhs_val c \<longrightarrow> rhs_col c' = rhs_col c) \<and> tc_col (lhs_col c') = tc_col (lhs_col c) \<and> tc_col (rhs_col c') = tc_col (rhs_col c)"
proof -
  obtain l r lt lc rtype v where run: "check_column cols (lhs_col c) = Inr l" "rhs_column cols c = Inr r"
    "get_table (tc_tab l) d = Inr lt" "tab_get_col (tc_col l) lt = Inr lc" "rhs_type d c r lc = Inr (rtype, v)"
    "cm_type lc = rtype" "c' = c\<lparr>lhs_col := l, rhs_col := r, rhs_val := v\<rparr>"
    using assms(3) by (auto simp: check_cond_def eThen_eq_Inr split: if_splits)
  note tabs = all_cols_tab [OF assms(1,2)]
  have found: "get_col cols s = Inr c" if "check_column cols s0 = Inr s" "get_table (tc_tab s) d = Inr tab" "tab_get_col (tc_col s) tab = Inr c"
    for s0 s tab c
    by (rule get_col_all [OF assms(1,2)]) (use that check_column_found [OF that(1)] in \<open>auto simp: get_table_def split: option.splits\<close>)
  note l = check_column_found [OF run(1)]
  have tl: "tc_tab l \<in> set tabs" using l(1) tabs by blast
  have nl: "tc_col l = tc_col (lhs_col c)" using l(2) by (metis tabcol.simps(2,10) tabcol.ext_inject tabcol.surjective tabcol.update_convs(1))
  show ?thesis
  proof (cases "is_rhs_val c")
    case True
    with run(5,6) obtain w where w: "cast_for (cm_type lc) (rhs_val c) = Inr w" "init_raw w (cm_len lc) = Inr v"
      by (auto simp: rhs_type_def eThen_eq_Inr)
    then have "val_of v = val_of w" "\<exists>b. raw v = Some b \<and> raw_bytes (val_of v) (cm_len lc) = Inr b"
      by (auto simp: init_raw_def split: if_splits sum.splits)
    with True run(2,7) found [OF run(1,3,4)] cast_for_type [OF w(1)] tl nl show ?thesis
      by (auto simp: cond_resolved_def rhs_column_def)
  next
    case False
    then obtain rt rc where r: "check_column cols (rhs_col c) = Inr r" "get_table (tc_tab r) d = Inr rt"
      "tab_get_col (tc_col r) rt = Inr rc" "rtype = cm_type rc" using run(2,5) by (auto simp: eThen_eq_Inr rhs_column_def rhs_type_def)
    note r' = check_column_found [OF r(1)]
    have "tc_tab r \<in> set tabs" using r'(1) tabs by blast
    moreover have "tc_col r = tc_col (rhs_col c)" using r'(2) by (metis tabcol.simps(2,10) tabcol.ext_inject tabcol.surjective tabcol.update_convs(1))
    ultimately show ?thesis using False run(6,7) r(4) found [OF run(1,3,4)] found [OF r(1,2,3)] tl nl
      by (auto simp: cond_resolved_def)
  qed
qed

lemma get_cond_value: "get_cond e = Inr c \<Longrightarrow> is_rhs_val c \<Longrightarrow> tc_tab (rhs_col c) = ''''"
  by (auto simp: get_cond_def eThen_eq_Inr Let_def plain_col_def split: expr.splits)

lemma get_clause_value: "get_clause es = Inr cs \<Longrightarrow> c \<in> set cs \<Longrightarrow> is_rhs_val c \<Longrightarrow> tc_tab (rhs_col c) = ''''"
  unfolding get_clause_def eMap_Inr by (auto simp: in_set_conv_nth list_all2_conv_all_nth intro: get_cond_value)

lemma eval_cond_resolved:
  assumes "cond_resolved cols c"
  shows "\<exists>b. eval_cond cols c r = Inr b"
  using assms by (auto simp: cond_resolved_def eval_cond_def split: if_splits)

lemma eval_conds_resolved:
  "\<forall>c \<in> set cs. cond_resolved cols c \<Longrightarrow> \<exists>b. eval_conds cols cs r = Inr b"
proof (induction cs)
  case (Cons c cs)
  from Cons.prems eval_cond_resolved obtain b where b: "eval_cond cols c r = Inr b" by (metis list.set_intros(1))
  from Cons obtain b' where "eval_conds cols cs r = Inr b'" by auto
  with b have "eval_conds cols (c # cs) r = Inr (b \<and> b')" by simp
  then show ?case by blast
qed (simp, blast)

lemma analyzed_conds:
  assumes "cols_named d" "get_all_cols d tabs = Inr cols" "get_clause es = Inr cs" "check_clause d tabs cs = Inr cs'" "c' \<in> set cs'"
  shows "cond_resolved cols c' \<and> tc_tab (lhs_col c') \<in> set tabs \<and>
    (if is_rhs_val c' then tc_tab (rhs_col c') = '''' else tc_tab (rhs_col c') \<in> set tabs)"
proof -
  obtain i where i: "i < length cs'" "c' = cs' ! i" using assms(5) by (metis in_set_conv_nth)
  have "list_all2 (\<lambda>c c'. check_cond d cols c = Inr c') cs cs'"
    using assms(2,4) by (simp add: check_clause_def eMap_Inr)
  with i have "check_cond d cols (cs ! i) = Inr c'" "cs ! i \<in> set cs" by (auto simp: list_all2_conv_all_nth)
  with check_cond_resolved [OF assms(1,2)] get_clause_value [OF assms(3)] show ?thesis by (auto split: if_splits)
qed

lemma select_cols_found:
  assumes "cols_named d" "get_all_cols d tabs = Inr cols" "select_cols cols sel = Inr sel'" "s \<in> set sel'" "\<not> tc_star s"
  shows "\<exists>x \<in> set cols. cm_tab x = tc_tab s \<and> cm_name x = tc_col s"
proof (cases "sel = []")
  case True
  with assms(3,4) show ?thesis by (fastforce simp: select_cols_def plain_col_def)
next
  case False
  then have l: "list_all2 (\<lambda>s s'. (if tc_star s then Inr s else check_column cols s) = Inr s') sel sel'"
    using assms(3) by (simp add: select_cols_def eMap_Inr)
  obtain i where i: "i < length sel'" "s = sel' ! i" using assms(4) by (metis in_set_conv_nth)
  with l have "(if tc_star (sel ! i) then Inr (sel ! i) else check_column cols (sel ! i)) = Inr s"
    by (simp add: list_all2_conv_all_nth)
  with assms(5) have "check_column cols (sel ! i) = Inr s" by (auto split: if_splits)
  from check_column_found(1) [OF this] show ?thesis .
qed

lemma get_col_exists: "(\<exists>x \<in> set cols. cm_tab x = tc_tab s \<and> cm_name x = tc_col s) \<longleftrightarrow> (\<exists>c. get_col cols s = Inr c)"
proof (cases "find (\<lambda>c. cm_tab c = tc_tab s \<and> cm_name c = tc_col s) cols")
  case None
  then have "\<not> (\<exists>x \<in> set cols. cm_tab x = tc_tab s \<and> cm_name x = tc_col s)" by (auto simp: find_None_iff)
  with None show ?thesis by (simp add: get_col_def)
next
  case (Some c)
  then have "c \<in> set cols" "cm_tab c = tc_tab s" "cm_name c = tc_col s" by (auto simp: find_Some_iff)
  with Some show ?thesis by (auto simp: get_col_def)
qed

lemma analyzed_select_run:
  assumes "cols_named d" "do_analyze d (SelectStmt s) = Inr q"
  obtains cols where "get_all_cols d (ss_tabs s) = Inr cols" "q_tables q = ss_tabs s" "q_parse q = SelectStmt (s\<lparr>ss_tabs := []\<rparr>)"
    "\<forall>c \<in> set (q_conds q). cond_resolved cols c \<and> tc_tab (lhs_col c) \<in> set (ss_tabs s) \<and>
      (if is_rhs_val c then tc_tab (rhs_col c) = '''' else tc_tab (rhs_col c) \<in> set (ss_tabs s))"
    "\<forall>x \<in> set (q_cols q). \<not> tc_star x \<longrightarrow> (\<exists>c. get_col cols x = Inr c)"
proof -
  obtain cols sel conds0 conds where run: "get_all_cols d (ss_tabs s) = Inr cols" "select_cols cols (ss_cols s) = Inr sel"
    "get_clause (ss_conds s) = Inr conds0" "check_clause d (ss_tabs s) conds0 = Inr conds"
    "q = (query_new (SelectStmt (s\<lparr>ss_tabs := []\<rparr>)))\<lparr>q_tables := ss_tabs s, q_cols := sel, q_conds := conds\<rparr>"
    using assms(2) by (auto simp: eThen_eq_Inr)
  from analyzed_conds [OF assms(1) run(1,3,4)] select_cols_found [OF assms(1) run(1,2)] run(1,5) get_col_exists
  show thesis by (intro that [of cols]) (auto simp: query_new_def)
qed

text \<open>
  Claim C6. What the analyzer lets through cannot fail on a row: after it has accepted a \<^verbatim>\<open>SELECT\<close>, every
  selected column is a column of the tables, and its conditions evaluate, without an error, on any
  record of the joined tables whatsoever, with both sides of one type.
\<close>

theorem analyzed_select_safe:
  assumes "cols_named d" "do_analyze d (SelectStmt s) = Inr q"
  shows "q_tables q = ss_tabs s \<and> (\<exists>cols. get_all_cols d (ss_tabs s) = Inr cols \<and>
    {x \<in> set (q_cols q). \<not> tc_star x \<and> (\<forall>c. get_col cols x \<noteq> Inr c)} = {} \<and>
    (\<forall>r. \<exists>b. eval_conds cols (q_conds q) r = Inr b) \<and> list_all (cond_resolved cols) (q_conds q))"
proof -
  obtain cols where cols: "get_all_cols d (ss_tabs s) = Inr cols" "q_tables q = ss_tabs s"
    "\<forall>c \<in> set (q_conds q). cond_resolved cols c" "\<forall>x \<in> set (q_cols q). \<not> tc_star x \<longrightarrow> (\<exists>c. get_col cols x = Inr c)"
    by (rule analyzed_select_run [OF assms]) blast
  with eval_conds_resolved [of "q_conds q" cols] show ?thesis by (auto simp: list_all_iff)
qed

text \<open>
  Claim C36. Integer literals keep their number, from the text of the statement to the bytes that are compared or
  stored: the digits of \<open>i\<close>, read by the lexer, become the two's complement encoding of \<open>i\<close> for an \<^verbatim>\<open>INT\<close> or
  \<^verbatim>\<open>BIGINT\<close> column, and exactly the numbers outside the range of the column are refused, never wrapped.
\<close>

theorem integer_literal_exact:
  assumes "t = TYPE_INT \<or> t = TYPE_BIGINT"
  shows "eThen (convert_sv_value (int_literal (put_int i))) (\<lambda>v. eThen (cast_for t v) (\<lambda>v. init_raw v (if t = TYPE_INT then 4 else 8))) =
    (if i < - (2 ^ 63) \<or> 2 ^ 63 - 1 < i then Inl (RMDBError ''bigint value out of range'')
     else if t = TYPE_INT \<and> (i < - (2 ^ 31) \<or> 2 ^ 31 - 1 < i) then Inl (IncompatibleTypeError ''INT'' ''BIGINT'')
     else Inr \<lparr>val_of = (if t = TYPE_INT then VInt i else VBigint i), raw = Some (le_encode (if t = TYPE_INT then 4 else 8) i)\<rparr>)"
proof -
  have lit: "convert_sv_value (int_literal (put_int i)) =
    (if i < - (2 ^ 63) \<or> 2 ^ 63 - 1 < i then Inl (RMDBError ''bigint value out of range'')
     else Inr (value_new (if - (2 ^ 31) \<le> i \<and> i \<le> 2 ^ 31 - 1 then VInt i else VBigint i)))"
    by (auto simp: int_literal_def bigint_lit_def strtoll_signed)
  show ?thesis
  proof (cases "i < - (2 ^ 63) \<or> 2 ^ 63 - 1 < i")
    case False
    then show ?thesis using assms unfolding lit
      by (auto simp: value_new_def cast_for_def cast_to_def cast_val.simps init_raw_def)
  qed (simp add: lit)
qed

theorem integer_literal_exact_witness:
  "eThen (convert_sv_value (int_literal ''-5'')) (\<lambda>v. eThen (cast_for TYPE_INT v) (\<lambda>v. init_raw v 4)) =
    Inr \<lparr>val_of = VInt (-5), raw = Some [251, 255, 255, 255]\<rparr>"
proof -
  have "put_int (-5) = ''-5''" by code_simp
  moreover have "le_encode 4 (-5) = [251, 255, 255, 255]" by code_simp
  ultimately show ?thesis using integer_literal_exact [of TYPE_INT "-5"] by simp
qed

definition ana_db :: db_meta where
  "ana_db = \<lparr>db_name = ''db'', db_tabs = [(''t'', \<lparr>tm_name = ''t'', tm_cols = scan_ex_cols, tm_indexes = []\<rparr>)]\<rparr>"

text \<open>\<^verbatim>\<open>SELECT a FROM t WHERE a < 5\<close>.\<close>

definition ana_select :: select_stmt where
  "ana_select = \<lparr>ss_cols = [plain_col '''' ''a''], ss_tabs = [''t''],
     ss_conds = [\<lparr>be_lhs = plain_col '''' ''a'', be_op = SV_OP_LT, be_rhs = ValueExpr (int_literal ''5'')\<rparr>],
     ss_jointree = [], ss_order = None, ss_limit = -1\<rparr>"

lemma ana_named: "cols_named ana_db"
  by (simp add: cols_named_def ana_db_def scan_ex_cols_def)

lemma ana_select_run:
  "do_analyze ana_db (SelectStmt ana_select) = Inr (\<lparr>q_parse = SelectStmt (ana_select\<lparr>ss_tabs := []\<rparr>),
     q_conds = [\<lparr>lhs_col = plain_col ''t'' ''a'', cond_op = OP_LT, is_rhs_val = True, rhs_col = plain_col '''' '''',
       rhs_val = \<lparr>val_of = VBigint 5, raw = Some [5, 0, 0, 0, 0, 0, 0, 0]\<rparr>\<rparr>],
     q_cols = [plain_col ''t'' ''a''], q_tables = [''t''], q_sets = [], q_values = []\<rparr>)"
  by code_simp

theorem analyzed_select_safe_witness:
  "\<exists>q. do_analyze ana_db (SelectStmt ana_select) = Inr q \<and> (\<exists>b. eval_conds scan_ex_cols (q_conds q) (replicate 8 7) = Inr b)"
proof -
  obtain q where q: "do_analyze ana_db (SelectStmt ana_select) = Inr q" using ana_select_run by blast
  have "get_all_cols ana_db (ss_tabs ana_select) = Inr scan_ex_cols" by code_simp
  with analyzed_select_safe [OF ana_named q] q show ?thesis by auto
qed

end
