(* ===== verification/Planner.thy ===== *)
theory Planner
  imports Analyzer
begin

text \<open>
  Plans and the planner: \<^verbatim>\<open>src/src/optimizer/plan.h\<close>, \<^verbatim>\<open>planner.cpp\<close>, \<^verbatim>\<open>optimizer.h\<close>. The planner reads the
  catalogue and its two switches; the null pointer is \<open>NullPlan\<close>.
\<close>

section \<open>Plans\<close>

datatype plan_tag =
    T_Invalid | T_Help | T_ShowTable | T_ShowIndex | T_DescTable | T_CreateTable | T_DropTable | T_CreateIndex | T_DropIndex
  | T_SetKnob | T_Insert | T_Update | T_Delete | T_select | T_Transaction_begin | T_Transaction_commit
  | T_Transaction_abort | T_Transaction_rollback | T_SeqScan | T_IndexScan | T_NestLoop | T_SortMerge | T_Sort
  | T_Projection | T_Aggregate | T_Limit

datatype plan =
    NullPlan
  | ScanPlan plan_tag string "condition list" "string list"
  | JoinPlan plan_tag plan plan "condition list"
  | ProjectionPlan plan "tabcol list"
  | AggregatePlan plan "tabcol list"
  | SortPlan plan "tabcol list" "bool list"
  | LimitPlan plan int
  | DMLPlan plan_tag plan string "value_rec list" "condition list" "set_clause list"
  | DDLPlan plan_tag string "string list" "col_def list"
  | OtherPlan plan_tag string
  | SetKnobPlan set_knob_type bool

text \<open>The constructor of a scan looks its table up; the columns it keeps are those of the table.\<close>

definition scan_plan :: "db_meta \<Rightarrow> plan_tag \<Rightarrow> string \<Rightarrow> condition list \<Rightarrow> string list \<Rightarrow> rmdb_error + plan" where
  "scan_plan d tag t conds names = eThen (get_table t d) (\<lambda>tab.
     if tm_cols tab = [] then Inl AssertionFailure else Inr (ScanPlan tag t conds names))"

section \<open>Choosing an index\<close>

text \<open>The conditions of a table on one column with a constant.\<close>

definition const_conds :: "string \<Rightarrow> string \<Rightarrow> condition list \<Rightarrow> condition list" where
  "const_conds t c conds = filter (\<lambda>d. is_rhs_val d \<and> tc_tab (lhs_col d) = t \<and> tc_col (lhs_col d) = c) conds"

text \<open>How many leading columns of an index the conditions restrict: equations, and one range at most.\<close>

fun match_prefix :: "string \<Rightarrow> condition list \<Rightarrow> col_meta list \<Rightarrow> nat" where
  "match_prefix t conds [] = 0"
| "match_prefix t conds (c # cs) = (let ds = const_conds t (cm_name c) conds in
     if \<exists>d \<in> set ds. cond_op d = OP_EQ then Suc (match_prefix t conds cs)
     else if \<exists>d \<in> set ds. cond_op d \<noteq> OP_NE then 1 else 0)"

definition get_index_cols :: "db_meta \<Rightarrow> string \<Rightarrow> condition list \<Rightarrow> rmdb_error + string list option" where
  "get_index_cols d t conds = eThen (get_table t d) (\<lambda>tab. Inr (map_option (\<lambda>im. map cm_name (im_cols im))
     (find (\<lambda>im. match_prefix t conds (im_cols im) > 0) (tm_indexes tab))))"

definition table_scan :: "db_meta \<Rightarrow> string \<Rightarrow> condition list \<Rightarrow> rmdb_error + plan" where
  "table_scan d t conds = eThen (get_index_cols d t conds) (\<lambda>ix. case ix of
     None \<Rightarrow> scan_plan d T_SeqScan t conds [] | Some names \<Rightarrow> scan_plan d T_IndexScan t conds names)"

section \<open>Joins\<close>

definition own_cond :: "string \<Rightarrow> condition \<Rightarrow> bool" where
  "own_cond t c \<longleftrightarrow> (t = tc_tab (lhs_col c) \<and> is_rhs_val c) \<or> tc_tab (lhs_col c) = tc_tab (rhs_col c)"

text \<open>The conditions for a table and the others.\<close>

definition pop_conds :: "condition list \<Rightarrow> string \<Rightarrow> condition list \<times> condition list" where
  "pop_conds conds t = (filter (own_cond t) conds, filter (\<lambda>c. \<not> own_cond t c) conds)"

fun scan_tables :: "db_meta \<Rightarrow> condition list \<Rightarrow> string list \<Rightarrow> rmdb_error + plan list \<times> condition list" where
  "scan_tables d conds [] = Inr ([], conds)"
| "scan_tables d conds (t # ts) = (case pop_conds conds t of (own, conds) \<Rightarrow>
     eThen (table_scan d t own) (\<lambda>p. eThen (scan_tables d conds ts) (\<lambda>(ps, conds). Inr (p # ps, conds))))"

definition swap_cond :: "condition \<Rightarrow> condition" where
  "swap_cond c = c\<lparr>lhs_col := rhs_col c, rhs_col := lhs_col c, cond_op := swap_op (cond_op c)\<rparr>"

text \<open>
  A condition between two tables is pushed to the lowest join of both: 1 and 2 say that a subtree has the
  table on its left or its right side, 3 that it took the condition.
\<close>

fun push_conds :: "condition \<Rightarrow> plan \<Rightarrow> nat \<times> plan" where
  "push_conds c (ScanPlan tag t conds names) =
     (if t = tc_tab (lhs_col c) then 1 else if t = tc_tab (rhs_col c) then 2 else 0, ScanPlan tag t conds names)"
| "push_conds c (JoinPlan tag l r conds) =
     (case push_conds c l of (lres, l) \<Rightarrow>
        if lres = 3 then (3, JoinPlan tag l r conds)
        else (case push_conds c r of (rres, r) \<Rightarrow>
          if rres = 3 then (3, JoinPlan tag l r conds)
          else if lres = 0 \<or> rres = 0 then (lres + rres, JoinPlan tag l r conds)
          else (3, JoinPlan tag l r (conds @ [if lres = 2 then swap_cond c else c]))))"
| "push_conds c p = (0, p)"

text \<open>Which tables are joined: \<^verbatim>\<open>scantbl\<close> by position, \<^verbatim>\<open>joined_tables\<close> by name.\<close>

type_synonym join_progress = "bool list \<times> string list"

fun find_scan :: "string \<Rightarrow> plan list \<Rightarrow> nat option" where
  "find_scan t [] = None"
| "find_scan t (p # ps) = (case p of
     ScanPlan _ t' _ _ \<Rightarrow> if t' = t then Some 0 else map_option Suc (find_scan t ps)
   | _ \<Rightarrow> map_option Suc (find_scan t ps))"

definition pop_scan :: "plan list \<Rightarrow> string \<Rightarrow> join_progress \<Rightarrow> plan \<times> join_progress" where
  "pop_scan plans t = (\<lambda>(used, names). case find_scan t plans of
     None \<Rightarrow> (NullPlan, used, names)
   | Some i \<Rightarrow> (plans ! i, used[i := True], names @ [t]))"

text \<open>A further join condition: it brings in two new tables, one, or none.\<close>

definition join_cond :: "plan list \<Rightarrow> condition \<Rightarrow> plan \<times> join_progress \<Rightarrow> plan \<times> join_progress" where
  "join_cond plans c = (\<lambda>(p, j).
     let lt = tc_tab (lhs_col c); rt = tc_tab (rhs_col c);
         (left, j) = (if lt \<in> set (snd j) then (NullPlan, j) else pop_scan plans lt j);
         need = rt \<notin> set (snd j);
         (right, j) = (if need then pop_scan plans rt j else (NullPlan, j))
     in if left \<noteq> NullPlan \<and> right \<noteq> NullPlan
        then (JoinPlan T_NestLoop (JoinPlan T_NestLoop left right [c]) p [], j)
        else if left \<noteq> NullPlan \<or> right \<noteq> NullPlan
        then (if need then JoinPlan T_NestLoop right p [swap_cond c] else JoinPlan T_NestLoop left p [c], j)
        else (snd (push_conds c p), j))"

record planner =
  enable_nestedloop_join :: bool
  enable_sortmerge_join :: bool

definition planner_new :: planner where
  "planner_new = \<lparr>enable_nestedloop_join = True, enable_sortmerge_join = False\<rparr>"

definition join_tag :: "planner \<Rightarrow> rmdb_error + plan_tag" where
  "join_tag k = (if enable_nestedloop_join k then Inr T_NestLoop
     else if enable_sortmerge_join k then Inr T_SortMerge else Inl (RMDBError ''No join executor selected!''))"

text \<open>The first join; without conditions, the first table alone.\<close>

fun first_join :: "planner \<Rightarrow> plan list \<Rightarrow> condition list \<Rightarrow> rmdb_error + plan \<times> join_progress" where
  "first_join k plans [] = Inr (plans ! 0, (replicate (length plans) False)[0 := True], [])"
| "first_join k plans (c # cs) =
     (let j = (replicate (length plans) False, replicate (length plans) '''');
          (left, j) = pop_scan plans (tc_tab (lhs_col c)) j;
          (right, j) = pop_scan plans (tc_tab (rhs_col c)) j
      in eThen (join_tag k) (\<lambda>tag. Inr (JoinPlan tag left right [c], j)))"

text \<open>The tables left over are joined without a condition.\<close>

fun join_others :: "plan list \<Rightarrow> bool list \<Rightarrow> plan \<Rightarrow> plan" where
  "join_others (s # ss) (u # us) p = join_others ss us (if u then p else JoinPlan T_NestLoop s p [])"
| "join_others _ _ p = p"

definition make_one_rel :: "db_meta \<Rightarrow> planner \<Rightarrow> query \<Rightarrow> rmdb_error + plan" where
  "make_one_rel d k q =
     (if q_tables q = [] then Inl AssertionFailure
      else eThen (scan_tables d (q_conds q) (q_tables q)) (\<lambda>(scans, conds).
        if length (q_tables q) = 1 then Inr (scans ! 0)
        else eThen (first_join k scans conds) (\<lambda>pj.
          case fold (join_cond scans) (tl conds) pj of (p, used, _) \<Rightarrow> Inr (join_others scans used p))))"

section \<open>Selects\<close>

definition sort_key :: "col_meta list \<Rightarrow> ast_col \<Rightarrow> tabcol" where
  "sort_key cols s = (case find (\<lambda>c. cm_name c = tc_col s \<and> (tc_tab s = '''' \<or> cm_tab c = tc_tab s)) cols of
     None \<Rightarrow> plain_col '''' '''' | Some c \<Rightarrow> plain_col (cm_tab c) (cm_name c))"

definition generate_sort_plan :: "db_meta \<Rightarrow> select_stmt \<Rightarrow> query \<Rightarrow> plan \<Rightarrow> rmdb_error + plan" where
  "generate_sort_plan d s q p = (case ss_order s of
     None \<Rightarrow> Inr p
   | Some ob \<Rightarrow> eThen (get_all_cols d (q_tables q)) (\<lambda>cols.
       Inr (SortPlan p (map (sort_key cols) (ob_cols ob)) (map (\<lambda>dir. dir = OrderBy_DESC) (ob_dirs ob)))))"

definition physical_optimization :: "db_meta \<Rightarrow> planner \<Rightarrow> select_stmt \<Rightarrow> query \<Rightarrow> rmdb_error + plan" where
  "physical_optimization d k s q = eThen (make_one_rel d k q) (generate_sort_plan d s q)"

definition logical_optimization :: "query \<Rightarrow> query" where
  "logical_optimization q = q"

definition generate_select_plan :: "db_meta \<Rightarrow> planner \<Rightarrow> select_stmt \<Rightarrow> query \<Rightarrow> rmdb_error + plan" where
  "generate_select_plan d k s q =
     (let q = logical_optimization q in
      eThen (physical_optimization d k s q) (\<lambda>p.
      let p = (if \<exists>c \<in> set (q_cols q). tc_agg c \<noteq> AGG_NONE then AggregatePlan p (q_cols q) else ProjectionPlan p (q_cols q))
      in Inr (if ss_limit s \<ge> 0 then LimitPlan p (ss_limit s) else p)))"

section \<open>Statements\<close>

fun interp_sv_type :: "sv_type \<Rightarrow> rmdb_error + coltype" where
  "interp_sv_type SV_TYPE_INT = Inr TYPE_INT"
| "interp_sv_type SV_TYPE_FLOAT = Inr TYPE_FLOAT"
| "interp_sv_type SV_TYPE_STRING = Inr TYPE_STRING"
| "interp_sv_type SV_TYPE_BIGINT = Inr TYPE_BIGINT"
| "interp_sv_type SV_TYPE_DATETIME = Inr TYPE_DATETIME"
| "interp_sv_type SV_TYPE_BOOL = Inl StdOutOfRange"

fun plan_field :: "ast_field \<Rightarrow> rmdb_error + col_def" where
  "plan_field (ColDefField n t len) = eThen (interp_sv_type t) (\<lambda>t. Inr \<lparr>cd_name = n, cd_type = t, cd_len = len\<rparr>)"
| "plan_field BareField = Inl (InternalError ''Unexpected field type'')"

definition do_planner :: "db_meta \<Rightarrow> planner \<Rightarrow> query \<Rightarrow> rmdb_error + plan" where
  "do_planner d k q = (case q_parse q of
     CreateTable t fs \<Rightarrow> eThen (eMap plan_field fs) (\<lambda>defs. Inr (DDLPlan T_CreateTable t [] defs))
   | DropTable t \<Rightarrow> Inr (DDLPlan T_DropTable t [] [])
   | CreateIndex t names \<Rightarrow> Inr (DDLPlan T_CreateIndex t names [])
   | DropIndex t names \<Rightarrow> Inr (DDLPlan T_DropIndex t names [])
   | InsertStmt t _ \<Rightarrow> Inr (DMLPlan T_Insert NullPlan t (q_values q) [] [])
   | DeleteStmt t _ \<Rightarrow> eThen (table_scan d t (q_conds q)) (\<lambda>p. Inr (DMLPlan T_Delete p t [] (q_conds q) []))
   | UpdateStmt t _ _ \<Rightarrow> eThen (table_scan d t (q_conds q)) (\<lambda>p. Inr (DMLPlan T_Update p t [] (q_conds q) (q_sets q)))
   | SelectStmt s \<Rightarrow> eThen (generate_select_plan d k s q) (\<lambda>p. Inr (DMLPlan T_select p '''' [] [] []))
   | _ \<Rightarrow> Inl (InternalError ''Unexpected AST root''))"

definition plan_query :: "db_meta \<Rightarrow> planner \<Rightarrow> query \<Rightarrow> rmdb_error + plan" where
  "plan_query d k q = (case q_parse q of
     Help \<Rightarrow> Inr (OtherPlan T_Help '''')
   | ShowTables \<Rightarrow> Inr (OtherPlan T_ShowTable '''')
   | ShowIndex t \<Rightarrow> Inr (OtherPlan T_ShowIndex t)
   | DescTable t \<Rightarrow> Inr (OtherPlan T_DescTable t)
   | TxnBegin \<Rightarrow> Inr (OtherPlan T_Transaction_begin '''')
   | TxnAbort \<Rightarrow> Inr (OtherPlan T_Transaction_abort '''')
   | TxnCommit \<Rightarrow> Inr (OtherPlan T_Transaction_commit '''')
   | TxnRollback \<Rightarrow> Inr (OtherPlan T_Transaction_rollback '''')
   | SetStmt knob b \<Rightarrow> Inr (SetKnobPlan knob b)
   | _ \<Rightarrow> do_planner d k q)"

end
