(* ===== verification/Index_Scan.thy ===== *)
theory Index_Scan
  imports Planner
begin

text \<open>
  The scan of a table through an index, \<^verbatim>\<open>src/src/execution/executor_index_scan.h\<close>, with the positions of
  \<^verbatim>\<open>index/ix_scan.h\<close>: the conditions on a prefix of the index columns give the bounds of the scan, all
  conditions are checked on every record in between.
\<close>

section \<open>Bounds\<close>

text \<open>\<^verbatim>\<open>set_min\<close> and \<^verbatim>\<open>set_max\<close>: the limits of the type; for \<^verbatim>\<open>FLOAT\<close> the largest finite numbers.\<close>

definition min_bytes :: "coltype \<Rightarrow> int \<Rightarrow> bytes" where
  "min_bytes t len = (case t of TYPE_INT \<Rightarrow> le_encode 4 (- (2 ^ 31)) | TYPE_FLOAT \<Rightarrow> le_encode 4 (2 ^ 31 + 255 * 2 ^ 23 - 1)
     | TYPE_STRING \<Rightarrow> replicate (nat len) 0 | _ \<Rightarrow> le_encode 8 (- (2 ^ 63)))"

definition max_bytes :: "coltype \<Rightarrow> int \<Rightarrow> bytes" where
  "max_bytes t len = (case t of TYPE_INT \<Rightarrow> le_encode 4 (2 ^ 31 - 1) | TYPE_FLOAT \<Rightarrow> le_encode 4 (255 * 2 ^ 23 - 1)
     | TYPE_STRING \<Rightarrow> replicate (nat len) 255 | _ \<Rightarrow> le_encode 8 (2 ^ 63 - 1))"

text \<open>The conditions on a column with a constant; the last of each kind counts.\<close>

definition bound_conds :: "condition list \<Rightarrow> string \<Rightarrow> compop set \<Rightarrow> condition option" where
  "bound_conds conds c ops = find (\<lambda>d. is_rhs_val d \<and> tc_col (lhs_col d) = c \<and> cond_op d \<in> ops) (rev conds)"

record ix_bounds =
  ib_low :: bytes
  ib_high :: bytes
  ib_low_inc :: bool
  ib_high_inc :: bool
  ib_open :: bool
  ib_off :: int

definition bound_bytes :: "condition \<Rightarrow> bytes" where
  "bound_bytes d = (case raw (rhs_val d) of None \<Rightarrow> [] | Some b \<Rightarrow> b)"

definition bound_col :: "condition list \<Rightarrow> col_meta \<Rightarrow> ix_bounds \<Rightarrow> ix_bounds" where
  "bound_col conds c b = (
     let off = ib_off b; n = nat (cm_len c);
         lo = patch off (min_bytes (cm_type c) (cm_len c)) (ib_low b);
         hi = patch off (max_bytes (cm_type c) (cm_len c)) (ib_high b);
         eq = bound_conds conds (cm_name c) {OP_EQ};
         above = bound_conds conds (cm_name c) {OP_GT, OP_GE};
         below = bound_conds conds (cm_name c) {OP_LT, OP_LE};
         b = b\<lparr>ib_low := lo, ib_high := hi, ib_off := off + cm_len c\<rparr>
     in if \<not> ib_open b then b
        else case eq of
          Some d \<Rightarrow> b\<lparr>ib_low := patch off (take n (bound_bytes d)) lo, ib_high := patch off (take n (bound_bytes d)) hi\<rparr>
        | None \<Rightarrow>
            (let b = (case above of None \<Rightarrow> b
                 | Some d \<Rightarrow> b\<lparr>ib_low := patch off (take n (bound_bytes d)) lo, ib_low_inc := cond_op d = OP_GE\<rparr>);
                 b = (case below of None \<Rightarrow> b
                 | Some d \<Rightarrow> b\<lparr>ib_high := patch off (take n (bound_bytes d)) hi, ib_high_inc := cond_op d = OP_LE\<rparr>)
             in b\<lparr>ib_open := False\<rparr>))"

definition index_bounds :: "index_meta \<Rightarrow> condition list \<Rightarrow> ix_bounds" where
  "index_bounds im conds = (let zero = replicate (nat (im_tot_len im)) 0 in
     fold (bound_col conds) (im_cols im)
       \<lparr>ib_low = zero, ib_high = zero, ib_low_inc = True, ib_high_inc = True, ib_open = True, ib_off = 0\<rparr>)"

text \<open>
  A condition whose constant was never encoded holds a null pointer, which the loop follows; the model
  refuses such a condition on any column of the index.
\<close>

definition constants_there :: "index_meta \<Rightarrow> condition list \<Rightarrow> bool" where
  "constants_there im conds \<longleftrightarrow> (\<forall>d \<in> set conds. is_rhs_val d \<longrightarrow> tc_col (lhs_col d) \<in> cm_name ` set (im_cols im) \<longrightarrow> raw (rhs_val d) \<noteq> None)"

section \<open>The executor\<close>

text \<open>\<^verbatim>\<open>IxScan\<close>: where it stands, and its end.\<close>

definition ix_rec_scan :: "string \<Rightarrow> (iid \<times> iid) rec_scan" where
  "ix_rec_scan name = \<lparr>
     rs_next = (\<lambda>(i, stop). pThen (on_index name (pdo (ix_scan_next stop i))) (\<lambda>i. pdo (ret (i, stop)))),
     rs_end = (\<lambda>(i, stop) _. i = stop),
     rs_rid = (\<lambda>(i, _). on_index name (pdo (ix_get_rid i)))\<rparr>"

text \<open>The constructor turns round the conditions whose left side is another table's.\<close>

definition turn_cond :: "string \<Rightarrow> condition \<Rightarrow> rmdb_error + condition" where
  "turn_cond t c = (if tc_tab (lhs_col c) = t then Inr c
     else if \<not> is_rhs_val c \<and> tc_tab (rhs_col c) = t then Inr (swap_cond c) else Inl AssertionFailure)"

definition index_scan :: "string \<Rightarrow> index_meta \<Rightarrow> condition list \<Rightarrow> col_meta list \<Rightarrow> (rid \<times> (iid \<times> iid) option) executor" where
  "index_scan t im conds cols = (let name = index_name t (im_cols im); b = index_bounds im conds in \<lparr>ex_cols = cols, ex_len = last_end cols,
     ex_begin = (\<lambda>(r, _).
       pThen (pdo (table_fd t)) (\<lambda>fd. pThen (pdo (on_locks (lock_shared_on_table fd))) (\<lambda>_.
       pThen (on_index name (pdo (ret ()))) (\<lambda>_.
       pThen (pdo (if constants_there im conds then ret () else throw AssertionFailure)) (\<lambda>_.
       pThen (on_index name (if ib_low_inc b then ix_lower_bound (ib_low b) else ix_upper_bound (ib_low b))) (\<lambda>lower.
       pThen (on_index name (if ib_high_inc b then ix_upper_bound (ib_high b) else ix_lower_bound (ib_high b))) (\<lambda>upper.
       pThen (find_next_valid (ix_rec_scan name) t cols conds r (lower, upper)) (\<lambda>(r, sc). pdo (ret (r, Some sc)))))))))),
     ex_next = (\<lambda>(r, sc). case sc of None \<Rightarrow> pdo (throw AssertionFailure)
       | Some sc \<Rightarrow> pThen (rs_next (ix_rec_scan name) sc) (\<lambda>sc.
           pThen (find_next_valid (ix_rec_scan name) t cols conds r sc) (\<lambda>(r, sc). pdo (ret (r, Some sc))))),
     ex_end = (\<lambda>(_, sc) sv. case sc of None \<Rightarrow> True | Some sc \<Rightarrow> rs_end (ix_rec_scan name) sc sv),
     ex_rec = (\<lambda>(r, _). pdo (on_table False t (get_record r)))\<rparr>)"

definition index_scan_new :: "string \<Rightarrow> condition list \<Rightarrow> string list \<Rightarrow> (server, (rid \<times> (iid \<times> iid) option) executor) op" where
  "index_scan_new t conds names = andThen (from_db (get_table t)) (\<lambda>tab.
     andThen (from_db (\<lambda>_. get_index_meta names tab)) (\<lambda>im. andThen (table_fd t) (\<lambda>_.
     if tm_cols tab = [] then throw AssertionFailure
     else andThen (from_db (\<lambda>_. eMap (turn_cond t) conds)) (\<lambda>conds. ret (index_scan t im conds (tm_cols tab))))))"

end
