(* ===== verification/Portal.thy ===== *)
theory Portal
  imports Index_Scan Sort_Join Aggregate Dml
begin

text \<open>
  From plans to answers: \<^verbatim>\<open>src/src/portal.h\<close> makes a tree of executors of a plan and
  \<^verbatim>\<open>execution/execution_manager.cpp\<close> runs it and prints the result, or runs the statement itself.
\<close>

section \<open>Executors behind one pointer type\<close>

text \<open>
  \<^verbatim>\<open>std::unique_ptr<AbstractExecutor>\<close>: the members of any executor. Before \<^verbatim>\<open>beginTuple\<close> a member has no
  defined value, \<open>NoMembers\<close>; reading the members of the wrong class never happens.
\<close>

datatype members =
    NoMembers
  | ScanMembers rid "rid option"
  | IndexMembers rid "(iid \<times> iid) option"
  | LimitMembers members int
  | SortMembers members "bytes list" nat
  | JoinMembers members members "bytes list" int "bytes option" bool
  | AggMembers members bool "bytes option"

definition pack_exec :: "('c \<Rightarrow> members) \<Rightarrow> (members \<Rightarrow> 'c) \<Rightarrow> 'c executor \<Rightarrow> members executor" where
  "pack_exec to from ex = \<lparr>ex_cols = ex_cols ex, ex_len = ex_len ex,
     ex_begin = (\<lambda>m. pThen (ex_begin ex (from m)) (\<lambda>c. pdo (ret (to c)))),
     ex_next = (\<lambda>m. pThen (ex_next ex (from m)) (\<lambda>c. pdo (ret (to c)))),
     ex_end = (\<lambda>m. ex_end ex (from m)),
     ex_rec = (\<lambda>m. ex_rec ex (from m))\<rparr>"

fun scan_of :: "members \<Rightarrow> rid \<times> rid option" where
  "scan_of (ScanMembers r sc) = (r, sc)"
| "scan_of _ = (Rid 0 0, None)"

fun index_of :: "members \<Rightarrow> rid \<times> (iid \<times> iid) option" where
  "index_of (IndexMembers r sc) = (r, sc)"
| "index_of _ = (Rid 0 0, None)"

fun limit_of :: "members \<Rightarrow> members \<times> int" where
  "limit_of (LimitMembers m k) = (m, k)"
| "limit_of _ = (NoMembers, 0)"

fun sort_of :: "members \<Rightarrow> members \<times> bytes list \<times> nat" where
  "sort_of (SortMembers m ts pos) = (m, ts, pos)"
| "sort_of _ = (NoMembers, [], 0)"

fun agg_of :: "members \<Rightarrow> members \<times> bool \<times> bytes option" where
  "agg_of (AggMembers m e r) = (m, e, r)"
| "agg_of _ = (NoMembers, False, None)"

fun join_of :: "members \<Rightarrow> (members, members) join_state" where
  "join_of (JoinMembers l r buf pos rr e) =
     \<lparr>jn_left = l, jn_right = r, left_buffer = buf, left_pos = pos, right_rec = rr, jn_end = e\<rparr>"
| "join_of _ = \<lparr>jn_left = NoMembers, jn_right = NoMembers, left_buffer = [], left_pos = -1, right_rec = None, jn_end = False\<rparr>"

definition join_members :: "(members, members) join_state \<Rightarrow> members" where
  "join_members j = JoinMembers (jn_left j) (jn_right j) (left_buffer j) (left_pos j) (right_rec j) (jn_end j)"

text \<open>\<^verbatim>\<open>rid()\<close> of the scans.\<close>

fun member_rid :: "members \<Rightarrow> rid" where
  "member_rid (ScanMembers r _) = r"
| "member_rid (IndexMembers r _) = r"
| "member_rid _ = Rid 0 0"

section \<open>The portal\<close>

text \<open>A plan without an executor gives a null pointer, which every user of it follows.\<close>

fun convert_plan_executor :: "plan \<Rightarrow> (server, members executor) op" where
  "convert_plan_executor (ProjectionPlan p sel) =
     andThen (convert_plan_executor p) (\<lambda>ex. from_db (\<lambda>_. projection_exec ex sel))"
| "convert_plan_executor (AggregatePlan p sel) =
     andThen (convert_plan_executor p) (\<lambda>ex. andThen (from_db (\<lambda>_. aggregate_exec ex sel)) (\<lambda>ag.
       ret (pack_exec (\<lambda>(m, e, r). AggMembers m e r) agg_of ag)))"
| "convert_plan_executor (ScanPlan tag t conds names) =
     (if tag = T_SeqScan
      then andThen (seq_scan_new t conds) (\<lambda>ex. ret (pack_exec (\<lambda>(r, sc). ScanMembers r sc) scan_of ex))
      else andThen (index_scan_new t conds names) (\<lambda>ex. ret (pack_exec (\<lambda>(r, sc). IndexMembers r sc) index_of ex)))"
| "convert_plan_executor (JoinPlan _ l r conds) =
     andThen (convert_plan_executor l) (\<lambda>L. andThen (convert_plan_executor r) (\<lambda>R.
       ret (pack_exec join_members join_of (join_exec L R conds))))"
| "convert_plan_executor (SortPlan p sel desc) =
     andThen (convert_plan_executor p) (\<lambda>ex. andThen (from_db (\<lambda>_. sort_exec ex sel desc)) (\<lambda>so.
       ret (pack_exec (\<lambda>(m, ts, pos). SortMembers m ts pos) sort_of so)))"
| "convert_plan_executor _ = throw AssertionFailure"

text \<open>\<open>InsertExecutor\<close> and the others that change rows: \<open>Next\<close> is left to \<open>run\<close>.\<close>

datatype root =
    NoRoot
  | QueryRoot "members executor"
  | InsertRoot string tab_meta "value_rec list"
  | UpdateRoot string "set_clause list" "rid list"
  | DeleteRoot string "rid list"

datatype portal_tag = PORTAL_Invalid_Query | PORTAL_ONE_SELECT | PORTAL_DML_WITHOUT_SELECT | PORTAL_MULTI_QUERY | PORTAL_CMD_UTILITY

record portal_stmt =
  ps_tag :: portal_tag
  ps_cols :: "tabcol list"
  ps_root :: root
  ps_plan :: plan

text \<open>The positions of the records a scan delivers, before any of them is changed.\<close>

partial_function (option) collect_rids ::
    "members executor \<Rightarrow> rid list \<Rightarrow> members \<Rightarrow> server \<Rightarrow> ((rmdb_error + rid list) \<times> server) option" where
  "collect_rids ex acc m sv =
     (if ex_end ex m sv then pdo (ret acc) sv
      else pThen (ex_next ex m) (collect_rids ex (acc @ [member_rid m])) sv)"

definition scan_rids :: "plan \<Rightarrow> (server, rid list) pop" where
  "scan_rids p = pThen (pdo (convert_plan_executor p)) (\<lambda>ex. pThen (ex_begin ex NoMembers) (collect_rids ex []))"

fun plan_sel_cols :: "plan \<Rightarrow> tabcol list" where
  "plan_sel_cols (ProjectionPlan _ sel) = sel"
| "plan_sel_cols (AggregatePlan _ sel) = sel"
| "plan_sel_cols _ = []"

definition start_select :: "plan \<Rightarrow> (server, tabcol list \<times> root) op" where
  "start_select sub = (case (case sub of LimitPlan p n \<Rightarrow> (n, p) | p \<Rightarrow> (-1, p)) of (n, p) \<Rightarrow>
     andThen (convert_plan_executor p) (\<lambda>ex. ret (plan_sel_cols p, QueryRoot
       (if n \<ge> 0 then pack_exec (\<lambda>(m, k). LimitMembers m k) limit_of (limit_exec ex n) else ex))))"

fun portal_start :: "plan \<Rightarrow> (server, portal_stmt) pop" where
  "portal_start (OtherPlan tag t) = pdo (ret \<lparr>ps_tag = PORTAL_CMD_UTILITY, ps_cols = [], ps_root = NoRoot, ps_plan = OtherPlan tag t\<rparr>)"
| "portal_start (SetKnobPlan k b) = pdo (ret \<lparr>ps_tag = PORTAL_CMD_UTILITY, ps_cols = [], ps_root = NoRoot, ps_plan = SetKnobPlan k b\<rparr>)"
| "portal_start (DDLPlan tag t names defs) =
     pdo (ret \<lparr>ps_tag = PORTAL_MULTI_QUERY, ps_cols = [], ps_root = NoRoot, ps_plan = DDLPlan tag t names defs\<rparr>)"
| "portal_start (DMLPlan tag sub t vals conds sets) = (let p = DMLPlan tag sub t vals conds sets in
     if tag = T_select then
       pThen (pdo (start_select sub)) (\<lambda>(cols, r). pdo (ret \<lparr>ps_tag = PORTAL_ONE_SELECT, ps_cols = cols, ps_root = r, ps_plan = p\<rparr>))
     else if tag = T_Update then
       pThen (scan_rids sub) (\<lambda>rids. pThen (pdo (dml_new t)) (\<lambda>_.
         pdo (ret \<lparr>ps_tag = PORTAL_DML_WITHOUT_SELECT, ps_cols = [], ps_root = UpdateRoot t sets rids, ps_plan = p\<rparr>)))
     else if tag = T_Delete then
       pThen (scan_rids sub) (\<lambda>rids. pThen (pdo (dml_new t)) (\<lambda>_.
         pdo (ret \<lparr>ps_tag = PORTAL_DML_WITHOUT_SELECT, ps_cols = [], ps_root = DeleteRoot t rids, ps_plan = p\<rparr>)))
     else if tag = T_Insert then
       pThen (pdo (insert_new t vals)) (\<lambda>tab.
         pdo (ret \<lparr>ps_tag = PORTAL_DML_WITHOUT_SELECT, ps_cols = [], ps_root = InsertRoot t tab vals, ps_plan = p\<rparr>))
     else pdo (throw (InternalError ''Unexpected field type'')))"
| "portal_start _ = pdo (throw (InternalError ''Unexpected field type''))"

section \<open>Running a query\<close>

text \<open>
  \<^verbatim>\<open>std::to_string(float)\<close> prints with \<^verbatim>\<open>"%f"\<close>: six decimals of the exact value, rounded to the nearest, ties
  to even.
\<close>

definition float_to_str :: "float32 \<Rightarrow> string" where
  "float_to_str w = (let u = uint w mod 2 ^ 31; e = u div 2 ^ 23; f = u mod 2 ^ 23; sign = (if uint w \<ge> 2 ^ 31 then ''-'' else '''') in
     if e = 255 then sign @ (if f = 0 then ''inf'' else ''nan'')
     else let m = nat (if e = 0 then f else 2 ^ 23 + f); k = (if e = 0 then -149 else e - 150);
              n = (if k \<ge> 0 then m * 2 ^ nat k * 10 ^ 6 else round_shift (m * 10 ^ 6) (nat (- k)))
          in sign @ digits (n div 10 ^ 6) @ ''.'' @ fmt_d 6 (int (n mod 10 ^ 6)))"

text \<open>A string value ends at its first zero byte.\<close>

definition value_str :: "bytes \<Rightarrow> col_meta \<Rightarrow> string" where
  "value_str r c = (let d = drop (nat (cm_offset c)) r in case cm_type c of
     TYPE_INT \<Rightarrow> put_int (read_at 4 d)
   | TYPE_BIGINT \<Rightarrow> put_int (read_at 8 d)
   | TYPE_DATETIME \<Rightarrow> datetime_to_str (read_at 8 d)
   | TYPE_FLOAT \<Rightarrow> float_to_str (word_of_int (le_decode (take 4 d)))
   | TYPE_STRING \<Rightarrow> map char_of_byte (takeWhile (\<lambda>b. b \<noteq> 0) (take (nat (cm_len c)) d)))"

definition outfile_row :: "string list \<Rightarrow> (server, unit) op" where
  "outfile_row cells = append_outfile (''|'' @ concat (map (\<lambda>c. '' '' @ c @ '' |'') cells) @ newline)"

definition print_tuple :: "nat \<Rightarrow> col_meta list \<Rightarrow> bytes \<Rightarrow> (server, unit) op" where
  "print_tuple n cols r = (let cells = map (value_str r) cols in
     andThen (printing (print_row n cells)) (\<lambda>_. outfile_row cells))"

partial_function (option) print_tuples ::
    "'c executor \<Rightarrow> nat \<Rightarrow> nat \<Rightarrow> 'c \<Rightarrow> server \<Rightarrow> ((rmdb_error + nat) \<times> server) option" where
  "print_tuples ex n num m sv =
     (if ex_end ex m sv then pdo (ret num) sv
      else pThen (ex_rec ex m) (\<lambda>r. pThen (pdo (print_tuple n (ex_cols ex) r)) (\<lambda>_.
        pThen (ex_next ex m) (print_tuples ex n (num + 1)))) sv)"

definition caption :: "tabcol \<Rightarrow> string" where
  "caption c = (if tc_alias c = '''' then tc_col c else tc_alias c)"

definition select_from :: "'c executor \<Rightarrow> 'c \<Rightarrow> tabcol list \<Rightarrow> (server, unit) pop" where
  "select_from ex m sel = (let n = length sel in
     pThen (pdo (if n = 0 then throw AssertionFailure else ret ())) (\<lambda>_.
     pThen (pdo (andThen (separator n) (\<lambda>_. andThen (printing (print_row n (map caption sel))) (\<lambda>_. andThen (separator n) (\<lambda>_.
       outfile_row (map caption sel)))))) (\<lambda>_.
     pThen (ex_begin ex m) (\<lambda>m. pThen (print_tuples ex n 0 m) (\<lambda>num.
     pdo (andThen (separator n) (\<lambda>_. printing (modify (print_record_count num)))))))))"

section \<open>Running the other statements\<close>

text \<open>What they work on beside the server: the transactions, and the planner the query manager was given.\<close>

type_synonym ql_state = "server \<times> txn_manager \<times> planner option"

definition ql_server :: "(server, 'a) pop \<Rightarrow> (ql_state, 'a) pop" where
  "ql_server m = (\<lambda>(sv, x). map_option (\<lambda>(r, sv'). (r, sv', x)) (m sv))"

definition run_multi_query :: "plan \<Rightarrow> (server, unit) pop" where
  "run_multi_query p = (case p of
     DDLPlan tag t names defs \<Rightarrow>
       if tag = T_CreateTable then pdo (create_table t defs)
       else if tag = T_DropTable then pdo (drop_table t)
       else if tag = T_CreateIndex then create_index t names
       else if tag = T_DropIndex then pdo (drop_index t names)
       else pdo (throw (InternalError ''Unexpected field type''))
   | _ \<Rightarrow> pdo (ret ()))"

definition help_info :: string where
  "help_info = concat (map (\<lambda>l. l @ newline) [
     ''Supported SQL syntax:'',
     ''  command ;'',
     ''command:'',
     ''  CREATE TABLE table_name (column_name type [, column_name type ...])'',
     ''  DROP TABLE table_name'',
     ''  CREATE INDEX table_name (column_name)'',
     ''  DROP INDEX table_name (column_name)'',
     ''  INSERT INTO table_name VALUES (value [, value ...])'',
     ''  DELETE FROM table_name [WHERE where_clause]'',
     ''  UPDATE table_name SET column_name = value [, column_name = value ...] [WHERE where_clause]'',
     ''  SELECT selector FROM table_name [WHERE where_clause]'',
     ''type:'',
     ''  {INT | FLOAT | CHAR(n)}'',
     ''where_clause:'',
     ''  condition [AND condition ...]'',
     ''condition:'',
     ''  column op {column | value}'',
     ''column:'',
     ''  [table_name.]column_name'',
     ''op:'',
     ''  {= | <> | < | > | <= | >=}'',
     ''selector:'',
     ''  {* | column [, column ...]}''])"

text \<open>\<^verbatim>\<open>get_transaction\<close>; the object of the running transaction is the server's.\<close>

definition get_transaction :: "int \<Rightarrow> (ql_state, transaction option) op" where
  "get_transaction i = (\<lambda>(sv, tm, k).
     if i = INVALID_TXN_ID then (Inr None, sv, tm, k)
     else if i = txn_id (sv_txn sv) \<and> txn_map tm i \<noteq> None then (Inr (Some (sv_txn sv)), sv, tm, k)
     else case txn_map tm i of None \<Rightarrow> (Inl AssertionFailure, sv, tm, k) | Some t \<Rightarrow> (Inr (Some t), sv, tm, k))"

text \<open>\<open>commit\<close> and \<open>abort\<close> follow the pointer they are given.\<close>

definition enter_txn :: "int \<Rightarrow> (ql_state, unit) op" where
  "enter_txn i = andThen (get_transaction i) (\<lambda>x (sv, tm, k). case x of
     None \<Rightarrow> (Inl AssertionFailure, sv, tm, k) | Some t \<Rightarrow> (Inr (), sv\<lparr>sv_txn := t\<rparr>, tm, k))"

fun run_cmd_utility :: "plan \<Rightarrow> int \<Rightarrow> (ql_state, unit) pop" where
  "run_cmd_utility (OtherPlan tag t) i =
     (if tag = T_Help then ql_server (pdo (printing (modify (sent_update (\<lambda>s. take (length help_info) (s @ help_info))))))
      else if tag = T_ShowTable then ql_server (pdo show_tables)
      else if tag = T_ShowIndex then ql_server (pdo (show_index t))
      else if tag = T_DescTable then ql_server (pdo (desc_table t))
      else if tag = T_Transaction_begin then ql_server (pdo (modify (sv_txn_update (txn_mode_update (\<lambda>_. True)))))
      else if tag = T_Transaction_commit then pThen (pdo (enter_txn i)) (\<lambda>_. ql_server (pdo (commit True)))
      else if tag = T_Transaction_rollback then pThen (pdo (enter_txn i)) (\<lambda>_. ql_server (abort True))
      else if tag = T_Transaction_abort then pThen (pdo (enter_txn i)) (\<lambda>_. ql_server (abort True))
      else pdo (throw (InternalError ''Unexpected field type'')))"
| "run_cmd_utility (SetKnobPlan knob b) i = pdo (\<lambda>(sv, tm, k). case k of
     None \<Rightarrow> (Inl AssertionFailure, sv, tm, k)
   | Some k \<Rightarrow> (Inr (), sv, tm, Some (case knob of
       EnableNestLoop \<Rightarrow> k\<lparr>enable_nestedloop_join := b\<rparr> | EnableSortMerge \<Rightarrow> k\<lparr>enable_sortmerge_join := b\<rparr>)))"
| "run_cmd_utility _ i = pdo (ret ())"

definition run_dml :: "root \<Rightarrow> (server, unit) pop" where
  "run_dml r = (case r of
     InsertRoot t tab vals \<Rightarrow> pThen (insert_next t tab vals) (\<lambda>_. pdo (ret ()))
   | UpdateRoot t sets rids \<Rightarrow> update_exec t sets rids
   | DeleteRoot t rids \<Rightarrow> delete_exec t rids
   | _ \<Rightarrow> pdo (throw AssertionFailure))"

definition portal_run :: "portal_stmt \<Rightarrow> int \<Rightarrow> (ql_state, unit) pop" where
  "portal_run ps i = (case ps_tag ps of
     PORTAL_ONE_SELECT \<Rightarrow> (case ps_root ps of
       QueryRoot ex \<Rightarrow> ql_server (select_from ex NoMembers (ps_cols ps)) | _ \<Rightarrow> pdo (throw AssertionFailure))
   | PORTAL_DML_WITHOUT_SELECT \<Rightarrow> ql_server (run_dml (ps_root ps))
   | PORTAL_MULTI_QUERY \<Rightarrow> ql_server (run_multi_query (ps_plan ps))
   | PORTAL_CMD_UTILITY \<Rightarrow> run_cmd_utility (ps_plan ps) i
   | PORTAL_Invalid_Query \<Rightarrow> pdo (throw (InternalError ''Unexpected field type'')))"

end
