(* ===== verification/Server.thy ===== *)
theory Server
  imports Portal Recovery
begin

text \<open>
  What the server does with a request, \<^verbatim>\<open>src/src/rmdb.cpp\<close>: the transaction of the session, the statement, the
  answer, and the commit of a statement that is a transaction of its own. The socket and the threads are left out:
  a request is the result of the parser, \<open>None\<close> for a syntax error and \<open>Some None\<close> for an empty tree. The texts of
  the errors are the parameter \<open>what\<close>.
\<close>

section \<open>Sessions\<close>

text \<open>The managers of the process. The query manager was constructed without a planner.\<close>

record rmdb =
  rm_server :: server
  rm_txns :: txn_manager
  rm_planner :: planner

definition rm_ql :: "(ql_state, 'a) pop \<Rightarrow> (rmdb, 'a) pop" where
  "rm_ql m = (\<lambda>s. map_option (\<lambda>(r, sv, tm, _). (r, s\<lparr>rm_server := sv, rm_txns := tm\<rparr>)) (m (rm_server s, rm_txns s, None)))"

definition on_server :: "(server, 'a) pop \<Rightarrow> (rmdb, 'a) pop" where
  "on_server m = rm_ql (ql_server m)"

text \<open>A new transaction replaces the finished one; the map keeps the object the session leaves.\<close>

definition SetTransaction :: "int \<Rightarrow> (rmdb, int) op" where
  "SetTransaction i = (\<lambda>s. case get_transaction i (rm_server s, rm_txns s, None) of
     (Inl e, _) \<Rightarrow> (Inl e, s)
   | (Inr x, _) \<Rightarrow>
       if x = None \<or> state_of (the x) = COMMITTED \<or> state_of (the x) = ABORTED then
         (case begin_txn None True (rm_server s, rm_txns s) of
            (Inl e, sv, tm) \<Rightarrow> (Inl e, s\<lparr>rm_server := sv, rm_txns := tm\<rparr>)
          | (Inr _, sv, tm) \<Rightarrow> (Inr (txn_id (sv_txn sv)),
              s\<lparr>rm_server := sv_txn_update (txn_mode_update (\<lambda>_. False)) sv, rm_txns := tm\<rparr>))
       else (Inr i, s\<lparr>rm_server := (rm_server s)\<lparr>sv_txn := the x\<rparr>\<rparr>))"

section \<open>Requests\<close>

definition run_statement :: "tree_node \<Rightarrow> int \<Rightarrow> (rmdb, unit) pop" where
  "run_statement p i =
     pThen (pdo (\<lambda>s. (eThen (do_analyze (sv_db (rm_server s)) p) (plan_query (sv_db (rm_server s)) (rm_planner s)), s))) (\<lambda>pl.
     pThen (on_server (portal_start pl)) (\<lambda>ps. rm_ql (portal_run ps i)))"

text \<open>A failed assertion and \<^verbatim>\<open>std::out_of_range\<close> are not caught.\<close>

fun uncaught :: "rmdb_error \<Rightarrow> bool" where
  "uncaught AssertionFailure = True"
| "uncaught StdOutOfRange = True"
| "uncaught _ = False"

definition answer :: "string \<Rightarrow> (server, unit) op" where
  "answer s = printing (modify (sent_update (\<lambda>_. s)))"

definition handle_error :: "(rmdb_error \<Rightarrow> string) \<Rightarrow> rmdb_error \<Rightarrow> (server, unit) pop" where
  "handle_error what e = (case e of
     TransactionAbortException _ _ \<Rightarrow>
       pThen (pdo (answer (''abort'' @ newline))) (\<lambda>_. pThen (abort True) (\<lambda>_. pdo (append_outfile (''abort'' @ newline))))
   | _ \<Rightarrow> if uncaught e then pdo (throw e)
     else pdo (andThen (answer (what e @ newline)) (\<lambda>_. append_outfile (''failure'' @ newline))))"

definition try_statement :: "(rmdb_error \<Rightarrow> string) \<Rightarrow> tree_node \<Rightarrow> int \<Rightarrow> (rmdb, unit) pop" where
  "try_statement what p i = (\<lambda>s. Option.bind (run_statement p i s) (\<lambda>(r, s'). case r of
     Inr u \<Rightarrow> Some (Inr u, s') | Inl e \<Rightarrow> on_server (handle_error what e) s'))"

text \<open>
  One round of \<open>client_handler\<close> for the session with the transaction \<open>i\<close>; the result is the transaction it
  leaves with. The object of the transaction is put back into the map.
\<close>

definition handle_request :: "(rmdb_error \<Rightarrow> string) \<Rightarrow> tree_node option option \<Rightarrow> int \<Rightarrow> (rmdb, int) pop" where
  "handle_request what parsed i =
     pThen (pdo (modify (rm_server_update (sv_out_update (\<lambda>_. \<lparr>sent = [], ellipsis = False\<rparr>))))) (\<lambda>_.
     pThen (pdo (SetTransaction i)) (\<lambda>i.
     pThen (case parsed of Some (Some p) \<Rightarrow> try_statement what p i | _ \<Rightarrow> pdo (ret ())) (\<lambda>_.
     pThen (\<lambda>s. if txn_mode (sv_txn (rm_server s)) then pdo (ret ()) s else on_server (pdo (commit True)) s) (\<lambda>_.
     pdo (\<lambda>s. let t = sv_txn (rm_server s) in
       (Inr i, s\<lparr>rm_txns := (rm_txns s)\<lparr>txn_map := (txn_map (rm_txns s))(txn_id t \<mapsto> t)\<rparr>\<rparr>))))))"

section \<open>Starting and stopping\<close>

text \<open>\<open>main\<close> from opening the database to serving clients, and the end of \<open>start_server\<close>.\<close>

definition start_up :: "(server, unit) pop" where
  "start_up = pThen (pdo open_db) (\<lambda>_. pThen restart (\<lambda>_. pdo (on_store (modify (\<lambda>s. s\<lparr>log_attached := True\<rparr>)))))"

definition shut_down :: "(server, unit) op" where
  "shut_down = close_db"

end
