(* ===== verification/Plan_Rows.thy ===== *)
theory Plan_Rows
  imports Portal
begin

text \<open>
  What the executor tree of a plan delivers: for a tree of scans and joins, the rows in the order of the
  operators, and as a multiset the choices of one row per table that meet all conditions of the tree.
\<close>

section \<open>Executors behind the pointer type\<close>

lemma pack_exec_simps [simp]:
  "ex_cols (pack_exec to from ex) = ex_cols ex" "ex_len (pack_exec to from ex) = ex_len ex"
  by (simp_all add: pack_exec_def)

lemma pack_yields:
  assumes "\<And>c. from (to c) = c" "yields I E ex c rs"
  shows "yields I E (pack_exec to from ex) (to c) rs"
  using assms(2)
proof (induction rs arbitrary: c rule: list.induct)
  case Nil
  then show ?case by (auto simp: pack_exec_def assms(1) elim!: yields_Nil intro: ended)
next
  case (Cons r rs)
  from Cons.prems have y: "\<And>sv. I sv \<Longrightarrow> \<not> ex_end ex c sv" "gives I E (ex_rec ex c) (\<lambda>x. x = r)"
    "gives I E (ex_next ex c) (\<lambda>c'. yields I E ex c' rs)" by (auto elim: yields_Cons)
  have n: "ex_next (pack_exec to from ex) (to c) = pThen (ex_next ex c) (\<lambda>c. pdo (ret (to c)))"
    by (simp add: pack_exec_def assms(1))
  have "gives I E (ex_next (pack_exec to from ex) (to c)) (\<lambda>c'. yields I E (pack_exec to from ex) c' rs)"
    unfolding n by (rule gives_then [OF y(3)], rule gives_ret, rule Cons.IH)
  then show ?case using y by (intro tuple) (auto simp: pack_exec_def assms(1))
qed

lemma pack_run:
  assumes "\<And>c. from (to c) = c" "delivers I E ex rs"
  shows "delivers I E (pack_exec to from ex) rs"
  unfolding delivers_def
proof
  fix m
  have b: "ex_begin (pack_exec to from ex) m = pThen (ex_begin ex (from m)) (\<lambda>c. pdo (ret (to c)))" by (simp add: pack_exec_def)
  show "gives I E (ex_begin (pack_exec to from ex) m) (\<lambda>c'. yields I E (pack_exec to from ex) c' rs)"
    unfolding b using assms(2) by (auto simp: delivers_def intro!: gives_then [where Q = "\<lambda>c. yields I E ex c rs"] gives_ret pack_yields assms(1))
qed

section \<open>Trees of scans and joins\<close>

fun tree_tabs :: "plan \<Rightarrow> string list" where
  "tree_tabs (ScanPlan _ t _ _) = [t]"
| "tree_tabs (JoinPlan _ l r _) = tree_tabs l @ tree_tabs r"
| "tree_tabs _ = []"

fun tree_conds :: "plan \<Rightarrow> condition list" where
  "tree_conds (ScanPlan _ _ conds _) = conds"
| "tree_conds (JoinPlan _ l r conds) = tree_conds l @ tree_conds r @ conds"
| "tree_conds _ = []"

definition table_cols :: "db_meta \<Rightarrow> string \<Rightarrow> col_meta list" where
  "table_cols d t = (case map_of (db_tabs d) t of None \<Rightarrow> [] | Some tab \<Rightarrow> tm_cols tab)"

definition table_len :: "db_meta \<Rightarrow> string \<Rightarrow> int" where
  "table_len d t = last_end (table_cols d t)"

fun tree_len :: "db_meta \<Rightarrow> plan \<Rightarrow> int" where
  "tree_len d (ScanPlan _ t _ _) = table_len d t"
| "tree_len d (JoinPlan _ l r _) = tree_len d l + tree_len d r"
| "tree_len d _ = 0"

definition shift_col :: "int \<Rightarrow> col_meta \<Rightarrow> col_meta" where
  "shift_col n c = c\<lparr>cm_offset := add32 (cm_offset c) n\<rparr>"

fun tree_cols :: "db_meta \<Rightarrow> plan \<Rightarrow> col_meta list" where
  "tree_cols d (ScanPlan _ t _ _) = table_cols d t"
| "tree_cols d (JoinPlan _ l r _) = tree_cols d l @ map (shift_col (tree_len d l)) (tree_cols d r)"
| "tree_cols d _ = []"

fun tree_rows :: "db_meta \<Rightarrow> (string \<Rightarrow> bytes list) \<Rightarrow> plan \<Rightarrow> bytes list" where
  "tree_rows d T (ScanPlan _ t conds _) = filter (\<lambda>r. eval_conds (table_cols d t) conds r = Inr True) (T t)"
| "tree_rows d T (JoinPlan tag l r conds) =
     (let jr = join_record (tree_len d l) (tree_len d r); cols = tree_cols d (JoinPlan tag l r conds)
      in if tree_rows d T r = [] then []
         else join_out (\<lambda>a b. eval_conds cols conds (jr a b) = Inr True) jr (tree_len d l) (tree_rows d T l) (tree_rows d T r))"
| "tree_rows d T _ = []"

text \<open>
  A tree the planner may build over open tables without indexes: every condition stands where its tables
  are, and its columns are there.
\<close>

definition cond_tabs :: "condition \<Rightarrow> string set" where
  "cond_tabs c = (if is_rhs_val c then {tc_tab (lhs_col c)} else {tc_tab (lhs_col c), tc_tab (rhs_col c)})"

fun tree_ok :: "db_meta \<Rightarrow> string set \<Rightarrow> plan \<Rightarrow> bool" where
  "tree_ok d U (ScanPlan tag t conds _) \<longleftrightarrow> tag = T_SeqScan \<and> t \<in> U \<and> table_cols d t \<noteq> [] \<and>
     (\<forall>c \<in> set conds. cond_tabs c \<subseteq> {t} \<and> cond_resolved (table_cols d t) c)"
| "tree_ok d U (JoinPlan tag l r conds) \<longleftrightarrow> tree_ok d U l \<and> tree_ok d U r \<and>
     (\<forall>c \<in> set conds. cond_tabs c \<subseteq> set (tree_tabs l) \<union> set (tree_tabs r) \<and> cond_resolved (tree_cols d (JoinPlan tag l r conds)) c)"
| "tree_ok d U _ \<longleftrightarrow> False"

lemma resolved_true:
  assumes "\<forall>c \<in> set conds. cond_resolved cols c"
  shows "eval_conds cols conds r = Inr (eval_conds cols conds r = Inr True)"
  using eval_conds_resolved [OF assms, of r] by (metis (full_types))

lemma seq_scan_new_run:
  assumes "map_of (db_tabs (sv_db sv)) t = Some tab" "map_of (sv_fhs sv) t = Some fh" "tm_cols tab \<noteq> []"
  shows "seq_scan_new t conds sv = (Inr (seq_scan t conds (tm_cols tab)), sv)"
  using assms by (simp add: seq_scan_new_def from_db_def get_table_def table_fd_def run_simps)

lemma seq_tree_run:
  assumes "map_of F t = Some fh" "\<forall>c \<in> set conds. cond_resolved cols c"
  shows "delivers (reading F st) (stopped F st) (pack_exec (\<lambda>(r, sc). ScanMembers r sc) scan_of (seq_scan t conds cols))
    (filter (\<lambda>r. eval_conds cols conds r = Inr True) (table_rows (table_of F st t)))"
proof (rule pack_run)
  have "table_of F st t = rm_table fh st" using assms(1) by (simp add: table_of_def)
  then show "delivers (reading F st) (stopped F st) (seq_scan t conds cols)
      (filter (\<lambda>r. eval_conds cols conds r = Inr True) (table_rows (table_of F st t)))"
    using seq_scan_run [OF assms(1), of st cols conds "\<lambda>r. eval_conds cols conds r = Inr True"] resolved_true [OF assms(2)] by auto
qed (simp split: prod.split)

lemma join_tree_run:
  assumes "delivers I E L ls" "delivers I E R rs" "\<forall>c \<in> set conds. cond_resolved (join_cols L R) c"
  shows "delivers I E (pack_exec join_members join_of (join_exec L R conds))
    (if rs = [] then [] else join_out (\<lambda>a b. eval_conds (join_cols L R) conds (join_record (ex_len L) (ex_len R) a b) = Inr True)
      (join_record (ex_len L) (ex_len R)) (ex_len L) ls rs)"
proof (rule pack_run)
  show "join_of (join_members c) = c" for c by (simp add: join_members_def)
qed (rule join_run [OF assms(1,2)], rule resolved_true [OF assms(3)])

lemma tree_convert:
  assumes "tree_ok d (dom (map_of F)) p" "sv_db sv = d" "sv_fhs sv = F"
  shows "\<exists>ex. convert_plan_executor p sv = (Inr ex, sv) \<and> ex_cols ex = tree_cols d p \<and> ex_len ex = tree_len d p \<and>
    delivers (reading F st) (stopped F st) ex (tree_rows d (\<lambda>t. table_rows (table_of F st t)) p)"
  using assms(1)
proof (induction p)
  case (ScanPlan tag t conds names)
  then obtain fh tab where t: "map_of F t = Some fh" "map_of (db_tabs d) t = Some tab" "tm_cols tab \<noteq> []" "tag = T_SeqScan"
    by (auto simp: table_cols_def split: option.splits)
  have cols: "table_cols d t = tm_cols tab" by (simp add: table_cols_def t(2))
  have "\<forall>c \<in> set conds. cond_resolved (tm_cols tab) c" using ScanPlan by (simp add: cols)
  from seq_tree_run [OF t(1) this, of st] seq_scan_new_run [of sv t tab fh conds] t assms(2,3) cols
  show ?case by (auto simp: run_simps seq_scan_def table_len_def)
next
  case (JoinPlan tag l r conds)
  then obtain L R where L: "convert_plan_executor l sv = (Inr L, sv)" "ex_cols L = tree_cols d l" "ex_len L = tree_len d l"
      "delivers (reading F st) (stopped F st) L (tree_rows d (\<lambda>t. table_rows (table_of F st t)) l)"
    and R: "convert_plan_executor r sv = (Inr R, sv)" "ex_cols R = tree_cols d r" "ex_len R = tree_len d r"
      "delivers (reading F st) (stopped F st) R (tree_rows d (\<lambda>t. table_rows (table_of F st t)) r)" by auto
  have cols: "join_cols L R = tree_cols d (JoinPlan tag l r conds)"
    by (simp add: join_cols_def L(2,3) R(2) shift_col_def)
  have "\<forall>c \<in> set conds. cond_resolved (join_cols L R) c" using JoinPlan.prems by (simp add: cols)
  from join_tree_run [OF L(4) R(4) this] L R cols show ?case
    by (auto simp: run_simps join_exec_def Let_def)
qed simp_all

section \<open>Choices of one row per table\<close>

type_synonym choice = "string \<rightharpoonup> bytes"

fun choices :: "(string \<Rightarrow> bytes list) \<Rightarrow> string list \<Rightarrow> choice list" where
  "choices T [] = [Map.empty]"
| "choices T (t # ts) = [\<rho>(t \<mapsto> b). b \<leftarrow> T t, \<rho> \<leftarrow> choices T ts]"

definition row_of :: "string list \<Rightarrow> choice \<Rightarrow> bytes" where
  "row_of ts \<rho> = concat (map (\<lambda>t. the (\<rho> t)) ts)"

text \<open>The column of the catalogue that a resolved name stands for.\<close>

definition cat_col :: "db_meta \<Rightarrow> tabcol \<Rightarrow> col_meta" where
  "cat_col d s = the (find (\<lambda>c. cm_tab c = tc_tab s \<and> cm_name c = tc_col s) (table_cols d (tc_tab s)))"

definition col_of :: "db_meta \<Rightarrow> choice \<Rightarrow> tabcol \<Rightarrow> bytes" where
  "col_of d \<rho> s = col_bytes (the (\<rho> (tc_tab s))) (cat_col d s)"

text \<open>What a condition says about a choice.\<close>

definition holds_cond :: "db_meta \<Rightarrow> choice \<Rightarrow> condition \<Rightarrow> bool" where
  "holds_cond d \<rho> c = (let l = cat_col d (lhs_col c);
       y = (if is_rhs_val c then the (raw (rhs_val c)) else col_of d \<rho> (rhs_col c))
     in eval_compare (compare_value (col_of d \<rho> (lhs_col c)) y (cm_type l) (cm_len l)) (cond_op c))"

text \<open>
  A table as \<^verbatim>\<open>create_table\<close> lays it out, with rows of its length. A comparison of two columns runs over the
  length of the left one, so they must have the same.
\<close>

definition table_fits :: "db_meta \<Rightarrow> (string \<Rightarrow> bytes list) \<Rightarrow> string \<Rightarrow> bool" where
  "table_fits d T t \<longleftrightarrow> 0 \<le> table_len d t \<and> (\<forall>b \<in> set (T t). length b = nat (table_len d t)) \<and>
     (\<forall>c \<in> set (table_cols d t). cm_tab c = t \<and> typed c \<and> 0 \<le> cm_offset c \<and> cm_offset c + cm_len c \<le> table_len d t)"

definition same_len :: "db_meta \<Rightarrow> condition \<Rightarrow> bool" where
  "same_len d c \<longleftrightarrow> is_rhs_val c \<or> cm_len (cat_col d (lhs_col c)) = cm_len (cat_col d (rhs_col c))"

definition is_choice :: "(string \<Rightarrow> bytes list) \<Rightarrow> string list \<Rightarrow> choice \<Rightarrow> bool" where
  "is_choice T ts \<rho> \<longleftrightarrow> dom \<rho> = set ts \<and> (\<forall>t \<in> set ts. the (\<rho> t) \<in> set (T t))"

lemma choices_are: "\<rho> \<in> set (choices T ts) \<Longrightarrow> is_choice T ts \<rho>"
proof (induction ts arbitrary: \<rho>)
  case (Cons t ts)
  then obtain b \<sigma> where b: "b \<in> set (T t)" "\<sigma> \<in> set (choices T ts)" "\<rho> = \<sigma>(t \<mapsto> b)" by auto
  from Cons.IH [OF b(2)] have "dom \<sigma> = set ts" "\<forall>t \<in> set ts. the (\<sigma> t) \<in> set (T t)" by (auto simp: is_choice_def)
  with b(1) show ?case unfolding is_choice_def b(3) by (simp add: dom_fun_upd)
qed (simp add: is_choice_def)

lemma row_of_length:
  assumes "is_choice T ts \<rho>" "\<forall>t \<in> set ts. table_fits d T t"
  shows "int (length (row_of ts \<rho>)) = sum_list (map (table_len d) ts)"
proof -
  have "\<forall>t \<in> set ts. int (length (the (\<rho> t))) = table_len d t" using assms by (auto simp: is_choice_def table_fits_def)
  then show ?thesis unfolding row_of_def by (induction ts) auto
qed

lemma tree_len_sum: "tree_ok d U p \<Longrightarrow> tree_len d p = sum_list (map (table_len d) (tree_tabs p))"
  by (induction p) auto

lemma find_map_same: "(\<And>x. P (f x) = P x) \<Longrightarrow> find P (map f xs) = map_option f (find P xs)"
  by (induction xs) auto

lemma is_choice_sub: "is_choice T (ts @ us) \<rho> \<Longrightarrow> is_choice T ts (\<rho> |` set ts)" "is_choice T (ts @ us) \<rho> \<Longrightarrow> is_choice T us (\<rho> |` set us)"
  by (auto simp: is_choice_def)

lemma row_of_cong: "(\<And>t. t \<in> set ts \<Longrightarrow> \<rho> t = \<sigma> t) \<Longrightarrow> row_of ts \<rho> = row_of ts \<sigma>"
  unfolding row_of_def by (intro arg_cong [where f = concat] map_cong) auto

text \<open>A column of a tree is the column of its table, in the part of the row that is the table's.\<close>

lemma tree_col:
  assumes "tree_ok d U p" "\<forall>t \<in> set (tree_tabs p). table_fits d T t" "tree_len d p < 2 ^ 31" "get_col (tree_cols d p) s = Inr c'"
  shows "tc_tab s \<in> set (tree_tabs p) \<and> get_col (table_cols d (tc_tab s)) s = Inr (cat_col d s) \<and> typed (cat_col d s) \<and>
    cm_type c' = cm_type (cat_col d s) \<and> cm_len c' = cm_len (cat_col d s) \<and> 0 \<le> cm_offset c' \<and> cm_offset c' + cm_len c' \<le> tree_len d p \<and>
    (\<forall>\<rho>. is_choice T (tree_tabs p) \<rho> \<longrightarrow> col_bytes (row_of (tree_tabs p) \<rho>) c' = col_of d \<rho> s)"
  using assms
proof (induction p arbitrary: c')
  case (ScanPlan tag t conds names)
  then have f: "find (\<lambda>c. cm_tab c = tc_tab s \<and> cm_name c = tc_col s) (table_cols d t) = Some c'"
    by (auto simp: get_col_def split: option.splits)
  then have c: "c' \<in> set (table_cols d t)" "cm_tab c' = tc_tab s" by (auto simp: find_Some_iff)
  with ScanPlan.prems(2) have t: "t = tc_tab s" "typed c'" "0 \<le> cm_offset c'" "cm_offset c' + cm_len c' \<le> table_len d t"
    by (auto simp: table_fits_def)
  with f have "cat_col d s = c'" by (simp add: cat_col_def)
  with t ScanPlan.prems(4) show ?case by (auto simp: col_of_def row_of_def)
next
  case (JoinPlan tag l r conds)
  let ?P = "\<lambda>c. cm_tab c = tc_tab s \<and> cm_name c = tc_col s"
  have ok: "tree_ok d U l" "tree_ok d U r" "\<forall>t \<in> set (tree_tabs l). table_fits d T t" "\<forall>t \<in> set (tree_tabs r). table_fits d T t"
    using JoinPlan.prems by auto
  have pos: "0 \<le> tree_len d l" "0 \<le> tree_len d r"
    unfolding tree_len_sum [OF ok(1)] tree_len_sum [OF ok(2)] using ok(3,4) by (auto simp: table_fits_def intro!: sum_list_nonneg)
  have small: "tree_len d l < 2 ^ 31" "tree_len d r < 2 ^ 31" using JoinPlan.prems(3) pos by auto
  have len: "int (length (row_of (tree_tabs l) \<rho>)) = tree_len d l" if "is_choice T (tree_tabs l @ tree_tabs r) \<rho>" for \<rho>
    using row_of_length [OF is_choice_sub(1) [OF that] ok(3)] row_of_cong [of "tree_tabs l" \<rho> "\<rho> |` set (tree_tabs l)"]
    by (simp add: tree_len_sum [OF ok(1)])
  have sub: "col_of d (\<rho> |` X) s = col_of d \<rho> s" if "tc_tab s \<in> X" for \<rho> X using that by (simp add: col_of_def)
  have row: "row_of (tree_tabs l @ tree_tabs r) \<rho> = row_of (tree_tabs l) \<rho> @ row_of (tree_tabs r) \<rho>" for \<rho> by (simp add: row_of_def)
  show ?case
  proof (cases "find ?P (tree_cols d l)")
    case (Some c)
    then have c: "c' = c" "get_col (tree_cols d l) s = Inr c" using JoinPlan.prems(4) by (auto simp: get_col_def find_append)
    note ih = JoinPlan.IH(1) [OF ok(1,3) small(1) c(2)]
    have "col_bytes (row_of (tree_tabs l @ tree_tabs r) \<rho>) c = col_of d \<rho> s" if "is_choice T (tree_tabs l @ tree_tabs r) \<rho>" for \<rho>
    proof -
      have "col_bytes (row_of (tree_tabs l) (\<rho> |` set (tree_tabs l))) c = col_of d (\<rho> |` set (tree_tabs l)) s"
        using ih is_choice_sub(1) [OF that] by blast
      then have "col_bytes (row_of (tree_tabs l) \<rho>) c = col_of d \<rho> s"
        using row_of_cong [of "tree_tabs l" \<rho> "\<rho> |` set (tree_tabs l)"] sub ih by simp
      moreover have "nat (cm_offset c) + nat (cm_len c) \<le> length (row_of (tree_tabs l) \<rho>)"
        using ih len [OF that] by (auto simp: typed_def)
      ultimately show ?thesis unfolding row by (simp add: col_bytes_def)
    qed
    with ih pos show ?thesis by (auto simp: c(1))
  next
    case None
    then have "find ?P (map (shift_col (tree_len d l)) (tree_cols d r)) = Some c'"
      using JoinPlan.prems(4) by (auto simp: get_col_def find_append split: option.splits)
    then obtain c where f: "find ?P (tree_cols d r) = Some c" "c' = shift_col (tree_len d l) c"
      by (subst (asm) find_map_same) (auto simp: shift_col_def)
    then have c: "get_col (tree_cols d r) s = Inr c" by (simp add: get_col_def)
    note ih = JoinPlan.IH(2) [OF ok(2,4) small(2) c]
    then have "0 \<le> cm_len c" by (auto simp: typed_def)
    then have off: "cm_offset c' = cm_offset c + tree_len d l"
      using ih pos JoinPlan.prems(3) unfolding f(2) shift_col_def by (simp add: add32_exact in_signed_def)
    have "col_bytes (row_of (tree_tabs l @ tree_tabs r) \<rho>) c' = col_of d \<rho> s" if "is_choice T (tree_tabs l @ tree_tabs r) \<rho>" for \<rho>
    proof -
      have "col_bytes (row_of (tree_tabs r) (\<rho> |` set (tree_tabs r))) c = col_of d (\<rho> |` set (tree_tabs r)) s"
        using ih is_choice_sub(2) [OF that] by blast
      then have "col_bytes (row_of (tree_tabs r) \<rho>) c = col_of d \<rho> s"
        using row_of_cong [of "tree_tabs r" \<rho> "\<rho> |` set (tree_tabs r)"] sub ih by simp
      moreover have "nat (cm_offset c') = length (row_of (tree_tabs l) \<rho>) + nat (cm_offset c)"
        using ih len [OF that] pos off by (simp add: nat_add_distrib)
      ultimately show ?thesis unfolding row by (simp add: col_bytes_def f(2) shift_col_def)
    qed
    with ih pos off show ?thesis by (auto simp: f(2) shift_col_def)
  qed
qed simp_all

section \<open>Conditions on a row\<close>

lemma compare_take_left:
  assumes "typed c"
  shows "compare_value (take (nat (cm_len c)) x) y (cm_type c) (cm_len c) = compare_value x y (cm_type c) (cm_len c)"
  using assms by (cases "cm_type c") (auto simp: typed_def Let_def)

lemma eval_cond_holds:
  assumes "tree_ok d U p" "\<forall>t \<in> set (tree_tabs p). table_fits d T t" "tree_len d p < 2 ^ 31"
    "cond_resolved (tree_cols d p) c" "same_len d c" "is_choice T (tree_tabs p) \<rho>"
  shows "eval_cond (tree_cols d p) c (row_of (tree_tabs p) \<rho>) = Inr (holds_cond d \<rho> c)"
proof -
  let ?r = "row_of (tree_tabs p) \<rho>"
  obtain l where l: "get_col (tree_cols d p) (lhs_col c) = Inr l" using assms(4) by (auto simp: cond_resolved_def)
  note tl = tree_col [OF assms(1-3) l]
  then have lb: "col_bytes ?r l = col_of d \<rho> (lhs_col c)" using assms(6) by blast
  have left: "compare_value (drop (nat (cm_offset l)) ?r) y (cm_type l) (cm_len l) =
      compare_value (col_of d \<rho> (lhs_col c)) y (cm_type (cat_col d (lhs_col c))) (cm_len (cat_col d (lhs_col c)))" for y
    using tl compare_take_left [of "cat_col d (lhs_col c)" "drop (nat (cm_offset l)) ?r" y] by (simp add: lb [symmetric] col_bytes_def)
  show ?thesis
  proof (cases "is_rhs_val c")
    case True
    with assms(4) l obtain b where "raw (rhs_val c) = Some b" by (auto simp: cond_resolved_def)
    with True l left show ?thesis by (simp add: eval_cond_def holds_cond_def Let_def)
  next
    case False
    with assms(4) l obtain r where r: "get_col (tree_cols d p) (rhs_col c) = Inr r" "cm_type r = cm_type l" by (auto simp: cond_resolved_def)
    note tr = tree_col [OF assms(1-3) r(1)]
    then have rb: "col_bytes ?r r = col_of d \<rho> (rhs_col c)" using assms(6) by blast
    have len: "cm_len (cat_col d (lhs_col c)) = cm_len (cat_col d (rhs_col c))" using assms(5) False by (simp add: same_len_def)
    have "compare_value x (drop (nat (cm_offset r)) ?r) (cm_type (cat_col d (lhs_col c))) (cm_len (cat_col d (lhs_col c))) =
        compare_value x (col_of d \<rho> (rhs_col c)) (cm_type (cat_col d (lhs_col c))) (cm_len (cat_col d (lhs_col c)))" for x
      using tr tl len compare_take [of "cat_col d (lhs_col c)" x "drop (nat (cm_offset r)) ?r"] by (simp add: rb [symmetric] col_bytes_def)
    with False l r(1) left show ?thesis by (simp add: eval_cond_def holds_cond_def Let_def)
  qed
qed

lemma eval_conds_all:
  "\<forall>c \<in> set cs. eval_cond cols c r = Inr (P c) \<Longrightarrow> eval_conds cols cs r = Inr (\<forall>c \<in> set cs. P c)"
  by (induction cs) auto

lemma eval_conds_holds:
  assumes "tree_ok d U p" "\<forall>t \<in> set (tree_tabs p). table_fits d T t" "tree_len d p < 2 ^ 31"
    "\<forall>c \<in> set cs. cond_resolved (tree_cols d p) c \<and> same_len d c" "is_choice T (tree_tabs p) \<rho>"
  shows "eval_conds (tree_cols d p) cs (row_of (tree_tabs p) \<rho>) = Inr (\<forall>c \<in> set cs. holds_cond d \<rho> c)"
  by (rule eval_conds_all) (use eval_cond_holds [OF assms(1-3) _ _ assms(5)] assms(4) in blast)

text \<open>A condition looks at the rows of its tables only.\<close>

lemma holds_cond_local:
  assumes "cond_tabs c \<subseteq> X" "\<And>t. t \<in> X \<Longrightarrow> \<rho> t = \<sigma> t"
  shows "holds_cond d \<rho> c = holds_cond d \<sigma> c"
  using assms by (auto simp: holds_cond_def col_of_def cond_tabs_def Let_def split: if_splits)

lemma tree_conds_tabs: "tree_ok d U p \<Longrightarrow> c \<in> set (tree_conds p) \<Longrightarrow> cond_tabs c \<subseteq> set (tree_tabs p)"
  by (induction p) fastforce+

section \<open>The rows of a tree\<close>

lemma mset_concat_map: "mset (concat (map g xs)) = (\<Sum>x \<in># mset xs. mset (g x))"
  by (induction xs) auto

lemma mset_pairs_cong:
  assumes "mset as = mset as'" "mset bs = mset bs'"
  shows "mset (concat (map (\<lambda>b. map (\<lambda>a. f a b) (filter (\<lambda>a. m a b) as)) bs)) =
    mset (concat (map (\<lambda>b. map (\<lambda>a. f a b) (filter (\<lambda>a. m a b) as')) bs'))"
  unfolding mset_concat_map using assms by simp

lemma mset_choices_Cons: "mset (choices T (t # ts)) = (\<Sum>b \<in># mset (T t). image_mset (\<lambda>\<rho>. \<rho>(t \<mapsto> b)) (mset (choices T ts)))"
  by (simp add: mset_concat_map)

lemma sum_mset_swap:
  fixes f :: "'a \<Rightarrow> 'b \<Rightarrow> 'c multiset"
  shows "(\<Sum>x \<in># A. \<Sum>y \<in># B. f x y) = (\<Sum>y \<in># B. \<Sum>x \<in># A. f x y)"
  by (induction A) (auto simp: sum_mset.distrib)

lemma image_sum_mset: "image_mset f (\<Sum>x \<in># A. g x) = (\<Sum>x \<in># A. image_mset f (g x))"
  by (induction A) auto

lemma mset_choices_append:
  assumes "distinct (ts @ us)"
  shows "mset (choices T (ts @ us)) = (\<Sum>\<sigma> \<in># mset (choices T us). image_mset (\<lambda>\<rho>. \<rho> ++ \<sigma>) (mset (choices T ts)))"
  using assms
proof (induction ts)
  case Nil
  have "(\<Sum>\<sigma> \<in># M. {#\<sigma>#}) = M" for M :: "choice multiset" by (induction M) auto
  then show ?case by simp
next
  case (Cons t ts)
  let ?C = "mset (choices T ts)" and ?D = "mset (choices T us)"
  have upd: "(\<rho> ++ \<sigma>)(t \<mapsto> b) = \<rho>(t \<mapsto> b) ++ \<sigma>" if "\<sigma> \<in> set (choices T us)" for \<rho> \<sigma> b
  proof -
    have "t \<notin> dom \<sigma>" using that choices_are [of \<sigma> T us] Cons.prems by (auto simp: is_choice_def)
    then show ?thesis by (auto simp: map_add_def fun_eq_iff dom_def split: option.splits)
  qed
  have "mset (choices T ((t # ts) @ us)) = (\<Sum>b \<in># mset (T t). image_mset (\<lambda>\<rho>. \<rho>(t \<mapsto> b)) (\<Sum>\<sigma> \<in># ?D. image_mset (\<lambda>\<rho>. \<rho> ++ \<sigma>) ?C))"
    using Cons by (simp only: append_Cons mset_choices_Cons) simp
  also have "\<dots> = (\<Sum>b \<in># mset (T t). \<Sum>\<sigma> \<in># ?D. image_mset (\<lambda>\<rho>. (\<rho> ++ \<sigma>)(t \<mapsto> b)) ?C)"
    by (simp add: image_sum_mset multiset.map_comp comp_def)
  also have "\<dots> = (\<Sum>\<sigma> \<in># ?D. \<Sum>b \<in># mset (T t). image_mset (\<lambda>\<rho>. (\<rho> ++ \<sigma>)(t \<mapsto> b)) ?C)" by (rule sum_mset_swap)
  also have "\<dots> = (\<Sum>\<sigma> \<in># ?D. \<Sum>b \<in># mset (T t). image_mset (\<lambda>\<rho>. \<rho>(t \<mapsto> b) ++ \<sigma>) ?C)"
    by (intro arg_cong [where f = sum_mset] image_mset_cong) (simp add: upd)
  also have "\<dots> = (\<Sum>\<sigma> \<in># ?D. image_mset (\<lambda>\<rho>. \<rho> ++ \<sigma>) (mset (choices T (t # ts))))"
    by (simp only: mset_choices_Cons image_sum_mset multiset.map_comp comp_def)
  finally show ?case .
qed

lemma filter_sum_mset: "filter_mset P (\<Sum>x \<in># A. g x) = (\<Sum>x \<in># A. filter_mset P (g x))"
  by (induction A) auto

lemma pairs_filter:
  "(\<Sum>\<sigma> \<in># filter_mset P B. image_mset (f \<sigma>) (filter_mset (Q \<sigma>) A)) = (\<Sum>\<sigma> \<in># B. image_mset (f \<sigma>) (filter_mset (\<lambda>\<rho>. P \<sigma> \<and> Q \<sigma> \<rho>) A))"
  by (induction B) auto

text \<open>A choice on the left and one on the right make a choice of the join; its row is the joined row.\<close>

lemma join_choice:
  assumes "is_choice T ts \<rho>" "is_choice T us \<sigma>" "set ts \<inter> set us = {}"
  shows "is_choice T (ts @ us) (\<rho> ++ \<sigma>)" "row_of (ts @ us) (\<rho> ++ \<sigma>) = row_of ts \<rho> @ row_of us \<sigma>"
    "\<And>t. t \<in> set ts \<Longrightarrow> (\<rho> ++ \<sigma>) t = \<rho> t" "\<And>t. t \<in> set us \<Longrightarrow> (\<rho> ++ \<sigma>) t = \<sigma> t"
proof -
  have d: "dom \<rho> = set ts" "dom \<sigma> = set us" using assms(1,2) by (simp_all add: is_choice_def)
  show l: "\<And>t. t \<in> set ts \<Longrightarrow> (\<rho> ++ \<sigma>) t = \<rho> t" using d assms(3) by (metis disjoint_iff map_add_dom_app_simps(3))
  show r: "\<And>t. t \<in> set us \<Longrightarrow> (\<rho> ++ \<sigma>) t = \<sigma> t" using d by (simp add: map_add_dom_app_simps(1))
  show "is_choice T (ts @ us) (\<rho> ++ \<sigma>)" using assms(1,2) l r by (auto simp: is_choice_def)
  show "row_of (ts @ us) (\<rho> ++ \<sigma>) = row_of ts \<rho> @ row_of us \<sigma>"
    using row_of_cong [of ts "\<rho> ++ \<sigma>" \<rho>] row_of_cong [of us "\<rho> ++ \<sigma>" \<sigma>] l r by (simp add: row_of_def)
qed

lemma tree_rows_choices:
  assumes "tree_ok d U p" "distinct (tree_tabs p)" "\<forall>t \<in> set (tree_tabs p). table_fits d T t" "tree_len d p < 2 ^ 31"
    "\<forall>c \<in> set (tree_conds p). same_len d c"
  shows "mset (tree_rows d T p) =
    mset (map (row_of (tree_tabs p)) (filter (\<lambda>\<rho>. \<forall>c \<in> set (tree_conds p). holds_cond d \<rho> c) (choices T (tree_tabs p))))"
  using assms
proof (induction p)
  case (ScanPlan tag t conds names)
  let ?p = "ScanPlan tag t conds names"
  have ch: "choices T [t] = map (\<lambda>b. [t \<mapsto> b]) (T t)" by (simp add: concat_map_singleton fun_upd_def)
  have "eval_conds (table_cols d t) conds b = Inr (\<forall>c \<in> set conds. holds_cond d [t \<mapsto> b] c)" if "b \<in> set (T t)" for b
  proof -
    have "is_choice T (tree_tabs ?p) [t \<mapsto> b]" using that by (simp add: is_choice_def)
    from eval_conds_holds [OF ScanPlan.prems(1,3,4) _ this, of conds] ScanPlan.prems(1,5)
    show ?thesis by (simp add: row_of_def)
  qed
  then have "filter (\<lambda>r. eval_conds (table_cols d t) conds r = Inr True) (T t) = filter (\<lambda>b. \<forall>c \<in> set conds. holds_cond d [t \<mapsto> b] c) (T t)"
    by (intro filter_cong) auto
  moreover have "row_of [t] \<circ> (\<lambda>b. [t \<mapsto> b]) = (\<lambda>b. b)" by (simp add: fun_eq_iff row_of_def)
  ultimately show ?case using ch by (simp add: filter_map comp_def)
next
  case (JoinPlan tag l r conds)
  let ?p = "JoinPlan tag l r conds" and ?jr = "join_record (tree_len d l) (tree_len d r)" and ?A = "choices T (tree_tabs l)" and ?B = "choices T (tree_tabs r)"
  let ?m = "\<lambda>a b. eval_conds (tree_cols d ?p) conds (?jr a b) = Inr True"
  let ?H = "\<lambda>p \<rho>. \<forall>c \<in> set (tree_conds p). holds_cond d \<rho> c"
  have ok: "tree_ok d U l" "tree_ok d U r" "\<forall>t \<in> set (tree_tabs l). table_fits d T t" "\<forall>t \<in> set (tree_tabs r). table_fits d T t"
    "set (tree_tabs l) \<inter> set (tree_tabs r) = {}"
    using JoinPlan.prems by auto
  have pos: "0 \<le> tree_len d l" "0 \<le> tree_len d r"
    unfolding tree_len_sum [OF ok(1)] tree_len_sum [OF ok(2)] using ok(3,4) by (auto simp: table_fits_def intro!: sum_list_nonneg)
  have ih: "mset (tree_rows d T l) = mset (map (row_of (tree_tabs l)) (filter (?H l) ?A))"
    "mset (tree_rows d T r) = mset (map (row_of (tree_tabs r)) (filter (?H r) ?B))"
    using JoinPlan.IH ok pos JoinPlan.prems by simp_all
  have pair: "?jr (row_of (tree_tabs l) \<rho>) (row_of (tree_tabs r) \<sigma>) = row_of (tree_tabs ?p) (\<rho> ++ \<sigma>) \<and>
      (?H ?p (\<rho> ++ \<sigma>) \<longleftrightarrow> ?H r \<sigma> \<and> ?H l \<rho> \<and> ?m (row_of (tree_tabs l) \<rho>) (row_of (tree_tabs r) \<sigma>))"
    if "\<rho> \<in> set ?A" "\<sigma> \<in> set ?B" for \<rho> \<sigma>
  proof -
    note c = choices_are [OF that(1)] choices_are [OF that(2)]
    note j = join_choice [OF c ok(5)]
    have "nat (tree_len d l) = length (row_of (tree_tabs l) \<rho>)" "nat (tree_len d r) = length (row_of (tree_tabs r) \<sigma>)"
      using row_of_length [OF c(1) ok(3)] row_of_length [OF c(2) ok(4)] by (simp_all add: tree_len_sum [OF ok(1)] tree_len_sum [OF ok(2)])
    then have row: "?jr (row_of (tree_tabs l) \<rho>) (row_of (tree_tabs r) \<sigma>) = row_of (tree_tabs ?p) (\<rho> ++ \<sigma>)"
      using j(2) by (simp add: join_record_def)
    have "eval_conds (tree_cols d ?p) conds (row_of (tree_tabs ?p) (\<rho> ++ \<sigma>)) = Inr (\<forall>c \<in> set conds. holds_cond d (\<rho> ++ \<sigma>) c)"
      by (rule eval_conds_holds [OF JoinPlan.prems(1,3,4)]) (use JoinPlan.prems(1,5) j(1) in auto)
    moreover have "holds_cond d (\<rho> ++ \<sigma>) c = holds_cond d \<rho> c" if "c \<in> set (tree_conds l)" for c
      by (rule holds_cond_local [OF tree_conds_tabs [OF ok(1) that] j(3)])
    moreover have "holds_cond d (\<rho> ++ \<sigma>) c = holds_cond d \<sigma> c" if "c \<in> set (tree_conds r)" for c
      by (rule holds_cond_local [OF tree_conds_tabs [OF ok(2) that] j(4)])
    ultimately show ?thesis unfolding row by auto
  qed
  have "mset (tree_rows d T ?p) = mset (concat (map (\<lambda>b. map (\<lambda>a. ?jr a b) (filter (\<lambda>a. ?m a b) (tree_rows d T l))) (tree_rows d T r)))"
    using mset_join_out [of ?m ?jr "tree_len d l" "tree_rows d T l" "tree_rows d T r"] by (auto simp: Let_def simp del: tree_cols.simps)
  also have "\<dots> = mset (concat (map (\<lambda>b. map (\<lambda>a. ?jr a b) (filter (\<lambda>a. ?m a b) (map (row_of (tree_tabs l)) (filter (?H l) ?A))))
      (map (row_of (tree_tabs r)) (filter (?H r) ?B))))" by (rule mset_pairs_cong [OF ih])
  also have "\<dots> = (\<Sum>\<sigma> \<in># filter_mset (?H r) (mset ?B). image_mset (\<lambda>\<rho>. ?jr (row_of (tree_tabs l) \<rho>) (row_of (tree_tabs r) \<sigma>))
      (filter_mset (\<lambda>\<rho>. ?H l \<rho> \<and> ?m (row_of (tree_tabs l) \<rho>) (row_of (tree_tabs r) \<sigma>)) (mset ?A)))"
    by (simp add: mset_concat_map filter_map comp_def filter_filter_mset conj_commute)
  also have "\<dots> = (\<Sum>\<sigma> \<in># mset ?B. image_mset (\<lambda>\<rho>. row_of (tree_tabs ?p) (\<rho> ++ \<sigma>)) (filter_mset (\<lambda>\<rho>. ?H ?p (\<rho> ++ \<sigma>)) (mset ?A)))"
    unfolding pairs_filter
  proof (intro arg_cong [where f = sum_mset] image_mset_cong)
    fix \<sigma> assume s: "\<sigma> \<in># mset ?B"
    have "filter_mset (\<lambda>\<rho>. ?H r \<sigma> \<and> ?H l \<rho> \<and> ?m (row_of (tree_tabs l) \<rho>) (row_of (tree_tabs r) \<sigma>)) (mset ?A) =
        filter_mset (\<lambda>\<rho>. ?H ?p (\<rho> ++ \<sigma>)) (mset ?A)" using pair s by (intro filter_mset_cong) auto
    then show "image_mset (\<lambda>\<rho>. ?jr (row_of (tree_tabs l) \<rho>) (row_of (tree_tabs r) \<sigma>))
        (filter_mset (\<lambda>\<rho>. ?H r \<sigma> \<and> ?H l \<rho> \<and> ?m (row_of (tree_tabs l) \<rho>) (row_of (tree_tabs r) \<sigma>)) (mset ?A)) =
      image_mset (\<lambda>\<rho>. row_of (tree_tabs ?p) (\<rho> ++ \<sigma>)) (filter_mset (\<lambda>\<rho>. ?H ?p (\<rho> ++ \<sigma>)) (mset ?A))"
      using pair s by (auto intro!: image_mset_cong)
  qed
  also have "\<dots> = mset (map (row_of (tree_tabs ?p)) (filter (?H ?p) (choices T (tree_tabs ?p))))"
    using mset_choices_append [of "tree_tabs l" "tree_tabs r" T] JoinPlan.prems(2)
    by (simp add: filter_sum_mset image_sum_mset multiset.map_comp comp_def filter_mset_image_mset)
  finally show ?case .
qed simp_all

text \<open>The order of the tables does not matter to the choices.\<close>

lemma mset_choices_move:
  "t \<notin> set xs \<Longrightarrow> mset (choices T (xs @ t # ys)) = mset (choices T (t # xs @ ys))"
proof (induction xs)
  case (Cons x xs)
  let ?C = "mset (choices T (xs @ ys))"
  have twist: "\<rho>(t \<mapsto> a, x \<mapsto> b) = \<rho>(x \<mapsto> b, t \<mapsto> a)" for \<rho> :: choice and a b
    using Cons.prems by (intro fun_upd_twist) auto
  have "mset (choices T ((x # xs) @ t # ys)) = (\<Sum>b \<in># mset (T x). image_mset (\<lambda>\<rho>. \<rho>(x \<mapsto> b)) (mset (choices T (t # xs @ ys))))"
    using Cons by (simp only: append_Cons mset_choices_Cons [of T x]) simp
  also have "\<dots> = (\<Sum>b \<in># mset (T x). \<Sum>a \<in># mset (T t). image_mset (\<lambda>\<rho>. \<rho>(t \<mapsto> a, x \<mapsto> b)) ?C)"
    by (simp only: mset_choices_Cons image_sum_mset multiset.map_comp comp_def)
  also have "\<dots> = (\<Sum>a \<in># mset (T t). \<Sum>b \<in># mset (T x). image_mset (\<lambda>\<rho>. \<rho>(x \<mapsto> b, t \<mapsto> a)) ?C)"
    by (subst sum_mset_swap) (simp only: twist)
  also have "\<dots> = mset (choices T (t # (x # xs) @ ys))"
    by (simp only: append_Cons mset_choices_Cons image_sum_mset multiset.map_comp comp_def)
  finally show ?case .
qed simp

lemma mset_choices_perm:
  "mset ts = mset us \<Longrightarrow> distinct ts \<Longrightarrow> mset (choices T ts) = mset (choices T us)"
proof (induction ts arbitrary: us)
  case (Cons t ts)
  then obtain xs ys where us: "us = xs @ t # ys" by (metis list.set_intros(1) set_mset_mset split_list)
  have "distinct us" using Cons.prems by (metis mset_eq_imp_distinct_iff)
  then have "t \<notin> set xs" using us by simp
  moreover have "mset (choices T ts) = mset (choices T (xs @ ys))" using Cons us by simp
  ultimately show ?case unfolding us mset_choices_move [OF \<open>t \<notin> set xs\<close>] mset_choices_Cons by simp
qed simp

end
