(* ===== verification/Plan_Push.thy ===== *)
theory Plan_Push
  imports Plan_Rows
begin

text \<open>
  Trees over the tables of a query, and what pushing a condition into one does: it comes to stand on a join
  that has both its tables, turned round where the join has them the other way, and nothing else changes.
\<close>

section \<open>Conditions against the catalogue\<close>

text \<open>As \<open>cond_resolved\<close>, with the columns of the catalogue.\<close>

definition cat_resolved :: "db_meta \<Rightarrow> condition \<Rightarrow> bool" where
  "cat_resolved d c \<longleftrightarrow> get_col (table_cols d (tc_tab (lhs_col c))) (lhs_col c) = Inr (cat_col d (lhs_col c)) \<and>
     (if is_rhs_val c then val_type (val_of (rhs_val c)) = cm_type (cat_col d (lhs_col c)) \<and>
        (\<exists>b. raw (rhs_val c) = Some b \<and> raw_bytes (val_of (rhs_val c)) (cm_len (cat_col d (lhs_col c))) = Inr b)
      else get_col (table_cols d (tc_tab (rhs_col c))) (rhs_col c) = Inr (cat_col d (rhs_col c)) \<and>
        cm_type (cat_col d (rhs_col c)) = cm_type (cat_col d (lhs_col c)))"

lemma get_col_some: "get_col cols s = Inr c \<Longrightarrow> find (\<lambda>c. cm_tab c = tc_tab s \<and> cm_name c = tc_col s) cols = Some c"
  by (auto simp: get_col_def split: option.splits)

lemma get_col_cat:
  assumes "cols_named d" "get_all_cols d tabs = Inr cols" "get_col cols s = Inr c"
  shows "get_col (table_cols d (tc_tab s)) s = Inr (cat_col d s)" "cat_col d s = c"
proof -
  have c: "c \<in> set cols" "cm_tab c = tc_tab s" "cm_name c = tc_col s" using get_col_some [OF assms(3)] by (auto simp: find_Some_iff)
  obtain ts where ts: "list_all2 (\<lambda>t tab. map_of (db_tabs d) t = Some tab) tabs ts" "cols = concat (map tm_cols ts)"
    using assms(2) by (auto simp: get_all_cols_Inr)
  obtain tab0 where tab0: "tab0 \<in> set ts" "c \<in> set (tm_cols tab0)" using c(1) ts(2) by auto
  then obtain i where i: "i < length ts" "tab0 = ts ! i" by (metis in_set_conv_nth)
  with ts(1) have m0: "map_of (db_tabs d) (tabs ! i) = Some tab0" by (auto simp: list_all2_conv_all_nth)
  then have "tabs ! i = tc_tab s" using assms(1) tab0(2) c(2) by (auto simp: cols_named_def)
  with m0 have tab: "map_of (db_tabs d) (tc_tab s) = Some tab0" by simp
  obtain c1 where c1: "tab_get_col (tc_col s) tab0 = Inr c1"
    using tab0(2) c(3) by (cases "find (\<lambda>x. cm_name x = tc_col s) (tm_cols tab0)") (auto simp: tab_get_col_def find_None_iff)
  have "\<exists>x \<in> set cols. cm_tab x = tc_tab s" using c by blast
  with get_col_all [OF assms(1,2) tab c1] assms(3) have "c1 = c" by simp
  have "find (\<lambda>c. cm_tab c = tc_tab s \<and> cm_name c = tc_col s) (tm_cols tab0) = find (\<lambda>x. cm_name x = tc_col s) (tm_cols tab0)"
    using assms(1) tab by (intro find_cong) (auto simp: cols_named_def)
  then have f: "find (\<lambda>c. cm_tab c = tc_tab s \<and> cm_name c = tc_col s) (table_cols d (tc_tab s)) = Some c"
    using c1 \<open>c1 = c\<close> tab by (auto simp: table_cols_def tab_get_col_def split: option.splits)
  then show "cat_col d s = c" by (simp add: cat_col_def)
  with f show "get_col (table_cols d (tc_tab s)) s = Inr (cat_col d s)" by (simp add: get_col_def)
qed

lemma resolved_cat:
  assumes "cols_named d" "get_all_cols d tabs = Inr cols" "cond_resolved cols c"
  shows "cat_resolved d c"
  using assms(3) get_col_cat [OF assms(1,2)] unfolding cond_resolved_def cat_resolved_def
  by (auto split: if_splits)

lemma tree_cols_has:
  "t \<in> set (tree_tabs p) \<Longrightarrow> c \<in> set (table_cols d t) \<Longrightarrow> \<exists>c' \<in> set (tree_cols d p). cm_tab c' = cm_tab c \<and> cm_name c' = cm_name c"
proof (induction p)
  case (JoinPlan tag l r conds)
  then show ?case
  proof (cases "t \<in> set (tree_tabs l)")
    case False
    with JoinPlan have "t \<in> set (tree_tabs r)" by simp
    with JoinPlan obtain c' where "c' \<in> set (tree_cols d r)" "cm_tab c' = cm_tab c" "cm_name c' = cm_name c" by blast
    then show ?thesis by (auto simp: shift_col_def intro!: bexI [of _ "shift_col (tree_len d l) c'"])
  qed auto
qed auto

lemma tree_get_col:
  assumes "tree_ok d U p" "\<forall>t \<in> set (tree_tabs p). table_fits d T t" "tree_len d p < 2 ^ 31"
    "get_col (table_cols d (tc_tab s)) s = Inr (cat_col d s)" "tc_tab s \<in> set (tree_tabs p)"
  obtains c where "get_col (tree_cols d p) s = Inr c" "cm_type c = cm_type (cat_col d s)" "cm_len c = cm_len (cat_col d s)"
proof -
  have "cat_col d s \<in> set (table_cols d (tc_tab s))" "cm_tab (cat_col d s) = tc_tab s" "cm_name (cat_col d s) = tc_col s"
    using get_col_some [OF assms(4)] by (auto simp: find_Some_iff)
  with tree_cols_has [OF assms(5)] have "\<exists>x \<in> set (tree_cols d p). cm_tab x = tc_tab s \<and> cm_name x = tc_col s" by metis
  then obtain c where "get_col (tree_cols d p) s = Inr c" using get_col_exists by metis
  with tree_col [OF assms(1-3) this] show thesis by (intro that [of c]) auto
qed

lemma tree_resolved:
  assumes "tree_ok d U p" "\<forall>t \<in> set (tree_tabs p). table_fits d T t" "tree_len d p < 2 ^ 31"
    "cat_resolved d c" "cond_tabs c \<subseteq> set (tree_tabs p)"
  shows "cond_resolved (tree_cols d p) c"
proof -
  obtain l where l: "get_col (tree_cols d p) (lhs_col c) = Inr l" "cm_type l = cm_type (cat_col d (lhs_col c))"
    "cm_len l = cm_len (cat_col d (lhs_col c))"
    by (rule tree_get_col [OF assms(1-3), of "lhs_col c"]) (use assms(4,5) in \<open>auto simp: cat_resolved_def cond_tabs_def split: if_splits\<close>)
  show ?thesis
  proof (cases "is_rhs_val c")
    case True
    with l assms(4) show ?thesis by (auto simp: cond_resolved_def cat_resolved_def)
  next
    case False
    obtain r where "get_col (tree_cols d p) (rhs_col c) = Inr r" "cm_type r = cm_type (cat_col d (rhs_col c))"
      by (rule tree_get_col [OF assms(1-3), of "rhs_col c"]) (use assms(4,5) False in \<open>auto simp: cat_resolved_def cond_tabs_def\<close>)
    with l assms(4) False show ?thesis by (auto simp: cond_resolved_def cat_resolved_def)
  qed
qed

text \<open>Turning a condition round keeps its truth.\<close>

lemma memcmp_flip: "memcmp y x = - memcmp x y"
  by (induction x y rule: memcmp.induct) auto

lemma compare_flip: "compare_value y x t len = - compare_value x y t len"
  by (cases t) (auto simp: Let_def three_way_def float_less_def memcmp_flip [of "take _ y"])

lemma holds_swap:
  assumes "\<not> is_rhs_val c" "cat_resolved d c" "same_len d c"
  shows "holds_cond d \<rho> (swap_cond c) = holds_cond d \<rho> c"
  using assms compare_flip [of "col_of d \<rho> (rhs_col c)" "col_of d \<rho> (lhs_col c)"]
  by (simp add: holds_cond_def swap_cond_def Let_def cat_resolved_def same_len_def eval_compare_swap)

lemma swap_cond_same:
  assumes "\<not> is_rhs_val c" "cat_resolved d c" "same_len d c"
  shows "\<not> is_rhs_val (swap_cond c)" "cat_resolved d (swap_cond c)" "same_len d (swap_cond c)" "cond_tabs (swap_cond c) = cond_tabs c"
  using assms by (auto simp: swap_cond_def cat_resolved_def same_len_def cond_tabs_def)

section \<open>Trees over the tables of a query\<close>

definition tables_fit :: "db_meta \<Rightarrow> (string \<Rightarrow> bytes list) \<Rightarrow> string list \<Rightarrow> bool" where
  "tables_fit d T tabs \<longleftrightarrow> distinct tabs \<and> '''' \<notin> set tabs \<and> (\<forall>t \<in> set tabs. table_fits d T t) \<and>
     sum_list (map (table_len d) tabs) < 2 ^ 31"

definition cond_fits :: "db_meta \<Rightarrow> string list \<Rightarrow> condition \<Rightarrow> bool" where
  "cond_fits d tabs c \<longleftrightarrow> cat_resolved d c \<and> same_len d c \<and> cond_tabs c \<subseteq> set tabs"

definition cross :: "condition \<Rightarrow> bool" where
  "cross c \<longleftrightarrow> \<not> is_rhs_val c \<and> tc_tab (lhs_col c) \<noteq> tc_tab (rhs_col c)"

definition tree_over :: "db_meta \<Rightarrow> string set \<Rightarrow> string list \<Rightarrow> plan \<Rightarrow> bool" where
  "tree_over d U tabs p \<longleftrightarrow> tree_ok d U p \<and> distinct (tree_tabs p) \<and> set (tree_tabs p) \<subseteq> set tabs \<and>
     (\<forall>c \<in> set (tree_conds p). same_len d c)"

definition meets :: "db_meta \<Rightarrow> choice \<Rightarrow> plan \<Rightarrow> bool" where
  "meets d \<rho> p \<longleftrightarrow> (\<forall>c \<in> set (tree_conds p). holds_cond d \<rho> c)"

lemma tree_over_small:
  assumes "tables_fit d T tabs" "tree_over d U tabs p"
  shows "\<forall>t \<in> set (tree_tabs p). table_fits d T t" "tree_len d p < 2 ^ 31"
proof -
  have p: "distinct (tree_tabs p)" "set (tree_tabs p) \<subseteq> set tabs" "tree_ok d U p" using assms(2) by (simp_all add: tree_over_def)
  show "\<forall>t \<in> set (tree_tabs p). table_fits d T t" using assms(1) p(2) by (auto simp: tables_fit_def)
  have pos: "0 \<le> table_len d t" if "t \<in> set tabs" for t using assms(1) that by (auto simp: tables_fit_def table_fits_def)
  have "tree_len d p = sum (table_len d) (set (tree_tabs p))"
    using p by (simp add: tree_len_sum sum_list_distinct_conv_sum_set)
  also have "\<dots> \<le> sum (table_len d) (set tabs)" by (intro sum_mono2) (use p(2) pos in auto)
  also have "\<dots> = sum_list (map (table_len d) tabs)" using assms(1) by (simp add: tables_fit_def sum_list_distinct_conv_sum_set)
  finally show "tree_len d p < 2 ^ 31" using assms(1) by (simp add: tables_fit_def)
qed

lemma tree_over_resolved:
  assumes "tables_fit d T tabs" "tree_over d U tabs p" "cond_fits d tabs c" "cond_tabs c \<subseteq> set (tree_tabs p)"
  shows "cond_resolved (tree_cols d p) c"
  using tree_resolved [OF _ tree_over_small [OF assms(1,2)]] assms by (auto simp: tree_over_def cond_fits_def)

text \<open>Joining two trees, with conditions on their tables.\<close>

lemma tree_over_join:
  assumes "tables_fit d T tabs" "tree_over d U tabs l" "tree_over d U tabs r" "set (tree_tabs l) \<inter> set (tree_tabs r) = {}"
    "\<forall>c \<in> set cs. cond_fits d tabs c \<and> cond_tabs c \<subseteq> set (tree_tabs l) \<union> set (tree_tabs r)"
  shows "tree_over d U tabs (JoinPlan tag l r cs)"
proof -
  have j: "tree_over d U tabs (JoinPlan tag l r [])" using assms(2-4) by (auto simp: tree_over_def)
  have "cond_resolved (tree_cols d (JoinPlan tag l r [])) c" if "c \<in> set cs" for c
    by (rule tree_over_resolved [OF assms(1) j]) (use assms(5) that in auto)
  then show ?thesis using assms(2-5) by (auto simp: tree_over_def cond_fits_def)
qed

lemma meets_join: "meets d \<rho> (JoinPlan tag l r cs) \<longleftrightarrow> meets d \<rho> l \<and> meets d \<rho> r \<and> (\<forall>c \<in> set cs. holds_cond d \<rho> c)"
  by (auto simp: meets_def)

lemma cross_swap:
  assumes "cross c" "cond_fits d tabs c"
  shows "cond_fits d tabs (swap_cond c)" "cond_tabs (swap_cond c) = cond_tabs c" "holds_cond d \<rho> (swap_cond c) = holds_cond d \<rho> c"
  using assms swap_cond_same [of c d] holds_swap [of c d \<rho>] by (simp_all add: cross_def cond_fits_def)

text \<open>A condition is pushed to a join that has both its tables, and nothing else changes.\<close>

lemma push_conds_run:
  assumes "tables_fit d T tabs" "tree_over d U tabs p" "cond_fits d tabs c" "cross c"
  shows "\<exists>n p'. push_conds c p = (n, p') \<and> tree_tabs p' = tree_tabs p \<and> tree_cols d p' = tree_cols d p \<and> tree_len d p' = tree_len d p \<and>
    (if cond_tabs c \<subseteq> set (tree_tabs p)
     then n = 3 \<and> tree_over d U tabs p' \<and> (\<forall>\<rho>. meets d \<rho> p' \<longleftrightarrow> meets d \<rho> p \<and> holds_cond d \<rho> c)
     else p' = p \<and> n = (if tc_tab (lhs_col c) \<in> set (tree_tabs p) then 1 else if tc_tab (rhs_col c) \<in> set (tree_tabs p) then 2 else 0))"
  using assms(2)
proof (induction p)
  case (ScanPlan tag t conds names)
  then show ?case using assms(4) by (auto simp: cond_tabs_def cross_def)
next
  case (JoinPlan tag l r conds)
  have o: "tree_over d U tabs l" "tree_over d U tabs r" "set (tree_tabs l) \<inter> set (tree_tabs r) = {}"
    "\<forall>x \<in> set conds. cond_tabs x \<subseteq> set (tree_tabs l) \<union> set (tree_tabs r) \<and> cond_resolved (tree_cols d (JoinPlan tag l r conds)) x \<and> same_len d x"
    using JoinPlan.prems by (auto simp: tree_over_def)
  have ct: "cond_tabs c = {tc_tab (lhs_col c), tc_tab (rhs_col c)}" using assms(4) by (simp add: cond_tabs_def cross_def)
  obtain lres l' where l: "push_conds c l = (lres, l')" "tree_tabs l' = tree_tabs l" "tree_cols d l' = tree_cols d l" "tree_len d l' = tree_len d l"
    "if cond_tabs c \<subseteq> set (tree_tabs l)
     then lres = 3 \<and> tree_over d U tabs l' \<and> (\<forall>\<rho>. meets d \<rho> l' \<longleftrightarrow> meets d \<rho> l \<and> holds_cond d \<rho> c)
     else l' = l \<and> lres = (if tc_tab (lhs_col c) \<in> set (tree_tabs l) then 1 else if tc_tab (rhs_col c) \<in> set (tree_tabs l) then 2 else 0)"
    using JoinPlan.IH(1) [OF o(1)] by blast
  obtain rres r' where r: "push_conds c r = (rres, r')" "tree_tabs r' = tree_tabs r" "tree_cols d r' = tree_cols d r" "tree_len d r' = tree_len d r"
    "if cond_tabs c \<subseteq> set (tree_tabs r)
     then rres = 3 \<and> tree_over d U tabs r' \<and> (\<forall>\<rho>. meets d \<rho> r' \<longleftrightarrow> meets d \<rho> r \<and> holds_cond d \<rho> c)
     else r' = r \<and> rres = (if tc_tab (lhs_col c) \<in> set (tree_tabs r) then 1 else if tc_tab (rhs_col c) \<in> set (tree_tabs r) then 2 else 0)"
    using JoinPlan.IH(2) [OF o(2)] by blast
  consider (left) "cond_tabs c \<subseteq> set (tree_tabs l)" | (right) "\<not> cond_tabs c \<subseteq> set (tree_tabs l)" "cond_tabs c \<subseteq> set (tree_tabs r)"
    | (here) "\<not> cond_tabs c \<subseteq> set (tree_tabs l)" "\<not> cond_tabs c \<subseteq> set (tree_tabs r)" "cond_tabs c \<subseteq> set (tree_tabs l) \<union> set (tree_tabs r)"
    | (none) "\<not> cond_tabs c \<subseteq> set (tree_tabs l) \<union> set (tree_tabs r)" by blast
  then show ?case
  proof cases
    case left
    then have l': "lres = 3" "tree_over d U tabs l'" "\<And>\<rho>. meets d \<rho> l' \<longleftrightarrow> meets d \<rho> l \<and> holds_cond d \<rho> c" using l(5) by auto
    have "tree_over d U tabs (JoinPlan tag l' r conds)" using l'(2) l(2-4) o by (auto simp: tree_over_def)
    with left l l' show ?thesis by (auto simp: meets_join)
  next
    case right
    then have r': "rres = 3" "tree_over d U tabs r'" "\<And>\<rho>. meets d \<rho> r' \<longleftrightarrow> meets d \<rho> r \<and> holds_cond d \<rho> c" using r(5) by auto
    have "l' = l" "lres \<noteq> 3" using right l(5) by (auto split: if_splits)
    moreover have "tree_over d U tabs (JoinPlan tag l r' conds)" using r'(2) r(2-4) o by (auto simp: tree_over_def)
    ultimately show ?thesis using right r r' l(1) by (auto simp: meets_join)
  next
    case here
    then have e: "l' = l" "r' = r" using l(5) r(5) by auto
    have res: "lres \<noteq> 3" "rres \<noteq> 3" "lres \<noteq> 0" "rres \<noteq> 0" using here l(5) r(5) o(3) ct by (auto split: if_splits)
    define c' where "c' = (if lres = 2 then swap_cond c else c)"
    have c': "cond_fits d tabs c'" "cond_tabs c' = cond_tabs c" "\<And>\<rho>. holds_cond d \<rho> c' = holds_cond d \<rho> c"
      using cross_swap [OF assms(4,3)] assms(3) by (auto simp: c'_def)
    have j: "tree_over d U tabs (JoinPlan tag l r [])" using o by (auto simp: tree_over_def)
    have "cond_resolved (tree_cols d (JoinPlan tag l r [])) c'"
      by (rule tree_over_resolved [OF assms(1) j c'(1)]) (use c'(2) here in auto)
    then have "tree_over d U tabs (JoinPlan tag l r (conds @ [c']))" using o c' here(3) by (auto simp: tree_over_def cond_fits_def)
    moreover have "push_conds c (JoinPlan tag l r conds) = (3, JoinPlan tag l r (conds @ [c']))"
      using l(1) r(1) e res by (simp add: c'_def)
    ultimately show ?thesis using here c' by (auto simp: meets_join)
  next
    case none
    then have sub: "\<not> cond_tabs c \<subseteq> set (tree_tabs l)" "\<not> cond_tabs c \<subseteq> set (tree_tabs r)" by auto
    then have e: "l' = l" "r' = r" using l(5) r(5) by auto
    have dis: "x \<in> set (tree_tabs l) \<Longrightarrow> x \<notin> set (tree_tabs r)" for x using o(3) by blast
    have lr: "lres = (if tc_tab (lhs_col c) \<in> set (tree_tabs l) then 1 else if tc_tab (rhs_col c) \<in> set (tree_tabs l) then 2 else 0)"
      "rres = (if tc_tab (lhs_col c) \<in> set (tree_tabs r) then 1 else if tc_tab (rhs_col c) \<in> set (tree_tabs r) then 2 else 0)"
      using sub l(5) r(5) by simp_all
    have "push_conds c (JoinPlan tag l r conds) = (lres + rres, JoinPlan tag l r conds)"
      using l(1) r(1) e none ct lr dis by (auto split: if_splits)
    with none ct lr dis show ?thesis by (auto split: if_splits)
  qed
qed (simp_all add: tree_over_def)

end
