(* ===== verification/Plan_Correct.thy ===== *)
theory Plan_Correct
  imports Plan_Push
begin

text \<open>
  The join trees of the planner: every table of the query is scanned once, every condition stands in the
  tree once, on a join that has both its tables; so the tree delivers the choices of one row per table
  that meet the \<^verbatim>\<open>WHERE\<close> clause.
\<close>

section \<open>Building the tree\<close>

definition scans_over :: "db_meta \<Rightarrow> string set \<Rightarrow> string list \<Rightarrow> plan list \<Rightarrow> bool" where
  "scans_over d U tabs plans \<longleftrightarrow> length plans = length tabs \<and>
     (\<forall>i < length tabs. \<exists>own. plans ! i = ScanPlan T_SeqScan (tabs ! i) own [] \<and> tree_over d U tabs (plans ! i))"

definition used_tabs :: "string list \<Rightarrow> bool list \<Rightarrow> string set" where
  "used_tabs tabs used = {tabs ! i |i. i < length tabs \<and> used ! i}"

text \<open>The tree joins the tables marked as used; it meets the conditions of their scans, and \<open>D\<close>.\<close>

definition joined :: "db_meta \<Rightarrow> string set \<Rightarrow> string list \<Rightarrow> plan list \<Rightarrow> condition set \<Rightarrow> plan \<Rightarrow> bool list \<Rightarrow> bool" where
  "joined d U tabs plans D p used \<longleftrightarrow> tree_over d U tabs p \<and> length used = length tabs \<and>
     set (tree_tabs p) = used_tabs tabs used \<and>
     (\<forall>\<rho>. meets d \<rho> p \<longleftrightarrow> (\<forall>i < length tabs. used ! i \<longrightarrow> meets d \<rho> (plans ! i)) \<and> (\<forall>c \<in> D. holds_cond d \<rho> c))"

lemma find_scan_at:
  assumes "i < length ps" "\<And>j. j < length ps \<Longrightarrow> \<exists>tag own names. ps ! j = ScanPlan tag (f j) own names" "\<And>j. j < i \<Longrightarrow> f j \<noteq> f i"
  shows "find_scan (f i) ps = Some i"
  using assms
proof (induction ps arbitrary: i f)
  case (Cons p ps)
  obtain tag own names where p: "p = ScanPlan tag (f 0) own names" using Cons.prems(2) [of 0] by auto
  show ?case
  proof (cases i)
    case 0
    with p show ?thesis by simp
  next
    case (Suc k)
    have "find_scan (f (Suc k)) ps = Some k"
    proof (rule Cons.IH [of k "\<lambda>j. f (Suc j)"])
      show "k < length ps" using Cons.prems(1) Suc by simp
      show "\<exists>tag own names. ps ! j = ScanPlan tag (f (Suc j)) own names" if "j < length ps" for j
        using Cons.prems(2) [of "Suc j"] that by auto
      show "f (Suc j) \<noteq> f (Suc k)" if "j < k" for j using Cons.prems(3) [of "Suc j"] that Suc by simp
    qed
    moreover have "f 0 \<noteq> f i" using Cons.prems(3) [of 0] Suc by simp
    ultimately show ?thesis using p Suc by simp
  qed
qed simp

lemma pop_scan_run:
  assumes "scans_over d U tabs plans" "distinct tabs" "t \<in> set tabs"
  obtains i where "i < length tabs" "tabs ! i = t" "pop_scan plans t (used, names) = (plans ! i, used[i := True], names @ [t])"
proof -
  obtain i where i: "i < length tabs" "tabs ! i = t" using assms(3) by (metis in_set_conv_nth)
  have n: "length plans = length tabs" using assms(1) by (simp add: scans_over_def)
  have "find_scan (tabs ! i) plans = Some i"
  proof (rule find_scan_at [where f = "\<lambda>i. tabs ! i"])
    show "i < length plans" using n i by simp
    show "\<exists>tag own names. plans ! j = ScanPlan tag (tabs ! j) own names" if "j < length plans" for j
      using assms(1) n that by (auto simp: scans_over_def)
    show "tabs ! j \<noteq> tabs ! i" if "j < i" for j using assms(2) i(1) that by (simp add: nth_eq_iff_index_eq)
  qed
  with i show thesis by (intro that [of i]) (simp_all add: pop_scan_def)
qed

lemma used_tables:
  assumes "distinct tabs" "length used = length tabs" "i < length tabs"
  shows "tabs ! i \<in> used_tabs tabs used \<longleftrightarrow> used ! i" "used_tabs tabs (used[i := True]) = insert (tabs ! i) (used_tabs tabs used)"
  using assms by (auto simp: used_tabs_def nth_eq_iff_index_eq nth_list_update)

lemma all_used:
  "length used = n \<Longrightarrow> i < n \<Longrightarrow> (\<forall>k < n. used[i := True] ! k \<longrightarrow> P k) \<longleftrightarrow> P i \<and> (\<forall>k < n. used ! k \<longrightarrow> P k)"
  by (auto simp: nth_list_update)

text \<open>A scan of a table that is not joined yet comes in on the left.\<close>

lemma joined_add:
  assumes "tables_fit d T tabs" "scans_over d U tabs plans" "joined d U tabs plans D p used" "i < length tabs" "\<not> used ! i"
    "\<forall>c \<in> set cs. cond_fits d tabs c \<and> cond_tabs c \<subseteq> insert (tabs ! i) (set (tree_tabs p))"
    "\<forall>\<rho>. (\<forall>c \<in> set cs. holds_cond d \<rho> c) \<longleftrightarrow> (\<forall>c \<in> E. holds_cond d \<rho> c)"
  shows "joined d U tabs plans (D \<union> E) (JoinPlan tag (plans ! i) p cs) (used[i := True])"
proof -
  have dis: "distinct tabs" using assms(1) by (simp add: tables_fit_def)
  have j: "tree_over d U tabs p" "length used = length tabs" "set (tree_tabs p) = used_tabs tabs used"
    "\<And>\<rho>. meets d \<rho> p \<longleftrightarrow> (\<forall>i < length tabs. used ! i \<longrightarrow> meets d \<rho> (plans ! i)) \<and> (\<forall>c \<in> D. holds_cond d \<rho> c)"
    using assms(3) by (simp_all add: joined_def)
  obtain own where s: "plans ! i = ScanPlan T_SeqScan (tabs ! i) own []" "tree_over d U tabs (plans ! i)"
    using assms(2,4) by (auto simp: scans_over_def)
  have new: "tabs ! i \<notin> set (tree_tabs p)" using used_tables(1) [OF dis j(2) assms(4)] j(3) assms(5) by simp
  have t: "tree_over d U tabs (JoinPlan tag (plans ! i) p cs)"
    by (rule tree_over_join [OF assms(1) s(2) j(1)]) (use new assms(6) s(1) in simp_all)
  have "set (tree_tabs (JoinPlan tag (plans ! i) p cs)) = used_tabs tabs (used[i := True])"
    using used_tables(2) [OF dis j(2) assms(4)] j(3) s(1) by simp
  moreover have "meets d \<rho> (JoinPlan tag (plans ! i) p cs) \<longleftrightarrow>
      (\<forall>k < length tabs. used[i := True] ! k \<longrightarrow> meets d \<rho> (plans ! k)) \<and> (\<forall>c \<in> D \<union> E. holds_cond d \<rho> c)" for \<rho>
    unfolding meets_join all_used [OF j(2) assms(4)] using j(4) assms(7) by blast
  ultimately show ?thesis using t j(2) unfolding joined_def by simp
qed

lemma scan_not_null: "scans_over d U tabs plans \<Longrightarrow> i < length tabs \<Longrightarrow> plans ! i \<noteq> NullPlan"
  by (auto simp: scans_over_def)

lemma names_add: "x \<noteq> e \<Longrightarrow> set (xs @ [x]) - {e} = insert x (set xs - {e})"
  by auto

lemma join_cond_run:
  assumes "tables_fit d T tabs" "scans_over d U tabs plans" "joined d U tabs plans D p used" "set names - {''''} = set (tree_tabs p)"
    "cond_fits d tabs c" "cross c"
  shows "\<exists>p' used' names'. join_cond plans c (p, used, names) = (p', used', names') \<and>
    joined d U tabs plans (insert c D) p' used' \<and> set names' - {''''} = set (tree_tabs p')"
proof -
  let ?l = "tc_tab (lhs_col c)" and ?r = "tc_tab (rhs_col c)"
  have j: "tree_over d U tabs p" "length used = length tabs" "set (tree_tabs p) = used_tabs tabs used"
    "\<And>\<rho>. meets d \<rho> p \<longleftrightarrow> (\<forall>i < length tabs. used ! i \<longrightarrow> meets d \<rho> (plans ! i)) \<and> (\<forall>c \<in> D. holds_cond d \<rho> c)"
    using assms(3) by (simp_all add: joined_def)
  have dis: "distinct tabs" and ne: "'''' \<notin> set tabs" using assms(1) by (simp_all add: tables_fit_def)
  have ct: "cond_tabs c = {?l, ?r}" "?l \<noteq> ?r" using assms(6) by (auto simp: cross_def cond_tabs_def)
  then have lr: "?l \<in> set tabs" "?r \<in> set tabs" using assms(5) by (simp_all add: cond_fits_def)
  then have lne: "?l \<noteq> ''''" "?r \<noteq> ''''" using ne by metis+
  from lr have in_names: "?l \<in> set names \<longleftrightarrow> ?l \<in> set (tree_tabs p)" "?r \<in> set names \<longleftrightarrow> ?r \<in> set (tree_tabs p)"
    unfolding assms(4) [symmetric] using ne by auto
  note sw = cross_swap [OF assms(6,5)]
  show ?thesis
  proof (cases "?l \<in> set (tree_tabs p)")
    case l: True
    show ?thesis
    proof (cases "?r \<in> set (tree_tabs p)")
      case True
      with l ct(1) push_conds_run [OF assms(1) j(1) assms(5,6)] obtain p' where
        "push_conds c p = (3, p')" "tree_tabs p' = tree_tabs p" "tree_over d U tabs p'" "\<forall>\<rho>. meets d \<rho> p' \<longleftrightarrow> meets d \<rho> p \<and> holds_cond d \<rho> c"
        by auto
      moreover from this(2-4) j have "joined d U tabs plans (insert c D) p' used" unfolding joined_def by (simp add: conj_ac)
      moreover have "join_cond plans c (p, used, names) = (snd (push_conds c p), used, names)"
        using l True in_names by (simp add: join_cond_def Let_def)
      ultimately show ?thesis using assms(4) by simp
    next
      case False
      obtain i where i: "i < length tabs" "tabs ! i = ?r" "pop_scan plans ?r (used, names) = (plans ! i, used[i := True], names @ [?r])"
        by (rule pop_scan_run [OF assms(2) dis lr(2)])
      have u: "\<not> used ! i" using used_tables(1) [OF dis j(2) i(1)] j(3) i(2) False by simp
      have "joined d U tabs plans (D \<union> {c}) (JoinPlan T_NestLoop (plans ! i) p [swap_cond c]) (used[i := True])"
        by (rule joined_add [OF assms(1-3) i(1) u]) (use sw ct l i(2) in simp_all)
      moreover have "join_cond plans c (p, used, names) = (JoinPlan T_NestLoop (plans ! i) p [swap_cond c], used[i := True], names @ [?r])"
        using l False in_names i scan_not_null [OF assms(2) i(1)] by (simp add: join_cond_def Let_def)
      moreover have "set (names @ [?r]) - {''''} = set (tree_tabs (JoinPlan T_NestLoop (plans ! i) p [swap_cond c]))"
        unfolding names_add [OF lne(2)] assms(4) using assms(2) i(1,2) by (auto simp: scans_over_def)
      ultimately show ?thesis by simp
    qed
  next
    case l: False
    obtain i where i: "i < length tabs" "tabs ! i = ?l" "pop_scan plans ?l (used, names) = (plans ! i, used[i := True], names @ [?l])"
      by (rule pop_scan_run [OF assms(2) dis lr(1)])
    have u: "\<not> used ! i" using used_tables(1) [OF dis j(2) i(1)] j(3) i(2) l by simp
    have si: "tree_tabs (plans ! i) = [?l]" "tree_over d U tabs (plans ! i)" using assms(2) i by (auto simp: scans_over_def)
    show ?thesis
    proof (cases "?r \<in> set (tree_tabs p)")
      case True
      have "joined d U tabs plans (D \<union> {c}) (JoinPlan T_NestLoop (plans ! i) p [c]) (used[i := True])"
        by (rule joined_add [OF assms(1-3) i(1) u]) (use assms(5) ct True i(2) in simp_all)
      moreover have "join_cond plans c (p, used, names) = (JoinPlan T_NestLoop (plans ! i) p [c], used[i := True], names @ [?l])"
        using l True in_names ct(2) i scan_not_null [OF assms(2) i(1)] by (simp add: join_cond_def Let_def)
      moreover have "set (names @ [?l]) - {''''} = set (tree_tabs (JoinPlan T_NestLoop (plans ! i) p [c]))"
        unfolding names_add [OF lne(1)] assms(4) by (simp add: si(1))
      ultimately show ?thesis by simp
    next
      case r: False
      obtain k where k: "k < length tabs" "tabs ! k = ?r"
        "pop_scan plans ?r (used[i := True], names @ [?l]) = (plans ! k, used[i := True, k := True], (names @ [?l]) @ [?r])"
        by (rule pop_scan_run [OF assms(2) dis lr(2)])
      have uk: "\<not> used ! k" using used_tables(1) [OF dis j(2) k(1)] j(3) k(2) r by simp
      have ik: "i \<noteq> k" using i(2) k(2) ct(2) by auto
      have sk: "tree_tabs (plans ! k) = [?r]" "tree_over d U tabs (plans ! k)" using assms(2) k by (auto simp: scans_over_def)
      let ?q = "JoinPlan T_NestLoop (plans ! i) (plans ! k) [c]" and ?p = "JoinPlan T_NestLoop (JoinPlan T_NestLoop (plans ! i) (plans ! k) [c]) p []"
      have q: "tree_over d U tabs ?q"
        by (rule tree_over_join [OF assms(1) si(2) sk(2)]) (use si sk ct assms(5) in simp_all)
      have t: "tree_over d U tabs ?p"
        by (rule tree_over_join [OF assms(1) q j(1)]) (use si sk l r in simp_all)
      have tabs': "set (tree_tabs ?p) = used_tabs tabs (used[i := True, k := True])"
        using used_tables(2) [OF dis j(2) i(1)] used_tables(2) [OF dis _ k(1), of "used[i := True]"] j(2,3) si sk i(2) k(2) by auto
      have "meets d \<rho> ?p \<longleftrightarrow> (\<forall>x < length tabs. used[i := True, k := True] ! x \<longrightarrow> meets d \<rho> (plans ! x)) \<and> (\<forall>x \<in> insert c D. holds_cond d \<rho> x)" for \<rho>
        unfolding meets_join all_used [OF trans [OF length_list_update j(2)] k(1)] all_used [OF j(2) i(1)] using j(4) by auto
      with t tabs' j(2) have "joined d U tabs plans (insert c D) ?p (used[i := True, k := True])" unfolding joined_def by simp
      moreover have "join_cond plans c (p, used, names) = (?p, used[i := True, k := True], (names @ [?l]) @ [?r])"
        using l r in_names ct(2) i k scan_not_null [OF assms(2)] by (simp add: join_cond_def Let_def)
      moreover have "set ((names @ [?l]) @ [?r]) - {''''} = set (tree_tabs ?p)"
        unfolding names_add [OF lne(1)] names_add [OF lne(2)] assms(4) by (auto simp: si(1) sk(1))
      ultimately show ?thesis by auto
    qed
  qed
qed

text \<open>All conditions, one after the other.\<close>

lemma join_conds_run:
  assumes "tables_fit d T tabs" "scans_over d U tabs plans" "joined d U tabs plans D p used" "set names - {''''} = set (tree_tabs p)"
    "\<forall>c \<in> set cs. cond_fits d tabs c \<and> cross c"
  shows "\<exists>p' used' names'. fold (join_cond plans) cs (p, used, names) = (p', used', names') \<and> joined d U tabs plans (set cs \<union> D) p' used'"
  using assms(3-5)
proof (induction cs arbitrary: p used names D)
  case (Cons c cs)
  obtain p1 used1 names1 where s: "join_cond plans c (p, used, names) = (p1, used1, names1)"
    "joined d U tabs plans (insert c D) p1 used1" "set names1 - {''''} = set (tree_tabs p1)"
    using join_cond_run [OF assms(1,2) Cons.prems(1,2), of c] Cons.prems(3) by auto
  have "\<forall>c \<in> set cs. cond_fits d tabs c \<and> cross c" using Cons.prems(3) by simp
  from Cons.IH [OF s(2,3) this] s(1) show ?case by simp
qed auto

lemma join_others_run:
  assumes "tables_fit d T tabs" "scans_over d U tabs plans" "joined d U tabs plans D p used" "k \<le> length tabs" "\<forall>i < k. used ! i"
  shows "joined d U tabs plans D (join_others (drop k plans) (drop k used) p) (replicate (length tabs) True)"
  using assms(3-5)
proof (induction "length tabs - k" arbitrary: k p used)
  case 0
  then have "k = length tabs" "length used = length tabs" by (simp_all add: joined_def)
  moreover from this 0 have "used = replicate (length tabs) True" by (simp add: list_eq_iff_nth_eq)
  ultimately show ?case using 0 assms(2) by (simp add: scans_over_def)
next
  case (Suc m)
  then have k: "k < length tabs" "m = length tabs - Suc k" by auto
  have n: "length plans = length tabs" "length used = length tabs" using assms(2) Suc.prems(1) by (simp_all add: scans_over_def joined_def)
  have d: "drop k plans = plans ! k # drop (Suc k) plans" "drop k used = used ! k # drop (Suc k) used"
    using k(1) n by (simp_all add: Cons_nth_drop_Suc)
  show ?case
  proof (cases "used ! k")
    case True
    then have "\<forall>i < Suc k. used ! i" using Suc.prems(3) by (simp add: less_Suc_eq)
    from Suc.hyps(1) [OF k(2) Suc.prems(1) _ this] k(1) show ?thesis by (simp add: d True)
  next
    case False
    have "joined d U tabs plans (D \<union> {}) (JoinPlan T_NestLoop (plans ! k) p []) (used[k := True])"
      by (rule joined_add [OF assms(1,2) Suc.prems(1) k(1) False]) simp_all
    then have j: "joined d U tabs plans D (JoinPlan T_NestLoop (plans ! k) p []) (used[k := True])" by simp
    have "\<forall>i < Suc k. used[k := True] ! i" using Suc.prems(3) k(1) n(2) by (simp add: less_Suc_eq nth_list_update)
    from Suc.hyps(1) [OF k(2) j _ this] k(1) show ?thesis by (simp add: d False)
  qed
qed

section \<open>The scans\<close>

text \<open>An open table without indexes; a condition that the planner leaves on the scan of its table.\<close>

definition plain_table :: "db_meta \<Rightarrow> string set \<Rightarrow> string \<Rightarrow> bool" where
  "plain_table d U t \<longleftrightarrow> t \<in> U \<and> (\<exists>tab. map_of (db_tabs d) t = Some tab \<and> tm_cols tab \<noteq> [] \<and> tm_indexes tab = [])"

definition at_home :: "string list \<Rightarrow> condition \<Rightarrow> bool" where
  "at_home tabs c \<longleftrightarrow> (if is_rhs_val c then tc_tab (lhs_col c) \<in> set tabs \<and> tc_tab (lhs_col c) \<noteq> tc_tab (rhs_col c)
     else tc_tab (lhs_col c) = tc_tab (rhs_col c) \<longrightarrow> tabs \<noteq> [] \<and> tc_tab (lhs_col c) = hd tabs)"

definition own_scan :: "condition list \<Rightarrow> string \<Rightarrow> plan" where
  "own_scan conds t = ScanPlan T_SeqScan t (filter (\<lambda>c. \<not> cross c \<and> tc_tab (lhs_col c) = t) conds) []"

lemma table_scan_run: "plain_table d U t \<Longrightarrow> table_scan d t own = Inr (ScanPlan T_SeqScan t own [])"
  by (auto simp: plain_table_def table_scan_def get_index_cols_def scan_plan_def get_table_def)

lemma scan_tables_run:
  assumes "\<forall>t \<in> set ts. plain_table d U t" "distinct ts" "\<forall>c \<in> set conds. at_home ts c"
  shows "scan_tables d conds ts = Inr (map (own_scan conds) ts, filter cross conds)"
  using assms
proof (induction ts arbitrary: conds)
  case Nil
  then have "\<forall>c \<in> set conds. cross c" by (auto simp: at_home_def cross_def split: if_splits)
  then show ?case by simp
next
  case (Cons t ts)
  have own: "own_cond t c \<longleftrightarrow> \<not> cross c \<and> tc_tab (lhs_col c) = t" if "c \<in> set conds" for c
    using Cons.prems(3) that by (auto simp: at_home_def own_cond_def cross_def split: if_splits)
  have f: "filter (own_cond t) conds = filter (\<lambda>c. \<not> cross c \<and> tc_tab (lhs_col c) = t) conds" using own by (intro filter_cong) auto
  let ?rest = "filter (\<lambda>c. \<not> own_cond t c) conds"
  have "\<forall>c \<in> set ?rest. at_home ts c"
    using Cons.prems(3) by (auto simp: at_home_def own_cond_def split: if_splits)
  then have "scan_tables d ?rest ts = Inr (map (own_scan ?rest) ts, filter cross ?rest)" using Cons by simp
  moreover have "filter cross ?rest = filter cross conds" unfolding filter_filter by (intro filter_cong) (use own in auto)
  moreover have "own_scan ?rest u = own_scan conds u" if "u \<in> set ts" for u
    unfolding own_scan_def filter_filter using own that Cons.prems(2) by (auto intro!: filter_cong)
  ultimately show ?case using table_scan_run [of d U t] Cons.prems(1) f by (simp add: pop_conds_def own_scan_def)
qed

lemma own_scans:
  assumes "tables_fit d T tabs" "\<forall>t \<in> set tabs. plain_table d U t" "\<forall>c \<in> set conds. cond_fits d tabs c"
  shows "scans_over d U tabs (map (own_scan conds) tabs)"
proof -
  have "tree_over d U tabs (own_scan conds t)" if t: "t \<in> set tabs" for t
  proof -
    have e: "tree_over d U tabs (ScanPlan T_SeqScan t [] [])" using t assms(2) by (auto simp: tree_over_def plain_table_def table_cols_def)
    have "cond_fits d tabs c \<and> cond_tabs c \<subseteq> {t} \<and> cond_resolved (table_cols d t) c"
      if c: "c \<in> set conds" "\<not> cross c" "tc_tab (lhs_col c) = t" for c
    proof -
      have "cond_tabs c \<subseteq> {t}" using c(2,3) by (auto simp: cond_tabs_def cross_def)
      then show ?thesis using tree_over_resolved [OF assms(1) e] assms(3) c(1) by simp
    qed
    then show ?thesis using e by (auto simp: tree_over_def own_scan_def cond_fits_def)
  qed
  then show ?thesis by (simp add: scans_over_def own_scan_def)
qed

section \<open>The whole tree\<close>

text \<open>A query that the planner's trees are right for.\<close>

definition query_fits :: "db_meta \<Rightarrow> string set \<Rightarrow> (string \<Rightarrow> bytes list) \<Rightarrow> query \<Rightarrow> bool" where
  "query_fits d U T q \<longleftrightarrow> q_tables q \<noteq> [] \<and> tables_fit d T (q_tables q) \<and> (\<forall>t \<in> set (q_tables q). plain_table d U t) \<and>
     (\<forall>c \<in> set (q_conds q). cond_fits d (q_tables q) c \<and> at_home (q_tables q) c)"

lemma first_join_run:
  assumes "tables_fit d T tabs" "tabs \<noteq> []" "scans_over d U tabs plans" "\<forall>c \<in> set cs. cond_fits d tabs c \<and> cross c" "join_tag k = Inr tag"
  shows "\<exists>p used names. first_join k plans cs = Inr (p, used, names) \<and> joined d U tabs plans (set (take 1 cs)) p used \<and>
    (cs \<noteq> [] \<longrightarrow> set names - {''''} = set (tree_tabs p))"
proof -
  have n: "length plans = length tabs" and p0: "\<And>i. i < length tabs \<Longrightarrow> tree_tabs (plans ! i) = [tabs ! i] \<and> tree_over d U tabs (plans ! i)"
    using assms(3) by (auto simp: scans_over_def)
  have dis: "distinct tabs" and ne: "'''' \<notin> set tabs" using assms(1) by (simp_all add: tables_fit_def)
  let ?no = "replicate (length tabs) False"
  have none: "used_tabs tabs ?no = {}" by (auto simp: used_tabs_def)
  show ?thesis
  proof (cases cs)
    case Nil
    have "0 < length tabs" using assms(2) by simp
    then have "joined d U tabs plans {} (plans ! 0) (?no[0 := True])"
      using used_tables(2) [OF dis _ \<open>0 < length tabs\<close>, of ?no] none p0 [of 0] unfolding joined_def
      by (simp add: all_used [of ?no "length tabs" 0])
    with Nil n show ?thesis by simp
  next
    case (Cons c cs')
    let ?l = "tc_tab (lhs_col c)" and ?r = "tc_tab (rhs_col c)"
    have c: "cond_fits d tabs c" "cross c" using assms(4) Cons by auto
    have ct: "cond_tabs c = {?l, ?r}" "?l \<noteq> ?r" using c(2) by (auto simp: cross_def cond_tabs_def)
    then have lr: "?l \<in> set tabs" "?r \<in> set tabs" using c(1) by (simp_all add: cond_fits_def)
    then have lne: "?l \<noteq> ''''" "?r \<noteq> ''''" using ne by metis+
    let ?ns = "replicate (length tabs) ''''"
    obtain i where i: "i < length tabs" "tabs ! i = ?l" "pop_scan plans ?l (?no, ?ns) = (plans ! i, ?no[i := True], ?ns @ [?l])"
      by (rule pop_scan_run [OF assms(3) dis lr(1)])
    obtain j where j: "j < length tabs" "tabs ! j = ?r"
      "pop_scan plans ?r (?no[i := True], ?ns @ [?l]) = (plans ! j, ?no[i := True, j := True], (?ns @ [?l]) @ [?r])"
      by (rule pop_scan_run [OF assms(3) dis lr(2)])
    let ?p = "JoinPlan tag (plans ! i) (plans ! j) [c]"
    have t: "tree_over d U tabs ?p"
      by (rule tree_over_join [OF assms(1)]) (use p0 [OF i(1)] p0 [OF j(1)] i(2) j(2) c(1) ct in simp_all)
    have len: "length (?no[i := True]) = length tabs" "length ?no = length tabs" by simp_all
    have "meets d \<rho> ?p \<longleftrightarrow> (\<forall>x < length tabs. ?no[i := True, j := True] ! x \<longrightarrow> meets d \<rho> (plans ! x)) \<and> (\<forall>x \<in> {c}. holds_cond d \<rho> x)" for \<rho>
      unfolding meets_join all_used [OF len(1) j(1)] all_used [OF len(2) i(1)] by auto
    moreover have "set (tree_tabs ?p) = used_tabs tabs (?no[i := True, j := True])"
      unfolding used_tables(2) [OF dis len(1) j(1)] used_tables(2) [OF dis len(2) i(1)] none
      using p0 [OF i(1)] p0 [OF j(1)] by auto
    ultimately have "joined d U tabs plans {c} ?p (?no[i := True, j := True])" using t unfolding joined_def by simp
    moreover have "first_join k plans cs = Inr (?p, ?no[i := True, j := True], (?ns @ [?l]) @ [?r])"
      using i(3) j(3) n assms(5) by (simp add: Cons)
    moreover have "set ((?ns @ [?l]) @ [?r]) - {''''} = set (tree_tabs ?p)"
      unfolding names_add [OF lne(1)] names_add [OF lne(2)] using p0 [OF i(1)] p0 [OF j(1)] i(2) j(2) by auto
    ultimately show ?thesis by (auto simp: Cons)
  qed
qed

lemma own_scan_meets: "meets d \<rho> (own_scan conds t) \<longleftrightarrow> (\<forall>c \<in> set conds. \<not> cross c \<and> tc_tab (lhs_col c) = t \<longrightarrow> holds_cond d \<rho> c)"
  by (auto simp: meets_def own_scan_def)

lemma all_conds_met:
  assumes "\<forall>c \<in> set conds. cond_tabs c \<subseteq> set tabs"
  shows "(\<forall>i < length tabs. meets d \<rho> (own_scan conds (tabs ! i))) \<and> (\<forall>c \<in> set (filter cross conds). holds_cond d \<rho> c) \<longleftrightarrow>
    (\<forall>c \<in> set conds. holds_cond d \<rho> c)"
proof -
  have "\<exists>i < length tabs. tabs ! i = tc_tab (lhs_col c)" if "c \<in> set conds" for c
    using assms that by (fastforce simp: cond_tabs_def in_set_conv_nth split: if_splits)
  then show ?thesis unfolding own_scan_meets by auto metis
qed

lemma make_one_rel_run:
  assumes "query_fits d U T q" "join_tag k = Inr tag"
  shows "\<exists>p. make_one_rel d k q = Inr p \<and> tree_over d U (q_tables q) p \<and> set (tree_tabs p) = set (q_tables q) \<and>
    (\<forall>\<rho>. meets d \<rho> p \<longleftrightarrow> (\<forall>c \<in> set (q_conds q). holds_cond d \<rho> c))"
proof -
  let ?tabs = "q_tables q" and ?ps = "map (own_scan (q_conds q)) (q_tables q)" and ?cs = "filter cross (q_conds q)"
  have q: "?tabs \<noteq> []" "tables_fit d T ?tabs" "\<forall>t \<in> set ?tabs. plain_table d U t" "\<forall>c \<in> set (q_conds q). cond_fits d ?tabs c"
    "\<forall>c \<in> set (q_conds q). at_home ?tabs c" "distinct ?tabs"
    using assms(1) by (auto simp: query_fits_def tables_fit_def)
  have ct: "\<forall>c \<in> set (q_conds q). cond_tabs c \<subseteq> set ?tabs" using q(4) by (simp add: cond_fits_def)
  note scans = own_scans [OF q(2-4)]
  have sc: "scan_tables d (q_conds q) ?tabs = Inr (?ps, ?cs)" by (rule scan_tables_run [OF q(3,6,5)])
  show ?thesis
  proof (cases "length ?tabs = 1")
    case True
    then obtain t where t: "?tabs = [t]" by (metis One_nat_def length_0_conv length_Suc_conv)
    have no: "?cs = []" using ct by (auto simp: t cross_def cond_tabs_def filter_empty_conv split: if_splits)
    have "make_one_rel d k q = Inr (own_scan (q_conds q) t)" using sc by (simp add: make_one_rel_def t)
    moreover have "tree_over d U ?tabs (own_scan (q_conds q) t)" using scans by (auto simp: scans_over_def t)
    moreover have "meets d \<rho> (own_scan (q_conds q) t) \<longleftrightarrow> (\<forall>c \<in> set (q_conds q). holds_cond d \<rho> c)" for \<rho>
      using all_conds_met [OF ct, of d \<rho>] by (simp add: no t)
    ultimately show ?thesis by (intro exI [of _ "own_scan (q_conds q) t"]) (simp add: t own_scan_def)
  next
    case False
    have cs: "\<forall>c \<in> set ?cs. cond_fits d ?tabs c \<and> cross c" using q(4) by simp
    obtain p0 used0 names0 where f: "first_join k ?ps ?cs = Inr (p0, used0, names0)" "joined d U ?tabs ?ps (set (take 1 ?cs)) p0 used0"
      "?cs \<noteq> [] \<longrightarrow> set names0 - {''''} = set (tree_tabs p0)"
      using first_join_run [OF q(2,1) scans cs assms(2)] by blast
    have "\<exists>p used names. fold (join_cond ?ps) (tl ?cs) (p0, used0, names0) = (p, used, names) \<and> joined d U ?tabs ?ps (set ?cs) p used"
    proof (cases ?cs)
      case Nil
      with f(2) show ?thesis by simp
    next
      case (Cons c cs')
      with cs have "\<forall>c \<in> set cs'. cond_fits d ?tabs c \<and> cross c" by (metis list.set_intros(2))
      from join_conds_run [OF q(2) scans f(2) _ this] f(3) Cons show ?thesis by simp
    qed
    then obtain p used names where p: "fold (join_cond ?ps) (tl ?cs) (p0, used0, names0) = (p, used, names)" "joined d U ?tabs ?ps (set ?cs) p used"
      by blast
    let ?p = "join_others ?ps used p"
    have "joined d U ?tabs ?ps (set ?cs) ?p (replicate (length ?tabs) True)"
      using join_others_run [OF q(2) scans p(2), of 0] by simp
    then have j: "tree_over d U ?tabs ?p" "set (tree_tabs ?p) = set ?tabs"
      "\<And>\<rho>. meets d \<rho> ?p \<longleftrightarrow> (\<forall>i < length ?tabs. meets d \<rho> (own_scan (q_conds q) (?tabs ! i))) \<and> (\<forall>c \<in> set ?cs. holds_cond d \<rho> c)"
      by (auto simp: joined_def used_tabs_def set_conv_nth)
    have "make_one_rel d k q = Inr ?p" using sc f(1) p(1) q(1) False by (simp add: make_one_rel_def)
    with j show ?thesis unfolding all_conds_met [OF ct] by blast
  qed
qed

end
