(* ===== verification/Select_Correct.thy ===== *)
theory Select_Correct
  imports Plan_Correct
begin

text \<open>
  A query, end to end: analysed, planned, turned into executors and run, it delivers the selected columns of
  exactly those choices of one row per table that meet the \<^verbatim>\<open>WHERE\<close> clause, in the order of
  \<^verbatim>\<open>ORDER BY\<close> and as many as \<^verbatim>\<open>LIMIT\<close> says.
\<close>

section \<open>What a query means\<close>

definition where_choices :: "db_meta \<Rightarrow> (string \<Rightarrow> bytes list) \<Rightarrow> query \<Rightarrow> choice list" where
  "where_choices d T q = filter (\<lambda>\<rho>. \<forall>c \<in> set (q_conds q). holds_cond d \<rho> c) (choices T (q_tables q))"

definition out_row :: "db_meta \<Rightarrow> tabcol list \<Rightarrow> choice \<Rightarrow> bytes" where
  "out_row d sel \<rho> = concat (map (col_of d \<rho>) sel)"

text \<open>The order of two choices by the keys of \<^verbatim>\<open>ORDER BY\<close>, \<open>True\<close> for a descending one.\<close>

fun order_choice :: "db_meta \<Rightarrow> (tabcol \<times> bool) list \<Rightarrow> choice \<Rightarrow> choice \<Rightarrow> int" where
  "order_choice d [] \<rho> \<sigma> = 0"
| "order_choice d ((k, desc) # ks) \<rho> \<sigma> =
     (let c = compare_value (col_of d \<rho> k) (col_of d \<sigma> k) (cm_type (cat_col d k)) (cm_len (cat_col d k))
      in if c \<noteq> 0 then if desc then - c else c else order_choice d ks \<rho> \<sigma>)"

text \<open>A key whose values can be ordered: there, and no NaN among them.\<close>

definition key_fits :: "db_meta \<Rightarrow> (string \<Rightarrow> bytes list) \<Rightarrow> string list \<Rightarrow> tabcol \<Rightarrow> bool" where
  "key_fits d T tabs k \<longleftrightarrow> tc_tab k \<in> set tabs \<and> get_col (table_cols d (tc_tab k)) k = Inr (cat_col d k) \<and>
     (cm_type (cat_col d k) = TYPE_FLOAT \<longrightarrow>
       (\<forall>b \<in> set (T (tc_tab k)). \<not> float_nan (word_of_int (le_decode (take 4 (col_bytes b (cat_col d k)))))))"

section \<open>The rows of the planner's tree\<close>

lemma mset_map_choice: "mset xs = mset (map f ys) \<Longrightarrow> \<exists>zs. mset zs = mset ys \<and> xs = map f zs"
proof (induction xs arbitrary: ys)
  case (Cons x xs)
  then have "x \<in># mset (map f ys)" by (metis list.set_intros(1) set_mset_mset)
  then obtain y where y: "y \<in> set ys" "x = f y" by auto
  then obtain as bs where ys: "ys = as @ y # bs" by (metis split_list)
  with Cons.prems y(2) have "mset xs = mset (map f (as @ bs))" by simp
  from Cons.IH [OF this] obtain zs where "mset zs = mset (as @ bs)" "xs = map f zs" by blast
  then show ?case using ys y(2) by (intro exI [of _ "y # zs"]) simp
qed simp

lemma tree_choices:
  assumes "tables_fit d T (q_tables q)" "tree_over d U (q_tables q) p" "set (tree_tabs p) = set (q_tables q)"
    "\<And>\<rho>. meets d \<rho> p \<longleftrightarrow> (\<forall>c \<in> set (q_conds q). holds_cond d \<rho> c)"
  obtains \<rho>s where "tree_rows d T p = map (row_of (tree_tabs p)) \<rho>s" "mset \<rho>s = mset (where_choices d T q)"
    "\<And>\<rho>. \<rho> \<in> set \<rho>s \<Longrightarrow> is_choice T (tree_tabs p) \<rho>"
proof -
  have p: "tree_ok d U p" "distinct (tree_tabs p)" "\<forall>c \<in> set (tree_conds p). same_len d c" using assms(2) by (simp_all add: tree_over_def)
  let ?L = "filter (\<lambda>\<rho>. \<forall>c \<in> set (tree_conds p). holds_cond d \<rho> c) (choices T (tree_tabs p))"
  have "mset (tree_tabs p) = mset (q_tables q)"
    using assms(1,3) p(2) by (simp add: tables_fit_def set_eq_iff_mset_eq_distinct)
  from mset_choices_perm [OF this p(2)] have L: "mset ?L = mset (where_choices d T q)"
    using assms(4) by (simp add: where_choices_def meets_def)
  obtain \<rho>s where r: "mset \<rho>s = mset ?L" "tree_rows d T p = map (row_of (tree_tabs p)) \<rho>s"
    using mset_map_choice [OF tree_rows_choices [OF p(1,2) tree_over_small [OF assms(1,2)] p(3)]] by blast
  have "is_choice T (tree_tabs p) \<rho>" if "\<rho> \<in> set \<rho>s" for \<rho>
    using that mset_eq_setD [OF r(1)] choices_are by auto
  with r L show thesis by (intro that [of \<rho>s]) metis+
qed

section \<open>Columns of a choice in a row of the tree\<close>

lemma row_col:
  assumes "tables_fit d T tabs" "tree_over d U tabs p" "get_col (tree_cols d p) s = Inr c" "is_choice T (tree_tabs p) \<rho>"
  shows "cm_type c = cm_type (cat_col d s)" "cm_len c = cm_len (cat_col d s)" "0 \<le> cm_len c" "typed (cat_col d s)"
    "col_bytes (row_of (tree_tabs p) \<rho>) c = col_of d \<rho> s" "length (col_of d \<rho> s) = nat (cm_len c)"
proof -
  have ok: "tree_ok d U p" using assms(2) by (simp add: tree_over_def)
  note small = tree_over_small [OF assms(1,2)]
  note c = tree_col [OF ok small assms(3)]
  from c show "cm_type c = cm_type (cat_col d s)" "cm_len c = cm_len (cat_col d s)" "typed (cat_col d s)" by auto
  then show "0 \<le> cm_len c" by (auto simp: typed_def)
  show b: "col_bytes (row_of (tree_tabs p) \<rho>) c = col_of d \<rho> s" using c assms(4) by blast
  have "int (length (row_of (tree_tabs p) \<rho>)) = tree_len d p"
    using row_of_length [OF assms(4) small(1)] tree_len_sum [OF ok] by simp
  with c \<open>0 \<le> cm_len c\<close> show "length (col_of d \<rho> s) = nat (cm_len c)" unfolding b [symmetric] by (auto simp: col_bytes_def)
qed

lemma project_choice:
  assumes "tables_fit d T tabs" "tree_over d U tabs p" "place_sel (tree_cols d p) 0 sel = Inr (ps, len)"
    "sum_list (map (\<lambda>s. cm_len (cat_col d s)) sel) < 2 ^ 31" "is_choice T (tree_tabs p) \<rho>"
  shows "project ps len (row_of (tree_tabs p) \<rho>) = out_row d sel \<rho>"
proof -
  let ?r = "row_of (tree_tabs p) \<rho>"
  have found: "list_all2 (\<lambda>s x. get_col (tree_cols d p) s = Inr (fst x)) sel ps"
    using place_sel_found [OF assms(3)] by (induction ps arbitrary: sel) (auto simp: list_all2_Cons2)
  note at = row_col [OF assms(1,2) _ assms(5)]
  have lens: "map (\<lambda>x. cm_len (fst x)) ps = map (\<lambda>s. cm_len (cat_col d s)) sel"
    using found by (induction rule: list_all2_induct) (simp_all add: at)
  have bytes: "map (\<lambda>x. col_bytes ?r (fst x)) ps = map (col_of d \<rho>) sel"
    using found by (induction rule: list_all2_induct) (simp_all add: at)
  have "\<forall>x \<in> set ps. 0 \<le> cm_len (fst x) \<and> length (col_bytes ?r (fst x)) = nat (cm_len (fst x))"
    using found by (induction rule: list_all2_induct) (auto simp: at(5,6) dest: at(3))
  then show ?thesis
    using project_concat [OF assms(3), of ?r] assms(4) lens by (simp add: project_def out_row_def bytes)
qed

lemma row_order:
  assumes "tables_fit d T tabs" "tree_over d U tabs p" "get_cols (tree_cols d p) keys = Inr cs"
    "is_choice T (tree_tabs p) \<rho>" "is_choice T (tree_tabs p) \<sigma>"
  shows "compare_tuple (zip cs desc) (row_of (tree_tabs p) \<rho>) (row_of (tree_tabs p) \<sigma>) = order_choice d (zip keys desc) \<rho> \<sigma>"
  using assms(3)
proof (induction keys arbitrary: cs desc)
  case (Cons k ks)
  then obtain c cs' where c: "get_col (tree_cols d p) k = Inr c" "get_cols (tree_cols d p) ks = Inr cs'" "cs = c # cs'"
    by (auto simp: eThen_eq_Inr)
  note l = row_col [OF assms(1,2) c(1) assms(4)] and r = row_col [OF assms(1,2) c(1) assms(5)]
  let ?a = "drop (nat (cm_offset c)) (row_of (tree_tabs p) \<rho>)" and ?b = "drop (nat (cm_offset c)) (row_of (tree_tabs p) \<sigma>)"
  have "compare_value ?a ?b (cm_type c) (cm_len c) = compare_value (col_of d \<rho> k) (col_of d \<sigma> k) (cm_type c) (cm_len c)"
    using compare_take_left [OF l(4), of ?a ?b] compare_take [OF l(4), of "col_of d \<rho> k" ?b]
    by (simp add: l(1,2) l(5) [symmetric] r(5) [symmetric] col_bytes_def)
  with Cons.IH [OF c(2)] show ?case by (cases desc) (simp_all add: c(3) l(1,2) Let_def)
qed simp

lemma row_keys_ok:
  assumes "tables_fit d T tabs" "tree_over d U tabs p" "get_cols (tree_cols d p) keys = Inr cs" "\<forall>k \<in> set keys. key_fits d T tabs k"
    "is_choice T (tree_tabs p) \<rho>"
  shows "tuple_ok (zip cs desc) (row_of (tree_tabs p) \<rho>)"
  using assms(3,4)
proof (induction keys arbitrary: cs desc)
  case (Cons k ks)
  then obtain c cs' where c: "get_col (tree_cols d p) k = Inr c" "get_cols (tree_cols d p) ks = Inr cs'" "cs = c # cs'"
    by (auto simp: eThen_eq_Inr)
  note l = row_col [OF assms(1,2) c(1) assms(5)]
  have "tree_ok d U p" using assms(2) by (simp add: tree_over_def)
  from tree_col [OF this tree_over_small [OF assms(1,2)] c(1)] have tab: "tc_tab k \<in> set (tree_tabs p)" by simp
  then have "the (\<rho> (tc_tab k)) \<in> set (T (tc_tab k))" using assms(5) by (simp add: is_choice_def)
  then have nan: "cm_type c = TYPE_FLOAT \<longrightarrow> \<not> float_nan (word_of_int (le_decode (take 4 (col_of d \<rho> k))))"
    using Cons.prems(2) by (auto simp: key_fits_def col_of_def l(1))
  have "cm_type c = TYPE_FLOAT \<Longrightarrow> cm_len c = 4" using l(1,2,4) by (auto simp: typed_def)
  moreover have "nat (cm_len c) \<le> length (drop (nat (cm_offset c)) (row_of (tree_tabs p) \<rho>))"
    using l(6) unfolding l(5) [symmetric] by (simp add: col_bytes_def min_def split: if_splits)
  ultimately have "value_there (cm_type c) (cm_len c) (drop (nat (cm_offset c)) (row_of (tree_tabs p) \<rho>))"
    using nan unfolding l(5) [symmetric] by (auto simp: value_there_def col_bytes_def)
  with Cons.IH [OF c(2)] Cons.prems(2) show ?case by (cases desc) (simp_all add: c(3) tuple_ok_def)
qed (simp add: tuple_ok_def)

section \<open>The executors of the query\<close>

lemma place_sel_total: "\<forall>s \<in> set sel. \<exists>c. get_col cols s = Inr c \<Longrightarrow> \<exists>ps len. place_sel cols off sel = Inr (ps, len)"
proof (induction sel arbitrary: off)
  case (Cons s ss)
  then obtain c where "get_col cols s = Inr c" by auto
  moreover from Cons obtain ps len where "place_sel cols (add32 off (cm_len c)) ss = Inr (ps, len)" by (metis list.set_intros(2))
  ultimately show ?case by simp
qed simp

lemma get_cols_total: "\<forall>s \<in> set sel. \<exists>c. get_col cols s = Inr c \<Longrightarrow> \<exists>cs. get_cols cols sel = Inr cs"
  by (induction sel) auto

definition col_fits :: "db_meta \<Rightarrow> string list \<Rightarrow> tabcol \<Rightarrow> bool" where
  "col_fits d tabs s \<longleftrightarrow> tc_tab s \<in> set tabs \<and> get_col (table_cols d (tc_tab s)) s = Inr (cat_col d s)"

lemma col_in_tree:
  assumes "tables_fit d T tabs" "tree_over d U tabs p" "set (tree_tabs p) = set tabs" "col_fits d tabs s"
  shows "\<exists>c. get_col (tree_cols d p) s = Inr c"
proof -
  have "tree_ok d U p" using assms(2) by (simp add: tree_over_def)
  from tree_get_col [OF this tree_over_small [OF assms(1,2)]] assms(3,4) show ?thesis unfolding col_fits_def by metis
qed


text \<open>The keys of \<^verbatim>\<open>ORDER BY\<close>, as the planner finds them, and their directions.\<close>

definition sort_keys :: "db_meta \<Rightarrow> string list \<Rightarrow> select_stmt \<Rightarrow> tabcol list" where
  "sort_keys d tabs s = (case ss_order s of None \<Rightarrow> [] | Some ob \<Rightarrow>
     (case get_all_cols d tabs of Inl _ \<Rightarrow> [] | Inr cols \<Rightarrow> map (sort_key cols) (ob_cols ob)))"

definition sort_dirs :: "select_stmt \<Rightarrow> bool list" where
  "sort_dirs s = (case ss_order s of None \<Rightarrow> [] | Some ob \<Rightarrow> map (\<lambda>dir. dir = OrderBy_DESC) (ob_dirs ob))"

definition sort_plan :: "select_stmt \<Rightarrow> plan \<Rightarrow> tabcol list \<Rightarrow> plan" where
  "sort_plan s p keys = (if ss_order s = None then p else SortPlan p keys (sort_dirs s))"

lemma generate_sort_run:
  "get_all_cols d (q_tables q) = Inr cols \<Longrightarrow> generate_sort_plan d s q p = Inr (sort_plan s p (sort_keys d (q_tables q) s))"
  by (auto simp: generate_sort_plan_def sort_plan_def sort_keys_def sort_dirs_def split: option.splits)

lemma stable_sort_rows:
  assumes "tables_fit d T tabs" "tree_over d U tabs p" "get_cols (tree_cols d p) keys = Inr cs" "\<forall>k \<in> set keys. key_fits d T tabs k"
    "\<forall>\<rho> \<in> set \<rho>s. is_choice T (tree_tabs p) \<rho>"
  shows "\<exists>\<sigma>s. stable_sort (\<lambda>a b. compare_tuple (zip cs desc) a b < 0) (map (row_of (tree_tabs p)) \<rho>s) = map (row_of (tree_tabs p)) \<sigma>s \<and>
    mset \<sigma>s = mset \<rho>s \<and> sorted_wrt (\<lambda>\<rho> \<sigma>. order_choice d (zip keys desc) \<rho> \<sigma> \<le> 0) \<sigma>s"
proof -
  let ?row = "row_of (tree_tabs p)"
  let ?out = "stable_sort (\<lambda>a b. compare_tuple (zip cs desc) a b < 0) (map ?row \<rho>s)"
  obtain \<sigma>s where s: "mset \<sigma>s = mset \<rho>s" "?out = map ?row \<sigma>s"
    using mset_map_choice [OF mset_stable_sort [of _ "map ?row \<rho>s"]] by blast
  have "\<forall>r \<in> set (map ?row \<rho>s). tuple_ok (zip cs desc) r" using row_keys_ok [OF assms(1-4)] assms(5) by auto
  from tup.stable_sort_sorted [OF this] have "sorted_wrt (\<lambda>a b. compare_tuple (zip cs desc) (?row a) (?row b) \<le> 0) \<sigma>s"
    by (simp add: s(2) sorted_wrt_map)
  moreover have "compare_tuple (zip cs desc) (?row a) (?row b) = order_choice d (zip keys desc) a b" if "a \<in> set \<sigma>s" "b \<in> set \<sigma>s" for a b
    by (rule row_order [OF assms(1-3)]) (use assms(5) mset_eq_setD [OF s(1)] that in auto)
  ultimately have "sorted_wrt (\<lambda>\<rho> \<sigma>. order_choice d (zip keys desc) \<rho> \<sigma> \<le> 0) \<sigma>s"
    by (simp add: sorted_wrt_iff_nth_less)
  with s show ?thesis by blast
qed

lemma order_none: "sorted_wrt (\<lambda>\<rho> \<sigma>. order_choice d [] \<rho> \<sigma> \<le> 0) \<rho>s"
  by (induction \<rho>s) simp_all

lemma sorted_tree:
  assumes "query_fits d (dom (map_of F)) T q" "T = (\<lambda>t. table_rows (table_of F st t))" "sv_db sv = d" "sv_fhs sv = F"
    "tree_over d (dom (map_of F)) (q_tables q) p" "set (tree_tabs p) = set (q_tables q)"
    "\<And>\<rho>. meets d \<rho> p \<longleftrightarrow> (\<forall>c \<in> set (q_conds q). holds_cond d \<rho> c)"
    "\<forall>k \<in> set keys. key_fits d T (q_tables q) k" "ss_order s = None \<longrightarrow> keys = []"
  obtains ex \<rho>s where "convert_plan_executor (sort_plan s p keys) sv = (Inr ex, sv)" "ex_cols ex = tree_cols d p"
    "delivers (reading F st) (stopped F st) ex (map (row_of (tree_tabs p)) \<rho>s)" "mset \<rho>s = mset (where_choices d T q)"
    "sorted_wrt (\<lambda>\<rho> \<sigma>. order_choice d (zip keys (sort_dirs s)) \<rho> \<sigma> \<le> 0) \<rho>s" "\<forall>\<rho> \<in> set \<rho>s. is_choice T (tree_tabs p) \<rho>"
proof -
  have fit: "tables_fit d T (q_tables q)" using assms(1) by (simp add: query_fits_def)
  have ok: "tree_ok d (dom (map_of F)) p" using assms(5) by (simp add: tree_over_def)
  obtain ex where ex: "convert_plan_executor p sv = (Inr ex, sv)" "ex_cols ex = tree_cols d p"
    "delivers (reading F st) (stopped F st) ex (tree_rows d T p)"
    using tree_convert [OF ok assms(3,4), of st] unfolding assms(2) by blast
  obtain \<rho>s where r: "tree_rows d T p = map (row_of (tree_tabs p)) \<rho>s" "mset \<rho>s = mset (where_choices d T q)"
    "\<And>\<rho>. \<rho> \<in> set \<rho>s \<Longrightarrow> is_choice T (tree_tabs p) \<rho>"
    using tree_choices [OF fit assms(5-7)] by metis
  show thesis
  proof (cases "ss_order s")
    case None
    with ex r assms(9) order_none [of d \<rho>s] show ?thesis by (intro that [of ex \<rho>s]) (auto simp: sort_plan_def)
  next
    case (Some ob)
    have "\<exists>c. get_col (tree_cols d p) k = Inr c" if "k \<in> set keys" for k
      by (rule col_in_tree [OF fit assms(5,6)]) (use assms(8) that in \<open>auto simp: col_fits_def key_fits_def\<close>)
    then obtain cs where cs: "get_cols (tree_cols d p) keys = Inr cs" using get_cols_total by blast
    let ?so = "pack_exec (\<lambda>(m, ts, pos). SortMembers m ts pos) sort_of (sort_with ex (zip cs (sort_dirs s)))"
    obtain \<sigma>s where s: "stable_sort (\<lambda>a b. compare_tuple (zip cs (sort_dirs s)) a b < 0) (map (row_of (tree_tabs p)) \<rho>s) = map (row_of (tree_tabs p)) \<sigma>s"
      "mset \<sigma>s = mset \<rho>s" "sorted_wrt (\<lambda>\<rho> \<sigma>. order_choice d (zip keys (sort_dirs s)) \<rho> \<sigma> \<le> 0) \<sigma>s"
      using stable_sort_rows [OF fit assms(5) cs assms(8)] r(3) by blast
    have "delivers (reading F st) (stopped F st) ?so (map (row_of (tree_tabs p)) \<sigma>s)"
    proof (rule pack_run)
      show "delivers (reading F st) (stopped F st) (sort_with ex (zip cs (sort_dirs s))) (map (row_of (tree_tabs p)) \<sigma>s)"
        using sort_run [OF ex(3), of "zip cs (sort_dirs s)"] by (simp only: r(1) s(1))
    qed (simp split: prod.split)
    moreover have "convert_plan_executor (sort_plan s p keys) sv = (Inr ?so, sv)"
      using ex(1,2) cs Some by (simp add: sort_plan_def run_simps from_db_def sort_exec_def)
    moreover have "\<forall>\<rho> \<in> set \<sigma>s. is_choice T (tree_tabs p) \<rho>" using r(3) mset_eq_setD [OF s(2)] by auto
    ultimately show ?thesis using ex(2) r(2) s(2,3) by (intro that [of ?so \<sigma>s]) (auto simp: sort_with_def)
  qed
qed

section \<open>From the statement to its answer\<close>

text \<open>
  The statements the theorem is about: the tables are open, distinct, have no index, fit their columns and
  together stay under 2 GB a row; columns that are compared have one length; a condition between two columns of
  one table is on the first table; there are no aggregates; the keys of \<^verbatim>\<open>ORDER BY\<close> are columns that can be ordered.
\<close>

definition select_fits :: "db_meta \<Rightarrow> string set \<Rightarrow> (string \<Rightarrow> bytes list) \<Rightarrow> select_stmt \<Rightarrow> query \<Rightarrow> bool" where
  "select_fits d U T s q \<longleftrightarrow> ss_tabs s \<noteq> [] \<and> tables_fit d T (ss_tabs s) \<and> (\<forall>t \<in> set (ss_tabs s). plain_table d U t) \<and>
     (\<forall>c \<in> set (q_conds q). same_len d c \<and>
       (\<not> is_rhs_val c \<and> tc_tab (lhs_col c) = tc_tab (rhs_col c) \<longrightarrow> tc_tab (lhs_col c) = hd (ss_tabs s))) \<and>
     (\<forall>x \<in> set (q_cols q). tc_agg x = AGG_NONE \<and> \<not> tc_star x) \<and> sum_list (map (\<lambda>x. cm_len (cat_col d x)) (q_cols q)) < 2 ^ 31 \<and>
     (\<forall>k \<in> set (sort_keys d (ss_tabs s) s). key_fits d T (ss_tabs s) k) \<and> ss_limit s < 2 ^ 31"

definition limited :: "int \<Rightarrow> 'a list \<Rightarrow> 'a list" where
  "limited n xs = (if n \<ge> 0 then take (nat n) xs else xs)"

lemma select_query_fits:
  assumes "cols_named d" "do_analyze d (SelectStmt s) = Inr q" "select_fits d U T s q"
  obtains cols where "get_all_cols d (ss_tabs s) = Inr cols" "q_tables q = ss_tabs s" "q_parse q = SelectStmt (s\<lparr>ss_tabs := []\<rparr>)"
    "query_fits d U T q" "\<forall>x \<in> set (q_cols q). col_fits d (ss_tabs s) x"
proof -
  obtain cols where q: "get_all_cols d (ss_tabs s) = Inr cols" "q_tables q = ss_tabs s" "q_parse q = SelectStmt (s\<lparr>ss_tabs := []\<rparr>)"
    "\<forall>c \<in> set (q_conds q). cond_resolved cols c \<and> tc_tab (lhs_col c) \<in> set (ss_tabs s) \<and>
      (if is_rhs_val c then tc_tab (rhs_col c) = '''' else tc_tab (rhs_col c) \<in> set (ss_tabs s))"
    "\<forall>x \<in> set (q_cols q). \<not> tc_star x \<longrightarrow> (\<exists>c. get_col cols x = Inr c)"
    by (rule analyzed_select_run [OF assms(1,2)])
  have ne: "'''' \<notin> set (ss_tabs s)" using assms(3) by (simp add: select_fits_def tables_fit_def)
  have "cond_fits d (ss_tabs s) c \<and> at_home (ss_tabs s) c" if c: "c \<in> set (q_conds q)" for c
  proof -
    have "cat_resolved d c" using resolved_cat [OF assms(1) q(1)] q(4) c by blast
    with c q(4) assms(3) ne show ?thesis
      by (auto simp: cond_fits_def at_home_def select_fits_def cond_tabs_def split: if_splits)
  qed
  then have "query_fits d U T q" using assms(3) q(2) by (auto simp: query_fits_def select_fits_def)
  moreover have "col_fits d (ss_tabs s) x" if x: "x \<in> set (q_cols q)" for x
  proof -
    have "\<not> tc_star x" using assms(3) x by (simp add: select_fits_def)
    then obtain c where c: "get_col cols x = Inr c" using q(5) x by blast
    from get_col_some [OF c] have "c \<in> set cols" "cm_tab c = tc_tab x" by (auto simp: find_Some_iff)
    with all_cols_tab [OF assms(1) q(1)] get_col_cat(1) [OF assms(1) q(1) c] get_col_cat(2) [OF assms(1) q(1) c]
    show ?thesis by (simp add: col_fits_def)
  qed
  ultimately show thesis using q by (intro that) auto
qed

lemma plan_select_run:
  assumes "q_parse q = SelectStmt s'" "make_one_rel d k q = Inr p" "generate_sort_plan d s' q p = Inr sp"
    "\<forall>x \<in> set (q_cols q). tc_agg x = AGG_NONE"
  shows "plan_query d k q = Inr (DMLPlan T_select
    (if ss_limit s' \<ge> 0 then LimitPlan (ProjectionPlan sp (q_cols q)) (ss_limit s') else ProjectionPlan sp (q_cols q)) '''' [] [] [])"
  using assms by (auto simp: plan_query_def do_planner_def generate_select_plan_def logical_optimization_def
    physical_optimization_def Let_def)

lemma start_projection:
  assumes "convert_plan_executor sp sv = (Inr ex, sv)" "place_sel (ex_cols ex) 0 sel = Inr (ps, len)" "delivers I E ex rs" "n < 2 ^ 31"
  shows "\<exists>root. start_select (if n \<ge> 0 then LimitPlan (ProjectionPlan sp sel) n else ProjectionPlan sp sel) sv = (Inr (sel, QueryRoot root), sv) \<and>
    delivers I E root (limited n (map (project ps len) rs))"
proof -
  obtain pe where pe: "projection_exec ex sel = Inr pe" using assms(2) by (simp add: projection_exec_def)
  have d: "delivers I E pe (map (project ps len) rs)" by (rule projection_run [OF assms(2) pe assms(3)])
  show ?thesis
  proof (cases "n \<ge> 0")
    case True
    have "delivers I E (pack_exec (\<lambda>(m, k). LimitMembers m k) limit_of (limit_exec pe n)) (take (nat n) (map (project ps len) rs))"
      by (rule pack_run [OF _ limit_run [OF d assms(4)]]) (simp split: prod.split)
    with True show ?thesis
      using assms(1) pe by (simp add: start_select_def run_simps from_db_def limited_def)
  next
    case False
    with d show ?thesis using assms(1) pe by (simp add: start_select_def run_simps from_db_def limited_def)
  qed
qed

lemma select_started:
  assumes "cols_named d" "do_analyze d (SelectStmt s) = Inr q" "T = (\<lambda>t. table_rows (table_of F st t))"
    "select_fits d (dom (map_of F)) T s q" "join_tag k = Inr tag" "reading F st sv" "sv_db sv = d"
  obtains sub root \<rho>s where "plan_query d k q = Inr (DMLPlan T_select sub '''' [] [] [])" "start_select sub sv = (Inr (q_cols q, QueryRoot root), sv)"
    "delivers (reading F st) (stopped F st) root (limited (ss_limit s) (map (out_row d (q_cols q)) \<rho>s))"
    "mset \<rho>s = mset (where_choices d T q)"
    "sorted_wrt (\<lambda>\<rho> \<sigma>. order_choice d (zip (sort_keys d (ss_tabs s) s) (sort_dirs s)) \<rho> \<sigma> \<le> 0) \<rho>s"
proof -
  let ?U = "dom (map_of F)" and ?keys = "sort_keys d (ss_tabs s) s"
  obtain cols where q: "get_all_cols d (ss_tabs s) = Inr cols" "q_tables q = ss_tabs s" "q_parse q = SelectStmt (s\<lparr>ss_tabs := []\<rparr>)"
    "query_fits d ?U T q" "\<forall>x \<in> set (q_cols q). col_fits d (ss_tabs s) x"
    by (rule select_query_fits [OF assms(1,2,4)])
  note fit = assms(4) [unfolded select_fits_def]
  obtain p where p: "make_one_rel d k q = Inr p" "tree_over d ?U (q_tables q) p" "set (tree_tabs p) = set (q_tables q)"
    "\<And>\<rho>. meets d \<rho> p \<longleftrightarrow> (\<forall>c \<in> set (q_conds q). holds_cond d \<rho> c)"
    using make_one_rel_run [OF q(4) assms(5)] by blast
  have fhs: "sv_fhs sv = F" using assms(6) by (simp add: reading_def)
  have keys: "\<forall>x \<in> set ?keys. key_fits d T (q_tables q) x" "ss_order s = None \<longrightarrow> ?keys = []"
    using fit q(2) by (simp_all add: sort_keys_def)
  obtain ex \<rho>s where ex: "convert_plan_executor (sort_plan s p ?keys) sv = (Inr ex, sv)" "ex_cols ex = tree_cols d p"
    "delivers (reading F st) (stopped F st) ex (map (row_of (tree_tabs p)) \<rho>s)" "mset \<rho>s = mset (where_choices d T q)"
    "sorted_wrt (\<lambda>\<rho> \<sigma>. order_choice d (zip ?keys (sort_dirs s)) \<rho> \<sigma> \<le> 0) \<rho>s" "\<forall>\<rho> \<in> set \<rho>s. is_choice T (tree_tabs p) \<rho>"
    by (rule sorted_tree [OF q(4) assms(3,7) fhs p(2-4) keys])
  have tf: "tables_fit d T (q_tables q)" using fit q(2) by simp
  have "\<forall>x \<in> set (q_cols q). \<exists>c. get_col (ex_cols ex) x = Inr c"
    using col_in_tree [OF tf p(2,3)] q(2,5) ex(2) by simp
  then obtain ps len where place: "place_sel (ex_cols ex) 0 (q_cols q) = Inr (ps, len)" using place_sel_total by blast
  have out: "map (project ps len) (map (row_of (tree_tabs p)) \<rho>s) = map (out_row d (q_cols q)) \<rho>s"
    using project_choice [OF tf p(2) place [unfolded ex(2)]] fit ex(6) by simp
  have "ss_limit s < 2 ^ 31" using fit by simp
  from start_projection [OF ex(1) place ex(3) this] obtain root where
    root: "start_select (if ss_limit s \<ge> 0 then LimitPlan (ProjectionPlan (sort_plan s p ?keys) (q_cols q)) (ss_limit s)
      else ProjectionPlan (sort_plan s p ?keys) (q_cols q)) sv = (Inr (q_cols q, QueryRoot root), sv)"
    "delivers (reading F st) (stopped F st) root (limited (ss_limit s) (map (out_row d (q_cols q)) \<rho>s))"
    unfolding out by blast
  have "generate_sort_plan d (s\<lparr>ss_tabs := []\<rparr>) q p = Inr (sort_plan s p ?keys)"
    using generate_sort_run [of d q cols s p] q(1,2) by (simp add: generate_sort_plan_def)
  from plan_select_run [OF q(3) p(1) this] fit have plan: "plan_query d k q = Inr (DMLPlan T_select
    (if ss_limit s \<ge> 0 then LimitPlan (ProjectionPlan (sort_plan s p ?keys) (q_cols q)) (ss_limit s)
      else ProjectionPlan (sort_plan s p ?keys) (q_cols q)) '''' [] [] [])" by simp
  show thesis by (rule that [OF plan root ex(4,5)])
qed

text \<open>
  Claim C3. A \<^verbatim>\<open>SELECT\<close> over any number of tables, end to end: what the analyzer accepts is planned and started
  without an error, and running its executors, whatever the state of the buffer pool, ends and delivers the
  selected columns of exactly those choices of one row per table that meet the conditions of the \<^verbatim>\<open>WHERE\<close>
  clause, each as often as it can be chosen, in the order of the \<^verbatim>\<open>ORDER BY\<close> keys, cut off by \<^verbatim>\<open>LIMIT\<close>; or it
  stops with an error of the pool or of the lock manager. The order in which the planner joins, the joins
  it pushes a condition to, and the blocks of the nested loop do not show.
\<close>

theorem select_answer_correct:
  assumes "cols_named d" "do_analyze d (SelectStmt s) = Inr q" "T = (\<lambda>t. table_rows (table_of F st t))"
    "select_fits d (dom (map_of F)) T s q" "join_tag k = Inr tag" "reading F st sv" "sv_db sv = d"
  shows "\<exists>sub root r sv'. plan_query d k q = Inr (DMLPlan T_select sub '''' [] [] []) \<and>
    start_select sub sv = (Inr (q_cols q, QueryRoot root), sv) \<and> collect root NoMembers sv = Some (r, sv') \<and>
    (case r of Inl e \<Rightarrow> stopped F st e
     | Inr out \<Rightarrow> reading F st sv' \<and> (\<exists>\<rho>s. out = limited (ss_limit s) (map (out_row d (q_cols q)) \<rho>s) \<and>
         mset \<rho>s = mset (where_choices d T q) \<and>
         sorted_wrt (\<lambda>\<rho> \<sigma>. order_choice d (zip (sort_keys d (ss_tabs s) s) (sort_dirs s)) \<rho> \<sigma> \<le> 0) \<rho>s))"
proof -
  obtain sub root \<rho>s where run: "plan_query d k q = Inr (DMLPlan T_select sub '''' [] [] [])" "start_select sub sv = (Inr (q_cols q, QueryRoot root), sv)"
    "delivers (reading F st) (stopped F st) root (limited (ss_limit s) (map (out_row d (q_cols q)) \<rho>s))"
    "mset \<rho>s = mset (where_choices d T q)"
    "sorted_wrt (\<lambda>\<rho> \<sigma>. order_choice d (zip (sort_keys d (ss_tabs s) s) (sort_dirs s)) \<rho> \<sigma> \<le> 0) \<rho>s"
    by (rule select_started [OF assms])
  obtain r sv' where "collect root NoMembers sv = Some (r, sv')" "case r of Inl e \<Rightarrow> stopped F st e
      | Inr out \<Rightarrow> out = limited (ss_limit s) (map (out_row d (q_cols q)) \<rho>s) \<and> reading F st sv'"
    using collect_run [OF run(3), of NoMembers] assms(6) unfolding gives_def by blast
  with run show ?thesis by (auto split: sum.splits)
qed

section \<open>An example\<close>

text \<open>
  Two tables with the columns \<open>a\<close> and \<open>s\<close>, both names for one record file that has one record, and
  \<^verbatim>\<open>SELECT t.a, u.a FROM t, u WHERE t.a = u.a AND u.a > 5 ORDER BY t.a DESC LIMIT 3\<close>.
\<close>

definition sel_cols :: "string \<Rightarrow> col_meta list" where
  "sel_cols t = [\<lparr>cm_tab = t, cm_name = ''a'', cm_type = TYPE_BIGINT, cm_len = 8, cm_offset = 0, cm_index = False\<rparr>,
     \<lparr>cm_tab = t, cm_name = ''s'', cm_type = TYPE_STRING, cm_len = 504, cm_offset = 8, cm_index = False\<rparr>]"

definition sel_db :: db_meta where
  "sel_db = \<lparr>db_name = ''db'', db_tabs = [(''t'', \<lparr>tm_name = ''t'', tm_cols = sel_cols ''t'', tm_indexes = []\<rparr>),
     (''u'', \<lparr>tm_name = ''u'', tm_cols = sel_cols ''u'', tm_indexes = []\<rparr>)]\<rparr>"

definition sel_stmt :: select_stmt where
  "sel_stmt = \<lparr>ss_cols = [plain_col ''t'' ''a'', plain_col ''u'' ''a''], ss_tabs = [''t'', ''u''],
     ss_conds = [\<lparr>be_lhs = plain_col ''t'' ''a'', be_op = SV_OP_EQ, be_rhs = ColExpr (plain_col ''u'' ''a'')\<rparr>,
       \<lparr>be_lhs = plain_col ''u'' ''a'', be_op = SV_OP_GT, be_rhs = ValueExpr (int_literal ''5'')\<rparr>],
     ss_jointree = [], ss_order = Some \<lparr>ob_cols = [plain_col ''t'' ''a''], ob_dirs = [OrderBy_DESC]\<rparr>, ss_limit = 3\<rparr>"

definition sel_query :: query where
  "sel_query = \<lparr>q_parse = SelectStmt (sel_stmt\<lparr>ss_tabs := []\<rparr>),
     q_conds = [\<lparr>lhs_col = plain_col ''t'' ''a'', cond_op = OP_EQ, is_rhs_val = False, rhs_col = plain_col ''u'' ''a'',
         rhs_val = value_new (VInt 0)\<rparr>,
       \<lparr>lhs_col = plain_col ''u'' ''a'', cond_op = OP_GT, is_rhs_val = True, rhs_col = plain_col '''' '''',
         rhs_val = \<lparr>val_of = VBigint 5, raw = Some [5, 0, 0, 0, 0, 0, 0, 0]\<rparr>\<rparr>],
     q_cols = [plain_col ''t'' ''a'', plain_col ''u'' ''a''], q_tables = [''t'', ''u''], q_sets = [], q_values = []\<rparr>"

definition sel_rows :: "string \<Rightarrow> bytes list" where
  "sel_rows t = (if t = ''t'' \<or> t = ''u'' then [replicate 512 7] else [])"

definition sel_files :: "(string \<times> rm_file) list" where
  "sel_files = [(''t'', rm_ex_file), (''u'', rm_ex_file)]"

lemma sel_analyzed: "do_analyze sel_db (SelectStmt sel_stmt) = Inr sel_query"
  by code_simp

lemma sel_named: "cols_named sel_db"
  by (simp add: cols_named_def sel_db_def sel_cols_def)

lemma sel_table_rows: "(\<lambda>t. table_rows (table_of sel_files rm_ex_pages t)) = sel_rows"
proof
  fix t
  have row: "rm_table rm_ex_file rm_ex_pages p = Some b \<longleftrightarrow> p = Rid 1 0 \<and> b = replicate 512 7" for p b
    using rm_ex_table [of p] by auto
  then have "dom (rm_table rm_ex_file rm_ex_pages) = {Rid 1 0}" by auto
  then have "table_rows (rm_table rm_ex_file rm_ex_pages) = [replicate 512 7]" using rm_ex_table by (simp add: table_rows_def)
  then show "table_rows (table_of sel_files rm_ex_pages t) = sel_rows t"
    by (simp add: table_of_def sel_files_def sel_rows_def) (simp add: table_rows_def)
qed

lemma sel_cat: "cat_col sel_db (plain_col ''t'' ''a'') = hd (sel_cols ''t'')" "cat_col sel_db (plain_col ''u'' ''a'') = hd (sel_cols ''u'')"
  "table_cols sel_db ''t'' = sel_cols ''t''" "table_cols sel_db ''u'' = sel_cols ''u''"
  by code_simp+

lemma sel_keys: "sort_keys sel_db (ss_tabs sel_stmt) sel_stmt = [plain_col ''t'' ''a'']"
  by code_simp

lemma sel_fits: "select_fits sel_db (dom (map_of sel_files)) sel_rows sel_stmt sel_query"
proof -
  have "table_len sel_db ''t'' = 512" "table_len sel_db ''u'' = 512" by code_simp+
  then have "tables_fit sel_db sel_rows (ss_tabs sel_stmt)"
    by (simp add: tables_fit_def table_fits_def sel_stmt_def sel_cat sel_cols_def typed_def sel_rows_def)
  moreover have "plain_table sel_db (dom (map_of sel_files)) t" if "t \<in> set (ss_tabs sel_stmt)" for t
    using that by (auto simp: sel_stmt_def plain_table_def sel_db_def sel_cols_def sel_files_def)
  moreover have "key_fits sel_db sel_rows (ss_tabs sel_stmt) (plain_col ''t'' ''a'')"
    by (simp add: key_fits_def sel_cat plain_col_def sel_stmt_def sel_cols_def get_col_def)
      (simp add: sel_cat [unfolded plain_col_def] sel_cols_def)
  moreover have "same_len sel_db c \<and> (\<not> is_rhs_val c \<longrightarrow> tc_tab (lhs_col c) \<noteq> tc_tab (rhs_col c))" if "c \<in> set (q_conds sel_query)" for c
    using that by (auto simp: sel_query_def same_len_def sel_cat sel_cols_def) (simp_all add: plain_col_def)
  moreover have "ss_tabs sel_stmt \<noteq> []" "ss_limit sel_stmt < 2 ^ 31" by (simp_all add: sel_stmt_def)
  moreover have "\<forall>x \<in> set (q_cols sel_query). tc_agg x = AGG_NONE \<and> \<not> tc_star x" by (simp add: sel_query_def plain_col_def)
  moreover have "sum_list (map (\<lambda>x. cm_len (cat_col sel_db x)) (q_cols sel_query)) < 2 ^ 31"
    by (simp add: sel_query_def sel_cat sel_cols_def)
  ultimately show ?thesis unfolding select_fits_def sel_keys by auto
qed

lemma sel_choices: "where_choices sel_db sel_rows sel_query = [[''t'' \<mapsto> replicate 512 7, ''u'' \<mapsto> replicate 512 7]]"
proof -
  let ?\<rho> = "[''u'' \<mapsto> replicate 512 7, ''t'' \<mapsto> replicate 512 (7 :: byte)]"
  have c: "col_of sel_db ?\<rho> (plain_col ''t'' ''a'') = replicate 8 7" "col_of sel_db ?\<rho> (plain_col ''u'' ''a'') = replicate 8 7"
    by (simp_all add: col_of_def sel_cat) (simp_all add: plain_col_def sel_cols_def col_bytes_def)
  have "compare_value (replicate 8 7) (replicate 8 7) TYPE_BIGINT 8 = 0" "compare_value (replicate 8 7) [5, 0, 0, 0, 0, 0, 0, 0] TYPE_BIGINT 8 = 1"
    by code_simp+
  then have "\<forall>x \<in> set (q_conds sel_query). holds_cond sel_db ?\<rho> x"
    by (simp add: sel_query_def holds_cond_def c sel_cat sel_cols_def Let_def)
  moreover have "choices sel_rows (q_tables sel_query) = [?\<rho>]" by (simp add: sel_query_def sel_rows_def)
  ultimately show ?thesis by (simp add: where_choices_def fun_upd_twist)
qed

theorem select_answer_correct_witness:
  "\<exists>sub root r sv'. plan_query sel_db planner_new sel_query = Inr (DMLPlan T_select sub '''' [] [] []) \<and>
    start_select sub (ddl_ex\<lparr>sv_db := sel_db, sv_store := rm_ex_pool, sv_fhs := sel_files\<rparr>) =
      (Inr ([plain_col ''t'' ''a'', plain_col ''u'' ''a''], QueryRoot root),
        ddl_ex\<lparr>sv_db := sel_db, sv_store := rm_ex_pool, sv_fhs := sel_files\<rparr>) \<and>
    collect root NoMembers (ddl_ex\<lparr>sv_db := sel_db, sv_store := rm_ex_pool, sv_fhs := sel_files\<rparr>) = Some (r, sv') \<and>
    (r = Inr [replicate 16 7] \<or> (\<exists>e. r = Inl e \<and> stopped sel_files rm_ex_pages e))"
proof -
  let ?sv = "ddl_ex\<lparr>sv_db := sel_db, sv_store := rm_ex_pool, sv_fhs := sel_files\<rparr>"
  have rd: "reading sel_files rm_ex_pages ?sv" using rm_ex_rel by (auto simp: reading_def sel_files_def)
  have tag: "join_tag planner_new = Inr T_NestLoop" by (simp add: join_tag_def planner_new_def)
  have cols: "q_cols sel_query = [plain_col ''t'' ''a'', plain_col ''u'' ''a'']" by (simp add: sel_query_def)
  have row: "out_row sel_db (q_cols sel_query) [''t'' \<mapsto> replicate 512 7, ''u'' \<mapsto> replicate 512 7] = replicate 16 7"
    by (simp add: cols out_row_def col_of_def sel_cat) (simp add: plain_col_def sel_cols_def col_bytes_def numeral_eq_Suc)
  obtain sub root r sv' where run: "plan_query sel_db planner_new sel_query = Inr (DMLPlan T_select sub '''' [] [] [])"
    "start_select sub ?sv = (Inr (q_cols sel_query, QueryRoot root), ?sv)" "collect root NoMembers ?sv = Some (r, sv')"
    and out: "case r of Inl e \<Rightarrow> stopped sel_files rm_ex_pages e
     | Inr out \<Rightarrow> reading sel_files rm_ex_pages sv' \<and>
         (\<exists>\<rho>s. out = limited (ss_limit sel_stmt) (map (out_row sel_db (q_cols sel_query)) \<rho>s) \<and>
         mset \<rho>s = mset (where_choices sel_db sel_rows sel_query) \<and> sorted_wrt (\<lambda>\<rho> \<sigma>.
           order_choice sel_db (zip (sort_keys sel_db (ss_tabs sel_stmt) sel_stmt) (sort_dirs sel_stmt)) \<rho> \<sigma> \<le> 0) \<rho>s)"
    using select_answer_correct [OF sel_named sel_analyzed sel_table_rows [symmetric] sel_fits tag rd] by auto
  have "r = Inr [replicate 16 7] \<or> (\<exists>e. r = Inl e \<and> stopped sel_files rm_ex_pages e)"
  proof (cases r)
    case (Inr res)
    with out obtain \<rho>s where "res = limited 3 (map (out_row sel_db (q_cols sel_query)) \<rho>s)"
      "mset \<rho>s = {#[''t'' \<mapsto> replicate 512 7, ''u'' \<mapsto> replicate 512 7]#}" by (auto simp: sel_choices sel_stmt_def)
    with row Inr show ?thesis by (auto simp: limited_def)
  qed (use out in auto)
  with run cols show ?thesis by auto
qed

end
