(* ===== verification/Index_Bounds.thy ===== *)
theory Index_Bounds
  imports Plan_Push
begin

text \<open>
  The bounds an index scan computes from its conditions: no record that meets the conditions has its key outside.
\<close>

section \<open>Bounds of one column\<close>

definition float_inf :: "float32 \<Rightarrow> bool" where
  "float_inf w \<longleftrightarrow> uint w mod 2 ^ 31 = 255 * 2 ^ 23"

text \<open>A value that lies between the limits \<^verbatim>\<open>set_min\<close> and \<^verbatim>\<open>set_max\<close> write.\<close>

definition value_fits :: "col_meta \<Rightarrow> bytes \<Rightarrow> bool" where
  "value_fits c v \<longleftrightarrow> typed c \<and> length v = nat (cm_len c) \<and> (cm_type c = TYPE_FLOAT \<longrightarrow> \<not> float_inf (word_of_int (le_decode v)))"

lemma length_min_max: "typed c \<Longrightarrow> length (min_bytes (cm_type c) (cm_len c)) = nat (cm_len c) \<and> length (max_bytes (cm_type c) (cm_len c)) = nat (cm_len c)"
  by (cases "cm_type c") (auto simp: typed_def min_bytes_def max_bytes_def)

lemma memcmp_zeros: "memcmp (replicate (length xs) 0) xs \<le> 0"
  by (induction xs) auto

lemma memcmp_ones: "memcmp xs (replicate (length xs) 255) \<le> 0"
proof (induction xs)
  case (Cons x xs)
  have "uint x < 2 ^ 8" using uint_lt2p [of x] by simp
  with Cons show ?case by auto
qed simp

lemma to_signed_range:
  "length bs = 4 \<Longrightarrow> - (2 ^ 31) \<le> to_signed 4 (le_decode bs) \<and> to_signed 4 (le_decode bs) \<le> 2 ^ 31 - 1"
  "length bs = 8 \<Longrightarrow> - (2 ^ 63) \<le> to_signed 8 (le_decode bs) \<and> to_signed 8 (le_decode bs) \<le> 2 ^ 63 - 1"
  using le_decode_bound [of bs] le_decode_nonneg [of bs] by (auto simp: to_signed_def)

lemma float_key_range:
  "\<not> float_nan w \<Longrightarrow> \<not> float_inf w \<Longrightarrow> - (255 * 2 ^ 23 - 1) \<le> float_key w \<and> float_key w \<le> 255 * 2 ^ 23 - 1"
proof -
  assume w: "\<not> float_nan w" "\<not> float_inf w"
  have "uint w < 2 ^ 32" using uint_lt2p [of w] by simp
  then have "uint w mod 2 ^ 31 = (if uint w < 2 ^ 31 then uint w else uint w - 2 ^ 31)"
    using uint_ge_0 [of w] by (auto simp: mod_pos_pos_trivial intro: int_mod_pos_eq [of _ _ 1])
  with w show ?thesis by (auto simp: float_nan_def float_inf_def float_key_def) (use uint_ge_0 [of w] in linarith)
qed

lemma value_limits:
  assumes "value_fits c v"
  shows "compare_value (min_bytes (cm_type c) (cm_len c)) v (cm_type c) (cm_len c) \<le> 0"
    "compare_value v (max_bytes (cm_type c) (cm_len c)) (cm_type c) (cm_len c) \<le> 0"
proof -
  have min: "to_signed 4 (le_decode (le_encode 4 (- (2 ^ 31)))) = - (2 ^ 31)" "to_signed 8 (le_decode (le_encode 8 (- (2 ^ 63)))) = - (2 ^ 63)"
    "to_signed 4 (le_decode (le_encode 4 (2 ^ 31 - 1))) = 2 ^ 31 - 1" "to_signed 8 (le_decode (le_encode 8 (2 ^ 63 - 1))) = 2 ^ 63 - 1"
    by (rule signed_roundtrip; simp add: in_signed_def)+
  have fl: "le_decode (le_encode 4 (2 ^ 31 + 255 * 2 ^ 23 - 1)) = 2 ^ 31 + 255 * 2 ^ 23 - 1" "le_decode (le_encode 4 (255 * 2 ^ 23 - 1)) = 255 * 2 ^ 23 - 1"
    by (simp_all add: le_decode_encode)
  have lim: "float_key (word_of_int (2 ^ 31 + 255 * 2 ^ 23 - 1)) = - (255 * 2 ^ 23 - 1)" "float_key (word_of_int (255 * 2 ^ 23 - 1)) = 255 * 2 ^ 23 - 1"
    by (simp_all add: float_key_def)
  have v: "length v = nat (cm_len c)" "typed c" using assms by (simp_all add: value_fits_def)
  show "compare_value (min_bytes (cm_type c) (cm_len c)) v (cm_type c) (cm_len c) \<le> 0"
  proof (cases "cm_type c")
    case TYPE_FLOAT
    then have "\<not> float_inf (word_of_int (le_decode v))" "cm_len c = 4" using assms v(2) by (auto simp: value_fits_def typed_def)
    with TYPE_FLOAT v(1) fl(1) lim(1) float_key_range [of "word_of_int (le_decode v)"] show ?thesis
      by (auto simp: min_bytes_def Let_def float_less_def)
  next
    case TYPE_STRING
    with v(1) memcmp_zeros [of v] show ?thesis by (simp add: min_bytes_def)
  qed (use v min to_signed_range [of v] in \<open>auto simp: min_bytes_def Let_def typed_def\<close>)
  show "compare_value v (max_bytes (cm_type c) (cm_len c)) (cm_type c) (cm_len c) \<le> 0"
  proof (cases "cm_type c")
    case TYPE_FLOAT
    then have "\<not> float_inf (word_of_int (le_decode v))" "cm_len c = 4" using assms v(2) by (auto simp: value_fits_def typed_def)
    with TYPE_FLOAT v(1) fl(2) lim(2) float_key_range [of "word_of_int (le_decode v)"] show ?thesis
      by (auto simp: max_bytes_def Let_def float_less_def)
  next
    case TYPE_STRING
    with v(1) memcmp_ones [of v] show ?thesis by (simp add: max_bytes_def)
  qed (use v min to_signed_range [of v] in \<open>auto simp: max_bytes_def Let_def typed_def\<close>)
qed

section \<open>What the conditions on a column say\<close>

text \<open>The value of a column meets the conditions with a constant on it.\<close>

definition meets_consts :: "condition list \<Rightarrow> col_meta \<Rightarrow> bytes \<Rightarrow> bool" where
  "meets_consts conds c v \<longleftrightarrow> (\<forall>x \<in> set conds. is_rhs_val x \<and> tc_col (lhs_col x) = cm_name c \<longrightarrow>
     length (bound_bytes x) = nat (cm_len c) \<and> eval_compare (compare_value v (bound_bytes x) (cm_type c) (cm_len c)) (cond_op x))"

lemma bound_found:
  assumes "bound_conds conds (cm_name c) ops = Some x" "meets_consts conds c v"
  shows "cond_op x \<in> ops" "length (bound_bytes x) = nat (cm_len c)"
    "eval_compare (compare_value v (bound_bytes x) (cm_type c) (cm_len c)) (cond_op x)"
proof -
  obtain i where "i < length (rev conds)" "x = rev conds ! i" "is_rhs_val x" "tc_col (lhs_col x) = cm_name c" "cond_op x \<in> ops"
    using assms(1) unfolding bound_conds_def find_Some_iff by blast
  moreover from this(1,2) have "x \<in> set conds" by (metis nth_mem set_rev)
  ultimately show "cond_op x \<in> ops" "length (bound_bytes x) = nat (cm_len c)"
    "eval_compare (compare_value v (bound_bytes x) (cm_type c) (cm_len c)) (cond_op x)"
    using assms(2) by (auto simp: meets_consts_def)
qed

text \<open>The bounds so far, with the rest of the buffers still zero.\<close>

definition built :: "bytes \<Rightarrow> bytes \<Rightarrow> nat \<Rightarrow> ix_bounds \<Rightarrow> bool" where
  "built lo hi m b \<longleftrightarrow> ib_off b = int (length lo) \<and> length hi = length lo \<and> ib_low b = lo @ replicate m 0 \<and> ib_high b = hi @ replicate m 0"

lemma patch_rest: "length x \<le> m \<Longrightarrow> patch (int (length a)) x (a @ replicate m 0) = a @ x @ replicate (m - length x) 0"
  by (simp add: patch_def)

lemma patch_again: "length x = length y \<Longrightarrow> patch (int (length a)) x (a @ y @ z) = a @ x @ z"
  by (simp add: patch_def)

text \<open>What a column adds to the bounds, and what it says about a value that meets the conditions.\<close>

definition part_below :: "bool \<Rightarrow> bool \<Rightarrow> int \<Rightarrow> bool" where
  "part_below open inc cmp \<longleftrightarrow> (if open then cmp = 0 \<and> inc else if inc then cmp \<le> 0 else cmp < 0)"

lemma bound_col_closed:
  assumes "value_fits c v" "\<not> ib_open b" "built lo hi m b" "nat (cm_len c) \<le> m"
  obtains l h b' where "bound_col conds c b = b'" "built (lo @ l) (hi @ h) (m - nat (cm_len c)) b'"
    "length l = nat (cm_len c)" "length h = nat (cm_len c)" "compare_value l v (cm_type c) (cm_len c) \<le> 0" "compare_value v h (cm_type c) (cm_len c) \<le> 0"
    "\<not> ib_open b'" "ib_low_inc b' = ib_low_inc b" "ib_high_inc b' = ib_high_inc b"
proof -
  let ?l = "min_bytes (cm_type c) (cm_len c)" and ?h = "max_bytes (cm_type c) (cm_len c)"
  have len: "length ?l = nat (cm_len c)" "length ?h = nat (cm_len c)" "0 \<le> cm_len c"
    using length_min_max [of c] assms(1) by (auto simp: value_fits_def typed_def)
  have low: "patch (ib_off b) ?l (ib_low b) = lo @ ?l @ replicate (m - nat (cm_len c)) 0"
    using patch_rest [of ?l m lo] assms(3,4) len(1) by (simp add: built_def)
  have high: "patch (ib_off b) ?h (ib_high b) = hi @ ?h @ replicate (m - nat (cm_len c)) 0"
    using patch_rest [of ?h m hi] assms(3,4) len(2) by (simp add: built_def)
  show thesis
    by (rule that [of "bound_col conds c b" ?l ?h])
      (use low high len value_limits [OF assms(1)] assms(2,3) in \<open>simp_all add: bound_col_def built_def Let_def\<close>)
qed

lemma bound_col_open:
  assumes "value_fits c v" "meets_consts conds c v" "ib_open b" "ib_low_inc b" "ib_high_inc b" "built lo hi m b" "nat (cm_len c) \<le> m"
  obtains l h b' where "bound_col conds c b = b'" "built (lo @ l) (hi @ h) (m - nat (cm_len c)) b'"
    "length l = nat (cm_len c)" "length h = nat (cm_len c)"
    "part_below (ib_open b') (ib_low_inc b') (compare_value l v (cm_type c) (cm_len c))"
    "part_below (ib_open b') (ib_high_inc b') (compare_value v h (cm_type c) (cm_len c))"
proof -
  let ?n = "nat (cm_len c)" and ?mn = "min_bytes (cm_type c) (cm_len c)" and ?mx = "max_bytes (cm_type c) (cm_len c)"
  have len: "length ?mn = ?n" "length ?mx = ?n" "0 \<le> cm_len c"
    using length_min_max [of c] assms(1) by (auto simp: value_fits_def typed_def)
  have off: "ib_off b = int (length lo)" "length hi = length lo" using assms(6) by (simp_all add: built_def)
  have low: "patch (ib_off b) ?mn (ib_low b) = lo @ ?mn @ replicate (m - ?n) 0"
    using patch_rest [of ?mn m lo] assms(6,7) len(1) by (simp add: built_def)
  have high: "patch (ib_off b) ?mx (ib_high b) = hi @ ?mx @ replicate (m - ?n) 0"
    using patch_rest [of ?mx m hi] assms(6,7) len(2) by (simp add: built_def)
  have plow: "patch (ib_off b) x (lo @ ?mn @ z) = lo @ x @ z" if "length x = ?n" for x z
    using patch_again [of x ?mn lo z] that len(1) off by simp
  have phigh: "patch (ib_off b) x (hi @ ?mx @ z) = hi @ x @ z" if "length x = ?n" for x z
    using patch_again [of x ?mx hi z] that len(2) off by simp
  let ?cmp = "\<lambda>x y. compare_value x y (cm_type c) (cm_len c)"
  note limits = value_limits [OF assms(1)]
  let ?b1 = "b\<lparr>ib_low := lo @ ?mn @ replicate (m - ?n) 0, ib_high := hi @ ?mx @ replicate (m - ?n) 0, ib_off := ib_off b + cm_len c\<rparr>"
  show thesis
  proof (cases "bound_conds conds (cm_name c) {OP_EQ}")
    case (Some x)
    note x = bound_found [OF Some assms(2)]
    have "bound_col conds c b = ?b1\<lparr>ib_low := lo @ bound_bytes x @ replicate (m - ?n) 0, ib_high := hi @ bound_bytes x @ replicate (m - ?n) 0\<rparr>"
      using assms(3) x(2) by (simp add: bound_col_def Let_def low high plow phigh Some)
    moreover have "?cmp (bound_bytes x) v = 0 \<and> ?cmp v (bound_bytes x) = 0" using x(1,3) compare_flip [of "bound_bytes x" v] by auto
    ultimately show ?thesis
      using assms(3-5) off len x(2) by (intro that [of _ "bound_bytes x" "bound_bytes x"]) (auto simp: built_def part_below_def)
  next
    case None
    define l where "l = (case bound_conds conds (cm_name c) {OP_GT, OP_GE} of None \<Rightarrow> ?mn | Some x \<Rightarrow> bound_bytes x)"
    define h where "h = (case bound_conds conds (cm_name c) {OP_LT, OP_LE} of None \<Rightarrow> ?mx | Some x \<Rightarrow> bound_bytes x)"
    define li where "li = (case bound_conds conds (cm_name c) {OP_GT, OP_GE} of None \<Rightarrow> True | Some x \<Rightarrow> cond_op x = OP_GE)"
    define hi' where "hi' = (case bound_conds conds (cm_name c) {OP_LT, OP_LE} of None \<Rightarrow> True | Some x \<Rightarrow> cond_op x = OP_LE)"
    have l: "length l = ?n" "part_below False li (?cmp l v)"
    proof -
      show "length l = ?n" using bound_found(2) [OF _ assms(2)] len(1) by (auto simp: l_def split: option.split)
      show "part_below False li (?cmp l v)"
        using bound_found [OF _ assms(2)] limits(1) compare_flip [of _ v]
        by (fastforce simp: l_def li_def part_below_def split: option.split)
    qed
    have h: "length h = ?n" "part_below False hi' (?cmp v h)"
    proof -
      show "length h = ?n" using bound_found(2) [OF _ assms(2)] len(2) by (auto simp: h_def split: option.split)
      show "part_below False hi' (?cmp v h)"
        using bound_found [OF _ assms(2)] limits(2)
        by (fastforce simp: h_def hi'_def part_below_def split: option.split)
    qed
    have "bound_col conds c b = ?b1\<lparr>ib_low := lo @ l @ replicate (m - ?n) 0, ib_high := hi @ h @ replicate (m - ?n) 0,
        ib_low_inc := li, ib_high_inc := hi', ib_open := False\<rparr>"
      using assms(3-5) bound_found(2) [OF _ assms(2)]
      by (simp add: bound_col_def Let_def low high plow phigh None l_def h_def li_def hi'_def split: option.split)
    with l h off len show ?thesis by (intro that [of _ l h]) (auto simp: built_def part_below_def)
  qed
qed

section \<open>All columns of the index\<close>

abbreviation col_types_of :: "col_meta list \<Rightarrow> (coltype \<times> int) list" where
  "col_types_of cs \<equiv> map (\<lambda>c. (cm_type c, cm_len c)) cs"

definition parts_of :: "bytes \<Rightarrow> col_meta list \<Rightarrow> bytes" where
  "parts_of r cs = concat (map (col_bytes r) cs)"

lemma ix_compare_Cons:
  assumes "length x = nat (cm_len c)" "length y = nat (cm_len c)"
  shows "ix_compare (x @ xs) (y @ ys) (col_types_of (c # cs)) =
    (let res = compare_value x y (cm_type c) (cm_len c) in if res \<noteq> 0 then res else ix_compare xs ys (col_types_of cs))"
  using assms by (simp add: Let_def)

text \<open>\<open>below inc x\<close>: a comparison that an inclusive or an exclusive bound has with a key inside.\<close>

definition below :: "bool \<Rightarrow> int \<Rightarrow> bool" where
  "below inc x \<longleftrightarrow> (if inc then x \<le> 0 else x < 0)"

lemma bounds_closed:
  assumes "\<forall>c \<in> set cs. value_fits c (col_bytes r c)" "\<not> ib_open b" "built lo hi m b" "nat (sum_list (map cm_len cs)) \<le> m"
  shows "\<exists>l h b'. fold (bound_col conds) cs b = b' \<and> built (lo @ l) (hi @ h) (m - nat (sum_list (map cm_len cs))) b' \<and>
    ib_low_inc b' = ib_low_inc b \<and> ib_high_inc b' = ib_high_inc b \<and>
    ix_compare l (parts_of r cs) (col_types_of cs) \<le> 0 \<and> ix_compare (parts_of r cs) h (col_types_of cs) \<le> 0"
  using assms
proof (induction cs arbitrary: b lo hi m)
  case Nil
  then show ?case by (intro exI [of _ "[]"] exI [of _ b]) (simp add: parts_of_def)
next
  case (Cons c cs)
  have v: "value_fits c (col_bytes r c)" "0 \<le> cm_len c" using Cons.prems(1) by (auto simp: value_fits_def typed_def)
  have pos: "0 \<le> sum_list (map cm_len cs)" using Cons.prems(1) by (auto simp: value_fits_def typed_def intro!: sum_list_nonneg)
  then have n: "nat (cm_len c) \<le> m" "nat (sum_list (map cm_len cs)) \<le> m - nat (cm_len c)" using Cons.prems(4) v(2) by auto
  obtain l h b1 where b1: "bound_col conds c b = b1" "built (lo @ l) (hi @ h) (m - nat (cm_len c)) b1" "length l = nat (cm_len c)" "length h = nat (cm_len c)"
    "compare_value l (col_bytes r c) (cm_type c) (cm_len c) \<le> 0" "compare_value (col_bytes r c) h (cm_type c) (cm_len c) \<le> 0"
    "\<not> ib_open b1" "ib_low_inc b1 = ib_low_inc b" "ib_high_inc b1 = ib_high_inc b"
    by (rule bound_col_closed [OF v(1) Cons.prems(2,3) n(1)])
  have len: "length (col_bytes r c) = nat (cm_len c)" using v(1) by (simp add: value_fits_def)
  have "\<forall>c \<in> set cs. value_fits c (col_bytes r c)" using Cons.prems(1) by simp
  from Cons.IH [OF this b1(7,2) n(2)] obtain l' h' b' where b': "fold (bound_col conds) cs b1 = b'"
    "built ((lo @ l) @ l') ((hi @ h) @ h') (m - nat (cm_len c) - nat (sum_list (map cm_len cs))) b'"
    "ib_low_inc b' = ib_low_inc b1" "ib_high_inc b' = ib_high_inc b1"
    "ix_compare l' (parts_of r cs) (col_types_of cs) \<le> 0" "ix_compare (parts_of r cs) h' (col_types_of cs) \<le> 0" by blast
  have p: "parts_of r (c # cs) = col_bytes r c @ parts_of r cs" by (simp add: parts_of_def)
  have "ix_compare (l @ l') (parts_of r (c # cs)) (col_types_of (c # cs)) \<le> 0" "ix_compare (parts_of r (c # cs)) (h @ h') (col_types_of (c # cs)) \<le> 0"
    unfolding p ix_compare_Cons [OF b1(3) len] ix_compare_Cons [OF len b1(4)] using b1(5,6) b'(5,6) by (auto simp: Let_def)
  with b1 b' pos v(2) show ?case
    by (intro exI [of _ "l @ l'"] exI [of _ "h @ h'"] exI [of _ b']) (simp add: nat_add_distrib)
qed

lemma bounds_open:
  assumes "\<forall>c \<in> set cs. value_fits c (col_bytes r c) \<and> meets_consts conds c (col_bytes r c)" "ib_open b" "ib_low_inc b" "ib_high_inc b"
    "built lo hi m b" "nat (sum_list (map cm_len cs)) \<le> m"
  shows "\<exists>l h b'. fold (bound_col conds) cs b = b' \<and> built (lo @ l) (hi @ h) (m - nat (sum_list (map cm_len cs))) b' \<and>
    below (ib_low_inc b') (ix_compare l (parts_of r cs) (col_types_of cs)) \<and> below (ib_high_inc b') (ix_compare (parts_of r cs) h (col_types_of cs))"
  using assms
proof (induction cs arbitrary: b lo hi m)
  case Nil
  then show ?case by (intro exI [of _ "[]"] exI [of _ b]) (simp add: parts_of_def below_def)
next
  case (Cons c cs)
  have v: "value_fits c (col_bytes r c)" "meets_consts conds c (col_bytes r c)" "0 \<le> cm_len c"
    using Cons.prems(1) by (auto simp: value_fits_def typed_def)
  have pos: "0 \<le> sum_list (map cm_len cs)" using Cons.prems(1) by (auto simp: value_fits_def typed_def intro!: sum_list_nonneg)
  then have n: "nat (cm_len c) \<le> m" "nat (sum_list (map cm_len cs)) \<le> m - nat (cm_len c)" using Cons.prems(6) v(3) by auto
  have sum: "m - nat (cm_len c) - nat (sum_list (map cm_len cs)) = m - nat (sum_list (map cm_len (c # cs)))" using pos v(3) by (simp add: nat_add_distrib)
  obtain l h b1 where b1: "bound_col conds c b = b1" "built (lo @ l) (hi @ h) (m - nat (cm_len c)) b1" "length l = nat (cm_len c)" "length h = nat (cm_len c)"
    "part_below (ib_open b1) (ib_low_inc b1) (compare_value l (col_bytes r c) (cm_type c) (cm_len c))"
    "part_below (ib_open b1) (ib_high_inc b1) (compare_value (col_bytes r c) h (cm_type c) (cm_len c))"
    by (rule bound_col_open [OF v(1,2) Cons.prems(2-5) n(1)])
  have len: "length (col_bytes r c) = nat (cm_len c)" using v(1) by (simp add: value_fits_def)
  have p: "parts_of r (c # cs) = col_bytes r c @ parts_of r cs" by (simp add: parts_of_def)
  note cmp = ix_compare_Cons [OF b1(3) len, of _ "parts_of r cs" cs] ix_compare_Cons [OF len b1(4), of "parts_of r cs" _ cs]
  have rest: "\<forall>c \<in> set cs. value_fits c (col_bytes r c) \<and> meets_consts conds c (col_bytes r c)" "\<forall>c \<in> set cs. value_fits c (col_bytes r c)"
    using Cons.prems(1) by simp_all
  show ?case
  proof (cases "ib_open b1")
    case True
    then have "ib_low_inc b1" "ib_high_inc b1" using b1(5,6) by (simp_all add: part_below_def)
    from Cons.IH [OF rest(1) True this b1(2) n(2)] obtain l' h' b' where b': "fold (bound_col conds) cs b1 = b'"
      "built ((lo @ l) @ l') ((hi @ h) @ h') (m - nat (cm_len c) - nat (sum_list (map cm_len cs))) b'"
      "below (ib_low_inc b') (ix_compare l' (parts_of r cs) (col_types_of cs))" "below (ib_high_inc b') (ix_compare (parts_of r cs) h' (col_types_of cs))" by blast
    have "below (ib_low_inc b') (ix_compare (l @ l') (parts_of r (c # cs)) (col_types_of (c # cs)))"
      "below (ib_high_inc b') (ix_compare (parts_of r (c # cs)) (h @ h') (col_types_of (c # cs)))"
      unfolding p cmp using b1(5,6) b'(3,4) True by (auto simp: Let_def part_below_def)
    with b1(1) b'(1,2) show ?thesis unfolding sum by (intro exI [of _ "l @ l'"] exI [of _ "h @ h'"] exI [of _ b']) simp
  next
    case False
    obtain l' h' b' where b': "fold (bound_col conds) cs b1 = b'"
      "built ((lo @ l) @ l') ((hi @ h) @ h') (m - nat (cm_len c) - nat (sum_list (map cm_len cs))) b'"
      "ib_low_inc b' = ib_low_inc b1" "ib_high_inc b' = ib_high_inc b1"
      "ix_compare l' (parts_of r cs) (col_types_of cs) \<le> 0" "ix_compare (parts_of r cs) h' (col_types_of cs) \<le> 0"
      using bounds_closed [OF rest(2) False b1(2) n(2), of conds] by blast
    have "below (ib_low_inc b') (ix_compare (l @ l') (parts_of r (c # cs)) (col_types_of (c # cs)))"
      "below (ib_high_inc b') (ix_compare (parts_of r (c # cs)) (h @ h') (col_types_of (c # cs)))"
      unfolding p cmp using b1(5,6) b'(3-6) False by (auto simp: Let_def part_below_def below_def)
    with b1(1) b'(1,2) show ?thesis unfolding sum by (intro exI [of _ "l @ l'"] exI [of _ "h @ h'"] exI [of _ b']) simp
  qed
qed

section \<open>The bounds cover the answer\<close>

lemma raw_bytes_length: "typed c \<Longrightarrow> val_type v = cm_type c \<Longrightarrow> raw_bytes v (cm_len c) = Inr b \<Longrightarrow> length b = nat (cm_len c)"
  by (cases v) (auto simp: typed_def split: if_splits)

lemma eval_conds_each: "eval_conds cols conds r = Inr True \<Longrightarrow> x \<in> set conds \<Longrightarrow> eval_cond cols x r = Inr True"
  by (induction conds) (auto simp: eThen_eq_Inr split: if_splits)

lemma conds_meet_consts:
  assumes "eval_conds cols conds r = Inr True" "get_col cols (plain_col t (cm_name c)) = Inr c" "value_fits c (col_bytes r c)"
    "\<forall>x \<in> set conds. is_rhs_val x \<longrightarrow> tc_tab (lhs_col x) = t \<and> cond_resolved cols x"
  shows "meets_consts conds c (col_bytes r c)"
  unfolding meets_consts_def
proof (intro ballI impI)
  fix x assume x: "x \<in> set conds" "is_rhs_val x \<and> tc_col (lhs_col x) = cm_name c"
  have ty: "typed c" using assms(3) by (simp add: value_fits_def)
  have "tc_tab (lhs_col x) = t" "cond_resolved cols x" using assms(4) x by auto
  then have col: "get_col cols (lhs_col x) = Inr c" using assms(2) x(2) by (auto simp: get_col_def plain_col_def split: option.splits)
  then obtain b where b: "val_type (val_of (rhs_val x)) = cm_type c" "raw (rhs_val x) = Some b" "raw_bytes (val_of (rhs_val x)) (cm_len c) = Inr b"
    using \<open>cond_resolved cols x\<close> x(2) by (auto simp: cond_resolved_def)
  have "eval_cond cols x r = Inr True" by (rule eval_conds_each [OF assms(1) x(1)])
  then have "eval_compare (compare_value (drop (nat (cm_offset c)) r) b (cm_type c) (cm_len c)) (cond_op x)"
    using x(2) col b(2) by (simp add: eval_cond_def)
  then show "length (bound_bytes x) = nat (cm_len c) \<and>
      eval_compare (compare_value (col_bytes r c) (bound_bytes x) (cm_type c) (cm_len c)) (cond_op x)"
    using raw_bytes_length [OF ty b(1,3)] b(2) compare_take_left [OF ty] by (simp add: bound_bytes_def col_bytes_def)
qed

text \<open>
  Claim C20. An index scan loses nothing: the key of every record that meets the conditions lies inside the bounds the
  executor computes from them, whatever operators and types the conditions have and however many columns of the
  index they restrict, at an inclusive bound or strictly inside an exclusive one. (An infinity in an unrestricted \<^verbatim>\<open>FLOAT\<close>
  column is the exception.) No bound follows a null pointer.
\<close>

theorem index_bounds_cover:
  assumes "eval_conds cols conds r = Inr True"
    "\<forall>c \<in> set (im_cols im). get_col cols (plain_col t (cm_name c)) = Inr c \<and> value_fits c (col_bytes r c)"
    "\<forall>x \<in> set conds. is_rhs_val x \<longrightarrow> tc_tab (lhs_col x) = t \<and> cond_resolved cols x"
    "im_num im = int (length (im_cols im))" "im_tot_len im = sum_list (map cm_len (im_cols im))"
  shows "constants_there im conds \<and>
    below (ib_low_inc (index_bounds im conds)) (ix_compare (ib_low (index_bounds im conds)) (index_key im r) (col_types_of (im_cols im))) \<and>
    below (ib_high_inc (index_bounds im conds)) (ix_compare (index_key im r) (ib_high (index_bounds im conds)) (col_types_of (im_cols im)))"
proof -
  let ?n = "nat (sum_list (map cm_len (im_cols im)))"
  let ?b = "\<lparr>ib_low = replicate ?n 0, ib_high = replicate ?n 0, ib_low_inc = True, ib_high_inc = True, ib_open = True, ib_off = 0\<rparr>"
  have key: "index_key im r = parts_of r (im_cols im)" using assms(4) by (simp add: index_key_def parts_of_def)
  have fit: "\<forall>c \<in> set (im_cols im). value_fits c (col_bytes r c) \<and> meets_consts conds c (col_bytes r c)"
    using assms(2) conds_meet_consts [OF assms(1) _ _ assms(3)] by blast
  have "built [] [] ?n ?b" by (simp add: built_def)
  from bounds_open [OF fit _ _ _ this] obtain l h b' where "fold (bound_col conds) (im_cols im) ?b = b'" "built l h 0 b'"
    "below (ib_low_inc b') (ix_compare l (parts_of r (im_cols im)) (col_types_of (im_cols im)))"
    "below (ib_high_inc b') (ix_compare (parts_of r (im_cols im)) h (col_types_of (im_cols im)))" by auto
  then have "below (ib_low_inc (index_bounds im conds)) (ix_compare (ib_low (index_bounds im conds)) (index_key im r) (col_types_of (im_cols im)))"
    "below (ib_high_inc (index_bounds im conds)) (ix_compare (index_key im r) (ib_high (index_bounds im conds)) (col_types_of (im_cols im)))"
    unfolding key index_bounds_def assms(5) by (simp_all add: Let_def built_def)
  moreover have "constants_there im conds" using assms(3) by (auto simp: constants_there_def cond_resolved_def)
  ultimately show ?thesis by blast
qed

text \<open>\<^verbatim>\<open>a > 5 AND a <= 600000000000000000\<close> with an index on \<open>a\<close>.\<close>

definition ib_ex_index :: index_meta where
  "ib_ex_index = \<lparr>im_tab = ''t'', im_tot_len = 8, im_num = 1, im_cols = scan_ex_cols\<rparr>"

definition ib_ex_conds :: "condition list" where
  "ib_ex_conds = [\<lparr>lhs_col = plain_col ''t'' ''a'', cond_op = OP_GT, is_rhs_val = True, rhs_col = plain_col '''' '''',
       rhs_val = \<lparr>val_of = VBigint 5, raw = Some (le_encode 8 5)\<rparr>\<rparr>,
     \<lparr>lhs_col = plain_col ''t'' ''a'', cond_op = OP_LE, is_rhs_val = True, rhs_col = plain_col '''' '''',
       rhs_val = \<lparr>val_of = VBigint 600000000000000000, raw = Some (le_encode 8 600000000000000000)\<rparr>\<rparr>]"

theorem index_bounds_cover_witness:
  "ib_low (index_bounds ib_ex_index ib_ex_conds) = [5, 0, 0, 0, 0, 0, 0, 0] \<and>
    below False (ix_compare [5, 0, 0, 0, 0, 0, 0, 0] (replicate 8 7) [(TYPE_BIGINT, 8)])"
proof -
  have run: "eval_conds scan_ex_cols ib_ex_conds (replicate 8 7) = Inr True" "ib_low (index_bounds ib_ex_index ib_ex_conds) = [5, 0, 0, 0, 0, 0, 0, 0]"
    "ib_low_inc (index_bounds ib_ex_index ib_ex_conds) = False" "index_key ib_ex_index (replicate 8 7) = replicate 8 7"
    by code_simp+
  have "\<forall>c \<in> set (im_cols ib_ex_index). get_col scan_ex_cols (plain_col ''t'' (cm_name c)) = Inr c \<and> value_fits c (col_bytes (replicate 8 7) c)"
    by (simp add: ib_ex_index_def scan_ex_cols_def get_col_def plain_col_def value_fits_def typed_def col_bytes_def)
  moreover have "\<forall>x \<in> set ib_ex_conds. is_rhs_val x \<longrightarrow> tc_tab (lhs_col x) = ''t'' \<and> cond_resolved scan_ex_cols x"
    by (simp add: ib_ex_conds_def cond_resolved_def scan_ex_cols_def get_col_def plain_col_def)
  moreover have "im_num ib_ex_index = int (length (im_cols ib_ex_index))" "im_tot_len ib_ex_index = sum_list (map cm_len (im_cols ib_ex_index))"
    "col_types_of (im_cols ib_ex_index) = [(TYPE_BIGINT, 8)]"
    by (simp_all add: ib_ex_index_def scan_ex_cols_def)
  ultimately show ?thesis using index_bounds_cover [OF run(1), of ib_ex_index "''t''"] run(2-4) by auto
qed

end
