(* ===== verification/Where_Rows.thy ===== *)
theory Where_Rows
  imports Plan_Correct
begin

text \<open>
  \<^verbatim>\<open>UPDATE\<close> and \<^verbatim>\<open>DELETE\<close> from the statement on: the portal first collects the positions of the rows that meet the
  \<^verbatim>\<open>WHERE\<close> clause, which changes no row, and then the executor changes exactly these rows.
\<close>

section \<open>What a scan leaves alone\<close>

definition resting :: "server \<Rightarrow> server \<Rightarrow> bool" where
  "resting sv0 sv \<longleftrightarrow> sv_db sv = sv_db sv0 \<and> txn_id (sv_txn sv) = txn_id (sv_txn sv0) \<and> write_set (sv_txn sv) = write_set (sv_txn sv0) \<and>
     txn_prev_lsn (sv_txn sv) = txn_prev_lsn (sv_txn sv0) \<and> global_lsn (st_log (sv_store sv)) = global_lsn (st_log (sv_store sv0)) \<and>
     locks_known sv"

abbreviation at_rest :: "(string \<times> rm_file) list \<Rightarrow> (page_id \<rightharpoonup> bytes) \<Rightarrow> server \<Rightarrow> server \<Rightarrow> bool" where
  "at_rest F st sv0 sv \<equiv> reading F st sv \<and> resting sv0 sv"

lemma gives_also:
  assumes "gives I E m Q" "\<And>s a s'. I s \<Longrightarrow> K s \<Longrightarrow> m s = Some (Inr a, s') \<Longrightarrow> K s'"
  shows "gives (\<lambda>s. I s \<and> K s) E m Q"
proof (rule givesI)
  fix s assume "I s \<and> K s"
  with givesD [OF assms(1), of s] assms(2) [of s] show "(\<exists>e s'. m s = Some (Inl e, s') \<and> E e) \<or> (\<exists>a s'. m s = Some (Inr a, s') \<and> Q a \<and> I s' \<and> K s')"
    by blast
qed

lemma resting_table:
  assumes "reading F st sv" "resting sv0 sv" "on_table False t m sv = (Inr a, sv')"
    "\<And>fh s' fh' x'. map_of F t = Some fh \<Longrightarrow> rm_rel (sv_store sv, fh, None) st \<Longrightarrow> m (sv_store sv, fh, None) = (Inr a, s', fh', x') \<Longrightarrow>
      x' = None \<and> files_keep (table_pages fh) (sv_store sv) s'"
  shows "resting sv0 sv'"
proof -
  obtain fh where fh: "map_of (sv_fhs sv) t = Some fh" using assms(3) by (auto simp: on_table_def split: option.splits)
  then have rel: "map_of F t = Some fh" "rm_rel (sv_store sv, fh, None) st" using assms(1) by (auto simp: reading_def)
  obtain s' fh' x' where m: "m (sv_store sv, fh, None) = (Inr a, s', fh', x')"
    and sv': "sv' = sv\<lparr>sv_store := s', sv_fhs := AList.update t fh' (sv_fhs sv), sv_txn := (case x' of None \<Rightarrow> sv_txn sv | Some x \<Rightarrow> x)\<rparr>"
    using assms(3) fh by (cases "m (sv_store sv, fh, None)") (auto simp: on_table_def)
  from assms(4) [OF rel m] assms(2) show ?thesis by (auto simp: sv' resting_def locks_known_def files_keep_def)
qed

lemma resting_lock:
  assumes "resting sv0 sv" "on_locks (lock_shared_on_table fd) sv = (Inr a, sv')"
  shows "resting sv0 sv'"
proof -
  obtain x' tab' where a: "acquire_lock (table_lock fd) SHARED (sv_txn sv, sv_locks sv) = (Inr a, x', tab')"
    and sv': "sv' = sv\<lparr>sv_txn := x', sv_locks := tab'\<rparr>"
    using assms(2) by (cases "acquire_lock (table_lock fd) SHARED (sv_txn sv, sv_locks sv)") (auto simp: on_locks_def lock_shared_on_table_def zoom_def)
  have known: "locks_known sv" using assms(1) by (simp add: resting_def)
  then have tq: "table_queues_ok (sv_locks sv)" by (simp add: locks_known_def)
  note run = acquire_run [OF tq a] and same = acquire_same [OF a]
  have "i \<in> set (lock_set x')" if "holds_lock tab' (txn_id (sv_txn sv)) i" for i
    using that run known by (auto simp: locks_known_def)
  with run same assms(1) show ?thesis by (auto simp: sv' resting_def locks_known_def)
qed

lemma rest_record:
  "map_of F t = Some fh \<Longrightarrow> rm_table fh st p = Some b \<Longrightarrow>
    gives (at_rest F st sv0) (stopped F st) (pdo (on_table False t (get_record p))) (\<lambda>x. x = b)"
proof (rule gives_also [OF reading_record], assumption, assumption)
  fix s a s' assume fh: "map_of F t = Some fh" "rm_table fh st p = Some b" and s: "reading F st s" "resting sv0 s"
    "pdo (on_table False t (get_record p)) s = Some (Inr a, s')"
  show "resting sv0 s'"
    by (rule resting_table [OF s(1,2)]) (use s(3) fh get_record_value in \<open>fastforce simp: pdo_def\<close>)+
qed

lemma rest_step:
  assumes "rids_left F st t sc (p # ps)"
  shows "gives (at_rest F st sv0) (stopped F st) (rs_next (rm_rec_scan t) sc) (\<lambda>sc'. rids_left F st t sc' ps)"
proof (rule gives_also [OF rm.scan_next [OF assms]])
  fix s a s' assume s: "reading F st s" "resting sv0 s" "rs_next (rm_rec_scan t) sc s = Some (Inr a, s')"
  from assms show "resting sv0 s'"
  proof (cases rule: rids_left_cases)
    case (some fh)
    have slot: "1 \<le> page_no sc" "-1 \<le> slot_no sc" "slot_no sc < num_records_per_page (file_hdr fh)"
      using dom_table [OF some(3)] by (auto simp: slot_ok_def)
    show ?thesis
    proof (rule resting_table [OF s(1,2)])
      show "on_table False t (\<lambda>(s, fh, x). scan_next (num_pages (file_hdr fh)) (page_no sc) (slot_no sc) (s, fh, x)) s = (Inr a, s')"
        using s(3) by (simp add: rm_rec_scan_def pdo_def)
      fix fh2 s2 fh' x' assume n: "map_of F t = Some fh2" "rm_rel (sv_store s, fh2, None) st"
        "(\<lambda>(s, fh, x). scan_next (num_pages (file_hdr fh)) (page_no sc) (slot_no sc) (s, fh, x)) (sv_store s, fh2, None) = (Inr a, s2, fh', x')"
      then have "fh2 = fh" using some(1) by simp
      with n slot scan_next_run [OF n(2) refl, of "page_no sc" "slot_no sc"] scan_next_keep [OF n(2) slot(1)]
      show "x' = None \<and> files_keep (table_pages fh2) (sv_store s) s2" by auto
    qed
  qed simp
qed

interpretation rest: record_scan "rm_rec_scan t" t "table_of F st t" "at_rest F st sv0" "stopped F st" "rids_left F st t" for F st t sv0
proof
  show "rids_left F st t sc [] \<Longrightarrow> at_rest F st sv0 sv \<Longrightarrow> rs_end (rm_rec_scan t) sc sv" for sc sv
    using rm.scan_ended by blast
  show "rids_left F st t sc (p # ps) \<Longrightarrow> at_rest F st sv0 sv \<Longrightarrow> \<not> rs_end (rm_rec_scan t) sc sv" for sc sv p ps
    using rm.scan_going by blast
  show "rids_left F st t sc (p # ps) \<Longrightarrow> gives (at_rest F st sv0) (stopped F st) (rs_rid (rm_rec_scan t) sc) (\<lambda>x. x = p)" for sc p ps
    by (rule gives_also [OF rm.scan_rid]) (auto simp: rm_rec_scan_def pdo_def ret_def)
  show "rids_left F st t sc (p # ps) \<Longrightarrow> gives (at_rest F st sv0) (stopped F st) (rs_next (rm_rec_scan t) sc) (\<lambda>sc'. rids_left F st t sc' ps)"
    for sc p ps by (rule rest_step)
  show "rids_left F st t sc (p # ps) \<Longrightarrow>
      gives (at_rest F st sv0) (stopped F st) (pdo (on_table False t (get_record p))) (\<lambda>b. table_of F st t p = Some b)" for sc p ps
  proof (erule rids_left_cases)
    fix fh assume fh: "map_of F t = Some fh" "p # ps \<noteq> []" "hd (p # ps) = sc" "sc \<in> dom (rm_table fh st)"
    then obtain b where b: "rm_table fh st p = Some b" by auto
    from rest_record [OF fh(1) b] show ?thesis by (rule gives_conseq) (simp add: table_of_def fh b)
  qed simp
qed

section \<open>The positions a scan collects\<close>

abbreviation scan_node :: "string \<Rightarrow> condition list \<Rightarrow> col_meta list \<Rightarrow> members executor" where
  "scan_node t conds cols \<equiv> pack_exec (\<lambda>(r, sc). ScanMembers r sc) scan_of (seq_scan t conds cols)"

lemma pThen_assoc: "pThen (pThen m k) h = pThen m (\<lambda>a. pThen (k a) h)"
  for m :: "(server, 'a) pop" and k :: "'a \<Rightarrow> (server, 'b) pop" and h :: "'b \<Rightarrow> (server, 'c) pop"
  by (rule ext) (auto simp: pThen_def split: Option.bind_splits sum.splits prod.splits)

lemma pThen_ret: "pThen (pdo (ret a)) k = k a" for k :: "'a \<Rightarrow> (server, 'b) pop"
  by (rule ext) (simp add: pThen_def pdo_def ret_def)

lemma scan_node_calls:
  "ex_end (scan_node t conds cols) (ScanMembers r (Some sc)) = rs_end (rm_rec_scan t) sc"
  "pThen (ex_next (scan_node t conds cols) (ScanMembers r (Some sc))) h =
     pThen (rs_next (rm_rec_scan t) sc) (\<lambda>sc.
       pThen (find_next_valid (rm_rec_scan t) t cols conds r sc) (\<lambda>c. h (ScanMembers (fst c) (Some (snd c)))))"
  "pThen (ex_begin (scan_node t conds cols) NoMembers) h =
     pThen (pdo (table_fd t)) (\<lambda>fd. pThen (pdo (on_locks (lock_shared_on_table fd))) (\<lambda>_.
       pThen (pdo (on_table False t scan_first)) (\<lambda>sc.
       pThen (find_next_valid (rm_rec_scan t) t cols conds (Rid 0 0) sc) (\<lambda>c. h (ScanMembers (fst c) (Some (snd c)))))))"
  for h :: "members \<Rightarrow> (server, 'a) pop"
  by (simp_all add: pack_exec_def seq_scan_def pThen_assoc pThen_ret split_beta fun_eq_iff)

lemma collect_step:
  "collect_rids (scan_node t conds cols) acc (ScanMembers r (Some sc)) = (\<lambda>sv.
     if rs_end (rm_rec_scan t) sc sv then pdo (ret acc) sv
     else pThen (rs_next (rm_rec_scan t) sc) (\<lambda>sc. pThen (find_next_valid (rm_rec_scan t) t cols conds r sc) (\<lambda>c.
       collect_rids (scan_node t conds cols) (acc @ [r]) (ScanMembers (fst c) (Some (snd c))))) sv)"
proof
  fix sv
  show "collect_rids (scan_node t conds cols) acc (ScanMembers r (Some sc)) sv = (if rs_end (rm_rec_scan t) sc sv then pdo (ret acc) sv
     else pThen (rs_next (rm_rec_scan t) sc) (\<lambda>sc. pThen (find_next_valid (rm_rec_scan t) t cols conds r sc) (\<lambda>c.
       collect_rids (scan_node t conds cols) (acc @ [r]) (ScanMembers (fst c) (Some (snd c))))) sv)"
    by (subst collect_rids.simps) (simp only: scan_node_calls member_rid.simps)
qed

lemma collect_left:
  assumes "\<forall>p b. table_of F st t p = Some b \<longrightarrow> eval_conds cols conds b = Inr (P b)"
    "rids_left F st t sc (dropWhile (\<lambda>p. \<not> P (the (table_of F st t p))) ps)"
    "dropWhile (\<lambda>p. \<not> P (the (table_of F st t p))) ps \<noteq> [] \<longrightarrow> r = hd (dropWhile (\<lambda>p. \<not> P (the (table_of F st t p))) ps)"
  shows "gives (at_rest F st sv0) (stopped F st) (collect_rids (scan_node t conds cols) acc (ScanMembers r (Some sc)))
    (\<lambda>out. out = acc @ filter (\<lambda>p. P (the (table_of F st t p))) ps)"
  using assms(2,3)
proof (induction ps arbitrary: r sc acc rule: length_induct)
  case (1 ps)
  let ?P = "\<lambda>p. P (the (table_of F st t p))"
  show ?case
  proof (cases "dropWhile (\<lambda>p. \<not> ?P p) ps")
    case Nil
    then have "filter ?P ps = []" by (simp add: filter_empty_conv)
    moreover have "rids_left F st t sc []" using 1(2) Nil by simp
    ultimately show ?thesis unfolding collect_step [of t conds cols acc r sc]
      by (intro gives_if [where v = True] gives_ret) (auto intro: rest.scan_ended)
  next
    case (Cons p qs)
    have left: "rids_left F st t sc (p # qs)" and r: "r = p" using 1(2,3) Cons by simp_all
    have less: "length qs < length ps" using length_dropWhile_le [of "\<lambda>p. \<not> ?P p" ps] Cons by simp
    have split: "filter ?P ps = p # filter ?P qs"
    proof -
      have "filter ?P (takeWhile (\<lambda>p. \<not> ?P p) ps) = []" by (auto simp: filter_empty_conv dest: set_takeWhileD)
      moreover have "?P p" using hd_dropWhile [of "\<lambda>p. \<not> ?P p" ps] Cons by auto
      moreover have "ps = takeWhile (\<lambda>p. \<not> ?P p) ps @ p # qs" by (metis Cons takeWhile_dropWhile_id)
      ultimately show ?thesis by (metis append_Nil filter.simps(2) filter_append)
    qed
    show ?thesis unfolding collect_step [of t conds cols acc r sc]
    proof (rule gives_if [where v = False])
      show "at_rest F st sv0 sv \<Longrightarrow> rs_end (rm_rec_scan t) sc sv = False" for sv using rest.scan_going [OF left] by simp
      show "gives (at_rest F st sv0) (stopped F st) (
          pThen (rs_next (rm_rec_scan t) sc) (\<lambda>sc. pThen (find_next_valid (rm_rec_scan t) t cols conds r sc) (\<lambda>c.
            collect_rids (scan_node t conds cols) (acc @ [r]) (ScanMembers (fst c) (Some (snd c))))))
          (\<lambda>out. out = acc @ filter ?P ps)"
      proof (rule gives_then [OF rest.scan_next [OF left]], rule gives_then [OF rest.find_next_run [OF _ assms(1)]], assumption, clarify)
        fix r' sc' assume a: "rids_left F st t sc' (dropWhile (\<lambda>p. \<not> ?P p) qs)"
          "dropWhile (\<lambda>p. \<not> ?P p) qs \<noteq> [] \<longrightarrow> r' = hd (dropWhile (\<lambda>p. \<not> ?P p) qs)"
        from 1(1) less a have "gives (at_rest F st sv0) (stopped F st) (collect_rids (scan_node t conds cols) (acc @ [r]) (ScanMembers r' (Some sc')))
            (\<lambda>out. out = (acc @ [r]) @ filter ?P qs)" by blast
        then show "gives (at_rest F st sv0) (stopped F st) (collect_rids (scan_node t conds cols) (acc @ [r]) (ScanMembers (fst (r', sc')) (Some (snd (r', sc')))))
            (\<lambda>out. out = acc @ filter ?P ps)" by (simp add: split r)
      qed
    qed simp
  qed
qed

text \<open>The portal's loop over a scan of a whole table.\<close>

lemma first_left:
  assumes "map_of F t = Some fh"
  shows "gives (at_rest F st sv0) (stopped F st) (pdo (on_table False t scan_first))
    (\<lambda>sc. rids_left F st t sc (sorted_list_of_set (dom (table_of F st t))))"
proof (rule gives_also)
  have tab: "table_of F st t = rm_table fh st" using assms by (simp add: table_of_def)
  show "gives (reading F st) (stopped F st) (pdo (on_table False t scan_first))
      (\<lambda>sc. rids_left F st t sc (sorted_list_of_set (dom (table_of F st t))))"
  proof (rule reading_table [OF assms])
    fix s assume "rm_rel (s, fh, None) st"
    from scan_first_run [OF this] show "(\<exists>e x. scan_first (s, fh, None) = (Inl e, x) \<and> scan_failed fh st e) \<or>
      (\<exists>a s'. scan_first (s, fh, None) = (Inr a, s', fh, None) \<and> rm_rel (s', fh, None) st \<and> files_keep (table_pages fh) s s' \<and>
        rids_left F st t a (sorted_list_of_set (dom (table_of F st t))))"
      unfolding tab using assms by (fastforce simp: rids_left_def next_rid_def)
  qed
  fix s a s' assume s: "reading F st s" "resting sv0 s" "pdo (on_table False t scan_first) s = Some (Inr a, s')"
  show "resting sv0 s'"
    by (rule resting_table [OF s(1,2)]) (use s(3) scan_first_run in \<open>fastforce simp: pdo_def\<close>)+
qed

lemma collect_scan:
  assumes "map_of F t = Some fh" "\<forall>p b. table_of F st t p = Some b \<longrightarrow> eval_conds cols conds b = Inr (P b)"
  shows "gives (at_rest F st sv0) (stopped F st) (pThen (ex_begin (scan_node t conds cols) NoMembers) (collect_rids (scan_node t conds cols) []))
    (\<lambda>out. out = filter (\<lambda>p. P (the (table_of F st t p))) (sorted_list_of_set (dom (table_of F st t))))"
proof -
  have fd: "gives (at_rest F st sv0) (stopped F st) (pdo (table_fd t)) (\<lambda>_. True)"
    by (rule givesI) (auto simp: pdo_def table_fd_def reading_def assms(1))
  have lock: "gives (at_rest F st sv0) (stopped F st) (pdo (on_locks (lock_shared_on_table fd))) (\<lambda>_. True)" for fd
    by (rule gives_also [OF reading_locks], rule resting_lock) (auto simp: pdo_def)
  show ?thesis unfolding scan_node_calls
  proof (rule gives_then [OF fd], rule gives_then [OF lock], rule gives_then [OF first_left [OF assms(1)]],
      rule gives_then [OF rest.find_next_run [OF _ assms(2)]], assumption, clarify)
    fix sc r' sc'
    assume "rids_left F st t sc' (dropWhile (\<lambda>p. \<not> P (the (table_of F st t p))) (sorted_list_of_set (dom (table_of F st t))))"
      "dropWhile (\<lambda>p. \<not> P (the (table_of F st t p))) (sorted_list_of_set (dom (table_of F st t))) \<noteq> [] \<longrightarrow>
        r' = hd (dropWhile (\<lambda>p. \<not> P (the (table_of F st t p))) (sorted_list_of_set (dom (table_of F st t))))"
    from collect_left [OF assms(2) this, of sv0 "[]"]
    show "gives (at_rest F st sv0) (stopped F st) (collect_rids (scan_node t conds cols) [] (ScanMembers (fst (r', sc')) (Some (snd (r', sc')))))
        (\<lambda>out. out = filter (\<lambda>p. P (the (table_of F st t p))) (sorted_list_of_set (dom (table_of F st t))))" by simp
  qed
qed

section \<open>The rows of a WHERE clause\<close>

definition meets_where :: "db_meta \<Rightarrow> string \<Rightarrow> query \<Rightarrow> bytes \<Rightarrow> bool" where
  "meets_where d t q b \<longleftrightarrow> (\<forall>c \<in> set (q_conds q). holds_cond d [t \<mapsto> b] c)"

definition where_rids :: "db_meta \<Rightarrow> string \<Rightarrow> query \<Rightarrow> (rid \<rightharpoonup> bytes) \<Rightarrow> rid list" where
  "where_rids d t q T = filter (\<lambda>p. meets_where d t q (the (T p))) (sorted_list_of_set (dom T))"

definition where_fits :: "db_meta \<Rightarrow> string \<Rightarrow> query \<Rightarrow> (rid \<rightharpoonup> bytes) \<Rightarrow> bool" where
  "where_fits d t q T \<longleftrightarrow> table_fits d (\<lambda>_. table_rows T) t \<and> table_len d t < 2 ^ 31 \<and> table_cols d t \<noteq> [] \<and> (\<forall>c \<in> set (q_conds q). same_len d c)"

lemma where_rids_are: "finite (dom T) \<Longrightarrow> distinct (where_rids d t q T) \<and> set (where_rids d t q T) = {p \<in> dom T. meets_where d t q (the (T p))}"
  by (auto simp: where_rids_def)

lemma where_rids_length:
  assumes "finite (dom T)"
  shows "length (where_rids d t q T) \<le> card (dom T)"
  using length_filter_le [of _ "sorted_list_of_set (dom T)"] assms by (simp add: where_rids_def)

lemma analyzed_where:
  assumes "cols_named d" "check_clause d [t] conds0 = Inr (q_conds q)" "get_clause es = Inr conds0" "where_fits d t q T" "T p = Some b" "finite (dom T)"
  shows "eval_conds (table_cols d t) (q_conds q) b = Inr (meets_where d t q b)"
proof -
  obtain cols where cols: "get_all_cols d [t] = Inr cols" using assms(2) by (auto simp: check_clause_def eThen_eq_Inr)
  then have c: "cols = table_cols d t" by (auto simp: get_all_cols_Inr list_all2_Cons1 table_cols_def)
  have conds: "cond_resolved (table_cols d t) x \<and> cond_tabs x \<subseteq> {t}" if "x \<in> set (q_conds q)" for x
    using analyzed_conds [OF assms(1) cols assms(3,2) that] by (auto simp: c cond_tabs_def split: if_splits)
  let ?p = "ScanPlan T_SeqScan t (q_conds q) []"
  have "b \<in> set (table_rows T)" using assms(5,6) set_table_rows [OF assms(6)] by (auto simp: ran_def)
  then have "is_choice (\<lambda>_. table_rows T) (tree_tabs ?p) [t \<mapsto> b]" by (simp add: is_choice_def)
  from eval_conds_holds [where U = "{t}" and p = ?p, OF _ _ _ _ this, of d "q_conds q"] conds assms(4)
  show ?thesis by (simp add: where_fits_def meets_where_def row_of_def)
qed

lemma scan_where:
  assumes "cols_named d" "check_clause d [t] conds0 = Inr (q_conds q)" "get_clause es = Inr conds0"
    "where_fits d t q (table_of F st t)" "map_of F t = Some fh" "map_of (db_tabs d) t = Some tab" "tm_indexes tab = []" "sv_db sv0 = d"
  shows "table_scan d t (q_conds q) = Inr (ScanPlan T_SeqScan t (q_conds q) [])"
    "gives (at_rest F st sv0) (stopped F st) (scan_rids (ScanPlan T_SeqScan t (q_conds q) [])) (\<lambda>out. out = where_rids d t q (table_of F st t))"
proof -
  let ?T = "table_of F st t"
  have cols: "table_cols d t = tm_cols tab" by (simp add: table_cols_def assms(6))
  have "plain_table d {t} t" using assms(4,6,7) cols by (simp add: plain_table_def where_fits_def)
  from table_scan_run [OF this] show "table_scan d t (q_conds q) = Inr (ScanPlan T_SeqScan t (q_conds q) [])" .
  have fin: "finite (dom ?T)" using assms(5) finite_table by (simp add: table_of_def)
  have ev: "\<forall>p b. ?T p = Some b \<longrightarrow> eval_conds (tm_cols tab) (q_conds q) b = Inr (meets_where d t q b)"
    using analyzed_where [OF assms(1-4) _ fin] by (simp add: cols)
  have conv: "gives (at_rest F st sv0) (stopped F st) (pdo (convert_plan_executor (ScanPlan T_SeqScan t (q_conds q) [])))
      (\<lambda>ex. ex = scan_node t (q_conds q) (tm_cols tab))"
  proof (rule givesI)
    fix s assume s: "at_rest F st sv0 s"
    have "seq_scan_new t (q_conds q) s = (Inr (seq_scan t (q_conds q) (tm_cols tab)), s)"
      by (rule seq_scan_new_run) (use s assms(4-6,8) cols in \<open>auto simp: reading_def resting_def where_fits_def\<close>)
    with s show "(\<exists>e s'. pdo (convert_plan_executor (ScanPlan T_SeqScan t (q_conds q) [])) s = Some (Inl e, s') \<and> stopped F st e) \<or>
      (\<exists>a s'. pdo (convert_plan_executor (ScanPlan T_SeqScan t (q_conds q) [])) s = Some (Inr a, s') \<and>
        a = scan_node t (q_conds q) (tm_cols tab) \<and> at_rest F st sv0 s')"
      by (simp add: pdo_def run_simps)
  qed
  show "gives (at_rest F st sv0) (stopped F st) (scan_rids (ScanPlan T_SeqScan t (q_conds q) [])) (\<lambda>out. out = where_rids d t q ?T)"
    unfolding scan_rids_def where_rids_def
    by (rule gives_then_eq [OF conv], rule collect_scan [OF assms(5) ev])
qed

section \<open>What the scan leaves to the change\<close>

lemma rest_ready:
  assumes "ready t n k (table_of F st t) sv" "at_rest F st sv sv1" "sv_fhs sv = F"
  shows "ready t n k (table_of F st t) sv1"
proof -
  obtain fh tab where "map_of F t = Some fh" "nat (record_size (file_hdr fh)) = n" "get_table t (sv_db sv) = Inr tab" "tm_indexes tab = []"
    "num_pages (file_hdr fh) + int k < 2 ^ 19" "length (rm_tab_name fh) < 2 ^ 30"
    using assms(1,3) by (auto simp: ready_def)
  with assms show ?thesis unfolding ready_def
    by (intro conjI exI [of _ fh] exI [of _ st] exI [of _ tab]) (auto simp: reading_def resting_def table_of_def ready_def)
qed

text \<open>An operation that comes to an end, be it with an error.\<close>

definition returns :: "(server, 'a) pop \<Rightarrow> bool" where
  "returns m \<longleftrightarrow> (\<forall>s. m s \<noteq> None)"

lemma returns_pdo: "returns (pdo m)"
  by (simp add: returns_def pdo_def)

lemma returns_plift: "returns (plift e)"
  by (simp add: returns_def plift_def split: sum.split)

lemma returns_pThen: "returns m \<Longrightarrow> (\<And>a. returns (k a)) \<Longrightarrow> returns (pThen m k)"
  unfolding returns_def pThen_def
  by (auto split: Option.bind_splits sum.splits simp del: not_None_eq)

lemmas returns_intros = returns_pdo returns_plift returns_pThen

lemma each_row_returns: "(\<And>p. returns (f p)) \<Longrightarrow> returns (each_row f ps)"
  by (induction ps) (auto intro: returns_intros)

lemma delete_exec_returns:
  assumes "get_table t (sv_db sv) = Inr tab" "tm_indexes tab = []"
  shows "delete_exec t ps sv \<noteq> None"
proof -
  have "returns (pThen (pdo (lock_table_exclusive t)) (\<lambda>_. each_row (delete_row t tab) ps))"
    by (intro returns_intros each_row_returns) (simp add: delete_row_def assms(2) returns_intros)
  then show ?thesis unfolding delete_exec_def pThen_def [of "pdo (dml_new t)"] using assms(1)
    by (cases "dml_new t sv") (auto simp: pdo_def returns_def dest!: dml_new_run split: sum.split)
qed

lemma update_exec_returns:
  assumes "get_table t (sv_db sv) = Inr tab" "tm_indexes tab = []"
  shows "update_exec t cls ps sv \<noteq> None"
proof -
  have "returns (pThen (pdo (lock_table_exclusive t)) (\<lambda>_. pThen (plift (prepare_sets tab cls)) (\<lambda>sets.
      pThen (each_index (\<lambda>im. check_keys t sets im ps {} ps) (tm_indexes tab)) (\<lambda>_. each_row (update_row t tab sets) ps))))"
    by (intro returns_intros each_row_returns) (simp_all add: update_row_def Let_def assms(2) returns_intros)
  then show ?thesis unfolding update_exec_def pThen_def [of "pdo (dml_new t)"] using assms(1)
    by (cases "dml_new t sv") (auto simp: pdo_def returns_def dest!: dml_new_run split: sum.split)
qed

section \<open>UPDATE and DELETE, end to end\<close>

lemma where_started:
  assumes "cols_named d" "check_clause d [t] conds0 = Inr (q_conds q)" "get_clause es = Inr conds0" "sv_db sv = d"
    "T = table_of F st t" "reading F st sv" "where_fits d t q T" "ready t n (card (dom T) + k) T sv" "locks_known sv"
  obtains tab r sv1 where "table_scan d t (q_conds q) = Inr (ScanPlan T_SeqScan t (q_conds q) [])"
    "pThen (scan_rids (ScanPlan T_SeqScan t (q_conds q) [])) (\<lambda>rids. pThen (pdo (dml_new t)) (\<lambda>_. pdo (ret (f rids)))) sv = Some (r, sv1)"
    "finite (dom T)" "map_of (db_tabs d) t = Some tab" "tm_indexes tab = []"
    "(\<exists>e. r = Inl e \<and> stopped F st e) \<or>
      (r = Inr (f (where_rids d t q T)) \<and> sv_db sv1 = d \<and> write_set (sv_txn sv1) = write_set (sv_txn sv) \<and> locks_known sv1 \<and>
       ready t n (length (where_rids d t q T) + k) T sv1)"
proof -
  obtain fh tab where t: "map_of F t = Some fh" "map_of (db_tabs d) t = Some tab" "tm_indexes tab = []"
    using assms(4,6,8) by (auto simp: ready_def reading_def get_table_def split: option.splits)
  have fhs: "sv_fhs sv = F" using assms(6) by (simp add: reading_def)
  have fin: "finite (dom T)" using t(1) finite_table by (simp add: assms(5) table_of_def)
  note s = scan_where [OF assms(1-3) _ t assms(4), of st, folded assms(5), OF assms(7)]
  have at: "at_rest F st sv sv" using assms(6,9) by (simp add: resting_def)
  from givesD [OF s(2) at] show thesis
  proof (elim disjE exE conjE)
    fix e s' assume "scan_rids (ScanPlan T_SeqScan t (q_conds q) []) sv = Some (Inl e, s')" "stopped F st e"
    then show thesis by (intro that [of "Inl e" s' tab] s(1) fin t) (simp_all add: pThen_def)
  next
    fix a s' assume g: "scan_rids (ScanPlan T_SeqScan t (q_conds q) []) sv = Some (Inr a, s')" "a = where_rids d t q T"
      "reading F st s'" "resting sv s'"
    then have db: "sv_db s' = d" "sv_fhs s' = F" by (simp_all add: reading_def resting_def assms(4))
    then have new: "dml_new t s' = (Inr tab, s')"
      using t by (simp add: dml_new_def from_db_def get_table_def table_fd_def run_simps)
    have "ready t n (card (dom T) + k) T s'" using rest_ready [OF _ _ fhs] assms(5,8) g(3,4) by blast
    then have "ready t n (length (where_rids d t q T) + k) T s'"
      by (rule ready_less) (use where_rids_length [OF fin] in simp)
    with g db new show thesis
      by (intro that [of "Inr (f (where_rids d t q T))" s' tab] s(1) fin t) (simp_all add: pThen_def pdo_def ret_def resting_def)
  qed
qed

text \<open>
  Claim C4. \<^verbatim>\<open>DELETE ... WHERE\<close>, end to end on a table without indexes: the statement, analysed and
  planned, either stops with an error of a read or a lock, or the portal collects the rows that meet the
  \<^verbatim>\<open>WHERE\<close> clause, in the order of their positions; and when the delete executor then succeeds, exactly those
  rows are gone and the write set has the old bytes of each.
\<close>

theorem delete_where_exact:
  assumes "cols_named d" "do_analyze d (DeleteStmt t es) = Inr q" "sv_db sv = d" "T = table_of F st t" "reading F st sv"
    "where_fits d t q T" "ready t n (card (dom T) + k) T sv" "locks_known sv"
  shows "\<exists>p r sv1. plan_query d pl q = Inr p \<and> portal_start p sv = Some (r, sv1) \<and>
    (case r of Inl e \<Rightarrow> stopped F st e
     | Inr ps \<Rightarrow> ps_root ps = DeleteRoot t (where_rids d t q T) \<and>
        (\<exists>r' sv'. run_dml (ps_root ps) sv1 = Some (r', sv') \<and>
          (r' = Inr () \<longrightarrow> ready t n k (T |` {p. \<not> meets_where d t q (the (T p))}) sv' \<and>
            write_set (sv_txn sv') = write_set (sv_txn sv) @ delete_records t T (where_rids d t q T))))"
proof -
  obtain conds0 where a: "get_clause es = Inr conds0" "check_clause d [t] conds0 = Inr (q_conds q)" "q_parse q = DeleteStmt t es"
    using assms(2) by (auto simp: eThen_eq_Inr query_new_def)
  let ?p = "DMLPlan T_Delete (ScanPlan T_SeqScan t (q_conds q) []) t [] (q_conds q) []"
  let ?f = "\<lambda>rids. \<lparr>ps_tag = PORTAL_DML_WITHOUT_SELECT, ps_cols = [], ps_root = DeleteRoot t rids, ps_plan = ?p\<rparr>"
  let ?ps = "where_rids d t q T"
  obtain tab r sv1 where s: "table_scan d t (q_conds q) = Inr (ScanPlan T_SeqScan t (q_conds q) [])"
    "pThen (scan_rids (ScanPlan T_SeqScan t (q_conds q) [])) (\<lambda>rids. pThen (pdo (dml_new t)) (\<lambda>_. pdo (ret (?f rids)))) sv = Some (r, sv1)"
    "finite (dom T)" "map_of (db_tabs d) t = Some tab" "tm_indexes tab = []"
    "(\<exists>e. r = Inl e \<and> stopped F st e) \<or>
      (r = Inr (?f ?ps) \<and> sv_db sv1 = d \<and> write_set (sv_txn sv1) = write_set (sv_txn sv) \<and> locks_known sv1 \<and>
       ready t n (length ?ps + k) T sv1)"
    by (rule where_started [OF assms(1) a(2,1) assms(3-8)])
  have plan: "plan_query d pl q = Inr ?p" by (simp add: plan_query_def do_planner_def a(3) s(1))
  have start: "portal_start ?p sv = Some (r, sv1)" using s(2) by (simp add: Let_def)
  from s(6) show ?thesis
  proof (elim disjE exE conjE)
    fix e assume "r = Inl e" "stopped F st e"
    with plan start show ?thesis by auto
  next
    assume g: "r = Inr (?f ?ps)" "sv_db sv1 = d" "write_set (sv_txn sv1) = write_set (sv_txn sv)" "locks_known sv1" "ready t n (length ?ps + k) T sv1"
    obtain r' sv' where x: "delete_exec t ?ps sv1 = Some (r', sv')"
      using delete_exec_returns [of t sv1 tab ?ps] g(2) s(4,5) by (auto simp: get_table_def)
    have "ready t n k (T |` (- set ?ps)) sv' \<and> write_set (sv_txn sv') = write_set (sv_txn sv1) @ delete_records t T ?ps" if "r' = Inr ()"
      using delete_statement [OF g(5,4) _ _ x [unfolded that]] where_rids_are [OF s(3)] by auto
    moreover have "T |` (- set ?ps) = T |` {p. \<not> meets_where d t q (the (T p))}"
      using where_rids_are [OF s(3)] by (auto simp: restrict_map_def fun_eq_iff)
    ultimately show ?thesis using plan start x g(1,3) by (intro exI [of _ ?p] exI [of _ r] exI [of _ sv1]) (simp add: run_dml_def)
  qed
qed

text \<open>
  Claim C5. \<^verbatim>\<open>UPDATE ... WHERE\<close>, end to end on a table without indexes: the rows that meet the
  \<^verbatim>\<open>WHERE\<close> clause, as they were before the statement, get the assigned values in the assigned columns and
  keep their other bytes, and no other row changes; the write set still undoes the whole transaction.
\<close>

theorem update_where_exact:
  assumes "cols_named d" "do_analyze d (UpdateStmt t cls es) = Inr q" "sv_db sv = d" "T = table_of F st t" "reading F st sv"
    "where_fits d t q T" "in_txn t n (card (dom T) + k) T0 T sv" "cols_fit (table_cols d t) n"
  shows "\<exists>p r sv1. plan_query d pl q = Inr p \<and> portal_start p sv = Some (r, sv1) \<and>
    (case r of Inl e \<Rightarrow> stopped F st e
     | Inr ps \<Rightarrow> ps_root ps = UpdateRoot t (q_sets q) (where_rids d t q T) \<and>
        (\<exists>r' sv'. run_dml (ps_root ps) sv1 = Some (r', sv') \<and>
          (r' = Inr () \<longrightarrow> (\<exists>tab sets. get_table t d = Inr tab \<and> prepare_sets tab (q_sets q) = Inr sets \<and>
            in_txn t n k T0 (\<lambda>p. map_option (\<lambda>b. if meets_where d t q b then apply_sets sets b else b) (T p)) sv'))))"
proof -
  obtain conds0 where a: "get_clause es = Inr conds0" "check_clause d [t] conds0 = Inr (q_conds q)" "q_parse q = UpdateStmt t cls es"
    using assms(2) by (auto simp: eThen_eq_Inr query_new_def)
  let ?p = "DMLPlan T_Update (ScanPlan T_SeqScan t (q_conds q) []) t [] (q_conds q) (q_sets q)"
  let ?f = "\<lambda>rids. \<lparr>ps_tag = PORTAL_DML_WITHOUT_SELECT, ps_cols = [], ps_root = UpdateRoot t (q_sets q) rids, ps_plan = ?p\<rparr>"
  let ?ps = "where_rids d t q T"
  have r0: "ready t n (card (dom T) + k) T sv" "locks_known sv" "wrote n t T0 (write_set (sv_txn sv)) T" using assms(7) by (simp_all add: in_txn_def)
  obtain tab r sv1 where s: "table_scan d t (q_conds q) = Inr (ScanPlan T_SeqScan t (q_conds q) [])"
    "pThen (scan_rids (ScanPlan T_SeqScan t (q_conds q) [])) (\<lambda>rids. pThen (pdo (dml_new t)) (\<lambda>_. pdo (ret (?f rids)))) sv = Some (r, sv1)"
    "finite (dom T)" "map_of (db_tabs d) t = Some tab" "tm_indexes tab = []"
    "(\<exists>e. r = Inl e \<and> stopped F st e) \<or>
      (r = Inr (?f ?ps) \<and> sv_db sv1 = d \<and> write_set (sv_txn sv1) = write_set (sv_txn sv) \<and> locks_known sv1 \<and>
       ready t n (length ?ps + k) T sv1)"
    by (rule where_started [OF assms(1) a(2,1) assms(3-6) r0(1,2)])
  have plan: "plan_query d pl q = Inr ?p" by (simp add: plan_query_def do_planner_def a(3) s(1))
  have start: "portal_start ?p sv = Some (r, sv1)" using s(2) by (simp add: Let_def)
  from s(6) show ?thesis
  proof (elim disjE exE conjE)
    fix e assume "r = Inl e" "stopped F st e"
    with plan start show ?thesis by auto
  next
    assume g: "r = Inr (?f ?ps)" "sv_db sv1 = d" "write_set (sv_txn sv1) = write_set (sv_txn sv)" "locks_known sv1" "ready t n (length ?ps + k) T sv1"
    have tab: "get_table t d = Inr tab" "table_cols d t = tm_cols tab" using s(4) by (simp_all add: get_table_def table_cols_def)
    obtain r' sv' where x: "update_exec t (q_sets q) ?ps sv1 = Some (r', sv')"
      using update_exec_returns [of t sv1 tab "q_sets q" ?ps] g(2) s(5) tab by auto
    have "in_txn t n (length ?ps + k) T0 T sv1" using g(3-5) r0(3) by (simp add: in_txn_def)
    note upd = update_exec_run [OF this, of tab "q_sets q" sv']
    have rows: "change_rows f ?ps T = (\<lambda>p. map_option (\<lambda>b. if meets_where d t q b then f b else b) (T p))" for f
    proof
      show "change_rows f ?ps T p = map_option (\<lambda>b. if meets_where d t q b then f b else b) (T p)" for p
        using where_rids_are [OF s(3), of d t q] by (cases "T p") (auto simp: change_rows_def)
    qed
    have "\<exists>tab sets. get_table t d = Inr tab \<and> prepare_sets tab (q_sets q) = Inr sets \<and>
        in_txn t n k T0 (\<lambda>p. map_option (\<lambda>b. if meets_where d t q b then apply_sets sets b else b) (T p)) sv'" if "r' = Inr ()"
      using upd x [unfolded that] g(2) tab assms(8) where_rids_are [OF s(3), of d t q] unfolding rows by auto
    with plan start x g(1) show ?thesis by (intro exI [of _ ?p] exI [of _ r] exI [of _ sv1]) (simp add: run_dml_def)
  qed
qed

section \<open>An example\<close>

text \<open>\<^verbatim>\<open>DELETE FROM t WHERE c <> 'x'\<close> and \<^verbatim>\<open>UPDATE t SET c = 'x' WHERE c <> 'x'\<close> on the table of one row.\<close>

definition not_x :: "binary_expr list" where
  "not_x = [\<lparr>be_lhs = plain_col '''' ''c'', be_op = SV_OP_NE, be_rhs = ValueExpr (StringLit ''x'')\<rparr>]"

definition not_x_cond :: condition where
  "not_x_cond = \<lparr>lhs_col = plain_col ''t'' ''c'', cond_op = OP_NE, is_rhs_val = True, rhs_col = plain_col '''' '''',
     rhs_val = \<lparr>val_of = VStr ''x'', raw = Some ex_row\<rparr>\<rparr>"

definition where_db :: db_meta where
  "where_db = \<lparr>db_name = ''db'', db_tabs = [(''t'', ex_tab)]\<rparr>"

definition delete_query :: query where
  "delete_query = \<lparr>q_parse = DeleteStmt ''t'' not_x, q_conds = [not_x_cond], q_cols = [], q_tables = [], q_sets = [], q_values = []\<rparr>"

definition set_x :: set_expr where
  "set_x = \<lparr>se_col = ''c'', se_val = StringLit ''x''\<rparr>"

definition update_query :: query where
  "update_query = \<lparr>q_parse = UpdateStmt ''t'' [set_x] not_x, q_conds = [not_x_cond], q_cols = [], q_tables = [''t''], q_sets = [ex_set],
     q_values = []\<rparr>"

lemma where_analyzed:
  "do_analyze where_db (DeleteStmt ''t'' not_x) = Inr delete_query"
  "do_analyze where_db (UpdateStmt ''t'' [set_x] not_x) = Inr update_query"
  by code_simp+

lemma where_cols: "table_cols where_db ''t'' = [ex_col]" "cat_col where_db (plain_col ''t'' ''c'') = ex_col" "cols_named where_db"
  by (simp_all add: table_cols_def where_db_def ex_tab_def cat_col_def cols_named_def plain_col_def ex_col_def)

lemma where_example:
  assumes "q_conds q = [not_x_cond]"
  shows "where_fits where_db ''t'' q ex_rows" "meets_where where_db ''t'' q (replicate 512 7)" "where_rids where_db ''t'' q ex_rows = [Rid 1 0]"
proof -
  have dom: "dom ex_rows = {Rid 1 0}" by (simp add: ex_rows_def)
  then have rows: "table_rows ex_rows = [replicate 512 7]" by (simp add: table_rows_def) (simp add: ex_rows_def)
  have len: "table_len where_db ''t'' = 512" by code_simp
  show "where_fits where_db ''t'' q ex_rows"
    by (simp add: where_fits_def table_fits_def rows len where_cols assms same_len_def not_x_cond_def) (simp add: ex_col_def typed_def)
  have "compare_value (replicate 512 7) ex_row TYPE_STRING 512 \<noteq> 0" by code_simp
  then show meets: "meets_where where_db ''t'' q (replicate 512 7)"
    by (simp add: meets_where_def assms holds_cond_def not_x_cond_def col_of_def where_cols)
      (simp add: plain_col_def ex_col_def col_bytes_def)
  show "where_rids where_db ''t'' q ex_rows = [Rid 1 0]" using meets by (simp add: where_rids_def dom) (simp add: ex_rows_def)
qed

lemma where_server:
  "sv_db dml_ex = where_db" "ex_rows = table_of [(''t'', rm_ex_file)] rm_ex_pages ''t''" "reading [(''t'', rm_ex_file)] rm_ex_pages dml_ex"
  using rm_ex_rel by (simp_all add: dml_ex_def where_db_def table_of_def reading_def fun_eq_iff rm_ex_table ex_rows_def)

theorem delete_where_exact_witness:
  "\<exists>p r sv1. plan_query where_db planner_new delete_query = Inr p \<and> portal_start p dml_ex = Some (r, sv1) \<and>
    (case r of Inl e \<Rightarrow> stopped [(''t'', rm_ex_file)] rm_ex_pages e
     | Inr ps \<Rightarrow> ps_root ps = DeleteRoot ''t'' [Rid 1 0] \<and> (\<exists>r' sv'. run_dml (ps_root ps) sv1 = Some (r', sv') \<and>
         (r' \<noteq> Inr () \<or> ready ''t'' 512 7 Map.empty sv')))"
proof -
  have q: "q_conds delete_query = [not_x_cond]" by (simp add: delete_query_def)
  note w = where_example [OF q]
  have "ready ''t'' 512 (card (dom ex_rows) + 7) ex_rows dml_ex" using dml_ex_ready [of 8] by (simp add: ex_rows_def)
  from delete_where_exact [OF where_cols(3) where_analyzed(1) where_server w(1) this dml_ex_facts(3), of planner_new]
  obtain p r sv1 where run: "plan_query where_db planner_new delete_query = Inr p" "portal_start p dml_ex = Some (r, sv1)"
    "case r of Inl e \<Rightarrow> stopped [(''t'', rm_ex_file)] rm_ex_pages e
     | Inr ps \<Rightarrow> ps_root ps = DeleteRoot ''t'' (where_rids where_db ''t'' delete_query ex_rows) \<and>
        (\<exists>r' sv'. run_dml (ps_root ps) sv1 = Some (r', sv') \<and>
          (r' = Inr () \<longrightarrow> ready ''t'' 512 7 (ex_rows |` {p. \<not> meets_where where_db ''t'' delete_query (the (ex_rows p))}) sv' \<and>
            write_set (sv_txn sv') = write_set (sv_txn dml_ex) @ delete_records ''t'' ex_rows (where_rids where_db ''t'' delete_query ex_rows)))"
    by blast
  moreover have "ex_rows |` {p. \<not> meets_where where_db ''t'' delete_query (the (ex_rows p))} = Map.empty"
    using w(2) by (auto simp: restrict_map_def ex_rows_def)
  ultimately show ?thesis by (intro exI [of _ p] exI [of _ r] exI [of _ sv1]) (auto simp: w(3) split: sum.splits)
qed

theorem update_where_exact_witness:
  "\<exists>p r sv1. plan_query where_db planner_new update_query = Inr p \<and> portal_start p dml_ex = Some (r, sv1) \<and>
    (case r of Inl e \<Rightarrow> stopped [(''t'', rm_ex_file)] rm_ex_pages e
     | Inr ps \<Rightarrow> ps_root ps = UpdateRoot ''t'' [ex_set] [Rid 1 0] \<and> (\<exists>r' sv'. run_dml (ps_root ps) sv1 = Some (r', sv') \<and>
         (r' \<noteq> Inr () \<or> in_txn ''t'' 512 7 ex_rows [Rid 1 0 \<mapsto> ex_row] sv')))"
proof -
  have q: "q_conds update_query = [not_x_cond]" and sets: "q_sets update_query = [ex_set]" by (simp_all add: update_query_def)
  note w = where_example [OF q]
  have "in_txn ''t'' 512 (card (dom ex_rows) + 7) ex_rows ex_rows dml_ex"
    using dml_ex_ready [of 8] dml_ex_facts(3,8) wrote.nothing by (simp add: in_txn_def ex_rows_def)
  moreover have "cols_fit (table_cols where_db ''t'') 512" using dml_ex_facts(2) by (simp add: where_cols ex_tab_def)
  ultimately obtain p r sv1 where run: "plan_query where_db planner_new update_query = Inr p" "portal_start p dml_ex = Some (r, sv1)"
    "case r of Inl e \<Rightarrow> stopped [(''t'', rm_ex_file)] rm_ex_pages e
     | Inr ps \<Rightarrow> ps_root ps = UpdateRoot ''t'' (q_sets update_query) (where_rids where_db ''t'' update_query ex_rows) \<and>
        (\<exists>r' sv'. run_dml (ps_root ps) sv1 = Some (r', sv') \<and>
          (r' = Inr () \<longrightarrow> (\<exists>tab sets. get_table ''t'' where_db = Inr tab \<and> prepare_sets tab (q_sets update_query) = Inr sets \<and>
            in_txn ''t'' 512 7 ex_rows (\<lambda>p. map_option (\<lambda>b. if meets_where where_db ''t'' update_query b then apply_sets sets b else b) (ex_rows p)) sv')))"
    using update_where_exact [OF where_cols(3) where_analyzed(2) where_server w(1), of 512 7 ex_rows planner_new] by blast
  have row: "apply_sets [(ex_col, ex_row)] (replicate 512 7) = ex_row" by (simp add: apply_sets_def patch_def ex_col_def ex_row_def)
  have "(\<lambda>p. map_option (\<lambda>b. if meets_where where_db ''t'' update_query b then apply_sets [(ex_col, ex_row)] b else b) (ex_rows p)) = [Rid 1 0 \<mapsto> ex_row]"
    using w(2) row by (auto simp: ex_rows_def fun_eq_iff)
  moreover have "tab = ex_tab" if "get_table ''t'' where_db = Inr tab" for tab using that by (simp add: get_table_def where_db_def)
  ultimately show ?thesis using run ex_prepare
    by (intro exI [of _ p] exI [of _ r] exI [of _ sv1]) (fastforce simp: w(3) sets split: sum.splits)
qed

end
