(* ===== verification/Spec2Isabelle.thy ===== *)
theory Spec2Isabelle
  imports Ordering Log_Analysis Write_Ahead Record_File Ix_Search Sm_Manager Aggregate Dml Recovery_Correct Server Select_Correct Index_Bounds Where_Rows
begin

text \<open>
  A verification of RMDB, the relational database server under \<^verbatim>\<open>src/src/\<close>: a client's statement is
  parsed, analysed, planned, turned into a tree of executors and run against record files and B+ tree
  indexes, which live in pages of a buffer pool over a disk manager, under table locks and a
  write-ahead log.

  \<^bold>\<open>How the program is modelled.\<close> Every component is a state record and one definition per function of
  the source, with the source's names. An operation is a function from its state to an error or a
  result, and the new state (\<^verbatim>\<open>('s, 'a) op\<close> of \<^verbatim>\<open>Rmdb_Base\<close>); an exception or a failed \<^verbatim>\<open>assert\<close> is a value
  of \<^verbatim>\<open>rmdb_error\<close>, and the state at the throw is kept, since the server goes on after an exception; a
  failed assertion (\<^verbatim>\<open>AssertionFailure\<close>, also for a null pointer that is followed) ends the process, so no handler of the model catches it. Operations whose loops
  need not end (descents of a tree whose pages may be damaged, executors over scans, the log reader) are \<^verbatim>\<open>'s pop\<close>: their
  result is an option and \<^verbatim>\<open>None\<close> means that they run for ever (\<^verbatim>\<open>Partial_Ops\<close>). No definition of the program uses fuel; only the statement
  of \<^verbatim>\<open>scan_visits_all\<close> counts the steps of a scan, to say how many are enough. Bytes are
  numbers below 256, memory areas map offsets to bytes, and an \<^verbatim>\<open>int\<close> field is read and written as 4
  bytes in two's complement; where a computation can overflow the wrap-around is written out. Floating-point numbers are kept as
  their bits; comparisons, conversions and sums of floats are computed on the bits.

  \<^bold>\<open>The theories, from the bottom up.\<close>

    \<^item> \<^verbatim>\<open>Rmdb_Base\<close>: \<^verbatim>\<open>errors.h\<close>, \<^verbatim>\<open>defs.h\<close>, \<^verbatim>\<open>common/config.h\<close>; operations and their rules, bytes, encodings of integers, memory.
    \<^item> \<^verbatim>\<open>Partial_Ops\<close>: operations that may run for ever.
    \<^item> \<^verbatim>\<open>Values\<close>, \<^verbatim>\<open>Datetime\<close>, \<^verbatim>\<open>Ordering\<close>: \<^verbatim>\<open>common/common.h\<close> and the comparisons of \<^verbatim>\<open>execution/executor_abstract.h\<close>: values,
      casts, raw encodings, date and time strings; encodings compare as the values they encode.
    \<^item> \<^verbatim>\<open>Bitmap\<close> (\<^verbatim>\<open>record/bitmap.h\<close>), \<^verbatim>\<open>Lru_Replacer\<close> (\<^verbatim>\<open>replacer/lru_replacer.cpp\<close>), \<^verbatim>\<open>Disk\<close> (\<^verbatim>\<open>storage/disk_manager.cpp\<close>).
    \<^item> \<^verbatim>\<open>Log_Record\<close>, \<^verbatim>\<open>Log_Manager\<close>, \<^verbatim>\<open>Log_Analysis\<close>: \<^verbatim>\<open>recovery/log_manager.h\<close>, \<^verbatim>\<open>log_manager.cpp\<close> and \<^verbatim>\<open>analyze\<close> of
      \<^verbatim>\<open>log_recovery.cpp\<close>: records survive serialization, the log is a sequence of records with consecutive
      LSNs, and its analysis finds them again and classifies the transactions.
    \<^item> \<^verbatim>\<open>Buffer_Pool\<close>: \<^verbatim>\<open>storage/buffer_pool_manager.cpp\<close>: with an invariant of the page table, the free list
      and the replacer, the pool is transparent: it stands for a map from page identifiers to bytes (\<^verbatim>\<open>known\<close>).
      \<^verbatim>\<open>Write_Ahead\<close>: in every call the log is written before the pages; the disk keeps the history of its writes (\<^verbatim>\<open>writes\<close>)
      for this statement. \<^verbatim>\<open>Pool_Client\<close> and \<^verbatim>\<open>Pool_Room\<close> are for its clients: editing a pinned page, and how many frames an
      operation can take.
    \<^item> \<^verbatim>\<open>Record_File\<close>: \<^verbatim>\<open>record/*\<close>: a table file on the pool; \<^verbatim>\<open>rm_ok\<close> is its invariant (layout, counts, free
      list) and \<^verbatim>\<open>rm_table\<close> the table it stands for, a map from record positions to bytes.
    \<^item> \<^verbatim>\<open>Ix_Node\<close>, \<^verbatim>\<open>Ix_Tree\<close>, \<^verbatim>\<open>Ix_Search\<close>: \<^verbatim>\<open>index/*\<close>: nodes as sorted association lists, the operations of the
      tree, and look-up in trees of any height.
    \<^item> \<^verbatim>\<open>Catalog\<close>, \<^verbatim>\<open>Sm_Manager\<close>: \<^verbatim>\<open>system/*\<close>: the database metadata with its text form, opening a database and DDL.
    \<^item> \<^verbatim>\<open>Lock_Manager\<close>, \<^verbatim>\<open>Txn_Manager\<close>: \<^verbatim>\<open>transaction/*\<close>: locks as an inductive step relation, and begin,
      commit and abort on the state of the whole server (\<^verbatim>\<open>server\<close>, with the interface \<^verbatim>\<open>on_table\<close> to its files).
    \<^item> \<^verbatim>\<open>Executors\<close>, \<^verbatim>\<open>Table_Read\<close>, \<^verbatim>\<open>Sort_Join\<close>, \<^verbatim>\<open>Aggregate\<close>, \<^verbatim>\<open>Dml\<close>: \<^verbatim>\<open>execution/*\<close>: an executor is a record of its
      virtual functions over a state; a contract (\<^verbatim>\<open>delivers\<close>) says which rows it produces, every operator is proved against
      the contract of its inputs, and the statements that change rows against the tables.
    \<^item> \<^verbatim>\<open>Log_Replay\<close>, \<^verbatim>\<open>Recovery\<close>, \<^verbatim>\<open>Recovery_File\<close>, \<^verbatim>\<open>Recovery_Correct\<close>: redo and undo of \<^verbatim>\<open>recovery/log_recovery.cpp\<close>, as
      abstract histories of tables, as code, on one file, and on the server.
    \<^item> \<^verbatim>\<open>Printer\<close>: \<^verbatim>\<open>record_printer.h\<close>, the answer to a client.
    \<^item> \<^verbatim>\<open>Syntax\<close>, \<^verbatim>\<open>Analyzer\<close>: \<^verbatim>\<open>parser/ast.h\<close> and \<^verbatim>\<open>analyze/*\<close>: statements, and their semantic analysis against the
      catalogue; what it accepts cannot fail on a row.
    \<^item> \<^verbatim>\<open>Planner\<close>, \<^verbatim>\<open>Index_Scan\<close>, \<^verbatim>\<open>Portal\<close>: \<^verbatim>\<open>optimizer/*\<close>, \<^verbatim>\<open>execution/executor_index_scan.h\<close>, \<^verbatim>\<open>portal.h\<close> and
      \<^verbatim>\<open>execution/execution_manager.cpp\<close>: plans, their conversion to executors, and running and printing them.
    \<^item> \<^verbatim>\<open>Plan_Rows\<close>, \<^verbatim>\<open>Plan_Push\<close>, \<^verbatim>\<open>Plan_Correct\<close>, \<^verbatim>\<open>Select_Correct\<close>: what a query means, as choices of one row per
      table (\<^verbatim>\<open>choices\<close>, \<^verbatim>\<open>holds_cond\<close>), and that analysis, plan and executors together deliver it: the executors of a tree deliver
      the choices that meet its conditions, a pushed condition stands where its tables are, the tree that is built joins every
      table once and has every condition once. \<^verbatim>\<open>Index_Bounds\<close>: the bounds of an index scan lose no record that meets its conditions. \<^verbatim>\<open>Where_Rows\<close>:
      \<^verbatim>\<open>UPDATE\<close> and \<^verbatim>\<open>DELETE\<close> end to end, the positions the portal collects and the change of exactly these rows.
    \<^item> \<^verbatim>\<open>Server\<close>: \<^verbatim>\<open>rmdb.cpp\<close>: a request of a session, start-up and shut-down. The parsed statement and the texts of the errors are
      its parameters.

  \<^bold>\<open>Assumptions of the main theorems.\<close> Operations run one after another: the latches of the pool, the
  disk manager and the index are not modelled. The theorems on statements assume tables without
  indexes where they say so. \<^verbatim>\<open>select_answer_correct\<close> is about distinct open tables without indexes; columns that are compared with
  each other have one length, since the code compares over the length of the left one; a condition between two columns of one table
  is on the first table, since the code gives such a condition to the first scan, whose table it may not be.

  \<^bold>\<open>Restart.\<close> \<^verbatim>\<open>crash_recovery\<close> is about a server that has opened its files after a crash, and assumes:

    \<^item> tables without indexes (the code builds those anew from the tables), and a buffer pool with more free
      frames than there are records to take back, since undo leaves a page pinned for each of them;
    \<^item> a log of whole records and perhaps a torn one, with rising LSNs, whose changes fit the tables and follow one another;
    \<^item> \<^verbatim>\<open>ahead\<close>: every row on a page is as the changes up to the LSN of the page left it, or as a
      rollback put it back. Rollbacks of a running server are not logged and leave the LSN alone; the row may then be any earlier version
      (\<^verbatim>\<open>stands\<close>) whose later changes are all of transactions that recovery takes back, as long as the LSN of the page covers them;
    \<^item> \<^verbatim>\<open>isolated\<close>: after a transaction that recovery takes back (\<^verbatim>\<open>losers\<close>) changed a row, nobody else changed it.

  The locks do not guarantee the last condition. An abort frees them, and recovery takes the changes of the
  aborted transaction back again at every restart, with those of all other losers, since the log is never cut; so a row whose change was rolled
  back, now or before an earlier crash, must not be changed or its slot be used again by a transaction that commits. Transaction ids start from 0 in every run, so a
  transaction of an earlier run is taken back, too, when a later loser has the same id; \<^verbatim>\<open>losers\<close> counts it, and the theorem says so.

  \<^bold>\<open>Not modelled.\<close> The SQL grammar (generated lexer and parser; of the lexer only the action for integer literals is
  modelled), sockets, threads and signals of \<^verbatim>\<open>rmdb.cpp\<close>, directories (\<^verbatim>\<open>create_db\<close>, \<^verbatim>\<open>drop_db\<close>), the
  texts of error messages, debug printing, and the multi-version leftovers that nothing calls.
\<close>

end
